(* ===== verification/Prelude.thy ===== *)
theory Prelude
  imports "HOL-Library.Word"
begin

text \<open>
  What the whole development shares: the machine types of the Rust code, its error enums
  (\<^verbatim>\<open>mla/src/errors.rs\<close>), checked arithmetic, and the operations on a mutable state that may
  fail. A Rust method \<^verbatim>\<open>fn f(&mut self, ..) -> Result<A, E>\<close> is an operation
  \<open>'s \<Rightarrow> ('e + 'a) \<times> 's\<close>: the state survives an error, as \<^verbatim>\<open>&mut self\<close> does.
  The \<^verbatim>\<open>?\<close> operator is \<open>bindE\<close>; its implicit \<^verbatim>\<open>From\<close> conversion is \<open>lift_io\<close> or \<open>to_io\<close>.

  \<^verbatim>\<open>u8\<close> and \<^verbatim>\<open>u32\<close> values on which the code works bitwise are words. \<^verbatim>\<open>u64\<close> and \<^verbatim>\<open>usize\<close>
  quantities (positions, lengths, identifiers) are naturals, \<^verbatim>\<open>i64\<close> offsets are integers, and
  the bounds of the checked operations are written out; \<^verbatim>\<open>usize\<close> has 64 bits.
\<close>

unbundle bit_operations_syntax

type_synonym u8 = "8 word"
type_synonym u32 = "32 word"
type_synonym bytes = "u8 list"

named_theorems io_simps "evaluation of the failing operations"
named_theorems parse_intros "which bytes a deserializer consumes"
named_theorems print_intros "which bytes a serializer outputs"
named_theorems run_intros "which serializers succeed on a writer with room"

section \<open>Errors\<close>

text \<open>
  The kinds of \<^verbatim>\<open>std::io::Error\<close> the code tells apart. \<open>IoOther\<close> is \<^verbatim>\<open>io::Error::other\<close>, whose
  payload is a formatted message. \<^verbatim>\<open>ErrorKind::Interrupted\<close> is left out: the standard library
  retries on it. \<open>IoPanic\<close> is no kind: it stands for a panic in a method with an \<^verbatim>\<open>io::Result\<close>,
  as \<open>ConfigPanic\<close> does in one whose error is a \<^verbatim>\<open>ConfigError\<close>.
\<close>

datatype io_error = UnexpectedEof | InvalidInput | InvalidData | WriteZero | IoOther | IoPanic

datatype config_error =
    IncoherentPersistentConfig
  | CompressionLevelOutOfRange
  | NoRecipients
  | EncryptionKeyIsMissing
  | PrivateKeyNotSet
  | PrivateKeyNotFound
  | MLKEMComputationError
  | DHKEMComputationError
  | KeyCommitmentComputationError
  | KeyCommitmentCheckingError
  | KeyWrappingComputationError
  | ConfigPanic

text \<open>The strings that only carry a debug rendering of a state are dropped. \<open>Panic\<close> is not a variant of
  the code's enum: it stands for a failed \<^verbatim>\<open>unwrap\<close>, \<^verbatim>\<open>expect\<close> or \<^verbatim>\<open>assert\<close>, which ends the call.\<close>

datatype error =
    IOError io_error
  | WrongMagic
  | UnsupportedVersion
  | InvalidKeyFormat
  | WrongBlockSubFileType
  | UTF8ConversionError
  | EntryNameTooLong
  | WrongArchiveWriterState
  | AssertionError string
  | WrongReaderState string
  | WrongWriterState string
  | RandError
  | PrivateKeyNeeded
  | DeserializationError
  | SerializationError
  | MissingMetadata
  | BadAPIArgument string
  | EndOfStream
  | ConfigError config_error
  | DuplicateEntryName
  | AuthenticatedDecryptionWrongTag
  | HKDFInvalidKeyLength
  | HPKEError
  | InvalidLastTag
  | EncryptionAskedButNotMarkedPresent
  | WrongEndMagic
  | NoValidSignatureFound
  | SignatureVerificationAskedButNoSignatureLayerFound
  | MissingEndOfEncryptedInnerLayerMagic
  | TruncatedTag
  | UnknownTagPosition
  | OtherError string
  | Panic

text \<open>\<^verbatim>\<open>impl From<Error> for io::Error\<close>: always \<^verbatim>\<open>io::Error::other\<close> of the message; a panic stays one.\<close>

definition io_error_from_error :: "error \<Rightarrow> io_error" where
  "io_error_from_error e = (case e of Panic \<Rightarrow> IoPanic | _ \<Rightarrow> IoOther)"

text \<open>\<^verbatim>\<open>impl From<ConfigError> for Error\<close>; a panic stays one.\<close>

definition error_from_config_error :: "config_error \<Rightarrow> error" where
  "error_from_config_error e =
     (case e of PrivateKeyNotSet \<Rightarrow> PrivateKeyNeeded | ConfigPanic \<Rightarrow> Panic | _ \<Rightarrow> ConfigError e)"

section \<open>Operations\<close>

type_synonym ('s, 'e, 'a) op = "'s \<Rightarrow> ('e + 'a) \<times> 's"

definition ret :: "'a \<Rightarrow> ('s, 'e, 'a) op" where
  "ret a s = (Inr a, s)"

definition fail :: "'e \<Rightarrow> ('s, 'e, 'a) op" where
  "fail e s = (Inl e, s)"

definition bindE :: "('s, 'e, 'a) op \<Rightarrow> ('a \<Rightarrow> ('s, 'e, 'b) op) \<Rightarrow> ('s, 'e, 'b) op" where
  "bindE m k s = (case m s of (Inl e, s') \<Rightarrow> (Inl e, s') | (Inr a, s') \<Rightarrow> k a s')"

text \<open>\<^verbatim>\<open>map_err\<close> on the result of an operation.\<close>

definition map_errE :: "('e \<Rightarrow> 'f) \<Rightarrow> ('s, 'e, 'a) op \<Rightarrow> ('s, 'f, 'a) op" where
  "map_errE f m s = (case m s of (Inl e, s') \<Rightarrow> (Inl (f e), s') | (Inr a, s') \<Rightarrow> (Inr a, s'))"

definition lift_io :: "('s, io_error, 'a) op \<Rightarrow> ('s, error, 'a) op" where
  "lift_io = map_errE IOError"

definition to_io :: "('s, error, 'a) op \<Rightarrow> ('s, io_error, 'a) op" where
  "to_io = map_errE io_error_from_error"

text \<open>A pure result used inside an operation, as in \<^verbatim>\<open>x.checked_add(y).ok_or(e)?\<close>.\<close>

definition ok_or :: "'e \<Rightarrow> 'a option \<Rightarrow> 'e + 'a" where
  "ok_or e x = (case x of None \<Rightarrow> Inl e | Some a \<Rightarrow> Inr a)"

definition lift_res :: "'e + 'a \<Rightarrow> ('s, 'e, 'a) op" where
  "lift_res r s = (r, s)"

text \<open>The operation of a component run on the field of a larger state.\<close>

definition on_field :: "('t \<Rightarrow> 's) \<Rightarrow> ('s \<Rightarrow> 't \<Rightarrow> 't) \<Rightarrow> ('s, 'e, 'a) op \<Rightarrow> ('t, 'e, 'a) op" where
  "on_field get put m t = (case m (get t) of (r, s') \<Rightarrow> (r, put s' t))"

lemma ret_apply [io_simps]: "ret a s = (Inr a, s)"
  by (simp add: ret_def)

lemma fail_apply [io_simps]: "fail e s = (Inl e, s)"
  by (simp add: fail_def)

lemma bindE_Inr [io_simps]: "m s = (Inr a, s') \<Longrightarrow> bindE m k s = k a s'"
  by (simp add: bindE_def)

lemma bindE_Inl [io_simps]: "m s = (Inl e, s') \<Longrightarrow> bindE m k s = (Inl e, s')"
  by (simp add: bindE_def)

lemma map_errE_Inr [io_simps]: "m s = (Inr a, s') \<Longrightarrow> map_errE f m s = (Inr a, s')"
  by (simp add: map_errE_def)

lemma map_errE_Inl [io_simps]: "m s = (Inl e, s') \<Longrightarrow> map_errE f m s = (Inl (f e), s')"
  by (simp add: map_errE_def)

lemma lift_io_Inr [io_simps]: "m s = (Inr a, s') \<Longrightarrow> lift_io m s = (Inr a, s')"
  by (simp add: lift_io_def map_errE_Inr)

lemma lift_io_Inl [io_simps]: "m s = (Inl e, s') \<Longrightarrow> lift_io m s = (Inl (IOError e), s')"
  by (simp add: lift_io_def map_errE_Inl)

lemma to_io_Inr [io_simps]: "m s = (Inr a, s') \<Longrightarrow> to_io m s = (Inr a, s')"
  by (simp add: to_io_def map_errE_Inr)

lemma to_io_Inl [io_simps]: "m s = (Inl e, s') \<Longrightarrow> to_io m s = (Inl (io_error_from_error e), s')"
  by (simp add: to_io_def map_errE_Inl)

lemma lift_res_apply [io_simps]: "lift_res r s = (r, s)"
  by (simp add: lift_res_def)

lemma ok_or_Some [simp]: "ok_or e (Some a) = Inr a"
  by (simp add: ok_or_def)

lemma ok_or_None [simp]: "ok_or e None = Inl e"
  by (simp add: ok_or_def)

lemma bindE_InrE:
  assumes "bindE m k s = (Inr b, t)"
  obtains a s' where "m s = (Inr a, s')" "k a s' = (Inr b, t)"
  using assms by (cases "m s") (auto simp: bindE_def split: sum.splits)

lemma map_errE_InrD: "map_errE f m s = (Inr a, t) \<Longrightarrow> m s = (Inr a, t)"
  by (cases "m s") (auto simp: map_errE_def split: sum.splits)

lemma lift_io_InrD: "lift_io m s = (Inr a, t) \<Longrightarrow> m s = (Inr a, t)"
  unfolding lift_io_def by (rule map_errE_InrD)

lemma to_io_InrD: "to_io m s = (Inr a, t) \<Longrightarrow> m s = (Inr a, t)"
  unfolding to_io_def by (rule map_errE_InrD)

lemma ok_or_InrD: "ok_or e x = Inr a \<Longrightarrow> x = Some a"
  by (cases x) auto

section \<open>Checked arithmetic of 64-bit integers\<close>

definition checked_add :: "nat \<Rightarrow> nat \<Rightarrow> nat option" where
  "checked_add a b = (if a + b < 2 ^ 64 then Some (a + b) else None)"

definition checked_sub :: "nat \<Rightarrow> nat \<Rightarrow> nat option" where
  "checked_sub a b = (if b \<le> a then Some (a - b) else None)"

definition checked_mul :: "nat \<Rightarrow> nat \<Rightarrow> nat option" where
  "checked_mul a b = (if a * b < 2 ^ 64 then Some (a * b) else None)"

definition checked_add_u32 :: "nat \<Rightarrow> nat \<Rightarrow> nat option" where
  "checked_add_u32 a b = (if a + b < 2 ^ 32 then Some (a + b) else None)"

definition checked_add_signed :: "nat \<Rightarrow> int \<Rightarrow> nat option" where
  "checked_add_signed a i =
     (if 0 \<le> int a + i \<and> int a + i < 2 ^ 64 then Some (nat (int a + i)) else None)"

definition checked_neg_i64 :: "int \<Rightarrow> int option" where
  "checked_neg_i64 i = (if i = - (2 ^ 63) then None else Some (- i))"

definition checked_add_i64 :: "int \<Rightarrow> int \<Rightarrow> int option" where
  "checked_add_i64 a b =
     (if - (2 ^ 63) \<le> a + b \<and> a + b < 2 ^ 63 then Some (a + b) else None)"

definition checked_sub_unsigned :: "int \<Rightarrow> nat \<Rightarrow> int option" where
  "checked_sub_unsigned i n = (if - (2 ^ 63) \<le> i - int n then Some (i - int n) else None)"

text \<open>\<^verbatim>\<open>i64::try_from(u64)\<close> and \<^verbatim>\<open>u64::try_from(i64)\<close>\<close>

definition i64_try_from :: "nat \<Rightarrow> int option" where
  "i64_try_from n = (if n < 2 ^ 63 then Some (int n) else None)"

definition u64_try_from_i64 :: "int \<Rightarrow> nat option" where
  "u64_try_from_i64 i = (if 0 \<le> i then Some (nat i) else None)"

definition u32_try_from :: "nat \<Rightarrow> nat option" where
  "u32_try_from n = (if n < 2 ^ 32 then Some n else None)"

lemmas checked_defs =
  checked_add_def checked_sub_def checked_mul_def checked_add_u32_def checked_add_signed_def
  checked_neg_i64_def checked_add_i64_def checked_sub_unsigned_def i64_try_from_def
  u64_try_from_i64_def u32_try_from_def

section \<open>Exhaustive checks on bytes\<close>

lemma u8_exhaust:
  assumes "list_all (\<lambda>k. P (word_of_nat k :: u8)) [0..<256]"
  shows "P b"
proof -
  have "unat b < 256"
    using unsigned_less [of b, where ?'a = nat] by simp
  then have "unat b \<in> set [0..<256]" by simp
  with assms have "P (word_of_nat (unat b))"
    unfolding list_all_iff by (rule bspec)
  then show ?thesis by simp
qed

section \<open>Little-endian integers and ASCII literals\<close>

fun to_le :: "nat \<Rightarrow> nat \<Rightarrow> bytes" where
  "to_le 0 n = []"
| "to_le (Suc k) n = word_of_nat (n mod 256) # to_le k (n div 256)"

fun from_le :: "bytes \<Rightarrow> nat" where
  "from_le [] = 0"
| "from_le (b # bs) = unat b + 256 * from_le bs"

definition to_be :: "nat \<Rightarrow> nat \<Rightarrow> bytes" where
  "to_be k n = rev (to_le k n)"

definition ascii :: "string \<Rightarrow> bytes" where
  "ascii s = map (\<lambda>c. word_of_nat (of_char c)) s"

lemma length_to_le [simp]: "length (to_le k n) = k"
  by (induction k arbitrary: n) auto

lemma length_to_be [simp]: "length (to_be k n) = k"
  by (simp add: to_be_def)

lemma length_ascii [simp]: "length (ascii s) = length s"
  by (simp add: ascii_def)

lemma unat_word_of_nat_mod_256: "unat (word_of_nat (n mod 256) :: u8) = n mod 256"
  by (simp add: unat_of_nat)

lemma from_to_le: "n < 256 ^ k \<Longrightarrow> from_le (to_le k n) = n"
proof (induction k arbitrary: n)
  case 0
  then show ?case by simp
next
  case (Suc k)
  have "n div 256 < 256 ^ k"
    using Suc.prems by (simp add: less_mult_imp_div_less mult.commute)
  then have "from_le (to_le k (n div 256)) = n div 256"
    by (rule Suc.IH)
  then show ?case
    by (simp add: unat_word_of_nat_mod_256)
qed

lemma from_le_bound: "from_le bs < 256 ^ length bs"
proof (induction bs)
  case Nil
  then show ?case by simp
next
  case (Cons b bs)
  have "unat b < 256"
    using unsigned_less [of b, where ?'a = nat] by simp
  moreover have "from_le bs + 1 \<le> 256 ^ length bs"
    using Cons.IH by simp
  then have "256 * (from_le bs + 1) \<le> 256 * 256 ^ length bs"
    by (rule mult_le_mono2)
  ultimately show ?case by simp
qed

lemma to_from_le: "to_le (length bs) (from_le bs) = bs"
proof (induction bs)
  case Nil
  then show ?case by simp
next
  case (Cons b bs)
  have b: "unat b < 256"
    using unsigned_less [of b, where ?'a = nat] by simp
  then have "(unat b + 256 * from_le bs) mod 256 = unat b"
    and "(unat b + 256 * from_le bs) div 256 = from_le bs"
    by simp_all
  then show ?case
    using Cons.IH by simp
qed

lemma to_le_inj: "n < 256 ^ k \<Longrightarrow> m < 256 ^ k \<Longrightarrow> to_le k n = to_le k m \<Longrightarrow> n = m"
  by (metis from_to_le)

end
