(* ===== verification/Io.thy ===== *)
theory Io
  imports Prelude
begin

text \<open>
  The part of \<^verbatim>\<open>std::io\<close> the code relies on. A reader is given by its \<^verbatim>\<open>Read::read\<close> operation
  (how many bytes are asked for, the bytes it delivers) and its \<^verbatim>\<open>Seek::seek\<close> operation, a writer
  by \<^verbatim>\<open>Write::write\<close>. The provided methods of the traits (\<^verbatim>\<open>read_exact\<close>, \<^verbatim>\<open>take(n).read_to_end\<close>,
  \<^verbatim>\<open>write_all\<close>, \<^verbatim>\<open>io::copy\<close>) are the loops of the standard library over those.

  The contracts of the traits are the locales \<open>source\<close>, \<open>seekable\<close> and \<open>sink\<close>: a reader has a view
  (all the bytes it gives access to) and a position in it; a writer has an output. Every layer of the
  archive is a client of one such interface and a provider of the same interface, so the lemmas
  about parsing and printing are proved once, for any reader or writer that keeps the contract.
\<close>

datatype seek_from = SeekStart nat | SeekEnd int | SeekCurrent int

section \<open>Provided methods of Read, Write and io::copy\<close>

function read_exact ::
  "(nat \<Rightarrow> ('r, io_error, bytes) op) \<Rightarrow> nat \<Rightarrow> ('r, io_error, bytes) op" where
  "read_exact rd n s =
     (if n = 0 then (Inr [], s)
      else case rd n s of
          (Inl e, s') \<Rightarrow> (Inl e, s')
        | (Inr bs, s') \<Rightarrow>
            (if bs = [] then (Inl UnexpectedEof, s')
             else case read_exact rd (n - length bs) s' of
                 (Inl e, s'') \<Rightarrow> (Inl e, s'')
               | (Inr bs', s'') \<Rightarrow> (Inr (bs @ bs'), s'')))"
  by pat_completeness auto
termination
  by (relation "measure (\<lambda>(rd, n, s). n)") auto

declare read_exact.simps [simp del]

text \<open>\<^verbatim>\<open>src.take(n).read_to_end(&mut v)\<close>; \<^verbatim>\<open>take\<close> alone bounds a single read by \<^verbatim>\<open>min\<close>.\<close>

function take_read_to_end ::
  "(nat \<Rightarrow> ('r, io_error, bytes) op) \<Rightarrow> nat \<Rightarrow> ('r, io_error, bytes) op" where
  "take_read_to_end rd n s =
     (if n = 0 then (Inr [], s)
      else case rd n s of
          (Inl e, s') \<Rightarrow> (Inl e, s')
        | (Inr bs, s') \<Rightarrow>
            (if bs = [] then (Inr [], s')
             else case take_read_to_end rd (n - length bs) s' of
                 (Inl e, s'') \<Rightarrow> (Inl e, s'')
               | (Inr bs', s'') \<Rightarrow> (Inr (bs @ bs'), s'')))"
  by pat_completeness auto
termination
  by (relation "measure (\<lambda>(rd, n, s). n)") auto

declare take_read_to_end.simps [simp del]

text \<open>\<^verbatim>\<open>src.by_ref().take(limit).read(into)\<close>\<close>

definition take_read ::
  "(nat \<Rightarrow> ('r, io_error, bytes) op) \<Rightarrow> nat \<Rightarrow> nat \<Rightarrow> ('r, io_error, bytes) op" where
  "take_read rd limit n s = (if limit = 0 then (Inr [], s) else rd (min n limit) s)"

text \<open>A vector never grows past \<^verbatim>\<open>isize::MAX\<close> bytes, which bounds an unlimited \<^verbatim>\<open>read_to_end\<close>.\<close>

definition read_to_end :: "(nat \<Rightarrow> ('r, io_error, bytes) op) \<Rightarrow> ('r, io_error, bytes) op" where
  "read_to_end rd = take_read_to_end rd (2 ^ 63 - 1)"

function write_all ::
  "(bytes \<Rightarrow> ('w, io_error, nat) op) \<Rightarrow> bytes \<Rightarrow> ('w, io_error, unit) op" where
  "write_all wr bs s =
     (if bs = [] then (Inr (), s)
      else case wr bs s of
          (Inl e, s') \<Rightarrow> (Inl e, s')
        | (Inr k, s') \<Rightarrow>
            (if k = 0 then (Inl WriteZero, s') else write_all wr (drop k bs) s'))"
  by pat_completeness auto
termination
  by (relation "measure (\<lambda>(wr, bs, s). length bs)") auto

declare write_all.simps [simp del]

text \<open>\<^verbatim>\<open>io::copy(&mut src.take(n), &mut dst)\<close>, with the buffer of 8 KiB of the standard library.\<close>

definition COPY_BUF_SIZE :: nat where
  "COPY_BUF_SIZE = 8192"

function copy_take ::
  "(nat \<Rightarrow> ('r, io_error, bytes) op) \<Rightarrow> (bytes \<Rightarrow> ('w, io_error, nat) op) \<Rightarrow>
   nat \<Rightarrow> ('r \<times> 'w, io_error, unit) op" where
  "copy_take rd wr n s =
     (if n = 0 then (Inr (), s)
      else case rd (min n COPY_BUF_SIZE) (fst s) of
          (Inl e, r') \<Rightarrow> (Inl e, (r', snd s))
        | (Inr bs, r') \<Rightarrow>
            (if bs = [] then (Inr (), (r', snd s))
             else case write_all wr bs (snd s) of
                 (Inl e, w') \<Rightarrow> (Inl e, (r', w'))
               | (Inr _, w') \<Rightarrow> copy_take rd wr (n - length bs) (r', w')))"
  by pat_completeness auto
termination
  by (relation "measure (\<lambda>(rd, wr, n, s). n)") auto

declare copy_take.simps [simp del]

text \<open>\<^verbatim>\<open>io::sink()\<close>\<close>

definition sink_write :: "bytes \<Rightarrow> (unit, io_error, nat) op" where
  "sink_write bs w = (Inr (length bs), ())"

definition stream_position :: "(seek_from \<Rightarrow> ('r, io_error, nat) op) \<Rightarrow> ('r, io_error, nat) op" where
  "stream_position sk = sk (SeekCurrent 0)"

definition rewind :: "(seek_from \<Rightarrow> ('r, io_error, nat) op) \<Rightarrow> ('r, io_error, unit) op" where
  "rewind sk = bindE (sk (SeekStart 0)) (\<lambda>_. ret ())"

section \<open>The contract of a reader\<close>

locale source =
  fixes rd :: "nat \<Rightarrow> ('r, io_error, bytes) op"
    and view :: "'r \<Rightarrow> bytes"
    and pos :: "'r \<Rightarrow> nat"
    and inv :: "'r \<Rightarrow> bool"
  assumes read_ok:
    "inv s \<Longrightarrow> pos s < length (view s) \<Longrightarrow>
       \<exists>k s'. rd n s = (Inr (take k (drop (pos s) (view s))), s') \<and> k \<le> n \<and>
         k \<le> length (view s) - pos s \<and> (0 < n \<longrightarrow> 0 < k) \<and>
         inv s' \<and> view s' = view s \<and> pos s' = pos s + k"
begin

definition rest :: "'r \<Rightarrow> bytes" where
  "rest s = drop (pos s) (view s)"

definition yields :: "('r, 'e, 'a) op \<Rightarrow> 'r \<Rightarrow> 'a \<Rightarrow> nat \<Rightarrow> bool" where
  "yields m s a n \<longleftrightarrow>
     (\<exists>s'. m s = (Inr a, s') \<and> inv s' \<and> view s' = view s \<and> pos s' = pos s + n)"

text \<open>The operation reads exactly the bytes \<open>bs\<close>, whatever follows them, and returns \<open>a\<close>.\<close>

definition parses :: "('r, 'e, 'a) op \<Rightarrow> bytes \<Rightarrow> 'a \<Rightarrow> bool" where
  "parses m bs a \<longleftrightarrow> (\<forall>s t. inv s \<longrightarrow> rest s = bs @ t \<longrightarrow> yields m s a (length bs))"

lemma readE:
  assumes "inv s" and "rest s \<noteq> []"
  obtains k s' where "rd n s = (Inr (take k (rest s)), s')" "k \<le> n" "k \<le> length (rest s)"
    "0 < n \<longrightarrow> 0 < k" "inv s'" "view s' = view s" "pos s' = pos s + k" "rest s' = drop k (rest s)"
proof -
  have "pos s < length (view s)" using assms(2) by (simp add: rest_def)
  from read_ok [OF assms(1) this, of n] obtain k s' where
    h: "rd n s = (Inr (take k (drop (pos s) (view s))), s')" "k \<le> n"
      "k \<le> length (view s) - pos s" "0 < n \<longrightarrow> 0 < k"
      "inv s'" "view s' = view s" "pos s' = pos s + k"
    by blast
  show thesis
    by (rule that [of k s']) (use h in \<open>auto simp: rest_def add.commute\<close>)
qed

lemma yieldsE:
  assumes "yields m s a n"
  obtains s' where "m s = (Inr a, s')" "inv s'" "view s' = view s" "pos s' = pos s + n"
    "rest s' = drop n (rest s)"
proof -
  from assms obtain s' where "m s = (Inr a, s')" "inv s'" "view s' = view s" "pos s' = pos s + n"
    unfolding yields_def by blast
  moreover from this have "rest s' = drop n (rest s)"
    by (simp add: rest_def add.commute)
  ultimately show thesis by (rule that)
qed

lemma yields_trans:
  assumes "m s = (Inr a, s')" "inv s'" "view s' = view s" "pos s' = pos s + n"
    and "yields m' s' b n'" and "m'' s = m' s'"
  shows "yields m'' s b (n + n')"
  using assms unfolding yields_def by (auto simp: add.assoc)

lemma yields_bindE:
  assumes "yields m s a n"
    and "\<And>s'. inv s' \<Longrightarrow> view s' = view s \<Longrightarrow> pos s' = pos s + n \<Longrightarrow>
           rest s' = drop n (rest s) \<Longrightarrow> yields (k a) s' b n'"
  shows "yields (bindE m k) s b (n + n')"
proof -
  from assms(1) obtain s' where s': "m s = (Inr a, s')" "inv s'" "view s' = view s"
    "pos s' = pos s + n" "rest s' = drop n (rest s)"
    by (rule yieldsE)
  have "yields (k a) s' b n'"
    using s' by (intro assms(2))
  with s'(1-4) show ?thesis
    by (rule yields_trans) (simp add: bindE_Inr s'(1))
qed

lemma read_exact_yields:
  "inv s \<Longrightarrow> n \<le> length (rest s) \<Longrightarrow> yields (read_exact rd n) s (take n (rest s)) n"
proof (induction n arbitrary: s rule: less_induct)
  case (less n)
  show ?case
  proof (cases "n = 0")
    case True
    with less.prems show ?thesis
      by (simp add: yields_def read_exact.simps)
  next
    case False
    with less.prems(2) have "rest s \<noteq> []" by auto
    with less.prems(1) obtain k s' where k: "rd n s = (Inr (take k (rest s)), s')" "k \<le> n"
      "k \<le> length (rest s)" "0 < n \<longrightarrow> 0 < k"
      "inv s'" "view s' = view s" "pos s' = pos s + k" "rest s' = drop k (rest s)"
      by (rule readE [of s n])
    have pos: "0 < k" using False k(4) by auto
    then have ne: "take k (rest s) \<noteq> []" using k(3) by auto
    have "yields (read_exact rd (n - k)) s' (take (n - k) (rest s')) (n - k)"
      by (rule less.IH) (use pos False k less.prems in auto)
    then obtain s'' where s'': "read_exact rd (n - k) s' = (Inr (take (n - k) (rest s')), s'')"
      "inv s''" "view s'' = view s'" "pos s'' = pos s' + (n - k)"
      by (rule yieldsE)
    have "read_exact rd n s = (Inr (take n (rest s)), s'')"
      using False k(1,2,3) ne s''(1) k(8)
      by (subst read_exact.simps) (simp add: min_absorb2 flip: take_add)
    with s'' k show ?thesis by (simp add: yields_def)
  qed
qed

lemma take_read_to_end_yields:
  "inv s \<Longrightarrow> n \<le> length (rest s) \<Longrightarrow> yields (take_read_to_end rd n) s (take n (rest s)) n"
proof (induction n arbitrary: s rule: less_induct)
  case (less n)
  show ?case
  proof (cases "n = 0")
    case True
    with less.prems show ?thesis
      by (simp add: yields_def take_read_to_end.simps)
  next
    case False
    with less.prems(2) have "rest s \<noteq> []" by auto
    with less.prems(1) obtain k s' where k: "rd n s = (Inr (take k (rest s)), s')" "k \<le> n"
      "k \<le> length (rest s)" "0 < n \<longrightarrow> 0 < k"
      "inv s'" "view s' = view s" "pos s' = pos s + k" "rest s' = drop k (rest s)"
      by (rule readE [of s n])
    have pos: "0 < k" using False k(4) by auto
    then have ne: "take k (rest s) \<noteq> []" using k(3) by auto
    have "yields (take_read_to_end rd (n - k)) s' (take (n - k) (rest s')) (n - k)"
      by (rule less.IH) (use pos False k less.prems in auto)
    then obtain s'' where s'': "take_read_to_end rd (n - k) s' = (Inr (take (n - k) (rest s')), s'')"
      "inv s''" "view s'' = view s'" "pos s'' = pos s' + (n - k)"
      by (rule yieldsE)
    have "take_read_to_end rd n s = (Inr (take n (rest s)), s'')"
      using False k(1,2,3) ne s''(1) k(8)
      by (subst take_read_to_end.simps) (simp add: min_absorb2 flip: take_add)
    with s'' k show ?thesis by (simp add: yields_def)
  qed
qed

text \<open>How parsers compose.\<close>

lemma parsesI:
  "(\<And>s t. inv s \<Longrightarrow> rest s = bs @ t \<Longrightarrow> yields m s a (length bs)) \<Longrightarrow> parses m bs a"
  by (simp add: parses_def)

lemma parsesD: "parses m bs a \<Longrightarrow> inv s \<Longrightarrow> rest s = bs @ t \<Longrightarrow> yields m s a (length bs)"
  by (simp add: parses_def)

lemma parses_ret [parse_intros]: "parses (ret a) [] a"
  by (auto intro!: parsesI simp: yields_def ret_def)

lemma parses_bindE [parse_intros]:
  assumes "parses m bs a" and "parses (k a) cs b"
  shows "parses (bindE m k) (bs @ cs) b"
proof (rule parsesI)
  fix s t assume "inv s" and r: "rest s = (bs @ cs) @ t"
  from r have "rest s = bs @ (cs @ t)" by simp
  with \<open>inv s\<close> assms(1) have "yields m s a (length bs)"
    by (intro parsesD)
  then have "yields (bindE m k) s b (length bs + length cs)"
    by (rule yields_bindE) (rule parsesD [OF assms(2)], simp_all add: r)
  then show "yields (bindE m k) s b (length (bs @ cs))" by simp
qed

lemma parses_last: "parses m bs a \<Longrightarrow> parses (k a) [] b \<Longrightarrow> parses (bindE m k) bs b"
  using parses_bindE [of m bs a k "[]" b] by simp

lemma parses_skip: "parses m [] a \<Longrightarrow> parses (k a) cs b \<Longrightarrow> parses (bindE m k) cs b"
  using parses_bindE [of m "[]" a k cs b] by simp

lemma parses_bindE_ret: "parses m bs a \<Longrightarrow> parses (bindE m (\<lambda>x. ret (f x))) bs (f a)"
  by (rule parses_last, assumption, rule parses_ret)

lemma parses_cong: "parses m bs a \<Longrightarrow> bs = cs \<Longrightarrow> a = b \<Longrightarrow> parses m cs b"
  by simp

lemma parses_map_errE: "parses m bs a \<Longrightarrow> parses (map_errE f m) bs a"
  unfolding parses_def yields_def by (blast intro: map_errE_Inr)

lemma parses_lift_io [parse_intros]: "parses m bs a \<Longrightarrow> parses (lift_io m) bs a"
  by (simp add: lift_io_def parses_map_errE)

lemma parses_to_io [parse_intros]: "parses m bs a \<Longrightarrow> parses (to_io m) bs a"
  by (simp add: to_io_def parses_map_errE)

lemma parses_lift_res [parse_intros]: "r = Inr a \<Longrightarrow> parses (lift_res r) [] a"
  by (auto intro!: parsesI simp: yields_def lift_res_def)

lemma parses_read_exact [parse_intros]: "n = length bs \<Longrightarrow> parses (read_exact rd n) bs bs"
proof (rule parsesI)
  fix s t assume "n = length bs" "inv s" "rest s = bs @ t"
  then show "yields (read_exact rd n) s bs (length bs)"
    using read_exact_yields [of s n] by simp
qed

lemma parses_take_read_to_end [parse_intros]:
  "n = length bs \<Longrightarrow> parses (take_read_to_end rd n) bs bs"
proof (rule parsesI)
  fix s t assume "n = length bs" "inv s" "rest s = bs @ t"
  then show "yields (take_read_to_end rd n) s bs (length bs)"
    using take_read_to_end_yields [of s n] by simp
qed

end

section \<open>The contract of a reader that stops at the end\<close>

locale eof_source = source rd view pos inv
  for rd :: "nat \<Rightarrow> ('r, io_error, bytes) op"
    and view :: "'r \<Rightarrow> bytes"
    and pos :: "'r \<Rightarrow> nat"
    and inv :: "'r \<Rightarrow> bool" +
  assumes read_eof: "inv s \<Longrightarrow> length (view s) \<le> pos s \<Longrightarrow>
    \<exists>s'. rd n s = (Inr [], s') \<and> inv s' \<and> view s' = view s \<and> pos s' = pos s"
begin

lemma read_exact_eof:
  "inv s \<Longrightarrow> length (rest s) < n \<Longrightarrow>
   \<exists>s'. read_exact rd n s = (Inl UnexpectedEof, s') \<and> inv s' \<and> view s' = view s"
proof (induction n arbitrary: s rule: less_induct)
  case (less n)
  show ?case
  proof (cases "rest s = []")
    case True
    then show ?thesis
      using less.prems read_eof [of s n] by (subst read_exact.simps) (auto simp: rest_def)
  next
    case False
    with less.prems(1) obtain k s' where k: "rd n s = (Inr (take k (rest s)), s')" "k \<le> n"
      "k \<le> length (rest s)" "0 < n \<longrightarrow> 0 < k"
      "inv s'" "view s' = view s" "pos s' = pos s + k" "rest s' = drop k (rest s)"
      by (rule readE [of s n])
    then have "0 < k" using less.prems by auto
    then have "\<exists>s''. read_exact rd (n - k) s' = (Inl UnexpectedEof, s'') \<and> inv s'' \<and> view s'' = view s'"
      by (intro less.IH) (use k less.prems in auto)
    then show ?thesis
      using less.prems k False \<open>0 < k\<close> by (subst read_exact.simps) (auto simp: min_absorb2)
  qed
qed

lemma take_read_to_end_all:
  "inv s \<Longrightarrow> length (rest s) < n \<Longrightarrow> yields (take_read_to_end rd n) s (rest s) (length (rest s))"
proof (induction n arbitrary: s rule: less_induct)
  case (less n)
  show ?case
  proof (cases "rest s = []")
    case True
    then show ?thesis
      using less.prems read_eof [of s n]
      by (subst yields_def, subst take_read_to_end.simps) (auto simp: rest_def)
  next
    case False
    with less.prems(1) obtain k s' where k: "rd n s = (Inr (take k (rest s)), s')" "k \<le> n"
      "k \<le> length (rest s)" "0 < n \<longrightarrow> 0 < k"
      "inv s'" "view s' = view s" "pos s' = pos s + k" "rest s' = drop k (rest s)"
      by (rule readE [of s n])
    then have pos: "0 < k" using less.prems by auto
    then have ne: "take k (rest s) \<noteq> []" using False by simp
    have "yields (take_read_to_end rd (n - k)) s' (rest s') (length (rest s'))"
      by (rule less.IH) (use pos k less.prems in auto)
    then obtain s'' where s'': "take_read_to_end rd (n - k) s' = (Inr (rest s'), s'')"
      "inv s''" "view s'' = view s'" "pos s'' = pos s' + length (rest s')"
      by (rule yieldsE)
    have "take_read_to_end rd n s = (Inr (rest s), s'')"
      using less.prems k(1,2,3) ne s''(1) k(8)
      by (subst take_read_to_end.simps) (simp add: min_absorb2)
    with s'' k show ?thesis by (simp add: yields_def)
  qed
qed

end

section \<open>The contract of a seekable reader\<close>

locale start_seekable = source rd view pos inv
  for rd :: "nat \<Rightarrow> ('r, io_error, bytes) op"
    and view :: "'r \<Rightarrow> bytes"
    and pos :: "'r \<Rightarrow> nat"
    and inv :: "'r \<Rightarrow> bool" +
  fixes sk :: "seek_from \<Rightarrow> ('r, io_error, nat) op"
  assumes seek_start: "inv s \<Longrightarrow> p < length (view s) \<Longrightarrow>
      \<exists>s'. sk (SeekStart p) s = (Inr p, s') \<and> inv s' \<and> view s' = view s \<and> pos s' = p"
begin

lemma rewind_ok:
  "inv s \<Longrightarrow> view s \<noteq> [] \<Longrightarrow>
   \<exists>s'. rewind sk s = (Inr (), s') \<and> inv s' \<and> view s' = view s \<and> pos s' = 0"
  using seek_start [of s 0] by (auto simp: rewind_def io_simps bindE_def ret_def)

lemma seek_startE:
  assumes "inv s" and "p < length (view s)"
  obtains s' where "sk (SeekStart p) s = (Inr p, s')" "inv s'" "view s' = view s" "pos s' = p"
    "rest s' = drop p (view s)"
proof -
  from seek_start [OF assms] obtain s' where
    s': "sk (SeekStart p) s = (Inr p, s')" "inv s'" "view s' = view s" "pos s' = p" by blast
  then have "rest s' = drop p (view s)" by (simp add: rest_def)
  with s' show thesis by (rule that)
qed

end

locale seekable = start_seekable rd view pos inv sk
  for rd :: "nat \<Rightarrow> ('r, io_error, bytes) op"
    and view :: "'r \<Rightarrow> bytes"
    and pos :: "'r \<Rightarrow> nat"
    and inv :: "'r \<Rightarrow> bool"
    and sk :: "seek_from \<Rightarrow> ('r, io_error, nat) op" +
  assumes seek_end: "inv s \<Longrightarrow> 0 < d \<Longrightarrow> d \<le> length (view s) \<Longrightarrow>
      \<exists>s'. sk (SeekEnd (- int d)) s = (Inr (length (view s) - d), s') \<and> inv s' \<and>
        view s' = view s \<and> pos s' = length (view s) - d"
    and seek_current: "inv s \<Longrightarrow> pos s \<le> length (view s) \<Longrightarrow> 0 \<le> int (pos s) + i \<Longrightarrow>
      int (pos s) + i < int (length (view s)) \<Longrightarrow>
      \<exists>s'. sk (SeekCurrent i) s = (Inr (nat (int (pos s) + i)), s') \<and> inv s' \<and>
        view s' = view s \<and> pos s' = nat (int (pos s) + i)"

section \<open>The contract of a writer\<close>

text \<open>Partial: a write may fail; when it succeeds, a prefix of the buffer has been output. Empty buffers
  are left out: \<^verbatim>\<open>write_all\<close> and \<^verbatim>\<open>io::copy\<close> never write them.\<close>

locale sink =
  fixes wr :: "bytes \<Rightarrow> ('w, io_error, nat) op"
    and out :: "'w \<Rightarrow> bytes"
    and winv :: "'w \<Rightarrow> bool"
  assumes write_ok: "winv w \<Longrightarrow> bs \<noteq> [] \<Longrightarrow> wr bs w = (Inr k, w') \<Longrightarrow>
      winv w' \<and> out w' = out w @ take k bs \<and> k \<le> length bs"
begin

lemma write_all_out:
  "winv w \<Longrightarrow> write_all wr bs w = (Inr u, w') \<Longrightarrow> winv w' \<and> out w' = out w @ bs"
proof (induction "length bs" arbitrary: bs w rule: less_induct)
  case less
  show ?case
  proof (cases "bs = []")
    case True
    with less.prems show ?thesis by (simp add: write_all.simps)
  next
    case False
    with less.prems(2) obtain k w1 where k: "wr bs w = (Inr k, w1)" "0 < k"
      "write_all wr (drop k bs) w1 = (Inr u, w')"
      by (subst (asm) write_all.simps) (auto split: prod.splits sum.splits if_splits)
    have w1: "winv w1" "out w1 = out w @ take k bs" "k \<le> length bs"
      using write_ok [OF less.prems(1) False k(1)] by auto
    have "winv w' \<and> out w' = out w1 @ drop k bs"
      using False k w1(1) by (intro less.hyps) auto
    with w1 show ?thesis by simp
  qed
qed

text \<open>The operation, when it succeeds, outputs exactly \<open>bs\<close> and returns \<open>a\<close>.\<close>

definition prints :: "('w, 'e, 'a) op \<Rightarrow> bytes \<Rightarrow> 'a \<Rightarrow> bool" where
  "prints m bs a \<longleftrightarrow>
     (\<forall>w r w'. winv w \<longrightarrow> m w = (Inr r, w') \<longrightarrow> winv w' \<and> out w' = out w @ bs \<and> r = a)"

lemma printsI:
  "(\<And>w r w'. winv w \<Longrightarrow> m w = (Inr r, w') \<Longrightarrow> winv w' \<and> out w' = out w @ bs \<and> r = a) \<Longrightarrow>
   prints m bs a"
  by (simp add: prints_def)

lemma printsD:
  "prints m bs a \<Longrightarrow> winv w \<Longrightarrow> m w = (Inr r, w') \<Longrightarrow> winv w' \<and> out w' = out w @ bs \<and> r = a"
  by (simp add: prints_def)

lemma prints_ret [print_intros]: "prints (ret a) [] a"
  by (auto intro!: printsI simp: ret_def)

lemma prints_fail [print_intros]: "prints (fail e) bs a"
  by (auto intro!: printsI simp: fail_def)

lemma prints_bindE [print_intros]:
  assumes "prints m bs a" and "prints (k a) cs b"
  shows "prints (bindE m k) (bs @ cs) b"
proof (rule printsI)
  fix w r w' assume w: "winv w" "bindE m k w = (Inr r, w')"
  from w(2) obtain a' w1 where m: "m w = (Inr a', w1)" "k a' w1 = (Inr r, w')"
    by (rule bindE_InrE)
  from printsD [OF assms(1) w(1) m(1)] have w1: "winv w1" "out w1 = out w @ bs" "a' = a"
    by auto
  from printsD [OF assms(2) w1(1)] m(2) w1(3) have "winv w' \<and> out w' = out w1 @ cs \<and> r = b"
    by blast
  with w1 show "winv w' \<and> out w' = out w @ (bs @ cs) \<and> r = b" by simp
qed

lemma prints_map_errE: "prints m bs a \<Longrightarrow> prints (map_errE f m) bs a"
  unfolding prints_def by (blast dest: map_errE_InrD)

lemma prints_lift_io [print_intros]: "prints m bs a \<Longrightarrow> prints (lift_io m) bs a"
  by (simp add: lift_io_def prints_map_errE)

lemma prints_to_io [print_intros]: "prints m bs a \<Longrightarrow> prints (to_io m) bs a"
  by (simp add: to_io_def prints_map_errE)

lemma prints_checked_add [print_intros]:
  "prints (lift_res (ok_or e (checked_add n m))) [] (n + m)"
  by (auto intro!: printsI simp: lift_res_def checked_add_def ok_or_def split: if_splits)

lemma prints_cong: "prints m bs a \<Longrightarrow> bs = cs \<Longrightarrow> a = b \<Longrightarrow> prints m cs b"
  by simp

lemma prints_last: "prints m bs a \<Longrightarrow> prints (k a) [] b \<Longrightarrow> prints (bindE m k) bs b"
  using prints_bindE [of m bs a k "[]" b] by simp

lemma prints_skip: "prints m [] a \<Longrightarrow> prints (k a) cs b \<Longrightarrow> prints (bindE m k) cs b"
  using prints_bindE [of m "[]" a k cs b] by simp

lemma prints_write_all [print_intros]: "prints (write_all wr bs) bs ()"
  by (auto intro!: printsI dest: write_all_out)

end

section \<open>A writer that has room does not fail\<close>

text \<open>\<open>room\<close> is a number of bytes the writer is sure to accept. An operation \<open>runs\<close> when it succeeds
  on every writer with enough room.\<close>

locale room_sink = sink wr out winv
  for wr :: "bytes \<Rightarrow> ('w, io_error, nat) op"
    and out :: "'w \<Rightarrow> bytes"
    and winv :: "'w \<Rightarrow> bool" +
  fixes room :: "'w \<Rightarrow> nat"
  assumes write_room: "winv w \<Longrightarrow> bs \<noteq> [] \<Longrightarrow> length bs \<le> room w \<Longrightarrow>
      \<exists>k w'. wr bs w = (Inr k, w') \<and> 0 < k \<and> room w \<le> room w' + k"
begin

definition runs :: "('w, 'e, 'a) op \<Rightarrow> bytes \<Rightarrow> 'a \<Rightarrow> bool" where
  "runs m bs a \<longleftrightarrow> (\<forall>w. winv w \<longrightarrow> length bs \<le> room w \<longrightarrow>
     (\<exists>w'. m w = (Inr a, w') \<and> winv w' \<and> out w' = out w @ bs \<and> room w \<le> room w' + length bs))"

lemma runsI:
  "(\<And>w. winv w \<Longrightarrow> length bs \<le> room w \<Longrightarrow> \<exists>w'. m w = (Inr a, w') \<and> winv w' \<and>
     out w' = out w @ bs \<and> room w \<le> room w' + length bs) \<Longrightarrow> runs m bs a"
  by (simp add: runs_def)

lemma runsE:
  assumes "runs m bs a" and "winv w" and "length bs \<le> room w"
  obtains w' where "m w = (Inr a, w')" "winv w'" "out w' = out w @ bs"
    "room w \<le> room w' + length bs"
  using assms unfolding runs_def by blast

lemma write_all_room:
  "winv w \<Longrightarrow> length bs \<le> room w \<Longrightarrow> \<exists>w'. write_all wr bs w = (Inr (), w') \<and> winv w' \<and>
     out w' = out w @ bs \<and> room w \<le> room w' + length bs"
proof (induction "length bs" arbitrary: bs w rule: less_induct)
  case less
  show ?case
  proof (cases "bs = []")
    case True
    with less.prems show ?thesis by (simp add: write_all.simps)
  next
    case False
    with write_room less.prems obtain k w1 where k: "wr bs w = (Inr k, w1)" "0 < k"
      "room w \<le> room w1 + k" by blast
    have w1: "winv w1" "out w1 = out w @ take k bs" "k \<le> length bs"
      using write_ok [OF less.prems(1) False k(1)] by auto
    have "\<exists>w'. write_all wr (drop k bs) w1 = (Inr (), w') \<and> winv w' \<and>
        out w' = out w1 @ drop k bs \<and> room w1 \<le> room w' + length (drop k bs)"
      by (rule less.hyps) (use False k less.prems w1 in auto)
    then show ?thesis
      using False k w1 by (subst write_all.simps) auto
  qed
qed

lemma runs_ret [run_intros]: "runs (ret a) [] a"
  by (auto intro!: runsI simp: ret_def)

lemma runs_bindE [run_intros]:
  assumes "runs m bs a" and "runs (k a) cs b"
  shows "runs (bindE m k) (bs @ cs) b"
proof (rule runsI)
  fix w assume w: "winv w" "length (bs @ cs) \<le> room w"
  then have "length bs \<le> room w" by simp
  with assms(1) w(1) obtain w1 where w1: "m w = (Inr a, w1)" "winv w1" "out w1 = out w @ bs"
    "room w \<le> room w1 + length bs" by (rule runsE)
  then have "length cs \<le> room w1" using w(2) by simp
  with assms(2) w1(2) obtain w' where "k a w1 = (Inr b, w')" "winv w'" "out w' = out w1 @ cs"
    "room w1 \<le> room w' + length cs" by (rule runsE)
  then show "\<exists>w'. bindE m k w = (Inr b, w') \<and> winv w' \<and> out w' = out w @ bs @ cs \<and>
      room w \<le> room w' + length (bs @ cs)"
    using w1 by (auto simp: bindE_Inr)
qed

lemma runs_map_errE: "runs m bs a \<Longrightarrow> runs (map_errE f m) bs a"
  unfolding runs_def by (blast intro: map_errE_Inr)

lemma runs_lift_io [run_intros]: "runs m bs a \<Longrightarrow> runs (lift_io m) bs a"
  by (simp add: lift_io_def runs_map_errE)

lemma runs_to_io [run_intros]: "runs m bs a \<Longrightarrow> runs (to_io m) bs a"
  by (simp add: to_io_def runs_map_errE)

lemma runs_checked_add: "n + m < 2 ^ 64 \<Longrightarrow> runs (lift_res (ok_or e (checked_add n m))) [] (n + m)"
  by (auto intro!: runsI simp: lift_res_def checked_add_def)

lemma runs_last: "runs m bs a \<Longrightarrow> runs (k a) [] b \<Longrightarrow> runs (bindE m k) bs b"
  using runs_bindE [of m bs a k "[]" b] by simp

lemma runs_skip: "runs m [] a \<Longrightarrow> runs (k a) cs b \<Longrightarrow> runs (bindE m k) cs b"
  using runs_bindE [of m "[]" a k cs b] by simp

lemma runs_write_all [run_intros]: "runs (write_all wr bs) bs ()"
  by (auto intro!: runsI dest: write_all_room)

end

section \<open>Copying from a reader to a writer\<close>

locale copier = source rd view pos inv + sink wr out winv
  for rd :: "nat \<Rightarrow> ('r, io_error, bytes) op"
    and view :: "'r \<Rightarrow> bytes"
    and pos :: "'r \<Rightarrow> nat"
    and inv :: "'r \<Rightarrow> bool"
    and wr :: "bytes \<Rightarrow> ('w, io_error, nat) op"
    and out :: "'w \<Rightarrow> bytes"
    and winv :: "'w \<Rightarrow> bool"
begin

lemma copy_take_out:
  "inv r \<Longrightarrow> winv w \<Longrightarrow> n \<le> length (rest r) \<Longrightarrow> copy_take rd wr n (r, w) = (Inr u, (r', w')) \<Longrightarrow>
   inv r' \<and> view r' = view r \<and> pos r' = pos r + n \<and>
   winv w' \<and> out w' = out w @ take n (rest r)"
proof (induction n arbitrary: r w rule: less_induct)
  case (less n)
  show ?case
  proof (cases "n = 0")
    case True
    then show ?thesis
      using less.prems by (subst (asm) copy_take.simps) simp
  next
    case False
    then have "rest r \<noteq> []" using less.prems(3) by auto
    with less.prems(1) obtain k r1 where k: "rd (min n COPY_BUF_SIZE) r = (Inr (take k (rest r)), r1)"
      "k \<le> min n COPY_BUF_SIZE" "k \<le> length (rest r)" "0 < min n COPY_BUF_SIZE \<longrightarrow> 0 < k"
      "inv r1" "view r1 = view r" "pos r1 = pos r + k" "rest r1 = drop k (rest r)"
      by (rule readE)
    have pos: "0 < k" using k(4) False by (simp add: COPY_BUF_SIZE_def)
    then have ne: "take k (rest r) \<noteq> []" using \<open>rest r \<noteq> []\<close> by simp
    from less.prems(4) False k(1,3) ne obtain v w1 where
      w1: "write_all wr (take k (rest r)) w = (Inr v, w1)"
      and step: "copy_take rd wr (n - k) (r1, w1) = (Inr u, (r', w'))"
      by (subst (asm) copy_take.simps) (auto simp: min_absorb2 split: prod.splits sum.splits)
    have o1: "winv w1" "out w1 = out w @ take k (rest r)"
      using write_all_out [OF less.prems(2) w1] by auto
    have "inv r' \<and> view r' = view r1 \<and> pos r' = pos r1 + (n - k) \<and>
      winv w' \<and> out w' = out w1 @ take (n - k) (rest r1)"
      by (rule less.IH) (use pos k step o1 False less.prems(3) in auto)
    then show ?thesis
      using k o1 by (auto simp flip: take_add)
  qed
qed

end

locale room_copier = source rd view pos inv + room_sink wr out winv room
  for rd :: "nat \<Rightarrow> ('r, io_error, bytes) op"
    and view :: "'r \<Rightarrow> bytes"
    and pos :: "'r \<Rightarrow> nat"
    and inv :: "'r \<Rightarrow> bool"
    and wr :: "bytes \<Rightarrow> ('w, io_error, nat) op"
    and out :: "'w \<Rightarrow> bytes"
    and winv :: "'w \<Rightarrow> bool"
    and room :: "'w \<Rightarrow> nat"
begin

lemma copy_take_room:
  "inv r \<Longrightarrow> winv w \<Longrightarrow> n \<le> length (rest r) \<Longrightarrow> n \<le> room w \<Longrightarrow>
   \<exists>r' w'. copy_take rd wr n (r, w) = (Inr (), (r', w')) \<and> room w \<le> room w' + n"
proof (induction n arbitrary: r w rule: less_induct)
  case (less n)
  show ?case
  proof (cases "n = 0")
    case True
    then show ?thesis
      using less.prems by (subst copy_take.simps) simp
  next
    case False
    then have "rest r \<noteq> []" using less.prems(3) by auto
    with less.prems(1) obtain k r1 where k: "rd (min n COPY_BUF_SIZE) r = (Inr (take k (rest r)), r1)"
      "k \<le> min n COPY_BUF_SIZE" "k \<le> length (rest r)" "0 < min n COPY_BUF_SIZE \<longrightarrow> 0 < k"
      "inv r1" "view r1 = view r" "pos r1 = pos r + k" "rest r1 = drop k (rest r)"
      by (rule readE)
    have pos: "0 < k" using k(4) False by (simp add: COPY_BUF_SIZE_def)
    then have ne: "take k (rest r) \<noteq> []" using \<open>rest r \<noteq> []\<close> by simp
    have "length (take k (rest r)) \<le> room w" using k less.prems(4) by auto
    then obtain w1 where w1: "write_all wr (take k (rest r)) w = (Inr (), w1)" "winv w1"
      "room w \<le> room w1 + k"
      using write_all_room [OF less.prems(2), of "take k (rest r)"] k(3) by (auto simp: min_absorb2)
    have "\<exists>r' w'. copy_take rd wr (n - k) (r1, w1) = (Inr (), (r', w')) \<and>
        room w1 \<le> room w' + (n - k)"
      by (rule less.IH) (use pos k w1 False less.prems in auto)
    then show ?thesis
      using False k(1,2,3,8) ne w1 by (subst copy_take.simps) (auto simp: min_absorb2)
  qed
qed

end

section \<open>In-memory readers and writers: Cursor and Vec\<close>

record cursor =
  cur_data :: bytes
  cur_pos :: nat

definition cursor_read :: "nat \<Rightarrow> (cursor, io_error, bytes) op" where
  "cursor_read n c =
     (let bs = take n (drop (cur_pos c) (cur_data c))
      in (Inr bs, c\<lparr>cur_pos := cur_pos c + length bs\<rparr>))"

definition cursor_seek :: "seek_from \<Rightarrow> (cursor, io_error, nat) op" where
  "cursor_seek f c =
     (case (case f of
              SeekStart p \<Rightarrow> Some p
            | SeekEnd i \<Rightarrow> checked_add_signed (length (cur_data c)) i
            | SeekCurrent i \<Rightarrow> checked_add_signed (cur_pos c) i) of
        None \<Rightarrow> (Inl InvalidInput, c)
      | Some p \<Rightarrow> (Inr p, c\<lparr>cur_pos := p\<rparr>))"

definition cursor_inv :: "cursor \<Rightarrow> bool" where
  "cursor_inv c \<longleftrightarrow> length (cur_data c) < 2 ^ 63"

definition cursor_new :: "bytes \<Rightarrow> cursor" where
  "cursor_new bs = \<lparr>cur_data = bs, cur_pos = 0\<rparr>"

definition vec_write :: "bytes \<Rightarrow> (bytes, io_error, nat) op" where
  "vec_write bs w = (Inr (length bs), w @ bs)"

lemma write_all_vec [io_simps]: "write_all vec_write bs w = (Inr (), w @ bs)"
  by (subst write_all.simps, cases bs) (auto simp: vec_write_def write_all.simps)

interpretation cur: eof_source cursor_read cur_data cur_pos cursor_inv
  by unfold_locales (auto simp: cursor_read_def cursor_inv_def Let_def min_def
      intro: exI [of _ "min _ _"])

interpretation cur: seekable cursor_read cur_data cur_pos cursor_inv cursor_seek
  by unfold_locales
    (auto simp: cursor_seek_def cursor_inv_def checked_add_signed_def nat_diff_distrib)

definition vec_room :: "bytes \<Rightarrow> nat" where
  "vec_room w = 2 ^ 63 - 1 - length w"

interpretation vec: room_sink vec_write "\<lambda>w. w" "\<lambda>_. True" vec_room
  by unfold_locales (auto simp: vec_write_def vec_room_def)

interpretation cur_vec: copier cursor_read cur_data cur_pos cursor_inv vec_write "\<lambda>w. w" "\<lambda>_. True"
  by unfold_locales

interpretation cur_vec: room_copier cursor_read cur_data cur_pos cursor_inv vec_write "\<lambda>w. w"
  "\<lambda>_. True" vec_room
  by unfold_locales

end
