(* ===== verification/Serialize.thy ===== *)
theory Serialize
  imports Io
begin

text \<open>
  The traits \<^verbatim>\<open>MLASerialize\<close> and \<^verbatim>\<open>MLADeserialize\<close> of \<^verbatim>\<open>mla/src/lib.rs\<close> for integers, pairs,
  vectors, slices and byte arrays, and the \<open>Opts\<close> placeholder. A serializer returns how many bytes
  it wrote. The lemmas say which bytes each serializer outputs on any sink and that each
  deserializer consumes exactly those bytes on any source, whatever follows.
\<close>

section \<open>Serializers\<close>

definition u8_serialize :: "(bytes \<Rightarrow> ('w, io_error, nat) op) \<Rightarrow> u8 \<Rightarrow> ('w, error, nat) op" where
  "u8_serialize wr b = bindE (lift_io (write_all wr [b])) (\<lambda>_. ret 1)"

definition u64_serialize :: "(bytes \<Rightarrow> ('w, io_error, nat) op) \<Rightarrow> nat \<Rightarrow> ('w, error, nat) op" where
  "u64_serialize wr n = bindE (lift_io (write_all wr (to_le 8 n))) (\<lambda>_. ret 8)"

definition usize_serialize :: "(bytes \<Rightarrow> ('w, io_error, nat) op) \<Rightarrow> nat \<Rightarrow> ('w, error, nat) op" where
  "usize_serialize wr n = bindE (lift_io (write_all wr (to_le 8 n))) (\<lambda>_. ret 8)"

definition u32_serialize :: "(bytes \<Rightarrow> ('w, io_error, nat) op) \<Rightarrow> nat \<Rightarrow> ('w, error, nat) op" where
  "u32_serialize wr n = bindE (lift_io (write_all wr (to_le 4 n))) (\<lambda>_. ret 4)"

definition u16_serialize :: "(bytes \<Rightarrow> ('w, io_error, nat) op) \<Rightarrow> nat \<Rightarrow> ('w, error, nat) op" where
  "u16_serialize wr n = bindE (lift_io (write_all wr (to_le 2 n))) (\<lambda>_. ret 2)"

definition pair_serialize ::
  "('a \<Rightarrow> ('w, error, nat) op) \<Rightarrow> ('b \<Rightarrow> ('w, error, nat) op) \<Rightarrow> 'a \<times> 'b \<Rightarrow> ('w, error, nat) op" where
  "pair_serialize f g p =
     bindE (f (fst p)) (\<lambda>n. bindE (g (snd p))
       (\<lambda>m. lift_res (ok_or SerializationError (checked_add n m))))"

fun slice_serialize_from ::
  "('a \<Rightarrow> ('w, error, nat) op) \<Rightarrow> nat \<Rightarrow> 'a list \<Rightarrow> ('w, error, nat) op" where
  "slice_serialize_from f n [] = ret n"
| "slice_serialize_from f n (x # xs) =
     bindE (f x) (\<lambda>m. bindE (lift_res (ok_or SerializationError (checked_add n m)))
       (\<lambda>n'. slice_serialize_from f n' xs))"

definition slice_serialize :: "('a \<Rightarrow> ('w, error, nat) op) \<Rightarrow> 'a list \<Rightarrow> ('w, error, nat) op" where
  "slice_serialize f xs = slice_serialize_from f 0 xs"

definition vec_serialize ::
  "(bytes \<Rightarrow> ('w, io_error, nat) op) \<Rightarrow> ('a \<Rightarrow> ('w, error, nat) op) \<Rightarrow> 'a list \<Rightarrow>
   ('w, error, nat) op" where
  "vec_serialize wr f xs =
     bindE (u64_serialize wr (length xs)) (\<lambda>n. bindE (slice_serialize f xs)
       (\<lambda>m. lift_res (ok_or SerializationError (checked_add n m))))"

section \<open>Deserializers\<close>

definition read_exact_or_deser ::
  "(nat \<Rightarrow> ('r, io_error, bytes) op) \<Rightarrow> nat \<Rightarrow> ('r, error, bytes) op" where
  "read_exact_or_deser rd n = map_errE (\<lambda>_. DeserializationError) (read_exact rd n)"

definition u64_deserialize :: "(nat \<Rightarrow> ('r, io_error, bytes) op) \<Rightarrow> ('r, error, nat) op" where
  "u64_deserialize rd = bindE (read_exact_or_deser rd 8) (\<lambda>bs. ret (from_le bs))"

definition u32_deserialize :: "(nat \<Rightarrow> ('r, io_error, bytes) op) \<Rightarrow> ('r, error, nat) op" where
  "u32_deserialize rd = bindE (read_exact_or_deser rd 4) (\<lambda>bs. ret (from_le bs))"

definition u16_deserialize :: "(nat \<Rightarrow> ('r, io_error, bytes) op) \<Rightarrow> ('r, error, nat) op" where
  "u16_deserialize rd = bindE (read_exact_or_deser rd 2) (\<lambda>bs. ret (from_le bs))"

definition u8_deserialize :: "(nat \<Rightarrow> ('r, io_error, bytes) op) \<Rightarrow> ('r, error, u8) op" where
  "u8_deserialize rd = bindE (read_exact_or_deser rd 1) (\<lambda>bs. ret (hd bs))"

text \<open>\<^verbatim>\<open>(0..n).map(|_| T::deserialize(src)).collect()\<close>: stops at the first error.\<close>

fun collect_deserialize :: "('r, error, 'a) op \<Rightarrow> nat \<Rightarrow> ('r, error, 'a list) op" where
  "collect_deserialize d 0 = ret []"
| "collect_deserialize d (Suc n) =
     bindE d (\<lambda>x. bindE (collect_deserialize d n) (\<lambda>xs. ret (x # xs)))"

definition vec_deserialize ::
  "(nat \<Rightarrow> ('r, io_error, bytes) op) \<Rightarrow> ('r, error, 'a) op \<Rightarrow> ('r, error, 'a list) op" where
  "vec_deserialize rd d = bindE (u64_deserialize rd) (\<lambda>n. collect_deserialize d n)"

text \<open>\<^verbatim>\<open>[u8; N]\<close>, one byte at a time.\<close>

definition array_deserialize ::
  "(nat \<Rightarrow> ('r, io_error, bytes) op) \<Rightarrow> nat \<Rightarrow> ('r, error, bytes) op" where
  "array_deserialize rd n = collect_deserialize (u8_deserialize rd) n"

definition pair_deserialize ::
  "('r, error, 'a) op \<Rightarrow> ('r, error, 'b) op \<Rightarrow> ('r, error, 'a \<times> 'b) op" where
  "pair_deserialize d1 d2 = bindE d1 (\<lambda>a. bindE d2 (\<lambda>b. ret (a, b)))"

section \<open>Opts\<close>

definition EMPTY_OPTS_SERIALIZATION :: bytes where
  "EMPTY_OPTS_SERIALIZATION = [0]"

definition EMPTY_TAIL_OPTS_SERIALIZATION :: bytes where
  "EMPTY_TAIL_OPTS_SERIALIZATION = [0, 1, 0, 0, 0, 0, 0, 0, 0]"

definition opts_from_reader :: "(nat \<Rightarrow> ('r, io_error, bytes) op) \<Rightarrow> ('r, error, unit) op" where
  "opts_from_reader rd =
     bindE (u8_deserialize rd) (\<lambda>discriminant.
       if discriminant = 0 then ret ()
       else if discriminant = 1 then
         bindE (lift_io (read_exact rd 8)) (\<lambda>n.
         bindE (lift_io (take_read_to_end rd (from_le n))) (\<lambda>_. ret ()))
       else fail DeserializationError)"

definition opts_dump :: "(bytes \<Rightarrow> ('w, io_error, nat) op) \<Rightarrow> ('w, error, nat) op" where
  "opts_dump wr = bindE (lift_io (write_all wr EMPTY_OPTS_SERIALIZATION)) (\<lambda>_. ret 1)"

definition read_layer_magic :: "(nat \<Rightarrow> ('r, io_error, bytes) op) \<Rightarrow> ('r, error, bytes) op" where
  "read_layer_magic rd = lift_io (read_exact rd 8)"

section \<open>What is written, what is read back\<close>

definition enc_vec :: "('a \<Rightarrow> bytes) \<Rightarrow> 'a list \<Rightarrow> bytes" where
  "enc_vec f xs = to_le 8 (length xs) @ concat (map f xs)"

lemma length_enc_vec: "length (enc_vec f xs) = 8 + sum_list (map (length \<circ> f) xs)"
  by (simp add: enc_vec_def length_concat)

lemma concat_map_singleton [simp]: "concat (map (\<lambda>x. [x]) xs) = xs"
  by (induction xs) auto

context sink
begin

lemma prints_u8 [print_intros]: "prints (u8_serialize wr b) [b] 1"
  unfolding u8_serialize_def by (rule prints_last) (rule print_intros)+

lemma prints_u64 [print_intros]: "prints (u64_serialize wr n) (to_le 8 n) 8"
  unfolding u64_serialize_def
  by (rule prints_last) (rule print_intros)+

lemma prints_usize [print_intros]: "prints (usize_serialize wr n) (to_le 8 n) 8"
  unfolding usize_serialize_def
  by (rule prints_last) (rule print_intros)+

lemma prints_u32 [print_intros]: "prints (u32_serialize wr n) (to_le 4 n) 4"
  unfolding u32_serialize_def
  by (rule prints_last) (rule print_intros)+

lemma prints_u16 [print_intros]: "prints (u16_serialize wr n) (to_le 2 n) 2"
  unfolding u16_serialize_def
  by (rule prints_last) (rule print_intros)+

lemma prints_pair [print_intros]:
  assumes "prints (f (fst p)) bs (length bs)" and "prints (g (snd p)) cs (length cs)"
  shows "prints (pair_serialize f g p) (bs @ cs) (length (bs @ cs))"
  unfolding pair_serialize_def length_append
  by (rule prints_bindE, rule assms, rule prints_last, rule assms, rule prints_checked_add)

lemma prints_slice_from:
  assumes "\<And>x. x \<in> set xs \<Longrightarrow> prints (f x) (enc x) (length (enc x))"
  shows "prints (slice_serialize_from f n xs) (concat (map enc xs))
           (n + length (concat (map enc xs)))"
  using assms
proof (induction xs arbitrary: n)
  case Nil
  then show ?case by (simp add: prints_ret)
next
  case (Cons x xs)
  have "prints (slice_serialize_from f (n + length (enc x)) xs) (concat (map enc xs))
          (n + length (enc x) + length (concat (map enc xs)))"
    by (rule Cons.IH) (simp add: Cons.prems)
  then have "prints (slice_serialize_from f n (x # xs)) (enc x @ concat (map enc xs))
      (n + length (enc x) + length (concat (map enc xs)))"
    unfolding slice_serialize_from.simps
    by (intro prints_bindE [OF Cons.prems] prints_skip [OF prints_checked_add]) auto
  then show ?case by (simp add: add.assoc)
qed

lemma prints_slice:
  assumes "\<And>x. x \<in> set xs \<Longrightarrow> prints (f x) (enc x) (length (enc x))"
  shows "prints (slice_serialize f xs) (concat (map enc xs)) (length (concat (map enc xs)))"
  using prints_slice_from [where n = 0 and xs = xs and f = f and enc = enc] assms
  by (simp add: slice_serialize_def)

lemma prints_vec:
  assumes "\<And>x. x \<in> set xs \<Longrightarrow> prints (f x) (enc x) (length (enc x))"
  shows "prints (vec_serialize wr f xs) (enc_vec enc xs) (length (enc_vec enc xs))"
proof -
  have "prints (bindE (slice_serialize f xs)
           (\<lambda>m. lift_res (ok_or SerializationError (checked_add 8 m))))
          (concat (map enc xs)) (8 + length (concat (map enc xs)))"
    by (rule prints_last [OF prints_slice [OF assms] prints_checked_add])
  then show ?thesis
    unfolding vec_serialize_def enc_vec_def length_append length_to_le
    by (rule prints_bindE [OF prints_u64])
qed

lemma prints_bytes: "prints (slice_serialize (u8_serialize wr) bs) bs (length bs)"
  using prints_slice [of bs "u8_serialize wr" "\<lambda>b. [b]"] prints_u8 by simp

lemma prints_byte_vec:
  "prints (vec_serialize wr (u8_serialize wr) bs) (to_le 8 (length bs) @ bs) (8 + length bs)"
  using prints_vec [of bs "u8_serialize wr" "\<lambda>b. [b]"] prints_u8 by (simp add: enc_vec_def)

lemma prints_opts [print_intros]: "prints (opts_dump wr) EMPTY_OPTS_SERIALIZATION 1"
  unfolding opts_dump_def
  by (rule prints_last) (rule print_intros)+

end

context room_sink
begin

lemma runs_u8 [run_intros]: "runs (u8_serialize wr b) [b] 1"
  unfolding u8_serialize_def by (rule runs_last) (rule run_intros)+

lemma runs_u64 [run_intros]: "runs (u64_serialize wr n) (to_le 8 n) 8"
  unfolding u64_serialize_def by (rule runs_last) (rule run_intros)+

lemma runs_usize [run_intros]: "runs (usize_serialize wr n) (to_le 8 n) 8"
  unfolding usize_serialize_def by (rule runs_last) (rule run_intros)+

lemma runs_u32 [run_intros]: "runs (u32_serialize wr n) (to_le 4 n) 4"
  unfolding u32_serialize_def by (rule runs_last) (rule run_intros)+

lemma runs_u16 [run_intros]: "runs (u16_serialize wr n) (to_le 2 n) 2"
  unfolding u16_serialize_def by (rule runs_last) (rule run_intros)+

lemma runs_pair:
  assumes "runs (f (fst p)) bs (length bs)" and "runs (g (snd p)) cs (length cs)"
    and "length (bs @ cs) < 2 ^ 64"
  shows "runs (pair_serialize f g p) (bs @ cs) (length (bs @ cs))"
  using assms(3) unfolding pair_serialize_def length_append
  by - (rule runs_bindE, rule assms, rule runs_last, rule assms, rule runs_checked_add)

lemma runs_slice_from:
  assumes "\<And>x. x \<in> set xs \<Longrightarrow> runs (f x) (enc x) (length (enc x))"
    and "n + length (concat (map enc xs)) < 2 ^ 64"
  shows "runs (slice_serialize_from f n xs) (concat (map enc xs))
           (n + length (concat (map enc xs)))"
  using assms
proof (induction xs arbitrary: n)
  case Nil
  then show ?case by (simp add: runs_ret)
next
  case (Cons x xs)
  have "runs (slice_serialize_from f (n + length (enc x)) xs) (concat (map enc xs))
          (n + length (enc x) + length (concat (map enc xs)))"
    by (rule Cons.IH) (use Cons.prems in auto)
  then have "runs (slice_serialize_from f n (x # xs)) (enc x @ concat (map enc xs))
      (n + length (enc x) + length (concat (map enc xs)))"
    unfolding slice_serialize_from.simps
    using Cons.prems by (intro runs_bindE [OF Cons.prems(1)] runs_skip [OF runs_checked_add]) auto
  then show ?case by (simp add: add.assoc)
qed

lemma runs_slice:
  assumes "\<And>x. x \<in> set xs \<Longrightarrow> runs (f x) (enc x) (length (enc x))"
    and "length (concat (map enc xs)) < 2 ^ 64"
  shows "runs (slice_serialize f xs) (concat (map enc xs)) (length (concat (map enc xs)))"
  using runs_slice_from [where n = 0 and xs = xs and f = f and enc = enc] assms
  by (simp add: slice_serialize_def)

lemma runs_vec:
  assumes "\<And>x. x \<in> set xs \<Longrightarrow> runs (f x) (enc x) (length (enc x))"
    and "length (enc_vec enc xs) < 2 ^ 64"
  shows "runs (vec_serialize wr f xs) (enc_vec enc xs) (length (enc_vec enc xs))"
proof -
  have l: "8 + length (concat (map enc xs)) < 2 ^ 64"
    using assms(2) by (simp only: enc_vec_def length_append length_to_le)
  then have "runs (slice_serialize f xs) (concat (map enc xs)) (length (concat (map enc xs)))"
    by (intro runs_slice assms(1)) auto
  then have "runs (bindE (slice_serialize f xs)
           (\<lambda>m. lift_res (ok_or SerializationError (checked_add 8 m))))
          (concat (map enc xs)) (8 + length (concat (map enc xs)))"
    by (rule runs_last) (rule runs_checked_add [OF l])
  then show ?thesis
    unfolding vec_serialize_def enc_vec_def length_append length_to_le
    by (rule runs_bindE [OF runs_u64])
qed

lemma runs_bytes:
  "length bs < 2 ^ 64 \<Longrightarrow> runs (slice_serialize (u8_serialize wr) bs) bs (length bs)"
  using runs_slice [of bs "u8_serialize wr" "\<lambda>b. [b]"] runs_u8 by simp

lemma runs_opts [run_intros]: "runs (opts_dump wr) EMPTY_OPTS_SERIALIZATION 1"
  unfolding opts_dump_def by (rule runs_last) (rule run_intros)+

end

context source
begin

lemma parses_read_exact_or_deser: "n = length bs \<Longrightarrow> parses (read_exact_or_deser rd n) bs bs"
  by (simp add: read_exact_or_deser_def parses_map_errE parses_read_exact)

lemma parses_u64 [parse_intros]: "n < 2 ^ 64 \<Longrightarrow> parses (u64_deserialize rd) (to_le 8 n) n"
  unfolding u64_deserialize_def
  using parses_bindE_ret [OF parses_read_exact_or_deser [of 8 "to_le 8 n"], of from_le]
  by (simp add: from_to_le)

lemma parses_u32 [parse_intros]: "n < 2 ^ 32 \<Longrightarrow> parses (u32_deserialize rd) (to_le 4 n) n"
  unfolding u32_deserialize_def
  using parses_bindE_ret [OF parses_read_exact_or_deser [of 4 "to_le 4 n"], of from_le]
  by (simp add: from_to_le)

lemma parses_u16 [parse_intros]: "n < 2 ^ 16 \<Longrightarrow> parses (u16_deserialize rd) (to_le 2 n) n"
  unfolding u16_deserialize_def
  using parses_bindE_ret [OF parses_read_exact_or_deser [of 2 "to_le 2 n"], of from_le]
  by (simp add: from_to_le)

lemma parses_u8 [parse_intros]: "parses (u8_deserialize rd) [b] b"
  unfolding u8_deserialize_def
  using parses_bindE_ret [OF parses_read_exact_or_deser [of 1 "[b]"], of hd] by simp

lemma parses_collect:
  assumes "\<And>x. x \<in> set xs \<Longrightarrow> parses d (enc x) x"
  shows "parses (collect_deserialize d (length xs)) (concat (map enc xs)) xs"
  using assms
proof (induction xs)
  case Nil
  then show ?case by (simp add: parses_ret)
next
  case (Cons x xs)
  then show ?case
    by (auto intro!: parses_bindE parses_bindE_ret)
qed

lemma parses_vec:
  assumes "\<And>x. x \<in> set xs \<Longrightarrow> parses d (enc x) x" and "length xs < 2 ^ 64"
  shows "parses (vec_deserialize rd d) (enc_vec enc xs) xs"
  unfolding vec_deserialize_def enc_vec_def
  by (rule parses_bindE, rule parses_u64, rule assms, rule parses_collect, rule assms)

lemma parses_pair [parse_intros]:
  "parses d1 bs a \<Longrightarrow> parses d2 cs b \<Longrightarrow> parses (pair_deserialize d1 d2) (bs @ cs) (a, b)"
  unfolding pair_deserialize_def by (rule parses_bindE, assumption, rule parses_bindE_ret)

lemma parses_array [parse_intros]: "n = length bs \<Longrightarrow> parses (array_deserialize rd n) bs bs"
  unfolding array_deserialize_def
  using parses_collect [of bs "u8_deserialize rd" "\<lambda>b. [b]"] parses_u8 by simp

lemma parses_byte_vec:
  "length bs < 2 ^ 64 \<Longrightarrow>
   parses (vec_deserialize rd (u8_deserialize rd)) (to_le 8 (length bs) @ bs) bs"
  using parses_vec [of bs "u8_deserialize rd" "\<lambda>b. [b]"] parses_u8 by (simp add: enc_vec_def)

lemma parses_read_layer_magic [parse_intros]: "length bs = 8 \<Longrightarrow> parses (read_layer_magic rd) bs bs"
  unfolding read_layer_magic_def by (intro parse_intros) simp

lemma parses_opts [parse_intros]: "parses (opts_from_reader rd) EMPTY_OPTS_SERIALIZATION ()"
  unfolding opts_from_reader_def EMPTY_OPTS_SERIALIZATION_def
  using parses_bindE [OF parses_u8, where cs = "[]" and b = "()"] by (simp add: parses_ret)

text \<open>Forward compatibility: present but unknown options are skipped.\<close>

lemma parses_opts_present:
  assumes "length bs < 2 ^ 64"
  shows "parses (opts_from_reader rd) (1 # to_le 8 (length bs) @ bs) ()"
proof -
  have "parses (bindE (lift_io (read_exact rd 8)) (\<lambda>n.
          bindE (lift_io (take_read_to_end rd (from_le n))) (\<lambda>_. ret ())))
          (to_le 8 (length bs) @ bs) ()"
    by (rule parses_bindE, rule parses_lift_io, rule parses_read_exact, simp,
        rule parses_bindE_ret, rule parses_lift_io, rule parses_take_read_to_end)
      (use assms in \<open>simp add: from_to_le\<close>)
  then show ?thesis
    unfolding opts_from_reader_def
    using parses_bindE [OF parses_u8, where b = "()"] by fastforce
qed

end

end
