(* ===== verification/EntryName.thy ===== *)
theory EntryName
  imports Serialize "HOL-Library.List_Lexorder"
begin

text \<open>
  Percent escaping (\<^verbatim>\<open>mla/src/helpers.rs\<close>) and archive entry names
  (\<^verbatim>\<open>mla/src/entry.rs\<close>): the byte-level constructor, the conversion from and to file system paths
  on Unix and on Windows, the escaped string forms, and the serialization of a name.
  \<^verbatim>\<open>std::path::Path::components\<close> and \<^verbatim>\<open>str::from_utf8\<close> are modelled as the standard library
  documents them.
\<close>

section \<open>Percent escaping\<close>

definition nibble_to_hex_char :: "u8 \<Rightarrow> u8" where
  "nibble_to_hex_char nibble = (if nibble \<le> 9 then 48 + nibble else 97 + (nibble - 10))"

definition hex_char_to_nibble :: "u8 \<Rightarrow> u8 option" where
  "hex_char_to_nibble c =
     (if 48 \<le> c \<and> c \<le> 57 then Some (c - 48)
      else if 97 \<le> c \<and> c \<le> 102 then Some (c - 97 + 10)
      else None)"

fun mla_percent_escape :: "bytes \<Rightarrow> bytes \<Rightarrow> bytes" where
  "mla_percent_escape [] bytes_to_preserve = []"
| "mla_percent_escape (b # bs) bytes_to_preserve =
     (if b \<in> set bytes_to_preserve then [b]
      else [37, nibble_to_hex_char (drop_bit 4 (b AND 240)), nibble_to_hex_char (b AND 15)])
     @ mla_percent_escape bs bytes_to_preserve"

fun mla_percent_unescape :: "bytes \<Rightarrow> bytes \<Rightarrow> bytes option" where
  "mla_percent_unescape [] bytes_to_allow = Some []"
| "mla_percent_unescape (b # bs) bytes_to_allow =
     (if b \<in> set bytes_to_allow then map_option (Cons b) (mla_percent_unescape bs bytes_to_allow)
      else if b = 37 then
        (case bs of
           c1 # c2 # bs' \<Rightarrow>
             (case (hex_char_to_nibble c1, hex_char_to_nibble c2) of
                (Some high_nibble, Some low_nibble) \<Rightarrow>
                  (let decoded_byte = push_bit 4 high_nibble OR low_nibble
                   in if decoded_byte \<in> set bytes_to_allow then None
                      else map_option (Cons decoded_byte) (mla_percent_unescape bs' bytes_to_allow))
              | _ \<Rightarrow> None)
         | _ \<Rightarrow> None)
      else mla_percent_unescape bs bytes_to_allow)"

section \<open>Entry names\<close>

definition ENTRY_NAME_MAX_SIZE :: nat where
  "ENTRY_NAME_MAX_SIZE = 1024"

datatype entry_name = EntryName (raw_name: bytes)

datatype entry_name_error =
    ForbiddenPathTraversalComponent
  | InvalidPathComponentContent
  | NameTooLong

text \<open>The derived order of \<^verbatim>\<open>EntryName\<close>: lexicographic on the bytes.\<close>

instantiation entry_name :: linorder
begin

definition less_eq_entry_name :: "entry_name \<Rightarrow> entry_name \<Rightarrow> bool" where
  "less_eq_entry_name a b \<longleftrightarrow> raw_name a \<le> raw_name b"

definition less_entry_name :: "entry_name \<Rightarrow> entry_name \<Rightarrow> bool" where
  "less_entry_name a b \<longleftrightarrow> raw_name a < raw_name b"

instance
  by standard (auto simp: less_eq_entry_name_def less_entry_name_def entry_name.expand)

end

definition from_arbitrary_bytes_vec :: "bytes \<Rightarrow> entry_name_error + entry_name" where
  "from_arbitrary_bytes_vec bs =
     (if bs = [] then Inl InvalidPathComponentContent
      else if ENTRY_NAME_MAX_SIZE < length bs then Inl NameTooLong
      else Inr (EntryName bs))"

definition ENTRY_NAME_RAW_CONTENT_ALLOWED_BYTES :: bytes where
  "ENTRY_NAME_RAW_CONTENT_ALLOWED_BYTES =
     ascii ''ABCDEFGHIJKLMNOPQRSTUVWXYZabcdefghijklmnopqrstuvwxyz0123456789.-_''"

definition ENTRY_NAME_PATHBUF_ESCAPED_STRING_ALLOWED_BYTES :: bytes where
  "ENTRY_NAME_PATHBUF_ESCAPED_STRING_ALLOWED_BYTES =
     ascii ''ABCDEFGHIJKLMNOPQRSTUVWXYZabcdefghijklmnopqrstuvwxyz0123456789.-_/''"

definition raw_content_to_escaped_string :: "entry_name \<Rightarrow> bytes" where
  "raw_content_to_escaped_string n =
     mla_percent_escape (raw_name n) ENTRY_NAME_RAW_CONTENT_ALLOWED_BYTES"

text \<open>\<^verbatim>\<open>slice.split(|b| *b == sep)\<close> and \<^verbatim>\<open>slices.join(&sep)\<close>\<close>

fun split_on :: "u8 \<Rightarrow> bytes \<Rightarrow> bytes list" where
  "split_on sep [] = [[]]"
| "split_on sep (b # bs) =
     (if b = sep then [] # split_on sep bs
      else case split_on sep bs of
          [] \<Rightarrow> [[b]]
        | p # ps \<Rightarrow> (b # p) # ps)"

fun join_with :: "u8 \<Rightarrow> bytes list \<Rightarrow> bytes" where
  "join_with sep [] = []"
| "join_with sep [p] = p"
| "join_with sep (p # q # ps) = p @ sep # join_with sep (q # ps)"

text \<open>\<^verbatim>\<open>std::path::Component\<close> and \<^verbatim>\<open>Path::components\<close> on Unix: repeated slashes and inner
  \<^verbatim>\<open>.\<close> components are skipped.\<close>

datatype component = Prefix bytes | RootDir | CurDir | ParentDir | Normal bytes

definition DOT :: bytes where "DOT = [46]"
definition DOTDOT :: bytes where "DOTDOT = [46, 46]"

definition unix_component :: "bytes \<Rightarrow> component" where
  "unix_component p = (if p = DOTDOT then ParentDir else Normal p)"

definition unix_components :: "bytes \<Rightarrow> component list" where
  "unix_components p =
     (if p \<noteq> [] \<and> hd p = 47 then [RootDir]
      else if hd (split_on 47 p) = DOT then [CurDir] else [])
     @ map unix_component (filter (\<lambda>c. c \<noteq> [] \<and> c \<noteq> DOT) (split_on 47 p))"

text \<open>The loop of \<^verbatim>\<open>EntryName::from_path\<close>; the stack is kept bottom first. On Unix
  \<^verbatim>\<open>normal_component_osstr_to_bytes\<close> is the identity and never fails.\<close>

fun from_path_stack :: "bytes list \<Rightarrow> component list \<Rightarrow> bytes list" where
  "from_path_stack stack [] = stack"
| "from_path_stack stack (Prefix _ # cs) = from_path_stack stack cs"
| "from_path_stack stack (RootDir # cs) = from_path_stack stack cs"
| "from_path_stack stack (CurDir # cs) = from_path_stack stack cs"
| "from_path_stack stack (ParentDir # cs) = from_path_stack (butlast stack) cs"
| "from_path_stack stack (Normal p # cs) = from_path_stack (stack @ [p]) cs"

definition from_path :: "bytes \<Rightarrow> entry_name_error + entry_name" where
  "from_path p = from_arbitrary_bytes_vec (join_with 47 (from_path_stack [] (unix_components p)))"

definition is_invalid_os_indep_component :: "bytes \<Rightarrow> bool" where
  "is_invalid_os_indep_component c \<longleftrightarrow> c = [] \<or> 0 \<in> set c \<or> c = DOT \<or> c = DOTDOT"

definition check_os_indep_path_rules :: "bytes \<Rightarrow> entry_name_error + unit" where
  "check_os_indep_path_rules bs =
     (if bs \<noteq> [] \<and> hd bs = 47 then Inl ForbiddenPathTraversalComponent
      else if list_ex is_invalid_os_indep_component (split_on 47 bs)
      then Inl InvalidPathComponentContent
      else Inr ())"

text \<open>\<^verbatim>\<open>to_pathbuf\<close> on Unix, where \<^verbatim>\<open>to_pathbuf_os\<close> keeps the bytes.\<close>

definition to_pathbuf :: "entry_name \<Rightarrow> entry_name_error + bytes" where
  "to_pathbuf n =
     (case check_os_indep_path_rules (raw_name n) of
        Inl e \<Rightarrow> Inl e
      | Inr _ \<Rightarrow> Inr (raw_name n))"

fun to_normal_component_osstr :: "component \<Rightarrow> entry_name_error + bytes" where
  "to_normal_component_osstr (Normal c) =
     (if c = [] then Inl InvalidPathComponentContent else Inr c)"
| "to_normal_component_osstr _ = Inl ForbiddenPathTraversalComponent"

text \<open>\<^verbatim>\<open>collect::<Result<Vec<_>, _>>()\<close>\<close>

fun collect_result :: "('e + 'a) list \<Rightarrow> 'e + 'a list" where
  "collect_result [] = Inr []"
| "collect_result (Inl e # rs) = Inl e"
| "collect_result (Inr a # rs) =
     (case collect_result rs of Inl e \<Rightarrow> Inl e | Inr as \<Rightarrow> Inr (a # as))"

definition to_pathbuf_escaped_string :: "entry_name \<Rightarrow> entry_name_error + bytes" where
  "to_pathbuf_escaped_string n =
     (case to_pathbuf n of
        Inl e \<Rightarrow> Inl e
      | Inr pathbuf \<Rightarrow>
          (case collect_result (map to_normal_component_osstr (unix_components pathbuf)) of
             Inl e \<Rightarrow> Inl e
           | Inr components \<Rightarrow>
               Inr (mla_percent_escape (join_with 47 components)
                      ENTRY_NAME_PATHBUF_ESCAPED_STRING_ALLOWED_BYTES)))"

section \<open>Windows paths\<close>

definition WINDOWS_FORBIDDEN_PATH_BYTES :: bytes where
  "WINDOWS_FORBIDDEN_PATH_BYTES =
     [0, 1, 2, 3, 4, 5, 6, 7, 8, 9, 10, 11, 12, 13, 14, 15, 16, 17, 18, 19, 20, 21, 22, 23, 24,
      25, 26, 27, 28, 29, 30, 31, 34, 42, 58, 60, 62, 63, 92, 124]"

definition WINDOWS_FORBIDDEN_NAMES :: "bytes list" where
  "WINDOWS_FORBIDDEN_NAMES =
     [ascii ''con'', ascii ''prn'', ascii ''aux'', ascii ''nul'',
      ascii ''com1'', ascii ''com2'', ascii ''com3'', ascii ''com4'', ascii ''com5'',
      ascii ''com6'', ascii ''com7'', ascii ''com8'', ascii ''com9'',
      ascii ''com'' @ [194, 178], ascii ''com'' @ [194, 179], ascii ''com'' @ [194, 185],
      ascii ''lpt1'', ascii ''lpt2'', ascii ''lpt3'', ascii ''lpt4'', ascii ''lpt5'',
      ascii ''lpt6'', ascii ''lpt7'', ascii ''lpt8'', ascii ''lpt9'',
      ascii ''lpt'' @ [194, 178], ascii ''lpt'' @ [194, 179], ascii ''lpt'' @ [194, 185],
      ascii ''clock$'', ascii ''conin$'', ascii ''conout$'']"

definition to_ascii_lowercase :: "bytes \<Rightarrow> bytes" where
  "to_ascii_lowercase = map (\<lambda>b. if 65 \<le> b \<and> b \<le> 90 then b + 32 else b)"

definition is_windows_forbidden_component :: "bytes \<Rightarrow> bool" where
  "is_windows_forbidden_component name =
     (let name1 = hd (split_on 46 name);
          name2 = hd (split_on 58 name1);
          name3 = hd (split_on 32 name2)
      in to_ascii_lowercase name3 \<in> set WINDOWS_FORBIDDEN_NAMES)"

text \<open>\<^verbatim>\<open>str::from_utf8\<close> succeeds exactly on well-formed UTF-8.\<close>

definition utf8_cont :: "u8 \<Rightarrow> bool" where
  "utf8_cont b \<longleftrightarrow> 128 \<le> b \<and> b \<le> 191"

fun utf8_valid :: "bytes \<Rightarrow> bool" where
  "utf8_valid [] = True"
| "utf8_valid (a # bs) =
     (if a \<le> 127 then utf8_valid bs
      else case bs of
          [] \<Rightarrow> False
        | b # bs1 \<Rightarrow>
            (if 194 \<le> a \<and> a \<le> 223 then utf8_cont b \<and> utf8_valid bs1
             else case bs1 of
                 [] \<Rightarrow> False
               | c # bs2 \<Rightarrow>
                   (if 224 \<le> a \<and> a \<le> 239 then
                      utf8_cont b \<and> utf8_cont c \<and> (a = 224 \<longrightarrow> 160 \<le> b) \<and> (a = 237 \<longrightarrow> b \<le> 159)
                      \<and> utf8_valid bs2
                    else case bs2 of
                        [] \<Rightarrow> False
                      | d # bs3 \<Rightarrow>
                          240 \<le> a \<and> a \<le> 244 \<and> utf8_cont b \<and> utf8_cont c \<and> utf8_cont d
                          \<and> (a = 240 \<longrightarrow> 144 \<le> b) \<and> (a = 244 \<longrightarrow> b \<le> 143) \<and> utf8_valid bs3)))"

text \<open>\<^verbatim>\<open>to_pathbuf_os\<close> on Windows; the path is the list of its components.\<close>

definition to_pathbuf_os_windows :: "bytes \<Rightarrow> entry_name_error + bytes list" where
  "to_pathbuf_os_windows bs =
     (if list_ex (\<lambda>b. b \<in> set WINDOWS_FORBIDDEN_PATH_BYTES) bs
      then Inl InvalidPathComponentContent
      else let components = split_on 47 bs
        in if list_ex is_windows_forbidden_component components
           then Inl InvalidPathComponentContent
           else collect_result
             (map (\<lambda>c. if utf8_valid c then Inr c else Inl InvalidPathComponentContent) components))"

definition to_pathbuf_windows :: "entry_name \<Rightarrow> entry_name_error + bytes list" where
  "to_pathbuf_windows n =
     (case check_os_indep_path_rules (raw_name n) of
        Inl e \<Rightarrow> Inl e
      | Inr _ \<Rightarrow> to_pathbuf_os_windows (raw_name n))"

section \<open>Serialization of a name\<close>

definition serialize_entry_name ::
  "(bytes \<Rightarrow> ('w, io_error, nat) op) \<Rightarrow> entry_name \<Rightarrow> ('w, error, nat) op" where
  "serialize_entry_name wr n =
     bindE (usize_serialize wr (length (raw_name n))) (\<lambda>k.
     bindE (slice_serialize (u8_serialize wr) (raw_name n)) (\<lambda>m.
       lift_res (ok_or Panic (checked_add k m))))"

definition deserialize_entry_name ::
  "(nat \<Rightarrow> ('r, io_error, bytes) op) \<Rightarrow> ('r, error, entry_name) op" where
  "deserialize_entry_name rd =
     bindE (u64_deserialize rd) (\<lambda>n.
     bindE (map_errE (\<lambda>_. DeserializationError) (take_read_to_end rd n)) (\<lambda>name.
       lift_res (case from_arbitrary_bytes_vec name of
           Inl _ \<Rightarrow> Inl DeserializationError
         | Inr en \<Rightarrow> Inr en)))"

text \<open>What every constructor ensures of a name.\<close>

definition wf_name :: "entry_name \<Rightarrow> bool" where
  "wf_name n \<longleftrightarrow> raw_name n \<noteq> [] \<and> length (raw_name n) \<le> ENTRY_NAME_MAX_SIZE"

definition enc_name :: "entry_name \<Rightarrow> bytes" where
  "enc_name n = to_le 8 (length (raw_name n)) @ raw_name n"

lemma length_enc_name [simp]: "length (enc_name n) = 8 + length (raw_name n)"
  by (simp add: enc_name_def)

lemma from_arbitrary_bytes_vec_Inr:
  "from_arbitrary_bytes_vec bs = Inr n \<longleftrightarrow> n = EntryName bs \<and> wf_name n"
  by (auto simp: from_arbitrary_bytes_vec_def wf_name_def not_less)

lemma from_arbitrary_bytes_vec_wf:
  "wf_name n \<Longrightarrow> from_arbitrary_bytes_vec (raw_name n) = Inr n"
  by (simp add: from_arbitrary_bytes_vec_Inr)

lemma wf_name_length: "wf_name n \<Longrightarrow> length (raw_name n) < 2 ^ 64"
  by (simp add: wf_name_def ENTRY_NAME_MAX_SIZE_def)

context sink
begin

lemma prints_entry_name [print_intros]:
  "prints (serialize_entry_name wr n) (enc_name n) (length (enc_name n))"
  unfolding serialize_entry_name_def enc_name_def length_append length_to_le
  by (rule prints_bindE, rule prints_usize, rule prints_last, rule prints_bytes,
      rule prints_checked_add)

end

context room_sink
begin

lemma runs_entry_name:
  assumes "wf_name n"
  shows "runs (serialize_entry_name wr n) (enc_name n) (length (enc_name n))"
proof -
  have l: "8 + length (raw_name n) < 2 ^ 64"
    using assms by (simp add: wf_name_def ENTRY_NAME_MAX_SIZE_def)
  then show ?thesis
    unfolding serialize_entry_name_def enc_name_def length_append length_to_le
    by - (rule runs_bindE, rule runs_usize, rule runs_last, rule runs_bytes, simp,
      rule runs_checked_add)
qed

end

context source
begin

lemma parses_entry_name:
  assumes "wf_name n"
  shows "parses (deserialize_entry_name rd) (enc_name n) n"
  unfolding deserialize_entry_name_def enc_name_def
  by (rule parses_bindE, rule parses_u64, rule wf_name_length [OF assms],
      rule parses_last, rule parses_map_errE, rule parses_take_read_to_end, rule refl,
      rule parses_lift_res)
    (simp add: from_arbitrary_bytes_vec_wf assms)

end

section \<open>Splitting, joining and escaping\<close>

lemma split_on_not_Nil [simp]: "split_on sep bs \<noteq> []"
  by (induction bs) (auto split: list.splits)

lemma join_with_Cons: "ps \<noteq> [] \<Longrightarrow> join_with sep (p # ps) = p @ sep # join_with sep ps"
  by (cases ps) auto

lemma join_split: "join_with sep (split_on sep bs) = bs"
proof (induction bs)
  case (Cons b bs)
  then show ?case
    by (cases "split_on sep bs") (auto simp: join_with_Cons split: if_splits, metis append_Cons join_with.simps(2) join_with_Cons)
qed simp

lemma split_on_no_sep: "p \<in> set (split_on sep bs) \<Longrightarrow> sep \<notin> set p"
  by (induction bs arbitrary: p) (auto split: if_splits list.splits)

lemma split_on_subset: "p \<in> set (split_on sep bs) \<Longrightarrow> set p \<subseteq> set bs"
  by (induction bs arbitrary: p) (auto split: if_splits list.splits, fastforce+)

lemma join_with_avoid: "x \<noteq> sep \<Longrightarrow> (\<And>p. p \<in> set ps \<Longrightarrow> x \<notin> set p) \<Longrightarrow> x \<notin> set (join_with sep ps)"
  by (induction sep ps rule: join_with.induct) auto

lemma split_on_append: "sep \<notin> set p \<Longrightarrow> split_on sep (p @ sep # bs) = p # split_on sep bs"
  by (induction p) auto

lemma split_on_single: "sep \<notin> set p \<Longrightarrow> split_on sep p = [p]"
  by (induction p) auto

lemma split_join:
  "ps \<noteq> [] \<Longrightarrow> \<forall>p\<in>set ps. sep \<notin> set p \<Longrightarrow> split_on sep (join_with sep ps) = ps"
  by (induction sep ps rule: join_with.induct) (auto simp: split_on_append split_on_single)

lemma hex_roundtrip: "n \<le> 15 \<Longrightarrow> hex_char_to_nibble (nibble_to_hex_char n) = Some n"
  using u8_exhaust [of "\<lambda>n. n \<le> 15 \<longrightarrow> hex_char_to_nibble (nibble_to_hex_char n) = Some n" n]
  by (rule impE) (assumption | code_simp)+

lemma nibble_high: "drop_bit 4 (b AND 240) \<le> (15 :: u8)"
proof -
  have "drop_bit 4 (b AND 240) = drop_bit 4 (b AND 240) AND (15::u8)"
    by (rule bit_eqI) (auto simp: bit_simps)
  then show ?thesis by (metis word_and_le1)
qed

lemma nibble_low: "b AND 15 \<le> (15 :: u8)"
  by (rule word_and_le1)

lemma nibbles_join: "push_bit 4 (drop_bit 4 (b AND 240)) OR (b AND 15) = (b :: u8)"
  by (rule u8_exhaust) code_simp

lemma nibbles_join': "push_bit 4 (drop_bit 4 b) AND 240 OR b AND 15 = (b :: u8)"
  by (rule u8_exhaust) code_simp

lemma unescape_escape_aux:
  assumes "37 \<notin> set keep"
  shows "mla_percent_unescape (mla_percent_escape bs keep) keep = Some bs"
proof (induction bs)
  case (Cons b bs)
  then show ?case
    using assms hex_roundtrip [OF nibble_high, of b] hex_roundtrip [OF nibble_low, of b]
    by (auto simp: nibbles_join nibbles_join' Let_def)
qed simp

lemma unix_components_safe:
  assumes "check_os_indep_path_rules p = Inr u"
  shows "unix_components p = map Normal (split_on 47 p)"
proof -
  let ?cs = "split_on 47 p"
  have ok: "\<forall>c\<in>set ?cs. \<not> is_invalid_os_indep_component c" and h: "\<not> (p \<noteq> [] \<and> hd p = 47)"
    using assms by (auto simp: check_os_indep_path_rules_def list_ex_iff split: if_splits)
  have f: "filter (\<lambda>c. c \<noteq> [] \<and> c \<noteq> DOT) ?cs = ?cs"
    using ok by (auto simp: filter_id_conv is_invalid_os_indep_component_def)
  have m: "map unix_component ?cs = map Normal ?cs"
    using ok by (auto simp: unix_component_def is_invalid_os_indep_component_def)
  have d: "hd ?cs \<noteq> DOT"
    using ok by (metis hd_in_set is_invalid_os_indep_component_def split_on_not_Nil)
  show ?thesis
    using h d by (simp add: unix_components_def f m)
qed

definition safe_component :: "bytes \<Rightarrow> bool" where
  "safe_component c \<longleftrightarrow> c \<noteq> [] \<and> c \<noteq> DOT \<and> c \<noteq> DOTDOT \<and> 47 \<notin> set c"

lemma from_path_stack_safe:
  "(\<And>c. Normal c \<in> set cs \<Longrightarrow> P c) \<Longrightarrow> (\<And>c. c \<in> set st \<Longrightarrow> P c) \<Longrightarrow>
   c \<in> set (from_path_stack st cs) \<Longrightarrow> P c"
proof (induction st cs arbitrary: c rule: from_path_stack.induct)
  case (5 st cs)
  then show ?case by (auto dest: in_set_butlastD)
qed auto

lemma unix_components_Normal:
  assumes "Normal c \<in> set (unix_components p)"
  shows "safe_component c \<and> set c \<subseteq> set p"
  using assms split_on_no_sep [of c 47 p] split_on_subset [of c 47 p]
  by (auto simp: unix_components_def unix_component_def safe_component_def split: if_splits)

lemma from_path_stack_Normal: "from_path_stack st (map Normal cs) = st @ cs"
  by (induction cs arbitrary: st) auto

lemma join_with_eq_Nil: "join_with sep ps = [] \<longleftrightarrow> ps = [] \<or> ps = [[]]"
  by (induction sep ps rule: join_with.induct) auto

lemma from_path_to_pathbuf:
  assumes "from_path p = Inr n" and "0 \<notin> set p"
  shows "to_pathbuf n = Inr (raw_name n)"
proof -
  define st where "st = from_path_stack [] (unix_components p)"
  have safe: "safe_component c \<and> set c \<subseteq> set p" if "c \<in> set st" for c
    using that unfolding st_def
    by (rule from_path_stack_safe [rotated -1]) (auto dest: unix_components_Normal)
  have n: "raw_name n = join_with 47 st" "join_with 47 st \<noteq> []"
    using assms(1) by (auto simp: from_path_def st_def from_arbitrary_bytes_vec_def split: if_splits)
  then have "st \<noteq> []" by (auto simp: join_with_eq_Nil)
  then have split: "split_on 47 (raw_name n) = st"
    unfolding n by (rule split_join) (use safe in \<open>auto simp: safe_component_def\<close>)
  have "list_ex is_invalid_os_indep_component st = False"
    using safe assms(2) by (auto simp: list_ex_iff is_invalid_os_indep_component_def safe_component_def)
  moreover have "hd (raw_name n) \<noteq> 47"
    using \<open>st \<noteq> []\<close> safe [of "hd st"] unfolding n safe_component_def
    by (cases st; cases "tl st"; cases "hd st") auto
  ultimately show ?thesis
    by (simp add: to_pathbuf_def check_os_indep_path_rules_def split)
qed

lemma to_pathbuf_from_path:
  assumes "wf_name n" and "to_pathbuf n = Inr p"
  shows "from_path p = Inr n"
proof -
  have p: "p = raw_name n" and r: "check_os_indep_path_rules p = Inr ()"
    using assms(2) by (auto simp: to_pathbuf_def split: sum.splits)
  show ?thesis
    using assms(1)
    using unix_components_safe [OF r]
    by (simp add: from_path_def from_path_stack_Normal join_split from_arbitrary_bytes_vec_wf p)
qed

lemma collect_result_Inr: "collect_result (map Inr xs) = Inr xs"
  by (induction xs) auto

lemma collect_result_normal:
  assumes "check_os_indep_path_rules p = Inr u"
  shows "collect_result (map to_normal_component_osstr (map Normal (split_on 47 p)))
    = Inr (split_on 47 p)"
proof -
  have "map to_normal_component_osstr (map Normal (split_on 47 p)) = map Inr (split_on 47 p)"
    using assms by (auto simp: check_os_indep_path_rules_def list_ex_iff
        is_invalid_os_indep_component_def split: if_splits)
  then show ?thesis by (simp only: collect_result_Inr)
qed

lemma to_pathbuf_escaped_string_Inr:
  assumes "to_pathbuf_escaped_string n = Inr s"
  shows "s = mla_percent_escape (raw_name n) ENTRY_NAME_PATHBUF_ESCAPED_STRING_ALLOWED_BYTES"
proof -
  obtain p where "to_pathbuf n = Inr p"
    using assms by (auto simp: to_pathbuf_escaped_string_def split: sum.splits)
  then have p: "p = raw_name n" and r: "check_os_indep_path_rules p = Inr ()"
    by (auto simp: to_pathbuf_def split: sum.splits)
  with assms \<open>to_pathbuf n = Inr p\<close> show ?thesis
    using unix_components_safe [OF r] collect_result_normal [OF r]
    by (simp add: to_pathbuf_escaped_string_def join_split del: map_map)
qed

lemma percent_not_allowed:
  "37 \<notin> set ENTRY_NAME_PATHBUF_ESCAPED_STRING_ALLOWED_BYTES"
  "37 \<notin> set ENTRY_NAME_RAW_CONTENT_ALLOWED_BYTES"
  by code_simp+

lemma collect_result_filter:
  "collect_result (map (\<lambda>c. if P c then Inr c else Inl e) ps) = Inr cs \<Longrightarrow>
   cs = ps \<and> (\<forall>c\<in>set ps. P c)"
  by (induction ps arbitrary: cs) (auto split: if_splits sum.splits)

section \<open>Properties\<close>

text \<open>C18: percent escaping is undone by percent unescaping with the same set of preserved bytes,
  provided the set does not contain the percent sign itself.\<close>

theorem escape_unescape:
  "37 \<notin> set keep \<Longrightarrow> mla_percent_unescape (mla_percent_escape bs keep) keep = Some bs"
  by (rule unescape_escape_aux)

theorem escape_unescape_witness:
  "mla_percent_unescape (mla_percent_escape [47, 37, 65, 255] [65]) [65] = Some [47, 37, 65, 255]"
  by (rule escape_unescape) simp

text \<open>Unescaping skips every byte that is neither allowed nor a percent sign, wherever it stands
  before an escape, instead of rejecting the input.\<close>

lemma unescape_drops_unexpected:
  "b \<notin> set allow \<Longrightarrow> b \<noteq> 37 \<Longrightarrow>
   mla_percent_unescape (b # bs) allow = mla_percent_unescape bs allow"
  by simp

lemma unescape_drops_unexpected_witness:
  "mla_percent_unescape [32, 65] [65] = mla_percent_unescape [65] [65]"
  by (rule unescape_drops_unexpected) simp_all

text \<open>C14: no path traversal. When an entry name is turned into a Unix path, every component of the
  path is an ordinary one: no root, no current or parent directory, no NUL byte, and the components
  are exactly the pieces of the name between slashes.\<close>

theorem to_pathbuf_no_traversal:
  assumes "to_pathbuf n = Inr p"
  shows "unix_components p = map Normal (split_on 47 (raw_name n)) \<and> p = raw_name n \<and> 0 \<notin> set p"
proof -
  have p: "p = raw_name n" and r: "check_os_indep_path_rules p = Inr ()"
    using assms by (auto simp: to_pathbuf_def split: sum.splits)
  have "0 \<notin> set (join_with 47 (split_on 47 p))"
    by (rule join_with_avoid) (use r in \<open>auto simp: check_os_indep_path_rules_def list_ex_iff
        is_invalid_os_indep_component_def split: if_splits\<close>)
  then show ?thesis
    using unix_components_safe [OF r] p by (simp add: join_split)
qed

theorem to_pathbuf_no_traversal_witness:
  "unix_components [97, 47, 98] = map Normal (split_on 47 (raw_name (EntryName [97, 47, 98])))
   \<and> [97, 47, 98] = raw_name (EntryName [97, 47, 98]) \<and> 0 \<notin> set [97, 47, 98 :: u8]"
  by (rule to_pathbuf_no_traversal) code_simp

text \<open>C16: a path that was turned into an entry name (with \<^verbatim>\<open>..\<close> resolved and prefixes dropped)
  always comes back as a safe relative path, and a name that has a path is the name of that path.\<close>

theorem from_path_to_pathbuf_roundtrip:
  "(from_path p = Inr n \<longrightarrow> 0 \<notin> set p \<longrightarrow> to_pathbuf n = Inr (raw_name n)) \<and>
   (wf_name n \<longrightarrow> to_pathbuf n = Inr q \<longrightarrow> from_path q = Inr n)"
  by (blast intro: from_path_to_pathbuf to_pathbuf_from_path)

theorem from_path_to_pathbuf_roundtrip_witness:
  "to_pathbuf (EntryName [98, 47, 99]) = Inr [98, 47, 99] \<and>
   from_path [98, 47, 99] = Inr (EntryName [98, 47, 99])"
proof -
  have "from_path [47, 97, 47, 46, 46, 47, 98, 47, 47, 46, 47, 99] = Inr (EntryName [98, 47, 99])"
    by code_simp
  moreover have "wf_name (EntryName [98, 47, 99])" by code_simp
  ultimately show ?thesis
    using from_path_to_pathbuf_roundtrip [of "[47, 97, 47, 46, 46, 47, 98, 47, 47, 46, 47, 99]"
        "EntryName [98, 47, 99]" "[98, 47, 99]"] by simp
qed

text \<open>C17: the escaped string of a name's path determines the name: unescaping it gives the raw name
  back, so two names never share an escaped path.\<close>

theorem to_pathbuf_escaped_string_unescape:
  assumes "to_pathbuf_escaped_string n = Inr s"
  shows "mla_percent_unescape s ENTRY_NAME_PATHBUF_ESCAPED_STRING_ALLOWED_BYTES = Some (raw_name n)"
  using unescape_escape_aux [OF percent_not_allowed(1)]
  by (simp add: to_pathbuf_escaped_string_Inr [OF assms])

theorem to_pathbuf_escaped_string_unescape_witness:
  "mla_percent_unescape [97, 47, 37, 50, 48, 98] ENTRY_NAME_PATHBUF_ESCAPED_STRING_ALLOWED_BYTES
   = Some (raw_name (EntryName [97, 47, 32, 98]))"
  by (rule to_pathbuf_escaped_string_unescape) code_simp

text \<open>C15: a Windows path made from a name has only components that are well-formed UTF-8, are neither
  empty nor relative, hold no forbidden byte (in particular no backslash, colon or control byte) and
  are not device names.\<close>

theorem to_pathbuf_windows_safe:
  assumes "to_pathbuf_windows n = Inr cs" and "c \<in> set cs"
  shows "utf8_valid c \<and> \<not> is_invalid_os_indep_component c \<and>
         set c \<inter> set WINDOWS_FORBIDDEN_PATH_BYTES = {} \<and> \<not> is_windows_forbidden_component c"
proof -
  let ?ps = "split_on 47 (raw_name n)"
  let ?f = "\<lambda>c. if utf8_valid c then Inr c else Inl InvalidPathComponentContent"
  have r: "check_os_indep_path_rules (raw_name n) = Inr ()"
    and o: "to_pathbuf_os_windows (raw_name n) = Inr cs"
    using assms(1) by (auto simp: to_pathbuf_windows_def split: sum.splits)
  from o have nf: "\<forall>b\<in>set (raw_name n). b \<notin> set WINDOWS_FORBIDDEN_PATH_BYTES"
    and nd: "\<forall>c\<in>set ?ps. \<not> is_windows_forbidden_component c"
    and "collect_result (map ?f ?ps) = Inr cs"
    by (auto simp: to_pathbuf_os_windows_def Let_def list_ex_iff split: if_splits)
  from collect_result_filter [OF this(3)] assms(2) have "c \<in> set ?ps" "utf8_valid c"
    by auto
  moreover from this(1) r have "\<not> is_invalid_os_indep_component c"
    by (auto simp: check_os_indep_path_rules_def list_ex_iff split: if_splits)
  ultimately show ?thesis
    using nf nd split_on_subset [of c 47 "raw_name n"] by blast
qed

theorem to_pathbuf_windows_safe_witness:
  "utf8_valid [195, 169] \<and> \<not> is_invalid_os_indep_component [195, 169] \<and>
   set [195, 169] \<inter> set WINDOWS_FORBIDDEN_PATH_BYTES = {} \<and>
   \<not> is_windows_forbidden_component [195, 169]"
proof -
  have "to_pathbuf_windows (EntryName [97, 47, 195, 169]) = Inr [[97], [195, 169]]" by code_simp
  then show ?thesis by (rule to_pathbuf_windows_safe) simp
qed

end
