(* ===== verification/Format.thy ===== *)
theory Format
  imports EntryName
begin

text \<open>
  The archive format of \<^verbatim>\<open>mla/src/format.rs\<close> (with the block types of \<^verbatim>\<open>mla/src/lib.rs\<close> and
  \<^verbatim>\<open>mla/src/entry.rs\<close>): the header and the blocks an archive is made of, their writers and their
  parsers. \<open>Block\<close> and \<open>enc_block\<close> are the abstract format: a block as a value, and its bytes.
\<close>

section \<open>Header\<close>

definition MLA_MAGIC :: bytes where "MLA_MAGIC = ascii ''MLAFAAAA''"
definition MLA_FORMAT_VERSION :: nat where "MLA_FORMAT_VERSION = 2"
definition END_MLA_MAGIC :: bytes where "END_MLA_MAGIC = ascii ''EMLAAAAA''"
definition ENTRIES_LAYER_MAGIC :: bytes where "ENTRIES_LAYER_MAGIC = ascii ''MLAENAAA''"
definition ARCHIVE_ENTRY_BLOCK_MAGIC :: bytes where "ARCHIVE_ENTRY_BLOCK_MAGIC = ascii ''MAEB''"

datatype archive_header = ArchiveHeader (format_version_number: nat)

definition archive_header_serialize ::
  "(bytes \<Rightarrow> ('w, io_error, nat) op) \<Rightarrow> archive_header \<Rightarrow> ('w, error, nat) op" where
  "archive_header_serialize wr h =
     bindE (lift_io (write_all wr MLA_MAGIC)) (\<lambda>_.
     bindE (u32_serialize wr MLA_FORMAT_VERSION) (\<lambda>n.
     bindE (lift_res (ok_or SerializationError (checked_add 8 n))) (\<lambda>len.
     bindE (opts_dump wr) (\<lambda>m.
       lift_res (ok_or SerializationError (checked_add len m))))))"

definition archive_header_deserialize ::
  "(nat \<Rightarrow> ('r, io_error, bytes) op) \<Rightarrow> ('r, error, archive_header) op" where
  "archive_header_deserialize rd =
     bindE (read_layer_magic rd) (\<lambda>mla_magic.
       if mla_magic \<noteq> MLA_MAGIC then fail WrongMagic
       else bindE (u32_deserialize rd) (\<lambda>version.
         if version \<noteq> MLA_FORMAT_VERSION then fail UnsupportedVersion
         else bindE (opts_from_reader rd) (\<lambda>_. ret (ArchiveHeader version))))"

definition enc_header :: bytes where
  "enc_header = MLA_MAGIC @ to_le 4 MLA_FORMAT_VERSION @ EMPTY_OPTS_SERIALIZATION"

section \<open>Layers flags\<close>

definition LAYERS_ENCRYPT :: u8 where "LAYERS_ENCRYPT = 1"
definition LAYERS_COMPRESS :: u8 where "LAYERS_COMPRESS = 2"
definition LAYERS_DEFAULT :: u8 where "LAYERS_DEFAULT = LAYERS_ENCRYPT OR LAYERS_COMPRESS"
definition LAYERS_EMPTY :: u8 where "LAYERS_EMPTY = 0"

section \<open>Blocks\<close>

datatype archive_entry_block_type =
  EntryStartType | EntryContentType | EndOfArchiveDataType | EndOfEntryType

definition block_type_serialize ::
  "(bytes \<Rightarrow> ('w, io_error, nat) op) \<Rightarrow> archive_entry_block_type \<Rightarrow> ('w, error, nat) op" where
  "block_type_serialize wr t =
     u8_serialize wr (case t of EntryStartType \<Rightarrow> 0 | EntryContentType \<Rightarrow> 1
       | EndOfArchiveDataType \<Rightarrow> 0xFE | EndOfEntryType \<Rightarrow> 0xFF)"

definition block_type_deserialize ::
  "(nat \<Rightarrow> ('r, io_error, bytes) op) \<Rightarrow> ('r, error, archive_entry_block_type) op" where
  "block_type_deserialize rd =
     bindE (u8_deserialize rd) (\<lambda>b.
       if b = 0 then ret EntryStartType
       else if b = 1 then ret EntryContentType
       else if b = 0xFE then ret EndOfArchiveDataType
       else if b = 0xFF then ret EndOfEntryType
       else fail WrongBlockSubFileType)"

text \<open>\<^verbatim>\<open>ArchiveEntryId\<close> is a \<^verbatim>\<open>u64\<close>; \<open>'r\<close> is the type of the content's reader.\<close>

type_synonym archive_entry_id = nat

datatype 'r archive_entry_block =
    EntryStart entry_name archive_entry_id
  | EntryContent nat "'r option" archive_entry_id
  | EndOfEntry archive_entry_id bytes
  | EndOfArchiveData

definition id_serialize ::
  "(bytes \<Rightarrow> ('w, io_error, nat) op) \<Rightarrow> archive_entry_id \<Rightarrow> ('w, error, nat) op" where
  "id_serialize wr i = u64_serialize wr i"

definition id_deserialize ::
  "(nat \<Rightarrow> ('r, io_error, bytes) op) \<Rightarrow> ('r, error, archive_entry_id) op" where
  "id_deserialize rd = u64_deserialize rd"

text \<open>The part of \<^verbatim>\<open>dump\<close> that only touches the destination.\<close>

definition dump_start ::
  "(bytes \<Rightarrow> ('w, io_error, nat) op) \<Rightarrow> entry_name \<Rightarrow> archive_entry_id \<Rightarrow> ('w, error, unit) op" where
  "dump_start wr name i =
     bindE (lift_io (write_all wr ARCHIVE_ENTRY_BLOCK_MAGIC)) (\<lambda>_.
     bindE (block_type_serialize wr EntryStartType) (\<lambda>_.
     bindE (id_serialize wr i) (\<lambda>_.
     bindE (serialize_entry_name wr name) (\<lambda>_.
     bindE (opts_dump wr) (\<lambda>_. ret ())))))"

definition dump_content_head ::
  "(bytes \<Rightarrow> ('w, io_error, nat) op) \<Rightarrow> nat \<Rightarrow> archive_entry_id \<Rightarrow> ('w, error, unit) op" where
  "dump_content_head wr len i =
     bindE (lift_io (write_all wr ARCHIVE_ENTRY_BLOCK_MAGIC)) (\<lambda>_.
     bindE (block_type_serialize wr EntryContentType) (\<lambda>_.
     bindE (id_serialize wr i) (\<lambda>_.
     bindE (opts_dump wr) (\<lambda>_.
     bindE (u64_serialize wr len) (\<lambda>_. ret ())))))"

definition dump_end ::
  "(bytes \<Rightarrow> ('w, io_error, nat) op) \<Rightarrow> archive_entry_id \<Rightarrow> bytes \<Rightarrow> ('w, error, unit) op" where
  "dump_end wr i hash =
     bindE (lift_io (write_all wr ARCHIVE_ENTRY_BLOCK_MAGIC)) (\<lambda>_.
     bindE (block_type_serialize wr EndOfEntryType) (\<lambda>_.
     bindE (id_serialize wr i) (\<lambda>_.
     bindE (opts_dump wr) (\<lambda>_.
       lift_io (write_all wr hash)))))"

definition dump_end_of_archive_data :: "(bytes \<Rightarrow> ('w, io_error, nat) op) \<Rightarrow> ('w, error, unit) op" where
  "dump_end_of_archive_data wr =
     bindE (lift_io (write_all wr ARCHIVE_ENTRY_BLOCK_MAGIC)) (\<lambda>_.
     bindE (block_type_serialize wr EndOfArchiveDataType) (\<lambda>_. ret ()))"

text \<open>\<^verbatim>\<open>ArchiveEntryBlock::dump(&mut self, dest)\<close>: the content's reader is consumed.\<close>

definition block_dump ::
  "(nat \<Rightarrow> ('r, io_error, bytes) op) \<Rightarrow> (bytes \<Rightarrow> ('w, io_error, nat) op) \<Rightarrow>
   ('r archive_entry_block \<times> 'w, error, unit) op" where
  "block_dump rd wr s =
     (case fst s of
        EntryStart name i \<Rightarrow> on_field snd (\<lambda>w s. (fst s, w)) (dump_start wr name i) s
      | EntryContent len data i \<Rightarrow>
          (case dump_content_head wr len i (snd s) of
             (Inl e, w) \<Rightarrow> (Inl e, (fst s, w))
           | (Inr _, w) \<Rightarrow>
               (case data of
                  None \<Rightarrow> (Inl (AssertionError ''Data missing in file content''), (fst s, w))
                | Some content \<Rightarrow>
                    (case lift_io (copy_take rd wr len) (content, w) of
                       (r, (content', w')) \<Rightarrow> (r, (EntryContent len (Some content') i, w')))))
      | EndOfEntry i hash \<Rightarrow> on_field snd (\<lambda>w s. (fst s, w)) (dump_end wr i hash) s
      | EndOfArchiveData \<Rightarrow> on_field snd (\<lambda>w s. (fst s, w)) (dump_end_of_archive_data wr) s)"

text \<open>\<^verbatim>\<open>ArchiveEntryBlock::from\<close>: the block magic is read and not compared.\<close>

definition block_from ::
  "(nat \<Rightarrow> ('r, io_error, bytes) op) \<Rightarrow> ('r, error, 'r archive_entry_block) op" where
  "block_from rd =
     bindE (u32_deserialize rd) (\<lambda>_.
     bindE (block_type_deserialize rd) (\<lambda>block_type.
       case block_type of
         EntryStartType \<Rightarrow>
           bindE (id_deserialize rd) (\<lambda>i.
           bindE (deserialize_entry_name rd) (\<lambda>name.
           bindE (opts_from_reader rd) (\<lambda>_. ret (EntryStart name i))))
       | EntryContentType \<Rightarrow>
           bindE (id_deserialize rd) (\<lambda>i.
           bindE (opts_from_reader rd) (\<lambda>_.
           bindE (u64_deserialize rd) (\<lambda>len. ret (EntryContent len None i))))
       | EndOfEntryType \<Rightarrow>
           bindE (id_deserialize rd) (\<lambda>i.
           bindE (opts_from_reader rd) (\<lambda>_.
           bindE (lift_io (read_exact rd 32)) (\<lambda>hash. ret (EndOfEntry i hash))))
       | EndOfArchiveDataType \<Rightarrow> ret EndOfArchiveData))"

section \<open>Blocks as values, and their bytes\<close>

datatype block =
    BStart entry_name archive_entry_id
  | BContent archive_entry_id bytes
  | BEnd archive_entry_id bytes
  | BEndOfData

fun enc_head :: "block \<Rightarrow> bytes" where
  "enc_head (BStart name i) =
     ARCHIVE_ENTRY_BLOCK_MAGIC @ [0] @ to_le 8 i @ enc_name name @ EMPTY_OPTS_SERIALIZATION"
| "enc_head (BContent i bs) =
     ARCHIVE_ENTRY_BLOCK_MAGIC @ [1] @ to_le 8 i @ EMPTY_OPTS_SERIALIZATION @ to_le 8 (length bs)"
| "enc_head (BEnd i hash) =
     ARCHIVE_ENTRY_BLOCK_MAGIC @ [0xFF] @ to_le 8 i @ EMPTY_OPTS_SERIALIZATION @ hash"
| "enc_head BEndOfData = ARCHIVE_ENTRY_BLOCK_MAGIC @ [0xFE]"

fun block_payload :: "block \<Rightarrow> bytes" where
  "block_payload (BContent i bs) = bs"
| "block_payload _ = []"

definition enc_block :: "block \<Rightarrow> bytes" where
  "enc_block b = enc_head b @ block_payload b"

definition enc_blocks :: "block list \<Rightarrow> bytes" where
  "enc_blocks bs = concat (map enc_block bs)"

text \<open>What \<open>block_from\<close> returns on a block: the payload is left to read.\<close>

fun parsed_block :: "block \<Rightarrow> 'r archive_entry_block" where
  "parsed_block (BStart name i) = EntryStart name i"
| "parsed_block (BContent i bs) = EntryContent (length bs) None i"
| "parsed_block (BEnd i hash) = EndOfEntry i hash"
| "parsed_block BEndOfData = EndOfArchiveData"

fun wf_block :: "block \<Rightarrow> bool" where
  "wf_block (BStart name i) \<longleftrightarrow> wf_name name \<and> i < 2 ^ 64"
| "wf_block (BContent i bs) \<longleftrightarrow> i < 2 ^ 64 \<and> length bs < 2 ^ 64"
| "wf_block (BEnd i hash) \<longleftrightarrow> i < 2 ^ 64 \<and> length hash = 32"
| "wf_block BEndOfData \<longleftrightarrow> True"

lemmas format_consts = MLA_MAGIC_def MLA_FORMAT_VERSION_def ARCHIVE_ENTRY_BLOCK_MAGIC_def
  EMPTY_OPTS_SERIALIZATION_def END_MLA_MAGIC_def ENTRIES_LAYER_MAGIC_def

lemma length_magics [simp]:
  "length MLA_MAGIC = 8" "length END_MLA_MAGIC = 8" "length ENTRIES_LAYER_MAGIC = 8"
  "length ARCHIVE_ENTRY_BLOCK_MAGIC = 4" "length EMPTY_OPTS_SERIALIZATION = 1"
  by (simp_all add: format_consts)

lemma enc_head_not_Nil [simp]: "enc_head b \<noteq> []"
  by (cases b) (auto simp flip: length_0_conv)

lemma enc_blocks_simps [simp]:
  "enc_blocks [] = []" "enc_blocks (b # bs) = enc_block b @ enc_blocks bs"
  "enc_blocks (bs @ bs') = enc_blocks bs @ enc_blocks bs'"
  by (simp_all add: enc_blocks_def)

context sink
begin

lemma prints_archive_header: "prints (archive_header_serialize wr h) enc_header 13"
proof -
  have "prints (archive_header_serialize wr h) (MLA_MAGIC @ to_le 4 MLA_FORMAT_VERSION
      @ [] @ EMPTY_OPTS_SERIALIZATION @ []) (8 + 4 + 1)"
    unfolding archive_header_serialize_def by (rule print_intros)+
  then show ?thesis by (simp add: enc_header_def)
qed

lemma prints_block_type:
  "prints (block_type_serialize wr t) [case t of EntryStartType \<Rightarrow> 0 | EntryContentType \<Rightarrow> 1
       | EndOfArchiveDataType \<Rightarrow> 0xFE | EndOfEntryType \<Rightarrow> 0xFF] 1"
  unfolding block_type_serialize_def by (rule prints_u8)

lemma prints_id [print_intros]: "prints (id_serialize wr i) (to_le 8 i) 8"
  unfolding id_serialize_def by (rule prints_u64)

lemma prints_dump_start: "prints (dump_start wr name i) (enc_block (BStart name i)) ()"
proof -
  have "prints (dump_start wr name i) (ARCHIVE_ENTRY_BLOCK_MAGIC @ [0] @ to_le 8 i @ enc_name name
      @ EMPTY_OPTS_SERIALIZATION @ []) ()"
    unfolding dump_start_def
    by (rule print_intros prints_block_type [of EntryStartType, simplified])+
  then show ?thesis by (simp add: enc_block_def)
qed

lemma prints_dump_content_head:
  "prints (dump_content_head wr (length bs) i) (enc_head (BContent i bs)) ()"
proof -
  have "prints (dump_content_head wr (length bs) i) (ARCHIVE_ENTRY_BLOCK_MAGIC @ [1] @ to_le 8 i
      @ EMPTY_OPTS_SERIALIZATION @ to_le 8 (length bs) @ []) ()"
    unfolding dump_content_head_def
    by (rule print_intros prints_block_type [of EntryContentType, simplified])+
  then show ?thesis by simp
qed

lemma prints_dump_end: "prints (dump_end wr i hash) (enc_block (BEnd i hash)) ()"
proof -
  have "prints (dump_end wr i hash) (ARCHIVE_ENTRY_BLOCK_MAGIC @ [0xFF] @ to_le 8 i
      @ EMPTY_OPTS_SERIALIZATION @ hash) ()"
    unfolding dump_end_def
    by (rule print_intros prints_block_type [of EndOfEntryType, simplified])+
  then show ?thesis by (simp add: enc_block_def)
qed

lemma prints_dump_end_of_archive_data:
  "prints (dump_end_of_archive_data wr) (enc_block BEndOfData) ()"
proof -
  have "prints (dump_end_of_archive_data wr) (ARCHIVE_ENTRY_BLOCK_MAGIC @ [0xFE] @ []) ()"
    unfolding dump_end_of_archive_data_def
    by (rule print_intros prints_block_type [of EndOfArchiveDataType, simplified])+
  then show ?thesis by (simp add: enc_block_def)
qed

end

context room_sink
begin

lemma runs_archive_header: "runs (archive_header_serialize wr h) enc_header 13"
proof -
  have "runs (archive_header_serialize wr h) (MLA_MAGIC @ to_le 4 MLA_FORMAT_VERSION
      @ [] @ EMPTY_OPTS_SERIALIZATION @ []) (8 + 4 + 1)"
    unfolding archive_header_serialize_def
    by (rule runs_bindE, rule run_intros, rule run_intros, rule runs_bindE, rule run_intros,
        rule runs_bindE, rule runs_checked_add, simp, rule runs_bindE, rule run_intros,
        rule runs_checked_add, simp)
  then show ?thesis by (simp add: enc_header_def)
qed

lemma runs_block_type:
  "runs (block_type_serialize wr t) [case t of EntryStartType \<Rightarrow> 0 | EntryContentType \<Rightarrow> 1
       | EndOfArchiveDataType \<Rightarrow> 0xFE | EndOfEntryType \<Rightarrow> 0xFF] 1"
  unfolding block_type_serialize_def by (rule runs_u8)

lemma runs_id [run_intros]: "runs (id_serialize wr i) (to_le 8 i) 8"
  unfolding id_serialize_def by (rule runs_u64)

lemma runs_dump_start:
  "wf_name name \<Longrightarrow> runs (dump_start wr name i) (enc_block (BStart name i)) ()"
proof -
  assume "wf_name name"
  then have "runs (dump_start wr name i) (ARCHIVE_ENTRY_BLOCK_MAGIC @ [0] @ to_le 8 i @ enc_name name
      @ EMPTY_OPTS_SERIALIZATION @ []) ()"
    unfolding dump_start_def
    by - (rule run_intros runs_block_type [of EntryStartType, simplified] runs_entry_name
      | assumption)+
  then show ?thesis by (simp add: enc_block_def)
qed

lemma runs_dump_content_head:
  "runs (dump_content_head wr (length bs) i) (enc_head (BContent i bs)) ()"
proof -
  have "runs (dump_content_head wr (length bs) i) (ARCHIVE_ENTRY_BLOCK_MAGIC @ [1] @ to_le 8 i
      @ EMPTY_OPTS_SERIALIZATION @ to_le 8 (length bs) @ []) ()"
    unfolding dump_content_head_def
    by (rule run_intros runs_block_type [of EntryContentType, simplified])+
  then show ?thesis by simp
qed

lemma runs_dump_end: "runs (dump_end wr i hash) (enc_block (BEnd i hash)) ()"
proof -
  have "runs (dump_end wr i hash) (ARCHIVE_ENTRY_BLOCK_MAGIC @ [0xFF] @ to_le 8 i
      @ EMPTY_OPTS_SERIALIZATION @ hash) ()"
    unfolding dump_end_def
    by (rule run_intros runs_block_type [of EndOfEntryType, simplified])+
  then show ?thesis by (simp add: enc_block_def)
qed

lemma runs_dump_end_of_archive_data:
  "runs (dump_end_of_archive_data wr) (enc_block BEndOfData) ()"
proof -
  have "runs (dump_end_of_archive_data wr) (ARCHIVE_ENTRY_BLOCK_MAGIC @ [0xFE] @ []) ()"
    unfolding dump_end_of_archive_data_def
    by (rule run_intros runs_block_type [of EndOfArchiveDataType, simplified])+
  then show ?thesis by (simp add: enc_block_def)
qed

end

context source
begin

lemma parses_archive_header:
  "parses (archive_header_deserialize rd) enc_header (ArchiveHeader MLA_FORMAT_VERSION)"
proof -
  have "parses (archive_header_deserialize rd)
      (MLA_MAGIC @ to_le 4 MLA_FORMAT_VERSION @ EMPTY_OPTS_SERIALIZATION)
      (ArchiveHeader MLA_FORMAT_VERSION)"
    unfolding archive_header_deserialize_def
    by (rule parses_bindE, rule parse_intros, simp, simp, rule parses_bindE, rule parses_u32,
        simp add: MLA_FORMAT_VERSION_def, simp, rule parses_bindE_ret, rule parse_intros)
  then show ?thesis by (simp add: enc_header_def)
qed

lemma parses_block_type:
  "parses (block_type_deserialize rd) [0] EntryStartType"
  "parses (block_type_deserialize rd) [1] EntryContentType"
  "parses (block_type_deserialize rd) [0xFE] EndOfArchiveDataType"
  "parses (block_type_deserialize rd) [0xFF] EndOfEntryType"
  unfolding block_type_deserialize_def
  by (rule parses_last, rule parses_u8, simp add: parses_ret)+

lemma parses_id: "i < 2 ^ 64 \<Longrightarrow> parses (id_deserialize rd) (to_le 8 i) i"
  unfolding id_deserialize_def by (rule parses_u64)

lemma parses_block_magic:
  "\<exists>n. parses (u32_deserialize rd) ARCHIVE_ENTRY_BLOCK_MAGIC n"
  unfolding u32_deserialize_def
  using parses_bindE_ret [OF parses_read_exact_or_deser [of 4 ARCHIVE_ENTRY_BLOCK_MAGIC], of from_le]
  by auto

lemma parses_block:
  assumes "wf_block b"
  shows "parses (block_from rd) (enc_head b) (parsed_block b)"
proof -
  obtain n where m: "parses (u32_deserialize rd) ARCHIVE_ENTRY_BLOCK_MAGIC n"
    using parses_block_magic by blast
  show ?thesis
  proof (cases b)
    case (BStart name i)
    then show ?thesis
      using assms unfolding block_from_def BStart enc_head.simps parsed_block.simps
      by - (rule parses_bindE, rule m, rule parses_bindE, rule parses_block_type,
        simp only: archive_entry_block_type.case wf_block.simps, rule parses_bindE, rule parses_id,
        simp, rule parses_bindE, rule parses_entry_name, simp, rule parses_bindE_ret,
        rule parses_opts)
  next
    case (BContent i bs)
    then show ?thesis
      using assms unfolding block_from_def BContent enc_head.simps parsed_block.simps
      by - (rule parses_bindE, rule m, rule parses_bindE, rule parses_block_type,
        simp only: archive_entry_block_type.case wf_block.simps, rule parses_bindE, rule parses_id,
        simp, rule parses_bindE, rule parses_opts, rule parses_bindE_ret, rule parses_u64, simp)
  next
    case (BEnd i hash)
    then show ?thesis
      using assms unfolding block_from_def BEnd enc_head.simps parsed_block.simps
      by - (rule parses_bindE, rule m, rule parses_bindE, rule parses_block_type,
        simp only: archive_entry_block_type.case wf_block.simps, rule parses_bindE, rule parses_id,
        simp, rule parses_bindE, rule parses_opts, rule parses_bindE_ret, rule parses_lift_io,
        rule parses_read_exact, simp)
  next
    case BEndOfData
    then show ?thesis
      unfolding block_from_def BEndOfData enc_head.simps parsed_block.simps
      by - (rule parses_bindE, rule m, rule parses_last, rule parses_block_type,
        simp add: parses_ret)
  qed
qed

end

section \<open>Dumping a block\<close>

text \<open>The abstract block that an \<open>archive_entry_block\<close> stands for, given what its reader has left.\<close>

fun dumped :: "('r \<Rightarrow> bytes) \<Rightarrow> 'r archive_entry_block \<Rightarrow> block option" where
  "dumped left (EntryStart name i) = Some (BStart name i)"
| "dumped left (EntryContent len None i) = None"
| "dumped left (EntryContent len (Some r) i) =
     (if len \<le> length (left r) then Some (BContent i (take len (left r))) else None)"
| "dumped left (EndOfEntry i hash) = Some (BEnd i hash)"
| "dumped left EndOfArchiveData = Some BEndOfData"

fun block_reader_ok :: "('r \<Rightarrow> bool) \<Rightarrow> 'r archive_entry_block \<Rightarrow> bool" where
  "block_reader_ok ok (EntryContent len (Some r) i) = ok r"
| "block_reader_ok ok _ = True"

lemma on_field_snd:
  "on_field snd (\<lambda>w s. (fst s, w)) m (b, w) = (r, s') \<longleftrightarrow>
   (\<exists>w'. m w = (r, w') \<and> s' = (b, w'))"
  by (auto simp: on_field_def split: prod.splits)

context copier
begin

lemma block_dump_out:
  assumes "winv w" and "block_reader_ok inv blk" and "dumped rest blk = Some b"
    and "block_dump rd wr (blk, w) = (Inr u, (blk', w'))"
  shows "winv w' \<and> out w' = out w @ enc_block b"
proof (cases blk)
  case (EntryStart name i)
  then show ?thesis
    using assms printsD [OF prints_dump_start assms(1)] by (auto simp: block_dump_def on_field_snd)
next
  case (EntryContent len data i)
  then obtain r where data: "data = Some r" "inv r" "len \<le> length (rest r)"
    "b = BContent i (take len (rest r))"
    using assms(2,3) by (cases data) (auto split: if_splits)
  obtain v w1 r' where w1: "dump_content_head wr len i w = (Inr v, w1)"
    and c: "copy_take rd wr len (r, w1) = (Inr u, (r', w'))"
    using assms(4) by (auto simp: block_dump_def EntryContent data(1) dest!: lift_io_InrD
        split: prod.splits sum.splits)
  have "dump_content_head wr (length (take len (rest r))) i w = (Inr v, w1)"
    using w1 data(3) by (simp add: min_absorb2)
  from printsD [OF prints_dump_content_head assms(1) this]
  have o1: "winv w1" "out w1 = out w @ enc_head b" by (simp_all add: data(4))
  from copy_take_out [OF data(2) o1(1) data(3) c] o1(2) data show ?thesis
    by (simp add: enc_block_def)
next
  case (EndOfEntry i hash)
  then show ?thesis
    using assms printsD [OF prints_dump_end assms(1)] by (auto simp: block_dump_def on_field_snd)
next
  case EndOfArchiveData
  then show ?thesis
    using assms printsD [OF prints_dump_end_of_archive_data assms(1)]
    by (auto simp: block_dump_def on_field_snd)
qed

text \<open>The content's reader advances over exactly the bytes of the block.\<close>

lemma block_dump_reader:
  assumes "winv w" and "inv r" and "len \<le> length (rest r)"
    and "block_dump rd wr (EntryContent len (Some r) i, w) = (Inr u, (blk', w'))"
  shows "\<exists>r'. blk' = EntryContent len (Some r') i \<and> inv r' \<and> view r' = view r \<and> pos r' = pos r + len"
proof -
  obtain v w1 r' where w1: "dump_content_head wr len i w = (Inr v, w1)"
    and c: "copy_take rd wr len (r, w1) = (Inr u, (r', w'))" and b: "blk' = EntryContent len (Some r') i"
    using assms(4) by (auto simp: block_dump_def dest!: lift_io_InrD split: prod.splits sum.splits)
  have "dump_content_head wr (length (take len (rest r))) i w = (Inr v, w1)"
    using w1 assms(3) by (simp add: min_absorb2)
  from printsD [OF prints_dump_content_head assms(1) this] have "winv w1" by simp
  from copy_take_out [OF assms(2) this assms(3) c] b show ?thesis by auto
qed

end

context room_copier
begin

sublocale copier ..

lemma block_dump_room:
  assumes "winv w" and "block_reader_ok inv blk" and "dumped rest blk = Some b" and "wf_block b"
    and "length (enc_block b) \<le> room w"
  shows "\<exists>blk' w'. block_dump rd wr (blk, w) = (Inr (), (blk', w')) \<and>
    room w \<le> room w' + length (enc_block b)"
proof (cases blk)
  case (EntryStart name i)
  then have b: "b = BStart name i" "wf_name name" using assms by auto
  from runsE [OF runs_dump_start [OF b(2)] assms(1) assms(5) [unfolded b(1)]]
  obtain w' where "dump_start wr name i w = (Inr (), w')"
    "room w \<le> room w' + length (enc_block b)" unfolding b(1) by blast
  then show ?thesis
    by (auto simp: block_dump_def on_field_snd EntryStart)
next
  case (EntryContent len data i)
  then obtain r where data: "data = Some r" "inv r" "len \<le> length (rest r)"
    "b = BContent i (take len (rest r))"
    using assms(2,3) by (cases data) (auto split: if_splits)
  have "length (enc_head b) \<le> room w" using assms(5) by (simp add: enc_block_def)
  from runsE [OF runs_dump_content_head assms(1) this [unfolded data(4)]] obtain w1 where
    w1: "dump_content_head wr (length (take len (rest r))) i w = (Inr (), w1)" "winv w1"
      "room w \<le> room w1 + length (enc_head b)"
    unfolding data(4) by blast
  have "len \<le> room w1"
    using w1(3) assms(5) data by (simp add: enc_block_def min_absorb2)
  from copy_take_room [OF data(2) w1(2) data(3) this] obtain r' w' where
    "copy_take rd wr len (r, w1) = (Inr (), (r', w'))" "room w1 \<le> room w' + len"
    by blast
  then show ?thesis
    using w1 data by (auto simp: block_dump_def EntryContent io_simps min_absorb2 enc_block_def)
next
  case (EndOfEntry i hash)
  then have b: "b = BEnd i hash" using assms by auto
  from runsE [OF runs_dump_end assms(1) assms(5) [unfolded b]]
  obtain w' where "dump_end wr i hash w = (Inr (), w')"
    "room w \<le> room w' + length (enc_block b)" unfolding b by blast
  then show ?thesis
    by (auto simp: block_dump_def on_field_snd EndOfEntry)
next
  case EndOfArchiveData
  then have b: "b = BEndOfData" using assms by auto
  from runsE [OF runs_dump_end_of_archive_data assms(1) assms(5) [unfolded b]]
  obtain w' where "dump_end_of_archive_data wr w = (Inr (), w')"
    "room w \<le> room w' + length (enc_block b)" unfolding b by blast
  then show ?thesis
    by (auto simp: block_dump_def on_field_snd EndOfArchiveData)
qed

end

section \<open>Properties\<close>

text \<open>C11: every well-formed block is written in full to a vector and read back as the same block;
  the parser stops exactly at the block's content, whatever follows.\<close>

theorem block_roundtrip:
  assumes "wf_block b" and "block_reader_ok cursor_inv blk" and "dumped cur.rest blk = Some b"
    and "length (w @ enc_block b @ tl_bytes) < 2 ^ 63"
  shows "\<exists>blk' s'. block_dump cursor_read vec_write (blk, w) = (Inr (), (blk', w @ enc_block b)) \<and>
    block_from cursor_read (cursor_new (enc_block b @ tl_bytes)) = (Inr (parsed_block b), s') \<and>
    drop (cur_pos s') (cur_data s') = block_payload b @ tl_bytes"
proof -
  have "length (enc_block b) \<le> vec_room w"
    using assms(4) by (simp add: vec_room_def)
  from cur_vec.block_dump_room [OF TrueI assms(2,3,1) this] obtain blk' w' where
    d: "block_dump cursor_read vec_write (blk, w) = (Inr (), (blk', w'))" by blast
  have w': "w' = w @ enc_block b"
    using cur_vec.block_dump_out [OF TrueI assms(2,3) d] by simp
  have "cursor_inv (cursor_new (enc_block b @ tl_bytes))"
    using assms(4) by (simp add: cursor_inv_def cursor_new_def)
  from cur.parsesD [OF cur.parses_block [OF assms(1)] this, of "block_payload b @ tl_bytes"]
  have "cur.yields (block_from cursor_read) (cursor_new (enc_block b @ tl_bytes)) (parsed_block b)
      (length (enc_head b))"
    by (simp add: cur.rest_def cursor_new_def enc_block_def)
  then obtain s' where "block_from cursor_read (cursor_new (enc_block b @ tl_bytes)) = (Inr (parsed_block b), s')"
    "cur_data s' = enc_block b @ tl_bytes" "cur_pos s' = length (enc_head b)"
    by (rule cur.yieldsE) (simp add: cursor_new_def)
  then show ?thesis using d w' by (auto simp: enc_block_def)
qed

theorem block_roundtrip_witness:
  "\<exists>blk' s'. block_dump cursor_read vec_write (EntryContent 2 (Some (cursor_new [7, 8, 9])) 5, [])
      = (Inr (), (blk', [] @ enc_block (BContent 5 [7, 8]))) \<and>
    block_from cursor_read (cursor_new (enc_block (BContent 5 [7, 8]) @ [9])) =
      (Inr (parsed_block (BContent 5 [7, 8])), s') \<and>
    drop (cur_pos s') (cur_data s') = block_payload (BContent 5 [7, 8]) @ [9]"
  by (rule block_roundtrip)
    (simp_all add: cur.rest_def cursor_new_def cursor_inv_def enc_block_def)

text \<open>The archive header is read back, and a reader rejects another magic or another version.\<close>

theorem archive_header_roundtrip:
  "archive_header_serialize vec_write h [] = (Inr 13, enc_header) \<and>
   (\<exists>s'. archive_header_deserialize cursor_read (cursor_new (enc_header @ [b])) =
      (Inr (ArchiveHeader MLA_FORMAT_VERSION), s') \<and> cur_pos s' = 13) \<and>
   fst (archive_header_deserialize cursor_read (cursor_new (END_MLA_MAGIC @ [b]))) = Inl WrongMagic \<and>
   fst (archive_header_deserialize cursor_read (cursor_new (MLA_MAGIC @ to_le 4 1))) =
     Inl UnsupportedVersion"
proof (intro conjI)
  have "length enc_header \<le> vec_room []" by (simp add: vec_room_def enc_header_def)
  from vec.runsE [OF vec.runs_archive_header TrueI this]
  show "archive_header_serialize vec_write h [] = (Inr 13, enc_header)" by auto
  have "cur.yields (archive_header_deserialize cursor_read) (cursor_new (enc_header @ [b]))
      (ArchiveHeader MLA_FORMAT_VERSION) (length enc_header)"
    by (rule cur.parsesD [OF cur.parses_archive_header, of _ "[b]"])
      (simp_all add: cursor_inv_def cursor_new_def cur.rest_def enc_header_def)
  then show "\<exists>s'. archive_header_deserialize cursor_read (cursor_new (enc_header @ [b])) =
      (Inr (ArchiveHeader MLA_FORMAT_VERSION), s') \<and> cur_pos s' = 13"
    by (rule cur.yieldsE) (auto simp: cursor_new_def enc_header_def)
qed code_simp+

end
