(* ===== verification/Index.thy ===== *)
theory Index
  imports Format "HOL-Library.AList" "HOL-Library.Multiset"
begin

text \<open>
  The archive's index (\<^verbatim>\<open>EntryInfo\<close>, \<^verbatim>\<open>ArchiveFooter\<close> of \<^verbatim>\<open>mla/src/lib.rs\<close>): for each entry name,
  the offsets and sizes of its blocks. Hash maps are association lists with distinct keys; the
  footer is sorted by name, so the iteration order of the map does not show.
\<close>

section \<open>Entry information\<close>

record entry_info =
  offsets_and_sizes :: "(nat \<times> nat) list"

definition entry_info_serialize ::
  "(bytes \<Rightarrow> ('w, io_error, nat) op) \<Rightarrow> entry_info \<Rightarrow> ('w, error, nat) op" where
  "entry_info_serialize wr info =
     vec_serialize wr (pair_serialize (u64_serialize wr) (u64_serialize wr)) (offsets_and_sizes info)"

definition entry_info_deserialize ::
  "(nat \<Rightarrow> ('r, io_error, bytes) op) \<Rightarrow> ('r, error, entry_info) op" where
  "entry_info_deserialize rd =
     bindE (vec_deserialize rd (pair_deserialize (u64_deserialize rd) (u64_deserialize rd)))
       (\<lambda>xs. ret \<lparr>offsets_and_sizes = xs\<rparr>)"

section \<open>The footer\<close>

fun footer_combine ::
  "(entry_name \<times> archive_entry_id) list \<Rightarrow> (archive_entry_id \<times> entry_info) list \<Rightarrow>
   error + (entry_name \<times> entry_info) list" where
  "footer_combine [] ids_info = Inr []"
| "footer_combine ((k, i) # entries_info) ids_info =
     (case map_of ids_info i of
        None \<Rightarrow> Inl (WrongWriterState ''[ArchiveFooter seriliaze] Unable to find the ID'')
      | Some v \<Rightarrow>
          (case footer_combine entries_info ids_info of
             Inl e \<Rightarrow> Inl e
           | Inr tmp \<Rightarrow> Inr ((k, v) # tmp)))"

fun footer_serialize_entries ::
  "(bytes \<Rightarrow> ('w, io_error, nat) op) \<Rightarrow> nat \<Rightarrow> (entry_name \<times> entry_info) list \<Rightarrow>
   ('w, error, nat) op" where
  "footer_serialize_entries wr len [] = ret len"
| "footer_serialize_entries wr len ((k, i) # tmp) =
     bindE (serialize_entry_name wr k) (\<lambda>n.
     bindE (lift_res (ok_or SerializationError (checked_add len n))) (\<lambda>len1.
     bindE (entry_info_serialize wr i) (\<lambda>m.
     bindE (lift_res (ok_or SerializationError (checked_add len1 m))) (\<lambda>len2.
       footer_serialize_entries wr len2 tmp))))"

definition footer_serialize_into ::
  "(bytes \<Rightarrow> ('w, io_error, nat) op) \<Rightarrow> (entry_name \<times> archive_entry_id) list \<Rightarrow>
   (archive_entry_id \<times> entry_info) list \<Rightarrow> ('w, error, unit) op" where
  "footer_serialize_into wr entries_info ids_info =
     bindE (lift_res (footer_combine entries_info ids_info)) (\<lambda>combined.
       let tmp = sort_key fst combined in
       bindE (usize_serialize wr (length tmp)) (\<lambda>_.
       bindE (footer_serialize_entries wr 8 tmp) (\<lambda>len.
       bindE (lift_res (ok_or SerializationError (checked_add len 1))) (\<lambda>len1.
       bindE (u64_serialize wr len1) (\<lambda>_. ret ())))))"

text \<open>\<^verbatim>\<open>collect::<Result<HashMap<_, _>, _>>()\<close>: a later duplicate replaces an earlier entry.\<close>

definition hash_map_collect :: "('k \<times> 'v) list \<Rightarrow> ('k \<times> 'v) list" where
  "hash_map_collect kvs = fold (\<lambda>(k, v) m. AList.update k v m) kvs []"

record archive_footer =
  entries_info :: "(entry_name \<times> entry_info) list"

definition footer_deserialize_from ::
  "(nat \<Rightarrow> ('r, io_error, bytes) op) \<Rightarrow> ('r, error, archive_footer option) op" where
  "footer_deserialize_from rd =
     bindE (u8_deserialize rd) (\<lambda>index_present.
       if index_present = 1 then
         bindE (u64_deserialize rd) (\<lambda>n.
         bindE (collect_deserialize
             (bindE (deserialize_entry_name rd) (\<lambda>name.
              bindE (entry_info_deserialize rd) (\<lambda>info. ret (name, info)))) n) (\<lambda>kvs.
           ret (Some \<lparr>entries_info = hash_map_collect kvs\<rparr>)))
       else ret None)"

section \<open>The bytes of a footer\<close>

definition enc_info :: "entry_info \<Rightarrow> bytes" where
  "enc_info info = enc_vec (\<lambda>p. to_le 8 (fst p) @ to_le 8 (snd p)) (offsets_and_sizes info)"

definition enc_footer_entry :: "entry_name \<times> entry_info \<Rightarrow> bytes" where
  "enc_footer_entry e = enc_name (fst e) @ enc_info (snd e)"

definition enc_index :: "(entry_name \<times> entry_info) list \<Rightarrow> bytes" where
  "enc_index es = to_le 8 (length es) @ concat (map enc_footer_entry es)"

text \<open>The index as stored: a presence tag, the entries, and the length of both.\<close>

definition enc_footer :: "(entry_name \<times> entry_info) list \<Rightarrow> bytes" where
  "enc_footer es = (1 # enc_index es) @ to_le 8 (1 + length (enc_index es))"

definition wf_info :: "entry_info \<Rightarrow> bool" where
  "wf_info info \<longleftrightarrow> length (offsets_and_sizes info) < 2 ^ 60 \<and>
     (\<forall>p \<in> set (offsets_and_sizes info). fst p < 2 ^ 64 \<and> snd p < 2 ^ 64)"

definition wf_index :: "(entry_name \<times> entry_info) list \<Rightarrow> bool" where
  "wf_index es \<longleftrightarrow> distinct (map fst es) \<and> length es < 2 ^ 64 \<and>
     (\<forall>e \<in> set es. wf_name (fst e) \<and> wf_info (snd e))"

lemma enc_footer_entry_pair: "enc_footer_entry (k, i) = enc_name k @ enc_info i"
  by (simp add: enc_footer_entry_def)

lemma length_enc_info: "length (enc_info info) = 8 + 16 * length (offsets_and_sizes info)"
proof -
  have "sum_list (map (length \<circ> (\<lambda>p. to_le 8 (fst p) @ to_le 8 (snd p))) xs) = 16 * length xs"
    for xs :: "(nat \<times> nat) list"
    by (induction xs) auto
  then show ?thesis by (simp add: enc_info_def length_enc_vec)
qed

lemma footer_combine_Inr:
  "footer_combine es ids = Inr tmp \<Longrightarrow>
   map fst tmp = map fst es \<and>
   (\<forall>k. map_of tmp k = Option.bind (map_of es k) (map_of ids))"
  by (induction es arbitrary: tmp) (auto split: option.splits sum.splits)

lemma footer_combine_total:
  "(\<And>k i. (k, i) \<in> set es \<Longrightarrow> map_of ids i \<noteq> None) \<Longrightarrow>
   footer_combine es ids = Inr (map (\<lambda>(k, i). (k, the (map_of ids i))) es)"
proof (induction es)
  case (Cons e es)
  then show ?case by (cases e) fastforce
qed simp

lemma hash_map_collect_distinct:
  assumes "distinct (map fst kvs)"
  shows "map_of (hash_map_collect kvs) = map_of kvs \<and>
    set (map fst (hash_map_collect kvs)) = set (map fst kvs)"
proof -
  have *: "map_of (fold (\<lambda>(k, v) m. AList.update k v m) kvs m) = map_of m ++ map_of kvs \<and>
      set (map fst (fold (\<lambda>(k, v) m. AList.update k v m) kvs m)) = set (map fst m) \<union> set (map fst kvs)"
    if "distinct (map fst kvs)" for m
    using that
  proof (induction kvs arbitrary: m)
    case (Cons kv kvs)
    obtain k v where kv: "kv = (k, v)" by (cases kv)
    have "k \<notin> set (map fst kvs)" using Cons.prems kv by simp
    then have n: "map_of kvs k = None" by (simp add: map_of_eq_None_iff)
    have "((map_of m)(k \<mapsto> v)) ++ map_of kvs = map_of m ++ ((map_of kvs)(k \<mapsto> v))"
      using n by (auto simp: fun_eq_iff map_add_def split: option.splits)
    with Cons show ?case
      by (auto simp: kv update_conv' dom_update fun_eq_iff map_add_def split: option.splits)
  qed simp
  show ?thesis
    using * [OF assms, of "[]"] by (simp add: hash_map_collect_def)
qed

context sink
begin

lemma prints_entry_info [print_intros]:
  "prints (entry_info_serialize wr info) (enc_info info) (length (enc_info info))"
  unfolding entry_info_serialize_def enc_info_def
proof (rule prints_vec)
  fix p :: "nat \<times> nat"
  show "prints (pair_serialize (u64_serialize wr) (u64_serialize wr) p)
      (to_le 8 (fst p) @ to_le 8 (snd p)) (length (to_le 8 (fst p) @ to_le 8 (snd p)))"
    by (rule prints_pair) (simp_all add: prints_u64)
qed

lemma prints_footer_entries:
  "prints (footer_serialize_entries wr len es) (concat (map enc_footer_entry es))
     (len + length (concat (map enc_footer_entry es)))"
proof (induction es arbitrary: len)
  case Nil
  then show ?case by (simp add: prints_ret)
next
  case (Cons e es)
  obtain k i where e: "e = (k, i)" by (cases e)
  have "prints (footer_serialize_entries wr len (e # es))
      (enc_name k @ enc_info i @ concat (map enc_footer_entry es))
      (len + length (enc_name k) + length (enc_info i) + length (concat (map enc_footer_entry es)))"
    unfolding e footer_serialize_entries.simps
    by (rule prints_bindE, rule prints_entry_name, rule prints_skip, rule prints_checked_add,
        rule prints_bindE, rule prints_entry_info, rule prints_skip, rule prints_checked_add,
        rule Cons.IH)
  then show ?case by (simp add: enc_footer_entry_pair e add.assoc)
qed

lemma prints_footer:
  assumes "footer_combine es ids = Inr tmp"
  shows "prints (footer_serialize_into wr es ids)
    (enc_index (sort_key fst tmp) @ to_le 8 (1 + length (enc_index (sort_key fst tmp)))) ()"
proof -
  let ?es = "concat (map enc_footer_entry (sort_key fst tmp))"
  have p: "prints (lift_res (footer_combine es ids)) [] tmp"
    using assms by (auto intro!: printsI simp: lift_res_def)
  have "prints (footer_serialize_into wr es ids)
      (to_le 8 (length (sort_key fst tmp)) @ ?es @ to_le 8 (8 + length ?es + 1) @ []) ()"
    unfolding footer_serialize_into_def Let_def
    by (rule prints_skip, rule p, rule prints_bindE, rule prints_usize, rule prints_bindE,
        rule prints_footer_entries, rule prints_skip, rule prints_checked_add, rule prints_bindE,
        rule prints_u64, rule prints_ret)
  then show ?thesis by (simp add: enc_index_def add.commute)
qed

end

context room_sink
begin

lemma runs_entry_info:
  assumes "wf_info info"
  shows "runs (entry_info_serialize wr info) (enc_info info) (length (enc_info info))"
  unfolding entry_info_serialize_def enc_info_def
proof (rule runs_vec)
  fix p :: "nat \<times> nat"
  show "runs (pair_serialize (u64_serialize wr) (u64_serialize wr) p)
      (to_le 8 (fst p) @ to_le 8 (snd p)) (length (to_le 8 (fst p) @ to_le 8 (snd p)))"
    by (rule runs_pair) (simp_all add: runs_u64)
next
  show "length (enc_vec (\<lambda>p. to_le 8 (fst p) @ to_le 8 (snd p)) (offsets_and_sizes info)) < 2 ^ 64"
    using assms length_enc_info [of info] by (simp add: wf_info_def enc_info_def)
qed

lemma runs_footer_entries:
  "\<forall>e \<in> set es. wf_name (fst e) \<and> wf_info (snd e) \<Longrightarrow>
   len + length (concat (map enc_footer_entry es)) < 2 ^ 64 \<Longrightarrow>
   runs (footer_serialize_entries wr len es) (concat (map enc_footer_entry es))
     (len + length (concat (map enc_footer_entry es)))"
proof (induction es arbitrary: len)
  case Nil
  then show ?case by (simp add: runs_ret)
next
  case (Cons e es)
  obtain k i where e: "e = (k, i)" by (cases e)
  let ?l = "length (concat (map enc_footer_entry es))"
  have wf: "wf_name k" "wf_info i" using Cons.prems(1) e by auto
  have l: "len + length (enc_name k) + length (enc_info i) + ?l < 2 ^ 64"
    using Cons.prems(2) by (simp add: e enc_footer_entry_pair)
  have ih: "runs (footer_serialize_entries wr (len + length (enc_name k) + length (enc_info i)) es)
      (concat (map enc_footer_entry es)) (len + length (enc_name k) + length (enc_info i) + ?l)"
    by (rule Cons.IH) (use Cons.prems(1) l in auto)
  have "runs (footer_serialize_entries wr len (e # es))
      (enc_name k @ enc_info i @ concat (map enc_footer_entry es))
      (len + length (enc_name k) + length (enc_info i) + ?l)"
    unfolding e footer_serialize_entries.simps
    by (rule runs_bindE, rule runs_entry_name, rule wf, rule runs_skip, rule runs_checked_add,
        use l in linarith, rule runs_bindE, rule runs_entry_info, rule wf, rule runs_skip,
        rule runs_checked_add, use l in linarith, rule ih)
  then show ?case by (simp add: enc_footer_entry_pair e add.assoc)
qed

lemma runs_footer:
  assumes "footer_combine es ids = Inr tmp" and "wf_index tmp"
    and "length (enc_index (sort_key fst tmp)) < 2 ^ 63"
  shows "runs (footer_serialize_into wr es ids)
    (enc_index (sort_key fst tmp) @ to_le 8 (1 + length (enc_index (sort_key fst tmp)))) ()"
proof -
  let ?es = "concat (map enc_footer_entry (sort_key fst tmp))"
  have p: "runs (lift_res (footer_combine es ids)) [] tmp"
    using assms by (auto intro!: runsI simp: lift_res_def)
  have wf: "\<forall>e \<in> set (sort_key fst tmp). wf_name (fst e) \<and> wf_info (snd e)"
    using assms(2) by (auto simp: wf_index_def)
  have l: "8 + length ?es + 1 < 2 ^ 64"
    using assms(3) by (simp add: enc_index_def)
  then have l': "8 + length ?es < 2 ^ 64" by simp
  have "runs (footer_serialize_into wr es ids)
      (to_le 8 (length (sort_key fst tmp)) @ ?es @ to_le 8 (8 + length ?es + 1) @ []) ()"
    unfolding footer_serialize_into_def Let_def
    by (rule runs_skip, rule p, rule runs_bindE, rule runs_usize, rule runs_bindE,
        rule runs_footer_entries [OF wf l'], rule runs_skip, rule runs_checked_add [OF l],
        rule runs_bindE, rule runs_u64, rule runs_ret)
  then show ?thesis by (simp add: enc_index_def add.commute)
qed

end

context source
begin

lemma parses_entry_info:
  assumes "wf_info info"
  shows "parses (entry_info_deserialize rd) (enc_info info) info"
proof -
  have "parses (vec_deserialize rd (pair_deserialize (u64_deserialize rd) (u64_deserialize rd)))
      (enc_info info) (offsets_and_sizes info)"
    unfolding enc_info_def
  proof (rule parses_vec)
    fix p assume "p \<in> set (offsets_and_sizes info)"
    with assms have "fst p < 2 ^ 64" "snd p < 2 ^ 64"
      by (auto simp: wf_info_def )
    then have "parses (pair_deserialize (u64_deserialize rd) (u64_deserialize rd))
        (to_le 8 (fst p) @ to_le 8 (snd p)) (fst p, snd p)"
      by (intro parses_pair parses_u64)
    then show "parses (pair_deserialize (u64_deserialize rd) (u64_deserialize rd))
        (to_le 8 (fst p) @ to_le 8 (snd p)) p" by simp
  qed (use assms in \<open>simp add: wf_info_def\<close>)
  from parses_bindE_ret [OF this, of "\<lambda>xs. \<lparr>offsets_and_sizes = xs\<rparr>"] show ?thesis
    by (cases info) (simp add: entry_info_deserialize_def)
qed

lemma parses_footer:
  assumes "wf_index es"
  shows "parses (footer_deserialize_from rd) (1 # enc_index es)
    (Some \<lparr>entries_info = hash_map_collect es\<rparr>)"
proof -
  let ?d = "bindE (deserialize_entry_name rd) (\<lambda>name.
      bindE (entry_info_deserialize rd) (\<lambda>info. ret (name, info)))"
  have e: "parses ?d (enc_footer_entry e) e" if "e \<in> set es" for e
  proof -
    have wf: "wf_name (fst e)" "wf_info (snd e)"
      using assms that by (auto simp: wf_index_def)
    have "parses ?d (enc_name (fst e) @ enc_info (snd e)) (fst e, snd e)"
      by (rule parses_bindE, rule parses_entry_name [OF wf(1)], rule parses_bindE_ret,
          rule parses_entry_info [OF wf(2)])
    then show ?thesis by (simp add: enc_footer_entry_def)
  qed
  have n: "length es < 2 ^ 64" using assms by (simp add: wf_index_def)
  have "parses (footer_deserialize_from rd)
      ([1] @ to_le 8 (length es) @ concat (map enc_footer_entry es))
      (Some \<lparr>entries_info = hash_map_collect es\<rparr>)"
    unfolding footer_deserialize_from_def
    by (rule parses_bindE, rule parses_u8, simp, rule parses_bindE, rule parses_u64 [OF n],
        rule parses_bindE_ret, rule parses_collect, rule e)
  then show ?thesis by (simp add: enc_index_def)
qed

end

section \<open>Properties\<close>

text \<open>C12: the footer written from the writer's two maps is read back as one map from names to
  entry information, with the same lookups, and its length field counts the presence tag and the
  entries.\<close>

theorem footer_roundtrip:
  assumes "footer_combine es ids = Inr tmp" and "wf_index tmp"
    and "length (enc_footer (sort_key fst tmp)) < 2 ^ 63"
  shows "\<exists>w ft s'. footer_serialize_into vec_write es ids [1] = (Inr (), w) \<and>
    w = enc_footer (sort_key fst tmp) \<and>
    footer_deserialize_from cursor_read (cursor_new w) = (Inr (Some ft), s') \<and>
    (\<forall>k. map_of (entries_info ft) k = Option.bind (map_of es k) (map_of ids)) \<and>
    drop (cur_pos s') w = to_le 8 (cur_pos s')"
proof -
  let ?es = "sort_key fst tmp"
  have len: "length (enc_footer ?es) = 9 + length (enc_index ?es)"
    by (simp add: enc_footer_def)
  with assms(3) have "length (enc_index ?es) < 2 ^ 63" by simp
  note r = vec.runs_footer [OF assms(1,2) this]
  have "length (enc_index ?es @ to_le 8 (1 + length (enc_index ?es))) \<le> vec_room [1]"
    using assms(3) len by (simp add: vec_room_def)
  from vec.runsE [OF r TrueI this] obtain w where
    w: "footer_serialize_into vec_write es ids [1] = (Inr (), w)" "w = enc_footer ?es"
    by (auto simp: enc_footer_def)
  have ms: "mset ?es = mset tmp" by simp
  have d: "distinct (map fst ?es)"
    using assms(2) mset_eq_imp_distinct_iff [of "map fst ?es" "map fst tmp"]
    unfolding wf_index_def by (metis mset_map mset_sort)
  have "wf_index ?es"
    using assms(2) d unfolding wf_index_def by (metis length_sort set_sort)
  from cur.parses_footer [OF this]
  have "cur.yields (footer_deserialize_from cursor_read) (cursor_new w)
      (Some \<lparr>entries_info = hash_map_collect ?es\<rparr>) (length (1 # enc_index ?es))"
    by (rule cur.parsesD [where t = "to_le 8 (1 + length (enc_index ?es))"])
      (use assms(3) w in \<open>simp_all add: cursor_inv_def cursor_new_def cur.rest_def enc_footer_def\<close>)
  then obtain s' where s': "footer_deserialize_from cursor_read (cursor_new w) =
      (Inr (Some \<lparr>entries_info = hash_map_collect ?es\<rparr>), s')" "cur_pos s' = Suc (length (enc_index ?es))"
    by (rule cur.yieldsE) (auto simp: cursor_new_def)
  have "map_of ?es = map_of tmp"
    using d assms(2) ms by (intro map_of_eqI) (auto simp: wf_index_def)
  then have "map_of (hash_map_collect ?es) k = Option.bind (map_of es k) (map_of ids)" for k
    using hash_map_collect_distinct [OF d] footer_combine_Inr [OF assms(1)] by simp
  then show ?thesis
    using w s' by (auto simp: enc_footer_def)
qed

theorem footer_roundtrip_witness:
  "\<exists>w ft s'. footer_serialize_into vec_write [(EntryName [98], 1), (EntryName [97], 0)]
      [(0, \<lparr>offsets_and_sizes = [(9, 0)]\<rparr>), (1, \<lparr>offsets_and_sizes = [(30, 0), (60, 5)]\<rparr>)] [1] =
      (Inr (), w) \<and>
    w = enc_footer (sort_key fst [(EntryName [98], \<lparr>offsets_and_sizes = [(30, 0), (60, 5)]\<rparr>),
      (EntryName [97], \<lparr>offsets_and_sizes = [(9, 0)]\<rparr>)]) \<and>
    footer_deserialize_from cursor_read (cursor_new w) = (Inr (Some ft), s') \<and>
    (\<forall>k. map_of (entries_info ft) k = Option.bind (map_of [(EntryName [98], 1 :: nat), (EntryName [97], 0)] k)
      (map_of [(0, \<lparr>offsets_and_sizes = [(9, 0)]\<rparr>), (1, \<lparr>offsets_and_sizes = [(30, 0), (60, 5)]\<rparr>)])) \<and>
    drop (cur_pos s') w = to_le 8 (cur_pos s')"
proof -
  let ?es = "[(EntryName [98], 1), (EntryName [97], 0)]"
  let ?ids = "[(0, \<lparr>offsets_and_sizes = [(9, 0)]\<rparr>), (1, \<lparr>offsets_and_sizes = [(30, 0), (60, 5)]\<rparr>)]"
  let ?tmp = "[(EntryName [98], \<lparr>offsets_and_sizes = [(30, 0), (60, 5)]\<rparr>),
      (EntryName [97], \<lparr>offsets_and_sizes = [(9, 0)]\<rparr>)]"
  have c: "footer_combine ?es ?ids = Inr ?tmp" by simp
  have w: "wf_index ?tmp"
    by (simp add: wf_index_def wf_name_def wf_info_def ENTRY_NAME_MAX_SIZE_def)
  have l: "length (enc_footer (sort_key fst ?tmp)) < 2 ^ 63"
    by (simp add: enc_footer_def enc_index_def enc_footer_entry_pair length_enc_info
        less_entry_name_def less_eq_entry_name_def)
  show ?thesis using footer_roundtrip [OF c w l] .
qed

end
