(* ===== verification/Blocks.thy ===== *)
theory Blocks
  imports Index
begin

text \<open>
  The abstract archive: a sequence of blocks. \<open>contents\<close> is what an entry holds, \<open>entry_index\<close> where
  its blocks are, and \<open>stream\<close> which sequences an archive may hold while it is being written: blocks
  of several entries interleaved, each entry started once, ended at most once with the hash of its
  content, and no content outside. The writer implements it and the readers rely on it.
\<close>

section \<open>What a sequence of blocks holds\<close>

fun block_id :: "block \<Rightarrow> archive_entry_id option" where
  "block_id (BStart name i) = Some i"
| "block_id (BContent i bs) = Some i"
| "block_id (BEnd i hash) = Some i"
| "block_id BEndOfData = None"

fun content_of :: "archive_entry_id \<Rightarrow> block \<Rightarrow> bytes" where
  "content_of i (BContent j bs) = (if i = j then bs else [])"
| "content_of i _ = []"

definition contents :: "archive_entry_id \<Rightarrow> block list \<Rightarrow> bytes" where
  "contents i bs = concat (map (content_of i) bs)"

fun starts :: "block list \<Rightarrow> (entry_name \<times> archive_entry_id) list" where
  "starts [] = []"
| "starts (BStart name i # bs) = (name, i) # starts bs"
| "starts (_ # bs) = starts bs"

fun ends :: "block list \<Rightarrow> archive_entry_id list" where
  "ends [] = []"
| "ends (BEnd i hash # bs) = i # ends bs"
| "ends (_ # bs) = ends bs"

definition open_ids :: "block list \<Rightarrow> archive_entry_id set" where
  "open_ids bs = set (map snd (starts bs)) - set (ends bs)"

text \<open>Offset and payload size of every block of an entry, for blocks that start at \<open>p\<close>.\<close>

fun entry_index :: "nat \<Rightarrow> archive_entry_id \<Rightarrow> block list \<Rightarrow> (nat \<times> nat) list" where
  "entry_index p i [] = []"
| "entry_index p i (b # bs) =
     (if block_id b = Some i then [(p, length (block_payload b))] else [])
     @ entry_index (p + length (enc_block b)) i bs"

section \<open>Which sequences an archive may hold\<close>

fun may_follow :: "(bytes \<Rightarrow> bytes) \<Rightarrow> block list \<Rightarrow> block \<Rightarrow> bool" where
  "may_follow sha256 bs (BStart name i) \<longleftrightarrow>
     name \<notin> set (map fst (starts bs)) \<and> i \<notin> set (map snd (starts bs))"
| "may_follow sha256 bs (BContent i d) \<longleftrightarrow> i \<in> open_ids bs \<and> d \<noteq> []"
| "may_follow sha256 bs (BEnd i hash) \<longleftrightarrow> i \<in> open_ids bs \<and> hash = sha256 (contents i bs)"
| "may_follow sha256 bs BEndOfData \<longleftrightarrow> False"

inductive stream :: "(bytes \<Rightarrow> bytes) \<Rightarrow> block list \<Rightarrow> bool" for sha256 where
  stream_Nil: "stream sha256 []"
| stream_snoc: "stream sha256 bs \<Longrightarrow> may_follow sha256 bs b \<Longrightarrow> stream sha256 (bs @ [b])"

section \<open>Concatenation\<close>

lemma contents_simps [simp]:
  "contents i [] = []" "contents i (b # bs) = content_of i b @ contents i bs"
  "contents i (bs @ bs') = contents i bs @ contents i bs'"
  by (simp_all add: contents_def)

lemma starts_append [simp]: "starts (bs @ bs') = starts bs @ starts bs'"
  by (induction bs rule: starts.induct) auto

lemma ends_append [simp]: "ends (bs @ bs') = ends bs @ ends bs'"
  by (induction bs rule: ends.induct) auto

lemma entry_index_append:
  "entry_index p i (bs @ bs') = entry_index p i bs @ entry_index (p + length (enc_blocks bs)) i bs'"
  by (induction bs arbitrary: p) (auto simp: add.assoc)

lemma entry_index_other: "\<forall>b\<in>set bs. block_id b \<noteq> Some i \<Longrightarrow> entry_index p i bs = []"
  by (induction bs arbitrary: p) auto

lemma length_entry_index:
  "length (entry_index p i bs) = length (filter (\<lambda>b. block_id b = Some i) bs)"
  by (induction bs arbitrary: p) auto

lemma content_of_other: "block_id b \<noteq> Some i \<Longrightarrow> content_of i b = []"
  by (cases b) auto

lemma contents_other: "\<forall>b\<in>set bs. block_id b \<noteq> Some i \<Longrightarrow> contents i bs = []"
  by (induction bs) (auto simp: content_of_other)

lemma payload_content: "block_id b = Some i \<Longrightarrow> content_of i b = block_payload b"
  by (cases b) auto

lemma entry_index_sizes: "sum_list (map snd (entry_index p i bs)) = length (contents i bs)"
proof (induction bs arbitrary: p)
  case (Cons b bs)
  then show ?case
    using payload_content [of b i] content_of_other [of b i] by auto
qed simp

lemma contents_filter: "contents i (filter (\<lambda>b. block_id b = Some i) bs) = contents i bs"
  by (induction bs) (auto simp: content_of_other)

lemma starts_in: "(name, i) \<in> set (starts bs) \<longleftrightarrow> BStart name i \<in> set bs"
  by (induction bs rule: starts.induct) auto

lemma ends_in: "i \<in> set (ends bs) \<longleftrightarrow> (\<exists>h. BEnd i h \<in> set bs)"
  by (induction bs rule: ends.induct) auto

section \<open>Streams\<close>

inductive_cases stream_snocE: "stream sha256 (bs @ [b])"

lemma stream_no_end_of_data: "stream sha256 bs \<Longrightarrow> BEndOfData \<notin> set bs"
  by (induction rule: stream.induct) (auto simp: may_follow.simps)

lemma stream_prefix: "stream sha256 (bs @ bs') \<Longrightarrow> stream sha256 bs"
proof (induction bs' rule: rev_induct)
  case (snoc b bs')
  then have "stream sha256 ((bs @ bs') @ [b])" by simp
  then show ?case by (rule stream_snocE) (use snoc.IH in auto)
qed simp

lemma stream_distinct:
  "stream sha256 bs \<Longrightarrow> distinct (map fst (starts bs)) \<and> distinct (map snd (starts bs)) \<and>
     distinct (ends bs) \<and> set (ends bs) \<subseteq> set (map snd (starts bs))"
proof (induction rule: stream.induct)
  case (stream_snoc bs b)
  then show ?case by (cases b) (auto simp: open_ids_def)
qed simp

text \<open>Seen from one entry, a stream is a start, its contents, and possibly an end.\<close>

definition entry_blocks :: "archive_entry_id \<Rightarrow> block list \<Rightarrow> block list" where
  "entry_blocks i bs = filter (\<lambda>b. block_id b = Some i) bs"

lemma entry_blocks_append [simp]:
  "entry_blocks i (bs @ bs') = entry_blocks i bs @ entry_blocks i bs'"
  by (simp add: entry_blocks_def)

lemma stream_entry_blocks:
  "stream sha256 bs \<Longrightarrow>
   (\<forall>name. (name, i) \<in> set (starts bs) \<longrightarrow>
     (\<exists>cs. entry_blocks i bs = BStart name i # map (BContent i) cs @
         (if i \<in> set (ends bs) then [BEnd i (sha256 (concat cs))] else []) \<and>
       concat cs = contents i bs \<and> [] \<notin> set cs)) \<and>
   (i \<notin> set (map snd (starts bs)) \<longrightarrow> entry_blocks i bs = [])"
proof (induction rule: stream.induct)
  case stream_Nil
  then show ?case by (simp add: entry_blocks_def)
next
  case (stream_snoc bs b)
  show ?case
  proof (cases "block_id b = Some i")
    case False
    then have "entry_blocks i [b] = []" "content_of i b = []"
      by (simp_all add: entry_blocks_def content_of_other)
    moreover have "(name, i) \<in> set (starts (bs @ [b])) \<longleftrightarrow> (name, i) \<in> set (starts bs)"
      "i \<in> set (ends (bs @ [b])) \<longleftrightarrow> i \<in> set (ends bs)"
      "i \<in> set (map snd (starts (bs @ [b]))) \<longleftrightarrow> i \<in> set (map snd (starts bs))" for name
      using False by (cases b; auto)+
    ultimately show ?thesis
      using stream_snoc.IH by auto
  next
    case True
    then consider name where "b = BStart name i" | d where "b = BContent i d" | h where "b = BEnd i h"
      by (cases b) auto
    then show ?thesis
    proof cases
      case 1
      with stream_snoc.hyps stream_distinct [OF stream_snoc.hyps(1)] stream_snoc.IH
      show ?thesis
        by (auto simp: entry_blocks_def contents_other filter_empty_conv intro!: exI [of _ "[]"])
    next
      case 2
      with stream_snoc.hyps have o: "i \<in> open_ids bs" "d \<noteq> []" by auto
      { fix name assume "(name, i) \<in> set (starts bs)"
        with stream_snoc.IH o obtain cs where
          "entry_blocks i bs = BStart name i # map (BContent i) cs" "concat cs = contents i bs"
          "[] \<notin> set cs"
          by (auto simp: open_ids_def)
        with 2 o have "entry_blocks i (bs @ [b]) = BStart name i # map (BContent i) (cs @ [d]) \<and>
            concat (cs @ [d]) = contents i (bs @ [b]) \<and> [] \<notin> set (cs @ [d])"
          by (simp add: entry_blocks_def)
        then have "\<exists>cs. entry_blocks i (bs @ [b]) = BStart name i # map (BContent i) cs \<and>
            concat cs = contents i (bs @ [b]) \<and> [] \<notin> set cs" by blast }
      with 2 o show ?thesis by (auto simp: open_ids_def)
    next
      case 3
      with stream_snoc.hyps have o: "i \<in> open_ids bs" "h = sha256 (contents i bs)" by auto
      { fix name assume "(name, i) \<in> set (starts bs)"
        with stream_snoc.IH o obtain cs where
          "entry_blocks i bs = BStart name i # map (BContent i) cs" "concat cs = contents i bs"
          "[] \<notin> set cs"
          by (auto simp: open_ids_def)
        with 3 o have "entry_blocks i (bs @ [b]) =
            BStart name i # map (BContent i) cs @ [BEnd i (sha256 (concat cs))] \<and>
            concat cs = contents i (bs @ [b]) \<and> [] \<notin> set cs"
          by (simp add: entry_blocks_def)
        then have "\<exists>cs. entry_blocks i (bs @ [b]) =
            BStart name i # map (BContent i) cs @ [BEnd i (sha256 (concat cs))] \<and>
            concat cs = contents i (bs @ [b]) \<and> [] \<notin> set cs" by blast }
      with 3 o show ?thesis by (auto simp: open_ids_def)
    qed
  qed
qed

end
