(* ===== verification/EntryReader.thy ===== *)
theory EntryReader
  imports Blocks
begin

text \<open>
  \<^verbatim>\<open>ArchiveEntryDataReader\<close> of \<^verbatim>\<open>mla/src/entry.rs\<close>: reading and seeking in the content of one entry,
  whose blocks may be interleaved with those of other entries. \<^verbatim>\<open>read\<close> calls itself after moving to
  another block, so it is a partial function: \<open>None\<close> means that it calls itself for ever, and nothing
  else; an index out of the bounds of the offsets is a panic, the error \<open>IoPanic\<close>.
\<close>

section \<open>State and helpers\<close>

datatype entry_data_reader_state = InEntryContent nat | Ready | Finish

record 'r entry_data_reader =
  er_src :: 'r
  er_state :: entry_data_reader_state
  er_id :: archive_entry_id
  er_index :: nat
  er_offsets :: "(nat \<times> nat) list"

definition get_start_offset_in_src :: "(nat \<times> nat) list \<Rightarrow> error + nat" where
  "get_start_offset_in_src offs =
     (case offs of
        [] \<Rightarrow> Inl (WrongReaderState ''An entry should have at least 2 offsets in footer'')
      | p # _ \<Rightarrow> Inr (fst p))"

text \<open>\<^verbatim>\<open>ArchiveEntryDataReader::new\<close>; the reader borrows the source.\<close>

definition entry_data_reader_new ::
  "(nat \<Rightarrow> ('r, io_error, bytes) op) \<Rightarrow> (seek_from \<Rightarrow> ('r, io_error, nat) op) \<Rightarrow>
   (nat \<times> nat) list \<Rightarrow> ('r, error, 'r entry_data_reader) op" where
  "entry_data_reader_new rd sk offs =
     bindE (lift_res (get_start_offset_in_src offs)) (\<lambda>start_offset.
     bindE (lift_io (sk (SeekStart start_offset))) (\<lambda>_.
     bindE (block_from rd) (\<lambda>b src.
       case b of
         EntryStart name i \<Rightarrow>
           (Inr \<lparr>er_src = src, er_state = Ready, er_id = i, er_index = 1, er_offsets = offs\<rparr>, src)
       | _ \<Rightarrow> (Inl (WrongReaderState
                 ''[ArchiveEntryDataReader] A file must start with an EntryStart''), src))))"

definition increment_current_offsets_and_sizes_index :: "('r entry_data_reader, error, unit) op" where
  "increment_current_offsets_and_sizes_index s =
     (case checked_add (er_index s) 1 of
        None \<Rightarrow> (Inl DeserializationError, s)
      | Some k \<Rightarrow>
          (let s' = s\<lparr>er_index := k\<rparr>
           in if length (er_offsets s) \<le> k
              then (Inl (WrongReaderState ''[ArchiveEntryDataReader] No more continuous blocks''), s')
              else (Inr (), s')))"

text \<open>The index is not checked.\<close>

definition move_to_block ::
  "(seek_from \<Rightarrow> ('r, io_error, nat) op) \<Rightarrow> ('r entry_data_reader, io_error, unit) op" where
  "move_to_block sk s =
     (if er_index s < length (er_offsets s)
      then (case to_io (lift_io (sk (SeekStart (fst (er_offsets s ! er_index s))))) (er_src s) of
          (Inl e, src) \<Rightarrow> (Inl e, s\<lparr>er_src := src\<rparr>)
        | (Inr _, src) \<Rightarrow> (Inr (), s\<lparr>er_src := src\<rparr>))
      else (Inl IoPanic, s))"

text \<open>The end of \<^verbatim>\<open>read\<close>: \<open>bs\<close> was read out of the \<open>limit\<close> bytes left in the block.\<close>

definition read_in_content ::
  "(nat \<Rightarrow> ('r, io_error, bytes) op) \<Rightarrow> nat \<Rightarrow> nat \<Rightarrow> ('r entry_data_reader, io_error, bytes) op" where
  "read_in_content rd limit n s =
     (case take_read rd limit n (er_src s) of
        (Inl e, src) \<Rightarrow> (Inl e, s\<lparr>er_src := src\<rparr>)
      | (Inr bs, src) \<Rightarrow>
          (case checked_sub limit (length bs) of
             None \<Rightarrow> (Inl (io_error_from_error DeserializationError), s\<lparr>er_src := src\<rparr>)
           | Some remaining \<Rightarrow>
               if 0 < remaining
               then (Inr bs, s\<lparr>er_src := src, er_state := InEntryContent remaining\<rparr>)
               else (case checked_add (er_index s) 1 of
                   None \<Rightarrow> (Inl (io_error_from_error DeserializationError), s\<lparr>er_src := src\<rparr>)
                 | Some k \<Rightarrow> (Inr bs, s\<lparr>er_src := src, er_index := k, er_state := Ready\<rparr>))))"

section \<open>Reading\<close>

text \<open>What \<^verbatim>\<open>read\<close> does once the block at the current position is known: return, or move and retry.\<close>

datatype ('r, 'a) read_step = Return "(io_error + 'a) \<times> 'r entry_data_reader" | Retry "'r entry_data_reader"

definition move_and_retry ::
  "(seek_from \<Rightarrow> ('r, io_error, nat) op) \<Rightarrow> 'r entry_data_reader \<Rightarrow> ('r, bytes) read_step" where
  "move_and_retry sk s =
     (case move_to_block sk s of
        (Inl e, s') \<Rightarrow> Return (Inl e, s')
      | (Inr _, s') \<Rightarrow> Retry s')"

definition entry_read_step ::
  "(nat \<Rightarrow> ('r, io_error, bytes) op) \<Rightarrow> (seek_from \<Rightarrow> ('r, io_error, nat) op) \<Rightarrow> nat \<Rightarrow>
   'r entry_data_reader \<Rightarrow> ('r, bytes) read_step" where
  "entry_read_step rd sk n s =
     (case er_state s of
        Finish \<Rightarrow> Return (Inr [], s)
      | InEntryContent remaining \<Rightarrow> Return (read_in_content rd remaining n s)
      | Ready \<Rightarrow>
          (case to_io (block_from rd) (er_src s) of
             (Inl e, src) \<Rightarrow> Return (Inl e, s\<lparr>er_src := src\<rparr>)
           | (Inr (EntryContent len data i), src) \<Rightarrow>
               if i = er_id s then Return (read_in_content rd len n (s\<lparr>er_src := src\<rparr>))
               else move_and_retry sk (s\<lparr>er_src := src\<rparr>)
           | (Inr (EndOfEntry i hash), src) \<Rightarrow>
               if i = er_id s then Return (Inr [], s\<lparr>er_src := src, er_state := Finish\<rparr>)
               else move_and_retry sk (s\<lparr>er_src := src\<rparr>)
           | (Inr (EntryStart name i), src) \<Rightarrow>
               if i = er_id s
               then (case to_io increment_current_offsets_and_sizes_index (s\<lparr>er_src := src\<rparr>) of
                   (Inl e, s') \<Rightarrow> Return (Inl e, s')
                 | (Inr _, s') \<Rightarrow> move_and_retry sk s')
               else move_and_retry sk (s\<lparr>er_src := src\<rparr>)
           | (Inr EndOfArchiveData, src) \<Rightarrow> Return (Inl IoOther, s\<lparr>er_src := src\<rparr>)))"

partial_function (option) entry_read ::
  "(nat \<Rightarrow> ('r, io_error, bytes) op) \<Rightarrow> (seek_from \<Rightarrow> ('r, io_error, nat) op) \<Rightarrow> nat \<Rightarrow>
   'r entry_data_reader \<Rightarrow> ((io_error + bytes) \<times> 'r entry_data_reader) option" where
  "entry_read rd sk n s =
     (case entry_read_step rd sk n s of
        Return r \<Rightarrow> Some r
      | Retry s' \<Rightarrow> entry_read rd sk n s')"

text \<open>\<^verbatim>\<open>self.read_exact(&mut v)\<close> for a \<open>v\<close> of length \<open>n\<close>; the bytes are dropped by the callers.\<close>

function entry_read_exact ::
  "(nat \<Rightarrow> ('r, io_error, bytes) op) \<Rightarrow> (seek_from \<Rightarrow> ('r, io_error, nat) op) \<Rightarrow> nat \<Rightarrow>
   'r entry_data_reader \<Rightarrow> ((io_error + bytes) \<times> 'r entry_data_reader) option" where
  "entry_read_exact rd sk n s =
     (if n = 0 then Some (Inr [], s)
      else case entry_read rd sk n s of
          None \<Rightarrow> None
        | Some (Inl e, s') \<Rightarrow> Some (Inl e, s')
        | Some (Inr bs, s') \<Rightarrow>
            (if bs = [] then Some (Inl UnexpectedEof, s')
             else case entry_read_exact rd sk (n - length bs) s' of
                 Some (Inr bs', s'') \<Rightarrow> Some (Inr (bs @ bs'), s'')
               | r \<Rightarrow> r))"
  by pat_completeness auto
termination
  by (relation "measure (\<lambda>(rd, sk, n, s). n)") auto

declare entry_read_exact.simps [simp del]

section \<open>Seeking\<close>

text \<open>The loops over the blocks: the running sum, and the first block that goes past the target.\<close>

fun seek_scan ::
  "nat \<Rightarrow> (nat \<times> nat \<times> nat) list \<Rightarrow> nat \<Rightarrow> io_error + nat \<times> (nat \<times> nat \<times> nat) option" where
  "seek_scan target [] acc = Inr (acc, None)"
| "seek_scan target ((index, offset, sz) # blocks) acc =
     (case checked_add acc sz of
        None \<Rightarrow> Inl InvalidInput
      | Some acc' \<Rightarrow>
          if target < acc' then Inr (acc', Some (offset, sz, index))
          else seek_scan target blocks acc')"

definition goto_block ::
  "(nat \<Rightarrow> ('r, io_error, bytes) op) \<Rightarrow> (seek_from \<Rightarrow> ('r, io_error, nat) op) \<Rightarrow>
   nat \<Rightarrow> nat \<Rightarrow> nat option \<Rightarrow> nat \<Rightarrow> 'r entry_data_reader \<Rightarrow>
   ((io_error + nat) \<times> 'r entry_data_reader) option" where
  "goto_block rd sk offset index offset_from_block_start result s =
     (case sk (SeekStart offset) (er_src s) of
        (Inl e, src) \<Rightarrow> Some (Inl e, s\<lparr>er_src := src\<rparr>)
      | (Inr _, src) \<Rightarrow>
          (let s1 = s\<lparr>er_src := src, er_state := Ready, er_index := index\<rparr>
           in case offset_from_block_start of
               None \<Rightarrow> Some (Inl InvalidInput, s1)
             | Some k \<Rightarrow>
                 (case entry_read_exact rd sk k s1 of
                    None \<Rightarrow> None
                  | Some (Inl e, s2) \<Rightarrow> Some (Inl e, s2)
                  | Some (Inr _, s2) \<Rightarrow> Some (Inr result, s2))))"

definition entry_seek_start ::
  "(nat \<Rightarrow> ('r, io_error, bytes) op) \<Rightarrow> (seek_from \<Rightarrow> ('r, io_error, nat) op) \<Rightarrow> nat \<Rightarrow>
   'r entry_data_reader \<Rightarrow> ((io_error + nat) \<times> 'r entry_data_reader) option" where
  "entry_seek_start rd sk asked s =
     (let offs = er_offsets s
      in case seek_scan asked (enumerate 0 offs) 0 of
          Inl e \<Rightarrow> Some (Inl e, s)
        | Inr (acc, found) \<Rightarrow>
            if acc = asked \<and> offs = [] then Some (Inl InvalidInput, s)
            else (case (if acc = asked
                        then Some (fst (last offs), snd (last offs), length offs - 1) else found) of
                None \<Rightarrow> Some (Inl InvalidInput, s)
              | Some (offset, sz, index) \<Rightarrow>
                  goto_block rd sk offset index
                    (Option.bind (checked_sub acc sz) (checked_sub asked)) asked s))"

definition entry_seek_end ::
  "(nat \<Rightarrow> ('r, io_error, bytes) op) \<Rightarrow> (seek_from \<Rightarrow> ('r, io_error, nat) op) \<Rightarrow> int \<Rightarrow>
   'r entry_data_reader \<Rightarrow> ((io_error + nat) \<times> 'r entry_data_reader) option" where
  "entry_seek_end rd sk asked s =
     (let offs = er_offsets s
      in case Option.bind (checked_neg_i64 asked) (checked_add_signed 0) of
          None \<Rightarrow> Some (Inl InvalidInput, s)
        | Some offset_from_end \<Rightarrow>
            (case seek_scan offset_from_end (rev (enumerate 0 offs)) 0 of
               Inl e \<Rightarrow> Some (Inl e, s)
             | Inr (acc, found) \<Rightarrow>
                 if acc = offset_from_end \<and> offs = [] then Some (Inl IoPanic, s)
                 else (case (if acc = offset_from_end
                             then Some (fst (hd offs), snd (hd offs), 0) else found) of
                     None \<Rightarrow> Some (Inl InvalidInput, s)
                   | Some (offset, sz, index) \<Rightarrow>
                       goto_block rd sk offset index (checked_sub acc offset_from_end)
                         (sum_list (map snd offs) mod 2 ^ 64) s)))"

fun checked_sum :: "nat list \<Rightarrow> nat \<Rightarrow> nat option" where
  "checked_sum [] acc = Some acc"
| "checked_sum (n # ns) acc = (case checked_add acc n of None \<Rightarrow> None | Some a \<Rightarrow> checked_sum ns a)"

definition entry_seek ::
  "(nat \<Rightarrow> ('r, io_error, bytes) op) \<Rightarrow> (seek_from \<Rightarrow> ('r, io_error, nat) op) \<Rightarrow> seek_from \<Rightarrow>
   'r entry_data_reader \<Rightarrow> ((io_error + nat) \<times> 'r entry_data_reader) option" where
  "entry_seek rd sk f s =
     (case f of
        SeekStart p \<Rightarrow> entry_seek_start rd sk p s
      | SeekEnd i \<Rightarrow> entry_seek_end rd sk i s
      | SeekCurrent i \<Rightarrow>
          (case er_state s of
             InEntryContent remaining \<Rightarrow>
               if length (er_offsets s) \<le> er_index s then Some (Inl IoPanic, s)
               else (case Option.bind (Option.bind
                        (checked_sum (map snd (take (er_index s + 1) (er_offsets s))) 0)
                        (\<lambda>a. checked_sub a remaining)) (\<lambda>a. checked_add_signed a i) of
                   None \<Rightarrow> Some (Inl InvalidInput, s)
                 | Some p \<Rightarrow> entry_seek_start rd sk p s)
           | Ready \<Rightarrow>
               if length (er_offsets s) < er_index s then Some (Inl IoPanic, s)
               else (case checked_add_signed
                        (sum_list (map snd (take (er_index s) (er_offsets s))) mod 2 ^ 64) i of
                   None \<Rightarrow> Some (Inl InvalidInput, s)
                 | Some p \<Rightarrow> entry_seek_start rd sk p s)
           | Finish \<Rightarrow> entry_seek_end rd sk i s))"

text \<open>\<^verbatim>\<open>ArchiveEntry::get_size\<close>\<close>

definition entry_get_size :: "'r entry_data_reader \<Rightarrow> nat" where
  "entry_get_size s = sum_list (map snd (er_offsets s)) mod 2 ^ 64"

section \<open>Reading a stream of blocks\<close>

text \<open>The blocks \<open>bs\<close> start at offset \<open>base\<close> of the view; entry \<open>i\<close> is complete in them.\<close>

definition blocks_at :: "nat \<Rightarrow> block list \<Rightarrow> bytes \<Rightarrow> bool" where
  "blocks_at base bs v \<longleftrightarrow>
     (\<exists>pre post. v = pre @ enc_blocks bs @ post \<and> length pre = base) \<and> (\<forall>b\<in>set bs. wf_block b)"

definition complete_entry :: "block list \<Rightarrow> archive_entry_id \<Rightarrow> bool" where
  "complete_entry bs i \<longleftrightarrow>
     (\<exists>name cs h. entry_blocks i bs = BStart name i # map (BContent i) cs @ [BEnd i h] \<and> [] \<notin> set cs) \<and>
     BEndOfData \<notin> set bs \<and> length (contents i bs) < 2 ^ 64 \<and> length bs < 2 ^ 64"

lemma stream_complete_entry:
  assumes "stream sha256 bs" and "i \<in> set (ends bs)" and "length (contents i bs) < 2 ^ 64"
    and "length bs < 2 ^ 64"
  shows "complete_entry bs i"
proof -
  have "i \<in> set (map snd (starts bs))" using stream_distinct [OF assms(1)] assms(2) by auto
  then obtain name where "(name, i) \<in> set (starts bs)" by auto
  with stream_entry_blocks [OF assms(1), of i] assms(2) obtain cs where
    "entry_blocks i bs = BStart name i # map (BContent i) cs @ [BEnd i (sha256 (concat cs))]" "[] \<notin> set cs"
    by auto
  then show ?thesis
    using stream_no_end_of_data [OF assms(1)] assms(3,4) unfolding complete_entry_def by blast
qed

lemma blocks_at_drop:
  assumes "blocks_at base (xs @ ys) v"
  shows "\<exists>post. drop (base + length (enc_blocks xs)) v = enc_blocks ys @ post"
proof -
  from assms obtain pre post where "v = (pre @ enc_blocks xs) @ enc_blocks ys @ post" "length pre = base"
    by (auto simp: blocks_at_def)
  then show ?thesis by auto
qed

lemma blocks_at_length:
  assumes "blocks_at base (xs @ b # ys) v"
  shows "base + length (enc_blocks xs) < length v"
proof -
  have "length (enc_head b) \<noteq> 0" by simp
  moreover from assms obtain pre post where "v = pre @ enc_blocks (xs @ b # ys) @ post" "length pre = base"
    unfolding blocks_at_def by blast
  ultimately show ?thesis by (simp only: enc_blocks_simps enc_block_def length_append)
qed

lemma entry_blocks_Nil: "entry_blocks i bs = [] \<longleftrightarrow> (\<forall>b\<in>set bs. block_id b \<noteq> Some i)"
  by (auto simp: entry_blocks_def filter_empty_conv)

lemma split_entry_block:
  assumes "entry_blocks i ys \<noteq> []"
  obtains zs b ws where "ys = zs @ b # ws" "entry_blocks i zs = []" "block_id b = Some i"
proof -
  from assms have "\<exists>b\<in>set ys. block_id b = Some i" by (auto simp: entry_blocks_Nil)
  from split_list_first_prop [OF this] obtain zs b ws where
    "ys = zs @ b # ws" "block_id b = Some i" "\<forall>z\<in>set zs. block_id z \<noteq> Some i" by blast
  then show thesis using that by (simp add: entry_blocks_Nil)
qed

lemma entry_index_nth:
  assumes "block_id b = Some i"
  shows "length (entry_blocks i xs) < length (entry_index p i (xs @ b # ys)) \<and>
    entry_index p i (xs @ b # ys) ! length (entry_blocks i xs) =
      (p + length (enc_blocks xs), length (block_payload b))"
  using assms by (simp add: entry_index_append nth_append length_entry_index entry_blocks_def)

lemma sum_take_entry_index:
  assumes "entry_index p i (xs @ ys) = entry_index p i xs @ rest"
  shows "sum_list (map snd (take (length (entry_blocks i xs)) (entry_index p i (xs @ ys)))) =
    length (contents i xs)"
  using assms by (simp add: length_entry_index entry_blocks_def entry_index_sizes)

text \<open>Which blocks of a complete entry may stand where.\<close>

lemma complete_entry_at:
  assumes "complete_entry bs i" and "bs = xs @ b # ys" and "block_id b = Some i"
  shows "(\<exists>name. b = BStart name i \<and> entry_blocks i xs = [] \<and> entry_blocks i ys \<noteq> []) \<or>
    (\<exists>d. b = BContent i d \<and> d \<noteq> [] \<and> entry_blocks i xs \<noteq> [] \<and> entry_blocks i ys \<noteq> []) \<or>
    (\<exists>h. b = BEnd i h \<and> entry_blocks i xs \<noteq> [] \<and> entry_blocks i ys = [])"
proof -
  from assms(1) obtain name cs h where
    e: "entry_blocks i bs = BStart name i # map (BContent i) cs @ [BEnd i h]" "[] \<notin> set cs"
    unfolding complete_entry_def by blast
  have s: "entry_blocks i xs @ b # entry_blocks i ys = BStart name i # map (BContent i) cs @ [BEnd i h]"
    using e(1) assms(2,3) by (simp add: entry_blocks_def)
  show ?thesis
  proof (cases "entry_blocks i xs")
    case Nil
    then show ?thesis using s by auto
  next
    case (Cons x xs')
    with s have s': "xs' @ b # entry_blocks i ys = map (BContent i) cs @ [BEnd i h]" by simp
    show ?thesis
    proof (cases "entry_blocks i ys" rule: rev_cases)
      case Nil
      with s' Cons show ?thesis by simp
    next
      case (snoc ws w)
      with s' have "xs' @ b # ws = map (BContent i) cs" by simp
      then have "b \<in> set (map (BContent i) cs)" by (metis in_set_conv_decomp)
      then show ?thesis using e(2) Cons snoc by auto
    qed
  qed
qed

definition block_sz :: "nat \<times> nat \<times> nat \<Rightarrow> nat" where
  "block_sz b = snd (snd b)"

lemma block_sz_simp [simp]: "block_sz (index, p) = snd p"
  by (simp add: block_sz_def)

lemma seek_scan_found:
  assumes "acc \<le> target" and "target < acc + sum_list (map block_sz bl)"
    and "acc + sum_list (map block_sz bl) < 2 ^ 64"
  shows "\<exists>j < length bl. seek_scan target bl acc =
      Inr (acc + sum_list (take (Suc j) (map block_sz bl)),
        Some (fst (snd (bl ! j)), block_sz (bl ! j), fst (bl ! j))) \<and>
    acc + sum_list (take j (map block_sz bl)) \<le> target \<and>
    target < acc + sum_list (take (Suc j) (map block_sz bl))"
  using assms
proof (induction bl arbitrary: acc)
  case (Cons b bl)
  obtain idx off sz where b: "b = (idx, off, sz)" by (cases b)
  show ?case
  proof (cases "target < acc + sz")
    case True
    with Cons.prems show ?thesis
      by (intro exI [of _ 0]) (simp add: b checked_add_def)
  next
    case False
    then obtain j where j: "j < length bl" "seek_scan target bl (acc + sz) =
      Inr (acc + sz + sum_list (take (Suc j) (map block_sz bl)),
        Some (fst (snd (bl ! j)), block_sz (bl ! j), fst (bl ! j)))"
      "acc + sz + sum_list (take j (map block_sz bl)) \<le> target"
      "target < acc + sz + sum_list (take (Suc j) (map block_sz bl))"
      using Cons.IH [of "acc + sz"] Cons.prems b by (auto simp: add.assoc)
    with False Cons.prems show ?thesis
      by (intro exI [of _ "Suc j"]) (simp add: b checked_add_def add.assoc)
  qed
qed simp

lemma seek_scan_beyond:
  assumes "acc + sum_list (map block_sz bl) \<le> target"
    and "acc + sum_list (map block_sz bl) < 2 ^ 64"
  shows "seek_scan target bl acc = Inr (acc + sum_list (map block_sz bl), None)"
  using assms
proof (induction bl arbitrary: acc)
  case (Cons b bl)
  then show ?case by (cases b) (simp add: checked_add_def add.assoc)
qed simp

lemma entry_index_split:
  assumes "j < length (entry_index p i bs)"
  obtains xs b ys where "bs = xs @ b # ys" "block_id b = Some i" "length (entry_blocks i xs) = j"
  using assms
proof (induction bs arbitrary: j p thesis)
  case (Cons b bs)
  show ?case
  proof (cases "block_id b = Some i \<and> j = 0")
    case True
    then show ?thesis using Cons.prems(1) [of "[]" b bs] by (simp add: entry_blocks_def)
  next
    case False
    let ?j = "if block_id b = Some i then j - 1 else j"
    have "?j < length (entry_index (p + length (enc_block b)) i bs)"
      using Cons.prems(2) False by (auto split: if_splits)
    then obtain xs c ys where "bs = xs @ c # ys" "block_id c = Some i" "length (entry_blocks i xs) = ?j"
      using Cons.IH by blast
    then show ?thesis
      using Cons.prems(1) [of "b # xs" c ys] False by (auto simp: entry_blocks_def split: if_splits)
  qed
qed simp

lemma sum_take_offsets:
  assumes "bs = xs @ ys"
  shows "sum_list (take (length (entry_blocks i xs)) (map snd (entry_index p i bs))) = length (contents i xs)"
  using assms by (simp add: entry_index_append length_entry_index entry_blocks_def take_map
      entry_index_sizes)

lemma map_block_sz_enumerate: "map block_sz (enumerate m offs) = map snd offs"
  by (induction offs arbitrary: m) (auto simp: block_sz_def)

lemma complete_entry_index:
  assumes "complete_entry bs i"
  shows "entry_index p i bs \<noteq> []" and "snd (last (entry_index p i bs)) = 0"
    and "snd (hd (entry_index p i bs)) = 0"
proof -
  obtain name cs h where e: "entry_blocks i bs = BStart name i # map (BContent i) cs @ [BEnd i h]"
    using assms unfolding complete_entry_def by blast
  have m: "map snd (entry_index p i bs) = map (length \<circ> block_payload) (entry_blocks i bs)" for p
    by (induction bs arbitrary: p) (auto simp: entry_blocks_def)
  show ne: "entry_index p i bs \<noteq> []"
    using m [of p] e by auto
  show "snd (last (entry_index p i bs)) = 0"
    using arg_cong [OF m [of p], of last] ne e by (simp add: last_map)
  show "snd (hd (entry_index p i bs)) = 0"
    using arg_cong [OF m [of p], of hd] ne e by (simp add: hd_map)
qed

context start_seekable
begin

definition reader_at :: "nat \<Rightarrow> block list \<Rightarrow> archive_entry_id \<Rightarrow> 'r entry_data_reader \<Rightarrow> bool" where
  "reader_at base bs i s \<longleftrightarrow>
     inv (er_src s) \<and> blocks_at base bs (view (er_src s)) \<and> complete_entry bs i \<and>
     er_id s = i \<and> er_offsets s = entry_index base i bs \<and>
     (case er_state s of
        Ready \<Rightarrow> (\<exists>xs ys. bs = xs @ ys \<and> entry_blocks i ys \<noteq> [] \<and>
          (entry_blocks i xs = [] \<longrightarrow> block_id (hd ys) = Some i) \<and>
          er_index s = length (entry_blocks i xs) \<and>
          pos (er_src s) = base + length (enc_blocks xs))
      | InEntryContent rem \<Rightarrow> (\<exists>xs d ys. bs = xs @ BContent i d # ys \<and>
          er_index s = length (entry_blocks i xs) \<and> 0 < rem \<and> rem \<le> length d \<and>
          pos (er_src s) + rem = base + length (enc_blocks (xs @ [BContent i d])))
      | Finish \<Rightarrow> True)"

text \<open>The logical position, as \<^verbatim>\<open>seek\<close> computes it.\<close>

definition reader_pos :: "'r entry_data_reader \<Rightarrow> nat" where
  "reader_pos s =
     (case er_state s of
        Ready \<Rightarrow> sum_list (map snd (take (er_index s) (er_offsets s)))
      | InEntryContent rem \<Rightarrow> sum_list (map snd (take (er_index s + 1) (er_offsets s))) - rem
      | Finish \<Rightarrow> sum_list (map snd (er_offsets s)))"

lemma block_from_at:
  assumes "inv r" and "blocks_at base (xs @ b # ys) (view r)" and "pos r = base + length (enc_blocks xs)"
  obtains r' where "block_from rd r = (Inr (parsed_block b), r')" "inv r'" "view r' = view r"
    "pos r' = base + length (enc_blocks xs) + length (enc_head b)"
    "\<exists>post. rest r' = block_payload b @ enc_blocks ys @ post"
proof -
  from blocks_at_drop [OF assms(2)] obtain post where
    "rest r = enc_head b @ block_payload b @ enc_blocks ys @ post"
    using assms(3) by (auto simp: rest_def enc_block_def)
  moreover have "wf_block b" using assms(2) by (simp add: blocks_at_def)
  ultimately have "yields (block_from rd) r (parsed_block b) (length (enc_head b))"
    by (intro parsesD [OF parses_block assms(1)])
  then obtain r' where "block_from rd r = (Inr (parsed_block b), r')" "inv r'" "view r' = view r"
    "pos r' = pos r + length (enc_head b)" "rest r' = drop (length (enc_head b)) (rest r)"
    by (rule yieldsE)
  moreover have "\<exists>post. rest r' = block_payload b @ enc_blocks ys @ post"
    using calculation(5) \<open>rest r = _\<close> by simp
  ultimately show thesis using assms(3) by (intro that) auto
qed

lemma move_at:
  assumes "inv (er_src s)" and "blocks_at base (xs @ b # ys) (view (er_src s))"
    and "block_id b = Some i" and "er_offsets s = entry_index base i (xs @ b # ys)"
    and "er_index s = length (entry_blocks i xs)"
  obtains r where "move_and_retry sk s = Retry (s\<lparr>er_src := r\<rparr>)" "inv r"
    "view r = view (er_src s)" "pos r = base + length (enc_blocks xs)"
proof -
  have o': "er_index s < length (er_offsets s)" "fst (er_offsets s ! er_index s) = base + length (enc_blocks xs)"
    using entry_index_nth [OF assms(3), of xs base ys] assms(4,5) by auto
  from seek_startE [OF assms(1) blocks_at_length [OF assms(2)]] obtain r where
    "sk (SeekStart (base + length (enc_blocks xs))) (er_src s) = (Inr (base + length (enc_blocks xs)), r)"
    "inv r" "view r = view (er_src s)" "pos r = base + length (enc_blocks xs)" by metis
  with o' show thesis
    by (intro that [of r]) (auto simp: move_and_retry_def move_to_block_def io_simps)
qed

definition reads_ok ::
  "nat \<Rightarrow> block list \<Rightarrow> archive_entry_id \<Rightarrow> nat \<Rightarrow> bytes \<Rightarrow> nat \<Rightarrow>
   ((io_error + bytes) \<times> 'r entry_data_reader) option \<Rightarrow> bool" where
  "reads_ok base bs i n v p res \<longleftrightarrow>
     (\<exists>k s'. res = Some (Inr (take k (drop p (contents i bs))), s') \<and> k \<le> n \<and>
        k \<le> length (contents i bs) - p \<and> (0 < n \<longrightarrow> p < length (contents i bs) \<longrightarrow> 0 < k) \<and>
        reader_at base bs i s' \<and> view (er_src s') = v \<and> reader_pos s' = p + k)"

lemma reader_pos_Ready:
  assumes "er_state s = Ready" and "er_offsets s = entry_index base i (xs @ ys)"
    and "er_index s = length (entry_blocks i xs)"
  shows "reader_pos s = length (contents i xs)"
  using assms by (simp add: reader_pos_def entry_index_append length_entry_index entry_blocks_def
      entry_index_sizes)

lemma reader_pos_InEntryContent:
  assumes "er_state s = InEntryContent rem" and "er_offsets s = entry_index base i (xs @ BContent i d # ys)"
    and "er_index s = length (entry_blocks i xs)"
  shows "reader_pos s = length (contents i xs) + length d - rem"
  using assms by (simp add: reader_pos_def entry_index_append length_entry_index entry_blocks_def
      entry_index_sizes)

lemma reader_at_contentI:
  assumes "inv (er_src s)" "blocks_at base bs (view (er_src s))" "complete_entry bs i"
    "er_id s = i" "er_offsets s = entry_index base i bs" and st: "er_state s = InEntryContent rem"
    and "bs = xs @ BContent i d # ys" "er_index s = length (entry_blocks i xs)" "0 < rem" "rem \<le> length d"
    "pos (er_src s) + rem = base + length (enc_blocks (xs @ [BContent i d]))"
  shows "reader_at base bs i s"
  unfolding reader_at_def st entry_data_reader_state.case using assms by blast

lemma reader_at_readyI:
  assumes "inv (er_src s)" "blocks_at base bs (view (er_src s))" "complete_entry bs i"
    "er_id s = i" "er_offsets s = entry_index base i bs" and st: "er_state s = Ready"
    and "bs = xs @ ys" "entry_blocks i ys \<noteq> []" "entry_blocks i xs = [] \<longrightarrow> block_id (hd ys) = Some i"
    "er_index s = length (entry_blocks i xs)" "pos (er_src s) = base + length (enc_blocks xs)"
  shows "reader_at base bs i s"
  unfolding reader_at_def st entry_data_reader_state.case using assms by blast

lemma read_in_content_at:
  assumes "inv (er_src s)" and v: "blocks_at base bs (view (er_src s))" and c: "complete_entry bs i"
    and bs: "bs = xs @ BContent i d # ys" and s: "er_id s = i" "er_offsets s = entry_index base i bs"
    "er_index s = length (entry_blocks i xs)"
    and rem: "0 < rem" "rem \<le> length d"
    and p: "pos (er_src s) + rem = base + length (enc_blocks (xs @ [BContent i d]))"
  shows "reads_ok base bs i n (view (er_src s)) (length (contents i xs) + length d - rem)
    (Some (read_in_content rd rem n s))"
proof -
  let ?off = "length d - rem"
  have "blocks_at base ((xs @ [BContent i d]) @ ys) (view (er_src s))" using v bs by simp
  from blocks_at_drop [OF this] obtain post where
    post: "drop (base + length (enc_blocks (xs @ [BContent i d]))) (view (er_src s)) = enc_blocks ys @ post" by blast
  from v bs have "blocks_at base (xs @ BContent i d # ys) (view (er_src s))" by simp
  from blocks_at_drop [OF this] obtain post' where
    post': "drop (base + length (enc_blocks xs)) (view (er_src s)) =
      enc_head (BContent i d) @ d @ enc_blocks ys @ post'" by (auto simp: enc_block_def)
  have pe: "pos (er_src s) = (length (enc_head (BContent i d)) + ?off) + (base + length (enc_blocks xs))"
    using p rem by (simp add: enc_block_def)
  have r: "rest (er_src s) = drop ?off d @ enc_blocks ys @ post'"
  proof -
    have "rest (er_src s) = drop (length (enc_head (BContent i d)) + ?off)
        (drop (base + length (enc_blocks xs)) (view (er_src s)))"
      unfolding rest_def pe by (rule drop_drop [symmetric])
    also have "\<dots> = drop ?off d @ enc_blocks ys @ post'"
      unfolding post' by (simp del: enc_head.simps)
    finally show ?thesis .
  qed
  moreover have "drop ?off d \<noteq> []" using rem by simp
  ultimately have ne: "rest (er_src s) \<noteq> []" by simp
  from readE [OF assms(1) ne, of "min n rem"] obtain k src where
    k: "rd (min n rem) (er_src s) = (Inr (take k (rest (er_src s))), src)" "k \<le> min n rem"
      "0 < min n rem \<longrightarrow> 0 < k" "inv src" "view src = view (er_src s)" "pos src = pos (er_src s) + k"
    by metis
  have t: "take k (rest (er_src s)) = take k (drop ?off d)" using k(2) rem by (simp add: r)
  have len: "length (take k (drop ?off d)) = k" using k(2) rem by simp
  have cont: "contents i bs = contents i xs @ d @ contents i ys" by (simp add: bs)
  have tk: "take k (drop (length (contents i xs) + length d - rem) (contents i bs)) = take k (drop ?off d)"
    using k(2) rem by (simp add: cont)
  have ys: "entry_blocks i ys \<noteq> []"
    using complete_entry_at [OF c bs] by auto
  have bnd: "er_index s + 1 < 2 ^ 64"
  proof -
    have "length (entry_blocks i xs) \<le> length xs" by (simp add: entry_blocks_def)
    then show ?thesis using c s(3) by (simp add: complete_entry_def bs)
  qed
  have kl: "k \<le> length (contents i bs) - (length (contents i xs) + length d - rem)"
    using k(2) rem by (simp add: cont)
  show ?thesis
  proof (cases "k < rem")
    case True
    let ?s' = "s\<lparr>er_src := src, er_state := InEntryContent (rem - k)\<rparr>"
    have "read_in_content rd rem n s = (Inr (take k (drop ?off d)), ?s')"
      using True k(1) rem len t by (simp add: read_in_content_def take_read_def checked_sub_def)
    moreover have "reader_at base bs i ?s'"
      by (rule reader_at_contentI [of _ _ _ _ "rem - k" xs d ys]) (use k True rem p v c s bs in auto)
    moreover have "reader_pos ?s' = length (contents i xs) + length d - rem + k"
      using reader_pos_InEntryContent [of ?s' "rem - k" base i xs d ys] s bs True rem by simp
    ultimately show ?thesis
      unfolding reads_ok_def using k kl rem tk by (intro exI [of _ k] exI [of _ ?s']) auto
  next
    case False
    then have kr: "k = rem" using k(2) by simp
    let ?s' = "s\<lparr>er_src := src, er_index := er_index s + 1, er_state := Ready\<rparr>"
    have "read_in_content rd rem n s = (Inr (take k (drop ?off d)), ?s')"
      using kr k(1) rem len t bnd
      by (simp add: read_in_content_def take_read_def checked_sub_def checked_add_def)
    moreover have "reader_at base bs i ?s'"
      by (rule reader_at_readyI [of _ _ _ _ "xs @ [BContent i d]" ys])
        (use k kr p v c s bs ys in \<open>auto simp: entry_blocks_def\<close>)
    moreover have "reader_pos ?s' = length (contents i xs) + length d - rem + k"
      using reader_pos_Ready [of ?s' base i "xs @ [BContent i d]" ys] s bs kr rem
      by (simp add: entry_blocks_def)
    ultimately show ?thesis
      unfolding reads_ok_def using k kl rem tk by (intro exI [of _ k] exI [of _ ?s']) auto
  qed
qed

text \<open>At a block of the entry that is not its start.\<close>

lemma read_at_own_block:
  assumes r: "inv (er_src s)" and v: "blocks_at base bs (view (er_src s))" and c: "complete_entry bs i"
    and bs: "bs = xs @ b # ys" and b: "block_id b = Some i" "entry_blocks i xs \<noteq> []"
    and s: "er_id s = i" "er_offsets s = entry_index base i bs" "er_state s = Ready"
    "er_index s = length (entry_blocks i xs)" and p: "pos (er_src s) = base + length (enc_blocks xs)"
  shows "reads_ok base bs i n (view (er_src s)) (length (contents i xs)) (entry_read rd sk n s)"
proof -
  from block_from_at [OF r v [unfolded bs] p] obtain src where
    src: "block_from rd (er_src s) = (Inr (parsed_block b), src)" "inv src" "view src = view (er_src s)"
      "pos src = base + length (enc_blocks xs) + length (enc_head b)" by metis
  from complete_entry_at [OF c bs b(1)] b(2) consider
    d where "b = BContent i d" "d \<noteq> []" "entry_blocks i ys \<noteq> []"
    | h where "b = BEnd i h" "entry_blocks i ys = []" by auto
  then show ?thesis
  proof cases
    case 1
    let ?s1 = "s\<lparr>er_src := src\<rparr>"
    have "reads_ok base bs i n (view (er_src ?s1)) (length (contents i xs) + length d - length d)
        (Some (read_in_content rd (length d) n ?s1))"
      by (rule read_in_content_at [of ?s1 base bs i xs d ys])
        (use r v c bs s p src 1 in \<open>auto simp: enc_block_def\<close>)
    moreover have "entry_read rd sk n s = Some (read_in_content rd (length d) n ?s1)"
      using src(1) s 1 by (subst entry_read.simps) (simp add: entry_read_step_def io_simps)
    ultimately show ?thesis using src(3) by simp
  next
    case 2
    let ?s' = "s\<lparr>er_src := src, er_state := Finish\<rparr>"
    have "entry_read rd sk n s = Some (Inr [], ?s')"
      using src(1) s 2 by (subst entry_read.simps) (simp add: entry_read_step_def io_simps)
    moreover have cy: "contents i ys = []" using 2(2) by (simp add: entry_blocks_Nil contents_other)
    moreover have "reader_at base bs i ?s'"
      using src v c s by (simp add: reader_at_def)
    moreover have "reader_pos ?s' = length (contents i xs)"
      using s(2) cy 2(1) by (simp add: reader_pos_def entry_index_sizes bs)
    ultimately show ?thesis
      unfolding reads_ok_def using src(3) 2(1)
      by (intro exI [of _ 0] exI [of _ ?s']) (simp add: bs)
  qed
qed

lemma read_after_move:
  assumes r: "inv (er_src s)" and v: "blocks_at base bs (view (er_src s))" and c: "complete_entry bs i"
    and bs: "bs = xs @ ys" and ys: "entry_blocks i ys \<noteq> []" and xs: "entry_blocks i xs \<noteq> []"
    and s: "er_id s = i" "er_offsets s = entry_index base i bs" "er_state s = Ready"
    "er_index s = length (entry_blocks i xs)"
  shows "\<exists>s'. move_and_retry sk s = Retry s' \<and>
    reads_ok base bs i n (view (er_src s)) (length (contents i xs)) (entry_read rd sk n s')"
proof -
  from ys obtain zs b ws where w: "ys = zs @ b # ws" "entry_blocks i zs = []" "block_id b = Some i"
    by (rule split_entry_block)
  have cz: "contents i zs = []" using w(2) by (simp add: entry_blocks_Nil contents_other)
  have "bs = (xs @ zs) @ b # ws" using bs w(1) by simp
  moreover have "er_index s = length (entry_blocks i (xs @ zs))" using s(4) w(2) by simp
  ultimately obtain src where src: "move_and_retry sk s = Retry (s\<lparr>er_src := src\<rparr>)" "inv src"
    "view src = view (er_src s)" "pos src = base + length (enc_blocks (xs @ zs))"
    using move_at [OF r, of base "xs @ zs" b ws i] v s(2) w(3) by metis
  have "reads_ok base bs i n (view (er_src (s\<lparr>er_src := src\<rparr>))) (length (contents i (xs @ zs)))
      (entry_read rd sk n (s\<lparr>er_src := src\<rparr>))"
    by (rule read_at_own_block [of _ base bs i "xs @ zs" b ws])
      (use src v c bs w s xs in auto)
  then show ?thesis using src cz by auto
qed

theorem entry_read_ok:
  assumes "reader_at base bs i s"
  shows "reads_ok base bs i n (view (er_src s)) (reader_pos s) (entry_read rd sk n s)"
proof (cases "er_state s")
  case (InEntryContent rem)
  from assms InEntryContent obtain xs d ys where h: "bs = xs @ BContent i d # ys"
    "er_index s = length (entry_blocks i xs)" "0 < rem" "rem \<le> length d"
    "pos (er_src s) + rem = base + length (enc_blocks (xs @ [BContent i d]))"
    and a: "inv (er_src s)" "blocks_at base bs (view (er_src s))" "complete_entry bs i" "er_id s = i"
    "er_offsets s = entry_index base i bs"
    by (auto simp: reader_at_def)
  have "entry_read rd sk n s = Some (read_in_content rd rem n s)"
    by (subst entry_read.simps) (simp add: entry_read_step_def InEntryContent)
  moreover have "reader_pos s = length (contents i xs) + length d - rem"
    by (rule reader_pos_InEntryContent [OF InEntryContent]) (use h a in auto)
  ultimately show ?thesis
    using read_in_content_at [OF a(1,2,3) h(1) a(4,5) h(2,3,4,5)] by simp
next
  case Finish
  then have "reader_pos s = length (contents i bs)"
    using assms by (simp add: reader_at_def reader_pos_def entry_index_sizes)
  moreover have "entry_read rd sk n s = Some (Inr [], s)"
    by (subst entry_read.simps) (simp add: entry_read_step_def Finish)
  ultimately show ?thesis using assms by (simp add: reads_ok_def)
next
  case Ready
  from assms Ready obtain xs ys where h: "bs = xs @ ys" "entry_blocks i ys \<noteq> []"
    "er_index s = length (entry_blocks i xs)" "pos (er_src s) = base + length (enc_blocks xs)"
    "entry_blocks i xs = [] \<longrightarrow> block_id (hd ys) = Some i"
    and a: "inv (er_src s)" "blocks_at base bs (view (er_src s))" "complete_entry bs i" "er_id s = i"
    "er_offsets s = entry_index base i bs"
    by (auto simp: reader_at_def)
  have rp: "reader_pos s = length (contents i xs)"
    by (rule reader_pos_Ready [OF Ready]) (use h a in auto)
  obtain b ys' where ys: "ys = b # ys'" using h(2) by (cases ys) (auto simp: entry_blocks_def)
  from block_from_at [OF a(1) a(2) [unfolded h(1) ys] h(4)] obtain src where
    src: "block_from rd (er_src s) = (Inr (parsed_block b), src)" "inv src" "view src = view (er_src s)"
    by metis
  let ?s1 = "s\<lparr>er_src := src\<rparr>"
  show ?thesis
  proof (cases "block_id b = Some i \<and> entry_blocks i xs \<noteq> []")
    case True
    then show ?thesis
      using read_at_own_block [OF a(1,2,3) h(1) [unfolded ys] _ _ a(4,5) Ready h(3,4)] rp by simp
  next
    case foreign: False
    show ?thesis
    proof (cases "block_id b = Some i")
      case True
      with foreign complete_entry_at [OF a(3) h(1) [unfolded ys] True]
      obtain name where b: "b = BStart name i" "entry_blocks i xs = []" "entry_blocks i ys' \<noteq> []" by auto
      let ?s2 = "?s1\<lparr>er_index := 1\<rparr>"
      have cx: "contents i (xs @ [b]) = []" using b by (simp add: entry_blocks_Nil contents_other)
      have e1: "entry_blocks i (xs @ [b]) = [b]" using b by (simp add: entry_blocks_def)
      have "length (er_offsets s) = length (entry_blocks i bs)"
        by (simp add: a(5) length_entry_index entry_blocks_def)
      then have "1 < length (er_offsets s)"
        using b h(1) ys by (simp add: entry_blocks_def length_greater_0_conv)
      then have inc: "increment_current_offsets_and_sizes_index ?s1 = (Inr (), ?s2)"
        using h(3) b(2) by (simp add: increment_current_offsets_and_sizes_index_def checked_add_def Let_def)
      have "\<exists>s'. move_and_retry sk ?s2 = Retry s' \<and>
          reads_ok base bs i n (view (er_src ?s2)) (length (contents i (xs @ [b]))) (entry_read rd sk n s')"
        by (rule read_after_move [of _ base bs i "xs @ [b]" ys'])
          (use a src h ys b Ready e1 in auto)
      then obtain s' where s': "move_and_retry sk ?s2 = Retry s'"
        "reads_ok base bs i n (view (er_src s)) 0 (entry_read rd sk n s')"
        using src(3) cx by auto
      have "entry_read rd sk n s = entry_read rd sk n s'"
        using src(1) s'(1) inc a(4) b
        by (subst entry_read.simps) (simp add: entry_read_step_def Ready io_simps)
      moreover have "reader_pos s = 0" using rp b(2) by (simp add: entry_blocks_Nil contents_other)
      ultimately show ?thesis using s'(2) by simp
    next
      case False
      with h(5) ys have xs: "entry_blocks i xs \<noteq> []" by auto
      have end_: "b \<noteq> BEndOfData" using a(3) h(1) ys by (auto simp: complete_entry_def)
      have st: "entry_read_step rd sk n s = move_and_retry sk ?s1"
        using False end_ a(4) src(1)
        by (cases b) (auto simp: entry_read_step_def Ready io_simps)
      from read_after_move [of ?s1 base bs i xs ys n] a src h Ready xs obtain s' where
        "move_and_retry sk ?s1 = Retry s'"
        "reads_ok base bs i n (view (er_src s)) (length (contents i xs)) (entry_read rd sk n s')" by auto
      then show ?thesis using st rp by (subst entry_read.simps) simp
    qed
  qed
qed

lemma entry_read_exact_ok:
  "reader_at base bs i s \<Longrightarrow> reader_pos s + n \<le> length (contents i bs) \<Longrightarrow>
   \<exists>s'. entry_read_exact rd sk n s = Some (Inr (take n (drop (reader_pos s) (contents i bs))), s') \<and>
     reader_at base bs i s' \<and> view (er_src s') = view (er_src s) \<and> reader_pos s' = reader_pos s + n"
proof (induction n arbitrary: s rule: less_induct)
  case (less n)
  show ?case
  proof (cases "n = 0")
    case True
    with less.prems show ?thesis by (simp add: entry_read_exact.simps)
  next
    case False
    from entry_read_ok [OF less.prems(1), of n] obtain k s1 where
      k: "entry_read rd sk n s = Some (Inr (take k (drop (reader_pos s) (contents i bs))), s1)" "k \<le> n"
      "k \<le> length (contents i bs) - reader_pos s"
      "0 < n \<longrightarrow> reader_pos s < length (contents i bs) \<longrightarrow> 0 < k"
      "reader_at base bs i s1" "view (er_src s1) = view (er_src s)" "reader_pos s1 = reader_pos s + k"
      unfolding reads_ok_def by blast
    then have kpos: "0 < k" using False less.prems(2) by simp
    have "\<exists>s'. entry_read_exact rd sk (n - k) s1 =
        Some (Inr (take (n - k) (drop (reader_pos s1) (contents i bs))), s') \<and>
        reader_at base bs i s' \<and> view (er_src s') = view (er_src s1) \<and> reader_pos s' = reader_pos s1 + (n - k)"
      by (rule less.IH) (use kpos False k less.prems in auto)
    then obtain s2 where s2: "entry_read_exact rd sk (n - k) s1 =
        Some (Inr (take (n - k) (drop (k + reader_pos s) (contents i bs))), s2)"
        "reader_at base bs i s2" "view (er_src s2) = view (er_src s1)" "reader_pos s2 = reader_pos s1 + (n - k)"
      using k(7) by (auto simp: add.commute)
    have len: "length (take k (drop (reader_pos s) (contents i bs))) = k"
      using k(3) by simp
    then have ne: "take k (drop (reader_pos s) (contents i bs)) \<noteq> []" using kpos by (metis length_0_conv less_irrefl)
    have tk: "take k (drop (reader_pos s) (contents i bs)) @
        take (n - k) (drop (k + reader_pos s) (contents i bs)) =
        take n (drop (reader_pos s) (contents i bs))"
      using take_add [of k "n - k" "drop (reader_pos s) (contents i bs)"] k(2) by simp
    have "entry_read_exact rd sk n s = Some (Inr (take n (drop (reader_pos s) (contents i bs))), s2)"
      using False k(1) ne s2(1) len tk by (subst entry_read_exact.simps) simp
    then show ?thesis using s2 k by auto
  qed
qed

lemma goto_block_ok:
  assumes r: "reader_at base bs i s" and bs: "bs = xs @ b # ys" and b: "block_id b = Some i"
    and k: "length (contents i xs) + k \<le> length (contents i bs)"
  shows "\<exists>s'. goto_block rd sk (base + length (enc_blocks xs)) (length (entry_blocks i xs)) (Some k) res s =
      Some (Inr res, s') \<and> reader_at base bs i s' \<and> view (er_src s') = view (er_src s) \<and>
      reader_pos s' = length (contents i xs) + k"
proof -
  have a: "inv (er_src s)" "blocks_at base bs (view (er_src s))" "complete_entry bs i" "er_id s = i"
    "er_offsets s = entry_index base i bs"
    using r by (auto simp: reader_at_def)
  from seek_startE [OF a(1) blocks_at_length [OF a(2) [unfolded bs]]] obtain src where
    src: "sk (SeekStart (base + length (enc_blocks xs))) (er_src s) = (Inr (base + length (enc_blocks xs)), src)"
    "inv src" "view src = view (er_src s)" "pos src = base + length (enc_blocks xs)" by metis
  let ?s1 = "s\<lparr>er_src := src, er_state := Ready, er_index := length (entry_blocks i xs)\<rparr>"
  have r1: "reader_at base bs i ?s1"
    by (rule reader_at_readyI [of _ _ _ _ xs "b # ys"]) (use src a bs b in \<open>auto simp: entry_blocks_def\<close>)
  have p1: "reader_pos ?s1 = length (contents i xs)"
    by (rule reader_pos_Ready [of _ base i xs "b # ys"]) (use a bs in auto)
  have "reader_pos ?s1 + k \<le> length (contents i bs)" using p1 k by simp
  from entry_read_exact_ok [OF r1 this] show ?thesis
    using src p1 by (auto simp: goto_block_def Let_def)
qed

lemma entry_seek_start_ok:
  assumes r: "reader_at base bs i s" and p: "p \<le> length (contents i bs)"
  shows "\<exists>s'. entry_seek_start rd sk p s = Some (Inr p, s') \<and> reader_at base bs i s' \<and>
    view (er_src s') = view (er_src s) \<and> reader_pos s' = p"
proof -
  have c: "complete_entry bs i" and offs: "er_offsets s = entry_index base i bs"
    using r by (auto simp: reader_at_def)
  let ?offs = "entry_index base i bs"
  have tot: "sum_list (map snd ?offs) = length (contents i bs)" by (rule entry_index_sizes)
  have bnd: "length (contents i bs) < 2 ^ 64" using c by (simp add: complete_entry_def)
  note ne = complete_entry_index [OF c, of base]
  show ?thesis
  proof (cases "p < length (contents i bs)")
    case True
    with seek_scan_found [of 0 p "enumerate 0 ?offs"] obtain j where j: "j < length ?offs"
      "seek_scan p (enumerate 0 ?offs) 0 = Inr (sum_list (take (Suc j) (map snd ?offs)),
        Some (fst (?offs ! j), snd (?offs ! j), j))"
      "sum_list (take j (map snd ?offs)) \<le> p" "p < sum_list (take (Suc j) (map snd ?offs))"
      using bnd by (auto simp: map_block_sz_enumerate tot nth_enumerate_eq)
    from entry_index_split [OF j(1)] obtain xs b ys where
      x: "bs = xs @ b # ys" "block_id b = Some i" "length (entry_blocks i xs) = j" by blast
    have oj: "?offs ! j = (base + length (enc_blocks xs), length (block_payload b))"
      using entry_index_nth [OF x(2), of xs base ys] x by simp
    have sj: "sum_list (take j (map snd ?offs)) = length (contents i xs)"
      using sum_take_offsets [OF x(1), of i base] x(3) by simp
    have sj': "sum_list (take (Suc j) (map snd ?offs)) = length (contents i xs) + length (block_payload b)"
      using sj j(1) oj by (simp add: take_Suc_conv_app_nth)
    have "length (contents i xs) + (p - length (contents i xs)) \<le> length (contents i bs)"
      using j(3) sj p by simp
    from goto_block_ok [OF r x(1,2) this, of p] show ?thesis
      using j(2,3,4) oj sj sj' ne(1) x(3)
      by (auto simp: entry_seek_start_def offs Let_def checked_sub_def)
  next
    case False
    then have p: "p = length (contents i bs)" using p by simp
    have sc: "seek_scan p (enumerate 0 ?offs) 0 = Inr (p, None)"
      using seek_scan_beyond [of 0 "enumerate 0 ?offs" p] bnd
      by (simp add: map_block_sz_enumerate tot p)
    have "length ?offs - 1 < length ?offs" using ne(1) by simp
    from entry_index_split [OF this] obtain xs b ys where
      x: "bs = xs @ b # ys" "block_id b = Some i" "length (entry_blocks i xs) = length ?offs - 1" by blast
    have last: "last ?offs = (base + length (enc_blocks xs), length (block_payload b))"
      using entry_index_nth [OF x(2), of xs base ys] x ne(1) by (simp add: last_conv_nth)
    then have pb: "block_payload b = []" using ne(2) by simp
    have "entry_blocks i ys = []"
      using arg_cong [OF x(1), of "\<lambda>bs. length (entry_index base i bs)"] x(2,3) ne(1)
      by (cases "entry_blocks i ys") (auto simp: length_entry_index entry_blocks_def)
    then have cx: "length (contents i xs) = p"
      using x pb p by (simp add: payload_content entry_blocks_Nil contents_other)
    from goto_block_ok [OF r x(1,2), of 0 p] show ?thesis
      using sc last pb ne(1) x(3) cx p
      by (auto simp: entry_seek_start_def offs Let_def checked_sub_def)
  qed
qed

lemma entry_seek_end_ok:
  assumes r: "reader_at base bs i s" and d: "d \<le> length (contents i bs)" "d < 2 ^ 63"
  shows "\<exists>s'. entry_seek_end rd sk (- int d) s = Some (Inr (length (contents i bs)), s') \<and>
    reader_at base bs i s' \<and> view (er_src s') = view (er_src s) \<and>
    reader_pos s' = length (contents i bs) - d"
proof -
  have c: "complete_entry bs i" and offs: "er_offsets s = entry_index base i bs"
    using r by (auto simp: reader_at_def)
  let ?offs = "entry_index base i bs"
  have tot: "sum_list (map snd ?offs) = length (contents i bs)" by (rule entry_index_sizes)
  have bnd: "length (contents i bs) < 2 ^ 64" using c by (simp add: complete_entry_def)
  note ne = complete_entry_index [OF c, of base]
  have neg: "Option.bind (checked_neg_i64 (- int d)) (checked_add_signed 0) = Some d"
    using d(2) by (simp add: checked_neg_i64_def checked_add_signed_def)
  have sz: "map block_sz (rev (enumerate 0 ?offs)) = rev (map snd ?offs)"
    by (simp add: rev_map map_block_sz_enumerate flip: rev_map)
  have tot': "sum_list (rev (map snd ?offs)) = length (contents i bs)" using tot by simp
  show ?thesis
  proof (cases "d < length (contents i bs)")
    case True
    with seek_scan_found [of 0 d "rev (enumerate 0 ?offs)"] obtain j where j: "j < length ?offs"
      "seek_scan d (rev (enumerate 0 ?offs)) 0 = Inr (sum_list (take (Suc j) (rev (map snd ?offs))),
        Some (fst (snd (rev (enumerate 0 ?offs) ! j)), block_sz (rev (enumerate 0 ?offs) ! j),
          fst (rev (enumerate 0 ?offs) ! j)))"
      "d < sum_list (take (Suc j) (rev (map snd ?offs)))"
      using bnd unfolding sz tot' by auto
    let ?m = "length ?offs - Suc j"
    have m: "?m < length ?offs" using j(1) by simp
    have e: "rev (enumerate 0 ?offs) ! j = (?m, ?offs ! ?m)"
      using j(1) by (simp add: rev_nth nth_enumerate_eq)
    from entry_index_split [OF m] obtain xs b ys where
      x: "bs = xs @ b # ys" "block_id b = Some i" "length (entry_blocks i xs) = ?m" by blast
    have oj: "?offs ! ?m = (base + length (enc_blocks xs), length (block_payload b))"
      using entry_index_nth [OF x(2), of xs base ys] x by simp
    have sm: "sum_list (take ?m (map snd ?offs)) = length (contents i xs)"
      using sum_take_offsets [OF x(1), of i base] x(3) by simp
    have st: "sum_list (take (Suc j) (rev (map snd ?offs))) + length (contents i xs) = length (contents i bs)"
    proof -
      have "sum_list (take (Suc j) (rev (map snd ?offs))) = sum_list (drop ?m (map snd ?offs))"
        by (simp add: take_rev)
      moreover have "sum_list (take ?m (map snd ?offs)) + sum_list (drop ?m (map snd ?offs)) =
          sum_list (map snd ?offs)"
        by (metis append_take_drop_id sum_list_append)
      ultimately show ?thesis using sm tot by simp
    qed
    let ?k = "sum_list (take (Suc j) (rev (map snd ?offs))) - d"
    have "length (contents i xs) + ?k \<le> length (contents i bs)" using st by simp
    from goto_block_ok [OF r x(1,2) this, of "length (contents i bs)"] show ?thesis
      using j(2,3) e oj ne(1) x(3) st neg bnd
      by (auto simp: entry_seek_end_def offs Let_def checked_sub_def tot)
  next
    case False
    then have dd: "d = length (contents i bs)" using d by simp
    have sc: "seek_scan d (rev (enumerate 0 ?offs)) 0 = Inr (d, None)"
      using seek_scan_beyond [of 0 "rev (enumerate 0 ?offs)" d] bnd unfolding sz tot' dd by simp
    have "0 < length ?offs" using ne(1) by simp
    from entry_index_split [OF this] obtain xs b ys where
      x: "bs = xs @ b # ys" "block_id b = Some i" "entry_blocks i xs = []" by auto
    have hd: "hd ?offs = (base + length (enc_blocks xs), length (block_payload b))"
      using entry_index_nth [OF x(2), of xs base ys] x ne(1) by (simp add: hd_conv_nth)
    have cx: "contents i xs = []" using x(3) by (simp add: entry_blocks_Nil contents_other)
    from goto_block_ok [OF r x(1,2), of 0 "length (contents i bs)"] show ?thesis
      using sc hd ne(1) x(3) cx dd neg bnd
      by (auto simp: entry_seek_end_def offs Let_def checked_sub_def tot)
  qed
qed

lemma entry_seek_current_ok:
  assumes r: "reader_at base bs i s" and p: "0 \<le> int (reader_pos s) + d"
    "int (reader_pos s) + d \<le> int (length (contents i bs))" and nf: "er_state s \<noteq> Finish"
  shows "\<exists>s'. entry_seek rd sk (SeekCurrent d) s = Some (Inr (nat (int (reader_pos s) + d)), s') \<and>
    reader_at base bs i s' \<and> view (er_src s') = view (er_src s) \<and>
    reader_pos s' = nat (int (reader_pos s) + d)"
proof -
  have c: "complete_entry bs i" and offs: "er_offsets s = entry_index base i bs"
    using r by (auto simp: reader_at_def)
  have bnd: "length (contents i bs) < 2 ^ 64" using c by (simp add: complete_entry_def)
  let ?p = "nat (int (reader_pos s) + d)"
  have ca: "checked_add_signed (reader_pos s) d = Some ?p"
    using p bnd by (simp add: checked_add_signed_def)
  have "?p \<le> length (contents i bs)" using p by simp
  from entry_seek_start_ok [OF r this] have ok: "\<exists>s'. entry_seek_start rd sk ?p s = Some (Inr ?p, s') \<and>
      reader_at base bs i s' \<and> view (er_src s') = view (er_src s) \<and> reader_pos s' = ?p" .
  show ?thesis
  proof (cases "er_state s")
    case Ready
    then obtain xs ys where x: "bs = xs @ ys" "er_index s = length (entry_blocks i xs)"
      using r by (auto simp: reader_at_def)
    have rp: "reader_pos s = length (contents i xs)"
      by (rule reader_pos_Ready [OF Ready]) (use offs x in auto)
    then have "sum_list (map snd (take (er_index s) (er_offsets s))) mod 2 ^ 64 = reader_pos s"
      using bnd by (simp add: reader_pos_def Ready x(1))
    moreover have "er_index s \<le> length (er_offsets s)"
      by (simp add: offs x length_entry_index entry_blocks_def)
    ultimately show ?thesis using ok ca by (simp add: entry_seek_def Ready)
  next
    case (InEntryContent rem)
    then obtain xs e ys where x: "bs = xs @ BContent i e # ys" "er_index s = length (entry_blocks i xs)"
      "0 < rem" "rem \<le> length e"
      using r by (auto simp: reader_at_def)
    let ?l = "map snd (take (er_index s + 1) (er_offsets s))"
    have sum: "sum_list ?l = length (contents i xs) + length e"
      by (simp add: offs x entry_index_append length_entry_index entry_blocks_def entry_index_sizes)
    have rp: "reader_pos s = sum_list ?l - rem" by (simp add: reader_pos_def InEntryContent)
    have cs: "checked_sum ns acc = Some (acc + sum_list ns)" if "acc + sum_list ns < 2 ^ 64" for ns acc
      using that by (induction ns arbitrary: acc) (auto simp: checked_add_def add.assoc)
    have "checked_sum ?l 0 = Some (sum_list ?l)"
      using cs [of 0 ?l] sum bnd x(1) by simp
    moreover have "er_index s < length (er_offsets s)"
      by (simp add: offs x length_entry_index entry_blocks_def)
    ultimately show ?thesis
      using ok ca rp sum x(4) by (simp add: entry_seek_def InEntryContent checked_sub_def)
  next
    case Finish
    with nf show ?thesis by simp
  qed
qed

lemma entry_data_reader_new_ok:
  assumes r: "inv r" "blocks_at base bs (view r)" and c: "complete_entry bs i"
  shows "\<exists>s r'. entry_data_reader_new rd sk (entry_index base i bs) r = (Inr s, r') \<and> r' = er_src s \<and>
    reader_at base bs i s \<and> reader_pos s = 0 \<and> view (er_src s) = view r"
proof -
  note ne = complete_entry_index [OF c, of base]
  have "0 < length (entry_index base i bs)" using ne(1) by simp
  from entry_index_split [OF this] obtain xs b ys where
    x: "bs = xs @ b # ys" "block_id b = Some i" "entry_blocks i xs = []" by auto
  from complete_entry_at [OF c x(1,2)] x(3) obtain name where
    b: "b = BStart name i" "entry_blocks i ys \<noteq> []" by auto
  have hd: "hd (entry_index base i bs) = (base + length (enc_blocks xs), length (block_payload b))"
    using entry_index_nth [OF x(2), of xs base ys] x ne(1) by (simp add: hd_conv_nth)
  then have g: "get_start_offset_in_src (entry_index base i bs) = Inr (base + length (enc_blocks xs))"
    using ne(1) by (cases "entry_index base i bs") (auto simp: get_start_offset_in_src_def)
  from seek_startE [OF r(1) blocks_at_length [OF r(2) [unfolded x(1)]]] obtain r1 where
    r1: "sk (SeekStart (base + length (enc_blocks xs))) r = (Inr (base + length (enc_blocks xs)), r1)"
    "inv r1" "view r1 = view r" "pos r1 = base + length (enc_blocks xs)" by metis
  from block_from_at [OF r1(2) _ r1(4), of b ys] r(2) r1(3) x(1) obtain r2 where
    r2: "block_from rd r1 = (Inr (parsed_block b), r2)" "inv r2" "view r2 = view r1"
    "pos r2 = base + length (enc_blocks xs) + length (enc_head b)" by metis
  let ?s = "\<lparr>er_src = r2, er_state = Ready, er_id = i, er_index = 1, er_offsets = entry_index base i bs\<rparr>"
  have e1: "entry_blocks i (xs @ [b]) = [b]" using x by (simp add: entry_blocks_def)
  have "reader_at base bs i ?s"
    by (rule reader_at_readyI [of _ _ _ _ "xs @ [b]" ys])
      (use r r1 r2 x b c e1 in \<open>auto simp: enc_block_def\<close>)
  moreover have "reader_pos ?s = length (contents i (xs @ [b]))"
    by (rule reader_pos_Ready [of _ base i _ ys]) (use x e1 in auto)
  moreover have "contents i (xs @ [b]) = []"
    using x(3) b(1) by (simp add: entry_blocks_Nil contents_other)
  ultimately show ?thesis
    using g r1(1,3) r2(1,3) b
    by (auto simp: entry_data_reader_new_def bindE_def lift_res_def lift_io_def map_errE_def)
qed

text \<open>On a complete entry, the reader is again a reader that stops at the end.\<close>

lemma entry_reader_source:
  "eof_source (\<lambda>n s. the (entry_read rd sk n s)) (\<lambda>_. contents i bs) reader_pos (reader_at base bs i)"
proof
  fix s n assume a: "reader_at base bs i s" "reader_pos s < length (contents i bs)"
  from entry_read_ok [OF a(1), of n] a(2)
  show "\<exists>k s'. the (entry_read rd sk n s) = (Inr (take k (drop (reader_pos s) (contents i bs))), s') \<and>
      k \<le> n \<and> k \<le> length (contents i bs) - reader_pos s \<and> (0 < n \<longrightarrow> 0 < k) \<and>
      reader_at base bs i s' \<and> contents i bs = contents i bs \<and> reader_pos s' = reader_pos s + k"
    unfolding reads_ok_def by auto
next
  fix s n assume a: "reader_at base bs i s" "length (contents i bs) \<le> reader_pos s"
  from entry_read_ok [OF a(1), of n] a(2)
  show "\<exists>s'. the (entry_read rd sk n s) = (Inr [], s') \<and> reader_at base bs i s' \<and>
      contents i bs = contents i bs \<and> reader_pos s' = reader_pos s"
    unfolding reads_ok_def by auto
qed

end

interpretation cur_entry: eof_source "\<lambda>n s. the (entry_read cursor_read cursor_seek n s)"
  "\<lambda>_. contents i bs" cur.reader_pos "cur.reader_at base bs i"
  by (rule cur.entry_reader_source)

end
