(* ===== verification/Wrappers.thy ===== *)
theory Wrappers
  imports Blocks
begin

text \<open>
  The wrappers around a reader or a writer: \<^verbatim>\<open>PositionLayerWriter\<close> and \<^verbatim>\<open>PositionLayerReader\<close>
  (\<^verbatim>\<open>mla/src/layers/position.rs\<close>), \<^verbatim>\<open>HashWrapperReader\<close> and \<^verbatim>\<open>HashWrapperWriter\<close>
  (\<^verbatim>\<open>mla/src/crypto/hash.rs\<close>). The state of a \<^verbatim>\<open>Digest\<close> is the bytes it was fed; its result is a
  parameter applied to them. Each wrapper keeps the contract of what it wraps.
\<close>

section \<open>Counting what is written or read\<close>

record 'w position_writer =
  pw_inner :: 'w
  pw_pos :: nat

definition position_writer_new :: "'w \<Rightarrow> 'w position_writer" where
  "position_writer_new w = \<lparr>pw_inner = w, pw_pos = 0\<rparr>"

definition position :: "'w position_writer \<Rightarrow> nat" where
  "position s = pw_pos s"

definition reset_position :: "('w position_writer, 'e, nat) op" where
  "reset_position s = (Inr (pw_pos s), s\<lparr>pw_pos := 0\<rparr>)"

definition position_write ::
  "(bytes \<Rightarrow> ('w, io_error, nat) op) \<Rightarrow> bytes \<Rightarrow> ('w position_writer, io_error, nat) op" where
  "position_write wr bs s =
     (case wr bs (pw_inner s) of
        (Inl e, w) \<Rightarrow> (Inl e, s\<lparr>pw_inner := w\<rparr>)
      | (Inr written, w) \<Rightarrow>
          (case checked_add (pw_pos s) written of
             None \<Rightarrow> (Inl IoOther, s\<lparr>pw_inner := w\<rparr>)
           | Some p \<Rightarrow> (Inr written, s\<lparr>pw_inner := w, pw_pos := p\<rparr>)))"

text \<open>\<^verbatim>\<open>LayerWriter::finalize\<close> of the position layer only calls the inner layer's.\<close>

definition position_finalize :: "('w \<Rightarrow> error + 'f) \<Rightarrow> 'w position_writer \<Rightarrow> error + 'f" where
  "position_finalize inner_finalize s = inner_finalize (pw_inner s)"

record 'r position_reader =
  pr_inner :: 'r
  pr_pos :: nat

definition position_reader_new :: "'r \<Rightarrow> 'r position_reader" where
  "position_reader_new r = \<lparr>pr_inner = r, pr_pos = 0\<rparr>"

definition position_read ::
  "(nat \<Rightarrow> ('r, io_error, bytes) op) \<Rightarrow> nat \<Rightarrow> ('r position_reader, io_error, bytes) op" where
  "position_read rd n s =
     (case rd n (pr_inner s) of
        (Inl e, r) \<Rightarrow> (Inl e, s\<lparr>pr_inner := r\<rparr>)
      | (Inr bs, r) \<Rightarrow>
          (case checked_add (pr_pos s) (length bs) of
             None \<Rightarrow> (Inl IoOther, s\<lparr>pr_inner := r\<rparr>)
           | Some p \<Rightarrow> (Inr bs, s\<lparr>pr_inner := r, pr_pos := p\<rparr>)))"

section \<open>Hashing what is read or written\<close>

record 'r hash_reader =
  hr_inner :: 'r
  hr_hash :: bytes

definition hash_read ::
  "(nat \<Rightarrow> ('r, io_error, bytes) op) \<Rightarrow> nat \<Rightarrow> ('r hash_reader, io_error, bytes) op" where
  "hash_read rd n s =
     (case rd n (hr_inner s) of
        (Inl e, r) \<Rightarrow> (Inl e, s\<lparr>hr_inner := r\<rparr>)
      | (Inr bs, r) \<Rightarrow> (Inr bs, s\<lparr>hr_inner := r, hr_hash := hr_hash s @ bs\<rparr>))"

record 'w hash_writer =
  hw_inner :: 'w
  hw_hash :: bytes

definition hash_write ::
  "(bytes \<Rightarrow> ('w, io_error, nat) op) \<Rightarrow> bytes \<Rightarrow> ('w hash_writer, io_error, nat) op" where
  "hash_write wr bs s =
     (case wr bs (hw_inner s) of
        (r, w) \<Rightarrow> (r, s\<lparr>hw_inner := w, hw_hash := hw_hash s @ bs\<rparr>))"

section \<open>The contracts the wrappers keep\<close>

definition position_winv ::
  "('w \<Rightarrow> bytes) \<Rightarrow> ('w \<Rightarrow> bool) \<Rightarrow> nat \<Rightarrow> 'w position_writer \<Rightarrow> bool" where
  "position_winv out winv base s \<longleftrightarrow>
     winv (pw_inner s) \<and> length (out (pw_inner s)) = base + pw_pos s \<and> pw_pos s < 2 ^ 64"

definition position_room :: "('w \<Rightarrow> nat) \<Rightarrow> 'w position_writer \<Rightarrow> nat" where
  "position_room room s = min (room (pw_inner s)) (2 ^ 64 - 1 - pw_pos s)"

lemma position_sink:
  assumes "sink wr out winv"
  shows "sink (position_write wr) (\<lambda>s. out (pw_inner s)) (position_winv out winv base)"
proof
  fix w :: "'a position_writer" and bs k w'
  assume "position_winv out winv base w" "bs \<noteq> []" "position_write wr bs w = (Inr k, w')"
  then show "position_winv out winv base w' \<and> out (pw_inner w') = out (pw_inner w) @ take k bs \<and>
      k \<le> length bs"
    using sink.write_ok [OF assms, of "pw_inner w" bs k "pw_inner w'"]
    by (auto simp: position_write_def position_winv_def checked_add_def
        split: prod.splits sum.splits option.splits if_splits)
qed

lemma position_room_sink:
  assumes "room_sink wr out winv room"
  shows "room_sink (position_write wr) (\<lambda>s. out (pw_inner s)) (position_winv out winv base)
    (position_room room)"
proof (rule room_sink.intro)
  have s: "sink wr out winv" using assms by (simp add: room_sink_def)
  then show "sink (position_write wr) (\<lambda>s. out (pw_inner s)) (position_winv out winv base)"
    by (rule position_sink)
  show "room_sink_axioms (position_write wr) (position_winv out winv base) (position_room room)"
  proof
    fix w :: "'a position_writer" and bs :: bytes
    assume a: "position_winv out winv base w" "bs \<noteq> []" "length bs \<le> position_room room w"
    then obtain k w' where k: "wr bs (pw_inner w) = (Inr k, w')" "0 < k"
      "room (pw_inner w) \<le> room w' + k"
      using room_sink.write_room [OF assms, of "pw_inner w" bs]
      by (auto simp: position_winv_def position_room_def)
    have "k \<le> length bs"
      using sink.write_ok [OF s _ a(2) k(1)] a(1) by (simp add: position_winv_def)
    moreover from this have "pw_pos w + k < 2 ^ 64"
      using a by (simp add: position_room_def position_winv_def min_def split: if_splits)
    ultimately show "\<exists>k w'. position_write wr bs w = (Inr k, w') \<and> 0 < k \<and>
        position_room room w \<le> position_room room w' + k"
      using k by (auto simp: position_write_def checked_add_def position_room_def)
  qed
qed

text \<open>What a hash reader has fed its digest since it was created at \<open>p0\<close> with a digest of \<open>h0\<close>.\<close>

definition hash_inv ::
  "('r \<Rightarrow> bytes) \<Rightarrow> ('r \<Rightarrow> nat) \<Rightarrow> ('r \<Rightarrow> bool) \<Rightarrow> bytes \<Rightarrow> nat \<Rightarrow> 'r hash_reader \<Rightarrow> bool" where
  "hash_inv view pos rinv h0 p0 s \<longleftrightarrow>
     rinv (hr_inner s) \<and> p0 \<le> pos (hr_inner s) \<and>
     hr_hash s = h0 @ take (pos (hr_inner s) - p0) (drop p0 (view (hr_inner s)))"

lemma hash_source:
  assumes "source rd view pos rinv"
  shows "source (hash_read rd) (\<lambda>s. view (hr_inner s)) (\<lambda>s. pos (hr_inner s))
    (hash_inv view pos rinv h0 p0)"
proof
  fix s :: "'a hash_reader" and n
  assume s: "hash_inv view pos rinv h0 p0 s" "pos (hr_inner s) < length (view (hr_inner s))"
  then obtain k r where k: "rd n (hr_inner s) = (Inr (take k (drop (pos (hr_inner s)) (view (hr_inner s)))), r)"
    "k \<le> n" "k \<le> length (view (hr_inner s)) - pos (hr_inner s)" "0 < n \<longrightarrow> 0 < k"
    "rinv r" "view r = view (hr_inner s)" "pos r = pos (hr_inner s) + k"
    using source.read_ok [OF assms, of "hr_inner s" n] by (auto simp: hash_inv_def)
  have "take (pos (hr_inner s) - p0) (drop p0 (view (hr_inner s))) @
      take k (drop (pos (hr_inner s)) (view (hr_inner s))) =
      take (pos r - p0) (drop p0 (view r))"
  proof -
    have "p0 \<le> pos (hr_inner s)" using s(1) by (simp add: hash_inv_def)
    then obtain d where d: "pos (hr_inner s) = p0 + d" using le_Suc_ex by blast
    then show ?thesis
      using k(6,7) by (simp add: take_add add.commute)
  qed
  with s(1) k show "\<exists>k s'. hash_read rd n s =
      (Inr (take k (drop (pos (hr_inner s)) (view (hr_inner s)))), s') \<and> k \<le> n \<and>
      k \<le> length (view (hr_inner s)) - pos (hr_inner s) \<and> (0 < n \<longrightarrow> 0 < k) \<and>
      hash_inv view pos rinv h0 p0 s' \<and> view (hr_inner s') = view (hr_inner s) \<and>
      pos (hr_inner s') = pos (hr_inner s) + k"
    by (intro exI [of _ k]) (auto simp: hash_read_def hash_inv_def)
qed

interpretation pos_vec: room_sink "position_write vec_write" pw_inner
  "position_winv (\<lambda>w. w) (\<lambda>_. True) base" "position_room vec_room"
  by (rule position_room_sink) (rule vec.room_sink_axioms)

interpretation hash_cur: source "hash_read cursor_read" "\<lambda>s. cur_data (hr_inner s)"
  "\<lambda>s. cur_pos (hr_inner s)" "hash_inv cur_data cur_pos cursor_inv h0 p0"
  by (rule hash_source) (rule cur.source_axioms)

section \<open>Properties\<close>

text \<open>A hash writer over a writer that accepts only part of a buffer feeds its digest the whole
  buffer again on each retry: \<^verbatim>\<open>write_all\<close> of two bytes, one accepted at a time, hashes three.\<close>

definition one_byte_write :: "bytes \<Rightarrow> (bytes, io_error, nat) op" where
  "one_byte_write bs w = (Inr (min 1 (length bs)), w @ take 1 bs)"

lemma hash_write_short_writes:
  "write_all (hash_write one_byte_write) [a, b] \<lparr>hw_inner = w, hw_hash = h\<rparr> =
     (Inr (), \<lparr>hw_inner = w @ [a, b], hw_hash = h @ [a, b, b]\<rparr>)"
  by (simp add: write_all.simps hash_write_def one_byte_write_def)

end
