(* ===== verification/Writer.thy ===== *)
theory Writer
  imports Wrappers
begin

text \<open>
  \<^verbatim>\<open>ArchiveWriter\<close> of \<^verbatim>\<open>mla/src/lib.rs\<close>, with its state machine, its index and the footer it
  appends, and \<^verbatim>\<open>StreamWriter\<close> of \<^verbatim>\<open>mla/src/helpers.rs\<close>. The layers below are a writer \<open>wr\<close> with a
  \<open>layer_finalize\<close>. SHA-256 is a parameter. The refinement: as long as no call fails, the writer's
  output is the encoding of a \<open>stream\<close> of blocks, and its maps are that stream's index.
\<close>

section \<open>State\<close>

datatype archive_writer_state =
    OpenedFiles "archive_entry_id list" "(archive_entry_id \<times> bytes) list"
  | Finalized

record 'w archive_writer =
  aw_dest :: "'w position_writer"
  aw_state :: archive_writer_state
  aw_entries_info :: "(entry_name \<times> archive_entry_id) list"
  aw_ids_info :: "(archive_entry_id \<times> entry_info) list"
  aw_next_id :: archive_entry_id
  aw_current_id :: archive_entry_id

abbreviation put_dest :: "'w position_writer \<Rightarrow> 'w archive_writer \<Rightarrow> 'w archive_writer" where
  "put_dest d s \<equiv> s\<lparr>aw_dest := d\<rparr>"

text \<open>The end of \<^verbatim>\<open>ArchiveWriter::from_config\<close>, once the layers are stacked.\<close>

definition archive_writer_init ::
  "(bytes \<Rightarrow> ('w, io_error, nat) op) \<Rightarrow> 'w \<Rightarrow> error + 'w archive_writer" where
  "archive_writer_init wr dest =
     (case bindE reset_position (\<lambda>_.
             bindE (lift_io (write_all (position_write wr) ENTRIES_LAYER_MAGIC)) (\<lambda>_.
               opts_dump (position_write wr))) (position_writer_new dest) of
        (Inl e, _) \<Rightarrow> Inl e
      | (Inr _, final_dest) \<Rightarrow>
          Inr \<lparr>aw_dest = final_dest, aw_state = OpenedFiles [] [], aw_entries_info = [],
               aw_ids_info = [], aw_next_id = 0, aw_current_id = 0\<rparr>)"

section \<open>Checks\<close>

definition check_state_opened :: "('w archive_writer, error, unit) op" where
  "check_state_opened s =
     (case aw_state s of
        OpenedFiles ids hashes \<Rightarrow> (Inr (), s)
      | Finalized \<Rightarrow> (Inl WrongArchiveWriterState, s))"

definition check_state_file_opened :: "archive_entry_id \<Rightarrow> ('w archive_writer, error, unit) op" where
  "check_state_file_opened i s =
     (case aw_state s of
        OpenedFiles ids hashes \<Rightarrow>
          (if i \<notin> set ids \<or> map_of hashes i = None then (Inl WrongArchiveWriterState, s)
           else (Inr (), s))
      | Finalized \<Rightarrow> (Inl WrongArchiveWriterState, s))"

fun vec_remove_item :: "'a list \<Rightarrow> 'a \<Rightarrow> 'a list" where
  "vec_remove_item [] x = []"
| "vec_remove_item (y # ys) x = (if y = x then ys else y # vec_remove_item ys x)"

section \<open>Operations\<close>

definition record_offset_and_size_in_index ::
  "archive_entry_id \<Rightarrow> nat \<Rightarrow> ('w archive_writer, error, unit) op" where
  "record_offset_and_size_in_index i sz s =
     (let offset = position (aw_dest s)
      in case map_of (aw_ids_info s) i of
          Some file_info \<Rightarrow>
            (Inr (), s\<lparr>aw_ids_info := AList.update i
                 (file_info\<lparr>offsets_and_sizes := offsets_and_sizes file_info @ [(offset, sz)]\<rparr>)
                 (aw_ids_info s),
               aw_current_id := i\<rparr>)
        | None \<Rightarrow> (Inl (WrongWriterState ''[mark_continuous_block] Unable to find the ID''), s))"

definition start_entry ::
  "(bytes \<Rightarrow> ('w, io_error, nat) op) \<Rightarrow> entry_name \<Rightarrow>
   ('w archive_writer, error, archive_entry_id) op" where
  "start_entry wr name =
     bindE check_state_opened (\<lambda>_ s.
       if map_of (aw_entries_info s) name \<noteq> None then (Inl DuplicateEntryName, s)
       else let i = aw_next_id s in
         case checked_add (aw_next_id s) 1 of
           None \<Rightarrow> (Inl SerializationError, s)
         | Some n \<Rightarrow>
             (let s1 = s\<lparr>aw_next_id := n, aw_current_id := i,
                         aw_entries_info := AList.update name i (aw_entries_info s),
                         aw_ids_info := AList.update i
                           \<lparr>offsets_and_sizes = [(position (aw_dest s), 0)]\<rparr> (aw_ids_info s)\<rparr>
              in bindE (on_field aw_dest put_dest (dump_start (position_write wr) name i)) (\<lambda>_ s2.
                   case aw_state s2 of
                     OpenedFiles ids hashes \<Rightarrow>
                       (Inr i, s2\<lparr>aw_state := OpenedFiles (ids @ [i]) (AList.update i [] hashes)\<rparr>)
                   | Finalized \<Rightarrow>
                       (Inl (WrongWriterState ''[StartFile] State have changes inside start_file''),
                        s2)) s1))"

text \<open>\<^verbatim>\<open>wrap_with_hash\<close>: the entry's digest, as the code borrows it for the copy.\<close>

definition wrap_with_hash ::
  "archive_entry_id \<Rightarrow> 'u \<Rightarrow> ('w archive_writer, error, 'u hash_reader) op" where
  "wrap_with_hash i src s =
     (case aw_state s of
        OpenedFiles ids hashes \<Rightarrow>
          (case map_of hashes i of
             Some hash \<Rightarrow> (Inr \<lparr>hr_inner = src, hr_hash = hash\<rparr>, s)
           | None \<Rightarrow> (Inl (WrongWriterState ''[wrap_with_hash] Unable to find the ID''), s))
      | Finalized \<Rightarrow> (Inl (WrongWriterState ''[wrap_with_hash] Wrong state''), s))"

text \<open>The digest lives in the writer's state: what the copy fed it stays there, also on an error.\<close>

definition put_hash :: "archive_entry_id \<Rightarrow> bytes \<Rightarrow> 'w archive_writer \<Rightarrow> 'w archive_writer" where
  "put_hash i hash s =
     (case aw_state s of
        OpenedFiles ids hashes \<Rightarrow> s\<lparr>aw_state := OpenedFiles ids (AList.update i hash hashes)\<rparr>
      | Finalized \<Rightarrow> s)"

text \<open>The state holds the content's reader as well.\<close>

definition append_entry_content ::
  "(nat \<Rightarrow> ('u, io_error, bytes) op) \<Rightarrow> (bytes \<Rightarrow> ('w, io_error, nat) op) \<Rightarrow>
   archive_entry_id \<Rightarrow> nat \<Rightarrow> ('u \<times> 'w archive_writer, error, unit) op" where
  "append_entry_content rd wr i sz us =
     (case check_state_file_opened i (snd us) of
        (Inl e, s) \<Rightarrow> (Inl e, (fst us, s))
      | (Inr _, s) \<Rightarrow>
          if sz = 0 then (Inr (), (fst us, s))
          else case bindE (record_offset_and_size_in_index i sz)
                      (\<lambda>_. wrap_with_hash i (fst us)) s of
              (Inl e, s1) \<Rightarrow> (Inl e, (fst us, s1))
            | (Inr src, s1) \<Rightarrow>
                (case block_dump (hash_read rd) (position_write wr)
                        (EntryContent sz (Some src) i, aw_dest s1) of
                   (r, (EntryContent len (Some src') j, d)) \<Rightarrow>
                     (r, (hr_inner src', put_hash i (hr_hash src') (put_dest d s1)))
                 | (r, (_, d)) \<Rightarrow> (r, (fst us, put_dest d s1))))"

definition end_entry ::
  "(bytes \<Rightarrow> bytes) \<Rightarrow> (bytes \<Rightarrow> ('w, io_error, nat) op) \<Rightarrow> archive_entry_id \<Rightarrow>
   ('w archive_writer, error, unit) op" where
  "end_entry sha256 wr i =
     bindE (check_state_file_opened i) (\<lambda>_.
     bindE (\<lambda>s. case aw_state s of
          OpenedFiles ids hashes \<Rightarrow>
            (case map_of hashes i of
               None \<Rightarrow> (Inl (WrongWriterState ''[EndFile] Unable to retrieve the hash''), s)
             | Some hash \<Rightarrow>
                 (Inr (sha256 hash),
                  s\<lparr>aw_state := OpenedFiles (vec_remove_item ids i) (AList.delete i hashes)\<rparr>))
        | Finalized \<Rightarrow>
            (Inl (WrongWriterState ''[EndFile] State have changes inside end_file''), s)) (\<lambda>hash.
     bindE (record_offset_and_size_in_index i 0) (\<lambda>_.
       on_field aw_dest put_dest (dump_end (position_write wr) i hash))))"

definition add_entry ::
  "(bytes \<Rightarrow> bytes) \<Rightarrow> (nat \<Rightarrow> ('u, io_error, bytes) op) \<Rightarrow> (bytes \<Rightarrow> ('w, io_error, nat) op) \<Rightarrow>
   entry_name \<Rightarrow> nat \<Rightarrow> ('u \<times> 'w archive_writer, error, unit) op" where
  "add_entry sha256 rd wr name sz =
     bindE (on_field snd (\<lambda>s us. (fst us, s)) (start_entry wr name)) (\<lambda>i.
     bindE (append_entry_content rd wr i sz) (\<lambda>_.
       on_field snd (\<lambda>s us. (fst us, s)) (end_entry sha256 wr i)))"

text \<open>\<^verbatim>\<open>finalize(mut self)\<close>; \<open>layer_finalize\<close> is the lower layers' and \<open>wrf\<close> writes on what they
  return.\<close>

definition finalize_state :: "('w archive_writer, error, unit) op" where
  "finalize_state s =
     (case aw_state s of
        OpenedFiles ids hashes \<Rightarrow>
          (if ids \<noteq> [] \<or> hashes \<noteq> []
           then (Inl (WrongWriterState ''[Finalize] At least one file is still open''), s)
           else (Inr (), s\<lparr>aw_state := Finalized\<rparr>))
      | Finalized \<Rightarrow>
          (Inl (WrongWriterState ''[Finalize] State have changes inside finalize''), s))"

definition finalize_dest ::
  "(bytes \<Rightarrow> ('w, io_error, nat) op) \<Rightarrow> (entry_name \<times> archive_entry_id) list \<Rightarrow>
   (archive_entry_id \<times> entry_info) list \<Rightarrow> ('w, error, unit) op" where
  "finalize_dest wr es ids =
     bindE (dump_end_of_archive_data wr) (\<lambda>_.
     bindE (lift_io (write_all wr [1])) (\<lambda>_.
     bindE (footer_serialize_into wr es ids) (\<lambda>_.
       lift_io (write_all wr EMPTY_TAIL_OPTS_SERIALIZATION))))"

definition finalize_entries ::
  "(bytes \<Rightarrow> ('w, io_error, nat) op) \<Rightarrow> ('w archive_writer, error, unit) op" where
  "finalize_entries wr =
     bindE check_state_opened (\<lambda>_.
     bindE finalize_state (\<lambda>_ s.
       on_field aw_dest put_dest
         (finalize_dest (position_write wr) (aw_entries_info s) (aw_ids_info s)) s))"

definition archive_finalize ::
  "(bytes \<Rightarrow> ('w, io_error, nat) op) \<Rightarrow> ('w \<Rightarrow> error + 'f) \<Rightarrow> (bytes \<Rightarrow> ('f, io_error, nat) op) \<Rightarrow>
   'w archive_writer \<Rightarrow> error + 'f" where
  "archive_finalize wr layer_finalize wrf s =
     (case finalize_entries wr s of
        (Inl e, _) \<Rightarrow> Inl e
      | (Inr _, s') \<Rightarrow>
          (case position_finalize layer_finalize (aw_dest s') of
             Inl e \<Rightarrow> Inl e
           | Inr final_dest \<Rightarrow>
               (case bindE (lift_io (write_all wrf EMPTY_TAIL_OPTS_SERIALIZATION))
                       (\<lambda>_. lift_io (write_all wrf END_MLA_MAGIC)) final_dest of
                  (Inl e, _) \<Rightarrow> Inl e
                | (Inr _, f) \<Rightarrow> Inr f)))"

text \<open>\<^verbatim>\<open>StreamWriter::write\<close> appends the whole buffer as one block; \<^verbatim>\<open>&[u8]\<close> reads as a cursor.\<close>

definition stream_writer_write ::
  "(bytes \<Rightarrow> ('w, io_error, nat) op) \<Rightarrow> archive_entry_id \<Rightarrow> bytes \<Rightarrow>
   ('w archive_writer, io_error, nat) op" where
  "stream_writer_write wr file_id buf s =
     (case to_io (append_entry_content cursor_read wr file_id (length buf)) (cursor_new buf, s) of
        (Inl e, (_, s')) \<Rightarrow> (Inl e, s')
      | (Inr _, (_, s')) \<Rightarrow> (Inr (length buf), s'))"

section \<open>The refinement\<close>

definition entries_layer :: "block list \<Rightarrow> bytes" where
  "entries_layer bs = ENTRIES_LAYER_MAGIC @ EMPTY_OPTS_SERIALIZATION @ enc_blocks bs"

text \<open>Blocks start after the layer's magic and options.\<close>

definition BLOCKS_START :: nat where "BLOCKS_START = 9"

lemma length_entries_layer: "length (entries_layer bs) = BLOCKS_START + length (enc_blocks bs)"
  by (simp add: entries_layer_def BLOCKS_START_def)

definition stream_index :: "block list \<Rightarrow> archive_entry_id \<Rightarrow> entry_info" where
  "stream_index bs i = \<lparr>offsets_and_sizes = entry_index BLOCKS_START i bs\<rparr>"

definition state_inv :: "block list \<Rightarrow> archive_writer_state \<Rightarrow> bool" where
  "state_inv bs st \<longleftrightarrow>
     (case st of
        OpenedFiles ids hashes \<Rightarrow>
          distinct ids \<and> set ids = open_ids bs \<and>
          (\<forall>i. map_of hashes i = (if i \<in> open_ids bs then Some (contents i bs) else None))
      | Finalized \<Rightarrow> False)"

definition maps_inv :: "block list \<Rightarrow> 'w archive_writer \<Rightarrow> bool" where
  "maps_inv bs s \<longleftrightarrow>
     aw_entries_info s = starts bs \<and> map snd (starts bs) = [0..<aw_next_id s] \<and>
     aw_next_id s < 2 ^ 64 \<and> map fst (aw_ids_info s) = [0..<aw_next_id s] \<and>
     (\<forall>i < aw_next_id s. map_of (aw_ids_info s) i = Some (stream_index bs i))"

definition writer_inv ::
  "('w \<Rightarrow> bytes) \<Rightarrow> ('w \<Rightarrow> bool) \<Rightarrow> (bytes \<Rightarrow> bytes) \<Rightarrow> bytes \<Rightarrow> block list \<Rightarrow>
   'w archive_writer \<Rightarrow> bool" where
  "writer_inv out winv sha256 base bs s \<longleftrightarrow>
     position_winv out winv (length base) (aw_dest s) \<and>
     out (pw_inner (aw_dest s)) = base @ entries_layer bs \<and>
     stream sha256 bs \<and> (\<forall>b\<in>set bs. wf_block b) \<and> state_inv bs (aw_state s) \<and> maps_inv bs s"

lemma writer_inv_position:
  assumes "writer_inv out winv sha256 base bs s"
  shows "pw_pos (aw_dest s) = BLOCKS_START + length (enc_blocks bs)"
  using assms by (auto simp: writer_inv_def position_winv_def length_entries_layer)

lemma entries_layer_snoc: "entries_layer (bs @ [b]) = entries_layer bs @ enc_block b"
  by (simp add: entries_layer_def)

lemma entry_index_snoc:
  "entry_index p i (bs @ [b]) = entry_index p i bs @
     (if block_id b = Some i then [(p + length (enc_blocks bs), length (block_payload b))] else [])"
  by (simp add: entry_index_append)

lemma stream_index_other: "block_id b \<noteq> Some i \<Longrightarrow> stream_index (bs @ [b]) i = stream_index bs i"
  by (simp add: stream_index_def entry_index_snoc)

lemma stream_index_same:
  "block_id b = Some i \<Longrightarrow> offsets_and_sizes (stream_index (bs @ [b]) i) =
     offsets_and_sizes (stream_index bs i) @
       [(BLOCKS_START + length (enc_blocks bs), length (block_payload b))]"
  by (simp add: stream_index_def entry_index_snoc)

lemma set_vec_remove_item: "distinct xs \<Longrightarrow> set (vec_remove_item xs x) = set xs - {x}"
  by (induction xs) auto

lemma distinct_vec_remove_item: "distinct xs \<Longrightarrow> distinct (vec_remove_item xs x)"
  by (induction xs) (auto simp: set_vec_remove_item)

lemma keys_update_in: "k \<in> set (map fst xs) \<Longrightarrow> map fst (AList.update k v xs) = map fst xs"
  by (induction xs) auto

lemma update_notin: "k \<notin> set (map fst xs) \<Longrightarrow> AList.update k v xs = xs @ [(k, v)]"
  by (induction xs) auto

lemma on_field_dest:
  "on_field aw_dest put_dest m s = (r, s') \<longleftrightarrow> (\<exists>d. m (aw_dest s) = (r, d) \<and> s' = put_dest d s)"
  by (auto simp: on_field_def split: prod.splits)

lemma check_state_opened_eq: "aw_state s = OpenedFiles ids hashes \<Longrightarrow> check_state_opened s = (Inr (), s)"
  by (simp add: check_state_opened_def)

lemma state_invE:
  assumes "state_inv bs st"
  obtains ids hashes where "st = OpenedFiles ids hashes" "distinct ids" "set ids = open_ids bs"
    "\<And>i. map_of hashes i = (if i \<in> open_ids bs then Some (contents i bs) else None)"
  using assms by (cases st) (auto simp: state_inv_def)

lemma contents_not_started:
  "stream sha256 bs \<Longrightarrow> i \<notin> set (map snd (starts bs)) \<Longrightarrow> contents i bs = []"
  by (metis contents_filter contents_simps(1) entry_blocks_def stream_entry_blocks)

lemma entry_index_not_started:
  "stream sha256 bs \<Longrightarrow> i \<notin> set (map snd (starts bs)) \<Longrightarrow> entry_index p i bs = []"
  using stream_entry_blocks [of sha256 bs i] length_entry_index [of p i bs]
  by (simp add: entry_blocks_def)

lemma writer_inv_fresh:
  assumes "writer_inv out winv sha256 base bs s"
  shows "aw_next_id s \<notin> set (map snd (starts bs))" and "aw_next_id s = length (starts bs)"
    and "aw_next_id s \<notin> set (map fst (aw_ids_info s))"
proof -
  have m: "map snd (starts bs) = [0..<aw_next_id s]" "map fst (aw_ids_info s) = [0..<aw_next_id s]"
    using assms by (auto simp: writer_inv_def maps_inv_def)
  then show "aw_next_id s \<notin> set (map snd (starts bs))" "aw_next_id s \<notin> set (map fst (aw_ids_info s))"
    by simp_all
  show "aw_next_id s = length (starts bs)"
    using arg_cong [OF m(1), of length] by simp
qed

lemma start_entry_cases:
  assumes "start_entry wr name s = (Inr i, s')"
  obtains ids hashes d where "aw_state s = OpenedFiles ids hashes" "map_of (aw_entries_info s) name = None"
    "i = aw_next_id s" "aw_next_id s + 1 < 2 ^ 64"
    "dump_start (position_write wr) name i (aw_dest s) = (Inr (), d)"
    "s' = s\<lparr>aw_dest := d, aw_next_id := i + 1, aw_current_id := i,
       aw_entries_info := AList.update name i (aw_entries_info s),
       aw_ids_info := AList.update i \<lparr>offsets_and_sizes = [(pw_pos (aw_dest s), 0)]\<rparr> (aw_ids_info s),
       aw_state := OpenedFiles (ids @ [i]) (AList.update i [] hashes)\<rparr>"
  using assms
  by (auto simp: start_entry_def check_state_opened_def checked_add_def Let_def position_def
      on_field_dest elim!: bindE_InrE split: archive_writer_state.splits if_splits option.splits)

lemma start_entry_inv:
  assumes sk: "sink wr out winv" and I: "writer_inv out winv sha256 base bs s" and wf: "wf_name name"
    and st: "start_entry wr name s = (Inr i, s')"
  shows "i = length (starts bs) \<and> writer_inv out winv sha256 base (bs @ [BStart name i]) s'"
proof -
  from st obtain ids hashes d where c: "aw_state s = OpenedFiles ids hashes"
    "map_of (aw_entries_info s) name = None" "i = aw_next_id s" "aw_next_id s + 1 < 2 ^ 64"
    "dump_start (position_write wr) name i (aw_dest s) = (Inr (), d)"
    "s' = s\<lparr>aw_dest := d, aw_next_id := i + 1, aw_current_id := i,
       aw_entries_info := AList.update name i (aw_entries_info s),
       aw_ids_info := AList.update i \<lparr>offsets_and_sizes = [(pw_pos (aw_dest s), 0)]\<rparr> (aw_ids_info s),
       aw_state := OpenedFiles (ids @ [i]) (AList.update i [] hashes)\<rparr>"
    by (rule start_entry_cases)
  let ?b = "BStart name i"
  have inv: "position_winv out winv (length base) (aw_dest s)"
    "out (pw_inner (aw_dest s)) = base @ entries_layer bs" "stream sha256 bs" "\<forall>b\<in>set bs. wf_block b"
    "state_inv bs (aw_state s)" "maps_inv bs s"
    using I by (auto simp: writer_inv_def)
  note fresh = writer_inv_fresh [OF I]
  have d: "position_winv out winv (length base) d" "out (pw_inner d) = base @ entries_layer (bs @ [?b])"
    using sink.printsD [OF position_sink [OF sk] sink.prints_dump_start [OF position_sink [OF sk]] inv(1) c(5)]
    by (auto simp: inv(2) entries_layer_snoc)
  have nf: "name \<notin> set (map fst (starts bs))"
    using c(2) inv(6) by (simp add: maps_inv_def map_of_eq_None_iff)
  then have str: "stream sha256 (bs @ [?b])"
    using inv(3) fresh(1) c(3) by (auto intro: stream.intros)
  have no: "i \<notin> open_ids bs" using fresh(1) c(3) by (auto simp: open_ids_def)
  have op: "open_ids (bs @ [?b]) = insert i (open_ids bs)"
    using stream_distinct [OF inv(3)] fresh(1) c(3) by (auto simp: open_ids_def)
  have si: "state_inv (bs @ [?b]) (aw_state s')"
    using inv(5) no op contents_not_started [OF inv(3) fresh(1)]
    by (auto simp: state_inv_def c(1,3,6) update_conv')
  have mi: "maps_inv (bs @ [?b]) s'"
    using inv(6) nf fresh c(3,4) entry_index_not_started [OF inv(3) fresh(1)]
    by (auto simp: maps_inv_def c(6) update_notin [OF nf] update_keys update_conv' stream_index_other less_Suc_eq
        stream_index_def entry_index_snoc writer_inv_position [OF I] simp del: set_map)
  show ?thesis
    using d str inv(4) wf c(3,4) si mi fresh(2) by (auto simp: writer_inv_def c(6))
qed

lemma hash_copier:
  assumes "source rd view pos rinv" and "sink wr out winv"
  shows "copier (hash_read rd) (\<lambda>s. view (hr_inner s)) (\<lambda>s. pos (hr_inner s))
    (hash_inv view pos rinv h0 p0) (position_write wr) (\<lambda>s. out (pw_inner s))
    (position_winv out winv base)"
  by (rule copier.intro) (rule hash_source [OF assms(1)], rule position_sink [OF assms(2)])

lemma open_ids_bound:
  assumes "maps_inv bs s" and "i \<in> open_ids bs"
  shows "i < aw_next_id s" "i < 2 ^ 64"
  using assms by (auto simp: maps_inv_def open_ids_def simp del: set_map)

lemma record_cases:
  assumes "record_offset_and_size_in_index i sz s = (Inr u, s')"
  obtains info where "map_of (aw_ids_info s) i = Some info"
    "s' = s\<lparr>aw_ids_info := AList.update i
       (info\<lparr>offsets_and_sizes := offsets_and_sizes info @ [(pw_pos (aw_dest s), sz)]\<rparr>)
       (aw_ids_info s), aw_current_id := i\<rparr>"
  using assms by (auto simp: record_offset_and_size_in_index_def position_def Let_def
      split: option.splits)

lemma record_maps_inv:
  assumes "record_offset_and_size_in_index i (length (block_payload b)) s = (Inr u, s')"
    and "maps_inv bs s" and "i < aw_next_id s" and "block_id b = Some i"
    and "starts (bs @ [b]) = starts bs"
    and "pw_pos (aw_dest s) = BLOCKS_START + length (enc_blocks bs)"
  shows "maps_inv (bs @ [b]) s' \<and> aw_dest s' = aw_dest s \<and> aw_state s' = aw_state s"
proof -
  from assms(1) obtain info where r: "map_of (aw_ids_info s) i = Some info"
    "s' = s\<lparr>aw_ids_info := AList.update i
       (info\<lparr>offsets_and_sizes := offsets_and_sizes info @
          [(pw_pos (aw_dest s), length (block_payload b))]\<rparr>)
       (aw_ids_info s), aw_current_id := i\<rparr>"
    by (rule record_cases)
  have info: "info = stream_index bs i"
    using r(1) assms(2,3) by (auto simp: maps_inv_def)
  have "i \<in> set (map fst (aw_ids_info s))"
    using assms(2,3) by (simp add: maps_inv_def del: set_map)
  then have k: "map fst (aw_ids_info s') = map fst (aw_ids_info s)"
    unfolding r(2) by (simp add: keys_update_in)
  show ?thesis
    using assms(2,4,5,6) k
    by (auto simp: maps_inv_def r(2) update_conv' info stream_index_def entry_index_snoc)
qed

lemma append_cases:
  assumes "append_entry_content rd wr i sz (src, s) = (Inr u, (src', s'))" and "sz \<noteq> 0"
  obtains ids hashes hash s1 d r' where "aw_state s = OpenedFiles ids hashes" "i \<in> set ids"
    "map_of hashes i = Some hash" "record_offset_and_size_in_index i sz s = (Inr (), s1)"
    "block_dump (hash_read rd) (position_write wr)
       (EntryContent sz (Some \<lparr>hr_inner = src, hr_hash = hash\<rparr>) i, aw_dest s1) =
       (Inr u, (EntryContent sz (Some r') i, d))"
    "src' = hr_inner r'" "s' = put_hash i (hr_hash r') (put_dest d s1)"
proof -
  from assms(1) obtain ids hashes hash0 where st: "aw_state s = OpenedFiles ids hashes" "i \<in> set ids"
    "map_of hashes i = Some hash0"
    by (auto simp: append_entry_content_def check_state_file_opened_def
        split: prod.splits sum.splits archive_writer_state.splits if_splits)
  then have "check_state_file_opened i s = (Inr (), s)"
    by (simp add: check_state_file_opened_def)
  with assms obtain s1 hash where b: "bindE (record_offset_and_size_in_index i sz)
       (\<lambda>_. wrap_with_hash i src) s = (Inr hash, s1)"
    and m3: "(case block_dump (hash_read rd) (position_write wr) (EntryContent sz (Some hash) i, aw_dest s1) of
       (r, (EntryContent len (Some src') j, d)) \<Rightarrow>
         (r, (hr_inner src', put_hash i (hr_hash src') (put_dest d s1)))
     | (r, (_, d)) \<Rightarrow> (r, (src, put_dest d s1))) = (Inr u, (src', s'))"
    unfolding append_entry_content_def fst_conv snd_conv
    by (auto split: prod.splits sum.splits)
  from b obtain s2 where b2: "record_offset_and_size_in_index i sz s = (Inr (), s2)"
    "wrap_with_hash i src s2 = (Inr hash, s1)"
    by (auto elim: bindE_InrE)
  then have "s2 = s1"
    by (auto simp: wrap_with_hash_def split: archive_writer_state.splits option.splits)
  with b2 have m: "record_offset_and_size_in_index i sz s = (Inr (), s1)"
    "wrap_with_hash i src s1 = (Inr hash, s1)" by simp_all
  have "aw_state s1 = aw_state s"
    using m(1) by (auto elim: record_cases)
  then have h: "hash = \<lparr>hr_inner = src, hr_hash = hash0\<rparr>"
    using m(2) st by (auto simp: wrap_with_hash_def)
  have "\<exists>r' d w. block_dump (hash_read rd) (position_write wr) (EntryContent sz (Some hash) i, aw_dest s1) =
      (w, (EntryContent sz (Some r') i, d))"
    by (auto simp: block_dump_def split: prod.splits sum.splits)
  then obtain r' d where "block_dump (hash_read rd) (position_write wr)
      (EntryContent sz (Some hash) i, aw_dest s1) = (Inr u, (EntryContent sz (Some r') i, d))"
    "src' = hr_inner r'" "s' = put_hash i (hr_hash r') (put_dest d s1)"
    using m3 by auto
  with st m(1) h show thesis by (intro that) auto
qed

lemma append_entry_content_inv:
  assumes so: "source rd view pos rinv" and sk: "sink wr out winv"
    and I: "writer_inv out winv sha256 base bs s" and r: "rinv src"
    and len: "sz \<le> length (drop (pos src) (view src))"
    and ap: "append_entry_content rd wr i sz (src, s) = (Inr u, (src', s'))"
  shows "writer_inv out winv sha256 base
      (if sz = 0 then bs else bs @ [BContent i (take sz (drop (pos src) (view src)))]) s' \<and>
    rinv src' \<and> view src' = view src \<and> pos src' = pos src + sz"
proof (cases "sz = 0")
  case True
  then have "s' = s" "src' = src"
    using ap by (auto simp: append_entry_content_def check_state_file_opened_def
        split: prod.splits sum.splits archive_writer_state.splits if_splits)
  with True I r show ?thesis by simp
next
  case False
  from append_cases [OF ap False] obtain ids hashes hash s1 d r' where
    c: "aw_state s = OpenedFiles ids hashes" "i \<in> set ids"
    "map_of hashes i = Some hash" "record_offset_and_size_in_index i sz s = (Inr (), s1)"
    "block_dump (hash_read rd) (position_write wr)
       (EntryContent sz (Some \<lparr>hr_inner = src, hr_hash = hash\<rparr>) i, aw_dest s1) =
       (Inr u, (EntryContent sz (Some r') i, d))"
    "src' = hr_inner r'" "s' = put_hash i (hr_hash r') (put_dest d s1)"
    by metis
  let ?bytes = "take sz (drop (pos src) (view src))"
  let ?b = "BContent i ?bytes"
  have inv: "position_winv out winv (length base) (aw_dest s)"
    "out (pw_inner (aw_dest s)) = base @ entries_layer bs" "stream sha256 bs" "\<forall>b\<in>set bs. wf_block b"
    "state_inv bs (aw_state s)" "maps_inv bs s"
    using I by (auto simp: writer_inv_def)
  have op: "i \<in> open_ids bs" "hash = contents i bs"
    using inv(5) c(1,2,3) by (auto simp: state_inv_def split: if_splits)
  have lb: "length (block_payload ?b) = sz" using len by simp
  have "maps_inv (bs @ [?b]) s1 \<and> aw_dest s1 = aw_dest s \<and> aw_state s1 = aw_state s"
    by (rule record_maps_inv)
      (use c(4) lb inv(6) open_ids_bound(1) [OF inv(6) op(1)] writer_inv_position [OF I] in simp_all)
  then have m: "maps_inv (bs @ [?b]) s1" "aw_dest s1 = aw_dest s" "aw_state s1 = aw_state s" by auto
  let ?hr = "\<lparr>hr_inner = src, hr_hash = hash\<rparr>"
  note cp = hash_copier [OF so sk, of hash "pos src" "length base"]
  have hi: "hash_inv view pos rinv hash (pos src) ?hr" using r by (simp add: hash_inv_def)
  have rest: "source.rest (\<lambda>s. view (hr_inner s)) (\<lambda>s. pos (hr_inner s)) ?hr = drop (pos src) (view src)"
    using source.rest_def [OF hash_source [OF so]] by fastforce
  have d: "position_winv out winv (length base) d" "out (pw_inner d) = base @ entries_layer (bs @ [?b])"
    using copier.block_dump_out [OF cp _ _ _ c(5), of ?b] inv(1,2) m(2) hi len rest
    by (auto simp: entries_layer_snoc)
  have r': "hash_inv view pos rinv hash (pos src) r'" "view (hr_inner r') = view src"
    "pos (hr_inner r') = pos src + sz"
    using copier.block_dump_reader [OF cp _ hi _ c(5)] inv(1) m(2) len rest by auto
  have hash': "hr_hash r' = contents i (bs @ [?b])"
    using r' op(2) by (simp add: hash_inv_def)
  have str: "stream sha256 (bs @ [?b])"
    using inv(3) op(1) False len by (auto intro!: stream.intros)
  have sz: "sz < 2 ^ 64"
  proof -
    have "sz \<le> length (enc_blocks (bs @ [?b]))" using len by (simp add: enc_block_def)
    also have "\<dots> \<le> pw_pos d"
      using d by (simp add: position_winv_def length_entries_layer)
    also have "\<dots> < 2 ^ 64" using d(1) by (simp add: position_winv_def)
    finally show ?thesis .
  qed
  have oi: "open_ids (bs @ [?b]) = open_ids bs" by (simp add: open_ids_def)
  have si: "state_inv (bs @ [?b]) (aw_state s')"
    using inv(5) op(1) hash' by (auto simp: c(1,7) m(3) put_hash_def state_inv_def oi update_conv')
  have s': "aw_dest s' = d" "maps_inv (bs @ [?b]) s'"
    using m(1,3) by (auto simp: c(1,7) put_hash_def maps_inv_def)
  show ?thesis
    using False d str inv(4) open_ids_bound(2) [OF inv(6) op(1)] sz si s' r' c(6) len
    by (auto simp: writer_inv_def hash_inv_def)
qed

lemma end_entry_cases:
  assumes "end_entry sha256 wr i s = (Inr u, s')"
  obtains ids hashes hash s1 d where "aw_state s = OpenedFiles ids hashes" "i \<in> set ids"
    "map_of hashes i = Some hash"
    "record_offset_and_size_in_index i 0
       (s\<lparr>aw_state := OpenedFiles (vec_remove_item ids i) (AList.delete i hashes)\<rparr>) = (Inr (), s1)"
    "dump_end (position_write wr) i (sha256 hash) (aw_dest s1) = (Inr u, d)" "s' = put_dest d s1"
  using assms
  by (auto simp: end_entry_def check_state_file_opened_def on_field_dest elim!: bindE_InrE
      split: archive_writer_state.splits if_splits option.splits)

lemma end_entry_inv:
  assumes sk: "sink wr out winv" and I: "writer_inv out winv sha256 base bs s"
    and h32: "\<And>x. length (sha256 x) = 32"
    and e: "end_entry sha256 wr i s = (Inr u, s')"
  shows "writer_inv out winv sha256 base (bs @ [BEnd i (sha256 (contents i bs))]) s'"
proof -
  from end_entry_cases [OF e] obtain ids hashes hash s1 d where
    c: "aw_state s = OpenedFiles ids hashes" "i \<in> set ids" "map_of hashes i = Some hash"
    "record_offset_and_size_in_index i 0
       (s\<lparr>aw_state := OpenedFiles (vec_remove_item ids i) (AList.delete i hashes)\<rparr>) = (Inr (), s1)"
    "dump_end (position_write wr) i (sha256 hash) (aw_dest s1) = (Inr u, d)" "s' = put_dest d s1"
    by metis
  have inv: "position_winv out winv (length base) (aw_dest s)"
    "out (pw_inner (aw_dest s)) = base @ entries_layer bs" "stream sha256 bs" "\<forall>b\<in>set bs. wf_block b"
    "state_inv bs (aw_state s)" "maps_inv bs s"
    using I by (auto simp: writer_inv_def)
  have op: "i \<in> open_ids bs" "hash = contents i bs"
    using inv(5) c(1,2,3) by (auto simp: state_inv_def split: if_splits)
  let ?b = "BEnd i (sha256 (contents i bs))"
  let ?s0 = "s\<lparr>aw_state := OpenedFiles (vec_remove_item ids i) (AList.delete i hashes)\<rparr>"
  have lb: "length (block_payload ?b) = 0" by simp
  have "maps_inv (bs @ [?b]) s1 \<and> aw_dest s1 = aw_dest ?s0 \<and> aw_state s1 = aw_state ?s0"
    by (rule record_maps_inv)
      (use c(4) lb inv(6) open_ids_bound(1) [OF inv(6) op(1)] in
        \<open>simp_all add: maps_inv_def writer_inv_position [OF I]\<close>)
  then have m: "maps_inv (bs @ [?b]) s1" "aw_dest s1 = aw_dest s"
    "aw_state s1 = OpenedFiles (vec_remove_item ids i) (AList.delete i hashes)" by auto
  have d: "position_winv out winv (length base) d" "out (pw_inner d) = base @ entries_layer (bs @ [?b])"
    using sink.printsD [OF position_sink [OF sk] sink.prints_dump_end [OF position_sink [OF sk]] inv(1)
        c(5) [unfolded m(2)]] by (auto simp: inv(2) entries_layer_snoc op(2))
  have str: "stream sha256 (bs @ [?b])"
    using inv(3) op(1) by (auto intro!: stream.intros)
  have oi: "open_ids (bs @ [?b]) = open_ids bs - {i}" by (auto simp: open_ids_def)
  have si: "state_inv (bs @ [?b]) (aw_state s')"
    using inv(5) by (auto simp: c(1,6) m(3) state_inv_def oi delete_conv' set_vec_remove_item
        distinct_vec_remove_item)
  have "maps_inv (bs @ [?b]) s'" using m(1) by (simp add: c(6) maps_inv_def)
  then show ?thesis
    using d str inv(4) si h32 open_ids_bound(2) [OF inv(6) op(1)] by (auto simp: writer_inv_def c(6))
qed

lemma archive_writer_init_inv:
  assumes sk: "sink wr out winv" and w: "winv w0" and i: "archive_writer_init wr w0 = Inr s"
  shows "writer_inv out winv sha256 (out w0) [] s"
proof -
  let ?m = "bindE (lift_io (write_all (position_write wr) ENTRIES_LAYER_MAGIC))
    (\<lambda>_. opts_dump (position_write wr))"
  have "sink.prints (\<lambda>s. out (pw_inner s)) (position_winv out winv (length (out w0))) ?m
      (ENTRIES_LAYER_MAGIC @ EMPTY_OPTS_SERIALIZATION) 1"
    by (rule sink.prints_bindE [OF position_sink [OF sk]], rule sink.prints_lift_io [OF position_sink [OF sk]],
        rule sink.prints_write_all [OF position_sink [OF sk]], rule sink.prints_opts [OF position_sink [OF sk]])
  note p = sink.printsD [OF position_sink [OF sk] this]
  from i obtain n where m: "?m \<lparr>pw_inner = w0, pw_pos = 0\<rparr> = (Inr n, aw_dest s)"
    and s: "aw_state s = OpenedFiles [] []" "aw_entries_info s = []" "aw_ids_info s = []" "aw_next_id s = 0"
    by (auto simp: archive_writer_init_def bindE_Inr [OF reset_position_def] position_writer_new_def
        split: prod.splits sum.splits)
  have "position_winv out winv (length (out w0)) \<lparr>pw_inner = w0, pw_pos = 0\<rparr>"
    using w by (simp add: position_winv_def)
  from p [OF this m] s show ?thesis
    by (auto simp: writer_inv_def entries_layer_def state_inv_def maps_inv_def open_ids_def
        intro: stream.intros)
qed

text \<open>What the writer appends once every entry is ended.\<close>

definition stream_footer :: "block list \<Rightarrow> (entry_name \<times> entry_info) list" where
  "stream_footer bs = map (\<lambda>(name, i). (name, stream_index bs i)) (starts bs)"

definition complete_layer :: "block list \<Rightarrow> bytes" where
  "complete_layer bs = entries_layer bs @ enc_block BEndOfData @
     enc_footer (sort_key fst (stream_footer bs)) @ EMPTY_TAIL_OPTS_SERIALIZATION"

lemma maps_inv_combine:
  assumes "maps_inv bs s"
  shows "footer_combine (aw_entries_info s) (aw_ids_info s) = Inr (stream_footer bs)"
proof -
  have b: "map_of (aw_ids_info s) i = Some (stream_index bs i)" if "(name, i) \<in> set (starts bs)" for name i
  proof -
    have "i \<in> set (map snd (starts bs))" using that by force
    then have "i < aw_next_id s" using assms by (simp add: maps_inv_def del: set_map)
    then show ?thesis using assms by (auto simp: maps_inv_def)
  qed
  have "footer_combine (starts bs) (aw_ids_info s) =
      Inr (map (\<lambda>(k, i). (k, the (map_of (aw_ids_info s) i))) (starts bs))"
    by (rule footer_combine_total) (simp only: b option.distinct not_False_eq_True)
  also have "map (\<lambda>(k, i). (k, the (map_of (aw_ids_info s) i))) (starts bs) = stream_footer bs"
    unfolding stream_footer_def by (rule map_cong [OF refl]) (clarify, simp only: b option.sel)
  finally show ?thesis using assms by (simp add: maps_inv_def)
qed

lemma finalize_entries_cases:
  assumes "finalize_entries wr s = (Inr u, s')"
  obtains d where "aw_state s = OpenedFiles [] []"
    "finalize_dest (position_write wr) (aw_entries_info s) (aw_ids_info s) (aw_dest s) = (Inr u, d)"
    "s' = put_dest d (s\<lparr>aw_state := Finalized\<rparr>)"
  using assms
  by (auto simp: finalize_entries_def finalize_state_def check_state_opened_def on_field_dest
      elim!: bindE_InrE split: archive_writer_state.splits if_splits)

context sink
begin

lemma prints_finalize_dest:
  assumes "footer_combine es ids = Inr (stream_footer bs)"
  shows "prints (finalize_dest wr es ids) (enc_block BEndOfData @
     enc_footer (sort_key fst (stream_footer bs)) @ EMPTY_TAIL_OPTS_SERIALIZATION) ()"
proof -
  have "prints (finalize_dest wr es ids) (enc_block BEndOfData @ [1] @
     (enc_index (sort_key fst (stream_footer bs)) @
        to_le 8 (1 + length (enc_index (sort_key fst (stream_footer bs))))) @
     EMPTY_TAIL_OPTS_SERIALIZATION) ()"
    unfolding finalize_dest_def
    by (rule prints_bindE, rule prints_dump_end_of_archive_data, rule prints_bindE,
        rule prints_lift_io, rule prints_write_all, rule prints_bindE, rule prints_footer [OF assms],
        rule prints_lift_io, rule prints_write_all)
  then show ?thesis by (simp add: enc_footer_def)
qed

end

lemma finalize_entries_out:
  assumes sk: "sink wr out winv" and I: "writer_inv out winv sha256 base bs s"
    and f: "finalize_entries wr s = (Inr u, s')"
  shows "open_ids bs = {} \<and> winv (pw_inner (aw_dest s')) \<and>
    out (pw_inner (aw_dest s')) = base @ complete_layer bs \<and> aw_state s' = Finalized"
proof -
  from f obtain d where c: "aw_state s = OpenedFiles [] []"
    "finalize_dest (position_write wr) (aw_entries_info s) (aw_ids_info s) (aw_dest s) = (Inr u, d)"
    "s' = put_dest d (s\<lparr>aw_state := Finalized\<rparr>)"
    by (rule finalize_entries_cases)
  have inv: "position_winv out winv (length base) (aw_dest s)"
    "out (pw_inner (aw_dest s)) = base @ entries_layer bs" "state_inv bs (aw_state s)" "maps_inv bs s"
    using I by (auto simp: writer_inv_def)
  note ps = position_sink [OF sk]
  from sink.printsD [OF ps sink.prints_finalize_dest [OF ps maps_inv_combine [OF inv(4)]] inv(1) c(2)]
  show ?thesis
    using inv(2,3) by (auto simp: c(1,3) complete_layer_def position_winv_def state_inv_def)
qed

section \<open>With room, the calls succeed\<close>

abbreviation writer_room :: "('w \<Rightarrow> nat) \<Rightarrow> 'w archive_writer \<Rightarrow> nat" where
  "writer_room room s \<equiv> position_room room (aw_dest s)"

lemma room_sink_sink: "room_sink wr out winv room \<Longrightarrow> sink wr out winv"
  by (simp add: room_sink_def)

lemma archive_writer_init_room:
  assumes rs: "room_sink wr out winv room" and w: "winv w0" and r: "9 \<le> room w0"
  shows "\<exists>s. archive_writer_init wr w0 = Inr s \<and> min (room w0) (2 ^ 64 - 1) \<le> writer_room room s + 9"
proof -
  note ps = position_room_sink [OF rs, of "length (out w0)"]
  let ?m = "bindE (lift_io (write_all (position_write wr) ENTRIES_LAYER_MAGIC))
    (\<lambda>_. opts_dump (position_write wr))"
  have m: "room_sink.runs (\<lambda>s. out (pw_inner s)) (position_winv out winv (length (out w0)))
      (position_room room) ?m (ENTRIES_LAYER_MAGIC @ EMPTY_OPTS_SERIALIZATION) 1"
    by (rule room_sink.runs_bindE [OF ps], rule room_sink.runs_lift_io [OF ps],
        rule room_sink.runs_write_all [OF ps], rule room_sink.runs_opts [OF ps])
  let ?w = "\<lparr>pw_inner = w0, pw_pos = 0\<rparr>"
  have "position_winv out winv (length (out w0)) ?w"
    using w by (simp add: position_winv_def)
  moreover have "length (ENTRIES_LAYER_MAGIC @ EMPTY_OPTS_SERIALIZATION) \<le> position_room room ?w"
    using r by (simp add: position_room_def)
  ultimately obtain d where "?m ?w = (Inr 1, d)" "position_room room ?w \<le> position_room room d + 9"
    by (rule room_sink.runsE [OF ps m]) simp
  then show ?thesis
    by (simp add: archive_writer_init_def bindE_Inr [OF reset_position_def] position_writer_new_def
        position_room_def)
qed

lemma start_entry_room:
  assumes rs: "room_sink wr out winv room" and I: "writer_inv out winv sha256 base bs s"
    and wf: "wf_name name" and new: "name \<notin> set (map fst (starts bs))"
    and n: "aw_next_id s + 1 < 2 ^ 64"
    and r: "length (enc_block (BStart name (aw_next_id s))) \<le> writer_room room s"
  shows "\<exists>s'. start_entry wr name s = (Inr (aw_next_id s), s') \<and>
    writer_room room s \<le> writer_room room s' + length (enc_block (BStart name (aw_next_id s)))"
proof -
  note ps = position_room_sink [OF rs, of "length base"]
  have inv: "position_winv out winv (length base) (aw_dest s)" "state_inv bs (aw_state s)" "maps_inv bs s"
    using I by (auto simp: writer_inv_def)
  from room_sink.runsE [OF ps room_sink.runs_dump_start [OF ps wf] inv(1) r] obtain d where
    d: "dump_start (position_write wr) name (aw_next_id s) (aw_dest s) = (Inr (), d)"
    "writer_room room s \<le> position_room room d + length (enc_block (BStart name (aw_next_id s)))"
    by blast
  from inv(2) obtain ids hashes where st: "aw_state s = OpenedFiles ids hashes" by (rule state_invE)
  have m: "map_of (aw_entries_info s) name = None"
    using new inv(3) by (simp add: maps_inv_def map_of_eq_None_iff)
  show ?thesis
    using d st m n
    by (simp add: start_entry_def check_state_opened_eq [OF st] checked_add_def Let_def
        bindE_def on_field_def)
qed

lemma append_entry_content_room:
  assumes so: "source rd view pos rinv" and rs: "room_sink wr out winv room"
    and I: "writer_inv out winv sha256 base bs s" and i: "i \<in> open_ids bs" and src: "rinv src"
    and len: "sz \<le> length (drop (pos src) (view src))"
    and r: "length (enc_block (BContent i (take sz (drop (pos src) (view src))))) \<le> writer_room room s"
  shows "\<exists>src' s'. append_entry_content rd wr i sz (src, s) = (Inr (), (src', s')) \<and>
    writer_room room s \<le> writer_room room s' +
      length (enc_block (BContent i (take sz (drop (pos src) (view src)))))"
proof -
  let ?b = "BContent i (take sz (drop (pos src) (view src)))"
  have inv: "position_winv out winv (length base) (aw_dest s)" "state_inv bs (aw_state s)" "maps_inv bs s"
    using I by (auto simp: writer_inv_def)
  from inv(2) obtain ids hashes where st: "aw_state s = OpenedFiles ids hashes"
    "set ids = open_ids bs" "map_of hashes i = Some (contents i bs)"
    by (rule state_invE) (simp add: i)
  have ck: "check_state_file_opened i s = (Inr (), s)"
    using st i by (simp add: check_state_file_opened_def)
  show ?thesis
  proof (cases "sz = 0")
    case True
    then show ?thesis using ck by (simp add: append_entry_content_def)
  next
    case False
    have "map_of (aw_ids_info s) i = Some (stream_index bs i)"
      using inv(3) open_ids_bound(1) [OF inv(3) i] by (auto simp: maps_inv_def)
    then obtain s1 where s1: "record_offset_and_size_in_index i sz s = (Inr (), s1)"
      "aw_dest s1 = aw_dest s" "aw_state s1 = aw_state s"
      by (simp add: record_offset_and_size_in_index_def Let_def)
    let ?hr = "\<lparr>hr_inner = src, hr_hash = contents i bs\<rparr>"
    have w: "bindE (record_offset_and_size_in_index i sz) (\<lambda>_. wrap_with_hash i src) s = (Inr ?hr, s1)"
      using st s1 by (simp add: bindE_def s1(1) wrap_with_hash_def)
    have hi: "hash_inv view pos rinv (contents i bs) (pos src) ?hr" using src by (simp add: hash_inv_def)
    have rest: "source.rest (\<lambda>s. view (hr_inner s)) (\<lambda>s. pos (hr_inner s)) ?hr = drop (pos src) (view src)"
      using source.rest_def [OF hash_source [OF so]] by fastforce
    have rc: "room_copier (hash_read rd) (\<lambda>s. view (hr_inner s)) (\<lambda>s. pos (hr_inner s))
      (hash_inv view pos rinv (contents i bs) (pos src)) (position_write wr) (\<lambda>s. out (pw_inner s))
      (position_winv out winv (length base)) (position_room room)"
      by (rule room_copier.intro) (rule hash_source [OF so], rule position_room_sink [OF rs])
    have "sz < 2 ^ 64"
      using r len False by (auto simp: enc_block_def position_room_def)
    then have wfb: "wf_block ?b" using open_ids_bound(2) [OF inv(3) i] by simp
    from room_copier.block_dump_room [OF rc inv(1) [folded s1(2)], of "EntryContent sz (Some ?hr) i" ?b]
    obtain blk d where d: "block_dump (hash_read rd) (position_write wr)
        (EntryContent sz (Some ?hr) i, aw_dest s1) = (Inr (), (blk, d))"
      "writer_room room s \<le> position_room room d + length (enc_block ?b)"
      using hi rest len wfb r s1(2) by auto
    then obtain r' where "blk = EntryContent sz (Some r') i"
      by (auto simp: block_dump_def split: prod.splits sum.splits)
    then show ?thesis
      using ck False w d
      by (simp add: append_entry_content_def put_hash_def split: archive_writer_state.split)
  qed
qed

lemma end_entry_room:
  assumes rs: "room_sink wr out winv room"
    and I: "writer_inv out winv sha256 base bs s" and i: "i \<in> open_ids bs"
    and r: "length (enc_block (BEnd i (sha256 (contents i bs)))) \<le> writer_room room s"
  shows "\<exists>s'. end_entry sha256 wr i s = (Inr (), s') \<and>
    writer_room room s \<le> writer_room room s' + length (enc_block (BEnd i (sha256 (contents i bs))))"
proof -
  note ps = position_room_sink [OF rs, of "length base"]
  have inv: "position_winv out winv (length base) (aw_dest s)" "state_inv bs (aw_state s)" "maps_inv bs s"
    using I by (auto simp: writer_inv_def)
  from inv(2) obtain ids hashes where st: "aw_state s = OpenedFiles ids hashes"
    "set ids = open_ids bs" "map_of hashes i = Some (contents i bs)"
    by (rule state_invE) (simp add: i)
  have ck: "check_state_file_opened i s = (Inr (), s)"
    using st i by (simp add: check_state_file_opened_def)
  have m: "map_of (aw_ids_info s) i = Some (stream_index bs i)"
    using inv(3) open_ids_bound(1) [OF inv(3) i] by (auto simp: maps_inv_def)
  from room_sink.runsE [OF ps room_sink.runs_dump_end [OF ps] inv(1) r] obtain d where
    d: "dump_end (position_write wr) i (sha256 (contents i bs)) (aw_dest s) = (Inr (), d)"
    "writer_room room s \<le> position_room room d + length (enc_block (BEnd i (sha256 (contents i bs))))"
    by blast
  show ?thesis
    using st m d
    by (simp add: end_entry_def ck bindE_def record_offset_and_size_in_index_def Let_def
        on_field_def)
qed

section \<open>Sessions\<close>

text \<open>The states a client reaches by calls that succeed, in any order and any interleaving, with
  content readers that hold at least the announced size.\<close>

inductive writer_session ::
  "(bytes \<Rightarrow> bytes) \<Rightarrow> (nat \<Rightarrow> ('u, io_error, bytes) op) \<Rightarrow> ('u \<Rightarrow> bytes) \<Rightarrow> ('u \<Rightarrow> nat) \<Rightarrow> ('u \<Rightarrow> bool) \<Rightarrow>
   (bytes \<Rightarrow> ('w, io_error, nat) op) \<Rightarrow> 'w \<Rightarrow> 'w archive_writer \<Rightarrow> bool"
  for sha256 rd view pos rinv wr w0 where
  session_init: "archive_writer_init wr w0 = Inr s \<Longrightarrow>
    writer_session sha256 rd view pos rinv wr w0 s"
| session_start: "writer_session sha256 rd view pos rinv wr w0 s \<Longrightarrow> wf_name name \<Longrightarrow>
    start_entry wr name s = (Inr i, s') \<Longrightarrow> writer_session sha256 rd view pos rinv wr w0 s'"
| session_append: "writer_session sha256 rd view pos rinv wr w0 s \<Longrightarrow> rinv src \<Longrightarrow>
    sz \<le> length (drop (pos src) (view src)) \<Longrightarrow>
    append_entry_content rd wr i sz (src, s) = (Inr u, (src', s')) \<Longrightarrow>
    writer_session sha256 rd view pos rinv wr w0 s'"
| session_end: "writer_session sha256 rd view pos rinv wr w0 s \<Longrightarrow>
    end_entry sha256 wr i s = (Inr u, s') \<Longrightarrow> writer_session sha256 rd view pos rinv wr w0 s'"

lemma writer_session_inv:
  assumes "writer_session sha256 rd view pos rinv wr w0 s" and "source rd view pos rinv"
    and "sink wr out winv" and "winv w0" and "\<And>x. length (sha256 x) = 32"
  shows "\<exists>bs. writer_inv out winv sha256 (out w0) bs s"
  using assms(1)
proof (induction rule: writer_session.induct)
  case (session_init s)
  then show ?case using archive_writer_init_inv [OF assms(3,4)] by blast
next
  case (session_start s name i s')
  then show ?case using start_entry_inv [OF assms(3)] by blast
next
  case (session_append s src sz i u src' s')
  then show ?case using append_entry_content_inv [OF assms(2,3)] by blast
next
  case (session_end s i u s')
  then obtain bs where "writer_inv out winv sha256 (out w0) bs s" by blast
  from end_entry_inv [OF assms(3) this assms(5) session_end.hyps(2)] show ?case by blast
qed

lemma add_entry_inv:
  assumes so: "source rd view pos rinv" and sk: "sink wr out winv"
    and I: "writer_inv out winv sha256 base bs s" and wf: "wf_name name"
    and h32: "\<And>x. length (sha256 x) = 32" and r: "rinv src"
    and len: "sz \<le> length (drop (pos src) (view src))"
    and ad: "add_entry sha256 rd wr name sz (src, s) = (Inr u, (src', s'))"
  shows "let i = length (starts bs); d = take sz (drop (pos src) (view src)) in
    writer_inv out winv sha256 base
      (bs @ BStart name i # (if sz = 0 then [] else [BContent i d]) @ [BEnd i (sha256 d)]) s'"
proof -
  from ad obtain i s1 src2 s2 where c: "start_entry wr name s = (Inr i, s1)"
    "append_entry_content rd wr i sz (src, s1) = (Inr (), (src2, s2))"
    "end_entry sha256 wr i s2 = (Inr u, s')"
    by (auto simp: add_entry_def on_field_def elim!: bindE_InrE split: prod.splits)
  let ?d = "take sz (drop (pos src) (view src))"
  let ?bs1 = "bs @ [BStart name i]"
  let ?bs2 = "if sz = 0 then ?bs1 else ?bs1 @ [BContent i ?d]"
  from start_entry_inv [OF sk I wf c(1)] have i: "i = length (starts bs)"
    and I1: "writer_inv out winv sha256 base ?bs1 s1" by auto
  from append_entry_content_inv [OF so sk I1 r len c(2)]
  have I2: "writer_inv out winv sha256 base ?bs2 s2" by simp
  from end_entry_inv [OF sk I2 h32 c(3)]
  have I3: "writer_inv out winv sha256 base (?bs2 @ [BEnd i (sha256 (contents i ?bs2))]) s'" .
  have st: "stream sha256 bs" using I by (simp add: writer_inv_def)
  have "i \<notin> set (map snd (starts bs))"
    using writer_inv_fresh [OF I] i by simp
  then have "contents i bs = []" by (rule contents_not_started [OF st])
  then have "contents i ?bs2 = ?d" by simp
  then show ?thesis using I3 i by (simp add: Let_def split: if_splits)
qed

lemma add_entry_room:
  assumes so: "source rd view pos rinv" and rs: "room_sink wr out winv room"
    and I: "writer_inv out winv sha256 base bs s" and wf: "wf_name name"
    and new: "name \<notin> set (map fst (starts bs))" and n: "length (starts bs) + 1 < 2 ^ 64"
    and h32: "\<And>x. length (sha256 x) = 32" and r: "rinv src"
    and len: "sz \<le> length (drop (pos src) (view src))"
    and blks: "blks = BStart name (length (starts bs)) #
      (if sz = 0 then [] else [BContent (length (starts bs)) (take sz (drop (pos src) (view src)))]) @
      [BEnd (length (starts bs)) (sha256 (take sz (drop (pos src) (view src))))]"
    and room: "length (enc_blocks blks) + 30 \<le> writer_room room s"
  shows "\<exists>src' s'. add_entry sha256 rd wr name sz (src, s) = (Inr (), (src', s')) \<and>
    writer_inv out winv sha256 base (bs @ blks) s' \<and>
    writer_room room s \<le> writer_room room s' + (length (enc_blocks blks) + 30)"
proof -
  note sk = room_sink_sink [OF rs]
  let ?i = "length (starts bs)" and ?d = "take sz (drop (pos src) (view src))"
  let ?bs1 = "bs @ [BStart name ?i]"
  let ?bs2 = "if sz = 0 then ?bs1 else ?bs1 @ [BContent ?i ?d]"
  have i: "aw_next_id s = ?i" by (rule writer_inv_fresh(2) [OF I])
  have ni: "?i \<notin> set (map snd (starts bs))" using writer_inv_fresh(1) [OF I] i by simp
  have st: "stream sha256 bs" using I by (simp add: writer_inv_def)
  obtain s1 where s1: "start_entry wr name s = (Inr ?i, s1)"
    "writer_room room s \<le> writer_room room s1 + length (enc_block (BStart name ?i))"
    using start_entry_room [OF rs I wf new] n room blks i by auto
  have I1: "writer_inv out winv sha256 base ?bs1 s1"
    using start_entry_inv [OF sk I wf s1(1)] by simp
  have op: "?i \<in> open_ids ?bs1"
    using stream_distinct [OF st] ni by (auto simp: open_ids_def)
  have zero: "length (enc_block (BContent ?i [])) \<le> 30"
    by (simp add: enc_block_def)
  have "length (enc_block (BContent ?i ?d)) \<le> writer_room room s1"
    using s1(2) room blks zero by (cases "sz = 0") auto
  from append_entry_content_room [OF so rs I1 op r len this] obtain src2 s2 where
    s2: "append_entry_content rd wr ?i sz (src, s1) = (Inr (), (src2, s2))"
    "writer_room room s1 \<le> writer_room room s2 + length (enc_block (BContent ?i ?d))"
    by blast
  have I2: "writer_inv out winv sha256 base ?bs2 s2"
    using append_entry_content_inv [OF so sk I1 r len s2(1)] by simp
  have c2: "contents ?i ?bs2 = ?d"
    using contents_not_started [OF st ni] by simp
  have op2: "?i \<in> open_ids ?bs2" using op by (simp add: open_ids_def)
  have "length (enc_block (BEnd ?i (sha256 (contents ?i ?bs2)))) \<le> writer_room room s2"
    using s1(2) s2(2) room blks zero contents_not_started [OF st ni] by (cases "sz = 0") auto
  from end_entry_room [where ?sha256.0 = sha256, OF rs I2 op2 this] obtain s3 where
    s3: "end_entry sha256 wr ?i s2 = (Inr (), s3)"
    "writer_room room s2 \<le> writer_room room s3 + length (enc_block (BEnd ?i (sha256 ?d)))"
    unfolding c2 by blast
  have "writer_inv out winv sha256 base (bs @ blks) s3"
    using end_entry_inv [OF sk I2 h32 s3(1)] blks c2 by (auto split: if_splits)
  moreover have "add_entry sha256 rd wr name sz (src, s) = (Inr (), (src2, s3))"
    using s1(1) s2(1) s3(1) by (simp add: add_entry_def on_field_def bindE_def)
  moreover have "writer_room room s \<le> writer_room room s3 + (length (enc_blocks blks) + 30)"
    using s1(2) s2(2) s3(2) zero blks by (cases "sz = 0") auto
  ultimately show ?thesis by blast
qed

lemma finalize_entries_room:
  assumes rs: "room_sink wr out winv room" and I: "writer_inv out winv sha256 base bs s"
    and op: "open_ids bs = {}" and w: "wf_index (stream_footer bs)"
    and r: "length (enc_block BEndOfData @ enc_footer (sort_key fst (stream_footer bs)) @
      EMPTY_TAIL_OPTS_SERIALIZATION) \<le> writer_room room s"
    and l: "length (enc_index (sort_key fst (stream_footer bs))) < 2 ^ 63"
  shows "\<exists>s'. finalize_entries wr s = (Inr (), s') \<and>
    writer_room room s \<le> writer_room room s' + length (enc_block BEndOfData @
      enc_footer (sort_key fst (stream_footer bs)) @ EMPTY_TAIL_OPTS_SERIALIZATION)"
proof -
  note ps = position_room_sink [OF rs, of "length base"]
  have inv: "position_winv out winv (length base) (aw_dest s)" "state_inv bs (aw_state s)" "maps_inv bs s"
    using I by (auto simp: writer_inv_def)
  from inv(2) obtain ids hashes where st: "aw_state s = OpenedFiles ids hashes" "set ids = open_ids bs"
    "\<And>i. map_of hashes i = (if i \<in> open_ids bs then Some (contents i bs) else None)"
    by (rule state_invE) blast
  have "ids = []" using st(2) op by simp
  have "map_of hashes = Map.empty" by (rule ext) (simp add: st(3) op)
  then have "hashes = []" by (simp add: map_of_eq_empty_iff)
  let ?ft = "sort_key fst (stream_footer bs)"
  have "room_sink.runs (\<lambda>s. out (pw_inner s)) (position_winv out winv (length base)) (position_room room)
      (finalize_dest (position_write wr) (aw_entries_info s) (aw_ids_info s))
      (enc_block BEndOfData @ [1] @ (enc_index ?ft @ to_le 8 (1 + length (enc_index ?ft))) @
        EMPTY_TAIL_OPTS_SERIALIZATION) ()"
    unfolding finalize_dest_def
    by (rule room_sink.runs_bindE [OF ps], rule room_sink.runs_dump_end_of_archive_data [OF ps],
        rule room_sink.runs_bindE [OF ps], rule room_sink.runs_lift_io [OF ps],
        rule room_sink.runs_write_all [OF ps], rule room_sink.runs_bindE [OF ps],
        rule room_sink.runs_footer [OF ps maps_inv_combine [OF inv(3)] w l],
        rule room_sink.runs_lift_io [OF ps], rule room_sink.runs_write_all [OF ps])
  note runs = this
  have fits: "length (enc_block BEndOfData @ [1] @ (enc_index ?ft @ to_le 8 (1 + length (enc_index ?ft))) @
        EMPTY_TAIL_OPTS_SERIALIZATION) \<le> writer_room room s"
    using r by (simp add: enc_footer_def)
  obtain d where
    "finalize_dest (position_write wr) (aw_entries_info s) (aw_ids_info s) (aw_dest s) = (Inr (), d)"
    "writer_room room s \<le> position_room room d + length (enc_block BEndOfData @ enc_footer ?ft @
      EMPTY_TAIL_OPTS_SERIALIZATION)"
    by (rule room_sink.runsE [OF ps runs inv(1) fits]) (simp add: enc_footer_def)
  then show ?thesis
    using st(1) \<open>ids = []\<close> \<open>hashes = []\<close>
    by (simp add: finalize_entries_def check_state_opened_eq [OF st(1)] bindE_def finalize_state_def
        on_field_def)
qed

section \<open>Properties\<close>

text \<open>C6: refinement. After any sequence of successful calls, whatever the interleaving of entries, in which
  each source of content holds at least the announced size (a call with a shorter source succeeds too, but leaves
  a block whose length field is wrong: \<^verbatim>\<open>mla/src/format.rs\<close> does not compare the two), the writer's output is the layer header followed by the encoding of a well-formed stream of
  blocks; its name map is the stream's entries and its index gives, for every entry, the offset and
  size of each of its blocks. If it can be finalized, every entry was ended and the output is
  completed with the end of data, the sorted footer of that index and the options.\<close>

theorem writer_refines_stream:
  assumes "source rd view pos rinv" and "sink wr out winv" and "winv w0"
    and "\<And>x. length (sha256 x) = 32" and "writer_session sha256 rd view pos rinv wr w0 s"
  shows "\<exists>bs. stream sha256 bs \<and> out (pw_inner (aw_dest s)) = out w0 @ entries_layer bs \<and>
    aw_entries_info s = starts bs \<and>
    (\<forall>name i. (name, i) \<in> set (starts bs) \<longrightarrow> map_of (aw_ids_info s) i = Some (stream_index bs i)) \<and>
    (\<forall>u s'. finalize_entries wr s = (Inr u, s') \<longrightarrow>
       open_ids bs = {} \<and> out (pw_inner (aw_dest s')) = out w0 @ complete_layer bs)"
proof -
  from writer_session_inv [OF assms(5,1,2,3,4)] obtain bs where
    I: "writer_inv out winv sha256 (out w0) bs s" by blast
  then have m: "maps_inv bs s" by (simp add: writer_inv_def)
  have "map_of (aw_ids_info s) i = Some (stream_index bs i)" if "(name, i) \<in> set (starts bs)" for name i
  proof -
    have "i \<in> set (map snd (starts bs))" using that by force
    then show ?thesis using m by (auto simp: maps_inv_def simp del: set_map)
  qed
  then show ?thesis
    using I m finalize_entries_out [OF assms(2) I]
    by (intro exI [of _ bs]) (auto simp: writer_inv_def maps_inv_def)
qed

text \<open>Two entries whose blocks interleave.\<close>

theorem writer_refines_stream_witness:
  "\<exists>s bs. aw_next_id s = 2 \<and> stream (\<lambda>_. replicate 32 0) bs \<and>
    pw_inner (aw_dest s) = [7] @ entries_layer bs \<and> aw_entries_info s = starts bs \<and>
    (\<forall>name i. (name, i) \<in> set (starts bs) \<longrightarrow> map_of (aw_ids_info s) i = Some (stream_index bs i)) \<and>
    (\<forall>u s'. finalize_entries vec_write s = (Inr u, s') \<longrightarrow>
       open_ids bs = {} \<and> pw_inner (aw_dest s') = [7] @ complete_layer bs)"
proof -
  let ?sha = "\<lambda>_. replicate 32 (0 :: u8)"
  let ?sess = "writer_session ?sha cursor_read cur_data cur_pos cursor_inv vec_write [7]"
  have h32: "\<And>x. length (?sha x) = 32" by simp
  obtain s0 where s0: "archive_writer_init vec_write [7] = Inr s0"
    "min (vec_room [7]) (2 ^ 64 - 1) \<le> writer_room vec_room s0 + 9"
    using archive_writer_init_room [OF vec.room_sink_axioms, of "[7]"] by (auto simp: vec_room_def)
  note I0 = archive_writer_init_inv [OF vec.sink_axioms TrueI s0(1), of ?sha]
  have n0: "aw_next_id s0 = 0" using writer_inv_fresh(2) [OF I0] by simp
  have wf: "wf_name (EntryName [97])" "wf_name (EntryName [98])"
    by (simp_all add: wf_name_def ENTRY_NAME_MAX_SIZE_def)
  obtain s1 where s1: "start_entry vec_write (EntryName [97]) s0 = (Inr 0, s1)"
    "writer_room vec_room s0 \<le> writer_room vec_room s1 + length (enc_block (BStart (EntryName [97]) 0))"
    using start_entry_room [OF vec.room_sink_axioms I0 wf(1)] s0(2) n0
    by (auto simp: vec_room_def enc_block_def)
  from start_entry_inv [OF vec.sink_axioms I0 wf(1) s1(1)]
  have I1: "writer_inv (\<lambda>w. w) (\<lambda>_. True) ?sha [7] [BStart (EntryName [97]) 0] s1" by simp
  then have n1: "aw_next_id s1 = 1" using writer_inv_fresh(2) [OF I1] by simp
  obtain s2 where s2: "start_entry vec_write (EntryName [98]) s1 = (Inr 1, s2)"
    using start_entry_room [OF vec.room_sink_axioms I1 wf(2)] s0(2) s1(2) n1
    by (auto simp: vec_room_def enc_block_def)
  from start_entry_inv [OF vec.sink_axioms I1 wf(2) s2(1)]
  have I2: "writer_inv (\<lambda>w. w) (\<lambda>_. True) ?sha [7] [BStart (EntryName [97]) 0, BStart (EntryName [98]) 1] s2"
    by simp
  then have n2: "aw_next_id s2 = 2" using writer_inv_fresh(2) [OF I2] by simp
  have "?sess s2"
    by (rule session_start [OF session_start [OF session_init [OF s0(1)] wf(1) s1(1)] wf(2) s2])
  from writer_refines_stream [OF cur.source_axioms vec.sink_axioms TrueI h32 this] n2
  show ?thesis by blast
qed

text \<open>C13: the writer's guards leave it untouched. A finalized writer rejects every call; an open one
  rejects a name it already has, content or an end for an entry that is not open, and finalization
  while an entry is open.\<close>

theorem writer_guards:
  "(aw_state s = Finalized \<longrightarrow>
      start_entry wr name s = (Inl WrongArchiveWriterState, s) \<and>
      append_entry_content rd wr i sz (src, s) = (Inl WrongArchiveWriterState, (src, s)) \<and>
      end_entry sha256 wr i s = (Inl WrongArchiveWriterState, s) \<and>
      finalize_entries wr s = (Inl WrongArchiveWriterState, s)) \<and>
   (aw_state s = OpenedFiles ids hashes \<longrightarrow>
      (name \<in> set (map fst (aw_entries_info s)) \<longrightarrow>
         start_entry wr name s = (Inl DuplicateEntryName, s)) \<and>
      (i \<notin> set ids \<longrightarrow>
         append_entry_content rd wr i sz (src, s) = (Inl WrongArchiveWriterState, (src, s)) \<and>
         end_entry sha256 wr i s = (Inl WrongArchiveWriterState, s)) \<and>
      (ids \<noteq> [] \<longrightarrow> finalize_entries wr s =
         (Inl (WrongWriterState ''[Finalize] At least one file is still open''), s)))"
  by (auto simp: start_entry_def append_entry_content_def end_entry_def finalize_entries_def
      check_state_opened_def check_state_file_opened_def finalize_state_def bindE_def map_of_eq_None_iff
      simp del: not_None_eq)

theorem writer_guards_witness:
  "let s = \<lparr>aw_dest = position_writer_new ([] :: bytes), aw_state = OpenedFiles [3] [(3, [])],
     aw_entries_info = [(EntryName [97], 3)], aw_ids_info = [], aw_next_id = 4, aw_current_id = 3\<rparr>
   in start_entry vec_write (EntryName [97]) s = (Inl DuplicateEntryName, s) \<and>
      append_entry_content cursor_read vec_write 5 1 (cursor_new [1], s) =
        (Inl WrongArchiveWriterState, (cursor_new [1], s))"
  unfolding Let_def
  using writer_guards [where s = "\<lparr>aw_dest = position_writer_new ([] :: bytes),
     aw_state = OpenedFiles [3] [(3, [])], aw_entries_info = [(EntryName [97], 3)], aw_ids_info = [],
     aw_next_id = 4, aw_current_id = 3\<rparr>" and wr = vec_write and name = "EntryName [97]" and ids = "[3]"
     and hashes = "[(3, [])]" and i = 5 and rd = cursor_read and src = "cursor_new [1]" and sz = 1
     and ?sha256.0 = "\<lambda>_. []"]
  by simp

text \<open>Every content block is recorded in the index, also when it directly follows a block of the
  same entry: the current entry is never compared with the entry of the block.\<close>

lemma record_offset_every_block:
  assumes "map_of (aw_ids_info s) i = Some info"
  shows "\<exists>s'. record_offset_and_size_in_index i sz s = (Inr (), s') \<and> aw_current_id s' = i \<and>
    map_of (aw_ids_info s') i =
      Some (info\<lparr>offsets_and_sizes := offsets_and_sizes info @ [(pw_pos (aw_dest s), sz)]\<rparr>)"
  using assms by (simp add: record_offset_and_size_in_index_def Let_def position_def update_conv')

lemma record_offset_every_block_witness:
  "let s = \<lparr>aw_dest = position_writer_new ([] :: bytes), aw_state = OpenedFiles [3] [(3, [])],
     aw_entries_info = [(EntryName [97], 3)], aw_ids_info = [(3, \<lparr>offsets_and_sizes = [(9, 0)]\<rparr>)],
     aw_next_id = 4, aw_current_id = 3\<rparr>
   in \<exists>s'. record_offset_and_size_in_index 3 5 s = (Inr (), s') \<and> aw_current_id s' = 3 \<and>
     map_of (aw_ids_info s') 3 = Some (\<lparr>offsets_and_sizes = [(9, 0)]\<rparr>
       \<lparr>offsets_and_sizes := offsets_and_sizes \<lparr>offsets_and_sizes = [(9, 0)]\<rparr> @
          [(pw_pos (aw_dest s), 5)]\<rparr>)"
  unfolding Let_def by (rule record_offset_every_block) simp

end
