(* ===== verification/Reader.thy ===== *)
theory Reader
  imports EntryReader Writer
begin

text \<open>
  \<^verbatim>\<open>ArchiveReader\<close> of \<^verbatim>\<open>mla/src/lib.rs\<close>, from the top layer on: locating and parsing the index from
  the end of the layer, listing the entries, and giving access to the hash and the content of one.
  Together with the refinement of the writer, what was written is what is read.
\<close>

section \<open>Operations\<close>

record 'r archive_reader =
  ar_src :: 'r
  ar_metadata :: "archive_footer option"

definition read_mla_entries_header_skip_magic ::
  "(nat \<Rightarrow> ('r, io_error, bytes) op) \<Rightarrow> ('r, error, unit) op" where
  "read_mla_entries_header_skip_magic rd = bindE (opts_from_reader rd) (\<lambda>_. ret ())"

definition read_mla_entries_header :: "(nat \<Rightarrow> ('r, io_error, bytes) op) \<Rightarrow> ('r, error, unit) op" where
  "read_mla_entries_header rd =
     bindE (lift_io (read_exact rd 8)) (\<lambda>magic.
       if magic \<noteq> ENTRIES_LAYER_MAGIC then fail WrongMagic
       else read_mla_entries_header_skip_magic rd)"

text \<open>The end of \<^verbatim>\<open>ArchiveReader::from_config\<close>, on the top layer.\<close>

definition read_entries_footer ::
  "(nat \<Rightarrow> ('r, io_error, bytes) op) \<Rightarrow> (seek_from \<Rightarrow> ('r, io_error, nat) op) \<Rightarrow>
   ('r, error, archive_footer option) op" where
  "read_entries_footer rd sk =
     bindE (lift_io (sk (SeekEnd (- 8)))) (\<lambda>_.
     bindE (u64_deserialize rd) (\<lambda>entries_footer_options_length.
     bindE (lift_res (ok_or DeserializationError
        (checked_sub_unsigned (- 16) entries_footer_options_length))) (\<lambda>offset_from_end.
     bindE (lift_io (sk (SeekEnd offset_from_end))) (\<lambda>_.
     bindE (u64_deserialize rd) (\<lambda>entries_footer_length.
     bindE (lift_res (ok_or DeserializationError
        (checked_sub_unsigned (- 8) entries_footer_length))) (\<lambda>start_from_current.
     bindE (lift_io (sk (SeekCurrent start_from_current))) (\<lambda>_.
       footer_deserialize_from rd)))))))"

definition open_entries ::
  "(nat \<Rightarrow> ('r, io_error, bytes) op) \<Rightarrow> (seek_from \<Rightarrow> ('r, io_error, nat) op) \<Rightarrow>
   'r \<Rightarrow> error + 'r archive_reader" where
  "open_entries rd sk src =
     (case bindE (read_entries_footer rd sk) (\<lambda>metadata.
             bindE (lift_io (rewind sk)) (\<lambda>_.
             bindE (read_mla_entries_header rd) (\<lambda>_. ret metadata))) src of
        (Inl e, _) \<Rightarrow> Inl e
      | (Inr metadata, src') \<Rightarrow> Inr \<lparr>ar_src = src', ar_metadata = metadata\<rparr>)"

definition list_entries :: "'r archive_reader \<Rightarrow> error + entry_name list" where
  "list_entries s =
     (case ar_metadata s of
        None \<Rightarrow> Inl MissingMetadata
      | Some footer \<Rightarrow> Inr (map fst (entries_info footer)))"

definition get_hash ::
  "(nat \<Rightarrow> ('r, io_error, bytes) op) \<Rightarrow> (seek_from \<Rightarrow> ('r, io_error, nat) op) \<Rightarrow> entry_name \<Rightarrow>
   ('r archive_reader, error, bytes option) op" where
  "get_hash rd sk name s =
     (case ar_metadata s of
        None \<Rightarrow> (Inl MissingMetadata, s)
      | Some footer \<Rightarrow>
          (case map_of (entries_info footer) name of
             None \<Rightarrow> (Inr None, s)
           | Some file_info \<Rightarrow>
               if offsets_and_sizes file_info = [] then (Inl DeserializationError, s)
               else on_field ar_src (\<lambda>r s. s\<lparr>ar_src := r\<rparr>)
                 (bindE (lift_io (sk (SeekStart (fst (last (offsets_and_sizes file_info)))))) (\<lambda>_.
                  bindE (block_from rd) (\<lambda>b.
                    case b of
                      EndOfEntry i hash \<Rightarrow> ret (Some hash)
                    | _ \<Rightarrow> fail (WrongReaderState
                        ''[ArchiveReader] last offset must point to a EndOfEntry'')))) s))"

definition get_entry ::
  "(nat \<Rightarrow> ('r, io_error, bytes) op) \<Rightarrow> (seek_from \<Rightarrow> ('r, io_error, nat) op) \<Rightarrow> entry_name \<Rightarrow>
   ('r archive_reader, error, (entry_name \<times> 'r entry_data_reader) option) op" where
  "get_entry rd sk name s =
     (case ar_metadata s of
        None \<Rightarrow> (Inl MissingMetadata, s)
      | Some footer \<Rightarrow>
          (case map_of (entries_info footer) name of
             None \<Rightarrow> (Inr None, s)
           | Some file_info \<Rightarrow>
               if offsets_and_sizes file_info = []
               then (Inl (WrongReaderState ''[ArchiveReader] A file must have at least one offset''), s)
               else on_field ar_src (\<lambda>r s. s\<lparr>ar_src := r\<rparr>)
                 (bindE (entry_data_reader_new rd sk (offsets_and_sizes file_info))
                   (\<lambda>reader. ret (Some (name, reader)))) s))"

section \<open>Opening what the writer wrote\<close>

text \<open>The blocks of a complete archive.\<close>

definition archive_ok :: "(bytes \<Rightarrow> bytes) \<Rightarrow> block list \<Rightarrow> bool" where
  "archive_ok sha256 bs \<longleftrightarrow> stream sha256 bs \<and> open_ids bs = {} \<and> (\<forall>b\<in>set bs. wf_block b) \<and>
     length (complete_layer bs) < 2 ^ 63"

lemma entry_blocks_length: "14 * length (entry_blocks i bs) \<le> length (enc_blocks bs)"
proof (induction bs)
  case (Cons b bs)
  then show ?case
    by (cases b) (auto simp: entry_blocks_def enc_block_def)
qed (simp add: entry_blocks_def)

lemma entry_index_bound:
  "p \<in> set (entry_index base i bs) \<Longrightarrow> fst p \<le> base + length (enc_blocks bs) \<and> snd p \<le> length (enc_blocks bs)"
proof (induction bs arbitrary: base)
  case (Cons b bs)
  have "length (block_payload b) \<le> length (enc_block b)" by (simp add: enc_block_def)
  with Cons.prems consider "p = (base, length (block_payload b))"
    | "p \<in> set (entry_index (base + length (enc_block b)) i bs)" by (auto split: if_splits)
  then show ?case
  proof cases
    case 1
    then show ?thesis using \<open>length (block_payload b) \<le> _\<close> by simp
  next
    case 2
    from Cons.IH [OF this] show ?thesis by simp
  qed
qed simp

lemma wf_stream_footer:
  assumes "stream sha256 bs" and "\<forall>b\<in>set bs. wf_block b" and l: "length (enc_blocks bs) < 2 ^ 63"
  shows "wf_index (stream_footer bs)"
proof -
  have info: "wf_info (stream_index bs i)" for i
  proof -
    have "14 * length (entry_index BLOCKS_START i bs) < 2 ^ 63"
      using entry_blocks_length [of i bs] l by (simp add: length_entry_index entry_blocks_def)
    then have "length (entry_index BLOCKS_START i bs) < 2 ^ 60" by simp
    moreover have "fst p < 2 ^ 64 \<and> snd p < 2 ^ 64" if "p \<in> set (entry_index BLOCKS_START i bs)" for p
      using entry_index_bound [OF that] l by (simp add: BLOCKS_START_def)
    ultimately show ?thesis by (simp add: wf_info_def stream_index_def)
  qed
  have names: "wf_name name" if "(name, i) \<in> set (starts bs)" for name i
    using that assms(2) by (auto simp: starts_in)
  have keys: "map fst (stream_footer bs) = map fst (starts bs)"
    by (simp add: stream_footer_def o_def case_prod_beta)
  have len: "length (starts bs) \<le> length (enc_blocks bs)"
    by (induction bs rule: starts.induct) (auto simp: enc_block_def)
  show ?thesis
    unfolding wf_index_def
  proof (intro conjI ballI)
    show "distinct (map fst (stream_footer bs))"
      unfolding keys using stream_distinct [OF assms(1)] by blast
    show "length (stream_footer bs) < 2 ^ 64"
      using len l by (simp add: stream_footer_def)
  next
    fix e assume "e \<in> set (stream_footer bs)"
    then obtain name i where "e = (name, stream_index bs i)" "(name, i) \<in> set (starts bs)"
      by (auto simp: stream_footer_def)
    then show "wf_name (fst e)" "wf_info (snd e)" using names info by auto
  qed
qed

lemma archive_ok_footer: "archive_ok sha256 bs \<Longrightarrow> wf_index (stream_footer bs)"
  using wf_stream_footer [of sha256 bs] by (auto simp: archive_ok_def complete_layer_def length_entries_layer)

lemma contents_length: "length (contents i bs) \<le> length (enc_blocks bs)"
proof (induction bs)
  case (Cons b bs)
  have "length (content_of i b) \<le> length (enc_block b)" by (cases b) (auto simp: enc_block_def)
  with Cons show ?case by simp
qed simp

lemma archive_ok_complete_entry:
  assumes "archive_ok sha256 bs" and "(name, i) \<in> set (starts bs)"
  shows "complete_entry bs i" and "i \<in> set (ends bs)"
proof -
  have l: "length (enc_blocks bs) < 2 ^ 63"
    using assms(1) by (simp add: archive_ok_def complete_layer_def length_entries_layer)
  have "length bs \<le> length (enc_blocks bs)"
  proof (induction bs)
    case (Cons b bs)
    have "0 < length (enc_block b)" by (simp add: enc_block_def)
    with Cons show ?case by (simp del: length_greater_0_conv)
  qed simp
  moreover show i: "i \<in> set (ends bs)"
    using assms by (force simp: archive_ok_def open_ids_def)
  ultimately show "complete_entry bs i"
    using assms(1) l contents_length [of i bs]
    by (intro stream_complete_entry [of sha256]) (auto simp: archive_ok_def)
qed

definition metadata_ok :: "block list \<Rightarrow> archive_footer \<Rightarrow> bool" where
  "metadata_ok bs footer \<longleftrightarrow>
     (\<forall>name. map_of (entries_info footer) name = map_option (stream_index bs) (map_of (starts bs) name)) \<and>
     set (map fst (entries_info footer)) = set (map fst (starts bs))"

lemma map_of_stream_footer:
  "map_of (stream_footer bs) name = map_option (stream_index bs) (map_of (starts bs) name)"
  unfolding stream_footer_def by (induction "starts bs") (auto simp: map_of_map)

lemma wf_index_sort: "wf_index es \<Longrightarrow> wf_index (sort_key fst es)"
proof -
  assume w: "wf_index es"
  have "distinct (map fst (sort_key fst es)) = distinct (map fst es)"
    by (rule mset_eq_imp_distinct_iff) (metis mset_map mset_sort)
  then show ?thesis using w by (simp add: wf_index_def)
qed

lemma metadata_ok_footer:
  assumes "wf_index (stream_footer bs)"
  shows "metadata_ok bs \<lparr>entries_info = hash_map_collect (sort_key fst (stream_footer bs))\<rparr>"
proof -
  let ?es = "sort_key fst (stream_footer bs)"
  have d: "distinct (map fst ?es)" using wf_index_sort [OF assms] by (simp add: wf_index_def)
  have "map_of ?es = map_of (stream_footer bs)"
    using d assms by (intro map_of_eqI) (auto simp: wf_index_def)
  moreover have "set (map fst ?es) = set (map fst (starts bs))"
    by (force simp: stream_footer_def)
  ultimately show ?thesis
    using hash_map_collect_distinct [OF d] by (auto simp: metadata_ok_def map_of_stream_footer)
qed

lemma complete_layer_parts:
  "complete_layer bs = (entries_layer bs @ enc_block BEndOfData) @
     (1 # enc_index (sort_key fst (stream_footer bs))) @
     to_le 8 (1 + length (enc_index (sort_key fst (stream_footer bs)))) @ [0] @ to_le 8 1"
proof -
  have "EMPTY_TAIL_OPTS_SERIALIZATION = [0] @ to_le 8 1" by code_simp
  then show ?thesis by (simp only: complete_layer_def enc_footer_def append_assoc append_Cons)
qed

lemma drop_prefix: "v = x @ y \<Longrightarrow> n = length x \<Longrightarrow> drop n v = y"
  by simp

lemma blocks_at_complete_layer:
  "(\<forall>b\<in>set bs. wf_block b) \<Longrightarrow> blocks_at BLOCKS_START bs (complete_layer bs)"
proof -
  assume wf: "\<forall>b\<in>set bs. wf_block b"
  have "complete_layer bs = (ENTRIES_LAYER_MAGIC @ EMPTY_OPTS_SERIALIZATION) @ enc_blocks bs @
      (enc_block BEndOfData @ enc_footer (sort_key fst (stream_footer bs)) @ EMPTY_TAIL_OPTS_SERIALIZATION)"
    by (simp add: complete_layer_def entries_layer_def)
  moreover have "length (ENTRIES_LAYER_MAGIC @ EMPTY_OPTS_SERIALIZATION) = BLOCKS_START"
    by (simp add: BLOCKS_START_def)
  ultimately show ?thesis using wf unfolding blocks_at_def by blast
qed

context source
begin

lemma parses_entries_header:
  "parses (read_mla_entries_header rd) (ENTRIES_LAYER_MAGIC @ EMPTY_OPTS_SERIALIZATION) ()"
  unfolding read_mla_entries_header_def read_mla_entries_header_skip_magic_def
  by (rule parses_bindE, rule parses_lift_io, rule parses_read_exact, simp, simp,
      rule parses_bindE_ret, rule parses_opts)

lemma parses_at:
  assumes "parses m bs a" and "inv s" and "view s = v" and "drop (pos s) v = bs @ t"
  obtains s' where "m s = (Inr a, s')" "inv s'" "view s' = v" "pos s' = pos s + length bs"
  using parsesD [OF assms(1,2), of t] assms(3,4) by (auto simp: rest_def elim: yieldsE)

end

context seekable
begin

lemma read_entries_footer_ok:
  assumes "archive_ok sha256 bs" and "inv s" and v: "view s = complete_layer bs"
  shows "\<exists>s'. read_entries_footer rd sk s =
      (Inr (Some \<lparr>entries_info = hash_map_collect (sort_key fst (stream_footer bs))\<rparr>), s') \<and>
    inv s' \<and> view s' = complete_layer bs"
proof -
  let ?pre = "entries_layer bs @ enc_block BEndOfData"
  let ?ix = "enc_index (sort_key fst (stream_footer bs))"
  let ?v = "complete_layer bs"
  have vl: "length ?v = length ?pre + length ?ix + 18"
    by (simp only: complete_layer_parts length_append length_to_le list.size)
  have b63: "length ?v < 2 ^ 63" using assms(1) by (simp add: archive_ok_def)
  have wf: "wf_index (sort_key fst (stream_footer bs))"
    by (rule wf_index_sort [OF archive_ok_footer [OF assms(1)]])
  obtain s1 where s1: "sk (SeekEnd (- 8)) s = (Inr (length ?v - 8), s1)" "inv s1" "view s1 = ?v"
    "pos s1 = length ?v - 8"
    using seek_end [OF assms(2), of 8] v vl by auto
  have "drop (pos s1) ?v = to_le 8 1 @ []"
    by (rule drop_prefix [of _ "?pre @ (1 # ?ix) @ to_le 8 (1 + length ?ix) @ [0]"])
      (simp_all only: complete_layer_parts append_assoc append_Nil2, simp add: s1(4) vl)
  then obtain s2 where s2: "u64_deserialize rd s1 = (Inr 1, s2)" "inv s2" "view s2 = ?v"
    by (rule parses_at [OF parses_u64 s1(2,3), of 1 "[]", rotated]) simp_all
  obtain s3 where s3: "sk (SeekEnd (- 17)) s2 = (Inr (length ?v - 17), s3)" "inv s3" "view s3 = ?v"
    "pos s3 = length ?v - 17"
    using seek_end [OF s2(2), of 17] s2(3) vl by auto
  have d3: "drop (pos s3) ?v = to_le 8 (1 + length ?ix) @ ([0] @ to_le 8 1)"
    by (rule drop_prefix [of _ "?pre @ (1 # ?ix)"])
      (simp_all only: complete_layer_parts append_assoc append_Nil2, simp add: s3(4) vl)
  have n64: "1 + length ?ix < 2 ^ 64" using b63 vl by simp
  obtain s4 where s4: "u64_deserialize rd s3 = (Inr (1 + length ?ix), s4)" "inv s4" "view s4 = ?v"
    "pos s4 = length ?v - 9"
    by (rule parses_at [OF parses_u64 [OF n64] s3(2,3) d3]) (use s3(4) vl in simp)
  have cu: "checked_sub_unsigned (- 8) (1 + length ?ix) = Some (- 9 - int (length ?ix))"
    using b63 vl by (simp add: checked_sub_unsigned_def)
  have pc: "int (pos s4) + (- 9 - int (length ?ix)) = int (length ?pre)"
    using s4(4) vl by simp
  obtain s5 where s5: "sk (SeekCurrent (- 9 - int (length ?ix))) s4 = (Inr (length ?pre), s5)" "inv s5"
    "view s5 = ?v" "pos s5 = length ?pre"
    using seek_current [OF s4(2), of "- 9 - int (length ?ix)"] pc s4(3,4) vl by auto
  have d5: "drop (pos s5) ?v = (1 # ?ix) @ (to_le 8 (1 + length ?ix) @ [0] @ to_le 8 1)"
    by (rule drop_prefix [of _ ?pre]) (simp_all only: complete_layer_parts append_assoc s5(4))
  obtain s6 where s6: "footer_deserialize_from rd s5 =
      (Inr (Some \<lparr>entries_info = hash_map_collect (sort_key fst (stream_footer bs))\<rparr>), s6)" "inv s6" "view s6 = ?v"
    by (rule parses_at [OF parses_footer [OF wf] s5(2,3) d5])
  have c17: "checked_sub_unsigned (- 16) 1 = Some (- 17)" by (simp add: checked_sub_unsigned_def)
  show ?thesis
    using s1(1) s2(1) s3(1) s4(1) s5(1) s6 c17 cu
    by (simp add: read_entries_footer_def bindE_def lift_io_def map_errE_def lift_res_def)
qed

lemma open_entries_ok:
  assumes "archive_ok sha256 bs" and "inv s" and v: "view s = complete_layer bs"
  shows "\<exists>ar footer. open_entries rd sk s = Inr ar \<and> ar_metadata ar = Some footer \<and> metadata_ok bs footer \<and>
    inv (ar_src ar) \<and> view (ar_src ar) = complete_layer bs"
proof -
  from read_entries_footer_ok [OF assms] obtain s1 where
    s1: "read_entries_footer rd sk s =
      (Inr (Some \<lparr>entries_info = hash_map_collect (sort_key fst (stream_footer bs))\<rparr>), s1)" "inv s1"
    "view s1 = complete_layer bs" by blast
  have "view s1 \<noteq> []" using s1(3) by (simp add: complete_layer_parts)
  from rewind_ok [OF s1(2) this] obtain s2 where
    s2: "rewind sk s1 = (Inr (), s2)" "inv s2" "view s2 = complete_layer bs" "pos s2 = 0"
    using s1(3) by auto
  have "drop (pos s2) (complete_layer bs) = (ENTRIES_LAYER_MAGIC @ EMPTY_OPTS_SERIALIZATION) @
      (enc_blocks bs @ enc_block BEndOfData @ enc_footer (sort_key fst (stream_footer bs)) @
        EMPTY_TAIL_OPTS_SERIALIZATION)"
    unfolding s2(4) by (simp add: complete_layer_def entries_layer_def)
  then obtain s3 where s3: "read_mla_entries_header rd s2 = (Inr (), s3)" "inv s3" "view s3 = complete_layer bs"
    by (rule parses_at [OF parses_entries_header s2(2,3)])
  from metadata_ok_footer [OF archive_ok_footer [OF assms(1)]] show ?thesis
    using s1(1) s2(1) s3 by (simp add: open_entries_def bindE_def lift_io_def map_errE_def ret_def)
qed

end

section \<open>Access to an entry\<close>

context start_seekable
begin

lemma get_hash_ok:
  assumes ok: "archive_ok sha256 bs" and s: "inv (ar_src s)" "view (ar_src s) = complete_layer bs"
    and m: "ar_metadata s = Some footer" "metadata_ok bs footer" and n: "(name, i) \<in> set (starts bs)"
  shows "\<exists>s'. get_hash rd sk name s = (Inr (Some (sha256 (contents i bs))), s')"
proof -
  note c = archive_ok_complete_entry [OF ok n]
  have st: "stream sha256 bs" and wf: "\<forall>b\<in>set bs. wf_block b" using ok by (auto simp: archive_ok_def)
  have "map_of (starts bs) name = Some i"
    using n stream_distinct [OF st] by simp
  then have f: "map_of (entries_info footer) name = Some (stream_index bs i)"
    using m(2) by (simp add: metadata_ok_def)
  note ne = complete_entry_index [OF c(1), of BLOCKS_START]
  have "length (entry_index BLOCKS_START i bs) - 1 < length (entry_index BLOCKS_START i bs)"
    using ne(1) by simp
  from entry_index_split [OF this] obtain xs b ys where
    x: "bs = xs @ b # ys" "block_id b = Some i"
    "length (entry_blocks i xs) = length (entry_index BLOCKS_START i bs) - 1" by blast
  have last: "fst (last (entry_index BLOCKS_START i bs)) = BLOCKS_START + length (enc_blocks xs)"
    using entry_index_nth [OF x(2), of xs BLOCKS_START ys] x ne(1) by (simp add: last_conv_nth)
  have ys: "entry_blocks i ys = []"
    using arg_cong [OF x(1), of "\<lambda>bs. length (entry_index BLOCKS_START i bs)"] x(2,3) ne(1)
    by (cases "entry_blocks i ys") (auto simp: length_entry_index entry_blocks_def)
  from complete_entry_at [OF c(1) x(1,2)] ys obtain h where b: "b = BEnd i h" by auto
  from stream_entry_blocks [OF st, of i] n obtain cs where
    "entry_blocks i bs = BStart name i # map (BContent i) cs @
       (if i \<in> set (ends bs) then [BEnd i (sha256 (concat cs))] else [])"
    "concat cs = contents i bs" by blast
  then have e: "entry_blocks i bs = (BStart name i # map (BContent i) cs) @ [BEnd i (sha256 (contents i bs))]"
    using c(2) by simp
  have "entry_blocks i xs @ [BEnd i h] = entry_blocks i bs"
    using x(1) b ys by (simp add: entry_blocks_def)
  then have h: "h = sha256 (contents i bs)"
    unfolding e by (simp only: append1_eq_conv block.inject)
  have at: "blocks_at BLOCKS_START (xs @ b # ys) (view (ar_src s))"
    using blocks_at_complete_layer [OF wf] s(2) x(1) by simp
  from seek_startE [OF s(1) blocks_at_length [OF at]] obtain r1 where
    r1: "sk (SeekStart (BLOCKS_START + length (enc_blocks xs))) (ar_src s) =
      (Inr (BLOCKS_START + length (enc_blocks xs)), r1)"
    "inv r1" "view r1 = view (ar_src s)" "pos r1 = BLOCKS_START + length (enc_blocks xs)" by metis
  from block_from_at [OF r1(2) at [folded r1(3)] r1(4)] obtain r2 where
    "block_from rd r1 = (Inr (parsed_block b), r2)" by metis
  then show ?thesis
    using m(1) f r1(1) ne(1) b h last
    by (simp add: get_hash_def stream_index_def on_field_def bindE_def lift_io_def map_errE_def ret_def)
qed

lemma get_entry_ok:
  assumes ok: "archive_ok sha256 bs" and s: "inv (ar_src s)" "view (ar_src s) = complete_layer bs"
    and m: "ar_metadata s = Some footer" "metadata_ok bs footer" and n: "(name, i) \<in> set (starts bs)"
  shows "\<exists>reader s'. get_entry rd sk name s = (Inr (Some (name, reader)), s') \<and>
    reader_at BLOCKS_START bs i reader \<and> reader_pos reader = 0"
proof -
  note c = archive_ok_complete_entry [OF ok n]
  have st: "stream sha256 bs" and wf: "\<forall>b\<in>set bs. wf_block b" using ok by (auto simp: archive_ok_def)
  have "map_of (starts bs) name = Some i"
    using n stream_distinct [OF st] by simp
  then have f: "map_of (entries_info footer) name = Some (stream_index bs i)"
    using m(2) by (simp add: metadata_ok_def)
  have "blocks_at BLOCKS_START bs (view (ar_src s))"
    using blocks_at_complete_layer [OF wf] s(2) by simp
  from entry_data_reader_new_ok [OF s(1) this c(1)] obtain reader r where
    "entry_data_reader_new rd sk (entry_index BLOCKS_START i bs) (ar_src s) = (Inr reader, r)"
    "reader_at BLOCKS_START bs i reader" "reader_pos reader = 0" by blast
  then show ?thesis
    using m(1) f complete_entry_index(1) [OF c(1), of BLOCKS_START]
    by (auto simp: get_entry_def stream_index_def on_field_def bindE_def ret_def)
qed

lemma get_missing:
  assumes "ar_metadata s = Some footer" "metadata_ok bs footer" and "name \<notin> set (map fst (starts bs))"
  shows "get_hash rd sk name s = (Inr None, s)" and "get_entry rd sk name s = (Inr None, s)"
proof -
  have "map_of (entries_info footer) name = None"
    using assms(2,3) by (simp add: metadata_ok_def map_of_eq_None_iff)
  then show "get_hash rd sk name s = (Inr None, s)" "get_entry rd sk name s = (Inr None, s)"
    using assms(1) by (simp_all add: get_hash_def get_entry_def)
qed

lemma entry_read_all:
  assumes "reader_at base bs i s" and "reader_pos s = 0" and "length (contents i bs) < n"
  shows "\<exists>s'. take_read_to_end (\<lambda>n s. the (entry_read rd sk n s)) n s = (Inr (contents i bs), s')"
proof -
  note es = entry_reader_source [of i bs base]
  then have so: "source (\<lambda>n s. the (entry_read rd sk n s)) (\<lambda>_. contents i bs) reader_pos (reader_at base bs i)"
    by (simp add: eof_source_def)
  have r: "source.rest (\<lambda>_. contents i bs) reader_pos s = contents i bs"
    by (simp add: source.rest_def [OF so] assms(2))
  then show ?thesis
    using eof_source.take_read_to_end_all [OF es assms(1), of n] assms(3)
    unfolding source.yields_def [OF so] by auto
qed

end

end
