(* ===== verification/Roundtrip.thy ===== *)
theory Roundtrip
  imports Reader
begin

text \<open>
  What the archive is for: a client adds entries with \<^verbatim>\<open>ArchiveWriter\<close>, finalizes, and a client of
  \<^verbatim>\<open>ArchiveReader\<close> finds the same names, hashes and contents. Here on the entries layer, without the
  layers below; those are again readers and writers of the same contracts.
\<close>

section \<open>Reading an entry to its end\<close>

text \<open>\<^verbatim>\<open>read_to_end\<close> on the entry's reader, into a vector of at most \<open>n\<close> bytes.\<close>

function entry_read_to_end ::
  "(nat \<Rightarrow> ('r, io_error, bytes) op) \<Rightarrow> (seek_from \<Rightarrow> ('r, io_error, nat) op) \<Rightarrow> nat \<Rightarrow>
   'r entry_data_reader \<Rightarrow> ((io_error + bytes) \<times> 'r entry_data_reader) option" where
  "entry_read_to_end rd sk n s =
     (if n = 0 then Some (Inr [], s)
      else case entry_read rd sk n s of
          None \<Rightarrow> None
        | Some (Inl e, s') \<Rightarrow> Some (Inl e, s')
        | Some (Inr bs, s') \<Rightarrow>
            (if bs = [] then Some (Inr [], s')
             else case entry_read_to_end rd sk (n - length bs) s' of
                 Some (Inr bs', s'') \<Rightarrow> Some (Inr (bs @ bs'), s'')
               | r \<Rightarrow> r))"
  by pat_completeness auto
termination
  by (relation "measure (\<lambda>(rd, sk, n, s). n)") auto

declare entry_read_to_end.simps [simp del]

text \<open>Open an entry by its name and read all of it, as a client does.\<close>

definition get_content ::
  "(nat \<Rightarrow> ('r, io_error, bytes) op) \<Rightarrow> (seek_from \<Rightarrow> ('r, io_error, nat) op) \<Rightarrow> entry_name \<Rightarrow>
   'r archive_reader \<Rightarrow> bytes option" where
  "get_content rd sk name ar =
     (case get_entry rd sk name ar of
        (Inr (Some (_, reader)), _) \<Rightarrow>
          (case entry_read_to_end rd sk (2 ^ 63 - 1) reader of
             Some (Inr bs, _) \<Rightarrow> Some bs
           | _ \<Rightarrow> None)
      | _ \<Rightarrow> None)"

context start_seekable
begin

lemma entry_read_to_end_ok:
  "reader_at base bs i s \<Longrightarrow> length (contents i bs) < reader_pos s + n \<Longrightarrow>
   \<exists>s'. entry_read_to_end rd sk n s = Some (Inr (drop (reader_pos s) (contents i bs)), s') \<and>
     reader_at base bs i s'"
proof (induction n arbitrary: s rule: less_induct)
  case (less n)
  show ?case
  proof (cases "n = 0")
    case True
    with less.prems show ?thesis by (simp add: entry_read_to_end.simps)
  next
    case False
    from entry_read_ok [OF less.prems(1), of n] obtain k s1 where
      k: "entry_read rd sk n s = Some (Inr (take k (drop (reader_pos s) (contents i bs))), s1)" "k \<le> n"
      "k \<le> length (contents i bs) - reader_pos s" "reader_pos s < length (contents i bs) \<longrightarrow> 0 < k"
      "reader_at base bs i s1" "reader_pos s1 = reader_pos s + k"
      using False unfolding reads_ok_def by blast
    show ?thesis
    proof (cases "k = 0")
      case True
      then show ?thesis
        using k False by (subst entry_read_to_end.simps) auto
    next
      case F: False
      then have "\<exists>s'. entry_read_to_end rd sk (n - k) s1 =
          Some (Inr (drop (reader_pos s1) (contents i bs)), s') \<and> reader_at base bs i s'"
        by (intro less.IH) (use False k less.prems in auto)
      moreover have "length (take k (drop (reader_pos s) (contents i bs))) = k"
        using k(3) by simp
      moreover have "take k (drop (reader_pos s) (contents i bs)) \<noteq> []"
        using F k(3) by auto
      moreover have "take k (drop (reader_pos s) (contents i bs)) @ drop (reader_pos s + k) (contents i bs) =
          drop (reader_pos s) (contents i bs)"
        by (metis add.commute append_take_drop_id drop_drop)
      ultimately show ?thesis
        using False k(1,6) by (subst entry_read_to_end.simps) auto
    qed
  qed
qed

lemma get_content_ok:
  assumes "archive_ok sha256 bs" "inv (ar_src s)" "view (ar_src s) = complete_layer bs"
    "ar_metadata s = Some footer" "metadata_ok bs footer" "(name, i) \<in> set (starts bs)"
  shows "get_content rd sk name s = Some (contents i bs)"
proof -
  from get_entry_ok [OF assms] obtain reader s' where
    r: "get_entry rd sk name s = (Inr (Some (name, reader)), s')"
    "reader_at BLOCKS_START bs i reader" "reader_pos reader = 0" by blast
  have "length (enc_blocks bs) < 2 ^ 63 - 1"
    using assms(1) by (simp add: archive_ok_def complete_layer_def length_entries_layer BLOCKS_START_def)
  with contents_length [of i bs] have "length (contents i bs) < reader_pos reader + (2 ^ 63 - 1)" by simp
  from entry_read_to_end_ok [OF r(2) this] r show ?thesis
    by (auto simp: get_content_def)
qed

end

section \<open>Writing a list of files\<close>

text \<open>A client that adds files one after the other from memory.\<close>

fun add_files ::
  "(bytes \<Rightarrow> bytes) \<Rightarrow> (bytes \<Rightarrow> ('w, io_error, nat) op) \<Rightarrow> (entry_name \<times> bytes) list \<Rightarrow> 'w archive_writer \<Rightarrow>
   error + 'w archive_writer"
  where
  "add_files sha256 wr [] s = Inr s"
| "add_files sha256 wr ((name, bs) # files) s =
     (case add_entry sha256 cursor_read wr name (length bs) (cursor_new bs, s) of
        (Inl e, _) \<Rightarrow> Inl e
      | (Inr _, (_, s')) \<Rightarrow> add_files sha256 wr files s')"

text \<open>The blocks this makes, identifiers counting from \<open>i\<close>.\<close>

fun file_blocks :: "(bytes \<Rightarrow> bytes) \<Rightarrow> nat \<Rightarrow> entry_name \<times> bytes \<Rightarrow> block list" where
  "file_blocks sha256 i (name, bs) =
     BStart name i # (if bs = [] then [] else [BContent i bs]) @ [BEnd i (sha256 bs)]"

fun files_blocks :: "(bytes \<Rightarrow> bytes) \<Rightarrow> nat \<Rightarrow> (entry_name \<times> bytes) list \<Rightarrow> block list" where
  "files_blocks sha256 i [] = []"
| "files_blocks sha256 i (f # files) = file_blocks sha256 i f @ files_blocks sha256 (Suc i) files"

definition files_size :: "(entry_name \<times> bytes) list \<Rightarrow> nat" where
  "files_size files = sum_list (map (\<lambda>(name, bs). 4096 + length bs) files)"

definition files_ok :: "(entry_name \<times> bytes) list \<Rightarrow> bool" where
  "files_ok files \<longleftrightarrow> distinct (map fst files) \<and> (\<forall>f\<in>set files. wf_name (fst f)) \<and>
     files_size files < 2 ^ 62"

lemma starts_files_blocks:
  "starts (files_blocks sha256 i files) = zip (map fst files) [i..<i + length files]"
proof (induction files arbitrary: i)
  case (Cons f files)
  have "[i..<i + length (f # files)] = i # [Suc i..<Suc i + length files]"
    using upt_conv_Cons [of i "Suc i + length files"] by simp
  with Cons show ?case by (cases f) simp
qed simp

lemma names_files_blocks: "map fst (starts (files_blocks sha256 i files)) = map fst files"
  by (simp add: starts_files_blocks)

lemma ends_files_blocks: "ends (files_blocks sha256 i files) = [i..<i + length files]"
proof (induction files arbitrary: i)
  case (Cons f files)
  have "[i..<i + length (f # files)] = i # [Suc i..<Suc i + length files]"
    using upt_conv_Cons [of i "Suc i + length files"] by simp
  with Cons show ?case by (cases f) simp
qed simp

lemma files_blocks_ids: "b \<in> set (files_blocks sha256 i files) \<Longrightarrow> block_id b = Some k \<Longrightarrow> i \<le> k"
proof (induction files arbitrary: i)
  case (Cons f files)
  obtain name bs where f: "f = (name, bs)" by (cases f)
  from Cons.prems consider "b \<in> set (file_blocks sha256 i f)" | "b \<in> set (files_blocks sha256 (Suc i) files)"
    by auto
  then show ?case
  proof cases
    case 1
    then show ?thesis using Cons.prems(2) by (auto simp: f split: if_splits)
  next
    case 2
    from Cons.IH [OF this Cons.prems(2)] show ?thesis by simp
  qed
qed simp

lemma contents_files_blocks:
  "k < length files \<Longrightarrow> contents (i + k) (files_blocks sha256 i files) = snd (files ! k)"
proof (induction files arbitrary: i k)
  case (Cons f files)
  obtain name bs where f: "f = (name, bs)" by (cases f)
  show ?case
  proof (cases k)
    case 0
    have "\<forall>b\<in>set (files_blocks sha256 (Suc i) files). block_id b \<noteq> Some i"
      using files_blocks_ids [of _ sha256 "Suc i" files i] by auto
    then show ?thesis by (simp add: f 0 contents_other)
  next
    case (Suc k')
    have "\<forall>b\<in>set (file_blocks sha256 i f). block_id b \<noteq> Some (i + k)"
      by (simp add: f Suc)
    then have "contents (i + k) (file_blocks sha256 i f) = []" by (rule contents_other)
    moreover have "contents (Suc i + k') (files_blocks sha256 (Suc i) files) = snd (files ! k')"
      using Cons.prems Suc by (intro Cons.IH) simp
    ultimately show ?thesis by (simp add: Suc)
  qed
qed simp

lemma entry_index_files_blocks: "length (entry_index p k (files_blocks sha256 i files)) \<le> 3"
proof (induction files arbitrary: i p)
  case (Cons f files)
  obtain name bs where f: "f = (name, bs)" by (cases f)
  show ?case
  proof (cases "k = i")
    case True
    have "\<forall>b\<in>set (files_blocks sha256 (Suc i) files). block_id b \<noteq> Some k"
      using files_blocks_ids [of _ sha256 "Suc i" files k] True by auto
    then have "entry_index q k (files_blocks sha256 (Suc i) files) = []" for q
      by (rule entry_index_other)
    then show ?thesis by (simp add: f entry_index_append)
  next
    case False
    then have "\<forall>b\<in>set (file_blocks sha256 i f). block_id b \<noteq> Some k" by (simp add: f)
    then have "entry_index q k (file_blocks sha256 i f) = []" for q by (rule entry_index_other)
    then show ?thesis using Cons.IH by (simp add: entry_index_append)
  qed
qed simp

lemma file_blocks_length:
  assumes "wf_name name" and "\<And>x. length (sha256 x) = 32"
  shows "length (enc_blocks (file_blocks sha256 i (name, bs))) \<le> 1200 + length bs"
  using assms by (simp add: enc_block_def wf_name_def ENTRY_NAME_MAX_SIZE_def)

lemma files_size_simps [simp]:
  "files_size [] = 0" "files_size ((name, bs) # files) = 4096 + length bs + files_size files"
  by (simp_all add: files_size_def)

text \<open>Footer and blocks fit in \<open>files_size\<close> and a constant.\<close>

lemma files_footer_length:
  assumes "\<forall>f\<in>set files. wf_name (fst f)"
  shows "length (enc_index (sort_key fst (stream_footer (files_blocks sha256 0 files)))) \<le> 8 + 1200 * length files"
proof -
  let ?bs = "files_blocks sha256 0 files"
  have e: "length (enc_footer_entry e) \<le> 1200" if "e \<in> set (stream_footer ?bs)" for e
  proof -
    from that obtain name i where e: "e = (name, stream_index ?bs i)" "(name, i) \<in> set (starts ?bs)"
      by (auto simp: stream_footer_def)
    from e(2) have "name \<in> set (map fst files)" by (auto simp: starts_files_blocks dest: set_zip_leftD)
    with assms have "wf_name name" by auto
    then show ?thesis
      using entry_index_files_blocks [of BLOCKS_START i sha256 0 files]
      by (simp add: e(1) enc_footer_entry_def length_enc_info stream_index_def wf_name_def
          ENTRY_NAME_MAX_SIZE_def)
  qed
  have "sum_list (map (length \<circ> enc_footer_entry) es) \<le> 1200 * length es"
    if "\<forall>e\<in>set es. length (enc_footer_entry e) \<le> 1200" for es
    using that by (induction es) auto
  from this [of "sort_key fst (stream_footer ?bs)"] e show ?thesis
    by (simp add: enc_index_def length_concat stream_footer_def starts_files_blocks o_def)
qed

lemma add_files_ok:
  assumes rs: "room_sink wr out winv room"
    and "writer_inv out winv sha256 base bs s" and "\<And>x. length (sha256 x) = 32"
    and "distinct (map fst files)" and "\<forall>f\<in>set files. wf_name (fst f)" and "files_size files < 2 ^ 62"
    and "set (map fst files) \<inter> set (map fst (starts bs)) = {}"
    and "files_size files \<le> writer_room room s" and "length (starts bs) + length files < 2 ^ 64"
  shows "\<exists>s'. add_files sha256 wr files s = Inr s' \<and>
    writer_inv out winv sha256 base (bs @ files_blocks sha256 (length (starts bs)) files) s' \<and>
    writer_room room s \<le> writer_room room s' + files_size files"
  using assms(2,4-)
proof (induction files arbitrary: bs s)
  case (Cons f files)
  obtain name d where f: "f = (name, d)" by (cases f)
  let ?fb = "file_blocks sha256 (length (starts bs)) (name, d)"
  have wf: "wf_name name" using Cons.prems f by simp
  have fl: "length (enc_blocks ?fb) + 30 \<le> 4096 + length d"
    using file_blocks_length [OF wf, of sha256 "length (starts bs)" d] assms(3) by simp
  have ld: "length d < 2 ^ 63" using Cons.prems(4) f by simp
  have "\<exists>src' s1. add_entry sha256 cursor_read wr name (length d) (cursor_new d, s) = (Inr (), (src', s1)) \<and>
    writer_inv out winv sha256 base (bs @ ?fb) s1 \<and>
    writer_room room s \<le> writer_room room s1 + (length (enc_blocks ?fb) + 30)"
    by (rule add_entry_room [OF cur.source_axioms rs Cons.prems(1) wf])
      (use Cons.prems fl f ld assms(3) in \<open>auto simp: cursor_inv_def cursor_new_def\<close>)
  then obtain src' s1 where s1:
    "add_entry sha256 cursor_read wr name (length d) (cursor_new d, s) = (Inr (), (src', s1))"
    "writer_inv out winv sha256 base (bs @ ?fb) s1"
    "writer_room room s \<le> writer_room room s1 + (length (enc_blocks ?fb) + 30)" by blast
  have st: "starts (bs @ ?fb) = starts bs @ [(name, length (starts bs))]" by simp
  have "\<exists>s'. add_files sha256 wr files s1 = Inr s' \<and>
    writer_inv out winv sha256 base
      ((bs @ ?fb) @ files_blocks sha256 (length (starts (bs @ ?fb))) files) s' \<and>
    writer_room room s1 \<le> writer_room room s' + files_size files"
    by (rule Cons.IH [OF s1(2)]) (use Cons.prems s1(3) fl f st in \<open>auto simp del: file_blocks.simps\<close>)
  then show ?case
    using s1(1,3) fl f st by (auto simp del: file_blocks.simps)
qed simp

lemma files_archive_ok:
  assumes "files_ok files" and "stream sha256 (files_blocks sha256 0 files)"
    and "\<forall>b\<in>set (files_blocks sha256 0 files). wf_block b" and h32: "\<And>x. length (sha256 x) = 32"
  shows "archive_ok sha256 (files_blocks sha256 0 files)"
    and "length (enc_block BEndOfData @ enc_footer (sort_key fst (stream_footer (files_blocks sha256 0 files))) @
      EMPTY_TAIL_OPTS_SERIALIZATION) \<le> 100 + 1200 * length files"
proof -
  let ?bs = "files_blocks sha256 0 files"
  have bl: "length (enc_blocks (files_blocks sha256 i fs)) \<le> files_size fs"
    if "\<forall>f\<in>set fs. wf_name (fst f)" for i fs
    using that
  proof (induction fs arbitrary: i)
    case (Cons f fs)
    obtain name d where f: "f = (name, d)" by (cases f)
    have "wf_name name" using Cons.prems f by simp
    from file_blocks_length [OF this, of sha256 i d] h32 Cons.IH [of "Suc i"] Cons.prems show ?case
      by (simp add: f del: file_blocks.simps)
  qed simp
  have n: "4096 * length files \<le> files_size files"
    by (induction files) (auto simp: files_size_def)
  have wf: "\<forall>f\<in>set files. wf_name (fst f)" and sz: "files_size files < 2 ^ 62"
    using assms(1) by (auto simp: files_ok_def)
  show t: "length (enc_block BEndOfData @ enc_footer (sort_key fst (stream_footer ?bs)) @
      EMPTY_TAIL_OPTS_SERIALIZATION) \<le> 100 + 1200 * length files"
    using files_footer_length [OF wf, of sha256]
    by (simp add: enc_footer_def enc_block_def EMPTY_TAIL_OPTS_SERIALIZATION_def)
  have "length (complete_layer ?bs) < 2 ^ 63"
    using t bl [OF wf, of 0] n sz by (simp add: complete_layer_def length_entries_layer BLOCKS_START_def)
  moreover have "open_ids ?bs = {}"
    by (auto simp: open_ids_def starts_files_blocks ends_files_blocks dest: set_zip_rightD)
  ultimately show "archive_ok sha256 ?bs"
    using assms(2,3) by (simp add: archive_ok_def)
qed

lemma map_of_files_blocks:
  "distinct (map fst files) \<Longrightarrow>
   (\<forall>k. map_of (starts (files_blocks sha256 0 files)) name = Some k \<longrightarrow>
      map_of files name = Some (contents k (files_blocks sha256 0 files))) \<and>
   (map_of (starts (files_blocks sha256 0 files)) name = None \<longrightarrow> map_of files name = None)"
proof (intro conjI allI impI)
  fix k assume d: "distinct (map fst files)" and k: "map_of (starts (files_blocks sha256 0 files)) name = Some k"
  then have "(name, k) \<in> set (zip (map fst files) [0..<length files])"
    by (auto simp: starts_files_blocks dest: map_of_SomeD)
  then have "k < length files" "fst (files ! k) = name" by (auto simp: set_zip)
  then have "(name, snd (files ! k)) \<in> set files" by (metis nth_mem prod.collapse)
  with d have "map_of files name = Some (snd (files ! k))" by simp
  then show "map_of files name = Some (contents k (files_blocks sha256 0 files))"
    using contents_files_blocks [OF \<open>k < length files\<close>, of 0 sha256] by simp
next
  assume "map_of (starts (files_blocks sha256 0 files)) name = None"
  then have "name \<notin> set (map fst (starts (files_blocks sha256 0 files)))"
    by (simp add: map_of_eq_None_iff)
  then show "map_of files name = None"
    unfolding names_files_blocks by (simp add: map_of_eq_None_iff)
qed

text \<open>A whole session of the client, on any writer that has room.\<close>

lemma files_written:
  assumes rs: "room_sink wr out winv room" and w: "winv w0"
    and f: "files_ok files" and h32: "\<And>x. length (sha256 x) = 32"
    and r: "files_size files + files_size files div 3 + 200 + t \<le> min (room w0) (2 ^ 64 - 1)"
  obtains s0 s1 s2 where "archive_writer_init wr w0 = Inr s0" "add_files sha256 wr files s0 = Inr s1"
    "finalize_entries wr s1 = (Inr (), s2)" "winv (pw_inner (aw_dest s2))"
    "out (pw_inner (aw_dest s2)) = out w0 @ complete_layer (files_blocks sha256 0 files)"
    "t \<le> room (pw_inner (aw_dest s2))" "archive_ok sha256 (files_blocks sha256 0 files)"
proof -
  let ?bs = "files_blocks sha256 0 files"
  have sk: "sink wr out winv" using rs by (simp add: room_sink_def)
  have ok: "distinct (map fst files)" "\<forall>f\<in>set files. wf_name (fst f)" "files_size files < 2 ^ 62"
    using f by (auto simp: files_ok_def)
  have n: "4096 * length files \<le> files_size files"
    by (induction files) (auto simp: files_size_def)
  have "9 \<le> room w0" using r by linarith
  from archive_writer_init_room [OF rs w this] obtain s0 where
    s0: "archive_writer_init wr w0 = Inr s0" "min (room w0) (2 ^ 64 - 1) \<le> writer_room room s0 + 9" by blast
  have I0: "writer_inv out winv sha256 (out w0) [] s0"
    by (rule archive_writer_init_inv [OF sk w s0(1)])
  have r0: "files_size files + files_size files div 3 + 191 + t \<le> writer_room room s0" using r s0(2) by linarith
  have d: "set (map fst files) \<inter> set (map fst (starts [])) = {}" "length (starts []) + length files < 2 ^ 64"
    "files_size files \<le> writer_room room s0" using n ok(3) r0 by simp_all
  from add_files_ok [OF rs I0 h32 ok d(1,3,2)] obtain s1 where
    s1: "add_files sha256 wr files s0 = Inr s1" "writer_inv out winv sha256 (out w0) ?bs s1"
    "writer_room room s0 \<le> writer_room room s1 + files_size files" by auto
  have st: "stream sha256 ?bs" "\<forall>b\<in>set ?bs. wf_block b" using s1(2) by (auto simp: writer_inv_def)
  note A = files_archive_ok [OF f st h32]
  have op: "open_ids ?bs = {}" using A(1) by (simp add: archive_ok_def)
  have l: "length (enc_index (sort_key fst (stream_footer ?bs))) < 2 ^ 63"
    using files_footer_length [OF ok(2), of sha256] ok(3) n by simp
  have r1: "length (enc_block BEndOfData @ enc_footer (sort_key fst (stream_footer ?bs)) @
      EMPTY_TAIL_OPTS_SERIALIZATION) + t \<le> writer_room room s1"
    using A(2) n r0 s1(3) by linarith
  then have "length (enc_block BEndOfData @ enc_footer (sort_key fst (stream_footer ?bs)) @
      EMPTY_TAIL_OPTS_SERIALIZATION) \<le> writer_room room s1" by linarith
  from finalize_entries_room [OF rs s1(2) op archive_ok_footer [OF A(1)] this l] obtain s2 where
    s2: "finalize_entries wr s1 = (Inr (), s2)"
    "writer_room room s1 \<le> writer_room room s2 + length (enc_block BEndOfData @
      enc_footer (sort_key fst (stream_footer ?bs)) @ EMPTY_TAIL_OPTS_SERIALIZATION)" by blast
  have "t \<le> writer_room room s2" using r1 s2(2) by linarith
  then have "t \<le> room (pw_inner (aw_dest s2))" by (simp add: position_room_def)
  with s0(1) s1(1) s2(1) finalize_entries_out [OF sk s1(2) s2(1)] A(1) show thesis by (intro that) simp_all
qed

section \<open>Sessions on one entry\<close>

text \<open>What a client may do with an entry's reader: reads of any size and seeks inside the content, in
  any order. The second argument is the position the client expects.\<close>

inductive entry_session ::
  "(nat \<Rightarrow> ('r, io_error, bytes) op) \<Rightarrow> (seek_from \<Rightarrow> ('r, io_error, nat) op) \<Rightarrow> nat \<Rightarrow>
   'r entry_data_reader \<Rightarrow> 'r entry_data_reader \<Rightarrow> nat \<Rightarrow> bool"
  for rd sk len r0 where
  entry_start: "entry_session rd sk len r0 r0 0"
| entry_reads: "entry_session rd sk len r0 r p \<Longrightarrow> entry_read rd sk n r = Some (Inr bs, r') \<Longrightarrow>
    entry_session rd sk len r0 r' (p + length bs)"
| entry_seeks_start: "entry_session rd sk len r0 r p \<Longrightarrow> q \<le> len \<Longrightarrow>
    entry_seek rd sk (SeekStart q) r = Some (Inr k, r') \<Longrightarrow> entry_session rd sk len r0 r' q"
| entry_seeks_end: "entry_session rd sk len r0 r p \<Longrightarrow> d \<le> len \<Longrightarrow>
    entry_seek rd sk (SeekEnd (- int d)) r = Some (Inr k, r') \<Longrightarrow> entry_session rd sk len r0 r' (len - d)"
| entry_seeks_current: "entry_session rd sk len r0 r p \<Longrightarrow> int p + d = int q \<Longrightarrow> q \<le> len \<Longrightarrow>
    entry_seek rd sk (SeekCurrent d) r = Some (Inr k, r') \<Longrightarrow> entry_session rd sk len r0 r' q"

context start_seekable
begin

lemma entry_seek_current_pos:
  assumes r: "reader_at base bs i s" and q: "int (reader_pos s) + d = int q" "q \<le> length (contents i bs)"
    and l: "length (contents i bs) < 2 ^ 63"
  shows "\<exists>k s'. entry_seek rd sk (SeekCurrent d) s = Some (Inr k, s') \<and> (k = q \<or> k = length (contents i bs)) \<and>
    reader_at base bs i s' \<and> reader_pos s' = q"
proof (cases "er_state s = Finish")
  case True
  have "reader_pos s = length (contents i bs)"
    using r by (simp add: reader_pos_def True reader_at_def entry_index_sizes)
  then have d: "d = - int (length (contents i bs) - q)" using q by simp
  have "entry_seek rd sk (SeekCurrent d) s = entry_seek_end rd sk d s"
    by (simp add: entry_seek_def True)
  moreover have "length (contents i bs) - (length (contents i bs) - q) = q" using q(2) by simp
  ultimately show ?thesis
    using entry_seek_end_ok [OF r, of "length (contents i bs) - q"] l unfolding d by fastforce
next
  case False
  have "nat (int (reader_pos s) + d) = q" using q(1) by simp
  with entry_seek_current_ok [OF r, of d] False q show ?thesis by auto
qed

lemma entry_session_at:
  assumes "entry_session rd sk (length (contents i bs)) r0 r p" and "reader_at base bs i r0"
    and "reader_pos r0 = 0" and l: "length (contents i bs) < 2 ^ 63"
  shows "reader_at base bs i r \<and> reader_pos r = p \<and> p \<le> length (contents i bs)"
  using assms(1)
proof induction
  case entry_start
  then show ?case using assms by simp
next
  case (entry_reads r p n d r')
  from entry_read_ok [of base bs i r n] entry_reads show ?case
    unfolding reads_ok_def by auto
next
  case (entry_seeks_start r p q k r')
  from entry_seek_start_ok [of base bs i r q] entry_seeks_start show ?case
    by (auto simp: entry_seek_def)
next
  case (entry_seeks_end r p d k r')
  from entry_seek_end_ok [of base bs i r d] entry_seeks_end l show ?case
    by (auto simp: entry_seek_def)
next
  case (entry_seeks_current r p d q k r')
  from entry_seek_current_pos [of base bs i r d q] entry_seeks_current l show ?case by auto
qed

end

section \<open>Recursion that does not return\<close>

lemma entry_read_None:
  assumes "\<And>s. I s \<Longrightarrow> \<exists>s'. entry_read_step rd sk n s = Retry s' \<and> I s'" and "I s"
  shows "entry_read rd sk n s = None"
proof -
  have "rd' = rd \<longrightarrow> sk' = sk \<longrightarrow> n' = n \<longrightarrow> \<not> I s" if "entry_read rd' sk' n' s = Some y" for rd' sk' n' s y
  proof (rule entry_read.raw_induct [OF _ that, where P = "\<lambda>rd' sk' n' s y. rd' = rd \<longrightarrow> sk' = sk \<longrightarrow> n' = n \<longrightarrow> \<not> I s"])
    fix er rd' sk' n' s y
    assume IH: "\<And>rd' sk' n' s y. er rd' sk' n' s = Some y \<Longrightarrow> rd' = rd \<longrightarrow> sk' = sk \<longrightarrow> n' = n \<longrightarrow> \<not> I s"
      and e: "(case entry_read_step rd' sk' n' s of Return r \<Rightarrow> Some r | Retry s' \<Rightarrow> er rd' sk' n' s') = Some y"
    show "rd' = rd \<longrightarrow> sk' = sk \<longrightarrow> n' = n \<longrightarrow> \<not> I s"
    proof (intro impI notI)
      assume eq: "rd' = rd" "sk' = sk" "n' = n" and "I s"
      from assms(1) [OF \<open>I s\<close>] obtain s' where "entry_read_step rd sk n s = Retry s'" "I s'" by blast
      with IH [of rd sk n s' y] e eq show False by simp
    qed
  qed
  then show ?thesis using assms(2) by (cases "entry_read rd sk n s") auto
qed

context start_seekable
begin

lemma entry_read_loops:
  assumes b: "blocks_at base (xs @ b # ys) v" "block_id b = Some j" "j \<noteq> i"
    and o: "k < length offs" "fst (offs ! k) = base + length (enc_blocks xs)"
    and s: "inv (er_src s)" "view (er_src s) = v" "pos (er_src s) = base + length (enc_blocks xs)"
      "er_state s = Ready" "er_id s = i" "er_index s = k" "er_offsets s = offs"
  shows "entry_read rd sk n s = None"
proof (rule entry_read_None)
  let ?I = "\<lambda>s. inv (er_src s) \<and> view (er_src s) = v \<and> pos (er_src s) = base + length (enc_blocks xs) \<and>
    er_state s = Ready \<and> er_id s = i \<and> er_index s = k \<and> er_offsets s = offs"
  show "?I s" using s by blast
  fix s :: "'r entry_data_reader" assume I: "?I s"
  then have "blocks_at base (xs @ b # ys) (view (er_src s))" using b(1) by simp
  from block_from_at [OF _ this] I obtain r1 where
    r1: "block_from rd (er_src s) = (Inr (parsed_block b), r1)" "inv r1" "view r1 = v" by metis
  have "blocks_at base (xs @ b # ys) (view r1)" using b(1) r1(3) by simp
  from seek_startE [OF r1(2) blocks_at_length [OF this]] obtain r2 where
    r2: "sk (SeekStart (base + length (enc_blocks xs))) r1 = (Inr (base + length (enc_blocks xs)), r2)"
    "inv r2" "view r2 = v" "pos r2 = base + length (enc_blocks xs)" using r1(3) by metis
  have "move_and_retry sk (s\<lparr>er_src := r1\<rparr>) = Retry (s\<lparr>er_src := r2\<rparr>)"
    using I o r2(1) by (simp add: move_and_retry_def move_to_block_def io_simps)
  then have "entry_read_step rd sk n s = Retry (s\<lparr>er_src := r2\<rparr>)"
    using I b r1(1) by (cases b) (auto simp: entry_read_step_def to_io_Inr)
  then show "\<exists>s'. entry_read_step rd sk n s = Retry s' \<and> ?I s'" using I r2 by auto
qed

end

section \<open>A concrete archive\<close>

text \<open>Two entries whose blocks are interleaved, with a digest that is constant.\<close>

definition demo_hash :: "bytes \<Rightarrow> bytes" where
  "demo_hash bs = replicate 32 0"

definition demo_blocks :: "block list" where
  "demo_blocks = [BStart (EntryName [97]) 0, BStart (EntryName [98]) 1, BContent 0 [1, 2], BContent 1 [3],
     BContent 0 [4], BEnd 1 (demo_hash [3]), BEnd 0 (demo_hash [1, 2, 4])]"

lemma sum_list_sort_key:
  fixes f :: "'a \<Rightarrow> nat"
  shows "sum_list (map f (sort_key g xs)) = sum_list (map f xs)"
  by (metis mset_map mset_sort sum_mset_sum_list)

lemma demo_archive_ok: "archive_ok demo_hash demo_blocks"
proof -
  have "stream demo_hash ([] @ [BStart (EntryName [97]) 0] @ [BStart (EntryName [98]) 1] @ [BContent 0 [1, 2]] @
      [BContent 1 [3]] @ [BContent 0 [4]] @ [BEnd 1 (demo_hash [3])] @ [BEnd 0 (demo_hash [1, 2, 4])])"
    unfolding append_assoc [symmetric]
    by (intro stream.intros) (simp_all add: open_ids_def)
  then have "stream demo_hash demo_blocks" by (simp add: demo_blocks_def)
  moreover have "open_ids demo_blocks = {}" by (auto simp: demo_blocks_def open_ids_def)
  moreover have "\<forall>b\<in>set demo_blocks. wf_block b"
    by (simp add: demo_blocks_def demo_hash_def wf_name_def ENTRY_NAME_MAX_SIZE_def)
  moreover have "length (complete_layer demo_blocks) < 2 ^ 63"
    by (simp add: complete_layer_def length_entries_layer demo_blocks_def stream_footer_def stream_index_def
        enc_block_def enc_footer_def enc_index_def length_concat enc_footer_entry_def length_enc_info
        sum_list_sort_key demo_hash_def o_def BLOCKS_START_def EMPTY_TAIL_OPTS_SERIALIZATION_def)
  ultimately show ?thesis by (simp add: archive_ok_def)
qed

text \<open>And reading them back, through any seekable reader.\<close>

context seekable
begin

lemma files_read:
  assumes A: "archive_ok sha256 (files_blocks sha256 0 files)" and d: "distinct (map fst files)"
    and i: "inv src" and v: "view src = complete_layer (files_blocks sha256 0 files)"
  obtains ar names where "open_entries rd sk src = Inr ar" "list_entries ar = Inr names" "set names = fst ` set files"
    "\<forall>name. get_content rd sk name ar = map_of files name \<and>
      (\<exists>ar'. get_hash rd sk name ar = (Inr (map_option sha256 (map_of files name)), ar'))"
proof -
  let ?bs = "files_blocks sha256 0 files"
  from open_entries_ok [OF A i v] obtain ar footer where
    ar: "open_entries rd sk src = Inr ar" "ar_metadata ar = Some footer" "metadata_ok ?bs footer" "inv (ar_src ar)"
    "view (ar_src ar) = complete_layer ?bs" by blast
  have names: "list_entries ar = Inr (map fst (entries_info footer))"
    "set (map fst (entries_info footer)) = fst ` set files"
    using ar(2,3) by (simp_all add: list_entries_def metadata_ok_def names_files_blocks del: set_map)
      (simp add: set_map)
  have "get_content rd sk name ar = map_of files name \<and>
      (\<exists>ar'. get_hash rd sk name ar = (Inr (map_option sha256 (map_of files name)), ar'))" for name
  proof (cases "map_of (starts ?bs) name")
    case None
    then have "name \<notin> set (map fst (starts ?bs))" by (simp add: map_of_eq_None_iff)
    from get_missing [OF ar(2,3) this] None map_of_files_blocks [OF d, of sha256 name]
    show ?thesis by (simp add: get_content_def)
  next
    case (Some k)
    then have "(name, k) \<in> set (starts ?bs)" by (rule map_of_SomeD)
    from get_content_ok [OF A ar(4,5,2,3) this] get_hash_ok [OF A ar(4,5,2,3) this]
      Some map_of_files_blocks [OF d, of sha256 name]
    show ?thesis by simp
  qed
  with that [OF ar(1) names] show thesis by blast
qed

end

section \<open>Properties\<close>

text \<open>C8: whatever reader gives access to the bytes of a complete archive layer, opening it succeeds,
  lists exactly the names of the archive's entries, and for each of them the recorded hash, the size
  and the whole content, even if its blocks are interleaved with others; other names give nothing.\<close>

theorem read_what_was_written:
  assumes "seekable rd view pos rinv sk" and "rinv src" and "view src = complete_layer bs"
    and "archive_ok sha256 bs"
  shows "\<exists>ar names. open_entries rd sk src = Inr ar \<and> list_entries ar = Inr names \<and>
    set names = set (map fst (starts bs)) \<and>
    (\<forall>name i. (name, i) \<in> set (starts bs) \<longrightarrow>
       get_content rd sk name ar = Some (contents i bs) \<and>
       (\<exists>ar'. get_hash rd sk name ar = (Inr (Some (sha256 (contents i bs))), ar'))) \<and>
    (\<forall>name. name \<notin> set (map fst (starts bs)) \<longrightarrow>
       get_entry rd sk name ar = (Inr None, ar) \<and> get_hash rd sk name ar = (Inr None, ar))"
proof -
  have ss: "start_seekable rd view pos rinv sk" using assms(1) by (simp add: seekable_def)
  from seekable.open_entries_ok [OF assms(1,4,2,3)] obtain ar footer where ar: "open_entries rd sk src = Inr ar"
    "ar_metadata ar = Some footer" "metadata_ok bs footer" "rinv (ar_src ar)"
    "view (ar_src ar) = complete_layer bs" by blast
  from ar(2,3) have "list_entries ar = Inr (map fst (entries_info footer))"
    "set (map fst (entries_info footer)) = set (map fst (starts bs))"
    by (auto simp: list_entries_def metadata_ok_def)
  then show ?thesis
    using ar(1) start_seekable.get_content_ok [OF ss assms(4) ar(4,5,2,3)]
      start_seekable.get_hash_ok [OF ss assms(4) ar(4,5,2,3)]
      start_seekable.get_missing [OF ss ar(2,3)] by metis
qed

text \<open>C7: end to end, nothing assumed of the calls. Any list of files with distinct valid names that
  fits in memory is written, finalized and read back: every call succeeds, the names are those of
  the files, each content comes back entire, and its hash is the one recorded.\<close>

theorem write_read_roundtrip:
  assumes "files_ok files" and "\<And>x. length (sha256 x) = 32"
  shows "\<exists>s0 s1 s2 ar names. archive_writer_init vec_write [] = Inr s0 \<and> add_files sha256 vec_write files s0 = Inr s1 \<and>
    finalize_entries vec_write s1 = (Inr (), s2) \<and>
    open_entries cursor_read cursor_seek (cursor_new (pw_inner (aw_dest s2))) = Inr ar \<and>
    list_entries ar = Inr names \<and> set names = fst ` set files \<and>
    (\<forall>name. get_content cursor_read cursor_seek name ar = map_of files name \<and>
      (\<exists>ar'. get_hash cursor_read cursor_seek name ar = (Inr (map_option sha256 (map_of files name)), ar')))"
proof -
  let ?bs = "files_blocks sha256 0 files"
  have ok: "distinct (map fst files)" "files_size files < 2 ^ 62"
    using assms(1) by (auto simp: files_ok_def)
  have "files_size files + files_size files div 3 + 200 + 0 \<le> min (vec_room []) (2 ^ 64 - 1)"
    using ok(2) by (simp add: vec_room_def)
  then obtain s0 s1 s2 where s: "archive_writer_init vec_write [] = Inr s0"
    "add_files sha256 vec_write files s0 = Inr s1" "finalize_entries vec_write s1 = (Inr (), s2)"
    and out: "pw_inner (aw_dest s2) = complete_layer ?bs" and A: "archive_ok sha256 ?bs"
    by (rule files_written [where ?sha256.0 = sha256, OF vec.room_sink_axioms TrueI assms]) simp
  have "cursor_inv (cursor_new (complete_layer ?bs))" "cur_data (cursor_new (complete_layer ?bs)) = complete_layer ?bs"
    using A by (auto simp: cursor_inv_def cursor_new_def archive_ok_def)
  from cur.files_read [OF A ok(1) this] obtain ar names where r:
    "open_entries cursor_read cursor_seek (cursor_new (pw_inner (aw_dest s2))) = Inr ar" "list_entries ar = Inr names"
    "set names = fst ` set files"
    "\<forall>name. get_content cursor_read cursor_seek name ar = map_of files name \<and>
      (\<exists>ar'. get_hash cursor_read cursor_seek name ar = (Inr (map_option sha256 (map_of files name)), ar'))"
    unfolding out .
  show ?thesis by (intro exI conjI; rule s r)
qed

theorem read_what_was_written_witness:
  "\<exists>ar names. open_entries cursor_read cursor_seek (cursor_new (complete_layer demo_blocks)) = Inr ar \<and>
    list_entries ar = Inr names \<and> set names = {EntryName [97], EntryName [98]} \<and>
    get_content cursor_read cursor_seek (EntryName [97]) ar = Some [1, 2, 4] \<and>
    get_entry cursor_read cursor_seek (EntryName [99]) ar = (Inr None, ar)"
proof -
  have inv: "cursor_inv (cursor_new (complete_layer demo_blocks))"
    using demo_archive_ok by (simp add: cursor_inv_def cursor_new_def archive_ok_def)
  have v: "cur_data (cursor_new (complete_layer demo_blocks)) = complete_layer demo_blocks"
    by (simp add: cursor_new_def)
  have st: "starts demo_blocks = [(EntryName [97], 0), (EntryName [98], 1)]"
    "contents 0 demo_blocks = [1, 2, 4]"
    by (simp_all add: demo_blocks_def)
  from read_what_was_written [OF cur.seekable_axioms inv v demo_archive_ok] obtain ar names where
    ar: "open_entries cursor_read cursor_seek (cursor_new (complete_layer demo_blocks)) = Inr ar"
    "list_entries ar = Inr names" "set names = set (map fst (starts demo_blocks))"
    "\<And>name i. (name, i) \<in> set (starts demo_blocks) \<Longrightarrow>
       get_content cursor_read cursor_seek name ar = Some (contents i demo_blocks)"
    "\<And>name. name \<notin> set (map fst (starts demo_blocks)) \<Longrightarrow>
       get_entry cursor_read cursor_seek name ar = (Inr None, ar)" by metis
  have "get_content cursor_read cursor_seek (EntryName [97]) ar = Some [1, 2, 4]"
    using ar(4) [of "EntryName [97]" 0] by (simp add: st)
  moreover have "get_entry cursor_read cursor_seek (EntryName [99]) ar = (Inr None, ar)"
    by (rule ar(5)) (simp add: st)
  moreover have "set names = {EntryName [97], EntryName [98]}" by (simp add: ar(3) st)
  ultimately show ?thesis using ar(1,2) by blast
qed

theorem write_read_roundtrip_witness:
  "let files = [(EntryName [98], [1, 2]), (EntryName [97], [])] in
   \<exists>s0 s1 s2 ar names. archive_writer_init vec_write [] = Inr s0 \<and> add_files demo_hash vec_write files s0 = Inr s1 \<and>
    finalize_entries vec_write s1 = (Inr (), s2) \<and>
    open_entries cursor_read cursor_seek (cursor_new (pw_inner (aw_dest s2))) = Inr ar \<and>
    list_entries ar = Inr names \<and> set names = fst ` set files \<and>
    (\<forall>name. get_content cursor_read cursor_seek name ar = map_of files name \<and>
      (\<exists>ar'. get_hash cursor_read cursor_seek name ar =
         (Inr (map_option demo_hash (map_of files name)), ar')))"
  unfolding Let_def
proof (rule write_read_roundtrip)
  show "files_ok [(EntryName [98], [1, 2]), (EntryName [97], [])]"
    by (simp add: files_ok_def wf_name_def ENTRY_NAME_MAX_SIZE_def)
qed (simp add: demo_hash_def)

text \<open>C9: random access to an entry. In any state a client reaches by reads and seeks on a complete
  entry, a read returns the next bytes of the content and makes progress before the end; a seek from the
  start or from the current position goes to the position asked for; a seek from the end goes there
  too, but returns the size of the entry instead of the new position.\<close>

theorem entry_random_access:
  assumes "seekable rd view pos rinv sk" and "rinv src" and "view src = complete_layer bs"
    and "archive_ok sha256 bs" and "(name, i) \<in> set (starts bs)"
    and "open_entries rd sk src = Inr ar" and "get_entry rd sk name ar = (Inr (Some (name', r0)), ar')"
    and "c = contents i bs" and "entry_session rd sk (length c) r0 r p"
  shows "p \<le> length c \<and> entry_get_size r = length c \<and>
    (\<exists>k r'. entry_read rd sk n r = Some (Inr (take k (drop p c)), r') \<and> k \<le> n \<and>
       (0 < n \<longrightarrow> p < length c \<longrightarrow> 0 < k)) \<and>
    (\<exists>r'. entry_read_to_end rd sk (2 ^ 63 - 1) r = Some (Inr (drop p c), r')) \<and>
    (\<forall>q \<le> length c. \<exists>r'. entry_seek rd sk (SeekStart q) r = Some (Inr q, r')) \<and>
    (\<forall>d \<le> length c. \<exists>r'. entry_seek rd sk (SeekEnd (- int d)) r = Some (Inr (length c), r')) \<and>
    (\<forall>q \<le> length c. \<exists>k r'. entry_seek rd sk (SeekCurrent (int q - int p)) r = Some (Inr k, r') \<and>
       (k = q \<or> k = length c))"
proof -
  have ss: "start_seekable rd view pos rinv sk" using assms(1) by (simp add: seekable_def)
  from seekable.open_entries_ok [OF assms(1,4,2,3)] assms(6) obtain footer where
    ar: "ar_metadata ar = Some footer" "metadata_ok bs footer" "rinv (ar_src ar)"
    "view (ar_src ar) = complete_layer bs" by auto
  from start_seekable.get_entry_ok [OF ss assms(4) ar(3,4,1,2) assms(5)] assms(7) have
    r0: "start_seekable.reader_at view pos rinv BLOCKS_START bs i r0" "start_seekable.reader_pos r0 = 0" by auto
  have l: "length c < 2 ^ 63 - 1"
    using assms(4) contents_length [of i bs]
    by (simp add: archive_ok_def complete_layer_def length_entries_layer assms(8) BLOCKS_START_def)
  then have l': "length (contents i bs) < 2 ^ 63" by (simp add: assms(8))
  from start_seekable.entry_session_at [OF ss assms(9) [unfolded assms(8)] r0 l']
  have r: "start_seekable.reader_at view pos rinv BLOCKS_START bs i r" "start_seekable.reader_pos r = p"
    "p \<le> length c" by (auto simp: assms(8))
  have sz: "entry_get_size r = length c"
    using r(1) l' by (simp add: entry_get_size_def start_seekable.reader_at_def [OF ss] entry_index_sizes assms(8))
  have rd: "\<exists>k r'. entry_read rd sk n r = Some (Inr (take k (drop p c)), r') \<and> k \<le> n \<and>
       (0 < n \<longrightarrow> p < length c \<longrightarrow> 0 < k)"
    using start_seekable.entry_read_ok [OF ss r(1), of n] r(2)
    unfolding start_seekable.reads_ok_def [OF ss] assms(8) by blast
  have te: "\<exists>r'. entry_read_to_end rd sk (2 ^ 63 - 1) r = Some (Inr (drop p c), r')"
    using start_seekable.entry_read_to_end_ok [OF ss r(1), of "2 ^ 63 - 1"] l r(2) by (auto simp: assms(8))
  have s1: "\<forall>q \<le> length c. \<exists>r'. entry_seek rd sk (SeekStart q) r = Some (Inr q, r')"
    using start_seekable.entry_seek_start_ok [OF ss r(1)] by (auto simp: entry_seek_def assms(8))
  have s2: "\<forall>d \<le> length c. \<exists>r'. entry_seek rd sk (SeekEnd (- int d)) r = Some (Inr (length c), r')"
    using start_seekable.entry_seek_end_ok [OF ss r(1)] l' by (fastforce simp: entry_seek_def assms(8))
  have s3: "\<forall>q \<le> length c. \<exists>k r'. entry_seek rd sk (SeekCurrent (int q - int p)) r = Some (Inr k, r') \<and>
       (k = q \<or> k = length c)"
  proof (intro allI impI)
    fix q assume q: "q \<le> length c"
    have "int (start_seekable.reader_pos r) + (int q - int p) = int q" by (simp add: r(2))
    from start_seekable.entry_seek_current_pos [OF ss r(1) this q [unfolded assms(8)] l']
    show "\<exists>k r'. entry_seek rd sk (SeekCurrent (int q - int p)) r = Some (Inr k, r') \<and>
       (k = q \<or> k = length c)" unfolding assms(8) by blast
  qed
  show ?thesis using r(3) sz rd te s1 s2 s3 by blast
qed

text \<open>After a seek to the second byte of the first entry.\<close>

theorem entry_random_access_witness:
  "\<exists>r k r'. entry_session cursor_read cursor_seek 3 r r 0 \<and> entry_get_size r = 3 \<and>
    entry_seek cursor_read cursor_seek (SeekStart 1) r = Some (Inr 1, r') \<and>
    entry_read_to_end cursor_read cursor_seek (2 ^ 63 - 1) r' = Some (Inr [2, 4], k)"
proof -
  let ?src = "cursor_new (complete_layer demo_blocks)"
  have inv: "cursor_inv ?src" and v: "cur_data ?src = complete_layer demo_blocks"
    using demo_archive_ok by (auto simp: cursor_inv_def cursor_new_def archive_ok_def)
  have st: "(EntryName [97], 0) \<in> set (starts demo_blocks)" and c: "[1, 2, 4] = contents 0 demo_blocks"
    by (simp_all add: demo_blocks_def)
  from cur.open_entries_ok [OF demo_archive_ok inv v] obtain ar footer where
    ar: "open_entries cursor_read cursor_seek ?src = Inr ar" "ar_metadata ar = Some footer"
    "metadata_ok demo_blocks footer" "cursor_inv (ar_src ar)" "cur_data (ar_src ar) = complete_layer demo_blocks"
    by blast
  from cur.get_entry_ok [OF demo_archive_ok ar(4,5,2,3) st] obtain r0 ar' where
    g: "get_entry cursor_read cursor_seek (EntryName [97]) ar = (Inr (Some (EntryName [97], r0)), ar')" by blast
  note access = entry_random_access [OF cur.seekable_axioms inv v demo_archive_ok st ar(1) g c, of _ _ 0]
  have s0: "entry_session cursor_read cursor_seek (length [1, 2, 4 :: u8]) r0 r0 0" by (rule entry_start)
  from access [OF s0] obtain r' where r': "entry_seek cursor_read cursor_seek (SeekStart 1) r0 = Some (Inr 1, r')"
    by fastforce
  have s1: "entry_session cursor_read cursor_seek (length [1, 2, 4 :: u8]) r0 r' 1"
    by (rule entry_seeks_start [OF s0 _ r']) simp
  from access [OF s1] obtain k where
    "entry_read_to_end cursor_read cursor_seek (2 ^ 63 - 1) r' = Some (Inr [2, 4], k)" by auto
  moreover have "entry_get_size r0 = 3" using access [OF s0] by simp
  moreover have "entry_session cursor_read cursor_seek 3 r0 r0 0" by (rule entry_start)
  ultimately show ?thesis using r' by blast
qed

text \<open>C20: the content's reader trusts the index. If the recorded offset of the current block leads to a
  block of another entry, where the reader already is, \<open>read\<close> calls itself for ever. The value \<open>None\<close> says
  just that: an error and a panic (\<open>IoPanic\<close>) are values that \<open>entry_read\<close> returns. A crafted archive can
  hold such an index.\<close>

theorem crafted_index_never_returns:
  assumes "start_seekable rd view pos rinv sk" and "rinv (er_src s)"
    and "blocks_at base (xs @ b # ys) (view (er_src s))" and "block_id b = Some j" and "j \<noteq> er_id s"
    and "er_state s = Ready" and "pos (er_src s) = base + length (enc_blocks xs)"
    and "er_index s < length (er_offsets s)" and "fst (er_offsets s ! er_index s) = pos (er_src s)"
  shows "entry_read rd sk n s = None"
  using start_seekable.entry_read_loops [OF assms(1,3,4,5,8) _ assms(2) refl assms(7,6) refl refl refl] assms(7,9)
  by simp
text \<open>Two entries start one after the other; the index of the first one, crafted, points twice to its
  neighbour's block.\<close>

theorem crafted_index_never_returns_witness:
  "let bs = [BStart (EntryName [97]) 0, BStart (EntryName [98]) 1];
       s = \<lparr>er_src = \<lparr>cur_data = enc_blocks bs, cur_pos = length (enc_block (hd bs))\<rparr>, er_state = Ready,
         er_id = 0, er_index = 1, er_offsets = [(0, 0), (length (enc_block (hd bs)), 0)]\<rparr>
   in entry_read cursor_read cursor_seek 10 s = None"
  unfolding Let_def
  by (rule crafted_index_never_returns [OF cur.start_seekable_axioms, where base = 0
        and xs = "[BStart (EntryName [97]) 0]" and b = "BStart (EntryName [98]) 1" and ys = "[]" and j = 1])
    (simp_all add: cursor_inv_def blocks_at_def enc_block_def wf_name_def ENTRY_NAME_MAX_SIZE_def)

end
