(* ===== verification/Base64.thy ===== *)
theory Base64
  imports Prelude
begin

text \<open>
  The Base64 codec of \<^verbatim>\<open>mla/src/base64.rs\<close>, used for key files. Groups are packed in a 32-bit
  word with the shifts and masks of the code; zeroization is not modelled.
\<close>

section \<open>Encoding\<close>

definition BASE64_CHARS :: bytes where
  "BASE64_CHARS = ascii ''ABCDEFGHIJKLMNOPQRSTUVWXYZabcdefghijklmnopqrstuvwxyz0123456789+/''"

definition encode_group :: "bytes \<Rightarrow> bytes" where
  "encode_group chunk =
     (let n = length chunk;
          val = foldl (\<lambda>v b. push_bit 8 v OR ucast b) (0 :: u32) chunk;
          val = (if n = 1 then push_bit 16 val else if n = 2 then push_bit 8 val else val)
      in map (\<lambda>j. if j < n + 1 then BASE64_CHARS ! unat (drop_bit ((3 - j) * 6) val AND 63) else 61)
           [0, 1, 2, 3])"

function encode_loop :: "bytes \<Rightarrow> bytes" where
  "encode_loop data = (if data = [] then [] else encode_group (take 3 data) @ encode_loop (drop 3 data))"
  by pat_completeness auto
termination
  by (relation "measure length") auto

declare encode_loop.simps [simp del]

definition base64_encode :: "bytes \<Rightarrow> error + bytes" where
  "base64_encode data =
     (case Option.bind (map_option (\<lambda>x. x div 3) (checked_add (length data) 2))
             (\<lambda>x. checked_mul x 4) of
        None \<Rightarrow> Inl SerializationError
      | Some capacity \<Rightarrow> Inr (encode_loop data))"

section \<open>Decoding\<close>

definition char_value :: "u8 \<Rightarrow> u8 option" where
  "char_value c =
     (if 65 \<le> c \<and> c \<le> 90 then Some (c - 65)
      else if 97 \<le> c \<and> c \<le> 122 then Some (c - 97 + 26)
      else if 48 \<le> c \<and> c \<le> 57 then Some (c - 48 + 52)
      else if c = 43 then Some 62
      else if c = 47 then Some 63
      else None)"

fun chunk_values :: "bytes \<Rightarrow> error + bytes" where
  "chunk_values [] = Inr []"
| "chunk_values (c # cs) =
     (case char_value c of
        None \<Rightarrow> Inl DeserializationError
      | Some i \<Rightarrow> (case chunk_values cs of Inl e \<Rightarrow> Inl e | Inr is \<Rightarrow> Inr (i # is)))"

definition decode_group :: "bytes \<Rightarrow> bytes" where
  "decode_group vals =
     (let n = length vals;
          val = foldl (\<lambda>v i. push_bit 6 v OR ucast i) (0 :: u32) vals;
          val = (if n = 3 then push_bit 6 val else if n = 2 then push_bit 12 val else val)
      in map (\<lambda>j. ucast (drop_bit ((2 - j) * 8) val AND 255)) (filter (\<lambda>j. j < n - 1) [0, 1, 2]))"

function decode_loop :: "bytes \<Rightarrow> error + bytes" where
  "decode_loop encoded =
     (if encoded = [] then Inr []
      else case chunk_values (take 4 encoded) of
          Inl e \<Rightarrow> Inl e
        | Inr vals \<Rightarrow>
            (case decode_loop (drop 4 encoded) of
               Inl e \<Rightarrow> Inl e
             | Inr out \<Rightarrow> Inr (decode_group vals @ out)))"
  by pat_completeness auto
termination
  by (relation "measure length") auto

declare decode_loop.simps [simp del]

definition strip_padding :: "bytes \<Rightarrow> bytes" where
  "strip_padding encoded =
     (if 2 \<le> length encoded \<and> last encoded = 61 \<and> last (butlast encoded) = 61
      then butlast (butlast encoded)
      else if encoded \<noteq> [] \<and> last encoded = 61 then butlast encoded
      else encoded)"

definition base64_decode :: "bytes \<Rightarrow> error + bytes" where
  "base64_decode encoded =
     (if length encoded mod 4 \<noteq> 0 then Inl DeserializationError
      else case checked_mul (length encoded div 4) 3 of
          None \<Rightarrow> Inl DeserializationError
        | Some decoded_len \<Rightarrow> decode_loop (strip_padding encoded))"

section \<open>One group\<close>

lemma char_value_char: "i \<le> 63 \<Longrightarrow> char_value (BASE64_CHARS ! unat i) = Some i"
  using u8_exhaust [of "\<lambda>i. i \<le> 63 \<longrightarrow> char_value (BASE64_CHARS ! unat i) = Some i" i]
  by (rule impE) (assumption | code_simp)+

lemma unat_mask: "unat ((v :: u32) AND 63) = unat (ucast v AND 63 :: u8)"
proof -
  have "ucast (v AND 63) = (ucast v AND 63 :: u8)"
    by (rule bit_eqI) (auto simp: bit_simps)
  moreover have "v AND 63 \<le> 63" by (rule word_and_le1)
  then have "unat (v AND 63) < 256" by (simp add: word_le_nat_alt)
  then have "unat (ucast (v AND 63) :: u8) = unat (v AND 63)"
    unfolding unsigned_ucast_eq by (simp add: take_bit_nat_eq_self)
  ultimately show ?thesis by simp
qed

lemma less_8_cases: "(n :: nat) < 8 \<Longrightarrow> n \<in> {0, 1, 2, 3, 4, 5, 6, 7}"
  by (simp add: numeral_eq_Suc less_Suc_eq)

lemma bit_u8_high: "8 \<le> n \<Longrightarrow> \<not> bit (b :: u8) n"
  using bit_imp_le_length [of b n] by auto

definition sextet :: "u32 \<Rightarrow> nat \<Rightarrow> u8" where
  "sextet val j = ucast (drop_bit ((3 - j) * 6) val) AND 63"

lemma sextets_3:
  "decode_group (map (sextet (push_bit 8 (push_bit 8 (ucast a) OR ucast b) OR ucast c)) [0, 1, 2, 3])
   = [a, b, c]"
  unfolding decode_group_def Let_def sextet_def
  by simp (intro conjI; rule bit_eqI; simp; drule less_8_cases; elim insertE;
     simp add: bit_simps bit_u8_high)

lemma sextets_2:
  "decode_group (map (sextet (push_bit 8 (push_bit 8 (ucast a) OR ucast b))) [0, 1, 2]) = [a, b]"
  unfolding decode_group_def Let_def sextet_def
  by simp (intro conjI; rule bit_eqI; simp; drule less_8_cases; elim insertE;
     simp add: bit_simps bit_u8_high)

lemma sextets_1:
  "decode_group (map (sextet (push_bit 16 (ucast a))) [0, 1]) = [a]"
  unfolding decode_group_def Let_def sextet_def
  by simp (rule bit_eqI; simp; drule less_8_cases; elim insertE;
     simp add: bit_simps bit_u8_high)

lemma sextet_le: "sextet val j \<le> 63"
  unfolding sextet_def by (rule word_and_le1)

lemma chunk_values_chars:
  "chunk_values (map (\<lambda>j. BASE64_CHARS ! unat (sextet val j)) js) = Inr (map (sextet val) js)"
  by (induction js) (simp_all add: char_value_char sextet_le)

lemma encode_group_3:
  "encode_group [a, b, c] = map (\<lambda>j. BASE64_CHARS ! unat (sextet (push_bit 8 (push_bit 8 (ucast a)
     OR ucast b) OR ucast c) j)) [0, 1, 2, 3]"
  by (simp add: encode_group_def sextet_def unat_mask del: upt_rec_numeral)

lemma encode_group_2:
  "encode_group [a, b] = map (\<lambda>j. BASE64_CHARS ! unat (sextet (push_bit 8 (push_bit 8 (ucast a)
     OR ucast b)) j)) [0, 1, 2] @ [61]"
  by (simp add: encode_group_def sextet_def unat_mask)

lemma encode_group_1:
  "encode_group [a] = map (\<lambda>j. BASE64_CHARS ! unat (sextet (push_bit 16 (ucast a)) j)) [0, 1]
     @ [61, 61]"
  by (simp add: encode_group_def sextet_def unat_mask Let_def)

lemma length_encode_group: "length (encode_group chunk) = 4"
  by (simp add: encode_group_def Let_def)

lemma length_encode_loop: "length (encode_loop data) = 4 * ((length data + 2) div 3)"
proof (induction data rule: encode_loop.induct)
  case (1 data)
  show ?case
  proof (cases "data = []")
    case True
    then show ?thesis by (simp add: encode_loop.simps)
  next
    case False
    then have "length (encode_loop data) = 4 + 4 * ((length data - 3 + 2) div 3)"
      by (subst encode_loop.simps) (simp add: 1 length_encode_group)
    also have "\<dots> = 4 * ((length data + 2) div 3)"
    proof (cases "3 \<le> length data")
      case True
      then have "length data + 2 = (length data - 3 + 2) + 3" by simp
      then show ?thesis by (simp only: div_add_self2) simp
    next
      case False
      with \<open>data \<noteq> []\<close> have "length data = 1 \<or> length data = 2"
        by (cases "length data") auto
      then show ?thesis by auto
    qed
    finally show ?thesis .
  qed
qed

lemma char_not_pad: "BASE64_CHARS ! unat (sextet v j) \<noteq> 61"
proof
  assume "BASE64_CHARS ! unat (sextet v j) = 61"
  then have "char_value 61 = Some (sextet v j)"
    using char_value_char [OF sextet_le, of v j] by simp
  then show False by (simp add: char_value_def)
qed

lemma strip_padding_append:
  "2 \<le> length bs \<Longrightarrow> strip_padding (as @ bs) = as @ strip_padding bs"
proof -
  assume l: "2 \<le> length bs"
  then have "bs \<noteq> []" "butlast bs \<noteq> []"
    by (auto simp flip: length_greater_0_conv)
  with l show ?thesis by (auto simp: strip_padding_def butlast_append)
qed

lemma decode_loop_group:
  assumes "length chunk = 4" and "chunk_values chunk = Inr vals"
  shows "decode_loop (chunk @ bs) = (case decode_loop bs of Inl e \<Rightarrow> Inl e | Inr out \<Rightarrow> Inr (decode_group vals @ out))"
  using assms by (subst decode_loop.simps) auto

lemma decode_loop_last:
  assumes "chunk \<noteq> []" "length chunk \<le> 4" and "chunk_values chunk = Inr vals"
  shows "decode_loop chunk = Inr (decode_group vals)"
  using assms by (subst decode_loop.simps, subst decode_loop.simps) auto

lemma decode_encode_loop: "decode_loop (strip_padding (encode_loop data)) = Inr data"
proof (induction data rule: encode_loop.induct)
  case (1 data)
  consider "data = []" | a where "data = [a]" | a b where "data = [a, b]"
    | a b c rest where "data = a # b # c # rest"
    by (metis list.exhaust)
  then show ?case
  proof cases
    case 1
    then show ?thesis by (simp add: encode_loop.simps strip_padding_def decode_loop.simps)
  next
    case 2
    let ?val = "push_bit 16 (ucast a)"
    have "encode_loop data = map (\<lambda>j. BASE64_CHARS ! unat (sextet ?val j)) [0, 1] @ [61, 61]"
      by (subst encode_loop.simps) (simp add: 2 encode_group_1 encode_loop.simps)
    then have "strip_padding (encode_loop data) = map (\<lambda>j. BASE64_CHARS ! unat (sextet ?val j)) [0, 1]"
      by (simp add: strip_padding_def)
    then show ?thesis
      using decode_loop_last [OF _ _ chunk_values_chars, of ?val "[0, 1]"] sextets_1 by (simp add: 2)
  next
    case 3
    let ?val = "push_bit 8 (push_bit 8 (ucast a) OR ucast b)"
    have "encode_loop data = map (\<lambda>j. BASE64_CHARS ! unat (sextet ?val j)) [0, 1, 2] @ [61]"
      by (subst encode_loop.simps) (simp add: 3 encode_group_2 encode_loop.simps)
    then have "strip_padding (encode_loop data) = map (\<lambda>j. BASE64_CHARS ! unat (sextet ?val j)) [0, 1, 2]"
      by (simp add: strip_padding_def char_not_pad)
    then show ?thesis
      using decode_loop_last [OF _ _ chunk_values_chars, of ?val "[0, 1, 2]"] sextets_2 by (simp add: 3)
  next
    case 4
    let ?val = "push_bit 8 (push_bit 8 (ucast a) OR ucast b) OR ucast c"
    let ?g = "map (\<lambda>j. BASE64_CHARS ! unat (sextet ?val j)) [0, 1, 2, 3]"
    have e: "encode_loop data = ?g @ encode_loop rest"
      by (subst encode_loop.simps) (simp add: 4 encode_group_3)
    have "strip_padding (encode_loop data) = ?g @ strip_padding (encode_loop rest)"
    proof (cases "rest = []")
      case True
      then show ?thesis
        unfolding e by (simp add: encode_loop.simps strip_padding_def char_not_pad)
    next
      case False
      then have "2 \<le> length (encode_loop rest)"
        by (cases rest) (simp_all add: length_encode_loop)
      then show ?thesis unfolding e by (rule strip_padding_append)
    qed
    moreover have "decode_loop (strip_padding (encode_loop rest)) = Inr rest"
      using 1 [of] 4 by simp
    ultimately show ?thesis
      using decode_loop_group [OF _ chunk_values_chars, of ?val "[0, 1, 2, 3]"] sextets_3 [of a b c]
      by (simp add: 4)
  qed
qed

section \<open>Properties\<close>

text \<open>C19: decoding an encoding gives the data back, and the encoding has four characters for every
  started group of three bytes; it fails only if its length does not fit 64 bits.\<close>

theorem base64_roundtrip:
  assumes "4 * ((length data + 2) div 3) < 2 ^ 64" and "length data + 2 < 2 ^ 64"
  shows "\<exists>encoded. base64_encode data = Inr encoded \<and>
           length encoded = 4 * ((length data + 2) div 3) \<and> base64_decode encoded = Inr data"
proof (intro exI conjI)
  show "base64_encode data = Inr (encode_loop data)"
    using assms by (simp add: base64_encode_def checked_add_def checked_mul_def mult.commute)
  show "length (encode_loop data) = 4 * ((length data + 2) div 3)"
    by (rule length_encode_loop)
  show "base64_decode (encode_loop data) = Inr data"
    using assms decode_encode_loop [of data]
    by (simp add: base64_decode_def length_encode_loop checked_mul_def)
qed

theorem base64_roundtrip_witness:
  "\<exists>encoded. base64_encode [77, 97] = Inr encoded \<and> length encoded = 4 * ((length [77 :: u8, 97] + 2) div 3)
     \<and> base64_decode encoded = Inr [77, 97]"
  by (rule base64_roundtrip) simp_all

end
