(* ===== verification/AesGcm.thy ===== *)
theory AesGcm
  imports Prelude
begin

text \<open>
  AES-256-GCM as \<^verbatim>\<open>mla/src/crypto/aesgcm/mod.rs\<close> builds it, incrementally, from three primitives of
  third-party crates, gathered in the record \<open>gcm_prims\<close>: the AES block cipher, the key stream of
  \<^verbatim>\<open>Ctr128BE\<close> (a byte for each position) and the GHASH of a list of blocks. The incremental
  encryption, for any cutting of the plaintext into calls, gives the ciphertext and the tag of the
  one-shot definition; decryption inverts it and recomputes the same tag.
\<close>

section \<open>Primitives and constants\<close>

record gcm_prims =
  gp_aes :: "bytes \<Rightarrow> bytes \<Rightarrow> bytes"
  gp_keystream :: "bytes \<Rightarrow> bytes \<Rightarrow> nat \<Rightarrow> u8"
  gp_ghash :: "bytes \<Rightarrow> bytes list \<Rightarrow> bytes"

text \<open>A GHASH is a block.\<close>

definition gcm_prims_ok :: "gcm_prims \<Rightarrow> bool" where
  "gcm_prims_ok G \<longleftrightarrow> (\<forall>h bs. length (gp_ghash G h bs) = 16)"

definition BLOCK_SIZE :: nat where "BLOCK_SIZE = 16"
definition TAG_LENGTH :: nat where "TAG_LENGTH = BLOCK_SIZE"
definition KEY_SIZE :: nat where "KEY_SIZE = 32"
definition NONCE_AES_SIZE :: nat where "NONCE_AES_SIZE = 12"
definition KEY_COMMITMENT_SIZE :: nat where "KEY_COMMITMENT_SIZE = KEY_SIZE * 2"
definition AES256_GCM_MAX_PLAINTEXT_LENGTH :: nat where
  "AES256_GCM_MAX_PLAINTEXT_LENGTH = 2 ^ 39 - 256"

section \<open>The code's cipher\<close>

record aes_gcm256 =
  ag_key :: bytes
  ag_counter_block :: bytes
  ag_cipher_pos :: nat
  ag_ghash_key :: bytes
  ag_ghash :: "bytes list"
  ag_ad_bits_len :: nat
  ag_current_block :: bytes
  ag_bytes_encrypted :: nat

text \<open>\<^verbatim>\<open>GHash::update_padded\<close>: whole blocks, the last one filled with zeros.\<close>

function padded_blocks :: "bytes \<Rightarrow> bytes list" where
  "padded_blocks bs =
     (if bs = [] then []
      else if length bs < BLOCK_SIZE then [bs @ replicate (BLOCK_SIZE - length bs) 0]
      else take BLOCK_SIZE bs # padded_blocks (drop BLOCK_SIZE bs))"
  by pat_completeness auto
termination
  by (relation "measure length") (auto simp: BLOCK_SIZE_def)

declare padded_blocks.simps [simp del]

definition ghash_update :: "bytes list \<Rightarrow> aes_gcm256 \<Rightarrow> aes_gcm256" where
  "ghash_update blocks s = s\<lparr>ag_ghash := ag_ghash s @ blocks\<rparr>"

text \<open>\<^verbatim>\<open>StreamCipher::apply_keystream\<close> from the current position of the counter.\<close>

definition xor_keystream :: "gcm_prims \<Rightarrow> bytes \<Rightarrow> bytes \<Rightarrow> nat \<Rightarrow> bytes \<Rightarrow> bytes" where
  "xor_keystream G key ctr p buf = map2 (XOR) buf (map (gp_keystream G key ctr) [p..<p + length buf])"

definition apply_keystream :: "gcm_prims \<Rightarrow> bytes \<Rightarrow> aes_gcm256 \<Rightarrow> bytes \<times> aes_gcm256" where
  "apply_keystream G buf s =
     (xor_keystream G (ag_key s) (ag_counter_block s) (ag_cipher_pos s) buf,
      s\<lparr>ag_cipher_pos := ag_cipher_pos s + length buf\<rparr>)"

definition counter_block_of :: "bytes \<Rightarrow> bytes" where
  "counter_block_of nonce = take 12 nonce @ [0, 0, 0, 1]"

definition aes_gcm_new :: "gcm_prims \<Rightarrow> bytes \<Rightarrow> bytes \<Rightarrow> bytes \<Rightarrow> error + aes_gcm256" where
  "aes_gcm_new G key nonce associated_data =
     (if AES256_GCM_MAX_PLAINTEXT_LENGTH \<le> length associated_data then Inl Panic
      else case checked_mul (length associated_data) 8 of
          None \<Rightarrow> Inl Panic
        | Some bits \<Rightarrow>
            Inr (ghash_update (padded_blocks associated_data)
              \<lparr>ag_key = key, ag_counter_block = counter_block_of nonce, ag_cipher_pos = BLOCK_SIZE,
               ag_ghash_key = gp_aes G key (replicate BLOCK_SIZE 0), ag_ghash = [],
               ag_ad_bits_len = bits, ag_current_block = [], ag_bytes_encrypted = 0\<rparr>))"

text \<open>The loop over \<^verbatim>\<open>chunks_exact_mut(BLOCK_SIZE)\<close>, and its remainder.\<close>

function encrypt_chunks :: "gcm_prims \<Rightarrow> bytes \<Rightarrow> aes_gcm256 \<Rightarrow> bytes \<times> aes_gcm256" where
  "encrypt_chunks G buf s =
     (if length buf < BLOCK_SIZE
      then (if buf = [] then ([], s)
            else case apply_keystream G buf s of
                (out, s') \<Rightarrow> (out, s'\<lparr>ag_current_block := ag_current_block s' @ out\<rparr>))
      else case apply_keystream G (take BLOCK_SIZE buf) s of
          (chunk, s') \<Rightarrow>
            (case encrypt_chunks G (drop BLOCK_SIZE buf) (ghash_update [chunk] s') of
               (out, s'') \<Rightarrow> (chunk @ out, s'')))"
  by pat_completeness auto
termination
  by (relation "measure (\<lambda>(G, buf, s). length buf)") (auto simp: BLOCK_SIZE_def)

declare encrypt_chunks.simps [simp del]

definition saturating_add :: "nat \<Rightarrow> nat \<Rightarrow> nat" where
  "saturating_add a b = min (a + b) (2 ^ 64 - 1)"

definition aes_gcm_encrypt :: "gcm_prims \<Rightarrow> bytes \<Rightarrow> aes_gcm256 \<Rightarrow> error + bytes \<times> aes_gcm256" where
  "aes_gcm_encrypt G buffer s =
     (case checked_add (ag_bytes_encrypted s) (length buffer) of
        None \<Rightarrow> Inl Panic
      | Some n \<Rightarrow>
          if AES256_GCM_MAX_PLAINTEXT_LENGTH \<le> saturating_add n (ag_ad_bits_len s div 8) then Inl Panic
          else let s1 = s\<lparr>ag_bytes_encrypted := n\<rparr>
            in if ag_current_block s1 = [] then Inr (encrypt_chunks G buffer s1)
               else if length (ag_current_block s1) + length buffer < BLOCK_SIZE
               then (case apply_keystream G buffer s1 of
                   (out, s2) \<Rightarrow> Inr (out, s2\<lparr>ag_current_block := ag_current_block s2 @ out\<rparr>))
               else let k = BLOCK_SIZE - length (ag_current_block s1)
                 in (case apply_keystream G (take k buffer) s1 of
                     (in_block, s2) \<Rightarrow>
                       (case encrypt_chunks G (drop k buffer)
                            (ghash_update [ag_current_block s2 @ in_block] (s2\<lparr>ag_current_block := []\<rparr>)) of
                          (out, s3) \<Rightarrow> Inr (in_block @ out, s3))))"

definition len_block :: "nat \<Rightarrow> nat \<Rightarrow> bytes" where
  "len_block ad_bits buffer_bits = to_be 8 ad_bits @ to_be 8 buffer_bits"

definition finish_tag :: "gcm_prims \<Rightarrow> aes_gcm256 \<Rightarrow> bytes" where
  "finish_tag G s =
     fst (apply_keystream G (gp_ghash G (ag_ghash_key s) (ag_ghash s)) (s\<lparr>ag_cipher_pos := 0\<rparr>))"

definition aes_gcm_into_tag :: "gcm_prims \<Rightarrow> aes_gcm256 \<Rightarrow> error + bytes" where
  "aes_gcm_into_tag G s =
     (case checked_mul (ag_bytes_encrypted s) 8 of
        None \<Rightarrow> Inl Panic
      | Some buffer_bits \<Rightarrow>
          Inr (finish_tag G (ghash_update [len_block (ag_ad_bits_len s) buffer_bits]
             (ghash_update (padded_blocks (ag_current_block s)) s))))"

definition decrypt_unauthenticated :: "gcm_prims \<Rightarrow> bytes \<Rightarrow> aes_gcm256 \<Rightarrow> bytes \<times> aes_gcm256" where
  "decrypt_unauthenticated G buffer s = apply_keystream G buffer s"

function decrypt_chunks :: "gcm_prims \<Rightarrow> bytes \<Rightarrow> aes_gcm256 \<Rightarrow> bytes \<times> aes_gcm256" where
  "decrypt_chunks G buf s =
     (if length buf < BLOCK_SIZE
      then (if buf = [] then ([], s)
            else apply_keystream G buf (ghash_update (padded_blocks buf) s))
      else case apply_keystream G (take BLOCK_SIZE buf) (ghash_update [take BLOCK_SIZE buf] s) of
          (chunk, s') \<Rightarrow>
            (case decrypt_chunks G (drop BLOCK_SIZE buf) s' of (out, s'') \<Rightarrow> (chunk @ out, s'')))"
  by pat_completeness auto
termination
  by (relation "measure (\<lambda>(G, buf, s). length buf)") (auto simp: BLOCK_SIZE_def)

declare decrypt_chunks.simps [simp del]

text \<open>Returns the decrypted buffer and the computed tag; the callers drop the cipher afterwards.\<close>

definition aes_gcm_decrypt :: "gcm_prims \<Rightarrow> bytes \<Rightarrow> aes_gcm256 \<Rightarrow> error + bytes \<times> bytes" where
  "aes_gcm_decrypt G buffer s =
     (if AES256_GCM_MAX_PLAINTEXT_LENGTH \<le> saturating_add (length buffer) (ag_ad_bits_len s div 8)
      then Inl Panic
      else case decrypt_chunks G buffer s of
          (out, s1) \<Rightarrow>
            (case checked_mul (length buffer) 8 of
               None \<Rightarrow> Inl Panic
             | Some buffer_bits \<Rightarrow>
                 Inr (out, finish_tag G (ghash_update [len_block (ag_ad_bits_len s1) buffer_bits] s1))))"

section \<open>Reference: GCM in one shot\<close>

definition gcm_ct :: "gcm_prims \<Rightarrow> bytes \<Rightarrow> bytes \<Rightarrow> bytes \<Rightarrow> bytes" where
  "gcm_ct G key nonce pt = xor_keystream G key (counter_block_of nonce) 16 pt"

definition gcm_tag :: "gcm_prims \<Rightarrow> bytes \<Rightarrow> bytes \<Rightarrow> bytes \<Rightarrow> bytes \<Rightarrow> bytes" where
  "gcm_tag G key nonce aad ct =
     xor_keystream G key (counter_block_of nonce) 0
       (gp_ghash G (gp_aes G key (replicate 16 0))
          (padded_blocks aad @ padded_blocks ct @ [len_block (8 * length aad) (8 * length ct)]))"

lemma length_xor_keystream [simp]: "length (xor_keystream G key ctr p buf) = length buf"
  by (simp add: xor_keystream_def)

lemma xor_keystream_Nil [simp]: "xor_keystream G key ctr p [] = []"
  by (simp add: xor_keystream_def)

lemma xor_keystream_append:
  "xor_keystream G key ctr p (a @ b) =
     xor_keystream G key ctr p a @ xor_keystream G key ctr (p + length a) b"
proof -
  let ?ks = "\<lambda>p n. map (gp_keystream G key ctr) [p..<p + n]"
  have ks: "?ks p (length (a @ b)) = ?ks p (length a) @ ?ks (p + length a) (length b)"
    by (simp only: length_append upt_add_eq_append [of p "p + length a" "length b"] add.assoc [symmetric]
        map_append)
  show ?thesis unfolding xor_keystream_def ks by simp
qed

lemma xor_keystream_twice: "xor_keystream G key ctr p (xor_keystream G key ctr p buf) = buf"
  by (rule nth_equalityI) (simp_all add: xor_keystream_def xor.assoc)

lemma length_gcm_ct [simp]: "length (gcm_ct G key nonce pt) = length pt"
  by (simp add: gcm_ct_def)

lemma gcm_ct_Nil [simp]: "gcm_ct G key nonce [] = []"
  by (simp add: gcm_ct_def)

lemma gcm_ct_append: "gcm_ct G key nonce (a @ b) =
  gcm_ct G key nonce a @ xor_keystream G key (counter_block_of nonce) (16 + length a) b"
  by (simp add: gcm_ct_def xor_keystream_append)

lemma gcm_ct_twice: "gcm_ct G key nonce (gcm_ct G key nonce pt) = pt"
  by (simp add: gcm_ct_def xor_keystream_twice)

lemma padded_blocks_Nil [simp]: "padded_blocks [] = []"
  by (simp add: padded_blocks.simps)

lemma padded_blocks_block: "length b = 16 \<Longrightarrow> padded_blocks (b @ bs) = b # padded_blocks bs"
  by (subst padded_blocks.simps) (auto simp: BLOCK_SIZE_def)

lemma padded_blocks_append: "16 dvd length a \<Longrightarrow> padded_blocks (a @ b) = padded_blocks a @ padded_blocks b"
proof (induction a rule: length_induct)
  case (1 a)
  show ?case
  proof (cases "a = []")
    case False
    with 1(2) have l: "16 \<le> length a" by (auto dest: dvd_imp_le)
    then obtain c d where a: "a = c @ d" "length c = 16"
      by (metis append_take_drop_id length_take min_absorb2)
    have "16 dvd length d" using 1(2) a by simp
    with 1(1) a have "padded_blocks (d @ b) = padded_blocks d @ padded_blocks b" by auto
    then show ?thesis using a by (simp add: padded_blocks_block)
  qed simp
qed

text \<open>The state after the plaintext \<open>pt\<close>, however it was cut: whole blocks are absorbed.\<close>

definition gcm_state :: "gcm_prims \<Rightarrow> bytes \<Rightarrow> bytes \<Rightarrow> bytes \<Rightarrow> bytes \<Rightarrow> aes_gcm256 \<Rightarrow> bool" where
  "gcm_state G key nonce aad pt s \<longleftrightarrow>
     (\<exists>full cur. gcm_ct G key nonce pt = full @ cur \<and> 16 dvd length full \<and> length cur < 16 \<and>
        s = \<lparr>ag_key = key, ag_counter_block = counter_block_of nonce, ag_cipher_pos = 16 + length pt,
             ag_ghash_key = gp_aes G key (replicate 16 0), ag_ghash = padded_blocks aad @ padded_blocks full,
             ag_ad_bits_len = 8 * length aad, ag_current_block = cur, ag_bytes_encrypted = length pt\<rparr>)"

lemma aes_gcm_new_ok:
  assumes "length aad < AES256_GCM_MAX_PLAINTEXT_LENGTH"
  obtains s where "aes_gcm_new G key nonce aad = Inr s" "gcm_state G key nonce aad [] s"
  using assms by (auto simp: aes_gcm_new_def checked_mul_def gcm_state_def ghash_update_def
      AES256_GCM_MAX_PLAINTEXT_LENGTH_def BLOCK_SIZE_def intro: that)

lemma encrypt_chunks_state:
  "gcm_state G key nonce aad pt s1 \<Longrightarrow> ag_current_block s1 = [] \<Longrightarrow> s = s1\<lparr>ag_bytes_encrypted := n\<rparr> \<Longrightarrow>
   \<exists>s'. encrypt_chunks G buf s =
       (xor_keystream G key (counter_block_of nonce) (16 + length pt) buf, s'\<lparr>ag_bytes_encrypted := n\<rparr>) \<and>
     gcm_state G key nonce aad (pt @ buf) s'"
proof (induction buf arbitrary: pt s s1 rule: length_induct)
  case (1 buf)
  from 1(2,3) obtain full where g: "gcm_ct G key nonce pt = full" "16 dvd length full"
    "s1 = \<lparr>ag_key = key, ag_counter_block = counter_block_of nonce, ag_cipher_pos = 16 + length pt,
       ag_ghash_key = gp_aes G key (replicate 16 0), ag_ghash = padded_blocks aad @ padded_blocks full,
       ag_ad_bits_len = 8 * length aad, ag_current_block = [], ag_bytes_encrypted = length pt\<rparr>"
    by (auto simp: gcm_state_def)
  let ?x = "xor_keystream G key (counter_block_of nonce) (16 + length pt)"
  show ?case
  proof (cases "length buf < 16")
    case True
    let ?s' = "s1\<lparr>ag_cipher_pos := 16 + length (pt @ buf), ag_current_block := ?x buf,
      ag_bytes_encrypted := length (pt @ buf)\<rparr>"
    have "gcm_state G key nonce aad (pt @ buf) ?s'"
      using True g by (auto simp: gcm_state_def gcm_ct_append intro!: exI [of _ full])
    moreover have "encrypt_chunks G buf s = (?x buf, ?s'\<lparr>ag_bytes_encrypted := n\<rparr>)"
      using True g(3) 1(4) by (subst encrypt_chunks.simps)
        (auto simp: BLOCK_SIZE_def apply_keystream_def add.assoc)
    ultimately show ?thesis by blast
  next
    case False
    then obtain c d where buf: "buf = c @ d" "length c = 16"
      by (metis append_take_drop_id length_take min_absorb2 not_less)
    let ?s2 = "s1\<lparr>ag_cipher_pos := 16 + length (pt @ c), ag_ghash := ag_ghash s1 @ [?x c],
      ag_bytes_encrypted := length (pt @ c)\<rparr>"
    have "padded_blocks (full @ ?x c) = padded_blocks full @ [?x c]"
      using g(2) padded_blocks_block [of "?x c" "[]"] buf(2) by (simp add: padded_blocks_append)
    moreover have "length full = length pt" using g(1) by auto
    ultimately have "gcm_state G key nonce aad (pt @ c) ?s2"
      using g buf(2) by (auto simp: gcm_state_def gcm_ct_append intro!: exI [of _ "full @ ?x c"])
    moreover have "ag_current_block ?s2 = []" using g(3) by simp
    moreover have "length d < length buf" using buf by simp
    ultimately obtain s' where s': "encrypt_chunks G d (?s2\<lparr>ag_bytes_encrypted := n\<rparr>) =
       (xor_keystream G key (counter_block_of nonce) (16 + length (pt @ c)) d, s'\<lparr>ag_bytes_encrypted := n\<rparr>)"
      "gcm_state G key nonce aad ((pt @ c) @ d) s'"
      using 1(1) by blast
    have "encrypt_chunks G buf s = (?x buf, s'\<lparr>ag_bytes_encrypted := n\<rparr>)"
      using False buf g(3) 1(4) s'(1) by (subst encrypt_chunks.simps)
        (auto simp: BLOCK_SIZE_def apply_keystream_def ghash_update_def xor_keystream_append add.assoc)
    then show ?thesis using s'(2) buf(1) by auto
  qed
qed

text \<open>One more call of \<^verbatim>\<open>encrypt\<close>.\<close>

lemma aes_gcm_encrypt_ok:
  assumes s: "gcm_state G key nonce aad pt s"
    and len: "length pt + length buf + length aad < AES256_GCM_MAX_PLAINTEXT_LENGTH"
  shows "\<exists>s'. aes_gcm_encrypt G buf s =
      Inr (xor_keystream G key (counter_block_of nonce) (16 + length pt) buf, s') \<and>
    gcm_state G key nonce aad (pt @ buf) s'"
proof -
  let ?x = "\<lambda>p. xor_keystream G key (counter_block_of nonce) (16 + p)"
  from s obtain full cur where g: "gcm_ct G key nonce pt = full @ cur" "16 dvd length full" "length cur < 16"
    "s = \<lparr>ag_key = key, ag_counter_block = counter_block_of nonce, ag_cipher_pos = 16 + length pt,
       ag_ghash_key = gp_aes G key (replicate 16 0), ag_ghash = padded_blocks aad @ padded_blocks full,
       ag_ad_bits_len = 8 * length aad, ag_current_block = cur, ag_bytes_encrypted = length pt\<rparr>"
    by (auto simp: gcm_state_def)
  have n: "checked_add (ag_bytes_encrypted s) (length buf) = Some (length pt + length buf)"
    "\<not> AES256_GCM_MAX_PLAINTEXT_LENGTH \<le> saturating_add (length pt + length buf) (ag_ad_bits_len s div 8)"
    using len by (auto simp: g(4) checked_add_def saturating_add_def AES256_GCM_MAX_PLAINTEXT_LENGTH_def)
  let ?s1 = "s\<lparr>ag_bytes_encrypted := length pt + length buf\<rparr>"
  consider "cur = []" | "cur \<noteq> []" "length cur + length buf < 16" | "cur \<noteq> []" "16 \<le> length cur + length buf"
    by linarith
  then show ?thesis
  proof cases
    case 1
    with encrypt_chunks_state [OF s, of ?s1 "length pt + length buf" buf] obtain s' where
      s': "encrypt_chunks G buf ?s1 = (?x (length pt) buf, s'\<lparr>ag_bytes_encrypted := length pt + length buf\<rparr>)"
      "gcm_state G key nonce aad (pt @ buf) s'" by (auto simp: g(4))
    then have "s'\<lparr>ag_bytes_encrypted := length pt + length buf\<rparr> = s'" by (auto simp: gcm_state_def)
    then show ?thesis using 1 s' n by (auto simp: aes_gcm_encrypt_def Let_def g(4))
  next
    case 2
    then show ?thesis
      using g n by (auto simp: aes_gcm_encrypt_def Let_def BLOCK_SIZE_def apply_keystream_def gcm_state_def
          gcm_ct_append add.assoc intro!: exI [of _ full])
  next
    case 3
    let ?k = "16 - length cur"
    obtain c d where buf: "buf = c @ d" "length c = ?k"
      using 3(2) by (metis append_take_drop_id length_take min_absorb2 le_diff_conv add.commute)
    let ?b = "cur @ ?x (length pt) c"
    let ?s2 = "s\<lparr>ag_cipher_pos := 16 + length (pt @ c), ag_current_block := [],
      ag_ghash := ag_ghash s @ [?b], ag_bytes_encrypted := length (pt @ c)\<rparr>"
    have lb: "length ?b = 16" using g(3) buf(2) by simp
    then have "padded_blocks (full @ ?b) = padded_blocks full @ [?b]"
      using g(2) padded_blocks_block [of ?b "[]"] by (simp add: padded_blocks_append)
    moreover have "16 dvd length (full @ ?b)" using g(2) lb by simp
    ultimately have "gcm_state G key nonce aad (pt @ c) ?s2"
      using g(1,4) unfolding gcm_state_def gcm_ct_append
      by (intro exI [of _ "full @ ?b"] exI [of _ "[]"]) simp
    from encrypt_chunks_state [OF this, of "?s2\<lparr>ag_bytes_encrypted := length pt + length buf\<rparr>"
        "length pt + length buf" d] obtain s' where
      s': "encrypt_chunks G d (?s2\<lparr>ag_bytes_encrypted := length pt + length buf\<rparr>) =
        (?x (length (pt @ c)) d, s'\<lparr>ag_bytes_encrypted := length pt + length buf\<rparr>)"
      "gcm_state G key nonce aad ((pt @ c) @ d) s'" by auto
    then have e: "s'\<lparr>ag_bytes_encrypted := length pt + length buf\<rparr> = s'" by (auto simp: gcm_state_def buf)
    have "aes_gcm_encrypt G buf s = Inr (?x (length pt) buf, s')"
      using 3 n s'(1) buf e
      by (simp add: aes_gcm_encrypt_def Let_def BLOCK_SIZE_def apply_keystream_def ghash_update_def
          xor_keystream_append g(4) add.assoc)
    then show ?thesis using s'(2) buf(1) by auto
  qed
qed

lemma finish_tag_eq:
  assumes "gcm_prims_ok G" and "ag_key s = key" "ag_counter_block s = counter_block_of nonce"
    "ag_ghash_key s = gp_aes G key (replicate 16 0)"
    "ag_ghash s = padded_blocks aad @ padded_blocks ct @ [len_block (8 * length aad) (8 * length ct)]"
  shows "finish_tag G s = gcm_tag G key nonce aad ct"
  using assms by (simp add: finish_tag_def apply_keystream_def gcm_tag_def)

lemma aes_gcm_into_tag_ok:
  assumes "gcm_prims_ok G" and "gcm_state G key nonce aad pt s"
    and "length pt < AES256_GCM_MAX_PLAINTEXT_LENGTH"
  shows "aes_gcm_into_tag G s = Inr (gcm_tag G key nonce aad (gcm_ct G key nonce pt))"
proof -
  from assms(2) obtain full cur where g: "gcm_ct G key nonce pt = full @ cur" "16 dvd length full"
    "s = \<lparr>ag_key = key, ag_counter_block = counter_block_of nonce, ag_cipher_pos = 16 + length pt,
       ag_ghash_key = gp_aes G key (replicate 16 0), ag_ghash = padded_blocks aad @ padded_blocks full,
       ag_ad_bits_len = 8 * length aad, ag_current_block = cur, ag_bytes_encrypted = length pt\<rparr>"
    by (auto simp: gcm_state_def)
  have l: "length (full @ cur) = length pt" by (simp add: g(1) [symmetric])
  have "checked_mul (length pt) 8 = Some (8 * length pt)"
    using assms(3) by (simp add: checked_mul_def AES256_GCM_MAX_PLAINTEXT_LENGTH_def)
  then show ?thesis
    unfolding aes_gcm_into_tag_def g(1) using l
    by (simp add: g(3) finish_tag_eq [OF assms(1)] ghash_update_def padded_blocks_append [OF g(2)])
qed

lemma decrypt_chunks_eq:
  "\<exists>s'. decrypt_chunks G buf s =
     (xor_keystream G (ag_key s) (ag_counter_block s) (ag_cipher_pos s) buf, s') \<and>
   ag_key s' = ag_key s \<and> ag_counter_block s' = ag_counter_block s \<and> ag_ghash_key s' = ag_ghash_key s \<and>
   ag_ad_bits_len s' = ag_ad_bits_len s \<and> ag_ghash s' = ag_ghash s @ padded_blocks buf"
proof (induction buf arbitrary: s rule: length_induct)
  case (1 buf)
  show ?case
  proof (cases "length buf < 16")
    case True
    then show ?thesis
      by (subst decrypt_chunks.simps) (simp add: BLOCK_SIZE_def apply_keystream_def ghash_update_def)
  next
    case False
    then obtain c d where buf: "buf = c @ d" "length c = 16"
      by (metis append_take_drop_id length_take min_absorb2 not_less)
    let ?s1 = "s\<lparr>ag_ghash := ag_ghash s @ [c], ag_cipher_pos := ag_cipher_pos s + 16\<rparr>"
    have "length d < length buf" using buf by simp
    with 1 obtain s' where "decrypt_chunks G d ?s1 =
       (xor_keystream G (ag_key ?s1) (ag_counter_block ?s1) (ag_cipher_pos ?s1) d, s')"
      "ag_key s' = ag_key ?s1 \<and> ag_counter_block s' = ag_counter_block ?s1 \<and> ag_ghash_key s' = ag_ghash_key ?s1 \<and>
       ag_ad_bits_len s' = ag_ad_bits_len ?s1 \<and> ag_ghash s' = ag_ghash ?s1 @ padded_blocks d" by blast
    then show ?thesis
      using False buf by (subst decrypt_chunks.simps)
        (simp add: BLOCK_SIZE_def apply_keystream_def ghash_update_def xor_keystream_append padded_blocks_block)
  qed
qed

lemma aes_gcm_decrypt_ok:
  assumes "gcm_prims_ok G" and "gcm_state G key nonce aad [] s"
    and "length ct + length aad < AES256_GCM_MAX_PLAINTEXT_LENGTH"
  shows "aes_gcm_decrypt G ct s = Inr (gcm_ct G key nonce ct, gcm_tag G key nonce aad ct)"
proof -
  have g: "s = \<lparr>ag_key = key, ag_counter_block = counter_block_of nonce, ag_cipher_pos = 16,
       ag_ghash_key = gp_aes G key (replicate 16 0), ag_ghash = padded_blocks aad,
       ag_ad_bits_len = 8 * length aad, ag_current_block = [], ag_bytes_encrypted = 0\<rparr>"
    using assms(2) by (auto simp: gcm_state_def)
  from decrypt_chunks_eq [of G ct s] obtain s' where
    s': "decrypt_chunks G ct s = (gcm_ct G key nonce ct, s')" "ag_key s' = key"
    "ag_counter_block s' = counter_block_of nonce" "ag_ghash_key s' = gp_aes G key (replicate 16 0)"
    "ag_ad_bits_len s' = 8 * length aad" "ag_ghash s' = padded_blocks aad @ padded_blocks ct"
    by (auto simp: g gcm_ct_def)
  have "checked_mul (length ct) 8 = Some (8 * length ct)"
    "\<not> AES256_GCM_MAX_PLAINTEXT_LENGTH \<le> saturating_add (length ct) (ag_ad_bits_len s div 8)"
    using assms(3) by (auto simp: g checked_mul_def AES256_GCM_MAX_PLAINTEXT_LENGTH_def saturating_add_def)
  then show ?thesis
    using s' by (simp add: aes_gcm_decrypt_def finish_tag_eq [OF assms(1)] ghash_update_def)
qed

lemma decrypt_unauthenticated_ok:
  assumes "gcm_state G key nonce aad [] s"
  shows "fst (decrypt_unauthenticated G ct s) = gcm_ct G key nonce ct"
  using assms by (auto simp: gcm_state_def decrypt_unauthenticated_def apply_keystream_def gcm_ct_def)

text \<open>A client that encrypts a plaintext in pieces.\<close>

fun encrypt_pieces :: "gcm_prims \<Rightarrow> bytes list \<Rightarrow> aes_gcm256 \<Rightarrow> error + bytes \<times> aes_gcm256" where
  "encrypt_pieces G [] s = Inr ([], s)"
| "encrypt_pieces G (b # bs) s =
     (case aes_gcm_encrypt G b s of
        Inl e \<Rightarrow> Inl e
      | Inr (out, s') \<Rightarrow>
          (case encrypt_pieces G bs s' of Inl e \<Rightarrow> Inl e | Inr (out', s'') \<Rightarrow> Inr (out @ out', s'')))"

lemma encrypt_pieces_ok:
  "gcm_state G key nonce aad pt s \<Longrightarrow>
   length pt + length (concat bs) + length aad < AES256_GCM_MAX_PLAINTEXT_LENGTH \<Longrightarrow>
   \<exists>s'. encrypt_pieces G bs s =
      Inr (xor_keystream G key (counter_block_of nonce) (16 + length pt) (concat bs), s') \<and>
    gcm_state G key nonce aad (pt @ concat bs) s'"
proof (induction bs arbitrary: pt s)
  case (Cons b bs)
  from aes_gcm_encrypt_ok [OF Cons.prems(1), of b] Cons.prems(2) obtain s1 where
    s1: "aes_gcm_encrypt G b s = Inr (xor_keystream G key (counter_block_of nonce) (16 + length pt) b, s1)"
    "gcm_state G key nonce aad (pt @ b) s1" by auto
  from Cons.IH [OF s1(2)] Cons.prems(2) s1(1) show ?case
    by (auto simp: xor_keystream_append add.assoc)
qed simp

definition demo_prims :: gcm_prims where
  "demo_prims = \<lparr>gp_aes = \<lambda>k b. b, gp_keystream = \<lambda>k c p. word_of_nat p,
     gp_ghash = \<lambda>h bs. replicate 16 (word_of_nat (length bs))\<rparr>"

lemma demo_prims_ok: "gcm_prims_ok demo_prims"
  by (simp add: gcm_prims_ok_def demo_prims_def)

section \<open>Properties\<close>

text \<open>C30: incremental encryption is GCM. Whatever the pieces in which a plaintext below the limit is
  encrypted, aligned on blocks or not, no call panics, the outputs concatenate to the ciphertext of the
  whole plaintext, and the tag is the one of the associated data and that ciphertext.\<close>

theorem gcm_incremental:
  assumes "gcm_prims_ok G"
    and "length (concat pieces) + length aad < AES256_GCM_MAX_PLAINTEXT_LENGTH"
  shows "\<exists>s s'. aes_gcm_new G key nonce aad = Inr s \<and>
    encrypt_pieces G pieces s = Inr (gcm_ct G key nonce (concat pieces), s') \<and>
    aes_gcm_into_tag G s' = Inr (gcm_tag G key nonce aad (gcm_ct G key nonce (concat pieces)))"
proof -
  have "length aad < AES256_GCM_MAX_PLAINTEXT_LENGTH" using assms(2) by simp
  then obtain s where s: "aes_gcm_new G key nonce aad = Inr s" "gcm_state G key nonce aad [] s"
    by (rule aes_gcm_new_ok)
  from encrypt_pieces_ok [OF s(2), of pieces] assms(2) obtain s' where
    s': "encrypt_pieces G pieces s = Inr (gcm_ct G key nonce (concat pieces), s')"
    "gcm_state G key nonce aad (concat pieces) s'" by (auto simp: gcm_ct_def)
  from aes_gcm_into_tag_ok [OF assms(1) s'(2)] assms(2) s(1) s'(1) show ?thesis by auto
qed

theorem gcm_incremental_witness:
  "\<exists>s s'. aes_gcm_new demo_prims [1] [2] [3] = Inr s \<and>
    encrypt_pieces demo_prims [replicate 7 0, [], replicate 30 5] s =
      Inr (gcm_ct demo_prims [1] [2] (concat [replicate 7 0, [], replicate 30 5]), s')"
proof -
  have l: "length (concat [replicate 7 0, [], replicate 30 (5 :: u8)]) + length [3 :: u8]
      < AES256_GCM_MAX_PLAINTEXT_LENGTH" by (simp add: AES256_GCM_MAX_PLAINTEXT_LENGTH_def)
  from gcm_incremental [OF demo_prims_ok l] show ?thesis by blast
qed

text \<open>C31: decryption inverts encryption. A fresh cipher with the same key, nonce and associated data
  turns the ciphertext back into the plaintext and computes the tag that encryption produced; the
  unauthenticated decryption returns the same plaintext.\<close>

theorem gcm_decrypt_encrypt:
  assumes "gcm_prims_ok G"
    and "length pt + length aad < AES256_GCM_MAX_PLAINTEXT_LENGTH"
    and "aes_gcm_new G key nonce aad = Inr s" and "aes_gcm_encrypt G pt s = Inr (ct, s')"
    and "aes_gcm_into_tag G s' = Inr tag"
  shows "length ct = length pt \<and> length tag = 16 \<and> aes_gcm_decrypt G ct s = Inr (pt, tag) \<and>
    fst (decrypt_unauthenticated G ct s) = pt"
proof -
  have "length aad < AES256_GCM_MAX_PLAINTEXT_LENGTH" using assms(2) by simp
  then have s: "gcm_state G key nonce aad [] s" using aes_gcm_new_ok [of aad G key nonce] assms(3) by auto
  from aes_gcm_encrypt_ok [OF s, of pt] assms(2,4)
  have ct: "ct = gcm_ct G key nonce pt" "gcm_state G key nonce aad pt s'" by (auto simp: gcm_ct_def)
  from aes_gcm_into_tag_ok [OF assms(1) ct(2)] assms(2,5)
  have tag: "tag = gcm_tag G key nonce aad ct" by (simp add: ct(1))
  then have "length tag = 16" using assms(1) by (simp add: gcm_tag_def gcm_prims_ok_def)
  then show ?thesis
    using aes_gcm_decrypt_ok [OF assms(1) s, of ct] decrypt_unauthenticated_ok [OF s, of ct] assms(2) ct(1)
    by (simp add: gcm_ct_twice tag)
qed

theorem gcm_decrypt_encrypt_witness:
  "\<exists>s s' ct tag. aes_gcm_new demo_prims [1] [2] [3] = Inr s \<and> aes_gcm_encrypt demo_prims [7, 8] s = Inr (ct, s') \<and>
    aes_gcm_into_tag demo_prims s' = Inr tag \<and> aes_gcm_decrypt demo_prims ct s = Inr ([7, 8], tag)"
proof -
  have l: "length [7, 8 :: u8] + length [3 :: u8] < AES256_GCM_MAX_PLAINTEXT_LENGTH"
    by (simp add: AES256_GCM_MAX_PLAINTEXT_LENGTH_def)
  then have "length [3 :: u8] < AES256_GCM_MAX_PLAINTEXT_LENGTH" by simp
  then obtain s where s: "aes_gcm_new demo_prims [1] [2] [3] = Inr s" "gcm_state demo_prims [1] [2] [3] [] s"
    by (rule aes_gcm_new_ok)
  from aes_gcm_encrypt_ok [OF s(2), of "[7, 8]"] obtain ct s' where
    e: "aes_gcm_encrypt demo_prims [7, 8] s = Inr (ct, s')" "gcm_state demo_prims [1] [2] [3] ([] @ [7, 8]) s'"
    by (auto simp: AES256_GCM_MAX_PLAINTEXT_LENGTH_def)
  from aes_gcm_into_tag_ok [OF demo_prims_ok e(2)] obtain tag where
    "aes_gcm_into_tag demo_prims s' = Inr tag" by (auto simp: AES256_GCM_MAX_PLAINTEXT_LENGTH_def)
  from gcm_decrypt_encrypt [OF demo_prims_ok l s(1) e(1) this] s(1) e(1) this show ?thesis by blast
qed

text \<open>The limit, as the code counts it. A call panics exactly when the bytes of plaintext and
  associated data under one key and nonce reach \<open>2 ^ 39 - 256\<close>. The bound of GCM is that number of
  bits: eight times less.\<close>

theorem gcm_limit_counts_bytes:
  assumes "gcm_state G key nonce aad pt s" and "length aad < 2 ^ 60"
  shows "aes_gcm_encrypt G buf s = Inl Panic \<longleftrightarrow> 2 ^ 39 - 256 \<le> length pt + length buf + length aad"
proof (cases "length pt + length buf + length aad < AES256_GCM_MAX_PLAINTEXT_LENGTH")
  case True
  then show ?thesis
    using aes_gcm_encrypt_ok [OF assms(1) True] by (auto simp: AES256_GCM_MAX_PLAINTEXT_LENGTH_def)
next
  case False
  then have b: "AES256_GCM_MAX_PLAINTEXT_LENGTH \<le> saturating_add (length pt + length buf) (length aad)"
    by (simp add: saturating_add_def AES256_GCM_MAX_PLAINTEXT_LENGTH_def)
  then have "aes_gcm_encrypt G buf s = Inl Panic"
    using assms(1) by (auto simp: gcm_state_def aes_gcm_encrypt_def checked_add_def)
  then show ?thesis using False by (simp add: AES256_GCM_MAX_PLAINTEXT_LENGTH_def)
qed

text \<open>\<open>2 ^ 36\<close> bytes are \<open>2 ^ 39\<close> bits, over the bound of GCM, and accepted.\<close>

theorem gcm_limit_counts_bytes_witness:
  "\<exists>s. aes_gcm_new demo_prims [1] [2] [] = Inr s \<and>
    aes_gcm_encrypt demo_prims (replicate (2 ^ 36) 0) s \<noteq> Inl Panic \<and>
    aes_gcm_encrypt demo_prims (replicate (2 ^ 39) 0) s = Inl Panic"
proof -
  have "length ([] :: bytes) < AES256_GCM_MAX_PLAINTEXT_LENGTH" by (simp add: AES256_GCM_MAX_PLAINTEXT_LENGTH_def)
  then obtain s where s: "aes_gcm_new demo_prims [1] [2] [] = Inr s" "gcm_state demo_prims [1] [2] [] [] s"
    by (rule aes_gcm_new_ok)
  have "aes_gcm_encrypt demo_prims (replicate n 0) s = Inl Panic \<longleftrightarrow> 2 ^ 39 - 256 \<le> n" for n
    using gcm_limit_counts_bytes [OF s(2), of "replicate n 0"] by simp
  from this [of "2 ^ 36"] this [of "2 ^ 39"] s(1) show ?thesis by simp
qed

end
