(* ===== verification/EncryptWriter.thy ===== *)
theory EncryptWriter
  imports AesGcm Serialize
begin

text \<open>
  The writing half of the encryption layer (\<^verbatim>\<open>mla/src/layers/encrypt.rs\<close>): key commitment, per-chunk
  nonces (\<^verbatim>\<open>compute_nonce\<close> of \<^verbatim>\<open>mla/src/crypto/hpke.rs\<close>) and \<^verbatim>\<open>InternalEncryptionLayerWriter\<close>. What
  the layer hands to the layer below is \<open>enc_open\<close> of the plaintext cut in chunks of 128 KiB; the layer
  is again a writer of the contract \<open>room_sink\<close>, whose output is the plaintext.
\<close>

section \<open>Constants\<close>

definition CIPHER_BUF_SIZE :: nat where "CIPHER_BUF_SIZE = 4096"
definition NORMAL_CHUNK_PT_SIZE :: nat where "NORMAL_CHUNK_PT_SIZE = 128 * 1024"
definition NORMAL_CHUNK_PT_AND_TAG_SIZE :: nat where
  "NORMAL_CHUNK_PT_AND_TAG_SIZE = NORMAL_CHUNK_PT_SIZE + TAG_LENGTH"
definition ASSOCIATED_DATA :: bytes where "ASSOCIATED_DATA = []"
definition FINAL_ASSOCIATED_DATA :: bytes where "FINAL_ASSOCIATED_DATA = ascii ''FINALAAD''"
definition FINAL_BLOCK_CONTENT :: bytes where "FINAL_BLOCK_CONTENT = ascii ''FINALBLOCK''"
definition FINAL_BLOCK_MAGIC :: bytes where "FINAL_BLOCK_MAGIC = ascii ''M0FNLBLK''"
definition FINAL_INFO_SIZE :: nat where
  "FINAL_INFO_SIZE = length FINAL_BLOCK_MAGIC + length FINAL_BLOCK_CONTENT + TAG_LENGTH"
definition FINAL_INFO_SIZE_WOM :: nat where
  "FINAL_INFO_SIZE_WOM = length FINAL_BLOCK_CONTENT + TAG_LENGTH"
definition ENCRYPTION_LAYER_MAGIC :: bytes where "ENCRYPTION_LAYER_MAGIC = ascii ''ENCMLAAA''"
definition END_OF_ENCRYPTED_INNER_LAYER_MAGIC :: bytes where
  "END_OF_ENCRYPTED_INNER_LAYER_MAGIC = ascii ''ENCMLAAB''"
definition CHUNK_MAGIC :: bytes where "CHUNK_MAGIC = ascii ''M0ENCCNK''"
definition CHUNK_HEAD_SIZE :: nat where "CHUNK_HEAD_SIZE = length CHUNK_MAGIC + 8"
definition M0_CHUNK_SIZE :: nat where
  "M0_CHUNK_SIZE = length CHUNK_MAGIC + 8 + NORMAL_CHUNK_PT_AND_TAG_SIZE"
definition FIRST_DATA_CHUNK_NUMBER :: nat where "FIRST_DATA_CHUNK_NUMBER = 1"
definition KEY_COMMITMENT_CHAIN :: bytes where
  "KEY_COMMITMENT_CHAIN =
     ascii ''-KEY COMMITMENT--KEY COMMITMENT--KEY COMMITMENT--KEY COMMITMENT-''"

lemma enc_sizes [simp]:
  "TAG_LENGTH = 16" "NORMAL_CHUNK_PT_SIZE = 131072" "NORMAL_CHUNK_PT_AND_TAG_SIZE = 131088"
  "FINAL_INFO_SIZE = 34" "FINAL_INFO_SIZE_WOM = 26" "CHUNK_HEAD_SIZE = 16" "M0_CHUNK_SIZE = 131104"
  "length CHUNK_MAGIC = 8" "length FINAL_BLOCK_MAGIC = 8" "length FINAL_BLOCK_CONTENT = 10"
  "length END_OF_ENCRYPTED_INNER_LAYER_MAGIC = 8" "length KEY_COMMITMENT_CHAIN = 64"
  "length FINAL_ASSOCIATED_DATA = 8" "length ENCRYPTION_LAYER_MAGIC = 8" "FIRST_DATA_CHUNK_NUMBER = 1"
  by (simp_all add: TAG_LENGTH_def BLOCK_SIZE_def NORMAL_CHUNK_PT_SIZE_def NORMAL_CHUNK_PT_AND_TAG_SIZE_def
      FINAL_INFO_SIZE_def FINAL_INFO_SIZE_WOM_def CHUNK_HEAD_SIZE_def M0_CHUNK_SIZE_def CHUNK_MAGIC_def
      FINAL_BLOCK_MAGIC_def FINAL_BLOCK_CONTENT_def END_OF_ENCRYPTED_INNER_LAYER_MAGIC_def
      KEY_COMMITMENT_CHAIN_def FINAL_ASSOCIATED_DATA_def ENCRYPTION_LAYER_MAGIC_def FIRST_DATA_CHUNK_NUMBER_def)

section \<open>Nonces and key commitment\<close>

text \<open>The sequence number is XORed on the last 8 of the 12 bytes.\<close>

definition compute_nonce :: "bytes \<Rightarrow> nat \<Rightarrow> bytes" where
  "compute_nonce base_nonce seq =
     take (length base_nonce - 8) base_nonce @ map2 (XOR) (drop (length base_nonce - 8) base_nonce) (to_be 8 seq)"

record key_commitment_and_tag =
  kc_key_commitment :: bytes
  kc_tag :: bytes

definition build_key_commitment_chain ::
  "gcm_prims \<Rightarrow> bytes \<Rightarrow> bytes \<Rightarrow> error + key_commitment_and_tag" where
  "build_key_commitment_chain G key nonce =
     (case aes_gcm_new G key (compute_nonce nonce 0) ASSOCIATED_DATA of
        Inl e \<Rightarrow> Inl e
      | Inr cipher \<Rightarrow>
          (case aes_gcm_encrypt G KEY_COMMITMENT_CHAIN cipher of
             Inl e \<Rightarrow> Inl e
           | Inr (kc, cipher') \<Rightarrow>
               (case aes_gcm_into_tag G cipher' of
                  Inl e \<Rightarrow> Inl e
                | Inr tag \<Rightarrow> Inr \<lparr>kc_key_commitment = kc, kc_tag = tag\<rparr>)))"

text \<open>\<^verbatim>\<open>.or(Err(e))\<close> on the result of a call that returned; a panic of the call stays one.\<close>

definition or_config :: "config_error \<Rightarrow> error + 'a \<Rightarrow> config_error + 'a" where
  "or_config e x =
     (case x of Inl e' \<Rightarrow> Inl (if e' = Panic then ConfigPanic else e) | Inr a \<Rightarrow> Inr a)"

definition check_key_commitment ::
  "gcm_prims \<Rightarrow> bytes \<Rightarrow> bytes \<Rightarrow> key_commitment_and_tag \<Rightarrow> config_error + unit" where
  "check_key_commitment G key nonce commitment =
     (case or_config KeyCommitmentCheckingError (aes_gcm_new G key (compute_nonce nonce 0) ASSOCIATED_DATA) of
        Inl e \<Rightarrow> Inl e
      | Inr cipher \<Rightarrow>
          (case aes_gcm_decrypt G (kc_key_commitment commitment) cipher of
             Inl _ \<Rightarrow> Inl ConfigPanic
           | Inr (_, tag) \<Rightarrow> if tag = kc_tag commitment then Inr () else Inl KeyCommitmentCheckingError))"

definition key_commitment_serialize ::
  "(bytes \<Rightarrow> ('w, io_error, nat) op) \<Rightarrow> key_commitment_and_tag \<Rightarrow> ('w, error, nat) op" where
  "key_commitment_serialize wr kc =
     bindE (slice_serialize (u8_serialize wr) (kc_key_commitment kc)) (\<lambda>n.
     bindE (lift_res (ok_or SerializationError (checked_add 0 n))) (\<lambda>len.
     bindE (slice_serialize (u8_serialize wr) (kc_tag kc)) (\<lambda>m.
       lift_res (ok_or SerializationError (checked_add len m)))))"

definition key_commitment_deserialize ::
  "(nat \<Rightarrow> ('r, io_error, bytes) op) \<Rightarrow> ('r, error, key_commitment_and_tag) op" where
  "key_commitment_deserialize rd =
     bindE (array_deserialize rd KEY_COMMITMENT_SIZE) (\<lambda>kc.
     bindE (array_deserialize rd TAG_LENGTH) (\<lambda>tag.
       ret \<lparr>kc_key_commitment = kc, kc_tag = tag\<rparr>))"

section \<open>The writer\<close>

record 'w enc_writer =
  ew_inner :: 'w
  ew_cipher :: aes_gcm256
  ew_key :: bytes
  ew_base_nonce :: bytes
  ew_chunk_offset :: nat
  ew_ctr :: nat

abbreviation put_ew :: "'w \<Rightarrow> 'w enc_writer \<Rightarrow> 'w enc_writer" where
  "put_ew w s \<equiv> s\<lparr>ew_inner := w\<rparr>"

definition enc_writer_new :: "gcm_prims \<Rightarrow> 'w \<Rightarrow> bytes \<Rightarrow> bytes \<Rightarrow> error + 'w enc_writer" where
  "enc_writer_new G inner key nonce =
     (case aes_gcm_new G key (compute_nonce nonce FIRST_DATA_CHUNK_NUMBER) ASSOCIATED_DATA of
        Inl e \<Rightarrow> Inl e
      | Inr cipher \<Rightarrow>
          Inr \<lparr>ew_inner = inner, ew_cipher = cipher, ew_key = key, ew_base_nonce = nonce,
               ew_chunk_offset = 0, ew_ctr = FIRST_DATA_CHUNK_NUMBER\<rparr>)"

definition renew_cipher_aad :: "gcm_prims \<Rightarrow> bytes \<Rightarrow> ('w enc_writer, error, bytes) op" where
  "renew_cipher_aad G aad s =
     (case checked_add (ew_ctr s) 1 of
        None \<Rightarrow> (Inl HPKEError, s)
      | Some ctr \<Rightarrow>
          (let s1 = s\<lparr>ew_ctr := ctr, ew_chunk_offset := 0\<rparr>
           in case aes_gcm_new G (ew_key s1) (compute_nonce (ew_base_nonce s1) ctr) aad of
               Inl e \<Rightarrow> (Inl e, s1)
             | Inr cipher \<Rightarrow> (aes_gcm_into_tag G (ew_cipher s1), s1\<lparr>ew_cipher := cipher\<rparr>)))"

definition renew_cipher :: "gcm_prims \<Rightarrow> ('w enc_writer, error, bytes) op" where
  "renew_cipher G = renew_cipher_aad G ASSOCIATED_DATA"

definition last_renew_cipher :: "gcm_prims \<Rightarrow> ('w enc_writer, error, bytes) op" where
  "last_renew_cipher G = renew_cipher_aad G FINAL_ASSOCIATED_DATA"

abbreviation on_ew :: "('w, 'e, 'a) op \<Rightarrow> ('w enc_writer, 'e, 'a) op" where
  "on_ew \<equiv> on_field ew_inner put_ew"

text \<open>The start of \<^verbatim>\<open>write\<close>: close a full chunk.\<close>

definition enc_next_chunk :: "gcm_prims \<Rightarrow> (bytes \<Rightarrow> ('w, io_error, nat) op) \<Rightarrow> ('w enc_writer, io_error, unit) op" where
  "enc_next_chunk G wr =
     bindE (to_io (renew_cipher G)) (\<lambda>tag.
     bindE (on_ew (write_all wr tag)) (\<lambda>_.
     bindE (on_ew (write_all wr CHUNK_MAGIC)) (\<lambda>_ s.
     bindE (on_ew (to_io (u64_serialize wr (ew_ctr s)))) (\<lambda>_. ret ()) s)))"

definition enc_write_in_chunk ::
  "gcm_prims \<Rightarrow> (bytes \<Rightarrow> ('w, io_error, nat) op) \<Rightarrow> bytes \<Rightarrow> ('w enc_writer, io_error, nat) op" where
  "enc_write_in_chunk G wr buf s =
     (case checked_sub NORMAL_CHUNK_PT_SIZE (ew_chunk_offset s) of
        None \<Rightarrow> (Inl IoOther, s)
      | Some remaining_len_in_chunk \<Rightarrow>
          (let n = min (min CIPHER_BUF_SIZE (length buf)) remaining_len_in_chunk
           in case aes_gcm_encrypt G (take n buf) (ew_cipher s) of
               Inl e \<Rightarrow> (Inl (io_error_from_error e), s)
             | Inr (buf_tmp, cipher) \<Rightarrow>
                 bindE (on_ew (write_all wr buf_tmp)) (\<lambda>_ s1.
                   case checked_add (ew_chunk_offset s1) n of
                     None \<Rightarrow> (Inl IoOther, s1)
                   | Some off \<Rightarrow> (Inr n, s1\<lparr>ew_chunk_offset := off\<rparr>)) (s\<lparr>ew_cipher := cipher\<rparr>)))"

definition enc_write ::
  "gcm_prims \<Rightarrow> (bytes \<Rightarrow> ('w, io_error, nat) op) \<Rightarrow> bytes \<Rightarrow> ('w enc_writer, io_error, nat) op" where
  "enc_write G wr buf s =
     (if NORMAL_CHUNK_PT_SIZE < ew_chunk_offset s then (Inl IoOther, s)
      else bindE (if ew_chunk_offset s = NORMAL_CHUNK_PT_SIZE then enc_next_chunk G wr else ret ())
        (\<lambda>_. enc_write_in_chunk G wr buf) s)"

text \<open>\<^verbatim>\<open>finalize\<close>, up to the recursive call on the inner layer.\<close>

definition enc_finalize_writes ::
  "gcm_prims \<Rightarrow> (bytes \<Rightarrow> ('w, io_error, nat) op) \<Rightarrow> ('w enc_writer, error, unit) op" where
  "enc_finalize_writes G wr =
     bindE (last_renew_cipher G) (\<lambda>last_content_tag.
     bindE (lift_io (on_ew (write_all wr last_content_tag))) (\<lambda>_.
     bindE (lift_io (on_ew (write_all wr FINAL_BLOCK_MAGIC))) (\<lambda>_.
     bindE (lift_io (write_all (enc_write G wr) FINAL_BLOCK_CONTENT)) (\<lambda>_.
     bindE (renew_cipher G) (\<lambda>final_tag.
     bindE (lift_io (on_ew (write_all wr final_tag))) (\<lambda>_.
     bindE (lift_io (on_ew (write_all wr END_OF_ENCRYPTED_INNER_LAYER_MAGIC))) (\<lambda>_.
       lift_io (on_ew (write_all wr EMPTY_TAIL_OPTS_SERIALIZATION)))))))))"

definition enc_finalize ::
  "gcm_prims \<Rightarrow> (bytes \<Rightarrow> ('w, io_error, nat) op) \<Rightarrow> ('w \<Rightarrow> error + 'f) \<Rightarrow> 'w enc_writer \<Rightarrow> error + 'f" where
  "enc_finalize G wr inner_finalize s =
     (case enc_finalize_writes G wr s of
        (Inl e, _) \<Rightarrow> Inl e
      | (Inr _, s') \<Rightarrow> inner_finalize (ew_inner s'))"

section \<open>The abstract format\<close>

definition chunk_head :: "nat \<Rightarrow> bytes" where
  "chunk_head k = CHUNK_MAGIC @ to_le 8 k"

definition chunk_ct :: "gcm_prims \<Rightarrow> bytes \<Rightarrow> bytes \<Rightarrow> nat \<Rightarrow> bytes \<Rightarrow> bytes" where
  "chunk_ct G key nonce k c = gcm_ct G key (compute_nonce nonce k) c"

definition chunk_tag :: "gcm_prims \<Rightarrow> bytes \<Rightarrow> bytes \<Rightarrow> nat \<Rightarrow> bytes \<Rightarrow> bytes" where
  "chunk_tag G key nonce k c = gcm_tag G key (compute_nonce nonce k) [] (chunk_ct G key nonce k c)"

definition enc_chunk :: "gcm_prims \<Rightarrow> bytes \<Rightarrow> bytes \<Rightarrow> nat \<Rightarrow> bytes \<Rightarrow> bytes" where
  "enc_chunk G key nonce k c = chunk_head k @ chunk_ct G key nonce k c @ chunk_tag G key nonce k c"

fun enc_chunks :: "gcm_prims \<Rightarrow> bytes \<Rightarrow> bytes \<Rightarrow> nat \<Rightarrow> bytes list \<Rightarrow> bytes" where
  "enc_chunks G key nonce k [] = []"
| "enc_chunks G key nonce k (c # cs) = enc_chunk G key nonce k c @ enc_chunks G key nonce (Suc k) cs"

text \<open>Full chunks \<open>ds\<close>, then \<open>cur\<close> in the chunk that is not closed yet.\<close>

definition enc_open :: "gcm_prims \<Rightarrow> bytes \<Rightarrow> bytes \<Rightarrow> bytes list \<Rightarrow> bytes \<Rightarrow> bytes" where
  "enc_open G key nonce ds cur =
     enc_chunks G key nonce 1 ds @ chunk_head (Suc (length ds)) @ chunk_ct G key nonce (Suc (length ds)) cur"

definition final_ct :: "gcm_prims \<Rightarrow> bytes \<Rightarrow> bytes \<Rightarrow> nat \<Rightarrow> bytes" where
  "final_ct G key nonce k = gcm_ct G key (compute_nonce nonce k) FINAL_BLOCK_CONTENT"

definition enc_final :: "gcm_prims \<Rightarrow> bytes \<Rightarrow> bytes \<Rightarrow> nat \<Rightarrow> bytes" where
  "enc_final G key nonce k = FINAL_BLOCK_MAGIC @ final_ct G key nonce k @
     gcm_tag G key (compute_nonce nonce k) FINAL_ASSOCIATED_DATA (final_ct G key nonce k) @
     END_OF_ENCRYPTED_INNER_LAYER_MAGIC"

text \<open>The whole encrypted inner layer: its chunks and the final block.\<close>

definition enc_body :: "gcm_prims \<Rightarrow> bytes \<Rightarrow> bytes \<Rightarrow> bytes list \<Rightarrow> bytes" where
  "enc_body G key nonce cs = enc_chunks G key nonce 1 cs @ enc_final G key nonce (Suc (length cs))"

definition full_chunks :: "bytes list \<Rightarrow> bool" where
  "full_chunks ds \<longleftrightarrow> (\<forall>d\<in>set ds. length d = 131072)"

lemma chunk_simps [simp]:
  "length (chunk_head k) = 16" "length (chunk_ct G key nonce k c) = length c" "chunk_ct G key nonce k [] = []"
  by (simp_all add: chunk_head_def chunk_ct_def)

lemma length_chunk_tag [simp]: "gcm_prims_ok G \<Longrightarrow> length (chunk_tag G key nonce k c) = 16"
  by (simp add: chunk_tag_def gcm_tag_def gcm_prims_ok_def)

lemma length_enc_chunk [simp]: "gcm_prims_ok G \<Longrightarrow> length (enc_chunk G key nonce k c) = 32 + length c"
  by (simp add: enc_chunk_def)

lemma length_final_ct [simp]: "length (final_ct G key nonce k) = 10"
  by (simp add: final_ct_def)

lemma length_enc_final [simp]: "gcm_prims_ok G \<Longrightarrow> length (enc_final G key nonce k) = 42"
  by (simp add: enc_final_def gcm_tag_def gcm_prims_ok_def)

lemma enc_chunks_append [simp]:
  "enc_chunks G key nonce k (cs @ ds) = enc_chunks G key nonce k cs @ enc_chunks G key nonce (k + length cs) ds"
  by (induction cs arbitrary: k) auto

lemma length_enc_chunks:
  "gcm_prims_ok G \<Longrightarrow> length (enc_chunks G key nonce k cs) = 32 * length cs + length (concat cs)"
  by (induction cs arbitrary: k) auto

lemma enc_open_snoc:
  "enc_open G key nonce (ds @ [cur]) [] = enc_open G key nonce ds cur @
     chunk_tag G key nonce (Suc (length ds)) cur @ CHUNK_MAGIC @ to_le 8 (Suc (Suc (length ds)))"
  by (simp add: enc_open_def enc_chunk_def) (simp add: chunk_head_def)

lemma enc_open_append:
  "enc_open G key nonce ds (cur @ bs) = enc_open G key nonce ds cur @
     xor_keystream G key (counter_block_of (compute_nonce nonce (Suc (length ds)))) (16 + length cur) bs"
  by (simp add: enc_open_def chunk_ct_def gcm_ct_append)

definition enc_state ::
  "('w \<Rightarrow> bytes) \<Rightarrow> ('w \<Rightarrow> bool) \<Rightarrow> gcm_prims \<Rightarrow> bytes \<Rightarrow> bytes list \<Rightarrow> bytes \<Rightarrow> 'w enc_writer \<Rightarrow> bool" where
  "enc_state out winv G base ds cur s \<longleftrightarrow>
     winv (ew_inner s) \<and> out (ew_inner s) = base @ enc_open G (ew_key s) (ew_base_nonce s) ds cur \<and>
     gcm_state G (ew_key s) (compute_nonce (ew_base_nonce s) (Suc (length ds))) [] cur (ew_cipher s) \<and>
     ew_chunk_offset s = length cur \<and> ew_ctr s = Suc (length ds) \<and> Suc (length ds) < 2 ^ 64 \<and>
     full_chunks ds \<and> length cur \<le> 131072"

lemma on_ew_Inr:
  "on_ew m s = (Inr r, s') \<longleftrightarrow> (\<exists>w. m (ew_inner s) = (Inr r, w) \<and> s' = put_ew w s)"
  by (auto simp: on_field_def split: prod.splits)

lemma renew_cipher_aad_ok:
  assumes "gcm_prims_ok G" and "gcm_state G key n aad pt (ew_cipher s)" and "length pt \<le> 131072"
    and "length aad' \<le> 8" and "ew_ctr s + 1 < 2 ^ 64"
  obtains c where "renew_cipher_aad G aad' s = (Inr (gcm_tag G key n aad (gcm_ct G key n pt)),
      s\<lparr>ew_ctr := ew_ctr s + 1, ew_chunk_offset := 0, ew_cipher := c\<rparr>)"
    "gcm_state G (ew_key s) (compute_nonce (ew_base_nonce s) (ew_ctr s + 1)) aad' [] c"
proof -
  have "length aad' < AES256_GCM_MAX_PLAINTEXT_LENGTH"
    using assms(4) by (simp add: AES256_GCM_MAX_PLAINTEXT_LENGTH_def)
  then obtain c where c: "aes_gcm_new G (ew_key s) (compute_nonce (ew_base_nonce s) (ew_ctr s + 1)) aad' = Inr c"
    "gcm_state G (ew_key s) (compute_nonce (ew_base_nonce s) (ew_ctr s + 1)) aad' [] c" by (rule aes_gcm_new_ok)
  have "length pt < AES256_GCM_MAX_PLAINTEXT_LENGTH"
    using assms(3) by (simp add: AES256_GCM_MAX_PLAINTEXT_LENGTH_def)
  from aes_gcm_into_tag_ok [OF assms(1,2) this] c assms(5) show thesis
    by (intro that [of c]) (auto simp: renew_cipher_aad_def checked_add_def Let_def)
qed

text \<open>Closing a full chunk: \<open>f\<close> says what the inner writer has to do.\<close>

context sink
begin

lemma on_ew_prints:
  assumes "prints m bs a" and "winv (ew_inner s)" and "on_ew m s = (Inr r, s')"
  shows "\<exists>w. s' = put_ew w s \<and> winv w \<and> out w = out (ew_inner s) @ bs \<and> r = a"
  using assms(3) printsD [OF assms(1,2)] by (auto simp: on_ew_Inr)

lemma enc_next_chunk_state:
  assumes G: "gcm_prims_ok G" and s: "enc_state out winv G base ds cur s" and l: "length cur = 131072"
    and r: "enc_next_chunk G wr s = (Inr u, s')"
  shows "enc_state out winv G base (ds @ [cur]) [] s' \<and> ew_key s' = ew_key s \<and> ew_base_nonce s' = ew_base_nonce s"
proof -
  have st: "winv (ew_inner s)" "out (ew_inner s) = base @ enc_open G (ew_key s) (ew_base_nonce s) ds cur"
    "gcm_state G (ew_key s) (compute_nonce (ew_base_nonce s) (Suc (length ds))) [] cur (ew_cipher s)"
    "ew_ctr s = Suc (length ds)" "full_chunks ds"
    using s by (auto simp: enc_state_def)
  from r obtain tag s1 where t: "renew_cipher_aad G [] s = (Inr tag, s1)"
    and w: "bindE (on_ew (write_all wr tag)) (\<lambda>_. bindE (on_ew (write_all wr CHUNK_MAGIC))
      (\<lambda>_ s. bindE (on_ew (to_io (u64_serialize wr (ew_ctr s)))) (\<lambda>_. ret ()) s)) s1 = (Inr u, s')"
    unfolding enc_next_chunk_def renew_cipher_def ASSOCIATED_DATA_def
    by (rule bindE_InrE) (blast dest: to_io_InrD)
  from t have ctr: "ew_ctr s + 1 < 2 ^ 64"
    by (auto simp: renew_cipher_aad_def checked_add_def split: if_splits)
  obtain c where c: "renew_cipher_aad G [] s =
      (Inr (chunk_tag G (ew_key s) (ew_base_nonce s) (Suc (length ds)) cur),
       s\<lparr>ew_ctr := ew_ctr s + 1, ew_chunk_offset := 0, ew_cipher := c\<rparr>)"
    "gcm_state G (ew_key s) (compute_nonce (ew_base_nonce s) (ew_ctr s + 1)) [] [] c"
    using renew_cipher_aad_ok [OF G st(3) _ _ ctr, of "[]"] l by (auto simp: chunk_tag_def chunk_ct_def)
  from w obtain s2 s3 n where s2: "on_ew (write_all wr tag) s1 = (Inr (), s2)"
    and s3: "on_ew (write_all wr CHUNK_MAGIC) s2 = (Inr (), s3)"
    and s4: "on_ew (to_io (u64_serialize wr (ew_ctr s3))) s3 = (Inr n, s')"
    by (auto elim!: bindE_InrE simp: ret_def)
  have s1: "s1 = s\<lparr>ew_ctr := ew_ctr s + 1, ew_chunk_offset := 0, ew_cipher := c\<rparr>"
    and tag: "tag = chunk_tag G (ew_key s) (ew_base_nonce s) (Suc (length ds)) cur" using t c(1) by auto
  have "winv (ew_inner s1)" using st(1) s1 by simp
  from on_ew_prints [OF prints_write_all this s2] obtain w2 where
    w2: "s2 = put_ew w2 s1" "winv w2" "out w2 = out (ew_inner s1) @ tag" by blast
  then have "winv (ew_inner s2)" by simp
  from on_ew_prints [OF prints_write_all this s3] obtain w3 where
    w3: "s3 = put_ew w3 s2" "winv w3" "out w3 = out (ew_inner s2) @ CHUNK_MAGIC" by blast
  then have "winv (ew_inner s3)" by simp
  from on_ew_prints [OF prints_to_io [OF prints_u64] this s4] obtain w4 where
    w4: "s' = put_ew w4 s3" "winv w4" "out w4 = out (ew_inner s3) @ to_le 8 (ew_ctr s3)" by blast
  have "full_chunks (ds @ [cur])" using st(5) l by (simp add: full_chunks_def)
  then show ?thesis
    using st w2 w3 w4 c(2) ctr by (auto simp: enc_state_def s1 tag enc_open_snoc)
qed

lemma enc_write_in_chunk_state:
  assumes s: "enc_state out winv G base ds cur s" and r: "enc_write_in_chunk G wr buf s = (Inr k, s')"
  shows "k \<le> length buf \<and> (buf \<noteq> [] \<longrightarrow> length cur < 131072 \<longrightarrow> 0 < k) \<and> enc_state out winv G base ds (cur @ take k buf) s' \<and>
    ew_key s' = ew_key s \<and> ew_base_nonce s' = ew_base_nonce s"
proof -
  have st: "winv (ew_inner s)" "out (ew_inner s) = base @ enc_open G (ew_key s) (ew_base_nonce s) ds cur"
    "gcm_state G (ew_key s) (compute_nonce (ew_base_nonce s) (Suc (length ds))) [] cur (ew_cipher s)"
    "ew_chunk_offset s = length cur" "length cur \<le> 131072"
    using s by (auto simp: enc_state_def)
  let ?n = "min (min CIPHER_BUF_SIZE (length buf)) (131072 - length cur)"
  have n: "length (take ?n buf) = ?n" "length cur + ?n \<le> 131072" using st(5) by auto
  have "length cur + length (take ?n buf) + length ([] :: bytes) \<le> 131072"
    using n by (simp only: list.size)
  also have "\<dots> < AES256_GCM_MAX_PLAINTEXT_LENGTH" by (simp add: AES256_GCM_MAX_PLAINTEXT_LENGTH_def)
  finally have "length cur + length (take ?n buf) + length ([] :: bytes) < AES256_GCM_MAX_PLAINTEXT_LENGTH" .
  from aes_gcm_encrypt_ok [OF st(3) this] obtain c where
    c: "aes_gcm_encrypt G (take ?n buf) (ew_cipher s) = Inr (xor_keystream G (ew_key s)
        (counter_block_of (compute_nonce (ew_base_nonce s) (Suc (length ds)))) (16 + length cur) (take ?n buf), c)"
    "gcm_state G (ew_key s) (compute_nonce (ew_base_nonce s) (Suc (length ds))) [] (cur @ take ?n buf) c" by blast
  let ?x = "xor_keystream G (ew_key s)
        (counter_block_of (compute_nonce (ew_base_nonce s) (Suc (length ds)))) (16 + length cur) (take ?n buf)"
  from r c(1) st(4,5) obtain s1 where
    w: "on_ew (write_all wr ?x) (s\<lparr>ew_cipher := c\<rparr>) = (Inr (), s1)"
    and k: "k = ?n" "s' = s1\<lparr>ew_chunk_offset := ew_chunk_offset s1 + ?n\<rparr>"
    by (auto simp: enc_write_in_chunk_def checked_sub_def Let_def checked_add_def elim!: bindE_InrE
        split: if_splits)
  have "winv (ew_inner (s\<lparr>ew_cipher := c\<rparr>))" using st(1) by simp
  from on_ew_prints [OF prints_write_all this w] obtain w1 where
    w1: "s1 = put_ew w1 (s\<lparr>ew_cipher := c\<rparr>)" "winv w1" "out w1 = out (ew_inner s) @ ?x" by auto
  show ?thesis
    using n s st c(2) w1 k by (auto simp: enc_state_def enc_open_append CIPHER_BUF_SIZE_def)
qed

lemma enc_write_state:
  assumes G: "gcm_prims_ok G" and s: "enc_state out winv G base ds cur s"
    and r: "enc_write G wr buf s = (Inr k, s')"
  shows "\<exists>ds' cur'. k \<le> length buf \<and> enc_state out winv G base ds' cur' s' \<and>
    (buf \<noteq> [] \<or> length cur < 131072 \<and> (cur = [] \<longrightarrow> ds = []) \<longrightarrow> cur' = [] \<longrightarrow> ds' = []) \<and> concat ds' @ cur' = (concat ds @ cur) @ take k buf \<and>
    ew_key s' = ew_key s \<and> ew_base_nonce s' = ew_base_nonce s"
proof (cases "length cur = 131072")
  case True
  have off: "ew_chunk_offset s = 131072" using s True by (simp add: enc_state_def)
  from r obtain s1 u where s1: "enc_next_chunk G wr s = (Inr u, s1)" "enc_write_in_chunk G wr buf s1 = (Inr k, s')"
    by (auto simp: enc_write_def off elim!: bindE_InrE)
  from enc_next_chunk_state [OF G s True s1(1)] have
    n: "enc_state out winv G base (ds @ [cur]) [] s1" "ew_key s1 = ew_key s" "ew_base_nonce s1 = ew_base_nonce s" by auto
  from enc_write_in_chunk_state [OF n(1) s1(2)] n(2,3) show ?thesis
    using True by (intro exI [of _ "ds @ [cur]"] exI [of _ "take k buf"]) (auto simp: take_eq_Nil)
next
  case False
  then have off: "length cur < 131072" using s by (simp add: enc_state_def)
  from False have "ew_chunk_offset s < 131072" using s by (simp add: enc_state_def)
  then have "enc_write_in_chunk G wr buf s = (Inr k, s')"
    using r by (simp add: enc_write_def bindE_def ret_def)
  from enc_write_in_chunk_state [OF s this] False off show ?thesis
    by (intro exI [of _ ds] exI [of _ "cur @ take k buf"]) (auto simp: take_eq_Nil)
qed

end

section \<open>With room, writing succeeds\<close>

definition enc_room :: "('w \<Rightarrow> nat) \<Rightarrow> 'w enc_writer \<Rightarrow> nat" where
  "enc_room room s = min (room (ew_inner s) div 33) (2 ^ 64 - 2 - ew_ctr s)"

context room_sink
begin

lemma on_ew_runs:
  assumes "runs m bs a" and "winv (ew_inner s)" and "length bs \<le> room (ew_inner s)"
  shows "\<exists>w. on_ew m s = (Inr a, put_ew w s) \<and> winv w \<and> out w = out (ew_inner s) @ bs \<and>
    room (ew_inner s) \<le> room w + length bs"
  using runsE [OF assms] by (metis on_ew_Inr)

lemma enc_next_chunk_room:
  assumes G: "gcm_prims_ok G" and s: "enc_state out winv G base ds cur s"
    and r: "32 \<le> room (ew_inner s)" and c: "ew_ctr s + 1 < 2 ^ 64"
  shows "\<exists>s'. enc_next_chunk G wr s = (Inr (), s') \<and> room (ew_inner s) \<le> room (ew_inner s') + 32 \<and>
    ew_ctr s' = ew_ctr s + 1"
proof -
  have st: "winv (ew_inner s)" "length cur \<le> 131072"
    "gcm_state G (ew_key s) (compute_nonce (ew_base_nonce s) (Suc (length ds))) [] cur (ew_cipher s)"
    using s by (auto simp: enc_state_def)
  obtain cc where cc: "renew_cipher_aad G [] s =
      (Inr (chunk_tag G (ew_key s) (ew_base_nonce s) (Suc (length ds)) cur),
       s\<lparr>ew_ctr := ew_ctr s + 1, ew_chunk_offset := 0, ew_cipher := cc\<rparr>)"
    using renew_cipher_aad_ok [OF G st(3,2) _ c, of "[]"] by (auto simp: chunk_tag_def chunk_ct_def)
  let ?tag = "chunk_tag G (ew_key s) (ew_base_nonce s) (Suc (length ds)) cur"
  let ?s1 = "s\<lparr>ew_ctr := ew_ctr s + 1, ew_chunk_offset := 0, ew_cipher := cc\<rparr>"
  obtain w2 where w2: "on_ew (write_all wr ?tag) ?s1 = (Inr (), put_ew w2 ?s1)" "winv w2"
    "room (ew_inner s) \<le> room w2 + 16"
    using on_ew_runs [OF runs_write_all, of ?s1 ?tag] st(1) r G by auto
  obtain w3 where w3: "on_ew (write_all wr CHUNK_MAGIC) (put_ew w2 ?s1) = (Inr (), put_ew w3 ?s1)" "winv w3"
    "room w2 \<le> room w3 + 8"
    using on_ew_runs [OF runs_write_all, of "put_ew w2 ?s1" CHUNK_MAGIC] w2 r by auto
  obtain w4 where w4: "on_ew (to_io (u64_serialize wr (ew_ctr s + 1))) (put_ew w3 ?s1) = (Inr 8, put_ew w4 ?s1)"
    "winv w4" "room w3 \<le> room w4 + 8"
    using on_ew_runs [OF runs_to_io [OF runs_u64], of "put_ew w3 ?s1" "ew_ctr s + 1"] w2 w3 r by auto
  show ?thesis
    using cc w2 w3 w4 by (simp add: enc_next_chunk_def renew_cipher_def ASSOCIATED_DATA_def bindE_def to_io_Inr ret_def)
qed

lemma enc_write_in_chunk_room:
  assumes s: "enc_state out winv G base ds cur s" and r: "min 4096 (length buf) \<le> room (ew_inner s)"
  shows "\<exists>s'. enc_write_in_chunk G wr buf s = (Inr (min (min 4096 (length buf)) (131072 - length cur)), s') \<and>
    room (ew_inner s) \<le> room (ew_inner s') + min (min 4096 (length buf)) (131072 - length cur) \<and> ew_ctr s' = ew_ctr s"
proof -
  have st: "winv (ew_inner s)"
    "gcm_state G (ew_key s) (compute_nonce (ew_base_nonce s) (Suc (length ds))) [] cur (ew_cipher s)"
    "ew_chunk_offset s = length cur" "length cur \<le> 131072"
    using s by (auto simp: enc_state_def)
  let ?n = "min (min 4096 (length buf)) (131072 - length cur)"
  have n: "length (take ?n buf) = ?n" "length cur + ?n \<le> 131072" using st(4) by auto
  have "length cur + length (take ?n buf) + length ([] :: bytes) \<le> 131072"
    using n by (simp only: list.size)
  also have "\<dots> < AES256_GCM_MAX_PLAINTEXT_LENGTH" by (simp add: AES256_GCM_MAX_PLAINTEXT_LENGTH_def)
  finally obtain c where c: "aes_gcm_encrypt G (take ?n buf) (ew_cipher s) = Inr (xor_keystream G (ew_key s)
        (counter_block_of (compute_nonce (ew_base_nonce s) (Suc (length ds)))) (16 + length cur) (take ?n buf), c)"
    using aes_gcm_encrypt_ok [OF st(2)] by blast
  let ?x = "xor_keystream G (ew_key s)
        (counter_block_of (compute_nonce (ew_base_nonce s) (Suc (length ds)))) (16 + length cur) (take ?n buf)"
  have x: "length ?x = ?n" by (simp only: length_xor_keystream n(1))
  have "winv (ew_inner (s\<lparr>ew_cipher := c\<rparr>))" using st(1) by simp
  moreover have "length ?x \<le> room (ew_inner (s\<lparr>ew_cipher := c\<rparr>))" unfolding x using r by simp
  ultimately have "\<exists>w. on_ew (write_all wr ?x) (s\<lparr>ew_cipher := c\<rparr>) = (Inr (), put_ew w (s\<lparr>ew_cipher := c\<rparr>)) \<and>
      winv w \<and> out w = out (ew_inner (s\<lparr>ew_cipher := c\<rparr>)) @ ?x \<and>
      room (ew_inner (s\<lparr>ew_cipher := c\<rparr>)) \<le> room w + length ?x"
    by (rule on_ew_runs [OF runs_write_all])
  then obtain w where w: "on_ew (write_all wr ?x) (s\<lparr>ew_cipher := c\<rparr>) = (Inr (), put_ew w (s\<lparr>ew_cipher := c\<rparr>))"
    "room (ew_inner s) \<le> room w + ?n" unfolding x by auto
  have "checked_sub 131072 (length cur) = Some (131072 - length cur)"
    "checked_add (length cur) ?n = Some (length cur + ?n)"
    using n(2) st(4) by (auto simp: checked_sub_def checked_add_def)
  then show ?thesis
    using w c st(3) by (simp add: enc_write_in_chunk_def CIPHER_BUF_SIZE_def Let_def bindE_def)
qed

lemma enc_write_room:
  assumes G: "gcm_prims_ok G" and s: "enc_state out winv G base ds cur s"
    and buf: "buf \<noteq> []" "length buf \<le> enc_room room s"
  shows "\<exists>k s'. enc_write G wr buf s = (Inr k, s') \<and> 0 < k \<and> enc_room room s \<le> enc_room room s' + k"
proof -
  have lb: "1 \<le> length buf" using buf(1) by (simp add: Suc_le_eq)
  have b: "33 * length buf \<le> room (ew_inner s)" "ew_ctr s + length buf < 2 ^ 64 - 1"
    using buf lb unfolding enc_room_def by linarith+
  have off: "ew_chunk_offset s = length cur" "length cur \<le> 131072" using s by (auto simp: enc_state_def)
  show ?thesis
  proof (cases "length cur = 131072")
    case True
    have "32 \<le> room (ew_inner s)" "ew_ctr s + 1 < 2 ^ 64" using b lb by linarith+
    from enc_next_chunk_room [OF G s this] obtain s1 where
      s1: "enc_next_chunk G wr s = (Inr (), s1)" "room (ew_inner s) \<le> room (ew_inner s1) + 32"
      "ew_ctr s1 = ew_ctr s + 1" by blast
    from enc_next_chunk_state [OF G s True s1(1)] have st1: "enc_state out winv G base (ds @ [cur]) [] s1" by simp
    let ?k = "min 4096 (length buf)"
    have "?k \<le> room (ew_inner s1)" using s1(2) b(1) lb by linarith
    from enc_write_in_chunk_room [OF st1 this] obtain s' where
      s': "enc_write_in_chunk G wr buf s1 = (Inr ?k, s')" "room (ew_inner s1) \<le> room (ew_inner s') + ?k"
      "ew_ctr s' = ew_ctr s1" by auto
    have "enc_write G wr buf s = (Inr ?k, s')"
      using s1(1) s'(1) off True by (simp add: enc_write_def bindE_def)
    moreover have k: "0 < ?k" using buf(1) by simp
    moreover have "room (ew_inner s) \<le> room (ew_inner s') + 33 * ?k" using s1(2) s'(2) k by linarith
    then have "enc_room room s \<le> enc_room room s' + ?k"
      using s1(3) s'(3) k unfolding enc_room_def by linarith
    ultimately show ?thesis by blast
  next
    case False
    let ?k = "min (min 4096 (length buf)) (131072 - length cur)"
    have "min 4096 (length buf) \<le> room (ew_inner s)" using b(1) by linarith
    from enc_write_in_chunk_room [OF s this] obtain s' where
      s': "enc_write_in_chunk G wr buf s = (Inr ?k, s')" "room (ew_inner s) \<le> room (ew_inner s') + ?k"
      "ew_ctr s' = ew_ctr s" by auto
    have "enc_write G wr buf s = (Inr ?k, s')"
      using s'(1) off False by (simp add: enc_write_def bindE_def ret_def)
    moreover have "0 < ?k" using buf(1) off(2) False by simp
    moreover have "enc_room room s \<le> enc_room room s' + ?k"
      using s'(2,3) unfolding enc_room_def by linarith
    ultimately show ?thesis by blast
  qed
qed

end

section \<open>The layer as a writer of the plaintext\<close>

text \<open>The plaintext is read off what was output, chunk by chunk.\<close>

function dec_open :: "gcm_prims \<Rightarrow> bytes \<Rightarrow> bytes \<Rightarrow> nat \<Rightarrow> bytes \<Rightarrow> bytes" where
  "dec_open G key nonce k bs =
     (if length bs \<le> 16 + 131072 then chunk_ct G key nonce k (drop 16 bs)
      else chunk_ct G key nonce k (take 131072 (drop 16 bs)) @ dec_open G key nonce (Suc k) (drop 131104 bs))"
  by pat_completeness auto
termination
  by (relation "measure (\<lambda>(G, key, nonce, k, bs). length bs)") auto

declare dec_open.simps [simp del]

lemma chunk_ct_twice: "chunk_ct G key nonce k (chunk_ct G key nonce k c) = c"
  by (simp add: chunk_ct_def gcm_ct_twice)

lemma dec_open_enc:
  "gcm_prims_ok G \<Longrightarrow> full_chunks ds \<Longrightarrow> length cur \<le> 131072 \<Longrightarrow>
   dec_open G key nonce k (enc_chunks G key nonce k ds @ chunk_head j @ chunk_ct G key nonce (k + length ds) cur) =
     concat ds @ cur"
proof (induction ds arbitrary: k)
  case Nil
  then show ?case by (subst dec_open.simps) (simp add: chunk_ct_twice)
next
  case (Cons d ds)
  let ?t = "enc_chunks G key nonce (Suc k) ds @ chunk_head j @ chunk_ct G key nonce (Suc k + length ds) cur"
  have d: "length d = 131072" "full_chunks ds" using Cons.prems(2) by (auto simp: full_chunks_def)
  have e: "enc_chunks G key nonce k (d # ds) @ chunk_head j @ chunk_ct G key nonce (k + length (d # ds)) cur =
      chunk_head k @ chunk_ct G key nonce k d @ chunk_tag G key nonce k d @ ?t"
    by (simp add: enc_chunk_def)
  have l: "drop 131104 (chunk_head k @ chunk_ct G key nonce k d @ chunk_tag G key nonce k d @ ?t) = ?t"
    "take 131072 (drop 16 (chunk_head k @ chunk_ct G key nonce k d @ chunk_tag G key nonce k d @ ?t)) =
      chunk_ct G key nonce k d"
    using d(1) Cons.prems(1) by simp_all
  have "dec_open G key nonce (Suc k) ?t = concat ds @ cur"
    by (rule Cons.IH [OF Cons.prems(1) d(2) Cons.prems(3)])
  then show ?case
    unfolding e using d(1) Cons.prems(1) by (subst dec_open.simps, unfold l) (simp add: chunk_ct_twice)
qed

definition enc_out :: "('w \<Rightarrow> bytes) \<Rightarrow> gcm_prims \<Rightarrow> bytes \<Rightarrow> 'w enc_writer \<Rightarrow> bytes" where
  "enc_out out G base s = dec_open G (ew_key s) (ew_base_nonce s) 1 (drop (length base) (out (ew_inner s)))"

text \<open>Only an empty write can open a chunk and leave it empty; \<^verbatim>\<open>write_all\<close> makes none.\<close>

definition enc_winv :: "('w \<Rightarrow> bytes) \<Rightarrow> ('w \<Rightarrow> bool) \<Rightarrow> gcm_prims \<Rightarrow> bytes \<Rightarrow> 'w enc_writer \<Rightarrow> bool" where
  "enc_winv out winv G base s \<longleftrightarrow> (\<exists>ds cur. enc_state out winv G base ds cur s \<and> (cur = [] \<longrightarrow> ds = []))"

lemma enc_out_state:
  "gcm_prims_ok G \<Longrightarrow> enc_state out winv G base ds cur s \<Longrightarrow> enc_out out G base s = concat ds @ cur"
  using dec_open_enc [of G ds cur "ew_key s" "ew_base_nonce s" 1 "Suc (length ds)"]
  by (simp add: enc_state_def enc_out_def enc_open_def)

lemma enc_sink:
  assumes "sink wr out winv" and G: "gcm_prims_ok G"
  shows "sink (enc_write G wr) (enc_out out G base) (enc_winv out winv G base)"
proof
  fix w :: "'a enc_writer" and bs k w'
  assume "enc_winv out winv G base w" and bs: "bs \<noteq> []" and r: "enc_write G wr bs w = (Inr k, w')"
  then obtain ds cur where s: "enc_state out winv G base ds cur w" by (auto simp: enc_winv_def)
  from sink.enc_write_state [OF assms(1) G s r] obtain ds' cur' where
    s': "k \<le> length bs" "enc_state out winv G base ds' cur' w'"
    "concat ds' @ cur' = (concat ds @ cur) @ take k bs" "cur' = [] \<longrightarrow> ds' = []" using bs by blast
  then show "enc_winv out winv G base w' \<and> enc_out out G base w' = enc_out out G base w @ take k bs \<and> k \<le> length bs"
    using enc_out_state [OF G s] enc_out_state [OF G s'(2)] by (auto simp: enc_winv_def)
qed

lemma enc_room_sink:
  assumes "room_sink wr out winv room" and G: "gcm_prims_ok G"
  shows "room_sink (enc_write G wr) (enc_out out G base) (enc_winv out winv G base) (enc_room room)"
proof (rule room_sink.intro)
  show "sink (enc_write G wr) (enc_out out G base) (enc_winv out winv G base)"
    by (rule enc_sink [OF _ G]) (use assms(1) in \<open>simp add: room_sink_def\<close>)
  show "room_sink_axioms (enc_write G wr) (enc_winv out winv G base) (enc_room room)"
    by standard (use room_sink.enc_write_room [OF assms(1) G] in \<open>auto simp: enc_winv_def\<close>)
qed

interpretation enc_vec: room_sink "enc_write demo_prims vec_write" "enc_out (\<lambda>w. w) demo_prims base"
  "enc_winv (\<lambda>w. w) (\<lambda>_. True) demo_prims base" "enc_room vec_room"
  by (rule enc_room_sink [OF vec.room_sink_axioms demo_prims_ok])

section \<open>Finalization\<close>

lemma final_content_write:
  assumes G: "gcm_prims_ok G" and c: "gcm_state G key n aad [] (ew_cipher s)" "ew_chunk_offset s = 0" "length aad \<le> 8"
  obtains c' where "gcm_state G key n aad FINAL_BLOCK_CONTENT c'"
    "write_all (enc_write G wr) FINAL_BLOCK_CONTENT s =
      (case write_all wr (gcm_ct G key n FINAL_BLOCK_CONTENT) (ew_inner s) of
         (Inl e, w) \<Rightarrow> (Inl e, s\<lparr>ew_cipher := c', ew_inner := w\<rparr>)
       | (Inr _, w) \<Rightarrow> (Inr (), s\<lparr>ew_cipher := c', ew_inner := w, ew_chunk_offset := 10\<rparr>))"
proof -
  have "length ([] :: bytes) + length FINAL_BLOCK_CONTENT + length aad < AES256_GCM_MAX_PLAINTEXT_LENGTH"
    using c(3) by (simp add: AES256_GCM_MAX_PLAINTEXT_LENGTH_def)
  from aes_gcm_encrypt_ok [OF c(1) this] obtain c' where
    c': "aes_gcm_encrypt G FINAL_BLOCK_CONTENT (ew_cipher s) = Inr (gcm_ct G key n FINAL_BLOCK_CONTENT, c')"
    "gcm_state G key n aad FINAL_BLOCK_CONTENT c'" by (auto simp: gcm_ct_def)
  let ?ct = "gcm_ct G key n FINAL_BLOCK_CONTENT"
  have t: "take 10 FINAL_BLOCK_CONTENT = FINAL_BLOCK_CONTENT" "drop 10 FINAL_BLOCK_CONTENT = []" by simp_all
  have "checked_sub 131072 0 = Some 131072" "checked_add 0 10 = Some (10 :: nat)"
    by (simp_all add: checked_sub_def checked_add_def)
  then have "enc_write G wr FINAL_BLOCK_CONTENT s =
      (case write_all wr ?ct (ew_inner s) of
         (Inl e, w) \<Rightarrow> (Inl e, s\<lparr>ew_cipher := c', ew_inner := w\<rparr>)
       | (Inr _, w) \<Rightarrow> (Inr 10, s\<lparr>ew_cipher := c', ew_inner := w, ew_chunk_offset := 10\<rparr>))"
    using c(2) c'(1) by (simp add: enc_write_def enc_write_in_chunk_def bindE_def ret_def Let_def CIPHER_BUF_SIZE_def t
        on_field_def split: prod.splits sum.splits)
  moreover have "FINAL_BLOCK_CONTENT \<noteq> []" by (simp add: FINAL_BLOCK_CONTENT_def ascii_def)
  ultimately have "write_all (enc_write G wr) FINAL_BLOCK_CONTENT s =
      (case write_all wr ?ct (ew_inner s) of
         (Inl e, w) \<Rightarrow> (Inl e, s\<lparr>ew_cipher := c', ew_inner := w\<rparr>)
       | (Inr _, w) \<Rightarrow> (Inr (), s\<lparr>ew_cipher := c', ew_inner := w, ew_chunk_offset := 10\<rparr>))"
    by (subst write_all.simps) (auto simp: t write_all.simps [of _ "[]"] split: prod.splits sum.splits)
  with c'(2) show thesis by (rule that)
qed

lemma last_renew_ok:
  assumes G: "gcm_prims_ok G" and s: "enc_state out winv G base ds cur s" and n: "ew_ctr s + 1 < 2 ^ 64"
  obtains c where "renew_cipher_aad G FINAL_ASSOCIATED_DATA s =
      (Inr (chunk_tag G (ew_key s) (ew_base_nonce s) (Suc (length ds)) cur),
       s\<lparr>ew_ctr := length ds + 2, ew_chunk_offset := 0, ew_cipher := c\<rparr>)"
    "gcm_state G (ew_key s) (compute_nonce (ew_base_nonce s) (length ds + 2)) FINAL_ASSOCIATED_DATA [] c"
proof -
  have st: "gcm_state G (ew_key s) (compute_nonce (ew_base_nonce s) (Suc (length ds))) [] cur (ew_cipher s)"
    "ew_ctr s + 1 = length ds + 2" "length cur \<le> 131072" using s by (auto simp: enc_state_def)
  have "length FINAL_ASSOCIATED_DATA \<le> 8" by simp
  from renew_cipher_aad_ok [OF G st(1,3) this n] that show thesis
    unfolding chunk_tag_def chunk_ct_def st(2) by blast
qed

context sink
begin

lemma on_ew_write_all:
  assumes "lift_io (on_ew (write_all wr bs)) s = (Inr u, s')" and "winv (ew_inner s)"
  obtains w where "s' = put_ew w s" "winv w" "out w = out (ew_inner s) @ bs"
  using on_ew_prints [OF prints_write_all assms(2) lift_io_InrD [OF assms(1)]] that by blast

lemma enc_finalize_writes_out:
  assumes G: "gcm_prims_ok G" and s: "enc_state out winv G base ds cur s"
    and r: "enc_finalize_writes G wr s = (Inr u, s')"
  shows "winv (ew_inner s') \<and> out (ew_inner s') =
    base @ enc_body G (ew_key s) (ew_base_nonce s) (ds @ [cur]) @ EMPTY_TAIL_OPTS_SERIALIZATION"
proof -
  let ?key = "ew_key s" and ?n = "compute_nonce (ew_base_nonce s) (length ds + 2)"
  have st: "gcm_state G ?key (compute_nonce (ew_base_nonce s) (Suc (length ds))) [] cur (ew_cipher s)"
    "ew_ctr s = Suc (length ds)" "length cur \<le> 131072" "winv (ew_inner s)"
    "out (ew_inner s) = base @ enc_open G ?key (ew_base_nonce s) ds cur" using s by (auto simp: enc_state_def)
  from r obtain tag s1 s2 s3 u4 s4 ftag s5 s6 s7 where
    r1: "renew_cipher_aad G FINAL_ASSOCIATED_DATA s = (Inr tag, s1)"
    and r2: "lift_io (on_ew (write_all wr tag)) s1 = (Inr (), s2)"
    and r3: "lift_io (on_ew (write_all wr FINAL_BLOCK_MAGIC)) s2 = (Inr (), s3)"
    and r4: "lift_io (write_all (enc_write G wr) FINAL_BLOCK_CONTENT) s3 = (Inr u4, s4)"
    and r5: "renew_cipher_aad G [] s4 = (Inr ftag, s5)"
    and r6: "lift_io (on_ew (write_all wr ftag)) s5 = (Inr (), s6)"
    and r7: "lift_io (on_ew (write_all wr END_OF_ENCRYPTED_INNER_LAYER_MAGIC)) s6 = (Inr (), s7)"
    and r8: "lift_io (on_ew (write_all wr EMPTY_TAIL_OPTS_SERIALIZATION)) s7 = (Inr u, s')"
    unfolding enc_finalize_writes_def last_renew_cipher_def renew_cipher_def ASSOCIATED_DATA_def
    by (elim bindE_InrE) auto
  have "ew_ctr s + 1 < 2 ^ 64"
    using r1 by (auto simp: renew_cipher_aad_def checked_add_def split: if_splits)
  with G s obtain c where c: "renew_cipher_aad G FINAL_ASSOCIATED_DATA s =
      (Inr (chunk_tag G ?key (ew_base_nonce s) (Suc (length ds)) cur),
       s\<lparr>ew_ctr := length ds + 2, ew_chunk_offset := 0, ew_cipher := c\<rparr>)"
    "gcm_state G ?key ?n FINAL_ASSOCIATED_DATA [] c"
    by (rule last_renew_ok)
  then have s1: "s1 = s\<lparr>ew_ctr := length ds + 2, ew_chunk_offset := 0, ew_cipher := c\<rparr>"
    and tag: "tag = chunk_tag G ?key (ew_base_nonce s) (Suc (length ds)) cur" using r1 by auto
  have "winv (ew_inner s1)" using st(4) s1 by simp
  with r2 obtain w2 where w2: "s2 = put_ew w2 s1" "winv w2" "out w2 = out (ew_inner s1) @ tag"
    by (rule on_ew_write_all)
  then have "winv (ew_inner s2)" by simp
  with r3 obtain w3 where w3: "s3 = put_ew w3 s2" "winv w3" "out w3 = out (ew_inner s2) @ FINAL_BLOCK_MAGIC"
    by (rule on_ew_write_all)
  have "gcm_state G ?key ?n FINAL_ASSOCIATED_DATA [] (ew_cipher s3)" "ew_chunk_offset s3 = 0"
    using c(2) by (simp_all add: w3(1) w2(1) s1)
  then obtain c' where c': "gcm_state G ?key ?n FINAL_ASSOCIATED_DATA FINAL_BLOCK_CONTENT c'"
    "write_all (enc_write G wr) FINAL_BLOCK_CONTENT s3 =
      (case write_all wr (gcm_ct G ?key ?n FINAL_BLOCK_CONTENT) (ew_inner s3) of
         (Inl e, w) \<Rightarrow> (Inl e, s3\<lparr>ew_cipher := c', ew_inner := w\<rparr>)
       | (Inr _, w) \<Rightarrow> (Inr (), s3\<lparr>ew_cipher := c', ew_inner := w, ew_chunk_offset := 10\<rparr>))"
    by (rule final_content_write [OF G]) simp
  from lift_io_InrD [OF r4] c'(2) obtain w4 where
    w4: "write_all wr (gcm_ct G ?key ?n FINAL_BLOCK_CONTENT) w3 = (Inr (), w4)"
    "s4 = s3\<lparr>ew_cipher := c', ew_inner := w4, ew_chunk_offset := 10\<rparr>"
    by (auto simp: w3(1) split: prod.splits sum.splits)
  from write_all_out [OF w3(2) w4(1)] have o4: "winv w4" "out w4 = out w3 @ gcm_ct G ?key ?n FINAL_BLOCK_CONTENT"
    by auto
  have "gcm_state G ?key ?n FINAL_ASSOCIATED_DATA FINAL_BLOCK_CONTENT (ew_cipher s4)" "ew_ctr s4 + 1 < 2 ^ 64"
    using c'(1) r5 by (auto simp: w4(2) renew_cipher_aad_def checked_add_def split: if_splits)
  from renew_cipher_aad_ok [OF G this(1) _ _ this(2), of "[]"] r5 obtain c2 where
    s5: "s5 = s4\<lparr>ew_ctr := ew_ctr s4 + 1, ew_chunk_offset := 0, ew_cipher := c2\<rparr>"
    and ftag: "ftag = gcm_tag G ?key ?n FINAL_ASSOCIATED_DATA (gcm_ct G ?key ?n FINAL_BLOCK_CONTENT)" by auto
  have "winv (ew_inner s5)" using o4(1) by (simp add: s5 w4(2))
  with r6 obtain w6 where w6: "s6 = put_ew w6 s5" "winv w6" "out w6 = out (ew_inner s5) @ ftag"
    by (rule on_ew_write_all)
  then have "winv (ew_inner s6)" by simp
  with r7 obtain w7 where w7: "s7 = put_ew w7 s6" "winv w7"
    "out w7 = out (ew_inner s6) @ END_OF_ENCRYPTED_INNER_LAYER_MAGIC" by (rule on_ew_write_all)
  then have "winv (ew_inner s7)" by simp
  with r8 obtain w8 where w8: "s' = put_ew w8 s7" "winv w8"
    "out w8 = out (ew_inner s7) @ EMPTY_TAIL_OPTS_SERIALIZATION" by (rule on_ew_write_all)
  have "out w8 = base @ enc_open G ?key (ew_base_nonce s) ds cur @ tag @ FINAL_BLOCK_MAGIC @
      gcm_ct G ?key ?n FINAL_BLOCK_CONTENT @ ftag @ END_OF_ENCRYPTED_INNER_LAYER_MAGIC @ EMPTY_TAIL_OPTS_SERIALIZATION"
    using st(5) by (simp add: w8(3) w7(1,3) w6(1,3) s5 w4(2) o4(2) w3(1,3) w2(1,3) s1)
  then show ?thesis
    using w8(1,2) by (simp add: enc_body_def enc_final_def final_ct_def tag ftag enc_open_def enc_chunk_def)
qed

end

context room_sink
begin

lemma on_ew_write_all_room:
  assumes "winv (ew_inner s)" and "length bs \<le> room (ew_inner s)"
  obtains w where "lift_io (on_ew (write_all wr bs)) s = (Inr (), put_ew w s)" "winv w"
    "room (ew_inner s) \<le> room w + length bs"
  using on_ew_runs [OF runs_write_all assms] that by (auto intro: lift_io_Inr)

lemma enc_finalize_writes_room:
  assumes G: "gcm_prims_ok G" and s: "enc_state out winv G base ds cur s"
    and r: "67 \<le> room (ew_inner s)" and n: "length ds + 3 < 2 ^ 64"
  shows "\<exists>s'. enc_finalize_writes G wr s = (Inr (), s') \<and> room (ew_inner s) \<le> room (ew_inner s') + 67"
proof -
  let ?key = "ew_key s" and ?n = "compute_nonce (ew_base_nonce s) (length ds + 2)"
  have st: "gcm_state G ?key (compute_nonce (ew_base_nonce s) (Suc (length ds))) [] cur (ew_cipher s)"
    "ew_ctr s = Suc (length ds)" "length cur \<le> 131072" "winv (ew_inner s)" using s by (auto simp: enc_state_def)
  have "ew_ctr s + 1 < 2 ^ 64" using n st(2) by auto
  with G s obtain c where c: "renew_cipher_aad G FINAL_ASSOCIATED_DATA s =
      (Inr (chunk_tag G ?key (ew_base_nonce s) (Suc (length ds)) cur),
       s\<lparr>ew_ctr := length ds + 2, ew_chunk_offset := 0, ew_cipher := c\<rparr>)"
    "gcm_state G ?key ?n FINAL_ASSOCIATED_DATA [] c"
    by (rule last_renew_ok)
  let ?tag = "chunk_tag G ?key (ew_base_nonce s) (Suc (length ds)) cur"
  let ?s1 = "s\<lparr>ew_ctr := length ds + 2, ew_chunk_offset := 0, ew_cipher := c\<rparr>"
  let ?ct = "gcm_ct G ?key ?n FINAL_BLOCK_CONTENT"
  let ?ftag = "gcm_tag G ?key ?n FINAL_ASSOCIATED_DATA ?ct"
  have lens: "length ?tag = 16" "length ?ct = 10" "length ?ftag = 16"
    using G by (simp_all add: gcm_tag_def gcm_prims_ok_def)
  obtain w2 where w2: "lift_io (on_ew (write_all wr ?tag)) ?s1 = (Inr (), put_ew w2 ?s1)" "winv w2"
    "room (ew_inner s) \<le> room w2 + 16"
    by (rule on_ew_write_all_room [of ?s1 ?tag]) (use st(4) r lens in auto)
  obtain w3 where w3: "lift_io (on_ew (write_all wr FINAL_BLOCK_MAGIC)) (put_ew w2 ?s1) = (Inr (), put_ew w3 ?s1)"
    "winv w3" "room w2 \<le> room w3 + 8"
    by (rule on_ew_write_all_room [of "put_ew w2 ?s1" FINAL_BLOCK_MAGIC]) (use w2 r in auto)
  let ?s3 = "put_ew w3 ?s1"
  have "gcm_state G ?key ?n FINAL_ASSOCIATED_DATA [] (ew_cipher ?s3)" "ew_chunk_offset ?s3 = 0"
    using c(2) by simp_all
  then obtain c' where c': "gcm_state G ?key ?n FINAL_ASSOCIATED_DATA FINAL_BLOCK_CONTENT c'"
    "write_all (enc_write G wr) FINAL_BLOCK_CONTENT ?s3 =
      (case write_all wr ?ct (ew_inner ?s3) of
         (Inl e, w) \<Rightarrow> (Inl e, ?s3\<lparr>ew_cipher := c', ew_inner := w\<rparr>)
       | (Inr _, w) \<Rightarrow> (Inr (), ?s3\<lparr>ew_cipher := c', ew_inner := w, ew_chunk_offset := 10\<rparr>))"
    by (rule final_content_write [OF G]) simp
  have "length ?ct \<le> room w3" using r w2(3) w3(3) lens by linarith
  from write_all_room [OF w3(2) this] obtain w4 where w4: "write_all wr ?ct w3 = (Inr (), w4)" "winv w4"
    "room w3 \<le> room w4 + 10" using lens by auto
  let ?s4 = "?s3\<lparr>ew_cipher := c', ew_inner := w4, ew_chunk_offset := 10\<rparr>"
  have r4: "lift_io (write_all (enc_write G wr) FINAL_BLOCK_CONTENT) ?s3 = (Inr (), ?s4)"
    by (rule lift_io_Inr) (use c'(2) w4(1) in simp)
  have "gcm_state G ?key ?n FINAL_ASSOCIATED_DATA FINAL_BLOCK_CONTENT (ew_cipher ?s4)" "ew_ctr ?s4 + 1 < 2 ^ 64"
    using c'(1) n by simp_all
  from renew_cipher_aad_ok [OF G this(1) _ _ this(2), of "[]"] obtain c2 where
    c2: "renew_cipher_aad G [] ?s4 = (Inr ?ftag, ?s4\<lparr>ew_ctr := ew_ctr ?s4 + 1, ew_chunk_offset := 0, ew_cipher := c2\<rparr>)"
    by auto
  let ?s5 = "?s4\<lparr>ew_ctr := ew_ctr ?s4 + 1, ew_chunk_offset := 0, ew_cipher := c2\<rparr>"
  obtain w6 where w6: "lift_io (on_ew (write_all wr ?ftag)) ?s5 = (Inr (), put_ew w6 ?s5)" "winv w6"
    "room w4 \<le> room w6 + 16"
    by (rule on_ew_write_all_room [of ?s5 ?ftag]) (use w2 w3 w4 r lens in auto)
  obtain w7 where w7: "lift_io (on_ew (write_all wr END_OF_ENCRYPTED_INNER_LAYER_MAGIC)) (put_ew w6 ?s5) =
      (Inr (), put_ew w7 ?s5)" "winv w7" "room w6 \<le> room w7 + 8"
    by (rule on_ew_write_all_room [of "put_ew w6 ?s5" END_OF_ENCRYPTED_INNER_LAYER_MAGIC])
      (use w2 w3 w4 w6 r in auto)
  obtain w8 where w8: "lift_io (on_ew (write_all wr EMPTY_TAIL_OPTS_SERIALIZATION)) (put_ew w7 ?s5) =
      (Inr (), put_ew w8 ?s5)" "winv w8" "room w7 \<le> room w8 + 9"
    by (rule on_ew_write_all_room [of "put_ew w7 ?s5" EMPTY_TAIL_OPTS_SERIALIZATION])
      (use w2 w3 w4 w6 w7 r in \<open>auto simp: EMPTY_TAIL_OPTS_SERIALIZATION_def\<close>)
  have "enc_finalize_writes G wr s = (Inr (), put_ew w8 ?s5)"
    unfolding enc_finalize_writes_def last_renew_cipher_def renew_cipher_def ASSOCIATED_DATA_def
    by (simp only: bindE_def c(1) w2(1) w3(1) r4 c2 w6(1) w7(1) w8(1) prod.case sum.case)
  moreover have "room (ew_inner s) \<le> room w8 + 67" using w2(3) w3(3) w4(3) w6(3) w7(3) w8(3) by linarith
  ultimately show ?thesis by simp
qed

end

section \<open>Cutting a plaintext\<close>

function chunks :: "bytes \<Rightarrow> bytes list" where
  "chunks pt = (if length pt \<le> 131072 then [pt] else take 131072 pt # chunks (drop 131072 pt))"
  by pat_completeness auto
termination
  by (relation "measure length") auto

declare chunks.simps [simp del]

lemma chunks_concat:
  "full_chunks ds \<Longrightarrow> length cur \<le> 131072 \<Longrightarrow> (cur = [] \<longrightarrow> ds = []) \<Longrightarrow> chunks (concat ds @ cur) = ds @ [cur]"
proof (induction ds)
  case Nil
  then show ?case by (simp add: chunks.simps)
next
  case (Cons d ds)
  then have d: "length d = 131072" "full_chunks ds" and c: "cur \<noteq> []" by (auto simp: full_chunks_def)
  have "chunks (concat ds @ cur) = ds @ [cur]" by (rule Cons.IH) (use d Cons.prems c in auto)
  with d(1) c show ?case by (subst chunks.simps) simp
qed

lemma concat_chunks: "concat (chunks pt) = pt"
  by (induction pt rule: chunks.induct) (subst chunks.simps, simp)

lemma chunks_split:
  obtains ds cur where "chunks pt = ds @ [cur]" "full_chunks ds" "length cur \<le> 131072" "cur = [] \<longrightarrow> ds = []"
proof (induction pt arbitrary: thesis rule: chunks.induct)
  case (1 pt)
  show ?case
  proof (cases "length pt \<le> 131072")
    case True
    then show ?thesis by (intro 1(2) [of "[]" pt]) (simp_all add: chunks.simps full_chunks_def)
  next
    case False
    then obtain ds cur where h: "chunks (drop 131072 pt) = ds @ [cur]" "full_chunks ds" "length cur \<le> 131072"
      "cur = [] \<longrightarrow> ds = []" using 1(1) by blast
    have "drop 131072 pt \<noteq> []" using False by simp
    then have "cur \<noteq> []" using h concat_chunks [of "drop 131072 pt"] by auto
    then show ?thesis
      using False h by (intro 1(2) [of "take 131072 pt # ds" cur])
        (auto simp: chunks.simps [of pt] full_chunks_def)
  qed
qed

section \<open>Nonces\<close>

lemma map2_xor_inj:
  fixes xs :: bytes
  shows "length ys = length xs \<Longrightarrow> length zs = length xs \<Longrightarrow> map2 (XOR) xs ys = map2 (XOR) xs zs \<Longrightarrow> ys = zs"
proof (induction xs arbitrary: ys zs)
  case (Cons x xs)
  then obtain y ys' z zs' where "ys = y # ys'" "zs = z # zs'" by (metis length_Suc_conv)
  with Cons show ?case by (auto dest: arg_cong [where f = "\<lambda>w. x XOR w"] simp flip: xor.assoc)
qed simp

lemma compute_nonce_inj:
  assumes "8 \<le> length base_nonce" and "i < 2 ^ 64" and "j < 2 ^ 64"
    and "compute_nonce base_nonce i = compute_nonce base_nonce j"
  shows "i = j"
proof -
  have "map2 (XOR) (drop (length base_nonce - 8) base_nonce) (to_be 8 i) =
      map2 (XOR) (drop (length base_nonce - 8) base_nonce) (to_be 8 j)"
    using assms(4) by (simp add: compute_nonce_def)
  then have "to_be 8 i = to_be 8 j"
    by (rule map2_xor_inj [rotated 2]) (use assms(1) in simp_all)
  then have "to_le 8 i = to_le 8 j" by (simp add: to_be_def)
  then show ?thesis using assms(2,3) by (intro to_le_inj [of i 8 j]) simp_all
qed

lemma length_compute_nonce: "8 \<le> length base_nonce \<Longrightarrow> length (compute_nonce base_nonce i) = length base_nonce"
  by (simp add: compute_nonce_def)

section \<open>Sessions\<close>

text \<open>A client that makes any successful calls of \<^verbatim>\<open>write\<close>, but none with an empty buffer when the chunk is full:
  C38 says what that one does.\<close>

inductive enc_session ::
  "gcm_prims \<Rightarrow> (bytes \<Rightarrow> ('w, io_error, nat) op) \<Rightarrow> 'w enc_writer \<Rightarrow> 'w enc_writer \<Rightarrow> bytes \<Rightarrow> bool"
  for G wr s0 where
  enc_begin: "enc_session G wr s0 s0 []"
| enc_writes: "enc_session G wr s0 s pt \<Longrightarrow> buf \<noteq> [] \<or> ew_chunk_offset s < NORMAL_CHUNK_PT_SIZE \<Longrightarrow>
    enc_write G wr buf s = (Inr k, s') \<Longrightarrow> enc_session G wr s0 s' (pt @ take k buf)"

lemma enc_writer_new_state:
  assumes "enc_writer_new G w0 key nonce = Inr s" and "winv w0" and "out w0 = base @ chunk_head 1"
  shows "enc_state out winv G base [] [] s \<and> ew_key s = key \<and> ew_base_nonce s = nonce"
proof -
  have "length ([] :: bytes) < AES256_GCM_MAX_PLAINTEXT_LENGTH" by (simp add: AES256_GCM_MAX_PLAINTEXT_LENGTH_def)
  then obtain c where "aes_gcm_new G key (compute_nonce nonce 1) [] = Inr c"
    "gcm_state G key (compute_nonce nonce 1) [] [] c" by (rule aes_gcm_new_ok)
  with assms show ?thesis
    by (auto simp: enc_writer_new_def ASSOCIATED_DATA_def enc_state_def enc_open_def full_chunks_def)
qed

lemma enc_writer_new_total: "\<exists>s. enc_writer_new G w0 key nonce = Inr s \<and> ew_inner s = w0"
proof -
  have "length ([] :: bytes) < AES256_GCM_MAX_PLAINTEXT_LENGTH" by (simp add: AES256_GCM_MAX_PLAINTEXT_LENGTH_def)
  then obtain c where "aes_gcm_new G key (compute_nonce nonce 1) [] = Inr c" by (rule aes_gcm_new_ok)
  then show ?thesis by (simp add: enc_writer_new_def ASSOCIATED_DATA_def)
qed

lemma enc_session_state:
  assumes "enc_session G wr s0 s pt" and "sink wr out winv" and G: "gcm_prims_ok G"
    and "enc_state out winv G base [] [] s0"
  shows "\<exists>ds cur. enc_state out winv G base ds cur s \<and> concat ds @ cur = pt \<and> (cur = [] \<longrightarrow> ds = []) \<and>
    ew_key s = ew_key s0 \<and> ew_base_nonce s = ew_base_nonce s0"
  using assms(1)
proof induction
  case enc_begin
  then show ?case using assms(4) by auto
next
  case (enc_writes s pt buf k s')
  then obtain ds cur where h: "enc_state out winv G base ds cur s" "concat ds @ cur = pt" "cur = [] \<longrightarrow> ds = []"
    "ew_key s = ew_key s0" "ew_base_nonce s = ew_base_nonce s0" by blast
  have e: "buf \<noteq> [] \<or> length cur < 131072 \<and> (cur = [] \<longrightarrow> ds = [])"
    using enc_writes.hyps(2) h(1,3) by (auto simp: enc_state_def NORMAL_CHUNK_PT_SIZE_def)
  from sink.enc_write_state [OF assms(2) G h(1) enc_writes.hyps(3)] obtain ds' cur' where
    "enc_state out winv G base ds' cur' s'" "cur' = [] \<longrightarrow> ds' = []"
    "concat ds' @ cur' = (concat ds @ cur) @ take k buf" "ew_key s' = ew_key s" "ew_base_nonce s' = ew_base_nonce s"
    using e by blast
  with h(2,4,5) show ?case by (intro exI [of _ ds'] exI [of _ cur']) simp
qed

section \<open>Properties\<close>

text \<open>C29: what the encryption layer outputs. After any sequence of successful writes, none of them empty at the
  end of a full chunk (C38 says what such a write does), and finalization, the inner layer holds the plaintext cut in chunks of 128 KiB, chunk \<open>k\<close> with its number,
  encrypted and authenticated under nonce \<open>k\<close>, then the final block under the next nonce and its own
  associated data, the end magic and the tail options.\<close>

theorem enc_layer_output:
  assumes "sink wr out winv" and "gcm_prims_ok G" and "winv w0" and "out w0 = base @ chunk_head 1"
    and "enc_writer_new G w0 key nonce = Inr s0" and "enc_session G wr s0 s pt"
    and "enc_finalize_writes G wr s = (Inr u, s')"
  shows "out (ew_inner s') = base @ enc_body G key nonce (chunks pt) @ EMPTY_TAIL_OPTS_SERIALIZATION"
proof -
  have n: "enc_state out winv G base [] [] s0" "ew_key s0 = key" "ew_base_nonce s0 = nonce"
    using enc_writer_new_state [OF assms(5), where winv = winv and out = out and base = base] assms(3,4) by auto
  from enc_session_state [OF assms(6,1,2) n(1)] n(2,3) obtain ds cur where
    s: "enc_state out winv G base ds cur s" "concat ds @ cur = pt" "cur = [] \<longrightarrow> ds = []"
    "ew_key s = key" "ew_base_nonce s = nonce" by auto
  have "chunks pt = ds @ [cur]"
    using chunks_concat [of ds cur] s(1-3) by (simp add: enc_state_def)
  then show ?thesis
    using sink.enc_finalize_writes_out [OF assms(1,2) s(1) assms(7)] s(4,5) by simp
qed

theorem enc_layer_output_witness:
  "\<exists>s0 s u s'. enc_writer_new demo_prims (chunk_head 1) [5] (replicate 12 7) = Inr s0 \<and>
    enc_session demo_prims vec_write s0 s [1, 2, 3] \<and>
    enc_finalize_writes demo_prims vec_write s = (Inr u, s') \<and>
    ew_inner s' = enc_body demo_prims [5] (replicate 12 7) (chunks [1, 2, 3]) @ EMPTY_TAIL_OPTS_SERIALIZATION"
proof -
  obtain s0 where s0: "enc_writer_new demo_prims (chunk_head 1) [5] (replicate 12 7) = Inr s0"
    "ew_inner s0 = chunk_head 1"
    using enc_writer_new_total [of demo_prims "chunk_head 1" "[5]" "replicate 12 7"] by blast
  have b: "chunk_head 1 = [] @ chunk_head 1" by simp
  have st0: "enc_state (\<lambda>w. w) (\<lambda>_. True) demo_prims [] [] [] s0"
    by (rule enc_writer_new_state [OF s0(1), THEN conjunct1]) (rule TrueI, simp add: s0(2))
  have "min 4096 (length [1, 2, 3 :: u8]) \<le> vec_room (ew_inner s0)"
    unfolding s0(2) by (simp add: vec_room_def)
  note w = vec.enc_write_in_chunk_room [OF st0 this]
  have "min (min 4096 (length [1, 2, 3 :: u8])) (131072 - length ([] :: bytes)) = 3" by simp
  with w obtain s where s: "enc_write_in_chunk demo_prims vec_write [1, 2, 3] s0 = (Inr 3, s)"
    "vec_room (ew_inner s0) \<le> vec_room (ew_inner s) + 3" by metis
  have "enc_write demo_prims vec_write [1, 2, 3] s0 = (Inr 3, s)"
    using s(1) st0 by (simp add: enc_write_def enc_state_def bindE_def ret_def)
  from enc_writes [OF enc_begin _ this] have ses: "enc_session demo_prims vec_write s0 s [1, 2, 3]" by simp
  from vec.enc_write_in_chunk_state [OF st0 s(1)]
  have "enc_state (\<lambda>w. w) (\<lambda>_. True) demo_prims [] [] [1, 2, 3] s" by simp
  from vec.enc_finalize_writes_room [OF demo_prims_ok this] s(2) obtain s' where
    f: "enc_finalize_writes demo_prims vec_write s = (Inr (), s')" by (auto simp: s0(2) vec_room_def)
  from enc_layer_output [OF vec.sink_axioms demo_prims_ok TrueI b s0(1) ses f]
  have "ew_inner s' = enc_body demo_prims [5] (replicate 12 7) (chunks [1, 2, 3]) @ EMPTY_TAIL_OPTS_SERIALIZATION"
    unfolding append_Nil .
  with s0(1) ses f show ?thesis by blast
qed

text \<open>C32: no nonce is used twice under a key. Key commitment, chunks and final block of an archive use
  the numbers from 0 on, and different numbers below \<open>2 ^ 64\<close> give different nonces.\<close>

theorem nonces_distinct:
  assumes "length base_nonce = NONCE_AES_SIZE" and "n < 2 ^ 64"
  shows "distinct (map (compute_nonce base_nonce) [0..<n]) \<and>
    (\<forall>i. length (compute_nonce base_nonce i) = NONCE_AES_SIZE)"
proof -
  have "inj_on (compute_nonce base_nonce) {0..<n}"
    using compute_nonce_inj [of base_nonce] assms by (auto simp: inj_on_def NONCE_AES_SIZE_def)
  then show ?thesis
    using assms(1) by (simp add: distinct_map length_compute_nonce NONCE_AES_SIZE_def)
qed

theorem nonces_distinct_witness:
  "distinct (map (compute_nonce (replicate 12 9)) [0..<1000])"
  using nonces_distinct [of "replicate 12 9" 1000] by (simp add: NONCE_AES_SIZE_def)

text \<open>The key commitment of a key and nonce passes its own check, and is read back as it was written.\<close>

theorem key_commitment_roundtrip:
  assumes "gcm_prims_ok G" and "source rd view pos rinv" and "rinv r"
    and "build_key_commitment_chain G key nonce = Inr kc"
    and "drop (pos r) (view r) = kc_key_commitment kc @ kc_tag kc @ t"
  shows "check_key_commitment G key nonce kc = Inr () \<and>
    (\<exists>r'. key_commitment_deserialize rd r = (Inr kc, r') \<and> pos r' = pos r + 80)"
proof -
  have "length ([] :: bytes) < AES256_GCM_MAX_PLAINTEXT_LENGTH" by (simp add: AES256_GCM_MAX_PLAINTEXT_LENGTH_def)
  then obtain c where c: "aes_gcm_new G key (compute_nonce nonce 0) [] = Inr c"
    "gcm_state G key (compute_nonce nonce 0) [] [] c" by (rule aes_gcm_new_ok)
  have lim: "length KEY_COMMITMENT_CHAIN + length ([] :: bytes) < AES256_GCM_MAX_PLAINTEXT_LENGTH"
    by (simp add: AES256_GCM_MAX_PLAINTEXT_LENGTH_def)
  from assms(4) c(1) obtain ct c' tag where
    e: "aes_gcm_encrypt G KEY_COMMITMENT_CHAIN c = Inr (ct, c')" "aes_gcm_into_tag G c' = Inr tag"
    "kc = \<lparr>kc_key_commitment = ct, kc_tag = tag\<rparr>"
    by (auto simp: build_key_commitment_chain_def ASSOCIATED_DATA_def split: sum.splits)
  from aes_gcm_encrypt_ok [OF c(2), of KEY_COMMITMENT_CHAIN] lim e(1) have
    ct: "ct = gcm_ct G key (compute_nonce nonce 0) KEY_COMMITMENT_CHAIN"
    "gcm_state G key (compute_nonce nonce 0) [] KEY_COMMITMENT_CHAIN c'" by (auto simp: gcm_ct_def)
  from aes_gcm_into_tag_ok [OF assms(1) ct(2)] lim e(2)
  have tag: "tag = gcm_tag G key (compute_nonce nonce 0) [] ct" by (simp add: ct(1))
  have lens: "length ct = 64" "length tag = 16"
    using assms(1) by (simp_all add: ct(1) tag gcm_tag_def gcm_prims_ok_def)
  have "aes_gcm_decrypt G ct c = Inr (gcm_ct G key (compute_nonce nonce 0) ct, tag)"
    using aes_gcm_decrypt_ok [OF assms(1) c(2), of ct] lim lens(1) by (simp add: tag)
  then have chk: "check_key_commitment G key nonce kc = Inr ()"
    using c(1) e(3) by (simp add: check_key_commitment_def or_config_def ASSOCIATED_DATA_def)
  have "source.parses view pos rinv (key_commitment_deserialize rd) (ct @ tag) kc"
    unfolding key_commitment_deserialize_def e(3)
    by (rule source.parses_bindE [OF assms(2)], rule source.parses_array [OF assms(2)],
        simp add: lens KEY_COMMITMENT_SIZE_def KEY_SIZE_def, rule source.parses_bindE_ret [OF assms(2)],
        rule source.parses_array [OF assms(2)], simp add: lens)
  moreover have "source.rest view pos r = (ct @ tag) @ t"
    using assms(5) e(3) by (simp add: source.rest_def [OF assms(2)])
  ultimately have "source.yields view pos rinv (key_commitment_deserialize rd) r kc (length (ct @ tag))"
    by (rule source.parsesD [OF assms(2) _ assms(3)])
  then show ?thesis
    using chk lens by (auto simp: source.yields_def [OF assms(2)])
qed

theorem key_commitment_roundtrip_witness:
  "\<exists>kc r'. build_key_commitment_chain demo_prims [5] (replicate 12 7) = Inr kc \<and>
    check_key_commitment demo_prims [5] (replicate 12 7) kc = Inr () \<and>
    key_commitment_deserialize cursor_read (cursor_new (kc_key_commitment kc @ kc_tag kc)) = (Inr kc, r')"
proof -
  have l: "length ([] :: bytes) < AES256_GCM_MAX_PLAINTEXT_LENGTH"
    "length ([] :: bytes) + length KEY_COMMITMENT_CHAIN + length ([] :: bytes) < AES256_GCM_MAX_PLAINTEXT_LENGTH"
    "length ([] @ KEY_COMMITMENT_CHAIN) < AES256_GCM_MAX_PLAINTEXT_LENGTH"
    by (simp_all add: AES256_GCM_MAX_PLAINTEXT_LENGTH_def)
  from l(1) obtain c where c: "aes_gcm_new demo_prims [5] (compute_nonce (replicate 12 7) 0) [] = Inr c"
    "gcm_state demo_prims [5] (compute_nonce (replicate 12 7) 0) [] [] c" by (rule aes_gcm_new_ok)
  from aes_gcm_encrypt_ok [OF c(2) l(2)] obtain ct c' where
    e: "aes_gcm_encrypt demo_prims KEY_COMMITMENT_CHAIN c = Inr (ct, c')"
    "gcm_state demo_prims [5] (compute_nonce (replicate 12 7) 0) [] ([] @ KEY_COMMITMENT_CHAIN) c'"
    "length ct = 64" by auto
  from aes_gcm_into_tag_ok [OF demo_prims_ok e(2) l(3)] c(1) e(1) obtain kc where
    kc: "build_key_commitment_chain demo_prims [5] (replicate 12 7) = Inr kc" "kc_key_commitment kc = ct"
    "length (kc_tag kc) = 16"
    using demo_prims_ok by (auto simp: build_key_commitment_chain_def ASSOCIATED_DATA_def gcm_tag_def gcm_prims_ok_def)
  have i: "cursor_inv (cursor_new (kc_key_commitment kc @ kc_tag kc))"
    using kc e(3) by (simp add: cursor_inv_def cursor_new_def)
  have d: "drop (cur_pos (cursor_new (kc_key_commitment kc @ kc_tag kc))) (cur_data (cursor_new (kc_key_commitment kc @ kc_tag kc)))
      = kc_key_commitment kc @ kc_tag kc @ []" by (simp add: cursor_new_def)
  from key_commitment_roundtrip [OF demo_prims_ok cur.source_axioms i kc(1) d] kc(1) show ?thesis by blast
qed

text \<open>C38: an empty write at the end of a full chunk still opens the next chunk. If nothing follows, the
  layer ends with an empty chunk, which no cutting of a plaintext has: the final block then uses a nonce
  that the reader, which counts the chunks from the size, does not expect.\<close>

theorem empty_write_opens_chunk:
  assumes "sink wr out winv" and "gcm_prims_ok G" and "enc_state out winv G base ds cur s" and "length cur = 131072"
    and "enc_write G wr [] s = (Inr k, s1)" and "enc_finalize_writes G wr s1 = (Inr u, s')"
  shows "out (ew_inner s') = base @ enc_body G (ew_key s) (ew_base_nonce s) (ds @ [cur, []]) @
      EMPTY_TAIL_OPTS_SERIALIZATION \<and> ds @ [cur, []] \<noteq> chunks pt"
proof -
  from assms(3,4,5) obtain s2 v where "enc_next_chunk G wr s = (Inr v, s2)" "enc_write_in_chunk G wr [] s2 = (Inr k, s1)"
    by (auto simp: enc_write_def enc_state_def elim!: bindE_InrE)
  with sink.enc_next_chunk_state [OF assms(1,2,3,4)] sink.enc_write_in_chunk_state [OF assms(1)]
  have s1: "enc_state out winv G base (ds @ [cur]) [] s1" "ew_key s1 = ew_key s" "ew_base_nonce s1 = ew_base_nonce s"
    by fastforce+
  obtain ds' cur' where "chunks pt = ds' @ [cur']" "cur' = [] \<longrightarrow> ds' = []" by (rule chunks_split)
  then have "ds @ [cur, []] \<noteq> chunks pt" by (auto simp: append_eq_append_conv2 Cons_eq_append_conv append_eq_Cons_conv)
  then show ?thesis
    using sink.enc_finalize_writes_out [OF assms(1,2) s1(1) assms(6)] s1(2,3) by simp
qed

theorem empty_write_opens_chunk_witness:
  "\<exists>s s1 s' v u. enc_write demo_prims vec_write [] s = (Inr v, s1) \<and>
    enc_finalize_writes demo_prims vec_write s1 = (Inr u, s') \<and>
    ew_inner s' = enc_body demo_prims [5] (replicate 12 7) [replicate 131072 0, []] @ EMPTY_TAIL_OPTS_SERIALIZATION"
proof -
  let ?n = "replicate 12 7 :: bytes" and ?d = "replicate 131072 0 :: bytes"
  have l: "length ([] :: bytes) < AES256_GCM_MAX_PLAINTEXT_LENGTH"
    "length ([] :: bytes) + length ?d + length ([] :: bytes) < AES256_GCM_MAX_PLAINTEXT_LENGTH"
    by (simp_all add: AES256_GCM_MAX_PLAINTEXT_LENGTH_def)
  from l(1) obtain c0 where c0: "gcm_state demo_prims [5] (compute_nonce ?n (Suc (length ([] :: bytes list)))) [] [] c0"
    by (rule aes_gcm_new_ok)
  from aes_gcm_encrypt_ok [OF c0 l(2)] obtain c where
    c: "gcm_state demo_prims [5] (compute_nonce ?n (Suc (length ([] :: bytes list)))) [] ?d c" by auto
  let ?s = "\<lparr>ew_inner = enc_open demo_prims [5] ?n [] ?d, ew_cipher = c, ew_key = [5], ew_base_nonce = ?n,
    ew_chunk_offset = 131072, ew_ctr = 1\<rparr>"
  have s: "enc_state (\<lambda>w. w) (\<lambda>_. True) demo_prims [] [] ?d ?s"
    using c by (simp add: enc_state_def full_chunks_def)
  have ld: "length ?d = 131072" by simp
  have li: "length (ew_inner ?s) = 131088" by (simp add: enc_open_def)
  have "32 \<le> vec_room (ew_inner ?s)" "ew_ctr ?s + 1 < 2 ^ 64" using li by (simp_all add: vec_room_def)
  from vec.enc_next_chunk_room [OF demo_prims_ok s this] obtain s1 where
    s1: "enc_next_chunk demo_prims vec_write ?s = (Inr (), s1)" "vec_room (ew_inner ?s) \<le> vec_room (ew_inner s1) + 32"
    by blast
  from vec.enc_next_chunk_state [OF demo_prims_ok s ld s1(1)]
  have st1: "enc_state (\<lambda>w. w) (\<lambda>_. True) demo_prims [] ([] @ [?d]) [] s1" by blast
  have "min 4096 (length ([] :: bytes)) \<le> vec_room (ew_inner s1)" by simp
  from vec.enc_write_in_chunk_room [OF st1 this] obtain s2 where
    s2: "enc_write_in_chunk demo_prims vec_write [] s1 = (Inr 0, s2)" "vec_room (ew_inner s1) \<le> vec_room (ew_inner s2)"
    by auto
  from vec.enc_write_in_chunk_state [OF st1 s2(1)]
  have st2: "enc_state (\<lambda>w. w) (\<lambda>_. True) demo_prims [] ([] @ [?d]) [] s2" by simp
  have "67 \<le> vec_room (ew_inner s2)" using s1(2) s2(2) li by (simp add: vec_room_def)
  from vec.enc_finalize_writes_room [OF demo_prims_ok st2 this] obtain s' where
    f: "enc_finalize_writes demo_prims vec_write s2 = (Inr (), s')" by auto
  have w: "enc_write demo_prims vec_write [] ?s = (Inr 0, s2)"
    using s1(1) s2(1) by (simp add: enc_write_def bindE_def)
  from empty_write_opens_chunk [OF vec.sink_axioms demo_prims_ok s ld w f] w f show ?thesis by auto
qed

end
