(* ===== verification/Hybrid.thy ===== *)
theory Hybrid
  imports EncryptWriter
begin

text \<open>
  How the key of the encryption layer is made and shared: the HPKE key schedule
  (\<^verbatim>\<open>mla/src/crypto/hpke.rs\<close>), the hybrid KEM for several recipients (\<^verbatim>\<open>mla/src/crypto/hybrid.rs\<close>) and the
  configurations of the layer (\<^verbatim>\<open>mla/src/layers/encrypt.rs\<close>). X25519, ML-KEM, HKDF and the random
  generator are the crates \<^verbatim>\<open>hpke\<close>, \<^verbatim>\<open>x25519_dalek\<close>, \<^verbatim>\<open>ml_kem\<close>, \<^verbatim>\<open>hkdf\<close> and \<^verbatim>\<open>rand\<close>: they are the record
  \<open>kem_prims\<close>, whose laws \<open>kem_ok\<close> are the correctness of the two KEMs and the sizes of their
  outputs. Keys and ciphertexts are byte strings. The asserts of AES-GCM cannot fail on the 32 bytes
  wrapped here, so a failure of these calls is folded into the configuration error.
\<close>

section \<open>The primitives\<close>

record 'g kem_prims =
  kp_kdf_id :: nat
  kp_aead_id :: nat
  kp_labeled_extract :: "bytes \<Rightarrow> bytes \<Rightarrow> bytes \<Rightarrow> bytes \<Rightarrow> bytes"
  kp_labeled_expand :: "bytes \<Rightarrow> bytes \<Rightarrow> bytes \<Rightarrow> bytes \<Rightarrow> nat \<Rightarrow> bytes option"
  kp_hkdf_extract :: "bytes option \<Rightarrow> bytes \<Rightarrow> bytes"
  kp_hkdf_expand_key :: "bytes \<Rightarrow> bytes list \<Rightarrow> bytes"
  kp_gen :: "nat \<Rightarrow> 'g \<Rightarrow> bytes \<times> 'g"
  kp_fill_bytes :: "nat \<Rightarrow> 'g \<Rightarrow> bytes \<times> 'g"
  kp_x25519_public :: "bytes \<Rightarrow> bytes"
  kp_dh_public_from_bytes :: "bytes \<Rightarrow> bytes option"
  kp_dh_private_from_bytes :: "bytes \<Rightarrow> bytes option"
  kp_dh_encapped_from_bytes :: "bytes \<Rightarrow> bytes option"
  kp_dh_encap :: "bytes \<Rightarrow> 'g \<Rightarrow> (bytes \<times> bytes) option \<times> 'g"
  kp_dh_decap :: "bytes \<Rightarrow> bytes \<Rightarrow> bytes option"
  kp_ml_generate :: "bytes \<Rightarrow> bytes \<Rightarrow> bytes \<times> bytes"
  kp_ml_encap :: "bytes \<Rightarrow> 'g \<Rightarrow> (bytes \<times> bytes) option \<times> 'g"
  kp_ml_decap :: "bytes \<Rightarrow> bytes \<Rightarrow> bytes option"

text \<open>Decapsulation gives back the encapsulated secret, and the sizes of the standards.\<close>

definition kem_ok :: "'g kem_prims \<Rightarrow> bool" where
  "kem_ok P \<longleftrightarrow>
     (\<forall>sk w g ss ct g'. kp_dh_public_from_bytes P (kp_x25519_public P sk) = Some w \<longrightarrow>
        kp_dh_encap P w g = (Some (ss, ct), g') \<longrightarrow>
        (\<exists>v. kp_dh_private_from_bytes P sk = Some v \<and> kp_dh_decap P v ct = Some ss)) \<and>
     (\<forall>w g ss ct g'. kp_dh_encap P w g = (Some (ss, ct), g') \<longrightarrow>
        length ct = 32 \<and> kp_dh_encapped_from_bytes P ct = Some ct) \<and>
     (\<forall>d z g ct ss g'. kp_ml_encap P (snd (kp_ml_generate P d z)) g = (Some (ct, ss), g') \<longrightarrow>
        kp_ml_decap P (fst (kp_ml_generate P d z)) ct = Some ss) \<and>
     (\<forall>ek g ct ss g'. kp_ml_encap P ek g = (Some (ct, ss), g') \<longrightarrow> length ct = 1568) \<and>
     (\<forall>n g. length (fst (kp_gen P n g)) = n)"

section \<open>DHKEM and key schedule\<close>

definition dhkem_ciphertext_from_bytes :: "'g kem_prims \<Rightarrow> bytes \<Rightarrow> error + bytes" where
  "dhkem_ciphertext_from_bytes P bs = ok_or HPKEError (kp_dh_encapped_from_bytes P bs)"

definition dhkem_encap_from_rng :: "'g kem_prims \<Rightarrow> bytes \<Rightarrow> ('g, error, bytes \<times> bytes) op" where
  "dhkem_encap_from_rng P pubkey g =
     (case kp_dh_public_from_bytes P pubkey of
        None \<Rightarrow> (Inl HPKEError, g)
      | Some wrapped \<Rightarrow>
          (case kp_dh_encap P wrapped g of (x, g') \<Rightarrow> (ok_or HPKEError x, g')))"

definition dhkem_decap :: "'g kem_prims \<Rightarrow> bytes \<Rightarrow> bytes \<Rightarrow> error + bytes" where
  "dhkem_decap P encapped_key private_key =
     ok_or HPKEError (Option.bind (kp_dh_private_from_bytes P private_key)
       (\<lambda>wrapped. kp_dh_decap P wrapped encapped_key))"

definition HPKE_MODE_BASE :: u8 where "HPKE_MODE_BASE = 0"
definition HYBRID_KEM_ID :: nat where "HYBRID_KEM_ID = 0x1020"
definition HYBRID_KEM_RECIPIENT_ID :: nat where "HYBRID_KEM_RECIPIENT_ID = 0x1120"

definition build_suite_id :: "'g kem_prims \<Rightarrow> nat \<Rightarrow> bytes" where
  "build_suite_id P kem_id =
     ascii ''HPKE'' @ to_be 2 kem_id @ to_be 2 (kp_kdf_id P) @ to_be 2 (kp_aead_id P)"

definition key_schedule_base :: "'g kem_prims \<Rightarrow> bytes \<Rightarrow> bytes \<Rightarrow> nat \<Rightarrow> error + bytes \<times> bytes" where
  "key_schedule_base P shared_secret info kem_id =
     (let suite_id = build_suite_id P kem_id;
          psk_id_hash = kp_labeled_extract P [] suite_id (ascii ''psk_id_hash'') [];
          info_hash = kp_labeled_extract P [] suite_id (ascii ''info_hash'') info;
          key_schedule_context = [HPKE_MODE_BASE] @ psk_id_hash @ info_hash;
          secret_kdf = kp_labeled_extract P shared_secret suite_id (ascii ''secret'') []
      in case kp_labeled_expand P secret_kdf suite_id (ascii ''key'') key_schedule_context KEY_SIZE of
          None \<Rightarrow> Inl HPKEError
        | Some key \<Rightarrow>
            (case kp_labeled_expand P secret_kdf suite_id (ascii ''base_nonce'') key_schedule_context NONCE_AES_SIZE of
               None \<Rightarrow> Inl HPKEError
             | Some base_nonce \<Rightarrow> Inr (key, base_nonce)))"

definition key_schedule_base_hybrid_kem :: "'g kem_prims \<Rightarrow> bytes \<Rightarrow> bytes \<Rightarrow> error + bytes \<times> bytes" where
  "key_schedule_base_hybrid_kem P shared_secret info = key_schedule_base P shared_secret info HYBRID_KEM_ID"

definition key_schedule_base_hybrid_kem_recipient :: "'g kem_prims \<Rightarrow> bytes \<Rightarrow> bytes \<Rightarrow> error + bytes \<times> bytes" where
  "key_schedule_base_hybrid_kem_recipient P shared_secret info =
     key_schedule_base P shared_secret info HYBRID_KEM_RECIPIENT_ID"

section \<open>Keys\<close>

record mlkem_seed =
  ms_d :: bytes
  ms_z :: bytes

definition mlkem_seed_generate_from_csprng :: "'g kem_prims \<Rightarrow> 'g \<Rightarrow> mlkem_seed \<times> 'g" where
  "mlkem_seed_generate_from_csprng P g =
     (case kp_fill_bytes P 32 g of (d, g1) \<Rightarrow>
        (case kp_fill_bytes P 32 g1 of (z, g2) \<Rightarrow> (\<lparr>ms_d = d, ms_z = z\<rparr>, g2)))"

definition mlkem_seed_from_d_z_64 :: "bytes \<Rightarrow> mlkem_seed" where
  "mlkem_seed_from_d_z_64 dz = \<lparr>ms_d = take 32 dz, ms_z = take 32 (drop 32 dz)\<rparr>"

definition mlkem_seed_to_d_z_64 :: "mlkem_seed \<Rightarrow> bytes" where
  "mlkem_seed_to_d_z_64 s = ms_d s @ ms_z s"

definition mlkem_seed_to_privkey :: "'g kem_prims \<Rightarrow> mlkem_seed \<Rightarrow> bytes" where
  "mlkem_seed_to_privkey P s = fst (kp_ml_generate P (ms_d s) (ms_z s))"

definition mlkem_seed_to_pubkey :: "'g kem_prims \<Rightarrow> mlkem_seed \<Rightarrow> bytes" where
  "mlkem_seed_to_pubkey P s = snd (kp_ml_generate P (ms_d s) (ms_z s))"

record decryption_private_key =
  dk_ecc :: bytes
  dk_seed_ml :: mlkem_seed

record encryption_public_key =
  ek_ecc :: bytes
  ek_ml :: bytes

definition generate_keypair_from_rng ::
  "'g kem_prims \<Rightarrow> 'g \<Rightarrow> (decryption_private_key \<times> encryption_public_key) \<times> 'g" where
  "generate_keypair_from_rng P g =
     (case kp_fill_bytes P 32 g of (private_key_ecc, g1) \<Rightarrow>
        (case mlkem_seed_generate_from_csprng P g1 of (seed, g2) \<Rightarrow>
           ((\<lparr>dk_ecc = private_key_ecc, dk_seed_ml = seed\<rparr>,
             \<lparr>ek_ecc = kp_x25519_public P private_key_ecc, ek_ml = mlkem_seed_to_pubkey P seed\<rparr>), g2)))"

section \<open>The hybrid KEM\<close>

definition HPKE_INFO_RECIPIENT :: bytes where "HPKE_INFO_RECIPIENT = ascii ''MLA Recipient''"
definition HYBRIDKEM_ASSOCIATED_DATA :: bytes where "HYBRIDKEM_ASSOCIATED_DATA = []"

definition combine :: "'g kem_prims \<Rightarrow> bytes \<Rightarrow> bytes \<Rightarrow> bytes \<Rightarrow> bytes \<Rightarrow> bytes" where
  "combine P shared_secret1 shared_secret2 ciphertext1 ciphertext2 =
     (let uniformly_random_ss1 = kp_hkdf_extract P None shared_secret1;
          hkdf = kp_hkdf_extract P (Some uniformly_random_ss1) shared_secret2
      in kp_hkdf_expand_key P hkdf [ciphertext1, ciphertext2])"

record recipient_key =
  rk_ct_ml :: bytes
  rk_ct_ecc :: bytes
  rk_wrapped_ss :: bytes
  rk_tag :: bytes

record multi_recipient_key =
  mk_recipients :: "recipient_key list"

text \<open>\<^verbatim>\<open>.or(Err(e))\<close> as \<open>or_config\<close>, where \<open>e\<close> is an archive error.\<close>

definition or_err :: "error \<Rightarrow> error + 'a \<Rightarrow> error + 'a" where
  "or_err e x = (case x of Inl e' \<Rightarrow> Inl (if e' = Panic then Panic else e) | Inr a \<Rightarrow> Inr a)"

definition wrap_shared_secret :: "gcm_prims \<Rightarrow> bytes \<Rightarrow> bytes \<Rightarrow> bytes \<Rightarrow> config_error + bytes \<times> bytes" where
  "wrap_shared_secret G wrap_key wrap_nonce final_ss =
     (case or_config KeyWrappingComputationError (aes_gcm_new G wrap_key wrap_nonce HYBRIDKEM_ASSOCIATED_DATA) of
        Inl e \<Rightarrow> Inl e
      | Inr cipher \<Rightarrow>
          (case aes_gcm_encrypt G final_ss cipher of
             Inl _ \<Rightarrow> Inl ConfigPanic
           | Inr (wrapped_ss, cipher') \<Rightarrow>
               (case aes_gcm_into_tag G cipher' of Inl _ \<Rightarrow> Inl ConfigPanic | Inr tag \<Rightarrow> Inr (wrapped_ss, tag))))"

text \<open>One pass of the loop of \<^verbatim>\<open>encapsulate\<close>, and the loop.\<close>

definition encapsulate_recipient ::
  "'g kem_prims \<Rightarrow> gcm_prims \<Rightarrow> bytes \<Rightarrow> encryption_public_key \<Rightarrow> ('g, config_error, recipient_key) op" where
  "encapsulate_recipient P G final_ss recipient =
     bindE (map_errE (\<lambda>_. DHKEMComputationError) (dhkem_encap_from_rng P (ek_ecc recipient))) (\<lambda>(ss_ecc, ct_ecc).
     bindE (\<lambda>g. case kp_ml_encap P (ek_ml recipient) g of (x, g') \<Rightarrow> (ok_or MLKEMComputationError x, g')) (\<lambda>(ct_ml, ss_ml).
       let ss_recipient = combine P ss_ecc ss_ml ct_ecc ct_ml
       in bindE (lift_res (or_config KeyWrappingComputationError
              (key_schedule_base_hybrid_kem_recipient P ss_recipient HPKE_INFO_RECIPIENT))) (\<lambda>(wrap_key, wrap_nonce).
          bindE (lift_res (wrap_shared_secret G wrap_key wrap_nonce final_ss)) (\<lambda>(wrapped_ss, tag).
            ret \<lparr>rk_ct_ml = ct_ml, rk_ct_ecc = ct_ecc, rk_wrapped_ss = wrapped_ss, rk_tag = tag\<rparr>))))"

fun encapsulate_recipients ::
  "'g kem_prims \<Rightarrow> gcm_prims \<Rightarrow> bytes \<Rightarrow> encryption_public_key list \<Rightarrow> ('g, config_error, recipient_key list) op" where
  "encapsulate_recipients P G final_ss [] = ret []"
| "encapsulate_recipients P G final_ss (k # ks) =
     bindE (encapsulate_recipient P G final_ss k) (\<lambda>r.
     bindE (encapsulate_recipients P G final_ss ks) (\<lambda>rs. ret (r # rs)))"

definition encapsulate ::
  "'g kem_prims \<Rightarrow> gcm_prims \<Rightarrow> encryption_public_key list \<Rightarrow> ('g, config_error, multi_recipient_key \<times> bytes) op" where
  "encapsulate P G keys =
     bindE (\<lambda>g. case kp_gen P 32 g of (ss, g') \<Rightarrow> (Inr ss, g')) (\<lambda>final_ss_hybrid.
     bindE (encapsulate_recipients P G final_ss_hybrid keys) (\<lambda>recipients.
       ret (\<lparr>mk_recipients = recipients\<rparr>, final_ss_hybrid)))"

text \<open>One pass of the loop of \<^verbatim>\<open>decapsulate\<close>: \<open>None\<close> when the tag is not the one of this recipient.\<close>

definition try_recipient ::
  "'g kem_prims \<Rightarrow> gcm_prims \<Rightarrow> decryption_private_key \<Rightarrow> recipient_key \<Rightarrow> config_error + bytes option" where
  "try_recipient P G k recipient =
     (case dhkem_decap P (rk_ct_ecc recipient) (dk_ecc k) of
        Inl _ \<Rightarrow> Inl DHKEMComputationError
      | Inr ss_ecc \<Rightarrow>
          (case kp_ml_decap P (mlkem_seed_to_privkey P (dk_seed_ml k)) (rk_ct_ml recipient) of
             None \<Rightarrow> Inl MLKEMComputationError
           | Some ss_ml \<Rightarrow>
               (let ss_recipient = combine P ss_ecc ss_ml (rk_ct_ecc recipient) (rk_ct_ml recipient)
                in case or_config KeyWrappingComputationError
                    (key_schedule_base_hybrid_kem_recipient P ss_recipient HPKE_INFO_RECIPIENT) of
                    Inl e \<Rightarrow> Inl e
                  | Inr (unwrap_key, unwrap_nonce) \<Rightarrow>
                      (case or_config KeyWrappingComputationError
                          (aes_gcm_new G unwrap_key unwrap_nonce HYBRIDKEM_ASSOCIATED_DATA) of
                         Inl e \<Rightarrow> Inl e
                       | Inr cipher \<Rightarrow>
                           (case aes_gcm_decrypt G (rk_wrapped_ss recipient) cipher of
                              Inl _ \<Rightarrow> Inl ConfigPanic
                            | Inr (decrypted_ss, tag) \<Rightarrow>
                                Inr (if tag = rk_tag recipient then Some decrypted_ss else None))))))"

fun decapsulate_recipients ::
  "'g kem_prims \<Rightarrow> gcm_prims \<Rightarrow> decryption_private_key \<Rightarrow> recipient_key list \<Rightarrow> config_error + bytes" where
  "decapsulate_recipients P G k [] = Inl PrivateKeyNotFound"
| "decapsulate_recipients P G k (r # rs) =
     (case try_recipient P G k r of
        Inl e \<Rightarrow> Inl e
      | Inr (Some ss) \<Rightarrow> Inr ss
      | Inr None \<Rightarrow> decapsulate_recipients P G k rs)"

definition decapsulate ::
  "'g kem_prims \<Rightarrow> gcm_prims \<Rightarrow> decryption_private_key \<Rightarrow> multi_recipient_key \<Rightarrow> config_error + bytes" where
  "decapsulate P G k encapsulated_key = decapsulate_recipients P G k (mk_recipients encapsulated_key)"

section \<open>Serialization\<close>

definition recipient_key_serialize ::
  "(bytes \<Rightarrow> ('w, io_error, nat) op) \<Rightarrow> recipient_key \<Rightarrow> ('w, error, nat) op" where
  "recipient_key_serialize wr r =
     bindE (slice_serialize (u8_serialize wr) (rk_ct_ml r)) (\<lambda>n1.
     bindE (lift_res (ok_or Panic (checked_add 0 n1))) (\<lambda>l1.
     bindE (slice_serialize (u8_serialize wr) (rk_ct_ecc r)) (\<lambda>n2.
     bindE (lift_res (ok_or Panic (checked_add l1 n2))) (\<lambda>l2.
     bindE (slice_serialize (u8_serialize wr) (rk_wrapped_ss r)) (\<lambda>n3.
     bindE (lift_res (ok_or Panic (checked_add l2 n3))) (\<lambda>l3.
     bindE (slice_serialize (u8_serialize wr) (rk_tag r)) (\<lambda>n4.
       lift_res (ok_or Panic (checked_add l3 n4)))))))))"

definition recipient_key_deserialize ::
  "'g kem_prims \<Rightarrow> (nat \<Rightarrow> ('r, io_error, bytes) op) \<Rightarrow> ('r, error, recipient_key) op" where
  "recipient_key_deserialize P rd =
     bindE (array_deserialize rd 1568) (\<lambda>ct_ml.
     bindE (array_deserialize rd 32) (\<lambda>ct_ecc_bytes.
     bindE (lift_res (or_err DeserializationError (dhkem_ciphertext_from_bytes P ct_ecc_bytes))) (\<lambda>ct_ecc.
     bindE (array_deserialize rd 32) (\<lambda>wrapped_ss.
     bindE (array_deserialize rd TAG_LENGTH) (\<lambda>tag.
       ret \<lparr>rk_ct_ml = ct_ml, rk_ct_ecc = ct_ecc, rk_wrapped_ss = wrapped_ss, rk_tag = tag\<rparr>)))))"

definition multi_recipient_key_serialize ::
  "(bytes \<Rightarrow> ('w, io_error, nat) op) \<Rightarrow> multi_recipient_key \<Rightarrow> ('w, error, nat) op" where
  "multi_recipient_key_serialize wr k = vec_serialize wr (recipient_key_serialize wr) (mk_recipients k)"

definition multi_recipient_key_deserialize ::
  "'g kem_prims \<Rightarrow> (nat \<Rightarrow> ('r, io_error, bytes) op) \<Rightarrow> ('r, error, multi_recipient_key) op" where
  "multi_recipient_key_deserialize P rd =
     bindE (vec_deserialize rd (recipient_key_deserialize P rd)) (\<lambda>rs. ret \<lparr>mk_recipients = rs\<rparr>)"

section \<open>Configurations\<close>

definition HPKE_INFO_LAYER :: bytes where "HPKE_INFO_LAYER = ascii ''MLA Encrypt Layer''"

text \<open>\<^verbatim>\<open>InternalEncryptionConfig\<close> is the pair of key and nonce.\<close>

definition internal_encryption_config_from :: "'g kem_prims \<Rightarrow> bytes \<Rightarrow> error + bytes \<times> bytes" where
  "internal_encryption_config_from P shared_secret = key_schedule_base_hybrid_kem P shared_secret HPKE_INFO_LAYER"

record encryption_persistent_config =
  ep_encapsulated_key :: multi_recipient_key
  ep_key_commitment :: key_commitment_and_tag

definition persistent_config_serialize ::
  "(bytes \<Rightarrow> ('w, io_error, nat) op) \<Rightarrow> encryption_persistent_config \<Rightarrow> ('w, error, nat) op" where
  "persistent_config_serialize wr c =
     bindE (multi_recipient_key_serialize wr (ep_encapsulated_key c)) (\<lambda>n.
     bindE (lift_res (ok_or SerializationError (checked_add 0 n))) (\<lambda>len.
     bindE (key_commitment_serialize wr (ep_key_commitment c)) (\<lambda>m.
       lift_res (ok_or SerializationError (checked_add len m)))))"

definition persistent_config_deserialize ::
  "'g kem_prims \<Rightarrow> (nat \<Rightarrow> ('r, io_error, bytes) op) \<Rightarrow> ('r, error, encryption_persistent_config) op" where
  "persistent_config_deserialize P rd =
     bindE (multi_recipient_key_deserialize P rd) (\<lambda>k.
     bindE (key_commitment_deserialize rd) (\<lambda>kc.
       ret \<lparr>ep_encapsulated_key = k, ep_key_commitment = kc\<rparr>))"

text \<open>The configuration of a writer is its public keys; the state is the random generator.\<close>

definition encryption_config_new :: "encryption_public_key list \<Rightarrow> config_error + encryption_public_key list" where
  "encryption_config_new keys = (if keys = [] then Inl EncryptionKeyIsMissing else Inr keys)"

definition to_persistent ::
  "'g kem_prims \<Rightarrow> gcm_prims \<Rightarrow> encryption_public_key list \<Rightarrow>
   ('g, error, encryption_persistent_config \<times> (bytes \<times> bytes)) op" where
  "to_persistent P G public_keys =
     bindE (map_errE error_from_config_error (encapsulate P G public_keys)) (\<lambda>(encapsulated_key, ss_hybrid).
     bindE (lift_res (or_err (ConfigError KeyWrappingComputationError)
       (internal_encryption_config_from P ss_hybrid))) (\<lambda>(key, nonce).
     bindE (lift_res (or_err (ConfigError KeyCommitmentComputationError)
       (build_key_commitment_chain G key nonce))) (\<lambda>key_commitment.
       ret (\<lparr>ep_encapsulated_key = encapsulated_key, ep_key_commitment = key_commitment\<rparr>, (key, nonce)))))"

record encryption_reader_config =
  rc_private_keys :: "decryption_private_key list"
  rc_encrypt_parameters :: "(bytes \<times> bytes) option"
  rc_shared_secrets :: "bytes list"

definition set_private_keys :: "decryption_private_key list \<Rightarrow> encryption_reader_config \<Rightarrow> encryption_reader_config" where
  "set_private_keys ks c = c\<lparr>rc_private_keys := ks\<rparr>"

definition set_shared_secrets :: "bytes list \<Rightarrow> encryption_reader_config \<Rightarrow> encryption_reader_config" where
  "set_shared_secrets ss c = c\<lparr>rc_shared_secrets := ss\<rparr>"

fun try_shared_secrets ::
  "'g kem_prims \<Rightarrow> gcm_prims \<Rightarrow> key_commitment_and_tag \<Rightarrow> bytes list \<Rightarrow> config_error + (bytes \<times> bytes) option" where
  "try_shared_secrets P G kc [] = Inr None"
| "try_shared_secrets P G kc (ss # sss) =
     (case or_config KeyWrappingComputationError (key_schedule_base_hybrid_kem P ss HPKE_INFO_LAYER) of
        Inl e \<Rightarrow> Inl e
      | Inr (key, nonce) \<Rightarrow>
          (case check_key_commitment G key nonce kc of
             Inr _ \<Rightarrow> Inr (Some (key, nonce))
           | Inl e \<Rightarrow> if e = ConfigPanic then Inl e else try_shared_secrets P G kc sss))"

fun try_private_keys ::
  "'g kem_prims \<Rightarrow> gcm_prims \<Rightarrow> multi_recipient_key \<Rightarrow> decryption_private_key list \<Rightarrow>
   config_error + (bytes \<times> bytes) option" where
  "try_private_keys P G ek [] = Inr None"
| "try_private_keys P G ek (k # ks) =
     (case decapsulate P G k ek of
        Inl e \<Rightarrow> if e = ConfigPanic then Inl e else try_private_keys P G ek ks
      | Inr ss \<Rightarrow>
          (case or_config KeyWrappingComputationError (key_schedule_base_hybrid_kem P ss HPKE_INFO_LAYER) of
             Inl e \<Rightarrow> Inl e
           | Inr (key, nonce) \<Rightarrow> Inr (Some (key, nonce))))"

definition load_persistent ::
  "'g kem_prims \<Rightarrow> gcm_prims \<Rightarrow> encryption_persistent_config \<Rightarrow> (encryption_reader_config, config_error, unit) op" where
  "load_persistent P G config s =
     (if rc_private_keys s = [] \<and> rc_shared_secrets s = [] then (Inl PrivateKeyNotSet, s)
      else case try_shared_secrets P G (ep_key_commitment config) (rc_shared_secrets s) of
          Inl e \<Rightarrow> (Inl e, s)
        | Inr found \<Rightarrow>
            let s1 = (case found of None \<Rightarrow> s | Some kn \<Rightarrow> s\<lparr>rc_encrypt_parameters := Some kn\<rparr>)
            in case (if rc_encrypt_parameters s1 = None
                     then try_private_keys P G (ep_encapsulated_key config) (rc_private_keys s1) else Inr None) of
                Inl e \<Rightarrow> (Inl e, s1)
              | Inr found2 \<Rightarrow>
                  let s2 = (case found2 of None \<Rightarrow> s1 | Some kn \<Rightarrow> s1\<lparr>rc_encrypt_parameters := Some kn\<rparr>)
                  in case rc_encrypt_parameters s2 of
                      None \<Rightarrow> (Inl PrivateKeyNotFound, s2)
                    | Some (key, nonce) \<Rightarrow> (check_key_commitment G key nonce (ep_key_commitment config), s2))"

section \<open>Both sides agree\<close>

definition public_key_of :: "'g kem_prims \<Rightarrow> decryption_private_key \<Rightarrow> encryption_public_key" where
  "public_key_of P sk = \<lparr>ek_ecc = kp_x25519_public P (dk_ecc sk), ek_ml = mlkem_seed_to_pubkey P (dk_seed_ml sk)\<rparr>"

lemma generate_keypair_public:
  "generate_keypair_from_rng P g = ((sk, pk), g') \<Longrightarrow> pk = public_key_of P sk"
  by (auto simp: generate_keypair_from_rng_def public_key_of_def split: prod.splits)

text \<open>What a serialized recipient has to be.\<close>

definition recipient_wf :: "'g kem_prims \<Rightarrow> recipient_key \<Rightarrow> bool" where
  "recipient_wf P r \<longleftrightarrow> length (rk_ct_ml r) = 1568 \<and> length (rk_ct_ecc r) = 32 \<and>
     kp_dh_encapped_from_bytes P (rk_ct_ecc r) = Some (rk_ct_ecc r) \<and> length (rk_wrapped_ss r) = 32 \<and>
     length (rk_tag r) = 16"

lemma kem_ok_dh:
  assumes "kem_ok P" and "kp_dh_public_from_bytes P (kp_x25519_public P sk) = Some w"
    and "kp_dh_encap P w g = (Some (ss, ct), g')"
  shows "\<exists>v. kp_dh_private_from_bytes P sk = Some v \<and> kp_dh_decap P v ct = Some ss"
  using assms(1) [unfolded kem_ok_def, THEN conjunct1, THEN spec [of _ sk], THEN spec [of _ w], THEN spec [of _ g],
      THEN spec [of _ ss], THEN spec [of _ ct], THEN spec [of _ g']] assms(2,3) by simp

lemma kem_ok_ml:
  assumes "kem_ok P" and "kp_ml_encap P (snd (kp_ml_generate P d z)) g = (Some (ct, ss), g')"
  shows "kp_ml_decap P (fst (kp_ml_generate P d z)) ct = Some ss"
  using assms(1) [unfolded kem_ok_def, THEN conjunct2, THEN conjunct2, THEN conjunct1, THEN spec [of _ d],
      THEN spec [of _ z], THEN spec [of _ g], THEN spec [of _ ct], THEN spec [of _ ss], THEN spec [of _ g']] assms(2)
  by simp

lemma kem_ok_sizes:
  assumes "kem_ok P"
  shows "kp_dh_encap P w g = (Some (ss, ct), g') \<Longrightarrow> length ct = 32 \<and> kp_dh_encapped_from_bytes P ct = Some ct"
    and "kp_ml_encap P ek g = (Some (ct, ss), g') \<Longrightarrow> length ct = 1568"
    and "length (fst (kp_gen P n g)) = n"
  using assms [unfolded kem_ok_def, THEN conjunct2, THEN conjunct1, rule_format, of w g ss ct g']
    assms [unfolded kem_ok_def, THEN conjunct2, THEN conjunct2, THEN conjunct2, THEN conjunct1, rule_format, of ek g ct ss g']
    assms [unfolded kem_ok_def, THEN conjunct2, THEN conjunct2, THEN conjunct2, THEN conjunct2, rule_format, of n g]
  by simp_all

lemma length_gcm_tag: "gcm_prims_ok G \<Longrightarrow> length (gcm_tag G key nonce aad ct) = 16"
  by (simp add: gcm_tag_def gcm_prims_ok_def)

lemma or_err_InrD: "or_err e x = Inr a \<Longrightarrow> x = Inr a"
  by (cases x) (simp_all add: or_err_def)

lemma or_config_InrD: "or_config e x = Inr a \<Longrightarrow> x = Inr a"
  by (cases x) (simp_all add: or_config_def)

lemma or_config_Inr [simp]: "or_config e (Inr a) = Inr a"
  by (simp add: or_config_def)

lemma wrap_shared_secret_ok:
  assumes G: "gcm_prims_ok G" and l: "length ss = 32"
  shows "wrap_shared_secret G k n ss = Inr (gcm_ct G k n ss, gcm_tag G k n [] (gcm_ct G k n ss))"
proof -
  have lim: "length ([] :: bytes) < AES256_GCM_MAX_PLAINTEXT_LENGTH"
    "length ([] :: bytes) + length ss + length ([] :: bytes) < AES256_GCM_MAX_PLAINTEXT_LENGTH"
    "length ([] @ ss) < AES256_GCM_MAX_PLAINTEXT_LENGTH"
    using l by (simp_all add: AES256_GCM_MAX_PLAINTEXT_LENGTH_def)
  from lim(1) obtain c where c: "aes_gcm_new G k n [] = Inr c" "gcm_state G k n [] [] c" by (rule aes_gcm_new_ok)
  from aes_gcm_encrypt_ok [OF c(2) lim(2)] obtain c' where
    e: "aes_gcm_encrypt G ss c = Inr (gcm_ct G k n ss, c')" "gcm_state G k n [] ([] @ ss) c'"
    by (auto simp: gcm_ct_def)
  from aes_gcm_into_tag_ok [OF G e(2) lim(3)] c(1) e(1) show ?thesis
    by (simp add: wrap_shared_secret_def HYBRIDKEM_ASSOCIATED_DATA_def)
qed

lemma unwrap_shared_secret_ok:
  assumes G: "gcm_prims_ok G" and l: "length ss = 32"
  obtains c where "aes_gcm_new G k n [] = Inr c"
    "aes_gcm_decrypt G (gcm_ct G k n ss) c = Inr (ss, gcm_tag G k n [] (gcm_ct G k n ss))"
proof -
  have "length ([] :: bytes) < AES256_GCM_MAX_PLAINTEXT_LENGTH" by (simp add: AES256_GCM_MAX_PLAINTEXT_LENGTH_def)
  then obtain c where c: "aes_gcm_new G k n [] = Inr c" "gcm_state G k n [] [] c" by (rule aes_gcm_new_ok)
  have "length (gcm_ct G k n ss) + length ([] :: bytes) < AES256_GCM_MAX_PLAINTEXT_LENGTH"
    using l by (simp add: AES256_GCM_MAX_PLAINTEXT_LENGTH_def)
  from aes_gcm_decrypt_ok [OF G c(2) this] c(1) show thesis by (intro that) (simp_all add: gcm_ct_twice)
qed

lemma encapsulate_recipient_steps:
  assumes "encapsulate_recipient P G ss pk g = (Inr r, g')"
  obtains w ss_ecc ct_ecc g1 ct_ml ss_ml k n where "kp_dh_public_from_bytes P (ek_ecc pk) = Some w"
    "kp_dh_encap P w g = (Some (ss_ecc, ct_ecc), g1)" "kp_ml_encap P (ek_ml pk) g1 = (Some (ct_ml, ss_ml), g')"
    "key_schedule_base_hybrid_kem_recipient P (combine P ss_ecc ss_ml ct_ecc ct_ml) HPKE_INFO_RECIPIENT = Inr (k, n)"
    "wrap_shared_secret G k n ss = Inr (rk_wrapped_ss r, rk_tag r)" "rk_ct_ml r = ct_ml" "rk_ct_ecc r = ct_ecc"
proof -
  from assms obtain ss_ecc ct_ecc g1 where
    1: "dhkem_encap_from_rng P (ek_ecc pk) g = (Inr (ss_ecc, ct_ecc), g1)" and
    r1: "bindE (\<lambda>g. case kp_ml_encap P (ek_ml pk) g of (x, g') \<Rightarrow> (ok_or MLKEMComputationError x, g')) (\<lambda>(ct_ml, ss_ml).
       let ss_recipient = combine P ss_ecc ss_ml ct_ecc ct_ml
       in bindE (lift_res (or_config KeyWrappingComputationError
              (key_schedule_base_hybrid_kem_recipient P ss_recipient HPKE_INFO_RECIPIENT))) (\<lambda>(wrap_key, wrap_nonce).
          bindE (lift_res (wrap_shared_secret G wrap_key wrap_nonce ss)) (\<lambda>(wrapped_ss, tag).
            ret \<lparr>rk_ct_ml = ct_ml, rk_ct_ecc = ct_ecc, rk_wrapped_ss = wrapped_ss, rk_tag = tag\<rparr>))) g1 = (Inr r, g')"
    unfolding encapsulate_recipient_def by (elim bindE_InrE) (auto dest: map_errE_InrD)
  from 1 obtain w where w: "kp_dh_public_from_bytes P (ek_ecc pk) = Some w"
    "kp_dh_encap P w g = (Some (ss_ecc, ct_ecc), g1)"
    by (auto simp: dhkem_encap_from_rng_def split: option.splits prod.splits dest!: ok_or_InrD)
  from r1 obtain ct_ml ss_ml g2 where m: "kp_ml_encap P (ek_ml pk) g1 = (Some (ct_ml, ss_ml), g2)" and
    r2: "bindE (lift_res (or_config KeyWrappingComputationError
              (key_schedule_base_hybrid_kem_recipient P (combine P ss_ecc ss_ml ct_ecc ct_ml) HPKE_INFO_RECIPIENT)))
          (\<lambda>(wrap_key, wrap_nonce). bindE (lift_res (wrap_shared_secret G wrap_key wrap_nonce ss)) (\<lambda>(wrapped_ss, tag).
            ret \<lparr>rk_ct_ml = ct_ml, rk_ct_ecc = ct_ecc, rk_wrapped_ss = wrapped_ss, rk_tag = tag\<rparr>)) g2 = (Inr r, g')"
    by (elim bindE_InrE) (auto simp: Let_def split: prod.splits dest!: ok_or_InrD)
  from r2 obtain k n where k: "key_schedule_base_hybrid_kem_recipient P (combine P ss_ecc ss_ml ct_ecc ct_ml) HPKE_INFO_RECIPIENT = Inr (k, n)"
    and r3: "bindE (lift_res (wrap_shared_secret G k n ss)) (\<lambda>(wrapped_ss, tag).
            ret \<lparr>rk_ct_ml = ct_ml, rk_ct_ecc = ct_ecc, rk_wrapped_ss = wrapped_ss, rk_tag = tag\<rparr>) g2 = (Inr r, g')"
    by (elim bindE_InrE) (auto simp: lift_res_def dest!: or_config_InrD)
  from r3 have "wrap_shared_secret G k n ss = Inr (rk_wrapped_ss r, rk_tag r)" "rk_ct_ml r = ct_ml" "rk_ct_ecc r = ct_ecc"
    "g2 = g'"
    by (elim bindE_InrE; auto simp: lift_res_def ret_def)+
  with w m k show thesis by (intro that) simp_all
qed

lemma encapsulate_recipient_wf:
  assumes "kem_ok P" and G: "gcm_prims_ok G" and l: "length ss = 32"
    and "encapsulate_recipient P G ss pk g = (Inr r, g')"
  shows "recipient_wf P r"
proof -
  from encapsulate_recipient_steps [OF assms(4)] obtain w ss_ecc ct_ecc g1 ct_ml ss_ml k n where
    h: "kp_dh_encap P w g = (Some (ss_ecc, ct_ecc), g1)" "kp_ml_encap P (ek_ml pk) g1 = (Some (ct_ml, ss_ml), g')"
    "wrap_shared_secret G k n ss = Inr (rk_wrapped_ss r, rk_tag r)" "rk_ct_ml r = ct_ml" "rk_ct_ecc r = ct_ecc" .
  have "length (rk_wrapped_ss r) = 32" "length (rk_tag r) = 16"
    using h(3) [unfolded wrap_shared_secret_ok [OF G l], symmetric] l length_gcm_tag [OF G] by auto
  moreover have "length ct_ecc = 32 \<and> kp_dh_encapped_from_bytes P ct_ecc = Some ct_ecc" "length ct_ml = 1568"
    using kem_ok_sizes(1,2) [OF assms(1)] h(1,2) by blast+
  ultimately show ?thesis using h(4,5) by (simp add: recipient_wf_def)
qed

lemma encapsulate_recipient_ok:
  assumes P: "kem_ok P" and G: "gcm_prims_ok G" and l: "length ss = 32"
    and e: "encapsulate_recipient P G ss (public_key_of P sk) g = (Inr r, g')"
  shows "try_recipient P G sk r = Inr (Some ss)"
proof -
  from encapsulate_recipient_steps [OF e] obtain w ss_ecc ct_ecc g1 ct_ml ss_ml k n where
    h: "kp_dh_public_from_bytes P (kp_x25519_public P (dk_ecc sk)) = Some w"
    "kp_dh_encap P w g = (Some (ss_ecc, ct_ecc), g1)"
    "kp_ml_encap P (mlkem_seed_to_pubkey P (dk_seed_ml sk)) g1 = (Some (ct_ml, ss_ml), g')"
    "key_schedule_base_hybrid_kem_recipient P (combine P ss_ecc ss_ml ct_ecc ct_ml) HPKE_INFO_RECIPIENT = Inr (k, n)"
    "wrap_shared_secret G k n ss = Inr (rk_wrapped_ss r, rk_tag r)" "rk_ct_ml r = ct_ml" "rk_ct_ecc r = ct_ecc"
    unfolding public_key_of_def encryption_public_key.select_convs .
  obtain v where v: "kp_dh_private_from_bytes P (dk_ecc sk) = Some v" "kp_dh_decap P v ct_ecc = Some ss_ecc"
    using kem_ok_dh [OF P h(1,2)] by blast
  have m: "kp_ml_decap P (mlkem_seed_to_privkey P (dk_seed_ml sk)) ct_ml = Some ss_ml"
    using kem_ok_ml [OF P] h(3) unfolding mlkem_seed_to_pubkey_def mlkem_seed_to_privkey_def .
  obtain c where c: "aes_gcm_new G k n [] = Inr c"
    "aes_gcm_decrypt G (gcm_ct G k n ss) c = Inr (ss, gcm_tag G k n [] (gcm_ct G k n ss))"
    by (rule unwrap_shared_secret_ok [OF G l])
  have "rk_wrapped_ss r = gcm_ct G k n ss" "rk_tag r = gcm_tag G k n [] (gcm_ct G k n ss)"
    using h(5) [unfolded wrap_shared_secret_ok [OF G l], symmetric] by simp_all
  with h(4,6,7) v m c show ?thesis
    by (simp add: try_recipient_def dhkem_decap_def Let_def HYBRIDKEM_ASSOCIATED_DATA_def)
qed

lemma encapsulate_recipients_append:
  assumes "encapsulate_recipients P G ss (ks @ k # ks') g = (Inr rs, g')"
  obtains rs1 r rs2 g1 g2 where "rs = rs1 @ r # rs2" "length rs1 = length ks"
    "encapsulate_recipient P G ss k g1 = (Inr r, g2)"
  using assms
proof (induction ks arbitrary: g rs thesis)
  case Nil
  from Nil.prems(2) obtain r g1 rs2 where "encapsulate_recipient P G ss k g = (Inr r, g1)" "rs = [] @ r # rs2"
    by (auto simp: ret_def elim!: bindE_InrE)
  then show ?case by (intro Nil.prems(1)) auto
next
  case (Cons k0 ks)
  from Cons.prems(2) obtain r0 g1 rs0 where "encapsulate_recipients P G ss (ks @ k # ks') g1 = (Inr rs0, g')"
    "rs = r0 # rs0"
    by (auto simp: ret_def elim!: bindE_InrE)
  moreover from this(1) obtain rs1 r rs2 g2 g3 where "rs0 = rs1 @ r # rs2" "length rs1 = length ks"
    "encapsulate_recipient P G ss k g2 = (Inr r, g3)" using Cons.IH by blast
  ultimately show ?case by (intro Cons.prems(1) [of "r0 # rs1" r rs2 g2 g3]) simp_all
qed

lemma encapsulate_recipients_wf:
  "kem_ok P \<Longrightarrow> gcm_prims_ok G \<Longrightarrow> length ss = 32 \<Longrightarrow> encapsulate_recipients P G ss ks g = (Inr rs, g') \<Longrightarrow>
   (\<forall>r\<in>set rs. recipient_wf P r) \<and> length rs = length ks"
proof (induction ks arbitrary: g rs)
  case Nil
  then show ?case by (simp add: ret_def)
next
  case (Cons k ks)
  from Cons.prems(4) obtain r g1 rs0 where h: "encapsulate_recipient P G ss k g = (Inr r, g1)"
    "encapsulate_recipients P G ss ks g1 = (Inr rs0, g')" "rs = r # rs0"
    by (auto simp: ret_def elim!: bindE_InrE)
  with Cons.IH [OF Cons.prems(1-3) h(2)] encapsulate_recipient_wf [OF Cons.prems(1-3) h(1)] show ?case by simp
qed

lemma decapsulate_recipients_skip:
  "\<forall>r\<in>set rs1. try_recipient P G k r = Inr None \<Longrightarrow>
   decapsulate_recipients P G k (rs1 @ rs2) = decapsulate_recipients P G k rs2"
  by (induction rs1) simp_all

lemma encapsulate_steps:
  assumes "kem_ok P" and "encapsulate P G keys g = (Inr (ek, ss), g')"
  obtains g1 where "encapsulate_recipients P G ss keys g1 = (Inr (mk_recipients ek), g')" "length ss = 32"
proof -
  from assms(2) obtain g1 rs where "encapsulate_recipients P G ss keys g1 = (Inr rs, g')" "ek = \<lparr>mk_recipients = rs\<rparr>"
    "kp_gen P 32 g = (ss, g1)"
    by (auto simp: encapsulate_def ret_def elim!: bindE_InrE split: prod.splits)
  moreover from this(3) have "length ss = 32" using kem_ok_sizes(3) [OF assms(1), of 32 g] by simp
  ultimately show thesis by (intro that) simp_all
qed

lemma decapsulate_encapsulate:
  assumes "kem_ok P" and "gcm_prims_ok G"
    and "encapsulate P G (pks1 @ public_key_of P sk # pks2) g = (Inr (ek, ss), g')"
    and "\<forall>r\<in>set (take (length pks1) (mk_recipients ek)). try_recipient P G sk r = Inr None"
  shows "decapsulate P G sk ek = Inr ss"
proof -
  obtain g1 where e: "encapsulate_recipients P G ss (pks1 @ public_key_of P sk # pks2) g1 = (Inr (mk_recipients ek), g')"
    "length ss = 32" by (rule encapsulate_steps [OF assms(1,3)])
  from encapsulate_recipients_append [OF e(1)] obtain rs1 r rs2 g2 g3 where
    r: "mk_recipients ek = rs1 @ r # rs2" "length rs1 = length pks1"
    "encapsulate_recipient P G ss (public_key_of P sk) g2 = (Inr r, g3)" .
  have "\<forall>r\<in>set rs1. try_recipient P G sk r = Inr None" using assms(4) r(1,2) by simp
  from decapsulate_recipients_skip [OF this] encapsulate_recipient_ok [OF assms(1,2) e(2) r(3)] r(1)
  show ?thesis by (simp add: decapsulate_def)
qed

section \<open>The stored configuration\<close>

definition enc_recipient :: "recipient_key \<Rightarrow> bytes" where
  "enc_recipient r = rk_ct_ml r @ rk_ct_ecc r @ rk_wrapped_ss r @ rk_tag r"

definition enc_commitment :: "key_commitment_and_tag \<Rightarrow> bytes" where
  "enc_commitment kc = kc_key_commitment kc @ kc_tag kc"

definition enc_persistent :: "encryption_persistent_config \<Rightarrow> bytes" where
  "enc_persistent c = enc_vec enc_recipient (mk_recipients (ep_encapsulated_key c)) @ enc_commitment (ep_key_commitment c)"

definition persistent_wf :: "'g kem_prims \<Rightarrow> encryption_persistent_config \<Rightarrow> bool" where
  "persistent_wf P c \<longleftrightarrow> (\<forall>r\<in>set (mk_recipients (ep_encapsulated_key c)). recipient_wf P r) \<and>
     length (mk_recipients (ep_encapsulated_key c)) < 2 ^ 64 \<and>
     length (kc_key_commitment (ep_key_commitment c)) = 64 \<and> length (kc_tag (ep_key_commitment c)) = 16"

context sink
begin

lemma prints_recipient: "prints (recipient_key_serialize wr r) (enc_recipient r) (length (enc_recipient r))"
proof -
  have "prints (recipient_key_serialize wr r) (rk_ct_ml r @ rk_ct_ecc r @ rk_wrapped_ss r @ rk_tag r)
      (0 + length (rk_ct_ml r) + length (rk_ct_ecc r) + length (rk_wrapped_ss r) + length (rk_tag r))"
    unfolding recipient_key_serialize_def
    by (rule prints_bindE [OF prints_bytes], rule prints_skip [OF prints_checked_add],
        rule prints_bindE [OF prints_bytes], rule prints_skip [OF prints_checked_add],
        rule prints_bindE [OF prints_bytes], rule prints_skip [OF prints_checked_add],
        rule prints_last [OF prints_bytes], rule prints_checked_add)
  then show ?thesis by (simp add: enc_recipient_def add.assoc)
qed

lemma prints_commitment: "prints (key_commitment_serialize wr kc) (enc_commitment kc) (length (enc_commitment kc))"
proof -
  have "prints (key_commitment_serialize wr kc) (kc_key_commitment kc @ kc_tag kc)
      (0 + length (kc_key_commitment kc) + length (kc_tag kc))"
    unfolding key_commitment_serialize_def
    by (rule prints_bindE [OF prints_bytes], rule prints_skip [OF prints_checked_add],
        rule prints_last [OF prints_bytes], rule prints_checked_add)
  then show ?thesis by (simp add: enc_commitment_def)
qed

lemma prints_persistent: "prints (persistent_config_serialize wr c) (enc_persistent c) (length (enc_persistent c))"
proof -
  have "prints (persistent_config_serialize wr c) (enc_persistent c)
      (0 + length (enc_vec enc_recipient (mk_recipients (ep_encapsulated_key c))) + length (enc_commitment (ep_key_commitment c)))"
    unfolding persistent_config_serialize_def enc_persistent_def multi_recipient_key_serialize_def
    by (rule prints_bindE, rule prints_vec, rule prints_recipient, rule prints_skip [OF prints_checked_add],
        rule prints_last [OF prints_commitment], rule prints_checked_add)
  then show ?thesis by (simp add: enc_persistent_def)
qed

end

context source
begin

lemma parses_recipient:
  assumes "recipient_wf P r"
  shows "parses (recipient_key_deserialize P rd) (enc_recipient r) r"
proof -
  have l: "length (rk_ct_ml r) = 1568" "length (rk_ct_ecc r) = 32" "length (rk_wrapped_ss r) = 32" "length (rk_tag r) = 16"
    "or_err DeserializationError (dhkem_ciphertext_from_bytes P (rk_ct_ecc r)) = Inr (rk_ct_ecc r)"
    using assms by (simp_all add: recipient_wf_def dhkem_ciphertext_from_bytes_def or_err_def)
  have "parses (recipient_key_deserialize P rd) (enc_recipient r)
      \<lparr>rk_ct_ml = rk_ct_ml r, rk_ct_ecc = rk_ct_ecc r, rk_wrapped_ss = rk_wrapped_ss r, rk_tag = rk_tag r\<rparr>"
    unfolding recipient_key_deserialize_def enc_recipient_def
    by (rule parses_bindE, rule parses_array, simp add: l, rule parses_bindE, rule parses_array, simp add: l,
        rule parses_skip, rule parses_lift_res [OF l(5)], rule parses_bindE, rule parses_array, simp add: l,
        rule parses_bindE_ret, rule parses_array, simp add: l)
  then show ?thesis by (cases r) simp
qed

lemma parses_commitment:
  assumes "length (kc_key_commitment kc) = 64" and "length (kc_tag kc) = 16"
  shows "parses (key_commitment_deserialize rd) (enc_commitment kc) kc"
proof -
  have "parses (key_commitment_deserialize rd) (enc_commitment kc)
      \<lparr>kc_key_commitment = kc_key_commitment kc, kc_tag = kc_tag kc\<rparr>"
    unfolding key_commitment_deserialize_def enc_commitment_def
    by (rule parses_bindE, rule parses_array, simp add: assms KEY_COMMITMENT_SIZE_def KEY_SIZE_def,
        rule parses_bindE_ret, rule parses_array, simp add: assms)
  then show ?thesis by (cases kc) simp
qed

lemma parses_persistent:
  assumes "persistent_wf P c"
  shows "parses (persistent_config_deserialize P rd) (enc_persistent c) c"
proof -
  let ?rs = "mk_recipients (ep_encapsulated_key c)"
  have "parses (vec_deserialize rd (recipient_key_deserialize P rd)) (enc_vec enc_recipient ?rs) ?rs"
    by (rule parses_vec) (use assms parses_recipient in \<open>auto simp: persistent_wf_def\<close>)
  then have m: "parses (multi_recipient_key_deserialize P rd) (enc_vec enc_recipient ?rs) \<lparr>mk_recipients = ?rs\<rparr>"
    unfolding multi_recipient_key_deserialize_def by (rule parses_bindE_ret)
  have k: "parses (key_commitment_deserialize rd) (enc_commitment (ep_key_commitment c)) (ep_key_commitment c)"
    by (rule parses_commitment) (use assms in \<open>auto simp: persistent_wf_def\<close>)
  have "parses (persistent_config_deserialize P rd) (enc_persistent c)
      \<lparr>ep_encapsulated_key = \<lparr>mk_recipients = ?rs\<rparr>, ep_key_commitment = ep_key_commitment c\<rparr>"
    unfolding persistent_config_deserialize_def enc_persistent_def
    by (rule parses_bindE [OF m]) (rule parses_bindE_ret [OF k])
  then show ?thesis by (cases c, cases "ep_encapsulated_key c") simp
qed

end

lemma build_key_commitment_ok:
  assumes G: "gcm_prims_ok G"
  obtains kc where "build_key_commitment_chain G key nonce = Inr kc" "length (kc_key_commitment kc) = 64"
    "length (kc_tag kc) = 16" "check_key_commitment G key nonce kc = Inr ()"
proof -
  have l: "length ([] :: bytes) < AES256_GCM_MAX_PLAINTEXT_LENGTH"
    "length ([] :: bytes) + length KEY_COMMITMENT_CHAIN + length ([] :: bytes) < AES256_GCM_MAX_PLAINTEXT_LENGTH"
    "length ([] @ KEY_COMMITMENT_CHAIN) < AES256_GCM_MAX_PLAINTEXT_LENGTH"
    by (simp_all add: AES256_GCM_MAX_PLAINTEXT_LENGTH_def)
  let ?n = "compute_nonce nonce 0" and ?ct = "gcm_ct G key (compute_nonce nonce 0) KEY_COMMITMENT_CHAIN"
  from l(1) obtain c where c: "aes_gcm_new G key ?n [] = Inr c" "gcm_state G key ?n [] [] c" by (rule aes_gcm_new_ok)
  from aes_gcm_encrypt_ok [OF c(2) l(2)] obtain c' where
    e: "aes_gcm_encrypt G KEY_COMMITMENT_CHAIN c = Inr (?ct, c')" "gcm_state G key ?n [] ([] @ KEY_COMMITMENT_CHAIN) c'"
    by (auto simp: gcm_ct_def)
  from aes_gcm_into_tag_ok [OF G e(2) l(3)] have t: "aes_gcm_into_tag G c' = Inr (gcm_tag G key ?n [] ?ct)" by simp
  have b: "build_key_commitment_chain G key nonce = Inr \<lparr>kc_key_commitment = ?ct, kc_tag = gcm_tag G key ?n [] ?ct\<rparr>"
    using c(1) e(1) t by (simp add: build_key_commitment_chain_def ASSOCIATED_DATA_def)
  have "length ?ct + length ([] :: bytes) < AES256_GCM_MAX_PLAINTEXT_LENGTH" by (simp add: AES256_GCM_MAX_PLAINTEXT_LENGTH_def)
  from aes_gcm_decrypt_ok [OF G c(2) this] c(1)
  have k: "check_key_commitment G key nonce \<lparr>kc_key_commitment = ?ct, kc_tag = gcm_tag G key ?n [] ?ct\<rparr> = Inr ()"
    by (simp add: check_key_commitment_def ASSOCIATED_DATA_def)
  show thesis by (rule that [OF b _ _ k]) (simp_all add: length_gcm_tag [OF G])
qed

lemma to_persistent_steps:
  assumes P: "kem_ok P" and G: "gcm_prims_ok G" and t: "to_persistent P G keys g = (Inr (pc, (key, nonce)), g')"
  obtains ss where "encapsulate P G keys g = (Inr (ep_encapsulated_key pc, ss), g')"
    "key_schedule_base_hybrid_kem P ss HPKE_INFO_LAYER = Inr (key, nonce)"
    "check_key_commitment G key nonce (ep_key_commitment pc) = Inr ()"
    "length keys < 2 ^ 64 \<Longrightarrow> persistent_wf P pc"
proof -
  from t obtain ek ss g1 where e: "encapsulate P G keys g = (Inr (ek, ss), g1)" and
    r: "bindE (lift_res (or_err (ConfigError KeyWrappingComputationError) (internal_encryption_config_from P ss)))
      (\<lambda>(key, nonce). bindE (lift_res (or_err (ConfigError KeyCommitmentComputationError)
       (build_key_commitment_chain G key nonce))) (\<lambda>key_commitment.
       ret (\<lparr>ep_encapsulated_key = ek, ep_key_commitment = key_commitment\<rparr>, (key, nonce)))) g1 = (Inr (pc, (key, nonce)), g')"
    unfolding to_persistent_def by (elim bindE_InrE) (auto dest!: map_errE_InrD)
  from r obtain k n where k: "key_schedule_base_hybrid_kem P ss HPKE_INFO_LAYER = Inr (k, n)" and
    r2: "bindE (lift_res (or_err (ConfigError KeyCommitmentComputationError) (build_key_commitment_chain G k n)))
      (\<lambda>key_commitment. ret (\<lparr>ep_encapsulated_key = ek, ep_key_commitment = key_commitment\<rparr>, (k, n))) g1 = (Inr (pc, (key, nonce)), g')"
    by (elim bindE_InrE) (auto simp: lift_res_def internal_encryption_config_from_def dest!: or_err_InrD)
  obtain kc where kc: "build_key_commitment_chain G k n = Inr kc" "length (kc_key_commitment kc) = 64"
    "length (kc_tag kc) = 16" "check_key_commitment G k n kc = Inr ()" by (rule build_key_commitment_ok [OF G])
  from r2 kc(1) have q: "pc = \<lparr>ep_encapsulated_key = ek, ep_key_commitment = kc\<rparr>" "k = key" "n = nonce" "g1 = g'"
    by (auto simp: bindE_def lift_res_def or_err_def ret_def)
  obtain g2 where g2: "encapsulate_recipients P G ss keys g2 = (Inr (mk_recipients ek), g1)" "length ss = 32"
    by (rule encapsulate_steps [OF P e])
  from encapsulate_recipients_wf [OF P G g2(2,1)] kc(2,3) q(1)
  have "length keys < 2 ^ 64 \<Longrightarrow> persistent_wf P pc" by (simp add: persistent_wf_def)
  with e k kc(4) q show thesis by (intro that) simp_all
qed

lemma load_persistent_private:
  assumes P: "kem_ok P" and G: "gcm_prims_ok G"
    and t: "to_persistent P G (pks1 @ public_key_of P sk # pks2) g = (Inr (pc, (key, nonce)), g')"
    and o: "\<forall>r\<in>set (take (length pks1) (mk_recipients (ep_encapsulated_key pc))). try_recipient P G sk r = Inr None"
  shows "load_persistent P G pc \<lparr>rc_private_keys = [sk], rc_encrypt_parameters = None, rc_shared_secrets = []\<rparr> =
    (Inr (), \<lparr>rc_private_keys = [sk], rc_encrypt_parameters = Some (key, nonce), rc_shared_secrets = []\<rparr>)"
proof -
  obtain ss where h: "encapsulate P G (pks1 @ public_key_of P sk # pks2) g = (Inr (ep_encapsulated_key pc, ss), g')"
    "key_schedule_base_hybrid_kem P ss HPKE_INFO_LAYER = Inr (key, nonce)"
    "check_key_commitment G key nonce (ep_key_commitment pc) = Inr ()" by (rule to_persistent_steps [OF P G t])
  from decapsulate_encapsulate [OF P G h(1) o] h(2,3) show ?thesis
    by (simp add: load_persistent_def Let_def)
qed

text \<open>The secret that was encapsulated does as well as a private key.\<close>

lemma load_persistent_shared:
  assumes P: "kem_ok P" and G: "gcm_prims_ok G"
    and t: "to_persistent P G keys g = (Inr (pc, (key, nonce)), g')" and e: "encapsulate P G keys g = (Inr (ek, ss), g1)"
  shows "load_persistent P G pc \<lparr>rc_private_keys = [], rc_encrypt_parameters = None, rc_shared_secrets = [ss]\<rparr> =
    (Inr (), \<lparr>rc_private_keys = [], rc_encrypt_parameters = Some (key, nonce), rc_shared_secrets = [ss]\<rparr>)"
proof -
  obtain ss' where h: "encapsulate P G keys g = (Inr (ep_encapsulated_key pc, ss'), g')"
    "key_schedule_base_hybrid_kem P ss' HPKE_INFO_LAYER = Inr (key, nonce)"
    "check_key_commitment G key nonce (ep_key_commitment pc) = Inr ()" by (rule to_persistent_steps [OF P G t])
  then have "ss' = ss" using e by simp
  with h(2,3) show ?thesis by (simp add: load_persistent_def Let_def)
qed

section \<open>A concrete instance of the primitives\<close>

definition demo_kem :: "unit kem_prims" where
  "demo_kem = \<lparr>kp_kdf_id = 3, kp_aead_id = 2, kp_labeled_extract = \<lambda>salt su l ikm. salt @ ikm,
     kp_labeled_expand = \<lambda>prk su l info n. Some (replicate n (word_of_nat (length prk))),
     kp_hkdf_extract = \<lambda>salt ikm. ikm, kp_hkdf_expand_key = \<lambda>prk infos. replicate 32 1,
     kp_gen = \<lambda>n g. (replicate n 7, g), kp_fill_bytes = \<lambda>n g. (replicate n 8, g),
     kp_x25519_public = \<lambda>sk. sk, kp_dh_public_from_bytes = Some, kp_dh_private_from_bytes = Some,
     kp_dh_encapped_from_bytes = Some, kp_dh_encap = \<lambda>w g. (Some (replicate 32 3, replicate 32 4), g),
     kp_dh_decap = \<lambda>v ct. Some (replicate 32 3), kp_ml_generate = \<lambda>d z. (d, z),
     kp_ml_encap = \<lambda>ek g. (Some (replicate 1568 5, replicate 32 6), g),
     kp_ml_decap = \<lambda>dk ct. Some (replicate 32 6)\<rparr>"

lemma demo_kem_ok: "kem_ok demo_kem"
  by (simp add: kem_ok_def demo_kem_def)

definition demo_sk :: decryption_private_key where
  "demo_sk = \<lparr>dk_ecc = [1], dk_seed_ml = \<lparr>ms_d = [2], ms_z = [3]\<rparr>\<rparr>"

lemma demo_encapsulate_recipient:
  assumes "length ss = 32"
  shows "\<exists>r. encapsulate_recipient demo_kem demo_prims ss pk () = (Inr r, ())"
  using wrap_shared_secret_ok [OF demo_prims_ok assms]
  by (simp add: encapsulate_recipient_def bindE_def map_errE_def dhkem_encap_from_rng_def demo_kem_def lift_res_def
      or_err_def key_schedule_base_hybrid_kem_recipient_def key_schedule_base_def Let_def ret_def)

lemma demo_to_persistent:
  "\<exists>pc key nonce. to_persistent demo_kem demo_prims [public_key_of demo_kem demo_sk] () = (Inr (pc, (key, nonce)), ())"
proof -
  obtain r where r: "encapsulate_recipient demo_kem demo_prims (replicate 32 7) (public_key_of demo_kem demo_sk) () = (Inr r, ())"
    using demo_encapsulate_recipient [of "replicate 32 7"] by auto
  have g: "kp_gen demo_kem 32 () = (replicate 32 7, ())" by (simp add: demo_kem_def)
  have e: "encapsulate demo_kem demo_prims [public_key_of demo_kem demo_sk] () = (Inr (\<lparr>mk_recipients = [r]\<rparr>, replicate 32 7), ())"
    using r g by (simp add: encapsulate_def bindE_def ret_def)
  obtain key nonce where k: "internal_encryption_config_from demo_kem (replicate 32 7) = Inr (key, nonce)"
    by (simp add: internal_encryption_config_from_def key_schedule_base_hybrid_kem_def key_schedule_base_def Let_def
        demo_kem_def)
  obtain kc where "build_key_commitment_chain demo_prims key nonce = Inr kc"
    by (rule build_key_commitment_ok [OF demo_prims_ok])
  with e k show ?thesis by (simp add: to_persistent_def bindE_def map_errE_def lift_res_def or_err_def ret_def)
qed

section \<open>Properties\<close>

text \<open>C26: the reader derives the key of the writer. When a configuration made for some public keys is loaded
  by the owner of one of them (the recipients before it failing their tag), the key and nonce are those the
  writer encrypts with, and the key commitment check passes; so does loading it with the shared secret the
  owner decapsulates.\<close>

theorem config_key_agreement:
  assumes "kem_ok P" and "gcm_prims_ok G"
    and "to_persistent P G (pks1 @ public_key_of P sk # pks2) g = (Inr (pc, (key, nonce)), g')"
    and "\<forall>r\<in>set (take (length pks1) (mk_recipients (ep_encapsulated_key pc))). try_recipient P G sk r = Inr None"
  shows "load_persistent P G pc \<lparr>rc_private_keys = [sk], rc_encrypt_parameters = None, rc_shared_secrets = []\<rparr> =
      (Inr (), \<lparr>rc_private_keys = [sk], rc_encrypt_parameters = Some (key, nonce), rc_shared_secrets = []\<rparr>) \<and>
    (\<exists>ss. decapsulate P G sk (ep_encapsulated_key pc) = Inr ss \<and>
      load_persistent P G pc \<lparr>rc_private_keys = [], rc_encrypt_parameters = None, rc_shared_secrets = [ss]\<rparr> =
        (Inr (), \<lparr>rc_private_keys = [], rc_encrypt_parameters = Some (key, nonce), rc_shared_secrets = [ss]\<rparr>))"
proof
  show "load_persistent P G pc \<lparr>rc_private_keys = [sk], rc_encrypt_parameters = None, rc_shared_secrets = []\<rparr> =
      (Inr (), \<lparr>rc_private_keys = [sk], rc_encrypt_parameters = Some (key, nonce), rc_shared_secrets = []\<rparr>)"
    by (rule load_persistent_private [OF assms])
  obtain ss where h: "encapsulate P G (pks1 @ public_key_of P sk # pks2) g = (Inr (ep_encapsulated_key pc, ss), g')"
    "key_schedule_base_hybrid_kem P ss HPKE_INFO_LAYER = Inr (key, nonce)"
    "check_key_commitment G key nonce (ep_key_commitment pc) = Inr ()"
    by (rule to_persistent_steps [OF assms(1-3)])
  from decapsulate_encapsulate [OF assms(1,2) h(1) assms(4)] h(2,3)
  show "\<exists>ss. decapsulate P G sk (ep_encapsulated_key pc) = Inr ss \<and>
      load_persistent P G pc \<lparr>rc_private_keys = [], rc_encrypt_parameters = None, rc_shared_secrets = [ss]\<rparr> =
        (Inr (), \<lparr>rc_private_keys = [], rc_encrypt_parameters = Some (key, nonce), rc_shared_secrets = [ss]\<rparr>)"
    by (simp add: load_persistent_def Let_def)
qed

theorem config_key_agreement_witness:
  "\<exists>pc key nonce. to_persistent demo_kem demo_prims [public_key_of demo_kem demo_sk] () = (Inr (pc, (key, nonce)), ()) \<and>
    load_persistent demo_kem demo_prims pc \<lparr>rc_private_keys = [demo_sk], rc_encrypt_parameters = None, rc_shared_secrets = []\<rparr> =
      (Inr (), \<lparr>rc_private_keys = [demo_sk], rc_encrypt_parameters = Some (key, nonce), rc_shared_secrets = []\<rparr>)"
proof -
  obtain pc key nonce where
    t: "to_persistent demo_kem demo_prims [public_key_of demo_kem demo_sk] () = (Inr (pc, (key, nonce)), ())"
    using demo_to_persistent by blast
  then have "to_persistent demo_kem demo_prims ([] @ public_key_of demo_kem demo_sk # []) () = (Inr (pc, (key, nonce)), ())"
    by simp
  from config_key_agreement [OF demo_kem_ok demo_prims_ok this] t show ?thesis by simp
qed

end
