(* ===== verification/ViewLayers.thy ===== *)
theory ViewLayers
  imports Wrappers
begin

text \<open>
  The layers that only move the window on what is below: \<^verbatim>\<open>RawLayerReader\<close>, whose position 0 is the
  position where it was pinned (\<^verbatim>\<open>mla/src/layers/raw.rs\<close>), and \<^verbatim>\<open>StripHeadTailReader\<close>, which hides a
  number of bytes at both ends (\<^verbatim>\<open>mla/src/layers/strip_head_tail.rs\<close>). Over a reader that keeps the
  contract of a seekable reader, both keep it again, on the narrower view.
\<close>

section \<open>The contract with the end\<close>

text \<open>Three strengths. \<open>eof_seekable\<close>: reads stop at the end. \<open>end_seekable\<close>: one can go to the end to learn
  the length, and come back. \<open>full_seekable\<close>: the end is a position like any other.\<close>

locale eof_seekable = seekable rd view pos inv sk + eof_source rd view pos inv
  for rd :: "nat \<Rightarrow> ('r, io_error, bytes) op"
    and view :: "'r \<Rightarrow> bytes"
    and pos :: "'r \<Rightarrow> nat"
    and inv :: "'r \<Rightarrow> bool"
    and sk :: "seek_from \<Rightarrow> ('r, io_error, nat) op"

locale end_seekable = seekable rd view pos inv sk
  for rd :: "nat \<Rightarrow> ('r, io_error, bytes) op"
    and view :: "'r \<Rightarrow> bytes"
    and pos :: "'r \<Rightarrow> nat"
    and inv :: "'r \<Rightarrow> bool"
    and sk :: "seek_from \<Rightarrow> ('r, io_error, nat) op" +
  assumes seek_end_back: "inv s \<Longrightarrow>
      \<exists>s'. sk (SeekEnd 0) s = (Inr (length (view s)), s') \<and>
        (\<forall>p < length (view s). \<exists>s''. sk (SeekStart p) s' = (Inr p, s'') \<and> inv s'' \<and> view s'' = view s \<and> pos s'' = p)"

locale full_seekable = seekable rd view pos inv sk + eof_source rd view pos inv
  for rd :: "nat \<Rightarrow> ('r, io_error, bytes) op"
    and view :: "'r \<Rightarrow> bytes"
    and pos :: "'r \<Rightarrow> nat"
    and inv :: "'r \<Rightarrow> bool"
    and sk :: "seek_from \<Rightarrow> ('r, io_error, nat) op" +
  assumes seek_to_end: "inv s \<Longrightarrow>
      \<exists>s'. sk (SeekEnd 0) s = (Inr (length (view s)), s') \<and> inv s' \<and> view s' = view s \<and>
        pos s' = length (view s)"
begin

lemma seek_any_end:
  assumes "inv s" and "d \<le> length (view s)"
  obtains s' where "sk (SeekEnd (- int d)) s = (Inr (length (view s) - d), s')" "inv s'"
    "view s' = view s" "pos s' = length (view s) - d"
proof (cases "d = 0")
  case True
  with seek_to_end [OF assms(1)] show thesis by (auto intro: that)
next
  case False
  with seek_end [OF assms(1), of d] assms(2) show thesis by (auto intro: that)
qed

end

sublocale full_seekable \<subseteq> eof_seekable rd view pos inv sk
  by unfold_locales

sublocale full_seekable \<subseteq> end_seekable rd view pos inv sk
proof
  fix s assume i: "inv s"
  from seek_to_end [OF i] obtain s' where s': "sk (SeekEnd 0) s = (Inr (length (view s)), s')" "inv s'" "view s' = view s"
    by blast
  with seek_start [OF s'(2)] show "\<exists>s'. sk (SeekEnd 0) s = (Inr (length (view s)), s') \<and>
      (\<forall>p < length (view s). \<exists>s''. sk (SeekStart p) s' = (Inr p, s'') \<and> inv s'' \<and> view s'' = view s \<and> pos s'' = p)"
    by (intro exI [of _ s']) simp
qed

interpretation cur: full_seekable cursor_read cur_data cur_pos cursor_inv cursor_seek
  by unfold_locales (auto simp: cursor_seek_def cursor_inv_def checked_add_signed_def)

section \<open>The raw layer\<close>

record 'w raw_writer =
  rw_inner :: 'w

definition raw_writer_new :: "'w \<Rightarrow> 'w raw_writer" where
  "raw_writer_new w = \<lparr>rw_inner = w\<rparr>"

definition raw_finalize :: "'w raw_writer \<Rightarrow> error + 'w" where
  "raw_finalize s = Inr (rw_inner s)"

definition raw_write :: "(bytes \<Rightarrow> ('w, io_error, nat) op) \<Rightarrow> bytes \<Rightarrow> ('w raw_writer, io_error, nat) op" where
  "raw_write wr bs = on_field rw_inner (\<lambda>w s. s\<lparr>rw_inner := w\<rparr>) (wr bs)"

record 'r raw_reader =
  rr_inner :: 'r
  rr_offset_pos :: nat

definition raw_reader_new :: "'r \<Rightarrow> 'r raw_reader" where
  "raw_reader_new r = \<lparr>rr_inner = r, rr_offset_pos = 0\<rparr>"

abbreviation put_rr :: "'r \<Rightarrow> 'r raw_reader \<Rightarrow> 'r raw_reader" where
  "put_rr r s \<equiv> s\<lparr>rr_inner := r\<rparr>"

definition raw_reset_position ::
  "(seek_from \<Rightarrow> ('r, io_error, nat) op) \<Rightarrow> ('r raw_reader, io_error, unit) op" where
  "raw_reset_position sk =
     bindE (on_field rr_inner put_rr (stream_position sk)) (\<lambda>p s. (Inr (), s\<lparr>rr_offset_pos := p\<rparr>))"

text \<open>\<^verbatim>\<open>SeekFrom::Current\<close> and \<^verbatim>\<open>SeekFrom::End\<close> go back to the pinned position when they end before it.\<close>

definition raw_seek_relative ::
  "(seek_from \<Rightarrow> ('r, io_error, nat) op) \<Rightarrow> seek_from \<Rightarrow> ('r raw_reader, io_error, nat) op" where
  "raw_seek_relative sk ask_pos =
     bindE (on_field rr_inner put_rr (sk ask_pos)) (\<lambda>inner_pos s.
       if inner_pos < rr_offset_pos s
       then bindE (on_field rr_inner put_rr (sk (SeekStart (rr_offset_pos s)))) (\<lambda>_. ret 0) s
       else (ok_or InvalidInput (checked_sub inner_pos (rr_offset_pos s)), s))"

definition raw_seek ::
  "(seek_from \<Rightarrow> ('r, io_error, nat) op) \<Rightarrow> seek_from \<Rightarrow> ('r raw_reader, io_error, nat) op" where
  "raw_seek sk ask_pos s =
     (case ask_pos of
        SeekStart p \<Rightarrow>
          bindE (lift_res (ok_or InvalidInput (checked_add (rr_offset_pos s) p))) (\<lambda>q.
          bindE (on_field rr_inner put_rr (sk (SeekStart q))) (\<lambda>_. ret p)) s
      | SeekCurrent i \<Rightarrow> raw_seek_relative sk ask_pos s
      | SeekEnd i \<Rightarrow> raw_seek_relative sk ask_pos s)"

definition raw_read :: "(nat \<Rightarrow> ('r, io_error, bytes) op) \<Rightarrow> nat \<Rightarrow> ('r raw_reader, io_error, bytes) op" where
  "raw_read rd n = on_field rr_inner put_rr (rd n)"

record 'r raw_truncated_reader =
  rt_inner :: 'r

definition raw_truncated_read ::
  "(nat \<Rightarrow> ('r, io_error, bytes) op) \<Rightarrow> nat \<Rightarrow> ('r raw_truncated_reader, io_error, bytes) op" where
  "raw_truncated_read rd n = on_field rt_inner (\<lambda>r s. s\<lparr>rt_inner := r\<rparr>) (rd n)"

section \<open>Stripping both ends\<close>

record 'r strip_reader =
  sr_inner :: 'r
  sr_head_len :: nat
  sr_tail_len :: nat
  sr_inner_len :: nat
  sr_pos :: nat

definition strip_reader_new :: "'r \<Rightarrow> nat \<Rightarrow> nat \<Rightarrow> nat \<Rightarrow> nat \<Rightarrow> error + 'r strip_reader" where
  "strip_reader_new inner head_len tail_len inner_len p =
     (case checked_add head_len tail_len of
        None \<Rightarrow> Inl (WrongReaderState ''Internal error'')
      | Some stripped_len \<Rightarrow>
          if inner_len < stripped_len then Inl (WrongReaderState ''Internal error'')
          else Inr \<lparr>sr_inner = inner, sr_head_len = head_len, sr_tail_len = tail_len,
                    sr_inner_len = inner_len, sr_pos = p\<rparr>)"

definition tail_offset_from_inner_start :: "'r strip_reader \<Rightarrow> io_error + nat" where
  "tail_offset_from_inner_start s = ok_or InvalidInput (checked_sub (sr_inner_len s) (sr_tail_len s))"

definition this_layer_length :: "'r strip_reader \<Rightarrow> io_error + nat" where
  "this_layer_length s =
     ok_or InvalidInput (Option.bind (checked_sub (sr_inner_len s) (sr_head_len s))
       (\<lambda>n. checked_sub n (sr_tail_len s)))"

abbreviation put_sr :: "'r \<Rightarrow> 'r strip_reader \<Rightarrow> 'r strip_reader" where
  "put_sr r s \<equiv> s\<lparr>sr_inner := r\<rparr>"

definition strip_move ::
  "(seek_from \<Rightarrow> ('r, io_error, nat) op) \<Rightarrow> seek_from \<Rightarrow> nat \<Rightarrow> ('r strip_reader, io_error, nat) op" where
  "strip_move sk inner_seek p =
     bindE (on_field sr_inner put_sr (sk inner_seek)) (\<lambda>_ s. (Inr p, s\<lparr>sr_pos := p\<rparr>))"

definition strip_seek ::
  "(seek_from \<Rightarrow> ('r, io_error, nat) op) \<Rightarrow> seek_from \<Rightarrow> ('r strip_reader, io_error, nat) op" where
  "strip_seek sk asked_seek s =
     (case asked_seek of
        SeekStart asked_offset \<Rightarrow>
          bindE (lift_res (ok_or InvalidInput (checked_add asked_offset (sr_head_len s)))) (\<lambda>new_inner.
          bindE (lift_res (tail_offset_from_inner_start s)) (\<lambda>tail_offset.
            if tail_offset < new_inner then fail InvalidInput
            else strip_move sk (SeekStart new_inner) asked_offset)) s
      | SeekCurrent asked_offset \<Rightarrow>
          bindE (lift_res (ok_or InvalidInput (checked_add_signed (sr_pos s) asked_offset))) (\<lambda>new_pos.
          bindE (lift_res (this_layer_length s)) (\<lambda>len.
            if len < new_pos then fail InvalidInput
            else strip_move sk asked_seek new_pos)) s
      | SeekEnd asked_offset \<Rightarrow>
          bindE (lift_res (this_layer_length s)) (\<lambda>len.
          bindE (lift_res (ok_or InvalidInput (checked_add_signed len asked_offset))) (\<lambda>new_pos.
            if 0 < asked_offset then fail InvalidInput
            else bindE (lift_res (ok_or InvalidInput (checked_sub_unsigned asked_offset (sr_tail_len s))))
                (\<lambda>inner_offset. strip_move sk (SeekEnd inner_offset) new_pos))) s)"

definition strip_read ::
  "(nat \<Rightarrow> ('r, io_error, bytes) op) \<Rightarrow> nat \<Rightarrow> ('r strip_reader, io_error, bytes) op" where
  "strip_read rd n s =
     bindE (lift_res (this_layer_length s)) (\<lambda>len.
     bindE (lift_res (ok_or InvalidInput (checked_sub len (sr_pos s)))) (\<lambda>remaining.
     bindE (on_field sr_inner put_sr (take_read rd remaining n)) (\<lambda>bs s'.
       case checked_add (sr_pos s') (length bs) of
         None \<Rightarrow> (Inl InvalidInput, s')
       | Some p \<Rightarrow> (Inr bs, s'\<lparr>sr_pos := p\<rparr>)))) s"

section \<open>The contracts they keep\<close>

definition raw_view :: "('r \<Rightarrow> bytes) \<Rightarrow> 'r raw_reader \<Rightarrow> bytes" where
  "raw_view view s = drop (rr_offset_pos s) (view (rr_inner s))"

definition raw_pos :: "('r \<Rightarrow> nat) \<Rightarrow> 'r raw_reader \<Rightarrow> nat" where
  "raw_pos pos s = pos (rr_inner s) - rr_offset_pos s"

definition raw_inv :: "('r \<Rightarrow> bytes) \<Rightarrow> ('r \<Rightarrow> nat) \<Rightarrow> ('r \<Rightarrow> bool) \<Rightarrow> 'r raw_reader \<Rightarrow> bool" where
  "raw_inv view pos rinv s \<longleftrightarrow> rinv (rr_inner s) \<and> rr_offset_pos s \<le> pos (rr_inner s) \<and>
     rr_offset_pos s \<le> length (view (rr_inner s)) \<and> length (view (rr_inner s)) < 2 ^ 63"

definition strip_view :: "('r \<Rightarrow> bytes) \<Rightarrow> 'r strip_reader \<Rightarrow> bytes" where
  "strip_view view s =
     take (sr_inner_len s - sr_head_len s - sr_tail_len s) (drop (sr_head_len s) (view (sr_inner s)))"

definition strip_inv :: "('r \<Rightarrow> bytes) \<Rightarrow> ('r \<Rightarrow> nat) \<Rightarrow> ('r \<Rightarrow> bool) \<Rightarrow> 'r strip_reader \<Rightarrow> bool" where
  "strip_inv view pos rinv s \<longleftrightarrow> rinv (sr_inner s) \<and> sr_head_len s + sr_tail_len s \<le> sr_inner_len s \<and>
     sr_inner_len s = length (view (sr_inner s)) \<and> sr_inner_len s < 2 ^ 63 \<and>
     pos (sr_inner s) = sr_head_len s + sr_pos s \<and>
     sr_pos s + sr_head_len s + sr_tail_len s \<le> sr_inner_len s"

lemma length_strip_view:
  "strip_inv view pos rinv s \<Longrightarrow>
   length (strip_view view s) = sr_inner_len s - sr_head_len s - sr_tail_len s"
  by (auto simp: strip_view_def strip_inv_def)

context full_seekable
begin

lemma raw_read_ok:
  assumes "raw_inv view pos inv s" and "raw_pos pos s < length (raw_view view s)"
  shows "\<exists>k s'. raw_read rd n s = (Inr (take k (drop (raw_pos pos s) (raw_view view s))), s') \<and> k \<le> n \<and>
    k \<le> length (raw_view view s) - raw_pos pos s \<and> (0 < n \<longrightarrow> 0 < k) \<and>
    raw_inv view pos inv s' \<and> raw_view view s' = raw_view view s \<and> raw_pos pos s' = raw_pos pos s + k"
proof -
  have i: "inv (rr_inner s)" "rr_offset_pos s \<le> pos (rr_inner s)" "pos (rr_inner s) < length (view (rr_inner s))"
    using assms by (auto simp: raw_inv_def raw_view_def raw_pos_def)
  from read_ok [OF i(1,3), of n] obtain k r where
    "rd n (rr_inner s) = (Inr (take k (drop (pos (rr_inner s)) (view (rr_inner s)))), r)" "k \<le> n"
    "k \<le> length (view (rr_inner s)) - pos (rr_inner s)" "0 < n \<longrightarrow> 0 < k" "inv r"
    "view r = view (rr_inner s)" "pos r = pos (rr_inner s) + k" by blast
  then show ?thesis
    using assms i(2) by (intro exI [of _ k] exI [of _ "put_rr r s"])
      (auto simp: raw_read_def on_field_def raw_view_def raw_pos_def raw_inv_def)
qed

lemma raw_seek_relative_ok:
  assumes "raw_inv view pos inv s"
    and "sk f (rr_inner s) = (Inr (rr_offset_pos s + p), r)" "inv r" "view r = view (rr_inner s)"
      "pos r = rr_offset_pos s + p"
  shows "\<exists>s'. raw_seek_relative sk f s = (Inr p, s') \<and> raw_inv view pos inv s' \<and>
    raw_view view s' = raw_view view s \<and> raw_pos pos s' = p"
  using assms by (auto simp: raw_seek_relative_def bindE_def on_field_def checked_sub_def raw_inv_def
      raw_view_def raw_pos_def)

lemma raw_full_seekable:
  "full_seekable (raw_read rd) (raw_view view) (raw_pos pos) (raw_inv view pos inv) (raw_seek sk)"
proof
  fix s :: "'r raw_reader" and n assume "raw_inv view pos inv s" "raw_pos pos s < length (raw_view view s)"
  from raw_read_ok [OF this] show "\<exists>k s'. raw_read rd n s =
    (Inr (take k (drop (raw_pos pos s) (raw_view view s))), s') \<and> k \<le> n \<and>
    k \<le> length (raw_view view s) - raw_pos pos s \<and> (0 < n \<longrightarrow> 0 < k) \<and>
    raw_inv view pos inv s' \<and> raw_view view s' = raw_view view s \<and> raw_pos pos s' = raw_pos pos s + k" .
next
  fix s :: "'r raw_reader" and p assume a: "raw_inv view pos inv s" "p < length (raw_view view s)"
  then have "inv (rr_inner s)" "rr_offset_pos s + p < length (view (rr_inner s))"
    by (auto simp: raw_inv_def raw_view_def)
  from seek_start [OF this] a show "\<exists>s'. raw_seek sk (SeekStart p) s = (Inr p, s') \<and>
      raw_inv view pos inv s' \<and> raw_view view s' = raw_view view s \<and> raw_pos pos s' = p"
    by (auto simp: raw_seek_def bindE_def lift_res_def checked_add_def on_field_def ret_def raw_inv_def
        raw_view_def raw_pos_def)
next
  fix s :: "'r raw_reader" and d assume a: "raw_inv view pos inv s" "0 < d" "d \<le> length (raw_view view s)"
  then have "inv (rr_inner s)" "d \<le> length (view (rr_inner s))"
    and l: "length (view (rr_inner s)) - d = rr_offset_pos s + (length (raw_view view s) - d)"
    by (auto simp: raw_inv_def raw_view_def)
  from seek_end [OF this(1) a(2) this(2)] raw_seek_relative_ok [OF a(1), of "SeekEnd (- int d)"]
  show "\<exists>s'. raw_seek sk (SeekEnd (- int d)) s = (Inr (length (raw_view view s) - d), s') \<and>
      raw_inv view pos inv s' \<and> raw_view view s' = raw_view view s \<and>
      raw_pos pos s' = length (raw_view view s) - d"
    unfolding l raw_seek_def seek_from.case by blast
next
  fix s :: "'r raw_reader" and i
  assume a: "raw_inv view pos inv s" "raw_pos pos s \<le> length (raw_view view s)" "0 \<le> int (raw_pos pos s) + i"
    "int (raw_pos pos s) + i < int (length (raw_view view s))"
  then have "inv (rr_inner s)" "pos (rr_inner s) \<le> length (view (rr_inner s))" "0 \<le> int (pos (rr_inner s)) + i"
    "int (pos (rr_inner s)) + i < int (length (view (rr_inner s)))"
    and l: "nat (int (pos (rr_inner s)) + i) = rr_offset_pos s + nat (int (raw_pos pos s) + i)"
    by (auto simp: raw_inv_def raw_view_def raw_pos_def)
  from seek_current [OF this(1-4)] raw_seek_relative_ok [OF a(1), of "SeekCurrent i"]
  show "\<exists>s'. raw_seek sk (SeekCurrent i) s = (Inr (nat (int (raw_pos pos s) + i)), s') \<and>
      raw_inv view pos inv s' \<and> raw_view view s' = raw_view view s \<and>
      raw_pos pos s' = nat (int (raw_pos pos s) + i)"
    unfolding l raw_seek_def seek_from.case by blast
next
  fix s :: "'r raw_reader" and n assume a: "raw_inv view pos inv s" "length (raw_view view s) \<le> raw_pos pos s"
  then have "inv (rr_inner s)" "length (view (rr_inner s)) \<le> pos (rr_inner s)"
    by (auto simp: raw_inv_def raw_view_def raw_pos_def)
  from read_eof [OF this, of n] a(1) show "\<exists>s'. raw_read rd n s = (Inr [], s') \<and> raw_inv view pos inv s' \<and>
      raw_view view s' = raw_view view s \<and> raw_pos pos s' = raw_pos pos s"
    by (auto simp: raw_read_def on_field_def raw_view_def raw_pos_def raw_inv_def)
next
  fix s :: "'r raw_reader" assume a: "raw_inv view pos inv s"
  then have "inv (rr_inner s)"
    and l: "length (view (rr_inner s)) = rr_offset_pos s + length (raw_view view s)"
    by (auto simp: raw_inv_def raw_view_def)
  from seek_to_end [OF this(1)] raw_seek_relative_ok [OF a, of "SeekEnd 0"]
  show "\<exists>s'. raw_seek sk (SeekEnd 0) s = (Inr (length (raw_view view s)), s') \<and> raw_inv view pos inv s' \<and>
      raw_view view s' = raw_view view s \<and> raw_pos pos s' = length (raw_view view s)"
    unfolding l raw_seek_def seek_from.case by blast
qed

end

context seekable
begin

text \<open>Stripping.\<close>

lemma strip_moveI:
  assumes "strip_inv view pos inv s" and "sk f (sr_inner s) = (Inr (sr_head_len s + p), r)" "inv r"
    "view r = view (sr_inner s)" "pos r = sr_head_len s + p" "p + sr_head_len s + sr_tail_len s \<le> sr_inner_len s"
  shows "\<exists>s'. strip_move sk f p s = (Inr p, s') \<and> strip_inv view pos inv s' \<and>
    strip_view view s' = strip_view view s \<and> sr_pos s' = p"
  using assms by (auto simp: strip_move_def bindE_def on_field_def strip_inv_def strip_view_def)

lemma strip_seek_start_ok:
  assumes "strip_inv view pos inv s" and "p < length (strip_view view s)"
  shows "\<exists>s'. strip_seek sk (SeekStart p) s = (Inr p, s') \<and> strip_inv view pos inv s' \<and>
    strip_view view s' = strip_view view s \<and> sr_pos s' = p"
proof -
  have i: "inv (sr_inner s)" "p + sr_head_len s < length (view (sr_inner s))"
    "p + sr_head_len s + sr_tail_len s \<le> sr_inner_len s" "sr_inner_len s < 2 ^ 63"
    using assms length_strip_view [OF assms(1)] by (auto simp: strip_inv_def)
  from seek_start [OF i(1,2)] strip_moveI [OF assms(1), of "SeekStart (p + sr_head_len s)" p] i(3)
  have "\<exists>s'. strip_move sk (SeekStart (p + sr_head_len s)) p s = (Inr p, s') \<and> strip_inv view pos inv s' \<and>
    strip_view view s' = strip_view view s \<and> sr_pos s' = p" by (auto simp: add.commute)
  moreover have "\<not> sr_inner_len s - sr_tail_len s < p + sr_head_len s" using i(3) by linarith
  ultimately show ?thesis
    using i(3,4) by (simp add: strip_seek_def bindE_def lift_res_def checked_add_def
        tail_offset_from_inner_start_def checked_sub_def)
qed

lemma strip_length_ok:
  assumes "strip_inv view pos inv s"
  shows "this_layer_length s = Inr (length (strip_view view s))"
proof -
  have "sr_head_len s \<le> sr_inner_len s" "sr_tail_len s \<le> sr_inner_len s - sr_head_len s"
    using assms unfolding strip_inv_def by arith+
  then show ?thesis
    by (simp add: length_strip_view [OF assms] this_layer_length_def checked_sub_def)
qed

lemma strip_seek_end_ok:
  assumes s: "strip_inv view pos inv s" and d: "d \<le> length (strip_view view s)"
    and e: "\<exists>r. sk (SeekEnd (- int (sr_tail_len s + d))) (sr_inner s) =
        (Inr (length (view (sr_inner s)) - (sr_tail_len s + d)), r) \<and> inv r \<and> view r = view (sr_inner s) \<and>
        pos r = length (view (sr_inner s)) - (sr_tail_len s + d)"
  shows "\<exists>s'. strip_seek sk (SeekEnd (- int d)) s = (Inr (length (strip_view view s) - d), s') \<and>
    strip_inv view pos inv s' \<and> strip_view view s' = strip_view view s \<and>
    sr_pos s' = length (strip_view view s) - d"
proof -
  let ?p = "length (strip_view view s) - d"
  have i: "inv (sr_inner s)" "sr_tail_len s + d \<le> length (view (sr_inner s))" "sr_inner_len s < 2 ^ 63"
    "length (view (sr_inner s)) - (sr_tail_len s + d) = sr_head_len s + ?p"
    "?p + sr_head_len s + sr_tail_len s \<le> sr_inner_len s" "sr_inner_len s = length (view (sr_inner s))"
    using s d length_strip_view [OF s] by (auto simp: strip_inv_def)
  from e obtain r where
    "sk (SeekEnd (- int (sr_tail_len s + d))) (sr_inner s) = (Inr (sr_head_len s + ?p), r)" "inv r"
    "view r = view (sr_inner s)" "pos r = sr_head_len s + ?p" unfolding i(4) by blast
  from strip_moveI [OF s this i(5)]
  have "\<exists>s'. strip_move sk (SeekEnd (- int d - int (sr_tail_len s))) ?p s = (Inr ?p, s') \<and>
    strip_inv view pos inv s' \<and> strip_view view s' = strip_view view s \<and> sr_pos s' = ?p"
    by (simp add: algebra_simps)
  moreover have "checked_add_signed (length (strip_view view s)) (- int d) = Some ?p"
    using d i(3,6) length_strip_view [OF s] by (simp add: checked_add_signed_def nat_diff_distrib)
  moreover have "checked_sub_unsigned (- int d) (sr_tail_len s) = Some (- int d - int (sr_tail_len s))"
    using i(2,3,6) by (simp add: checked_sub_unsigned_def)
  ultimately show ?thesis
    by (simp add: strip_seek_def bindE_def lift_res_def strip_length_ok [OF s])
qed

lemma strip_seek_current_ok:
  assumes s: "strip_inv view pos inv s" and p: "0 \<le> int (sr_pos s) + i"
    "int (sr_pos s) + i < int (length (strip_view view s))"
  shows "\<exists>s'. strip_seek sk (SeekCurrent i) s = (Inr (nat (int (sr_pos s) + i)), s') \<and>
    strip_inv view pos inv s' \<and> strip_view view s' = strip_view view s \<and> sr_pos s' = nat (int (sr_pos s) + i)"
proof -
  let ?p = "nat (int (sr_pos s) + i)"
  have i: "inv (sr_inner s)" "pos (sr_inner s) = sr_head_len s + sr_pos s"
    "?p + sr_head_len s + sr_tail_len s \<le> sr_inner_len s" "sr_inner_len s = length (view (sr_inner s))"
    "?p < length (strip_view view s)" "sr_inner_len s < 2 ^ 63"
    "length (strip_view view s) + sr_head_len s + sr_tail_len s = sr_inner_len s"
    using s p length_strip_view [OF s] by (auto simp: strip_inv_def)
  have "pos (sr_inner s) \<le> length (view (sr_inner s))" using s by (auto simp: strip_inv_def)
  moreover have "0 \<le> int (pos (sr_inner s)) + i" using p i(2) by simp
  moreover have "int (pos (sr_inner s)) + i < int (length (view (sr_inner s)))" using p i(2,4,7) by simp
  moreover have "nat (int (pos (sr_inner s)) + i) = sr_head_len s + ?p" using p i(2) by simp
  ultimately obtain r where "sk (SeekCurrent i) (sr_inner s) = (Inr (sr_head_len s + ?p), r)" "inv r"
    "view r = view (sr_inner s)" "pos r = sr_head_len s + ?p" using seek_current [OF i(1), of i] by auto
  from strip_moveI [OF s this i(3)] show ?thesis
    using p i(5,6,7) by (simp add: strip_seek_def bindE_def lift_res_def strip_length_ok [OF s]
        checked_add_signed_def)
qed

lemma strip_read_ok:
  assumes s: "strip_inv view pos inv s"
  shows "\<exists>k s'. strip_read rd n s = (Inr (take k (drop (sr_pos s) (strip_view view s))), s') \<and> k \<le> n \<and>
    k \<le> length (strip_view view s) - sr_pos s \<and> (0 < n \<longrightarrow> sr_pos s < length (strip_view view s) \<longrightarrow> 0 < k) \<and>
    strip_inv view pos inv s' \<and> strip_view view s' = strip_view view s \<and> sr_pos s' = sr_pos s + k"
proof -
  let ?v = "strip_view view s"
  have i: "inv (sr_inner s)" "pos (sr_inner s) = sr_head_len s + sr_pos s" "sr_pos s \<le> length ?v"
    "sr_inner_len s < 2 ^ 63" "length ?v + sr_head_len s + sr_tail_len s = length (view (sr_inner s))"
    "sr_inner_len s = length (view (sr_inner s))"
    using s length_strip_view [OF s] by (auto simp: strip_inv_def)
  show ?thesis
  proof (cases "sr_pos s = length ?v")
    case True
    then show ?thesis
      using s i by (intro exI [of _ 0] exI [of _ s]) (auto simp: strip_read_def bindE_def lift_res_def
          strip_length_ok [OF s] checked_sub_def take_read_def on_field_def checked_add_def)
  next
    case False
    then have "pos (sr_inner s) < length (view (sr_inner s))" using i by simp
    from read_ok [OF i(1) this, of "min n (length ?v - sr_pos s)"] obtain k r where
      k: "rd (min n (length ?v - sr_pos s)) (sr_inner s) =
        (Inr (take k (drop (pos (sr_inner s)) (view (sr_inner s)))), r)" "k \<le> min n (length ?v - sr_pos s)"
      "k \<le> length (view (sr_inner s)) - pos (sr_inner s)"
      "0 < min n (length ?v - sr_pos s) \<longrightarrow> 0 < k" "inv r" "view r = view (sr_inner s)"
      "pos r = pos (sr_inner s) + k" by (elim exE conjE) (rule that)
    have t: "take k (drop (pos (sr_inner s)) (view (sr_inner s))) = take k (drop (sr_pos s) ?v)"
      using k(2) length_strip_view [OF s]
      by (simp add: strip_view_def drop_take i(2) add.commute min_absorb1)
    have "sr_pos s + k \<le> length ?v" using k(2) i(3) by auto
    also have "\<dots> < 2 ^ 63" using i(4-6) by simp
    finally have b: "sr_pos s + k < 2 ^ 64" by simp
    have "length (take k (drop (sr_pos s) ?v)) = k" using k(2) by simp
    then have "strip_read rd n s = (Inr (take k (drop (sr_pos s) ?v)), s\<lparr>sr_inner := r, sr_pos := sr_pos s + k\<rparr>)"
      using k(1,2) i False t b by (simp add: strip_read_def bindE_def lift_res_def strip_length_ok [OF s]
          checked_sub_def take_read_def on_field_def checked_add_def)
    moreover have "strip_inv view pos inv (s\<lparr>sr_inner := r, sr_pos := sr_pos s + k\<rparr>)"
      using s k i by (auto simp: strip_inv_def)
    moreover have "strip_view view (s\<lparr>sr_inner := r, sr_pos := sr_pos s + k\<rparr>) = ?v"
      by (simp add: strip_view_def k(6))
    moreover have "k \<le> n" "k \<le> length ?v - sr_pos s" using k(2) by simp_all
    moreover have "0 < n \<longrightarrow> sr_pos s < length ?v \<longrightarrow> 0 < k" using k(4) by simp
    ultimately show ?thesis
      by (intro exI [of _ k] exI [of _ "s\<lparr>sr_inner := r, sr_pos := sr_pos s + k\<rparr>"]) simp
  qed
qed

text \<open>The strip layer never reads at the end of what is below it, so it stops at its own end.\<close>

lemma strip_eof_seekable:
  "eof_seekable (strip_read rd) (strip_view view) sr_pos (strip_inv view pos inv) (strip_seek sk)"
proof
  fix s :: "'r strip_reader" and n assume "strip_inv view pos inv s" "sr_pos s < length (strip_view view s)"
  with strip_read_ok [of s n] show "\<exists>k s'. strip_read rd n s =
    (Inr (take k (drop (sr_pos s) (strip_view view s))), s') \<and> k \<le> n \<and>
    k \<le> length (strip_view view s) - sr_pos s \<and> (0 < n \<longrightarrow> 0 < k) \<and>
    strip_inv view pos inv s' \<and> strip_view view s' = strip_view view s \<and> sr_pos s' = sr_pos s + k" by blast
next
  fix s :: "'r strip_reader" and n assume "strip_inv view pos inv s" "length (strip_view view s) \<le> sr_pos s"
  with strip_read_ok [of s n] show "\<exists>s'. strip_read rd n s = (Inr [], s') \<and>
    strip_inv view pos inv s' \<and> strip_view view s' = strip_view view s \<and> sr_pos s' = sr_pos s" by auto
next
  fix s :: "'r strip_reader" and d assume s: "strip_inv view pos inv s" and d: "0 < d" "d \<le> length (strip_view view s)"
  have "inv (sr_inner s)" "0 < sr_tail_len s + d" "sr_tail_len s + d \<le> length (view (sr_inner s))"
    using s d length_strip_view [OF s] by (auto simp: strip_inv_def)
  then have "\<exists>r. sk (SeekEnd (- int (sr_tail_len s + d))) (sr_inner s) =
        (Inr (length (view (sr_inner s)) - (sr_tail_len s + d)), r) \<and> inv r \<and> view r = view (sr_inner s) \<and>
        pos r = length (view (sr_inner s)) - (sr_tail_len s + d)" by (rule seek_end)
  from strip_seek_end_ok [OF s d(2) this]
  show "\<exists>s'. strip_seek sk (SeekEnd (- int d)) s = (Inr (length (strip_view view s) - d), s') \<and>
    strip_inv view pos inv s' \<and> strip_view view s' = strip_view view s \<and> sr_pos s' = length (strip_view view s) - d" .
qed (use strip_seek_start_ok strip_seek_current_ok in blast)+

end

context full_seekable
begin

lemma strip_full_seekable:
  "full_seekable (strip_read rd) (strip_view view) sr_pos (strip_inv view pos inv) (strip_seek sk)"
proof (rule full_seekable.intro)
  note e = strip_eof_seekable
  show "seekable (strip_read rd) (strip_view view) sr_pos (strip_inv view pos inv) (strip_seek sk)"
    "eof_source (strip_read rd) (strip_view view) sr_pos (strip_inv view pos inv)"
    using e by (simp_all add: eof_seekable_def)
  show "full_seekable_axioms (strip_view view) sr_pos (strip_inv view pos inv) (strip_seek sk)"
  proof
    fix s :: "'r strip_reader" assume s: "strip_inv view pos inv s"
    then have i: "inv (sr_inner s)" "sr_tail_len s + 0 \<le> length (view (sr_inner s))" by (auto simp: strip_inv_def)
    have "\<exists>r. sk (SeekEnd (- int (sr_tail_len s + 0))) (sr_inner s) =
        (Inr (length (view (sr_inner s)) - (sr_tail_len s + 0)), r) \<and> inv r \<and> view r = view (sr_inner s) \<and>
        pos r = length (view (sr_inner s)) - (sr_tail_len s + 0)"
      by (rule seek_any_end [OF i]) blast
    from strip_seek_end_ok [OF s le0 this]
    show "\<exists>s'. strip_seek sk (SeekEnd 0) s = (Inr (length (strip_view view s)), s') \<and>
        strip_inv view pos inv s' \<and> strip_view view s' = strip_view view s \<and> sr_pos s' = length (strip_view view s)"
      by simp
  qed
qed

end

interpretation cur_raw: full_seekable "raw_read cursor_read" "raw_view cur_data" "raw_pos cur_pos"
  "raw_inv cur_data cur_pos cursor_inv" "raw_seek cursor_seek"
  by (rule cur.raw_full_seekable)

interpretation cur_strip: full_seekable "strip_read (raw_read cursor_read)" "strip_view (raw_view cur_data)" sr_pos
  "strip_inv (raw_view cur_data) (raw_pos cur_pos) (raw_inv cur_data cur_pos cursor_inv)"
  "strip_seek (raw_seek cursor_seek)"
  by (rule cur_raw.strip_full_seekable)

section \<open>Properties\<close>

text \<open>C33: the stripping layer is a window. Over a seekable reader it is again one, on the bytes between
  head and tail; reading to the end stops before the tail, and no seek leaves the window: it is refused
  and the reader stays where it is.\<close>

theorem strip_window:
  assumes "full_seekable rd view pos rinv sk" and "strip_inv view pos rinv s"
  shows "full_seekable (strip_read rd) (strip_view view) sr_pos (strip_inv view pos rinv) (strip_seek sk) \<and>
    (\<exists>s'. read_to_end (strip_read rd) s = (Inr (drop (sr_pos s) (strip_view view s)), s')) \<and>
    (\<forall>p > length (strip_view view s). strip_seek sk (SeekStart p) s = (Inl InvalidInput, s)) \<and>
    (\<forall>i > 0. strip_seek sk (SeekEnd i) s = (Inl InvalidInput, s)) \<and>
    (\<forall>i. int (sr_pos s) + i \<notin> {0..int (length (strip_view view s))} \<longrightarrow>
       strip_seek sk (SeekCurrent i) s = (Inl InvalidInput, s))"
proof (intro conjI allI impI)
  show f: "full_seekable (strip_read rd) (strip_view view) sr_pos (strip_inv view pos rinv) (strip_seek sk)"
    by (rule full_seekable.strip_full_seekable [OF assms(1)])
  then have es: "eof_source (strip_read rd) (strip_view view) sr_pos (strip_inv view pos rinv)"
    by (simp add: full_seekable_def)
  then have so: "source (strip_read rd) (strip_view view) sr_pos (strip_inv view pos rinv)"
    by (simp add: eof_source_def)
  have sb: "seekable rd view pos rinv sk" using assms(1) by (simp add: full_seekable_def)
  note len = seekable.strip_length_ok [OF sb assms(2)]
  have b: "length (strip_view view s) < 2 ^ 63 - 1 \<or> length (strip_view view s) = 2 ^ 63 - 1"
    "sr_head_len s + sr_tail_len s + length (strip_view view s) = sr_inner_len s" "sr_inner_len s < 2 ^ 63"
    using assms(2) length_strip_view [OF assms(2)] by (auto simp: strip_inv_def)
  show "\<exists>s'. read_to_end (strip_read rd) s = (Inr (drop (sr_pos s) (strip_view view s)), s')"
  proof (cases "length (strip_view view s) - sr_pos s < 2 ^ 63 - 1")
    case True
    with eof_source.take_read_to_end_all [OF es assms(2), of "2 ^ 63 - 1"] show ?thesis
      by (auto simp: source.rest_def [OF so] source.yields_def [OF so] read_to_end_def)
  next
    case False
    then have "2 ^ 63 - 1 = length (drop (sr_pos s) (strip_view view s))" using b(1) by auto
    with source.take_read_to_end_yields [OF so assms(2), of "2 ^ 63 - 1"] show ?thesis
      by (auto simp: source.rest_def [OF so] source.yields_def [OF so] read_to_end_def)
  qed
  show "strip_seek sk (SeekStart p) s = (Inl InvalidInput, s)" if "length (strip_view view s) < p" for p
    using that b(2) by (auto simp: strip_seek_def bindE_def lift_res_def checked_add_def fail_def
        tail_offset_from_inner_start_def checked_sub_def)
  show "strip_seek sk (SeekEnd i) s = (Inl InvalidInput, s)" if "0 < i" for i
    using that by (auto simp: strip_seek_def bindE_def lift_res_def len checked_add_signed_def fail_def)
  show "strip_seek sk (SeekCurrent i) s = (Inl InvalidInput, s)"
    if "int (sr_pos s) + i \<notin> {0..int (length (strip_view view s))}" for i
    using that by (auto simp: strip_seek_def bindE_def lift_res_def len checked_add_signed_def fail_def)
qed

theorem strip_window_witness:
  "let s = \<lparr>sr_inner = \<lparr>cur_data = [1, 2, 3, 4, 5, 6], cur_pos = 3\<rparr>, sr_head_len = 2, sr_tail_len = 1,
      sr_inner_len = 6, sr_pos = 1\<rparr>
   in (\<exists>s'. read_to_end (strip_read cursor_read) s = (Inr [4, 5], s')) \<and>
      strip_seek cursor_seek (SeekStart 4) s = (Inl InvalidInput, s)"
proof -
  let ?s = "\<lparr>sr_inner = \<lparr>cur_data = [1, 2, 3, 4, 5, 6], cur_pos = 3\<rparr>, sr_head_len = 2, sr_tail_len = 1,
      sr_inner_len = 6, sr_pos = 1\<rparr>"
  have i: "strip_inv cur_data cur_pos cursor_inv ?s" by (simp add: strip_inv_def cursor_inv_def)
  have v: "strip_view cur_data ?s = [3, 4, 5]" by (simp add: strip_view_def)
  from strip_window [OF cur.full_seekable_axioms i] show ?thesis
    unfolding Let_def v by simp
qed

text \<open>The raw layer pins position 0. Over a seekable reader it is again one, on the bytes after the
  pinned position, and a relative seek that would end before the pinned position goes back to it.\<close>

theorem raw_window:
  assumes "full_seekable rd view pos rinv sk" and "raw_inv view pos rinv s"
  shows "full_seekable (raw_read rd) (raw_view view) (raw_pos pos) (raw_inv view pos rinv) (raw_seek sk) \<and>
    (\<forall>d. raw_view view s \<noteq> [] \<longrightarrow> length (raw_view view s) < d \<longrightarrow> d \<le> length (view (rr_inner s)) \<longrightarrow>
      (\<exists>s'. raw_seek sk (SeekEnd (- int d)) s = (Inr 0, s') \<and> raw_pos pos s' = 0 \<and>
         raw_view view s' = raw_view view s))"
proof (intro conjI allI impI)
  show "full_seekable (raw_read rd) (raw_view view) (raw_pos pos) (raw_inv view pos rinv) (raw_seek sk)"
    by (rule full_seekable.raw_full_seekable [OF assms(1)])
  fix d assume d: "raw_view view s \<noteq> []" "length (raw_view view s) < d" "d \<le> length (view (rr_inner s))"
  have i: "rinv (rr_inner s)" "rr_offset_pos s < length (view (rr_inner s))"
    using assms(2) d(1) by (auto simp: raw_inv_def raw_view_def)
  from full_seekable.seek_any_end [OF assms(1) i(1) d(3)] obtain r where
    r: "sk (SeekEnd (- int d)) (rr_inner s) = (Inr (length (view (rr_inner s)) - d), r)" "rinv r"
    "view r = view (rr_inner s)" by blast
  have "rr_offset_pos s < length (view r)" using i(2) r(3) by simp
  moreover have ss: "start_seekable rd view pos rinv sk"
    using assms(1) by (simp add: full_seekable_def seekable_def)
  ultimately obtain r2 where r2: "sk (SeekStart (rr_offset_pos s)) r = (Inr (rr_offset_pos s), r2)"
    "view r2 = view r" "pos r2 = rr_offset_pos s"
    using start_seekable.seek_start [OF ss r(2)] by blast
  have "length (view (rr_inner s)) - d < rr_offset_pos s"
    using d i(2) by (simp add: raw_view_def)
  then show "\<exists>s'. raw_seek sk (SeekEnd (- int d)) s = (Inr 0, s') \<and> raw_pos pos s' = 0 \<and>
         raw_view view s' = raw_view view s"
    using r r2 by (auto simp: raw_seek_def raw_seek_relative_def bindE_def on_field_def ret_def raw_pos_def
        raw_view_def)
qed

theorem raw_window_witness:
  "let s = \<lparr>rr_inner = \<lparr>cur_data = [1, 2, 3, 4, 5, 6], cur_pos = 3\<rparr>, rr_offset_pos = 2\<rparr>
   in \<exists>s'. raw_seek cursor_seek (SeekEnd (- 5)) s = (Inr 0, s') \<and> raw_view cur_data s' = [3, 4, 5, 6]"
proof -
  let ?s = "\<lparr>rr_inner = \<lparr>cur_data = [1, 2, 3, 4, 5, 6], cur_pos = 3\<rparr>, rr_offset_pos = 2\<rparr>"
  have i: "raw_inv cur_data cur_pos cursor_inv ?s" by (simp add: raw_inv_def cursor_inv_def)
  have v: "raw_view cur_data ?s = [3, 4, 5, 6]" by (simp add: raw_view_def)
  from raw_window [OF cur.full_seekable_axioms i, THEN conjunct2, THEN spec, of 5] show ?thesis
    unfolding Let_def v by auto
qed

end
