(* ===== verification/EncryptReader.thy ===== *)
theory EncryptReader
  imports EncryptWriter ViewLayers
begin

text \<open>
  The reading half of the encryption layer (\<^verbatim>\<open>InternalEncryptionLayerReader\<close> and the truncated reader
  of \<^verbatim>\<open>mla/src/layers/encrypt.rs\<close>). The reader keeps a decrypted chunk and the raw bytes of the next one. Over a
  seekable reader on \<open>enc_body\<close>, the initialized layer is a seekable reader on the plaintext; over any
  bytes, what a load accepts is authenticated under the nonce of its own chunk number.
  The field \<^verbatim>\<open>cipher\<close> is assigned before each of its uses and is not kept in the record.
\<close>

section \<open>Reading into a vector that survives errors\<close>

text \<open>\<^verbatim>\<open>src.take(n).read_to_end(&mut v)\<close>, with the bytes read before an error left in the vector.\<close>

function take_read_to_end_into ::
  "(nat \<Rightarrow> ('r, io_error, bytes) op) \<Rightarrow> nat \<Rightarrow> ('r \<times> bytes, io_error, unit) op" where
  "take_read_to_end_into rd n rv =
     (if n = 0 then (Inr (), rv)
      else case rd n (fst rv) of
          (Inl e, r') \<Rightarrow> (Inl e, (r', snd rv))
        | (Inr bs, r') \<Rightarrow>
            (if bs = [] then (Inr (), (r', snd rv))
             else take_read_to_end_into rd (n - length bs) (r', snd rv @ bs)))"
  by pat_completeness auto
termination
  by (relation "measure (\<lambda>(rd, n, rv). n)") auto

declare take_read_to_end_into.simps [simp del]

lemma take_read_to_end_into_Inr:
  "take_read_to_end rd n r = (Inr bs, r') \<Longrightarrow> take_read_to_end_into rd n (r, v) = (Inr (), (r', v @ bs))"
proof (induction n arbitrary: r v bs rule: less_induct)
  case (less n)
  from less.prems show ?case
    by (subst (asm) take_read_to_end.simps, subst take_read_to_end_into.simps)
      (auto simp del: append_assoc simp: append_assoc [symmetric] intro!: less.IH
        split: if_splits prod.splits sum.splits)
qed

section \<open>The reader\<close>

datatype truncated_decryption_mode = OnlyAuthenticatedData | DataEvenUnauthenticated

record 'r enc_reader =
  er_inner :: 'r
  er_key :: bytes
  er_nonce :: bytes
  er_chunk_cache :: cursor
  er_next_chunk_cache :: bytes
  er_all_plaintext_size :: nat
  er_pos :: nat
  er_final_block :: "bytes option"
  er_truncated_mode :: "truncated_decryption_mode option"

abbreviation put_er :: "'r \<Rightarrow> 'r enc_reader \<Rightarrow> 'r enc_reader" where
  "put_er r s \<equiv> s\<lparr>er_inner := r\<rparr>"

abbreviation on_er :: "('r, 'e, 'a) op \<Rightarrow> ('r enc_reader, 'e, 'a) op" where
  "on_er \<equiv> on_field er_inner put_er"

definition enc_reader_new ::
  "gcm_prims \<Rightarrow> (nat \<Rightarrow> ('r, io_error, bytes) op) \<Rightarrow> (bytes \<times> bytes) option \<Rightarrow>
   truncated_decryption_mode option \<Rightarrow> 'r \<Rightarrow> error + 'r enc_reader" where
  "enc_reader_new G rd encrypt_parameters mode inner =
     (case take_read_to_end rd M0_CHUNK_SIZE inner of
        (Inl e, _) \<Rightarrow> Inl (IOError e)
      | (Inr next, inner') \<Rightarrow>
          (case encrypt_parameters of
             None \<Rightarrow> Inl PrivateKeyNeeded
           | Some (key, nonce) \<Rightarrow>
               (case aes_gcm_new G key (compute_nonce nonce FIRST_DATA_CHUNK_NUMBER) ASSOCIATED_DATA of
                  Inl e \<Rightarrow> Inl e
                | Inr _ \<Rightarrow>
                    Inr \<lparr>er_inner = inner', er_key = key, er_nonce = nonce, er_chunk_cache = cursor_new [],
                         er_next_chunk_cache = next, er_all_plaintext_size = 0, er_pos = 0,
                         er_final_block = None, er_truncated_mode = mode\<rparr>)))"

definition current_data_chunk_number :: "'r enc_reader \<Rightarrow> nat" where
  "current_data_chunk_number s = er_pos s div NORMAL_CHUNK_PT_SIZE"

definition last_data_chunk_number :: "'r enc_reader \<Rightarrow> nat" where
  "last_data_chunk_number s =
     (if NORMAL_CHUNK_PT_SIZE dvd er_all_plaintext_size s
      then er_all_plaintext_size s div NORMAL_CHUNK_PT_SIZE - 1
      else er_all_plaintext_size s div NORMAL_CHUNK_PT_SIZE)"

definition is_at_least_in_last_data_chunk :: "'r enc_reader \<Rightarrow> error + bool" where
  "is_at_least_in_last_data_chunk s =
     (case checked_mul (last_data_chunk_number s) NORMAL_CHUNK_PT_SIZE of
        None \<Rightarrow> Inl DeserializationError
      | Some last_data_chunk_pos \<Rightarrow> Inr (last_data_chunk_pos \<le> er_pos s))"

text \<open>\<^verbatim>\<open>windows(8).position(..)\<close>, then the three searches of \<^verbatim>\<open>final_block_magic_scan\<close>.\<close>

definition magic_position :: "bytes \<Rightarrow> nat option" where
  "magic_position xs =
     find (\<lambda>i. take (length FINAL_BLOCK_MAGIC) (drop i xs) = FINAL_BLOCK_MAGIC)
       [0..<Suc (length xs) - length FINAL_BLOCK_MAGIC]"

definition magic_across :: "bytes \<Rightarrow> bytes \<Rightarrow> nat \<Rightarrow> bool" where
  "magic_across xs ys n \<longleftrightarrow>
     \<not> (length xs < n \<or> length ys < length FINAL_BLOCK_MAGIC - n) \<and>
     drop (length xs - n) xs = take n FINAL_BLOCK_MAGIC \<and>
     take (length FINAL_BLOCK_MAGIC - n) ys = drop n FINAL_BLOCK_MAGIC"

definition final_block_magic_scan :: "'r enc_reader \<Rightarrow> nat option" where
  "final_block_magic_scan s =
     (let chunk_cache = cur_data (er_chunk_cache s); next = er_next_chunk_cache s
      in case magic_position chunk_cache of
          Some pos \<Rightarrow> Some pos
        | None \<Rightarrow>
            (case magic_position next of
               Some pos \<Rightarrow> checked_add (length chunk_cache) pos
             | None \<Rightarrow>
                 Option.bind (find (magic_across chunk_cache next) [1..<length FINAL_BLOCK_MAGIC])
                   (\<lambda>n. checked_sub (length chunk_cache) n)))"

definition try_tag_pos_at_from_0_to :: "'r enc_reader \<Rightarrow> nat \<Rightarrow> nat option" where
  "try_tag_pos_at_from_0_to s max_pos = None"

definition get_end_of_tag_pos :: "'r enc_reader \<Rightarrow> error + nat" where
  "get_end_of_tag_pos s =
     (let chunk_cache_len = length (cur_data (er_chunk_cache s));
          next_chunk_cache_len = length (er_next_chunk_cache s)
      in if chunk_cache_len = M0_CHUNK_SIZE \<and> FINAL_INFO_SIZE < next_chunk_cache_len then Inr M0_CHUNK_SIZE
         else if chunk_cache_len < TAG_LENGTH then Inl TruncatedTag
         else case final_block_magic_scan s of
             Some pos \<Rightarrow> Inr pos
           | None \<Rightarrow>
               (case try_tag_pos_at_from_0_to s (chunk_cache_len - TAG_LENGTH) of
                  Some pos \<Rightarrow> Inr pos
                | None \<Rightarrow>
                    if er_truncated_mode s = Some DataEvenUnauthenticated
                    then ok_or DeserializationError (checked_add chunk_cache_len TAG_LENGTH)
                    else Inl UnknownTagPosition))"

text \<open>The first half of \<^verbatim>\<open>load_in_cache\<close>: move the next chunk up, read another one, find where the tag ends.\<close>

definition fill_next_chunk_cache ::
  "(nat \<Rightarrow> ('r, io_error, bytes) op) \<Rightarrow> ('r enc_reader, io_error, unit) op" where
  "fill_next_chunk_cache rd =
     on_field (\<lambda>s. (er_inner s, er_next_chunk_cache s))
       (\<lambda>(r, v) s. s\<lparr>er_inner := r, er_next_chunk_cache := v\<rparr>) (take_read_to_end_into rd M0_CHUNK_SIZE)"

definition swap_chunk_caches :: "'r enc_reader \<Rightarrow> 'r enc_reader" where
  "swap_chunk_caches s =
     s\<lparr>er_chunk_cache := \<lparr>cur_data = er_next_chunk_cache s, cur_pos = 0\<rparr>, er_next_chunk_cache := []\<rparr>"

definition end_of_tag_in_cache :: "'r enc_reader \<Rightarrow> error + nat option" where
  "end_of_tag_in_cache s =
     (case (if er_truncated_mode s = None then is_at_least_in_last_data_chunk s else Inr False) of
        Inl e \<Rightarrow> Inl e
      | Inr True \<Rightarrow>
          (let content_len = er_all_plaintext_size s - er_pos s
           in if content_len = 0 then Inr None
              else (case Option.bind (checked_add content_len TAG_LENGTH) (\<lambda>n. checked_add n CHUNK_HEAD_SIZE) of
                      None \<Rightarrow> Inl DeserializationError
                    | Some n \<Rightarrow> Inr (Some n)))
      | Inr False \<Rightarrow> (case get_end_of_tag_pos s of Inl e \<Rightarrow> Inl e | Inr n \<Rightarrow> Inr (Some n)))"

text \<open>\<^verbatim>\<open>slice.get(lo..hi)\<close>\<close>

definition slice_get :: "nat \<Rightarrow> nat \<Rightarrow> 'a list \<Rightarrow> 'a list option" where
  "slice_get lo hi xs = (if lo \<le> hi \<and> hi \<le> length xs then Some (take (hi - lo) (drop lo xs)) else None)"

text \<open>The second half: decrypt the cache in place and check the tag. The decrypted bytes stay in the cache
  when the tag is wrong.\<close>

definition decrypt_cache :: "gcm_prims \<Rightarrow> nat \<Rightarrow> ('r enc_reader, error, unit option) op" where
  "decrypt_cache G end_of_tag_pos s =
     (let end_of_ciphertext_pos = end_of_tag_pos - TAG_LENGTH; cache = cur_data (er_chunk_cache s) in
      if end_of_ciphertext_pos = 0 then (Inr None, s)
      else case checked_add (current_data_chunk_number s) FIRST_DATA_CHUNK_NUMBER of
          None \<Rightarrow> (Inl DeserializationError, s)
        | Some sequence_number \<Rightarrow>
          (case aes_gcm_new G (er_key s) (compute_nonce (er_nonce s) sequence_number) ASSOCIATED_DATA of
             Inl e \<Rightarrow> (Inl e, s)
           | Inr cipher \<Rightarrow>
             (case slice_get CHUNK_HEAD_SIZE end_of_ciphertext_pos cache of
                None \<Rightarrow> (Inl (WrongReaderState ''Invalid chunk cache data part''), s)
              | Some data_part \<Rightarrow>
                let put_data = (\<lambda>pt. s\<lparr>er_chunk_cache := (er_chunk_cache s)
                      \<lparr>cur_data := take CHUNK_HEAD_SIZE cache @ pt @ drop end_of_ciphertext_pos cache\<rparr>\<rparr>);
                    finish = (\<lambda>pt. (Inr (Some ()), s\<lparr>er_chunk_cache :=
                      \<lparr>cur_data = take CHUNK_HEAD_SIZE cache @ pt, cur_pos = CHUNK_HEAD_SIZE\<rparr>\<rparr>))
                in if er_truncated_mode s = Some DataEvenUnauthenticated
                   then finish (fst (decrypt_unauthenticated G data_part cipher))
                   else (case aes_gcm_decrypt G data_part cipher of
                       Inl e \<Rightarrow> (Inl e, s)
                     | Inr (pt, computed_tag) \<Rightarrow>
                         (case slice_get end_of_ciphertext_pos end_of_tag_pos cache of
                            None \<Rightarrow> (Inl (WrongReaderState ''Invalid chunk cache tag part''), put_data pt)
                          | Some tag_part \<Rightarrow>
                              if computed_tag = tag_part then finish pt
                              else (Inl AuthenticatedDecryptionWrongTag, put_data pt))))))"

definition load_in_cache ::
  "gcm_prims \<Rightarrow> (nat \<Rightarrow> ('r, io_error, bytes) op) \<Rightarrow> ('r enc_reader, error, unit option) op" where
  "load_in_cache G rd s =
     bindE (lift_io (fill_next_chunk_cache rd)) (\<lambda>_ s1.
       case end_of_tag_in_cache s1 of
         Inl e \<Rightarrow> (Inl e, s1)
       | Inr None \<Rightarrow> (Inr None, s1)
       | Inr (Some end_of_tag_pos) \<Rightarrow> decrypt_cache G end_of_tag_pos s1) (swap_chunk_caches s)"

lemma load_in_cache_pos:
  assumes "load_in_cache G rd s = (Inr (Some u), s')"
  shows "cur_pos (er_chunk_cache s') = 16"
  using assms by (auto simp: load_in_cache_def decrypt_cache_def Let_def
      elim!: bindE_InrE split: sum.splits option.splits if_splits prod.splits)

function read_internal ::
  "gcm_prims \<Rightarrow> (nat \<Rightarrow> ('r, io_error, bytes) op) \<Rightarrow> nat \<Rightarrow> ('r enc_reader, error, bytes) op" where
  "read_internal G rd n s =
     (case checked_sub NORMAL_CHUNK_PT_AND_TAG_SIZE (cur_pos (er_chunk_cache s)) of
        None \<Rightarrow> (Inl DeserializationError, s)
      | Some cache_to_consume \<Rightarrow>
          if cache_to_consume = 0
          then (case load_in_cache G rd s of
                  (Inl e, s') \<Rightarrow> (Inl e, s')
                | (Inr None, s') \<Rightarrow> (Inr [], s')
                | (Inr (Some _), s') \<Rightarrow> read_internal G rd n s')
          else (case cursor_read (min cache_to_consume n) (er_chunk_cache s) of
                  (Inl e, c) \<Rightarrow> (Inl (IOError e), s\<lparr>er_chunk_cache := c\<rparr>)
                | (Inr bs, c) \<Rightarrow>
                    (let s1 = s\<lparr>er_chunk_cache := c\<rparr>
                     in case checked_add (er_pos s1) (length bs) of
                         None \<Rightarrow> (Inl DeserializationError, s1)
                       | Some p \<Rightarrow> (Inr bs, s1\<lparr>er_pos := p\<rparr>))))"
  by pat_completeness auto
termination
  by (relation "measure (\<lambda>(G, rd, n, s). if cur_pos (er_chunk_cache s) = 131088 then 1 else 0)")
    (auto simp: checked_sub_def dest!: load_in_cache_pos [OF sym] split: if_splits)

declare read_internal.simps [simp del]

definition mla_error_to_io_error :: "error \<Rightarrow> io_error" where
  "mla_error_to_io_error err = (case err of IOError e \<Rightarrow> e | Panic \<Rightarrow> IoPanic | _ \<Rightarrow> IoOther)"

definition enc_read ::
  "gcm_prims \<Rightarrow> (nat \<Rightarrow> ('r, io_error, bytes) op) \<Rightarrow> nat \<Rightarrow> ('r enc_reader, io_error, bytes) op" where
  "enc_read G rd n = map_errE mla_error_to_io_error (read_internal G rd n)"

section \<open>Sizes, final block and seeking\<close>

definition set_all_plaintext_size ::
  "(seek_from \<Rightarrow> ('r, io_error, nat) op) \<Rightarrow> ('r enc_reader, error, unit) op" where
  "set_all_plaintext_size sk =
     bindE (lift_io (on_er (sk (SeekEnd 0)))) (\<lambda>input_size.
     bindE (lift_res (ok_or DeserializationError
       (Option.bind (checked_add (length END_OF_ENCRYPTED_INNER_LAYER_MAGIC) FINAL_INFO_SIZE)
         (\<lambda>n. checked_add n CHUNK_HEAD_SIZE)))) (\<lambda>final_and_header_len.
       let input_size_without = input_size - final_and_header_len;
           chunk_number_at_end_of_data = input_size_without div M0_CHUNK_SIZE;
           last_chunk_size = input_size_without mod M0_CHUNK_SIZE
       in bindE (lift_res (ok_or DeserializationError
              (if last_chunk_size = 0 then checked_mul chunk_number_at_end_of_data NORMAL_CHUNK_PT_SIZE
               else Option.bind (checked_mul chunk_number_at_end_of_data NORMAL_CHUNK_PT_SIZE) (\<lambda>n.
                    Option.bind (checked_add n last_chunk_size) (\<lambda>m. checked_sub m TAG_LENGTH)))))
            (\<lambda>sz s. (Inr (), s\<lparr>er_all_plaintext_size := sz\<rparr>))))"

text \<open>The decryption of \<^verbatim>\<open>check_last_block\<close> and of \<^verbatim>\<open>_check_final\<close>.\<close>

definition open_final_block :: "gcm_prims \<Rightarrow> bytes \<Rightarrow> bytes \<Rightarrow> nat \<Rightarrow> bytes \<Rightarrow> error + bytes \<times> bytes" where
  "open_final_block G key nonce sequence_number data =
     (case aes_gcm_new G key (compute_nonce nonce sequence_number) FINAL_ASSOCIATED_DATA of
        Inl e \<Rightarrow> Inl e
      | Inr cipher \<Rightarrow> aes_gcm_decrypt G data cipher)"

definition check_last_block ::
  "gcm_prims \<Rightarrow> (nat \<Rightarrow> ('r, io_error, bytes) op) \<Rightarrow> (seek_from \<Rightarrow> ('r, io_error, nat) op) \<Rightarrow>
   ('r enc_reader, error, unit) op" where
  "check_last_block G rd sk =
     bindE (lift_res (ok_or DeserializationError
       (checked_add FINAL_INFO_SIZE_WOM (length END_OF_ENCRYPTED_INNER_LAYER_MAGIC)))) (\<lambda>offset.
     bindE (lift_res (ok_or (OtherError ''Offset too large for i64 conversion'') (i64_try_from offset))) (\<lambda>offset_i64.
     bindE (lift_res (ok_or DeserializationError (checked_neg_i64 offset_i64))) (\<lambda>neg.
     bindE (lift_io (on_er (sk (SeekEnd neg)))) (\<lambda>_ s.
     bindE (lift_res (ok_or DeserializationError
       (Option.bind (checked_add (last_data_chunk_number s) 1) (\<lambda>n. checked_add n FIRST_DATA_CHUNK_NUMBER))))
       (\<lambda>sequence_number.
     bindE (lift_io (on_er (read_to_end rd))) (\<lambda>data_and_tag.
       if length data_and_tag < FINAL_INFO_SIZE_WOM then fail InvalidLastTag
       else bindE (lift_res (open_final_block G (er_key s) (er_nonce s) sequence_number
                (take (length FINAL_BLOCK_CONTENT) data_and_tag))) (\<lambda>(data, expected_tag).
            if expected_tag = take TAG_LENGTH (drop (length FINAL_BLOCK_CONTENT) data_and_tag) \<and>
               data = FINAL_BLOCK_CONTENT
            then ret () else fail InvalidLastTag))) s))))"

definition this_layer_position_to_inner_position :: "nat \<Rightarrow> io_error + nat" where
  "this_layer_position_to_inner_position asked =
     (let cur_chunk = asked div NORMAL_CHUNK_PT_SIZE; cur_chunk_pos = asked mod NORMAL_CHUNK_PT_SIZE
      in ok_or InvalidInput
           (Option.bind (checked_mul cur_chunk M0_CHUNK_SIZE) (\<lambda>n.
            Option.bind (checked_add n cur_chunk_pos) (\<lambda>m. checked_add m CHUNK_HEAD_SIZE))))"

definition enc_seek_start ::
  "gcm_prims \<Rightarrow> (nat \<Rightarrow> ('r, io_error, bytes) op) \<Rightarrow> (seek_from \<Rightarrow> ('r, io_error, nat) op) \<Rightarrow>
   nat \<Rightarrow> ('r enc_reader, io_error, nat) op" where
  "enc_seek_start G rd sk asked_pos =
     bindE (lift_res (this_layer_position_to_inner_position asked_pos)) (\<lambda>inner_position.
     bindE (lift_res (ok_or InvalidInput (checked_mul (inner_position div M0_CHUNK_SIZE) M0_CHUNK_SIZE))) (\<lambda>chunk_start.
     bindE (lift_res (ok_or InvalidInput (checked_sub (inner_position mod M0_CHUNK_SIZE) CHUNK_HEAD_SIZE))) (\<lambda>in_chunk.
     bindE (on_er (sk (SeekStart chunk_start))) (\<lambda>_.
     bindE (lift_res (ok_or InvalidInput
       (checked_mul (inner_position div M0_CHUNK_SIZE) NORMAL_CHUNK_PT_SIZE))) (\<lambda>chunk_pos s.
     bindE (fill_next_chunk_cache rd) (\<lambda>_.
     bindE (to_io (load_in_cache G rd)) (\<lambda>_ s1.
     bindE (lift_res (ok_or InvalidInput (checked_add CHUNK_HEAD_SIZE in_chunk))) (\<lambda>cache_pos s2.
     bindE (lift_res (ok_or InvalidInput (checked_add (er_pos s2) in_chunk))) (\<lambda>p s3.
       (Inr asked_pos, s3\<lparr>er_pos := p\<rparr>))
       (s2\<lparr>er_chunk_cache := (er_chunk_cache s2)\<lparr>cur_pos := cache_pos\<rparr>\<rparr>)) s1))
       (s\<lparr>er_pos := chunk_pos, er_next_chunk_cache := []\<rparr>))))))"

definition enc_seek ::
  "gcm_prims \<Rightarrow> (nat \<Rightarrow> ('r, io_error, bytes) op) \<Rightarrow> (seek_from \<Rightarrow> ('r, io_error, nat) op) \<Rightarrow>
   seek_from \<Rightarrow> ('r enc_reader, io_error, nat) op" where
  "enc_seek G rd sk pos s =
     (case pos of
        SeekStart asked_pos \<Rightarrow> enc_seek_start G rd sk asked_pos s
      | SeekCurrent v \<Rightarrow>
          if v = 0 then (Inr (er_pos s), s)
          else bindE (lift_res (ok_or IoOther
                 (Option.bind (i64_try_from (er_pos s)) (\<lambda>p.
                  Option.bind (checked_add_i64 p v) u64_try_from_i64)))) (enc_seek_start G rd sk) s
      | SeekEnd v \<Rightarrow>
          if 0 < v then (Inl IoOther, s)
          else bindE (lift_res (ok_or IoOther
                 (Option.bind (i64_try_from (er_all_plaintext_size s)) (\<lambda>p.
                  Option.bind (checked_add_i64 p v) u64_try_from_i64)))) (enc_seek_start G rd sk) s)"

definition enc_initialize ::
  "gcm_prims \<Rightarrow> (nat \<Rightarrow> ('r, io_error, bytes) op) \<Rightarrow> (seek_from \<Rightarrow> ('r, io_error, nat) op) \<Rightarrow>
   ('r enc_reader, error, unit) op" where
  "enc_initialize G rd sk =
     bindE (set_all_plaintext_size sk) (\<lambda>_.
     bindE (check_last_block G rd sk) (\<lambda>_.
       lift_io (rewind (enc_seek G rd sk))))"

text \<open>The truncated reader loads the first chunk when it is made.\<close>

definition enc_truncated_new_skip_header ::
  "gcm_prims \<Rightarrow> (nat \<Rightarrow> ('r, io_error, bytes) op) \<Rightarrow> (bytes \<times> bytes) option \<Rightarrow>
   truncated_decryption_mode \<Rightarrow> 'r \<Rightarrow> error + 'r enc_reader" where
  "enc_truncated_new_skip_header G rd encrypt_parameters mode inner =
     (case enc_reader_new G rd encrypt_parameters (Some mode) inner of
        Inl e \<Rightarrow> Inl e
      | Inr s \<Rightarrow> (case load_in_cache G rd s of (Inl e, _) \<Rightarrow> Inl e | (Inr _, s') \<Rightarrow> Inr s'))"

definition enc_truncated_read ::
  "gcm_prims \<Rightarrow> (nat \<Rightarrow> ('r, io_error, bytes) op) \<Rightarrow> nat \<Rightarrow> ('r enc_reader, io_error, bytes) op" where
  "enc_truncated_read G rd n = map_errE mla_error_to_io_error (read_internal G rd n)"

section \<open>Where the chunks are\<close>

lemma chunks_Cons: "131072 < length pt \<Longrightarrow> chunks pt = take 131072 pt # chunks (drop 131072 pt)"
  by (simp add: chunks.simps [of pt])

lemma chunks_short: "length pt \<le> 131072 \<Longrightarrow> chunks pt = [pt]"
  by (simp add: chunks.simps)

lemma pred_div:
  assumes "n mod m \<noteq> (0 :: nat)" and "0 < m"
  shows "(n - 1) div m = n div m"
proof (rule div_nat_eqI)
  have e: "m * (n div m) + n mod m = n" by simp
  show "m * (n div m) \<le> n - 1" using assms(1) e by linarith
  have "n mod m < m" using assms(2) by simp
  then show "n - 1 < m * Suc (n div m)" using assms(1) e unfolding mult_Suc_right by linarith
qed

lemma length_chunks: "length (chunks pt) = Suc ((length pt - 1) div 131072)"
proof (induction pt rule: chunks.induct)
  case (1 pt)
  show ?case
  proof (cases "length pt \<le> 131072")
    case True
    then show ?thesis by (simp add: chunks_short)
  next
    case False
    then have "length pt - 1 = (length pt - 131072 - 1) + 131072" by simp
    then have "(length pt - 1) div 131072 = Suc ((length pt - 131072 - 1) div 131072)"
      by (metis div_add_self2 add_Suc_right plus_1_eq_Suc add.commute zero_neq_numeral)
    with 1 False show ?thesis by (simp add: chunks_Cons)
  qed
qed

lemma chunks_nth: "j < length (chunks pt) \<Longrightarrow> chunks pt ! j = take 131072 (drop (j * 131072) pt)"
proof (induction pt arbitrary: j rule: chunks.induct)
  case (1 pt)
  show ?case
  proof (cases "length pt \<le> 131072")
    case True
    with 1 show ?thesis by (simp add: chunks_short)
  next
    case False
    with 1 show ?thesis by (cases j) (simp_all add: chunks_Cons add.commute)
  qed
qed

lemma full_take_chunks: "j < length (chunks pt) \<Longrightarrow> full_chunks (take j (chunks pt))"
proof -
  assume j: "j < length (chunks pt)"
  obtain ds cur where "chunks pt = ds @ [cur]" "full_chunks ds" by (rule chunks_split)
  with j show ?thesis by (auto simp: full_chunks_def dest: in_set_takeD)
qed

lemma length_concat_full: "full_chunks ds \<Longrightarrow> length (concat ds) = 131072 * length ds"
  by (induction ds) (auto simp: full_chunks_def)

lemma chunk_number_bound: "p < length pt \<Longrightarrow> p div 131072 < length (chunks pt)"
  unfolding length_chunks less_Suc_eq_le by (rule div_le_mono) simp

lemma chunk_start_bound: "pt \<noteq> [] \<Longrightarrow> j < length (chunks pt) \<Longrightarrow> j * 131072 < length pt"
  unfolding length_chunks less_Suc_eq_le
  by (drule mult_le_mono1 [where k = 131072]) (use div_times_less_eq_dividend [of "length pt - 1" 131072] in
    \<open>cases pt; simp\<close>)

lemma chunk_not_last: "Suc j < length (chunks pt) \<Longrightarrow> length (chunks pt ! j) = 131072"
proof -
  assume j: "Suc j < length (chunks pt)"
  then have "pt \<noteq> []" by (auto simp: length_chunks)
  with j chunk_start_bound [of pt "Suc j"] show ?thesis by (simp add: chunks_nth)
qed

lemma chunk_last: "Suc j = length (chunks pt) \<Longrightarrow> length (chunks pt ! j) = length pt - j * 131072"
proof -
  assume j: "Suc j = length (chunks pt)"
  then have "j = (length pt - 1) div 131072" by (simp add: length_chunks)
  then have "length pt - 1 < Suc j * 131072" by (simp add: dividend_less_times_div mult.commute less_mult_imp_div_less)
  with j show ?thesis by (simp add: chunks_nth)
qed

lemma drop_enc_chunks:
  "gcm_prims_ok G \<Longrightarrow> full_chunks ds \<Longrightarrow>
   drop (length ds * 131104) (enc_chunks G key nonce k (ds @ cs) @ t) = enc_chunks G key nonce (k + length ds) cs @ t"
  by (simp add: length_enc_chunks length_concat_full)

lemma drop_enc_body:
  assumes "gcm_prims_ok G" and "j < length (chunks pt)"
  obtains t where "drop (j * 131104) (enc_body G key nonce (chunks pt)) =
      enc_chunk G key nonce (Suc j) (chunks pt ! j) @ t" "42 \<le> length t"
    "Suc j < length (chunks pt) \<longrightarrow> 74 \<le> length t"
proof -
  let ?cs = "chunks pt"
  let ?t = "enc_chunks G key nonce (Suc (Suc j)) (drop (Suc j) ?cs) @ enc_final G key nonce (Suc (length ?cs))"
  have "?cs = take j ?cs @ ?cs ! j # drop (Suc j) ?cs" using assms(2) by (simp add: id_take_nth_drop)
  moreover have "length (take j ?cs) = j" using assms(2) by simp
  ultimately have "drop (j * 131104) (enc_body G key nonce ?cs) = enc_chunk G key nonce (Suc j) (?cs ! j) @ ?t"
    using drop_enc_chunks [OF assms(1) full_take_chunks [OF assms(2)], of key nonce 1 "?cs ! j # drop (Suc j) ?cs"
      "enc_final G key nonce (Suc (length ?cs))"] by (simp add: enc_body_def)
  moreover have "32 * (length ?cs - Suc j) \<le> length (enc_chunks G key nonce (Suc (Suc j)) (drop (Suc j) ?cs))"
    using assms(1) by (simp add: length_enc_chunks)
  ultimately show thesis using assms(1) by (intro that [of ?t]) auto
qed

lemma length_enc_body:
  "gcm_prims_ok G \<Longrightarrow> length (enc_body G key nonce (chunks pt)) = 32 * length (chunks pt) + length pt + 42"
  by (simp add: enc_body_def length_enc_chunks concat_chunks)

lemma last_data_chunk_number_put_er [simp]: "last_data_chunk_number (put_er r s) = last_data_chunk_number s"
  by (simp add: last_data_chunk_number_def)

lemma last_data_chunk_number_eq:
  "er_all_plaintext_size s = length pt \<Longrightarrow> Suc (last_data_chunk_number s) = length (chunks pt)"
proof -
  assume a: "er_all_plaintext_size s = length pt"
  show ?thesis
  proof (cases "131072 dvd length pt")
    case True
    then obtain q where q: "length pt = 131072 * q" by (elim dvdE)
    then have "(length pt - 1) div 131072 = q - 1" by (cases q) simp_all
    with q a show ?thesis by (simp add: last_data_chunk_number_def length_chunks)
  next
    case False
    then have "length pt mod 131072 \<noteq> 0" by (simp add: dvd_eq_mod_eq_0)
    then have "(length pt - 1) div 131072 = length pt div 131072"
      by (rule pred_div) simp
    with False a show ?thesis by (simp add: last_data_chunk_number_def length_chunks)
  qed
qed

section \<open>The reader on a well-formed layer\<close>

context eof_source
begin

lemma take_read_to_end_take:
  assumes "inv s"
  shows "yields (take_read_to_end rd n) s (take n (rest s)) (min n (length (rest s)))"
proof (cases "n \<le> length (rest s)")
  case True
  with take_read_to_end_yields [OF assms True] show ?thesis by (simp add: min_absorb1)
next
  case False
  with take_read_to_end_all [OF assms, of n] show ?thesis by (simp add: min_absorb2)
qed

lemma fill_next_chunk_cache_ok:
  assumes "inv (er_inner s)" and "er_next_chunk_cache s = []"
  obtains r where "fill_next_chunk_cache rd s =
      (Inr (), s\<lparr>er_inner := r, er_next_chunk_cache := take 131104 (drop (pos (er_inner s)) (view (er_inner s)))\<rparr>)"
    "inv r" "view r = view (er_inner s)"
    "pos r = pos (er_inner s) + min 131104 (length (view (er_inner s)) - pos (er_inner s))"
proof -
  from take_read_to_end_take [OF assms(1), of 131104] obtain r where
    r: "take_read_to_end rd 131104 (er_inner s) = (Inr (take 131104 (rest (er_inner s))), r)" "inv r"
    "view r = view (er_inner s)" "pos r = pos (er_inner s) + min 131104 (length (rest (er_inner s)))"
    by (rule yieldsE)
  from take_read_to_end_into_Inr [OF r(1), of "[]"] assms(2) r(2-4) show thesis
    by (intro that [of r]) (simp_all add: fill_next_chunk_cache_def on_field_def rest_def)
qed

end

text \<open>The fields that do not change after initialization, \<open>j\<close> ahead of the inner layer being loaded, and
  chunk \<open>j\<close> loaded with the position at \<open>off\<close> in it.\<close>

definition enc_base ::
  "('r \<Rightarrow> bytes) \<Rightarrow> ('r \<Rightarrow> bool) \<Rightarrow> gcm_prims \<Rightarrow> bytes \<Rightarrow> bytes \<Rightarrow> bytes \<Rightarrow> 'r enc_reader \<Rightarrow> bool" where
  "enc_base view rinv G key nonce pt s \<longleftrightarrow>
     rinv (er_inner s) \<and> view (er_inner s) = enc_body G key nonce (chunks pt) \<and>
     length (enc_body G key nonce (chunks pt)) < 2 ^ 63 \<and> er_key s = key \<and> er_nonce s = nonce \<and>
     er_truncated_mode s = None \<and> er_all_plaintext_size s = length pt"

definition enc_before :: "('r \<Rightarrow> bytes) \<Rightarrow> ('r \<Rightarrow> nat) \<Rightarrow> nat \<Rightarrow> 'r enc_reader \<Rightarrow> bool" where
  "enc_before view pos j s \<longleftrightarrow>
     er_next_chunk_cache s = take 131104 (drop (j * 131104) (view (er_inner s))) \<and>
     pos (er_inner s) = min (length (view (er_inner s))) (Suc j * 131104)"

definition enc_cached ::
  "('r \<Rightarrow> bytes) \<Rightarrow> ('r \<Rightarrow> nat) \<Rightarrow> bytes \<Rightarrow> nat \<Rightarrow> nat \<Rightarrow> 'r enc_reader \<Rightarrow> bool" where
  "enc_cached view pos pt j off s \<longleftrightarrow>
     er_chunk_cache s = \<lparr>cur_data = chunk_head (Suc j) @ chunks pt ! j, cur_pos = 16 + off\<rparr> \<and>
     er_pos s = j * 131072 + off \<and> enc_before view pos (Suc j) s"

text \<open>The decrypted chunk is read at a position inside the plaintext; an empty plaintext has none.\<close>

definition enc_rinv ::
  "('r \<Rightarrow> bytes) \<Rightarrow> ('r \<Rightarrow> nat) \<Rightarrow> ('r \<Rightarrow> bool) \<Rightarrow> gcm_prims \<Rightarrow> bytes \<Rightarrow> bytes \<Rightarrow> bytes \<Rightarrow> 'r enc_reader \<Rightarrow> bool" where
  "enc_rinv view pos rinv G key nonce pt s \<longleftrightarrow>
     enc_base view rinv G key nonce pt s \<and>
     (pt \<noteq> [] \<longrightarrow> (\<exists>j off. j < length (chunks pt) \<and> off \<le> length (chunks pt ! j) \<and>
        enc_cached view pos pt j off s))"

lemma enc_body_bounds:
  assumes "gcm_prims_ok G" and "length (enc_body G key nonce (chunks pt)) < 2 ^ 63"
  shows "length pt < 2 ^ 63" and "length (chunks pt) < 2 ^ 58"
  using assms by (simp_all add: length_enc_body)

lemma end_of_tag_ok:
  assumes G: "gcm_prims_ok G" and b: "enc_base view rinv G key nonce pt s" and j: "j < length (chunks pt)"
    and pt: "pt \<noteq> []" and p: "er_pos s = j * 131072" and e: "enc_before view pos (Suc j) s"
    and c: "er_chunk_cache s = \<lparr>cur_data = take 131104 (drop (j * 131104) (view (er_inner s))), cur_pos = q\<rparr>"
  shows "end_of_tag_in_cache s = Inr (Some (32 + length (chunks pt ! j)))"
proof -
  note bd = enc_body_bounds [OF G, of key nonce pt]
  have last: "Suc (last_data_chunk_number s) = length (chunks pt)"
    by (rule last_data_chunk_number_eq) (use b in \<open>simp add: enc_base_def\<close>)
  have "last_data_chunk_number s * 131072 < length pt" by (rule chunk_start_bound [OF pt]) (simp flip: last)
  also have "\<dots> < 2 ^ 63" using b bd(1) by (simp add: enc_base_def)
  finally have "last_data_chunk_number s * 131072 < 2 ^ 64" by simp
  then have l: "is_at_least_in_last_data_chunk s = Inr (last_data_chunk_number s \<le> j)"
    using p by (simp add: is_at_least_in_last_data_chunk_def checked_mul_def)
  have v: "view (er_inner s) = enc_body G key nonce (chunks pt)" and m: "er_truncated_mode s = None"
    and a: "er_all_plaintext_size s = length pt" and len: "length pt < 2 ^ 63"
    using b bd(1) by (auto simp: enc_base_def)
  show ?thesis
  proof (cases "Suc j < length (chunks pt)")
    case False
    then have "Suc j = length (chunks pt)" using j by simp
    with chunk_last [OF this] chunk_start_bound [OF pt j] show ?thesis
      using last a p m l len by (simp add: end_of_tag_in_cache_def checked_add_def Let_def)
  next
    case True
    obtain t where t: "drop (j * 131104) (enc_body G key nonce (chunks pt)) =
        enc_chunk G key nonce (Suc j) (chunks pt ! j) @ t" "74 \<le> length t"
      using drop_enc_body [OF G j, of key nonce] True by metis
    have l1: "length (enc_chunk G key nonce (Suc j) (chunks pt ! j)) = 131104"
      using G chunk_not_last [OF True] by simp
    have "drop (Suc j * 131104) (enc_body G key nonce (chunks pt)) = drop 131104 (drop (j * 131104) (enc_body G key nonce (chunks pt)))"
      by (simp add: add.commute)
    then have "drop (Suc j * 131104) (enc_body G key nonce (chunks pt)) = t" unfolding t using l1 by simp
    then have "34 < length (er_next_chunk_cache s)" using e t(2) v by (simp add: enc_before_def)
    moreover have "length (cur_data (er_chunk_cache s)) = 131104" using c v t l1 by simp
    ultimately have "get_end_of_tag_pos s = Inr 131104" by (simp add: get_end_of_tag_pos_def Let_def)
    then show ?thesis
      using l m last True chunk_not_last [OF True] by (simp add: end_of_tag_in_cache_def)
  qed
qed

lemma drop_min_length: "drop (min (length xs) n) xs = drop n xs"
  by (simp add: min_def)

lemma take_min_length: "take (min n (length xs)) xs = take n xs"
  by (simp add: min_def)

lemma min_fill: "min n a + min m (n - min n a) = min n (a + (m :: nat))"
  by (auto simp: min_def)

lemma decrypt_cache_ok:
  assumes G: "gcm_prims_ok G" and m: "er_truncated_mode s = None" and n: "j < 2 ^ 63" and c: "length c \<le> 131072"
    and p: "er_pos s = j * 131072" and k: "er_key s = key" "er_nonce s = nonce"
    and d: "er_chunk_cache s = \<lparr>cur_data = enc_chunk G key nonce (Suc j) c @ t, cur_pos = q\<rparr>"
    and ne: "c \<noteq> []"
  shows "decrypt_cache G (32 + length c) s =
    (Inr (Some ()), s\<lparr>er_chunk_cache := \<lparr>cur_data = chunk_head (Suc j) @ c, cur_pos = 16\<rparr>\<rparr>)"
proof -
  let ?n = "compute_nonce nonce (Suc j)" and ?ct = "chunk_ct G key nonce (Suc j) c"
  have "length ([] :: bytes) < AES256_GCM_MAX_PLAINTEXT_LENGTH" by (simp add: AES256_GCM_MAX_PLAINTEXT_LENGTH_def)
  then obtain g where g: "aes_gcm_new G key ?n [] = Inr g" "gcm_state G key ?n [] [] g" by (rule aes_gcm_new_ok)
  have "length ?ct + length ([] :: bytes) < AES256_GCM_MAX_PLAINTEXT_LENGTH"
    using c by (simp add: AES256_GCM_MAX_PLAINTEXT_LENGTH_def)
  from aes_gcm_decrypt_ok [OF G g(2) this]
  have dec: "aes_gcm_decrypt G ?ct g = Inr (c, chunk_tag G key nonce (Suc j) c)"
    by (simp add: chunk_tag_def chunk_ct_twice flip: chunk_ct_def)
  have seq: "checked_add (current_data_chunk_number s) 1 = Some (Suc j)"
    using p n by (simp add: current_data_chunk_number_def checked_add_def)
  let ?d = "enc_chunk G key nonce (Suc j) c @ t"
  have s1: "slice_get 16 (16 + length c) ?d = Some ?ct" "take 16 ?d = chunk_head (Suc j)"
    "slice_get (16 + length c) (32 + length c) ?d = Some (chunk_tag G key nonce (Suc j) c)"
    using G by (simp_all add: slice_get_def enc_chunk_def)
  have e: "32 + length c - TAG_LENGTH = 16 + length c" by simp
  show ?thesis
    unfolding decrypt_cache_def Let_def e
    using g(1) dec seq s1 m k d ne by (simp add: ASSOCIATED_DATA_def)
qed

context full_seekable
begin

lemma load_ok:
  assumes G: "gcm_prims_ok G" and b: "enc_base view inv G key nonce pt s" and j: "j < length (chunks pt)"
    and pt: "pt \<noteq> []" and p: "er_pos s = j * 131072" and e: "enc_before view pos j s"
  obtains s' where "load_in_cache G rd s = (Inr (Some ()), s')" "enc_base view inv G key nonce pt s'"
    "enc_cached view pos pt j 0 s'"
proof -
  let ?V = "enc_body G key nonce (chunks pt)" and ?c = "chunks pt ! j"
  let ?s0 = "swap_chunk_caches s"
  have v: "view (er_inner s) = ?V" "inv (er_inner s)" using b by (simp_all add: enc_base_def)
  have "inv (er_inner ?s0)" "er_next_chunk_cache ?s0 = []" using v by (simp_all add: swap_chunk_caches_def)
  then obtain r where f: "fill_next_chunk_cache rd ?s0 = (Inr (), ?s0\<lparr>er_inner := r,
      er_next_chunk_cache := take 131104 (drop (pos (er_inner ?s0)) (view (er_inner ?s0)))\<rparr>)" "inv r"
    "view r = view (er_inner ?s0)" "pos r = pos (er_inner ?s0) + min 131104 (length (view (er_inner ?s0)) - pos (er_inner ?s0))"
    by (rule fill_next_chunk_cache_ok)
  let ?s1 = "?s0\<lparr>er_inner := r, er_next_chunk_cache := take 131104 (drop (pos (er_inner ?s0)) (view (er_inner ?s0)))\<rparr>"
  have b1: "enc_base view inv G key nonce pt ?s1"
    using b f(2,3) by (simp add: enc_base_def swap_chunk_caches_def)
  have p1: "er_pos ?s1 = j * 131072" using p by (simp add: swap_chunk_caches_def)
  have e1: "enc_before view pos (Suc j) ?s1"
    using e f(3,4) v by (simp add: enc_before_def swap_chunk_caches_def drop_min_length min_fill add.commute)
  have c1: "er_chunk_cache ?s1 = \<lparr>cur_data = take 131104 (drop (j * 131104) (view (er_inner ?s1))), cur_pos = 0\<rparr>"
    using e f(3) v by (simp add: enc_before_def swap_chunk_caches_def)
  from end_of_tag_ok [OF G b1 j pt p1 e1 c1]
  have tag: "end_of_tag_in_cache ?s1 = Inr (Some (32 + length ?c))" .
  have lc: "length ?c \<le> 131072" "?c \<noteq> []"
    using chunks_nth [OF j] chunk_start_bound [OF pt j] by auto
  obtain t where t: "drop (j * 131104) ?V = enc_chunk G key nonce (Suc j) ?c @ t"
    using drop_enc_body [OF G j, of key nonce] by metis
  have v1: "view (er_inner ?s1) = ?V" using f(3) v(1) by (simp add: swap_chunk_caches_def)
  have c2: "er_chunk_cache ?s1 = \<lparr>cur_data = enc_chunk G key nonce (Suc j) ?c @ take (131072 - length ?c) t, cur_pos = 0\<rparr>"
    unfolding c1 v1 t using lc G by simp
  have j63: "j < 2 ^ 63" using chunk_start_bound [OF pt j] b enc_body_bounds(1) [OF G, of key nonce pt]
    by (simp add: enc_base_def)
  have dc: "decrypt_cache G (32 + length ?c) ?s1 =
    (Inr (Some ()), ?s1\<lparr>er_chunk_cache := \<lparr>cur_data = chunk_head (Suc j) @ ?c, cur_pos = 16\<rparr>\<rparr>)"
    by (rule decrypt_cache_ok [OF G _ j63 lc(1) p1 _ _ c2 lc(2)]) (use b1 in \<open>simp_all add: enc_base_def\<close>)
  let ?s2 = "?s1\<lparr>er_chunk_cache := \<lparr>cur_data = chunk_head (Suc j) @ ?c, cur_pos = 16\<rparr>\<rparr>"
  have "load_in_cache G rd s = (Inr (Some ()), ?s2)"
    unfolding load_in_cache_def bindE_Inr [where m = "lift_io (fill_next_chunk_cache rd)", OF lift_io_Inr, OF f(1)]
    by (simp only: tag sum.case option.case dc)
  moreover have "enc_base view inv G key nonce pt ?s2" using b1 by (simp add: enc_base_def)
  moreover have "enc_cached view pos pt j 0 ?s2" using e1 p1 by (simp add: enc_cached_def enc_before_def)
  ultimately show thesis by (rule that)
qed

lemma read_cached_ok:
  assumes b: "enc_base view inv G key nonce pt s" and j: "j < length (chunks pt)"
    and c: "enc_cached view pos pt j off s" and off: "off < length (chunks pt ! j)" and len: "length pt < 2 ^ 63"
  shows "\<exists>k s'. read_internal G rd n s = (Inr (take k (drop (er_pos s) pt)), s') \<and> k \<le> n \<and>
    k \<le> length pt - er_pos s \<and> (0 < n \<longrightarrow> 0 < k) \<and> enc_base view inv G key nonce pt s' \<and>
    enc_cached view pos pt j (off + k) s' \<and> off + k \<le> length (chunks pt ! j) \<and> er_pos s' = er_pos s + k"
proof -
  let ?c = "chunks pt ! j"
  have l: "length ?c = min 131072 (length pt - j * 131072)" using chunks_nth [OF j] by simp
  define k where "k = min (min (131072 - off) n) (length ?c - off)"
  let ?bs = "take k (drop off ?c)"
  have d: "cur_data (er_chunk_cache s) = chunk_head (Suc j) @ ?c" "cur_pos (er_chunk_cache s) = 16 + off"
    "er_pos s = j * 131072 + off" using c by (simp_all add: enc_cached_def)
  have k: "k \<le> n" "k \<le> length ?c - off" "0 < n \<longrightarrow> 0 < k" "length ?bs = k"
    using off l by (simp_all add: k_def)
  have "length ?c \<le> length pt - j * 131072" using l by simp
  then have kp: "k + er_pos s \<le> length pt" using k(2) off d(3) by linarith
  have bs: "take (min (131072 - off) n) (drop off ?c) = ?bs"
    using take_min_length [of "min (131072 - off) n" "drop off ?c"] by (simp add: k_def)
  have "checked_sub 131088 (16 + off) = Some (131072 - off)" "131072 - off \<noteq> 0"
    using off l by (simp_all add: checked_sub_def)
  moreover have "cursor_read (min (131072 - off) n) (er_chunk_cache s) =
      (Inr ?bs, \<lparr>cur_data = chunk_head (Suc j) @ ?c, cur_pos = 16 + (off + k)\<rparr>)"
    using d(1,2) k(4) bs by (cases "er_chunk_cache s") (simp add: cursor_read_def)
  moreover have "checked_add (er_pos s) k = Some (er_pos s + k)"
    using kp len by (simp add: checked_add_def)
  ultimately have "read_internal G rd n s = (Inr ?bs, s\<lparr>er_chunk_cache :=
      \<lparr>cur_data = chunk_head (Suc j) @ ?c, cur_pos = 16 + (off + k)\<rparr>, er_pos := er_pos s + k\<rparr>)"
    using d(2) k(4) by (subst read_internal.simps) (simp add: Let_def)
  moreover have "?bs = take k (drop (er_pos s) pt)"
  proof -
    have "take k (drop off (take 131072 (drop (j * 131072) pt))) = take (min k (131072 - off)) (drop off (drop (j * 131072) pt))"
      by (simp add: drop_take)
    moreover have "min k (131072 - off) = k" by (simp add: k_def)
    ultimately show ?thesis using chunks_nth [OF j] d(3) by (simp add: add.commute)
  qed
  ultimately show ?thesis
    using b c d(3) k kp off by (intro exI [of _ k] exI conjI) (auto simp: enc_base_def enc_cached_def enc_before_def)
qed

end

context full_seekable
begin

lemma enc_rinvE:
  assumes "enc_rinv view pos inv G key nonce pt s" and "pt \<noteq> []"
  obtains j off where "enc_base view inv G key nonce pt s" "j < length (chunks pt)" "off \<le> length (chunks pt ! j)"
    "enc_cached view pos pt j off s"
  using assms unfolding enc_rinv_def by blast

lemma enc_rinvI:
  "enc_base view inv G key nonce pt s \<Longrightarrow> j < length (chunks pt) \<Longrightarrow> off \<le> length (chunks pt ! j) \<Longrightarrow>
   enc_cached view pos pt j off s \<Longrightarrow> enc_rinv view pos inv G key nonce pt s"
  unfolding enc_rinv_def by blast

lemma enc_read_ok:
  assumes G: "gcm_prims_ok G" and i: "enc_rinv view pos inv G key nonce pt s" and p: "er_pos s < length pt"
  shows "\<exists>k s'. enc_read G rd n s = (Inr (take k (drop (er_pos s) pt)), s') \<and> k \<le> n \<and>
    k \<le> length pt - er_pos s \<and> (0 < n \<longrightarrow> 0 < k) \<and> enc_rinv view pos inv G key nonce pt s' \<and>
    er_pos s' = er_pos s + k"
proof -
  have pt: "pt \<noteq> []" using p by auto
  from enc_rinvE [OF i pt] obtain j off where h: "enc_base view inv G key nonce pt s" "j < length (chunks pt)"
    "off \<le> length (chunks pt ! j)" "enc_cached view pos pt j off s" .
  have len: "length pt < 2 ^ 63" using enc_body_bounds(1) [OF G, of key nonce pt] h(1) by (simp add: enc_base_def)
  have "\<exists>k s'. read_internal G rd n s = (Inr (take k (drop (er_pos s) pt)), s') \<and> k \<le> n \<and>
    k \<le> length pt - er_pos s \<and> (0 < n \<longrightarrow> 0 < k) \<and> enc_rinv view pos inv G key nonce pt s' \<and>
    er_pos s' = er_pos s + k"
  proof (cases "off < length (chunks pt ! j)")
    case True
    from read_cached_ok [OF h(1,2,4) True len, of n] show ?thesis
    proof (elim exE conjE)
      fix k s' assume r: "read_internal G rd n s = (Inr (take k (drop (er_pos s) pt)), s')" "k \<le> n"
        "k \<le> length pt - er_pos s" "0 < n \<longrightarrow> 0 < k" "enc_base view inv G key nonce pt s'"
        "enc_cached view pos pt j (off + k) s'" "off + k \<le> length (chunks pt ! j)" "er_pos s' = er_pos s + k"
      show ?thesis
        by (rule exI [of _ k], rule exI [of _ s']) (use r enc_rinvI [OF r(5) h(2) r(7,6)] in simp)
    qed
  next
    case False
    then have off: "off = length (chunks pt ! j)" using h(3) by simp
    have ps: "er_pos s = j * 131072 + off" "cur_pos (er_chunk_cache s) = 16 + off" "enc_before view pos (Suc j) s"
      using h(4) by (simp_all add: enc_cached_def)
    have sj: "Suc j < length (chunks pt)"
    proof (rule ccontr)
      assume "\<not> Suc j < length (chunks pt)"
      with h(2) have "Suc j = length (chunks pt)" by simp
      with p ps(1) off chunk_last [OF this] chunk_start_bound [OF pt h(2)] show False by simp
    qed
    have o: "off = 131072" using chunk_not_last [OF sj] off by simp
    have "er_pos s = Suc j * 131072" using ps(1) o by simp
    from load_ok [OF G h(1) sj pt this ps(3)] obtain s1 where
      s1: "load_in_cache G rd s = (Inr (Some ()), s1)" "enc_base view inv G key nonce pt s1"
      "enc_cached view pos pt (Suc j) 0 s1" .
    have "0 < length (chunks pt ! Suc j)"
      using chunks_nth [OF sj] chunk_start_bound [OF pt sj] by simp
    note rd1 = read_cached_ok [OF s1(2) sj s1(3) this len, of n]
    have e1: "er_pos s1 = er_pos s" using s1(3) ps(1) o by (simp add: enc_cached_def)
    have e2: "read_internal G rd n s = read_internal G rd n s1"
      by (subst read_internal.simps) (simp add: checked_sub_def s1(1) ps(2) o)
    note e = e1 e2
    from rd1 show ?thesis
    proof (elim exE conjE)
      fix k s' assume r: "read_internal G rd n s1 = (Inr (take k (drop (er_pos s1) pt)), s')" "k \<le> n"
        "k \<le> length pt - er_pos s1" "0 < n \<longrightarrow> 0 < k" "enc_base view inv G key nonce pt s'"
        "enc_cached view pos pt (Suc j) (0 + k) s'" "0 + k \<le> length (chunks pt ! Suc j)" "er_pos s' = er_pos s1 + k"
      show ?thesis
        by (rule exI [of _ k], rule exI [of _ s']) (use r e enc_rinvI [OF r(5) sj r(7,6)] in simp)
    qed
  qed
  then show ?thesis
  proof (elim exE conjE)
    fix k s' assume r: "read_internal G rd n s = (Inr (take k (drop (er_pos s) pt)), s')" "k \<le> n"
      "k \<le> length pt - er_pos s" "0 < n \<longrightarrow> 0 < k" "enc_rinv view pos inv G key nonce pt s'" "er_pos s' = er_pos s + k"
    show ?thesis
      by (rule exI [of _ k], rule exI [of _ s']) (simp add: enc_read_def map_errE_def r)
  qed
qed

lemma inner_position_ok:
  assumes "asked < 2 ^ 63"
  shows "this_layer_position_to_inner_position asked = Inr (asked div 131072 * 131104 + (asked mod 131072 + 16))"
    "(asked div 131072 * 131104 + (asked mod 131072 + 16)) div 131104 = asked div 131072"
    "(asked div 131072 * 131104 + (asked mod 131072 + 16)) mod 131104 = asked mod 131072 + 16"
    "asked div 131072 * 131104 < 2 ^ 64"
proof -
  define q r where "q = asked div 131072" and "r = asked mod 131072"
  have r: "r < 131072" and e: "131072 * q + r = asked" by (simp_all add: q_def r_def)
  have "asked < 9223372036854775808" using assms by simp
  with r e have "q * 131104 < 18446744073709551616" "q * 131104 + r < 18446744073709551616"
    "q * 131104 + r + 16 < 18446744073709551616"
    by linarith+
  then show "this_layer_position_to_inner_position asked = Inr (asked div 131072 * 131104 + (asked mod 131072 + 16))"
    "asked div 131072 * 131104 < 2 ^ 64"
    by (simp_all add: this_layer_position_to_inner_position_def Let_def checked_mul_def checked_add_def
        flip: q_def r_def)
  have m1: "r + 16 < 131104" using r by simp
  then show "(asked div 131072 * 131104 + (asked mod 131072 + 16)) div 131104 = asked div 131072"
    "(asked div 131072 * 131104 + (asked mod 131072 + 16)) mod 131104 = asked mod 131072 + 16"
    unfolding q_def [symmetric] r_def [symmetric] by simp_all
qed

lemma enc_seek_in_chunk:
  assumes G: "gcm_prims_ok G" and b: "enc_base view inv G key nonce pt s" and p: "p \<le> length pt"
    and pt: "pt \<noteq> []" and jp: "p div 131072 < length (chunks pt)"
  shows "\<exists>s'. enc_seek_start G rd sk p s = (Inr p, s') \<and> enc_rinv view pos inv G key nonce pt s' \<and> er_pos s' = p"
proof -
  let ?V = "enc_body G key nonce (chunks pt)"
  define j off where jd: "j = p div 131072" and od: "off = p mod 131072"
  have j: "j < length (chunks pt)" unfolding jd by (rule jp)
  have e: "j * 131072 + off = p" and off: "off < 131072" by (simp_all add: jd od)
  have v: "view (er_inner s) = ?V" "inv (er_inner s)" and lv: "length ?V < 2 ^ 63" and lp: "length pt < 2 ^ 63"
    using b enc_body_bounds(1) [OF G, of key nonce pt] by (simp_all add: enc_base_def)
  have p63: "p < 2 ^ 63" using p lp by linarith
  note ip = inner_position_ok [OF p63, folded jd od]
  have "j * 131104 < length ?V"
    using drop_enc_body [OF G j, of key nonce] by (metis drop_all length_0_conv append_is_Nil_conv
      not_less not_numeral_le_zero)
  with seek_start [OF v(2)] v(1) obtain r where r: "sk (SeekStart (j * 131104)) (er_inner s) = (Inr (j * 131104), r)"
    "inv r" "view r = ?V" "pos r = j * 131104" by auto
  let ?s1 = "s\<lparr>er_inner := r, er_pos := j * 131072, er_next_chunk_cache := []\<rparr>"
  have "inv (er_inner ?s1)" "er_next_chunk_cache ?s1 = []" using r by simp_all
  then obtain r2 where r2: "fill_next_chunk_cache rd ?s1 = (Inr (), ?s1\<lparr>er_inner := r2,
      er_next_chunk_cache := take 131104 (drop (pos (er_inner ?s1)) (view (er_inner ?s1)))\<rparr>)" "inv r2"
    "view r2 = view (er_inner ?s1)"
    "pos r2 = pos (er_inner ?s1) + min 131104 (length (view (er_inner ?s1)) - pos (er_inner ?s1))"
    by (rule fill_next_chunk_cache_ok)
  let ?s2 = "?s1\<lparr>er_inner := r2, er_next_chunk_cache := take 131104 (drop (pos (er_inner ?s1)) (view (er_inner ?s1)))\<rparr>"
  have b2: "enc_base view inv G key nonce pt ?s2" using b r r2(2,3) by (simp add: enc_base_def)
  have "enc_before view pos j ?s2"
    using r r2(3,4) \<open>j * 131104 < length ?V\<close> by (auto simp: enc_before_def min_def)
  from load_ok [OF G b2 j pt _ this] obtain s3 where s3: "load_in_cache G rd ?s2 = (Inr (Some ()), s3)"
    "enc_base view inv G key nonce pt s3" "enc_cached view pos pt j 0 s3" by auto
  let ?s4 = "s3\<lparr>er_chunk_cache := (er_chunk_cache s3)\<lparr>cur_pos := 16 + off\<rparr>, er_pos := p\<rparr>"
  have "er_pos s3 + off = p" using s3(3) e by (simp add: enc_cached_def)
  moreover have "checked_mul j 131104 = Some (j * 131104)" "checked_mul j 131072 = Some (j * 131072)"
    "checked_sub (off + 16) 16 = Some off" "checked_add 16 off = Some (16 + off)" "checked_add (er_pos s3) off = Some p"
    using ip(4) off calculation p63 by (simp_all add: checked_defs)
  ultimately have "enc_seek_start G rd sk p s = (Inr p, ?s4)"
    using r(1) r2(1) s3(1) ip(1-3)
    by (simp add: enc_seek_start_def bindE_def lift_res_def on_field_def to_io_def map_errE_def)
  moreover have "enc_base view inv G key nonce pt ?s4" "enc_cached view pos pt j off ?s4"
    using s3(2,3) e by (simp_all add: enc_base_def enc_cached_def enc_before_def)
  moreover have "off \<le> length (chunks pt ! j)" using chunks_nth [OF j] e p off by simp
  ultimately show ?thesis using enc_rinvI [OF _ j] by (intro exI [of _ ?s4]) simp
qed

lemma enc_seek_start_ok:
  assumes G: "gcm_prims_ok G" and b: "enc_base view inv G key nonce pt s" and p: "p < length pt"
  shows "\<exists>s'. enc_seek_start G rd sk p s = (Inr p, s') \<and> enc_rinv view pos inv G key nonce pt s' \<and> er_pos s' = p"
  by (rule enc_seek_in_chunk [OF G b _ _ chunk_number_bound [OF p]]) (use p in auto)

text \<open>At the end of a plaintext of whole chunks nothing is loaded, but the reader can go back.\<close>

lemma enc_seek_boundary:
  assumes G: "gcm_prims_ok G" and b: "enc_base view inv G key nonce pt s" and pt: "pt \<noteq> []"
    and j: "length pt = length (chunks pt) * 131072"
  shows "\<exists>s'. enc_seek_start G rd sk (length pt) s = (Inr (length pt), s') \<and> enc_base view inv G key nonce pt s'"
proof -
  let ?V = "enc_body G key nonce (chunks pt)" and ?j = "length (chunks pt)"
  have v: "view (er_inner s) = ?V" "inv (er_inner s)" and lv: "length ?V < 2 ^ 63" and lp: "length pt < 2 ^ 63"
    and a: "er_truncated_mode s = None" "er_all_plaintext_size s = length pt"
    using b enc_body_bounds(1) [OF G, of key nonce pt] by (simp_all add: enc_base_def)
  have jo: "length pt div 131072 = ?j" "length pt mod 131072 = 0" using j by simp_all
  note ip = inner_position_ok [OF lp, unfolded jo]
  have "?j * 131104 < length ?V" using length_enc_body [OF G, of key nonce pt] j by simp
  with seek_start [OF v(2)] v(1) obtain r where r: "sk (SeekStart (?j * 131104)) (er_inner s) = (Inr (?j * 131104), r)"
    "inv r" "view r = ?V" by auto
  let ?s1 = "s\<lparr>er_inner := r, er_pos := ?j * 131072, er_next_chunk_cache := []\<rparr>"
  have "inv (er_inner ?s1)" "er_next_chunk_cache ?s1 = []" using r by simp_all
  then obtain r2 where r2: "fill_next_chunk_cache rd ?s1 = (Inr (), ?s1\<lparr>er_inner := r2,
      er_next_chunk_cache := take 131104 (drop (pos (er_inner ?s1)) (view (er_inner ?s1)))\<rparr>)" "inv r2"
    "view r2 = view (er_inner ?s1)"
    by (rule fill_next_chunk_cache_ok)
  let ?s2 = "?s1\<lparr>er_inner := r2, er_next_chunk_cache := take 131104 (drop (pos (er_inner ?s1)) (view (er_inner ?s1)))\<rparr>"
  let ?s3 = "swap_chunk_caches ?s2"
  have "inv (er_inner ?s3)" "er_next_chunk_cache ?s3 = []" using r2 by (simp_all add: swap_chunk_caches_def)
  then obtain r3 where r3: "fill_next_chunk_cache rd ?s3 = (Inr (), ?s3\<lparr>er_inner := r3,
      er_next_chunk_cache := take 131104 (drop (pos (er_inner ?s3)) (view (er_inner ?s3)))\<rparr>)" "inv r3"
    "view r3 = view (er_inner ?s3)"
    by (rule fill_next_chunk_cache_ok)
  let ?s4 = "?s3\<lparr>er_inner := r3, er_next_chunk_cache := take 131104 (drop (pos (er_inner ?s3)) (view (er_inner ?s3)))\<rparr>"
  have f4: "er_truncated_mode ?s4 = None" "er_all_plaintext_size ?s4 = length pt" "er_pos ?s4 = length pt"
    using a j by (simp_all add: swap_chunk_caches_def)
  have last: "Suc (last_data_chunk_number ?s4) = length (chunks pt)"
    by (rule last_data_chunk_number_eq) (rule f4(2))
  have "last_data_chunk_number ?s4 * 131072 \<le> Suc (last_data_chunk_number ?s4) * 131072" by (rule mult_le_mono1) simp
  also have "\<dots> = length pt" unfolding last by (rule j [symmetric])
  finally have le: "last_data_chunk_number ?s4 * 131072 \<le> length pt" .
  moreover have "last_data_chunk_number ?s4 * 131072 < 2 ^ 64" by (rule le_less_trans [OF le]) (use lp in simp)
  ultimately have "end_of_tag_in_cache ?s4 = Inr None"
    using f4 by (simp add: end_of_tag_in_cache_def is_at_least_in_last_data_chunk_def checked_mul_def Let_def)
  then have ld: "load_in_cache G rd ?s2 = (Inr None, ?s4)"
    using r3(1) by (simp add: load_in_cache_def bindE_def lift_io_def map_errE_def)
  let ?s5 = "?s4\<lparr>er_chunk_cache := (er_chunk_cache ?s4)\<lparr>cur_pos := 16\<rparr>, er_pos := length pt\<rparr>"
  have c: "checked_mul ?j 131104 = Some (?j * 131104)" "checked_mul ?j 131072 = Some (?j * 131072)"
    "checked_sub 16 16 = Some 0" "checked_add 16 0 = Some 16" "checked_add (length pt) 0 = Some (length pt)"
    using ip(4) lp j by (simp_all add: checked_defs)
  have "enc_seek_start G rd sk (length pt) s = (Inr (length pt), ?s5)"
    using r(1) r2(1) ld ip(1-3) f4(3) c
    by (simp add: enc_seek_start_def bindE_def lift_res_def on_field_def to_io_def map_errE_def)
  moreover have "enc_base view inv G key nonce pt ?s5"
    using b r(3) r2(3) r3(2,3) by (simp add: enc_base_def swap_chunk_caches_def)
  ultimately show ?thesis by blast
qed

end

context full_seekable
begin

lemma enc_seek_end_ok:
  assumes G: "gcm_prims_ok G" and b: "enc_base view inv G key nonce pt s" and d: "0 < d" "d \<le> length pt"
  shows "\<exists>s'. enc_seek G rd sk (SeekEnd (- int d)) s = (Inr (length pt - d), s') \<and>
    enc_rinv view pos inv G key nonce pt s' \<and> er_pos s' = length pt - d"
proof -
  have lp: "length pt < 2 ^ 63" and a: "er_all_plaintext_size s = length pt"
    using b enc_body_bounds(1) [OF G, of key nonce pt] by (simp_all add: enc_base_def)
  have "checked_add_i64 (int (length pt)) (- int d) = Some (int (length pt - d))"
    using d lp by (simp add: checked_add_i64_def of_nat_diff)
  then have "enc_seek G rd sk (SeekEnd (- int d)) s = enc_seek_start G rd sk (length pt - d) s"
    using a lp by (simp add: enc_seek_def i64_try_from_def u64_try_from_i64_def bindE_def lift_res_def)
  with enc_seek_start_ok [OF G b, of "length pt - d"] d show ?thesis by simp
qed

lemma enc_seek_current_ok:
  assumes G: "gcm_prims_ok G" and i: "enc_rinv view pos inv G key nonce pt s"
    and p: "er_pos s \<le> length pt" "0 \<le> int (er_pos s) + v" "int (er_pos s) + v < int (length pt)"
  shows "\<exists>s'. enc_seek G rd sk (SeekCurrent v) s = (Inr (nat (int (er_pos s) + v)), s') \<and>
    enc_rinv view pos inv G key nonce pt s' \<and> er_pos s' = nat (int (er_pos s) + v)"
proof (cases "v = 0")
  case True
  with i show ?thesis by (simp add: enc_seek_def)
next
  case False
  have b: "enc_base view inv G key nonce pt s" using i by (simp add: enc_rinv_def)
  have lp: "length pt < 2 ^ 63" using b enc_body_bounds(1) [OF G, of key nonce pt] by (simp add: enc_base_def)
  have "i64_try_from (er_pos s) = Some (int (er_pos s))" "checked_add_i64 (int (er_pos s)) v = Some (int (er_pos s) + v)"
    using p lp by (simp_all add: i64_try_from_def checked_add_i64_def)
  then have "enc_seek G rd sk (SeekCurrent v) s = enc_seek_start G rd sk (nat (int (er_pos s) + v)) s"
    using False p by (simp add: enc_seek_def u64_try_from_i64_def bindE_def lift_res_def)
  with enc_seek_start_ok [OF G b, of "nat (int (er_pos s) + v)"] p show ?thesis by simp
qed

lemma enc_seekable:
  assumes G: "gcm_prims_ok G"
  shows "seekable (enc_read G rd) (\<lambda>_. pt) er_pos (enc_rinv view pos inv G key nonce pt) (enc_seek G rd sk)"
proof
  fix s :: "'r enc_reader" and n assume "enc_rinv view pos inv G key nonce pt s" "er_pos s < length pt"
  from enc_read_ok [OF G this] show "\<exists>k s'. enc_read G rd n s = (Inr (take k (drop (er_pos s) pt)), s') \<and> k \<le> n \<and>
      k \<le> length pt - er_pos s \<and> (0 < n \<longrightarrow> 0 < k) \<and> enc_rinv view pos inv G key nonce pt s' \<and> pt = pt \<and>
      er_pos s' = er_pos s + k" by simp
next
  fix s :: "'r enc_reader" and p assume a: "enc_rinv view pos inv G key nonce pt s" "p < length pt"
  then have "enc_base view inv G key nonce pt s" by (simp add: enc_rinv_def)
  from enc_seek_start_ok [OF G this a(2)] show "\<exists>s'. enc_seek G rd sk (SeekStart p) s = (Inr p, s') \<and>
      enc_rinv view pos inv G key nonce pt s' \<and> pt = pt \<and> er_pos s' = p" by (simp add: enc_seek_def)
next
  fix s :: "'r enc_reader" and d assume a: "enc_rinv view pos inv G key nonce pt s" "0 < d" "d \<le> length pt"
  then have "enc_base view inv G key nonce pt s" by (simp add: enc_rinv_def)
  from enc_seek_end_ok [OF G this a(2,3)] show "\<exists>s'. enc_seek G rd sk (SeekEnd (- int d)) s = (Inr (length pt - d), s') \<and>
      enc_rinv view pos inv G key nonce pt s' \<and> pt = pt \<and> er_pos s' = length pt - d" by simp
next
  fix s :: "'r enc_reader" and i
  assume "enc_rinv view pos inv G key nonce pt s" "er_pos s \<le> length pt" "0 \<le> int (er_pos s) + i"
    "int (er_pos s) + i < int (length pt)"
  from enc_seek_current_ok [OF G this] show "\<exists>s'. enc_seek G rd sk (SeekCurrent i) s =
      (Inr (nat (int (er_pos s) + i)), s') \<and> enc_rinv view pos inv G key nonce pt s' \<and> pt = pt \<and>
      er_pos s' = nat (int (er_pos s) + i)" by simp
qed

lemma set_all_plaintext_size_ok:
  assumes G: "gcm_prims_ok G" and i: "inv (er_inner s)" "view (er_inner s) = enc_body G key nonce (chunks pt)"
    and l: "length (enc_body G key nonce (chunks pt)) < 2 ^ 63"
  obtains r where "set_all_plaintext_size sk s = (Inr (), s\<lparr>er_inner := r, er_all_plaintext_size := length pt\<rparr>)"
    "inv r" "view r = enc_body G key nonce (chunks pt)"
proof -
  from seek_to_end [OF i(1)] i(2) obtain r where
    r: "sk (SeekEnd 0) (er_inner s) = (Inr (length (enc_body G key nonce (chunks pt))), r)" "inv r"
    "view r = enc_body G key nonce (chunks pt)" by auto
  define m where "m = (length pt - 1) div 131072"
  have len: "length (enc_body G key nonce (chunks pt)) - 58 = 131104 * m + (length pt - 131072 * m + 16)"
    and b: "length pt - 131072 * m + 16 < 131104" and m: "131072 * m \<le> length pt"
  proof -
    have "131072 * m \<le> length pt - 1" by (simp add: m_def)
    moreover have "length pt - 1 < 131072 * m + 131072"
      using mod_less_divisor [of 131072 "length pt - 1"] mult_div_mod_eq [of 131072 "length pt - 1"]
      unfolding m_def by linarith
    ultimately show "131072 * m \<le> length pt" "length pt - 131072 * m + 16 < 131104" by linarith+
    then show "length (enc_body G key nonce (chunks pt)) - 58 = 131104 * m + (length pt - 131072 * m + 16)"
      using length_enc_body [OF G, of key nonce pt] length_chunks [of pt, folded m_def] by simp
  qed
  have dm: "(length (enc_body G key nonce (chunks pt)) - 58) div 131104 = m"
    "(length (enc_body G key nonce (chunks pt)) - 58) mod 131104 = length pt - 131072 * m + 16"
    unfolding len using b by simp_all
  have lp: "length pt < 2 ^ 63" by (rule enc_body_bounds(1) [OF G l])
  have "checked_mul m 131072 = Some (m * 131072)" using m lp by (simp add: checked_mul_def)
  moreover have "checked_add (m * 131072) (length pt - 131072 * m + 16) = Some (length pt + 16)"
    using m lp by (simp add: checked_add_def)
  moreover have "checked_add 8 34 = Some 42" "checked_add 42 16 = Some 58" "checked_sub (length pt + 16) 16 = Some (length pt)"
    by (simp_all add: checked_defs)
  ultimately have "set_all_plaintext_size sk s = (Inr (), s\<lparr>er_inner := r, er_all_plaintext_size := length pt\<rparr>)"
    using r(1) dm by (simp add: set_all_plaintext_size_def bindE_def lift_io_def map_errE_def on_field_def lift_res_def Let_def)
  with r(2,3) show thesis by (intro that)
qed

lemma check_last_block_ok:
  assumes G: "gcm_prims_ok G" and b: "enc_base view inv G key nonce pt s"
  obtains r where "check_last_block G rd sk s = (Inr (), s\<lparr>er_inner := r\<rparr>)" "inv r"
    "view r = enc_body G key nonce (chunks pt)"
proof -
  let ?V = "enc_body G key nonce (chunks pt)" and ?N = "Suc (length (chunks pt))"
  let ?ct = "final_ct G key nonce ?N"
  let ?tag = "gcm_tag G key (compute_nonce nonce ?N) FINAL_ASSOCIATED_DATA ?ct"
  have i: "inv (er_inner s)" "view (er_inner s) = ?V" "length ?V < 2 ^ 63" and k: "er_key s = key" "er_nonce s = nonce"
    using b by (simp_all add: enc_base_def)
  have lv: "34 \<le> length ?V" using length_enc_body [OF G, of key nonce pt] by simp
  with seek_any_end [OF i(1), of 34] i(2) obtain r where r: "sk (SeekEnd (- 34)) (er_inner s) = (Inr (length ?V - 34), r)"
    "inv r" "view r = ?V" "pos r = length ?V - 34" by auto
  have tl: "length ?tag = 16" using G by (simp add: gcm_tag_def gcm_prims_ok_def)
  have rest: "rest r = ?ct @ ?tag @ END_OF_ENCRYPTED_INNER_LAYER_MAGIC"
    using r(3,4) tl by (simp add: rest_def enc_body_def enc_final_def)
  then have "length (rest r) < 2 ^ 63 - 1" using tl by simp
  from take_read_to_end_all [OF r(2) this] obtain r2 where r2: "read_to_end rd r =
      (Inr (?ct @ ?tag @ END_OF_ENCRYPTED_INNER_LAYER_MAGIC), r2)" "inv r2" "view r2 = view r"
    unfolding read_to_end_def rest by (rule yieldsE)
  have last: "Suc (last_data_chunk_number s) = length (chunks pt)"
    by (rule last_data_chunk_number_eq) (use b in \<open>simp add: enc_base_def\<close>)
  have n64: "length (chunks pt) < 2 ^ 58" by (rule enc_body_bounds(2) [OF G i(3)])
  have "checked_add (last_data_chunk_number s) 1 = Some (length (chunks pt))" "checked_add (length (chunks pt)) 1 = Some ?N"
    using last n64 by (simp_all add: checked_add_def)
  moreover have "length FINAL_ASSOCIATED_DATA < AES256_GCM_MAX_PLAINTEXT_LENGTH"
    by (simp add: AES256_GCM_MAX_PLAINTEXT_LENGTH_def)
  then obtain g where g: "aes_gcm_new G key (compute_nonce nonce ?N) FINAL_ASSOCIATED_DATA = Inr g"
    "gcm_state G key (compute_nonce nonce ?N) FINAL_ASSOCIATED_DATA [] g" by (rule aes_gcm_new_ok)
  have "length ?ct + length FINAL_ASSOCIATED_DATA < AES256_GCM_MAX_PLAINTEXT_LENGTH"
    by (simp add: AES256_GCM_MAX_PLAINTEXT_LENGTH_def)
  from aes_gcm_decrypt_ok [OF G g(2) this]
  have "open_final_block G key nonce ?N ?ct = Inr (FINAL_BLOCK_CONTENT, ?tag)"
    using g(1) by (simp add: open_final_block_def final_ct_def gcm_ct_twice)
  moreover have "checked_add 26 8 = Some 34" "i64_try_from 34 = Some 34" "checked_neg_i64 34 = Some (- 34)"
    by (simp_all add: checked_defs)
  ultimately have "check_last_block G rd sk s = (Inr (), s\<lparr>er_inner := r2\<rparr>)"
    using r(1) r2(1) k tl
    by (simp add: check_last_block_def bindE_def lift_io_def map_errE_def on_field_def lift_res_def ret_def)
  with r2(2,3) r(3) show thesis by (intro that [of r2]) simp_all
qed

end

context full_seekable
begin

lemma enc_rewind_ok:
  assumes G: "gcm_prims_ok G" and b: "enc_base view inv G key nonce pt s"
  shows "\<exists>s'. rewind (enc_seek G rd sk) s = (Inr (), s') \<and> enc_rinv view pos inv G key nonce pt s' \<and> er_pos s' = 0"
proof (cases "pt = []")
  case False
  then have "0 < length pt" by simp
  from enc_seek_start_ok [OF G b this] show ?thesis
    by (elim exE conjE) (rule exI, auto simp: rewind_def enc_seek_def bindE_def ret_def)
next
  case True
  let ?V = "enc_body G key nonce (chunks [])"
  have v: "inv (er_inner s)" "view (er_inner s) = ?V" and a: "er_truncated_mode s = None" "er_all_plaintext_size s = 0"
    using b True by (simp_all add: enc_base_def)
  have "0 < length (view (er_inner s))" using v(2) length_enc_body [OF G, of key nonce "[]"] by simp
  from seek_start [OF v(1) this] v(2) obtain r where r: "sk (SeekStart 0) (er_inner s) = (Inr 0, r)" "inv r" "view r = ?V"
    by auto
  let ?s1 = "s\<lparr>er_inner := r, er_pos := 0, er_next_chunk_cache := []\<rparr>"
  have "inv (er_inner ?s1)" "er_next_chunk_cache ?s1 = []" using r by simp_all
  then obtain r2 where r2: "fill_next_chunk_cache rd ?s1 = (Inr (), ?s1\<lparr>er_inner := r2,
      er_next_chunk_cache := take 131104 (drop (pos (er_inner ?s1)) (view (er_inner ?s1)))\<rparr>)" "inv r2"
    "view r2 = view (er_inner ?s1)"
    by (rule fill_next_chunk_cache_ok)
  let ?s2 = "?s1\<lparr>er_inner := r2, er_next_chunk_cache := take 131104 (drop (pos (er_inner ?s1)) (view (er_inner ?s1)))\<rparr>"
  let ?s3 = "swap_chunk_caches ?s2"
  have "inv (er_inner ?s3)" "er_next_chunk_cache ?s3 = []" using r2 by (simp_all add: swap_chunk_caches_def)
  then obtain r3 where r3: "fill_next_chunk_cache rd ?s3 = (Inr (), ?s3\<lparr>er_inner := r3,
      er_next_chunk_cache := take 131104 (drop (pos (er_inner ?s3)) (view (er_inner ?s3)))\<rparr>)" "inv r3"
    "view r3 = view (er_inner ?s3)"
    by (rule fill_next_chunk_cache_ok)
  let ?s4 = "?s3\<lparr>er_inner := r3, er_next_chunk_cache := take 131104 (drop (pos (er_inner ?s3)) (view (er_inner ?s3)))\<rparr>"
  have f4: "er_truncated_mode ?s4 = None" "er_all_plaintext_size ?s4 = 0" "er_pos ?s4 = 0"
    using a by (simp_all add: swap_chunk_caches_def)
  have "end_of_tag_in_cache ?s4 = Inr None"
    using f4 by (simp add: end_of_tag_in_cache_def is_at_least_in_last_data_chunk_def last_data_chunk_number_def
        checked_mul_def)
  then have ld: "load_in_cache G rd ?s2 = (Inr None, ?s4)"
    using r3(1) by (simp add: load_in_cache_def bindE_def lift_io_def map_errE_def)
  have "this_layer_position_to_inner_position 0 = Inr 16"
    by (simp add: this_layer_position_to_inner_position_def checked_defs)
  then have "rewind (enc_seek G rd sk) s =
      (Inr (), ?s4\<lparr>er_chunk_cache := (er_chunk_cache ?s4)\<lparr>cur_pos := 16\<rparr>, er_pos := 0\<rparr>)"
    using r(1) r2(1) ld f4(3)
    by (simp add: rewind_def enc_seek_def enc_seek_start_def bindE_def lift_res_def on_field_def to_io_def
        map_errE_def checked_defs ret_def)
  moreover have "enc_rinv view pos inv G key nonce pt (?s4\<lparr>er_chunk_cache := (er_chunk_cache ?s4)\<lparr>cur_pos := 16\<rparr>, er_pos := 0\<rparr>)"
    using b True r(3) r2(3) r3(2,3) by (simp add: enc_rinv_def enc_base_def swap_chunk_caches_def)
  ultimately show ?thesis by (intro exI conjI) (assumption, assumption, simp)
qed

lemma enc_reader_new_ok:
  assumes "inv r" and "view r = V"
  obtains s where "enc_reader_new G rd (Some (key, nonce)) mode r = Inr s" "inv (er_inner s)" "view (er_inner s) = V"
    "er_key s = key" "er_nonce s = nonce" "er_truncated_mode s = mode"
proof -
  from take_read_to_end_take [OF assms(1), of 131104] obtain r' where
    r: "take_read_to_end rd 131104 r = (Inr (take 131104 (rest r)), r')" "inv r'" "view r' = view r"
    by (rule yieldsE)
  have "length ([] :: bytes) < AES256_GCM_MAX_PLAINTEXT_LENGTH" by (simp add: AES256_GCM_MAX_PLAINTEXT_LENGTH_def)
  then obtain c where "aes_gcm_new G key (compute_nonce nonce 1) [] = Inr c" by (rule aes_gcm_new_ok)
  with r assms(2) show thesis
    by (intro that) (auto simp: enc_reader_new_def ASSOCIATED_DATA_def)
qed

lemma enc_initialize_ok:
  assumes G: "gcm_prims_ok G" and i: "inv (er_inner s)" "view (er_inner s) = enc_body G key nonce (chunks pt)"
    and l: "length (enc_body G key nonce (chunks pt)) < 2 ^ 63"
    and k: "er_key s = key" "er_nonce s = nonce" "er_truncated_mode s = None"
  shows "\<exists>s'. enc_initialize G rd sk s = (Inr (), s') \<and> enc_rinv view pos inv G key nonce pt s' \<and> er_pos s' = 0"
proof -
  obtain r where r: "set_all_plaintext_size sk s = (Inr (), s\<lparr>er_inner := r, er_all_plaintext_size := length pt\<rparr>)"
    "inv r" "view r = enc_body G key nonce (chunks pt)"
    by (rule set_all_plaintext_size_ok [OF G i l])
  let ?s1 = "s\<lparr>er_inner := r, er_all_plaintext_size := length pt\<rparr>"
  have b1: "enc_base view inv G key nonce pt ?s1" using r(2,3) l k by (simp add: enc_base_def)
  obtain r2 where r2: "check_last_block G rd sk ?s1 = (Inr (), ?s1\<lparr>er_inner := r2\<rparr>)" "inv r2"
    "view r2 = enc_body G key nonce (chunks pt)"
    by (rule check_last_block_ok [OF G b1])
  have "enc_base view inv G key nonce pt (?s1\<lparr>er_inner := r2\<rparr>)" using b1 r2(2,3) by (simp add: enc_base_def)
  from enc_rewind_ok [OF G this] r(1) r2(1) show ?thesis
    by (auto simp: enc_initialize_def bindE_def lift_io_def map_errE_def)
qed

end

context full_seekable
begin

lemma enc_end_seekable:
  assumes G: "gcm_prims_ok G"
  shows "end_seekable (enc_read G rd) (\<lambda>_. pt) er_pos (enc_rinv view pos inv G key nonce pt) (enc_seek G rd sk)"
proof (rule end_seekable.intro)
  show "seekable (enc_read G rd) (\<lambda>_. pt) er_pos (enc_rinv view pos inv G key nonce pt) (enc_seek G rd sk)"
    by (rule enc_seekable [OF G])
  show "end_seekable_axioms (\<lambda>_. pt) er_pos (enc_rinv view pos inv G key nonce pt) (enc_seek G rd sk)"
  proof
    fix s :: "'r enc_reader"
    assume "enc_rinv view pos inv G key nonce pt s"
    then have b: "enc_base view inv G key nonce pt s" by (simp add: enc_rinv_def)
    have lp: "length pt < 2 ^ 63" and a: "er_all_plaintext_size s = length pt"
      using b enc_body_bounds(1) [OF G, of key nonce pt] by (simp_all add: enc_base_def)
    then have e: "enc_seek G rd sk (SeekEnd 0) s = enc_seek_start G rd sk (length pt) s"
      by (simp add: enc_seek_def i64_try_from_def checked_add_i64_def u64_try_from_i64_def bindE_def lift_res_def)
    have "\<exists>s'. enc_seek_start G rd sk (length pt) s = (Inr (length pt), s') \<and> enc_base view inv G key nonce pt s'"
    proof (cases "pt = []")
      case True
      from enc_rewind_ok [OF G b] obtain s' where "rewind (enc_seek G rd sk) s = (Inr (), s')"
        "enc_rinv view pos inv G key nonce pt s'" by blast
      moreover from this(1) obtain q where q: "enc_seek_start G rd sk 0 s = (Inr q, s')"
        by (auto simp: rewind_def enc_seek_def ret_def elim!: bindE_InrE)
      moreover have "q = 0"
        using q by (auto simp: enc_seek_start_def elim!: bindE_InrE)
      ultimately show ?thesis using True by (auto simp: enc_rinv_def)
    next
      case False
      show ?thesis
      proof (cases "length pt div 131072 < length (chunks pt)")
        case True
        from enc_seek_in_chunk [OF G b order_refl False True] show ?thesis by (auto simp: enc_rinv_def)
      next
        case nj: False
        have "length pt div 131072 * 131072 \<le> length pt" by (rule div_times_less_eq_dividend)
        moreover have "length pt \<le> length (chunks pt) * 131072"
          unfolding length_chunks using mult_div_mod_eq [of 131072 "length pt - 1"] mod_less_divisor [of 131072 "length pt - 1"]
          by (simp only: mult_Suc)
        moreover have "length (chunks pt) * 131072 \<le> length pt div 131072 * 131072"
          using nj by (intro mult_le_mono1) simp
        ultimately have "length pt = length (chunks pt) * 131072" by linarith
        from enc_seek_boundary [OF G b False this] show ?thesis .
      qed
    qed
    then obtain s' where s': "enc_seek_start G rd sk (length pt) s = (Inr (length pt), s')"
      "enc_base view inv G key nonce pt s'" by blast
    have "\<exists>s''. enc_seek G rd sk (SeekStart p) s' = (Inr p, s'') \<and> enc_rinv view pos inv G key nonce pt s'' \<and>
        pt = pt \<and> er_pos s'' = p" if "p < length pt" for p
      using enc_seek_start_ok [OF G s'(2) that] by (simp add: enc_seek_def)
    with s'(1) e show "\<exists>s'. enc_seek G rd sk (SeekEnd 0) s = (Inr (length pt), s') \<and>
        (\<forall>p < length pt. \<exists>s''. enc_seek G rd sk (SeekStart p) s' = (Inr p, s'') \<and>
           enc_rinv view pos inv G key nonce pt s'' \<and> pt = pt \<and> er_pos s'' = p)" by auto
  qed
qed

end

interpretation enc_cur: end_seekable "enc_read demo_prims cursor_read" "\<lambda>_. pt" er_pos
  "enc_rinv cur_data cur_pos cursor_inv demo_prims key nonce pt" "enc_seek demo_prims cursor_read cursor_seek"
  by (rule cur.enc_end_seekable [OF demo_prims_ok])

interpretation enc_cur_strip: eof_seekable "strip_read (enc_read demo_prims cursor_read)" "strip_view (\<lambda>_. pt)" sr_pos
  "strip_inv (\<lambda>_. pt) er_pos (enc_rinv cur_data cur_pos cursor_inv demo_prims key nonce pt)"
  "strip_seek (enc_seek demo_prims cursor_read cursor_seek)"
  by (rule enc_cur.strip_eof_seekable)

section \<open>Properties\<close>

text \<open>C24: the encryption layer reads what it wrote. Over any seekable reader whose bytes are the encrypted
  inner layer of a plaintext, of any length, the reader is created and initialized without error (the
  final block is checked), and from then on it is a seekable reader on the plaintext.\<close>

theorem enc_reader_view:
  assumes "full_seekable rd view pos rinv sk" and "gcm_prims_ok G" and "rinv r"
    and "view r = enc_body G key nonce (chunks pt)" and "length (view r) < 2 ^ 63"
  shows "\<exists>s0 s. enc_reader_new G rd (Some (key, nonce)) None r = Inr s0 \<and>
    enc_initialize G rd sk s0 = (Inr (), s) \<and> er_pos s = 0 \<and>
    enc_rinv view pos rinv G key nonce pt s \<and>
    seekable (enc_read G rd) (\<lambda>_. pt) er_pos (enc_rinv view pos rinv G key nonce pt) (enc_seek G rd sk)"
proof -
  obtain s0 where s0: "enc_reader_new G rd (Some (key, nonce)) None r = Inr s0" "rinv (er_inner s0)"
    "view (er_inner s0) = enc_body G key nonce (chunks pt)" "er_key s0 = key" "er_nonce s0 = nonce"
    "er_truncated_mode s0 = None"
    by (rule full_seekable.enc_reader_new_ok [OF assms(1,3,4)])
  from full_seekable.enc_initialize_ok [OF assms(1,2) s0(2,3) _ s0(4-6)] assms(4,5) obtain s where
    s: "enc_initialize G rd sk s0 = (Inr (), s)" "enc_rinv view pos rinv G key nonce pt s" "er_pos s = 0" by auto
  with s0(1) full_seekable.enc_seekable [OF assms(1,2)] show ?thesis by blast
qed

theorem enc_reader_view_witness:
  "\<exists>s0 s bs s'. enc_reader_new demo_prims cursor_read (Some ([5], replicate 12 7)) None
      (cursor_new (enc_body demo_prims [5] (replicate 12 7) (chunks [1, 2, 3]))) = Inr s0 \<and>
    enc_initialize demo_prims cursor_read cursor_seek s0 = (Inr (), s) \<and>
    read_exact (enc_read demo_prims cursor_read) 3 s = (Inr [1, 2, 3], s')"
proof -
  let ?V = "enc_body demo_prims [5] (replicate 12 7) (chunks [1, 2, 3])"
  let ?inv = "enc_rinv cur_data cur_pos cursor_inv demo_prims [5] (replicate 12 7) [1, 2, 3]"
  have l: "length ?V = 77"
    using length_enc_body [OF demo_prims_ok, of "[5]" "replicate 12 7" "[1, 2, 3]"] by (simp add: chunks_short)
  have i: "cursor_inv (cursor_new ?V)" "cur_data (cursor_new ?V) = ?V" "length (cur_data (cursor_new ?V)) < 2 ^ 63"
    using l by (simp_all add: cursor_inv_def cursor_new_def)
  from enc_reader_view [OF cur.full_seekable_axioms demo_prims_ok i] obtain s0 s where
    s: "enc_reader_new demo_prims cursor_read (Some ([5], replicate 12 7)) None (cursor_new ?V) = Inr s0"
    "enc_initialize demo_prims cursor_read cursor_seek s0 = (Inr (), s)" "er_pos s = 0" "?inv s"
    "seekable (enc_read demo_prims cursor_read) (\<lambda>_. [1, 2, 3]) er_pos ?inv (enc_seek demo_prims cursor_read cursor_seek)"
    by blast
  from s(5) have so: "source (enc_read demo_prims cursor_read) (\<lambda>_. [1, 2, 3]) er_pos ?inv"
    by (simp add: seekable_def start_seekable_def)
  have r: "source.rest (\<lambda>_. [1, 2, 3]) er_pos s = [1, 2, 3]" using s(3) by (simp add: source.rest_def [OF so])
  from source.read_exact_yields [OF so s(4), of 3] obtain s' where
    "read_exact (enc_read demo_prims cursor_read) 3 s = (Inr [1, 2, 3], s')"
    unfolding r by (auto simp: source.yields_def [OF so])
  with s(1,2) show ?thesis by blast
qed

lemma aes_gcm_decrypt_Inr:
  assumes G: "gcm_prims_ok G" and g: "gcm_state G key nonce [] [] c" and d: "aes_gcm_decrypt G ct c = Inr (out, tag)"
  shows "out = gcm_ct G key nonce ct \<and> tag = gcm_tag G key nonce [] ct"
proof -
  have "ag_ad_bits_len c = 0" using g by (auto simp: gcm_state_def)
  with d have "length ct + length ([] :: bytes) < AES256_GCM_MAX_PLAINTEXT_LENGTH"
    by (simp add: aes_gcm_decrypt_def saturating_add_def AES256_GCM_MAX_PLAINTEXT_LENGTH_def split: if_splits)
  from aes_gcm_decrypt_ok [OF G g this] d show ?thesis by simp
qed

lemma aes_gcm_new_Inr:
  assumes "aes_gcm_new G key nonce [] = Inr c"
  shows "gcm_state G key nonce [] [] c"
proof -
  have "length ([] :: bytes) < AES256_GCM_MAX_PLAINTEXT_LENGTH" by (simp add: AES256_GCM_MAX_PLAINTEXT_LENGTH_def)
  then obtain s where "aes_gcm_new G key nonce [] = Inr s" "gcm_state G key nonce [] [] s" by (rule aes_gcm_new_ok)
  with assms show ?thesis by simp
qed

lemma slice_get_Some: "slice_get lo hi xs = Some ys \<Longrightarrow> lo \<le> hi \<and> hi \<le> length xs \<and> ys = take (hi - lo) (drop lo xs)"
  by (auto simp: slice_get_def split: if_splits)

lemma slice_get_split:
  assumes "slice_get lo mid xs = Some ys" and "slice_get mid hi xs = Some zs"
  shows "xs = take lo xs @ ys @ zs @ drop hi xs"
proof -
  have b: "lo \<le> mid" "mid \<le> hi" "hi \<le> length xs" "ys = take (mid - lo) (drop lo xs)" "zs = take (hi - mid) (drop mid xs)"
    using slice_get_Some [OF assms(1)] slice_get_Some [OF assms(2)] by auto
  have "take lo xs @ ys = take mid xs" "take mid xs @ zs = take hi xs"
    using b take_add [of lo "mid - lo" xs] take_add [of mid "hi - mid" xs] by simp_all
  then show ?thesis by (metis append.assoc append_take_drop_id)
qed

text \<open>What the cache holds after its decryption, and what it was before.\<close>

lemma decrypt_cache_steps:
  assumes "decrypt_cache G e s = (r, s')" and "r \<in> {Inr (Some u), Inl AuthenticatedDecryptionWrongTag}"
    and "er_truncated_mode s \<noteq> Some DataEvenUnauthenticated \<or> r = Inl AuthenticatedDecryptionWrongTag"
    and G: "gcm_prims_ok G"
  defines "n \<equiv> compute_nonce (er_nonce s) (Suc (current_data_chunk_number s))"
    and "cache \<equiv> cur_data (er_chunk_cache s)"
  shows "\<exists>ct tag. slice_get 16 (e - 16) cache = Some ct \<and> slice_get (e - 16) e cache = Some tag \<and>
    (r = Inr (Some u) \<longrightarrow> tag = gcm_tag G (er_key s) n [] ct \<and>
       s' = s\<lparr>er_chunk_cache := \<lparr>cur_data = take 16 cache @ gcm_ct G (er_key s) n ct, cur_pos = 16\<rparr>\<rparr>) \<and>
    (r = Inl AuthenticatedDecryptionWrongTag \<longrightarrow> tag \<noteq> gcm_tag G (er_key s) n [] ct \<and> s' = s\<lparr>er_chunk_cache := (er_chunk_cache s)
       \<lparr>cur_data := take 16 cache @ gcm_ct G (er_key s) n ct @ drop (e - 16) cache\<rparr>\<rparr>)"
proof -
  note d = assms(1) [unfolded decrypt_cache_def Let_def]
  from d assms(2) have e: "e - 16 \<noteq> 0" by (auto split: if_splits)
  with d assms(2) obtain q where q: "checked_add (current_data_chunk_number s) 1 = Some q"
    by (auto split: option.splits)
  then have n: "compute_nonce (er_nonce s) q = n" by (auto simp: checked_add_def n_def split: if_splits)
  have ne: "aes_gcm_new G (er_key s) n [] \<noteq> Inl AuthenticatedDecryptionWrongTag"
    by (auto simp: aes_gcm_new_def split: option.splits)
  with d e q assms(2) obtain c where c: "aes_gcm_new G (er_key s) n [] = Inr c"
    by (auto simp: n ASSOCIATED_DATA_def split: sum.splits)
  from d e q c assms(2) obtain ct where ct: "slice_get 16 (e - 16) cache = Some ct"
    by (auto simp: n ASSOCIATED_DATA_def cache_def split: option.splits)
  have m: "er_truncated_mode s \<noteq> Some DataEvenUnauthenticated"
  proof
    assume "er_truncated_mode s = Some DataEvenUnauthenticated"
    with d e q c ct assms(3) show False by (simp add: n ASSOCIATED_DATA_def flip: cache_def)
  qed
  have "aes_gcm_decrypt G ct c \<noteq> Inl AuthenticatedDecryptionWrongTag"
    by (auto simp: aes_gcm_decrypt_def split: option.splits prod.splits)
  with d e q c ct m assms(2) obtain out t where o: "aes_gcm_decrypt G ct c = Inr (out, t)"
    by (cases "aes_gcm_decrypt G ct c") (auto simp: n ASSOCIATED_DATA_def simp flip: cache_def)
  from aes_gcm_decrypt_Inr [OF G aes_gcm_new_Inr [OF c] o]
  have o2: "out = gcm_ct G (er_key s) n ct" "t = gcm_tag G (er_key s) n [] ct" by simp_all
  from d e q c ct m o assms(2) obtain tag where t: "slice_get (e - 16) e cache = Some tag"
    by (cases "slice_get (e - 16) e cache") (auto simp: n ASSOCIATED_DATA_def simp flip: cache_def)
  have fin: "(if t = tag then (Inr (Some ()), s\<lparr>er_chunk_cache := \<lparr>cur_data = take 16 cache @ out, cur_pos = 16\<rparr>\<rparr>)
      else (Inl AuthenticatedDecryptionWrongTag, s\<lparr>er_chunk_cache := (er_chunk_cache s)
       \<lparr>cur_data := take 16 cache @ out @ drop (e - 16) cache\<rparr>\<rparr>)) = (r, s')"
    using d e q c ct m o t by (auto simp: n ASSOCIATED_DATA_def cache_def split: if_splits)
  show ?thesis
    by (rule exI [of _ ct], rule exI [of _ tag]) (use fin o2 ct t in \<open>auto split: if_splits\<close>)
qed

lemma end_of_tag_error: "end_of_tag_in_cache s \<noteq> Inl AuthenticatedDecryptionWrongTag"
proof -
  have "is_at_least_in_last_data_chunk s \<noteq> Inl AuthenticatedDecryptionWrongTag"
    by (auto simp: is_at_least_in_last_data_chunk_def split: option.splits)
  moreover have "get_end_of_tag_pos s \<noteq> Inl AuthenticatedDecryptionWrongTag"
    by (auto simp: get_end_of_tag_pos_def Let_def ok_or_def split: option.splits)
  ultimately show ?thesis
    by (auto simp: end_of_tag_in_cache_def Let_def split: option.splits sum.splits bool.splits if_splits)
qed

lemma length_take_min: "length (take (min a m) xs) \<le> a"
  by simp

lemma load_in_cache_decrypt:
  assumes "load_in_cache G rd s = (r, s')" and "r = Inr (Some u) \<or> r = Inl AuthenticatedDecryptionWrongTag"
  obtains e s1 where "decrypt_cache G e s1 = (r, s')" "er_key s1 = er_key s" "er_nonce s1 = er_nonce s"
    "er_pos s1 = er_pos s" "er_truncated_mode s1 = er_truncated_mode s"
    "er_chunk_cache s1 = \<lparr>cur_data = er_next_chunk_cache s, cur_pos = 0\<rparr>"
proof -
  obtain f s1 where f: "fill_next_chunk_cache rd (swap_chunk_caches s) = (f, s1)" by force
  then have s1: "er_key s1 = er_key s" "er_nonce s1 = er_nonce s" "er_pos s1 = er_pos s"
    "er_truncated_mode s1 = er_truncated_mode s" "er_chunk_cache s1 = \<lparr>cur_data = er_next_chunk_cache s, cur_pos = 0\<rparr>"
    by (auto simp: fill_next_chunk_cache_def on_field_def swap_chunk_caches_def split: prod.splits)
  have f2: "\<exists>x. f = Inr x" using assms f by (cases f) (auto simp: load_in_cache_def bindE_def lift_io_def map_errE_def)
  from f f2 assms have "(case end_of_tag_in_cache s1 of Inl e \<Rightarrow> (Inl e, s1) | Inr None \<Rightarrow> (Inr None, s1)
       | Inr (Some e) \<Rightarrow> decrypt_cache G e s1) = (r, s')"
    by (auto simp: load_in_cache_def bindE_def lift_io_def map_errE_def)
  with end_of_tag_error [of s1] assms(2) obtain e where "decrypt_cache G e s1 = (r, s')"
    by (auto split: sum.splits option.splits)
  then show thesis using s1 by (rule that)
qed

text \<open>C25: a load that succeeds is authenticated. Whatever the bytes below (no seek contract, no format is
  assumed), when \<^verbatim>\<open>load_in_cache\<close> returns that it loaded a chunk, outside the mode for unauthenticated data, that
  chunk ends with the GCM tag of its ciphertext under the nonce of the chunk number of the current
  position, and what it left in the cache is the decryption of that ciphertext under this nonce. A chunk
  moved to another place is thus only accepted if it also carries the tag for that place. What a load that
  fails on the tag leaves in the cache is C34.\<close>

theorem load_authenticates:
  assumes "gcm_prims_ok G" and "er_truncated_mode s \<noteq> Some DataEvenUnauthenticated"
    and "load_in_cache G rd s = (Inr (Some u), s')"
  shows "\<exists>hd ct t. let n = compute_nonce (er_nonce s) (Suc (er_pos s div NORMAL_CHUNK_PT_SIZE)) in
    er_next_chunk_cache s = hd @ ct @ gcm_tag G (er_key s) n [] ct @ t \<and> length hd = 16 \<and>
    er_chunk_cache s' = \<lparr>cur_data = hd @ gcm_ct G (er_key s) n ct, cur_pos = CHUNK_HEAD_SIZE\<rparr> \<and>
    er_pos s' = er_pos s"
proof -
  from load_in_cache_decrypt [OF assms(3)] obtain e s1 where d: "decrypt_cache G e s1 = (Inr (Some u), s')"
    and s1: "er_key s1 = er_key s" "er_nonce s1 = er_nonce s" "er_pos s1 = er_pos s"
    "er_truncated_mode s1 = er_truncated_mode s" "er_chunk_cache s1 = \<lparr>cur_data = er_next_chunk_cache s, cur_pos = 0\<rparr>"
    by blast
  let ?n = "compute_nonce (er_nonce s) (Suc (er_pos s div 131072))"
  from decrypt_cache_steps [OF d, of u] assms(1,2) s1 have "\<exists>ct tag.
      slice_get 16 (e - 16) (er_next_chunk_cache s) = Some ct \<and> slice_get (e - 16) e (er_next_chunk_cache s) = Some tag \<and>
      tag = gcm_tag G (er_key s) ?n [] ct \<and>
      s' = s1\<lparr>er_chunk_cache := \<lparr>cur_data = take 16 (er_next_chunk_cache s) @ gcm_ct G (er_key s) ?n ct, cur_pos = 16\<rparr>\<rparr>"
    by (simp add: current_data_chunk_number_def)
  then obtain ct tag where
    c: "slice_get 16 (e - 16) (er_next_chunk_cache s) = Some ct" "slice_get (e - 16) e (er_next_chunk_cache s) = Some tag"
    "tag = gcm_tag G (er_key s) ?n [] ct"
    "s' = s1\<lparr>er_chunk_cache := \<lparr>cur_data = take 16 (er_next_chunk_cache s) @ gcm_ct G (er_key s) ?n ct, cur_pos = 16\<rparr>\<rparr>"
    by blast
  show ?thesis
    using slice_get_split [OF c(1,2)] slice_get_Some [OF c(1)] c(3,4) s1(3)
    by (intro exI [of _ "take 16 (er_next_chunk_cache s)"] exI [of _ ct] exI [of _ "drop e (er_next_chunk_cache s)"])
      (simp add: Let_def)
qed

text \<open>Reading a cache whose position was reset, whatever is in it.\<close>

lemma read_raw_cache:
  assumes "cur_pos (er_chunk_cache s) = 0" and "er_pos s < 2 ^ 63"
  shows "\<exists>s'. enc_read G rd m s = (Inr (take (min 131088 m) (cur_data (er_chunk_cache s))), s')"
proof -
  have l: "length (take (min 131088 m) (cur_data (er_chunk_cache s))) \<le> 131088" by (rule length_take_min)
  have "er_pos s + length (take (min 131088 m) (cur_data (er_chunk_cache s))) < 2 ^ 64"
    by (rule less_trans [OF add_less_le_mono [OF assms(2) l]]) simp
  then show ?thesis
    using assms(1) by (simp add: enc_read_def map_errE_def read_internal.simps [of G rd m s] checked_sub_def
        cursor_read_def Let_def checked_add_def)
qed

text \<open>C34: a wrong tag does not discard the plaintext. When \<^verbatim>\<open>load_in_cache\<close> fails with
  \<^verbatim>\<open>AuthenticatedDecryptionWrongTag\<close>, the cache holds the decryption of the rejected ciphertext and the next
  call of \<^verbatim>\<open>read\<close> succeeds with it (after the 16 bytes of the chunk head).\<close>

theorem wrong_tag_leaves_plaintext:
  assumes "gcm_prims_ok G" and "er_pos s < 2 ^ 63"
    and "load_in_cache G rd s = (Inl AuthenticatedDecryptionWrongTag, s')"
  shows "\<exists>hd ct tag t. let n = compute_nonce (er_nonce s) (Suc (er_pos s div NORMAL_CHUNK_PT_SIZE)) in
    er_next_chunk_cache s = hd @ ct @ tag @ t \<and> length hd = 16 \<and> length tag = TAG_LENGTH \<and>
    tag \<noteq> gcm_tag G (er_key s) n [] ct \<and>
    (\<forall>m. \<exists>s''. enc_read G rd m s' =
       (Inr (take (min NORMAL_CHUNK_PT_AND_TAG_SIZE m) (hd @ gcm_ct G (er_key s) n ct @ tag @ t)), s''))"
proof -
  from load_in_cache_decrypt [OF assms(3)] obtain e s1 where
    d: "decrypt_cache G e s1 = (Inl AuthenticatedDecryptionWrongTag, s')"
    and s1: "er_key s1 = er_key s" "er_nonce s1 = er_nonce s" "er_pos s1 = er_pos s"
    "er_truncated_mode s1 = er_truncated_mode s" "er_chunk_cache s1 = \<lparr>cur_data = er_next_chunk_cache s, cur_pos = 0\<rparr>"
    by blast
  let ?n = "compute_nonce (er_nonce s) (Suc (er_pos s div 131072))" and ?x = "er_next_chunk_cache s"
  from decrypt_cache_steps [OF d] assms(1) s1 have "\<exists>ct tag. slice_get 16 (e - 16) ?x = Some ct \<and>
      slice_get (e - 16) e ?x = Some tag \<and> tag \<noteq> gcm_tag G (er_key s) ?n [] ct \<and>
      s' = s1\<lparr>er_chunk_cache := \<lparr>cur_data = take 16 ?x @ gcm_ct G (er_key s) ?n ct @ drop (e - 16) ?x, cur_pos = 0\<rparr>\<rparr>"
    by (simp add: current_data_chunk_number_def)
  then obtain ct tag where
    c: "slice_get 16 (e - 16) ?x = Some ct" "slice_get (e - 16) e ?x = Some tag"
    "tag \<noteq> gcm_tag G (er_key s) ?n [] ct" "s' = s1\<lparr>er_chunk_cache := \<lparr>cur_data = take 16 ?x @ gcm_ct G (er_key s) ?n ct @ drop (e - 16) ?x, cur_pos = 0\<rparr>\<rparr>"
    by blast
  let ?d = "take 16 ?x @ gcm_ct G (er_key s) ?n ct @ drop (e - 16) ?x"
  have x: "?x = take 16 ?x @ ct @ tag @ drop e ?x" by (rule slice_get_split [OF c(1,2)])
  have y: "drop (e - 16) ?x = tag @ drop e ?x"
    using slice_get_Some [OF c(2)] append_take_drop_id [of "e - (e - 16)" "drop (e - 16) ?x"] by simp
  have "cur_pos (er_chunk_cache s') = 0" "cur_data (er_chunk_cache s') = ?d" "er_pos s' < 2 ^ 63"
    using c(4) s1(3) assms(2) by simp_all
  with read_raw_cache [of s'] have "\<exists>s''. enc_read G rd m s' = (Inr (take (min 131088 m) ?d), s'')" for m
    by metis
  then have rd: "\<forall>m. \<exists>s''. enc_read G rd m s' =
      (Inr (take (min NORMAL_CHUNK_PT_AND_TAG_SIZE m) (take 16 ?x @ gcm_ct G (er_key s) ?n ct @ tag @ drop e ?x)), s'')"
    unfolding y by simp
  have "length (take 16 ?x) = 16" "length tag = TAG_LENGTH"
    using slice_get_Some [OF c(1)] slice_get_Some [OF c(2)] by auto
  with x c(3) rd show ?thesis
    unfolding Let_def enc_sizes(2) by blast
qed

lemma full_chunks_dvd:
  assumes "131072 dvd length pt" and "pt \<noteq> []"
  shows "full_chunks (chunks pt)"
proof -
  have "length (chunks pt ! j) = 131072" if j: "j < length (chunks pt)" for j
  proof (cases "Suc j < length (chunks pt)")
    case True
    then show ?thesis by (rule chunk_not_last)
  next
    case False
    with j have "length (chunks pt ! j) = length pt - j * 131072" by (intro chunk_last) simp
    moreover from this have "131072 dvd length (chunks pt ! j)" using assms(1) by simp
    moreover have "0 < length pt - j * 131072" using chunk_start_bound [OF assms(2) j] by simp
    moreover have "length (chunks pt ! j) \<le> 131072" using chunks_nth [OF j] by simp
    ultimately show ?thesis by (auto dest: dvd_imp_le)
  qed
  then show ?thesis by (auto simp: full_chunks_def in_set_conv_nth)
qed

text \<open>C37: after the end, the raw final block. When the plaintext is a non-empty multiple of 128 KiB, the read
  at the end returns 0 bytes, as it should; but it has moved the bytes of the final block, undecrypted, in
  the cache, and the next reads return them.\<close>

theorem eof_then_raw:
  assumes fs: "full_seekable rd view pos rinv sk" and G: "gcm_prims_ok G"
    and i: "enc_rinv view pos rinv G key nonce pt s" and pt: "pt \<noteq> []" "NORMAL_CHUNK_PT_SIZE dvd length pt"
    and e: "er_pos s = length pt"
  shows "\<exists>s1. enc_read G rd n s = (Inr [], s1) \<and>
    (\<forall>m. \<exists>s2. enc_read G rd m s1 = (Inr (take m (enc_final G key nonce (Suc (length (chunks pt))))), s2))"
proof -
  let ?V = "enc_body G key nonce (chunks pt)" and ?f = "enc_final G key nonce (Suc (length (chunks pt)))"
  have es: "eof_source rd view pos rinv" using fs by (simp add: full_seekable_def)
  obtain j off where h: "enc_base view rinv G key nonce pt s" "j < length (chunks pt)"
    "off \<le> length (chunks pt ! j)" "enc_cached view pos pt j off s"
    by (rule full_seekable.enc_rinvE [OF fs i pt(1)])
  have fc: "full_chunks (chunks pt)" using pt by (intro full_chunks_dvd) simp_all
  then have l: "length (chunks pt ! j) = 131072" using h(2) by (simp add: full_chunks_def)
  have lp: "length pt = 131072 * length (chunks pt)"
    using length_concat_full [OF fc] by (simp add: concat_chunks)
  have ps: "er_pos s = j * 131072 + off" "cur_pos (er_chunk_cache s) = 16 + off"
    "er_next_chunk_cache s = take 131104 (drop (Suc j * 131104) (view (er_inner s)))"
    using h(4) by (simp_all add: enc_cached_def enc_before_def)
  have off: "off = 131072" "Suc j = length (chunks pt)"
    using ps(1) e lp h(2,3) l by linarith+
  have v: "rinv (er_inner s)" "view (er_inner s) = ?V" "er_truncated_mode s = None" "er_all_plaintext_size s = length pt"
    "length pt < 2 ^ 63" using h(1) enc_body_bounds(1) [OF G, of key nonce pt] by (simp_all add: enc_base_def)
  have "drop (Suc j * 131104) ?V = ?f"
    using drop_enc_chunks [OF G fc, of key nonce 1 "[]" ?f] off(2) by (simp add: enc_body_def)
  then have nx: "er_next_chunk_cache s = ?f" using ps(3) v(2) G by simp
  let ?s0 = "swap_chunk_caches s"
  have "rinv (er_inner ?s0)" "er_next_chunk_cache ?s0 = []" using v by (simp_all add: swap_chunk_caches_def)
  then obtain r where f: "fill_next_chunk_cache rd ?s0 = (Inr (), ?s0\<lparr>er_inner := r,
      er_next_chunk_cache := take 131104 (drop (pos (er_inner ?s0)) (view (er_inner ?s0)))\<rparr>)"
    by (rule eof_source.fill_next_chunk_cache_ok [OF es])
  let ?s1 = "?s0\<lparr>er_inner := r, er_next_chunk_cache := take 131104 (drop (pos (er_inner ?s0)) (view (er_inner ?s0)))\<rparr>"
  have s1: "er_truncated_mode ?s1 = None" "er_all_plaintext_size ?s1 = length pt" "er_pos ?s1 = length pt"
    "er_chunk_cache ?s1 = \<lparr>cur_data = ?f, cur_pos = 0\<rparr>"
    using v(3,4) e nx by (simp_all add: swap_chunk_caches_def)
  have last: "Suc (last_data_chunk_number ?s1) = length (chunks pt)" by (rule last_data_chunk_number_eq [OF s1(2)])
  then have lb: "last_data_chunk_number ?s1 * 131072 \<le> length pt" using lp by linarith
  also have "\<dots> < 2 ^ 64" using v(5) by simp
  finally have "is_at_least_in_last_data_chunk ?s1 = Inr True"
    using lb s1(3) by (simp add: is_at_least_in_last_data_chunk_def checked_mul_def)
  then have "end_of_tag_in_cache ?s1 = Inr None" using s1(1-3) by (simp add: end_of_tag_in_cache_def)
  then have "load_in_cache G rd s = (Inr None, ?s1)"
    using f by (simp add: load_in_cache_def bindE_def lift_io_def map_errE_def)
  then have "enc_read G rd n s = (Inr [], ?s1)"
    using ps(2) off(1) by (simp add: enc_read_def map_errE_def read_internal.simps [of G rd n s] checked_sub_def)
  moreover have "\<exists>s2. enc_read G rd m ?s1 = (Inr (take m ?f), s2)" for m
  proof -
    have "take (min 131088 m) ?f = take m ?f" using G by (cases "m \<le> 131088") simp_all
    moreover have "cur_pos (er_chunk_cache ?s1) = 0" "er_pos ?s1 < 2 ^ 63" "cur_data (er_chunk_cache ?s1) = ?f"
      using s1(3,4) v(5) by simp_all
    ultimately show ?thesis using read_raw_cache [of ?s1 G rd m] by metis
  qed
  ultimately show ?thesis by blast
qed

theorem eof_then_raw_witness:
  "\<exists>pt s s1 s2. length pt = 131072 \<and>
    enc_rinv cur_data cur_pos cursor_inv demo_prims [5] (replicate 12 7) pt s \<and>
    enc_read demo_prims cursor_read 10 s = (Inr [], s1) \<and>
    enc_read demo_prims cursor_read 8 s1 = (Inr FINAL_BLOCK_MAGIC, s2)"
proof -
  obtain pt :: bytes where pt: "length pt = 131072" using Ex_list_of_length by blast
  let ?V = "enc_body demo_prims [5] (replicate 12 7) (chunks pt)"
  let ?inv = "enc_rinv cur_data cur_pos cursor_inv demo_prims [5] (replicate 12 7) pt"
  have l: "length ?V = 131146"
    using length_enc_body [OF demo_prims_ok, of "[5]" "replicate 12 7" pt] pt by (simp add: chunks_short)
  have i: "cursor_inv (cursor_new ?V)" "cur_data (cursor_new ?V) = ?V" "length (cur_data (cursor_new ?V)) < 2 ^ 63"
    using l by (simp_all add: cursor_inv_def cursor_new_def)
  from enc_reader_view [OF cur.full_seekable_axioms demo_prims_ok i] obtain s0 where
    s0: "er_pos s0 = 0" "?inv s0" by blast
  have so: "source (enc_read demo_prims cursor_read) (\<lambda>_. pt) er_pos ?inv"
    using cur.enc_seekable [OF demo_prims_ok] by (simp add: seekable_def start_seekable_def)
  have "length (source.rest (\<lambda>_. pt) er_pos s0) = 131072" using s0(1) pt by (simp add: source.rest_def [OF so])
  with source.read_exact_yields [OF so s0(2), of 131072] obtain s where s: "?inv s" "er_pos s = 131072"
    by (auto simp: source.yields_def [OF so] s0(1))
  have ne: "pt \<noteq> []" "NORMAL_CHUNK_PT_SIZE dvd length pt" "er_pos s = length pt" using pt s(2) by auto
  from eof_then_raw [OF cur.full_seekable_axioms demo_prims_ok s(1) ne, of 10] obtain s1 where
    r: "enc_read demo_prims cursor_read 10 s = (Inr [], s1)" and
    r2: "\<exists>s2. enc_read demo_prims cursor_read 8 s1 =
      (Inr (take 8 (enc_final demo_prims [5] (replicate 12 7) (Suc (length (chunks pt))))), s2)" by blast
  have "take 8 (enc_final demo_prims [5] (replicate 12 7) k) = FINAL_BLOCK_MAGIC" for k
    by (simp add: enc_final_def)
  with pt s(1) r r2 show ?thesis by metis
qed

theorem load_authenticates_witness:
  "\<exists>(s :: cursor enc_reader) s' hd ct t. load_in_cache demo_prims cursor_read s = (Inr (Some ()), s') \<and>
    er_next_chunk_cache s = hd @ ct @ gcm_tag demo_prims [5] (compute_nonce (replicate 12 7) 1) [] ct @ t \<and>
    cur_data (er_chunk_cache s') = hd @ gcm_ct demo_prims [5] (compute_nonce (replicate 12 7) 1) ct"
proof -
  let ?V = "enc_body demo_prims [5] (replicate 12 7) (chunks [1, 2, 3])"
  let ?s = "\<lparr>er_inner = \<lparr>cur_data = ?V, cur_pos = 77\<rparr>, er_key = [5], er_nonce = replicate 12 7,
    er_chunk_cache = cursor_new [], er_next_chunk_cache = ?V, er_all_plaintext_size = 3, er_pos = 0,
    er_final_block = None, er_truncated_mode = None\<rparr>"
  have l: "length ?V = 77"
    using length_enc_body [OF demo_prims_ok, of "[5]" "replicate 12 7" "[1, 2, 3]"] by (simp add: chunks_short)
  have b: "enc_base cur_data cursor_inv demo_prims [5] (replicate 12 7) [1, 2, 3] ?s"
    using l by (simp add: enc_base_def cursor_inv_def)
  have e: "enc_before cur_data cur_pos 0 ?s" using l by (simp add: enc_before_def)
  have "0 < length (chunks [1, 2, 3 :: u8])" "[1, 2, 3 :: u8] \<noteq> []" "er_pos ?s = 0 * 131072" by (simp_all add: chunks_short)
  from cur.load_ok [OF demo_prims_ok b this e] obtain s' where
    s': "load_in_cache demo_prims cursor_read ?s = (Inr (Some ()), s')" by blast
  have m: "er_truncated_mode ?s \<noteq> Some DataEvenUnauthenticated" by simp
  have z: "Suc (0 div NORMAL_CHUNK_PT_SIZE) = 1" by simp
  from load_authenticates [OF demo_prims_ok m s'] show ?thesis
    unfolding Let_def enc_reader.select_convs z
    by (elim exE conjE) (rule exI [of _ ?s], rule exI [of _ s'], use s' in \<open>auto simp del: append_assoc\<close>)
qed

theorem wrong_tag_leaves_plaintext_witness:
  "\<exists>(s :: cursor enc_reader) s' s''. er_next_chunk_cache s = replicate 16 0 @ [1] @ replicate 16 9 \<and>
    load_in_cache demo_prims cursor_read s = (Inl AuthenticatedDecryptionWrongTag, s') \<and>
    (\<exists>hd ct tag t. replicate 16 0 @ [1] @ replicate 16 9 = hd @ ct @ tag @ t \<and>
       tag \<noteq> gcm_tag demo_prims [5] (compute_nonce (replicate 12 7) 1) [] ct \<and>
       enc_read demo_prims cursor_read 33 s' =
         (Inr (take 33 (hd @ gcm_ct demo_prims [5] (compute_nonce (replicate 12 7) 1) ct @ tag @ t)), s''))"
proof -
  let ?x = "replicate 16 0 @ [1] @ replicate 16 9 :: bytes" and ?n = "compute_nonce (replicate 12 7) 1"
  let ?s = "\<lparr>er_inner = \<lparr>cur_data = [], cur_pos = 0\<rparr>, er_key = [5], er_nonce = replicate 12 7,
    er_chunk_cache = cursor_new [], er_next_chunk_cache = ?x, er_all_plaintext_size = 1, er_pos = 0,
    er_final_block = None, er_truncated_mode = None\<rparr>"
  let ?s1 = "swap_chunk_caches ?s"
  have f: "fill_next_chunk_cache cursor_read ?s1 = (Inr (), ?s1)"
    by (simp add: fill_next_chunk_cache_def on_field_def take_read_to_end_into.simps cursor_read_def swap_chunk_caches_def)
  have t: "end_of_tag_in_cache ?s1 = Inr (Some 33)"
    by (simp add: end_of_tag_in_cache_def swap_chunk_caches_def is_at_least_in_last_data_chunk_def
        last_data_chunk_number_def checked_defs)
  have "length ([] :: bytes) < AES256_GCM_MAX_PLAINTEXT_LENGTH" by (simp add: AES256_GCM_MAX_PLAINTEXT_LENGTH_def)
  then obtain c where c: "aes_gcm_new demo_prims [5] ?n [] = Inr c" "gcm_state demo_prims [5] ?n [] [] c"
    by (rule aes_gcm_new_ok)
  have "length [1 :: u8] + length ([] :: bytes) < AES256_GCM_MAX_PLAINTEXT_LENGTH"
    by (simp add: AES256_GCM_MAX_PLAINTEXT_LENGTH_def)
  note d = aes_gcm_decrypt_ok [OF demo_prims_ok c(2) this]
  have "padded_blocks [1 :: u8] = [1 # replicate 15 0]" by (simp add: padded_blocks.simps BLOCK_SIZE_def)
  then have "hd (gcm_tag demo_prims [5] ?n [] [1]) = 2"
    by (simp add: gcm_tag_def demo_prims_def xor_keystream_def upt_conv_Cons numeral_eq_Suc)
  then have tag: "gcm_tag demo_prims [5] ?n [] [1] \<noteq> replicate 16 9" by auto
  have sl: "slice_get 16 17 ?x = Some [1]" "slice_get 17 33 ?x = Some (replicate 16 9)"
    by (simp_all add: slice_get_def)
  have "fst (decrypt_cache demo_prims 33 ?s1) = Inl AuthenticatedDecryptionWrongTag"
    using c(1) d tag sl by (simp add: decrypt_cache_def swap_chunk_caches_def current_data_chunk_number_def
        checked_add_def ASSOCIATED_DATA_def Let_def)
  then obtain s' where "decrypt_cache demo_prims 33 ?s1 = (Inl AuthenticatedDecryptionWrongTag, s')"
    by (metis prod.collapse)
  then have l: "load_in_cache demo_prims cursor_read ?s = (Inl AuthenticatedDecryptionWrongTag, s')"
    using f t by (simp add: load_in_cache_def bindE_def lift_io_def map_errE_def)
  have z: "Suc (0 div NORMAL_CHUNK_PT_SIZE) = 1" "er_pos ?s < 2 ^ 63" by simp_all
  have w: "take (min NORMAL_CHUNK_PT_AND_TAG_SIZE 33) xs = take 33 xs" for xs :: bytes by simp
  from wrong_tag_leaves_plaintext [OF demo_prims_ok z(2) l] show ?thesis
    unfolding Let_def enc_reader.select_convs z(1)
  proof (elim exE conjE)
    fix hd ct tag t
    assume h: "?x = hd @ ct @ tag @ t" "tag \<noteq> gcm_tag demo_prims [5] ?n [] ct"
      and "\<forall>m. \<exists>s''. enc_read demo_prims cursor_read m s' =
        (Inr (take (min NORMAL_CHUNK_PT_AND_TAG_SIZE m) (hd @ gcm_ct demo_prims [5] ?n ct @ tag @ t)), s'')"
    then obtain s'' where "enc_read demo_prims cursor_read 33 s' = (Inr (take 33 (hd @ gcm_ct demo_prims [5] ?n ct @ tag @ t)), s'')"
      using w by metis
    with h l show ?thesis by (metis enc_reader.select_convs(5))
  qed
qed

end
