(* ===== verification/EncryptLayer.thy ===== *)
theory EncryptLayer
  imports Hybrid EncryptReader
begin

text \<open>
  The encryption layer as the archive stacks it (\<^verbatim>\<open>EncryptionLayerWriter\<close>, \<^verbatim>\<open>EncryptionLayerReader\<close> and
  \<^verbatim>\<open>EncryptionLayerTruncatedReader\<close> of \<^verbatim>\<open>mla/src/layers/encrypt.rs\<close>): the header with the wrapped keys, then
  the chunks, then the tail options. The main result is the round trip of the whole layer.
\<close>

section \<open>The layer\<close>

text \<open>\<^verbatim>\<open>EncryptionLayerWriter::new\<close>; the random generator is the one the configuration makes.\<close>

definition enc_write_header ::
  "(bytes \<Rightarrow> ('w, io_error, nat) op) \<Rightarrow> encryption_persistent_config \<Rightarrow> ('w, error, nat) op" where
  "enc_write_header wr pc =
     bindE (lift_io (write_all wr ENCRYPTION_LAYER_MAGIC)) (\<lambda>_.
     bindE (opts_dump wr) (\<lambda>_.
     bindE (u16_serialize wr 0) (\<lambda>_.
     bindE (persistent_config_serialize wr pc) (\<lambda>_.
     bindE (lift_io (write_all wr CHUNK_MAGIC)) (\<lambda>_.
       u64_serialize wr 1)))))"

definition enc_layer_writer_new ::
  "'g kem_prims \<Rightarrow> gcm_prims \<Rightarrow> (bytes \<Rightarrow> ('w, io_error, nat) op) \<Rightarrow> encryption_public_key list \<Rightarrow> 'g \<Rightarrow> 'w \<Rightarrow>
   error + 'w enc_writer" where
  "enc_layer_writer_new P G wr public_keys g inner =
     (case to_persistent P G public_keys g of
        (Inl e, _) \<Rightarrow> Inl e
      | (Inr (pc, (key, nonce)), _) \<Rightarrow>
          (case enc_write_header wr pc inner of
             (Inl e, _) \<Rightarrow> Inl e
           | (Inr _, inner') \<Rightarrow> enc_writer_new G inner' key nonce))"

text \<open>The position reader wraps a mutable reference, so it lives on the field of a pair.\<close>

definition read_encryption_header_after_magic ::
  "'g kem_prims \<Rightarrow> (nat \<Rightarrow> ('r, io_error, bytes) op) \<Rightarrow> ('r, error, encryption_persistent_config \<times> nat) op" where
  "read_encryption_header_after_magic P rd r =
     (case bindE (opts_from_reader (position_read rd)) (\<lambda>_.
           bindE (u16_deserialize (position_read rd)) (\<lambda>encryption_method_id.
           bindE (persistent_config_deserialize P (position_read rd)) (\<lambda>metadata s.
             case checked_add (pr_pos s) 8 of
               None \<Rightarrow> (Inl DeserializationError, s)
             | Some header_length \<Rightarrow> (Inr (metadata, header_length), s)))) (position_reader_new r) of
        (x, s) \<Rightarrow> (x, pr_inner s))"

definition enc_layer_reader_new_skip_magic ::
  "'g kem_prims \<Rightarrow> gcm_prims \<Rightarrow> (nat \<Rightarrow> ('r, io_error, bytes) op) \<Rightarrow> (seek_from \<Rightarrow> ('r, io_error, nat) op) \<Rightarrow>
   encryption_reader_config \<Rightarrow> encryption_persistent_config option \<Rightarrow> 'r \<Rightarrow> error + 'r strip_reader enc_reader" where
  "enc_layer_reader_new_skip_magic P G rd sk reader_config persistent_config inner =
     (case bindE (read_encryption_header_after_magic P rd) (\<lambda>(metadata, header_length).
           bindE (lift_io (sk (SeekEnd 0))) (\<lambda>raw_length.
           bindE (lift_io (sk (SeekCurrent (- 8)))) (\<lambda>_.
           bindE (u64_deserialize rd) (\<lambda>footer_options_length.
           bindE (lift_res (ok_or DeserializationError (checked_add footer_options_length 8))) (\<lambda>footer_length.
           bindE (lift_io (sk (SeekStart header_length))) (\<lambda>_.
             ret (metadata, header_length, raw_length, footer_length))))))) inner of
        (Inl e, _) \<Rightarrow> Inl e
      | (Inr (metadata, header_length, raw_length, footer_length), inner') \<Rightarrow>
          (case load_persistent P G (case persistent_config of Some c \<Rightarrow> c | None \<Rightarrow> metadata) reader_config of
             (Inl e, _) \<Rightarrow> Inl (error_from_config_error e)
           | (Inr _, reader_config') \<Rightarrow>
               (case strip_reader_new inner' header_length footer_length raw_length 0 of
                  Inl e \<Rightarrow> Inl e
                | Inr stripped \<Rightarrow>
                    enc_reader_new G (strip_read rd) (rc_encrypt_parameters reader_config') None stripped)))"

definition enc_layer_initialize ::
  "gcm_prims \<Rightarrow> (nat \<Rightarrow> ('r, io_error, bytes) op) \<Rightarrow> (seek_from \<Rightarrow> ('r, io_error, nat) op) \<Rightarrow> ('r, error, unit) op \<Rightarrow>
   ('r strip_reader enc_reader, error, unit) op" where
  "enc_layer_initialize G rd sk inner_initialize =
     bindE (on_er (on_field sr_inner put_sr inner_initialize)) (\<lambda>_.
       enc_initialize G (strip_read rd) (strip_seek sk))"

definition enc_truncated_new_skip_magic ::
  "'g kem_prims \<Rightarrow> gcm_prims \<Rightarrow> (nat \<Rightarrow> ('r, io_error, bytes) op) \<Rightarrow> encryption_reader_config \<Rightarrow>
   encryption_persistent_config option \<Rightarrow> truncated_decryption_mode \<Rightarrow> 'r \<Rightarrow> error + 'r enc_reader" where
  "enc_truncated_new_skip_magic P G rd reader_config persistent_config mode inner =
     (case read_encryption_header_after_magic P rd inner of
        (Inl e, _) \<Rightarrow> Inl e
      | (Inr (metadata, _), inner') \<Rightarrow>
          (case load_persistent P G (case persistent_config of Some c \<Rightarrow> c | None \<Rightarrow> metadata) reader_config of
             (Inl e, _) \<Rightarrow> Inl (error_from_config_error e)
           | (Inr _, reader_config') \<Rightarrow>
               enc_truncated_new_skip_header G rd (rc_encrypt_parameters reader_config') mode inner'))"

section \<open>What the layer is made of\<close>

definition enc_header :: "encryption_persistent_config \<Rightarrow> bytes" where
  "enc_header pc = ENCRYPTION_LAYER_MAGIC @ EMPTY_OPTS_SERIALIZATION @ to_le 2 0 @ enc_persistent pc"

definition enc_layer :: "gcm_prims \<Rightarrow> encryption_persistent_config \<Rightarrow> bytes \<Rightarrow> bytes \<Rightarrow> bytes \<Rightarrow> bytes" where
  "enc_layer G pc key nonce pt = enc_header pc @ enc_body G key nonce (chunks pt) @ EMPTY_TAIL_OPTS_SERIALIZATION"

lemma tail_opts_split: "EMPTY_TAIL_OPTS_SERIALIZATION = [0] @ to_le 8 1"
proof -
  have "8 = Suc (Suc (Suc (Suc (Suc (Suc (Suc (Suc 0)))))))" by simp
  then show ?thesis by (simp only: EMPTY_TAIL_OPTS_SERIALIZATION_def to_le.simps) simp
qed

context sink
begin

lemma prints_enc_header: "prints (enc_write_header wr pc) (enc_header pc @ chunk_head 1) 8"
proof -
  have "prints (enc_write_header wr pc) (ENCRYPTION_LAYER_MAGIC @ EMPTY_OPTS_SERIALIZATION @ to_le 2 0 @
      enc_persistent pc @ CHUNK_MAGIC @ to_le 8 1) 8"
    unfolding enc_write_header_def
    by (rule prints_bindE, rule prints_lift_io, rule prints_write_all, rule prints_bindE, rule prints_opts,
        rule prints_bindE, rule prints_u16, rule prints_bindE, rule prints_persistent,
        rule prints_bindE, rule prints_lift_io, rule prints_write_all, rule prints_u64)
  then show ?thesis by (simp add: enc_header_def chunk_head_def)
qed

end

context source
begin

text \<open>The position reader counts from where it was made.\<close>

lemma position_source:
  "source (position_read rd) (\<lambda>s. view (pr_inner s)) (\<lambda>s. pos (pr_inner s))
     (\<lambda>s. inv (pr_inner s) \<and> base + pr_pos s = pos (pr_inner s) \<and> length (view (pr_inner s)) < 2 ^ 64)"
proof
  fix s :: "'r position_reader" and n
  assume a: "inv (pr_inner s) \<and> base + pr_pos s = pos (pr_inner s) \<and> length (view (pr_inner s)) < 2 ^ 64"
    "pos (pr_inner s) < length (view (pr_inner s))"
  from read_ok [OF conjunct1 [OF a(1)] a(2), of n] obtain k r where
    r: "rd n (pr_inner s) = (Inr (take k (drop (pos (pr_inner s)) (view (pr_inner s)))), r)" "k \<le> n"
    "k \<le> length (view (pr_inner s)) - pos (pr_inner s)" "0 < n \<longrightarrow> 0 < k" "inv r" "view r = view (pr_inner s)"
    "pos r = pos (pr_inner s) + k" by blast
  have "checked_add (pr_pos s) k = Some (pr_pos s + k)" using a r(3) by (auto simp: checked_add_def)
  with r a show "\<exists>k s'. position_read rd n s = (Inr (take k (drop (pos (pr_inner s)) (view (pr_inner s)))), s') \<and> k \<le> n \<and>
      k \<le> length (view (pr_inner s)) - pos (pr_inner s) \<and> (0 < n \<longrightarrow> 0 < k) \<and>
      (inv (pr_inner s') \<and> base + pr_pos s' = pos (pr_inner s') \<and> length (view (pr_inner s')) < 2 ^ 64) \<and>
      view (pr_inner s') = view (pr_inner s) \<and> pos (pr_inner s') = pos (pr_inner s) + k"
    by (intro exI [of _ k] exI [of _ "s\<lparr>pr_inner := r, pr_pos := pr_pos s + k\<rparr>"])
      (simp add: position_read_def min_absorb2)
qed

lemma read_header_ok:
  assumes wf: "persistent_wf P pc" and i: "inv r" and l: "length (view r) < 2 ^ 63"
    and d: "drop (pos r) (view r) = EMPTY_OPTS_SERIALIZATION @ to_le 2 0 @ enc_persistent pc @ t"
  obtains r' where "read_encryption_header_after_magic P rd r = (Inr (pc, 3 + length (enc_persistent pc) + 8), r')"
    "inv r'" "view r' = view r" "pos r' = pos r + 3 + length (enc_persistent pc)"
proof -
  let ?view = "\<lambda>s. view (pr_inner s)" and ?pos = "\<lambda>s. pos (pr_inner s)"
  let ?inv = "\<lambda>s. inv (pr_inner s) \<and> pos r + pr_pos s = pos (pr_inner s) \<and> length (view (pr_inner s)) < 2 ^ 64"
  note ps = position_source [of "pos r"]
  let ?m = "bindE (opts_from_reader (position_read rd)) (\<lambda>_. bindE (u16_deserialize (position_read rd))
    (\<lambda>_. persistent_config_deserialize P (position_read rd)))"
  have p: "source.parses ?view ?pos ?inv ?m (EMPTY_OPTS_SERIALIZATION @ to_le 2 0 @ enc_persistent pc) pc"
    by (rule source.parses_bindE [OF ps source.parses_opts [OF ps]],
        rule source.parses_bindE [OF ps source.parses_u16 [OF ps]], simp,
        rule source.parses_persistent [OF ps wf])
  let ?s = "position_reader_new r"
  have "length (view r) < 2 ^ 64" by (rule less_trans [OF l]) simp
  then have i0: "?inv ?s" using i by (simp add: position_reader_new_def)
  have "source.rest ?view ?pos ?s = (EMPTY_OPTS_SERIALIZATION @ to_le 2 0 @ enc_persistent pc) @ t"
    using d by (simp add: source.rest_def [OF ps] position_reader_new_def)
  from source.parsesD [OF ps p i0 this] have y: "source.yields ?view ?pos ?inv ?m ?s pc
      (length (EMPTY_OPTS_SERIALIZATION @ to_le 2 0 @ enc_persistent pc))" .
  from source.yieldsE [OF ps y] obtain s' where
    s0: "?m ?s = (Inr pc, s')" "?inv s'" "view (pr_inner s') = view (pr_inner ?s)"
    "pos (pr_inner s') = pos (pr_inner ?s) + length (EMPTY_OPTS_SERIALIZATION @ to_le 2 0 @ enc_persistent pc)" .
  have s': "?m ?s = (Inr pc, s')" "?inv s'" "view (pr_inner s') = view r"
    "pos (pr_inner s') = pos r + (3 + length (enc_persistent pc))"
    using s0 by (simp_all add: position_reader_new_def EMPTY_OPTS_SERIALIZATION_def)
  have "length (EMPTY_OPTS_SERIALIZATION @ to_le 2 0 @ enc_persistent pc @ t) \<le> length (view r)"
    unfolding d [symmetric] by simp
  then have "length (enc_persistent pc) + 3 < 2 ^ 63" using l by (simp add: EMPTY_OPTS_SERIALIZATION_def)
  moreover have "pr_pos s' = 3 + length (enc_persistent pc)" using s'(2,4) by simp
  ultimately have "checked_add (pr_pos s') 8 = Some (3 + length (enc_persistent pc) + 8)" by (simp add: checked_add_def)
  then have "read_encryption_header_after_magic P rd r = (Inr (pc, 3 + length (enc_persistent pc) + 8), pr_inner s')"
    using s'(1) by (auto simp: read_encryption_header_after_magic_def bindE_def split: prod.splits sum.splits)
  with s'(2-4) show thesis by (intro that [of "pr_inner s'"]) simp_all
qed

end

context full_seekable
begin

lemma enc_layer_reader_new_ok:
  assumes wf: "persistent_wf P pc" and i: "inv r" and v: "view r = enc_layer G pc key nonce pt"
    and p: "pos r = 8" and l: "length (view r) < 2 ^ 63" and lp: "load_persistent P G pc cfg = (Inr (), cfg')"
    and k: "rc_encrypt_parameters cfg' = Some (key, nonce)" and o: "opt = None \<or> opt = Some pc"
  shows "\<exists>s. enc_layer_reader_new_skip_magic P G rd sk cfg opt r = Inr s \<and>
    strip_inv view pos inv (er_inner s) \<and> strip_view view (er_inner s) = enc_body G key nonce (chunks pt) \<and>
    er_key s = key \<and> er_nonce s = nonce \<and> er_truncated_mode s = None"
proof -
  let ?V = "enc_layer G pc key nonce pt" and ?B = "enc_body G key nonce (chunks pt)"
  let ?h = "3 + length (enc_persistent pc) + 8"
  have h: "length (enc_header pc) = ?h" by (simp add: enc_header_def EMPTY_OPTS_SERIALIZATION_def)
  have tl: "length EMPTY_TAIL_OPTS_SERIALIZATION = 9" by (simp add: EMPTY_TAIL_OPTS_SERIALIZATION_def)
  have L: "length ?V = ?h + length ?B + 9" using h tl by (simp add: enc_layer_def)
  have "drop (pos r) (view r) = EMPTY_OPTS_SERIALIZATION @ to_le 2 0 @ enc_persistent pc @ ?B @ EMPTY_TAIL_OPTS_SERIALIZATION"
    using p v by (simp add: enc_layer_def enc_header_def)
  then have "drop (pos r) (view r) = EMPTY_OPTS_SERIALIZATION @ to_le 2 0 @ enc_persistent pc @ (?B @ EMPTY_TAIL_OPTS_SERIALIZATION)"
    by simp
  then obtain r1 where r1': "read_encryption_header_after_magic P rd r = (Inr (pc, ?h), r1)" "inv r1" "view r1 = view r"
    "pos r1 = pos r + 3 + length (enc_persistent pc)"
    by (rule read_header_ok [OF wf i l])
  note r1 = r1'(1,2) r1'(3) [unfolded v] r1'(4)
  obtain r2 where r2: "sk (SeekEnd 0) r1 = (Inr (length ?V), r2)" "inv r2" "view r2 = ?V" "pos r2 = length ?V"
    using seek_to_end [OF r1(2)] r1(3) by auto
  have "\<exists>s'. sk (SeekCurrent (- 8)) r2 = (Inr (nat (int (pos r2) + (- 8))), s') \<and> inv s' \<and> view s' = view r2 \<and>
      pos s' = nat (int (pos r2) + (- 8))"
    by (rule seek_current [OF r2(2)]) (use r2(3,4) L in simp_all)
  then obtain r3 x where r3: "sk (SeekCurrent (- 8)) r2 = (Inr x, r3)" "inv r3" "view r3 = ?V" "pos r3 = length ?V - 8"
    using r2(3,4) L by auto
  have d3: "drop (pos r3) (view r3) = to_le 8 1 @ []"
  proof -
    have "?V = (enc_header pc @ ?B @ [0]) @ to_le 8 1" by (simp add: enc_layer_def tail_opts_split)
    moreover from this have "length ?V - 8 = length (enc_header pc @ ?B @ [0])" by simp
    ultimately show ?thesis using r3(3,4) by (metis append.right_neutral append_eq_conv_conj)
  qed
  have "parses (u64_deserialize rd) (to_le 8 1) 1" by (rule parses_u64) simp
  moreover have "rest r3 = to_le 8 1 @ []" using d3 by (simp add: rest_def)
  ultimately have "yields (u64_deserialize rd) r3 1 (length (to_le 8 1))" by (rule parsesD [OF _ r3(2)])
  then obtain r4 where r4': "u64_deserialize rd r3 = (Inr 1, r4)" "inv r4" "view r4 = view r3" by (rule yieldsE)
  note r4 = r4'(1,2) r4'(3) [unfolded r3(3)]
  have "?h < length (view r4)" using r4(3) L by simp
  from seek_start [OF r4(2) this] r4(3) obtain r5 where r5: "sk (SeekStart ?h) r4 = (Inr ?h, r5)" "inv r5" "view r5 = ?V"
    "pos r5 = ?h" by auto
  have l63: "length ?V < 2 ^ 63" using l v by simp
  let ?st = "\<lparr>sr_inner = r5, sr_head_len = ?h, sr_tail_len = 9, sr_inner_len = length ?V, sr_pos = 0\<rparr>"
  have "?h + 9 \<le> length ?V" using L by simp
  moreover from this have "?h + 9 < 2 ^ 64" using l63 by simp
  ultimately have st: "strip_reader_new r5 ?h 9 (length ?V) 0 = Inr ?st"
    by (simp add: strip_reader_new_def checked_add_def)
  have sv: "strip_inv view pos inv ?st" "strip_view view ?st = ?B"
    using r5 l63 L h by (simp_all add: strip_inv_def strip_view_def) (simp add: enc_layer_def)
  obtain s where s: "enc_reader_new G (strip_read rd) (Some (key, nonce)) None ?st = Inr s" "strip_inv view pos inv (er_inner s)"
    "strip_view view (er_inner s) = ?B" "er_key s = key" "er_nonce s = nonce" "er_truncated_mode s = None"
    by (rule full_seekable.enc_reader_new_ok [OF strip_full_seekable sv])
  have "checked_add 1 8 = Some 9" by (simp add: checked_add_def)
  moreover have "(case opt of Some c \<Rightarrow> c | None \<Rightarrow> pc) = pc" using o by auto
  ultimately have "enc_layer_reader_new_skip_magic P G rd sk cfg opt r = Inr s"
    using r1(1) r2(1) r3(1) r4(1) r5(1) lp k st s(1)
    by (simp add: enc_layer_reader_new_skip_magic_def bindE_def lift_io_def map_errE_def lift_res_def ret_def)
  with s show ?thesis by blast
qed

end

context room_sink
begin

lemma runs_recipient:
  assumes "length (enc_recipient r) < 2 ^ 64"
  shows "runs (recipient_key_serialize wr r) (enc_recipient r) (length (enc_recipient r))"
proof -
  have l: "length (rk_ct_ml r) + length (rk_ct_ecc r) + length (rk_wrapped_ss r) + length (rk_tag r) < 2 ^ 64"
    using assms by (simp add: enc_recipient_def)
  have "runs (recipient_key_serialize wr r) (rk_ct_ml r @ rk_ct_ecc r @ rk_wrapped_ss r @ rk_tag r)
      (0 + length (rk_ct_ml r) + length (rk_ct_ecc r) + length (rk_wrapped_ss r) + length (rk_tag r))"
    unfolding recipient_key_serialize_def
    by (rule runs_bindE [OF runs_bytes], use l in simp, rule runs_skip [OF runs_checked_add], use l in simp,
        rule runs_bindE [OF runs_bytes], use l in simp, rule runs_skip [OF runs_checked_add], use l in simp,
        rule runs_bindE [OF runs_bytes], use l in simp, rule runs_skip [OF runs_checked_add], use l in simp,
        rule runs_last [OF runs_bytes], use l in simp, rule runs_checked_add, use l in simp)
  then show ?thesis by (simp add: enc_recipient_def add.assoc)
qed

lemma runs_commitment:
  assumes "length (enc_commitment kc) < 2 ^ 64"
  shows "runs (key_commitment_serialize wr kc) (enc_commitment kc) (length (enc_commitment kc))"
proof -
  have l: "length (kc_key_commitment kc) + length (kc_tag kc) < 2 ^ 64"
    using assms by (simp add: enc_commitment_def)
  have "runs (key_commitment_serialize wr kc) (kc_key_commitment kc @ kc_tag kc)
      (0 + length (kc_key_commitment kc) + length (kc_tag kc))"
    unfolding key_commitment_serialize_def
    by (rule runs_bindE [OF runs_bytes], use l in simp, rule runs_skip [OF runs_checked_add], use l in simp,
        rule runs_last [OF runs_bytes], use l in simp, rule runs_checked_add, use l in simp)
  then show ?thesis by (simp add: enc_commitment_def)
qed

lemma runs_persistent:
  assumes "length (enc_persistent c) < 2 ^ 64"
  shows "runs (persistent_config_serialize wr c) (enc_persistent c) (length (enc_persistent c))"
proof -
  let ?rs = "mk_recipients (ep_encapsulated_key c)"
  have l: "length (enc_vec enc_recipient ?rs) + length (enc_commitment (ep_key_commitment c)) < 2 ^ 64"
    using assms by (simp add: enc_persistent_def)
  have "length (enc_recipient r) < 2 ^ 64" if "r \<in> set ?rs" for r
  proof -
    have "length (enc_recipient r) \<le> sum_list (map (length \<circ> enc_recipient) ?rs)"
      using member_le_sum_list [of "(length \<circ> enc_recipient) r" "map (length \<circ> enc_recipient) ?rs"] that by simp
    then show ?thesis using l by (simp add: length_enc_vec)
  qed
  then have v: "runs (vec_serialize wr (recipient_key_serialize wr) ?rs) (enc_vec enc_recipient ?rs)
      (length (enc_vec enc_recipient ?rs))"
    using l by (intro runs_vec runs_recipient) simp_all
  have "runs (persistent_config_serialize wr c) (enc_persistent c)
      (0 + length (enc_vec enc_recipient ?rs) + length (enc_commitment (ep_key_commitment c)))"
    unfolding persistent_config_serialize_def enc_persistent_def multi_recipient_key_serialize_def
    by (rule runs_bindE [OF v], rule runs_skip [OF runs_checked_add], use l in simp,
        rule runs_last [OF runs_commitment], use l in simp, rule runs_checked_add, use l in simp)
  then show ?thesis by (simp add: enc_persistent_def)
qed

lemma runs_enc_header:
  assumes "length (enc_persistent pc) < 2 ^ 64"
  shows "runs (enc_write_header wr pc) (enc_header pc @ chunk_head 1) 8"
proof -
  have "runs (enc_write_header wr pc) (ENCRYPTION_LAYER_MAGIC @ EMPTY_OPTS_SERIALIZATION @ to_le 2 0 @
      enc_persistent pc @ CHUNK_MAGIC @ to_le 8 1) 8"
    unfolding enc_write_header_def
    by (rule runs_bindE, rule runs_lift_io, rule runs_write_all, rule runs_bindE, rule runs_opts,
        rule runs_bindE, rule runs_u16, rule runs_bindE, rule runs_persistent [OF assms],
        rule runs_bindE, rule runs_lift_io, rule runs_write_all, rule runs_u64)
  then show ?thesis by (simp add: enc_header_def chunk_head_def)
qed

end

lemma length_enc_persistent:
  assumes "persistent_wf P pc"
  shows "length (enc_persistent pc) = 88 + 1648 * length (mk_recipients (ep_encapsulated_key pc))"
proof -
  have "\<forall>r\<in>set (mk_recipients (ep_encapsulated_key pc)). length (enc_recipient r) = 1648"
    using assms by (auto simp: persistent_wf_def recipient_wf_def enc_recipient_def)
  then have "sum_list (map (length \<circ> enc_recipient) rs) = 1648 * length rs"
    if "set rs \<subseteq> set (mk_recipients (ep_encapsulated_key pc))" for rs
    using that by (induction rs) auto
  from this [of "mk_recipients (ep_encapsulated_key pc)"] assms show ?thesis
    by (simp add: enc_persistent_def length_enc_vec enc_commitment_def persistent_wf_def)
qed

section \<open>Properties\<close>

text \<open>C21: the encryption layer as a whole. Whatever is written through the layer in any number of writes, none of
  them empty at the end of a full chunk (C38 says what such a write does), and finalized, a reader made from the resulting bytes by the owner of one of the public keys (the recipients
  before it failing their tag) finds the layer magic, is created and initialized without error, and is then a
  seekable reader on exactly the bytes written. No key or nonce is assumed equal on the two sides.\<close>

theorem encrypted_layer_roundtrip:
  assumes "kem_ok P" and "gcm_prims_ok G" and "sink wr out winv" and "winv w0"
    and "enc_layer_writer_new P G wr (pks1 @ public_key_of P sk # pks2) g w0 = Inr s0"
    and "length (pks1 @ public_key_of P sk # pks2) < 2 ^ 64"
    and "enc_session G wr s0 s pt" and "enc_finalize_writes G wr s = (Inr u, s')"
    and "full_seekable rd view pos rinv sk'" and "rinv r" and "out (ew_inner s') = out w0 @ view r"
    and "pos r = 0" and "length (view r) < 2 ^ 63"
    and "\<forall>pc kn g'. to_persistent P G (pks1 @ public_key_of P sk # pks2) g = (Inr (pc, kn), g') \<longrightarrow>
      (\<forall>x\<in>set (take (length pks1) (mk_recipients (ep_encapsulated_key pc))). try_recipient P G sk x = Inr None)"
  shows "\<exists>r1 s1 s2 key nonce. read_layer_magic rd r = (Inr ENCRYPTION_LAYER_MAGIC, r1) \<and>
    enc_layer_reader_new_skip_magic P G rd sk'
      \<lparr>rc_private_keys = [sk], rc_encrypt_parameters = None, rc_shared_secrets = []\<rparr> None r1 = Inr s1 \<and>
    enc_layer_initialize G rd sk' (ret ()) s1 = (Inr (), s2) \<and> er_pos s2 = 0 \<and>
    enc_rinv (strip_view view) sr_pos (strip_inv view pos rinv) G key nonce pt s2 \<and>
    seekable (enc_read G (strip_read rd)) (\<lambda>_. pt) er_pos
      (enc_rinv (strip_view view) sr_pos (strip_inv view pos rinv) G key nonce pt)
      (enc_seek G (strip_read rd) (strip_seek sk'))"
proof -
  let ?keys = "pks1 @ public_key_of P sk # pks2"
  from assms(5) obtain pc key nonce g' n w1 where t: "to_persistent P G ?keys g = (Inr (pc, (key, nonce)), g')"
    and h: "enc_write_header wr pc w0 = (Inr n, w1)" and nw: "enc_writer_new G w1 key nonce = Inr s0"
    by (auto simp: enc_layer_writer_new_def split: prod.splits sum.splits)
  from sink.printsD [OF assms(3) sink.prints_enc_header [OF assms(3)] assms(4) h]
  have w1: "winv w1" "out w1 = (out w0 @ enc_header pc) @ chunk_head 1" by auto
  from enc_layer_output [OF assms(3,2) w1 nw assms(7,8)] assms(11)
  have v: "view r = enc_layer G pc key nonce pt" by (simp add: enc_layer_def)
  have wf: "persistent_wf P pc"
    by (rule to_persistent_steps [OF assms(1,2) t]) (use assms(6) in blast)
  have oth: "\<forall>x\<in>set (take (length pks1) (mk_recipients (ep_encapsulated_key pc))). try_recipient P G sk x = Inr None"
    using assms(14) t by blast
  note lp = load_persistent_private [OF assms(1,2) t oth]
  note fs = assms(9)
  have so: "source rd view pos rinv" using fs by (simp add: full_seekable_def seekable_def start_seekable_def)
  have "source.parses view pos rinv (read_layer_magic rd) ENCRYPTION_LAYER_MAGIC ENCRYPTION_LAYER_MAGIC"
    by (rule source.parses_read_layer_magic [OF so]) simp
  moreover have "source.rest view pos r = ENCRYPTION_LAYER_MAGIC @ drop 8 (view r)"
    using assms(12) v by (simp add: source.rest_def [OF so] enc_layer_def enc_header_def)
  ultimately have "source.yields view pos rinv (read_layer_magic rd) r ENCRYPTION_LAYER_MAGIC (length ENCRYPTION_LAYER_MAGIC)"
    by (rule source.parsesD [OF so _ assms(10)])
  then obtain r1 where r1: "read_layer_magic rd r = (Inr ENCRYPTION_LAYER_MAGIC, r1)" "rinv r1" "view r1 = view r"
    "pos r1 = pos r + length ENCRYPTION_LAYER_MAGIC" by (rule source.yieldsE [OF so])
  have p1: "pos r1 = 8" "view r1 = enc_layer G pc key nonce pt" "length (view r1) < 2 ^ 63"
    using r1(3,4) assms(12,13) v by simp_all
  have kp: "rc_encrypt_parameters \<lparr>rc_private_keys = [sk], rc_encrypt_parameters = Some (key, nonce), rc_shared_secrets = []\<rparr> =
    Some (key, nonce)" by simp
  from full_seekable.enc_layer_reader_new_ok [OF fs wf r1(2) p1(2,1,3) lp kp, of None] obtain s1 where
    s1: "enc_layer_reader_new_skip_magic P G rd sk'
      \<lparr>rc_private_keys = [sk], rc_encrypt_parameters = None, rc_shared_secrets = []\<rparr> None r1 = Inr s1"
    "strip_inv view pos rinv (er_inner s1)" "strip_view view (er_inner s1) = enc_body G key nonce (chunks pt)"
    "er_key s1 = key" "er_nonce s1 = nonce" "er_truncated_mode s1 = None" by auto
  note fst = full_seekable.strip_full_seekable [OF fs]
  have "length (enc_body G key nonce (chunks pt)) \<le> length (view r1)" using p1(2) by (simp add: enc_layer_def)
  then have lb: "length (enc_body G key nonce (chunks pt)) < 2 ^ 63" using p1(3) by simp
  from full_seekable.enc_initialize_ok [OF fst assms(2) s1(2,3) lb s1(4-6)] obtain s2 where
    s2: "enc_initialize G (strip_read rd) (strip_seek sk') s1 = (Inr (), s2)" "er_pos s2 = 0"
    "enc_rinv (strip_view view) sr_pos (strip_inv view pos rinv) G key nonce pt s2" by blast
  have "enc_layer_initialize G rd sk' (ret ()) s1 = (Inr (), s2)"
    using s2(1) by (simp add: enc_layer_initialize_def bindE_def on_field_def ret_def)
  with r1(1) s1(1) s2(2,3) full_seekable.enc_seekable [OF fst assms(2)] show ?thesis by blast
qed

lemma vec_write_and_finalize:
  assumes st0: "enc_state (\<lambda>w. w) (\<lambda>_. True) demo_prims base [] [] s0" and l: "length (ew_inner s0) < 2 ^ 60"
  obtains s s' where "enc_session demo_prims vec_write s0 s [1, 2, 3]"
    "enc_finalize_writes demo_prims vec_write s = (Inr (), s')"
proof -
  have "min 4096 (length [1, 2, 3 :: u8]) \<le> vec_room (ew_inner s0)" using l by (simp add: vec_room_def)
  note w = vec.enc_write_in_chunk_room [OF st0 this]
  have "min (min 4096 (length [1, 2, 3 :: u8])) (131072 - length ([] :: bytes)) = 3" by simp
  with w obtain s where s: "enc_write_in_chunk demo_prims vec_write [1, 2, 3] s0 = (Inr 3, s)"
    "vec_room (ew_inner s0) \<le> vec_room (ew_inner s) + 3" by metis
  have "enc_write demo_prims vec_write [1, 2, 3] s0 = (Inr 3, s)"
    using s(1) st0 by (simp add: enc_write_def enc_state_def bindE_def ret_def)
  from enc_writes [OF enc_begin _ this] have ses: "enc_session demo_prims vec_write s0 s [1, 2, 3]" by simp
  from vec.enc_write_in_chunk_state [OF st0 s(1)]
  have "enc_state (\<lambda>w. w) (\<lambda>_. True) demo_prims base [] [1, 2, 3] s" by simp
  have "1000 \<le> vec_room (ew_inner s0)" using l by (simp add: vec_room_def)
  then have "67 \<le> vec_room (ew_inner s)" using s(2) by linarith
  with vec.enc_finalize_writes_room [OF demo_prims_ok \<open>enc_state _ _ _ _ _ _ s\<close>] obtain s' where
    "enc_finalize_writes demo_prims vec_write s = (Inr (), s')" by auto
  with ses show thesis by (rule that)
qed

theorem encrypted_layer_roundtrip_witness:
  "\<exists>s0 s s' r1 s1 s2. enc_layer_writer_new demo_kem demo_prims vec_write [public_key_of demo_kem demo_sk] () [] = Inr s0 \<and>
    enc_session demo_prims vec_write s0 s [1, 2, 3] \<and> enc_finalize_writes demo_prims vec_write s = (Inr (), s') \<and>
    read_layer_magic cursor_read (cursor_new (ew_inner s')) = (Inr ENCRYPTION_LAYER_MAGIC, r1) \<and>
    enc_layer_reader_new_skip_magic demo_kem demo_prims cursor_read cursor_seek
      \<lparr>rc_private_keys = [demo_sk], rc_encrypt_parameters = None, rc_shared_secrets = []\<rparr> None r1 = Inr s1 \<and>
    enc_layer_initialize demo_prims cursor_read cursor_seek (ret ()) s1 = (Inr (), s2)"
proof -
  let ?keys = "[] @ public_key_of demo_kem demo_sk # []"
  obtain pc key nonce where t: "to_persistent demo_kem demo_prims ?keys () = (Inr (pc, (key, nonce)), ())"
    using demo_to_persistent by auto
  obtain ss where e: "encapsulate demo_kem demo_prims ?keys () = (Inr (ep_encapsulated_key pc, ss), ())"
    by (rule to_persistent_steps [OF demo_kem_ok demo_prims_ok t])
  have wf: "persistent_wf demo_kem pc"
    by (rule to_persistent_steps [OF demo_kem_ok demo_prims_ok t]) simp
  obtain g1 where g1: "encapsulate_recipients demo_kem demo_prims ss ?keys g1 = (Inr (mk_recipients (ep_encapsulated_key pc)), ())"
    "length ss = 32" by (rule encapsulate_steps [OF demo_kem_ok e])
  from encapsulate_recipients_wf [OF demo_kem_ok demo_prims_ok g1(2,1)]
  have lp: "length (enc_persistent pc) = 1736" using length_enc_persistent [OF wf] by simp
  then have "length (enc_persistent pc) < 2 ^ 64" by simp
  note rh = vec.runs_enc_header [OF this]
  have "length (enc_header pc @ chunk_head 1) \<le> vec_room []"
    using lp by (simp add: enc_header_def vec_room_def EMPTY_OPTS_SERIALIZATION_def)
  from vec.runsE [OF rh TrueI this] obtain w1 where w1: "enc_write_header vec_write pc [] = (Inr 8, w1)"
    "w1 = [] @ enc_header pc @ chunk_head 1" by blast
  obtain s0 where s0: "enc_writer_new demo_prims w1 key nonce = Inr s0" "ew_inner s0 = w1"
    using enc_writer_new_total [of demo_prims w1 key nonce] by blast
  have new: "enc_layer_writer_new demo_kem demo_prims vec_write ?keys () [] = Inr s0"
    using t w1(1) s0(1) by (simp add: enc_layer_writer_new_def)
  have st0: "enc_state (\<lambda>w. w) (\<lambda>_. True) demo_prims (enc_header pc) [] [] s0"
    by (rule enc_writer_new_state [OF s0(1), THEN conjunct1]) (simp_all add: w1(2))
  have "length (ew_inner s0) < 2 ^ 60"
    using s0(2) w1(2) lp by (simp add: enc_header_def EMPTY_OPTS_SERIALIZATION_def)
  with st0 obtain s s' where ses: "enc_session demo_prims vec_write s0 s [1, 2, 3]"
    and fin: "enc_finalize_writes demo_prims vec_write s = (Inr (), s')" by (rule vec_write_and_finalize)
  have "w1 = enc_header pc @ chunk_head 1" using w1(2) by simp
  from enc_layer_output [OF vec.sink_axioms demo_prims_ok TrueI this s0(1) ses fin]
  have "length (ew_inner s') < 2 ^ 63"
    using lp length_enc_body [OF demo_prims_ok, of key nonce "[1, 2, 3]"]
    by (simp add: enc_header_def EMPTY_OPTS_SERIALIZATION_def EMPTY_TAIL_OPTS_SERIALIZATION_def chunks_short)
  then have c: "cursor_inv (cursor_new (ew_inner s'))" "ew_inner s' = [] @ cur_data (cursor_new (ew_inner s'))"
    "cur_pos (cursor_new (ew_inner s')) = 0" "length (cur_data (cursor_new (ew_inner s'))) < 2 ^ 63"
    by (simp_all add: cursor_inv_def cursor_new_def)
  have k: "length ?keys < 2 ^ 64" by simp
  have o: "\<forall>pc kn g'. to_persistent demo_kem demo_prims ?keys () = (Inr (pc, kn), g') \<longrightarrow>
      (\<forall>x\<in>set (take (length []) (mk_recipients (ep_encapsulated_key pc))). try_recipient demo_kem demo_prims demo_sk x = Inr None)"
    by simp
  from encrypted_layer_roundtrip [OF demo_kem_ok demo_prims_ok vec.sink_axioms TrueI new k ses fin
    cur.full_seekable_axioms c o] new ses fin show ?thesis unfolding append_Nil by blast
qed

end
