(* ===== verification/CompressWriter.thy ===== *)
theory CompressWriter
  imports ViewLayers
begin

text \<open>
  The writing half of the compression layer (\<^verbatim>\<open>mla/src/layers/compress.rs\<close>): its configuration,
  \<^verbatim>\<open>WriterWithCount\<close>, \<^verbatim>\<open>SizesInfo\<close> and \<^verbatim>\<open>CompressionLayerWriter\<close>. The data is cut in blocks of
  4 MiB, each one compressed on its own; the index \<^verbatim>\<open>SizesInfo\<close> at the end makes it seekable.

  The \<^verbatim>\<open>brotli\<close> crate is not part of the repository: its \<^verbatim>\<open>CompressorWriter\<close> is the parameter
  \<open>brotli_writer\<close>, and what the code relies on is \<open>brotli_writer_ok\<close>: the inner writer is only written
  to, and once the compressor is turned into its inner writer again the bytes written are a stream that
  decodes to what was accepted.
\<close>

section \<open>Configuration\<close>

definition COMPRESSION_LAYER_MAGIC :: bytes where "COMPRESSION_LAYER_MAGIC = ascii ''COMLAAAA''"
definition UNCOMPRESSED_DATA_SIZE :: nat where "UNCOMPRESSED_DATA_SIZE = 4 * 1024 * 1024"
definition DEFAULT_COMPRESSION_LEVEL :: nat where "DEFAULT_COMPRESSION_LEVEL = 5"
definition BROTLI_LOG_WINDOW :: nat where "BROTLI_LOG_WINDOW = 22"

record compression_config =
  cc_compression_level :: nat

definition compression_config_default :: compression_config where
  "compression_config_default = \<lparr>cc_compression_level = DEFAULT_COMPRESSION_LEVEL\<rparr>"

definition set_compression_level :: "nat \<Rightarrow> (compression_config, config_error, unit) op" where
  "set_compression_level level c =
     (if 11 < level then (Inl CompressionLevelOutOfRange, c)
      else (Inr (), c\<lparr>cc_compression_level := level\<rparr>))"

section \<open>Counting the compressed bytes\<close>

record 'w writer_with_count =
  wc_inner :: 'w
  wc_pos :: nat

definition writer_with_count_new :: "'w \<Rightarrow> 'w writer_with_count" where
  "writer_with_count_new w = \<lparr>wc_inner = w, wc_pos = 0\<rparr>"

definition count_write ::
  "(bytes \<Rightarrow> ('w, io_error, nat) op) \<Rightarrow> bytes \<Rightarrow> ('w writer_with_count, io_error, nat) op" where
  "count_write wr buf s =
     (case wr buf (wc_inner s) of
        (Inl e, w) \<Rightarrow> (Inl e, s\<lparr>wc_inner := w\<rparr>)
      | (Inr written, w) \<Rightarrow>
          (case Option.bind (u32_try_from written) (checked_add_u32 (wc_pos s)) of
             None \<Rightarrow> (Inl IoOther, s\<lparr>wc_inner := w\<rparr>)
           | Some p \<Rightarrow> (Inr written, s\<lparr>wc_inner := w, wc_pos := p\<rparr>)))"

section \<open>The index of the blocks\<close>

record sizes_info =
  si_compressed_sizes :: "nat list"
  si_last_block_size :: nat

definition sizes_info_serialize :: "(bytes \<Rightarrow> ('w, io_error, nat) op) \<Rightarrow> sizes_info \<Rightarrow> ('w, error, nat) op" where
  "sizes_info_serialize wr si =
     bindE (vec_serialize wr (u32_serialize wr) (si_compressed_sizes si)) (\<lambda>n.
     bindE (u32_serialize wr (si_last_block_size si)) (\<lambda>m.
       lift_res (ok_or SerializationError (checked_add n m))))"

definition sizes_info_deserialize :: "(nat \<Rightarrow> ('r, io_error, bytes) op) \<Rightarrow> ('r, error, sizes_info) op" where
  "sizes_info_deserialize rd =
     bindE (vec_deserialize rd (u32_deserialize rd)) (\<lambda>sizes.
     bindE (u32_deserialize rd) (\<lambda>last_size.
       ret \<lparr>si_compressed_sizes = sizes, si_last_block_size = last_size\<rparr>))"

section \<open>The layer\<close>

text \<open>\<^verbatim>\<open>brotli::CompressorWriter\<close> over a counted writer: \<^verbatim>\<open>new(w, buffer_size, level, lgwin)\<close>, \<^verbatim>\<open>write\<close>,
  \<^verbatim>\<open>flush\<close> and \<^verbatim>\<open>into_inner\<close>, which ends the stream and drops the errors of its inner writer.\<close>

record ('w, 'c) brotli_writer =
  bw_new :: "'w writer_with_count \<Rightarrow> nat \<Rightarrow> nat \<Rightarrow> nat \<Rightarrow> 'c"
  bw_write :: "bytes \<Rightarrow> ('c, io_error, nat) op"
  bw_flush :: "('c, io_error, unit) op"
  bw_into_inner :: "'c \<Rightarrow> 'w writer_with_count"

datatype ('w, 'c) compression_writer_state = WReady 'w | WInData nat 'c | WEmpty

record ('w, 'c) compression_writer =
  cw_state :: "('w, 'c) compression_writer_state"
  cw_compressed_sizes :: "nat list"
  cw_level :: nat

definition compression_writer_new_skip_header :: "compression_config \<Rightarrow> 'w \<Rightarrow> ('w, 'c) compression_writer" where
  "compression_writer_new_skip_header config inner =
     \<lparr>cw_state = WReady inner, cw_compressed_sizes = [], cw_level = cc_compression_level config\<rparr>"

definition compression_writer_new ::
  "(bytes \<Rightarrow> ('w, io_error, nat) op) \<Rightarrow> compression_config \<Rightarrow> 'w \<Rightarrow> error + ('w, 'c) compression_writer" where
  "compression_writer_new wr config inner =
     (case bindE (lift_io (write_all wr COMPRESSION_LAYER_MAGIC)) (\<lambda>_. opts_dump wr) inner of
        (Inl e, _) \<Rightarrow> Inl e
      | (Inr _, inner') \<Rightarrow> Inr (compression_writer_new_skip_header config inner'))"

function compression_write ::
  "('w, 'c) brotli_writer \<Rightarrow> bytes \<Rightarrow> (('w, 'c) compression_writer, io_error, nat) op" where
  "compression_write B buf s =
     (case cw_state s of
        WReady inner \<Rightarrow>
          (let c = bw_new B (writer_with_count_new inner) 0 (cw_level s) BROTLI_LOG_WINDOW;
               sz = min UNCOMPRESSED_DATA_SIZE (length buf)
           in case bw_write B (take sz buf) c of
                (Inl e, _) \<Rightarrow> (Inl e, s\<lparr>cw_state := WEmpty\<rparr>)
              | (Inr written, c') \<Rightarrow>
                  (case u32_try_from written of
                     None \<Rightarrow> (Inl IoPanic, s\<lparr>cw_state := WEmpty\<rparr>)
                   | Some n \<Rightarrow> (Inr written, s\<lparr>cw_state := WInData n c'\<rparr>)))
      | WInData written c \<Rightarrow>
          if UNCOMPRESSED_DATA_SIZE < written then (Inl IoOther, s\<lparr>cw_state := WEmpty\<rparr>)
          else if written = UNCOMPRESSED_DATA_SIZE then
            (let inner_count = bw_into_inner B c
             in compression_write B buf
                  (s\<lparr>cw_compressed_sizes := cw_compressed_sizes s @ [wc_pos inner_count],
                     cw_state := WReady (wc_inner inner_count)\<rparr>))
          else
            (let sz = min (UNCOMPRESSED_DATA_SIZE - written) (length buf)
             in case bw_write B (take sz buf) c of
                  (Inl e, _) \<Rightarrow> (Inl e, s\<lparr>cw_state := WEmpty\<rparr>)
                | (Inr written_add, c') \<Rightarrow>
                    (case Option.bind (u32_try_from written_add) (\<lambda>n. checked_add_u32 n written) of
                       None \<Rightarrow> (Inl IoOther, s\<lparr>cw_state := WEmpty\<rparr>)
                     | Some new_written \<Rightarrow> (Inr written_add, s\<lparr>cw_state := WInData new_written c'\<rparr>)))
      | WEmpty \<Rightarrow> (Inl IoOther, s))"
  by pat_completeness auto
termination
  by (relation "measure (\<lambda>(_, _, s). case cw_state s of WInData _ _ \<Rightarrow> 1 | _ \<Rightarrow> 0)") auto

declare compression_write.simps [simp del]

definition in_data :: "('w, 'c) compression_writer \<Rightarrow> bool" where
  "in_data s = (case cw_state s of WInData _ _ \<Rightarrow> True | _ \<Rightarrow> False)"

definition compression_flush ::
  "('w, 'c) brotli_writer \<Rightarrow> ('w, io_error, unit) op \<Rightarrow> (('w, 'c) compression_writer, io_error, unit) op" where
  "compression_flush B inner_flush s =
     (case cw_state s of
        WReady inner \<Rightarrow> (case inner_flush inner of (r, inner') \<Rightarrow> (r, s\<lparr>cw_state := WReady inner'\<rparr>))
      | WInData written c \<Rightarrow> (case bw_flush B c of (r, c') \<Rightarrow> (r, s\<lparr>cw_state := WInData written c'\<rparr>))
      | WEmpty \<Rightarrow> (Inl IoOther, s))"

text \<open>\<^verbatim>\<open>finalize\<close> up to the recursive call, which is the finalization of the inner layer.\<close>

definition compression_close ::
  "('w, 'c) brotli_writer \<Rightarrow> ('w, 'c) compression_writer \<Rightarrow> error + 'w \<times> sizes_info" where
  "compression_close B s =
     (case cw_state s of
        WReady inner \<Rightarrow> Inr (inner, \<lparr>si_compressed_sizes = cw_compressed_sizes s, si_last_block_size = 0\<rparr>)
      | WInData written c \<Rightarrow>
          (let inner_count = bw_into_inner B c
           in Inr (wc_inner inner_count,
                \<lparr>si_compressed_sizes = cw_compressed_sizes s @ [wc_pos inner_count], si_last_block_size = written\<rparr>))
      | WEmpty \<Rightarrow> Inl (WrongReaderState ''[Compression Layer] bad state in finalization''))"

definition compression_finalize_writes ::
  "('w, 'c) brotli_writer \<Rightarrow> (bytes \<Rightarrow> ('w, io_error, nat) op) \<Rightarrow> ('w, 'c) compression_writer \<Rightarrow> error + 'w" where
  "compression_finalize_writes B wr s =
     (case compression_close B s of
        Inl e \<Rightarrow> Inl e
      | Inr (inner, sinfo) \<Rightarrow>
          (case bindE (lift_io (write_all wr EMPTY_TAIL_OPTS_SERIALIZATION)) (\<lambda>_.
                bindE (sizes_info_serialize wr sinfo) (u64_serialize wr)) inner of
             (Inl e, _) \<Rightarrow> Inl e
           | (Inr _, inner') \<Rightarrow> Inr inner'))"

definition compression_finalize ::
  "('w, 'c) brotli_writer \<Rightarrow> (bytes \<Rightarrow> ('w, io_error, nat) op) \<Rightarrow> ('w \<Rightarrow> error + 'f) \<Rightarrow>
   ('w, 'c) compression_writer \<Rightarrow> error + 'f" where
  "compression_finalize B wr inner_finalize s =
     (case compression_finalize_writes B wr s of Inl e \<Rightarrow> Inl e | Inr w \<Rightarrow> inner_finalize w)"

section \<open>What the compressor is relied on for\<close>

text \<open>\<open>written_by wr n w cs w'\<close>: \<open>w'\<close> is reached from \<open>w\<close> by successful writes that accept \<open>cs\<close> and never
  offer more than \<open>n\<close> bytes in all; \<open>accepts wr n w\<close>: no such write fails.\<close>

inductive written_by ::
  "(bytes \<Rightarrow> ('w, io_error, nat) op) \<Rightarrow> nat \<Rightarrow> 'w \<Rightarrow> bytes \<Rightarrow> 'w \<Rightarrow> bool" for wr where
  written_nil: "written_by wr n w [] w"
| written_step: "wr bs w = (Inr k, w') \<Longrightarrow> bs \<noteq> [] \<Longrightarrow> k \<le> length bs \<Longrightarrow> length bs \<le> n \<Longrightarrow>
    written_by wr (n - k) w' cs w'' \<Longrightarrow> written_by wr n w (take k bs @ cs) w''"

definition accepts :: "(bytes \<Rightarrow> ('w, io_error, nat) op) \<Rightarrow> nat \<Rightarrow> 'w \<Rightarrow> bool" where
  "accepts wr n w \<longleftrightarrow> (\<forall>cs w' bs. written_by wr n w cs w' \<longrightarrow> bs \<noteq> [] \<longrightarrow> length cs + length bs \<le> n \<longrightarrow>
     (\<exists>k w''. wr bs w' = (Inr k, w'') \<and> 0 < k \<and> k \<le> length bs))"

definition brotli_writer_laws ::
  "(bytes \<Rightarrow> bytes option) \<Rightarrow> nat \<Rightarrow> (bytes \<Rightarrow> ('w, io_error, nat) op) \<Rightarrow> ('w, 'c) brotli_writer \<Rightarrow>
   ('w writer_with_count \<Rightarrow> bytes \<Rightarrow> 'c \<Rightarrow> bool) \<Rightarrow> bool" where
  "brotli_writer_laws decode bound wr B J \<longleftrightarrow> bound < 2 ^ 32 \<and>
     (\<forall>x level. level \<le> 11 \<longrightarrow> accepts (count_write wr) bound x \<longrightarrow> J x [] (bw_new B x 0 level BROTLI_LOG_WINDOW)) \<and>
     (\<forall>x data c bs. J x data c \<longrightarrow> length data + length bs \<le> UNCOMPRESSED_DATA_SIZE \<longrightarrow>
       (\<exists>k c'. bw_write B bs c = (Inr k, c') \<and> k \<le> length bs \<and> (bs \<noteq> [] \<longrightarrow> 0 < k) \<and> J x (data @ take k bs) c')) \<and>
     (\<forall>x data c. J x data c \<longrightarrow>
       (\<exists>cs. decode cs = Some data \<and> written_by (count_write wr) bound x cs (bw_into_inner B c)))"

definition brotli_writer_ok ::
  "(bytes \<Rightarrow> bytes option) \<Rightarrow> nat \<Rightarrow> (bytes \<Rightarrow> ('w, io_error, nat) op) \<Rightarrow> ('w, 'c) brotli_writer \<Rightarrow> bool" where
  "brotli_writer_ok decode bound wr B \<longleftrightarrow> (\<exists>J. brotli_writer_laws decode bound wr B J)"

lemma written_by_length: "written_by wr n w cs w' \<Longrightarrow> length cs \<le> n"
  by (induction rule: written_by.induct) auto

lemma accepts_step:
  assumes "accepts wr n w" and "wr bs w = (Inr k, w')" and "bs \<noteq> []" "k \<le> length bs" "length bs \<le> n"
  shows "accepts wr (n - k) w'"
  unfolding accepts_def
proof (intro allI impI)
  fix cs v and ds :: bytes assume a: "written_by wr (n - k) w' cs v" "ds \<noteq> []" "length cs + length ds \<le> n - k"
  have "written_by wr n w (take k bs @ cs) v" by (rule written_step [OF assms(2-5) a(1)])
  moreover have "length (take k bs @ cs) + length ds \<le> n" using a(3) assms(4,5) by simp
  ultimately show "\<exists>k w''. wr ds v = (Inr k, w'') \<and> 0 < k \<and> k \<le> length ds"
    using assms(1) a(2) unfolding accepts_def by blast
qed

lemma accepts_write_all:
  "accepts wr n w \<Longrightarrow> length bs \<le> n \<Longrightarrow> \<exists>w'. write_all wr bs w = (Inr (), w') \<and> written_by wr n w bs w'"
proof (induction "length bs" arbitrary: bs n w rule: less_induct)
  case less
  show ?case
  proof (cases "bs = []")
    case True
    then show ?thesis by (simp add: write_all.simps written_nil)
  next
    case False
    have "length ([] :: bytes) + length bs \<le> n" using less.prems(2) by simp
    with less.prems(1) False written_nil [of wr n w] obtain k w1 where
      k: "wr bs w = (Inr k, w1)" "0 < k" "k \<le> length bs"
      unfolding accepts_def by blast
    have "accepts wr (n - k) w1" by (rule accepts_step [OF less.prems(1) k(1) False k(3) less.prems(2)])
    then have "\<exists>w'. write_all wr (drop k bs) w1 = (Inr (), w') \<and> written_by wr (n - k) w1 (drop k bs) w'"
      by (rule less.hyps [rotated]) (use k False less.prems(2) in auto)
    then obtain w' where w': "write_all wr (drop k bs) w1 = (Inr (), w')" "written_by wr (n - k) w1 (drop k bs) w'" by blast
    have "written_by wr n w (take k bs @ drop k bs) w'"
      by (rule written_step [OF k(1) False k(3) less.prems(2) w'(2)])
    moreover have "write_all wr bs w = (Inr (), w')"
      using False k w'(1) by (subst write_all.simps) simp
    ultimately show ?thesis by simp
  qed
qed

lemma written_by_count:
  "written_by (count_write wr) n x cs x' \<Longrightarrow>
   written_by wr n (wc_inner x) cs (wc_inner x') \<and> wc_pos x' = wc_pos x + length cs"
proof (induction rule: written_by.induct)
  case (written_nil n w)
  then show ?case by (simp add: written_by.written_nil)
next
  case (written_step bs w k w' n cs w'')
  then have "wr bs (wc_inner w) = (Inr k, wc_inner w')" "wc_pos w' = wc_pos w + k"
    by (auto simp: count_write_def checked_add_u32_def bind_eq_Some_conv u32_try_from_def
        split: prod.splits sum.splits option.splits if_splits)
  with written_step written_by.written_step [of wr bs "wc_inner w" k "wc_inner w'" n cs "wc_inner w''"]
  show ?case by simp
qed

context room_sink
begin

lemma written_by_room:
  "written_by wr n w cs w' \<Longrightarrow> winv w \<Longrightarrow> n \<le> room w \<Longrightarrow>
   winv w' \<and> out w' = out w @ cs \<and> room w \<le> room w' + length cs"
proof (induction rule: written_by.induct)
  case (written_nil n w)
  then show ?case by simp
next
  case (written_step bs w k w' n cs w'')
  from write_ok [OF written_step.prems(1) written_step.hyps(2,1)]
  have w': "winv w'" "out w' = out w @ take k bs" by auto
  have r: "room w \<le> room w' + k"
    using write_room [OF written_step.prems(1) written_step.hyps(2)] written_step.hyps(1,4) written_step.prems(2) by auto
  then have "n - k \<le> room w'" using written_step.prems(2) by simp
  with written_step.IH w' r written_step.hyps(3) show ?case by auto
qed

lemma accepts_count:
  assumes "winv (wc_inner x)" and "n \<le> room (wc_inner x)" and "n < 2 ^ 32" and "wc_pos x = 0"
  shows "accepts (count_write wr) n x"
  unfolding accepts_def
proof (intro allI impI)
  fix cs x' and bs :: bytes assume a: "written_by (count_write wr) n x cs x'" "bs \<noteq> []" "length cs + length bs \<le> n"
  from written_by_count [OF a(1)] have c: "written_by wr n (wc_inner x) cs (wc_inner x')" "wc_pos x' = length cs"
    using assms(4) by auto
  from written_by_room [OF c(1) assms(1,2)] have i: "winv (wc_inner x')"
    "room (wc_inner x) \<le> room (wc_inner x') + length cs" by auto
  then have "length bs \<le> room (wc_inner x')" using a(3) assms(2) by simp
  from write_room [OF i(1) a(2) this] obtain k w' where k: "wr bs (wc_inner x') = (Inr k, w')" "0 < k" by blast
  then have "k \<le> length bs" using write_ok [OF i(1) a(2) k(1)] by simp
  moreover have "wc_pos x' + k < 2 ^ 32" "k < 2 ^ 32" using calculation a(3) assms(3) c(2) by simp_all
  ultimately show "\<exists>k w''. count_write wr bs x' = (Inr k, w'') \<and> 0 < k \<and> k \<le> length bs"
    using k by (auto simp: count_write_def checked_add_u32_def u32_try_from_def)
qed

end

section \<open>The abstract format\<close>

definition enc_sizes_info :: "sizes_info \<Rightarrow> bytes" where
  "enc_sizes_info si = enc_vec (to_le 4) (si_compressed_sizes si) @ to_le 4 (si_last_block_size si)"

definition last_size :: "bytes list \<Rightarrow> nat" where
  "last_size ds = (if ds = [] then 0 else length (last ds))"

definition comp_index :: "bytes list \<Rightarrow> bytes list \<Rightarrow> sizes_info" where
  "comp_index cs ds = \<lparr>si_compressed_sizes = map length cs, si_last_block_size = last_size ds\<rparr>"

definition comp_body :: "bytes list \<Rightarrow> bytes list \<Rightarrow> bytes" where
  "comp_body cs ds = concat cs @ EMPTY_TAIL_OPTS_SERIALIZATION @ enc_sizes_info (comp_index cs ds) @
     to_le 8 (length (enc_sizes_info (comp_index cs ds)))"

definition comp_header :: bytes where
  "comp_header = COMPRESSION_LAYER_MAGIC @ EMPTY_OPTS_SERIALIZATION"

text \<open>The data \<open>pt\<close> cut in blocks of 4 MiB, the last one shorter, and each block with a compressed form.\<close>

definition comp_blocks :: "bytes list \<Rightarrow> bytes \<Rightarrow> bool" where
  "comp_blocks ds pt \<longleftrightarrow> concat ds = pt \<and> (\<forall>d\<in>set (butlast ds). length d = UNCOMPRESSED_DATA_SIZE) \<and>
     last_size ds \<le> UNCOMPRESSED_DATA_SIZE"

definition compressed_as :: "(bytes \<Rightarrow> bytes option) \<Rightarrow> nat \<Rightarrow> bytes list \<Rightarrow> bytes list \<Rightarrow> bool" where
  "compressed_as decode bound cs ds \<longleftrightarrow> list_all2 (\<lambda>c d. decode c = Some d \<and> length c \<le> bound) cs ds"

lemma length_COMPRESSION_LAYER_MAGIC [simp]: "length COMPRESSION_LAYER_MAGIC = 8"
  by (simp add: COMPRESSION_LAYER_MAGIC_def)

lemma length_enc_sizes_info: "length (enc_sizes_info si) = 12 + 4 * length (si_compressed_sizes si)"
  by (simp add: enc_sizes_info_def length_enc_vec comp_def sum_list_triv)

context sink
begin

lemma prints_sizes_info:
  "prints (sizes_info_serialize wr si) (enc_sizes_info si) (length (enc_sizes_info si))"
proof -
  have v: "prints (vec_serialize wr (u32_serialize wr) (si_compressed_sizes si))
      (enc_vec (to_le 4) (si_compressed_sizes si)) (length (enc_vec (to_le 4) (si_compressed_sizes si)))"
    by (rule prints_vec) (simp add: prints_u32)
  show ?thesis
    unfolding sizes_info_serialize_def enc_sizes_info_def length_append length_to_le
    by (rule prints_bindE [OF v], rule prints_last [OF prints_u32 prints_checked_add])
qed

lemma prints_compression_footer:
  "prints (bindE (lift_io (write_all wr EMPTY_TAIL_OPTS_SERIALIZATION)) (\<lambda>_.
     bindE (sizes_info_serialize wr si) (u64_serialize wr)))
   (EMPTY_TAIL_OPTS_SERIALIZATION @ enc_sizes_info si @ to_le 8 (length (enc_sizes_info si))) 8"
  by (rule prints_bindE, rule prints_lift_io, rule prints_write_all, rule prints_bindE,
      rule prints_sizes_info, rule prints_u64)

end

context source
begin

lemma parses_sizes_info:
  assumes "\<forall>x\<in>set (si_compressed_sizes si). x < 2 ^ 32" and "length (si_compressed_sizes si) < 2 ^ 64"
    and "si_last_block_size si < 2 ^ 32"
  shows "parses (sizes_info_deserialize rd) (enc_sizes_info si) si"
proof -
  have v: "parses (vec_deserialize rd (u32_deserialize rd)) (enc_vec (to_le 4) (si_compressed_sizes si)) (si_compressed_sizes si)"
    by (rule parses_vec) (use assms parses_u32 in auto)
  show ?thesis
    unfolding sizes_info_deserialize_def enc_sizes_info_def
    by (rule parses_bindE [OF v], rule parses_last, rule parses_u32, use assms in simp,
        rule parses_cong [OF parses_ret]) simp_all
qed

end

section \<open>The state of the writer\<close>

definition comp_wstate ::
  "(bytes \<Rightarrow> bytes option) \<Rightarrow> nat \<Rightarrow> ('w \<Rightarrow> bytes) \<Rightarrow> ('w \<Rightarrow> bool) \<Rightarrow> ('w \<Rightarrow> nat) \<Rightarrow>
   ('w writer_with_count \<Rightarrow> bytes \<Rightarrow> 'c \<Rightarrow> bool) \<Rightarrow> 'w \<Rightarrow> bytes list \<Rightarrow> bytes list \<Rightarrow> bytes \<Rightarrow>
   ('w, 'c) compression_writer \<Rightarrow> bool" where
  "comp_wstate decode bound out winv room J w0 cs ds cur s \<longleftrightarrow>
     cw_level s \<le> 11 \<and> cw_compressed_sizes s = map length cs \<and> compressed_as decode bound cs ds \<and>
     (\<forall>d\<in>set ds. length d = UNCOMPRESSED_DATA_SIZE) \<and> length cur \<le> UNCOMPRESSED_DATA_SIZE \<and>
     (\<exists>w. winv w \<and> out w = out w0 @ concat cs \<and> room w0 \<le> room w + length (concat cs) \<and>
       (case cw_state s of
          WReady w' \<Rightarrow> w' = w \<and> cur = []
        | WInData n c \<Rightarrow> n = length cur \<and> bound \<le> room w \<and> J (writer_with_count_new w) cur c
        | WEmpty \<Rightarrow> False))"

lemma compressed_as_snoc:
  "compressed_as decode bound cs ds \<Longrightarrow> decode c = Some d \<Longrightarrow> length c \<le> bound \<Longrightarrow>
   compressed_as decode bound (cs @ [c]) (ds @ [d])"
  by (simp add: compressed_as_def list_all2_appendI)

lemma compressed_as_length: "compressed_as decode bound cs ds \<Longrightarrow> length cs = length ds"
  by (simp add: compressed_as_def list_all2_lengthD)

lemma length_concat_le: "\<forall>c\<in>set cs. length c \<le> (n :: nat) \<Longrightarrow> length (concat cs) \<le> length cs * n"
  by (induction cs) auto

lemma compressed_as_bound: "compressed_as decode bound cs ds \<Longrightarrow> length (concat cs) \<le> length ds * bound"
  using length_concat_le [of cs bound]
  by (force simp: compressed_as_def list_all2_conv_all_nth in_set_conv_nth)

context room_sink
begin

text \<open>The end of a block: the compressor is turned into its inner writer.\<close>

lemma comp_into_inner:
  assumes L: "brotli_writer_laws decode bound wr B J"
    and s: "comp_wstate decode bound out winv room J w0 cs ds cur s" and st: "cw_state s = WInData n c"
  obtains x where "decode x = Some cur" "length x \<le> bound" "wc_pos (bw_into_inner B c) = length x"
    "winv (wc_inner (bw_into_inner B c))" "out (wc_inner (bw_into_inner B c)) = out w0 @ concat (cs @ [x])"
    "room w0 \<le> room (wc_inner (bw_into_inner B c)) + length (concat (cs @ [x]))"
proof -
  from s st obtain w where w: "winv w" "out w = out w0 @ concat cs" "room w0 \<le> room w + length (concat cs)"
    "bound \<le> room w" "J (writer_with_count_new w) cur c"
    by (auto simp: comp_wstate_def)
  from L w(5) obtain x where x: "decode x = Some cur"
    "written_by (count_write wr) bound (writer_with_count_new w) x (bw_into_inner B c)"
    unfolding brotli_writer_laws_def by blast
  from written_by_count [OF x(2)] have c: "written_by wr bound w x (wc_inner (bw_into_inner B c))"
    "wc_pos (bw_into_inner B c) = length x" by (simp_all add: writer_with_count_new_def)
  from written_by_room [OF c(1) w(1,4)] have i: "winv (wc_inner (bw_into_inner B c))"
    "out (wc_inner (bw_into_inner B c)) = out w @ x"
    "room w \<le> room (wc_inner (bw_into_inner B c)) + length x" by auto
  show thesis
    by (rule that [OF x(1) written_by_length [OF x(2)] c(2) i(1)]) (use i w in simp_all)
qed

lemma comp_write_ready:
  assumes L: "brotli_writer_laws decode bound wr B J"
    and s: "comp_wstate decode bound out winv room J w0 cs ds cur s" and st: "cw_state s = WReady w"
    and r: "(length ds + 1) * bound \<le> room w0"
  shows "\<exists>k s'. compression_write B buf s = (Inr k, s') \<and> k \<le> length buf \<and> (buf \<noteq> [] \<longrightarrow> 0 < k) \<and>
    cur = [] \<and> comp_wstate decode bound out winv room J w0 cs ds (take k buf) s' \<and> in_data s'"
proof -
  let ?sz = "min UNCOMPRESSED_DATA_SIZE (length buf)"
  from s st have w: "winv w" "out w = out w0 @ concat cs" "room w0 \<le> room w + length (concat cs)" "cur = []"
    by (auto simp: comp_wstate_def)
  have "length (concat cs) \<le> length ds * bound"
    using s by (intro compressed_as_bound [of decode bound]) (simp add: comp_wstate_def)
  then have b: "bound \<le> room w" using r w(3) by simp
  have "accepts (count_write wr) bound (writer_with_count_new w)"
    by (rule accepts_count) (use w(1) b L in \<open>auto simp: writer_with_count_new_def brotli_writer_laws_def\<close>)
  moreover have "cw_level s \<le> 11" using s by (simp add: comp_wstate_def)
  ultimately have J0: "J (writer_with_count_new w) [] (bw_new B (writer_with_count_new w) 0 (cw_level s) BROTLI_LOG_WINDOW)"
    using L unfolding brotli_writer_laws_def by blast
  have "length ([] :: bytes) + length (take ?sz buf) \<le> UNCOMPRESSED_DATA_SIZE" by simp
  with L J0 obtain k c' where k: "bw_write B (take ?sz buf) (bw_new B (writer_with_count_new w) 0 (cw_level s) BROTLI_LOG_WINDOW) = (Inr k, c')"
    "k \<le> length (take ?sz buf)" "take ?sz buf \<noteq> [] \<longrightarrow> 0 < k" "J (writer_with_count_new w) ([] @ take k (take ?sz buf)) c'"
    unfolding brotli_writer_laws_def by blast
  have k2: "k \<le> ?sz" "take k (take ?sz buf) = take k buf" using k(2) by auto
  then have "k < 2 ^ 32" by (simp add: UNCOMPRESSED_DATA_SIZE_def)
  then have "compression_write B buf s = (Inr k, s\<lparr>cw_state := WInData k c'\<rparr>)"
    using k(1) st by (subst compression_write.simps) (simp add: Let_def u32_try_from_def)
  moreover have "comp_wstate decode bound out winv room J w0 cs ds (take k buf) (s\<lparr>cw_state := WInData k c'\<rparr>)"
    using s w b k(4) k2 by (auto simp: comp_wstate_def intro!: exI [of _ w])
  moreover have "buf \<noteq> [] \<longrightarrow> 0 < k" using k(3) by (auto simp: UNCOMPRESSED_DATA_SIZE_def)
  moreover have "in_data (s\<lparr>cw_state := WInData k c'\<rparr>)" by (simp add: in_data_def)
  ultimately show ?thesis using k2 w(4) by auto
qed

lemma comp_write_ok:
  assumes L: "brotli_writer_laws decode bound wr B J"
    and s: "comp_wstate decode bound out winv room J w0 cs ds cur s"
    and r: "(length ds + 2) * bound \<le> room w0"
  shows "\<exists>k s' cs' ds' cur'. compression_write B buf s = (Inr k, s') \<and> k \<le> length buf \<and> (buf \<noteq> [] \<longrightarrow> 0 < k) \<and>
    comp_wstate decode bound out winv room J w0 cs' ds' cur' s' \<and> concat ds' @ cur' = concat ds @ cur @ take k buf \<and>
    in_data s'"
proof (cases "cw_state s")
  case (WReady w)
  have "(length ds + 1) * bound \<le> room w0" using r by simp
  from comp_write_ready [OF L s WReady this, of buf] obtain k s' where
    k: "compression_write B buf s = (Inr k, s')" "k \<le> length buf" "buf \<noteq> [] \<longrightarrow> 0 < k" "cur = []"
    "comp_wstate decode bound out winv room J w0 cs ds (take k buf) s'" "in_data s'" by blast
  then show ?thesis
    by (intro exI [of _ k] exI [of _ s'] exI [of _ cs] exI [of _ ds] exI [of _ "take k buf"]) simp
next
  case (WInData n c)
  then have n: "n = length cur" "n \<le> UNCOMPRESSED_DATA_SIZE" using s by (auto simp: comp_wstate_def)
  show ?thesis
  proof (cases "n = UNCOMPRESSED_DATA_SIZE")
    case True
    let ?i = "bw_into_inner B c"
    let ?s = "s\<lparr>cw_compressed_sizes := cw_compressed_sizes s @ [wc_pos ?i], cw_state := WReady (wc_inner ?i)\<rparr>"
    from comp_into_inner [OF L s WInData] obtain x where x: "decode x = Some cur" "length x \<le> bound"
      "wc_pos ?i = length x" "winv (wc_inner ?i)" "out (wc_inner ?i) = out w0 @ concat (cs @ [x])"
      "room w0 \<le> room (wc_inner ?i) + length (concat (cs @ [x]))" .
    have s1: "comp_wstate decode bound out winv room J w0 (cs @ [x]) (ds @ [cur]) [] ?s"
      using s x True n compressed_as_snoc [of decode bound cs ds x cur] by (auto simp: comp_wstate_def)
    have "(length (ds @ [cur]) + 1) * bound \<le> room w0" using r by simp
    from comp_write_ready [OF L s1 _ this, of "wc_inner ?i" buf] obtain k s' where
      k: "compression_write B buf ?s = (Inr k, s')" "k \<le> length buf" "buf \<noteq> [] \<longrightarrow> 0 < k"
      "comp_wstate decode bound out winv room J w0 (cs @ [x]) (ds @ [cur]) (take k buf) s'" "in_data s'" by auto
    have "compression_write B buf s = compression_write B buf ?s"
      using WInData True by (subst compression_write.simps) (simp add: Let_def)
    with k show ?thesis by (intro exI [of _ k] exI [of _ s'] exI [of _ "cs @ [x]"] exI [of _ "ds @ [cur]"]) auto
  next
    case False
    let ?sz = "min (UNCOMPRESSED_DATA_SIZE - n) (length buf)"
    from s WInData obtain w where w: "winv w" "out w = out w0 @ concat cs" "room w0 \<le> room w + length (concat cs)"
      "bound \<le> room w" "J (writer_with_count_new w) cur c" by (auto simp: comp_wstate_def)
    have "length cur + length (take ?sz buf) \<le> UNCOMPRESSED_DATA_SIZE" using n by simp
    with L w(5) obtain k c' where k: "bw_write B (take ?sz buf) c = (Inr k, c')"
      "k \<le> length (take ?sz buf)" "take ?sz buf \<noteq> [] \<longrightarrow> 0 < k" "J (writer_with_count_new w) (cur @ take k (take ?sz buf)) c'"
      unfolding brotli_writer_laws_def by blast
    have k2: "k \<le> ?sz" "take k (take ?sz buf) = take k buf" using k(2) by auto
    then have "k + n \<le> UNCOMPRESSED_DATA_SIZE" using n(2) by linarith
    then have "k + n < 2 ^ 32" "k < 2 ^ 32" by (simp_all add: UNCOMPRESSED_DATA_SIZE_def)
    then have "compression_write B buf s = (Inr k, s\<lparr>cw_state := WInData (k + n) c'\<rparr>)"
      using k(1) WInData False n(2)
      by (subst compression_write.simps) (simp add: Let_def u32_try_from_def checked_add_u32_def)
    moreover have "comp_wstate decode bound out winv room J w0 cs ds (cur @ take k buf) (s\<lparr>cw_state := WInData (k + n) c'\<rparr>)"
      using s w k(4) k2 n by (auto simp: comp_wstate_def intro!: exI [of _ w])
    moreover have "buf \<noteq> [] \<longrightarrow> 0 < k" using k(3) False n(2) by auto
    moreover have "in_data (s\<lparr>cw_state := WInData (k + n) c'\<rparr>)" by (simp add: in_data_def)
    ultimately show ?thesis using k2
      by (intro exI [of _ k] exI [of _ "s\<lparr>cw_state := WInData (k + n) c'\<rparr>"] exI [of _ cs] exI [of _ ds]
          exI [of _ "cur @ take k buf"]) auto
  qed
next
  case WEmpty
  then show ?thesis using s by (simp add: comp_wstate_def)
qed

end

text \<open>A client that makes any successful calls of \<^verbatim>\<open>write\<close>.\<close>

inductive comp_session ::
  "('w, 'c) brotli_writer \<Rightarrow> ('w, 'c) compression_writer \<Rightarrow> ('w, 'c) compression_writer \<Rightarrow> bytes \<Rightarrow> bool"
  for B s0 where
  comp_begin: "comp_session B s0 s0 []"
| comp_writes: "comp_session B s0 s pt \<Longrightarrow> compression_write B buf s = (Inr k, s') \<Longrightarrow>
    comp_session B s0 s' (pt @ take k buf)"

text \<open>The room the layer may need for \<open>n\<close> bytes: one bound for each block, the open ones included.\<close>

definition comp_budget :: "nat \<Rightarrow> nat \<Rightarrow> nat" where
  "comp_budget bound n = (n div UNCOMPRESSED_DATA_SIZE + 2) * bound"

lemma comp_budget_mono: "m \<le> n \<Longrightarrow> comp_budget bound m \<le> comp_budget bound n"
  by (simp add: comp_budget_def div_le_mono)

lemma comp_budget_blocks:
  assumes "\<forall>d\<in>set ds. length d = UNCOMPRESSED_DATA_SIZE"
  shows "(length ds + 2) * bound \<le> comp_budget bound (length (concat ds @ cur))"
proof -
  have "length (concat ds) = length ds * UNCOMPRESSED_DATA_SIZE" using assms by (induction ds) auto
  then have "length ds \<le> length (concat ds @ cur) div UNCOMPRESSED_DATA_SIZE"
    by (simp add: UNCOMPRESSED_DATA_SIZE_def)
  then show ?thesis unfolding comp_budget_def by (intro mult_le_mono1) simp
qed

context room_sink
begin

lemma comp_session_state:
  assumes ses: "comp_session B s0 s pt" and L: "brotli_writer_laws decode bound wr B J"
    and s0: "comp_wstate decode bound out winv room J w0 [] [] [] s0" and r: "comp_budget bound (length pt) \<le> room w0"
  shows "\<exists>cs ds cur. comp_wstate decode bound out winv room J w0 cs ds cur s \<and> concat ds @ cur = pt \<and>
    (in_data s \<or> ds = [])"
  using ses r
proof induction
  case comp_begin
  then show ?case using s0 by (intro exI [of _ "[]"]) simp
next
  case (comp_writes s pt buf k s')
  have "comp_budget bound (length pt) \<le> room w0"
    using comp_writes.prems comp_budget_mono [of "length pt" "length (pt @ take k buf)" bound] by simp
  then obtain cs ds cur where s: "comp_wstate decode bound out winv room J w0 cs ds cur s" "concat ds @ cur = pt"
    using comp_writes.IH by blast
  have "\<forall>d\<in>set ds. length d = UNCOMPRESSED_DATA_SIZE" using s(1) by (simp add: comp_wstate_def)
  from comp_budget_blocks [OF this, of bound cur] s(2) \<open>comp_budget bound (length pt) \<le> room w0\<close>
  have "(length ds + 2) * bound \<le> room w0" by simp
  from comp_write_ok [OF L s(1) this, of buf] comp_writes.hyps(2) obtain cs' ds' cur' where
    "comp_wstate decode bound out winv room J w0 cs' ds' cur' s'" "concat ds' @ cur' = concat ds @ cur @ take k buf"
    "in_data s'" by auto
  then show ?case using s(2) by (intro exI [of _ cs'] exI [of _ ds'] exI [of _ cur']) simp
qed

lemma comp_close_ok:
  assumes L: "brotli_writer_laws decode bound wr B J"
    and s: "comp_wstate decode bound out winv room J w0 cs ds cur s" and d: "in_data s \<or> ds = []"
  shows "\<exists>w1 cs' ds'. compression_close B s = Inr (w1, comp_index cs' ds') \<and> winv w1 \<and>
    out w1 = out w0 @ concat cs' \<and> room w0 \<le> room w1 + length (concat cs') \<and>
    compressed_as decode bound cs' ds' \<and> comp_blocks ds' (concat ds @ cur)"
proof (cases "cw_state s")
  case (WReady w)
  then have "ds = []" using d by (simp add: in_data_def)
  with s WReady show ?thesis
    by (intro exI [of _ w] exI [of _ "[]"] exI [of _ "[]"])
      (auto simp: comp_wstate_def compression_close_def comp_index_def last_size_def comp_blocks_def compressed_as_def)
next
  case (WInData n c)
  from comp_into_inner [OF L s WInData] obtain x where x: "decode x = Some cur" "length x \<le> bound"
    "wc_pos (bw_into_inner B c) = length x" "winv (wc_inner (bw_into_inner B c))"
    "out (wc_inner (bw_into_inner B c)) = out w0 @ concat (cs @ [x])"
    "room w0 \<le> room (wc_inner (bw_into_inner B c)) + length (concat (cs @ [x]))" .
  have st: "cw_compressed_sizes s = map length cs" "compressed_as decode bound cs ds" "n = length cur"
    "\<forall>d\<in>set ds. length d = UNCOMPRESSED_DATA_SIZE" "length cur \<le> UNCOMPRESSED_DATA_SIZE"
    using s WInData by (auto simp: comp_wstate_def)
  have "compression_close B s = Inr (wc_inner (bw_into_inner B c), comp_index (cs @ [x]) (ds @ [cur]))"
    using WInData st(1,3) x(3) by (simp add: compression_close_def comp_index_def last_size_def Let_def)
  moreover have "comp_blocks (ds @ [cur]) (concat ds @ cur)"
    using st(4,5) by (simp add: comp_blocks_def last_size_def)
  ultimately show ?thesis using x(4-6) compressed_as_snoc [OF st(2) x(1,2)] by blast
next
  case WEmpty
  then show ?thesis using s by (simp add: comp_wstate_def)
qed

lemma comp_finalize_out:
  assumes L: "brotli_writer_laws decode bound wr B J"
    and s: "comp_wstate decode bound out winv room J w0 cs ds cur s" and d: "in_data s \<or> ds = []"
    and f: "compression_finalize_writes B wr s = Inr w'"
  shows "\<exists>cs' ds'. winv w' \<and> out w' = out w0 @ comp_body cs' ds' \<and> compressed_as decode bound cs' ds' \<and>
    comp_blocks ds' (concat ds @ cur)"
proof -
  from comp_close_ok [OF L s d] obtain w1 cs' ds' where c: "compression_close B s = Inr (w1, comp_index cs' ds')"
    "winv w1" "out w1 = out w0 @ concat cs'" "compressed_as decode bound cs' ds'" "comp_blocks ds' (concat ds @ cur)"
    by blast
  from f c(1) obtain u where "bindE (lift_io (write_all wr EMPTY_TAIL_OPTS_SERIALIZATION)) (\<lambda>_.
      bindE (sizes_info_serialize wr (comp_index cs' ds')) (u64_serialize wr)) w1 = (Inr u, w')"
    by (auto simp: compression_finalize_writes_def split: prod.splits sum.splits)
  from printsD [OF prints_compression_footer c(2) this] c(3) have "winv w' \<and> out w' = out w0 @ comp_body cs' ds'"
    by (simp add: comp_body_def)
  with c(4,5) show ?thesis by blast
qed

lemma comp_new_state:
  assumes n: "compression_writer_new wr config w = Inr s" and "winv w" and "cc_compression_level config \<le> 11"
  obtains w1 where "winv w1" "out w1 = out w @ comp_header" "room w \<le> room w1 + 9 \<or> room w < 9"
    "comp_wstate decode bound out winv room J w1 [] [] [] s"
proof -
  from n obtain u w1 where w1: "bindE (lift_io (write_all wr COMPRESSION_LAYER_MAGIC)) (\<lambda>_. opts_dump wr) w = (Inr u, w1)"
    "s = compression_writer_new_skip_header config w1"
    by (auto simp: compression_writer_new_def split: prod.splits sum.splits)
  have "prints (bindE (lift_io (write_all wr COMPRESSION_LAYER_MAGIC)) (\<lambda>_. opts_dump wr))
      (COMPRESSION_LAYER_MAGIC @ EMPTY_OPTS_SERIALIZATION) 1"
    by (rule prints_bindE, rule prints_lift_io, rule prints_write_all, rule prints_opts)
  from printsD [OF this assms(2) w1(1)] have o: "winv w1" "out w1 = out w @ comp_header" by (auto simp: comp_header_def)
  have "runs (bindE (lift_io (write_all wr COMPRESSION_LAYER_MAGIC)) (\<lambda>_. opts_dump wr))
      (COMPRESSION_LAYER_MAGIC @ EMPTY_OPTS_SERIALIZATION) 1"
    by (rule runs_bindE, rule runs_lift_io, rule runs_write_all, rule runs_opts)
  from runsE [OF this assms(2)] w1(1) have "room w \<le> room w1 + 9 \<or> room w < 9"
    by (auto simp: EMPTY_OPTS_SERIALIZATION_def not_less)
  moreover have "comp_wstate decode bound out winv room J w1 [] [] [] s"
    using w1(2) o(1) assms(3)
    by (simp add: comp_wstate_def compression_writer_new_skip_header_def compressed_as_def)
  ultimately show thesis using o by (intro that)
qed

end

section \<open>A compressor\<close>

text \<open>The stored form, an instance of the parameter: the stream of a block is the block.\<close>

definition demo_brotli_writer ::
  "(bytes \<Rightarrow> ('w, io_error, nat) op) \<Rightarrow> ('w, 'w writer_with_count \<times> bytes) brotli_writer" where
  "demo_brotli_writer wr =
     \<lparr>bw_new = \<lambda>x b l g. (x, []),
      bw_write = \<lambda>bs c. (Inr (length bs), (fst c, snd c @ bs)),
      bw_flush = \<lambda>c. (Inr (), c),
      bw_into_inner = \<lambda>c. snd (write_all (count_write wr) (snd c) (fst c))\<rparr>"

lemma demo_brotli_writer_ok: "brotli_writer_ok Some UNCOMPRESSED_DATA_SIZE wr (demo_brotli_writer wr)"
proof -
  let ?J = "\<lambda>x data c. c = (x, data) \<and> accepts (count_write wr) UNCOMPRESSED_DATA_SIZE x \<and>
    length data \<le> UNCOMPRESSED_DATA_SIZE"
  have "\<exists>cs. Some cs = Some data \<and> written_by (count_write wr) UNCOMPRESSED_DATA_SIZE x cs
      (bw_into_inner (demo_brotli_writer wr) c)" if "?J x data c" for x data c
    using accepts_write_all [of "count_write wr" UNCOMPRESSED_DATA_SIZE x data] that
    by (auto simp: demo_brotli_writer_def)
  then have "brotli_writer_laws Some UNCOMPRESSED_DATA_SIZE wr (demo_brotli_writer wr) ?J"
    unfolding brotli_writer_laws_def
    by (auto simp: demo_brotli_writer_def UNCOMPRESSED_DATA_SIZE_def)
  then show ?thesis unfolding brotli_writer_ok_def by blast
qed

section \<open>Properties\<close>

text \<open>C28: after any writes through the compression layer that the inner writer has room for, a further write
  does not fail and accepts at least one byte, and finalization leaves the header, the blocks, each a stream
  that decodes to 4 MiB of the data (the last one to the rest), and the index of their sizes.\<close>

theorem compression_layer_output:
  assumes "room_sink wr out winv room" and "brotli_writer_ok decode bound wr B" and "winv w0"
    and "cc_compression_level config \<le> 11" and "compression_writer_new wr config w0 = Inr s0"
    and "comp_session B s0 s pt" and "comp_budget bound (length pt) + 9 \<le> room w0"
  shows "(\<exists>k s'. compression_write B buf s = (Inr k, s') \<and> k \<le> length buf \<and> (buf \<noteq> [] \<longrightarrow> 0 < k)) \<and>
    (\<forall>w'. compression_finalize_writes B wr s = Inr w' \<longrightarrow>
       winv w' \<and> (\<exists>cs ds. out w' = out w0 @ comp_header @ comp_body cs ds \<and>
         compressed_as decode bound cs ds \<and> comp_blocks ds pt))"
proof -
  from assms(2) obtain J where L: "brotli_writer_laws decode bound wr B J" by (auto simp: brotli_writer_ok_def)
  from room_sink.comp_new_state [OF assms(1,5,3,4)] obtain w1 where
    w1: "winv w1" "out w1 = out w0 @ comp_header" "room w0 \<le> room w1 + 9 \<or> room w0 < 9"
    "comp_wstate decode bound out winv room J w1 [] [] [] s0" .
  have r: "comp_budget bound (length pt) \<le> room w1" using w1(3) assms(7) by linarith
  from room_sink.comp_session_state [OF assms(1,6) L w1(4) r] obtain cs ds cur where
    s: "comp_wstate decode bound out winv room J w1 cs ds cur s" "concat ds @ cur = pt" "in_data s \<or> ds = []" by blast
  have "\<forall>d\<in>set ds. length d = UNCOMPRESSED_DATA_SIZE" using s(1) by (simp add: comp_wstate_def)
  from comp_budget_blocks [OF this, of bound cur] s(2) r have "(length ds + 2) * bound \<le> room w1" by simp
  from room_sink.comp_write_ok [OF assms(1) L s(1) this, of buf]
  have a: "\<exists>k s'. compression_write B buf s = (Inr k, s') \<and> k \<le> length buf \<and> (buf \<noteq> [] \<longrightarrow> 0 < k)" by blast
  have "winv w' \<and> (\<exists>cs ds. out w' = out w0 @ comp_header @ comp_body cs ds \<and> compressed_as decode bound cs ds \<and> comp_blocks ds pt)"
    if "compression_finalize_writes B wr s = Inr w'" for w'
    using room_sink.comp_finalize_out [OF assms(1) L s(1,3) that] w1(2) s(2) by auto
  with a show ?thesis by blast
qed

lemma demo_compression_new:
  "compression_writer_new vec_write compression_config_default [] =
   Inr \<lparr>cw_state = WReady comp_header, cw_compressed_sizes = [], cw_level = 5\<rparr>"
  by (simp add: compression_writer_new_def compression_writer_new_skip_header_def compression_config_default_def
      DEFAULT_COMPRESSION_LEVEL_def opts_dump_def bindE_def lift_io_def map_errE_def write_all_vec ret_def comp_header_def)

lemma demo_compression_write:
  "compression_write (demo_brotli_writer vec_write) [1, 2, 3] \<lparr>cw_state = WReady comp_header, cw_compressed_sizes = [], cw_level = 5\<rparr> =
   (Inr 3, \<lparr>cw_state = WInData 3 (writer_with_count_new comp_header, [1, 2, 3]), cw_compressed_sizes = [], cw_level = 5\<rparr>)"
  by (subst compression_write.simps)
    (simp add: demo_brotli_writer_def UNCOMPRESSED_DATA_SIZE_def u32_try_from_def)

lemma demo_compression_finalize:
  "compression_finalize_writes (demo_brotli_writer vec_write) vec_write
     \<lparr>cw_state = WInData 3 (writer_with_count_new comp_header, [1, 2, 3]), cw_compressed_sizes = [], cw_level = 5\<rparr> =
   Inr (comp_header @ comp_body [[1, 2, 3]] [[1, 2, 3]])"
  by (simp add: compression_finalize_writes_def compression_close_def demo_brotli_writer_def write_all.simps count_write_def
      writer_with_count_new_def vec_write_def u32_try_from_def checked_add_u32_def sizes_info_serialize_def
      vec_serialize_def slice_serialize_def u64_serialize_def u32_serialize_def bindE_def lift_io_def map_errE_def
      ret_def lift_res_def checked_add_def comp_body_def comp_index_def enc_sizes_info_def enc_vec_def last_size_def
      EMPTY_TAIL_OPTS_SERIALIZATION_def numeral_3_eq_3 del: to_le.simps)

theorem compression_layer_output_witness:
  "\<exists>s0 s w'. compression_writer_new vec_write compression_config_default [] = Inr s0 \<and>
    comp_session (demo_brotli_writer vec_write) s0 s [1, 2, 3] \<and>
    compression_finalize_writes (demo_brotli_writer vec_write) vec_write s = Inr w' \<and>
    (\<exists>cs ds. w' = comp_header @ comp_body cs ds \<and> compressed_as Some UNCOMPRESSED_DATA_SIZE cs ds \<and> comp_blocks ds [1, 2, 3])"
proof -
  let ?new = "\<lparr>cw_state = WReady comp_header, cw_compressed_sizes = [], cw_level = 5\<rparr>"
  let ?s = "\<lparr>cw_state = WInData 3 (writer_with_count_new comp_header, [1, 2, 3]), cw_compressed_sizes = [], cw_level = 5\<rparr>"
  have ses: "comp_session (demo_brotli_writer vec_write) ?new ?s [1, 2, 3]"
    using comp_writes [OF comp_begin demo_compression_write] by simp
  have l: "cc_compression_level compression_config_default \<le> 11"
    by (simp add: compression_config_default_def DEFAULT_COMPRESSION_LEVEL_def)
  have r: "comp_budget UNCOMPRESSED_DATA_SIZE (length [1, 2, 3 :: u8]) + 9 \<le> vec_room []"
    by (simp add: comp_budget_def UNCOMPRESSED_DATA_SIZE_def vec_room_def)
  from compression_layer_output [OF vec.room_sink_axioms demo_brotli_writer_ok TrueI l demo_compression_new ses r]
  show ?thesis using demo_compression_new ses demo_compression_finalize by fastforce
qed

end
