(* ===== verification/CompressReader.thy ===== *)
theory CompressReader
  imports CompressWriter
begin

text \<open>
  The reading half of the compression layer (\<^verbatim>\<open>mla/src/layers/compress.rs\<close>): the lookups in
  \<^verbatim>\<open>SizesInfo\<close> and \<^verbatim>\<open>CompressionLayerReader\<close>, a seekable reader on the uncompressed data.
  The parameter \<open>brotli_reader\<close> is \<^verbatim>\<open>brotli::Decompressor\<close> over a \<^verbatim>\<open>Take\<close> of the inner layer; what the
  code relies on is \<open>brotli_reader_ok\<close>.
\<close>

section \<open>A limited reader\<close>

record 'x take_reader =
  tk_inner :: 'x
  tk_limit :: nat

definition take_reader_read :: "(nat \<Rightarrow> ('x, io_error, bytes) op) \<Rightarrow> nat \<Rightarrow> ('x take_reader, io_error, bytes) op" where
  "take_reader_read rd n t =
     (if tk_limit t = 0 then (Inr [], t)
      else case rd (min n (tk_limit t)) (tk_inner t) of
          (Inl e, r) \<Rightarrow> (Inl e, t\<lparr>tk_inner := r\<rparr>)
        | (Inr bs, r) \<Rightarrow> (Inr bs, t\<lparr>tk_inner := r, tk_limit := tk_limit t - length bs\<rparr>))"

section \<open>Lookups in the index\<close>

definition sizes_uncompressed_block_size_at :: "sizes_info \<Rightarrow> nat \<Rightarrow> error + nat" where
  "sizes_uncompressed_block_size_at si block_num =
     (case checked_sub (length (si_compressed_sizes si)) 1 of
        None \<Rightarrow> Inl DeserializationError
      | Some n \<Rightarrow> Inr (if block_num < n then UNCOMPRESSED_DATA_SIZE else si_last_block_size si))"

definition compressed_block_size_at :: "sizes_info \<Rightarrow> nat \<Rightarrow> error + nat" where
  "compressed_block_size_at si uncompressed_pos =
     (let block_num = uncompressed_pos div UNCOMPRESSED_DATA_SIZE
      in if block_num < length (si_compressed_sizes si) then Inr (si_compressed_sizes si ! block_num)
         else Inl DeserializationError)"

definition max_uncompressed_pos :: "sizes_info \<Rightarrow> error + nat" where
  "max_uncompressed_pos si =
     ok_or DeserializationError
       (Option.bind (checked_sub (length (si_compressed_sizes si)) 1) (\<lambda>n.
        Option.bind (checked_mul n UNCOMPRESSED_DATA_SIZE) (\<lambda>m.
          checked_add m (si_last_block_size si))))"

section \<open>The layer\<close>

record ('x, 'd) brotli_reader =
  br_new :: "'x take_reader \<Rightarrow> nat \<Rightarrow> 'd"
  br_read :: "nat \<Rightarrow> ('d, io_error, bytes) op"
  br_into_inner :: "'d \<Rightarrow> 'x take_reader"

datatype ('x, 'd) compression_reader_state = CReady 'x | CInData nat nat 'd | CEmpty

record ('x, 'd) compression_reader =
  cr_state :: "('x, 'd) compression_reader_state"
  cr_sizes_info :: "sizes_info option"
  cr_underlayer_pos :: nat

text \<open>\<^verbatim>\<open>into_inner\<close> panics on the \<^verbatim>\<open>Empty\<close> placeholder.\<close>

definition reader_state_into_inner :: "('x, 'd) brotli_reader \<Rightarrow> ('x, 'd) compression_reader_state \<Rightarrow> 'x option" where
  "reader_state_into_inner B st =
     (case st of
        CReady inner \<Rightarrow> Some inner
      | CInData _ _ d \<Rightarrow> Some (tk_inner (br_into_inner B d))
      | CEmpty \<Rightarrow> None)"

definition compression_reader_new_skip_header ::
  "(seek_from \<Rightarrow> ('r, io_error, nat) op) \<Rightarrow> 'r \<Rightarrow> error + ('r strip_reader, 'd) compression_reader" where
  "compression_reader_new_skip_header sk inner =
     (case lift_io (bindE (stream_position sk) (\<lambda>underlayer_pos.
           bindE (sk (SeekEnd 0)) (\<lambda>inner_len.
           bindE (sk (SeekStart underlayer_pos)) (\<lambda>_. ret (underlayer_pos, inner_len))))) inner of
        (Inl e, _) \<Rightarrow> Inl e
      | (Inr (underlayer_pos, inner_len), inner') \<Rightarrow>
          (case strip_reader_new inner' underlayer_pos 0 inner_len 0 of
             Inl e \<Rightarrow> Inl e
           | Inr stripped \<Rightarrow>
               Inr \<lparr>cr_state = CReady stripped, cr_sizes_info = None, cr_underlayer_pos = 0\<rparr>))"

definition compression_reader_new_skip_magic ::
  "(nat \<Rightarrow> ('r, io_error, bytes) op) \<Rightarrow> (seek_from \<Rightarrow> ('r, io_error, nat) op) \<Rightarrow> 'r \<Rightarrow>
   error + ('r strip_reader, 'd) compression_reader" where
  "compression_reader_new_skip_magic rd sk inner =
     (case opts_from_reader rd inner of
        (Inl e, _) \<Rightarrow> Inl e
      | (Inr _, inner') \<Rightarrow> compression_reader_new_skip_header sk inner')"

definition pos_in_stream :: "sizes_info option \<Rightarrow> nat \<Rightarrow> error + bool" where
  "pos_in_stream sizes uncompressed_pos =
     (case sizes of
        None \<Rightarrow> Inr True
      | Some si \<Rightarrow> (case max_uncompressed_pos si of Inl e \<Rightarrow> Inl e | Inr pos_max \<Rightarrow> Inr (uncompressed_pos < pos_max)))"

text \<open>The three helpers check that the position is the start of a block of the stream.\<close>

definition check_start :: "sizes_info option \<Rightarrow> nat \<Rightarrow> string \<Rightarrow> error + unit" where
  "check_start sizes uncompressed_pos msg =
     (if \<not> UNCOMPRESSED_DATA_SIZE dvd uncompressed_pos then Inl (BadAPIArgument msg)
      else case pos_in_stream sizes uncompressed_pos of
          Inl e \<Rightarrow> Inl e
        | Inr False \<Rightarrow> Inl EndOfStream
        | Inr True \<Rightarrow> Inr ())"

definition new_decompressor_at ::
  "('x, 'd) brotli_reader \<Rightarrow> sizes_info option \<Rightarrow> nat \<Rightarrow> 'x \<Rightarrow> error + 'd" where
  "new_decompressor_at B sizes uncompressed_pos inner =
     (case check_start sizes uncompressed_pos ''[new_decompressor_at] not a starting position'' of
        Inl e \<Rightarrow> Inl e
      | Inr _ \<Rightarrow>
          (case sizes of
             None \<Rightarrow> Inl MissingMetadata
           | Some si \<Rightarrow>
               (case compressed_block_size_at si uncompressed_pos of
                  Inl e \<Rightarrow> Inl e
                | Inr sz \<Rightarrow> Inr (br_new B \<lparr>tk_inner = inner, tk_limit = sz\<rparr> sz))))"

definition layer_uncompressed_block_size_at :: "sizes_info option \<Rightarrow> nat \<Rightarrow> error + nat" where
  "layer_uncompressed_block_size_at sizes uncompressed_pos =
     (case check_start sizes uncompressed_pos ''[uncompressed_block_size_at] not a starting position'' of
        Inl e \<Rightarrow> Inl e
      | Inr _ \<Rightarrow>
          (case sizes of
             None \<Rightarrow> Inl MissingMetadata
           | Some si \<Rightarrow> sizes_uncompressed_block_size_at si (uncompressed_pos div UNCOMPRESSED_DATA_SIZE)))"

definition sync_inner_with_uncompressed_pos ::
  "(seek_from \<Rightarrow> ('x, io_error, nat) op) \<Rightarrow> sizes_info option \<Rightarrow> nat \<Rightarrow> ('x, error, unit) op" where
  "sync_inner_with_uncompressed_pos sk sizes uncompressed_pos inner =
     (case check_start sizes uncompressed_pos ''[sync_inner_with_uncompressed_pos] not a starting position'' of
        Inl e \<Rightarrow> (Inl e, inner)
      | Inr _ \<Rightarrow>
          (case sizes of
             None \<Rightarrow> (Inl MissingMetadata, inner)
           | Some si \<Rightarrow>
               bindE (lift_io (sk (SeekStart (sum_list (take (uncompressed_pos div UNCOMPRESSED_DATA_SIZE)
                   (si_compressed_sizes si)) mod 2 ^ 64)))) (\<lambda>_. ret ()) inner))"

text \<open>The three calls \<^verbatim>\<open>read\<close> and \<^verbatim>\<open>seek\<close> make to start on a block.\<close>

definition open_block_at ::
  "('x, 'd) brotli_reader \<Rightarrow> (seek_from \<Rightarrow> ('x, io_error, nat) op) \<Rightarrow> sizes_info option \<Rightarrow> nat \<Rightarrow> 'x \<Rightarrow>
   error + 'd \<times> nat" where
  "open_block_at B sk sizes uncompressed_pos inner =
     (case sync_inner_with_uncompressed_pos sk sizes uncompressed_pos inner of
        (Inl e, _) \<Rightarrow> Inl e
      | (Inr _, inner') \<Rightarrow>
          (case new_decompressor_at B sizes uncompressed_pos inner' of
             Inl e \<Rightarrow> Inl e
           | Inr d \<Rightarrow>
               (case layer_uncompressed_block_size_at sizes uncompressed_pos of
                  Inl e \<Rightarrow> Inl e
                | Inr sz \<Rightarrow> Inr (d, sz))))"

definition compression_initialize ::
  "(nat \<Rightarrow> ('x, io_error, bytes) op) \<Rightarrow> (seek_from \<Rightarrow> ('x, io_error, nat) op) \<Rightarrow>
   (('x, 'd) compression_reader, error, unit) op" where
  "compression_initialize rd sk s =
     (case cr_state s of
        CReady inner \<Rightarrow>
          (case bindE (lift_io (sk (SeekEnd (- 8)))) (\<lambda>p.
                bindE (u64_deserialize rd) (\<lambda>len.
                bindE (lift_res (ok_or DeserializationError (checked_sub p len))) (\<lambda>start.
                bindE (lift_io (sk (SeekStart start))) (\<lambda>_ r.
                  case sizes_info_deserialize (take_reader_read rd) \<lparr>tk_inner = r, tk_limit = len\<rparr> of
                    (x, t) \<Rightarrow> (x, tk_inner t))))) inner of
             (Inl e, inner') \<Rightarrow> (Inl e, s\<lparr>cr_state := CReady inner'\<rparr>)
           | (Inr si, inner') \<Rightarrow> (Inr (), s\<lparr>cr_state := CReady inner', cr_sizes_info := Some si\<rparr>))
      | _ \<Rightarrow> (Inl (WrongReaderState ''[Compression Layer]: on initialization, must be in Ready state''), s))"

lemma block_not_empty:
  assumes "open_block_at B sk sizes p inner = Inr (d, sz)"
  shows "0 < sz"
proof -
  from assms obtain r d0 where st: "layer_uncompressed_block_size_at sizes p = Inr sz"
    by (auto simp: open_block_at_def split: prod.splits sum.splits)
  then obtain si where si: "sizes = Some si" "pos_in_stream sizes p = Inr True"
    "sizes_uncompressed_block_size_at si (p div UNCOMPRESSED_DATA_SIZE) = Inr sz"
    by (auto simp: layer_uncompressed_block_size_at_def check_start_def split: sum.splits option.splits if_splits bool.splits)
  then obtain n where n: "checked_sub (length (si_compressed_sizes si)) 1 = Some n"
    "p < n * UNCOMPRESSED_DATA_SIZE + si_last_block_size si"
    "sz = (if p div UNCOMPRESSED_DATA_SIZE < n then UNCOMPRESSED_DATA_SIZE else si_last_block_size si)"
    by (auto simp: pos_in_stream_def max_uncompressed_pos_def sizes_uncompressed_block_size_at_def ok_or_def
        bind_eq_Some_conv checked_mul_def checked_add_def split: sum.splits option.splits if_splits)
  show ?thesis
  proof (cases "p div UNCOMPRESSED_DATA_SIZE < n")
    case True
    then show ?thesis using n(3) by (simp add: UNCOMPRESSED_DATA_SIZE_def)
  next
    case False
    then have "n * UNCOMPRESSED_DATA_SIZE \<le> p div UNCOMPRESSED_DATA_SIZE * UNCOMPRESSED_DATA_SIZE"
      by (intro mult_le_mono1) simp
    also have "\<dots> \<le> p" by (rule div_times_less_eq_dividend)
    finally show ?thesis using n(2,3) False by simp
  qed
qed

text \<open>\<^verbatim>\<open>read\<close> calls itself at most twice: a block that is over gives the inner layer back, and a reader that
  is ready opens the next block, which is not empty.\<close>

function compression_read ::
  "('x, 'd) brotli_reader \<Rightarrow> (seek_from \<Rightarrow> ('x, io_error, nat) op) \<Rightarrow> nat \<Rightarrow>
   (('x, 'd) compression_reader, io_error, bytes) op" where
  "compression_read B sk n s =
     (case pos_in_stream (cr_sizes_info s) (cr_underlayer_pos s) of
        Inl _ \<Rightarrow> (Inl IoOther, s)
      | Inr False \<Rightarrow> (Inr [], s)
      | Inr True \<Rightarrow>
          (case cr_state s of
             CReady inner \<Rightarrow>
               (case open_block_at B sk (cr_sizes_info s) (cr_underlayer_pos s) inner of
                  Inl e \<Rightarrow> (Inl (io_error_from_error e), s\<lparr>cr_state := CEmpty\<rparr>)
                | Inr (d, uncompressed_size) \<Rightarrow>
                    compression_read B sk n (s\<lparr>cr_state := CInData 0 uncompressed_size d\<rparr>))
           | CInData read uncompressed_size d \<Rightarrow>
               if uncompressed_size < read then (Inl IoOther, s\<lparr>cr_state := CEmpty\<rparr>)
               else if read = uncompressed_size then
                 compression_read B sk n (s\<lparr>cr_state := CReady (tk_inner (br_into_inner B d))\<rparr>)
               else
                 (case br_read B (min (uncompressed_size - read) n) d of
                    (Inl e, _) \<Rightarrow> (Inl e, s\<lparr>cr_state := CEmpty\<rparr>)
                  | (Inr bs, d') \<Rightarrow>
                      (case checked_add (cr_underlayer_pos s) (length bs) of
                         None \<Rightarrow> (Inl IoOther, s\<lparr>cr_state := CEmpty\<rparr>)
                       | Some p \<Rightarrow>
                           (case Option.bind (u32_try_from (length bs)) (checked_add_u32 read) of
                              None \<Rightarrow> (Inl IoOther, s\<lparr>cr_state := CEmpty, cr_underlayer_pos := p\<rparr>)
                            | Some read' \<Rightarrow>
                                (Inr bs, s\<lparr>cr_state := CInData read' uncompressed_size d', cr_underlayer_pos := p\<rparr>))))
           | CEmpty \<Rightarrow> (Inl IoOther, s)))"
  by pat_completeness auto
termination
  by (relation "measure (\<lambda>(_, _, _, s). case cr_state s of
        CInData read sz _ \<Rightarrow> if read = sz then 2 else 0 | CReady _ \<Rightarrow> 1 | CEmpty \<Rightarrow> 0)")
    (auto dest: block_not_empty)

declare compression_read.simps [simp del]

definition compression_seek_start ::
  "('x, 'd) brotli_reader \<Rightarrow> (seek_from \<Rightarrow> ('x, io_error, nat) op) \<Rightarrow> nat \<Rightarrow>
   (('x, 'd) compression_reader, io_error, nat) op" where
  "compression_seek_start B sk p s =
     (let inside_block = p mod UNCOMPRESSED_DATA_SIZE; rounded_pos = p - inside_block
      in case reader_state_into_inner B (cr_state s) of
           None \<Rightarrow> (Inl IoPanic, s\<lparr>cr_state := CEmpty\<rparr>)
         | Some inner \<Rightarrow>
             (case open_block_at B sk (cr_sizes_info s) rounded_pos inner of
                Inl e \<Rightarrow> (Inl (io_error_from_error e), s\<lparr>cr_state := CEmpty\<rparr>)
              | Inr (d, uncompressed_size) \<Rightarrow>
                  (case copy_take (br_read B) sink_write inside_block (d, ()) of
                     (Inl e, _) \<Rightarrow> (Inl e, s\<lparr>cr_state := CEmpty\<rparr>)
                   | (Inr _, (d', _)) \<Rightarrow>
                       (Inr p, s\<lparr>cr_state := CInData inside_block uncompressed_size d', cr_underlayer_pos := p\<rparr>))))"

definition compression_seek ::
  "('x, 'd) brotli_reader \<Rightarrow> (seek_from \<Rightarrow> ('x, io_error, nat) op) \<Rightarrow> seek_from \<Rightarrow>
   (('x, 'd) compression_reader, io_error, nat) op" where
  "compression_seek B sk f s =
     (case cr_sizes_info s of
        None \<Rightarrow> (Inl IoOther, s)
      | Some si \<Rightarrow>
          (case f of
             SeekStart p \<Rightarrow> compression_seek_start B sk p s
           | SeekCurrent i \<Rightarrow>
               if i = 0 then (Inr (cr_underlayer_pos s), s)
               else (case Option.bind (i64_try_from (cr_underlayer_pos s)) (\<lambda>p.
                          Option.bind (checked_add_i64 p i) u64_try_from_i64) of
                       None \<Rightarrow> (Inl IoOther, s)
                     | Some new_pos \<Rightarrow> compression_seek_start B sk new_pos s)
           | SeekEnd i \<Rightarrow>
               if 0 < i then (Inl IoOther, s)
               else (case max_uncompressed_pos si of
                       Inl _ \<Rightarrow> (Inl InvalidInput, s)
                     | Inr end_pos \<Rightarrow>
                         (case checked_neg_i64 i of
                            None \<Rightarrow> (Inl InvalidInput, s)
                          | Some distance \<Rightarrow>
                              (case Option.bind (u64_try_from_i64 distance) (checked_sub end_pos) of
                                 None \<Rightarrow> (Inl IoOther, s)
                               | Some target_pos \<Rightarrow> compression_seek_start B sk target_pos s)))))"

section \<open>What the decompressor is relied on for\<close>

text \<open>A decompressor limited to a stream delivers what the stream decodes to, in pieces, and gives back an inner
  layer that was only read from. \<open>I v data d\<close>: the decompressor \<open>d\<close>, over an inner layer whose bytes are \<open>v\<close>, has
  \<open>data\<close> left.\<close>

definition brotli_reader_laws ::
  "(bytes \<Rightarrow> bytes option) \<Rightarrow> ('x \<Rightarrow> bytes) \<Rightarrow> ('x \<Rightarrow> nat) \<Rightarrow> ('x \<Rightarrow> bool) \<Rightarrow> ('x, 'd) brotli_reader \<Rightarrow>
   (bytes \<Rightarrow> bytes \<Rightarrow> 'd \<Rightarrow> bool) \<Rightarrow> bool" where
  "brotli_reader_laws decode view pos rinv B I \<longleftrightarrow>
     (\<forall>r n data. rinv r \<longrightarrow> pos r + n \<le> length (view r) \<longrightarrow> decode (take n (drop (pos r) (view r))) = Some data \<longrightarrow>
        I (view r) data (br_new B \<lparr>tk_inner = r, tk_limit = n\<rparr> n)) \<and>
     (\<forall>v data d n. I v data d \<longrightarrow>
        (\<exists>k d'. br_read B n d = (Inr (take k data), d') \<and> k \<le> n \<and> k \<le> length data \<and>
           (0 < n \<and> data \<noteq> [] \<longrightarrow> 0 < k) \<and> I v (drop k data) d')) \<and>
     (\<forall>v data d. I v data d \<longrightarrow>
        rinv (tk_inner (br_into_inner B d)) \<and> view (tk_inner (br_into_inner B d)) = v)"

definition brotli_reader_ok ::
  "(bytes \<Rightarrow> bytes option) \<Rightarrow> ('x \<Rightarrow> bytes) \<Rightarrow> ('x \<Rightarrow> nat) \<Rightarrow> ('x \<Rightarrow> bool) \<Rightarrow> ('x, 'd) brotli_reader \<Rightarrow> bool" where
  "brotli_reader_ok decode view pos rinv B \<longleftrightarrow> (\<exists>I. brotli_reader_laws decode view pos rinv B I)"

lemma brotli_newD:
  "brotli_reader_laws decode view pos rinv B I \<Longrightarrow> rinv r \<Longrightarrow> pos r + n \<le> length (view r) \<Longrightarrow>
   decode (take n (drop (pos r) (view r))) = Some data \<Longrightarrow> I (view r) data (br_new B \<lparr>tk_inner = r, tk_limit = n\<rparr> n)"
  unfolding brotli_reader_laws_def by blast

lemma brotli_readE:
  assumes "brotli_reader_laws decode view pos rinv B I" and "I v data d"
  obtains k d' where "br_read B n d = (Inr (take k data), d')" "k \<le> n" "k \<le> length data"
    "0 < n \<and> data \<noteq> [] \<longrightarrow> 0 < k" "I v (drop k data) d'"
  using assms unfolding brotli_reader_laws_def by blast

lemma brotli_innerD:
  "brotli_reader_laws decode view pos rinv B I \<Longrightarrow> I v data d \<Longrightarrow>
   rinv (tk_inner (br_into_inner B d)) \<and> view (tk_inner (br_into_inner B d)) = v"
  unfolding brotli_reader_laws_def by blast

lemma write_all_sink: "write_all sink_write bs () = (Inr (), ())"
  by (subst write_all.simps, cases bs) (auto simp: sink_write_def write_all.simps)

lemma copy_take_skip:
  assumes L: "brotli_reader_laws decode view pos rinv B I"
  shows "I v data d \<Longrightarrow> n \<le> length data \<Longrightarrow>
    \<exists>d'. copy_take (br_read B) sink_write n (d, ()) = (Inr (), (d', ())) \<and> I v (drop n data) d'"
proof (induction n arbitrary: d data rule: less_induct)
  case (less n)
  show ?case
  proof (cases "n = 0")
    case True
    then show ?thesis using less.prems by (subst copy_take.simps) simp
  next
    case False
    then have ne: "data \<noteq> []" using less.prems(2) by auto
    from L less.prems(1) obtain k d1 where k: "br_read B (min n COPY_BUF_SIZE) d = (Inr (take k data), d1)"
      "k \<le> min n COPY_BUF_SIZE" "k \<le> length data" "0 < min n COPY_BUF_SIZE \<and> data \<noteq> [] \<longrightarrow> 0 < k"
      "I v (drop k data) d1" by (rule brotli_readE)
    have pos: "0 < k" using k(4) ne False by (simp add: COPY_BUF_SIZE_def)
    have "\<exists>d'. copy_take (br_read B) sink_write (n - k) (d1, ()) = (Inr (), (d', ())) \<and> I v (drop (n - k) (drop k data)) d'"
      by (rule less.IH) (use pos False k less.prems in auto)
    moreover have "take k data \<noteq> []" using pos ne by simp
    ultimately show ?thesis
      using False k(1,2,3) by (subst copy_take.simps) (simp add: write_all_sink min_absorb2)
  qed
qed

section \<open>The blocks of the data\<close>

lemma comp_blocks_split:
  assumes "comp_blocks ds pt" and "b < length ds"
  shows "length (concat (take b ds)) = b * UNCOMPRESSED_DATA_SIZE"
    and "ds ! b = take UNCOMPRESSED_DATA_SIZE (drop (b * UNCOMPRESSED_DATA_SIZE) pt)"
    and "length pt = b * UNCOMPRESSED_DATA_SIZE + length (ds ! b) \<or> Suc b < length ds \<and> length (ds ! b) = UNCOMPRESSED_DATA_SIZE"
proof -
  have full: "length (ds ! i) = UNCOMPRESSED_DATA_SIZE" if "Suc i < length ds" for i
  proof -
    have "ds ! i = butlast ds ! i" "i < length (butlast ds)" using that by (simp_all add: nth_butlast)
    then have "ds ! i \<in> set (butlast ds)" by (metis nth_mem)
    then show ?thesis using assms(1) by (simp add: comp_blocks_def)
  qed
  show l: "length (concat (take b ds)) = b * UNCOMPRESSED_DATA_SIZE" using assms(2)
  proof (induction b)
    case 0
    then show ?case by simp
  next
    case (Suc b)
    then show ?case using full [of b] by (simp add: take_Suc_conv_app_nth)
  qed
  have pt: "pt = concat (take b ds) @ ds ! b @ concat (drop (Suc b) ds)"
    using assms by (simp add: comp_blocks_def id_take_nth_drop [of b ds, THEN arg_cong [of _ _ concat]])
  then have d: "drop (b * UNCOMPRESSED_DATA_SIZE) pt = ds ! b @ concat (drop (Suc b) ds)"
    using l by simp
  have le: "length (ds ! b) \<le> UNCOMPRESSED_DATA_SIZE" if "Suc b = length ds"
  proof -
    have "b = length ds - Suc 0" "ds \<noteq> []" using that by auto
    then show ?thesis using assms(1) by (simp add: comp_blocks_def last_size_def last_conv_nth)
  qed
  show "ds ! b = take UNCOMPRESSED_DATA_SIZE (drop (b * UNCOMPRESSED_DATA_SIZE) pt)"
  proof (cases "Suc b < length ds")
    case True
    then show ?thesis using d full by simp
  next
    case False
    then have "Suc b = length ds" using assms(2) by simp
    then show ?thesis using d le by simp
  qed
  show "length pt = b * UNCOMPRESSED_DATA_SIZE + length (ds ! b) \<or> Suc b < length ds \<and> length (ds ! b) = UNCOMPRESSED_DATA_SIZE"
  proof (cases "Suc b < length ds")
    case True
    then show ?thesis using full by simp
  next
    case False
    then have "length pt = length (concat (take b ds)) + length (ds ! b)" using assms(2) pt by simp
    then show ?thesis using l by simp
  qed
qed

lemma comp_blocks_length:
  assumes "comp_blocks ds pt" and "ds \<noteq> []"
  shows "length pt = (length ds - 1) * UNCOMPRESSED_DATA_SIZE + last_size ds"
proof -
  have "length ds - 1 < length ds" using assms(2) by simp
  from comp_blocks_split(3) [OF assms(1) this] assms(2) show ?thesis
    by (auto simp: last_size_def last_conv_nth)
qed

lemma comp_blocks_index:
  assumes "comp_blocks ds pt" and "p < length pt"
  shows "p div UNCOMPRESSED_DATA_SIZE < length ds"
    and "p mod UNCOMPRESSED_DATA_SIZE < length (ds ! (p div UNCOMPRESSED_DATA_SIZE))"
proof -
  let ?N = UNCOMPRESSED_DATA_SIZE
  have N: "0 < ?N" by (simp add: UNCOMPRESSED_DATA_SIZE_def)
  have ne: "ds \<noteq> []" using assms by (auto simp: comp_blocks_def)
  have "last_size ds \<le> ?N" using assms(1) by (simp add: comp_blocks_def)
  then have "length pt \<le> (length ds - 1) * ?N + ?N" using comp_blocks_length [OF assms(1) ne] by simp
  also have "\<dots> = length ds * ?N" using ne by (cases ds) auto
  finally have "p < length ds * ?N" using assms(2) by simp
  then show b: "p div ?N < length ds" using N by (simp add: div_less_iff_less_mult)
  have "p - p div ?N * ?N = p mod ?N" by (simp add: minus_div_mult_eq_mod)
  moreover have "p mod ?N < ?N" using N by simp
  moreover have "p div ?N * ?N \<le> p" by simp
  ultimately have "p mod ?N < ?N" "p mod ?N < length pt - p div ?N * ?N" using assms(2) by linarith+
  then show "p mod ?N < length (ds ! (p div ?N))"
    using comp_blocks_split(2) [OF assms(1) b] by simp
qed

lemma comp_index_max:
  assumes "comp_blocks ds pt" and "ds \<noteq> []" and "length cs = length ds" and "length pt < 2 ^ 63"
  shows "max_uncompressed_pos (comp_index cs ds) = Inr (length pt)"
proof -
  note l = comp_blocks_length [OF assms(1,2)]
  have "1 \<le> length cs" using assms(2,3) by (simp add: Suc_leI)
  then show ?thesis
    using l assms(3,4)
    by (simp add: max_uncompressed_pos_def comp_index_def checked_sub_def checked_mul_def checked_add_def)
qed

section \<open>The state of the reader\<close>

definition comp_rinv ::
  "('x \<Rightarrow> bytes) \<Rightarrow> ('x \<Rightarrow> bool) \<Rightarrow> (bytes \<Rightarrow> bytes \<Rightarrow> 'd \<Rightarrow> bool) \<Rightarrow> bytes list \<Rightarrow> bytes list \<Rightarrow>
   ('x, 'd) compression_reader \<Rightarrow> bool" where
  "comp_rinv view rinv I cs ds s \<longleftrightarrow> cr_sizes_info s = Some (comp_index cs ds) \<and>
     (case cr_state s of
        CReady r \<Rightarrow> rinv r \<and> view r = comp_body cs ds \<and> UNCOMPRESSED_DATA_SIZE dvd cr_underlayer_pos s
      | CInData read sz d \<Rightarrow>
          (\<exists>b. b < length ds \<and> sz = length (ds ! b) \<and> read \<le> sz \<and>
             cr_underlayer_pos s = b * UNCOMPRESSED_DATA_SIZE + read \<and> I (comp_body cs ds) (drop read (ds ! b)) d)
      | CEmpty \<Rightarrow> False)"

lemma check_start_ok:
  assumes "comp_blocks ds pt" and "length cs = length ds" and "length pt < 2 ^ 63"
    and "UNCOMPRESSED_DATA_SIZE dvd p" and "p < length pt"
  shows "check_start (Some (comp_index cs ds)) p msg = Inr ()"
proof -
  have "ds \<noteq> []" using assms(1,5) by (auto simp: comp_blocks_def)
  from comp_index_max [OF assms(1) this assms(2,3)] assms(4,5) show ?thesis
    by (simp add: check_start_def pos_in_stream_def)
qed

lemma drop_comp_body:
  assumes "b < length cs"
  shows "drop (sum_list (take b (map length cs))) (comp_body cs ds) =
     cs ! b @ concat (drop (Suc b) cs) @ drop (length (concat cs)) (comp_body cs ds)"
    and "sum_list (take b (map length cs)) < length (comp_body cs ds)"
proof -
  have s: "sum_list (take b (map length cs)) = length (concat (take b cs))"
    by (simp add: length_concat take_map)
  have c: "concat cs = concat (take b cs) @ cs ! b @ concat (drop (Suc b) cs)"
    using assms by (simp add: id_take_nth_drop [of b cs, THEN arg_cong [of _ _ concat]])
  then show "drop (sum_list (take b (map length cs))) (comp_body cs ds) =
     cs ! b @ concat (drop (Suc b) cs) @ drop (length (concat cs)) (comp_body cs ds)"
    unfolding s by (simp add: comp_body_def)
  show "sum_list (take b (map length cs)) < length (comp_body cs ds)"
    unfolding s comp_body_def by (simp add: c EMPTY_TAIL_OPTS_SERIALIZATION_def)
qed

context eof_seekable
begin

lemma open_block_ok:
  assumes L: "brotli_reader_laws decode view pos inv B I" and C: "compressed_as decode bound cs ds"
    and P: "comp_blocks ds pt" and lp: "length pt < 2 ^ 63" and lb: "length (comp_body cs ds) < 2 ^ 63"
    and p: "UNCOMPRESSED_DATA_SIZE dvd p" "p < length pt" and r: "inv r" "view r = comp_body cs ds"
  shows "\<exists>d. open_block_at B sk (Some (comp_index cs ds)) p r = Inr (d, length (ds ! (p div UNCOMPRESSED_DATA_SIZE))) \<and>
    I (comp_body cs ds) (ds ! (p div UNCOMPRESSED_DATA_SIZE)) d"
proof -
  let ?b = "p div UNCOMPRESSED_DATA_SIZE"
  have b: "?b < length ds" by (rule comp_blocks_index(1) [OF P p(2)])
  have lc: "length cs = length ds" by (rule compressed_as_length [OF C])
  then have bc: "?b < length cs" using b by simp
  note cst = check_start_ok [OF P lc lp p]
  note dr = drop_comp_body [OF bc, of ds]
  have dec: "decode (cs ! ?b) = Some (ds ! ?b)"
    using C bc by (simp add: compressed_as_def list_all2_conv_all_nth)
  from seek_start [OF r(1), of "sum_list (take ?b (map length cs))"] dr(2) r(2) obtain r1 where
    r1: "sk (SeekStart (sum_list (take ?b (map length cs)))) r = (Inr (sum_list (take ?b (map length cs))), r1)" "inv r1"
    "view r1 = comp_body cs ds" "pos r1 = sum_list (take ?b (map length cs))" by auto
  have "length (cs ! ?b) \<le> length (drop (pos r1) (view r1))" using dr(1) r1(3,4) by simp
  then have "pos r1 + length (cs ! ?b) \<le> length (view r1)" using dr(2) r1(3,4) by simp
  moreover have "take (length (cs ! ?b)) (drop (pos r1) (view r1)) = cs ! ?b" using dr(1) r1(3,4) by simp
  ultimately have I: "I (comp_body cs ds) (ds ! ?b) (br_new B \<lparr>tk_inner = r1, tk_limit = length (cs ! ?b)\<rparr> (length (cs ! ?b)))"
    using brotli_newD [OF L r1(2), of "length (cs ! ?b)"] dec r1(3) by simp
  have "sizes_uncompressed_block_size_at (comp_index cs ds) ?b = Inr (length (ds ! ?b))"
  proof (cases "Suc ?b < length ds")
    case True
    then have "?b < length ds - Suc 0" by simp
    moreover from this have "length (ds ! ?b) = UNCOMPRESSED_DATA_SIZE"
      using P nth_mem [of ?b "butlast ds"] by (simp add: comp_blocks_def nth_butlast)
    ultimately show ?thesis
      using lc by (simp add: sizes_uncompressed_block_size_at_def comp_index_def checked_sub_def)
  next
    case False
    then have e: "?b = length ds - Suc 0" "ds \<noteq> []" using b by auto
    then have "length (ds ! ?b) = last_size ds" by (simp add: last_size_def last_conv_nth)
    moreover have "Suc 0 \<le> length cs" "\<not> ?b < length cs - Suc 0" using e lc by (simp_all add: Suc_leI)
    ultimately show ?thesis
      by (simp add: sizes_uncompressed_block_size_at_def comp_index_def checked_sub_def)
  qed
  then have sz: "layer_uncompressed_block_size_at (Some (comp_index cs ds)) p = Inr (length (ds ! ?b))"
    using cst by (simp add: layer_uncompressed_block_size_at_def)
  have ix: "si_compressed_sizes (comp_index cs ds) = map length cs" by (simp add: comp_index_def)
  have "sum_list (take ?b (map length cs)) < 2 ^ 64" using dr(2) lb by simp
  then have sy: "sync_inner_with_uncompressed_pos sk (Some (comp_index cs ds)) p r = (Inr (), r1)"
    using cst r1(1) by (simp add: sync_inner_with_uncompressed_pos_def ix bindE_def lift_io_def map_errE_def ret_def)
  have nd: "new_decompressor_at B (Some (comp_index cs ds)) p r1 =
      Inr (br_new B \<lparr>tk_inner = r1, tk_limit = length (cs ! ?b)\<rparr> (length (cs ! ?b)))"
    using cst bc by (simp add: new_decompressor_at_def compressed_block_size_at_def ix)
  have "open_block_at B sk (Some (comp_index cs ds)) p r =
      Inr (br_new B \<lparr>tk_inner = r1, tk_limit = length (cs ! ?b)\<rparr> (length (cs ! ?b)), length (ds ! ?b))"
    by (simp add: open_block_at_def sy nd sz)
  with I show ?thesis by blast
qed

lemma comp_read_data:
  assumes L: "brotli_reader_laws decode view pos inv B I"
    and P: "comp_blocks ds pt" and lc: "length cs = length ds" and lp: "length pt < 2 ^ 63"
    and s: "comp_rinv view inv I cs ds s" and p: "cr_underlayer_pos s < length pt"
    and st: "cr_state s = CInData read sz d" "read \<noteq> sz"
  shows "\<exists>k s'. compression_read B sk n s = (Inr (take k (drop (cr_underlayer_pos s) pt)), s') \<and> k \<le> n \<and>
    k \<le> length pt - cr_underlayer_pos s \<and> (0 < n \<longrightarrow> 0 < k) \<and> comp_rinv view inv I cs ds s' \<and>
    cr_underlayer_pos s' = cr_underlayer_pos s + k"
proof -
  let ?N = UNCOMPRESSED_DATA_SIZE
  from s st obtain b where b: "cr_sizes_info s = Some (comp_index cs ds)" "b < length ds" "sz = length (ds ! b)"
    "read < sz" "cr_underlayer_pos s = b * ?N + read" "I (comp_body cs ds) (drop read (ds ! b)) d"
    by (auto simp: comp_rinv_def)
  have "ds \<noteq> []" using b(2) by auto
  then have pis: "pos_in_stream (cr_sizes_info s) (cr_underlayer_pos s) = Inr True"
    using comp_index_max [OF P _ lc lp] b(1) p by (simp add: pos_in_stream_def)
  from L b(6) obtain k d' where k: "br_read B (min (sz - read) n) d = (Inr (take k (drop read (ds ! b))), d')"
    "k \<le> min (sz - read) n" "k \<le> length (drop read (ds ! b))"
    "0 < min (sz - read) n \<and> drop read (ds ! b) \<noteq> [] \<longrightarrow> 0 < k" "I (comp_body cs ds) (drop k (drop read (ds ! b))) d'"
    by (rule brotli_readE)
  have blk: "ds ! b = take ?N (drop (b * ?N) pt)" by (rule comp_blocks_split(2) [OF P b(2)])
  then have szN: "sz \<le> ?N" "sz \<le> length pt - b * ?N" using b(3) by simp_all
  have kr: "k + read \<le> sz" using k(2) b(4) by linarith
  have tk: "take k (drop read (ds ! b)) = take k (drop (cr_underlayer_pos s) pt)"
  proof -
    have "drop read (ds ! b) = take (?N - read) (drop (b * ?N + read) pt)"
      using blk by (simp add: drop_take add.commute)
    then show ?thesis using kr szN(1) b(5) by (simp add: min_absorb1)
  qed
  have lk: "length (take k (drop (cr_underlayer_pos s) pt)) = k"
    using kr szN(2) b(5) p by simp
  have "cr_underlayer_pos s + k < 2 ^ 64" "k < 2 ^ 32" "read + k < 2 ^ 32"
  proof -
    have "cr_underlayer_pos s + k \<le> length pt" using kr szN(2) b(5) p by linarith
    then show "cr_underlayer_pos s + k < 2 ^ 64" using lp by simp
    have "read + k \<le> ?N" using kr szN(1) by linarith
    then show "k < 2 ^ 32" "read + k < 2 ^ 32" by (simp_all add: UNCOMPRESSED_DATA_SIZE_def)
  qed
  then have e: "compression_read B sk n s = (Inr (take k (drop (cr_underlayer_pos s) pt)),
      s\<lparr>cr_state := CInData (read + k) sz d', cr_underlayer_pos := cr_underlayer_pos s + k\<rparr>)"
    using pis st b(4) k(1) lk
    by (subst compression_read.simps) (simp add: tk checked_add_def u32_try_from_def checked_add_u32_def)
  have "comp_rinv view inv I cs ds (s\<lparr>cr_state := CInData (read + k) sz d', cr_underlayer_pos := cr_underlayer_pos s + k\<rparr>)"
    using b k(5) kr by (auto simp: comp_rinv_def add.commute intro!: exI [of _ b])
  moreover have "0 < n \<longrightarrow> 0 < k" using k(4) b(3,4) by auto
  moreover have "k \<le> length pt - cr_underlayer_pos s" using kr szN(2) b(5) by linarith
  ultimately show ?thesis using e k(2)
    by (intro exI [of _ k] exI [of _ "s\<lparr>cr_state := CInData (read + k) sz d', cr_underlayer_pos := cr_underlayer_pos s + k\<rparr>"]) simp
qed

lemma comp_read_ready:
  assumes L: "brotli_reader_laws decode view pos inv B I" and C: "compressed_as decode bound cs ds"
    and P: "comp_blocks ds pt" and lp: "length pt < 2 ^ 63" and lb: "length (comp_body cs ds) < 2 ^ 63"
    and s: "comp_rinv view inv I cs ds s" and p: "cr_underlayer_pos s < length pt" and st: "cr_state s = CReady r"
  obtains s1 read sz d where "compression_read B sk n s = compression_read B sk n s1" "comp_rinv view inv I cs ds s1"
    "cr_state s1 = CInData read sz d" "read \<noteq> sz" "cr_underlayer_pos s1 = cr_underlayer_pos s"
proof -
  let ?N = UNCOMPRESSED_DATA_SIZE and ?b = "cr_underlayer_pos s div UNCOMPRESSED_DATA_SIZE"
  from s st have r: "cr_sizes_info s = Some (comp_index cs ds)" "inv r" "view r = comp_body cs ds"
    "?N dvd cr_underlayer_pos s" by (auto simp: comp_rinv_def)
  from open_block_ok [OF L C P lp lb r(4) p r(2,3)] obtain d where
    d: "open_block_at B sk (Some (comp_index cs ds)) (cr_underlayer_pos s) r = Inr (d, length (ds ! ?b))"
    "I (comp_body cs ds) (ds ! ?b) d" by blast
  have ne: "ds \<noteq> []" using P p by (auto simp: comp_blocks_def)
  note lc = compressed_as_length [OF C]
  let ?t = "s\<lparr>cr_state := CInData 0 (length (ds ! ?b)) d\<rparr>"
  have "compression_read B sk n s = compression_read B sk n ?t"
    using comp_index_max [OF P ne lc lp] r(1) p st d(1)
    by (subst compression_read.simps) (simp add: pos_in_stream_def)
  moreover have "comp_rinv view inv I cs ds ?t"
    using r(1,4) d(2) comp_blocks_index(1) [OF P p] by (auto simp: comp_rinv_def intro!: exI [of _ ?b])
  moreover have "0 \<noteq> length (ds ! ?b)" using comp_blocks_index(2) [OF P p] by auto
  ultimately show thesis by (intro that [of ?t 0 "length (ds ! ?b)" d]) auto
qed

lemma comp_read_ok:
  assumes L: "brotli_reader_laws decode view pos inv B I" and C: "compressed_as decode bound cs ds"
    and P: "comp_blocks ds pt" and lp: "length pt < 2 ^ 63" and lb: "length (comp_body cs ds) < 2 ^ 63"
    and s: "comp_rinv view inv I cs ds s" and p: "cr_underlayer_pos s < length pt"
  shows "\<exists>k s'. compression_read B sk n s = (Inr (take k (drop (cr_underlayer_pos s) pt)), s') \<and> k \<le> n \<and>
    k \<le> length pt - cr_underlayer_pos s \<and> (0 < n \<longrightarrow> 0 < k) \<and> comp_rinv view inv I cs ds s' \<and>
    cr_underlayer_pos s' = cr_underlayer_pos s + k"
proof -
  note lc = compressed_as_length [OF C]
  have ready: ?thesis if t: "comp_rinv view inv I cs ds t" "cr_underlayer_pos t = cr_underlayer_pos s" "cr_state t = CReady r"
    "compression_read B sk n s = compression_read B sk n t" for t r
  proof -
    have pt: "cr_underlayer_pos t < length pt" using p t(2) by simp
    from comp_read_ready [OF L C P lp lb t(1) pt t(3)] obtain s1 read sz d where
      s1: "compression_read B sk n t = compression_read B sk n s1" "comp_rinv view inv I cs ds s1"
      "cr_state s1 = CInData read sz d" "read \<noteq> sz" "cr_underlayer_pos s1 = cr_underlayer_pos t" .
    have p1: "cr_underlayer_pos s1 < length pt" using p t(2) s1(5) by simp
    from comp_read_data [OF L P lc lp s1(2) p1 s1(3,4), of n] show ?thesis using t(2,4) s1(1,5) by simp
  qed
  show ?thesis
  proof (cases "cr_state s")
    case (CReady r)
    then show ?thesis using ready [OF s] by simp
  next
    case (CInData read sz d)
    show ?thesis
    proof (cases "read = sz")
      case True
      from s CInData obtain b where b: "cr_sizes_info s = Some (comp_index cs ds)" "b < length ds" "sz = length (ds ! b)"
        "cr_underlayer_pos s = b * UNCOMPRESSED_DATA_SIZE + read" "I (comp_body cs ds) (drop read (ds ! b)) d"
        by (auto simp: comp_rinv_def)
      from comp_blocks_split(3) [OF P b(2)] have "sz = UNCOMPRESSED_DATA_SIZE" using b(3,4) p True by auto
      then have "UNCOMPRESSED_DATA_SIZE dvd cr_underlayer_pos s" using b(4) True by simp
      moreover have "ds \<noteq> []" using b(2) by auto
      ultimately show ?thesis
        using CInData True b(1) p comp_index_max [OF P _ lc lp] brotli_innerD [OF L b(5)]
        by (intro ready [of "s\<lparr>cr_state := CReady (tk_inner (br_into_inner B d))\<rparr>" "tk_inner (br_into_inner B d)"])
          (simp_all add: comp_rinv_def pos_in_stream_def compression_read.simps [of B sk n s])
    next
      case False
      then show ?thesis by (rule comp_read_data [OF L P lc lp s p CInData])
    qed
  next
    case CEmpty
    then show ?thesis using s by (simp add: comp_rinv_def)
  qed
qed

lemma comp_read_eof:
  assumes C: "compressed_as decode bound cs ds" and P: "comp_blocks ds pt" and "ds \<noteq> []" and lp: "length pt < 2 ^ 63"
    and s: "comp_rinv view inv I cs ds s" and p: "length pt \<le> cr_underlayer_pos s"
  shows "compression_read B sk n s = (Inr [], s)"
  using comp_index_max [OF P assms(3) compressed_as_length [OF C] lp] s p
  by (subst compression_read.simps) (simp add: pos_in_stream_def comp_rinv_def)

lemma comp_seek_start_ok:
  assumes L: "brotli_reader_laws decode view pos inv B I" and C: "compressed_as decode bound cs ds"
    and P: "comp_blocks ds pt" and lp: "length pt < 2 ^ 63" and lb: "length (comp_body cs ds) < 2 ^ 63"
    and s: "comp_rinv view inv I cs ds s" and p: "p < length pt"
  shows "\<exists>s'. compression_seek_start B sk p s = (Inr p, s') \<and> comp_rinv view inv I cs ds s' \<and> cr_underlayer_pos s' = p"
proof -
  let ?N = UNCOMPRESSED_DATA_SIZE and ?b = "p div UNCOMPRESSED_DATA_SIZE" and ?i = "p mod UNCOMPRESSED_DATA_SIZE"
  have si: "cr_sizes_info s = Some (comp_index cs ds)" using s by (simp add: comp_rinv_def)
  obtain r where r: "reader_state_into_inner B (cr_state s) = Some r" "inv r" "view r = comp_body cs ds"
  proof (cases "cr_state s")
    case (CReady r)
    then show thesis using s that [of r] by (simp add: comp_rinv_def reader_state_into_inner_def)
  next
    case (CInData read sz d)
    then obtain data where "I (comp_body cs ds) data d" using s by (auto simp: comp_rinv_def)
    from brotli_innerD [OF L this] show thesis
      using CInData that [of "tk_inner (br_into_inner B d)"] by (simp add: reader_state_into_inner_def)
  next
    case CEmpty
    then show thesis using s by (simp add: comp_rinv_def)
  qed
  have q: "p - ?i = ?b * ?N" by (simp add: minus_mod_eq_div_mult)
  then have d: "?N dvd p - ?i" "(p - ?i) div ?N = ?b" "p - ?i < length pt" using p by (simp_all add: UNCOMPRESSED_DATA_SIZE_def)
  from open_block_ok [OF L C P lp lb d(1,3) r(2,3)] d(2) obtain d0 where
    d0: "open_block_at B sk (Some (comp_index cs ds)) (p - ?i) r = Inr (d0, length (ds ! ?b))" "I (comp_body cs ds) (ds ! ?b) d0"
    by auto
  note b = comp_blocks_index [OF P p]
  have "?i \<le> length (ds ! ?b)" using b(2) by simp
  from copy_take_skip [OF L d0(2) this] obtain d1 where
    d1: "copy_take (br_read B) sink_write ?i (d0, ()) = (Inr (), (d1, ()))" "I (comp_body cs ds) (drop ?i (ds ! ?b)) d1" by blast
  let ?t = "s\<lparr>cr_state := CInData ?i (length (ds ! ?b)) d1, cr_underlayer_pos := p\<rparr>"
  have "compression_seek_start B sk p s = (Inr p, ?t)"
    using r(1) si d0(1) d1(1) by (simp add: compression_seek_start_def Let_def)
  moreover have "comp_rinv view inv I cs ds ?t"
    using si b d1(2) by (auto simp: comp_rinv_def intro!: exI [of _ ?b])
  ultimately show ?thesis by simp
qed

end

section \<open>The contract of the layer\<close>

context eof_seekable
begin

lemma comp_seekable:
  assumes L: "brotli_reader_laws decode view pos inv B I" and C: "compressed_as decode bound cs ds"
    and P: "comp_blocks ds pt" and ne: "ds \<noteq> []" and lp: "length pt < 2 ^ 63" and lb: "length (comp_body cs ds) < 2 ^ 63"
  shows "seekable (compression_read B sk) (\<lambda>_. pt) cr_underlayer_pos (comp_rinv view inv I cs ds) (compression_seek B sk)"
proof -
  let ?R = "comp_rinv view inv I cs ds"
  note lc = compressed_as_length [OF C]
  note mx = comp_index_max [OF P ne lc lp]
  note start = comp_seek_start_ok [OF L C P lp lb]
  show ?thesis
  proof
    fix s n assume a: "?R s" "cr_underlayer_pos s < length pt"
    from comp_read_ok [OF L C P lp lb a, of n] show "\<exists>k s'. compression_read B sk n s = (Inr (take k (drop (cr_underlayer_pos s) pt)), s') \<and>
        k \<le> n \<and> k \<le> length pt - cr_underlayer_pos s \<and> (0 < n \<longrightarrow> 0 < k) \<and> ?R s' \<and> pt = pt \<and>
        cr_underlayer_pos s' = cr_underlayer_pos s + k" by simp
  next
    fix s p assume a: "?R s" "p < length pt"
    then have "cr_sizes_info s = Some (comp_index cs ds)" by (simp add: comp_rinv_def)
    with start [OF a] show "\<exists>s'. compression_seek B sk (SeekStart p) s = (Inr p, s') \<and> ?R s' \<and> pt = pt \<and> cr_underlayer_pos s' = p"
      by (simp add: compression_seek_def)
  next
    fix s d assume a: "?R s" "0 < d" "d \<le> length pt"
    then have si: "cr_sizes_info s = Some (comp_index cs ds)" by (simp add: comp_rinv_def)
    have "- int d \<noteq> - (2 ^ 63)" using a(3) lp by simp
    then have "compression_seek B sk (SeekEnd (- int d)) s = compression_seek_start B sk (length pt - d) s"
      using si mx a(2,3) by (simp add: compression_seek_def checked_neg_i64_def u64_try_from_i64_def checked_sub_def)
    with start [OF a(1), of "length pt - d"] a(2,3) show "\<exists>s'. compression_seek B sk (SeekEnd (- int d)) s =
        (Inr (length pt - d), s') \<and> ?R s' \<and> pt = pt \<and> cr_underlayer_pos s' = length pt - d" by simp
  next
    fix s i assume a: "?R s" "cr_underlayer_pos s \<le> length pt" "0 \<le> int (cr_underlayer_pos s) + i"
      "int (cr_underlayer_pos s) + i < int (length pt)"
    then have si: "cr_sizes_info s = Some (comp_index cs ds)" by (simp add: comp_rinv_def)
    show "\<exists>s'. compression_seek B sk (SeekCurrent i) s = (Inr (nat (int (cr_underlayer_pos s) + i)), s') \<and> ?R s' \<and> pt = pt \<and>
        cr_underlayer_pos s' = nat (int (cr_underlayer_pos s) + i)"
    proof (cases "i = 0")
      case True
      then show ?thesis using si a(1) by (simp add: compression_seek_def)
    next
      case False
      have "cr_underlayer_pos s < 2 ^ 63" "int (cr_underlayer_pos s) + i < 2 ^ 63" using a(2,4) lp by simp_all
      then have "compression_seek B sk (SeekCurrent i) s = compression_seek_start B sk (nat (int (cr_underlayer_pos s) + i)) s"
        using si False a(3)
        by (simp add: compression_seek_def i64_try_from_def checked_add_i64_def u64_try_from_i64_def)
      with start [OF a(1), of "nat (int (cr_underlayer_pos s) + i)"] a(3,4) show ?thesis by simp
    qed
  qed
qed

lemma comp_eof_source:
  assumes L: "brotli_reader_laws decode view pos inv B I" and C: "compressed_as decode bound cs ds"
    and P: "comp_blocks ds pt" and ne: "ds \<noteq> []" and lp: "length pt < 2 ^ 63" and lb: "length (comp_body cs ds) < 2 ^ 63"
  shows "eof_source (compression_read B sk) (\<lambda>_. pt) cr_underlayer_pos (comp_rinv view inv I cs ds)"
proof (rule eof_source.intro)
  show "source (compression_read B sk) (\<lambda>_. pt) cr_underlayer_pos (comp_rinv view inv I cs ds)"
    using comp_seekable [OF assms] by (simp add: seekable_def start_seekable_def)
  show "eof_source_axioms (compression_read B sk) (\<lambda>_. pt) cr_underlayer_pos (comp_rinv view inv I cs ds)"
  proof
    fix s n assume a: "comp_rinv view inv I cs ds s" "length pt \<le> cr_underlayer_pos s"
    from comp_read_eof [OF C P ne lp a] a(1) show "\<exists>s'. compression_read B sk n s = (Inr [], s') \<and>
        comp_rinv view inv I cs ds s' \<and> pt = pt \<and> cr_underlayer_pos s' = cr_underlayer_pos s" by simp
  qed
qed

end

lemma take_source:
  assumes "source rd view pos rinv"
  shows "source (take_reader_read rd) (\<lambda>_. take e v) (\<lambda>t. pos (tk_inner t))
    (\<lambda>t. rinv (tk_inner t) \<and> view (tk_inner t) = v \<and> pos (tk_inner t) + tk_limit t = e)"
proof
  fix t :: "'a take_reader" and n
  let ?r = "tk_inner t"
  assume a: "rinv ?r \<and> view ?r = v \<and> pos ?r + tk_limit t = e" "pos ?r < length (take e v)"
  then have "pos ?r < length (view ?r)" "0 < tk_limit t" "rinv ?r" by auto
  with source.read_ok [OF assms, of ?r "min n (tk_limit t)"] obtain k r where
    k: "rd (min n (tk_limit t)) ?r = (Inr (take k (drop (pos ?r) (view ?r))), r)" "k \<le> min n (tk_limit t)"
    "k \<le> length (view ?r) - pos ?r" "0 < min n (tk_limit t) \<longrightarrow> 0 < k" "rinv r" "view r = view ?r" "pos r = pos ?r + k"
    by auto
  have e: "e - pos ?r = tk_limit t" using a(1) by auto
  have "take k (drop (pos ?r) (take e v)) = take k (drop (pos ?r) (view ?r))"
    using k(2) a(1) e by (simp add: drop_take min_absorb1)
  moreover have "length (take k (drop (pos ?r) (view ?r))) = k" using k(3) by simp
  moreover have "pos ?r + k + (tk_limit t - k) = e" using a(1) k(2) by simp
  moreover have "k \<le> length (take e v) - pos ?r" using k(2,3) a(1) e by (auto simp: min_def split: if_splits)
  ultimately show "\<exists>k t'. take_reader_read rd n t = (Inr (take k (drop (pos ?r) (take e v))), t') \<and>
      k \<le> n \<and> k \<le> length (take e v) - pos ?r \<and> (0 < n \<longrightarrow> 0 < k) \<and>
      (rinv (tk_inner t') \<and> view (tk_inner t') = v \<and> pos (tk_inner t') + tk_limit t' = e) \<and>
      take e v = take e v \<and> pos (tk_inner t') = pos ?r + k"
    using k a e \<open>0 < tk_limit t\<close>
    by (intro exI [of _ k] exI [of _ "\<lparr>tk_inner = r, tk_limit = tk_limit t - k\<rparr>"])
      (cases t, simp add: take_reader_read_def)
qed

context eof_seekable
begin

lemma comp_initialize_ok:
  assumes C: "compressed_as decode bound cs ds" and P: "comp_blocks ds pt" and "bound < 2 ^ 32"
    and r: "inv r" "view r = comp_body cs ds" "length (comp_body cs ds) < 2 ^ 63"
    and s: "cr_state s = CReady r" "cr_underlayer_pos s = 0"
  shows "\<exists>s'. compression_initialize rd sk s = (Inr (), s') \<and> comp_rinv view inv I cs ds s' \<and> cr_underlayer_pos s' = 0"
proof -
  let ?si = "comp_index cs ds"
  let ?E = "enc_sizes_info ?si" and ?L = "length (comp_body cs ds)"
  let ?H = "concat cs @ EMPTY_TAIL_OPTS_SERIALIZATION"
  have body: "comp_body cs ds = ?H @ ?E @ to_le 8 (length ?E)" by (simp add: comp_body_def)
  then have len: "?L = length ?H + length ?E + 8" by simp
  have lE: "length ?E < 2 ^ 64" using len r(3) by simp
  have "\<exists>s'. sk (SeekEnd (- int 8)) r = (Inr (length (view r) - 8), s') \<and> inv s' \<and> view s' = view r \<and> pos s' = length (view r) - 8"
    by (rule seek_end [OF r(1)]) (use len r(2) in simp_all)
  then obtain r1 where r1: "sk (SeekEnd (- 8)) r = (Inr (?L - 8), r1)" "inv r1" "view r1 = comp_body cs ds" "pos r1 = ?L - 8"
    using r(2) by auto
  have "rest r1 = to_le 8 (length ?E) @ []" using r1(3,4) len by (simp add: rest_def body)
  from parsesD [OF parses_u64 [OF lE] r1(2) this] obtain r2 where
    r2: "u64_deserialize rd r1 = (Inr (length ?E), r2)" "inv r2" "view r2 = view r1" by (rule yieldsE)
  have st: "?L - 8 - length ?E = length ?H" using len by simp
  have "length ?H < length (view r2)" using r2(3) r1(3) len by simp
  from seek_startE [OF r2(2) this] obtain r3 where
    r3: "sk (SeekStart (length ?H)) r2 = (Inr (length ?H), r3)" "inv r3" "view r3 = view r2" "pos r3 = length ?H" by blast
  let ?t = "\<lparr>tk_inner = r3, tk_limit = length ?E\<rparr>"
  let ?tv = "\<lambda>_. take (length ?H + length ?E) (comp_body cs ds)"
  let ?ti = "\<lambda>t. inv (tk_inner t) \<and> view (tk_inner t) = comp_body cs ds \<and> pos (tk_inner t) + tk_limit t = length ?H + length ?E"
  note ts = take_source [OF source_axioms, of "length ?H + length ?E" "comp_body cs ds"]
  have b: "\<forall>x\<in>set (si_compressed_sizes ?si). x < 2 ^ 32"
  proof
    fix x assume "x \<in> set (si_compressed_sizes ?si)"
    then obtain j where j: "j < length cs" "x = length (cs ! j)" by (auto simp: comp_index_def in_set_conv_nth)
    then have "x \<le> bound" using C by (auto simp: compressed_as_def list_all2_conv_all_nth)
    then show "x < 2 ^ 32" using assms(3) by simp
  qed
  have n: "length (si_compressed_sizes ?si) < 2 ^ 64" using lE by (simp add: length_enc_sizes_info)
  have "last_size ds \<le> UNCOMPRESSED_DATA_SIZE" using P by (simp add: comp_blocks_def)
  then have l: "si_last_block_size ?si < 2 ^ 32" by (simp add: comp_index_def UNCOMPRESSED_DATA_SIZE_def)
  have "take (length ?H + length ?E) (comp_body cs ds) = ?H @ ?E" by (simp add: body)
  then have rs: "source.rest ?tv (\<lambda>t. pos (tk_inner t)) ?t = ?E @ []"
    unfolding source.rest_def [OF ts] using r3(4) by simp
  have "?ti ?t" using r3(2-4) r2(3) r1(3) by simp
  from source.parsesD [OF ts source.parses_sizes_info [OF ts b n l] this rs] obtain t4 where
    t4: "sizes_info_deserialize (take_reader_read rd) ?t = (Inr ?si, t4)" "?ti t4"
    by (rule source.yieldsE [OF ts])
  let ?s = "s\<lparr>cr_state := CReady (tk_inner t4), cr_sizes_info := Some ?si\<rparr>"
  have cs: "checked_sub (?L - 8) (length ?E) = Some (length ?H)" using len st by (simp add: checked_sub_def)
  have "compression_initialize rd sk s = (Inr (), ?s)"
    using s(1) r1(1) r2(1) cs r3(1) t4(1)
    by (simp add: compression_initialize_def bindE_def lift_io_def map_errE_def lift_res_def del: length_append)
  moreover have "comp_rinv view inv I cs ds ?s" using s(2) t4(2) by (simp add: comp_rinv_def)
  ultimately show ?thesis using s(2) by simp
qed

end

context end_seekable
begin

lemma comp_reader_new_ok:
  assumes r: "inv r" "rest r = EMPTY_OPTS_SERIALIZATION @ body" "body \<noteq> []" "length (view r) < 2 ^ 63"
  shows "\<exists>s stripped. compression_reader_new_skip_magic rd sk r = Inr s \<and> cr_state s = CReady stripped \<and>
    strip_inv view pos inv stripped \<and> strip_view view stripped = body \<and> cr_underlayer_pos s = 0"
proof -
  from parsesD [OF parses_opts r(1,2)] obtain r1 where
    r1: "opts_from_reader rd r = (Inr (), r1)" "inv r1" "view r1 = view r" "pos r1 = pos r + length EMPTY_OPTS_SERIALIZATION"
    "rest r1 = drop (length EMPTY_OPTS_SERIALIZATION) (rest r)" by (rule yieldsE)
  have "rest r1 = body" using r1(5) r(2) by simp
  then have b: "drop (pos r1) (view r1) = body" by (simp add: rest_def)
  have lt: "pos r1 < length (view r1)" using b r(3) by (metis drop_all not_less)
  then have "\<exists>s'. sk (SeekCurrent 0) r1 = (Inr (nat (int (pos r1) + 0)), s') \<and> inv s' \<and> view s' = view r1 \<and> pos s' = nat (int (pos r1) + 0)"
    by (intro seek_current [OF r1(2)]) simp_all
  then obtain r2 where r2: "sk (SeekCurrent 0) r1 = (Inr (pos r1), r2)" "inv r2" "view r2 = view r1" by auto
  from seek_end_back [OF r2(2)] lt r2(3) obtain r3 r4 where
    r3: "sk (SeekEnd 0) r2 = (Inr (length (view r1)), r3)" and
    r4: "sk (SeekStart (pos r1)) r3 = (Inr (pos r1), r4)" "inv r4" "view r4 = view r1" "pos r4 = pos r1" by auto
  let ?st = "\<lparr>sr_inner = r4, sr_head_len = pos r1, sr_tail_len = 0, sr_inner_len = length (view r1), sr_pos = 0\<rparr>"
  have "pos r1 < 2 ^ 64" using lt r1(3) r(4) by simp
  then have "strip_reader_new r4 (pos r1) 0 (length (view r1)) 0 = Inr ?st"
    using lt by (simp add: strip_reader_new_def checked_add_def)
  then have "compression_reader_new_skip_magic rd sk r = Inr \<lparr>cr_state = CReady ?st, cr_sizes_info = None, cr_underlayer_pos = 0\<rparr>"
    using r1(1) r2(1) r3 r4(1)
    by (simp add: compression_reader_new_skip_magic_def compression_reader_new_skip_header_def stream_position_def
        bindE_def lift_io_def map_errE_def ret_def)
  moreover have "strip_inv view pos inv ?st" using r4 lt r1(3) r(4) by (simp add: strip_inv_def)
  moreover have "strip_view view ?st = body" using r4(3) b [symmetric] by (simp add: strip_view_def)
  ultimately show ?thesis
    by (intro exI [of _ "\<lparr>cr_state = CReady ?st, cr_sizes_info = None, cr_underlayer_pos = 0\<rparr>"] exI [of _ ?st]) simp
qed

end

section \<open>A decompressor\<close>

text \<open>The stored form again: the stream of a block is the block, and reading it is reading the limited reader.\<close>

definition demo_brotli_reader ::
  "(nat \<Rightarrow> ('x, io_error, bytes) op) \<Rightarrow> ('x, 'x take_reader) brotli_reader" where
  "demo_brotli_reader rd =
     \<lparr>br_new = \<lambda>t b. t, br_read = take_reader_read rd, br_into_inner = \<lambda>t. t\<rparr>"

lemma demo_brotli_reader_ok:
  assumes "source rd view pos rinv"
  shows "brotli_reader_ok Some view pos rinv (demo_brotli_reader rd)"
proof -
  let ?I = "\<lambda>v data t. rinv (tk_inner t) \<and> view (tk_inner t) = v \<and> tk_limit t = length data \<and>
    data = take (tk_limit t) (drop (pos (tk_inner t)) v)"
  have step: "\<exists>k t'. take_reader_read rd n t = (Inr (take k data), t') \<and> k \<le> n \<and> k \<le> length data \<and>
      (0 < n \<and> data \<noteq> [] \<longrightarrow> 0 < k) \<and> ?I (view (tk_inner t)) (drop k data) t'"
    if I: "rinv (tk_inner t)" "tk_limit t = length data" and data: "data = take (tk_limit t) (drop (pos (tk_inner t)) (view (tk_inner t)))"
    for data n t
  proof (cases "data = []")
    case True
    then show ?thesis using I by (intro exI [of _ 0] exI [of _ t]) (simp add: take_reader_read_def)
  next
    case False
    let ?r = "tk_inner t"
    let ?v = "view ?r"
    have p: "0 < tk_limit t" using False I(2) by simp
    have "drop (pos ?r) ?v \<noteq> []" using False by (subst (asm) data) auto
    then have "pos ?r < length ?v" by simp
    with source.read_ok [OF assms I(1), of "min n (tk_limit t)"] obtain k r where
      k: "rd (min n (tk_limit t)) ?r = (Inr (take k (drop (pos ?r) ?v)), r)" "k \<le> min n (tk_limit t)"
      "k \<le> length ?v - pos ?r" "0 < min n (tk_limit t) \<longrightarrow> 0 < k" "rinv r" "view r = ?v" "pos r = pos ?r + k"
      by auto
    have d: "take k data = take k (drop (pos ?r) ?v)"
      by (subst data) (use k(2) in \<open>simp add: min_absorb1\<close>)
    have d2: "drop k data = take (tk_limit t - k) (drop (pos r) ?v)"
      by (subst data) (use k(7) in \<open>simp add: drop_take add.commute\<close>)
    have d3: "take (length data - k) (drop (pos r) ?v) = drop k data" using d2 I(2) by simp
    have "length (take k (drop (pos ?r) ?v)) = k" using k(3) by simp
    then have "take_reader_read rd n t = (Inr (take k data), \<lparr>tk_inner = r, tk_limit = tk_limit t - k\<rparr>)"
      using k(1) p d by (cases t) (simp add: take_reader_read_def)
    then show ?thesis
      using k(2,4-6) p I(2) d3 by (intro exI [of _ k] exI [of _ "\<lparr>tk_inner = r, tk_limit = tk_limit t - k\<rparr>"]) simp
  qed
  have a1: "?I (view r) data (br_new (demo_brotli_reader rd) \<lparr>tk_inner = r, tk_limit = n\<rparr> n)"
    if a: "rinv r" "pos r + n \<le> length (view r)" "Some (take n (drop (pos r) (view r))) = Some data" for r n data
  proof -
    have "data = take n (drop (pos r) (view r))" using a(3) by simp
    then show ?thesis using a(1,2) by (simp add: demo_brotli_reader_def)
  qed
  have a2: "\<exists>k t'. br_read (demo_brotli_reader rd) n t = (Inr (take k data), t') \<and> k \<le> n \<and> k \<le> length data \<and>
      (0 < n \<and> data \<noteq> [] \<longrightarrow> 0 < k) \<and> ?I v (drop k data) t'" if a: "?I v data t" for v data t n
    using step [of t data n] a unfolding demo_brotli_reader_def brotli_reader.simps by blast
  have a3: "rinv (tk_inner (br_into_inner (demo_brotli_reader rd) t)) \<and>
      view (tk_inner (br_into_inner (demo_brotli_reader rd) t)) = v" if "?I v data t" for v data t
    using that by (auto simp: demo_brotli_reader_def)
  have "brotli_reader_laws Some view pos rinv (demo_brotli_reader rd) ?I"
    unfolding brotli_reader_laws_def
  proof (rule conjI, goal_cases)
    case 1
    show ?case using a1 by blast
  next
    case 2
    show ?case
    proof (rule conjI, goal_cases)
      case 1
      show ?case using a2 by blast
    next
      case 2
      show ?case using a3 by blast
    qed
  qed
  then show ?thesis unfolding brotli_reader_ok_def by blast
qed

section \<open>Properties\<close>

text \<open>C27: the compression layer as a whole. Whatever is written through the layer, in any number of writes and not
  empty in all, and finalized, a reader made from the resulting bytes finds the layer magic, is created and initialized without
  error, and is then a seekable reader that stops at the end, on exactly the bytes written.\<close>

theorem compressed_layer_roundtrip:
  fixes BR :: "('r strip_reader, 'd) brotli_reader"
  assumes "room_sink wr out winv room" and "brotli_writer_ok decode bound wr BW"
    and "end_seekable rd view pos rinv sk"
    and "brotli_reader_ok decode (strip_view view) sr_pos (strip_inv view pos rinv) BR"
    and "winv w0" and "cc_compression_level config \<le> 11" and "compression_writer_new wr config w0 = Inr s0"
    and "comp_session BW s0 s pt" and "comp_budget bound (length pt) + 9 \<le> room w0"
    and "compression_finalize_writes BW wr s = Inr w'" and "rinv r" and "out w' = out w0 @ view r" and "pos r = 0"
    and "length (view r) < 2 ^ 63" and "pt \<noteq> []" and "length pt < 2 ^ 63"
  shows "\<exists>r1 s1 s2 R. read_layer_magic rd r = (Inr COMPRESSION_LAYER_MAGIC, r1) \<and>
    compression_reader_new_skip_magic rd sk r1 = Inr s1 \<and>
    compression_initialize (strip_read rd) (strip_seek sk) s1 = (Inr (), s2) \<and>
    cr_underlayer_pos s2 = 0 \<and> R s2 \<and>
    seekable (compression_read BR (strip_seek sk)) (\<lambda>_. pt) cr_underlayer_pos R (compression_seek BR (strip_seek sk)) \<and>
    eof_source (compression_read BR (strip_seek sk)) (\<lambda>_. pt) cr_underlayer_pos R"
proof -
  note lo = compression_layer_output [OF assms(1,2,5-9), THEN conjunct2, rule_format, OF assms(10)]
  from lo assms(12) obtain cs ds where
    v: "view r = comp_header @ comp_body cs ds" and C: "compressed_as decode bound cs ds" and P: "comp_blocks ds pt" by auto
  from assms(4) obtain I where L: "brotli_reader_laws decode (strip_view view) sr_pos (strip_inv view pos rinv) BR I"
    by (auto simp: brotli_reader_ok_def)
  have bd: "bound < 2 ^ 32" using assms(2) by (auto simp: brotli_writer_ok_def brotli_writer_laws_def)
  have ne: "ds \<noteq> []" using P assms(15) by (auto simp: comp_blocks_def)
  note fs = assms(3)
  have so: "source rd view pos rinv" using fs by (simp add: end_seekable_def seekable_def start_seekable_def)
  have pm: "source.parses view pos rinv (read_layer_magic rd) COMPRESSION_LAYER_MAGIC COMPRESSION_LAYER_MAGIC"
    by (rule source.parses_read_layer_magic [OF so]) simp
  have "source.rest view pos r = COMPRESSION_LAYER_MAGIC @ (EMPTY_OPTS_SERIALIZATION @ comp_body cs ds)"
    using v assms(13) by (simp add: source.rest_def [OF so] comp_header_def)
  from source.parsesD [OF so pm assms(11) this] obtain r1 where
    r1: "read_layer_magic rd r = (Inr COMPRESSION_LAYER_MAGIC, r1)" "rinv r1" "view r1 = view r"
    "source.rest view pos r1 = drop (length COMPRESSION_LAYER_MAGIC) (source.rest view pos r)"
    by (rule source.yieldsE [OF so])
  have rs: "source.rest view pos r1 = EMPTY_OPTS_SERIALIZATION @ comp_body cs ds"
    using r1(4) \<open>source.rest view pos r = _\<close> by simp
  have "comp_body cs ds \<noteq> []" by (simp add: comp_body_def EMPTY_TAIL_OPTS_SERIALIZATION_def)
  from end_seekable.comp_reader_new_ok [OF fs r1(2) rs this] r1(3) assms(14) obtain s1 st where
    s1: "compression_reader_new_skip_magic rd sk r1 = Inr (s1 :: ('r strip_reader, 'd) compression_reader)" "cr_state s1 = CReady st" "strip_inv view pos rinv st"
    "strip_view view st = comp_body cs ds" "cr_underlayer_pos s1 = 0" by auto
  have sb: "seekable rd view pos rinv sk" using fs by (simp add: end_seekable_def)
  note fst = seekable.strip_eof_seekable [OF sb]
  have lb: "length (comp_body cs ds) < 2 ^ 63" using v assms(14) by simp
  from eof_seekable.comp_initialize_ok [OF fst C P bd s1(3,4) lb s1(2,5), of I] obtain s2 where
    s2: "compression_initialize (strip_read rd) (strip_seek sk) s1 = (Inr (), s2)"
    "comp_rinv (strip_view view) (strip_inv view pos rinv) I cs ds s2" "cr_underlayer_pos s2 = 0" by blast
  from r1(1) s1(1) s2 eof_seekable.comp_seekable [OF fst L C P ne assms(16) lb]
    eof_seekable.comp_eof_source [OF fst L C P ne assms(16) lb]
  show ?thesis by blast
qed

theorem compressed_layer_roundtrip_witness:
  "\<exists>s0 s w' r1 s1 s2. compression_writer_new vec_write compression_config_default [] = Inr s0 \<and>
    comp_session (demo_brotli_writer vec_write) s0 s [1, 2, 3] \<and>
    compression_finalize_writes (demo_brotli_writer vec_write) vec_write s = Inr w' \<and>
    read_layer_magic cursor_read (cursor_new w') = (Inr COMPRESSION_LAYER_MAGIC, r1) \<and>
    compression_reader_new_skip_magic cursor_read cursor_seek r1 = Inr s1 \<and>
    compression_initialize (strip_read cursor_read) (strip_seek cursor_seek) (s1 :: (_, cursor strip_reader take_reader) compression_reader) = (Inr (), s2)"
proof -
  let ?new = "\<lparr>cw_state = WReady comp_header, cw_compressed_sizes = [], cw_level = 5\<rparr>"
  let ?s = "\<lparr>cw_state = WInData 3 (writer_with_count_new comp_header, [1, 2, 3]), cw_compressed_sizes = [], cw_level = 5\<rparr>"
  let ?w = "comp_header @ comp_body [[1, 2, 3]] [[1, 2, 3]]"
  have ses: "comp_session (demo_brotli_writer vec_write) ?new ?s [1, 2, 3]"
    using comp_writes [OF comp_begin demo_compression_write] by simp
  have l: "cc_compression_level compression_config_default \<le> 11"
    by (simp add: compression_config_default_def DEFAULT_COMPRESSION_LEVEL_def)
  have r: "comp_budget UNCOMPRESSED_DATA_SIZE (length [1, 2, 3 :: u8]) + 9 \<le> vec_room []"
    by (simp add: comp_budget_def UNCOMPRESSED_DATA_SIZE_def vec_room_def)
  have "length ?w < 2 ^ 63"
    by (simp add: comp_header_def comp_body_def EMPTY_OPTS_SERIALIZATION_def EMPTY_TAIL_OPTS_SERIALIZATION_def
        length_enc_sizes_info comp_index_def)
  then have c: "cursor_inv (cursor_new ?w)" "?w = [] @ cur_data (cursor_new ?w)" "cur_pos (cursor_new ?w) = 0"
    "length (cur_data (cursor_new ?w)) < 2 ^ 63" by (simp_all add: cursor_inv_def cursor_new_def)
  have so: "source (strip_read cursor_read) (strip_view cur_data) sr_pos (strip_inv cur_data cur_pos cursor_inv)"
    using cur.strip_full_seekable by (simp add: full_seekable_def seekable_def start_seekable_def)
  have n: "[1, 2, 3 :: u8] \<noteq> []" "length [1, 2, 3 :: u8] < 2 ^ 63" by simp_all
  from compressed_layer_roundtrip [OF vec.room_sink_axioms demo_brotli_writer_ok cur.end_seekable_axioms
    demo_brotli_reader_ok [OF so] TrueI l demo_compression_new ses r demo_compression_finalize c n]
  show ?thesis using demo_compression_new ses demo_compression_finalize by blast
qed

text \<open>C35: when the data is a multiple of 4 MiB long, seeking to its end is an error, and the reader cannot be used
  any more: the next seek panics, and the next read before the end is an error.\<close>

theorem seek_end_poisons:
  assumes "compressed_as decode bound cs ds" and "comp_blocks ds pt" and "ds \<noteq> []" and "length pt < 2 ^ 63"
    and "comp_rinv view rinv I cs ds s" and "UNCOMPRESSED_DATA_SIZE dvd length pt"
  shows "\<exists>s'. compression_seek B sk (SeekEnd 0) s = (Inl IoOther, s') \<and>
    (\<forall>p. compression_seek B sk (SeekStart p) s' = (Inl IoPanic, s')) \<and>
    (cr_underlayer_pos s < length pt \<longrightarrow> compression_read B sk n s' = (Inl IoOther, s'))"
proof -
  let ?t = "s\<lparr>cr_state := CEmpty\<rparr>"
  have si: "cr_sizes_info s = Some (comp_index cs ds)" using assms(5) by (simp add: comp_rinv_def)
  note mx = comp_index_max [OF assms(2,3) compressed_as_length [OF assms(1)] assms(4)]
  have "length pt mod UNCOMPRESSED_DATA_SIZE = 0" using assms(6) by simp
  moreover have "\<exists>r. reader_state_into_inner B (cr_state s) = Some r"
    using assms(5) by (auto simp: comp_rinv_def reader_state_into_inner_def split: compression_reader_state.splits)
  moreover have "check_start (Some (comp_index cs ds)) (length pt) msg = Inl EndOfStream" for msg
    using assms(6) mx by (simp add: check_start_def pos_in_stream_def)
  ultimately have e: "compression_seek B sk (SeekEnd 0) s = (Inl IoOther, ?t)"
    using si mx by (auto simp: compression_seek_def compression_seek_start_def checked_neg_i64_def u64_try_from_i64_def
        checked_sub_def open_block_at_def sync_inner_with_uncompressed_pos_def io_error_from_error_def Let_def)
  have p: "compression_seek B sk (SeekStart p) ?t = (Inl IoPanic, ?t)" for p
    using si by (simp add: compression_seek_def compression_seek_start_def reader_state_into_inner_def Let_def)
  have "cr_underlayer_pos s < length pt \<Longrightarrow> compression_read B sk n ?t = (Inl IoOther, ?t)"
    using si mx by (subst compression_read.simps) (simp add: pos_in_stream_def)
  with e p show ?thesis by blast
qed

theorem seek_end_poisons_witness:
  "\<exists>s s'. cr_underlayer_pos s = 0 \<and>
    compression_seek (demo_brotli_reader cursor_read) cursor_seek (SeekEnd 0) s = (Inl IoOther, s') \<and>
    compression_seek (demo_brotli_reader cursor_read) cursor_seek (SeekStart 0) s' = (Inl IoPanic, s') \<and>
    compression_read (demo_brotli_reader cursor_read) cursor_seek 1 s' = (Inl IoOther, s')"
proof -
  define d where "d = replicate UNCOMPRESSED_DATA_SIZE (0 :: u8)"
  let ?t = "\<lparr>cr_state = CReady (cursor_new (comp_body [d] [d])), cr_sizes_info = Some (comp_index [d] [d]), cr_underlayer_pos = 0\<rparr>
    :: (cursor, cursor take_reader) compression_reader"
  have l: "length d = UNCOMPRESSED_DATA_SIZE" by (simp add: d_def)
  have a: "compressed_as Some UNCOMPRESSED_DATA_SIZE [d] [d]" "comp_blocks [d] d" "[d] \<noteq> []" "length d < 2 ^ 63"
    "UNCOMPRESSED_DATA_SIZE dvd length d" "cr_underlayer_pos ?t < length d"
    using l by (simp_all add: compressed_as_def comp_blocks_def last_size_def UNCOMPRESSED_DATA_SIZE_def)
  have "length (comp_body [d] [d]) < 2 ^ 63"
    using l by (simp add: comp_body_def EMPTY_TAIL_OPTS_SERIALIZATION_def length_enc_sizes_info comp_index_def
        UNCOMPRESSED_DATA_SIZE_def)
  then have "comp_rinv cur_data cursor_inv (\<lambda>_ _ _. False) [d] [d] ?t"
    by (simp add: comp_rinv_def cursor_new_def cursor_inv_def)
  from seek_end_poisons [OF a(1-4) this a(5), of "demo_brotli_reader cursor_read" cursor_seek 1] a(6) obtain s' where
    "compression_seek (demo_brotli_reader cursor_read) cursor_seek (SeekEnd 0) ?t = (Inl IoOther, s')"
    "\<forall>p. compression_seek (demo_brotli_reader cursor_read) cursor_seek (SeekStart p) s' = (Inl IoPanic, s')"
    "compression_read (demo_brotli_reader cursor_read) cursor_seek 1 s' = (Inl IoOther, s')" by blast
  then show ?thesis by (rule_tac x = ?t in exI, rule_tac x = s' in exI) simp
qed

end
