(* ===== verification/CompressTruncated.thy ===== *)
theory CompressTruncated
  imports CompressReader
begin

text \<open>
  The compression layer of a truncated archive (\<^verbatim>\<open>CompressionLayerTruncatedReader\<close> and
  \<^verbatim>\<open>BrotliStreamReader\<close> of \<^verbatim>\<open>mla/src/layers/compress.rs\<close>): without the index, the end of a
  block is only known from the decoder, and a block that does not decode is read again byte by byte.

  The parameter \<open>brotli_stream\<close> is \<^verbatim>\<open>brotli::BrotliDecompressStream\<close>: from the available input, the room
  for output and a state, it gives a result, the input consumed, the output and the new state. The code calls
  itself without a bound that depends on its own state, so \<open>truncated_read\<close> has fuel, and \<open>None\<close> is a
  call that has not returned yet; \<open>truncated_read_more_fuel\<close> shows that a result does not depend on it.
\<close>

section \<open>The source with a rewind\<close>

text \<open>\<^verbatim>\<open>slice::copy_within(lo..hi, dest)\<close>, \<open>None\<close> when it panics.\<close>

definition copy_within :: "nat \<Rightarrow> nat \<Rightarrow> nat \<Rightarrow> 'a list \<Rightarrow> 'a list option" where
  "copy_within lo hi dest xs =
     (if lo \<le> hi \<and> hi \<le> length xs \<and> dest + (hi - lo) \<le> length xs
      then Some (take dest xs @ take (hi - lo) (drop lo xs) @ drop (dest + (hi - lo)) xs)
      else None)"

definition vec_resize :: "nat \<Rightarrow> bytes \<Rightarrow> bytes" where
  "vec_resize n xs = take n xs @ replicate (n - length xs) 0"

record 'r brotli_stream_reader =
  bs_cache :: bytes
  bs_inner :: 'r
  bs_number_of_bytes_read :: nat

definition brotli_stream_reader_new :: "'r \<Rightarrow> 'r brotli_stream_reader" where
  "brotli_stream_reader_new inner = \<lparr>bs_cache = [], bs_inner = inner, bs_number_of_bytes_read = 0\<rparr>"

definition new_brotli_stream :: "nat \<Rightarrow> ('r brotli_stream_reader, error, unit) op" where
  "new_brotli_stream offset_from_current_pos s =
     (let cache_len = length (bs_cache s)
      in case copy_within offset_from_current_pos cache_len 0 (bs_cache s) of
           None \<Rightarrow> (Inl Panic, s)
         | Some cache \<Rightarrow>
             (case checked_sub cache_len offset_from_current_pos of
                None \<Rightarrow> (Inl DeserializationError, s\<lparr>bs_cache := cache\<rparr>)
              | Some new_cache_len \<Rightarrow>
                  (Inr (), s\<lparr>bs_cache := take new_cache_len cache, bs_number_of_bytes_read := new_cache_len\<rparr>)))"

definition rewind_to_stream_start :: "'r brotli_stream_reader \<Rightarrow> 'r brotli_stream_reader" where
  "rewind_to_stream_start s = s\<lparr>bs_number_of_bytes_read := 0\<rparr>"

definition brotli_stream_read ::
  "(nat \<Rightarrow> ('r, io_error, bytes) op) \<Rightarrow> nat \<Rightarrow> ('r brotli_stream_reader, io_error, bytes) op" where
  "brotli_stream_read rd n s =
     (if bs_number_of_bytes_read s < length (bs_cache s) then
        (let bs = take n (drop (bs_number_of_bytes_read s) (bs_cache s))
         in (Inr bs, s\<lparr>bs_number_of_bytes_read := bs_number_of_bytes_read s + length bs\<rparr>))
      else case rd n (bs_inner s) of
          (Inl e, r) \<Rightarrow> (Inl e, s\<lparr>bs_inner := r\<rparr>)
        | (Inr bs, r) \<Rightarrow>
            (case checked_add (bs_number_of_bytes_read s) (length bs) of
               None \<Rightarrow> (Inl InvalidInput, s\<lparr>bs_inner := r, bs_cache := bs_cache s @ bs\<rparr>)
             | Some n' \<Rightarrow>
                 (Inr bs, s\<lparr>bs_inner := r, bs_cache := bs_cache s @ bs, bs_number_of_bytes_read := n'\<rparr>)))"

section \<open>The layer\<close>

datatype brotli_result = ResultSuccess | NeedsMoreInput | NeedsMoreOutput | ResultFailure

record 's brotli_stream =
  bd_new :: 's
  bd_step :: "bytes \<Rightarrow> nat \<Rightarrow> 's \<Rightarrow> brotli_result \<times> nat \<times> bytes \<times> 's"

definition TRUNCATED_READER_BUFFER_INITIAL_SIZE :: nat where
  "TRUNCATED_READER_BUFFER_INITIAL_SIZE = 4096"

record ('r, 's) compression_truncated_reader =
  ct_cache :: bytes
  ct_cache_filled_len :: nat
  ct_read_offset :: nat
  ct_brotli_state :: 's
  ct_uncompressed_read :: nat
  ct_inner :: "'r brotli_stream_reader"
  ct_byte_by_byte :: bool

definition truncated_new_skip_header :: "'s brotli_stream \<Rightarrow> 'r \<Rightarrow> ('r, 's) compression_truncated_reader" where
  "truncated_new_skip_header B inner =
     \<lparr>ct_cache = replicate TRUNCATED_READER_BUFFER_INITIAL_SIZE 0, ct_cache_filled_len = 0, ct_read_offset = 0,
      ct_brotli_state = bd_new B, ct_uncompressed_read = 0, ct_inner = brotli_stream_reader_new inner,
      ct_byte_by_byte = False\<rparr>"

definition truncated_new_skip_magic ::
  "'s brotli_stream \<Rightarrow> (nat \<Rightarrow> ('r, io_error, bytes) op) \<Rightarrow> 'r \<Rightarrow> error + ('r, 's) compression_truncated_reader" where
  "truncated_new_skip_magic B rd inner =
     (case opts_from_reader rd inner of
        (Inl e, _) \<Rightarrow> Inl e
      | (Inr _, inner') \<Rightarrow> Inr (truncated_new_skip_header B inner'))"

type_synonym ('r, 's) truncated_op =
  "('r, 's) compression_truncated_reader \<Rightarrow> ((io_error + bytes) \<times> ('r, 's) compression_truncated_reader) option"

text \<open>\<^verbatim>\<open>io::copy(&mut self.take(n), &mut io::sink())\<close>\<close>

function skip_bytes :: "(nat \<Rightarrow> ('r, 's) truncated_op) \<Rightarrow> nat \<Rightarrow> ('r, 's) compression_truncated_reader \<Rightarrow>
    ((io_error + unit) \<times> ('r, 's) compression_truncated_reader) option" where
  "skip_bytes again n s =
     (if n = 0 then Some (Inr (), s)
      else case again (min n COPY_BUF_SIZE) s of
          None \<Rightarrow> None
        | Some (Inl e, s') \<Rightarrow> Some (Inl e, s')
        | Some (Inr bs, s') \<Rightarrow>
            (if bs = [] then Some (Inr (), s') else skip_bytes again (n - length bs) s'))"
  by pat_completeness auto
termination
  by (relation "measure (\<lambda>(again, n, s). n)") auto

declare skip_bytes.simps [simp del]

text \<open>The four outcomes of the decoder, after \<open>k\<close> bytes of input and with the output \<open>out\<close>; \<open>again\<close> is the
  recursive call of \<^verbatim>\<open>read\<close>.\<close>

definition on_success ::
  "'s brotli_stream \<Rightarrow> (nat \<Rightarrow> ('r, 's) truncated_op) \<Rightarrow> nat \<Rightarrow> nat \<Rightarrow> bytes \<Rightarrow> ('r, 's) truncated_op" where
  "on_success B again n k out s =
     (case checked_add (ct_read_offset s) k of
        None \<Rightarrow> Some (Inl InvalidInput, s)
      | Some off \<Rightarrow>
          (let s1 = s\<lparr>ct_read_offset := off, ct_brotli_state := bd_new B, ct_uncompressed_read := 0\<rparr>
           in case checked_sub (ct_cache_filled_len s1) off of
                None \<Rightarrow> Some (Inl InvalidInput, s1)
              | Some remaining_cached \<Rightarrow>
                  (case new_brotli_stream remaining_cached (ct_inner s1) of
                     (Inl e, inner) \<Rightarrow> Some (Inl (io_error_from_error e), s1\<lparr>ct_inner := inner\<rparr>)
                   | (Inr _, inner) \<Rightarrow>
                       if out = [] then again n (s1\<lparr>ct_inner := inner\<rparr>)
                       else Some (Inr out, s1\<lparr>ct_inner := inner\<rparr>))))"

definition count_output ::
  "nat \<Rightarrow> bytes \<Rightarrow> (('r, 's) compression_truncated_reader, io_error, unit) op" where
  "count_output k out s =
     (case checked_add (ct_read_offset s) k of
        None \<Rightarrow> (Inl InvalidInput, s)
      | Some off \<Rightarrow>
          (let s1 = s\<lparr>ct_read_offset := off\<rparr>
           in case Option.bind (u32_try_from (length out)) (checked_add_u32 (ct_uncompressed_read s1)) of
               None \<Rightarrow> (Inl InvalidInput, s1)
             | Some n \<Rightarrow> (Inr (), s1\<lparr>ct_uncompressed_read := n\<rparr>)))"

definition make_room ::
  "('r, 's) compression_truncated_reader \<Rightarrow> io_error + ('r, 's) compression_truncated_reader" where
  "make_room s =
     (if ct_read_offset s = 0 \<and> ct_cache_filled_len s = length (ct_cache s)
      then Inr (s\<lparr>ct_cache := vec_resize (length (ct_cache s) + 1) (ct_cache s)\<rparr>)
      else case copy_within (ct_read_offset s) (ct_cache_filled_len s) 0 (ct_cache s) of
          None \<Rightarrow> Inl IoPanic
        | Some cache \<Rightarrow>
            (case checked_sub (ct_cache_filled_len s) (ct_read_offset s) of
               None \<Rightarrow> Inl InvalidInput
             | Some filled \<Rightarrow>
                 Inr (s\<lparr>ct_cache := (if ct_byte_by_byte s \<and> length cache \<noteq> 1 then vec_resize 1 cache else cache),
                       ct_cache_filled_len := filled, ct_read_offset := 0\<rparr>)))"

definition fill_cache ::
  "(nat \<Rightarrow> ('r, io_error, bytes) op) \<Rightarrow> (('r, 's) compression_truncated_reader, io_error, nat) op" where
  "fill_cache rd s =
     (if length (ct_cache s) < ct_cache_filled_len s then (Inl IoPanic, s)
      else case brotli_stream_read rd (length (ct_cache s) - ct_cache_filled_len s) (ct_inner s) of
          (Inl e, inner) \<Rightarrow> (Inl e, s\<lparr>ct_inner := inner\<rparr>)
        | (Inr bs, inner) \<Rightarrow>
            (Inr (length bs),
             s\<lparr>ct_inner := inner,
               ct_cache := take (ct_cache_filled_len s) (ct_cache s) @ bs @
                 drop (ct_cache_filled_len s + length bs) (ct_cache s)\<rparr>))"

definition on_needs_more_input ::
  "(nat \<Rightarrow> ('r, io_error, bytes) op) \<Rightarrow> (nat \<Rightarrow> ('r, 's) truncated_op) \<Rightarrow> nat \<Rightarrow> nat \<Rightarrow> bytes \<Rightarrow> ('r, 's) truncated_op" where
  "on_needs_more_input rd again n k out s =
     (case count_output k out s of
        (Inl e, s1) \<Rightarrow> Some (Inl e, s1)
      | (Inr _, s1) \<Rightarrow>
          if out \<noteq> [] then Some (Inr out, s1)
          else case make_room s1 of
              Inl e \<Rightarrow> Some (Inl e, s1)
            | Inr s2 \<Rightarrow>
                (case fill_cache rd s2 of
                   (Inl e, s3) \<Rightarrow> Some (Inl e, s3)
                 | (Inr read, s3) \<Rightarrow>
                     if read = 0 then
                       (if 0 < ct_uncompressed_read s3 then Some (Inl UnexpectedEof, s3) else Some (Inr [], s3))
                     else case checked_add (ct_cache_filled_len s3) read of
                         None \<Rightarrow> Some (Inl InvalidInput, s3)
                       | Some filled \<Rightarrow> again n (s3\<lparr>ct_cache_filled_len := filled\<rparr>)))"

definition on_needs_more_output :: "nat \<Rightarrow> bytes \<Rightarrow> ('r, 's) truncated_op" where
  "on_needs_more_output k out s =
     (case count_output k out s of
        (Inl e, s1) \<Rightarrow> Some (Inl e, s1)
      | (Inr _, s1) \<Rightarrow> Some (Inr out, s1))"

definition on_failure ::
  "'s brotli_stream \<Rightarrow> (nat \<Rightarrow> ('r, 's) truncated_op) \<Rightarrow> nat \<Rightarrow> ('r, 's) truncated_op" where
  "on_failure B again n s =
     (if ct_byte_by_byte s then Some (Inl InvalidData, s)
      else case skip_bytes again (ct_uncompressed_read s)
            (s\<lparr>ct_byte_by_byte := True, ct_cache := vec_resize 1 (ct_cache s), ct_cache_filled_len := 0,
               ct_read_offset := 0, ct_brotli_state := bd_new B, ct_uncompressed_read := 0,
               ct_inner := rewind_to_stream_start (ct_inner s)\<rparr>) of
          None \<Rightarrow> None
        | Some (Inl e, s') \<Rightarrow> Some (Inl e, s')
        | Some (Inr _, s') \<Rightarrow> again n s')"

definition truncated_reader_decompress_stream ::
  "'s brotli_stream \<Rightarrow> (nat \<Rightarrow> ('r, io_error, bytes) op) \<Rightarrow> (nat \<Rightarrow> ('r, 's) truncated_op) \<Rightarrow> nat \<Rightarrow> ('r, 's) truncated_op" where
  "truncated_reader_decompress_stream B rd again n s =
     (case bd_step B (take (ct_cache_filled_len s - ct_read_offset s) (drop (ct_read_offset s) (ct_cache s))) n
         (ct_brotli_state s) of
        (result, k, out, st) \<Rightarrow>
          (let s1 = s\<lparr>ct_brotli_state := st\<rparr>
           in case result of
                ResultSuccess \<Rightarrow> on_success B again n k out s1
              | NeedsMoreInput \<Rightarrow> on_needs_more_input rd again n k out s1
              | NeedsMoreOutput \<Rightarrow> on_needs_more_output k out s1
              | ResultFailure \<Rightarrow> on_failure B again n s1))"

primrec truncated_read ::
  "nat \<Rightarrow> 's brotli_stream \<Rightarrow> (nat \<Rightarrow> ('r, io_error, bytes) op) \<Rightarrow> nat \<Rightarrow> ('r, 's) truncated_op" where
  "truncated_read 0 B rd n s = None"
| "truncated_read (Suc fuel) B rd n s =
     (if UNCOMPRESSED_DATA_SIZE < ct_uncompressed_read s then Some (Inl IoOther, s)
      else if n = 0 then Some (Inr [], s)
      else if ct_cache_filled_len s < ct_read_offset s then Some (Inl InvalidInput, s)
      else if length (ct_cache s) < ct_cache_filled_len s then Some (Inl IoPanic, s)
      else truncated_reader_decompress_stream B rd (\<lambda>n s. truncated_read fuel B rd n s) n s)"

section \<open>The fuel\<close>

definition refines_op :: "(nat \<Rightarrow> ('r, 's) truncated_op) \<Rightarrow> (nat \<Rightarrow> ('r, 's) truncated_op) \<Rightarrow> bool" where
  "refines_op f g \<longleftrightarrow> (\<forall>n s x. f n s = Some x \<longrightarrow> g n s = Some x)"

lemma skip_bytes_mono: "refines_op f g \<Longrightarrow> skip_bytes f n s = Some x \<Longrightarrow> skip_bytes g n s = Some x"
proof (induction n arbitrary: s rule: less_induct)
  case (less n)
  show ?case
  proof (cases "n = 0")
    case True
    then show ?thesis using less.prems(2) by (simp add: skip_bytes.simps)
  next
    case False
    with less.prems(2) obtain y where y: "f (min n COPY_BUF_SIZE) s = Some y"
      by (subst (asm) skip_bytes.simps) (auto split: option.splits)
    then have g: "g (min n COPY_BUF_SIZE) s = Some y"
      using less.prems(1) unfolding refines_op_def by blast
    show ?thesis
    proof (cases "\<exists>bs s'. y = (Inr bs, s') \<and> bs \<noteq> []")
      case True
      then obtain bs s' where b: "y = (Inr bs, s')" "bs \<noteq> []" by blast
      then have "skip_bytes f (n - length bs) s' = Some x"
        using less.prems(2) y False by (subst (asm) skip_bytes.simps) simp
      then have "skip_bytes g (n - length bs) s' = Some x"
        using less.IH [OF _ less.prems(1)] b(2) False by simp
      then show ?thesis using b g False by (subst skip_bytes.simps) simp
    next
      case False
      then show ?thesis
        using less.prems(2) y g
        by (subst skip_bytes.simps, subst (asm) skip_bytes.simps) (auto split: sum.splits prod.splits if_splits)
    qed
  qed
qed

lemma decompress_stream_mono:
  assumes "refines_op f g" and "truncated_reader_decompress_stream B rd f n s = Some x"
  shows "truncated_reader_decompress_stream B rd g n s = Some x"
proof -
  have h: "f m t = Some y \<Longrightarrow> g m t = Some y" for m t y
    using assms(1) unfolding refines_op_def by blast
  obtain r k out st where step: "bd_step B (take (ct_cache_filled_len s - ct_read_offset s) (drop (ct_read_offset s) (ct_cache s))) n
      (ct_brotli_state s) = (r, k, out, st)" by (rule prod_cases4)
  let ?s = "s\<lparr>ct_brotli_state := st\<rparr>"
  have 1: "on_success B f n k out ?s = Some x \<Longrightarrow> on_success B g n k out ?s = Some x"
    by (auto simp: on_success_def Let_def h split: option.splits sum.splits prod.splits if_splits)
  have 2: "on_needs_more_input rd f n k out ?s = Some x \<Longrightarrow> on_needs_more_input rd g n k out ?s = Some x"
    by (auto simp: on_needs_more_input_def h split: option.splits sum.splits prod.splits if_splits)
  have 3: "on_failure B f n ?s = Some x \<Longrightarrow> on_failure B g n ?s = Some x"
    by (auto simp: on_failure_def h skip_bytes_mono [OF assms(1)] split: option.splits sum.splits prod.splits if_splits)
  show ?thesis
    using assms(2) 1 2 3 step by (cases r) (simp_all add: truncated_reader_decompress_stream_def Let_def)
qed

lemma truncated_read_more_fuel:
  "truncated_read fuel B rd n s = Some x \<Longrightarrow> fuel \<le> fuel' \<Longrightarrow> truncated_read fuel' B rd n s = Some x"
proof (induction fuel arbitrary: fuel' n s x)
  case 0
  then show ?case by simp
next
  case (Suc fuel)
  then obtain f where f: "fuel' = Suc f" "fuel \<le> f" by (cases fuel') auto
  have "refines_op (\<lambda>n s. truncated_read fuel B rd n s) (\<lambda>n s. truncated_read f B rd n s)"
    unfolding refines_op_def using Suc.IH f(2) by blast
  note dm = decompress_stream_mono [OF this]
  show ?case
    using Suc.prems(1) dm [of B rd n s x] unfolding f(1) truncated_read.simps by (simp split: if_splits)
qed

section \<open>Rewinding\<close>

lemma rewind_replays:
  assumes "n \<noteq> 0" and "bs_cache s \<noteq> []"
  shows "brotli_stream_read rd n (rewind_to_stream_start s) =
    (Inr (take n (bs_cache s)), s\<lparr>bs_number_of_bytes_read := min n (length (bs_cache s))\<rparr>)"
  using assms by (simp add: brotli_stream_read_def rewind_to_stream_start_def Let_def min.commute)

lemma new_brotli_stream_ok:
  "new_brotli_stream r s =
     (if r \<le> length (bs_cache s)
      then (Inr (), s\<lparr>bs_cache := drop r (bs_cache s), bs_number_of_bytes_read := length (bs_cache s) - r\<rparr>)
      else (Inl Panic, s))"
  by (simp add: new_brotli_stream_def copy_within_def checked_sub_def Let_def)

section \<open>A decoder\<close>

text \<open>An instance of the parameter: a stream is its length in one byte and its bytes. The state is the number of bytes
  the current stream still has.\<close>

definition demo_stored_body :: "bytes \<Rightarrow> nat \<Rightarrow> nat \<Rightarrow> brotli_result \<times> nat \<times> bytes \<times> nat option" where
  "demo_stored_body inp avail left =
     (let k = min left (min avail (length inp))
      in if k = left then (ResultSuccess, k, take k inp, None)
         else (if k = avail then NeedsMoreOutput else NeedsMoreInput, k, take k inp, Some (left - k)))"

definition demo_brotli_stream :: "nat option brotli_stream" where
  "demo_brotli_stream =
     \<lparr>bd_new = None,
      bd_step = \<lambda>inp avail st.
        case st of
          Some left \<Rightarrow> demo_stored_body inp avail left
        | None \<Rightarrow>
            (case inp of
               [] \<Rightarrow> (NeedsMoreInput, 0, [], None)
             | b # bs \<Rightarrow> (case demo_stored_body bs avail (unat b) of (r, k, out, st') \<Rightarrow> (r, Suc k, out, st')))\<rparr>"

section \<open>Properties\<close>

text \<open>C36: at the end of a block the source of the truncated reader keeps the wrong part of its cache: what is left
  after dropping as many bytes as are unread, instead of those unread bytes. When the next block ends before
  more is read, and what follows it is longer than the input consumed so far, the read panics.\<close>

theorem second_block_panics:
  assumes "ct_uncompressed_read s \<le> UNCOMPRESSED_DATA_SIZE" and "n \<noteq> 0" and "m \<noteq> 0"
    and "ct_read_offset s \<le> ct_cache_filled_len s" and "ct_cache_filled_len s = length (bs_cache (ct_inner s))"
    and "ct_cache_filled_len s \<le> length (ct_cache s)" and "ct_cache_filled_len s < 2 ^ 64"
    and "bd_step B (take (ct_cache_filled_len s - ct_read_offset s) (drop (ct_read_offset s) (ct_cache s))) n
      (ct_brotli_state s) = (ResultSuccess, k1, out1, st1)"
    and "out1 \<noteq> []" and "e1 = ct_read_offset s + k1"
    and "bd_step B (take (ct_cache_filled_len s - e1) (drop e1 (ct_cache s))) m (bd_new B) = (ResultSuccess, k2, out2, st2)"
    and "e1 + k2 \<le> ct_cache_filled_len s" and "e1 < ct_cache_filled_len s - (e1 + k2)"
  shows "\<exists>s1 s2. truncated_read (Suc fuel) B rd n s = Some (Inr out1, s1) \<and>
    bs_cache (ct_inner s1) = drop (ct_cache_filled_len s - e1) (bs_cache (ct_inner s)) \<and>
    truncated_read (Suc fuel) B rd m s1 = Some (Inl IoPanic, s2)"
proof -
  let ?f = "ct_cache_filled_len s"
  let ?t = "s\<lparr>ct_read_offset := e1, ct_brotli_state := bd_new B, ct_uncompressed_read := 0,
    ct_inner := (ct_inner s)\<lparr>bs_cache := drop (?f - e1) (bs_cache (ct_inner s)), bs_number_of_bytes_read := ?f - (?f - e1)\<rparr>\<rparr>"
  have e: "e1 \<le> ?f" "e1 < 2 ^ 64" "e1 + k2 < 2 ^ 64" using assms(7,12) by simp_all
  have r1: "truncated_read (Suc fuel) B rd n s = Some (Inr out1, ?t)"
    using assms(1,2,4-6,8-10) e
    by (simp add: truncated_reader_decompress_stream_def on_success_def checked_add_def checked_sub_def
        new_brotli_stream_ok Let_def)
  have l: "length (bs_cache (ct_inner ?t)) = e1" using assms(5) e(1) by simp
  have nb: "new_brotli_stream (?f - (e1 + k2)) (ct_inner ?t) = (Inl Panic, ct_inner ?t)"
    using l assms(13) by (simp add: new_brotli_stream_ok del: compression_truncated_reader.simps)
  obtain s2 where r2: "truncated_read (Suc fuel) B rd m ?t = Some (Inl IoPanic, s2)"
    using assms(3,6,11,12) e nb
    by (simp add: truncated_reader_decompress_stream_def on_success_def checked_add_def checked_sub_def
        io_error_from_error_def Let_def)
  show ?thesis by (rule exI [of _ ?t], rule exI [of _ s2]) (simp only: r1 r2, simp)
qed

theorem second_block_panics_witness:
  "\<exists>s s1 s2. truncated_read 1 demo_brotli_stream cursor_read 10 s = Some (Inr [7], s1) \<and>
    truncated_read 1 demo_brotli_stream cursor_read 10 s1 = Some (Inl IoPanic, s2) \<and>
    truncated_read 2 demo_brotli_stream cursor_read 10
      (truncated_new_skip_header demo_brotli_stream (cursor_new [1, 7, 1, 8, 1, 9, 1, 5])) = Some (Inr [7], s1)"
proof -
  let ?d = "[1, 7, 1, 8, 1, 9, 1, 5] :: bytes"
  let ?s = "\<lparr>ct_cache = ?d @ replicate 4088 0, ct_cache_filled_len = length ?d, ct_read_offset = 0, ct_brotli_state = None,
    ct_uncompressed_read = 0,
    ct_inner = \<lparr>bs_cache = ?d, bs_inner = \<lparr>cur_data = ?d, cur_pos = length ?d\<rparr>, bs_number_of_bytes_read = length ?d\<rparr>,
    ct_byte_by_byte = False\<rparr> :: (cursor, nat option) compression_truncated_reader"
  have g: "ct_uncompressed_read ?s \<le> UNCOMPRESSED_DATA_SIZE" "(10 :: nat) \<noteq> 0" "(10 :: nat) \<noteq> 0"
    "ct_read_offset ?s \<le> ct_cache_filled_len ?s" "ct_cache_filled_len ?s = length (bs_cache (ct_inner ?s))"
    "ct_cache_filled_len ?s \<le> length (ct_cache ?s)" "ct_cache_filled_len ?s < 2 ^ 64" by simp_all
  have b1: "bd_step demo_brotli_stream (take (ct_cache_filled_len ?s - ct_read_offset ?s) (drop (ct_read_offset ?s) (ct_cache ?s))) 10
      (ct_brotli_state ?s) = (ResultSuccess, 2, [7], None)"
    by (simp add: demo_brotli_stream_def demo_stored_body_def)
  have e: "[7 :: u8] \<noteq> []" "(2 :: nat) = ct_read_offset ?s + 2" by simp_all
  have b2: "bd_step demo_brotli_stream (take (ct_cache_filled_len ?s - 2) (drop 2 (ct_cache ?s))) 10
      (bd_new demo_brotli_stream) = (ResultSuccess, 2, [8], None)"
    by (simp add: demo_brotli_stream_def demo_stored_body_def)
  have l: "(2 :: nat) + 2 \<le> ct_cache_filled_len ?s" "(2 :: nat) < ct_cache_filled_len ?s - (2 + 2)" by simp_all
  from second_block_panics [OF g b1 e b2 l, of 0 cursor_read] obtain s1 s2 where
    r: "truncated_read 1 demo_brotli_stream cursor_read 10 ?s = Some (Inr [7], s1)"
    "truncated_read 1 demo_brotli_stream cursor_read 10 s1 = Some (Inl IoPanic, s2)" by auto
  have "truncated_read (Suc 1) demo_brotli_stream cursor_read 10
      (truncated_new_skip_header demo_brotli_stream (cursor_new ?d)) = truncated_read 1 demo_brotli_stream cursor_read 10 ?s"
    by (subst truncated_read.simps(2))
      (simp add: truncated_new_skip_header_def brotli_stream_reader_new_def cursor_new_def
        TRUNCATED_READER_BUFFER_INITIAL_SIZE_def truncated_reader_decompress_stream_def demo_brotli_stream_def
        on_needs_more_input_def count_output_def checked_add_def checked_add_u32_def u32_try_from_def make_room_def
        copy_within_def checked_sub_def fill_cache_def brotli_stream_read_def cursor_read_def
        Let_def del: truncated_read.simps(2))
  then have "truncated_read 2 demo_brotli_stream cursor_read 10
      (truncated_new_skip_header demo_brotli_stream (cursor_new ?d)) = Some (Inr [7], s1)"
    using r(1) by (simp add: numeral_2_eq_2)
  with r show ?thesis by blast
qed

end
