(* ===== verification/Recover.thy ===== *)
theory Recover
  imports Roundtrip CompressReader
begin

text \<open>
  The recovery of a truncated archive: \<^verbatim>\<open>TruncatedArchiveReader::convert_to_archive\<close> of
  \<^verbatim>\<open>mla/src/lib.rs\<close>. The entries layer is read block by block, until an error or the end, into a new
  archive; the entries that are still open at that point are ended with what was received.

  The loop over the blocks ends when the source does; it is a \<open>partial_function\<close>, and
  \<open>recovery_restores_received\<close> proves that it returns on every truncated archive.
\<close>

section \<open>The result\<close>

datatype truncated_read_error =
    NoError
  | UnexpectedEOFOnNextBlock
  | IOErrorOnNextBlock io_error
  | ErrorOnNextBlock error
  | ErrorInFile io_error bytes
  | ArchiveEntryIDReuse archive_entry_id
  | EntryNameReuse bytes
  | ArchiveEntryIDAlreadyClosed archive_entry_id
  | ContentForUnknownFile archive_entry_id
  | EOFForUnknownFile archive_entry_id
  | UnfinishedEntries "entry_name list" truncated_read_error
  | EndOfOriginalArchiveData
  | TruncatedReadInternalError
  | HashDiffers bytes bytes

definition update_error :: "truncated_read_error \<Rightarrow> truncated_read_error \<Rightarrow> truncated_read_error" where
  "update_error x y = (case x of NoError \<Rightarrow> y | _ \<Rightarrow> x)"

definition CACHE_SIZE :: nat where "CACHE_SIZE = 8 * 1024 * 1024"

section \<open>State\<close>

text \<open>What \<^verbatim>\<open>convert_to_archive\<close> keeps while it reads: the source, the new archive and its four collections.\<close>

record ('r, 'w) recovery =
  rv_src :: 'r
  rv_output :: "'w archive_writer"
  rv_id2id_output :: "(archive_entry_id \<times> archive_entry_id) list"
  rv_id2entryname :: "(archive_entry_id \<times> entry_name) list"
  rv_done :: "archive_entry_id list"
  rv_id2hash :: "(archive_entry_id \<times> bytes) list"

definition recovery_new :: "'r \<Rightarrow> 'w archive_writer \<Rightarrow> ('r, 'w) recovery" where
  "recovery_new src output =
     \<lparr>rv_src = src, rv_output = output, rv_id2id_output = [], rv_id2entryname = [], rv_done = [], rv_id2hash = []\<rparr>"

section \<open>The content of a block\<close>

text \<open>Aggregates reads up to \<open>n\<close> bytes, the end, or an error, which keeps what was read before it.\<close>

function buf_fill ::
  "(nat \<Rightarrow> ('r, io_error, bytes) op) \<Rightarrow> nat \<Rightarrow> 'r take_reader \<Rightarrow> (io_error option \<times> bytes) \<times> 'r take_reader" where
  "buf_fill rd n t =
     (if n = 0 then ((None, []), t)
      else case take_reader_read rd n t of
          (Inl e, t') \<Rightarrow> ((Some e, []), t')
        | (Inr bs, t') \<Rightarrow>
            (if bs = [] then ((None, []), t')
             else case buf_fill rd (n - length bs) t' of
                 ((e, bs'), t'') \<Rightarrow> ((e, bs @ bs'), t'')))"
  by pat_completeness auto
termination
  by (relation "measure (\<lambda>(rd, n, t). n)") auto

declare buf_fill.simps [simp del]

lemma take_reader_read_limit:
  "take_reader_read rd n t = (Inr bs, t') \<Longrightarrow> tk_limit t' \<le> tk_limit t \<and> (bs \<noteq> [] \<longrightarrow> tk_limit t' < tk_limit t)"
  by (auto simp: take_reader_read_def split: if_splits prod.splits sum.splits)

lemma take_reader_read_error_limit: "take_reader_read rd n t = (Inl e, t') \<Longrightarrow> tk_limit t' = tk_limit t"
  by (auto simp: take_reader_read_def split: if_splits prod.splits sum.splits)

lemma buf_fill_cases:
  assumes "buf_fill rd n t = ((e, bs), t')"
  obtains "bs = []" "tk_limit t' \<le> tk_limit t"
  | cs t1 bs' where "n \<noteq> 0" "take_reader_read rd n t = (Inr cs, t1)" "cs \<noteq> []"
      "buf_fill rd (n - length cs) t1 = ((e, bs'), t')" "bs = cs @ bs'"
proof (cases "n = 0")
  case True
  then show ?thesis using assms that(1) by (simp add: buf_fill.simps)
next
  case False
  obtain r t1 where r: "take_reader_read rd n t = (r, t1)" by fastforce
  show ?thesis
  proof (cases r)
    case (Inl x)
    then have "bs = []" "t' = t1" using assms False r by (simp_all add: buf_fill.simps [of rd n t])
    then show ?thesis using that(1) take_reader_read_error_limit [OF r [unfolded Inl]] by simp
  next
    case (Inr cs)
    note r' = r [unfolded Inr]
    show ?thesis
    proof (cases "cs = []")
      case True
      then have "bs = []" "t' = t1" using assms False r' by (simp_all add: buf_fill.simps [of rd n t])
      then show ?thesis using that(1) take_reader_read_limit [OF r'] by simp
    next
      case ne: False
      obtain e2 bs2 t2 where b: "buf_fill rd (n - length cs) t1 = ((e2, bs2), t2)" by (metis prod.exhaust)
      then have "e2 = e" "t2 = t'" "bs = cs @ bs2"
        using assms False r' ne by (simp_all add: buf_fill.simps [of rd n t])
      then show ?thesis using that(2) [OF False r' ne] b by simp
    qed
  qed
qed

lemma buf_fill_limit:
  "buf_fill rd n t = ((e, bs), t') \<Longrightarrow> tk_limit t' \<le> tk_limit t \<and> (bs \<noteq> [] \<longrightarrow> tk_limit t' < tk_limit t)"
proof (induction n arbitrary: t bs rule: less_induct)
  case (less n)
  from less.prems show ?case
  proof (cases rule: buf_fill_cases)
    case (2 cs t1 bs')
    have "tk_limit t' \<le> tk_limit t1" using less.IH [OF _ 2(4)] 2(1,3) by simp
    then show ?thesis using take_reader_read_limit [OF 2(2)] 2(3) by simp
  qed simp
qed

text \<open>The loop \<^verbatim>\<open>'content\<close>: \<open>Inr (Some e)\<close> when it stops the reconstruction.\<close>

function recover_content ::
  "(nat \<Rightarrow> ('r, io_error, bytes) op) \<Rightarrow> (bytes \<Rightarrow> ('w, io_error, nat) op) \<Rightarrow> archive_entry_id \<Rightarrow>
   ('r take_reader \<times> 'w archive_writer \<times> bytes, error, io_error option) op" where
  "recover_content rd wr id_output s =
     (case buf_fill rd CACHE_SIZE (fst s) of
        ((stop, buf), t) \<Rightarrow>
          (case append_entry_content cursor_read wr id_output (length buf) (cursor_new buf, fst (snd s)) of
             (Inl e, (_, output)) \<Rightarrow> (Inl e, (t, output, snd (snd s)))
           | (Inr _, (_, output)) \<Rightarrow>
               (case stop of
                  Some e \<Rightarrow> (Inr (Some e), (t, output, snd (snd s)))
                | None \<Rightarrow>
                    (if length buf < CACHE_SIZE then (Inr None, (t, output, snd (snd s) @ buf))
                     else recover_content rd wr id_output (t, output, snd (snd s) @ buf)))))"
  by pat_completeness auto
termination
proof (relation "measure (\<lambda>(rd, wr, i, s). tk_limit (fst s))", goal_cases)
  case 1
  show ?case by simp
next
  case (2 rd wr i s p t stop buf)
  then show ?case
    using buf_fill_limit [of rd CACHE_SIZE "fst s" stop buf t] by (auto simp: CACHE_SIZE_def not_less)
qed

declare recover_content.simps [simp del]

section \<open>The blocks\<close>

text \<open>Each handler gives an error of the new archive, the reason to stop, or \<open>None\<close> to go on.\<close>

definition recover_start ::
  "(bytes \<Rightarrow> ('w, io_error, nat) op) \<Rightarrow> entry_name \<Rightarrow> archive_entry_id \<Rightarrow>
   (('r, 'w) recovery, error, truncated_read_error option) op" where
  "recover_start wr name i s =
     (if map_of (rv_id2id_output s) i \<noteq> None then (Inr (Some (ArchiveEntryIDReuse i)), s)
      else if i \<in> set (rv_done s) then (Inr (Some (ArchiveEntryIDAlreadyClosed i)), s)
      else (let s1 = s\<lparr>rv_id2entryname := AList.update i name (rv_id2entryname s)\<rparr>
            in case start_entry wr name (rv_output s1) of
                 (Inl e, output) \<Rightarrow>
                   (if e = DuplicateEntryName
                    then (Inr (Some (EntryNameReuse (raw_content_to_escaped_string name))), s1\<lparr>rv_output := output\<rparr>)
                    else (Inl e, s1\<lparr>rv_output := output\<rparr>))
               | (Inr id_output, output) \<Rightarrow>
                   (Inr None, s1\<lparr>rv_output := output,
                      rv_id2id_output := AList.update i id_output (rv_id2id_output s1),
                      rv_id2hash := AList.update i [] (rv_id2hash s1)\<rparr>)))"

definition recover_entry_content ::
  "(nat \<Rightarrow> ('r, io_error, bytes) op) \<Rightarrow> (bytes \<Rightarrow> ('w, io_error, nat) op) \<Rightarrow> nat \<Rightarrow> archive_entry_id \<Rightarrow>
   (('r, 'w) recovery, error, truncated_read_error option) op" where
  "recover_entry_content rd wr len i s =
     (case map_of (rv_id2id_output s) i of
        None \<Rightarrow> (Inr (Some (ContentForUnknownFile i)), s)
      | Some id_output \<Rightarrow>
          if i \<in> set (rv_done s) then (Inr (Some (ArchiveEntryIDAlreadyClosed i)), s)
          else (case (map_of (rv_id2entryname s) i, map_of (rv_id2hash s) i) of
                  (Some name, Some hash) \<Rightarrow>
                    (case recover_content rd wr id_output (\<lparr>tk_inner = rv_src s, tk_limit = len\<rparr>, rv_output s, hash) of
                       (r, (t, output, hash')) \<Rightarrow>
                         (let s' = s\<lparr>rv_src := tk_inner t, rv_output := output,
                                     rv_id2hash := AList.update i hash' (rv_id2hash s)\<rparr>
                          in case r of
                               Inl e \<Rightarrow> (Inl e, s')
                             | Inr (Some e) \<Rightarrow> (Inr (Some (ErrorInFile e (raw_content_to_escaped_string name))), s')
                             | Inr None \<Rightarrow> (Inr None, s')))
                | _ \<Rightarrow> (Inl error.Panic, s)))"

definition recover_end ::
  "(bytes \<Rightarrow> bytes) \<Rightarrow> (bytes \<Rightarrow> ('w, io_error, nat) op) \<Rightarrow> archive_entry_id \<Rightarrow> bytes \<Rightarrow>
   (('r, 'w) recovery, error, truncated_read_error option) op" where
  "recover_end sha256 wr i hash s =
     (case map_of (rv_id2id_output s) i of
        None \<Rightarrow> (Inr (Some (EOFForUnknownFile i)), s)
      | Some id_output \<Rightarrow>
          if i \<in> set (rv_done s) then (Inr (Some (ArchiveEntryIDAlreadyClosed i)), s)
          else (case map_of (rv_id2hash s) i of
                  None \<Rightarrow> (Inr (Some TruncatedReadInternalError), s)
                | Some hash_archive \<Rightarrow>
                    (let s1 = s\<lparr>rv_id2hash := AList.delete i (rv_id2hash s)\<rparr>
                     in if sha256 hash_archive \<noteq> hash
                        then (Inr (Some (HashDiffers (sha256 hash_archive) hash)), s1)
                        else case end_entry sha256 wr id_output (rv_output s1) of
                            (Inl e, output) \<Rightarrow> (Inl e, s1\<lparr>rv_output := output\<rparr>)
                          | (Inr _, output) \<Rightarrow>
                              (Inr None, s1\<lparr>rv_output := output, rv_done := rv_done s1 @ [i]\<rparr>))))"

definition recover_block ::
  "(bytes \<Rightarrow> bytes) \<Rightarrow> (nat \<Rightarrow> ('r, io_error, bytes) op) \<Rightarrow> (bytes \<Rightarrow> ('w, io_error, nat) op) \<Rightarrow>
   'r archive_entry_block \<Rightarrow> (('r, 'w) recovery, error, truncated_read_error option) op" where
  "recover_block sha256 rd wr b =
     (case b of
        EntryStart name i \<Rightarrow> recover_start wr name i
      | EntryContent len _ i \<Rightarrow> recover_entry_content rd wr len i
      | EndOfEntry i hash \<Rightarrow> recover_end sha256 wr i hash
      | EndOfArchiveData \<Rightarrow> ret (Some EndOfOriginalArchiveData))"

definition block_error :: "error \<Rightarrow> truncated_read_error" where
  "block_error e =
     (case e of
        IOError err \<Rightarrow> (if err = UnexpectedEof then UnexpectedEOFOnNextBlock else IOErrorOnNextBlock err)
      | _ \<Rightarrow> ErrorOnNextBlock e)"

partial_function (option) read_blocks ::
  "(bytes \<Rightarrow> bytes) \<Rightarrow> (nat \<Rightarrow> ('r, io_error, bytes) op) \<Rightarrow> (bytes \<Rightarrow> ('w, io_error, nat) op) \<Rightarrow>
   ('r, 'w) recovery \<Rightarrow> ((error + truncated_read_error) \<times> ('r, 'w) recovery) option" where
  "read_blocks sha256 rd wr s =
     (case block_from rd (rv_src s) of
        (Inl e, src) \<Rightarrow> Some (Inr (update_error NoError (block_error e)), s\<lparr>rv_src := src\<rparr>)
      | (Inr b, src) \<Rightarrow>
          (case recover_block sha256 rd wr b (s\<lparr>rv_src := src\<rparr>) of
             (Inl e, s') \<Rightarrow> Some (Inl e, s')
           | (Inr (Some e), s') \<Rightarrow> Some (Inr (update_error NoError e), s')
           | (Inr None, s') \<Rightarrow> read_blocks sha256 rd wr s'))"

section \<open>Cleaning up\<close>

text \<open>Ends the entries that are still open, in the order given, and collects their names.\<close>

fun close_unfinished ::
  "(bytes \<Rightarrow> bytes) \<Rightarrow> (bytes \<Rightarrow> ('w, io_error, nat) op) \<Rightarrow> (archive_entry_id \<times> archive_entry_id) list \<Rightarrow>
   (('r, 'w) recovery, error, entry_name list) op" where
  "close_unfinished sha256 wr [] s = (Inr [], s)"
| "close_unfinished sha256 wr ((i, id_output) # rest) s =
     (if i \<in> set (rv_done s) then close_unfinished sha256 wr rest s
      else case map_of (rv_id2entryname s) i of
          None \<Rightarrow> (Inl error.Panic, s)
        | Some name \<Rightarrow>
            (case end_entry sha256 wr id_output (rv_output s) of
               (Inl e, output) \<Rightarrow> (Inl e, s\<lparr>rv_output := output\<rparr>)
             | (Inr _, output) \<Rightarrow>
                 (case close_unfinished sha256 wr rest (s\<lparr>rv_output := output\<rparr>) of
                    (Inl e, s') \<Rightarrow> (Inl e, s')
                  | (Inr names, s') \<Rightarrow> (Inr (name # names), s'))))"

text \<open>\<open>order\<close> is the iteration order of the \<^verbatim>\<open>HashMap\<close>, which is not specified.\<close>

definition convert_to_archive ::
  "((archive_entry_id \<times> archive_entry_id) list \<Rightarrow> (archive_entry_id \<times> archive_entry_id) list) \<Rightarrow>
   (bytes \<Rightarrow> bytes) \<Rightarrow> (nat \<Rightarrow> ('r, io_error, bytes) op) \<Rightarrow> (bytes \<Rightarrow> ('w, io_error, nat) op) \<Rightarrow>
   ('w \<Rightarrow> error + 'f) \<Rightarrow> (bytes \<Rightarrow> ('f, io_error, nat) op) \<Rightarrow> 'r \<Rightarrow> 'w archive_writer \<Rightarrow>
   (error + truncated_read_error \<times> 'f) option" where
  "convert_to_archive order sha256 rd wr layer_finalize wrf src output =
     (case read_blocks sha256 rd wr (recovery_new src output) of
        None \<Rightarrow> None
      | Some (Inl e, _) \<Rightarrow> Some (Inl e)
      | Some (Inr err, s) \<Rightarrow>
          (case close_unfinished sha256 wr (order (rv_id2id_output s)) s of
             (Inl e, _) \<Rightarrow> Some (Inl e)
           | (Inr unfinished_files, s') \<Rightarrow>
               (case archive_finalize wr layer_finalize wrf (rv_output s') of
                  Inl e \<Rightarrow> Some (Inl e)
                | Inr f \<Rightarrow>
                    Some (Inr (if unfinished_files \<noteq> [] then UnfinishedEntries unfinished_files err else err, f)))))"

section \<open>A reader that stops\<close>

text \<open>At the end of what was received, a reader either says so or fails.\<close>

locale stopping_source = source rd view pos inv
  for rd :: "nat \<Rightarrow> ('r, io_error, bytes) op"
    and view :: "'r \<Rightarrow> bytes"
    and pos :: "'r \<Rightarrow> nat"
    and inv :: "'r \<Rightarrow> bool" +
  assumes read_stop: "inv s \<Longrightarrow> length (view s) \<le> pos s \<Longrightarrow> rd n s = (Inr bs, s') \<Longrightarrow>
    bs = [] \<and> inv s' \<and> view s' = view s \<and> pos s' = pos s"
begin

text \<open>When the bytes stop inside \<open>bs\<close>, the operation fails, or returns with nothing left to read.\<close>

definition dries :: "('r, 'e, 'a) op \<Rightarrow> bytes \<Rightarrow> bool" where
  "dries m bs \<longleftrightarrow> (\<forall>s t a s'. inv s \<longrightarrow> t \<noteq> [] \<longrightarrow> bs = rest s @ t \<longrightarrow> m s = (Inr a, s') \<longrightarrow>
     inv s' \<and> rest s' = [])"

definition stops :: "('r, 'e, 'a) op \<Rightarrow> bytes \<Rightarrow> bool" where
  "stops m bs \<longleftrightarrow> (\<forall>s t. inv s \<longrightarrow> t \<noteq> [] \<longrightarrow> bs = rest s @ t \<longrightarrow> (\<exists>e s'. m s = (Inl e, s')))"

lemma stopsI: "(\<And>s t. inv s \<Longrightarrow> t \<noteq> [] \<Longrightarrow> bs = rest s @ t \<Longrightarrow> \<exists>e s'. m s = (Inl e, s')) \<Longrightarrow> stops m bs"
  by (simp add: stops_def)

lemma stopsE:
  assumes "stops m bs" "inv s" "bs = rest s @ t" "t \<noteq> []"
  obtains e s' where "m s = (Inl e, s')"
  using assms unfolding stops_def by blast

lemma rest_Nil: "rest s = [] \<longleftrightarrow> length (view s) \<le> pos s"
  by (simp add: rest_def)

lemma read_exact_short: "inv s \<Longrightarrow> length (rest s) < n \<Longrightarrow> \<exists>e s'. read_exact rd n s = (Inl e, s')"
proof (induction n arbitrary: s rule: less_induct)
  case (less n)
  show ?case
  proof (cases "rest s = []")
    case True
    obtain r s' where r: "rd n s = (r, s')" by fastforce
    show ?thesis
    proof (cases r)
      case (Inr bs)
      then have "bs = []" using read_stop [OF less.prems(1), of n bs s'] r True by (simp add: rest_Nil)
      then show ?thesis using less.prems r Inr by (subst read_exact.simps) simp
    qed (use less.prems r in \<open>subst read_exact.simps, simp\<close>)
  next
    case False
    with less.prems(1) obtain k s' where k: "rd n s = (Inr (take k (rest s)), s')" "k \<le> n"
      "k \<le> length (rest s)" "0 < n \<longrightarrow> 0 < k"
      "inv s'" "view s' = view s" "pos s' = pos s + k" "rest s' = drop k (rest s)"
      by (rule readE [of s n])
    then have "0 < k" using less.prems by auto
    then have "\<exists>e s''. read_exact rd (n - k) s' = (Inl e, s'')"
      by (intro less.IH) (use k less.prems in auto)
    then show ?thesis
      using less.prems k False \<open>0 < k\<close> by (subst read_exact.simps) (auto simp: min_absorb2)
  qed
qed

lemma take_read_to_end_short:
  "inv s \<Longrightarrow> length (rest s) < n \<Longrightarrow> take_read_to_end rd n s = (Inr bs, s') \<Longrightarrow> inv s' \<and> rest s' = []"
proof (induction n arbitrary: s bs rule: less_induct)
  case (less n)
  show ?case
  proof (cases "rest s = []")
    case True
    have stop: "bs' = [] \<and> inv s1 \<and> rest s1 = []" if "rd n s = (Inr bs', s1)" for bs' s1
      using read_stop [OF less.prems(1) _ that] True by (simp add: rest_def)
    show ?thesis
      using less.prems(2,3) stop by (subst (asm) take_read_to_end.simps) (auto split: prod.splits sum.splits)
  next
    case False
    with less.prems(1) obtain k s1 where k: "rd n s = (Inr (take k (rest s)), s1)" "k \<le> n"
      "k \<le> length (rest s)" "0 < n \<longrightarrow> 0 < k"
      "inv s1" "view s1 = view s" "pos s1 = pos s + k" "rest s1 = drop k (rest s)"
      by (rule readE [of s n])
    have "0 < k" using less.prems(2) k(4) by auto
    then have "take k (rest s) \<noteq> []" using False by simp
    then obtain bs' where b: "take_read_to_end rd (n - k) s1 = (Inr bs', s')"
      using less.prems(2,3) k(1,3)
      by (subst (asm) take_read_to_end.simps) (auto simp: min_absorb2 split: prod.splits sum.splits)
    show ?thesis
      by (rule less.IH [OF _ k(5) _ b]) (use less.prems(2) k \<open>0 < k\<close> in auto)
  qed
qed

lemma stops_read_exact: "n = length bs \<Longrightarrow> stops (read_exact rd n) bs"
proof (rule stopsI)
  fix s t assume "n = length bs" "inv s" "t \<noteq> []" "bs = rest s @ t"
  then have "length (rest s) < n" by simp
  with \<open>inv s\<close> show "\<exists>e s'. read_exact rd n s = (Inl e, s')" by (rule read_exact_short)
qed

lemma dries_take_read_to_end: "n = length bs \<Longrightarrow> dries (take_read_to_end rd n) bs"
  unfolding dries_def
proof (intro allI impI)
  fix s t a s'
  assume h: "n = length bs" "inv s" "t \<noteq> []" "bs = rest s @ t" and r: "take_read_to_end rd n s = (Inr a, s')"
  from h have "length (rest s) < n" by simp
  from take_read_to_end_short [OF h(2) this r] show "inv s' \<and> rest s' = []" .
qed

lemma stops_map_errE: "stops m bs \<Longrightarrow> stops (map_errE f m) bs"
  by (rule stopsI, erule stopsE, assumption, assumption, assumption) (blast intro: map_errE_Inl)

lemma dries_map_errE: "dries m bs \<Longrightarrow> dries (map_errE f m) bs"
  unfolding dries_def by (blast dest: map_errE_InrD)

lemma stops_ret: "stops (ret a) []"
  by (simp add: stops_def)

lemma append_split_cases:
  assumes "bs @ cs = xs @ t" and "t \<noteq> []"
  obtains u where "bs = xs @ u" "u \<noteq> []" | u where "xs = bs @ u" "cs = u @ t"
proof -
  from assms(1) obtain us where "bs = xs @ us \<and> us @ cs = t \<or> bs @ us = xs \<and> cs = us @ t"
    unfolding append_eq_append_conv2 by (elim exE)
  then consider "bs = xs @ us" "us @ cs = t" | "xs = bs @ us" "cs = us @ t" by (elim disjE conjE) simp_all
  then show thesis
  proof cases
    case 1
    show thesis
    proof (cases "us = []")
      case True
      then show ?thesis using 1 that(2) [of "[]"] by simp
    qed (rule that(1) [OF 1(1)])
  qed (rule that(2))
qed

lemma stops_bindE:
  assumes "parses m bs a" and "stops m bs" and "stops (k a) cs"
  shows "stops (bindE m k) (bs @ cs)"
proof (rule stopsI)
  fix s t assume s: "inv s" "t \<noteq> []" "bs @ cs = rest s @ t"
  from s(3,2) show "\<exists>e s'. bindE m k s = (Inl e, s')"
  proof (cases rule: append_split_cases)
    case (1 u)
    from stopsE [OF assms(2) s(1) 1] obtain e s' where "m s = (Inl e, s')" .
    then show ?thesis by (simp add: bindE_Inl)
  next
    case (2 u)
    from parsesD [OF assms(1) s(1) 2(1)] obtain s1 where s1: "m s = (Inr a, s1)" "inv s1"
      "rest s1 = drop (length bs) (rest s)" by (rule yieldsE)
    then have "cs = rest s1 @ t" using 2 by simp
    from stopsE [OF assms(3) s1(2) this s(2)] obtain e s' where "k a s1 = (Inl e, s')" .
    then show ?thesis using s1(1) by (simp add: bindE_Inr)
  qed
qed

lemma stops_dry_bindE:
  assumes "parses m bs a" and "dries m bs" and "\<And>b. stops (k b) cs" and "cs \<noteq> []"
  shows "stops (bindE m k) (bs @ cs)"
proof (rule stopsI)
  fix s t assume s: "inv s" "t \<noteq> []" "bs @ cs = rest s @ t"
  from s(3,2) show "\<exists>e s'. bindE m k s = (Inl e, s')"
  proof (cases rule: append_split_cases)
    case (1 u)
    obtain r s1 where r: "m s = (r, s1)" by fastforce
    show ?thesis
    proof (cases r)
      case (Inl e)
      then show ?thesis using r by (simp add: bindE_Inl)
    next
      case (Inr b)
      then have s1: "inv s1" "rest s1 = []" using assms(2) s(1) 1 r unfolding dries_def by blast+
      then have "cs = rest s1 @ cs" by simp
      from stopsE [OF assms(3) s1(1) this assms(4)] obtain e s' where "k b s1 = (Inl e, s')" .
      then show ?thesis using r Inr by (auto simp: bindE_Inr)
    qed
  next
    case (2 u)
    from parsesD [OF assms(1) s(1) 2(1)] obtain s1 where s1: "m s = (Inr a, s1)" "inv s1"
      "rest s1 = drop (length bs) (rest s)" by (rule yieldsE)
    then have "cs = rest s1 @ t" using 2 by simp
    from stopsE [OF assms(3) s1(2) this s(2)] obtain e s' where "k a s1 = (Inl e, s')" .
    then show ?thesis using s1(1) by (simp add: bindE_Inr)
  qed
qed

lemma stops_last: "stops m bs \<Longrightarrow> stops (bindE m k) bs"
  by (rule stopsI, erule stopsE, assumption, assumption, assumption, drule bindE_Inl, intro exI)

section \<open>A truncated block is not parsed\<close>

lemma stops_deser: "n = length bs \<Longrightarrow> stops (read_exact_or_deser rd n) bs"
  by (simp add: read_exact_or_deser_def stops_map_errE stops_read_exact)

lemma stops_u64: "stops (u64_deserialize rd) (to_le 8 n)"
  unfolding u64_deserialize_def by (rule stops_last, rule stops_deser) simp

lemma stops_u8: "stops (u8_deserialize rd) [b]"
  unfolding u8_deserialize_def by (rule stops_last, rule stops_deser) simp

lemma stops_opts: "stops (opts_from_reader rd) EMPTY_OPTS_SERIALIZATION"
  unfolding opts_from_reader_def EMPTY_OPTS_SERIALIZATION_def by (rule stops_last, rule stops_u8)

lemma stops_magic: "stops (u32_deserialize rd) ARCHIVE_ENTRY_BLOCK_MAGIC"
  unfolding u32_deserialize_def by (rule stops_last, rule stops_deser) simp

lemma stops_block_type: "stops (block_type_deserialize rd) [b]"
  unfolding block_type_deserialize_def by (rule stops_last, rule stops_u8)

lemma stops_id: "stops (id_deserialize rd) (to_le 8 i)"
  unfolding id_deserialize_def by (rule stops_u64)

text \<open>A truncated name may still be a name; the options that must follow are then missing.\<close>

lemma dries_bindE:
  assumes "parses m bs a" and "stops m bs" and "dries (k a) cs"
  shows "dries (bindE m k) (bs @ cs)"
  unfolding dries_def
proof (intro allI impI)
  fix s t b s' assume s: "inv s" "t \<noteq> []" "bs @ cs = rest s @ t" and r: "bindE m k s = (Inr b, s')"
  from s(3,2) show "inv s' \<and> rest s' = []"
  proof (cases rule: append_split_cases)
    case (1 u)
    from stopsE [OF assms(2) s(1) 1] obtain e s1 where "m s = (Inl e, s1)" .
    with r show ?thesis by (simp add: bindE_Inl)
  next
    case (2 u)
    from parsesD [OF assms(1) s(1) 2(1)] obtain s1 where s1: "m s = (Inr a, s1)" "inv s1"
      "rest s1 = drop (length bs) (rest s)" by (rule yieldsE)
    then have c: "cs = rest s1 @ t" using 2 by simp
    have "k a s1 = (Inr b, s')" using r s1(1) by (simp add: bindE_Inr)
    with assms(3) s1(2) c s(2) show ?thesis unfolding dries_def by blast
  qed
qed

lemma dries_last:
  assumes "dries m bs"
  shows "dries (bindE m (\<lambda>a. lift_res (f a))) bs"
  unfolding dries_def
proof (intro allI impI)
  fix s t b s' assume s: "inv s" "t \<noteq> []" "bs = rest s @ t" and r: "bindE m (\<lambda>a. lift_res (f a)) s = (Inr b, s')"
  from r obtain a where "m s = (Inr a, s')"
    by (auto elim!: bindE_InrE simp: lift_res_def)
  with assms s show "inv s' \<and> rest s' = []" unfolding dries_def by blast
qed

lemma dries_entry_name:
  assumes "wf_name name"
  shows "dries (deserialize_entry_name rd) (enc_name name)"
  unfolding deserialize_entry_name_def enc_name_def
  by (rule dries_bindE, rule parses_u64, rule wf_name_length [OF assms], rule stops_u64,
      rule dries_last, rule dries_map_errE, rule dries_take_read_to_end) auto

lemma stops_block:
  assumes "wf_block b"
  shows "stops (block_from rd) (enc_head b)"
proof -
  obtain n where m: "parses (u32_deserialize rd) ARCHIVE_ENTRY_BLOCK_MAGIC n"
    using parses_block_magic by blast
  show ?thesis
  proof (cases b)
    case (BStart name i)
    then show ?thesis
      using assms unfolding block_from_def BStart enc_head.simps
      by - (rule stops_bindE, rule m, rule stops_magic, rule stops_bindE, rule parses_block_type,
        rule stops_block_type, simp only: archive_entry_block_type.case wf_block.simps,
        rule stops_bindE, rule parses_id, simp, rule stops_id, rule stops_dry_bindE, rule parses_entry_name,
        simp, rule dries_entry_name, simp, rule stops_last, rule stops_opts, simp add: EMPTY_OPTS_SERIALIZATION_def)
  next
    case (BContent i bs)
    then show ?thesis
      using assms unfolding block_from_def BContent enc_head.simps
      by - (rule stops_bindE, rule m, rule stops_magic, rule stops_bindE, rule parses_block_type,
        rule stops_block_type, simp only: archive_entry_block_type.case wf_block.simps,
        rule stops_bindE, rule parses_id, simp, rule stops_id, rule stops_bindE, rule parses_opts,
        rule stops_opts, rule stops_last, rule stops_u64)
  next
    case (BEnd i hash)
    then show ?thesis
      using assms unfolding block_from_def BEnd enc_head.simps
      by - (rule stops_bindE, rule m, rule stops_magic, rule stops_bindE, rule parses_block_type,
        rule stops_block_type, simp only: archive_entry_block_type.case wf_block.simps,
        rule stops_bindE, rule parses_id, simp, rule stops_id, rule stops_bindE, rule parses_opts,
        rule stops_opts, rule stops_last, simp only: lift_io_def, rule stops_map_errE, rule stops_read_exact, simp)
  next
    case BEndOfData
    then show ?thesis
      unfolding block_from_def BEndOfData enc_head.simps
      by - (rule stops_bindE, rule m, rule stops_magic, rule stops_last, rule stops_block_type)
  qed
qed


section \<open>The content of a block\<close>

lemma take_reader_read_Inr:
  "tk_limit t \<noteq> 0 \<Longrightarrow> rd (min n (tk_limit t)) (tk_inner t) = (Inr bs, r) \<Longrightarrow>
   take_reader_read rd n t = (Inr bs, t\<lparr>tk_inner := r, tk_limit := tk_limit t - length bs\<rparr>)"
  by (simp add: take_reader_read_def)

lemma buf_fill_ok:
  assumes "inv (tk_inner t)"
  shows "\<exists>e t'. buf_fill rd n t = ((e, take n (take (tk_limit t) (rest (tk_inner t)))), t') \<and>
    (e = None \<longrightarrow> inv (tk_inner t') \<and> view (tk_inner t') = view (tk_inner t) \<and>
       pos (tk_inner t') = pos (tk_inner t) + min n (length (take (tk_limit t) (rest (tk_inner t)))) \<and>
       tk_limit t' = tk_limit t - min n (length (take (tk_limit t) (rest (tk_inner t))))) \<and>
    (e \<noteq> None \<longrightarrow> length (rest (tk_inner t)) < n \<and> length (rest (tk_inner t)) < tk_limit t)"
  using assms
proof (induction n arbitrary: t rule: less_induct)
  case (less n)
  let ?r = "tk_inner t" and ?l = "tk_limit t"
  consider "n = 0" | "n \<noteq> 0" "?l = 0" | "n \<noteq> 0" "?l \<noteq> 0" "rest ?r = []" | "n \<noteq> 0" "?l \<noteq> 0" "rest ?r \<noteq> []" by blast
  then show ?case
  proof cases
    case 1
    then show ?thesis using less.prems by (simp add: buf_fill.simps)
  next
    case 2
    then show ?thesis using less.prems by (simp add: buf_fill.simps [of rd n] take_reader_read_def)
  next
    case 3
    obtain r s' where r: "rd (min n ?l) ?r = (r, s')" by fastforce
    show ?thesis
    proof (cases r)
      case (Inl e)
      then show ?thesis using 3 r by (simp add: buf_fill.simps [of rd n] take_reader_read_def)
    next
      case (Inr bs)
      have "bs = [] \<and> inv s' \<and> view s' = view ?r \<and> pos s' = pos ?r"
        by (rule read_stop [OF less.prems _ r [unfolded Inr]]) (use 3 rest_Nil in simp)
      then show ?thesis using 3 r Inr by (simp add: buf_fill.simps [of rd n] take_reader_read_Inr)
    qed
  next
    case 4
    from less.prems 4(3) obtain k s1 where k: "rd (min n ?l) ?r = (Inr (take k (rest ?r)), s1)" "k \<le> min n ?l"
      "k \<le> length (rest ?r)" "0 < min n ?l \<longrightarrow> 0 < k"
      "inv s1" "view s1 = view ?r" "pos s1 = pos ?r + k" "rest s1 = drop k (rest ?r)"
      by (rule readE)
    have k0: "0 < k" using k(4) 4(1,2) by simp
    let ?t1 = "t\<lparr>tk_inner := s1, tk_limit := ?l - k\<rparr>"
    have rd: "take_reader_read rd n t = (Inr (take k (rest ?r)), ?t1)"
      using take_reader_read_Inr [OF 4(2) k(1)] k(3) by (simp add: min_absorb2)
    have v1: "take (tk_limit ?t1) (rest (tk_inner ?t1)) = drop k (take ?l (rest ?r))"
      by (simp add: k(8) drop_take)
    have "n - k < n" using k0 4(1) by simp
    from less.IH [OF this, of ?t1] k(5) obtain e t' where
      e: "buf_fill rd (n - k) ?t1 = ((e, take (n - k) (drop k (take ?l (rest ?r)))), t')"
      "e = None \<longrightarrow> inv (tk_inner t') \<and> view (tk_inner t') = view s1 \<and>
         pos (tk_inner t') = pos s1 + min (n - k) (length (drop k (take ?l (rest ?r)))) \<and>
         tk_limit t' = ?l - k - min (n - k) (length (drop k (take ?l (rest ?r))))"
      "e \<noteq> None \<longrightarrow> length (rest s1) < n - k \<and> length (rest s1) < ?l - k"
      unfolding v1 by auto
    have "take k (rest ?r) = take k (take ?l (rest ?r))" using k(2) by (simp add: min_absorb1)
    then have "take k (rest ?r) @ take (n - k) (drop k (take ?l (rest ?r))) = take n (take ?l (rest ?r))"
      using take_add [of k "n - k" "take ?l (rest ?r)"] k(2) by simp
    moreover have "take k (rest ?r) \<noteq> []" using k0 4(3) by simp
    moreover have "length (take k (rest ?r)) = k" using k(3) by simp
    ultimately have bf: "buf_fill rd n t = ((e, take n (take ?l (rest ?r))), t')"
      using 4(1) rd e(1) by (simp add: buf_fill.simps [of rd n])
    have "min n m = k + min (n - k) (m - k)" if "k \<le> n" "k \<le> m" for m :: nat
      using that by linarith
    from this [of "length (take ?l (rest ?r))"] k(2,3)
    have m: "min n (length (take ?l (rest ?r))) = k + min (n - k) (length (drop k (take ?l (rest ?r))))"
      by simp
    have l1: "length (rest s1) = length (rest ?r) - k" by (simp add: k(8))
    show ?thesis
    proof (rule exI [of _ e], rule exI [of _ t'], intro conjI)
      show "buf_fill rd n t = ((e, take n (take ?l (rest ?r))), t')" by (rule bf)
      show "e = None \<longrightarrow> inv (tk_inner t') \<and> view (tk_inner t') = view ?r \<and>
          pos (tk_inner t') = pos ?r + min n (length (take ?l (rest ?r))) \<and>
          tk_limit t' = ?l - min n (length (take ?l (rest ?r)))"
        using e(2) unfolding m k(6,7) by (simp only: add.assoc diff_diff_left)
      show "e \<noteq> None \<longrightarrow> length (rest ?r) < n \<and> length (rest ?r) < ?l"
        using e(3) unfolding l1 by auto
    qed
  qed
qed

end

text \<open>What the new archive spends on a content of \<open>n\<close> bytes: a block for each full buffer and the rest.\<close>

definition content_cost :: "nat \<Rightarrow> nat" where
  "content_cost n = n + 22 * (n div CACHE_SIZE + 1)"

lemma content_cost_add: "content_cost (CACHE_SIZE + n) = 22 + CACHE_SIZE + content_cost n"
proof -
  have "(CACHE_SIZE + n) div CACHE_SIZE = n div CACHE_SIZE + 1"
    by (rule div_add_self1) (simp add: CACHE_SIZE_def)
  then show ?thesis by (simp only: content_cost_def) simp
qed

locale recoverer = stopping_source rd view pos inv + room_sink wr out winv room
  for rd :: "nat \<Rightarrow> ('r, io_error, bytes) op"
    and view :: "'r \<Rightarrow> bytes"
    and pos :: "'r \<Rightarrow> nat"
    and inv :: "'r \<Rightarrow> bool"
    and wr :: "bytes \<Rightarrow> ('w, io_error, nat) op"
    and out :: "'w \<Rightarrow> bytes"
    and winv :: "'w \<Rightarrow> bool"
    and room :: "'w \<Rightarrow> nat"
begin

lemmas room_ax = room_sink_axioms
lemmas sink_ax = sink_axioms

lemma append_buf_ok:
  assumes I: "writer_inv out winv sha256 base os w" and j: "j \<in> open_ids os" and b: "length buf \<le> CACHE_SIZE"
    and r: "22 + length buf \<le> writer_room room w"
  shows "\<exists>c w'. append_entry_content cursor_read wr j (length buf) (cursor_new buf, w) = (Inr (), (c, w')) \<and>
    writer_inv out winv sha256 base (os @ (if buf = [] then [] else [BContent j buf])) w' \<and>
    writer_room room w \<le> writer_room room w' + (22 + length buf)"
proof -
  have c: "cursor_inv (cursor_new buf)" "length buf \<le> length (drop (cur_pos (cursor_new buf)) (cur_data (cursor_new buf)))"
    "take (length buf) (drop (cur_pos (cursor_new buf)) (cur_data (cursor_new buf))) = buf"
    using b by (simp_all add: cursor_inv_def cursor_new_def CACHE_SIZE_def)
  have l: "length (enc_block (BContent j buf)) = 22 + length buf" by (simp add: enc_block_def)
  from append_entry_content_room [OF cur.source_axioms room_ax I j c(1,2)] r obtain c' w' where
    a: "append_entry_content cursor_read wr j (length buf) (cursor_new buf, w) = (Inr (), (c', w'))"
    "writer_room room w \<le> writer_room room w' + (22 + length buf)"
    unfolding c(3) l by blast
  from append_entry_content_inv [OF cur.source_axioms sink_ax I c(1,2) a(1)] show ?thesis
    using a unfolding c(3) by auto
qed

lemma recover_content_ok:
  assumes "inv (tk_inner t)" and "writer_inv out winv sha256 base os w" and "j \<in> open_ids os"
    and "content_cost (length (take (tk_limit t) (rest (tk_inner t)))) \<le> writer_room room w"
  shows "\<exists>r t' w' h' cs. recover_content rd wr j (t, w, h) = (Inr r, (t', w', h')) \<and>
    concat cs = take (tk_limit t) (rest (tk_inner t)) \<and> [] \<notin> set cs \<and>
    length (enc_blocks (map (BContent j) cs)) \<le> content_cost (length (take (tk_limit t) (rest (tk_inner t)))) \<and>
    writer_inv out winv sha256 base (os @ map (BContent j) cs) w' \<and>
    writer_room room w \<le> writer_room room w' + content_cost (length (take (tk_limit t) (rest (tk_inner t)))) \<and>
    (r = None \<longrightarrow> h' = h @ take (tk_limit t) (rest (tk_inner t)) \<and> inv (tk_inner t') \<and>
       view (tk_inner t') = view (tk_inner t) \<and>
       pos (tk_inner t') = pos (tk_inner t) + length (take (tk_limit t) (rest (tk_inner t)))) \<and>
    (r \<noteq> None \<longrightarrow> length (rest (tk_inner t)) < tk_limit t)"
  using assms
proof (induction "length (take (tk_limit t) (rest (tk_inner t)))" arbitrary: t os w h rule: less_induct)
  case less
  let ?v = "take (tk_limit t) (rest (tk_inner t))"
  from buf_fill_ok [OF less.prems(1), of CACHE_SIZE] obtain e t1 where
    b: "buf_fill rd CACHE_SIZE t = ((e, take CACHE_SIZE ?v), t1)"
    "e = None \<longrightarrow> inv (tk_inner t1) \<and> view (tk_inner t1) = view (tk_inner t) \<and>
       pos (tk_inner t1) = pos (tk_inner t) + min CACHE_SIZE (length ?v) \<and>
       tk_limit t1 = tk_limit t - min CACHE_SIZE (length ?v)"
    "e \<noteq> None \<longrightarrow> length (rest (tk_inner t)) < CACHE_SIZE \<and> length (rest (tk_inner t)) < tk_limit t" by blast
  let ?buf = "take CACHE_SIZE ?v"
  let ?blks = "if ?buf = [] then [] else [BContent j ?buf]"
  have room: "22 + length ?buf \<le> writer_room room w"
    using less.prems(4) by (simp add: content_cost_def)
  have lb: "length ?buf \<le> CACHE_SIZE" by simp
  from append_buf_ok [OF less.prems(2,3) lb room] obtain c w1 where
    a: "append_entry_content cursor_read wr j (length ?buf) (cursor_new ?buf, w) = (Inr (), (c, w1))"
    "writer_inv out winv sha256 base (os @ ?blks) w1"
    "writer_room room w \<le> writer_room room w1 + (22 + length ?buf)" by blast
  show ?case
  proof (cases "e = None \<and> CACHE_SIZE \<le> length ?v")
    case False
    then have "length ?v \<le> CACHE_SIZE" using b(3) by (cases e) auto
    then have all: "?buf = ?v" by (rule take_all)
    have st: "recover_content rd wr j (t, w, h) =
        (Inr e, (t1, w1, if e = None then h @ ?v else h))"
      using b(1) a(1) False unfolding all by (subst recover_content.simps) (auto split: option.splits)
    have cost: "22 + length ?v \<le> content_cost (length ?v)" "length (enc_block (BContent j ?v)) = 22 + length ?v"
      by (simp_all add: content_cost_def enc_block_def)
    have lm: "min CACHE_SIZE (length ?v) = length ?v"
      by (rule min_absorb2) (use False b(3) in \<open>cases e; auto\<close>)
    let ?cs = "if ?v = [] then [] else [?v]"
    show ?thesis
    proof (rule exI [of _ e], rule exI [of _ t1], rule exI [of _ w1], rule exI [of _ "if e = None then h @ ?v else h"],
        rule exI [of _ ?cs], intro conjI)
      show "recover_content rd wr j (t, w, h) = (Inr e, (t1, w1, if e = None then h @ ?v else h))" by (rule st)
      show "concat ?cs = ?v" "[] \<notin> set ?cs" by simp_all
      show "length (enc_blocks (map (BContent j) ?cs)) \<le> content_cost (length ?v)"
        using cost by simp
      have "os @ ?blks = os @ map (BContent j) ?cs" unfolding all by simp
      then show "writer_inv out winv sha256 base (os @ map (BContent j) ?cs) w1" using a(2) by simp
      show "writer_room room w \<le> writer_room room w1 + content_cost (length ?v)"
        using a(3) cost(1) unfolding all by linarith
      show "e = None \<longrightarrow> (if e = None then h @ ?v else h) = h @ ?v \<and> inv (tk_inner t1) \<and>
          view (tk_inner t1) = view (tk_inner t) \<and> pos (tk_inner t1) = pos (tk_inner t) + length ?v"
        using b(2) unfolding lm by simp
      show "e \<noteq> None \<longrightarrow> length (rest (tk_inner t)) < tk_limit t" using b(3) by simp
    qed
  next
    case True
    then have t1: "inv (tk_inner t1)" "view (tk_inner t1) = view (tk_inner t)"
      "pos (tk_inner t1) = pos (tk_inner t) + CACHE_SIZE" "tk_limit t1 = tk_limit t - CACHE_SIZE"
      using b(2) by auto
    have bl: "length ?buf = CACHE_SIZE" using True by simp
    have r1: "rest (tk_inner t1) = drop CACHE_SIZE (rest (tk_inner t))"
      using t1 by (simp add: rest_def add.commute)
    have v1: "take (tk_limit t1) (rest (tk_inner t1)) = drop CACHE_SIZE ?v"
      by (simp add: r1 t1(4) drop_take)
    have split: "?buf @ drop CACHE_SIZE ?v = ?v" by (rule append_take_drop_id)
    have c0: "0 < CACHE_SIZE" by (simp add: CACHE_SIZE_def)
    have ne: "?buf \<noteq> []" using bl c0 by force
    have lv: "length ?v = CACHE_SIZE + length (drop CACHE_SIZE ?v)" using True by simp
    have cost: "content_cost (length ?v) = 22 + length ?buf + content_cost (length (drop CACHE_SIZE ?v))"
      unfolding bl lv by (rule content_cost_add)
    have "\<exists>r t' w' h' cs. recover_content rd wr j (t1, w1, h @ ?buf) = (Inr r, (t', w', h')) \<and>
      concat cs = drop CACHE_SIZE ?v \<and> [] \<notin> set cs \<and>
      length (enc_blocks (map (BContent j) cs)) \<le> content_cost (length (drop CACHE_SIZE ?v)) \<and>
      writer_inv out winv sha256 base ((os @ ?blks) @ map (BContent j) cs) w' \<and>
      writer_room room w1 \<le> writer_room room w' + content_cost (length (drop CACHE_SIZE ?v)) \<and>
      (r = None \<longrightarrow> h' = (h @ ?buf) @ drop CACHE_SIZE ?v \<and> inv (tk_inner t') \<and>
         view (tk_inner t') = view (tk_inner t1) \<and>
         pos (tk_inner t') = pos (tk_inner t1) + length (drop CACHE_SIZE ?v)) \<and>
      (r \<noteq> None \<longrightarrow> length (rest (tk_inner t1)) < tk_limit t1)"
      unfolding v1 [symmetric]
    proof (rule less.hyps)
      show "length (take (tk_limit t1) (rest (tk_inner t1))) < length ?v"
        unfolding v1 using lv c0 by linarith
      show "j \<in> open_ids (os @ ?blks)" using less.prems(3) by (simp add: open_ids_def)
      show "content_cost (length (take (tk_limit t1) (rest (tk_inner t1)))) \<le> writer_room room w1"
        unfolding v1 using less.prems(4) a(3) cost by linarith
    qed (rule t1(1), rule a(2))
    then obtain r t' w' h' cs where h: "recover_content rd wr j (t1, w1, h @ ?buf) = (Inr r, (t', w', h'))"
      "concat cs = drop CACHE_SIZE ?v" "[] \<notin> set cs"
      "length (enc_blocks (map (BContent j) cs)) \<le> content_cost (length (drop CACHE_SIZE ?v))"
      "writer_inv out winv sha256 base ((os @ ?blks) @ map (BContent j) cs) w'"
      "writer_room room w1 \<le> writer_room room w' + content_cost (length (drop CACHE_SIZE ?v))"
      "r = None \<longrightarrow> h' = (h @ ?buf) @ drop CACHE_SIZE ?v \<and> inv (tk_inner t') \<and>
         view (tk_inner t') = view (tk_inner t1) \<and>
         pos (tk_inner t') = pos (tk_inner t1) + length (drop CACHE_SIZE ?v)"
      "r \<noteq> None \<longrightarrow> length (rest (tk_inner t1)) < tk_limit t1" by blast
    have st: "recover_content rd wr j (t, w, h) = (Inr r, (t', w', h'))"
      using b(1) a(1) True bl h(1) by (subst recover_content.simps) simp
    show ?thesis
    proof (rule exI [of _ r], rule exI [of _ t'], rule exI [of _ w'], rule exI [of _ h'],
        rule exI [of _ "?buf # cs"], intro conjI)
      show "recover_content rd wr j (t, w, h) = (Inr r, (t', w', h'))" by (rule st)
      show "concat (?buf # cs) = ?v" by (simp only: concat.simps h(2) split)
      show "[] \<notin> set (?buf # cs)" using h(3) ne by auto
      have "length (enc_block (BContent j ?buf)) = 22 + length ?buf" by (simp add: enc_block_def)
      then show "length (enc_blocks (map (BContent j) (?buf # cs))) \<le> content_cost (length ?v)"
        unfolding cost list.map enc_blocks_simps length_append using h(4) by linarith
      show "writer_inv out winv sha256 base (os @ map (BContent j) (?buf # cs)) w'"
        using h(5) by (simp only: ne if_False list.map append_assoc append_Cons append_Nil)
      show "writer_room room w \<le> writer_room room w' + content_cost (length ?v)"
        using a(3) h(6) cost by linarith
      show "r = None \<longrightarrow> h' = h @ ?v \<and> inv (tk_inner t') \<and> view (tk_inner t') = view (tk_inner t) \<and>
         pos (tk_inner t') = pos (tk_inner t) + length ?v"
        using h(7) t1(2,3) lv split by (metis add.assoc append.assoc)
      show "r \<noteq> None \<longrightarrow> length (rest (tk_inner t)) < tk_limit t"
        using h(8) unfolding r1 t1(4) by auto
    qed
  qed
qed

end

end
