(* ===== verification/Recovered.thy ===== *)
theory Recovered
  imports Recover
begin

text \<open>
  What \<^verbatim>\<open>convert_to_archive\<close> recovers. \<open>received n bs\<close> is what the first \<open>n\<close> bytes of the blocks \<open>bs\<close>
  still hold: every block that is there in full, and the start of the content that the truncation
  cuts. The invariant of the loop relates the blocks read to the blocks of the new archive, whose
  identifiers differ and whose contents are cut otherwise; the property says that the new archive is
  a complete one with exactly the received entries and contents.
\<close>

section \<open>What is received\<close>

fun received_part :: "nat \<Rightarrow> block \<Rightarrow> block list" where
  "received_part n (BContent i d) =
     (if length (enc_head (BContent i d)) < n then [BContent i (take (n - length (enc_head (BContent i d))) d)] else [])"
| "received_part n b = []"

fun received :: "nat \<Rightarrow> block list \<Rightarrow> block list" where
  "received n [] = []"
| "received n (b # bs) =
     (if length (enc_block b) \<le> n then b # received (n - length (enc_block b)) bs else received_part n b)"

lemma received_all: "length (enc_blocks bs) \<le> n \<Longrightarrow> received n bs = bs"
  by (induction bs arbitrary: n) auto

section \<open>The invariant\<close>

definition recovered :: "block list \<Rightarrow> block list \<Rightarrow> ('r, 'w) recovery \<Rightarrow> bool" where
  "recovered xs os s \<longleftrightarrow>
     map fst (starts os) = map fst (starts xs) \<and>
     rv_id2id_output s = zip (map snd (starts xs)) (map snd (starts os)) \<and>
     rv_id2entryname s = map (\<lambda>(name, i). (i, name)) (starts xs) \<and>
     rv_done s = ends xs \<and>
     (\<forall>i k. (i, k) \<in> set (rv_id2id_output s) \<longrightarrow>
        contents k os = contents i xs \<and> (k \<in> set (ends os) \<longleftrightarrow> i \<in> set (ends xs)))"

definition hash_kept :: "block list \<Rightarrow> ('r, 'w) recovery \<Rightarrow> bool" where
  "hash_kept xs s \<longleftrightarrow> (\<forall>i. map_of (rv_id2hash s) i = (if i \<in> open_ids xs then Some (contents i xs) else None))"

lemma recovered_lengths:
  assumes "recovered xs os s"
  shows "length (starts os) = length (starts xs)"
  using assms unfolding recovered_def by (metis length_map)

lemma recovered_keys:
  assumes "recovered xs os s"
  shows "map fst (rv_id2id_output s) = map snd (starts xs)" "map snd (rv_id2id_output s) = map snd (starts os)"
  using assms recovered_lengths [OF assms] by (simp_all add: recovered_def)

lemma recovered_None:
  assumes "recovered xs os s"
  shows "map_of (rv_id2id_output s) i = None \<longleftrightarrow> i \<notin> set (map snd (starts xs))"
  using recovered_keys(1) [OF assms] by (metis map_of_eq_None_iff set_map)

lemma recovered_open:
  assumes "recovered xs os s" and "i \<in> open_ids xs"
  obtains k where "map_of (rv_id2id_output s) i = Some k" "(i, k) \<in> set (rv_id2id_output s)" "k \<in> open_ids os"
    "i \<notin> set (rv_done s)"
proof -
  have i: "i \<in> set (map snd (starts xs))" "i \<notin> set (ends xs)" using assms(2) by (auto simp: open_ids_def)
  then obtain k where k: "map_of (rv_id2id_output s) i = Some k"
    using recovered_None [OF assms(1), of i] by auto
  then have p: "(i, k) \<in> set (rv_id2id_output s)" by (rule map_of_SomeD)
  then have "k \<in> set (map snd (rv_id2id_output s))" by force
  then have "k \<in> set (map snd (starts os))" by (simp only: recovered_keys(2) [OF assms(1)])
  moreover have "k \<notin> set (ends os)" using assms(1) p i(2) by (auto simp: recovered_def)
  ultimately have "k \<in> open_ids os" by (simp add: open_ids_def)
  with that k p i(2) assms(1) show thesis by (simp add: recovered_def)
qed

lemma recovered_name:
  assumes "recovered xs os s" and "(name, i) \<in> set (starts xs)" and "distinct (map snd (starts xs))"
  shows "map_of (rv_id2entryname s) i = Some name"
proof -
  have "map fst (map (\<lambda>(name, i). (i, name)) (starts xs)) = map snd (starts xs)" by auto
  then have "distinct (map fst (map (\<lambda>(name, i). (i, name)) (starts xs)))" using assms(3) by (simp only:)
  moreover have "(i, name) \<in> set (map (\<lambda>(name, i). (i, name)) (starts xs))" using assms(2) by force
  ultimately show ?thesis using assms(1) by (simp add: recovered_def del: distinct_map)
qed

lemma recovered_pair_iff:
  assumes "recovered xs os s" and "distinct (map snd (starts os))" and "distinct (map snd (starts xs))"
    and "(i, k) \<in> set (rv_id2id_output s)" and "(i', k') \<in> set (rv_id2id_output s)"
  shows "k' = k \<longleftrightarrow> i' = i"
proof -
  have "distinct (map snd (rv_id2id_output s))" "distinct (map fst (rv_id2id_output s))"
    using assms(2,3) by (simp_all only: recovered_keys [OF assms(1)])
  then have "inj_on snd (set (rv_id2id_output s))" "inj_on fst (set (rv_id2id_output s))"
    by (simp_all add: distinct_map)
  from inj_onD [OF this(1) _ assms(4,5)] inj_onD [OF this(2) _ assms(4,5)] show ?thesis by auto
qed

lemma open_ids_snoc:
  "open_ids (xs @ [BContent i d]) = open_ids xs" "open_ids (xs @ [BEnd i h]) = open_ids xs - {i}"
  by (auto simp: open_ids_def)

lemma open_ids_start:
  assumes "stream sha256 (xs @ [BStart name i])"
  shows "open_ids (xs @ [BStart name i]) = insert i (open_ids xs)" and "contents i xs = []"
    and "i \<notin> set (map snd (starts xs))" and "name \<notin> set (map fst (starts xs))" and "i \<notin> set (ends xs)"
proof -
  have s: "stream sha256 xs" "may_follow sha256 xs (BStart name i)"
    by (rule stream_snocE [OF assms], assumption)+
  then show n: "i \<notin> set (map snd (starts xs))" "name \<notin> set (map fst (starts xs))" by auto
  then show e: "i \<notin> set (ends xs)" using stream_distinct [OF s(1)] by auto
  show "open_ids (xs @ [BStart name i]) = insert i (open_ids xs)" using e by (auto simp: open_ids_def)
  show "contents i xs = []" by (rule contents_not_started [OF s(1) n(1)])
qed

context recoverer
begin

definition rinv :: "(bytes \<Rightarrow> bytes) \<Rightarrow> bytes \<Rightarrow> block list \<Rightarrow> block list \<Rightarrow> ('r, 'w) recovery \<Rightarrow> bool" where
  "rinv sha256 base xs os s \<longleftrightarrow>
     stream sha256 xs \<and> writer_inv out winv sha256 base os (rv_output s) \<and> recovered xs os s"

lemma rinvD:
  assumes "rinv sha256 base xs os s"
  shows "stream sha256 xs" "writer_inv out winv sha256 base os (rv_output s)" "recovered xs os s"
    "stream sha256 os" "distinct (map snd (starts os))" "distinct (map snd (starts xs))"
    "aw_next_id (rv_output s) = length (starts xs)"
proof -
  show I: "stream sha256 xs" "writer_inv out winv sha256 base os (rv_output s)" "recovered xs os s"
    using assms by (auto simp: rinv_def)
  show st: "stream sha256 os" using I(2) by (simp add: writer_inv_def)
  show "distinct (map snd (starts os))" "distinct (map snd (starts xs))"
    using stream_distinct [OF st] stream_distinct [OF I(1)] by auto
  show "aw_next_id (rv_output s) = length (starts xs)"
    using writer_inv_fresh(2) [OF I(2)] recovered_lengths [OF I(3)] by simp
qed

lemma recover_start_ok:
  assumes R: "rinv sha256 base xs os s" and h: "hash_kept xs s" and st: "stream sha256 (xs @ [BStart name i])"
    and wf: "wf_name name" and n: "length (starts xs) + 1 < 2 ^ 64"
    and room: "length (enc_block (BStart name i)) \<le> writer_room room (rv_output s)"
  shows "\<exists>s' k. recover_start wr name i s = (Inr None, s') \<and> rinv sha256 base (xs @ [BStart name i]) (os @ [BStart name k]) s' \<and>
    hash_kept (xs @ [BStart name i]) s' \<and> rv_src s' = rv_src s \<and>
    writer_room room (rv_output s) \<le> writer_room room (rv_output s') + length (enc_block (BStart name i))"
proof -
  note R' = rinvD [OF R]
  note new = open_ids_start [OF st]
  let ?k = "aw_next_id (rv_output s)"
  have l: "length (enc_block (BStart name ?k)) = length (enc_block (BStart name i))" by (simp add: enc_block_def)
  have nm: "name \<notin> set (map fst (starts os))"
    using new(4) R'(3) by (simp add: recovered_def del: set_map)
  from start_entry_room [OF room_ax R'(2) wf nm] n R'(7) room l obtain w where
    w: "start_entry wr name (rv_output s) = (Inr ?k, w)"
    "writer_room room (rv_output s) \<le> writer_room room w + length (enc_block (BStart name i))" by auto
  from start_entry_inv [OF sink_ax R'(2) wf w(1)]
  have I: "writer_inv out winv sha256 base (os @ [BStart name ?k]) w" by (rule conjunct2)
  then have sto: "stream sha256 (os @ [BStart name ?k])" by (simp add: writer_inv_def)
  note newo = open_ids_start [OF sto]
  let ?s' = "s\<lparr>rv_id2entryname := AList.update i name (rv_id2entryname s), rv_output := w,
    rv_id2id_output := AList.update i ?k (rv_id2id_output s), rv_id2hash := AList.update i [] (rv_id2hash s)\<rparr>"
  have none: "map_of (rv_id2id_output s) i = None" using recovered_None [OF R'(3)] new(3) by blast
  have d: "i \<notin> set (rv_done s)" using R'(3) new(5) by (simp add: recovered_def)
  have eq: "recover_start wr name i s = (Inr None, ?s')"
    using none d w(1) by (simp add: recover_start_def Let_def)
  have k1: "i \<notin> set (map fst (rv_id2id_output s))"
    unfolding recovered_keys(1) [OF R'(3)] by (rule new(3))
  have k2: "i \<notin> set (map fst (rv_id2entryname s))"
    using R'(3) new(3) by (force simp: recovered_def)
  have "rv_id2id_output ?s' = rv_id2id_output s @ [(i, ?k)]" by (simp add: update_notin [OF k1])
  then have f1: "rv_id2id_output ?s' = zip (map snd (starts (xs @ [BStart name i]))) (map snd (starts (os @ [BStart name ?k])))"
    using R'(3) recovered_lengths [OF R'(3)] by (simp add: recovered_def)
  have "rv_id2entryname ?s' = rv_id2entryname s @ [(i, name)]" by (simp add: update_notin [OF k2])
  then have f2: "rv_id2entryname ?s' = map (\<lambda>(name, i). (i, name)) (starts (xs @ [BStart name i]))"
    using R'(3) by (simp add: recovered_def)
  have rec: "recovered (xs @ [BStart name i]) (os @ [BStart name ?k]) ?s'"
    unfolding recovered_def
  proof (intro conjI allI impI)
    fix j k assume "(j, k) \<in> set (rv_id2id_output ?s')"
    then consider "(j, k) \<in> set (rv_id2id_output s)" | "j = i" "k = ?k"
      by (auto simp: update_notin [OF k1])
    then have "contents k (os @ [BStart name ?k]) = contents j (xs @ [BStart name i]) \<and>
      (k \<in> set (ends (os @ [BStart name ?k])) \<longleftrightarrow> j \<in> set (ends (xs @ [BStart name i])))"
    proof cases
      case 1
      then show ?thesis using R'(3) by (simp add: recovered_def)
    next
      case 2
      then show ?thesis using new(2,5) newo(2,5) by simp
    qed
    then show "contents k (os @ [BStart name ?k]) = contents j (xs @ [BStart name i])"
      "k \<in> set (ends (os @ [BStart name ?k])) \<longleftrightarrow> j \<in> set (ends (xs @ [BStart name i]))" by auto
  qed (use R'(3) in \<open>simp add: recovered_def\<close>, rule f1, rule f2, use R'(3) in \<open>simp add: recovered_def\<close>)
  have hk: "hash_kept (xs @ [BStart name i]) ?s'"
    using h new(1,2) by (auto simp: hash_kept_def update_conv')
  show ?thesis
    by (rule exI [of _ ?s'], rule exI [of _ ?k]) (use eq st I rec hk w(2) in \<open>simp add: rinv_def\<close>)
qed

lemma recover_end_ok:
  assumes R: "rinv sha256 base xs os s" and h: "hash_kept xs s"
    and st: "stream sha256 (xs @ [BEnd i hash])" and h32: "\<And>x. length (sha256 x) = 32"
    and room: "46 \<le> writer_room room (rv_output s)"
  shows "\<exists>s' b. recover_end sha256 wr i hash s = (Inr None, s') \<and> rinv sha256 base (xs @ [BEnd i hash]) (os @ [b]) s' \<and> length (enc_block b) = 46 \<and>
    hash_kept (xs @ [BEnd i hash]) s' \<and> rv_src s' = rv_src s \<and>
    writer_room room (rv_output s) \<le> writer_room room (rv_output s') + 46"
proof -
  note R' = rinvD [OF R]
  from st have i: "i \<in> open_ids xs" "hash = sha256 (contents i xs)" by (auto elim: stream_snocE)
  from recovered_open [OF R'(3) i(1)] obtain k where
    k: "map_of (rv_id2id_output s) i = Some k" "(i, k) \<in> set (rv_id2id_output s)" "k \<in> open_ids os"
    "i \<notin> set (rv_done s)" .
  have c: "contents k os = contents i xs" using R'(3) k(2) by (simp add: recovered_def)
  have l: "length (enc_block (BEnd k (sha256 (contents k os)))) = 46" using h32 by (simp add: enc_block_def)
  from end_entry_room [where ?sha256.0 = sha256, OF room_ax R'(2) k(3)] room obtain w where
    w: "end_entry sha256 wr k (rv_output s) = (Inr (), w)"
    "writer_room room (rv_output s) \<le> writer_room room w + 46" unfolding l by blast
  note I = end_entry_inv [OF sink_ax R'(2) h32 w(1)]
  have hm: "map_of (rv_id2hash s) i = Some (contents i xs)" using h i(1) by (simp add: hash_kept_def)
  let ?s' = "s\<lparr>rv_id2hash := AList.delete i (rv_id2hash s), rv_output := w, rv_done := rv_done s @ [i]\<rparr>"
  have eq: "recover_end sha256 wr i hash s = (Inr None, ?s')"
    using k(1,4) hm i(2) w(1) by (simp add: recover_end_def Let_def)
  note u = recovered_pair_iff [OF R'(3,5,6) k(2)]
  have rec: "recovered (xs @ [BEnd i hash]) (os @ [BEnd k (sha256 (contents k os))]) ?s'"
    using R'(3) u by (auto simp: recovered_def)
  have hk: "hash_kept (xs @ [BEnd i hash]) ?s'"
    using h by (auto simp: hash_kept_def delete_conv' open_ids_snoc)
  show ?thesis
    by (rule exI [of _ ?s'], rule exI [of _ "BEnd k (sha256 (contents k os))"])
      (use eq st I rec hk w(2) l in \<open>simp add: rinv_def\<close>)
qed

lemma open_ids_contents: "open_ids (xs @ map (BContent i) ds) = open_ids xs"
  by (induction ds) (auto simp: open_ids_def)

lemma contents_map: "contents j (map (BContent i) ds) = (if j = i then concat ds else [])"
  by (induction ds) auto

lemma starts_map [simp]: "starts (map (BContent i) ds) = []" "ends (map (BContent i) ds) = []"
  by (induction ds) auto

lemma recover_entry_content_ok:
  assumes R: "rinv sha256 base xs os s" and h: "hash_kept xs s" and i: "i \<in> open_ids xs" and src: "inv (rv_src s)"
    and v: "v = take len (rest (rv_src s))" and room: "content_cost (length v) \<le> writer_room room (rv_output s)"
  shows "\<exists>r s' k cs. recover_entry_content rd wr len i s = (Inr r, s') \<and>
    rinv sha256 base (xs @ (if v = [] then [] else [BContent i v])) (os @ map (BContent k) cs) s' \<and>
    length (enc_blocks (map (BContent k) cs)) \<le> content_cost (length v) \<and>
    writer_room room (rv_output s) \<le> writer_room room (rv_output s') + content_cost (length v) \<and>
    (r = None \<longrightarrow> hash_kept (xs @ (if v = [] then [] else [BContent i v])) s' \<and> inv (rv_src s') \<and>
       view (rv_src s') = view (rv_src s) \<and> pos (rv_src s') = pos (rv_src s) + length v) \<and>
    (r \<noteq> None \<longrightarrow> length (rest (rv_src s)) < len \<and> (\<exists>e name. r = Some (ErrorInFile e name)))"
proof -
  note R' = rinvD [OF R]
  from recovered_open [OF R'(3) i(1)] obtain k where
    k: "map_of (rv_id2id_output s) i = Some k" "(i, k) \<in> set (rv_id2id_output s)" "k \<in> open_ids os"
    "i \<notin> set (rv_done s)" .
  from i obtain name where "(name, i) \<in> set (starts xs)" by (auto simp: open_ids_def)
  from recovered_name [OF R'(3) this R'(6)] have nm: "map_of (rv_id2entryname s) i = Some name" .
  have hm: "map_of (rv_id2hash s) i = Some (contents i xs)" using h i(1) by (simp add: hash_kept_def)
  let ?t = "\<lparr>tk_inner = rv_src s, tk_limit = len\<rparr>"
  have v': "take (tk_limit ?t) (rest (tk_inner ?t)) = v" by (simp add: v)
  have src': "inv (tk_inner ?t)" using src by simp
  from recover_content_ok [OF src' R'(2) k(3), unfolded v', OF room, of "contents i xs"] obtain r t' w' h' cs where
    c: "recover_content rd wr k (?t, rv_output s, contents i xs) = (Inr r, (t', w', h'))"
    "concat cs = v" "length (enc_blocks (map (BContent k) cs)) \<le> content_cost (length v)" "writer_inv out winv sha256 base (os @ map (BContent k) cs) w'"
    "writer_room room (rv_output s) \<le> writer_room room w' + content_cost (length v)"
    "r = None \<longrightarrow> h' = contents i xs @ v \<and> inv (tk_inner t') \<and>
       view (tk_inner t') = view (rv_src s) \<and> pos (tk_inner t') = pos (rv_src s) + length v"
    "r \<noteq> None \<longrightarrow> length (rest (rv_src s)) < len" by auto
  let ?bl = "if v = [] then [] else [BContent i v]"
  let ?s' = "s\<lparr>rv_src := tk_inner t', rv_output := w', rv_id2hash := AList.update i h' (rv_id2hash s)\<rparr>"
  let ?r = "map_option (\<lambda>e. ErrorInFile e (raw_content_to_escaped_string name)) r"
  have eq: "recover_entry_content rd wr len i s = (Inr ?r, ?s')"
    using k(1,4) nm hm c(1) by (cases r) (simp_all add: recover_entry_content_def)
  note u = recovered_pair_iff [OF R'(3,5,6) k(2)]
  have cx: "contents j (xs @ ?bl) = contents j xs @ (if j = i then v else [])" for j by simp
  have sx: "starts (xs @ ?bl) = starts xs" "ends (xs @ ?bl) = ends xs" "open_ids (xs @ ?bl) = open_ids xs"
    by (simp_all add: open_ids_def)
  have rec: "recovered (xs @ ?bl) (os @ map (BContent k) cs) ?s'"
    using R'(3) u c(2) unfolding recovered_def cx sx by (auto simp: contents_map)
  have hk: "hash_kept (xs @ ?bl) ?s'" if "r = None"
    using h c(6) that i unfolding hash_kept_def cx sx by (auto simp: update_conv')
  have st: "stream sha256 (xs @ ?bl)" using R'(1) i by (auto intro: stream.intros)
  show ?thesis
  proof (rule exI [of _ ?r], rule exI [of _ ?s'], rule exI [of _ k], rule exI [of _ cs], intro conjI)
    show "recover_entry_content rd wr len i s = (Inr ?r, ?s')" by (rule eq)
    show "rinv sha256 base (xs @ ?bl) (os @ map (BContent k) cs) ?s'" using st rec c(4) by (simp add: rinv_def)
    show "length (enc_blocks (map (BContent k) cs)) \<le> content_cost (length v)" by (rule c(3))
    show "writer_room room (rv_output s) \<le> writer_room room (rv_output ?s') + content_cost (length v)"
      using c(5) by simp
    show "?r = None \<longrightarrow> hash_kept (xs @ ?bl) ?s' \<and> inv (rv_src ?s') \<and>
       view (rv_src ?s') = view (rv_src s) \<and> pos (rv_src ?s') = pos (rv_src s) + length v"
      using hk c(6) by simp
    show "?r \<noteq> None \<longrightarrow> length (rest (rv_src s)) < len \<and> (\<exists>e name. ?r = Some (ErrorInFile e name))"
      using c(7) by auto
  qed
qed

end

section \<open>The loop\<close>

fun block_cost :: "block \<Rightarrow> nat" where
  "block_cost (BContent i d) = content_cost (length d)"
| "block_cost b = length (enc_block b)"

abbreviation blocks_cost :: "block list \<Rightarrow> nat" where
  "blocks_cost bs \<equiv> sum_list (map block_cost bs)"

lemma content_cost_mono: "m \<le> n \<Longrightarrow> content_cost m \<le> content_cost n"
  by (simp add: content_cost_def add_mono div_le_mono)

lemma block_error_not_unfinished: "block_error e \<noteq> UnfinishedEntries names e'"
  by (cases e) (auto simp: block_error_def)

context recoverer
begin

lemma head_fits:
  assumes "inv src" and "rest src = take n (enc_block b @ r)" and "wf_block b" and "length (enc_head b) \<le> n"
  shows "\<exists>src'. block_from rd src = (Inr (parsed_block b), src') \<and> inv src' \<and>
    rest src' = take (n - length (enc_head b)) (block_payload b @ r)"
proof -
  have e: "rest src = enc_head b @ take (n - length (enc_head b)) (block_payload b @ r)"
    using assms(2,4) by (simp add: enc_block_def)
  from parsesD [OF parses_block [OF assms(3)] assms(1) this] obtain src' where
    "block_from rd src = (Inr (parsed_block b), src')" "inv src'" "rest src' = drop (length (enc_head b)) (rest src)"
    by (rule yieldsE)
  then show ?thesis unfolding e by simp
qed

lemma head_cut:
  assumes "inv src" and "rest src = take n (enc_block b @ r)" and "wf_block b" and "n < length (enc_head b)"
  shows "\<exists>e src'. block_from rd src = (Inl e, src')"
proof -
  have "enc_head b = rest src @ drop n (enc_head b)" using assms(2,4) by (simp add: enc_block_def)
  moreover have "drop n (enc_head b) \<noteq> []" using assms(4) by simp
  ultimately show ?thesis using stopsE [OF stops_block [OF assms(3)] assms(1)] by metis
qed

lemma read_blocks_error:
  assumes "block_from rd (rv_src s) = (Inl e, src)"
  shows "read_blocks sha256 rd wr s = Some (Inr (block_error e), s\<lparr>rv_src := src\<rparr>)"
  using assms by (subst read_blocks.simps) (simp add: update_error_def)

lemma read_blocks_step:
  assumes "block_from rd (rv_src s) = (Inr b, src)" and "recover_block sha256 rd wr b (s\<lparr>rv_src := src\<rparr>) = (Inr r, s')"
  shows "read_blocks sha256 rd wr s = (case r of None \<Rightarrow> read_blocks sha256 rd wr s' | Some e \<Rightarrow> Some (Inr e, s'))"
  using assms by (subst read_blocks.simps) (simp add: update_error_def split: option.splits)

lemma rinv_src:
  "rinv sha256 base xs os (s\<lparr>rv_src := src\<rparr>) = rinv sha256 base xs os s"
  "hash_kept xs (s\<lparr>rv_src := src\<rparr>) = hash_kept xs s"
  by (simp_all add: rinv_def recovered_def hash_kept_def)

text \<open>What the loop leaves when the blocks \<open>ys\<close> are read from a source cut after \<open>n\<close> bytes.\<close>

definition loop_ok ::
  "(bytes \<Rightarrow> bytes) \<Rightarrow> bytes \<Rightarrow> block list \<Rightarrow> block list \<Rightarrow> block list \<Rightarrow> nat \<Rightarrow> ('r, 'w) recovery \<Rightarrow> bool" where
  "loop_ok sha256 base xs os ys n s \<longleftrightarrow>
     (\<exists>err s' os'. read_blocks sha256 rd wr s = Some (Inr err, s') \<and> rinv sha256 base (xs @ received n ys) os' s' \<and>
       length (enc_blocks os') \<le> length (enc_blocks os) + blocks_cost ys \<and>
       writer_room room (rv_output s) \<le> writer_room room (rv_output s') + blocks_cost ys \<and>
       (length (enc_blocks ys) + 5 \<le> n \<longrightarrow> err = EndOfOriginalArchiveData) \<and>
       (\<forall>names e. err \<noteq> UnfinishedEntries names e))"

lemma loop_stops:
  assumes "read_blocks sha256 rd wr s = Some (Inr err, s')" and "rinv sha256 base (xs @ received n ys) os' s'"
    and "length (enc_blocks os') \<le> length (enc_blocks os) + blocks_cost ys"
    and "writer_room room (rv_output s) \<le> writer_room room (rv_output s') + blocks_cost ys"
    and "length (enc_blocks ys) + 5 \<le> n \<Longrightarrow> err = EndOfOriginalArchiveData"
    and "\<And>names e. err \<noteq> UnfinishedEntries names e"
  shows "loop_ok sha256 base xs os ys n s"
  unfolding loop_ok_def
  by (rule exI [of _ err], rule exI [of _ s'], rule exI [of _ os']) (use assms in auto)

lemma loop_cut:
  assumes "block_from rd (rv_src s) = (Inl e, src)" and "rinv sha256 base xs os s" and "received n ys = []"
    and "n < length (enc_blocks ys) + 5"
  shows "loop_ok sha256 base xs os ys n s"
  by (rule loop_stops [OF read_blocks_error [OF assms(1)]])
    (use assms(2-4) in \<open>auto simp: rinv_src block_error_not_unfinished\<close>)

lemma loop_step:
  assumes "read_blocks sha256 rd wr s = read_blocks sha256 rd wr s1"
    and "loop_ok sha256 base (xs @ [b]) (os @ bl) ys (n - length (enc_block b)) s1"
    and "length (enc_block b) \<le> n" and "length (enc_blocks bl) \<le> block_cost b"
    and "writer_room room (rv_output s) \<le> writer_room room (rv_output s1) + block_cost b"
  shows "loop_ok sha256 base xs os (b # ys) n s"
proof -
  from assms(2) obtain err s' os' where h: "read_blocks sha256 rd wr s1 = Some (Inr err, s')"
    "rinv sha256 base ((xs @ [b]) @ received (n - length (enc_block b)) ys) os' s'"
    "length (enc_blocks os') \<le> length (enc_blocks (os @ bl)) + blocks_cost ys"
    "writer_room room (rv_output s1) \<le> writer_room room (rv_output s') + blocks_cost ys"
    "length (enc_blocks ys) + 5 \<le> n - length (enc_block b) \<longrightarrow> err = EndOfOriginalArchiveData"
    "\<forall>names e. err \<noteq> UnfinishedEntries names e" unfolding loop_ok_def by blast
  show ?thesis
  proof (rule loop_stops)
    show "read_blocks sha256 rd wr s = Some (Inr err, s')" using assms(1) h(1) by simp
    show "rinv sha256 base (xs @ received n (b # ys)) os' s'" using h(2) assms(3) by simp
    show "length (enc_blocks os') \<le> length (enc_blocks os) + blocks_cost (b # ys)" using h(3) assms(4) by simp
    show "writer_room room (rv_output s) \<le> writer_room room (rv_output s') + blocks_cost (b # ys)"
      using h(4) assms(5) by simp
    show "length (enc_blocks (b # ys)) + 5 \<le> n \<Longrightarrow> err = EndOfOriginalArchiveData" using h(5) by simp
    show "\<And>names e. err \<noteq> UnfinishedEntries names e" using h(6) by blast
  qed
qed

lemma loop_content:
  assumes R: "rinv sha256 base xs os s" and h: "hash_kept xs s" and src: "inv (rv_src s)"
    and v: "rest (rv_src s) = take n (enc_block (BContent i d) @ r)" and wf: "wf_block (BContent i d)"
    and fit: "22 \<le> n" and st: "i \<in> open_ids xs" "d \<noteq> []"
    and room: "content_cost (length d) \<le> writer_room room (rv_output s)"
    and IH: "\<And>s1 os1. 22 + length d \<le> n \<Longrightarrow> rinv sha256 base (xs @ [BContent i d]) os1 s1 \<Longrightarrow>
      hash_kept (xs @ [BContent i d]) s1 \<Longrightarrow> inv (rv_src s1) \<Longrightarrow> rest (rv_src s1) = take (n - (22 + length d)) r \<Longrightarrow>
      writer_room room (rv_output s) \<le> writer_room room (rv_output s1) + content_cost (length d) \<Longrightarrow>
      loop_ok sha256 base (xs @ [BContent i d]) os1 ys (n - (22 + length d)) s1"
  shows "loop_ok sha256 base xs os (BContent i d # ys) n s"
proof -
  let ?b = "BContent i d"
  have hl: "length (enc_head ?b) = 22" "length (enc_block ?b) = 22 + length d" by (simp_all add: enc_block_def)
  from head_fits [OF src v wf] fit hl obtain src1 where
    p: "block_from rd (rv_src s) = (Inr (EntryContent (length d) None i), src1)" "inv src1"
    "rest src1 = take (n - 22) (d @ r)" by auto
  let ?s1 = "s\<lparr>rv_src := src1\<rparr>"
  let ?v = "take (n - 22) d"
  have "take (length d) (take (n - 22) (d @ r)) = take (n - 22) (take (length d) (d @ r))"
    by (simp only: take_take min.commute)
  then have v1: "?v = take (length d) (rest (rv_src ?s1))" by (simp add: p(3) del: take_append take_take) simp
  have "length ?v \<le> length d" by simp
  then have cv: "content_cost (length ?v) \<le> content_cost (length d)" by (rule content_cost_mono)
  have room1: "content_cost (length ?v) \<le> writer_room room (rv_output ?s1)" using cv room by simp
  from R h have R1: "rinv sha256 base xs os ?s1" "hash_kept xs ?s1" by (simp_all add: rinv_src)
  have src1: "inv (rv_src ?s1)" using p(2) by simp
  from recover_entry_content_ok [OF R1 st(1) src1 v1 room1] obtain rr s' k cs where
    c: "recover_entry_content rd wr (length d) i ?s1 = (Inr rr, s')"
    "rinv sha256 base (xs @ (if ?v = [] then [] else [BContent i ?v])) (os @ map (BContent k) cs) s'"
    "length (enc_blocks (map (BContent k) cs)) \<le> content_cost (length ?v)"
    "writer_room room (rv_output s) \<le> writer_room room (rv_output s') + content_cost (length ?v)"
    "rr = None \<longrightarrow> hash_kept (xs @ (if ?v = [] then [] else [BContent i ?v])) s' \<and> inv (rv_src s') \<and>
       view (rv_src s') = view src1 \<and> pos (rv_src s') = pos src1 + length ?v"
    "rr \<noteq> None \<longrightarrow> length (rest src1) < length d \<and> (\<exists>e name. rr = Some (ErrorInFile e name))" by auto
  have step: "read_blocks sha256 rd wr s = (case rr of None \<Rightarrow> read_blocks sha256 rd wr s' | Some e \<Rightarrow> Some (Inr e, s'))"
    by (rule read_blocks_step [OF p(1)]) (simp add: recover_block_def c(1))
  show ?thesis
  proof (cases "22 + length d \<le> n")
    case True
    then have vd: "?v = d" by simp
    have "length d \<le> length (rest src1)" using True by (simp add: p(3))
    then have rn: "rr = None" using c(6) by auto
    have rest': "rest (rv_src s') = drop (length d) (rest src1)"
      using c(5) rn by (simp add: rest_def vd add.commute)
    show ?thesis
    proof (rule loop_step)
      show "read_blocks sha256 rd wr s = read_blocks sha256 rd wr s'" using step rn by simp
      have "loop_ok sha256 base (xs @ [?b]) (os @ map (BContent k) cs) ys (n - (22 + length d)) s'"
        using c(2,4,5) rn st(2) rest' True unfolding vd by (intro IH) (auto simp: p(3))
      then show "loop_ok sha256 base (xs @ [?b]) (os @ map (BContent k) cs) ys (n - length (enc_block ?b)) s'"
        by (simp add: hl)
      show "length (enc_block ?b) \<le> n" using True by (simp add: hl)
      show "length (enc_blocks (map (BContent k) cs)) \<le> block_cost ?b" using c(3) by (simp add: vd)
      show "writer_room room (rv_output s) \<le> writer_room room (rv_output s') + block_cost ?b" using c(4) by (simp add: vd)
    qed
  next
    case False
    then have rc: "received n (?b # ys) = (if ?v = [] then [] else [BContent i ?v])"
      using st(2) fit by (auto simp: hl)
    have v0: "take (n - 22) (d @ r) = ?v" using False by simp
    have "\<exists>err s2. read_blocks sha256 rd wr s = Some (Inr err, s2) \<and>
      rinv sha256 base (xs @ received n (?b # ys)) (os @ map (BContent k) cs) s2 \<and>
      rv_output s2 = rv_output s' \<and> (\<forall>names e. err \<noteq> UnfinishedEntries names e)"
    proof (cases rr)
      case None
      have "rest (rv_src s') = drop (length ?v) (rest src1)" using c(5) None by (simp add: rest_def add.commute)
      then have nil: "rest (rv_src s') = []" unfolding p(3) v0 by simp
      have "inv (rv_src s')" using c(5) None by simp
      from head_cut [OF this, of 0 BEndOfData] nil obtain e src2 where
        "block_from rd (rv_src s') = (Inl e, src2)" by auto
      from read_blocks_error [OF this] step None c(2) show ?thesis
        unfolding rc by (intro exI) (auto simp: rinv_src block_error_not_unfinished)
    next
      case (Some e)
      then show ?thesis using step c(2,6) unfolding rc by auto
    qed
    then obtain err s2 where e: "read_blocks sha256 rd wr s = Some (Inr err, s2)"
      "rinv sha256 base (xs @ received n (?b # ys)) (os @ map (BContent k) cs) s2" "rv_output s2 = rv_output s'"
      "\<And>names e. err \<noteq> UnfinishedEntries names e" by blast
    show ?thesis
    proof (rule loop_stops [OF e(1,2)])
      show "length (enc_blocks (os @ map (BContent k) cs)) \<le> length (enc_blocks os) + blocks_cost (?b # ys)"
        using c(3) cv by simp
      show "writer_room room (rv_output s) \<le> writer_room room (rv_output s2) + blocks_cost (?b # ys)"
        using c(4) cv e(3) by simp
      show "length (enc_blocks (?b # ys)) + 5 \<le> n \<Longrightarrow> err = EndOfOriginalArchiveData"
        using False by (simp add: hl)
    qed (rule e(4))
  qed
qed

lemma read_blocks_ok:
  assumes "rinv sha256 base xs os s" and "hash_kept xs s" and "inv (rv_src s)"
    and "rest (rv_src s) = take n (enc_blocks ys @ enc_block BEndOfData @ tl_bytes)"
    and "stream sha256 (xs @ ys)" and "\<forall>b\<in>set ys. wf_block b" and "length (starts xs) + length ys < 2 ^ 64"
    and "blocks_cost ys \<le> writer_room room (rv_output s)" and h32: "\<And>x. length (sha256 x) = 32"
  shows "loop_ok sha256 base xs os ys n s"
  using assms(1-8)
proof (induction ys arbitrary: xs os s n)
  case Nil
  have v: "rest (rv_src s) = take n (enc_block BEndOfData @ tl_bytes)"
    using Nil.prems(4) by (simp only: enc_blocks_simps append_Nil)
  show ?case
  proof (cases "5 \<le> n")
    case True
    from head_fits [OF Nil.prems(3) v] True obtain src1 where
      "block_from rd (rv_src s) = (Inr EndOfArchiveData, src1)" by auto
    from read_blocks_step [OF this, where r = "Some EndOfOriginalArchiveData"]
    have "read_blocks sha256 rd wr s = Some (Inr EndOfOriginalArchiveData, s\<lparr>rv_src := src1\<rparr>)"
      by (simp add: recover_block_def ret_def)
    then show ?thesis by (rule loop_stops) (use Nil.prems(1) in \<open>auto simp: rinv_src\<close>)
  next
    case False
    from head_cut [OF Nil.prems(3) v] False obtain e src1 where
      "block_from rd (rv_src s) = (Inl e, src1)" by auto
    then show ?thesis by (rule loop_cut) (use Nil.prems(1) False in auto)
  qed
next
  case (Cons b ys)
  let ?r = "enc_blocks ys @ enc_block BEndOfData @ tl_bytes"
  have v: "rest (rv_src s) = take n (enc_block b @ ?r)" using Cons.prems(4) by simp
  have wf: "wf_block b" "\<forall>b\<in>set ys. wf_block b" using Cons.prems(6) by auto
  have st: "stream sha256 ((xs @ [b]) @ ys)" using Cons.prems(5) by simp
  then have stb: "stream sha256 (xs @ [b])" by (rule stream_prefix)
  have n: "length (starts (xs @ [b])) + length ys < 2 ^ 64" "length (starts xs) + 1 < 2 ^ 64"
    using Cons.prems(7) by (cases b; simp)+
  have room: "block_cost b \<le> writer_room room (rv_output s)" "blocks_cost ys + block_cost b \<le> writer_room room (rv_output s)"
    using Cons.prems(8) by auto
  show ?case
  proof (cases "length (enc_head b) \<le> n")
    case False
    then have "n < length (enc_head b)" by simp
    from head_cut [OF Cons.prems(3) v wf(1) this] obtain e src1 where
      e: "block_from rd (rv_src s) = (Inl e, src1)" by blast
    have le: "length (enc_head b) \<le> length (enc_block b)" by (simp add: enc_block_def)
    then have "received n (b # ys) = []" using False by (cases b) auto
    with e Cons.prems(1) show ?thesis by (rule loop_cut) (use False le in simp)
  next
    case fits: True
    have next_block: "loop_ok sha256 base xs os (b # ys) n s"
      if "recover_block sha256 rd wr (parsed_block b) (s\<lparr>rv_src := src1\<rparr>) = (Inr None, s1)"
        and "block_from rd (rv_src s) = (Inr (parsed_block b), src1)"
        and "rinv sha256 base (xs @ [b]) (os @ [b']) s1" and "hash_kept (xs @ [b]) s1" and "inv (rv_src s1)"
        and "rest (rv_src s1) = take (n - length (enc_block b)) ?r" and "length (enc_block b) \<le> n"
        and "length (enc_block b') \<le> block_cost b"
        and "writer_room room (rv_output s) \<le> writer_room room (rv_output s1) + block_cost b" for src1 s1 b'
    proof (rule loop_step)
      show "read_blocks sha256 rd wr s = read_blocks sha256 rd wr s1"
        using read_blocks_step [OF that(2,1)] by simp
      show "loop_ok sha256 base (xs @ [b]) (os @ [b']) ys (n - length (enc_block b)) s1"
        by (rule Cons.IH [OF that(3-6) st wf(2) n(1)]) (use room(2) that(9) in linarith)
    qed (use that in simp_all)
    from head_fits [OF Cons.prems(3) v wf(1) fits] obtain src1 where
      p: "block_from rd (rv_src s) = (Inr (parsed_block b), src1)" "inv src1"
      "rest src1 = take (n - length (enc_head b)) (block_payload b @ ?r)" by blast
    have R1: "rinv sha256 base xs os (s\<lparr>rv_src := src1\<rparr>)" "hash_kept xs (s\<lparr>rv_src := src1\<rparr>)"
      using Cons.prems(1,2) by (simp_all add: rinv_src)
    show ?thesis
    proof (cases b)
      case (BStart name i)
      have l: "length (enc_block b) = length (enc_head b)" by (simp add: BStart enc_block_def)
      from recover_start_ok [OF R1 stb [unfolded BStart] _ n(2)] wf(1) room(1) obtain s1 k where
        s1: "recover_start wr name i (s\<lparr>rv_src := src1\<rparr>) = (Inr None, s1)"
        "rinv sha256 base (xs @ [b]) (os @ [BStart name k]) s1" "hash_kept (xs @ [b]) s1" "rv_src s1 = src1"
        "writer_room room (rv_output s) \<le> writer_room room (rv_output s1) + block_cost b"
        unfolding BStart by auto
      show ?thesis
        by (rule next_block [OF _ p(1) s1(2,3)])
          (use s1 p l fits in \<open>simp_all add: recover_block_def BStart, simp add: enc_block_def\<close>)
    next
      case (BContent i d)
      from stb have f: "i \<in> open_ids xs" "d \<noteq> []" unfolding BContent by (auto elim: stream_snocE)
      show ?thesis
        unfolding BContent
      proof (rule loop_content [OF Cons.prems(1-3) v [unfolded BContent] wf(1) [unfolded BContent] _ f])
        show "22 \<le> n" using fits by (simp add: BContent)
        show "content_cost (length d) \<le> writer_room room (rv_output s)" using room(1) by (simp add: BContent)
        fix s1 os1
        assume a: "22 + length d \<le> n" "rinv sha256 base (xs @ [BContent i d]) os1 s1" "hash_kept (xs @ [BContent i d]) s1"
          "inv (rv_src s1)" "rest (rv_src s1) = take (n - (22 + length d)) ?r"
          "writer_room room (rv_output s) \<le> writer_room room (rv_output s1) + content_cost (length d)"
        show "loop_ok sha256 base (xs @ [BContent i d]) os1 ys (n - (22 + length d)) s1"
          by (rule Cons.IH [OF a(2-5) st [unfolded BContent] wf(2) n(1) [unfolded BContent]])
            (use room(2) a(6) in \<open>simp add: BContent\<close>)
      qed
    next
      case (BEnd i hash)
      have l: "length (enc_block b) = length (enc_head b)" "block_cost b = 46"
        using wf(1) by (simp_all add: BEnd enc_block_def)
      from recover_end_ok [OF R1 stb [unfolded BEnd] h32] room(1) l(2) obtain s1 b' where
        s1: "recover_end sha256 wr i hash (s\<lparr>rv_src := src1\<rparr>) = (Inr None, s1)"
        "rinv sha256 base (xs @ [b]) (os @ [b']) s1" "length (enc_block b') = 46" "hash_kept (xs @ [b]) s1"
        "rv_src s1 = src1" "writer_room room (rv_output s) \<le> writer_room room (rv_output s1) + block_cost b"
        unfolding BEnd by auto
      show ?thesis
        by (rule next_block [OF _ p(1) s1(2,4)])
          (use s1 p l fits in \<open>simp_all add: recover_block_def BEnd\<close>)
    next
      case BEndOfData
      have "BEndOfData \<notin> set (xs @ [b])" by (rule stream_no_end_of_data [OF stb])
      then show ?thesis by (simp add: BEndOfData)
    qed
  qed
qed

section \<open>Ending what is unfinished\<close>

lemma close_unfinished_ok:
  assumes "writer_inv out winv sha256 base os (rv_output s)" and "distinct (map snd ps)"
    and "\<And>i k. (i, k) \<in> set ps \<Longrightarrow> i \<notin> set (rv_done s) \<Longrightarrow>
       k \<in> open_ids os \<and> map_of (rv_id2entryname s) i = Some (f i)"
    and "46 * length ps \<le> writer_room room (rv_output s)" and h32: "\<And>x. length (sha256 x) = 32"
  shows "\<exists>s' es. close_unfinished sha256 wr ps s =
      (Inr (map (\<lambda>(i, k). f i) (filter (\<lambda>(i, k). i \<notin> set (rv_done s)) ps)), s') \<and>
    writer_inv out winv sha256 base (os @ es) (rv_output s') \<and> starts es = [] \<and> (\<forall>j. contents j es = []) \<and>
    set (ends es) = snd ` {(i, k) \<in> set ps. i \<notin> set (rv_done s)} \<and> length (enc_blocks es) \<le> 46 * length ps \<and>
    writer_room room (rv_output s) \<le> writer_room room (rv_output s') + 46 * length ps"
  using assms(1-4)
proof (induction ps arbitrary: os s)
  case Nil
  then show ?case by (intro exI [of _ s] exI [of _ "[]"]) simp
next
  case (Cons p ps)
  obtain i k where p: "p = (i, k)" by fastforce
  show ?case
  proof (cases "i \<in> set (rv_done s)")
    case True
    have "\<exists>s' es. close_unfinished sha256 wr ps s =
        (Inr (map (\<lambda>(i, k). f i) (filter (\<lambda>(i, k). i \<notin> set (rv_done s)) ps)), s') \<and>
      writer_inv out winv sha256 base (os @ es) (rv_output s') \<and> starts es = [] \<and> (\<forall>j. contents j es = []) \<and>
      set (ends es) = snd ` {(i, k) \<in> set ps. i \<notin> set (rv_done s)} \<and> length (enc_blocks es) \<le> 46 * length ps \<and>
      writer_room room (rv_output s) \<le> writer_room room (rv_output s') + 46 * length ps"
      by (rule Cons.IH [OF Cons.prems(1)]) (use Cons.prems(2-4) in auto)
    then obtain s' es where h: "close_unfinished sha256 wr ps s =
        (Inr (map (\<lambda>(i, k). f i) (filter (\<lambda>(i, k). i \<notin> set (rv_done s)) ps)), s')"
      "writer_inv out winv sha256 base (os @ es) (rv_output s')" "starts es = []" "\<forall>j. contents j es = []"
      "set (ends es) = snd ` {(i, k) \<in> set ps. i \<notin> set (rv_done s)}" "length (enc_blocks es) \<le> 46 * length ps"
      "writer_room room (rv_output s) \<le> writer_room room (rv_output s') + 46 * length ps" by blast
    have "{(i, k) \<in> set (p # ps). i \<notin> set (rv_done s)} = {(i, k) \<in> set ps. i \<notin> set (rv_done s)}"
      using True p by auto
    then show ?thesis using h True p by (intro exI [of _ s'] exI [of _ es]) simp
  next
    case False
    with Cons.prems(3) [of i k] p have k: "k \<in> open_ids os" "map_of (rv_id2entryname s) i = Some (f i)" by auto
    let ?b = "BEnd k (sha256 (contents k os))"
    have l: "length (enc_block ?b) = 46" using h32 by (simp add: enc_block_def)
    from end_entry_room [where ?sha256.0 = sha256, OF room_ax Cons.prems(1) k(1)] Cons.prems(4) obtain w where
      w: "end_entry sha256 wr k (rv_output s) = (Inr (), w)"
      "writer_room room (rv_output s) \<le> writer_room room w + 46" unfolding l by auto
    note I = end_entry_inv [OF sink_ax Cons.prems(1) h32 w(1)]
    let ?s1 = "s\<lparr>rv_output := w\<rparr>"
    have nk: "k \<notin> set (map snd ps)" using Cons.prems(2) p by simp
    have "\<exists>s' es. close_unfinished sha256 wr ps ?s1 =
        (Inr (map (\<lambda>(i, k). f i) (filter (\<lambda>(i, k). i \<notin> set (rv_done ?s1)) ps)), s') \<and>
      writer_inv out winv sha256 base ((os @ [?b]) @ es) (rv_output s') \<and> starts es = [] \<and> (\<forall>j. contents j es = []) \<and>
      set (ends es) = snd ` {(i, k) \<in> set ps. i \<notin> set (rv_done ?s1)} \<and> length (enc_blocks es) \<le> 46 * length ps \<and>
      writer_room room (rv_output ?s1) \<le> writer_room room (rv_output s') + 46 * length ps"
    proof (rule Cons.IH)
      show "writer_inv out winv sha256 base (os @ [?b]) (rv_output ?s1)" using I by simp
      show "distinct (map snd ps)" using Cons.prems(2) by simp
      show "46 * length ps \<le> writer_room room (rv_output ?s1)" using Cons.prems(4) w(2) by simp
      fix i' k' assume a: "(i', k') \<in> set ps" "i' \<notin> set (rv_done ?s1)"
      then have "k' \<noteq> k" using nk by force
      then show "k' \<in> open_ids (os @ [?b]) \<and> map_of (rv_id2entryname ?s1) i' = Some (f i')"
        using Cons.prems(3) [of i' k'] a by (simp add: open_ids_snoc)
    qed
    then obtain s' es where h: "close_unfinished sha256 wr ps ?s1 =
        (Inr (map (\<lambda>(i, k). f i) (filter (\<lambda>(i, k). i \<notin> set (rv_done s)) ps)), s')"
      "writer_inv out winv sha256 base (os @ ?b # es) (rv_output s')" "starts es = []" "\<forall>j. contents j es = []"
      "set (ends es) = snd ` {(i, k) \<in> set ps. i \<notin> set (rv_done s)}" "length (enc_blocks es) \<le> 46 * length ps"
      "writer_room room w \<le> writer_room room (rv_output s') + 46 * length ps" by auto
    have "{(i, k) \<in> set (p # ps). i \<notin> set (rv_done s)} = insert (i, k) {(i, k) \<in> set ps. i \<notin> set (rv_done s)}"
      using False p by auto
    then show ?thesis using h False p k(2) w l
      by (intro exI [of _ s'] exI [of _ "?b # es"]) simp
  qed
qed

end

section \<open>Sizes\<close>

lemma block_cost_le: "block_cost b \<le> 2 * length (enc_block b)"
proof (cases b)
  case (BContent i d)
  have "22 * (length d div CACHE_SIZE) \<le> length d"
    using div_times_less_eq_dividend [of "length d" CACHE_SIZE] by (simp add: CACHE_SIZE_def)
  then show ?thesis by (simp add: BContent content_cost_def enc_block_def)
qed simp_all

lemma blocks_cost_le: "blocks_cost bs \<le> 2 * length (enc_blocks bs)"
proof (induction bs)
  case (Cons b bs)
  then show ?case using block_cost_le [of b] by simp
qed simp

lemma starts_length:
  "\<forall>b\<in>set bs. wf_block b \<Longrightarrow> 23 * length (starts bs) \<le> length (enc_blocks bs)"
proof (induction bs)
  case (Cons b bs)
  have "wf_block b" using Cons.prems by simp
  then have "23 * length (starts [b]) \<le> length (enc_block b)"
    by (cases b) (auto simp: enc_block_def wf_name_def Suc_le_eq)
  moreover have "starts (b # bs) = starts [b] @ starts bs" by (cases b) auto
  ultimately show ?case using Cons by simp
qed simp

lemma index_blocks_count:
  "distinct is \<Longrightarrow> (\<Sum>i\<leftarrow>is. length (entry_index p i bs)) \<le> length bs"
proof (induction bs arbitrary: p)
  case (Cons b bs)
  have "(\<Sum>i\<leftarrow>is. if block_id b = Some i then 1 else 0 :: nat) \<le> 1"
    using Cons.prems by (induction "is") auto
  moreover have "(\<Sum>i\<leftarrow>is. length (entry_index p i (b # bs))) =
      (\<Sum>i\<leftarrow>is. if block_id b = Some i then 1 else 0) + (\<Sum>i\<leftarrow>is. length (entry_index (p + length (enc_block b)) i bs))"
    by (simp flip: sum_list_addf) (rule arg_cong [of _ _ sum_list], simp)
  ultimately show ?case using Cons.IH [OF Cons.prems, of "p + length (enc_block b)"] by simp
qed simp

lemma block_length_ge: "wf_block b \<Longrightarrow> b \<noteq> BEndOfData \<Longrightarrow> 16 \<le> length (enc_block b)"
  by (cases b) (auto simp: enc_block_def wf_name_def)

lemma footer_length:
  assumes "stream sha256 bs" and "\<forall>b\<in>set bs. wf_block b"
  shows "length (enc_index (sort_key fst (stream_footer bs))) \<le> 8 + 2 * length (enc_blocks bs)"
proof -
  let ?c = "\<lambda>i. 16 * length (entry_index BLOCKS_START i bs)"
  have "length (enc_index (sort_key fst (stream_footer bs))) =
      8 + (\<Sum>e\<leftarrow>starts bs. 16 + length (raw_name (fst e)) + ?c (snd e))"
    by (simp add: enc_index_def length_concat sum_list_sort_key o_def stream_footer_def enc_footer_entry_def
        length_enc_info stream_index_def case_prod_beta enc_name_def add.assoc)
  also have "\<dots> = 8 + ((\<Sum>e\<leftarrow>starts bs. 16 + length (raw_name (fst e))) + (\<Sum>e\<leftarrow>starts bs. ?c (snd e)))"
    by (simp only: sum_list_addf)
  also have "(\<Sum>e\<leftarrow>starts bs. ?c (snd e)) = 16 * (\<Sum>i\<leftarrow>map snd (starts bs). length (entry_index BLOCKS_START i bs))"
    by (simp add: sum_list_const_mult o_def)
  also have "(\<Sum>i\<leftarrow>map snd (starts bs). length (entry_index BLOCKS_START i bs)) \<le> length bs"
    by (rule index_blocks_count) (use stream_distinct [OF assms(1)] in blast)
  finally have l: "length (enc_index (sort_key fst (stream_footer bs))) \<le>
      8 + ((\<Sum>e\<leftarrow>starts bs. 16 + length (raw_name (fst e))) + 16 * length bs)" by simp
  have "16 * length bs \<le> length (enc_blocks bs)"
    using assms(2) stream_no_end_of_data [OF assms(1)]
  proof (induction bs)
    case (Cons b bs)
    then show ?case using block_length_ge [of b] by fastforce
  qed simp
  moreover have "(\<Sum>e\<leftarrow>starts bs. 16 + length (raw_name (fst e))) \<le> length (enc_blocks bs)"
    by (induction bs rule: starts.induct) (auto simp: enc_block_def enc_name_def)
  ultimately show ?thesis using l by simp
qed

text \<open>What the recovery of \<open>bs\<close> may write.\<close>

definition recovery_room :: "block list \<Rightarrow> nat" where
  "recovery_room bs = 12 * length (enc_blocks bs) + 50"

lemma received_starts: "length (starts (received n bs)) \<le> length (starts bs)"
proof (induction bs arbitrary: n)
  case (Cons b bs)
  show ?case
  proof (cases "length (enc_block b) \<le> n")
    case True
    then show ?thesis using Cons.IH by (cases b) auto
  qed (cases b, auto)
qed simp

section \<open>The whole recovery\<close>

lemma recovered_complete:
  assumes R: "recovered xs os s" and st: "stream sha256 os" "distinct (map snd (starts xs))"
    and es: "starts es = []" "\<forall>j. contents j es = []"
      "set (ends es) = snd ` {(i, k) \<in> set (rv_id2id_output s). i \<notin> set (rv_done s)}"
  shows "open_ids (os @ es) = {}" "map fst (starts (os @ es)) = map fst (starts xs)"
    and "(name, i) \<in> set (starts xs) \<Longrightarrow> \<exists>k. (name, k) \<in> set (starts (os @ es)) \<and> contents k (os @ es) = contents i xs"
proof -
  show names: "map fst (starts (os @ es)) = map fst (starts xs)" using R es(1) by (simp add: recovered_def)
  show "open_ids (os @ es) = {}"
  proof (rule ccontr)
    assume "open_ids (os @ es) \<noteq> {}"
    then obtain k where k: "k \<in> set (map snd (starts os))" "k \<notin> set (ends os)" "k \<notin> set (ends es)"
      using es(1) by (auto simp: open_ids_def)
    from k(1) have "k \<in> set (map snd (rv_id2id_output s))" by (simp only: recovered_keys(2) [OF R])
    then obtain i where i: "(i, k) \<in> set (rv_id2id_output s)" by force
    then have "i \<notin> set (rv_done s)" using R k(2) by (simp add: recovered_def)
    then have "k \<in> snd ` {(i, k) \<in> set (rv_id2id_output s). i \<notin> set (rv_done s)}" using i by force
    then show False using k(3) es(3) by blast
  qed
  assume "(name, i) \<in> set (starts xs)"
  then obtain n where n: "n < length (starts xs)" "starts xs ! n = (name, i)" by (auto simp: in_set_conv_nth)
  let ?k = "snd (starts os ! n)"
  have l: "n < length (starts os)" using n(1) recovered_lengths [OF R] by simp
  have "fst (starts os ! n) = fst (starts xs ! n)"
    using R n(1) l unfolding recovered_def by (metis nth_map)
  then have "(name, ?k) \<in> set (starts os)" using n(2) l by (metis fst_conv nth_mem prod.collapse)
  moreover have "(i, ?k) \<in> set (rv_id2id_output s)"
    using R n l by (auto simp: recovered_def set_zip intro!: exI [of _ n])
  then have "contents ?k os = contents i xs" using R by (simp add: recovered_def)
  ultimately show "\<exists>k. (name, k) \<in> set (starts (os @ es)) \<and> contents k (os @ es) = contents i xs"
    using es(1,2) by auto
qed

definition restores :: "block list \<Rightarrow> block list \<Rightarrow> bool" where
  "restores xs os \<longleftrightarrow>
     map fst (starts os) = map fst (starts xs) \<and>
     (\<forall>name i. (name, i) \<in> set (starts xs) \<longrightarrow>
        (\<exists>k. (name, k) \<in> set (starts os) \<and> contents k os = contents i xs))"

text \<open>Which result a recovery reports.\<close>

definition reports :: "block list \<Rightarrow> truncated_read_error \<Rightarrow> bool" where
  "reports xs err \<longleftrightarrow>
     (case err of
        UnfinishedEntries names e \<Rightarrow>
          names \<noteq> [] \<and> set names = {name. \<exists>i\<in>open_ids xs. (name, i) \<in> set (starts xs)}
      | _ \<Rightarrow> open_ids xs = {})"

context recoverer
begin

lemma recover_entries:
  assumes src: "inv src" and view: "rest src = take n (enc_blocks bs @ enc_block BEndOfData @ tl_bytes)"
    and st: "stream sha256 bs" and wf: "\<forall>b\<in>set bs. wf_block b" and h32: "\<And>x. length (sha256 x) = 32"
    and I: "writer_inv out winv sha256 base [] output"
    and room: "recovery_room bs \<le> writer_room room output" "recovery_room bs < 2 ^ 63"
    and order: "\<And>xs. mset (order xs) = mset xs"
  shows "\<exists>err0 s names s' w os. read_blocks sha256 rd wr (recovery_new src output) = Some (Inr err0, s) \<and>
    close_unfinished sha256 wr (order (rv_id2id_output s)) s = (Inr names, s') \<and>
    finalize_entries wr (rv_output s') = (Inr (), w) \<and> winv (pw_inner (aw_dest w)) \<and>
    out (pw_inner (aw_dest w)) = base @ complete_layer os \<and> archive_ok sha256 os \<and>
    length (complete_layer os) \<le> recovery_room bs \<and> restores (received n bs) os \<and>
    reports (received n bs) (if names \<noteq> [] then UnfinishedEntries names err0 else err0) \<and>
    (length (enc_blocks bs) + 5 \<le> n \<and> open_ids bs = {} \<longrightarrow> names = [] \<and> err0 = EndOfOriginalArchiveData)"
proof -
  let ?s0 = "recovery_new src output" and ?L = "length (enc_blocks bs)" and ?xs = "received n bs"
  have R0: "rinv sha256 base [] [] ?s0" "hash_kept [] ?s0"
    using I by (auto simp: rinv_def recovered_def hash_kept_def recovery_new_def open_ids_def intro: stream.intros)
  have sl: "23 * length (starts bs) \<le> ?L" by (rule starts_length [OF wf])
  have bl: "16 * length bs \<le> ?L"
    using wf stream_no_end_of_data [OF st]
  proof (induction bs)
    case (Cons b bs)
    then show ?case using block_length_ge [of b] by fastforce
  qed simp
  have "loop_ok sha256 base [] [] bs n ?s0"
  proof (rule read_blocks_ok [OF R0, where tl_bytes = tl_bytes])
    show "inv (rv_src ?s0)" "rest (rv_src ?s0) = take n (enc_blocks bs @ enc_block BEndOfData @ tl_bytes)"
      using src view by (simp_all add: recovery_new_def)
    show "length (starts []) + length bs < 2 ^ 64" using bl room(2) by (simp add: recovery_room_def)
    show "blocks_cost bs \<le> writer_room room (rv_output ?s0)"
      using blocks_cost_le [of bs] room(1) by (simp add: recovery_new_def recovery_room_def)
  qed (use st wf h32 in simp_all)
  then obtain err0 s os where s: "read_blocks sha256 rd wr ?s0 = Some (Inr err0, s)" "rinv sha256 base ?xs os s"
    "length (enc_blocks os) \<le> blocks_cost bs" "writer_room room output \<le> writer_room room (rv_output s) + blocks_cost bs"
    "?L + 5 \<le> n \<longrightarrow> err0 = EndOfOriginalArchiveData" "\<forall>names e. err0 \<noteq> UnfinishedEntries names e"
    unfolding loop_ok_def by (auto simp: recovery_new_def)
  note R = rinvD [OF s(2)]
  let ?ps = "order (rv_id2id_output s)"
  have ps: "set ?ps = set (rv_id2id_output s)" "mset (map snd ?ps) = mset (map snd (starts os))"
    using order [of "rv_id2id_output s"] recovered_keys(2) [OF R(3)]
    by (auto dest: mset_eq_setD) (metis mset_map)
  have dps: "distinct (map snd ?ps)" using ps(2) R(5) by (metis mset_eq_imp_distinct_iff)
  have lps: "length ?ps = length (starts ?xs)"
    using ps(2) recovered_lengths [OF R(3)] by (metis length_map mset_eq_length)
  have ls: "46 * length ?ps \<le> 2 * ?L" using lps received_starts [of n bs] sl by linarith
  let ?f = "\<lambda>i. the (map_of (rv_id2entryname s) i)"
  have o: "k \<in> open_ids os \<and> map_of (rv_id2entryname s) i = Some (?f i) \<and> i \<in> open_ids ?xs \<and> (?f i, i) \<in> set (starts ?xs)"
    if ik: "(i, k) \<in> set (rv_id2id_output s)" and nd: "i \<notin> set (rv_done s)" for i k
  proof -
    have "i \<in> set (map fst (rv_id2id_output s))" using ik by force
    then have i: "i \<in> set (map snd (starts ?xs))" by (simp only: recovered_keys(1) [OF R(3)])
    then obtain name where nm: "(name, i) \<in> set (starts ?xs)" by auto
    have oi: "i \<in> open_ids ?xs" using i nd R(3) by (simp add: open_ids_def recovered_def)
    from recovered_open [OF R(3) oi] obtain k' where "(i, k') \<in> set (rv_id2id_output s)" "k' \<in> open_ids os" .
    then show ?thesis
      using recovered_pair_iff [OF R(3,5,6) ik, of i k'] oi nm recovered_name [OF R(3) nm R(6)] by simp
  qed
  have "\<exists>s' es. close_unfinished sha256 wr ?ps s =
      (Inr (map (\<lambda>(i, k). ?f i) (filter (\<lambda>(i, k). i \<notin> set (rv_done s)) ?ps)), s') \<and>
    writer_inv out winv sha256 base (os @ es) (rv_output s') \<and> starts es = [] \<and> (\<forall>j. contents j es = []) \<and>
    set (ends es) = snd ` {(i, k) \<in> set ?ps. i \<notin> set (rv_done s)} \<and> length (enc_blocks es) \<le> 46 * length ?ps \<and>
    writer_room room (rv_output s) \<le> writer_room room (rv_output s') + 46 * length ?ps"
  proof (rule close_unfinished_ok [OF R(2) dps _ _ h32])
    show "k \<in> open_ids os \<and> map_of (rv_id2entryname s) i = Some (?f i)"
      if "(i, k) \<in> set ?ps" "i \<notin> set (rv_done s)" for i k
      using o [of i k] that ps(1) by simp
    show "46 * length ?ps \<le> writer_room room (rv_output s)"
      using ls s(4) room(1) blocks_cost_le [of bs] unfolding recovery_room_def by linarith
  qed
  then obtain s' es where c: "close_unfinished sha256 wr ?ps s =
      (Inr (map (\<lambda>(i, k). ?f i) (filter (\<lambda>(i, k). i \<notin> set (rv_done s)) ?ps)), s')"
    "writer_inv out winv sha256 base (os @ es) (rv_output s')" "starts es = []" "\<forall>j. contents j es = []"
    "set (ends es) = snd ` {(i, k) \<in> set (rv_id2id_output s). i \<notin> set (rv_done s)}"
    "length (enc_blocks es) \<le> 46 * length ?ps"
    "writer_room room (rv_output s) \<le> writer_room room (rv_output s') + 46 * length ?ps" unfolding ps(1) by blast
  let ?names = "map (\<lambda>(i, k). ?f i) (filter (\<lambda>(i, k). i \<notin> set (rv_done s)) ?ps)"
  note C = recovered_complete [OF R(3,4,6) c(3,4,5)]
  have sto: "stream sha256 (os @ es)" "\<forall>b\<in>set (os @ es). wf_block b" using c(2) by (auto simp: writer_inv_def)
  have le: "length (enc_blocks (os @ es)) \<le> 4 * ?L"
    using s(3) c(6) ls blocks_cost_le [of bs] by simp
  note fl = footer_length [OF sto]
  have clen: "length (complete_layer (os @ es)) \<le> recovery_room bs"
    using fl le by (simp add: complete_layer_def length_entries_layer BLOCKS_START_def enc_footer_def enc_block_def
        EMPTY_TAIL_OPTS_SERIALIZATION_def recovery_room_def)
  have ok: "archive_ok sha256 (os @ es)" using sto C(1) clen room(2) by (simp add: archive_ok_def)
  have fr: "length (enc_block BEndOfData @ enc_footer (sort_key fst (stream_footer (os @ es))) @
      EMPTY_TAIL_OPTS_SERIALIZATION) \<le> writer_room room (rv_output s')"
    using fl le c(7) s(4) ls blocks_cost_le [of bs] room(1)
    by (simp add: enc_footer_def enc_block_def EMPTY_TAIL_OPTS_SERIALIZATION_def recovery_room_def)
  have "length (enc_index (sort_key fst (stream_footer (os @ es)))) < 2 ^ 63"
    using fl le room(2) unfolding recovery_room_def by linarith
  from finalize_entries_room [OF room_ax c(2) C(1) archive_ok_footer [OF ok] fr this] obtain w where
    w: "finalize_entries wr (rv_output s') = (Inr (), w)" by blast
  have fo: "winv (pw_inner (aw_dest w))" "out (pw_inner (aw_dest w)) = base @ complete_layer (os @ es)"
    using finalize_entries_out [OF sink_ax c(2) w] by auto
  have names: "set ?names = {name. \<exists>i\<in>open_ids ?xs. (name, i) \<in> set (starts ?xs)}"
  proof (intro set_eqI iffI)
    fix name assume "name \<in> set ?names"
    then obtain i k where "(i, k) \<in> set (rv_id2id_output s)" "i \<notin> set (rv_done s)" "name = ?f i"
      using ps(1) by auto
    then show "name \<in> {name. \<exists>i\<in>open_ids ?xs. (name, i) \<in> set (starts ?xs)}" using o [of i k] by blast
  next
    fix name assume "name \<in> {name. \<exists>i\<in>open_ids ?xs. (name, i) \<in> set (starts ?xs)}"
    then obtain i where i: "i \<in> open_ids ?xs" "(name, i) \<in> set (starts ?xs)" by blast
    from recovered_open [OF R(3) i(1)] obtain k where k: "(i, k) \<in> set (rv_id2id_output s)" "i \<notin> set (rv_done s)" .
    have "?f i = name" using recovered_name [OF R(3) i(2) R(6)] by simp
    then show "name \<in> set ?names" using k ps(1) by force
  qed
  have ne: "?names = [] \<longleftrightarrow> open_ids ?xs = {}"
  proof -
    have "\<exists>name. (name, i) \<in> set (starts ?xs)" if "i \<in> open_ids ?xs" for i using that by (auto simp: open_ids_def)
    then have "{name. \<exists>i\<in>open_ids ?xs. (name, i) \<in> set (starts ?xs)} = {} \<longleftrightarrow> open_ids ?xs = {}" by blast
    then have "set ?names = {} \<longleftrightarrow> open_ids ?xs = {}" unfolding names .
    then show ?thesis unfolding set_empty .
  qed
  have rep: "reports ?xs (if ?names \<noteq> [] then UnfinishedEntries ?names err0 else err0)"
  proof (cases "?names = []")
    case True
    then have "open_ids ?xs = {}" using ne by blast
    moreover have "reports ?xs err0" if "open_ids ?xs = {}"
      using that s(6) by (cases err0) (auto simp: reports_def)
    ultimately show ?thesis using True by simp
  next
    case False
    then show ?thesis using names by (simp add: reports_def del: set_map set_filter)
  qed
  show ?thesis
  proof (rule exI [of _ err0], rule exI [of _ s], rule exI [of _ ?names], rule exI [of _ s'], rule exI [of _ w],
      rule exI [of _ "os @ es"], intro conjI)
    show "restores ?xs (os @ es)" using C(2,3) by (simp add: restores_def)
    show "?L + 5 \<le> n \<and> open_ids bs = {} \<longrightarrow> ?names = [] \<and> err0 = EndOfOriginalArchiveData"
    proof
      assume a: "?L + 5 \<le> n \<and> open_ids bs = {}"
      then have "?xs = bs" by (intro received_all) simp
      then have "?names = []" using ne a by (simp only:)
      moreover have "err0 = EndOfOriginalArchiveData" using s(5) a by blast
      ultimately show "?names = [] \<and> err0 = EndOfOriginalArchiveData" by (rule conjI)
    qed
  qed (rule s(1), rule c(1), rule w, rule fo(1), rule fo(2), rule ok, rule clen, rule rep)
qed

end

sublocale eof_source < stopping_source
proof
  fix s n bs s'
  assume a: "inv s" "length (view s) \<le> pos s" "rd n s = (Inr bs, s')"
  from read_eof [OF a(1,2), of n] a(3) show "bs = [] \<and> inv s' \<and> view s' = view s \<and> pos s' = pos s" by auto
qed

interpretation cur_vec: recoverer cursor_read cur_data cur_pos cursor_inv vec_write "\<lambda>w. w" "\<lambda>_. True" vec_room
  by (rule recoverer.intro) (rule eof_source.axioms cur.stopping_source_axioms vec.room_sink_axioms)+

section \<open>Properties\<close>

text \<open>C10: a truncated archive is recovered. From a source that gives the first \<open>n\<close> bytes of an archive's
  blocks, and then ends or fails, the conversion terminates and makes a complete archive, if the writer
  has room for it: it has the entries that were received, each with every byte that was received of its
  content; every entry is ended with the hash of that content, and the entries whose end was not received
  are reported, for any iteration order of the map. Nothing is reported if the archive was complete.\<close>

theorem recovery_restores_received:
  assumes "stopping_source rd view pos rinv" and "rinv src"
    and "drop (pos src) (view src) = take n (enc_blocks bs @ enc_block BEndOfData @ tl_bytes)"
    and "stream sha256 bs" and "\<forall>b\<in>set bs. wf_block b" and "\<And>x. length (sha256 x) = 32"
    and "room_sink wr out winv room" and "winv w0" and "archive_writer_init wr w0 = Inr output"
    and "recovery_room bs \<le> writer_room room output" and "recovery_room bs < 2 ^ 63"
    and "\<And>xs. mset (order xs) = mset xs"
    and "room_sink wrf fout finv froom" and "\<And>w. winv w \<Longrightarrow> length (out w) \<le> length (out w0) + recovery_room bs \<Longrightarrow>
      \<exists>f. layer_finalize w = Inr f \<and> finv f \<and> 17 \<le> froom f"
  shows "\<exists>err f os w f0. convert_to_archive order sha256 rd wr layer_finalize wrf src output = Some (Inr (err, f)) \<and>
    archive_ok sha256 os \<and> out w = out w0 @ complete_layer os \<and> layer_finalize w = Inr f0 \<and>
    fout f = fout f0 @ EMPTY_TAIL_OPTS_SERIALIZATION @ END_MLA_MAGIC \<and>
    restores (received n bs) os \<and> reports (received n bs) err \<and>
    (length (enc_blocks bs) + 5 \<le> n \<and> open_ids bs = {} \<longrightarrow>
       restores bs os \<and> err = EndOfOriginalArchiveData)"
proof -
  have so: "source rd view pos rinv" using assms(1) by (simp add: stopping_source_def)
  have rc: "recoverer rd view pos rinv wr out winv room" by (rule recoverer.intro) (rule assms(1), rule assms(7))
  have view: "source.rest view pos src = take n (enc_blocks bs @ enc_block BEndOfData @ tl_bytes)"
    using assms(3) by (simp only: source.rest_def [OF so])
  note I = archive_writer_init_inv [OF room_sink_sink [OF assms(7)] assms(8,9)]
  from recoverer.recover_entries [OF rc assms(2) view assms(4,5,6) I assms(10-12)] obtain err0 s names s' w os where
    c: "read_blocks sha256 rd wr (recovery_new src output) = Some (Inr err0, s)"
    "close_unfinished sha256 wr (order (rv_id2id_output s)) s = (Inr names, s')"
    "finalize_entries wr (rv_output s') = (Inr (), w)" "winv (pw_inner (aw_dest w))"
    "out (pw_inner (aw_dest w)) = out w0 @ complete_layer os" "archive_ok sha256 os" "length (complete_layer os) \<le> recovery_room bs" "restores (received n bs) os"
    "reports (received n bs) (if names \<noteq> [] then UnfinishedEntries names err0 else err0)"
    "length (enc_blocks bs) + 5 \<le> n \<and> open_ids bs = {} \<longrightarrow> names = [] \<and> err0 = EndOfOriginalArchiveData"
    by blast
  have "length (out (pw_inner (aw_dest w))) \<le> length (out w0) + recovery_room bs" using c(5,7) by simp
  from assms(14) [OF c(4) this] obtain f0 where f0: "layer_finalize (pw_inner (aw_dest w)) = Inr f0" "finv f0" "17 \<le> froom f0"
    by blast
  have "room_sink.runs fout finv froom (bindE (lift_io (write_all wrf EMPTY_TAIL_OPTS_SERIALIZATION))
      (\<lambda>_. lift_io (write_all wrf END_MLA_MAGIC))) (EMPTY_TAIL_OPTS_SERIALIZATION @ END_MLA_MAGIC) ()"
    by (rule room_sink.runs_bindE [OF assms(13)], (rule room_sink.runs_lift_io [OF assms(13)],
        rule room_sink.runs_write_all [OF assms(13)])+)
  from room_sink.runsE [OF assms(13) this f0(2)] f0(3) obtain f where
    f: "bindE (lift_io (write_all wrf EMPTY_TAIL_OPTS_SERIALIZATION)) (\<lambda>_. lift_io (write_all wrf END_MLA_MAGIC)) f0 = (Inr (), f)"
    "fout f = fout f0 @ EMPTY_TAIL_OPTS_SERIALIZATION @ END_MLA_MAGIC" by (auto simp: EMPTY_TAIL_OPTS_SERIALIZATION_def)
  have "archive_finalize wr layer_finalize wrf (rv_output s') = Inr f"
    using c(3) f0(1) f(1) by (simp add: archive_finalize_def position_finalize_def)
  then have "convert_to_archive order sha256 rd wr layer_finalize wrf src output =
      Some (Inr (if names \<noteq> [] then UnfinishedEntries names err0 else err0, f))"
    using c(1,2) by (simp add: convert_to_archive_def)
  moreover have "restores bs os" if "length (enc_blocks bs) + 5 \<le> n"
    using c(8) received_all [of bs n] that by simp
  ultimately show ?thesis using c f0(1) f(2)
    by (intro exI [of _ "if names \<noteq> [] then UnfinishedEntries names err0 else err0"] exI [of _ f] exI [of _ os]
        exI [of _ "pw_inner (aw_dest w)"] exI [of _ f0]) auto
qed

text \<open>Cut inside the first content: one of its two bytes is recovered, and both entries are reported.\<close>

theorem recovery_restores_received_witness:
  "\<exists>aw err f os w f0. archive_writer_init vec_write [] = Inr aw \<and>
    convert_to_archive rev demo_hash cursor_read vec_write Inr vec_write
      (cursor_new (take 69 (enc_blocks demo_blocks @ enc_block BEndOfData @ []))) aw = Some (Inr (err, f)) \<and>
    archive_ok demo_hash os \<and> w = [] @ complete_layer os \<and> (Inr w :: error + bytes) = Inr f0 \<and>
    f = f0 @ EMPTY_TAIL_OPTS_SERIALIZATION @ END_MLA_MAGIC \<and>
    restores [BStart (EntryName [97]) 0, BStart (EntryName [98]) 1, BContent 0 [1]] os \<and>
    reports [BStart (EntryName [97]) 0, BStart (EntryName [98]) 1, BContent 0 [1]] err"
proof -
  let ?c = "cursor_new (take 69 (enc_blocks demo_blocks @ enc_block BEndOfData @ []))"
  obtain aw where o: "archive_writer_init vec_write [] = Inr aw" "2 ^ 63 - 10 \<le> writer_room vec_room aw"
    using archive_writer_init_room [OF vec.room_sink_axioms, of "[]"] by (auto simp: vec_room_def)
  have l: "length (enc_blocks demo_blocks) = 208"
    by (simp add: demo_blocks_def enc_block_def demo_hash_def)
  have r: "received 69 demo_blocks = [BStart (EntryName [97]) 0, BStart (EntryName [98]) 1, BContent 0 [1]]"
    by (simp add: demo_blocks_def enc_block_def)
  have st: "stream demo_hash demo_blocks" "\<forall>b\<in>set demo_blocks. wf_block b"
    using demo_archive_ok by (auto simp: archive_ok_def)
  have c: "cursor_inv ?c" "drop (cur_pos ?c) (cur_data ?c) = take 69 (enc_blocks demo_blocks @ enc_block BEndOfData @ [])"
    by (simp_all add: cursor_inv_def cursor_new_def)
  have h: "\<And>x. length (demo_hash x) = 32" by (simp add: demo_hash_def)
  have room: "recovery_room demo_blocks \<le> writer_room vec_room aw" "recovery_room demo_blocks < 2 ^ 63"
    using o(2) by (simp_all add: recovery_room_def l)
  have order: "\<And>xs. mset (rev xs) = mset xs" by simp
  have fin: "\<exists>f. Inr w = (Inr f :: error + bytes) \<and> True \<and> 17 \<le> vec_room f"
    if "True" "length w \<le> length ([] :: bytes) + recovery_room demo_blocks" for w :: bytes
    using that by (simp add: vec_room_def recovery_room_def l)
  from recovery_restores_received [where layer_finalize = "Inr :: bytes \<Rightarrow> error + bytes",
      OF cur.stopping_source_axioms c st h vec.room_sink_axioms TrueI o(1) room order vec.room_sink_axioms]
  have "\<exists>err f os w f0. convert_to_archive rev demo_hash cursor_read vec_write Inr vec_write ?c aw = Some (Inr (err, f)) \<and>
    archive_ok demo_hash os \<and> w = [] @ complete_layer os \<and> (Inr w :: error + bytes) = Inr f0 \<and>
    f = f0 @ EMPTY_TAIL_OPTS_SERIALIZATION @ END_MLA_MAGIC \<and>
    restores (received 69 demo_blocks) os \<and> reports (received 69 demo_blocks) err \<and>
    (length (enc_blocks demo_blocks) + 5 \<le> 69 \<and> open_ids demo_blocks = {} \<longrightarrow>
       restores demo_blocks os \<and> err = EndOfOriginalArchiveData)"
    using fin by blast
  then show ?thesis unfolding r using o(1) by (elim exE conjE) (intro exI conjI, assumption+)
qed

end
