(* ===== verification/Window.thy ===== *)
theory Window
  imports ViewLayers
begin

text \<open>
  Seeking to any position up to the end. The layers below the signature (a file, the raw layer, the
  stripping layer) can go to their very end and, for the stripping layer, refuse to leave their window;
  the encryption and the compression layer keep the weaker contract \<open>seekable\<close> only.
\<close>

definition seek_target :: "seek_from \<Rightarrow> nat \<Rightarrow> nat \<Rightarrow> int" where
  "seek_target f p len = (case f of SeekStart q \<Rightarrow> int q | SeekEnd i \<Rightarrow> int len + i | SeekCurrent i \<Rightarrow> int p + i)"

lemma seek_target_simps [simp]:
  "seek_target (SeekStart q) p len = int q"
  "seek_target (SeekEnd i) p len = int len + i"
  "seek_target (SeekCurrent i) p len = int p + i"
  by (simp_all add: seek_target_def)

locale closed_seekable = eof_source rd view pos inv
  for rd :: "nat \<Rightarrow> ('r, io_error, bytes) op"
    and view :: "'r \<Rightarrow> bytes"
    and pos :: "'r \<Rightarrow> nat"
    and inv :: "'r \<Rightarrow> bool" +
  fixes sk :: "seek_from \<Rightarrow> ('r, io_error, nat) op"
  assumes seek_in: "inv s \<Longrightarrow> (\<forall>i. f = SeekCurrent i \<longrightarrow> pos s \<le> length (view s)) \<Longrightarrow>
      seek_target f (pos s) (length (view s)) = int k \<Longrightarrow> k \<le> length (view s) \<Longrightarrow>
      \<exists>s'. sk f s = (Inr k, s') \<and> inv s' \<and> view s' = view s \<and> pos s' = k"
begin

lemma seek_inE:
  assumes "inv s" and "\<forall>i. f = SeekCurrent i \<longrightarrow> pos s \<le> length (view s)"
    and "seek_target f (pos s) (length (view s)) = int k" and "k \<le> length (view s)"
  obtains s' where "sk f s = (Inr k, s')" "inv s'" "view s' = view s" "pos s' = k"
  using seek_in [OF assms] by blast

lemma closed_full: "full_seekable rd view pos inv sk"
proof
  fix s d assume "inv s" "0 < d" "d \<le> length (view s)"
  then show "\<exists>s'. sk (SeekEnd (- int d)) s = (Inr (length (view s) - d), s') \<and> inv s' \<and>
      view s' = view s \<and> pos s' = length (view s) - d"
    by (intro seek_in) auto
qed (auto intro!: seek_in)

lemma closed_seekable: "seekable rd view pos inv sk"
  using closed_full by (simp add: full_seekable_def)

end

locale window_seekable = closed_seekable rd view pos inv sk
  for rd :: "nat \<Rightarrow> ('r, io_error, bytes) op"
    and view :: "'r \<Rightarrow> bytes"
    and pos :: "'r \<Rightarrow> nat"
    and inv :: "'r \<Rightarrow> bool"
    and sk :: "seek_from \<Rightarrow> ('r, io_error, nat) op" +
  assumes seek_out: "inv s \<Longrightarrow> seek_target f (pos s) (length (view s)) \<notin> {0..int (length (view s))} \<Longrightarrow>
      \<exists>e. sk f s = (Inl e, s)"
    and in_window: "inv s \<Longrightarrow> pos s \<le> length (view s) \<and> length (view s) < 2 ^ 63"
begin

text \<open>A seek that succeeds went where it was asked to go.\<close>

lemma seek_InrD:
  assumes i: "inv s" and sk: "sk f s = (Inr k, s')"
  shows "inv s' \<and> view s' = view s \<and> pos s' = k \<and> k \<le> length (view s) \<and>
    seek_target f (pos s) (length (view s)) = int k"
proof -
  let ?t = "seek_target f (pos s) (length (view s))"
  have "?t \<in> {0..int (length (view s))}"
  proof (rule ccontr)
    assume "?t \<notin> {0..int (length (view s))}"
    from seek_out [OF i this] sk show False by auto
  qed
  then have t: "?t = int (nat ?t)" "nat ?t \<le> length (view s)" by auto
  obtain s1 where "sk f s = (Inr (nat ?t), s1)" "inv s1" "view s1 = view s" "pos s1 = nat ?t"
    by (rule seek_inE [OF i _ t]) (use in_window [OF i] in simp_all)
  then show ?thesis using sk t by simp
qed

end

section \<open>Who keeps them\<close>

interpretation cur: closed_seekable cursor_read cur_data cur_pos cursor_inv cursor_seek
proof
  fix s f k
  assume a: "cursor_inv s" "\<forall>i. f = SeekCurrent i \<longrightarrow> cur_pos s \<le> length (cur_data s)"
    "seek_target f (cur_pos s) (length (cur_data s)) = int k" "k \<le> length (cur_data s)"
  have "k < 2 ^ 63" using a(1,4) by (simp add: cursor_inv_def)
  then show "\<exists>s'. cursor_seek f s = (Inr k, s') \<and> cursor_inv s' \<and> cur_data s' = cur_data s \<and> cur_pos s' = k"
    using a by (cases f) (auto simp: cursor_seek_def checked_add_signed_def cursor_inv_def)
qed

context closed_seekable
begin

lemma raw_closed_seekable:
  "closed_seekable (raw_read rd) (raw_view view) (raw_pos pos) (raw_inv view pos inv) (raw_seek sk)"
proof (rule closed_seekable.intro)
  note fs = full_seekable.raw_full_seekable [OF closed_full]
  then show "eof_source (raw_read rd) (raw_view view) (raw_pos pos) (raw_inv view pos inv)"
    by (simp add: full_seekable_def)
  show "closed_seekable_axioms (raw_view view) (raw_pos pos) (raw_inv view pos inv) (raw_seek sk)"
  proof
    fix s :: "'r raw_reader" and f k
    assume a: "raw_inv view pos inv s" "\<forall>i. f = SeekCurrent i \<longrightarrow> raw_pos pos s \<le> length (raw_view view s)"
      "seek_target f (raw_pos pos s) (length (raw_view view s)) = int k" "k \<le> length (raw_view view s)"
    let ?r = "rr_inner s" and ?o = "rr_offset_pos s"
    have i: "inv ?r" "?o \<le> pos ?r" "?o \<le> length (view ?r)" "length (view ?r) < 2 ^ 63"
      using a(1) by (simp_all add: raw_inv_def)
    have k: "?o + k \<le> length (view ?r)" using a(4) i(3) by (simp add: raw_view_def)
    show "\<exists>s'. raw_seek sk f s = (Inr k, s') \<and> raw_inv view pos inv s' \<and> raw_view view s' = raw_view view s \<and>
      raw_pos pos s' = k"
    proof (cases f)
      case (SeekStart q)
      then have q: "q = k" using a(3) by simp
      obtain r where "sk (SeekStart (?o + k)) ?r = (Inr (?o + k), r)" "inv r" "view r = view ?r" "pos r = ?o + k"
        by (rule seek_inE [OF i(1) _ _ k, of "SeekStart (?o + k)"]) simp_all
      then show ?thesis
        using q i k by (auto simp: SeekStart raw_seek_def bindE_def lift_res_def checked_add_def on_field_def
            ret_def raw_inv_def raw_view_def raw_pos_def)
    next
      case (SeekEnd j)
      obtain r where "sk (SeekEnd j) ?r = (Inr (?o + k), r)" "inv r" "view r = view ?r" "pos r = ?o + k"
        by (rule seek_inE [OF i(1) _ _ k, of "SeekEnd j"]) (use a(3) i(3) SeekEnd in \<open>simp_all add: raw_view_def\<close>)
      from full_seekable.raw_seek_relative_ok [OF closed_full a(1) this] show ?thesis
        by (simp add: SeekEnd raw_seek_def)
    next
      case (SeekCurrent j)
      then have "raw_pos pos s \<le> length (raw_view view s)" "int (raw_pos pos s) + j = int k" using a(2,3) by auto
      then have c: "pos ?r \<le> length (view ?r)" "int (pos ?r) + j = int (?o + k)"
        using i(2,3) by (auto simp: raw_pos_def raw_view_def)
      obtain r where "sk (SeekCurrent j) ?r = (Inr (?o + k), r)" "inv r" "view r = view ?r" "pos r = ?o + k"
        by (rule seek_inE [OF i(1) _ _ k, of "SeekCurrent j"]) (use c in simp_all)
      from full_seekable.raw_seek_relative_ok [OF closed_full a(1) this] show ?thesis
        by (simp add: SeekCurrent raw_seek_def)
    qed
  qed
qed

lemma strip_window_seekable:
  "window_seekable (strip_read rd) (strip_view view) sr_pos (strip_inv view pos inv) (strip_seek sk)"
proof (intro window_seekable.intro closed_seekable.intro)
  note fs = full_seekable.strip_full_seekable [OF closed_full]
  then show "eof_source (strip_read rd) (strip_view view) sr_pos (strip_inv view pos inv)"
    by (simp add: full_seekable_def)
  show "closed_seekable_axioms (strip_view view) sr_pos (strip_inv view pos inv) (strip_seek sk)"
  proof
    fix s :: "'r strip_reader" and f k
    assume a: "strip_inv view pos inv s" "seek_target f (sr_pos s) (length (strip_view view s)) = int k"
      "k \<le> length (strip_view view s)"
    let ?r = "sr_inner s"
    note len = seekable.strip_length_ok [OF closed_seekable a(1)]
    have i: "inv ?r" "pos ?r = sr_head_len s + sr_pos s" "sr_inner_len s = length (view ?r)"
      "length (strip_view view s) + sr_head_len s + sr_tail_len s = length (view ?r)" "length (view ?r) < 2 ^ 63"
      "sr_pos s \<le> length (strip_view view s)"
      using a(1) length_strip_view [OF a(1)] by (auto simp: strip_inv_def)
    have k: "sr_head_len s + k \<le> length (view ?r)" "k + sr_head_len s + sr_tail_len s \<le> sr_inner_len s"
      using a(3) i(3,4) by simp_all
    note mv = seekable.strip_moveI [OF closed_seekable a(1) _ _ _ _ k(2)]
    show "\<exists>s'. strip_seek sk f s = (Inr k, s') \<and> strip_inv view pos inv s' \<and> strip_view view s' = strip_view view s \<and>
      sr_pos s' = k"
    proof (cases f)
      case (SeekStart q)
      then have q: "q = k" using a(2) by simp
      obtain r where "sk (SeekStart (k + sr_head_len s)) ?r = (Inr (sr_head_len s + k), r)" "inv r" "view r = view ?r"
        "pos r = sr_head_len s + k"
        by (rule seek_inE [OF i(1) _ _ k(1), of "SeekStart (k + sr_head_len s)"]) simp_all
      from mv [OF this] show ?thesis
        using q i k by (auto simp: SeekStart strip_seek_def bindE_def lift_res_def checked_add_def
            tail_offset_from_inner_start_def checked_sub_def)
    next
      case (SeekEnd j)
      then have j: "int (length (strip_view view s)) + j = int k" using a(2) by simp
      obtain r where r: "sk (SeekEnd (j - int (sr_tail_len s))) ?r = (Inr (sr_head_len s + k), r)" "inv r"
        "view r = view ?r" "pos r = sr_head_len s + k"
        by (rule seek_inE [OF i(1) _ _ k(1), of "SeekEnd (j - int (sr_tail_len s))"]) (use j i(4) in simp_all)
      have "checked_add_signed (length (strip_view view s)) j = Some k" "\<not> 0 < j"
        using j a(3) i(4,5) by (simp_all add: checked_add_signed_def)
      moreover have "checked_sub_unsigned j (sr_tail_len s) = Some (j - int (sr_tail_len s))"
        using j i(4,5) by (simp add: checked_sub_unsigned_def)
      ultimately show ?thesis
        using mv [OF r] by (simp add: SeekEnd strip_seek_def bindE_def lift_res_def len)
    next
      case (SeekCurrent j)
      then have j: "int (sr_pos s) + j = int k" using a(2) by simp
      obtain r where r: "sk (SeekCurrent j) ?r = (Inr (sr_head_len s + k), r)" "inv r" "view r = view ?r"
        "pos r = sr_head_len s + k"
        by (rule seek_inE [OF i(1) _ _ k(1), of "SeekCurrent j"]) (use j i in simp_all)
      have "checked_add_signed (sr_pos s) j = Some k"
        using j a(3) i(4,5) by (simp add: checked_add_signed_def)
      then show ?thesis
        using mv [OF r] a(3) by (simp add: SeekCurrent strip_seek_def bindE_def lift_res_def len)
    qed
  qed
  show "window_seekable_axioms (strip_view view) sr_pos (strip_inv view pos inv) (strip_seek sk)"
  proof
    fix s :: "'r strip_reader" and f
    assume s: "strip_inv view pos inv s"
      and f: "seek_target f (sr_pos s) (length (strip_view view s)) \<notin> {0..int (length (strip_view view s))}"
    note len = seekable.strip_length_ok [OF closed_seekable s]
    have "sr_head_len s + sr_tail_len s + length (strip_view view s) = sr_inner_len s" "sr_inner_len s < 2 ^ 63"
      using s length_strip_view [OF s] by (auto simp: strip_inv_def)
    then show "\<exists>e. strip_seek sk f s = (Inl e, s)"
      using f by (cases f) (auto simp: strip_seek_def bindE_def lift_res_def len checked_add_def
          tail_offset_from_inner_start_def checked_sub_def checked_add_signed_def fail_def)
  next
    fix s :: "'r strip_reader" assume s: "strip_inv view pos inv s"
    show "sr_pos s \<le> length (strip_view view s) \<and> length (strip_view view s) < 2 ^ 63"
      using s length_strip_view [OF s] by (auto simp: strip_inv_def)
  qed
qed

end

interpretation cur_raw: closed_seekable "raw_read cursor_read" "raw_view cur_data" "raw_pos cur_pos"
  "raw_inv cur_data cur_pos cursor_inv" "raw_seek cursor_seek"
  by (rule cur.raw_closed_seekable)

interpretation cur_strip: window_seekable "strip_read (raw_read cursor_read)" "strip_view (raw_view cur_data)" sr_pos
  "strip_inv (raw_view cur_data) (raw_pos cur_pos) (raw_inv cur_data cur_pos cursor_inv)"
  "strip_seek (raw_seek cursor_seek)"
  by (rule cur_raw.strip_window_seekable)

end
