(* ===== verification/Keeps.thy ===== *)
theory Keeps
  imports EncryptLayer Window
begin

text \<open>
  What an operation that succeeds leaves unchanged. \<open>keeps I m\<close>: every success of \<open>m\<close> keeps \<open>I\<close>. It
  needs no knowledge of what is read, so it holds of a deserializer on any input, well formed or not.
\<close>

named_theorems keep_intros "which operations keep an invariant"

definition keeps :: "('s \<Rightarrow> bool) \<Rightarrow> ('s, 'e, 'a) op \<Rightarrow> bool" where
  "keeps I m \<longleftrightarrow> (\<forall>s a s'. I s \<longrightarrow> m s = (Inr a, s') \<longrightarrow> I s')"

lemma keepsI: "(\<And>s a s'. I s \<Longrightarrow> m s = (Inr a, s') \<Longrightarrow> I s') \<Longrightarrow> keeps I m"
  by (simp add: keeps_def)

lemma keepsD: "keeps I m \<Longrightarrow> m s = (Inr a, s') \<Longrightarrow> I s \<Longrightarrow> I s'"
  by (simp add: keeps_def)

section \<open>Composition\<close>

lemma keeps_ret [keep_intros]: "keeps I (ret a)"
  by (auto intro!: keepsI simp: ret_def)

lemma keeps_fail [keep_intros]: "keeps I (fail e)"
  by (auto intro!: keepsI simp: fail_def)

lemma keeps_lift_res [keep_intros]: "keeps I (lift_res r)"
  by (auto intro!: keepsI simp: lift_res_def)

lemma keeps_bindE [keep_intros]:
  assumes "keeps I m" and "\<And>a. keeps I (k a)"
  shows "keeps I (bindE m k)"
proof (rule keepsI)
  fix s b t assume "I s" "bindE m k s = (Inr b, t)"
  from this(2) obtain a s' where "m s = (Inr a, s')" "k a s' = (Inr b, t)" by (rule bindE_InrE)
  with \<open>I s\<close> assms show "I t" by (blast dest: keepsD)
qed

lemma keeps_map_errE [keep_intros]: "keeps I m \<Longrightarrow> keeps I (map_errE f m)"
  unfolding keeps_def by (blast dest: map_errE_InrD)

lemma keeps_lift_io [keep_intros]: "keeps I m \<Longrightarrow> keeps I (lift_io m)"
  by (simp add: lift_io_def keeps_map_errE)

lemma keeps_if [keep_intros]:
  "(c \<Longrightarrow> keeps I m) \<Longrightarrow> (\<not> c \<Longrightarrow> keeps I m') \<Longrightarrow> keeps I (if c then m else m')"
  by simp

lemma keeps_case_prod [keep_intros]: "(\<And>a b. keeps I (f a b)) \<Longrightarrow> keeps I (case p of (a, b) \<Rightarrow> f a b)"
  by (simp add: split_beta)

section \<open>Readers\<close>

lemma keeps_read_exact:
  assumes "\<And>n. keeps I (rd n)"
  shows "keeps I (read_exact rd n)"
proof (rule keepsI)
  fix s a s' assume "I s" "read_exact rd n s = (Inr a, s')"
  then show "I s'"
  proof (induction n arbitrary: s a rule: less_induct)
    case (less n)
    show ?case
    proof (cases "n = 0")
      case True
      with less.prems show ?thesis by (simp add: read_exact.simps)
    next
      case False
      with less.prems(2) obtain bs s1 b' where r: "rd n s = (Inr bs, s1)" "bs \<noteq> []"
        "read_exact rd (n - length bs) s1 = (Inr b', s')"
        by (subst (asm) read_exact.simps) (auto split: prod.splits sum.splits if_splits)
      show ?thesis
        by (rule less.IH [OF _ keepsD [OF assms r(1) less.prems(1)] r(3)]) (use False r(2) in simp)
    qed
  qed
qed

lemma keeps_take_read_to_end:
  assumes "\<And>n. keeps I (rd n)"
  shows "keeps I (take_read_to_end rd n)"
proof (rule keepsI)
  fix s a s' assume "I s" "take_read_to_end rd n s = (Inr a, s')"
  then show "I s'"
  proof (induction n arbitrary: s a rule: less_induct)
    case (less n)
    show ?case
    proof (cases "n = 0")
      case True
      with less.prems show ?thesis by (simp add: take_read_to_end.simps)
    next
      case False
      show ?thesis
      proof (cases "\<exists>s1. rd n s = (Inr [], s1)")
        case True
        then show ?thesis
          using less.prems False keepsD [OF assms, of n s _ _] by (auto simp: take_read_to_end.simps)
      next
        case ne: False
        with less.prems(2) False obtain bs s1 b' where r: "rd n s = (Inr bs, s1)" "bs \<noteq> []"
          "take_read_to_end rd (n - length bs) s1 = (Inr b', s')"
          by (subst (asm) take_read_to_end.simps) (auto split: prod.splits sum.splits if_splits)
        show ?thesis
          by (rule less.IH [OF _ keepsD [OF assms r(1) less.prems(1)] r(3)]) (use False r(2) in simp)
      qed
    qed
  qed
qed

lemma keeps_deser: "(\<And>n. keeps I (rd n)) \<Longrightarrow> keeps I (read_exact_or_deser rd n)"
  unfolding read_exact_or_deser_def by (intro keep_intros keeps_read_exact)

lemma keeps_ints:
  assumes "\<And>n. keeps I (rd n)"
  shows "keeps I (u8_deserialize rd)" "keeps I (u16_deserialize rd)" "keeps I (u64_deserialize rd)"
  unfolding u8_deserialize_def u16_deserialize_def u64_deserialize_def
  by (intro keep_intros keeps_deser assms)+

lemma keeps_collect [keep_intros]: "keeps I d \<Longrightarrow> keeps I (collect_deserialize d n)"
  by (induction n) (auto intro!: keep_intros)

lemma keeps_array: "(\<And>n. keeps I (rd n)) \<Longrightarrow> keeps I (array_deserialize rd n)"
  unfolding array_deserialize_def by (intro keep_intros keeps_ints)

lemma keeps_vec: "(\<And>n. keeps I (rd n)) \<Longrightarrow> keeps I d \<Longrightarrow> keeps I (vec_deserialize rd d)"
  unfolding vec_deserialize_def by (intro keep_intros keeps_ints)

lemma keeps_opts: "(\<And>n. keeps I (rd n)) \<Longrightarrow> keeps I (opts_from_reader rd)"
  unfolding opts_from_reader_def
  by (intro keep_intros keeps_ints keeps_read_exact keeps_take_read_to_end)

lemma keeps_layer_magic: "(\<And>n. keeps I (rd n)) \<Longrightarrow> keeps I (read_layer_magic rd)"
  unfolding read_layer_magic_def by (intro keep_intros keeps_read_exact)

lemma keeps_persistent: "(\<And>n. keeps I (rd n)) \<Longrightarrow> keeps I (persistent_config_deserialize P rd)"
  unfolding persistent_config_deserialize_def multi_recipient_key_deserialize_def
    recipient_key_deserialize_def key_commitment_deserialize_def
  by (intro keep_intros keeps_vec keeps_array)

lemma keeps_position: "(\<And>n. keeps I (rd n)) \<Longrightarrow> keeps (\<lambda>s. I (pr_inner s)) (position_read rd n)"
  unfolding keeps_def by (fastforce simp: position_read_def split: prod.splits sum.splits option.splits)

lemma keeps_encryption_header:
  assumes "\<And>n. keeps I (rd n)"
  shows "keeps I (read_encryption_header_after_magic P rd)"
proof (rule keepsI)
  fix s a s' assume s: "I s" "read_encryption_header_after_magic P rd s = (Inr a, s')"
  let ?k = "\<lambda>metadata s :: 'a position_reader. case checked_add (pr_pos s) 8 of
       None \<Rightarrow> (Inl DeserializationError, s) | Some header_length \<Rightarrow> (Inr (metadata, header_length), s)"
  have "keeps (\<lambda>s. I (pr_inner s)) (?k x)" for x
    by (auto intro!: keepsI split: option.splits)
  then have "keeps (\<lambda>s. I (pr_inner s)) (bindE (opts_from_reader (position_read rd)) (\<lambda>_.
     bindE (u16_deserialize (position_read rd)) (\<lambda>_. bindE (persistent_config_deserialize P (position_read rd)) ?k)))"
    by (intro keep_intros keeps_opts keeps_ints keeps_persistent keeps_position assms)
  from keepsD [OF this, of "position_reader_new s"] s show "I s'"
    by (auto simp: read_encryption_header_after_magic_def position_reader_new_def split: prod.splits)
qed

context eof_source
begin

lemma read_InrD:
  assumes "inv s" and "rd n s = (Inr bs, s')"
  shows "inv s' \<and> view s' = view s \<and> pos s \<le> pos s' \<and> bs = take (pos s' - pos s) (drop (pos s) (view s)) \<and>
    (pos s' \<le> length (view s) \<or> pos s' = pos s) \<and> (0 < n \<longrightarrow> bs = [] \<longrightarrow> length (view s) \<le> pos s')"
proof (cases "pos s < length (view s)")
  case True
  from read_ok [OF assms(1) this, of n] assms(2) show ?thesis by auto
next
  case False
  then have l: "length (view s) \<le> pos s" by simp
  from read_eof [OF assms(1) l, of n] assms(2) l show ?thesis by auto
qed

lemma keeps_view: "keeps (\<lambda>s. inv s \<and> view s = v) (rd n)"
  by (rule keepsI) (auto dest: read_InrD)

lemma u8_InrD:
  assumes s: "inv s" and r: "u8_deserialize rd s = (Inr b, s')"
  shows "inv s' \<and> view s' = view s \<and> rest s = b # rest s'"
proof (cases "rest s")
  case Nil
  then have "length (rest s) < 1" by simp
  from read_exact_eof [OF s this] show ?thesis
    using r by (auto simp: u8_deserialize_def read_exact_or_deser_def bindE_def map_errE_def)
next
  case (Cons x xs)
  then have "1 \<le> length (rest s)" by simp
  then obtain s1 where "read_exact rd 1 s = (Inr (take 1 (rest s)), s1)" "inv s1" "view s1 = view s"
    "rest s1 = drop 1 (rest s)" by (rule yieldsE [OF read_exact_yields [OF s]])
  then show ?thesis
    using r Cons by (auto simp: u8_deserialize_def read_exact_or_deser_def bindE_def map_errE_def ret_def)
qed

lemma collect_u8_InrD:
  "inv s \<Longrightarrow> collect_deserialize (u8_deserialize rd) n s = (Inr bs, s') \<Longrightarrow>
   inv s' \<and> view s' = view s \<and> rest s = bs @ rest s'"
proof (induction n arbitrary: s bs)
  case 0
  then show ?case by (simp add: ret_def)
next
  case (Suc n)
  from Suc.prems(2) obtain b s1 where b: "u8_deserialize rd s = (Inr b, s1)"
    and k: "bindE (collect_deserialize (u8_deserialize rd) n) (\<lambda>xs. ret (b # xs)) s1 = (Inr bs, s')"
    unfolding collect_deserialize.simps by (rule bindE_InrE)
  from k obtain xs s2 where "collect_deserialize (u8_deserialize rd) n s1 = (Inr xs, s2)" "bs = b # xs" "s2 = s'"
    by (auto simp: ret_def elim!: bindE_InrE)
  with Suc.IH [of s1 xs] u8_InrD [OF Suc.prems(1) b] show ?case by auto
qed

lemma byte_vec_InrD:
  assumes "inv s" and "vec_deserialize rd (u8_deserialize rd) s = (Inr bs, s')"
  shows "\<exists>xs ys. view s = xs @ bs @ ys"
proof -
  from assms(2) obtain n s1 where n: "u64_deserialize rd s = (Inr n, s1)"
    "collect_deserialize (u8_deserialize rd) n s1 = (Inr bs, s')"
    unfolding vec_deserialize_def by (rule bindE_InrE)
  have "inv s1 \<and> view s1 = view s"
    using keepsD [OF keeps_ints(3) [OF keeps_view] n(1)] assms(1) by blast
  with collect_u8_InrD [OF _ n(2)] have "rest s1 = bs @ rest s'" "view s1 = view s" by auto
  moreover have "view s1 = take (pos s1) (view s1) @ rest s1" by (simp add: rest_def)
  ultimately show ?thesis by metis
qed

end

lemma hash_eof_source:
  assumes "eof_source rd view pos rinv"
  shows "eof_source (hash_read rd) (\<lambda>s. view (hr_inner s)) (\<lambda>s. pos (hr_inner s)) (hash_inv view pos rinv h0 p0)"
proof (rule eof_source.intro)
  have "source rd view pos rinv" using assms by (simp add: eof_source_def)
  then show "source (hash_read rd) (\<lambda>s. view (hr_inner s)) (\<lambda>s. pos (hr_inner s)) (hash_inv view pos rinv h0 p0)"
    by (rule hash_source)
  show "eof_source_axioms (hash_read rd) (\<lambda>s. view (hr_inner s)) (\<lambda>s. pos (hr_inner s)) (hash_inv view pos rinv h0 p0)"
  proof
    fix s :: "'a hash_reader" and n
    assume s: "hash_inv view pos rinv h0 p0 s" "length (view (hr_inner s)) \<le> pos (hr_inner s)"
    then have "rinv (hr_inner s)" by (simp add: hash_inv_def)
    from eof_source.read_eof [OF assms this s(2), of n] s(1)
    show "\<exists>s'. hash_read rd n s = (Inr [], s') \<and> hash_inv view pos rinv h0 p0 s' \<and>
        view (hr_inner s') = view (hr_inner s) \<and> pos (hr_inner s') = pos (hr_inner s)"
      by (auto simp: hash_read_def hash_inv_def)
  qed
qed

interpretation hash_cur: eof_source "hash_read cursor_read" "\<lambda>s. cur_data (hr_inner s)"
  "\<lambda>s. cur_pos (hr_inner s)" "hash_inv cur_data cur_pos cursor_inv h0 p0"
  by (rule hash_eof_source) (rule cur.eof_source_axioms)

end
