(* ===== verification/Signature.thy ===== *)
theory Signature
  imports Keeps
begin

text \<open>
  Signatures: the hybrid of Ed25519 and ML-DSA-87 (\<^verbatim>\<open>mla/src/crypto/hybrid_signature.rs\<close>) and the layer
  that signs what is written through it and checks it before anything is read
  (\<^verbatim>\<open>mla/src/layers/signature.rs\<close>). The two schemes and SHA-512 are crates: they are the record
  \<open>sig_prims\<close>, and the state of SHA-512 is the bytes it was fed.
\<close>

section \<open>The primitives\<close>

text \<open>\<open>'g\<close> is the state of the random generator, \<open>'s\<close> a decoded ML-DSA signature.\<close>

record ('g, 's) sig_prims =
  sp_sha512 :: "bytes \<Rightarrow> bytes"
  sp_ed_public :: "bytes \<Rightarrow> bytes"
  sp_ed_sign :: "bytes \<Rightarrow> bytes \<Rightarrow> bytes"
  sp_ed_verify :: "bytes \<Rightarrow> bytes \<Rightarrow> bytes \<Rightarrow> bool"
  sp_ml_public :: "bytes \<Rightarrow> bytes"
  sp_ml_sign :: "bytes \<Rightarrow> bytes \<Rightarrow> bytes \<Rightarrow> 'g \<Rightarrow> 's option \<times> 'g"
  sp_ml_verify :: "bytes \<Rightarrow> bytes \<Rightarrow> bytes \<Rightarrow> 's \<Rightarrow> bool"
  sp_ml_encode :: "'s \<Rightarrow> bytes"
  sp_ml_decode :: "bytes \<Rightarrow> 's option"

definition ED25519_SIGNATURE_LENGTH :: nat where "ED25519_SIGNATURE_LENGTH = 64"
definition ML_DSA87_SIGNATURE_SIZE :: nat where "ML_DSA87_SIGNATURE_SIZE = 4627"

text \<open>A signature verifies under the public key of its signer, and the sizes of the standards.\<close>

definition sig_ok :: "('g, 's) sig_prims \<Rightarrow> bool" where
  "sig_ok P \<longleftrightarrow>
     (\<forall>sk m. sp_ed_verify P (sp_ed_public P sk) m (sp_ed_sign P sk m) \<and>
        length (sp_ed_sign P sk m) = ED25519_SIGNATURE_LENGTH) \<and>
     (\<forall>sk m c g s g'. sp_ml_sign P sk m c g = (Some s, g') \<longrightarrow> sp_ml_verify P (sp_ml_public P sk) m c s) \<and>
     (\<forall>s. length (sp_ml_encode P s) = ML_DSA87_SIGNATURE_SIZE \<and> sp_ml_decode P (sp_ml_encode P s) = Some s)"

section \<open>Keys and signatures\<close>

definition MLDSA87_CONTEXT :: bytes where "MLDSA87_CONTEXT = ascii ''MLAMLDSA87SigMethod''"
definition MLAED25519_SIG_METHOD :: nat where "MLAED25519_SIG_METHOD = 0"
definition MLAMLDSA87_SIG_METHOD :: nat where "MLAMLDSA87_SIG_METHOD = 1"

record signing_private_key =
  sk_ed25519 :: bytes
  sk_seed_mldsa :: bytes

record signature_verification_key =
  vk_ed25519 :: bytes
  vk_mldsa87 :: bytes

datatype 's mla_signature = MLAEd25519 bytes | MLAMlDsa87 's

definition sign_ed25519 :: "('g, 's) sig_prims \<Rightarrow> signing_private_key \<Rightarrow> bytes \<Rightarrow> bytes" where
  "sign_ed25519 P k hash_to_sign = sp_ed_sign P (sk_ed25519 k) (sp_sha512 P hash_to_sign)"

definition sign_mldsa87 :: "('g, 's) sig_prims \<Rightarrow> signing_private_key \<Rightarrow> bytes \<Rightarrow> ('g, error, 's) op" where
  "sign_mldsa87 P k hash_to_sign g =
     (case sp_ml_sign P (sk_seed_mldsa k) (sp_sha512 P hash_to_sign) MLDSA87_CONTEXT g of
        (x, g') \<Rightarrow> (ok_or RandError x, g'))"

definition verify_signature ::
  "('g, 's) sig_prims \<Rightarrow> signature_verification_key \<Rightarrow> bytes \<Rightarrow> 's mla_signature \<Rightarrow> bool" where
  "verify_signature P k hash_to_verify signature =
     (case signature of
        MLAEd25519 s \<Rightarrow> sp_ed_verify P (vk_ed25519 k) (sp_sha512 P hash_to_verify) s
      | MLAMlDsa87 s \<Rightarrow> sp_ml_verify P (vk_mldsa87 k) (sp_sha512 P hash_to_verify) MLDSA87_CONTEXT s)"

definition ed25519_signature_serialize :: "(bytes \<Rightarrow> ('w, io_error, nat) op) \<Rightarrow> bytes \<Rightarrow> ('w, error, nat) op" where
  "ed25519_signature_serialize wr s =
     bindE (u16_serialize wr MLAED25519_SIG_METHOD) (\<lambda>_.
     bindE (lift_io (write_all wr s)) (\<lambda>_. ret (2 + ED25519_SIGNATURE_LENGTH)))"

definition mldsa87_signature_serialize ::
  "('g, 's) sig_prims \<Rightarrow> (bytes \<Rightarrow> ('w, io_error, nat) op) \<Rightarrow> 's \<Rightarrow> ('w, error, nat) op" where
  "mldsa87_signature_serialize P wr s =
     bindE (u16_serialize wr MLAMLDSA87_SIG_METHOD) (\<lambda>_.
     bindE (lift_io (write_all wr (sp_ml_encode P s))) (\<lambda>_. ret (2 + ML_DSA87_SIGNATURE_SIZE)))"

definition mla_signature_deserialize ::
  "('g, 's) sig_prims \<Rightarrow> (nat \<Rightarrow> ('r, io_error, bytes) op) \<Rightarrow> ('r, error, 's mla_signature) op" where
  "mla_signature_deserialize P rd =
     bindE (u16_deserialize rd) (\<lambda>signature_method_id.
       if signature_method_id = 0 then
         bindE (array_deserialize rd ED25519_SIGNATURE_LENGTH) (\<lambda>bs. ret (MLAEd25519 bs))
       else if signature_method_id = 1 then
         bindE (array_deserialize rd ML_DSA87_SIGNATURE_SIZE) (\<lambda>bs.
         bindE (lift_res (ok_or DeserializationError (sp_ml_decode P bs))) (\<lambda>s. ret (MLAMlDsa87 s)))
       else fail DeserializationError)"

text \<open>The loop reads a slice, which is a cursor, until it is empty. What is read never moves backwards.\<close>

definition cursor_left :: "cursor \<Rightarrow> nat" where
  "cursor_left c = length (cur_data c) - cur_pos c"

definition shrinks :: "(cursor, 'e, 'a) op \<Rightarrow> bool" where
  "shrinks m \<longleftrightarrow> (\<forall>c. cursor_left (snd (m c)) \<le> cursor_left c)"

lemma shrinksD: "shrinks m \<Longrightarrow> m c = (r, c') \<Longrightarrow> cursor_left c' \<le> cursor_left c"
  unfolding shrinks_def by (metis snd_conv)

lemma shrinks_bindE:
  assumes "shrinks m" and "\<And>a. shrinks (k a)"
  shows "shrinks (bindE m k)"
  unfolding shrinks_def
proof
  fix c
  obtain r c1 where m: "m c = (r, c1)" by fastforce
  note l = shrinksD [OF assms(1) m]
  show "cursor_left (snd (bindE m k c)) \<le> cursor_left c"
  proof (cases r)
    case (Inl e)
    then show ?thesis using m l by (simp add: bindE_def)
  next
    case (Inr a)
    obtain r2 c2 where k: "k a c1 = (r2, c2)" by fastforce
    show ?thesis using m Inr k l shrinksD [OF assms(2) k] by (simp add: bindE_def)
  qed
qed

lemma shrinks_simple: "shrinks (ret a)" "shrinks (fail e)" "shrinks (lift_res r)"
  by (simp_all add: shrinks_def ret_def fail_def lift_res_def)

lemma shrinks_map_errE:
  assumes "shrinks m"
  shows "shrinks (map_errE f m)"
  using shrinksD [OF assms] by (simp add: shrinks_def map_errE_def split: prod.splits sum.splits)

lemma read_exact_cursor:
  "read_exact cursor_read n c =
     (let r = drop (cur_pos c) (cur_data c)
      in if n \<le> length r then (Inr (take n r), c\<lparr>cur_pos := cur_pos c + n\<rparr>)
         else (Inl UnexpectedEof, c\<lparr>cur_pos := cur_pos c + length r\<rparr>))"
proof (cases "n \<le> length (drop (cur_pos c) (cur_data c))")
  case True
  show ?thesis
  proof (cases "n = 0")
    case True
    then show ?thesis by (simp add: read_exact.simps)
  next
    case False
    with True show ?thesis
      by (subst read_exact.simps) (auto simp: cursor_read_def Let_def read_exact.simps)
  qed
next
  case False
  let ?r = "drop (cur_pos c) (cur_data c)"
  have n: "n \<noteq> 0" using False by simp
  have e: "read_exact cursor_read (n - length ?r) (c\<lparr>cur_pos := cur_pos c + length ?r\<rparr>) =
      (Inl UnexpectedEof, c\<lparr>cur_pos := cur_pos c + length ?r\<rparr>)"
    using False by (subst read_exact.simps) (auto simp: cursor_read_def Let_def)
  have "cursor_read n c = (Inr ?r, c\<lparr>cur_pos := cur_pos c + length ?r\<rparr>)"
    using False by (simp add: cursor_read_def Let_def)
  then show ?thesis
    using False n e by (subst read_exact.simps) (auto simp: Let_def)
qed

lemma shrinks_read_exact: "shrinks (read_exact cursor_read n)"
  by (auto simp: shrinks_def read_exact_cursor Let_def cursor_left_def)

lemma shrinks_deser: "shrinks (read_exact_or_deser cursor_read n)"
  by (simp add: read_exact_or_deser_def shrinks_map_errE shrinks_read_exact)

lemma shrinks_u8: "shrinks (u8_deserialize cursor_read)"
  unfolding u8_deserialize_def by (intro shrinks_bindE shrinks_deser shrinks_simple)

lemma shrinks_collect: "shrinks d \<Longrightarrow> shrinks (collect_deserialize d n)"
  by (induction n) (auto intro!: shrinks_bindE shrinks_simple)

lemma shrinks_array: "shrinks (array_deserialize cursor_read n)"
  unfolding array_deserialize_def by (rule shrinks_collect, rule shrinks_u8)

lemma mla_signature_deserialize_left:
  assumes "mla_signature_deserialize P cursor_read c = (Inr s, c')"
  shows "cursor_left c' < cursor_left c"
proof -
  let ?k = "\<lambda>signature_method_id.
       if signature_method_id = 0 then
         bindE (array_deserialize cursor_read ED25519_SIGNATURE_LENGTH) (\<lambda>bs. ret (MLAEd25519 bs))
       else if signature_method_id = 1 then
         bindE (array_deserialize cursor_read ML_DSA87_SIGNATURE_SIZE) (\<lambda>bs.
         bindE (lift_res (ok_or DeserializationError (sp_ml_decode P bs))) (\<lambda>s. ret (MLAMlDsa87 s)))
       else fail DeserializationError"
  from assms obtain m c1 where m: "u16_deserialize cursor_read c = (Inr m, c1)" "?k m c1 = (Inr s, c')"
    unfolding mla_signature_deserialize_def by (rule bindE_InrE)
  have "shrinks (?k m)"
    by (auto intro!: shrinks_bindE shrinks_simple shrinks_array)
  then have "cursor_left (snd (?k m c1)) \<le> cursor_left c1" unfolding shrinks_def by (rule spec)
  then have "cursor_left c' \<le> cursor_left c1" unfolding m(2) by simp
  moreover have "cursor_left c1 < cursor_left c"
    using m(1) by (auto simp: u16_deserialize_def read_exact_or_deser_def bindE_def map_errE_def ret_def
        read_exact_cursor Let_def cursor_left_def split: if_splits)
  ultimately show ?thesis by simp
qed

function deserialize_signatures_from :: "('g, 's) sig_prims \<Rightarrow> cursor \<Rightarrow> error + 's mla_signature list" where
  "deserialize_signatures_from P c =
     (if cursor_left c = 0 then Inr []
      else case mla_signature_deserialize P cursor_read c of
          (Inl e, _) \<Rightarrow> Inl e
        | (Inr s, c') \<Rightarrow>
            (case deserialize_signatures_from P c' of Inl e \<Rightarrow> Inl e | Inr ss \<Rightarrow> Inr (s # ss)))"
  by pat_completeness auto
termination
  by (relation "measure (\<lambda>(P, c). cursor_left c)") (auto intro: mla_signature_deserialize_left [OF sym])

declare deserialize_signatures_from.simps [simp del]

definition deserialize_signatures :: "('g, 's) sig_prims \<Rightarrow> bytes \<Rightarrow> error + 's mla_signature list" where
  "deserialize_signatures P signature_data = deserialize_signatures_from P (cursor_new signature_data)"

section \<open>The layer's writer\<close>

definition SIGNATURE_LAYER_MAGIC :: bytes where "SIGNATURE_LAYER_MAGIC = ascii ''SIGMLAAA''"

text \<open>\<open>sc_rng\<close> is what \<^verbatim>\<open>get_rng\<close> gives: the system's generator may fail.\<close>

record 'g signature_config =
  sc_keys :: "signing_private_key list"
  sc_rng :: "error + 'g"

definition signature_config_new :: "signing_private_key list \<Rightarrow> error + 'g \<Rightarrow> config_error + 'g signature_config" where
  "signature_config_new signing_private_keys rng =
     (if signing_private_keys = [] then Inl PrivateKeyNotSet
      else Inr \<lparr>sc_keys = signing_private_keys, sc_rng = rng\<rparr>)"

record ('w, 'g) sig_writer =
  sw_inner :: 'w
  sw_config :: "'g signature_config"
  sw_hash :: bytes

definition sig_writer_new ::
  "(bytes \<Rightarrow> ('w, io_error, nat) op) \<Rightarrow> 'w \<Rightarrow> 'g signature_config \<Rightarrow> bytes \<Rightarrow> error + ('w, 'g) sig_writer" where
  "sig_writer_new wr inner cfg hash =
     (case bindE (lift_io (write_all (hash_write wr) SIGNATURE_LAYER_MAGIC)) (\<lambda>_. opts_dump (hash_write wr))
             \<lparr>hw_inner = inner, hw_hash = hash\<rparr> of
        (Inl e, _) \<Rightarrow> Inl e
      | (Inr _, s) \<Rightarrow> Inr \<lparr>sw_inner = hw_inner s, sw_config = cfg, sw_hash = hw_hash s\<rparr>)"

definition sig_write :: "(bytes \<Rightarrow> ('w, io_error, nat) op) \<Rightarrow> bytes \<Rightarrow> (('w, 'g) sig_writer, io_error, nat) op" where
  "sig_write wr buf s =
     (case wr buf (sw_inner s) of (r, w) \<Rightarrow> (r, s\<lparr>sw_hash := sw_hash s @ buf, sw_inner := w\<rparr>))"

text \<open>\<open>g\<close> is the generator, threaded through the keys.\<close>

fun sign_with_keys ::
  "('g, 's) sig_prims \<Rightarrow> (bytes \<Rightarrow> ('w, io_error, nat) op) \<Rightarrow> bytes \<Rightarrow> signing_private_key list \<Rightarrow> 'g \<Rightarrow>
   ('w, error, unit) op" where
  "sign_with_keys P wr hash [] g = ret ()"
| "sign_with_keys P wr hash (k # ks) g =
     bindE (ed25519_signature_serialize wr (sign_ed25519 P k hash)) (\<lambda>_.
       case sign_mldsa87 P k hash g of
         (Inl e, _) \<Rightarrow> fail e
       | (Inr s, g') \<Rightarrow>
           bindE (mldsa87_signature_serialize P wr s) (\<lambda>_. sign_with_keys P wr hash ks g'))"

definition signature_data_size :: "nat \<Rightarrow> nat option" where
  "signature_data_size n =
     Option.bind (checked_add 2 ED25519_SIGNATURE_LENGTH) (\<lambda>a.
     Option.bind (checked_add a 2) (\<lambda>b.
     Option.bind (checked_add b ML_DSA87_SIGNATURE_SIZE) (\<lambda>c. checked_mul n c)))"

definition sig_write_tail ::
  "('g, 's) sig_prims \<Rightarrow> (bytes \<Rightarrow> ('w, io_error, nat) op) \<Rightarrow> 'g signature_config \<Rightarrow> bytes \<Rightarrow> ('w, error, unit) op" where
  "sig_write_tail P wr cfg hash =
     bindE (lift_io (write_all wr EMPTY_TAIL_OPTS_SERIALIZATION)) (\<lambda>_.
     bindE (lift_res (ok_or SerializationError (signature_data_size (length (sc_keys cfg))))) (\<lambda>size.
     bindE (u64_serialize wr size) (\<lambda>_.
     bindE (lift_res (sc_rng cfg)) (\<lambda>rng.
     bindE (sign_with_keys P wr hash (sc_keys cfg) rng) (\<lambda>_.
     bindE (lift_res (ok_or SerializationError (checked_add size 8))) (\<lambda>n.
     bindE (u64_serialize wr n) (\<lambda>_. ret ())))))))"

definition sig_finalize ::
  "('g, 's) sig_prims \<Rightarrow> ('w \<Rightarrow> error + 'f) \<Rightarrow> (bytes \<Rightarrow> ('f, io_error, nat) op) \<Rightarrow> ('w, 'g) sig_writer \<Rightarrow> error + 'f" where
  "sig_finalize P inner_finalize wrf s =
     (case inner_finalize (sw_inner s) of
        Inl e \<Rightarrow> Inl e
      | Inr out \<Rightarrow>
          (case sig_write_tail P wrf (sw_config s) (sw_hash s) out of
             (Inl e, _) \<Rightarrow> Inl e
           | (Inr _, out') \<Rightarrow> Inr out'))"

section \<open>The layer's reader\<close>

record signature_reader_config =
  src_keys :: "signature_verification_key list"
  src_check :: bool

definition signature_reader_config_default :: signature_reader_config where
  "signature_reader_config_default = \<lparr>src_keys = [], src_check = True\<rparr>"

definition set_public_keys :: "signature_verification_key list \<Rightarrow> signature_reader_config \<Rightarrow> signature_reader_config" where
  "set_public_keys keys c = c\<lparr>src_keys := keys\<rparr>"

text \<open>\<^verbatim>\<open>io::copy(&mut src, &mut sink())\<close> until the source gives nothing more.\<close>

partial_function (option) copy_to_sink ::
  "(nat \<Rightarrow> ('r, io_error, bytes) op) \<Rightarrow> 'r \<Rightarrow> ((io_error + unit) \<times> 'r) option" where
  "copy_to_sink rd s =
     (case rd COPY_BUF_SIZE s of
        (Inl e, s') \<Rightarrow> Some (Inl e, s')
      | (Inr bs, s') \<Rightarrow> if bs = [] then Some (Inr (), s') else copy_to_sink rd s')"

text \<open>The shallow parse: where the signed content starts, the signatures, and the lengths to strip.\<close>

definition sig_layout ::
  "(nat \<Rightarrow> ('r, io_error, bytes) op) \<Rightarrow> (seek_from \<Rightarrow> ('r, io_error, nat) op) \<Rightarrow>
   ('r, error, nat \<times> bytes \<times> nat \<times> nat) op" where
  "sig_layout rd sk =
     bindE (lift_io (stream_position sk)) (\<lambda>sig_inner_layer_position.
     bindE (lift_io (sk (SeekEnd (- 8)))) (\<lambda>_.
     bindE (u64_deserialize rd) (\<lambda>vec_length.
     bindE (lift_res (ok_or DeserializationError (checked_add 8 vec_length))) (\<lambda>data_offset.
     bindE (lift_res (ok_or DeserializationError (checked_sub_unsigned 0 data_offset))) (\<lambda>i64_data_offset.
     bindE (lift_io (sk (SeekEnd i64_data_offset))) (\<lambda>_.
     bindE (vec_deserialize rd (u8_deserialize rd)) (\<lambda>signature_data.
     bindE (lift_res (ok_or DeserializationError (checked_add data_offset 8))) (\<lambda>options_offset.
     bindE (lift_res (ok_or DeserializationError (checked_sub_unsigned 0 options_offset))) (\<lambda>i64_options_offset.
     bindE (lift_io (sk (SeekEnd i64_options_offset))) (\<lambda>_.
     bindE (u64_deserialize rd) (\<lambda>options_length.
     bindE (lift_res (ok_or DeserializationError (checked_add options_offset options_length))) (\<lambda>tail_len.
     bindE (lift_io (sk (SeekEnd 0))) (\<lambda>inner_len.
     bindE (lift_io (sk (SeekStart sig_inner_layer_position))) (\<lambda>_.
       ret (sig_inner_layer_position, signature_data, tail_len, inner_len)))))))))))))))"

text \<open>Hash the whole content; an encryption header at its start is parsed on the way.\<close>

definition sig_read_head ::
  "'k kem_prims \<Rightarrow> (nat \<Rightarrow> ('r, io_error, bytes) op) \<Rightarrow> ('r, error, encryption_persistent_config option) op" where
  "sig_read_head K rd =
     bindE (read_layer_magic rd) (\<lambda>next_layer_magic.
       if next_layer_magic = ENCRYPTION_LAYER_MAGIC
       then bindE (read_encryption_header_after_magic K rd) (\<lambda>(metadata, _). ret (Some metadata))
       else ret None)"

definition sig_hash_content ::
  "'k kem_prims \<Rightarrow> (nat \<Rightarrow> ('r, io_error, bytes) op) \<Rightarrow> 'r \<Rightarrow> bytes \<Rightarrow>
   (error + encryption_persistent_config option \<times> bytes \<times> 'r) option" where
  "sig_hash_content K rd src signed_hash =
     (case sig_read_head K (hash_read rd) \<lparr>hr_inner = src, hr_hash = signed_hash\<rparr> of
        (Inl e, _) \<Rightarrow> Some (Inl e)
      | (Inr config, s) \<Rightarrow>
          (case copy_to_sink (hash_read rd) s of
             None \<Rightarrow> None
           | Some (Inl e, _) \<Rightarrow> Some (Inl (IOError e))
           | Some (Inr _, s') \<Rightarrow> Some (Inr (config, hr_hash s', hr_inner s'))))"

fun is_traditional :: "'s mla_signature \<Rightarrow> bool" where
  "is_traditional (MLAEd25519 s) = True"
| "is_traditional (MLAMlDsa87 s) = False"

text \<open>The keys for which both kinds of signature verify.\<close>

definition keys_with_valid_signatures ::
  "('g, 's) sig_prims \<Rightarrow> bytes \<Rightarrow> 's mla_signature list \<Rightarrow> signature_verification_key list \<Rightarrow> signature_verification_key list"
  where
  "keys_with_valid_signatures P hash signatures keys =
     filter (\<lambda>key. let verified = filter (verify_signature P key hash) signatures
       in list_ex is_traditional verified \<and> list_ex (\<lambda>s. \<not> is_traditional s) verified) keys"

definition sig_reader_new_skip_magic ::
  "('g, 's) sig_prims \<Rightarrow> 'k kem_prims \<Rightarrow> (nat \<Rightarrow> ('r, io_error, bytes) op) \<Rightarrow> (seek_from \<Rightarrow> ('r, io_error, nat) op) \<Rightarrow>
   ('r, error, unit) op \<Rightarrow> signature_reader_config \<Rightarrow> bytes \<Rightarrow> 'r \<Rightarrow>
   (error + 'r strip_reader \<times> signature_verification_key list \<times> encryption_persistent_config option) option" where
  "sig_reader_new_skip_magic P K rd sk inner_initialize cfg archive_header_hash inner =
     (case inner_initialize inner of
        (Inl e, _) \<Rightarrow> Some (Inl e)
      | (Inr _, inner1) \<Rightarrow>
     (case opts_from_reader (hash_read rd) \<lparr>hr_inner = inner1, hr_hash = archive_header_hash\<rparr> of
        (Inl e, _) \<Rightarrow> Some (Inl e)
      | (Inr _, h) \<Rightarrow>
     (case sig_layout rd sk (hr_inner h) of
        (Inl e, _) \<Rightarrow> Some (Inl e)
      | (Inr (sig_inner_layer_position, signature_data, tail_len, inner_len), src) \<Rightarrow>
     (case strip_reader_new src sig_inner_layer_position tail_len inner_len 0 of
        Inl e \<Rightarrow> Some (Inl e)
      | Inr stripped \<Rightarrow>
          if \<not> src_check cfg then Some (Inr (stripped, [], None))
          else
     (case sig_hash_content K (strip_read rd) stripped (hr_hash h) of
        None \<Rightarrow> None
      | Some (Inl e) \<Rightarrow> Some (Inl e)
      | Some (Inr (config, signed_hash, hashed)) \<Rightarrow>
     (case lift_io (rewind (strip_seek sk)) hashed of
        (Inl e, _) \<Rightarrow> Some (Inl e)
      | (Inr _, rewound) \<Rightarrow>
     (case deserialize_signatures P signature_data of
        Inl e \<Rightarrow> Some (Inl e)
      | Inr signatures \<Rightarrow>
          (let keys = keys_with_valid_signatures P signed_hash signatures (src_keys cfg)
           in if keys = [] then Some (Inl NoValidSignatureFound) else Some (Inr (rewound, keys, config))))))))))"

record 'r sig_truncated_reader =
  st_inner :: 'r

definition sig_truncated_new_skip_magic ::
  "(nat \<Rightarrow> ('r, io_error, bytes) op) \<Rightarrow> 'r \<Rightarrow> error + 'r sig_truncated_reader" where
  "sig_truncated_new_skip_magic rd inner =
     (case opts_from_reader rd inner of (Inl e, _) \<Rightarrow> Inl e | (Inr _, inner') \<Rightarrow> Inr \<lparr>st_inner = inner'\<rparr>)"

definition sig_truncated_read ::
  "(nat \<Rightarrow> ('r, io_error, bytes) op) \<Rightarrow> nat \<Rightarrow> ('r sig_truncated_reader, io_error, bytes) op" where
  "sig_truncated_read rd n = on_field st_inner (\<lambda>r s. s\<lparr>st_inner := r\<rparr>) (rd n)"

end
