(* ===== verification/SignatureLayer.thy ===== *)
theory SignatureLayer
  imports Signature
begin

text \<open>
  What the signature layer guarantees: a reader is only made when the whole content, the archive header and
  the layer's options were fed to the digest that the accepted keys signed; and what a writer signed is
  accepted and read back.
\<close>

section \<open>Hashing the whole content\<close>

context eof_source
begin

lemma copy_to_sink_ok:
  "inv s \<Longrightarrow> \<exists>s'. copy_to_sink rd s = Some (Inr (), s') \<and> inv s' \<and> view s' = view s \<and> length (view s) \<le> pos s'"
proof (induction "length (view s) - pos s" arbitrary: s rule: less_induct)
  case less
  show ?case
  proof (cases "pos s < length (view s)")
    case True
    from read_ok [OF less.prems True, of COPY_BUF_SIZE] obtain k s1 where
      k': "rd COPY_BUF_SIZE s = (Inr (take k (drop (pos s) (view s))), s1)" "k \<le> COPY_BUF_SIZE"
      "k \<le> length (view s) - pos s" "0 < COPY_BUF_SIZE \<longrightarrow> 0 < k" "inv s1" "view s1 = view s" "pos s1 = pos s + k"
      by (elim exE conjE) (rule that)
    note k = k'(1,3,4,5,6,7)
    have "0 < k" using k(3) by (simp add: COPY_BUF_SIZE_def)
    moreover from this have "take k (drop (pos s) (view s)) \<noteq> []" using True by simp
    moreover have "\<exists>s'. copy_to_sink rd s1 = Some (Inr (), s') \<and> inv s' \<and> view s' = view s1 \<and>
        length (view s1) \<le> pos s'"
      by (rule less.hyps) (use k True \<open>0 < k\<close> in simp_all)
    ultimately show ?thesis
      using k(1,5) by (subst copy_to_sink.simps) simp
  next
    case False
    then have l: "length (view s) \<le> pos s" by simp
    from read_eof [OF less.prems l, of COPY_BUF_SIZE] l show ?thesis
      by (subst copy_to_sink.simps) auto
  qed
qed

text \<open>Whatever the head is, once the copy is done the digest was fed everything from the start on.\<close>

lemma sig_hash_content_InrD:
  assumes i: "inv s" and r: "sig_hash_content K rd s h0 = Some (Inr (config, h, s'))" and p: "pos s = 0"
  shows "inv s' \<and> view s' = view s \<and> h = h0 @ view s"
proof -
  let ?I = "hash_inv view pos inv h0 0"
  have hs: "eof_source (hash_read rd) (\<lambda>s. view (hr_inner s)) (\<lambda>s. pos (hr_inner s)) ?I"
    by (rule hash_eof_source) (rule eof_source_axioms)
  let ?s = "\<lparr>hr_inner = s, hr_hash = h0\<rparr>"
  have i0: "?I ?s" using i p by (simp add: hash_inv_def)
  from r obtain s1 s2 where h: "sig_read_head K (hash_read rd) ?s = (Inr config, s1)"
    and c: "copy_to_sink (hash_read rd) s1 = Some (Inr (), s2)" "h = hr_hash s2" "s' = hr_inner s2"
    by (auto simp: sig_hash_content_def split: prod.splits sum.splits option.splits)
  have "keeps (\<lambda>s'. ?I s' \<and> view (hr_inner s') = view s) (sig_read_head K (hash_read rd))"
    unfolding sig_read_head_def
    by (intro keep_intros keeps_layer_magic keeps_encryption_header eof_source.keeps_view [OF hs])
  from keepsD [OF this h] i0 have "?I s1 \<and> view (hr_inner s1) = view s" by simp
  with eof_source.copy_to_sink_ok [OF hs, of s1] c show ?thesis
    by (auto simp: hash_inv_def)
qed

end

section \<open>The layout\<close>

context window_seekable
begin

lemma keeps_seek: "keeps (\<lambda>s. inv s \<and> view s = v) (sk f)"
  by (rule keepsI) (auto dest: seek_InrD)

lemma sig_layout_InrD:
  assumes i: "inv s" and r: "sig_layout rd sk s = (Inr (p, data, tail_len, len), s')"
  shows "p = pos s \<and> len = length (view s) \<and> inv s' \<and> view s' = view s \<and> pos s' = p \<and>
    (\<exists>xs ys. view s = xs @ data @ ys)"
proof -
  let ?I = "\<lambda>s'. inv s' \<and> view s' = view s"
  have I: "?I s" using i by simp
  note kd = keeps_ints(3) [OF keeps_view] keeps_lift_io [OF keeps_seek] keeps_vec [OF keeps_view keeps_ints(1) [OF keeps_view]]
  from r obtain p' s1 x2 s2 x3 s3 o1 t1 j1 t2 y1 t3 d t4 o2 u1 j2 u2 y2 u3 n u4 tl u5 len' u6 y3 u7 where
    a: "lift_io (stream_position sk) s = (Inr p', s1)" "lift_io (sk (SeekEnd (- 8))) s1 = (Inr x2, s2)"
      "u64_deserialize rd s2 = (Inr x3, s3)"
    and b: "lift_res (ok_or DeserializationError (checked_add 8 x3)) s3 = (Inr o1, t1)"
      "lift_res (ok_or DeserializationError (checked_sub_unsigned 0 o1)) t1 = (Inr j1, t2)"
      "lift_io (sk (SeekEnd j1)) t2 = (Inr y1, t3)" "vec_deserialize rd (u8_deserialize rd) t3 = (Inr d, t4)"
    and c: "lift_res (ok_or DeserializationError (checked_add o1 8)) t4 = (Inr o2, u1)"
      "lift_res (ok_or DeserializationError (checked_sub_unsigned 0 o2)) u1 = (Inr j2, u2)"
      "lift_io (sk (SeekEnd j2)) u2 = (Inr y2, u3)" "u64_deserialize rd u3 = (Inr n, u4)"
      "lift_res (ok_or DeserializationError (checked_add o2 n)) u4 = (Inr tl, u5)"
      "lift_io (sk (SeekEnd 0)) u5 = (Inr len', u6)" "lift_io (sk (SeekStart p')) u6 = (Inr y3, u7)"
      "(ret (p', d, tl, len') :: ('r, error, nat \<times> bytes \<times> nat \<times> nat) op) u7 = (Inr (p, data, tail_len, len), s')"
    unfolding sig_layout_def by (elim bindE_InrE) (rule that)
  have p': "p' = pos s" "?I s1"
    using seek_InrD [OF i, of "SeekCurrent 0" p' s1] a(1) by (auto simp: stream_position_def dest: lift_io_InrD)
  have I3: "?I s3" using keepsD [OF kd(1) a(3)] keepsD [OF kd(2) a(2)] p'(2) by blast
  have "t1 = s3" "t2 = t1" using b(1,2) by (simp_all add: lift_res_def)
  then have I4: "?I t3" using keepsD [OF kd(2) b(3)] I3 by blast
  then have I5: "?I t4" using keepsD [OF kd(3) b(4)] by blast
  have d: "\<exists>xs ys. view s = xs @ d @ ys" using byte_vec_InrD [OF _ b(4)] I4 by auto
  have "u1 = t4" "u2 = u1" "u5 = u4" using c(1,2,5) by (simp_all add: lift_res_def)
  then have I6: "?I u5" using keepsD [OF kd(1) c(4)] keepsD [OF kd(2) c(3)] I5 by blast
  have e: "p = p'" "data = d" "len = len'" "s' = u7" using c(8) by (simp_all add: ret_def)
  from seek_InrD [OF conjunct1 [OF I6] lift_io_InrD [OF c(6)]] I6 have l: "?I u6" "len' = length (view s)" by auto
  from seek_InrD [OF conjunct1 [OF l(1)] lift_io_InrD [OF c(7)]] l(1) have "?I u7" "pos u7 = p'" by auto
  with e p'(1) l d show ?thesis by simp
qed

end


section \<open>What is written\<close>

definition verification_key_of :: "('g, 's) sig_prims \<Rightarrow> signing_private_key \<Rightarrow> signature_verification_key" where
  "verification_key_of P k = \<lparr>vk_ed25519 = sp_ed_public P (sk_ed25519 k), vk_mldsa87 = sp_ml_public P (sk_seed_mldsa k)\<rparr>"

fun enc_signature :: "('g, 's) sig_prims \<Rightarrow> 's mla_signature \<Rightarrow> bytes" where
  "enc_signature P (MLAEd25519 b) = to_le 2 0 @ b"
| "enc_signature P (MLAMlDsa87 s) = to_le 2 1 @ sp_ml_encode P s"

definition enc_signatures :: "('g, 's) sig_prims \<Rightarrow> 's mla_signature list \<Rightarrow> bytes" where
  "enc_signatures P sigs = concat (map (enc_signature P) sigs)"

fun signature_wf :: "'s mla_signature \<Rightarrow> bool" where
  "signature_wf (MLAEd25519 b) \<longleftrightarrow> length b = 64"
| "signature_wf (MLAMlDsa87 s) \<longleftrightarrow> True"

text \<open>The signatures of all keys, in the order they are written.\<close>

fun sign_all ::
  "('g, 's) sig_prims \<Rightarrow> bytes \<Rightarrow> signing_private_key list \<Rightarrow> 'g \<Rightarrow> 's mla_signature list option" where
  "sign_all P hash [] g = Some []"
| "sign_all P hash (k # ks) g =
     (case sign_mldsa87 P k hash g of
        (Inl e, _) \<Rightarrow> None
      | (Inr s, g') \<Rightarrow>
          map_option (\<lambda>sigs. MLAEd25519 (sign_ed25519 P k hash) # MLAMlDsa87 s # sigs) (sign_all P hash ks g'))"

definition sig_tail :: "('g, 's) sig_prims \<Rightarrow> 's mla_signature list \<Rightarrow> bytes" where
  "sig_tail P sigs = EMPTY_TAIL_OPTS_SERIALIZATION @ enc_vec (\<lambda>b. [b]) (enc_signatures P sigs) @
     to_le 8 (length (enc_signatures P sigs) + 8)"

definition sig_layer :: "('g, 's) sig_prims \<Rightarrow> 's mla_signature list \<Rightarrow> bytes \<Rightarrow> bytes" where
  "sig_layer P sigs content = SIGNATURE_LAYER_MAGIC @ EMPTY_OPTS_SERIALIZATION @ content @ sig_tail P sigs"

lemma sign_all_facts:
  assumes "sig_ok P" and "sign_all P hash ks g = Some sigs"
  shows "list_all signature_wf sigs \<and> length (enc_signatures P sigs) = 4695 * length ks \<and>
    (\<forall>k\<in>set ks. \<exists>e m. MLAEd25519 e \<in> set sigs \<and> MLAMlDsa87 m \<in> set sigs \<and>
       verify_signature P (verification_key_of P k) hash (MLAEd25519 e) \<and>
       verify_signature P (verification_key_of P k) hash (MLAMlDsa87 m))"
  using assms(2)
proof (induction ks arbitrary: g sigs)
  case Nil
  then show ?case by (simp add: enc_signatures_def)
next
  case (Cons k ks)
  then obtain s g' sigs' where s: "sign_mldsa87 P k hash g = (Inr s, g')" "sign_all P hash ks g' = Some sigs'"
    "sigs = MLAEd25519 (sign_ed25519 P k hash) # MLAMlDsa87 s # sigs'"
    by (auto split: prod.splits sum.splits)
  have ed: "length (sign_ed25519 P k hash) = 64"
    "verify_signature P (verification_key_of P k) hash (MLAEd25519 (sign_ed25519 P k hash))"
    using assms(1) by (simp_all add: sig_ok_def sign_ed25519_def verify_signature_def verification_key_of_def
        ED25519_SIGNATURE_LENGTH_def)
  have "sp_ml_sign P (sk_seed_mldsa k) (sp_sha512 P hash) MLDSA87_CONTEXT g = (Some s, g')"
    using s(1) by (auto simp: sign_mldsa87_def split: prod.splits dest: ok_or_InrD)
  then have ml: "verify_signature P (verification_key_of P k) hash (MLAMlDsa87 s)"
    using assms(1) unfolding sig_ok_def verify_signature_def verification_key_of_def
      mla_signature.case signature_verification_key.select_convs by blast
  have "length (sp_ml_encode P s) = 4627" using assms(1) by (simp add: sig_ok_def ML_DSA87_SIGNATURE_SIZE_def)
  then have "length (enc_signatures P sigs) = 4695 + length (enc_signatures P sigs')"
    using s(3) ed(1) by (simp add: enc_signatures_def)
  moreover have "\<exists>e m. MLAEd25519 e \<in> set sigs \<and> MLAMlDsa87 m \<in> set sigs \<and>
       verify_signature P (verification_key_of P k') hash (MLAEd25519 e) \<and>
       verify_signature P (verification_key_of P k') hash (MLAMlDsa87 m)" if "k' \<in> set (k # ks)" for k'
  proof (cases "k' = k")
    case True
    with ed(2) ml s(3) show ?thesis
      by (intro exI [of _ "sign_ed25519 P k hash"] exI [of _ s]) simp
  next
    case False
    with that Cons.IH [OF s(2)] show ?thesis unfolding s(3) by fastforce
  qed
  ultimately show ?case using Cons.IH [OF s(2)] ed(1) s(3) by simp
qed

lemma signature_data_size_eq: "signature_data_size n = (if n * 4695 < 2 ^ 64 then Some (n * 4695) else None)"
  by (simp add: signature_data_size_def checked_add_def checked_mul_def ED25519_SIGNATURE_LENGTH_def
      ML_DSA87_SIGNATURE_SIZE_def)

context sink
begin

lemma prints_signatures:
  "prints (ed25519_signature_serialize wr b) (enc_signature P (MLAEd25519 b)) 66"
  "prints (mldsa87_signature_serialize P wr s) (enc_signature P (MLAMlDsa87 s)) 4629"
proof -
  have "prints (ed25519_signature_serialize wr b) (to_le 2 MLAED25519_SIG_METHOD @ b) (2 + ED25519_SIGNATURE_LENGTH)"
    unfolding ed25519_signature_serialize_def
    by (rule prints_bindE, rule prints_u16, rule prints_last, rule prints_lift_io, rule prints_write_all, rule prints_ret)
  then show "prints (ed25519_signature_serialize wr b) (enc_signature P (MLAEd25519 b)) 66"
    by (simp add: MLAED25519_SIG_METHOD_def ED25519_SIGNATURE_LENGTH_def)
  have "prints (mldsa87_signature_serialize P wr s) (to_le 2 MLAMLDSA87_SIG_METHOD @ sp_ml_encode P s)
      (2 + ML_DSA87_SIGNATURE_SIZE)"
    unfolding mldsa87_signature_serialize_def
    by (rule prints_bindE, rule prints_u16, rule prints_last, rule prints_lift_io, rule prints_write_all, rule prints_ret)
  then show "prints (mldsa87_signature_serialize P wr s) (enc_signature P (MLAMlDsa87 s)) 4629"
    by (simp add: MLAMLDSA87_SIG_METHOD_def ML_DSA87_SIGNATURE_SIZE_def)
qed

lemma sign_with_keys_out:
  "winv w \<Longrightarrow> sign_with_keys P wr hash ks g w = (Inr u, w') \<Longrightarrow>
   \<exists>sigs. sign_all P hash ks g = Some sigs \<and> winv w' \<and> out w' = out w @ enc_signatures P sigs"
proof (induction ks arbitrary: g w)
  case Nil
  then show ?case by (simp add: ret_def enc_signatures_def)
next
  case (Cons k ks)
  from Cons.prems(2) obtain n w1 where
    a: "ed25519_signature_serialize wr (sign_ed25519 P k hash) w = (Inr n, w1)"
      "(case sign_mldsa87 P k hash g of (Inl e, _) \<Rightarrow> fail e
        | (Inr s, g') \<Rightarrow> bindE (mldsa87_signature_serialize P wr s) (\<lambda>_. sign_with_keys P wr hash ks g')) w1 = (Inr u, w')"
    unfolding sign_with_keys.simps by (rule bindE_InrE)
  from a(2) obtain s g' where s: "sign_mldsa87 P k hash g = (Inr s, g')"
    "bindE (mldsa87_signature_serialize P wr s) (\<lambda>_. sign_with_keys P wr hash ks g') w1 = (Inr u, w')"
    by (auto simp: fail_def split: prod.splits sum.splits)
  from s(2) obtain m w2 where b: "mldsa87_signature_serialize P wr s w1 = (Inr m, w2)"
    "sign_with_keys P wr hash ks g' w2 = (Inr u, w')" by (rule bindE_InrE)
  from printsD [OF prints_signatures(1) Cons.prems(1) a(1)] have w1: "winv w1"
    "out w1 = out w @ enc_signature P (MLAEd25519 (sign_ed25519 P k hash))" by auto
  from printsD [OF prints_signatures(2) w1(1) b(1)] have w2: "winv w2"
    "out w2 = out w1 @ enc_signature P (MLAMlDsa87 s)" by auto
  from Cons.IH [OF w2(1) b(2)] s(1) w1(2) w2(2) show ?case
    by (auto simp: enc_signatures_def simp del: enc_signature.simps)
qed

lemma sig_write_tail_out:
  assumes P: "sig_ok P" and w: "winv w" and t: "sig_write_tail P wr cfg hash w = (Inr u, w')"
  obtains g sigs where "sc_rng cfg = Inr g" "sign_all P hash (sc_keys cfg) g = Some sigs"
    "out w' = out w @ sig_tail P sigs"
proof -
  from t obtain x1 w1 n w2 x3 w3 g w4 x5 w5 m w6 x7 w7 where
    a: "lift_io (write_all wr EMPTY_TAIL_OPTS_SERIALIZATION) w = (Inr x1, w1)"
      "lift_res (ok_or SerializationError (signature_data_size (length (sc_keys cfg)))) w1 = (Inr n, w2)"
      "u64_serialize wr n w2 = (Inr x3, w3)" "lift_res (sc_rng cfg) w3 = (Inr g, w4)"
      "sign_with_keys P wr hash (sc_keys cfg) g w4 = (Inr x5, w5)"
      "lift_res (ok_or SerializationError (checked_add n 8)) w5 = (Inr m, w6)"
      "u64_serialize wr m w6 = (Inr x7, w7)" "(ret () :: ('w, error, unit) op) w7 = (Inr u, w')"
    unfolding sig_write_tail_def by (elim bindE_InrE) (rule that)
  from printsD [OF prints_lift_io [OF prints_write_all] w a(1)]
  have w1: "winv w1" "out w1 = out w @ EMPTY_TAIL_OPTS_SERIALIZATION" by auto
  have n: "n = length (sc_keys cfg) * 4695" "w2 = w1"
    using a(2) by (simp_all add: lift_res_def signature_data_size_eq split: if_splits)
  have "winv w2" using w1 n by simp
  from printsD [OF prints_u64 this a(3)] have w3: "winv w3" "out w3 = out w2 @ to_le 8 n" by auto
  have g: "sc_rng cfg = Inr g" "w4 = w3" using a(4) by (simp_all add: lift_res_def)
  have "winv w4" using w3 g by simp
  from sign_with_keys_out [OF this a(5)] obtain sigs where
    sigs: "sign_all P hash (sc_keys cfg) g = Some sigs" "winv w5" "out w5 = out w4 @ enc_signatures P sigs" by blast
  have m: "m = n + 8" "w6 = w5"
    using a(6) by (auto simp: lift_res_def dest!: ok_or_InrD) (simp add: checked_add_def split: if_splits)
  have "winv w6" using sigs m by simp
  from printsD [OF prints_u64 this a(7)] have w7: "out w7 = out w6 @ to_le 8 m" by auto
  have "length (enc_signatures P sigs) = n"
    using sign_all_facts [OF P sigs(1)] n(1) by (simp add: mult.commute)
  then have "out w' = out w @ sig_tail P sigs"
    using a(8) w7 m sigs(3) g(2) w3(2) n(2) w1(2) by (simp add: ret_def sig_tail_def enc_vec_def)
  with g(1) sigs(1) show thesis by (rule that)
qed

end


section \<open>The writer is a sink\<close>

text \<open>The digest is fed the whole buffer of each write, so the inner writer has to accept whole buffers.\<close>

definition whole_writes :: "(bytes \<Rightarrow> ('w, io_error, nat) op) \<Rightarrow> ('w \<Rightarrow> bool) \<Rightarrow> bool" where
  "whole_writes wr winv \<longleftrightarrow>
     (\<forall>w bs k w'. winv w \<longrightarrow> bs \<noteq> [] \<longrightarrow> wr bs w = (Inr k, w') \<longrightarrow> k = length bs)"

definition hashed_winv :: "('w \<Rightarrow> bytes) \<Rightarrow> ('w \<Rightarrow> bool) \<Rightarrow> bytes \<Rightarrow> nat \<Rightarrow> 'w \<Rightarrow> bytes \<Rightarrow> bool" where
  "hashed_winv out winv h0 base w h \<longleftrightarrow> winv w \<and> base \<le> length (out w) \<and> h = h0 @ drop base (out w)"

lemma hash_write_sink:
  assumes "sink wr out winv" and "whole_writes wr winv"
  shows "sink (hash_write wr) (\<lambda>s. out (hw_inner s)) (\<lambda>s. hashed_winv out winv h0 base (hw_inner s) (hw_hash s))"
proof
  fix w :: "'a hash_writer" and bs k w'
  assume w: "hashed_winv out winv h0 base (hw_inner w) (hw_hash w)" "bs \<noteq> []" "hash_write wr bs w = (Inr k, w')"
  then obtain r where r: "wr bs (hw_inner w) = (Inr k, r)" "w' = w\<lparr>hw_inner := r, hw_hash := hw_hash w @ bs\<rparr>"
    by (auto simp: hash_write_def split: prod.splits)
  have i: "winv (hw_inner w)" using w(1) by (simp add: hashed_winv_def)
  then have "k = length bs" using assms(2) w(2) r(1) unfolding whole_writes_def by blast
  with sink.write_ok [OF assms(1) i w(2) r(1)] w(1) r(2)
  show "hashed_winv out winv h0 base (hw_inner w') (hw_hash w') \<and> out (hw_inner w') = out (hw_inner w) @ take k bs \<and>
      k \<le> length bs" by (simp add: hashed_winv_def)
qed

lemma sig_write_sink:
  assumes "sink wr out winv" and "whole_writes wr winv"
  shows "sink (sig_write wr) (\<lambda>s. out (sw_inner s)) (\<lambda>s. hashed_winv out winv h0 base (sw_inner s) (sw_hash s))"
proof
  fix w :: "('a, 'b) sig_writer" and bs k w'
  assume w: "hashed_winv out winv h0 base (sw_inner w) (sw_hash w)" "bs \<noteq> []" "sig_write wr bs w = (Inr k, w')"
  then obtain r where r: "wr bs (sw_inner w) = (Inr k, r)" "w' = w\<lparr>sw_hash := sw_hash w @ bs, sw_inner := r\<rparr>"
    by (auto simp: sig_write_def split: prod.splits)
  have i: "winv (sw_inner w)" using w(1) by (simp add: hashed_winv_def)
  then have "k = length bs" using assms(2) w(2) r(1) unfolding whole_writes_def by blast
  with sink.write_ok [OF assms(1) i w(2) r(1)] w(1) r(2)
  show "hashed_winv out winv h0 base (sw_inner w') (sw_hash w') \<and> out (sw_inner w') = out (sw_inner w) @ take k bs \<and>
      k \<le> length bs" by (simp add: hashed_winv_def)
qed

lemma whole_writes_vec: "whole_writes vec_write (\<lambda>_. True)"
  by (simp add: whole_writes_def vec_write_def)

interpretation hash_vec: sink "hash_write vec_write" hw_inner
  "\<lambda>s. hashed_winv (\<lambda>w. w) (\<lambda>_. True) h0 base (hw_inner s) (hw_hash s)"
  by (rule hash_write_sink [OF vec.sink_axioms whole_writes_vec])

interpretation sig_vec: sink "sig_write vec_write" sw_inner
  "\<lambda>s. hashed_winv (\<lambda>w. w) (\<lambda>_. True) h0 base (sw_inner s) (sw_hash s)"
  by (rule sig_write_sink [OF vec.sink_axioms whole_writes_vec])

lemma sig_writer_new_ok:
  assumes s: "sink wr out winv" and "whole_writes wr winv" and "winv w0" and "sig_writer_new wr w0 cfg h0 = Inr s0"
  shows "hashed_winv out winv h0 (length (out w0)) (sw_inner s0) (sw_hash s0) \<and> sw_config s0 = cfg \<and>
    out (sw_inner s0) = out w0 @ SIGNATURE_LAYER_MAGIC @ EMPTY_OPTS_SERIALIZATION"
proof -
  let ?inv = "\<lambda>s. hashed_winv out winv h0 (length (out w0)) (hw_inner s) (hw_hash s)"
  have hs: "sink (hash_write wr) (\<lambda>s. out (hw_inner s)) ?inv"
    by (rule hash_write_sink [OF assms(1,2)])
  let ?m = "bindE (lift_io (write_all (hash_write wr) SIGNATURE_LAYER_MAGIC)) (\<lambda>_. opts_dump (hash_write wr))"
  have p: "sink.prints (\<lambda>s. out (hw_inner s)) ?inv ?m (SIGNATURE_LAYER_MAGIC @ EMPTY_OPTS_SERIALIZATION) 1"
    by (rule sink.prints_bindE [OF hs], rule sink.prints_lift_io [OF hs], rule sink.prints_write_all [OF hs],
        rule sink.prints_opts [OF hs])
  have i: "?inv \<lparr>hw_inner = w0, hw_hash = h0\<rparr>" using assms(3) by (simp add: hashed_winv_def)
  from assms(4) obtain n h where h: "?m \<lparr>hw_inner = w0, hw_hash = h0\<rparr> = (Inr n, h)"
    "s0 = \<lparr>sw_inner = hw_inner h, sw_config = cfg, sw_hash = hw_hash h\<rparr>"
    by (auto simp: sig_writer_new_def split: prod.splits sum.splits)
  from sink.printsD [OF hs p i h(1)]
  have "?inv h \<and> out (hw_inner h) = out w0 @ (SIGNATURE_LAYER_MAGIC @ EMPTY_OPTS_SERIALIZATION)" by simp
  with h(2) show ?thesis by simp
qed

text \<open>Any number of writes through the layer.\<close>

inductive sig_session ::
  "(bytes \<Rightarrow> ('w, io_error, nat) op) \<Rightarrow> ('w, 'g) sig_writer \<Rightarrow> ('w, 'g) sig_writer \<Rightarrow> bytes \<Rightarrow> bool"
  for wr s0 where
  sig_begin: "sig_session wr s0 s0 []"
| sig_writes: "sig_session wr s0 s pt \<Longrightarrow> buf \<noteq> [] \<Longrightarrow> sig_write wr buf s = (Inr k, s') \<Longrightarrow>
    sig_session wr s0 s' (pt @ take k buf)"

lemma sig_session_out:
  assumes "sig_session wr s0 s pt" and "sink wr out winv" and "whole_writes wr winv"
    and "hashed_winv out winv h0 base (sw_inner s0) (sw_hash s0)"
  shows "hashed_winv out winv h0 base (sw_inner s) (sw_hash s) \<and> sw_config s = sw_config s0 \<and>
    out (sw_inner s) = out (sw_inner s0) @ pt"
  using assms(1)
proof induction
  case sig_begin
  then show ?case using assms(4) by simp
next
  case (sig_writes s pt buf k s')
  have "sw_config s' = sw_config s" using sig_writes.hyps(3) by (auto simp: sig_write_def split: prod.splits)
  with sink.write_ok [OF sig_write_sink [OF assms(2,3)] conjunct1 [OF sig_writes.IH] sig_writes.hyps(2,3)] sig_writes.IH
  show ?case by simp
qed

lemma sig_finalize_out:
  assumes P: "sig_ok P" and wf: "sink wrf outf finv" and f: "sig_finalize P fin wrf s = Inr f"
    and h: "hashed_winv out winv h0 base (sw_inner s) (sw_hash s)"
    and fin: "\<And>w f. winv w \<Longrightarrow> fin w = Inr f \<Longrightarrow> finv f \<and> outf f = out w"
  obtains g sigs where "sc_rng (sw_config s) = Inr g"
    "sign_all P (h0 @ drop base (out (sw_inner s))) (sc_keys (sw_config s)) g = Some sigs"
    "outf f = out (sw_inner s) @ sig_tail P sigs"
proof -
  from f obtain f0 u where f0: "fin (sw_inner s) = Inr f0" "sig_write_tail P wrf (sw_config s) (sw_hash s) f0 = (Inr u, f)"
    by (auto simp: sig_finalize_def split: sum.splits prod.splits)
  have "winv (sw_inner s)" "sw_hash s = h0 @ drop base (out (sw_inner s))" using h by (simp_all add: hashed_winv_def)
  with fin [OF _ f0(1)] sink.sig_write_tail_out [OF wf P _ f0(2)] that show thesis by metis
qed

section \<open>The reader on what was written\<close>

context source
begin

lemma parses_signature:
  assumes "sig_ok P" and "signature_wf x"
  shows "parses (mla_signature_deserialize P rd) (enc_signature P x) x"
proof (cases x)
  case (MLAEd25519 b)
  have "parses (bindE (array_deserialize rd ED25519_SIGNATURE_LENGTH) (\<lambda>bs. ret (MLAEd25519 bs))) b (MLAEd25519 b)"
    using assms(2) MLAEd25519 by (intro parses_bindE_ret parses_array) (simp add: ED25519_SIGNATURE_LENGTH_def)
  then show ?thesis
    unfolding MLAEd25519 enc_signature.simps mla_signature_deserialize_def
    by (intro parses_bindE [OF parses_u16]) simp_all
next
  case (MLAMlDsa87 s)
  have l: "ML_DSA87_SIGNATURE_SIZE = length (sp_ml_encode P s)" "sp_ml_decode P (sp_ml_encode P s) = Some s"
    using assms(1) by (simp_all add: sig_ok_def)
  have "parses (bindE (array_deserialize rd ML_DSA87_SIGNATURE_SIZE) (\<lambda>bs.
      bindE (lift_res (ok_or DeserializationError (sp_ml_decode P bs))) (\<lambda>s. ret (MLAMlDsa87 s))))
      (sp_ml_encode P s) (MLAMlDsa87 s)"
    by (rule parses_last [OF parses_array [OF l(1)]], rule parses_skip [OF parses_lift_res parses_ret]) (simp add: l)
  then show ?thesis
    unfolding MLAMlDsa87 enc_signature.simps mla_signature_deserialize_def
    by (intro parses_bindE [OF parses_u16]) simp_all
qed

end

lemma deserialize_signatures_from_ok:
  assumes "sig_ok P"
  shows "list_all signature_wf sigs \<Longrightarrow> cursor_inv c \<Longrightarrow> cur_pos c \<le> length (cur_data c) \<Longrightarrow>
    drop (cur_pos c) (cur_data c) = enc_signatures P sigs \<Longrightarrow> deserialize_signatures_from P c = Inr sigs"
proof (induction sigs arbitrary: c)
  case Nil
  then show ?case by (subst deserialize_signatures_from.simps) (simp add: cursor_left_def enc_signatures_def)
next
  case (Cons x sigs)
  have r: "cur.rest c = enc_signature P x @ enc_signatures P sigs"
    using Cons.prems(4) by (simp add: cur.rest_def enc_signatures_def)
  obtain c' where c: "mla_signature_deserialize P cursor_read c = (Inr x, c')" "cursor_inv c'" "cur_data c' = cur_data c"
    "cur_pos c' = cur_pos c + length (enc_signature P x)" "cur.rest c' = drop (length (enc_signature P x)) (cur.rest c)"
    by (rule cur.yieldsE [OF cur.parsesD [OF cur.parses_signature [OF assms] Cons.prems(2) r]]) (use Cons.prems(1) in simp)
  have r': "drop (cur_pos c') (cur_data c') = enc_signatures P sigs" using c(5) unfolding r by (simp add: cur.rest_def)
  have "length (enc_signature P x @ enc_signatures P sigs) = length (cur_data c) - cur_pos c"
    unfolding r [symmetric] cur.rest_def by simp
  then have "cur_pos c' \<le> length (cur_data c')" using c(3,4) Cons.prems(3) by simp
  from Cons.IH [OF _ c(2) this r'] Cons.prems(1) have "deserialize_signatures_from P c' = Inr sigs" by simp
  moreover have "cursor_left c \<noteq> 0"
    using mla_signature_deserialize_left [OF c(1)] by simp
  ultimately show ?case using c(1) by (subst deserialize_signatures_from.simps) simp
qed

lemma deserialize_signatures_ok:
  assumes "sig_ok P" and "list_all signature_wf sigs" and "length (enc_signatures P sigs) < 2 ^ 63"
  shows "deserialize_signatures P (enc_signatures P sigs) = Inr sigs"
  unfolding deserialize_signatures_def
  by (rule deserialize_signatures_from_ok [OF assms(1,2)]) (use assms(3) in \<open>simp_all add: cursor_inv_def cursor_new_def\<close>)

lemma keys_with_valid_signatures_iff:
  "k \<in> set (keys_with_valid_signatures P h sigs keys) \<longleftrightarrow>
   k \<in> set keys \<and> (\<exists>e. MLAEd25519 e \<in> set sigs \<and> verify_signature P k h (MLAEd25519 e)) \<and>
     (\<exists>m. MLAMlDsa87 m \<in> set sigs \<and> verify_signature P k h (MLAMlDsa87 m))"
proof -
  have "is_traditional x \<longleftrightarrow> (\<exists>e. x = MLAEd25519 e)" "\<not> is_traditional x \<longleftrightarrow> (\<exists>m. x = MLAMlDsa87 m)" for x :: "'b mla_signature"
    by (cases x; simp)+
  then show ?thesis by (auto simp: keys_with_valid_signatures_def list_ex_iff)
qed

text \<open>The signed content starts with a layer magic; an encryption header at its start has to parse.\<close>

definition signed_head :: "'k kem_prims \<Rightarrow> bytes \<Rightarrow> encryption_persistent_config option \<Rightarrow> bool" where
  "signed_head K content config \<longleftrightarrow>
     (case config of
        None \<Rightarrow> 8 \<le> length content \<and> take 8 content \<noteq> ENCRYPTION_LAYER_MAGIC
      | Some pc \<Rightarrow> persistent_wf K pc \<and> (\<exists>t. content = enc_header pc @ t))"


context eof_source
begin

lemma sig_hash_content_ok:
  assumes i: "inv s" and p: "pos s = 0" and l: "length (view s) < 2 ^ 63" and hd: "signed_head K (view s) config"
  shows "\<exists>s'. sig_hash_content K rd s h0 = Some (Inr (config, h0 @ view s, s')) \<and> inv s' \<and> view s' = view s"
proof -
  let ?V = "\<lambda>s. view (hr_inner s)" and ?P = "\<lambda>s. pos (hr_inner s)" and ?I = "hash_inv view pos inv h0 0"
  let ?s = "\<lparr>hr_inner = s, hr_hash = h0\<rparr>"
  have hs: "eof_source (hash_read rd) ?V ?P ?I" by (rule hash_eof_source) (rule eof_source_axioms)
  then have so: "source (hash_read rd) ?V ?P ?I" by (simp add: eof_source_def)
  have i0: "?I ?s" using i p by (simp add: hash_inv_def)
  let ?m = "take 8 (view s)"
  have m: "length ?m = 8"
  proof (cases config)
    case None
    then show ?thesis using hd by (simp add: signed_head_def min_absorb2)
  next
    case (Some pc)
    then obtain t where "view s = enc_header pc @ t" using hd by (auto simp: signed_head_def)
    then show ?thesis by (simp add: enc_header_def)
  qed
  have r: "source.rest ?V ?P ?s = ?m @ drop 8 (view s)" using p by (simp add: source.rest_def [OF so])
  obtain s1 where s1: "read_layer_magic (hash_read rd) ?s = (Inr ?m, s1)" "?I s1" "?V s1 = ?V ?s" "?P s1 = ?P ?s + length ?m"
    by (rule source.yieldsE [OF so source.parsesD [OF so source.parses_read_layer_magic [OF so m] i0 r]])
  have "\<exists>s2. sig_read_head K (hash_read rd) ?s = (Inr config, s2)"
  proof (cases config)
    case None
    then have "?m \<noteq> ENCRYPTION_LAYER_MAGIC" using hd by (simp add: signed_head_def)
    then show ?thesis using s1(1) None by (simp add: sig_read_head_def bindE_def ret_def)
  next
    case (Some pc)
    then obtain t where pc: "persistent_wf K pc" "view s = enc_header pc @ t" using hd by (auto simp: signed_head_def)
    have "?m = ENCRYPTION_LAYER_MAGIC" using pc(2) by (simp add: enc_header_def)
    have "drop (?P s1) (?V s1) = EMPTY_OPTS_SERIALIZATION @ to_le 2 0 @ enc_persistent pc @ t"
      unfolding s1(3,4) m using pc(2) p by (simp add: enc_header_def)
    moreover have "length (?V s1) < 2 ^ 63" using s1(3) l by simp
    ultimately obtain s2 where "read_encryption_header_after_magic K (hash_read rd) s1 =
        (Inr (pc, 3 + length (enc_persistent pc) + 8), s2)"
      using source.read_header_ok [OF so pc(1) s1(2)] by metis
    then show ?thesis using s1(1) Some \<open>?m = _\<close> by (simp add: sig_read_head_def bindE_def ret_def)
  qed
  then obtain s2 where s2: "sig_read_head K (hash_read rd) ?s = (Inr config, s2)" ..
  have "keeps ?I (sig_read_head K (hash_read rd))"
    unfolding sig_read_head_def
    by (intro keep_intros keeps_layer_magic keeps_encryption_header)
      (use eof_source.read_InrD [OF hs] in \<open>auto intro!: keepsI\<close>)
  from keepsD [OF this s2 i0] obtain s3 where "copy_to_sink (hash_read rd) s2 = Some (Inr (), s3)"
    using eof_source.copy_to_sink_ok [OF hs] by blast
  with s2 have h: "sig_hash_content K rd s h0 = Some (Inr (config, hr_hash s3, hr_inner s3))"
    by (simp add: sig_hash_content_def)
  from sig_hash_content_InrD [OF i h p] h show ?thesis by auto
qed

end

context window_seekable
begin

lemma seek_from_end:
  assumes i: "inv s" and v: "view s = a @ b" and b: "length b = n"
  obtains s' where "sk (SeekEnd (- int n)) s = (Inr (length a), s')" "inv s'" "view s' = view s" "rest s' = b"
proof -
  have "seek_target (SeekEnd (- int n)) (pos s) (length (view s)) = int (length a)" "length a \<le> length (view s)"
    using v b by simp_all
  from seek_inE [OF i _ this] obtain s' where "sk (SeekEnd (- int n)) s = (Inr (length a), s')" "inv s'" "view s' = view s"
    "pos s' = length a" by blast
  with v show thesis by (intro that [of s']) (simp_all add: rest_def)
qed

lemma sig_layout_ok:
  assumes i: "inv s" and v: "view s = a @ EMPTY_TAIL_OPTS_SERIALIZATION @ enc_vec (\<lambda>b. [b]) d @ to_le 8 (length d + 8)"
  shows "\<exists>s'. sig_layout rd sk s = (Inr (pos s, d, length d + 25, length (view s)), s') \<and> inv s' \<and> view s' = view s \<and>
    pos s' = pos s"
proof -
  let ?n = "length d"
  have L: "?n + 25 \<le> length (view s)" "length (view s) < 2 ^ 63"
    using v in_window [OF i] by (simp_all add: length_enc_vec EMPTY_TAIL_OPTS_SERIALIZATION_def sum_list_triv o_def)
  then have n: "?n + 25 < 2 ^ 63" by simp
  have ev: "length (enc_vec (\<lambda>b. [b]) d) = 8 + ?n" by (simp add: length_enc_vec sum_list_triv o_def)
  have cur0: "sk (SeekCurrent 0) s = (Inr (pos s), snd (sk (SeekCurrent 0) s)) \<and> inv (snd (sk (SeekCurrent 0) s)) \<and>
      view (snd (sk (SeekCurrent 0) s)) = view s"
    by (rule seek_inE [OF i, of "SeekCurrent 0" "pos s"]) (use in_window [OF i] in simp_all)
  then obtain s1 where s1: "sk (SeekCurrent 0) s = (Inr (pos s), s1)" "inv s1" "view s1 = view s" by metis
  have v1: "view s1 = (a @ EMPTY_TAIL_OPTS_SERIALIZATION @ enc_vec (\<lambda>b. [b]) d) @ to_le 8 (?n + 8)"
    using s1(3) v by simp
  obtain x2 s2 where s2: "sk (SeekEnd (- int 8)) s1 = (Inr x2, s2)" "inv s2" "view s2 = view s1" "rest s2 = to_le 8 (?n + 8) @ []"
    by (rule seek_from_end [OF s1(2) v1, of 8]) (auto intro: that)
  have u: "parses (u64_deserialize rd) (to_le 8 (?n + 8)) (?n + 8)" by (rule parses_u64) (use n in simp)
  obtain s3 where s3: "u64_deserialize rd s2 = (Inr (?n + 8), s3)" "inv s3" "view s3 = view s2"
    by (rule yieldsE [OF parsesD [OF u s2(2,4)]])
  have v3: "view s3 = (a @ EMPTY_TAIL_OPTS_SERIALIZATION) @ (enc_vec (\<lambda>b. [b]) d @ to_le 8 (?n + 8))"
    using s3(3) s2(3) v1 by simp
  obtain x4 s4 where s4: "sk (SeekEnd (- int (?n + 16))) s3 = (Inr x4, s4)" "inv s4" "view s4 = view s3"
    "rest s4 = enc_vec (\<lambda>b. [b]) d @ to_le 8 (?n + 8)"
    by (rule seek_from_end [OF s3(2) v3, of "?n + 16"]) (auto simp: ev intro: that)
  have ln: "?n < 2 ^ 64" using n by simp
  have w: "parses (vec_deserialize rd (u8_deserialize rd)) (enc_vec (\<lambda>b. [b]) d) d"
    by (rule parses_vec [OF parses_u8 ln])
  obtain s5 where s5: "vec_deserialize rd (u8_deserialize rd) s4 = (Inr d, s5)" "inv s5" "view s5 = view s4"
    by (rule yieldsE [OF parsesD [OF w s4(2,4)]])
  have v5: "view s5 = (a @ [0]) @ (to_le 8 1 @ enc_vec (\<lambda>b. [b]) d @ to_le 8 (?n + 8))"
    using s5(3) s4(3) v3 by (simp add: tail_opts_split)
  obtain x6 s6 where s6: "sk (SeekEnd (- int (?n + 24))) s5 = (Inr x6, s6)" "inv s6" "view s6 = view s5"
    "rest s6 = to_le 8 1 @ enc_vec (\<lambda>b. [b]) d @ to_le 8 (?n + 8)"
    by (rule seek_from_end [OF s5(2) v5, of "?n + 24"]) (auto simp: ev intro: that)
  have o: "parses (u64_deserialize rd) (to_le 8 1) 1" by (rule parses_u64) simp
  obtain s7 where s7: "u64_deserialize rd s6 = (Inr 1, s7)" "inv s7" "view s7 = view s6"
    by (rule yieldsE [OF parsesD [OF o s6(2,4)]])
  have v7: "view s7 = view s" using s7(3) s6(3) s5(3) s4(3) s3(3) s2(3) s1(3) by simp
  obtain s8 where s8: "sk (SeekEnd 0) s7 = (Inr (length (view s7)), s8)" "inv s8" "view s8 = view s7"
    by (rule seek_inE [OF s7(2), of "SeekEnd 0" "length (view s7)"]) simp_all
  have ps: "pos s \<le> length (view s8)" using in_window [OF i] s8(3) v7 by simp
  obtain s9 where s9: "sk (SeekStart (pos s)) s8 = (Inr (pos s), s9)" "inv s9" "view s9 = view s8" "pos s9 = pos s"
    by (rule seek_inE [OF s8(2) _ _ ps, of "SeekStart (pos s)"]) simp_all
  have c: "checked_add 8 (?n + 8) = Some (?n + 16)" "checked_sub_unsigned 0 (?n + 16) = Some (- int (?n + 16))"
    "checked_add (?n + 16) 8 = Some (?n + 24)" "checked_sub_unsigned 0 (?n + 24) = Some (- int (?n + 24))"
    "checked_add (?n + 24) 1 = Some (?n + 25)"
    using n by (simp_all add: checked_add_def checked_sub_unsigned_def)
  have e: "sk (SeekEnd (- 8)) s1 = (Inr x2, s2)" using s2(1) by simp
  have "sig_layout rd sk s = (Inr (pos s, d, ?n + 25, length (view s7)), s9)"
    unfolding sig_layout_def stream_position_def
    by (simp only: bindE_def lift_io_def map_errE_def lift_res_def ret_def prod.case sum.case c ok_or_Some
        s1(1) e s3(1) s4(1) s5(1) s6(1) s7(1) s8(1) s9(1))
  with s9 v7 s8(3) show ?thesis by auto
qed

lemma sig_reader_new_ok:
  assumes P: "sig_ok P" and i: "inv r" and v: "view r = sig_layer P sigs content" and p: "pos r = 8"
    and hd: "signed_head K content config" and c: "src_check cfg" and wf: "list_all signature_wf sigs"
    and k: "k \<in> set (keys_with_valid_signatures P (h0 @ EMPTY_OPTS_SERIALIZATION @ content) sigs (src_keys cfg))"
  shows "\<exists>s. sig_reader_new_skip_magic P K rd sk (ret ()) cfg h0 r =
      Some (Inr (s, keys_with_valid_signatures P (h0 @ EMPTY_OPTS_SERIALIZATION @ content) sigs (src_keys cfg), config)) \<and>
    strip_inv view pos inv s \<and> strip_view view s = content \<and> sr_pos s = 0"
proof -
  let ?d = "enc_signatures P sigs" and ?h = "h0 @ EMPTY_OPTS_SERIALIZATION"
  let ?tail = "EMPTY_TAIL_OPTS_SERIALIZATION @ enc_vec (\<lambda>b. [b]) ?d @ to_le 8 (length ?d + 8)"
  let ?V = "\<lambda>s. view (hr_inner s)" and ?P = "\<lambda>s. pos (hr_inner s)" and ?I = "hash_inv view pos inv h0 8"
  have so: "source (hash_read rd) ?V ?P ?I" by (rule hash_source) (rule source_axioms)
  have oe: "EMPTY_OPTS_SERIALIZATION = [0]" by (simp add: EMPTY_OPTS_SERIALIZATION_def)
  have vv: "view r = SIGNATURE_LAYER_MAGIC @ EMPTY_OPTS_SERIALIZATION @ content @ ?tail"
    using v by (simp add: sig_layer_def sig_tail_def)
  have ml: "length SIGNATURE_LAYER_MAGIC = 8" by (simp add: SIGNATURE_LAYER_MAGIC_def)
  let ?s = "\<lparr>hr_inner = r, hr_hash = h0\<rparr>"
  have i0: "?I ?s" using i p by (simp add: hash_inv_def)
  have rst: "source.rest ?V ?P ?s = EMPTY_OPTS_SERIALIZATION @ content @ ?tail"
    using p ml vv by (simp add: source.rest_def [OF so])
  obtain s1 where s1: "opts_from_reader (hash_read rd) ?s = (Inr (), s1)" "?I s1" "?V s1 = ?V ?s"
    "?P s1 = ?P ?s + length EMPTY_OPTS_SERIALIZATION"
    by (rule source.yieldsE [OF so source.parsesD [OF so source.parses_opts [OF so] i0 rst]])
  have p1: "pos (hr_inner s1) = 9" "inv (hr_inner s1)" "view (hr_inner s1) = view r" "hr_hash s1 = ?h"
    using s1(2,3,4) p ml vv by (simp_all add: hash_inv_def oe)
  have "view (hr_inner s1) = (SIGNATURE_LAYER_MAGIC @ EMPTY_OPTS_SERIALIZATION @ content) @ ?tail"
    using p1(3) vv by simp
  from sig_layout_ok [OF p1(2) this] obtain s2 where
    s2: "sig_layout rd sk (hr_inner s1) = (Inr (9, ?d, length ?d + 25, length (view r)), s2)" "inv s2" "view s2 = view r"
    "pos s2 = 9" using p1(1,3) by auto
  have l: "length (view r) = 9 + length content + (length ?d + 25)" "length (view r) < 2 ^ 63"
    using vv ml in_window [OF i] by (simp_all add: oe length_enc_vec EMPTY_TAIL_OPTS_SERIALIZATION_def sum_list_triv o_def)
  let ?st = "\<lparr>sr_inner = s2, sr_head_len = 9, sr_tail_len = length ?d + 25, sr_inner_len = length (view r), sr_pos = 0\<rparr>"
  have "9 + (length ?d + 25) < 2 ^ 63" "9 + (length ?d + 25) \<le> length (view r)" using l by simp_all
  then have st: "strip_reader_new s2 9 (length ?d + 25) (length (view r)) 0 = Inr ?st"
    by (simp add: strip_reader_new_def checked_add_def)
  have sv: "strip_inv view pos inv ?st" "strip_view view ?st = content"
    using s2(2-4) l ml vv by (simp_all add: strip_inv_def strip_view_def oe)
  have ws: "window_seekable (strip_read rd) (strip_view view) sr_pos (strip_inv view pos inv) (strip_seek sk)"
    by (rule strip_window_seekable)
  then have es: "eof_source (strip_read rd) (strip_view view) sr_pos (strip_inv view pos inv)"
    and cs: "closed_seekable (strip_read rd) (strip_view view) sr_pos (strip_inv view pos inv) (strip_seek sk)"
    by (simp_all add: window_seekable_def closed_seekable_def)
  have hc: "length (strip_view view ?st) < 2 ^ 63" "signed_head K (strip_view view ?st) config"
    unfolding sv(2) using l hd by simp_all
  obtain s3 where s3: "sig_hash_content K (strip_read rd) ?st ?h = Some (Inr (config, ?h @ content, s3))"
    "strip_inv view pos inv s3" "strip_view view s3 = content"
    using eof_source.sig_hash_content_ok [OF es sv(1) _ hc, of ?h] unfolding sv(2) by auto
  obtain s4 where s4: "strip_seek sk (SeekStart 0) s3 = (Inr 0, s4)" "strip_inv view pos inv s4" "strip_view view s4 = content"
    "sr_pos s4 = 0"
    using closed_seekable.seek_in [OF cs s3(2), of "SeekStart 0" 0] s3(3) by auto
  have ld: "length ?d < 2 ^ 63" using l by simp
  let ?keys = "keys_with_valid_signatures P (h0 @ EMPTY_OPTS_SERIALIZATION @ content) sigs (src_keys cfg)"
  have "?keys \<noteq> []" using k by auto
  then have "sig_reader_new_skip_magic P K rd sk (ret ()) cfg h0 r = Some (Inr (s4, ?keys, config))"
    using s1(1) s2(1) st c s3(1) s4(1) deserialize_signatures_ok [OF P wf ld] p1(4)
    by (simp add: sig_reader_new_skip_magic_def ret_def rewind_def bindE_def lift_io_def map_errE_def Let_def)
  with s4 show ?thesis by blast
qed

end


section \<open>Properties\<close>

text \<open>C22: nothing is read that was not signed. Whatever the bytes below the layer are, if a reader is made
  while signatures are checked, the keys it reports are keys of its configuration, there is at least one, and
  for each of them the archive holds both an Ed25519 and an ML-DSA signature that verify on the digest of
  exactly these bytes: the archive header and magic hashed before, the options of the layer, and all the bytes
  the layer gives access to. The reader stands at the start of that window.\<close>

theorem signature_covers_content:
  assumes "window_seekable rd view pos rinv sk" and "rinv r" and "src_check cfg"
    and "sig_reader_new_skip_magic P K rd sk (ret ()) cfg h0 r = Some (Inr (s, keys, config))"
  shows "strip_inv view pos rinv s \<and> sr_pos s = 0 \<and> keys \<noteq> [] \<and> set keys \<subseteq> set (src_keys cfg) \<and>
    (\<exists>opts tail data sigs. drop (pos r) (view r) = opts @ strip_view view s @ tail \<and>
       (\<exists>xs ys. view r = xs @ data @ ys) \<and> deserialize_signatures P data = Inr sigs \<and>
       (\<forall>key\<in>set keys. let digest = sp_sha512 P (h0 @ opts @ strip_view view s) in
          (\<exists>e. MLAEd25519 e \<in> set sigs \<and> sp_ed_verify P (vk_ed25519 key) digest e) \<and>
          (\<exists>m. MLAMlDsa87 m \<in> set sigs \<and> sp_ml_verify P (vk_mldsa87 key) digest MLDSA87_CONTEXT m)))"
proof -
  have es: "eof_source rd view pos rinv" and cs: "closed_seekable rd view pos rinv sk"
    using assms(1) by (simp_all add: window_seekable_def closed_seekable_def)
  let ?V = "\<lambda>s. view (hr_inner s)" and ?P = "\<lambda>s. pos (hr_inner s)" and ?I = "hash_inv view pos rinv h0 (pos r)"
  have hs: "eof_source (hash_read rd) ?V ?P ?I" by (rule hash_eof_source [OF es])
  from assms(3,4) obtain h p data tail_len len s2 st signed_hash s3 s4 sigs where
    o: "opts_from_reader (hash_read rd) \<lparr>hr_inner = r, hr_hash = h0\<rparr> = (Inr (), h)"
    and l: "sig_layout rd sk (hr_inner h) = (Inr (p, data, tail_len, len), s2)"
    and st: "strip_reader_new s2 p tail_len len 0 = Inr st"
    and c: "sig_hash_content K (strip_read rd) st (hr_hash h) = Some (Inr (config, signed_hash, s3))"
    and rw: "lift_io (rewind (strip_seek sk)) s3 = (Inr (), s4)"
    and ds: "deserialize_signatures P data = Inr sigs" "s = s4"
    and ks: "keys = keys_with_valid_signatures P signed_hash sigs (src_keys cfg)" "keys \<noteq> []"
    by (auto simp: sig_reader_new_skip_magic_def ret_def Let_def split: prod.splits sum.splits if_splits option.splits)
  have "?I \<lparr>hr_inner = r, hr_hash = h0\<rparr> \<and> ?V \<lparr>hr_inner = r, hr_hash = h0\<rparr> = view r"
    using assms(2) by (simp add: hash_inv_def)
  from keepsD [OF keeps_opts [OF eof_source.keeps_view [OF hs]] o this]
  have h: "?I h" "view (hr_inner h) = view r" by simp_all
  have hi: "rinv (hr_inner h)" using h(1) by (simp add: hash_inv_def)
  from window_seekable.sig_layout_InrD [OF assms(1) hi l] h(2)
  have s2: "p = pos (hr_inner h)" "len = length (view r)" "rinv s2" "view s2 = view r" "pos s2 = p"
    "\<exists>xs ys. view r = xs @ data @ ys" by auto
  have hash: "hr_hash h = h0 @ take (p - pos r) (drop (pos r) (view r))"
    using h s2(1) by (simp add: hash_inv_def)
  have "length (view r) < 2 ^ 63" using window_seekable.in_window [OF assms(1) assms(2)] by simp
  then have sv: "strip_inv view pos rinv st" "sr_pos st = 0" "sr_head_len st = p" "sr_inner st = s2"
    using st s2 by (auto simp: strip_reader_new_def strip_inv_def checked_add_def split: if_splits)
  have ws: "window_seekable (strip_read rd) (strip_view view) sr_pos (strip_inv view pos rinv) (strip_seek sk)"
    by (rule closed_seekable.strip_window_seekable [OF cs])
  then have ess: "eof_source (strip_read rd) (strip_view view) sr_pos (strip_inv view pos rinv)"
    by (simp add: window_seekable_def closed_seekable_def)
  from eof_source.sig_hash_content_InrD [OF ess sv(1) c sv(2)]
  have s3: "strip_inv view pos rinv s3" "strip_view view s3 = strip_view view st"
    "signed_hash = hr_hash h @ strip_view view st" by simp_all
  obtain q where "strip_seek sk (SeekStart 0) s3 = (Inr q, s4)"
    using lift_io_InrD [OF rw] by (auto simp: rewind_def ret_def elim!: bindE_InrE)
  from window_seekable.seek_InrD [OF ws s3(1) this] s3(2)
  have s4: "strip_inv view pos rinv s4" "strip_view view s4 = strip_view view st" "sr_pos s4 = 0" by auto
  let ?opts = "take (p - pos r) (drop (pos r) (view r))" and ?w = "strip_view view st"
  have pp: "pos r \<le> p" using h(1) s2(1) by (simp add: hash_inv_def)
  have w: "?w = take (length ?w) (drop p (view r))"
    using s2(4) sv(3,4) by (simp add: strip_view_def min_def)
  have "drop (pos r) (view r) = ?opts @ drop p (view r)"
    using append_take_drop_id [of "p - pos r" "drop (pos r) (view r)", symmetric] pp by simp
  also have "drop p (view r) = ?w @ drop (length ?w) (drop p (view r))"
    using append_take_drop_id [of "length ?w" "drop p (view r)"] w by simp
  finally have d: "drop (pos r) (view r) = ?opts @ ?w @ drop (length ?w) (drop p (view r))" .
  have sh: "signed_hash = h0 @ ?opts @ ?w" using s3(3) hash by simp
  have key: "let digest = sp_sha512 P (h0 @ ?opts @ ?w) in
          (\<exists>e. MLAEd25519 e \<in> set sigs \<and> sp_ed_verify P (vk_ed25519 key) digest e) \<and>
          (\<exists>m. MLAMlDsa87 m \<in> set sigs \<and> sp_ml_verify P (vk_mldsa87 key) digest MLDSA87_CONTEXT m)"
    if "key \<in> set keys" for key
    using that unfolding ks(1) keys_with_valid_signatures_iff sh Let_def verify_signature_def by simp
  have "set keys \<subseteq> set (src_keys cfg)" unfolding ks(1) by (auto simp: keys_with_valid_signatures_iff)
  moreover have "\<exists>opts tail data sigs. drop (pos r) (view r) = opts @ ?w @ tail \<and>
       (\<exists>xs ys. view r = xs @ data @ ys) \<and> deserialize_signatures P data = Inr sigs \<and>
       (\<forall>key\<in>set keys. let digest = sp_sha512 P (h0 @ opts @ ?w) in
          (\<exists>e. MLAEd25519 e \<in> set sigs \<and> sp_ed_verify P (vk_ed25519 key) digest e) \<and>
          (\<exists>m. MLAMlDsa87 m \<in> set sigs \<and> sp_ml_verify P (vk_mldsa87 key) digest MLDSA87_CONTEXT m))"
    using d s2(6) ds(1) key by blast
  ultimately show ?thesis using s4 ks(2) ds(2) by simp
qed


text \<open>C23: what is written through the signature layer, over a destination that takes whole buffers (as a \<^verbatim>\<open>Vec\<close>
  does, and \<^verbatim>\<open>Write\<close> does not promise), and finalized is accepted and read back. The reader
  hashes the layer magic after the archive header \<open>h0\<close>, finds the content, reports every key that signed and
  is in its configuration, and returns the encryption configuration it found at the start of the content.
  It never runs for ever. The destination has to take whole buffers because the digest is fed them whole: over one
  that takes a part, the rest is hashed a second time when it is written again, and the signature is wrong.\<close>

theorem signed_layer_roundtrip:
  assumes "sig_ok P" and "sink wr out winv" and "whole_writes wr winv" and "winv w0"
    and "sig_writer_new wr w0 scfg h0 = Inr s0" and "sig_session wr s0 s content"
    and "sink wrf outf finv" and "\<forall>w f. winv w \<longrightarrow> fin w = Inr f \<longrightarrow> finv f \<and> outf f = out w"
    and "sig_finalize P fin wrf s = Inr f"
    and "window_seekable rd view pos rinv sk" and "rinv r" and "outf f = out w0 @ view r" and "pos r = 0"
    and "signed_head K content config" and "src_check rcfg"
    and "k \<in> set (sc_keys scfg)" and "verification_key_of P k \<in> set (src_keys rcfg)"
  shows "\<exists>r1 s keys. read_layer_magic (hash_read rd) \<lparr>hr_inner = r, hr_hash = h0\<rparr> =
      (Inr SIGNATURE_LAYER_MAGIC, \<lparr>hr_inner = r1, hr_hash = h0 @ SIGNATURE_LAYER_MAGIC\<rparr>) \<and>
    sig_reader_new_skip_magic P K rd sk (ret ()) rcfg (h0 @ SIGNATURE_LAYER_MAGIC) r1 = Some (Inr (s, keys, config)) \<and>
    strip_inv view pos rinv s \<and> strip_view view s = content \<and> sr_pos s = 0 \<and>
    verification_key_of P k \<in> set keys \<and> set keys \<subseteq> set (src_keys rcfg)"
proof -
  have fin: "\<And>w f. winv w \<Longrightarrow> fin w = Inr f \<Longrightarrow> finv f \<and> outf f = out w" using assms(8) by blast
  from sig_writer_new_ok [OF assms(2-5)] have s0: "hashed_winv out winv h0 (length (out w0)) (sw_inner s0) (sw_hash s0)"
    "sw_config s0 = scfg" "out (sw_inner s0) = out w0 @ SIGNATURE_LAYER_MAGIC @ EMPTY_OPTS_SERIALIZATION" by simp_all
  from sig_session_out [OF assms(6,2,3) s0(1)] s0(2,3) have s: "hashed_winv out winv h0 (length (out w0)) (sw_inner s) (sw_hash s)"
    "sw_config s = scfg" "out (sw_inner s) = out w0 @ SIGNATURE_LAYER_MAGIC @ EMPTY_OPTS_SERIALIZATION @ content" by simp_all
  let ?h = "(h0 @ SIGNATURE_LAYER_MAGIC) @ EMPTY_OPTS_SERIALIZATION @ content"
  obtain g sigs where f: "sign_all P ?h (sc_keys scfg) g = Some sigs" "outf f = out (sw_inner s) @ sig_tail P sigs"
    by (rule sig_finalize_out [OF assms(1,7,9) s(1) fin]) (use s(2,3) in simp_all)
  have v: "view r = sig_layer P sigs content" using f(2) s(3) assms(12) by (simp add: sig_layer_def)
  from sign_all_facts [OF assms(1) f(1)] have wf: "list_all signature_wf sigs"
    and ks: "verification_key_of P k \<in> set (keys_with_valid_signatures P ?h sigs (src_keys rcfg))"
    using assms(16,17) unfolding keys_with_valid_signatures_iff by blast+
  have cs: "closed_seekable rd view pos rinv sk" using assms(10) by (simp add: window_seekable_def)
  then have es: "eof_source rd view pos rinv" by (simp add: closed_seekable_def)
  then have so: "source rd view pos rinv" by (simp add: eof_source_def)
  let ?V = "\<lambda>s. view (hr_inner s)" and ?P = "\<lambda>s. pos (hr_inner s)" and ?I = "hash_inv view pos rinv h0 0"
  have hs: "source (hash_read rd) ?V ?P ?I" by (rule hash_source [OF so])
  let ?s = "\<lparr>hr_inner = r, hr_hash = h0\<rparr>"
  have i0: "?I ?s" using assms(11,13) by (simp add: hash_inv_def)
  have ml: "length SIGNATURE_LAYER_MAGIC = 8" by (simp add: SIGNATURE_LAYER_MAGIC_def)
  have rst: "source.rest ?V ?P ?s = SIGNATURE_LAYER_MAGIC @ EMPTY_OPTS_SERIALIZATION @ content @ sig_tail P sigs"
    using assms(13) v by (simp add: source.rest_def [OF hs] sig_layer_def)
  obtain h where h: "read_layer_magic (hash_read rd) ?s = (Inr SIGNATURE_LAYER_MAGIC, h)" "?I h" "?V h = ?V ?s"
    "?P h = ?P ?s + length SIGNATURE_LAYER_MAGIC"
    by (rule source.yieldsE [OF hs source.parsesD [OF hs source.parses_read_layer_magic [OF hs ml] i0 rst]])
  have r1: "rinv (hr_inner h)" "view (hr_inner h) = sig_layer P sigs content" "pos (hr_inner h) = 8"
    "hr_hash h = h0 @ SIGNATURE_LAYER_MAGIC"
    using h(2-4) assms(13) v ml by (simp_all add: hash_inv_def sig_layer_def)
  then have he: "h = \<lparr>hr_inner = hr_inner h, hr_hash = h0 @ SIGNATURE_LAYER_MAGIC\<rparr>" by simp
  from window_seekable.sig_reader_new_ok [OF assms(10,1) r1(1-3) assms(14,15) wf ks] obtain s' where
    s': "sig_reader_new_skip_magic P K rd sk (ret ()) rcfg (h0 @ SIGNATURE_LAYER_MAGIC) (hr_inner h) =
      Some (Inr (s', keys_with_valid_signatures P ?h sigs (src_keys rcfg), config))"
    "strip_inv view pos rinv s'" "strip_view view s' = content" "sr_pos s' = 0" by blast
  have "set (keys_with_valid_signatures P ?h sigs (src_keys rcfg)) \<subseteq> set (src_keys rcfg)"
    by (auto simp: keys_with_valid_signatures_iff)
  with s' ks h(1) he show ?thesis by metis
qed

text \<open>Signatures that only look at the key: enough to run the code.\<close>

definition demo_sig :: "(unit, unit) sig_prims" where
  "demo_sig = \<lparr>sp_sha512 = id, sp_ed_public = id, sp_ed_sign = (\<lambda>k m. replicate 64 (hd (k @ [0]))),
     sp_ed_verify = (\<lambda>k m s. s = replicate 64 (hd (k @ [0]))), sp_ml_public = id,
     sp_ml_sign = (\<lambda>k m c g. (Some (), g)), sp_ml_verify = (\<lambda>k m c s. True),
     sp_ml_encode = (\<lambda>s. replicate 4627 0), sp_ml_decode = (\<lambda>b. Some ())\<rparr>"

definition demo_signing_key :: signing_private_key where
  "demo_signing_key = \<lparr>sk_ed25519 = [7], sk_seed_mldsa = [9]\<rparr>"

lemma demo_sig_ok: "sig_ok demo_sig"
  by (simp add: sig_ok_def demo_sig_def ED25519_SIGNATURE_LENGTH_def ML_DSA87_SIGNATURE_SIZE_def)

definition demo_content :: bytes where "demo_content = [1, 2, 3, 4, 5, 6, 7, 8, 9]"

lemma demo_session:
  obtains s0 s f where
    "sig_writer_new vec_write [] \<lparr>sc_keys = [demo_signing_key], sc_rng = Inr ()\<rparr> h0 = Inr s0"
    "sig_session vec_write s0 s demo_content" "sig_finalize demo_sig Inr vec_write s = Inr f" "length f < 2 ^ 62"
proof -
  let ?c = "\<lparr>sc_keys = [demo_signing_key], sc_rng = Inr ()\<rparr>"
  have hw: "write_all (hash_write vec_write) bs s = (Inr (), \<lparr>hw_inner = hw_inner s @ bs, hw_hash = hw_hash s @ bs\<rparr>)"
    for bs and s :: "bytes hash_writer"
    by (cases "bs = []") (auto simp: write_all.simps hash_write_def vec_write_def)
  let ?u = "\<lparr>sw_inner = SIGNATURE_LAYER_MAGIC @ EMPTY_OPTS_SERIALIZATION, sw_config = ?c,
      sw_hash = h0 @ SIGNATURE_LAYER_MAGIC @ EMPTY_OPTS_SERIALIZATION\<rparr>"
  have n: "sig_writer_new vec_write [] ?c h0 = Inr ?u"
    by (simp add: sig_writer_new_def opts_dump_def io_simps hw bindE_def)
  let ?t = "\<lparr>sw_inner = SIGNATURE_LAYER_MAGIC @ EMPTY_OPTS_SERIALIZATION @ demo_content, sw_config = ?c,
      sw_hash = h0 @ SIGNATURE_LAYER_MAGIC @ EMPTY_OPTS_SERIALIZATION @ demo_content\<rparr>"
  have "sig_write vec_write demo_content ?u = (Inr 9, ?t)"
    by (simp add: sig_write_def vec_write_def demo_content_def)
  from sig_writes [OF sig_begin _ this] have ses: "sig_session vec_write ?u ?t demo_content"
    by (simp add: demo_content_def)
  have "\<exists>f. sig_finalize demo_sig Inr vec_write ?t = Inr f \<and> length f < 2 ^ 62"
    by (simp add: sig_finalize_def sig_write_tail_def bindE_def io_simps signature_data_size_eq u64_serialize_def
        ed25519_signature_serialize_def mldsa87_signature_serialize_def u16_serialize_def sign_ed25519_def
        sign_mldsa87_def checked_add_def demo_sig_def)
      (simp add: SIGNATURE_LAYER_MAGIC_def EMPTY_OPTS_SERIALIZATION_def EMPTY_TAIL_OPTS_SERIALIZATION_def demo_content_def)
  with n ses that show thesis by blast
qed

abbreviation demo_window :: "bytes \<Rightarrow> cursor raw_reader strip_reader" where
  "demo_window bs \<equiv> \<lparr>sr_inner = \<lparr>rr_inner = cursor_new bs, rr_offset_pos = 0\<rparr>, sr_head_len = 0, sr_tail_len = 0,
     sr_inner_len = length bs, sr_pos = 0\<rparr>"

lemma demo_window:
  assumes "length bs < 2 ^ 62"
  shows "strip_inv (raw_view cur_data) (raw_pos cur_pos) (raw_inv cur_data cur_pos cursor_inv) (demo_window bs)"
    and "strip_view (raw_view cur_data) (demo_window bs) = bs"
proof -
  have "length bs < 2 ^ 63" using assms by simp
  then show "strip_inv (raw_view cur_data) (raw_pos cur_pos) (raw_inv cur_data cur_pos cursor_inv) (demo_window bs)"
    by (simp add: strip_inv_def raw_inv_def raw_view_def raw_pos_def cursor_inv_def cursor_new_def)
  show "strip_view (raw_view cur_data) (demo_window bs) = bs"
    by (simp add: strip_view_def raw_view_def cursor_new_def)
qed

theorem signed_layer_roundtrip_witness:
  "\<exists>s0 s f r1 s' keys.
    sig_writer_new vec_write [] \<lparr>sc_keys = [demo_signing_key], sc_rng = Inr ()\<rparr> [4] = Inr s0 \<and>
    sig_session vec_write s0 s demo_content \<and> sig_finalize demo_sig Inr vec_write s = Inr f \<and>
    read_layer_magic (hash_read (strip_read (raw_read cursor_read))) \<lparr>hr_inner = demo_window f, hr_hash = [4]\<rparr> =
      (Inr SIGNATURE_LAYER_MAGIC, \<lparr>hr_inner = r1, hr_hash = [4] @ SIGNATURE_LAYER_MAGIC\<rparr>) \<and>
    sig_reader_new_skip_magic demo_sig demo_kem (strip_read (raw_read cursor_read)) (strip_seek (raw_seek cursor_seek))
      (ret ()) \<lparr>src_keys = [verification_key_of demo_sig demo_signing_key], src_check = True\<rparr>
      ([4] @ SIGNATURE_LAYER_MAGIC) r1 = Some (Inr (s', keys, None)) \<and>
    verification_key_of demo_sig demo_signing_key \<in> set keys"
proof -
  let ?c = "\<lparr>sc_keys = [demo_signing_key], sc_rng = Inr ()\<rparr>"
  let ?rc = "\<lparr>src_keys = [verification_key_of demo_sig demo_signing_key], src_check = True\<rparr>"
  obtain s0 s f where a: "sig_writer_new vec_write [] ?c [4] = Inr s0"
    "sig_session vec_write s0 s demo_content" "sig_finalize demo_sig Inr vec_write s = Inr f" "length f < 2 ^ 62"
    by (rule demo_session)
  note w = demo_window [OF a(4)]
  have fin: "\<forall>w f. True \<longrightarrow> (Inr w :: error + bytes) = Inr f \<longrightarrow> True \<and> f = w" by simp
  have v: "f = [] @ strip_view (raw_view cur_data) (demo_window f)" using w(2) by simp
  have p: "sr_pos (demo_window f) = 0" by simp
  have hd: "signed_head demo_kem demo_content None"
    by (simp add: signed_head_def demo_content_def ENCRYPTION_LAYER_MAGIC_def ascii_def)
  have k: "demo_signing_key \<in> set (sc_keys ?c)" "verification_key_of demo_sig demo_signing_key \<in> set (src_keys ?rc)"
    "src_check ?rc" by simp_all
  from signed_layer_roundtrip [OF demo_sig_ok vec.sink_axioms whole_writes_vec TrueI a(1,2) vec.sink_axioms fin a(3)
      cur_strip.window_seekable_axioms w(1) v p hd k(3,1,2)] a(1-3) show ?thesis by blast
qed

theorem signature_covers_content_witness:
  "\<exists>f s' keys.
    sig_reader_new_skip_magic demo_sig demo_kem (strip_read (raw_read cursor_read)) (strip_seek (raw_seek cursor_seek))
      (ret ()) \<lparr>src_keys = [verification_key_of demo_sig demo_signing_key], src_check = True\<rparr> [] f =
        Some (Inr (s', keys, None)) \<and> sr_pos s' = 0 \<and> keys \<noteq> []"
proof -
  let ?c = "\<lparr>sc_keys = [demo_signing_key], sc_rng = Inr ()\<rparr>"
  let ?rc = "\<lparr>src_keys = [verification_key_of demo_sig demo_signing_key], src_check = True\<rparr>"
  let ?h = "[] @ EMPTY_OPTS_SERIALIZATION @ demo_content"
  let ?sigs = "[MLAEd25519 (sign_ed25519 demo_sig demo_signing_key ?h), MLAMlDsa87 ()]"
  have sa: "sign_all demo_sig ?h [demo_signing_key] () = Some ?sigs"
    by (simp add: sign_mldsa87_def demo_sig_def)
  from sign_all_facts [OF demo_sig_ok sa] have wf: "list_all signature_wf ?sigs" "length (enc_signatures demo_sig ?sigs) = 4695"
    and k: "verification_key_of demo_sig demo_signing_key \<in> set (keys_with_valid_signatures demo_sig ?h ?sigs (src_keys ?rc))"
    unfolding keys_with_valid_signatures_iff by auto
  let ?l = "sig_layer demo_sig ?sigs demo_content"
  have l: "length ?l < 2 ^ 62"
    using wf(2) by (simp add: sig_layer_def sig_tail_def length_enc_vec sum_list_triv o_def demo_content_def
        SIGNATURE_LAYER_MAGIC_def EMPTY_OPTS_SERIALIZATION_def EMPTY_TAIL_OPTS_SERIALIZATION_def)
  note w = demo_window [OF l]
  obtain r where r: "strip_seek (raw_seek cursor_seek) (SeekStart 8) (demo_window ?l) = (Inr 8, r)"
    "strip_inv (raw_view cur_data) (raw_pos cur_pos) (raw_inv cur_data cur_pos cursor_inv) r"
    "strip_view (raw_view cur_data) r = ?l" "sr_pos r = 8"
    using cur_strip.seek_in [OF w(1), of "SeekStart 8" 8] w(2)
    by (auto simp: sig_layer_def SIGNATURE_LAYER_MAGIC_def)
  have hd: "signed_head demo_kem demo_content None"
    by (simp add: signed_head_def demo_content_def ENCRYPTION_LAYER_MAGIC_def ascii_def)
  have c: "src_check ?rc" by simp
  from cur_strip.sig_reader_new_ok [OF demo_sig_ok r(2-4) hd c wf(1) k] obtain s' where
    s': "sig_reader_new_skip_magic demo_sig demo_kem (strip_read (raw_read cursor_read)) (strip_seek (raw_seek cursor_seek))
      (ret ()) ?rc [] r = Some (Inr (s', keys_with_valid_signatures demo_sig ?h ?sigs (src_keys ?rc), None))" by blast
  from signature_covers_content [OF cur_strip.window_seekable_axioms r(2) c s'] s' show ?thesis by blast
qed

end
