(* ===== verification/Config.thy ===== *)
theory Config
  imports SignatureLayer EncryptLayer CompressReader
begin

text \<open>
  The configurations of writers and readers (\<^verbatim>\<open>mla/src/config.rs\<close>), with the constructors clients build
  them with. \<open>'g\<close> is the state of a random generator.
\<close>

section \<open>Writing\<close>

record 'g archive_writer_config =
  wcfg_compression :: "compression_config option"
  wcfg_encryption :: "encryption_public_key list option"
  wcfg_signature :: "'g signature_config option"

definition writer_with_encryption_with_signature ::
  "encryption_public_key list \<Rightarrow> signing_private_key list \<Rightarrow> error + 'g \<Rightarrow>
   config_error + 'g archive_writer_config" where
  "writer_with_encryption_with_signature encryption_public_keys signing_private_keys rng =
     (case encryption_config_new encryption_public_keys of
        Inl e \<Rightarrow> Inl e
      | Inr encryption \<Rightarrow>
          (case signature_config_new signing_private_keys rng of
             Inl e \<Rightarrow> Inl e
           | Inr signature \<Rightarrow>
               Inr \<lparr>wcfg_compression = Some compression_config_default, wcfg_encryption = Some encryption,
                    wcfg_signature = Some signature\<rparr>))"

definition writer_with_encryption_without_signature ::
  "encryption_public_key list \<Rightarrow> config_error + 'g archive_writer_config" where
  "writer_with_encryption_without_signature encryption_public_keys =
     (case encryption_config_new encryption_public_keys of
        Inl e \<Rightarrow> Inl e
      | Inr encryption \<Rightarrow>
          Inr \<lparr>wcfg_compression = Some compression_config_default, wcfg_encryption = Some encryption,
               wcfg_signature = None\<rparr>)"

definition writer_without_encryption_with_signature ::
  "signing_private_key list \<Rightarrow> error + 'g \<Rightarrow> config_error + 'g archive_writer_config" where
  "writer_without_encryption_with_signature signing_private_keys rng =
     (case signature_config_new signing_private_keys rng of
        Inl e \<Rightarrow> Inl e
      | Inr signature \<Rightarrow>
          Inr \<lparr>wcfg_compression = Some compression_config_default, wcfg_encryption = None,
               wcfg_signature = Some signature\<rparr>)"

definition writer_without_encryption_without_signature :: "config_error + 'g archive_writer_config" where
  "writer_without_encryption_without_signature =
     Inr \<lparr>wcfg_compression = Some compression_config_default, wcfg_encryption = None, wcfg_signature = None\<rparr>"

definition with_compression_level ::
  "nat \<Rightarrow> 'g archive_writer_config \<Rightarrow> config_error + 'g archive_writer_config" where
  "with_compression_level compression_level c =
     (case set_compression_level compression_level
             (case wcfg_compression c of Some cc \<Rightarrow> cc | None \<Rightarrow> compression_config_default) of
        (Inl e, _) \<Rightarrow> Inl e
      | (Inr _, compression_config) \<Rightarrow> Inr (c\<lparr>wcfg_compression := Some compression_config\<rparr>))"

definition without_compression :: "'g archive_writer_config \<Rightarrow> 'g archive_writer_config" where
  "without_compression c = c\<lparr>wcfg_compression := None\<rparr>"

section \<open>Reading\<close>

record archive_reader_config =
  rcfg_accept_unencrypted :: bool
  rcfg_encrypt :: encryption_reader_config
  rcfg_signature :: signature_reader_config

record incomplete_archive_reader_config =
  icfg_shared_secrets :: "bytes list"
  icfg_signature :: signature_reader_config

definition encryption_reader_config_default :: encryption_reader_config where
  "encryption_reader_config_default =
     \<lparr>rc_private_keys = [], rc_encrypt_parameters = None, rc_shared_secrets = []\<rparr>"

definition reader_with_signature_verification ::
  "signature_verification_key list \<Rightarrow> incomplete_archive_reader_config" where
  "reader_with_signature_verification signature_verification_public_keys =
     \<lparr>icfg_shared_secrets = [],
      icfg_signature = set_public_keys signature_verification_public_keys signature_reader_config_default\<rparr>"

definition reader_without_signature_verification :: incomplete_archive_reader_config where
  "reader_without_signature_verification =
     \<lparr>icfg_shared_secrets = [], icfg_signature = signature_reader_config_default\<lparr>src_check := False\<rparr>\<rparr>"

definition reader_with_encryption ::
  "decryption_private_key list \<Rightarrow> incomplete_archive_reader_config \<Rightarrow> archive_reader_config" where
  "reader_with_encryption decryption_private_keys c =
     (let encrypt = set_private_keys decryption_private_keys encryption_reader_config_default;
          encrypt' = (if icfg_shared_secrets c \<noteq> [] then set_shared_secrets (icfg_shared_secrets c) encrypt else encrypt)
      in \<lparr>rcfg_accept_unencrypted = False, rcfg_encrypt = encrypt', rcfg_signature = icfg_signature c\<rparr>)"

definition reader_with_encryption_accept_unencrypted ::
  "decryption_private_key list \<Rightarrow> incomplete_archive_reader_config \<Rightarrow> archive_reader_config" where
  "reader_with_encryption_accept_unencrypted decryption_private_keys c =
     (let encrypt = set_private_keys decryption_private_keys encryption_reader_config_default;
          encrypt' = (if icfg_shared_secrets c \<noteq> [] then set_shared_secrets (icfg_shared_secrets c) encrypt else encrypt)
      in \<lparr>rcfg_accept_unencrypted = True, rcfg_encrypt = encrypt', rcfg_signature = icfg_signature c\<rparr>)"

definition reader_without_encryption :: "incomplete_archive_reader_config \<Rightarrow> archive_reader_config" where
  "reader_without_encryption c =
     \<lparr>rcfg_accept_unencrypted = True, rcfg_encrypt = encryption_reader_config_default,
      rcfg_signature = icfg_signature c\<rparr>"

text \<open>The given secrets replace those added before.\<close>

definition add_decryption_shared_secrets ::
  "bytes list \<Rightarrow> incomplete_archive_reader_config \<Rightarrow> incomplete_archive_reader_config" where
  "add_decryption_shared_secrets shared_secrets c =
     \<lparr>icfg_shared_secrets = shared_secrets, icfg_signature = icfg_signature c\<rparr>"

section \<open>Reading what may be truncated\<close>

definition truncated_decryption_mode_default :: truncated_decryption_mode where
  "truncated_decryption_mode_default = OnlyAuthenticatedData"

record truncated_reader_config =
  tcfg_accept_unencrypted :: bool
  tcfg_encrypt :: encryption_reader_config
  tcfg_mode :: truncated_decryption_mode

definition truncated_with_encryption ::
  "decryption_private_key list \<Rightarrow> truncated_decryption_mode \<Rightarrow> truncated_reader_config" where
  "truncated_with_encryption decryption_private_keys truncated_mode =
     \<lparr>tcfg_accept_unencrypted = False,
      tcfg_encrypt = set_private_keys decryption_private_keys encryption_reader_config_default,
      tcfg_mode = truncated_mode\<rparr>"

text \<open>The code sets \<^verbatim>\<open>accept_unencrypted\<close> to \<^verbatim>\<open>false\<close> here, despite the name.\<close>

definition truncated_with_encryption_accept_unencrypted ::
  "decryption_private_key list \<Rightarrow> truncated_decryption_mode \<Rightarrow> truncated_reader_config" where
  "truncated_with_encryption_accept_unencrypted decryption_private_keys truncated_mode =
     \<lparr>tcfg_accept_unencrypted = False,
      tcfg_encrypt = set_private_keys decryption_private_keys encryption_reader_config_default,
      tcfg_mode = truncated_mode\<rparr>"

definition truncated_without_encryption :: truncated_reader_config where
  "truncated_without_encryption =
     \<lparr>tcfg_accept_unencrypted = True, tcfg_encrypt = encryption_reader_config_default,
      tcfg_mode = truncated_decryption_mode_default\<rparr>"

section \<open>Facts\<close>

lemmas reader_config_defs = reader_with_signature_verification_def reader_without_signature_verification_def
  reader_with_encryption_def reader_with_encryption_accept_unencrypted_def reader_without_encryption_def
  add_decryption_shared_secrets_def encryption_reader_config_default_def signature_reader_config_default_def
  set_public_keys_def set_private_keys_def set_shared_secrets_def

text \<open>Signatures are checked against the given keys unless the client declined, and a reader that wants
  encryption refuses plain archives.\<close>

lemma reader_config_checks:
  "src_check (rcfg_signature (reader_with_encryption dks (reader_with_signature_verification vks)))"
  "src_keys (rcfg_signature (reader_with_encryption dks (reader_with_signature_verification vks))) = vks"
  "\<not> src_check (rcfg_signature (reader_with_encryption dks reader_without_signature_verification))"
  "\<not> rcfg_accept_unencrypted (reader_with_encryption dks c)"
  "rcfg_accept_unencrypted (reader_without_encryption c)"
  "rc_private_keys (rcfg_encrypt (reader_with_encryption dks c)) = dks"
  "rc_shared_secrets (rcfg_encrypt (reader_with_encryption dks c)) = icfg_shared_secrets c"
  by (simp_all add: reader_config_defs Let_def)

end
