(* ===== verification/Layers.thy ===== *)
theory Layers
  imports Config CompressTruncated Recover
begin

text \<open>
  How the layers are stacked: \<^verbatim>\<open>ArchiveWriter::from_config\<close>, \<^verbatim>\<open>ArchiveReader::from_config\<close> and
  \<^verbatim>\<open>TruncatedArchiveReader::from_config\<close> of \<^verbatim>\<open>mla/src/lib.rs\<close>. The code holds the layers as
  \<^verbatim>\<open>Box<dyn LayerWriter>\<close>: each optional layer is either absent or present, so the level it makes is a
  sum of the level below (\<open>Inl\<close>) and of the layer on that level (\<open>Inr\<close>), and a call of a method of the
  trait is a case distinction on the sum.
\<close>

section \<open>Dynamic dispatch\<close>

definition either_write ::
  "(bytes \<Rightarrow> ('a, io_error, nat) op) \<Rightarrow> (bytes \<Rightarrow> ('b, io_error, nat) op) \<Rightarrow> bytes \<Rightarrow> ('a + 'b, io_error, nat) op" where
  "either_write wr1 wr2 bs s =
     (case s of
        Inl a \<Rightarrow> (case wr1 bs a of (r, a') \<Rightarrow> (r, Inl a'))
      | Inr b \<Rightarrow> (case wr2 bs b of (r, b') \<Rightarrow> (r, Inr b')))"

definition either_read ::
  "(nat \<Rightarrow> ('a, io_error, bytes) op) \<Rightarrow> (nat \<Rightarrow> ('b, io_error, bytes) op) \<Rightarrow> nat \<Rightarrow> ('a + 'b, io_error, bytes) op" where
  "either_read rd1 rd2 n s =
     (case s of
        Inl a \<Rightarrow> (case rd1 n a of (r, a') \<Rightarrow> (r, Inl a'))
      | Inr b \<Rightarrow> (case rd2 n b of (r, b') \<Rightarrow> (r, Inr b')))"

definition either_seek ::
  "(seek_from \<Rightarrow> ('a, io_error, nat) op) \<Rightarrow> (seek_from \<Rightarrow> ('b, io_error, nat) op) \<Rightarrow>
   seek_from \<Rightarrow> ('a + 'b, io_error, nat) op" where
  "either_seek sk1 sk2 f s =
     (case s of
        Inl a \<Rightarrow> (case sk1 f a of (r, a') \<Rightarrow> (r, Inl a'))
      | Inr b \<Rightarrow> (case sk2 f b of (r, b') \<Rightarrow> (r, Inr b')))"

text \<open>Making the optional layer of a level.\<close>

definition present :: "error + 'b \<Rightarrow> error + ('a + 'b)" where
  "present x = (case x of Inl e \<Rightarrow> Inl e | Inr b \<Rightarrow> Inr (Inr b))"

section \<open>Writing\<close>

type_synonym ('w, 'g) sig_level = "'w raw_writer + ('w raw_writer, 'g) sig_writer"
type_synonym ('w, 'g) enc_level = "('w, 'g) sig_level + ('w, 'g) sig_level enc_writer"
type_synonym ('w, 'g, 'c) top_level = "('w, 'g) enc_level + (('w, 'g) enc_level, 'c) compression_writer"

definition sig_level_write :: "(bytes \<Rightarrow> ('w, io_error, nat) op) \<Rightarrow> bytes \<Rightarrow> (('w, 'g) sig_level, io_error, nat) op" where
  "sig_level_write wr = either_write (raw_write wr) (sig_write (raw_write wr))"

definition sig_level_finalize ::
  "('g, 's) sig_prims \<Rightarrow> (bytes \<Rightarrow> ('w, io_error, nat) op) \<Rightarrow> ('w, 'g) sig_level \<Rightarrow> error + 'w" where
  "sig_level_finalize S wr s =
     (case s of Inl w \<Rightarrow> raw_finalize w | Inr w \<Rightarrow> sig_finalize S raw_finalize wr w)"

definition enc_level_write ::
  "gcm_prims \<Rightarrow> (bytes \<Rightarrow> ('w, io_error, nat) op) \<Rightarrow> bytes \<Rightarrow> (('w, 'g) enc_level, io_error, nat) op" where
  "enc_level_write G wr = either_write (sig_level_write wr) (enc_write G (sig_level_write wr))"

definition enc_level_finalize ::
  "('g, 's) sig_prims \<Rightarrow> gcm_prims \<Rightarrow> (bytes \<Rightarrow> ('w, io_error, nat) op) \<Rightarrow> ('w, 'g) enc_level \<Rightarrow> error + 'w" where
  "enc_level_finalize S G wr s =
     (case s of
        Inl w \<Rightarrow> sig_level_finalize S wr w
      | Inr w \<Rightarrow> enc_finalize G (sig_level_write wr) (sig_level_finalize S wr) w)"

definition top_write ::
  "gcm_prims \<Rightarrow> (('w, 'g) enc_level, 'c) brotli_writer \<Rightarrow> (bytes \<Rightarrow> ('w, io_error, nat) op) \<Rightarrow> bytes \<Rightarrow>
   (('w, 'g, 'c) top_level, io_error, nat) op" where
  "top_write G B wr = either_write (enc_level_write G wr) (compression_write B)"

definition top_finalize ::
  "('g, 's) sig_prims \<Rightarrow> gcm_prims \<Rightarrow> (('w, 'g) enc_level, 'c) brotli_writer \<Rightarrow>
   (bytes \<Rightarrow> ('w, io_error, nat) op) \<Rightarrow> ('w, 'g, 'c) top_level \<Rightarrow> error + 'w" where
  "top_finalize S G B wr s =
     (case s of
        Inl w \<Rightarrow> enc_level_finalize S G wr w
      | Inr w \<Rightarrow> compression_finalize B (enc_level_write G wr) (enc_level_finalize S G wr) w)"

text \<open>The archive header goes through a hash wrapper; its digest is the one the signature layer goes on with.\<close>

definition write_archive_header ::
  "(bytes \<Rightarrow> ('w, io_error, nat) op) \<Rightarrow> 'w \<Rightarrow> error + 'w raw_writer \<times> bytes" where
  "write_archive_header wr dest =
     (case archive_header_serialize (hash_write (raw_write wr)) (ArchiveHeader MLA_FORMAT_VERSION)
             \<lparr>hw_inner = raw_writer_new dest, hw_hash = []\<rparr> of
        (Inl e, _) \<Rightarrow> Inl e
      | (Inr _, s) \<Rightarrow> Inr (hw_inner s, hw_hash s))"

definition add_signature_layer ::
  "(bytes \<Rightarrow> ('w, io_error, nat) op) \<Rightarrow> 'g signature_config option \<Rightarrow> bytes \<Rightarrow> 'w raw_writer \<Rightarrow>
   error + ('w, 'g) sig_level" where
  "add_signature_layer wr signature archive_header_hash dest =
     (case signature of
        None \<Rightarrow> Inr (Inl dest)
      | Some signature_config \<Rightarrow> present (sig_writer_new (raw_write wr) dest signature_config archive_header_hash))"

definition add_encryption_layer ::
  "'k kem_prims \<Rightarrow> gcm_prims \<Rightarrow> (bytes \<Rightarrow> ('w, io_error, nat) op) \<Rightarrow> encryption_public_key list option \<Rightarrow> 'k \<Rightarrow>
   ('w, 'g) sig_level \<Rightarrow> error + ('w, 'g) enc_level" where
  "add_encryption_layer K G wr encryption rng dest =
     (case encryption of
        None \<Rightarrow> Inr (Inl dest)
      | Some public_keys \<Rightarrow> present (enc_layer_writer_new K G (sig_level_write wr) public_keys rng dest))"

definition add_compression_layer ::
  "gcm_prims \<Rightarrow> (bytes \<Rightarrow> ('w, io_error, nat) op) \<Rightarrow> compression_config option \<Rightarrow> ('w, 'g) enc_level \<Rightarrow>
   error + ('w, 'g, 'c) top_level" where
  "add_compression_layer G wr compression dest =
     (case compression of
        None \<Rightarrow> Inr (Inl dest)
      | Some cfg \<Rightarrow> present (compression_writer_new (enc_level_write G wr) cfg dest))"

definition archive_writer_from_config ::
  "'k kem_prims \<Rightarrow> gcm_prims \<Rightarrow> (('w, 'g) enc_level, 'c) brotli_writer \<Rightarrow> (bytes \<Rightarrow> ('w, io_error, nat) op) \<Rightarrow>
   'k \<Rightarrow> 'w \<Rightarrow> 'g archive_writer_config \<Rightarrow> error + ('w, 'g, 'c) top_level archive_writer" where
  "archive_writer_from_config K G B wr rng dest config =
     (case write_archive_header wr dest of
        Inl e \<Rightarrow> Inl e
      | Inr (dest0, archive_header_hash) \<Rightarrow>
     (case add_signature_layer wr (wcfg_signature config) archive_header_hash dest0 of
        Inl e \<Rightarrow> Inl e
      | Inr dest1 \<Rightarrow>
     (case add_encryption_layer K G wr (wcfg_encryption config) rng dest1 of
        Inl e \<Rightarrow> Inl e
      | Inr dest2 \<Rightarrow>
     (case add_compression_layer G wr (wcfg_compression config) dest2 of
        Inl e \<Rightarrow> Inl e
      | Inr dest3 \<Rightarrow> archive_writer_init (top_write G B wr) dest3))))"

text \<open>The writer with the default configuration: encryption, signature and compression.\<close>

definition archive_writer_new ::
  "'k kem_prims \<Rightarrow> gcm_prims \<Rightarrow> (('w, 'g) enc_level, 'c) brotli_writer \<Rightarrow> (bytes \<Rightarrow> ('w, io_error, nat) op) \<Rightarrow>
   'k \<Rightarrow> error + 'g \<Rightarrow> 'w \<Rightarrow> encryption_public_key list \<Rightarrow> signing_private_key list \<Rightarrow>
   error + ('w, 'g, 'c) top_level archive_writer" where
  "archive_writer_new K G B wr rng signing_rng dest encryption_public_keys signing_private_keys =
     (case writer_with_encryption_with_signature encryption_public_keys signing_private_keys signing_rng of
        Inl e \<Rightarrow> Inl (error_from_config_error e)
      | Inr config \<Rightarrow> archive_writer_from_config K G B wr rng dest config)"

text \<open>\<^verbatim>\<open>ArchiveWriter::finalize\<close> on the stack: the layers are finalized down to the raw writer, which then
  takes the tail of the archive.\<close>

definition archive_writer_finalize ::
  "('g, 's) sig_prims \<Rightarrow> gcm_prims \<Rightarrow> (('w, 'g) enc_level, 'c) brotli_writer \<Rightarrow>
   (bytes \<Rightarrow> ('w, io_error, nat) op) \<Rightarrow> ('w, 'g, 'c) top_level archive_writer \<Rightarrow> error + 'w" where
  "archive_writer_finalize S G B wr = archive_finalize (top_write G B wr) (top_finalize S G B wr) wr"

section \<open>Reading\<close>

type_synonym 'r raw_level = "'r raw_reader strip_reader"
type_synonym 'r sig_read_level = "'r raw_level + 'r raw_level strip_reader"
type_synonym 'r enc_read_level = "'r sig_read_level + 'r sig_read_level strip_reader enc_reader"
type_synonym ('r, 'd) top_read_level =
  "'r enc_read_level + ('r enc_read_level strip_reader, 'd) compression_reader"

definition raw_level_read :: "(nat \<Rightarrow> ('r, io_error, bytes) op) \<Rightarrow> nat \<Rightarrow> ('r raw_level, io_error, bytes) op" where
  "raw_level_read rd = strip_read (raw_read rd)"

definition raw_level_seek ::
  "(seek_from \<Rightarrow> ('r, io_error, nat) op) \<Rightarrow> seek_from \<Rightarrow> ('r raw_level, io_error, nat) op" where
  "raw_level_seek sk = strip_seek (raw_seek sk)"

definition sig_level_read :: "(nat \<Rightarrow> ('r, io_error, bytes) op) \<Rightarrow> nat \<Rightarrow> ('r sig_read_level, io_error, bytes) op" where
  "sig_level_read rd = either_read (raw_level_read rd) (strip_read (raw_level_read rd))"

definition sig_level_seek ::
  "(seek_from \<Rightarrow> ('r, io_error, nat) op) \<Rightarrow> seek_from \<Rightarrow> ('r sig_read_level, io_error, nat) op" where
  "sig_level_seek sk = either_seek (raw_level_seek sk) (strip_seek (raw_level_seek sk))"

definition enc_level_read ::
  "gcm_prims \<Rightarrow> (nat \<Rightarrow> ('r, io_error, bytes) op) \<Rightarrow> nat \<Rightarrow> ('r enc_read_level, io_error, bytes) op" where
  "enc_level_read G rd = either_read (sig_level_read rd) (enc_read G (strip_read (sig_level_read rd)))"

definition enc_level_seek ::
  "gcm_prims \<Rightarrow> (nat \<Rightarrow> ('r, io_error, bytes) op) \<Rightarrow> (seek_from \<Rightarrow> ('r, io_error, nat) op) \<Rightarrow>
   seek_from \<Rightarrow> ('r enc_read_level, io_error, nat) op" where
  "enc_level_seek G rd sk =
     either_seek (sig_level_seek sk) (enc_seek G (strip_read (sig_level_read rd)) (strip_seek (sig_level_seek sk)))"

definition top_read ::
  "gcm_prims \<Rightarrow> ('r enc_read_level strip_reader, 'd) brotli_reader \<Rightarrow> (nat \<Rightarrow> ('r, io_error, bytes) op) \<Rightarrow>
   (seek_from \<Rightarrow> ('r, io_error, nat) op) \<Rightarrow> nat \<Rightarrow> (('r, 'd) top_read_level, io_error, bytes) op" where
  "top_read G B rd sk = either_read (enc_level_read G rd) (compression_read B (strip_seek (enc_level_seek G rd sk)))"

definition top_seek ::
  "gcm_prims \<Rightarrow> ('r enc_read_level strip_reader, 'd) brotli_reader \<Rightarrow> (nat \<Rightarrow> ('r, io_error, bytes) op) \<Rightarrow>
   (seek_from \<Rightarrow> ('r, io_error, nat) op) \<Rightarrow> seek_from \<Rightarrow> (('r, 'd) top_read_level, io_error, nat) op" where
  "top_seek G B rd sk = either_seek (enc_level_seek G rd sk) (compression_seek B (strip_seek (enc_level_seek G rd sk)))"

text \<open>Initialization stops at the raw layer and at the signature layer, which have nothing to do.\<close>

definition nothing_to_initialize :: "('r, error, unit) op" where
  "nothing_to_initialize = ret ()"

text \<open>The archive header, hashed, and the position after it as the new start.\<close>

definition open_archive_header ::
  "(nat \<Rightarrow> ('r, io_error, bytes) op) \<Rightarrow> (seek_from \<Rightarrow> ('r, io_error, nat) op) \<Rightarrow> 'r \<Rightarrow>
   error + 'r raw_reader \<times> bytes" where
  "open_archive_header rd sk src =
     (case lift_io (rewind sk) src of
        (Inl e, _) \<Rightarrow> Inl e
      | (Inr _, src1) \<Rightarrow>
     (case archive_header_deserialize (hash_read rd) \<lparr>hr_inner = src1, hr_hash = []\<rparr> of
        (Inl e, _) \<Rightarrow> Inl e
      | (Inr _, h) \<Rightarrow>
     (case lift_io (raw_reset_position sk) (raw_reader_new (hr_inner h)) of
        (Inl e, _) \<Rightarrow> Inl e
      | (Inr _, raw_src) \<Rightarrow> Inr (raw_src, hr_hash h))))"

text \<open>The end magic and the tail options.\<close>

definition read_archive_tail ::
  "(nat \<Rightarrow> ('x, io_error, bytes) op) \<Rightarrow> (seek_from \<Rightarrow> ('x, io_error, nat) op) \<Rightarrow> ('x, error, nat \<times> nat) op" where
  "read_archive_tail rd sk =
     bindE (lift_io (sk (SeekEnd (- 8)))) (\<lambda>end_magic_position.
     bindE (read_layer_magic rd) (\<lambda>end_magic.
       if end_magic \<noteq> END_MLA_MAGIC then fail WrongEndMagic
       else
     bindE (lift_io (sk (SeekEnd (- 16)))) (\<lambda>_.
     bindE (u64_deserialize rd) (\<lambda>mla_footer_options_length.
     bindE (lift_res (ok_or DeserializationError (checked_add mla_footer_options_length 16))) (\<lambda>mla_tail_len.
     bindE (lift_res (ok_or DeserializationError (checked_add end_magic_position 8))) (\<lambda>inner_len.
     bindE (lift_io (sk (SeekStart 0))) (\<lambda>_. ret (mla_tail_len, inner_len))))))))"

definition open_archive_tail ::
  "(nat \<Rightarrow> ('r, io_error, bytes) op) \<Rightarrow> (seek_from \<Rightarrow> ('r, io_error, nat) op) \<Rightarrow> 'r raw_reader \<Rightarrow>
   error + 'r raw_level" where
  "open_archive_tail rd sk raw_src =
     (case read_archive_tail (raw_read rd) (raw_seek sk) raw_src of
        (Inl e, _) \<Rightarrow> Inl e
      | (Inr (mla_tail_len, inner_len), src) \<Rightarrow> strip_reader_new src 0 mla_tail_len inner_len 0)"

text \<open>The signature layer. What comes out: the level, the magic that follows, the keys with valid signatures
  and the encryption configuration that was signed. \<open>None\<close> if hashing does not end.\<close>

definition open_signature_layer ::
  "('g, 's) sig_prims \<Rightarrow> 'k kem_prims \<Rightarrow> (nat \<Rightarrow> ('r, io_error, bytes) op) \<Rightarrow> (seek_from \<Rightarrow> ('r, io_error, nat) op) \<Rightarrow>
   signature_reader_config \<Rightarrow> bytes \<Rightarrow> 'r raw_level \<Rightarrow>
   (error + 'r sig_read_level \<times> bytes \<times> signature_verification_key list \<times> encryption_persistent_config option) option" where
  "open_signature_layer S K rd sk cfg archive_header_hash src0 =
     (case read_layer_magic (hash_read (raw_level_read rd)) \<lparr>hr_inner = src0, hr_hash = archive_header_hash\<rparr> of
        (Inl e, _) \<Rightarrow> Some (Inl e)
      | (Inr magic, h) \<Rightarrow>
          if magic = SIGNATURE_LAYER_MAGIC then
            (case sig_reader_new_skip_magic S K (raw_level_read rd) (raw_level_seek sk) nothing_to_initialize cfg
                    (hr_hash h) (hr_inner h) of
               None \<Rightarrow> None
             | Some (Inl e) \<Rightarrow> Some (Inl e)
             | Some (Inr (stripped, keys, persistent_config)) \<Rightarrow>
                 (case read_layer_magic (sig_level_read rd) (Inr stripped) of
                    (Inl e, _) \<Rightarrow> Some (Inl e)
                  | (Inr magic', src) \<Rightarrow> Some (Inr (src, magic', keys, persistent_config))))
          else if src_check cfg then Some (Inl SignatureVerificationAskedButNoSignatureLayerFound)
          else Some (Inr (Inl (hr_inner h), magic, [], None)))"

definition open_encryption_layer ::
  "'k kem_prims \<Rightarrow> gcm_prims \<Rightarrow> (nat \<Rightarrow> ('r, io_error, bytes) op) \<Rightarrow> (seek_from \<Rightarrow> ('r, io_error, nat) op) \<Rightarrow>
   archive_reader_config \<Rightarrow> encryption_persistent_config option \<Rightarrow> bytes \<Rightarrow> 'r sig_read_level \<Rightarrow>
   error + 'r enc_read_level \<times> bytes" where
  "open_encryption_layer K G rd sk config signed_config magic src1 =
     (if magic = ENCRYPTION_LAYER_MAGIC then
        (case enc_layer_reader_new_skip_magic K G (sig_level_read rd) (sig_level_seek sk) (rcfg_encrypt config)
                signed_config src1 of
           Inl e \<Rightarrow> Inl e
         | Inr e0 \<Rightarrow>
        (case enc_layer_initialize G (sig_level_read rd) (sig_level_seek sk) nothing_to_initialize e0 of
           (Inl e, _) \<Rightarrow> Inl e
         | (Inr _, e1) \<Rightarrow>
        (case read_layer_magic (enc_level_read G rd) (Inr e1) of
           (Inl e, _) \<Rightarrow> Inl e
         | (Inr magic', src2) \<Rightarrow> Inr (src2, magic'))))
      else if \<not> rcfg_accept_unencrypted config then Inl EncryptionAskedButNotMarkedPresent
      else Inr (Inl src1, magic))"

definition open_compression_layer ::
  "gcm_prims \<Rightarrow> (nat \<Rightarrow> ('r, io_error, bytes) op) \<Rightarrow> (seek_from \<Rightarrow> ('r, io_error, nat) op) \<Rightarrow> bytes \<Rightarrow>
   'r enc_read_level \<Rightarrow> error + ('r, 'd) top_read_level" where
  "open_compression_layer G rd sk magic src2 =
     (if magic = COMPRESSION_LAYER_MAGIC then
        (case compression_reader_new_skip_magic (enc_level_read G rd) (enc_level_seek G rd sk) src2 of
           Inl e \<Rightarrow> Inl e
         | Inr c0 \<Rightarrow>
        (case compression_initialize (strip_read (enc_level_read G rd)) (strip_seek (enc_level_seek G rd sk)) c0 of
           (Inl e, _) \<Rightarrow> Inl e
         | (Inr _, comp_layer) \<Rightarrow> Inr (Inr comp_layer)))
      else Inr (Inl src2))"

definition archive_reader_from_config ::
  "('g, 's) sig_prims \<Rightarrow> 'k kem_prims \<Rightarrow> gcm_prims \<Rightarrow> ('r enc_read_level strip_reader, 'd) brotli_reader \<Rightarrow>
   (nat \<Rightarrow> ('r, io_error, bytes) op) \<Rightarrow> (seek_from \<Rightarrow> ('r, io_error, nat) op) \<Rightarrow> 'r \<Rightarrow> archive_reader_config \<Rightarrow>
   (error + ('r, 'd) top_read_level archive_reader \<times> signature_verification_key list) option" where
  "archive_reader_from_config S K G B rd sk src config =
     (case open_archive_header rd sk src of
        Inl e \<Rightarrow> Some (Inl e)
      | Inr (raw_src, archive_header_hash) \<Rightarrow>
     (case open_archive_tail rd sk raw_src of
        Inl e \<Rightarrow> Some (Inl e)
      | Inr src0 \<Rightarrow>
     (case open_signature_layer S K rd sk (rcfg_signature config) archive_header_hash src0 of
        None \<Rightarrow> None
      | Some (Inl e) \<Rightarrow> Some (Inl e)
      | Some (Inr (src1, magic1, valid_keys, signed_config)) \<Rightarrow>
     (case open_encryption_layer K G rd sk config signed_config magic1 src1 of
        Inl e \<Rightarrow> Some (Inl e)
      | Inr (src2, magic2) \<Rightarrow>
     (case open_compression_layer G rd sk magic2 src2 of
        Inl e \<Rightarrow> Some (Inl e)
      | Inr src3 \<Rightarrow>
     (case open_entries (top_read G B rd sk) (top_seek G B rd sk) src3 of
        Inl e \<Rightarrow> Some (Inl e)
      | Inr archive \<Rightarrow> Some (Inr (archive, valid_keys))))))))"

section \<open>Reading what may be truncated\<close>

type_synonym 'r sig_truncated_level = "'r raw_truncated_reader + 'r raw_truncated_reader sig_truncated_reader"
type_synonym 'r enc_truncated_level = "'r sig_truncated_level + 'r sig_truncated_level enc_reader"
type_synonym ('r, 'd) top_truncated_level =
  "'r enc_truncated_level + ('r enc_truncated_level, 'd) compression_truncated_reader"

definition sig_truncated_level_read ::
  "(nat \<Rightarrow> ('r, io_error, bytes) op) \<Rightarrow> nat \<Rightarrow> ('r sig_truncated_level, io_error, bytes) op" where
  "sig_truncated_level_read rd = either_read (raw_truncated_read rd) (sig_truncated_read (raw_truncated_read rd))"

definition enc_truncated_level_read ::
  "gcm_prims \<Rightarrow> (nat \<Rightarrow> ('r, io_error, bytes) op) \<Rightarrow> nat \<Rightarrow> ('r enc_truncated_level, io_error, bytes) op" where
  "enc_truncated_level_read G rd =
     either_read (sig_truncated_level_read rd) (enc_truncated_read G (sig_truncated_level_read rd))"

text \<open>\<open>fuel\<close> is the depth the stack has for the calls \<^verbatim>\<open>read\<close> makes to itself: running out of it aborts.\<close>

definition on_stack ::
  "(nat \<Rightarrow> 's \<Rightarrow> ((io_error + bytes) \<times> 's) option) \<Rightarrow> nat \<Rightarrow> ('s, io_error, bytes) op" where
  "on_stack rd n s = (case rd n s of None \<Rightarrow> (Inl IoPanic, s) | Some x \<Rightarrow> x)"

definition top_truncated_read ::
  "nat \<Rightarrow> gcm_prims \<Rightarrow> 'd brotli_stream \<Rightarrow> (nat \<Rightarrow> ('r, io_error, bytes) op) \<Rightarrow> nat \<Rightarrow>
   (('r, 'd) top_truncated_level, io_error, bytes) op" where
  "top_truncated_read fuel G B rd =
     either_read (enc_truncated_level_read G rd) (on_stack (truncated_read fuel B (enc_truncated_level_read G rd)))"

definition open_truncated_signature ::
  "(nat \<Rightarrow> ('r, io_error, bytes) op) \<Rightarrow> 'r raw_truncated_reader \<Rightarrow> error + 'r sig_truncated_level \<times> bytes" where
  "open_truncated_signature rd src =
     (case read_layer_magic (raw_truncated_read rd) src of
        (Inl e, _) \<Rightarrow> Inl e
      | (Inr magic, src0) \<Rightarrow>
          if magic = SIGNATURE_LAYER_MAGIC then
            (case sig_truncated_new_skip_magic (raw_truncated_read rd) src0 of
               Inl e \<Rightarrow> Inl e
             | Inr layer \<Rightarrow>
            (case read_layer_magic (sig_truncated_level_read rd) (Inr layer) of
               (Inl e, _) \<Rightarrow> Inl e
             | (Inr magic', src1) \<Rightarrow> Inr (src1, magic')))
          else Inr (Inl src0, magic))"

definition open_truncated_encryption ::
  "'k kem_prims \<Rightarrow> gcm_prims \<Rightarrow> (nat \<Rightarrow> ('r, io_error, bytes) op) \<Rightarrow> truncated_reader_config \<Rightarrow> bytes \<Rightarrow>
   'r sig_truncated_level \<Rightarrow> error + 'r enc_truncated_level \<times> bytes" where
  "open_truncated_encryption K G rd config magic src1 =
     (if magic = ENCRYPTION_LAYER_MAGIC then
        (case enc_truncated_new_skip_magic K G (sig_truncated_level_read rd) (tcfg_encrypt config) None
                (tcfg_mode config) src1 of
           Inl e \<Rightarrow> Inl e
         | Inr layer \<Rightarrow>
        (case read_layer_magic (enc_truncated_level_read G rd) (Inr layer) of
           (Inl e, _) \<Rightarrow> Inl e
         | (Inr magic', src2) \<Rightarrow> Inr (src2, magic')))
      else if \<not> tcfg_accept_unencrypted config then Inl EncryptionAskedButNotMarkedPresent
      else Inr (Inl src1, magic))"

definition open_truncated_compression ::
  "nat \<Rightarrow> gcm_prims \<Rightarrow> 'd brotli_stream \<Rightarrow> (nat \<Rightarrow> ('r, io_error, bytes) op) \<Rightarrow> bytes \<Rightarrow>
   'r enc_truncated_level \<Rightarrow> error + ('r, 'd) top_truncated_level \<times> bytes" where
  "open_truncated_compression fuel G B rd magic src2 =
     (if magic = COMPRESSION_LAYER_MAGIC then
        (case truncated_new_skip_magic B (enc_truncated_level_read G rd) src2 of
           Inl e \<Rightarrow> Inl e
         | Inr layer \<Rightarrow>
        (case read_layer_magic (top_truncated_read fuel G B rd) (Inr layer) of
           (Inl e, _) \<Rightarrow> Inl e
         | (Inr magic', src3) \<Rightarrow> Inr (src3, magic')))
      else Inr (Inl src2, magic))"

definition truncated_reader_from_config ::
  "nat \<Rightarrow> 'k kem_prims \<Rightarrow> gcm_prims \<Rightarrow> 'd brotli_stream \<Rightarrow> (nat \<Rightarrow> ('r, io_error, bytes) op) \<Rightarrow> 'r \<Rightarrow>
   truncated_reader_config \<Rightarrow> error + ('r, 'd) top_truncated_level" where
  "truncated_reader_from_config fuel K G B rd src config =
     (case archive_header_deserialize rd src of
        (Inl e, _) \<Rightarrow> Inl e
      | (Inr _, src') \<Rightarrow>
     (case open_truncated_signature rd \<lparr>rt_inner = src'\<rparr> of
        Inl e \<Rightarrow> Inl e
      | Inr (src1, magic1) \<Rightarrow>
     (case open_truncated_encryption K G rd config magic1 src1 of
        Inl e \<Rightarrow> Inl e
      | Inr (src2, magic2) \<Rightarrow>
     (case open_truncated_compression fuel G B rd magic2 src2 of
        Inl e \<Rightarrow> Inl e
      | Inr (src3, magic3) \<Rightarrow>
          if magic3 \<noteq> ENTRIES_LAYER_MAGIC then Inl DeserializationError
          else
     (case read_mla_entries_header_skip_magic (top_truncated_read fuel G B rd) src3 of
        (Inl e, _) \<Rightarrow> Inl e
      | (Inr _, src4) \<Rightarrow> Inr src4)))))"

end
