(* ===== verification/Below.thy ===== *)
theory Below
  imports Roundtrip
begin

text \<open>
  Writing through a writer that succeeds less often. Of two operations, \<open>below\<close> says that the second one
  does what the first one does whenever the first succeeds. All that the archive writer does is monotone
  in its writer for this order. It carries results from a writer cut off at a limit, which keeps the
  contract of a sink, to the compression layer, which keeps it only up to the limit.
\<close>

named_theorems below_intros "what is monotone in its writer"

section \<open>The order\<close>

definition below :: "('s, 'e, 'a) op \<Rightarrow> ('s, 'e, 'a) op \<Rightarrow> bool" where
  "below m' m \<longleftrightarrow> (\<forall>s a s'. m' s = (Inr a, s') \<longrightarrow> m s = (Inr a, s'))"

definition below_write ::
  "(bytes \<Rightarrow> ('w, io_error, nat) op) \<Rightarrow> (bytes \<Rightarrow> ('w, io_error, nat) op) \<Rightarrow> bool" where
  "below_write wr' wr \<longleftrightarrow> (\<forall>bs. below (wr' bs) (wr bs))"

lemma belowI: "(\<And>s a s'. m' s = (Inr a, s') \<Longrightarrow> m s = (Inr a, s')) \<Longrightarrow> below m' m"
  by (simp add: below_def)

lemma belowD: "below m' m \<Longrightarrow> m' s = (Inr a, s') \<Longrightarrow> m s = (Inr a, s')"
  by (simp add: below_def)

lemma below_writeD: "below_write wr' wr \<Longrightarrow> wr' bs s = (Inr k, s') \<Longrightarrow> wr bs s = (Inr k, s')"
  by (simp add: below_write_def below_def)

lemma below_refl [below_intros]: "below m m"
  by (simp add: below_def)

lemma below_bindE [below_intros]:
  assumes "below m' m" and "\<And>a. below (k' a) (k a)"
  shows "below (bindE m' k') (bindE m k)"
proof (rule belowI)
  fix s b t assume "bindE m' k' s = (Inr b, t)"
  then obtain a u where "m' s = (Inr a, u)" "k' a u = (Inr b, t)" by (rule bindE_InrE)
  then have "m s = (Inr a, u)" "k a u = (Inr b, t)"
    using belowD [OF assms(1)] belowD [OF assms(2)] by simp_all
  then show "bindE m k s = (Inr b, t)" by (simp add: bindE_Inr)
qed

lemma below_map_errE: "below m' m \<Longrightarrow> below (map_errE f m') (map_errE f m)"
  unfolding below_def by (blast dest: map_errE_InrD intro: map_errE_Inr)

lemma below_lift_io [below_intros]: "below m' m \<Longrightarrow> below (lift_io m') (lift_io m)"
  by (simp add: lift_io_def below_map_errE)

lemma below_on_field [below_intros]: "below m' m \<Longrightarrow> below (on_field get put m') (on_field get put m)"
  by (auto simp: below_def on_field_def split: prod.splits)

lemma below_write_all [below_intros]: 
  assumes "below_write wr' wr"
  shows "below (write_all wr' bs) (write_all wr bs)"
proof -
  have "write_all wr' bs s = (Inr a, t) \<Longrightarrow> write_all wr bs s = (Inr a, t)" for s a t
  proof (induction "length bs" arbitrary: bs s rule: less_induct)
    case less
    show ?case
    proof (cases "bs = []")
      case True
      then show ?thesis using less.prems by (simp add: write_all.simps)
    next
      case False
      with less.prems obtain k u where k: "wr' bs s = (Inr k, u)" "k \<noteq> 0" "write_all wr' (drop k bs) u = (Inr a, t)"
        by (subst (asm) write_all.simps) (auto split: prod.splits sum.splits if_splits)
      have "write_all wr (drop k bs) u = (Inr a, t)" using False k by (intro less.hyps) auto
      with False k(2) below_writeD [OF assms k(1)] show ?thesis by (subst write_all.simps) simp
    qed
  qed
  then show ?thesis by (rule belowI)
qed

lemma below_position [below_intros]: "below_write wr' wr \<Longrightarrow> below_write (position_write wr') (position_write wr)"
  unfolding below_write_def below_def position_write_def
  by (auto split: prod.splits sum.splits option.splits)

section \<open>Serializers\<close>

lemma below_slice:
  assumes "\<And>x. below (f' x) (f x)"
  shows "below (slice_serialize f' xs) (slice_serialize f xs)"
proof -
  have "below (slice_serialize_from f' n xs) (slice_serialize_from f n xs)" for n
    by (induction xs arbitrary: n) (auto intro!: below_intros assms)
  then show ?thesis by (simp add: slice_serialize_def)
qed

lemma below_numbers [below_intros]:
  assumes "below_write wr' wr"
  shows "below (u8_serialize wr' x) (u8_serialize wr x)" and "below (u64_serialize wr' n) (u64_serialize wr n)"
    and "below (usize_serialize wr' n) (usize_serialize wr n)" and "below (opts_dump wr') (opts_dump wr)"
  using assms unfolding u8_serialize_def u64_serialize_def usize_serialize_def opts_dump_def
  by (intro below_intros; assumption)+

lemma below_vec [below_intros]:
  "below_write wr' wr \<Longrightarrow> (\<And>x. below (f' x) (f x)) \<Longrightarrow> below (vec_serialize wr' f' xs) (vec_serialize wr f xs)"
  unfolding vec_serialize_def by (intro below_intros below_slice)

lemma below_entry_name [below_intros]:
  "below_write wr' wr \<Longrightarrow> below (serialize_entry_name wr' name) (serialize_entry_name wr name)"
  unfolding serialize_entry_name_def by (intro below_intros below_slice)

lemma below_entry_info [below_intros]:
  "below_write wr' wr \<Longrightarrow> below (entry_info_serialize wr' info) (entry_info_serialize wr info)"
  unfolding entry_info_serialize_def pair_serialize_def by (intro below_intros)

lemma below_footer [below_intros]:
  assumes "below_write wr' wr"
  shows "below (footer_serialize_into wr' es ids) (footer_serialize_into wr es ids)"
proof -
  have "below (footer_serialize_entries wr' n xs) (footer_serialize_entries wr n xs)" for n xs
  proof (induction xs arbitrary: n)
    case (Cons x xs)
    obtain k i where "x = (k, i)" by (cases x)
    then show ?case using assms by (simp only: footer_serialize_entries.simps) (intro below_intros Cons.IH)
  qed (simp add: below_refl)
  then show ?thesis using assms unfolding footer_serialize_into_def Let_def by (intro below_intros)
qed

lemma below_dumps [below_intros]:
  assumes "below_write wr' wr"
  shows "below (dump_start wr' name i) (dump_start wr name i)"
    and "below (dump_content_head wr' n i) (dump_content_head wr n i)"
    and "below (dump_end wr' i hash) (dump_end wr i hash)"
    and "below (dump_end_of_archive_data wr') (dump_end_of_archive_data wr)"
  using assms unfolding dump_start_def dump_content_head_def dump_end_def dump_end_of_archive_data_def
    block_type_serialize_def id_serialize_def
  by (intro below_intros; assumption)+

lemma below_copy [below_intros]:
  assumes "below_write wr' wr"
  shows "below (copy_take rd wr' n) (copy_take rd wr n)"
proof -
  have "copy_take rd wr' n s = (Inr a, t) \<Longrightarrow> copy_take rd wr n s = (Inr a, t)" for s a t
  proof (induction n arbitrary: s rule: less_induct)
    case (less n)
    show ?case
    proof (cases "n = 0")
      case True
      then show ?thesis using less.prems by (simp add: copy_take.simps)
    next
      case False
      obtain x r where x: "rd (min n COPY_BUF_SIZE) (fst s) = (x, r)" by (rule that [OF prod.collapse [symmetric]])
      with less.prems False obtain bs where bs: "x = Inr bs"
        by (subst (asm) copy_take.simps) (cases x; simp)
      show ?thesis
      proof (cases "bs = []")
        case True
        with less.prems False x bs show ?thesis by (subst (asm) copy_take.simps, subst copy_take.simps) simp
      next
        case ne: False
        obtain y w where y: "write_all wr' bs (snd s) = (y, w)" by (rule that [OF prod.collapse [symmetric]])
        with less.prems False x bs ne obtain u where w: "y = Inr u" "copy_take rd wr' (n - length bs) (r, w) = (Inr a, t)"
          by (subst (asm) copy_take.simps) (cases y; simp)
        have "copy_take rd wr (n - length bs) (r, w) = (Inr a, t)"
          using False ne w(2) by (intro less.IH) simp_all
        with belowD [OF below_write_all [OF assms] y [unfolded w(1)]] x bs False ne show ?thesis
          by (subst copy_take.simps) simp
      qed
    qed
  qed
  then show ?thesis by (rule belowI)
qed

section \<open>The archive writer\<close>

lemma archive_writer_init_below:
  assumes "below_write wr' wr" and "archive_writer_init wr' d = Inr s"
  shows "archive_writer_init wr d = Inr s"
proof -
  let ?m = "\<lambda>wr. bindE reset_position (\<lambda>_. bindE (lift_io (write_all (position_write wr) ENTRIES_LAYER_MAGIC)) (\<lambda>_.
      opts_dump (position_write wr)))"
  have b: "below (?m wr') (?m wr)" using assms(1) by (intro below_intros)
  obtain x t where x: "?m wr' (position_writer_new d) = (x, t)" by (rule that [OF prod.collapse [symmetric]])
  with assms(2) obtain n where "x = Inr n" by (cases x) (simp_all add: archive_writer_init_def)
  with x belowD [OF b] assms(2) show ?thesis by (simp add: archive_writer_init_def)
qed

lemma start_entry_below:
  assumes "below_write wr' wr" and "start_entry wr' name s = (Inr i, s')"
  shows "start_entry wr name s = (Inr i, s')"
proof -
  have b: "below (dump_start (position_write wr') name i) (dump_start (position_write wr) name i)"
    using assms(1) by (intro below_intros)
  from start_entry_cases [OF assms(2)] obtain ids hashes d where
    c: "aw_state s = OpenedFiles ids hashes" "map_of (aw_entries_info s) name = None"
    "i = aw_next_id s" "aw_next_id s + 1 < 2 ^ 64"
    "dump_start (position_write wr') name i (aw_dest s) = (Inr (), d)"
    "s' = s\<lparr>aw_dest := d, aw_next_id := i + 1, aw_current_id := i,
       aw_entries_info := AList.update name i (aw_entries_info s),
       aw_ids_info := AList.update i \<lparr>offsets_and_sizes = [(pw_pos (aw_dest s), 0)]\<rparr> (aw_ids_info s),
       aw_state := OpenedFiles (ids @ [i]) (AList.update i [] hashes)\<rparr>"
    by metis
  from belowD [OF b c(5)] c show ?thesis
    by (simp add: start_entry_def check_state_opened_def checked_add_def Let_def position_def on_field_def bindE_def)
qed

lemma below_block_dump [below_intros]:
  assumes "below_write wr' wr"
  shows "below (block_dump rd wr') (block_dump rd wr)"
proof (rule belowI)
  fix s u t assume d: "block_dump rd wr' s = (Inr u, t)"
  note b = below_dumps [OF assms] below_copy [OF assms]
  note bf = belowD [OF below_on_field [OF b(1)]] belowD [OF below_on_field [OF b(3)]] belowD [OF below_on_field [OF b(4)]]
  show "block_dump rd wr s = (Inr u, t)"
  proof (cases "fst s")
    case (EntryContent len data i)
    obtain x w where x: "dump_content_head wr' len i (snd s) = (x, w)" by (rule that [OF prod.collapse [symmetric]])
    with d EntryContent obtain v where v: "x = Inr v" by (cases x) (simp_all add: block_dump_def)
    with d EntryContent x obtain content where c: "data = Some content" by (cases data) (simp_all add: block_dump_def)
    obtain y z where y: "lift_io (copy_take rd wr' len) (content, w) = (y, z)" by (rule that [OF prod.collapse [symmetric]])
    have "y = Inr u" using d EntryContent x v c y by (simp add: block_dump_def split: prod.splits)
    with y have "lift_io (copy_take rd wr len) (content, w) = (Inr u, z)"
      by (intro belowD [OF below_lift_io [OF b(5)]]) simp
    with d EntryContent x v c y belowD [OF b(2)] \<open>y = Inr u\<close> show ?thesis by (simp add: block_dump_def)
  qed (use d bf in \<open>simp_all add: block_dump_def\<close>)
qed

lemma append_entry_content_below:
  assumes "below_write wr' wr" and "append_entry_content rd wr' i sz us = (Inr u, us')"
  shows "append_entry_content rd wr i sz us = (Inr u, us')"
proof -
  have b: "below (block_dump (hash_read rd) (position_write wr')) (block_dump (hash_read rd) (position_write wr))"
    using assms(1) by (intro below_intros)
  obtain x s where x: "check_state_file_opened i (snd us) = (x, s)" by (rule that [OF prod.collapse [symmetric]])
  with assms(2) obtain v where v: "x = Inr v" by (cases x) (simp_all add: append_entry_content_def)
  show ?thesis
  proof (cases "sz = 0")
    case True
    with assms(2) x v show ?thesis by (simp add: append_entry_content_def)
  next
    case False
    obtain y s1 where y: "bindE (record_offset_and_size_in_index i sz) (\<lambda>_. wrap_with_hash i (fst us)) s = (y, s1)"
      by (rule that [OF prod.collapse [symmetric]])
    with assms(2) x v False obtain src where src: "y = Inr src" by (cases y) (simp_all add: append_entry_content_def)
    obtain z t where z: "block_dump (hash_read rd) (position_write wr') (EntryContent sz (Some src) i, aw_dest s1) = (z, t)"
      by (rule that [OF prod.collapse [symmetric]])
    have "z = Inr u"
      using assms(2) x v False y src z
      by (simp add: append_entry_content_def split: prod.splits archive_entry_block.splits option.splits)
    with assms(2) x v False y src z belowD [OF b] show ?thesis by (simp add: append_entry_content_def)
  qed
qed

lemma end_entry_below:
  assumes "below_write wr' wr" and "end_entry sha256 wr' i s = (Inr u, s')"
  shows "end_entry sha256 wr i s = (Inr u, s')"
proof -
  have "below (end_entry sha256 wr' i) (end_entry sha256 wr i)"
    unfolding end_entry_def using assms(1) by (intro below_intros)
  from belowD [OF this assms(2)] show ?thesis .
qed

lemma add_entry_below:
  assumes "below_write wr' wr" and "add_entry sha256 rd wr' name sz us = (Inr u, us')"
  shows "add_entry sha256 rd wr name sz us = (Inr u, us')"
proof -
  have "below (start_entry wr' n) (start_entry wr n)" "below (append_entry_content rd wr' i sz) (append_entry_content rd wr i sz)"
    "below (end_entry sha256 wr' i) (end_entry sha256 wr i)" for n i
    by (rule belowI, erule start_entry_below [OF assms(1)], rule belowI, erule append_entry_content_below [OF assms(1)],
        rule belowI, erule end_entry_below [OF assms(1)])
  then have "below (add_entry sha256 rd wr' name sz) (add_entry sha256 rd wr name sz)"
    unfolding add_entry_def by (intro below_intros)
  from belowD [OF this assms(2)] show ?thesis .
qed

lemma add_files_below:
  "below_write wr' wr \<Longrightarrow> add_files sha256 wr' files s = Inr s' \<Longrightarrow> add_files sha256 wr files s = Inr s'"
proof (induction files arbitrary: s)
  case (Cons f files)
  obtain name d where f: "f = (name, d)" by (cases f)
  obtain x us where x: "add_entry sha256 cursor_read wr' name (length d) (cursor_new d, s) = (x, us)" by (rule that [OF prod.collapse [symmetric]])
  with Cons.prems(2) f obtain u where u: "x = Inr u" by (cases x) simp_all
  from add_entry_below [OF Cons.prems(1) x [unfolded u]] x u Cons.prems f Cons.IH show ?case by (cases us) simp
qed simp

lemma finalize_entries_below:
  assumes "below_write wr' wr" and "finalize_entries wr' s = (Inr u, s')"
  shows "finalize_entries wr s = (Inr u, s')"
proof -
  have b: "below (finalize_dest (position_write wr') es ids) (finalize_dest (position_write wr) es ids)" for es ids
    unfolding finalize_dest_def using assms(1) by (intro below_intros)
  from finalize_entries_cases [OF assms(2)] obtain d where c: "aw_state s = OpenedFiles [] []"
    "finalize_dest (position_write wr') (aw_entries_info s) (aw_ids_info s) (aw_dest s) = (Inr u, d)"
    "s' = put_dest d (s\<lparr>aw_state := Finalized\<rparr>)" .
  from belowD [OF b c(2)] c(1,3) show ?thesis
    by (simp add: finalize_entries_def finalize_state_def check_state_opened_def on_field_def bindE_def)
qed

end
