(* ===== verification/StackWriter.thy ===== *)
theory StackWriter
  imports Layers Below
begin

text \<open>
  The writing stack keeps one contract at every level. A \<open>writer_level\<close> is a sink with room that can be
  finalized, as long as some room is left, and \<open>fmt\<close> relates what was written at the level to the file
  that comes out. Each layer turns a level into a level; the sum of a level and another is a level.
\<close>

section \<open>The contract of a level\<close>

locale writer_level = room_sink wr out winv room
  for wr :: "bytes \<Rightarrow> ('w, io_error, nat) op"
    and out :: "'w \<Rightarrow> bytes"
    and winv :: "'w \<Rightarrow> bool"
    and room :: "'w \<Rightarrow> nat" +
  fixes fin :: "'w \<Rightarrow> error + 'f"
    and tail :: nat
    and fmt :: "bytes \<Rightarrow> 'f \<Rightarrow> bool"
  assumes finish: "winv w \<Longrightarrow> tail \<le> room w \<Longrightarrow> \<exists>f. fin w = Inr f \<and> fmt (out w) f"

section \<open>Dispatch\<close>

lemma either_room_sink:
  assumes a: "room_sink wr1 out1 winv1 room1" and b: "room_sink wr2 out2 winv2 room2"
  shows "room_sink (either_write wr1 wr2) (case_sum out1 out2) (case_sum winv1 winv2) (case_sum room1 room2)"
proof (intro room_sink.intro sink.intro room_sink_axioms.intro)
  fix w :: "'a + 'b" and bs k w'
  assume w: "case_sum winv1 winv2 w" "bs \<noteq> []" "either_write wr1 wr2 bs w = (Inr k, w')"
  show "case_sum winv1 winv2 w' \<and> case_sum out1 out2 w' = case_sum out1 out2 w @ take k bs \<and> k \<le> length bs"
  proof (cases w)
    case (Inl x)
    with w obtain x' where "wr1 bs x = (Inr k, x')" "w' = Inl x'" by (auto simp: either_write_def split: prod.splits)
    with Inl w sink.write_ok [of wr1 out1 winv1 x bs k x'] a show ?thesis by (simp add: room_sink_def)
  next
    case (Inr x)
    with w obtain x' where "wr2 bs x = (Inr k, x')" "w' = Inr x'" by (auto simp: either_write_def split: prod.splits)
    with Inr w sink.write_ok [of wr2 out2 winv2 x bs k x'] b show ?thesis by (simp add: room_sink_def)
  qed
next
  fix w :: "'a + 'b" and bs :: bytes
  assume w: "case_sum winv1 winv2 w" "bs \<noteq> []" "length bs \<le> case_sum room1 room2 w"
  show "\<exists>k w'. either_write wr1 wr2 bs w = (Inr k, w') \<and> 0 < k \<and> case_sum room1 room2 w \<le> case_sum room1 room2 w' + k"
  proof (cases w)
    case (Inl x)
    with w room_sink.write_room [OF a, of x bs] obtain k x' where "wr1 bs x = (Inr k, x')" "0 < k" "room1 x \<le> room1 x' + k"
      by auto
    with Inl show ?thesis by (intro exI [of _ k] exI [of _ "Inl x'"]) (simp add: either_write_def)
  next
    case (Inr x)
    with w room_sink.write_room [OF b, of x bs] obtain k x' where "wr2 bs x = (Inr k, x')" "0 < k" "room2 x \<le> room2 x' + k"
      by auto
    with Inr show ?thesis by (intro exI [of _ k] exI [of _ "Inr x'"]) (simp add: either_write_def)
  qed
qed

text \<open>A level that is never entered.\<close>

lemma no_room_sink: "room_sink wr (\<lambda>_. []) (\<lambda>_. False) (\<lambda>_. 0)"
  by unfold_locales simp_all

lemma level_absent:
  assumes "writer_level wr1 out winv room fin1 tail fmt"
  shows "writer_level (either_write wr1 wr2) (case_sum out (\<lambda>_. [])) (case_sum winv (\<lambda>_. False))
    (case_sum room (\<lambda>_. 0)) (\<lambda>s. case s of Inl w \<Rightarrow> fin1 w | Inr w \<Rightarrow> fin2 w) tail fmt"
proof (intro writer_level.intro writer_level_axioms.intro)
  have "room_sink wr1 out winv room" using assms by (simp add: writer_level_def)
  then show "room_sink (either_write wr1 wr2) (case_sum out (\<lambda>_. [])) (case_sum winv (\<lambda>_. False)) (case_sum room (\<lambda>_. 0))"
    by (rule either_room_sink [OF _ no_room_sink])
  fix w :: "'a + 'c" assume "case_sum winv (\<lambda>_. False) w" "tail \<le> case_sum room (\<lambda>_. 0) w"
  then show "\<exists>f. (case w of Inl w \<Rightarrow> fin1 w | Inr w \<Rightarrow> fin2 w) = Inr f \<and> fmt (case_sum out (\<lambda>_. []) w) f"
    using writer_level.finish [OF assms] by (cases w) auto
qed

lemma level_present:
  assumes "writer_level wr2 out winv room fin2 tail fmt"
  shows "writer_level (either_write wr1 wr2) (case_sum (\<lambda>_. []) out) (case_sum (\<lambda>_. False) winv)
    (case_sum (\<lambda>_. 0) room) (\<lambda>s. case s of Inl w \<Rightarrow> fin1 w | Inr w \<Rightarrow> fin2 w) tail fmt"
proof (intro writer_level.intro writer_level_axioms.intro)
  have "room_sink wr2 out winv room" using assms by (simp add: writer_level_def)
  then show "room_sink (either_write wr1 wr2) (case_sum (\<lambda>_. []) out) (case_sum (\<lambda>_. False) winv) (case_sum (\<lambda>_. 0) room)"
    by (rule either_room_sink [OF no_room_sink])
  fix w :: "'c + 'a" assume "case_sum (\<lambda>_. False) winv w" "tail \<le> case_sum (\<lambda>_. 0) room w"
  then show "\<exists>f. (case w of Inl w \<Rightarrow> fin1 w | Inr w \<Rightarrow> fin2 w) = Inr f \<and> fmt (case_sum (\<lambda>_. []) out w) f"
    using writer_level.finish [OF assms] by (cases w) auto
qed

section \<open>The raw layer\<close>

text \<open>Levels start after a head that is already written.\<close>

definition after_head :: "('w \<Rightarrow> bytes) \<Rightarrow> bytes \<Rightarrow> 'w \<Rightarrow> bytes" where
  "after_head out head w = drop (length head) (out w)"

definition has_head :: "('w \<Rightarrow> bytes) \<Rightarrow> ('w \<Rightarrow> bool) \<Rightarrow> bytes \<Rightarrow> 'w \<Rightarrow> bool" where
  "has_head out winv head w \<longleftrightarrow> winv w \<and> take (length head) (out w) = head"

lemma has_head_out: "has_head out winv head w \<Longrightarrow> out w = head @ after_head out head w"
  unfolding has_head_def after_head_def by (metis append_take_drop_id)

lemma has_headI: "winv w \<Longrightarrow> out w = head @ c \<Longrightarrow> has_head out winv head w \<and> after_head out head w = c"
  by (simp add: has_head_def after_head_def)

lemma head_room_sink:
  assumes "room_sink wr out winv room"
  shows "room_sink wr (after_head out head) (has_head out winv head) room"
proof (intro room_sink.intro sink.intro room_sink_axioms.intro)
  fix w bs k w' assume w: "has_head out winv head w" "bs \<noteq> []" "wr bs w = (Inr k, w')"
  with sink.write_ok [of wr out winv w bs k w'] assms have o: "winv w'" "out w' = out w @ take k bs" "k \<le> length bs"
    by (simp_all add: room_sink_def has_head_def)
  then have "out w' = head @ (after_head out head w @ take k bs)" using has_head_out [OF w(1)] by simp
  from has_headI [of winv w' out head "after_head out head w @ take k bs", OF o(1) this] o(3)
  show "has_head out winv head w' \<and> after_head out head w' = after_head out head w @ take k bs \<and> k \<le> length bs" by simp
next
  fix w and bs :: bytes assume "has_head out winv head w" "bs \<noteq> []" "length bs \<le> room w"
  then show "\<exists>k w'. wr bs w = (Inr k, w') \<and> 0 < k \<and> room w \<le> room w' + k"
    using room_sink.write_room [OF assms] by (simp add: has_head_def)
qed

lemma raw_room_sink:
  assumes "room_sink wr out winv room"
  shows "room_sink (raw_write wr) (\<lambda>s. out (rw_inner s)) (\<lambda>s. winv (rw_inner s)) (\<lambda>s. room (rw_inner s))"
proof (intro room_sink.intro sink.intro room_sink_axioms.intro)
  fix w :: "'a raw_writer" and bs k w' assume w: "winv (rw_inner w)" "bs \<noteq> []" "raw_write wr bs w = (Inr k, w')"
  then obtain x where "wr bs (rw_inner w) = (Inr k, x)" "w' = w\<lparr>rw_inner := x\<rparr>"
    by (auto simp: raw_write_def on_field_def split: prod.splits)
  with w sink.write_ok [of wr out winv] assms
  show "winv (rw_inner w') \<and> out (rw_inner w') = out (rw_inner w) @ take k bs \<and> k \<le> length bs"
    by (simp add: room_sink_def)
next
  fix w :: "'a raw_writer" and bs :: bytes assume w: "winv (rw_inner w)" "bs \<noteq> []" "length bs \<le> room (rw_inner w)"
  from room_sink.write_room [OF assms this] obtain k x where "wr bs (rw_inner w) = (Inr k, x)" "0 < k"
    "room (rw_inner w) \<le> room x + k" by blast
  then show "\<exists>k w'. raw_write wr bs w = (Inr k, w') \<and> 0 < k \<and> room (rw_inner w) \<le> room (rw_inner w') + k"
    by (intro exI [of _ k] exI [of _ "w\<lparr>rw_inner := x\<rparr>"]) (simp add: raw_write_def on_field_def)
qed

lemma raw_whole_writes: "whole_writes wr winv \<Longrightarrow> whole_writes (raw_write wr) (\<lambda>s. winv (rw_inner s))"
  by (auto simp: whole_writes_def raw_write_def on_field_def split: prod.splits)

text \<open>17 bytes are kept for the tail of the archive, which goes to the raw writer after finalization.\<close>

definition plain_fmt ::
  "('w \<Rightarrow> bytes) \<Rightarrow> ('w \<Rightarrow> bool) \<Rightarrow> ('w \<Rightarrow> nat) \<Rightarrow> bytes \<Rightarrow> bytes \<Rightarrow> 'w \<Rightarrow> bool" where
  "plain_fmt out winv room head c f \<longleftrightarrow> winv f \<and> out f = head @ c \<and> 17 \<le> room f"

lemma raw_level:
  assumes "room_sink wr out winv room"
  shows "writer_level (raw_write wr) (after_head (\<lambda>s. out (rw_inner s)) head)
    (has_head (\<lambda>s. out (rw_inner s)) (\<lambda>s. winv (rw_inner s)) head) (\<lambda>s. room (rw_inner s)) raw_finalize 17
    (plain_fmt out winv room head)"
proof (intro writer_level.intro writer_level_axioms.intro)
  show "room_sink (raw_write wr) (after_head (\<lambda>s. out (rw_inner s)) head)
    (has_head (\<lambda>s. out (rw_inner s)) (\<lambda>s. winv (rw_inner s)) head) (\<lambda>s. room (rw_inner s))"
    by (rule head_room_sink [OF raw_room_sink [OF assms]])
  fix w :: "'a raw_writer"
  assume w: "has_head (\<lambda>s. out (rw_inner s)) (\<lambda>s. winv (rw_inner s)) head w" "17 \<le> room (rw_inner w)"
  from has_head_out [OF w(1)] w
  show "\<exists>f. raw_finalize w = Inr f \<and> plain_fmt out winv room head (after_head (\<lambda>s. out (rw_inner s)) head w) f"
    by (simp add: raw_finalize_def plain_fmt_def has_head_def)
qed

section \<open>The signature layer\<close>

context room_sink
begin

lemma runs_signatures:
  assumes "sig_ok P" and "sign_all P hash ks g = Some sigs"
  shows "runs (sign_with_keys P wr hash ks g) (enc_signatures P sigs) ()"
  using assms(2)
proof (induction ks arbitrary: g sigs)
  case Nil
  then show ?case by (simp add: enc_signatures_def runs_ret)
next
  case (Cons k ks)
  then obtain s g' sigs' where s: "sign_mldsa87 P k hash g = (Inr s, g')" "sign_all P hash ks g' = Some sigs'"
    "sigs = MLAEd25519 (sign_ed25519 P k hash) # MLAMlDsa87 s # sigs'"
    by (auto split: prod.splits sum.splits)
  have e: "runs (ed25519_signature_serialize wr (sign_ed25519 P k hash))
      (to_le 2 MLAED25519_SIG_METHOD @ sign_ed25519 P k hash) (2 + ED25519_SIGNATURE_LENGTH)"
    unfolding ed25519_signature_serialize_def
    by (rule runs_bindE, rule runs_u16, rule runs_last, rule runs_lift_io, rule runs_write_all, rule runs_ret)
  have m: "runs (mldsa87_signature_serialize P wr s) (to_le 2 MLAMLDSA87_SIG_METHOD @ sp_ml_encode P s)
      (2 + ML_DSA87_SIGNATURE_SIZE)"
    unfolding mldsa87_signature_serialize_def
    by (rule runs_bindE, rule runs_u16, rule runs_last, rule runs_lift_io, rule runs_write_all, rule runs_ret)
  have "runs (sign_with_keys P wr hash (k # ks) g) ((to_le 2 MLAED25519_SIG_METHOD @ sign_ed25519 P k hash) @
      (to_le 2 MLAMLDSA87_SIG_METHOD @ sp_ml_encode P s) @ enc_signatures P sigs') ()"
    unfolding sign_with_keys.simps s(1) prod.case sum.case
    by (rule runs_bindE [OF e], rule runs_bindE [OF m], rule Cons.IH [OF s(2)])
  then show ?case
    by (simp add: s(3) enc_signatures_def MLAED25519_SIG_METHOD_def MLAMLDSA87_SIG_METHOD_def)
qed

lemma runs_sig_tail:
  assumes P: "sig_ok P" and g: "sc_rng cfg = Inr g" and s: "sign_all P hash (sc_keys cfg) g = Some sigs"
    and n: "length (sc_keys cfg) < 2 ^ 50"
  shows "runs (sig_write_tail P wr cfg hash) (sig_tail P sigs) ()"
proof -
  let ?n = "length (sc_keys cfg) * 4695"
  have l: "length (enc_signatures P sigs) = ?n" using sign_all_facts [OF P s] by (simp add: mult.commute)
  have b: "?n + 8 < 2 ^ 64" using n by simp
  then have sz: "lift_res (ok_or SerializationError (signature_data_size (length (sc_keys cfg)))) = (ret ?n :: ('w, error, nat) op)"
    by (auto simp: lift_res_def signature_data_size_eq ret_def)
  have rg: "lift_res (sc_rng cfg) = (ret g :: ('w, error, _) op)" using g by (auto simp: lift_res_def ret_def)
  have "runs (sig_write_tail P wr cfg hash) (EMPTY_TAIL_OPTS_SERIALIZATION @ to_le 8 ?n @ enc_signatures P sigs @ to_le 8 (?n + 8)) ()"
    unfolding sig_write_tail_def sz rg
    by (rule runs_bindE [OF runs_lift_io [OF runs_write_all]], rule runs_skip [OF runs_ret],
        rule runs_bindE [OF runs_u64], rule runs_skip [OF runs_ret], rule runs_bindE [OF runs_signatures [OF P s]],
        rule runs_skip [OF runs_checked_add [OF b]], rule runs_last [OF runs_u64 runs_ret])
  then show ?thesis by (simp add: sig_tail_def enc_vec_def l)
qed

end

lemma sig_room_sink:
  assumes rs: "room_sink wr out winv room" and ww: "whole_writes wr winv"
  shows "room_sink (sig_write wr) (\<lambda>s. out (sw_inner s))
    (\<lambda>s. hashed_winv out winv h0 base (sw_inner s) (sw_hash s) \<and> sw_config s = cfg) (\<lambda>s. room (sw_inner s))"
proof (intro room_sink.intro sink.intro room_sink_axioms.intro)
  have sk: "sink wr out winv" using rs by (simp add: room_sink_def)
  fix w :: "('a, 'b) sig_writer" and bs k w'
  assume w: "hashed_winv out winv h0 base (sw_inner w) (sw_hash w) \<and> sw_config w = cfg" "bs \<noteq> []"
    "sig_write wr bs w = (Inr k, w')"
  have "sw_config w' = sw_config w" using w(3) by (auto simp: sig_write_def split: prod.splits)
  with sink.write_ok [OF sig_write_sink [OF sk ww] conjunct1 [OF w(1)] w(2,3)] w(1)
  show "(hashed_winv out winv h0 base (sw_inner w') (sw_hash w') \<and> sw_config w' = cfg) \<and>
      out (sw_inner w') = out (sw_inner w) @ take k bs \<and> k \<le> length bs" by simp
next
  fix w :: "('a, 'b) sig_writer" and bs :: bytes
  assume w: "hashed_winv out winv h0 base (sw_inner w) (sw_hash w) \<and> sw_config w = cfg" "bs \<noteq> []"
    "length bs \<le> room (sw_inner w)"
  then have "winv (sw_inner w)" by (simp add: hashed_winv_def)
  from room_sink.write_room [OF rs this w(2,3)] obtain k x where "wr bs (sw_inner w) = (Inr k, x)" "0 < k"
    "room (sw_inner w) \<le> room x + k" by blast
  then show "\<exists>k w'. sig_write wr bs w = (Inr k, w') \<and> 0 < k \<and> room (sw_inner w) \<le> room (sw_inner w') + k"
    by (intro exI [of _ k] exI [of _ "w\<lparr>sw_hash := sw_hash w @ bs, sw_inner := x\<rparr>"]) (simp add: sig_write_def)
qed

text \<open>No key fails to sign.\<close>

definition can_sign :: "('g, 's) sig_prims \<Rightarrow> 'g signature_config \<Rightarrow> bool" where
  "can_sign P cfg \<longleftrightarrow> length (sc_keys cfg) < 2 ^ 50 \<and>
     (\<exists>g. sc_rng cfg = Inr g \<and> (\<forall>hash. sign_all P hash (sc_keys cfg) g \<noteq> None))"

definition signed_fmt ::
  "('w \<Rightarrow> bytes) \<Rightarrow> ('w \<Rightarrow> bool) \<Rightarrow> ('w \<Rightarrow> nat) \<Rightarrow> bytes \<Rightarrow> ('g, 's) sig_prims \<Rightarrow> 'g signature_config \<Rightarrow> bytes \<Rightarrow>
   bytes \<Rightarrow> 'w \<Rightarrow> bool" where
  "signed_fmt out winv room head P cfg h0 c f \<longleftrightarrow>
     (\<exists>g sigs. sc_rng cfg = Inr g \<and>
       sign_all P (h0 @ SIGNATURE_LAYER_MAGIC @ EMPTY_OPTS_SERIALIZATION @ c) (sc_keys cfg) g = Some sigs \<and>
       plain_fmt out winv room head (sig_layer P sigs c) f)"

definition sig_head :: "bytes \<Rightarrow> bytes" where
  "sig_head head = head @ SIGNATURE_LAYER_MAGIC @ EMPTY_OPTS_SERIALIZATION"

lemma sig_level:
  assumes rs: "room_sink wr out winv room" and ww: "whole_writes wr winv" and P: "sig_ok P" and cs: "can_sign P cfg"
  shows "writer_level (sig_write (raw_write wr)) (after_head (\<lambda>s. out (rw_inner (sw_inner s))) (sig_head head))
    (has_head (\<lambda>s. out (rw_inner (sw_inner s)))
      (\<lambda>s. hashed_winv (\<lambda>s. out (rw_inner s)) (\<lambda>s. winv (rw_inner s)) h0 (length head) (sw_inner s) (sw_hash s) \<and>
         sw_config s = cfg) (sig_head head))
    (\<lambda>s. room (rw_inner (sw_inner s))) (sig_finalize P raw_finalize wr) (42 + 4695 * length (sc_keys cfg))
    (signed_fmt out winv room head P cfg h0)"
    (is "writer_level ?wr ?out ?winv ?room ?fin ?tail ?fmt")
proof (intro writer_level.intro writer_level_axioms.intro)
  show "room_sink ?wr ?out ?winv ?room"
    by (rule head_room_sink, rule sig_room_sink [OF raw_room_sink [OF rs] raw_whole_writes [OF ww]])
  fix w assume w: "?winv w" "?tail \<le> ?room w"
  let ?c = "?out w" and ?r = "rw_inner (sw_inner w)"
  have i: "winv ?r" "sw_config w = cfg" "sw_hash w = h0 @ drop (length head) (out ?r)"
    using w(1) by (auto simp: has_head_def hashed_winv_def)
  have o: "out ?r = head @ SIGNATURE_LAYER_MAGIC @ EMPTY_OPTS_SERIALIZATION @ ?c"
    using has_head_out [OF w(1)] by (simp add: sig_head_def)
  let ?h = "h0 @ SIGNATURE_LAYER_MAGIC @ EMPTY_OPTS_SERIALIZATION @ ?c"
  have h: "sw_hash w = ?h" using i(3) o by simp
  from cs obtain g sigs where g: "sc_rng cfg = Inr g" "sign_all P ?h (sc_keys cfg) g = Some sigs"
    and n: "length (sc_keys cfg) < 2 ^ 50"
    unfolding can_sign_def by (metis option.exhaust)
  have l: "length (sig_tail P sigs) = 25 + 4695 * length (sc_keys cfg)"
    using sign_all_facts [OF P g(2)]
    by (simp add: sig_tail_def EMPTY_TAIL_OPTS_SERIALIZATION_def length_enc_vec o_def sum_list_triv)
  then have "length (sig_tail P sigs) \<le> room ?r" using w(2) by linarith
  from room_sink.runsE [OF rs room_sink.runs_sig_tail [OF rs P g n] i(1) this] obtain f where
    f: "sig_write_tail P wr cfg ?h ?r = (Inr (), f)" "winv f" "out f = out ?r @ sig_tail P sigs"
    "room ?r \<le> room f + length (sig_tail P sigs)" .
  have "17 \<le> room f" using f(4) l w(2) by linarith
  with f g o have "?fmt ?c f" by (auto simp: signed_fmt_def plain_fmt_def sig_layer_def)
  moreover have "?fin w = Inr f" using f(1) i(2) h by (simp add: sig_finalize_def raw_finalize_def)
  ultimately show "\<exists>f. ?fin w = Inr f \<and> ?fmt ?c f" by blast
qed

section \<open>The encryption layer\<close>

context writer_level
begin

lemma enc_level:
  assumes G: "gcm_prims_ok G"
  shows "writer_level (enc_write G wr) (enc_out out G base)
    (\<lambda>s. enc_winv out winv G base s \<and> ew_key s = key \<and> ew_base_nonce s = nonce) (enc_room room)
    (enc_finalize G wr fin) (tail + 3)
    (\<lambda>c. fmt (base @ enc_body G key nonce (chunks c) @ EMPTY_TAIL_OPTS_SERIALIZATION))"
    (is "writer_level ?wr ?out ?winv ?room ?fin ?tail ?fmt")
proof (intro writer_level.intro writer_level_axioms.intro room_sink.intro sink.intro room_sink_axioms.intro)
  note er = enc_room_sink [OF room_sink_axioms G, of base]
  {
    fix w bs k w' assume w: "?winv w" "bs \<noteq> []" "?wr bs w = (Inr k, w')"
    then obtain ds cur where s: "enc_state out winv G base ds cur w" by (auto simp: enc_winv_def)
    from enc_write_state [OF G s w(3)] have "ew_key w' = ew_key w \<and> ew_base_nonce w' = ew_base_nonce w" by blast
    with sink.write_ok [OF room_sink.axioms(1) [OF er] conjunct1 [OF w(1)] w(2,3)] w(1)
    show "?winv w' \<and> ?out w' = ?out w @ take k bs \<and> k \<le> length bs" by simp
  next
    fix w and bs :: bytes assume "?winv w" "bs \<noteq> []" "length bs \<le> ?room w"
    then show "\<exists>k w'. ?wr bs w = (Inr k, w') \<and> 0 < k \<and> ?room w \<le> ?room w' + k"
      using room_sink.write_room [OF er] by blast
  next
    fix w assume w: "?winv w" "?tail \<le> ?room w"
    then obtain ds cur where s: "enc_state out winv G base ds cur w" "cur = [] \<longrightarrow> ds = []" by (auto simp: enc_winv_def)
    have ctr: "ew_ctr w = Suc (length ds)" using s(1) by (simp add: enc_state_def)
    have "?tail \<le> room (ew_inner w) div 33" and c: "?tail \<le> 2 ^ 64 - 2 - ew_ctr w" using w(2) by (simp_all add: enc_room_def)
    moreover have "a \<le> b div 33 \<Longrightarrow> 33 * a \<le> b" for a b :: nat by linarith
    ultimately have "33 * ?tail \<le> room (ew_inner w)" by blast
    moreover have "a \<le> b - c \<Longrightarrow> 0 < a \<Longrightarrow> c + a \<le> b" for a b c :: nat by simp
    from this [OF c] have "ew_ctr w + ?tail \<le> 2 ^ 64 - 2" by simp
    ultimately have "33 * ?tail \<le> room (ew_inner w)" "ew_ctr w + ?tail \<le> 2 ^ 64 - 2" by simp_all
    then have r: "67 + tail \<le> room (ew_inner w)" "length ds + 3 < 2 ^ 64" using ctr by simp_all
    then have "67 \<le> room (ew_inner w)" by simp
    from enc_finalize_writes_room [OF G s(1) this r(2)] obtain w' where
      w': "enc_finalize_writes G wr w = (Inr (), w')" "room (ew_inner w) \<le> room (ew_inner w') + 67" by blast
    from enc_finalize_writes_out [OF G s(1) w'(1)] w(1) have o: "winv (ew_inner w')"
      "out (ew_inner w') = base @ enc_body G key nonce (ds @ [cur]) @ EMPTY_TAIL_OPTS_SERIALIZATION" by auto
    have "tail \<le> room (ew_inner w')" using r(1) w'(2) by linarith
    from finish [OF o(1) this] obtain f where f: "fin (ew_inner w') = Inr f" "fmt (out (ew_inner w')) f" by blast
    have "chunks (?out w) = ds @ [cur]"
      using chunks_concat [of ds cur] s enc_out_state [OF G s(1)] by (simp add: enc_state_def)
    then show "\<exists>f. ?fin w = Inr f \<and> ?fmt (?out w) f"
      using f o(2) w'(1) by (simp add: enc_finalize_def)
  }
qed

text \<open>The layer is made once the keys are encapsulated.\<close>

lemma enc_level_start:
  assumes w: "winv w" "out w = []" and t: "to_persistent K G keys g = (Inr (pc, (key, nonce)), g')"
    and l: "length (enc_persistent pc) < 2 ^ 60" and r: "length (enc_header pc) + 16 \<le> room w"
  obtains s where "enc_layer_writer_new K G wr keys g w = Inr s"
    "enc_winv out winv G (enc_header pc) s \<and> ew_key s = key \<and> ew_base_nonce s = nonce"
    "enc_state out winv G (enc_header pc) [] [] s" "room w \<le> room (ew_inner s) + length (enc_header pc) + 16"
proof -
  have "length (enc_persistent pc) < 2 ^ 64" using l by simp
  note rh = runs_enc_header [OF this]
  have "length (enc_header pc @ chunk_head 1) \<le> room w" using r by simp
  from runsE [OF rh w(1) this] obtain w1 where w1: "enc_write_header wr pc w = (Inr 8, w1)" "winv w1"
    "out w1 = enc_header pc @ chunk_head 1" "room w \<le> room w1 + length (enc_header pc @ chunk_head 1)"
    using w(2) by auto
  obtain s where s: "enc_writer_new G w1 key nonce = Inr s" "ew_inner s = w1"
    using enc_writer_new_total [of G w1 key nonce] by blast
  from enc_writer_new_state [where winv = winv and out = out and base = "enc_header pc", OF s(1) w1(2,3)] have st: "enc_state out winv G (enc_header pc) [] [] s" "ew_key s = key"
    "ew_base_nonce s = nonce" by simp_all
  show thesis
    by (rule that [of s]) (use t w1 s st in \<open>auto simp: enc_layer_writer_new_def enc_winv_def\<close>)
qed

end

section \<open>The compression layer\<close>

text \<open>What was written is read off the blocks already closed and the block that closing would add.\<close>

primrec decode_all :: "(bytes \<Rightarrow> bytes option) \<Rightarrow> nat list \<Rightarrow> bytes \<Rightarrow> bytes" where
  "decode_all decode [] v = []"
| "decode_all decode (n # ns) v = the (decode (take n v)) @ decode_all decode ns (drop n v)"

definition comp_out ::
  "(bytes \<Rightarrow> bytes option) \<Rightarrow> ('w, 'c) brotli_writer \<Rightarrow> ('w \<Rightarrow> bytes) \<Rightarrow> bytes \<Rightarrow> ('w, 'c) compression_writer \<Rightarrow> bytes" where
  "comp_out decode B out base s =
     (case cw_state s of
        WReady w \<Rightarrow> decode_all decode (cw_compressed_sizes s) (drop (length base) (out w))
      | WInData n c \<Rightarrow>
          decode_all decode (cw_compressed_sizes s @ [wc_pos (bw_into_inner B c)])
            (drop (length base) (out (wc_inner (bw_into_inner B c))))
      | WEmpty \<Rightarrow> [])"

lemma decode_all_ok: "compressed_as decode bound cs ds \<Longrightarrow> decode_all decode (map length cs) (concat cs) = concat ds"
  unfolding compressed_as_def by (induction rule: list_all2_induct) auto

definition limited_write ::
  "nat \<Rightarrow> ('w \<Rightarrow> bytes) \<Rightarrow> (bytes \<Rightarrow> ('w, io_error, nat) op) \<Rightarrow> bytes \<Rightarrow> ('w, io_error, nat) op" where
  "limited_write limit out wr bs s =
     (if length (out s) + length bs \<le> limit then wr bs s else (Inl IoOther, s))"

lemma limited_below: "below_write (limited_write limit out wr) wr"
  by (simp add: below_write_def below_def limited_write_def)

definition comp_winv ::
  "(bytes \<Rightarrow> bytes option) \<Rightarrow> nat \<Rightarrow> ('w \<Rightarrow> bytes) \<Rightarrow> ('w \<Rightarrow> bool) \<Rightarrow> ('w \<Rightarrow> nat) \<Rightarrow>
   ('w writer_with_count \<Rightarrow> bytes \<Rightarrow> 'c \<Rightarrow> bool) \<Rightarrow> 'w \<Rightarrow> nat \<Rightarrow> ('w, 'c) compression_writer \<Rightarrow> bool" where
  "comp_winv decode bound out winv room J w0 limit s \<longleftrightarrow>
     (\<exists>cs ds cur. comp_wstate decode bound out winv room J w0 cs ds cur s \<and> (in_data s \<or> ds = []) \<and>
        length (concat ds @ cur) \<le> limit)"

text \<open>What closing the layer may write: the blocks, their index and the options.\<close>

definition comp_cost :: "nat \<Rightarrow> nat \<Rightarrow> nat" where
  "comp_cost bound limit = comp_budget bound limit + 4 * (limit div UNCOMPRESSED_DATA_SIZE + 2) + 29"

context room_sink
begin

lemma comp_out_state:
  assumes L: "brotli_writer_laws decode bound wr B J" and s: "comp_wstate decode bound out winv room J w0 cs ds cur s"
  shows "comp_out decode B out (out w0) s = concat ds @ cur"
proof (cases "cw_state s")
  case (WReady w)
  with s have "compressed_as decode bound cs ds" "cw_compressed_sizes s = map length cs" "out w = out w0 @ concat cs" "cur = []"
    by (auto simp: comp_wstate_def)
  with WReady decode_all_ok [of decode bound cs ds] show ?thesis by (simp add: comp_out_def)
next
  case (WInData n c)
  from comp_into_inner [OF L s WInData] obtain x where x: "decode x = Some cur" "length x \<le> bound"
    "wc_pos (bw_into_inner B c) = length x" "out (wc_inner (bw_into_inner B c)) = out w0 @ concat (cs @ [x])" .
  have st: "cw_compressed_sizes s = map length cs" "compressed_as decode bound cs ds"
    using s by (simp_all add: comp_wstate_def)
  from decode_all_ok [OF compressed_as_snoc [OF st(2) x(1,2)]] st(1) x(3,4) WInData show ?thesis
    by (simp add: comp_out_def)
next
  case WEmpty
  then show ?thesis using s by (simp add: comp_wstate_def)
qed

lemma comp_room_sink:
  assumes L: "brotli_writer_laws decode bound wr B J" and r: "comp_budget bound limit \<le> room w0"
  shows "room_sink (limited_write limit (comp_out decode B out (out w0)) (compression_write B))
    (comp_out decode B out (out w0)) (comp_winv decode bound out winv room J w0 limit)
    (\<lambda>s. limit - length (comp_out decode B out (out w0) s))"
    (is "room_sink ?wr ?out ?winv ?room")
proof -
  have step: "\<exists>k s'. ?wr bs s = (Inr k, s') \<and> k \<le> length bs \<and> 0 < k \<and> ?winv s' \<and> ?out s' = ?out s @ take k bs"
    if i: "?winv s" and bs: "bs \<noteq> []" "length (?out s) + length bs \<le> limit" for bs s
  proof -
    from i obtain cs ds cur where s: "comp_wstate decode bound out winv room J w0 cs ds cur s"
      "length (concat ds @ cur) \<le> limit" by (auto simp: comp_winv_def)
    note o = comp_out_state [OF L s(1)]
    have "\<forall>d\<in>set ds. length d = UNCOMPRESSED_DATA_SIZE" using s(1) by (simp add: comp_wstate_def)
    from comp_budget_blocks [OF this, of bound cur] comp_budget_mono [OF s(2), of bound] r
    have "(length ds + 2) * bound \<le> room w0" by linarith
    from comp_write_ok [OF L s(1) this, of bs] obtain k s' cs' ds' cur' where
      k: "compression_write B bs s = (Inr k, s')" "k \<le> length bs" "0 < k"
      "comp_wstate decode bound out winv room J w0 cs' ds' cur' s'" "concat ds' @ cur' = concat ds @ cur @ take k bs"
      "in_data s'" using bs(1) by auto
    have "length (concat ds' @ cur') \<le> limit" using k(2,5) bs(2) o by simp
    with k(4,6) have "?winv s'" by (auto simp: comp_winv_def)
    with k o comp_out_state [OF L k(4)] bs(2) show ?thesis by (simp add: limited_write_def)
  qed
  show ?thesis
  proof (intro room_sink.intro sink.intro room_sink_axioms.intro)
    fix s bs k s' assume a: "?winv s" "bs \<noteq> []" "?wr bs s = (Inr k, s')"
    then have "length (?out s) + length bs \<le> limit" by (auto simp: limited_write_def split: if_splits)
    from step [OF a(1,2) this] a(3) show "?winv s' \<and> ?out s' = ?out s @ take k bs \<and> k \<le> length bs" by auto
  next
    fix s and bs :: bytes assume a: "?winv s" "bs \<noteq> []" "length bs \<le> ?room s"
    have "0 < length bs" using a(2) by simp
    then have "length (?out s) + length bs \<le> limit" using a(3) by linarith
    from step [OF a(1,2) this] obtain k s' where "?wr bs s = (Inr k, s')" "k \<le> length bs" "0 < k"
      "?out s' = ?out s @ take k bs" by blast
    then show "\<exists>k s'. ?wr bs s = (Inr k, s') \<and> 0 < k \<and> ?room s \<le> ?room s' + k" by auto
  qed
qed

lemma runs_comp_footer:
  assumes "length (enc_sizes_info si) < 2 ^ 64"
  shows "runs (bindE (lift_io (write_all wr EMPTY_TAIL_OPTS_SERIALIZATION)) (\<lambda>_.
     bindE (sizes_info_serialize wr si) (u64_serialize wr)))
   (EMPTY_TAIL_OPTS_SERIALIZATION @ enc_sizes_info si @ to_le 8 (length (enc_sizes_info si))) 8"
proof -
  let ?v = "enc_vec (to_le 4) (si_compressed_sizes si)"
  have l: "length ?v + 4 < 2 ^ 64" using assms by (simp add: enc_sizes_info_def)
  have v: "runs (vec_serialize wr (u32_serialize wr) (si_compressed_sizes si)) ?v (length ?v)"
    by (rule runs_vec) (use l in \<open>simp_all add: runs_u32\<close>)
  have "runs (sizes_info_serialize wr si) (?v @ to_le 4 (si_last_block_size si)) (length ?v + 4)"
    unfolding sizes_info_serialize_def
    by (rule runs_bindE [OF v], rule runs_last [OF runs_u32], rule runs_checked_add [OF l])
  then have "runs (sizes_info_serialize wr si) (enc_sizes_info si) (length (enc_sizes_info si))"
    by (simp add: enc_sizes_info_def)
  then show ?thesis
    by (intro runs_bindE [OF runs_lift_io [OF runs_write_all]] runs_bindE [OF _ runs_u64])
qed

end

lemma comp_blocks_count:
  assumes "comp_blocks ds pt" and "length pt \<le> n"
  shows "length ds \<le> n div UNCOMPRESSED_DATA_SIZE + 1"
proof -
  have c: "length (concat xs) = length xs * UNCOMPRESSED_DATA_SIZE"
    if "\<forall>d\<in>set xs. length d = UNCOMPRESSED_DATA_SIZE" for xs :: "bytes list"
    using that by (induction xs) simp_all
  have "length (concat (butlast ds)) = length (butlast ds) * UNCOMPRESSED_DATA_SIZE"
    using assms(1) by (intro c) (simp add: comp_blocks_def)
  moreover have "length (concat (butlast ds)) \<le> length pt"
  proof (cases ds rule: rev_cases)
    case (snoc xs x)
    then show ?thesis using assms(1) by (auto simp: comp_blocks_def)
  qed simp
  ultimately have "length (butlast ds) * UNCOMPRESSED_DATA_SIZE \<le> n" using assms(2) by simp
  then have "length (butlast ds) \<le> n div UNCOMPRESSED_DATA_SIZE"
    by (simp add: UNCOMPRESSED_DATA_SIZE_def less_eq_div_iff_mult_less_eq)
  then show ?thesis by simp
qed

context writer_level
begin

lemma comp_level:
  assumes L: "brotli_writer_laws decode bound wr B J" and n: "limit < 2 ^ 60"
    and r: "comp_cost bound limit + tail \<le> room w0"
  shows "writer_level (limited_write limit (comp_out decode B out (out w0)) (compression_write B))
    (comp_out decode B out (out w0)) (comp_winv decode bound out winv room J w0 limit)
    (\<lambda>s. limit - length (comp_out decode B out (out w0) s)) (compression_finalize B wr fin) 0
    (\<lambda>c f. \<exists>cs ds. compressed_as decode bound cs ds \<and> comp_blocks ds c \<and> fmt (out w0 @ comp_body cs ds) f)"
    (is "writer_level ?wr ?out ?winv ?room ?fin 0 ?fmt")
proof (intro writer_level.intro writer_level_axioms.intro)
  show "room_sink ?wr ?out ?winv ?room" by (rule comp_room_sink [OF L]) (use r in \<open>simp add: comp_cost_def\<close>)
  fix s assume "?winv s"
  then obtain cs ds cur where s: "comp_wstate decode bound out winv room J w0 cs ds cur s" "in_data s \<or> ds = []"
    "length (concat ds @ cur) \<le> limit" by (auto simp: comp_winv_def)
  note o = comp_out_state [OF L s(1)]
  from comp_close_ok [OF L s(1,2)] obtain w1 cs' ds' where c: "compression_close B s = Inr (w1, comp_index cs' ds')"
    "winv w1" "out w1 = out w0 @ concat cs'" "room w0 \<le> room w1 + length (concat cs')"
    "compressed_as decode bound cs' ds'" "comp_blocks ds' (concat ds @ cur)" by blast
  let ?si = "comp_index cs' ds'" and ?b = "limit div UNCOMPRESSED_DATA_SIZE"
  have k: "length ds' \<le> ?b + 1" by (rule comp_blocks_count [OF c(6) s(3)])
  have lc: "length cs' = length ds'" by (rule compressed_as_length [OF c(5)])
  have "length (concat cs') \<le> length ds' * bound" by (rule compressed_as_bound [OF c(5)])
  also have "\<dots> \<le> (?b + 2) * bound" using k by (intro mult_le_mono1) simp
  finally have cb: "length (concat cs') \<le> comp_budget bound limit" by (simp add: comp_budget_def)
  have le: "length (enc_sizes_info ?si) \<le> 12 + 4 * (?b + 1)"
    using k lc by (simp add: length_enc_sizes_info comp_index_def)
  have "?b < 2 ^ 60" using n div_le_dividend [of limit UNCOMPRESSED_DATA_SIZE] by linarith
  then have "length (enc_sizes_info ?si) < 2 ^ 64" using le by simp
  note rf = runs_comp_footer [OF this]
  let ?F = "EMPTY_TAIL_OPTS_SERIALIZATION @ enc_sizes_info ?si @ to_le 8 (length (enc_sizes_info ?si))"
  have lf: "length ?F = 17 + length (enc_sizes_info ?si)" by (simp add: EMPTY_TAIL_OPTS_SERIALIZATION_def)
  have sum: "a + 4 * (b + 2) + 29 + t \<le> x \<Longrightarrow> x \<le> y + c \<Longrightarrow> c \<le> a \<Longrightarrow> e \<le> 12 + 4 * (b + 1) \<Longrightarrow> l = 17 + e \<Longrightarrow>
      l + t \<le> y" for a b c e l t x y :: nat by simp
  have "length ?F + tail \<le> room w1" by (rule sum [OF r [unfolded comp_cost_def] c(4) cb le lf])
  then have rm: "length ?F \<le> room w1" "length ?F + tail \<le> room w1" by linarith+
  from runsE [OF rf c(2) rm(1)] obtain w2 where w2: "bindE (lift_io (write_all wr EMPTY_TAIL_OPTS_SERIALIZATION)) (\<lambda>_.
     bindE (sizes_info_serialize wr ?si) (u64_serialize wr)) w1 = (Inr 8, w2)" "winv w2" "out w2 = out w1 @ ?F"
    "room w1 \<le> room w2 + length ?F" .
  have "tail \<le> room w2" using rm(2) w2(4) by linarith
  from finish [OF w2(2) this] obtain f where f: "fin w2 = Inr f" "fmt (out w2) f" by blast
  have "out w2 = out w0 @ comp_body cs' ds'" using w2(3) c(3) by (simp add: comp_body_def)
  then show "\<exists>f. ?fin s = Inr f \<and> ?fmt (?out s) f"
    using f c(1,5,6) w2(1) o by (auto simp: compression_finalize_def compression_finalize_writes_def)
qed

lemma comp_level_start:
  assumes w: "winv w" "out w = []" and r: "9 \<le> room w" and c: "cc_compression_level config \<le> 11"
  obtains s w0 where "compression_writer_new wr config w = Inr s" "out w0 = comp_header" "room w \<le> room w0 + 9"
    "\<And>decode bound J (B :: ('w, 'c) brotli_writer) limit. comp_winv decode bound out winv room J w0 limit (s :: ('w, 'c) compression_writer) \<and>
       comp_out decode B out (out w0) s = []"
proof -
  have "runs (bindE (lift_io (write_all wr COMPRESSION_LAYER_MAGIC)) (\<lambda>_. opts_dump wr))
      (COMPRESSION_LAYER_MAGIC @ EMPTY_OPTS_SERIALIZATION) 1"
    by (rule runs_bindE, rule runs_lift_io, rule runs_write_all, rule runs_opts)
  moreover have "length (COMPRESSION_LAYER_MAGIC @ EMPTY_OPTS_SERIALIZATION) \<le> room w"
    using r by (simp add: EMPTY_OPTS_SERIALIZATION_def)
  ultimately obtain w1 where w1: "bindE (lift_io (write_all wr COMPRESSION_LAYER_MAGIC)) (\<lambda>_. opts_dump wr) w = (Inr 1, w1)"
    "winv w1" "out w1 = out w @ COMPRESSION_LAYER_MAGIC @ EMPTY_OPTS_SERIALIZATION"
    "room w \<le> room w1 + length (COMPRESSION_LAYER_MAGIC @ EMPTY_OPTS_SERIALIZATION)"
    using runsE [OF _ w(1)] by metis
  let ?s = "compression_writer_new_skip_header config w1 :: ('w, 'c) compression_writer"
  have st: "comp_wstate decode bound out winv room J w1 [] [] [] ?s" for decode bound J
    using w1(2) c by (simp add: comp_wstate_def compression_writer_new_skip_header_def compressed_as_def)
  show thesis
  proof (rule that [of ?s w1])
    show "compression_writer_new wr config w = Inr ?s" using w1(1) by (simp add: compression_writer_new_def)
    show "out w1 = comp_header" using w1(3) w(2) by (simp add: comp_header_def)
    show "room w \<le> room w1 + 9" using w1(4) by (simp add: EMPTY_OPTS_SERIALIZATION_def)
    fix decode bound and J :: "'w writer_with_count \<Rightarrow> bytes \<Rightarrow> 'c \<Rightarrow> bool" and B :: "('w, 'c) brotli_writer" and limit
    show "comp_winv decode bound out winv room J w1 limit ?s \<and> comp_out decode B out (out w1) ?s = []"
      using st [of decode bound J]
      by (auto simp: comp_winv_def comp_out_def compression_writer_new_skip_header_def intro!: exI [of _ "[]"])
  qed
qed

end

interpretation raw_vec: writer_level "raw_write vec_write" "after_head rw_inner head" "has_head rw_inner (\<lambda>_. True) head"
  "\<lambda>s. vec_room (rw_inner s)" raw_finalize 17 "plain_fmt (\<lambda>w. w) (\<lambda>_. True) vec_room head"
  using raw_level [OF vec.room_sink_axioms, of head] .

end
