(* ===== verification/Stack.thy ===== *)
theory Stack
  imports StackWriter
begin

text \<open>
  The whole writing stack: for every configuration, the writer is created, takes the files and is finalized,
  and the file that comes out is the header, the layers around each other, and the tail.
\<close>

section \<open>What the file is\<close>

definition compressed_form ::
  "(bytes \<Rightarrow> bytes option) \<Rightarrow> nat \<Rightarrow> compression_config option \<Rightarrow> bytes \<Rightarrow> bytes \<Rightarrow> bool" where
  "compressed_form decode bound compression content c \<longleftrightarrow>
     (case compression of
        None \<Rightarrow> c = content
      | Some _ \<Rightarrow> (\<exists>cs ds. compressed_as decode bound cs ds \<and> comp_blocks ds content \<and> c = comp_header @ comp_body cs ds))"

definition encrypted_form ::
  "'k kem_prims \<Rightarrow> gcm_prims \<Rightarrow> encryption_public_key list option \<Rightarrow> 'k \<Rightarrow> bytes \<Rightarrow> bytes \<Rightarrow> bool" where
  "encrypted_form K G encryption rng content c \<longleftrightarrow>
     (case encryption of
        None \<Rightarrow> c = content
      | Some keys \<Rightarrow> (\<exists>pc key nonce g'. to_persistent K G keys rng = (Inr (pc, (key, nonce)), g') \<and>
          c = enc_layer G pc key nonce content))"

definition signed_form ::
  "('g, 's) sig_prims \<Rightarrow> 'g signature_config option \<Rightarrow> bytes \<Rightarrow> bytes \<Rightarrow> bytes \<Rightarrow> bool" where
  "signed_form S signature h0 content c \<longleftrightarrow>
     (case signature of
        None \<Rightarrow> c = content
      | Some cfg \<Rightarrow> (\<exists>g sigs. sc_rng cfg = Inr g \<and>
          sign_all S (h0 @ SIGNATURE_LAYER_MAGIC @ EMPTY_OPTS_SERIALIZATION @ content) (sc_keys cfg) g = Some sigs \<and>
          c = sig_layer S sigs content))"

definition archive_tail :: bytes where
  "archive_tail = EMPTY_TAIL_OPTS_SERIALIZATION @ END_MLA_MAGIC"

definition archive_form ::
  "('g, 's) sig_prims \<Rightarrow> 'k kem_prims \<Rightarrow> gcm_prims \<Rightarrow> (bytes \<Rightarrow> bytes option) \<Rightarrow> nat \<Rightarrow> 'g archive_writer_config \<Rightarrow> 'k \<Rightarrow>
   bytes \<Rightarrow> bytes \<Rightarrow> bool" where
  "archive_form S K G decode bound config rng content v \<longleftrightarrow>
     (\<exists>c2 c1 c0. compressed_form decode bound (wcfg_compression config) content c2 \<and>
        encrypted_form K G (wcfg_encryption config) rng c2 c1 \<and>
        signed_form S (wcfg_signature config) Format.enc_header c1 c0 \<and> v = Format.enc_header @ c0 @ archive_tail)"

section \<open>The levels\<close>

lemma hash_room_sink:
  assumes rs: "room_sink wr out winv room" and ww: "whole_writes wr winv"
  shows "room_sink (hash_write wr) (\<lambda>s. out (hw_inner s)) (\<lambda>s. hashed_winv out winv h0 base (hw_inner s) (hw_hash s))
    (\<lambda>s. room (hw_inner s))"
proof (intro room_sink.intro room_sink_axioms.intro)
  show "sink (hash_write wr) (\<lambda>s. out (hw_inner s)) (\<lambda>s. hashed_winv out winv h0 base (hw_inner s) (hw_hash s))"
    by (rule hash_write_sink [OF _ ww]) (use rs in \<open>simp add: room_sink_def\<close>)
  fix w :: "'a hash_writer" and bs :: bytes
  assume w: "hashed_winv out winv h0 base (hw_inner w) (hw_hash w)" "bs \<noteq> []" "length bs \<le> room (hw_inner w)"
  then have "winv (hw_inner w)" by (simp add: hashed_winv_def)
  from room_sink.write_room [OF rs this w(2,3)] obtain k x where "wr bs (hw_inner w) = (Inr k, x)" "0 < k"
    "room (hw_inner w) \<le> room x + k" by blast
  then show "\<exists>k w'. hash_write wr bs w = (Inr k, w') \<and> 0 < k \<and> room (hw_inner w) \<le> room (hw_inner w') + k"
    by (intro exI [of _ k] exI [of _ "w\<lparr>hw_inner := x, hw_hash := hw_hash w @ bs\<rparr>"]) (simp add: hash_write_def)
qed

lemma write_archive_header_ok:
  assumes rs: "room_sink wr out winv room" and ww: "whole_writes wr winv" and w: "winv w" "13 \<le> room w"
  obtains r where "write_archive_header wr w = Inr (r, Format.enc_header)" "winv (rw_inner r)"
    "out (rw_inner r) = out w @ Format.enc_header" "room w \<le> room (rw_inner r) + 13"
proof -
  note hs = hash_room_sink [OF raw_room_sink [OF rs] raw_whole_writes [OF ww], of "[]" "length (out w)"]
  let ?s = "\<lparr>hw_inner = raw_writer_new w, hw_hash = []\<rparr>"
  have l: "length Format.enc_header = 13" by (simp add: Format.enc_header_def MLA_MAGIC_def EMPTY_OPTS_SERIALIZATION_def)
  have i: "hashed_winv (\<lambda>s. out (rw_inner s)) (\<lambda>s. winv (rw_inner s)) [] (length (out w)) (hw_inner ?s) (hw_hash ?s)"
    using w(1) by (simp add: hashed_winv_def raw_writer_new_def)
  have "length Format.enc_header \<le> room (rw_inner (hw_inner ?s))" using w(2) l by (simp add: raw_writer_new_def)
  from room_sink.runsE [OF hs room_sink.runs_archive_header [OF hs] i this] obtain h where
    h: "archive_header_serialize (hash_write (raw_write wr)) (ArchiveHeader MLA_FORMAT_VERSION) ?s = (Inr 13, h)"
    "hashed_winv (\<lambda>s. out (rw_inner s)) (\<lambda>s. winv (rw_inner s)) [] (length (out w)) (hw_inner h) (hw_hash h)"
    "out (rw_inner (hw_inner h)) = out (rw_inner (hw_inner ?s)) @ Format.enc_header"
    "room (rw_inner (hw_inner ?s)) \<le> room (rw_inner (hw_inner h)) + length Format.enc_header" .
  show thesis
    by (rule that [of "hw_inner h"]) (use h l in \<open>auto simp: write_archive_header_def hashed_winv_def raw_writer_new_def\<close>)
qed

lemma sig_level_new:
  fixes signature :: "'g signature_config option"
  assumes rs: "room_sink wr out winv room" and ww: "whole_writes wr winv" and P: "sig_ok S"
    and cs: "\<And>cfg. signature = Some cfg \<Longrightarrow> can_sign S cfg \<and> length (sc_keys cfg) < 2 ^ 40"
    and w: "winv (rw_inner w)" "9 \<le> room (rw_inner w)"
  obtains out1 winv1 room1 tail1 fmt1 l where
    "writer_level (sig_level_write wr) out1 winv1 room1 (sig_level_finalize S wr) tail1 fmt1"
    "add_signature_layer wr signature h0 w = Inr l" "winv1 l" "out1 l = []" "room (rw_inner w) \<le> room1 l + 9"
    "tail1 < 2 ^ 54"
    "\<forall>c f. fmt1 c f \<longrightarrow> (\<exists>c0. signed_form S signature h0 c c0 \<and> plain_fmt out winv room (out (rw_inner w)) c0 f)"
proof (cases signature)
  case None
  let ?h = "out (rw_inner w)"
  have lv: "writer_level (sig_level_write wr) (case_sum (after_head (\<lambda>s. out (rw_inner s)) ?h) (\<lambda>_. []))
      (case_sum (has_head (\<lambda>s. out (rw_inner s)) (\<lambda>s. winv (rw_inner s)) ?h) (\<lambda>_. False))
      (case_sum (\<lambda>s. room (rw_inner s)) (\<lambda>_. 0)) (sig_level_finalize S wr) 17 (plain_fmt out winv room ?h)"
    unfolding sig_level_write_def sig_level_finalize_def [abs_def] by (rule level_absent [OF raw_level [OF rs]])
  show thesis
    by (rule that [OF lv, of "Inl w"])
      (use None w in \<open>simp_all add: add_signature_layer_def after_head_def has_head_def signed_form_def\<close>)
next
  case (Some cfg)
  then have c: "can_sign S cfg" "length (sc_keys cfg) < 2 ^ 40" using cs by auto
  let ?o = "\<lambda>s. out (rw_inner s)" and ?i = "\<lambda>s. winv (rw_inner s)"
  let ?h = "?o w"
  let ?hi = "\<lambda>r hash. hashed_winv ?o ?i h0 (length ?h) r hash"
  have lv: "writer_level (sig_level_write wr) (case_sum (\<lambda>_. []) (after_head (\<lambda>s. ?o (sw_inner s)) (sig_head ?h)))
      (case_sum (\<lambda>_. False) (has_head (\<lambda>s. ?o (sw_inner s)) (\<lambda>s. ?hi (sw_inner s) (sw_hash s) \<and> sw_config s = cfg) (sig_head ?h)))
      (case_sum (\<lambda>_. 0) (\<lambda>s. room (rw_inner (sw_inner s)))) (sig_level_finalize S wr)
      (42 + 4695 * length (sc_keys cfg)) (signed_fmt out winv room ?h S cfg h0)"
    unfolding sig_level_write_def sig_level_finalize_def [abs_def] by (rule level_present [OF sig_level [OF rs ww P c(1)]])
  note hs = hash_room_sink [OF raw_room_sink [OF rs] raw_whole_writes [OF ww], of h0 "length ?h"]
  let ?m = "bindE (lift_io (write_all (hash_write (raw_write wr)) SIGNATURE_LAYER_MAGIC)) (\<lambda>_. opts_dump (hash_write (raw_write wr)))"
  have r: "room_sink.runs (\<lambda>s. ?o (hw_inner s)) (\<lambda>s. ?hi (hw_inner s) (hw_hash s)) (\<lambda>s. room (rw_inner (hw_inner s))) ?m
      (SIGNATURE_LAYER_MAGIC @ EMPTY_OPTS_SERIALIZATION) 1"
    by (rule room_sink.runs_bindE [OF hs], rule room_sink.runs_lift_io [OF hs], rule room_sink.runs_write_all [OF hs],
        rule room_sink.runs_opts [OF hs])
  let ?s = "\<lparr>hw_inner = w, hw_hash = h0\<rparr>"
  have ln: "length (SIGNATURE_LAYER_MAGIC @ EMPTY_OPTS_SERIALIZATION) = 9"
    by (simp add: SIGNATURE_LAYER_MAGIC_def EMPTY_OPTS_SERIALIZATION_def)
  have i: "?hi (hw_inner ?s) (hw_hash ?s)" using w(1) by (simp add: hashed_winv_def)
  have "length (SIGNATURE_LAYER_MAGIC @ EMPTY_OPTS_SERIALIZATION) \<le> room (rw_inner (hw_inner ?s))" using w(2) ln by simp
  from room_sink.runsE [OF hs r i this] obtain h where h: "?m ?s = (Inr 1, h)" "?hi (hw_inner h) (hw_hash h)"
    "?o (hw_inner h) = ?o (hw_inner ?s) @ SIGNATURE_LAYER_MAGIC @ EMPTY_OPTS_SERIALIZATION"
    "room (rw_inner (hw_inner ?s)) \<le> room (rw_inner (hw_inner h)) + length (SIGNATURE_LAYER_MAGIC @ EMPTY_OPTS_SERIALIZATION)" .
  let ?l = "\<lparr>sw_inner = hw_inner h, sw_config = cfg, sw_hash = hw_hash h\<rparr>"
  have o: "?o (sw_inner ?l) = sig_head ?h" using h(3) by (simp add: sig_head_def)
  have n: "sig_writer_new (raw_write wr) w cfg h0 = Inr ?l" using h(1) by (simp add: sig_writer_new_def)
  have f: "\<exists>c0. signed_form S signature h0 ct c0 \<and> plain_fmt out winv room ?h c0 f"
    if "signed_fmt out winv room ?h S cfg h0 ct f" for ct f
    using that unfolding signed_fmt_def signed_form_def by (auto simp: Some)
  show thesis
    by (rule that [OF lv, of "Inr ?l"])
      (use o h n c ln f in \<open>auto simp: add_signature_layer_def Some present_def has_head_def after_head_def\<close>)
qed

lemma enc_level_new:
  assumes lv: "writer_level (sig_level_write wr) out1 winv1 room1 (sig_level_finalize S wr) tail1 fmt1"
    and K: "kem_ok K" and G: "gcm_prims_ok G" and w: "winv1 l" "out1 l = []" "2 ^ 62 - 22 \<le> room1 l" and t: "tail1 < 2 ^ 54"
    and e: "\<And>keys. encryption = Some keys \<Longrightarrow> length keys < 2 ^ 40 \<and> (\<exists>x g'. to_persistent K G keys rng = (Inr x, g'))"
  obtains out2 winv2 room2 tail2 fmt2 l2 where
    "writer_level (enc_level_write G wr) out2 winv2 room2 (enc_level_finalize S G wr) tail2 fmt2"
    "add_encryption_layer K G wr encryption rng l = Inr l2" "winv2 l2" "out2 l2 = []" "2 ^ 56 \<le> room2 l2"
    "tail2 < 2 ^ 54 + 3" "\<forall>c f. fmt2 c f \<longrightarrow> (\<exists>c1. encrypted_form K G encryption rng c c1 \<and> fmt1 c1 f)"
proof (cases encryption)
  case None
  have lv2: "writer_level (enc_level_write G wr) (case_sum out1 (\<lambda>_. [])) (case_sum winv1 (\<lambda>_. False))
      (case_sum room1 (\<lambda>_. 0)) (enc_level_finalize S G wr) tail1 fmt1"
    unfolding enc_level_write_def enc_level_finalize_def [abs_def] by (rule level_absent [OF lv])
  show thesis
    by (rule that [OF lv2, of "Inl l"]) (use None w t in \<open>simp_all add: add_encryption_layer_def encrypted_form_def\<close>)
next
  case (Some keys)
  then obtain pc key nonce g' where p: "length keys < 2 ^ 40" "to_persistent K G keys rng = (Inr (pc, (key, nonce)), g')"
    using e by (metis prod.collapse)
  from to_persistent_steps [OF K G p(2)] obtain ss where es: "encapsulate K G keys rng = (Inr (ep_encapsulated_key pc, ss), g')"
    and "length keys < 2 ^ 64 \<Longrightarrow> persistent_wf K pc" by metis
  then have wf: "persistent_wf K pc" using p(1) by simp
  from encapsulate_steps [OF K es] obtain g1 where
    "encapsulate_recipients K G ss keys g1 = (Inr (mk_recipients (ep_encapsulated_key pc)), g')" "length ss = 32" .
  with encapsulate_recipients_wf [OF K G] have "length (mk_recipients (ep_encapsulated_key pc)) = length keys" by blast
  then have le: "length (enc_persistent pc) < 2 ^ 52" using length_enc_persistent [OF wf] p(1) by simp
  then have lh: "length (enc_header pc) + 16 < 2 ^ 53" by (simp add: enc_header_def EMPTY_OPTS_SERIALIZATION_def)
  have big: "a < 2 ^ 53 \<Longrightarrow> 2 ^ 62 - 22 \<le> b \<Longrightarrow> a \<le> b" for a b :: nat by simp
  have "length (enc_header pc) + 16 \<le> room1 l" by (rule big [OF lh w(3)])
  note rl = this
  have "length (enc_persistent pc) < 2 ^ 60" using le by simp
  from writer_level.enc_level_start [OF lv w(1,2) p(2) this rl] obtain s where
    s: "enc_layer_writer_new K G (sig_level_write wr) keys rng l = Inr s"
    "enc_winv out1 winv1 G (enc_header pc) s \<and> ew_key s = key \<and> ew_base_nonce s = nonce"
    "enc_state out1 winv1 G (enc_header pc) [] [] s" "room1 l \<le> room1 (ew_inner s) + length (enc_header pc) + 16"
    .
  have q: "2 ^ 62 - 22 \<le> a \<Longrightarrow> a \<le> b + c + 16 \<Longrightarrow> c + 16 < 2 ^ 53 \<Longrightarrow> 2 ^ 56 \<le> b div 33" for a b c :: nat by simp
  have "ew_ctr s = 1" using s(3) by (simp add: enc_state_def)
  with q [OF w(3) s(4) lh] have rm: "2 ^ 56 \<le> enc_room room1 s" by (simp add: enc_room_def)
  have lv2: "writer_level (enc_level_write G wr) (case_sum (\<lambda>_. []) (enc_out out1 G (enc_header pc)))
      (case_sum (\<lambda>_. False) (\<lambda>s. enc_winv out1 winv1 G (enc_header pc) s \<and> ew_key s = key \<and> ew_base_nonce s = nonce))
      (case_sum (\<lambda>_. 0) (enc_room room1)) (enc_level_finalize S G wr) (tail1 + 3)
      (\<lambda>c. fmt1 (enc_header pc @ enc_body G key nonce (chunks c) @ EMPTY_TAIL_OPTS_SERIALIZATION))"
    unfolding enc_level_write_def enc_level_finalize_def [abs_def] by (rule level_present [OF writer_level.enc_level [OF lv G]])
  have o: "enc_out out1 G (enc_header pc) s = []" using enc_out_state [OF G s(3)] by simp
  have f: "\<exists>c1. encrypted_form K G encryption rng ct c1 \<and> fmt1 c1 f"
    if "fmt1 (enc_header pc @ enc_body G key nonce (chunks ct) @ EMPTY_TAIL_OPTS_SERIALIZATION) f" for ct f
    using that p(2) by (auto simp: encrypted_form_def Some enc_layer_def)
  show thesis
    by (rule that [OF lv2, of "Inr s"])
      (use o s rm t f in \<open>auto simp: add_encryption_layer_def Some present_def\<close>)
qed


lemma top_level_new:
  assumes lv: "writer_level (enc_level_write G wr) out2 winv2 room2 (enc_level_finalize S G wr) tail2 fmt2"
    and B: "brotli_writer_laws decode bound (enc_level_write G wr) B J"
    and w: "winv2 l" "out2 l = []" "2 ^ 56 \<le> room2 l" and t: "tail2 < 2 ^ 54 + 3"
    and c: "\<And>cfg. compression = Some cfg \<Longrightarrow> cc_compression_level cfg \<le> 11"
  obtains wr3 out3 winv3 room3 tail3 fmt3 l3 where
    "writer_level wr3 out3 winv3 room3 (top_finalize S G B wr) tail3 fmt3" "below_write wr3 (top_write G B wr)"
    "add_compression_layer G wr compression l = Inr l3" "winv3 l3" "out3 l3 = []"
    "2 ^ 40 + 2 ^ 40 div 3 + 200 + tail3 \<le> room3 l3" "tail3 < 2 ^ 54 + 3"
    "\<forall>c f. fmt3 c f \<longrightarrow> (\<exists>c2. compressed_form decode bound compression c c2 \<and> fmt2 c2 f)"
proof (cases compression)
  case None
  have lv3: "writer_level (top_write G B wr) (case_sum out2 (\<lambda>_. [])) (case_sum winv2 (\<lambda>_. False))
      (case_sum room2 (\<lambda>_. 0)) (top_finalize S G B wr) tail2 fmt2"
    unfolding top_write_def top_finalize_def [abs_def] by (rule level_absent [OF lv])
  have b: "below_write (top_write G B wr) (top_write G B wr)" by (simp add: below_write_def below_def)
  show thesis
    by (rule that [OF lv3 b, of "Inl l"]) (use None w t in \<open>simp_all add: add_compression_layer_def compressed_form_def\<close>)
next
  case (Some cfg)
  let ?wc = "compression_write B :: _ \<Rightarrow> (_, io_error, nat) op" and ?N = "2 ^ 41 :: nat"
  have "9 \<le> room2 l" using w(3) by simp
  from writer_level.comp_level_start [OF lv w(1,2) this c [OF Some]] obtain s w0 where
    s: "compression_writer_new (enc_level_write G wr) cfg l = Inr s" "out2 w0 = comp_header" "room2 l \<le> room2 w0 + 9"
    and s0: "\<And>limit. comp_winv decode bound out2 winv2 room2 J w0 limit s \<and> comp_out decode B out2 (out2 w0) s = []"
    by metis
  have "bound < 2 ^ 32" using B by (simp add: brotli_writer_laws_def)
  then have cc: "comp_cost bound ?N < 2 ^ 53" by (simp add: comp_cost_def comp_budget_def UNCOMPRESSED_DATA_SIZE_def)
  have r: "a < 2 ^ 53 \<Longrightarrow> t < 2 ^ 54 + 3 \<Longrightarrow> 2 ^ 56 \<le> x \<Longrightarrow> x \<le> y + 9 \<Longrightarrow> a + t \<le> y" for a t x y :: nat by simp
  have "writer_level (limited_write ?N (comp_out decode B out2 (out2 w0)) ?wc)
    (comp_out decode B out2 (out2 w0)) (comp_winv decode bound out2 winv2 room2 J w0 ?N)
    (\<lambda>s. ?N - length (comp_out decode B out2 (out2 w0) s)) (compression_finalize B (enc_level_write G wr) (enc_level_finalize S G wr)) 0
    (\<lambda>c f. \<exists>cs ds. compressed_as decode bound cs ds \<and> comp_blocks ds c \<and> fmt2 (out2 w0 @ comp_body cs ds) f)"
    by (rule writer_level.comp_level [OF lv B _ r [OF cc t w(3) s(3)]]) simp
  from level_present [OF this] have lv3: "writer_level (either_write (enc_level_write G wr) (limited_write ?N (comp_out decode B out2 (out2 w0)) ?wc))
    (case_sum (\<lambda>_. []) (comp_out decode B out2 (out2 w0))) (case_sum (\<lambda>_. False) (comp_winv decode bound out2 winv2 room2 J w0 ?N))
    (case_sum (\<lambda>_. 0) (\<lambda>s. ?N - length (comp_out decode B out2 (out2 w0) s))) (top_finalize S G B wr) 0
    (\<lambda>c f. \<exists>cs ds. compressed_as decode bound cs ds \<and> comp_blocks ds c \<and> fmt2 (out2 w0 @ comp_body cs ds) f)"
    unfolding top_finalize_def [abs_def] .
  have b: "below_write (either_write (enc_level_write G wr) (limited_write ?N (comp_out decode B out2 (out2 w0)) ?wc)) (top_write G B wr)"
    by (auto simp: below_write_def below_def top_write_def either_write_def limited_write_def split: sum.splits prod.splits if_splits)
  have f: "\<exists>c2. compressed_form decode bound compression ct c2 \<and> fmt2 c2 f"
    if "\<exists>cs ds. compressed_as decode bound cs ds \<and> comp_blocks ds ct \<and> fmt2 (out2 w0 @ comp_body cs ds) f" for ct f
    using that s(2) by (auto simp: compressed_form_def Some)
  show thesis
    by (rule that [OF lv3 b, of "Inr s"])
      (use s s0 f in \<open>simp_all add: add_compression_layer_def Some present_def\<close>)
qed

text \<open>From the configuration to the file. What is asked of the destination is room; of the configuration, that
  its keys sign and encapsulate; of brotli, that a block can be decompressed.\<close>

lemma stack_writes:
  fixes config :: "'g archive_writer_config"
  assumes rs: "room_sink wr out winv room" and ww: "whole_writes wr winv" and w: "winv w" "out w = []" "2 ^ 62 \<le> room w"
    and S: "sig_ok S" and K: "kem_ok K" and G: "gcm_prims_ok G"
    and B: "brotli_writer_ok decode bound (enc_level_write G wr) B"
    and cs: "\<And>cfg. wcfg_signature config = Some cfg \<Longrightarrow> can_sign S cfg \<and> length (sc_keys cfg) < 2 ^ 40"
    and ce: "\<And>keys. wcfg_encryption config = Some keys \<Longrightarrow>
      length keys < 2 ^ 40 \<and> (\<exists>x g'. to_persistent K G keys rng = (Inr x, g'))"
    and cc: "\<And>cfg. wcfg_compression config = Some cfg \<Longrightarrow> cc_compression_level cfg \<le> 11"
    and f: "files_ok files" "files_size files < 2 ^ 40" and h32: "\<And>x. length (sha256 x) = 32"
  obtains s0 s1 v where "archive_writer_from_config K G B wr rng w config = Inr s0"
    "add_files sha256 (top_write G B wr) files s0 = Inr s1" "archive_writer_finalize S G B wr s1 = Inr v" "winv v"
    "archive_form S K G decode bound config rng (complete_layer (files_blocks sha256 0 files)) (out v)"
    "archive_ok sha256 (files_blocks sha256 0 files)"
    "\<exists>f. winv f \<and> out v = out f @ archive_tail \<and> length archive_tail \<le> room f"
proof -
  let ?bs = "files_blocks sha256 0 files"
  have big: "2 ^ 62 \<le> a \<Longrightarrow> a \<le> b + 13 \<Longrightarrow> b \<le> c + 9 \<Longrightarrow> 13 \<le> a \<and> 9 \<le> b \<and> 2 ^ 62 - 22 \<le> c" for a b c :: nat by simp
  have b1: "2 ^ 62 \<le> a \<Longrightarrow> 13 \<le> a" "2 ^ 62 \<le> a \<Longrightarrow> a \<le> b + 13 \<Longrightarrow> 9 \<le> b" for a b :: nat by simp_all
  from write_archive_header_ok [OF rs ww w(1) b1(1) [OF w(3)]] obtain r where
    r: "write_archive_header wr w = Inr (r, Format.enc_header)" "winv (rw_inner r)"
    "out (rw_inner r) = Format.enc_header" "room w \<le> room (rw_inner r) + 13" using w(2) by auto
  from sig_level_new [where signature = "wcfg_signature config" and ?h0.0 = Format.enc_header, OF rs ww S cs r(2) b1(2) [OF w(3) r(4)]]
  obtain out1 winv1 room1 tail1 fmt1 l1 where
    lv1: "writer_level (sig_level_write wr) out1 winv1 room1 (sig_level_finalize S wr) tail1 fmt1" and
    l1: "add_signature_layer wr (wcfg_signature config) Format.enc_header r = Inr l1" "winv1 l1" "out1 l1 = []"
      "room (rw_inner r) \<le> room1 l1 + 9" "tail1 < 2 ^ 54" and
    f1: "\<forall>c f. fmt1 c f \<longrightarrow> (\<exists>c0. signed_form S (wcfg_signature config) Format.enc_header c c0 \<and> plain_fmt out winv room (out (rw_inner r)) c0 f)" .
  have "2 ^ 62 - 22 \<le> room1 l1" using big [OF w(3) r(4) l1(4)] by blast
  from enc_level_new [where encryption = "wcfg_encryption config" and rng = rng, OF lv1 K G l1(2,3) this l1(5) ce]
  obtain out2 winv2 room2 tail2 fmt2 l2 where
    lv2: "writer_level (enc_level_write G wr) out2 winv2 room2 (enc_level_finalize S G wr) tail2 fmt2" and
    l2: "add_encryption_layer K G wr (wcfg_encryption config) rng l1 = Inr l2" "winv2 l2" "out2 l2 = []" "2 ^ 56 \<le> room2 l2"
      "tail2 < 2 ^ 54 + 3" and
    f2: "\<forall>c f. fmt2 c f \<longrightarrow> (\<exists>c1. encrypted_form K G (wcfg_encryption config) rng c c1 \<and> fmt1 c1 f)" .
  from B obtain J where J: "brotli_writer_laws decode bound (enc_level_write G wr) B J" by (auto simp: brotli_writer_ok_def)
  from top_level_new [where compression = "wcfg_compression config", OF lv2 J l2(2-5) cc]
  obtain wr3 out3 winv3 room3 tail3 fmt3 l3 where
    lv3: "writer_level wr3 out3 winv3 room3 (top_finalize S G B wr) tail3 fmt3" and be: "below_write wr3 (top_write G B wr)" and
    l3: "add_compression_layer G wr (wcfg_compression config) l2 = Inr l3" "winv3 l3" "out3 l3 = []"
      "2 ^ 40 + 2 ^ 40 div 3 + 200 + tail3 \<le> room3 l3" "tail3 < 2 ^ 54 + 3" and
    f3: "\<forall>c f. fmt3 c f \<longrightarrow> (\<exists>c2. compressed_form decode bound (wcfg_compression config) c c2 \<and> fmt2 c2 f)" .
  have rs3: "room_sink wr3 out3 winv3 room3" using lv3 by (simp add: writer_level_def)
  have fit: "x < 2 ^ 40 \<Longrightarrow> 2 ^ 40 + 2 ^ 40 div 3 + 200 + t \<le> y \<Longrightarrow> t < 2 ^ 54 + 3 \<Longrightarrow> x + x div 3 + 200 + t \<le> min y (2 ^ 64 - 1)"
    for x y t :: nat using div_le_mono [of x "2 ^ 40" 3] by (auto simp: min_def)
  from files_written [where ?sha256.0 = sha256, OF rs3 l3(2) f(1) h32 fit [OF f(2) l3(4,5)]] obtain s0 s1 s2 where
    s: "archive_writer_init wr3 l3 = Inr s0" "add_files sha256 wr3 files s0 = Inr s1" "finalize_entries wr3 s1 = (Inr (), s2)"
      "winv3 (pw_inner (aw_dest s2))" "out3 (pw_inner (aw_dest s2)) = out3 l3 @ complete_layer ?bs"
      "tail3 \<le> room3 (pw_inner (aw_dest s2))" and A: "archive_ok sha256 ?bs" .
  have s0: "archive_writer_from_config K G B wr rng w config = Inr s0"
    using r(1) l1(1) l2(1) l3(1) archive_writer_init_below [OF be s(1)] by (simp add: archive_writer_from_config_def)
  from writer_level.finish [OF lv3 s(4,6)] obtain v where v: "top_finalize S G B wr (pw_inner (aw_dest s2)) = Inr v"
    "fmt3 (complete_layer ?bs) v" using s(5) l3(3) by auto
  from f3 v(2) f2 f1 obtain c2 c1 c0 where c: "compressed_form decode bound (wcfg_compression config) (complete_layer ?bs) c2"
    "encrypted_form K G (wcfg_encryption config) rng c2 c1" "signed_form S (wcfg_signature config) Format.enc_header c1 c0"
    "plain_fmt out winv room Format.enc_header c0 v" using r(3) by metis
  have pf: "winv v" "out v = Format.enc_header @ c0" "17 \<le> room v" using c(4) by (simp_all add: plain_fmt_def)
  have "room_sink.runs out winv room (bindE (lift_io (write_all wr EMPTY_TAIL_OPTS_SERIALIZATION))
      (\<lambda>_. lift_io (write_all wr END_MLA_MAGIC))) (EMPTY_TAIL_OPTS_SERIALIZATION @ END_MLA_MAGIC) ()"
    by (rule room_sink.runs_bindE [OF rs], rule room_sink.runs_lift_io [OF rs], rule room_sink.runs_write_all [OF rs],
        rule room_sink.runs_lift_io [OF rs], rule room_sink.runs_write_all [OF rs])
  moreover have "length (EMPTY_TAIL_OPTS_SERIALIZATION @ END_MLA_MAGIC) \<le> room v"
    using pf(3) by (simp add: EMPTY_TAIL_OPTS_SERIALIZATION_def END_MLA_MAGIC_def)
  ultimately obtain v' where v': "bindE (lift_io (write_all wr EMPTY_TAIL_OPTS_SERIALIZATION))
      (\<lambda>_. lift_io (write_all wr END_MLA_MAGIC)) v = (Inr (), v')" "winv v'" "out v' = out v @ EMPTY_TAIL_OPTS_SERIALIZATION @ END_MLA_MAGIC"
    using room_sink.runsE [OF rs _ pf(1)] by metis
  have "archive_writer_finalize S G B wr s1 = Inr v'"
    using finalize_entries_below [OF be s(3)] v(1) v'(1)
    by (simp add: archive_writer_finalize_def archive_finalize_def position_finalize_def)
  moreover have "archive_form S K G decode bound config rng (complete_layer ?bs) (out v')"
    unfolding archive_form_def archive_tail_def using c(1-3) v'(3) pf(2) by (intro exI [of _ c2] exI [of _ c1] exI [of _ c0]) simp
  moreover have "\<exists>f. winv f \<and> out v' = out f @ archive_tail \<and> length archive_tail \<le> room f"
    using pf v'(3) by (auto simp: archive_tail_def EMPTY_TAIL_OPTS_SERIALIZATION_def END_MLA_MAGIC_def intro!: exI [of _ v])
  ultimately show thesis using that [OF s0 add_files_below [OF be s(2)]] v'(2) A by blast
qed

end
