(* ===== verification/StackReader.thy ===== *)
theory StackReader
  imports Stack Window SignatureLayer EncryptLayer CompressReader Roundtrip
begin

text \<open>
  The reading stack. Each level keeps the contract of a seekable reader on the bytes of its layer; the file made
  by \<open>archive_form\<close> is opened from the outside in, and what is left at the top is the archive layer.
\<close>

section \<open>Dispatch\<close>

lemma either_read_simps [simp]:
  "either_read rd1 rd2 n (Inl a) = apsnd Inl (rd1 n a)" "either_read rd1 rd2 n (Inr b) = apsnd Inr (rd2 n b)"
  by (simp_all add: either_read_def apsnd_def map_prod_def)

lemma either_seek_simps [simp]:
  "either_seek sk1 sk2 f (Inl a) = apsnd Inl (sk1 f a)" "either_seek sk1 sk2 f (Inr b) = apsnd Inr (sk2 f b)"
  by (simp_all add: either_seek_def apsnd_def map_prod_def)

lemma apsnd_eq: "apsnd f p = (a, b) \<longleftrightarrow> (\<exists>x. p = (a, x) \<and> b = f x)"
  by (cases p) auto

lemma apsnd_ex: "(\<exists>s'. apsnd f p = (a, s') \<and> P s') \<longleftrightarrow> (\<exists>x. p = (a, x) \<and> P (f x))"
  by (cases p) auto

text \<open>A level that is never entered.\<close>

lemma no_source: "source rd (\<lambda>_. []) (\<lambda>_. 0) (\<lambda>_. False)"
  by unfold_locales simp_all

lemma no_window: "window_seekable rd (\<lambda>_. []) (\<lambda>_. 0) (\<lambda>_. False) sk"
  by unfold_locales simp_all

lemma no_end_seekable: "end_seekable rd (\<lambda>_. []) (\<lambda>_. 0) (\<lambda>_. False) sk"
  by unfold_locales simp_all

lemma either_source:
  assumes a: "source rd1 v1 p1 i1" and b: "source rd2 v2 p2 i2"
  shows "source (either_read rd1 rd2) (case_sum v1 v2) (case_sum p1 p2) (case_sum i1 i2)"
proof
  fix s :: "'a + 'b" and n
  assume s: "case_sum i1 i2 s" "case_sum p1 p2 s < length (case_sum v1 v2 s)"
  show "\<exists>k s'. either_read rd1 rd2 n s = (Inr (take k (drop (case_sum p1 p2 s) (case_sum v1 v2 s))), s') \<and> k \<le> n \<and>
      k \<le> length (case_sum v1 v2 s) - case_sum p1 p2 s \<and> (0 < n \<longrightarrow> 0 < k) \<and> case_sum i1 i2 s' \<and>
      case_sum v1 v2 s' = case_sum v1 v2 s \<and> case_sum p1 p2 s' = case_sum p1 p2 s + k"
    using s source.read_ok [OF a, of "projl s" n] source.read_ok [OF b, of "projr s" n]
    by (cases s) (simp_all add: apsnd_ex)
qed

lemma either_eof_source:
  assumes a: "eof_source rd1 v1 p1 i1" and b: "eof_source rd2 v2 p2 i2"
  shows "eof_source (either_read rd1 rd2) (case_sum v1 v2) (case_sum p1 p2) (case_sum i1 i2)"
proof (intro eof_source.intro eof_source_axioms.intro)
  show "source (either_read rd1 rd2) (case_sum v1 v2) (case_sum p1 p2) (case_sum i1 i2)"
    using a b by (intro either_source) (simp_all add: eof_source_def)
  fix s :: "'a + 'b" and n
  assume s: "case_sum i1 i2 s" "length (case_sum v1 v2 s) \<le> case_sum p1 p2 s"
  then show "\<exists>s'. either_read rd1 rd2 n s = (Inr [], s') \<and> case_sum i1 i2 s' \<and>
      case_sum v1 v2 s' = case_sum v1 v2 s \<and> case_sum p1 p2 s' = case_sum p1 p2 s"
    using eof_source.read_eof [OF a, of "projl s" n] eof_source.read_eof [OF b, of "projr s" n]
    by (cases s) (simp_all add: apsnd_ex)
qed

lemma either_window:
  assumes a: "window_seekable rd1 v1 p1 i1 sk1" and b: "window_seekable rd2 v2 p2 i2 sk2"
  shows "window_seekable (either_read rd1 rd2) (case_sum v1 v2) (case_sum p1 p2) (case_sum i1 i2) (either_seek sk1 sk2)"
proof (intro window_seekable.intro closed_seekable.intro window_seekable_axioms.intro closed_seekable_axioms.intro)
  have c: "closed_seekable rd1 v1 p1 i1 sk1" "closed_seekable rd2 v2 p2 i2 sk2"
    using a b by (simp_all add: window_seekable_def)
  then show "eof_source (either_read rd1 rd2) (case_sum v1 v2) (case_sum p1 p2) (case_sum i1 i2)"
    by (intro either_eof_source) (simp_all add: closed_seekable_def)
  fix s :: "'a + 'b" and f
  {
    fix k
    assume s: "case_sum i1 i2 s" "\<forall>i. f = SeekCurrent i \<longrightarrow> case_sum p1 p2 s \<le> length (case_sum v1 v2 s)"
      "seek_target f (case_sum p1 p2 s) (length (case_sum v1 v2 s)) = int k" "k \<le> length (case_sum v1 v2 s)"
    show "\<exists>s'. either_seek sk1 sk2 f s = (Inr k, s') \<and> case_sum i1 i2 s' \<and>
        case_sum v1 v2 s' = case_sum v1 v2 s \<and> case_sum p1 p2 s' = k"
      using s closed_seekable.seek_in [OF c(1), of "projl s" f k] closed_seekable.seek_in [OF c(2), of "projr s" f k]
      by (cases s) (simp_all add: apsnd_ex)
  next
    assume s: "case_sum i1 i2 s"
      "seek_target f (case_sum p1 p2 s) (length (case_sum v1 v2 s)) \<notin> {0..int (length (case_sum v1 v2 s))}"
    then show "\<exists>e. either_seek sk1 sk2 f s = (Inl e, s)"
      using window_seekable.seek_out [OF a] window_seekable.seek_out [OF b] by (cases s) (auto simp: apsnd_eq)
  next
    assume "case_sum i1 i2 s"
    then show "case_sum p1 p2 s \<le> length (case_sum v1 v2 s) \<and> length (case_sum v1 v2 s) < 2 ^ 63"
      using window_seekable.in_window [OF a] window_seekable.in_window [OF b] by (cases s) auto
  }
qed

lemma either_seekable:
  assumes a: "seekable rd1 v1 p1 i1 sk1" and b: "seekable rd2 v2 p2 i2 sk2"
  shows "seekable (either_read rd1 rd2) (case_sum v1 v2) (case_sum p1 p2) (case_sum i1 i2) (either_seek sk1 sk2)"
proof (intro seekable.intro start_seekable.intro seekable_axioms.intro start_seekable_axioms.intro)
  have c: "start_seekable rd1 v1 p1 i1 sk1" "start_seekable rd2 v2 p2 i2 sk2" using a b by (simp_all add: seekable_def)
  then show "source (either_read rd1 rd2) (case_sum v1 v2) (case_sum p1 p2) (case_sum i1 i2)"
    by (intro either_source) (simp_all add: start_seekable_def)
  fix s :: "'a + 'b"
  {
    fix p assume s: "case_sum i1 i2 s" "p < length (case_sum v1 v2 s)"
    show "\<exists>s'. either_seek sk1 sk2 (SeekStart p) s = (Inr p, s') \<and> case_sum i1 i2 s' \<and>
        case_sum v1 v2 s' = case_sum v1 v2 s \<and> case_sum p1 p2 s' = p"
      using s start_seekable.seek_start [OF c(1), of "projl s" p] start_seekable.seek_start [OF c(2), of "projr s" p]
      by (cases s) (simp_all add: apsnd_ex)
  next
    fix d assume s: "case_sum i1 i2 s" "0 < d" "d \<le> length (case_sum v1 v2 s)"
    then show "\<exists>s'. either_seek sk1 sk2 (SeekEnd (- int d)) s = (Inr (length (case_sum v1 v2 s) - d), s') \<and>
        case_sum i1 i2 s' \<and> case_sum v1 v2 s' = case_sum v1 v2 s \<and> case_sum p1 p2 s' = length (case_sum v1 v2 s) - d"
      using seekable.seek_end [OF a, of "projl s" d] seekable.seek_end [OF b, of "projr s" d]
      by (cases s) (simp_all add: apsnd_ex)
  next
    fix i assume s: "case_sum i1 i2 s" "case_sum p1 p2 s \<le> length (case_sum v1 v2 s)" "0 \<le> int (case_sum p1 p2 s) + i"
      "int (case_sum p1 p2 s) + i < int (length (case_sum v1 v2 s))"
    then show "\<exists>s'. either_seek sk1 sk2 (SeekCurrent i) s = (Inr (nat (int (case_sum p1 p2 s) + i)), s') \<and>
        case_sum i1 i2 s' \<and> case_sum v1 v2 s' = case_sum v1 v2 s \<and> case_sum p1 p2 s' = nat (int (case_sum p1 p2 s) + i)"
      using seekable.seek_current [OF a, of "projl s" i] seekable.seek_current [OF b, of "projr s" i]
      by (cases s) (simp_all add: apsnd_ex)
  }
qed

lemma either_end_seekable:
  assumes a: "end_seekable rd1 v1 p1 i1 sk1" and b: "end_seekable rd2 v2 p2 i2 sk2"
  shows "end_seekable (either_read rd1 rd2) (case_sum v1 v2) (case_sum p1 p2) (case_sum i1 i2) (either_seek sk1 sk2)"
proof (intro end_seekable.intro end_seekable_axioms.intro)
  show "seekable (either_read rd1 rd2) (case_sum v1 v2) (case_sum p1 p2) (case_sum i1 i2) (either_seek sk1 sk2)"
    using a b by (intro either_seekable) (simp_all add: end_seekable_def)
  fix s :: "'a + 'b" assume s: "case_sum i1 i2 s"
  show "\<exists>s'. either_seek sk1 sk2 (SeekEnd 0) s = (Inr (length (case_sum v1 v2 s)), s') \<and>
      (\<forall>p<length (case_sum v1 v2 s). \<exists>s''. either_seek sk1 sk2 (SeekStart p) s' = (Inr p, s'') \<and> case_sum i1 i2 s'' \<and>
        case_sum v1 v2 s'' = case_sum v1 v2 s \<and> case_sum p1 p2 s'' = p)"
    using s end_seekable.seek_end_back [OF a, of "projl s"] end_seekable.seek_end_back [OF b, of "projr s"]
    by (cases s) (simp_all add: apsnd_ex)
qed

text \<open>A window is an \<open>end_seekable\<close> reader.\<close>

lemma window_end_seekable:
  assumes "window_seekable rd view pos rinv sk"
  shows "end_seekable rd view pos rinv sk"
proof (intro end_seekable.intro end_seekable_axioms.intro)
  have c: "closed_seekable rd view pos rinv sk" using assms by (simp add: window_seekable_def)
  then show "seekable rd view pos rinv sk" by (rule closed_seekable.closed_seekable)
  fix s assume s: "rinv s"
  obtain s1 where s1: "sk (SeekEnd 0) s = (Inr (length (view s)), s1)" "rinv s1" "view s1 = view s"
    by (rule closed_seekable.seek_inE [OF c s, of "SeekEnd 0" "length (view s)"]) simp_all
  have "\<exists>s''. sk (SeekStart p) s1 = (Inr p, s'') \<and> rinv s'' \<and> view s'' = view s \<and> pos s'' = p" if "p < length (view s)" for p
    using closed_seekable.seek_in [OF c s1(2), of "SeekStart p" p] that s1(3) by simp
  with s1(1) show "\<exists>s'. sk (SeekEnd 0) s = (Inr (length (view s)), s') \<and>
      (\<forall>p<length (view s). \<exists>s''. sk (SeekStart p) s' = (Inr p, s'') \<and> rinv s'' \<and> view s'' = view s \<and> pos s'' = p)"
    by blast
qed

lemma read_magic_ok:
  assumes so: "source rd view pos rinv" and i: "rinv r" "pos r = 0" "8 \<le> length (view r)"
  obtains r' where "read_layer_magic rd r = (Inr (take 8 (view r)), r')" "rinv r'" "view r' = view r" "pos r' = 8"
proof -
  have "length (take 8 (view r)) = 8" using i(3) by simp
  note p = source.parses_read_layer_magic [OF so this]
  have "source.rest view pos r = take 8 (view r) @ drop 8 (view r)" using i(2) by (simp add: source.rest_def [OF so])
  from source.yieldsE [OF so source.parsesD [OF so p i(1) this]] obtain r' where
    "read_layer_magic rd r = (Inr (take 8 (view r)), r')" "rinv r'" "view r' = view r"
    "pos r' = pos r + length (take 8 (view r))" .
  with i show thesis by (intro that) simp_all
qed

section \<open>The header and the tail of the archive\<close>

lemma open_archive_header_ok:
  assumes cs: "closed_seekable rd view pos rinv sk" and i: "rinv src" and v: "view src = Format.enc_header @ c"
    and l: "length (view src) < 2 ^ 63"
  obtains raw where "open_archive_header rd sk src = Inr (raw, Format.enc_header)" "raw_inv view pos rinv raw"
    "raw_view view raw = c" "raw_pos pos raw = 0"
proof -
  have so: "source rd view pos rinv" using cs by (simp add: closed_seekable_def eof_source_def)
  have lh: "length Format.enc_header = 13" by (simp add: Format.enc_header_def MLA_MAGIC_def EMPTY_OPTS_SERIALIZATION_def)
  obtain r0 where r0: "sk (SeekStart 0) src = (Inr 0, r0)" "rinv r0" "view r0 = view src" "pos r0 = 0"
    by (rule closed_seekable.seek_inE [OF cs i, of "SeekStart 0" 0]) simp_all
  let ?V = "\<lambda>s. view (hr_inner s)" and ?P = "\<lambda>s. pos (hr_inner s)" and ?I = "hash_inv view pos rinv [] 0"
  have hs: "source (hash_read rd) ?V ?P ?I" by (rule hash_source [OF so])
  let ?s = "\<lparr>hr_inner = r0, hr_hash = []\<rparr>"
  have i0: "?I ?s" using r0 by (simp add: hash_inv_def)
  have "source.rest ?V ?P ?s = Format.enc_header @ c" using r0(3,4) v by (simp add: source.rest_def [OF hs])
  from source.yieldsE [OF hs source.parsesD [OF hs source.parses_archive_header [OF hs] i0 this]] obtain h where
    h: "archive_header_deserialize (hash_read rd) ?s = (Inr (ArchiveHeader MLA_FORMAT_VERSION), h)" "?I h" "?V h = ?V ?s"
    "?P h = ?P ?s + length Format.enc_header" .
  have hh: "rinv (hr_inner h)" "view (hr_inner h) = view src" "pos (hr_inner h) = 13" "hr_hash h = Format.enc_header"
    using h(2-4) r0(3,4) v lh by (simp_all add: hash_inv_def)
  obtain r1 where r1: "sk (SeekCurrent 0) (hr_inner h) = (Inr 13, r1)" "rinv r1" "view r1 = view src" "pos r1 = 13"
    by (rule closed_seekable.seek_inE [OF cs hh(1), of "SeekCurrent 0" 13]) (use hh(2,3) v lh in simp_all)
  have "open_archive_header rd sk src = Inr (\<lparr>rr_inner = r1, rr_offset_pos = 13\<rparr>, Format.enc_header)"
    using r0(1) h(1) r1(1) hh(4)
    by (simp add: open_archive_header_def rewind_def raw_reset_position_def raw_reader_new_def stream_position_def
        on_field_def lift_io_def map_errE_def bindE_def ret_def)
  then show thesis
    by (rule that) (use r1 v l lh in \<open>simp_all add: raw_inv_def raw_view_def raw_pos_def\<close>)
qed

lemma read_archive_tail_ok:
  assumes cs: "closed_seekable rd view pos rinv sk" and i: "rinv r" and v: "view r = c @ archive_tail"
    and l: "length (view r) < 2 ^ 63"
  obtains r' where "read_archive_tail rd sk r = (Inr (17, length (view r)), r')" "rinv r'" "view r' = view r" "pos r' = 0"
proof -
  have so: "source rd view pos rinv" using cs by (simp add: closed_seekable_def eof_source_def)
  have v1: "view r = (c @ EMPTY_TAIL_OPTS_SERIALIZATION) @ END_MLA_MAGIC" using v by (simp add: archive_tail_def)
  have v2: "view r = (c @ [0]) @ to_le 8 1 @ END_MLA_MAGIC" using v1 by (simp add: tail_opts_split)
  let ?n = "length (view r)"
  have le: "length END_MLA_MAGIC = 8" by (simp add: END_MLA_MAGIC_def)
  have n: "?n - 8 = length (c @ EMPTY_TAIL_OPTS_SERIALIZATION)" "?n - 16 = length (c @ [0])" "16 \<le> ?n"
    by (simp add: v1 le) (simp_all add: v2 le)
  obtain r1 where r1: "sk (SeekEnd (- 8)) r = (Inr (?n - 8), r1)" "rinv r1" "view r1 = view r" "pos r1 = ?n - 8"
    by (rule closed_seekable.seek_inE [OF cs i, of "SeekEnd (- 8)" "?n - 8"]) (use n(3) in simp_all)
  have "source.rest view pos r1 = END_MLA_MAGIC @ []"
    using r1(3,4) n(1) by (simp add: source.rest_def [OF so] v1)
  from source.yieldsE [OF so source.parsesD [OF so source.parses_read_layer_magic [OF so le] r1(2) this]] obtain r2 where
    r2: "read_layer_magic rd r1 = (Inr END_MLA_MAGIC, r2)" "rinv r2" "view r2 = view r1" .
  obtain r3 where r3: "sk (SeekEnd (- 16)) r2 = (Inr (?n - 16), r3)" "rinv r3" "view r3 = view r2" "pos r3 = ?n - 16"
    by (rule closed_seekable.seek_inE [OF cs r2(2), of "SeekEnd (- 16)" "?n - 16"]) (use n(3) r1(3) r2(3) in simp_all)
  have "source.rest view pos r3 = to_le 8 1 @ END_MLA_MAGIC"
    using r3(3,4) r2(3) r1(3) n(2) by (simp add: source.rest_def [OF so] v2)
  from source.yieldsE [OF so source.parsesD [OF so source.parses_u64 [OF so] r3(2) this]] obtain r4 where
    r4: "u64_deserialize rd r3 = (Inr 1, r4)" "rinv r4" "view r4 = view r3" by auto
  obtain r5 where r5: "sk (SeekStart 0) r4 = (Inr 0, r5)" "rinv r5" "view r5 = view r4" "pos r5 = 0"
    by (rule closed_seekable.seek_inE [OF cs r4(2), of "SeekStart 0" 0]) simp_all
  have a: "checked_add (?n - 8) 8 = Some ?n" "checked_add 1 16 = Some 17" using n(3) l by (simp_all add: checked_add_def)
  have "read_archive_tail rd sk r = (Inr (17, ?n), r5)"
    unfolding read_archive_tail_def
    by (simp only: bindE_def lift_io_def map_errE_def lift_res_def ret_def prod.case sum.case ok_or_Some if_False
        a r1(1) r2(1) r3(1) r4(1) r5(1) HOL.simp_thms)
  then show thesis using that r5 r4(3) r3(3) r2(3) r1(3) by simp
qed

lemma open_archive_tail_ok:
  assumes cs: "closed_seekable rd view pos rinv sk" and i: "raw_inv view pos rinv raw" and v: "raw_view view raw = c @ archive_tail"
  obtains src0 where "open_archive_tail rd sk raw = Inr src0"
    "strip_inv (raw_view view) (raw_pos pos) (raw_inv view pos rinv) src0" "strip_view (raw_view view) src0 = c" "sr_pos src0 = 0"
proof -
  note rw = closed_seekable.raw_closed_seekable [OF cs]
  have l: "length (raw_view view raw) < 2 ^ 63" using i by (auto simp: raw_inv_def raw_view_def)
  from read_archive_tail_ok [OF rw i v l] obtain r where r: "read_archive_tail (raw_read rd) (raw_seek sk) raw =
      (Inr (17, length (raw_view view raw)), r)" "raw_inv view pos rinv r" "raw_view view r = raw_view view raw" "raw_pos pos r = 0" .
  have lt: "length archive_tail = 17" by (simp add: archive_tail_def EMPTY_TAIL_OPTS_SERIALIZATION_def END_MLA_MAGIC_def)
  let ?st = "\<lparr>sr_inner = r, sr_head_len = 0, sr_tail_len = 17, sr_inner_len = length (raw_view view raw), sr_pos = 0\<rparr>"
  have "open_archive_tail rd sk raw = Inr ?st"
    using r(1) lt v by (simp add: open_archive_tail_def strip_reader_new_def checked_add_def)
  then show thesis
    by (rule that) (use r(2-4) l v lt in \<open>simp_all add: strip_inv_def strip_view_def\<close>)
qed


section \<open>The layers\<close>

text \<open>The reader trusts a key that signed, or asks for no signature when there is none.\<close>

definition trusts :: "('g, 's) sig_prims \<Rightarrow> 'g signature_config option \<Rightarrow> signature_reader_config \<Rightarrow> bool" where
  "trusts S signature cfg \<longleftrightarrow>
     (case signature of
        None \<Rightarrow> \<not> src_check cfg
      | Some scfg \<Rightarrow> src_check cfg \<and> (\<exists>k\<in>set (sc_keys scfg). verification_key_of S k \<in> set (src_keys cfg)))"

text \<open>What the reader reports: the trusted keys that signed are among the valid ones, and all of those are trusted.\<close>

definition reports ::
  "('g, 's) sig_prims \<Rightarrow> 'g signature_config option \<Rightarrow> signature_reader_config \<Rightarrow> signature_verification_key list \<Rightarrow> bool" where
  "reports S signature cfg keys \<longleftrightarrow>
     (case signature of
        None \<Rightarrow> keys = []
      | Some scfg \<Rightarrow> set keys \<subseteq> set (src_keys cfg) \<and>
          (\<forall>k\<in>set (sc_keys scfg). verification_key_of S k \<in> set (src_keys cfg) \<longrightarrow> verification_key_of S k \<in> set keys))"

lemma open_signature_layer_ok:
  assumes ws: "window_seekable (raw_level_read rd) v0 p0 i0 (raw_level_seek sk)" and S: "sig_ok S"
    and i: "i0 src0" "p0 src0 = 0" and f: "signed_form S signature h0 c1 (v0 src0)"
    and t: "trusts S signature cfg" and l: "8 \<le> length c1" and nm: "take 8 c1 \<noteq> SIGNATURE_LAYER_MAGIC"
    and hd: "signed_head K c1 config"
  obtains v1 p1 i1 src1 keys signed_config where
    "window_seekable (sig_level_read rd) v1 p1 i1 (sig_level_seek sk)"
    "open_signature_layer S K rd sk cfg h0 src0 = Some (Inr (src1, take 8 c1, keys, signed_config))"
    "i1 src1" "v1 src1 = c1" "p1 src1 = 8" "signed_config = None \<or> signed_config = config" "reports S signature cfg keys"
proof -
  have so: "source (raw_level_read rd) v0 p0 i0"
    using ws by (simp add: window_seekable_def closed_seekable_def eof_source_def)
  let ?V = "\<lambda>s. v0 (hr_inner s)" and ?P = "\<lambda>s. p0 (hr_inner s)" and ?I = "hash_inv v0 p0 i0 h0 0"
  have hs: "source (hash_read (raw_level_read rd)) ?V ?P ?I" by (rule hash_source [OF so])
  let ?s = "\<lparr>hr_inner = src0, hr_hash = h0\<rparr>"
  have i00: "?I ?s" using i by (simp add: hash_inv_def)
  show thesis
  proof (cases signature)
    case None
    then have v: "v0 src0 = c1" and nc: "\<not> src_check cfg" using f t by (simp_all add: signed_form_def trusts_def)
    obtain h where h: "read_layer_magic (hash_read (raw_level_read rd)) ?s = (Inr (take 8 c1), h)" "?I h" "?V h = c1" "?P h = 8"
      using read_magic_ok [OF hs i00] i(2) l v by auto
    have lv: "window_seekable (sig_level_read rd) (case_sum v0 (\<lambda>_. [])) (case_sum p0 (\<lambda>_. 0)) (case_sum i0 (\<lambda>_. False)) (sig_level_seek sk)"
      unfolding sig_level_read_def sig_level_seek_def by (rule either_window [OF ws no_window])
    have o: "open_signature_layer S K rd sk cfg h0 src0 = Some (Inr (Inl (hr_inner h), take 8 c1, [], None))"
      using h(1) nm nc by (simp add: open_signature_layer_def)
    show thesis
      by (rule that [OF lv o]) (use h None in \<open>simp_all add: hash_inv_def reports_def\<close>)
  next
    case (Some scfg)
    then obtain g sigs where g: "sign_all S (h0 @ SIGNATURE_LAYER_MAGIC @ EMPTY_OPTS_SERIALIZATION @ c1) (sc_keys scfg) g = Some sigs"
      "v0 src0 = sig_layer S sigs c1" and ck: "src_check cfg" and
      "\<exists>k\<in>set (sc_keys scfg). verification_key_of S k \<in> set (src_keys cfg)"
      using f t by (auto simp: signed_form_def trusts_def)
    then obtain k where k: "k \<in> set (sc_keys scfg)" "verification_key_of S k \<in> set (src_keys cfg)" by blast
    let ?h = "(h0 @ SIGNATURE_LAYER_MAGIC) @ EMPTY_OPTS_SERIALIZATION @ c1"
    let ?keys = "keys_with_valid_signatures S ?h sigs (src_keys cfg)"
    have g': "sign_all S ?h (sc_keys scfg) g = Some sigs" using g(1) by simp
    have ks: "verification_key_of S k' \<in> set ?keys"
      if "k' \<in> set (sc_keys scfg)" "verification_key_of S k' \<in> set (src_keys cfg)" for k'
      using sign_all_facts [OF S g'] that unfolding keys_with_valid_signatures_iff by blast
    have wf: "list_all signature_wf sigs" using sign_all_facts [OF S g'] by blast
    have m: "take 8 (v0 src0) = SIGNATURE_LAYER_MAGIC" "8 \<le> length (v0 src0)"
      using g(2) by (simp_all add: sig_layer_def SIGNATURE_LAYER_MAGIC_def)
    obtain h where h: "read_layer_magic (hash_read (raw_level_read rd)) ?s = (Inr SIGNATURE_LAYER_MAGIC, h)" "?I h"
      "?V h = v0 src0" "?P h = 8"
      using read_magic_ok [OF hs i00] i(2) m by auto
    have hi: "i0 (hr_inner h)" "v0 (hr_inner h) = sig_layer S sigs c1" "p0 (hr_inner h) = 8" "hr_hash h = h0 @ SIGNATURE_LAYER_MAGIC"
      using h(2-4) g(2) m by (simp_all add: hash_inv_def)
    from window_seekable.sig_reader_new_ok [OF ws S hi(1-3) hd ck wf ks [OF k]] obtain st where
      st: "sig_reader_new_skip_magic S K (raw_level_read rd) (raw_level_seek sk) (ret ()) cfg (h0 @ SIGNATURE_LAYER_MAGIC) (hr_inner h) =
        Some (Inr (st, ?keys, config))" "strip_inv v0 p0 i0 st" "strip_view v0 st = c1" "sr_pos st = 0" by blast
    have ws2: "window_seekable (strip_read (raw_level_read rd)) (strip_view v0) sr_pos (strip_inv v0 p0 i0) (strip_seek (raw_level_seek sk))"
      by (rule closed_seekable.strip_window_seekable) (use ws in \<open>simp add: window_seekable_def\<close>)
    let ?v = "case_sum (\<lambda>_. []) (strip_view v0)" and ?p = "case_sum (\<lambda>_. 0) sr_pos" and ?i = "case_sum (\<lambda>_. False) (strip_inv v0 p0 i0)"
    have lv: "window_seekable (sig_level_read rd) ?v ?p ?i (sig_level_seek sk)"
      unfolding sig_level_read_def sig_level_seek_def by (rule either_window [OF no_window ws2])
    then have so1: "source (sig_level_read rd) ?v ?p ?i" by (simp add: window_seekable_def closed_seekable_def eof_source_def)
    obtain src1 where s1: "read_layer_magic (sig_level_read rd) (Inr st) = (Inr (take 8 c1), src1)" "?i src1" "?v src1 = c1" "?p src1 = 8"
      using read_magic_ok [OF so1, of "Inr st"] st(2-4) l by auto
    have o: "open_signature_layer S K rd sk cfg h0 src0 = Some (Inr (src1, take 8 c1, ?keys, config))"
      using h(1) hi(4) st(1) s1(1) by (simp add: open_signature_layer_def nothing_to_initialize_def)
    have "set ?keys \<subseteq> set (src_keys cfg)" by (auto simp: keys_with_valid_signatures_iff)
    then have "reports S signature cfg ?keys" using ks by (simp add: reports_def Some)
    then show thesis by (intro that [OF lv o s1(2-4)]) simp_all
  qed
qed

text \<open>The reader holds one of the private keys, the recipients before it not being its own; or it accepts what is
  not encrypted.\<close>

definition can_decrypt ::
  "'k kem_prims \<Rightarrow> gcm_prims \<Rightarrow> encryption_public_key list option \<Rightarrow> 'k \<Rightarrow> archive_reader_config \<Rightarrow> bool" where
  "can_decrypt K G encryption rng config \<longleftrightarrow>
     (case encryption of
        None \<Rightarrow> rcfg_accept_unencrypted config
      | Some keys \<Rightarrow>
          (\<exists>sk pks1 pks2. keys = pks1 @ public_key_of K sk # pks2 \<and>
             rcfg_encrypt config = \<lparr>rc_private_keys = [sk], rc_encrypt_parameters = None, rc_shared_secrets = []\<rparr> \<and>
             (\<forall>pc x g'. to_persistent K G keys rng = (Inr (pc, x), g') \<longrightarrow>
                (\<forall>r\<in>set (take (length pks1) (mk_recipients (ep_encapsulated_key pc))). try_recipient K G sk r = Inr None))) \<or>
          (\<exists>ek ss g'. encapsulate K G keys rng = (Inr (ek, ss), g') \<and>
             rcfg_encrypt config = \<lparr>rc_private_keys = [], rc_encrypt_parameters = None, rc_shared_secrets = [ss]\<rparr>))"

lemma can_decrypt_loads:
  assumes K: "kem_ok K" and G: "gcm_prims_ok G" and t: "to_persistent K G keys rng = (Inr (pc, (key, nonce)), g')"
    and d: "can_decrypt K G (Some keys) rng config"
  shows "\<exists>c. load_persistent K G pc (rcfg_encrypt config) = (Inr (), c) \<and> rc_encrypt_parameters c = Some (key, nonce)"
proof -
  from d consider (own) sk pks1 pks2 where "keys = pks1 @ public_key_of K sk # pks2"
      "rcfg_encrypt config = \<lparr>rc_private_keys = [sk], rc_encrypt_parameters = None, rc_shared_secrets = []\<rparr>"
      "\<forall>r\<in>set (take (length pks1) (mk_recipients (ep_encapsulated_key pc))). try_recipient K G sk r = Inr None"
    | (shared) ek ss g1 where "encapsulate K G keys rng = (Inr (ek, ss), g1)"
      "rcfg_encrypt config = \<lparr>rc_private_keys = [], rc_encrypt_parameters = None, rc_shared_secrets = [ss]\<rparr>"
    using t by (auto simp: can_decrypt_def)
  then show ?thesis
  proof cases
    case own
    from load_persistent_private [OF K G t [unfolded own(1)] own(3)] show ?thesis by (simp add: own(2))
  next
    case shared
    from load_persistent_shared [OF K G t shared(1)] show ?thesis by (simp add: shared(2))
  qed
qed

definition config_of :: "'k kem_prims \<Rightarrow> gcm_prims \<Rightarrow> encryption_public_key list option \<Rightarrow> 'k \<Rightarrow> encryption_persistent_config option" where
  "config_of K G encryption rng =
     (case encryption of
        None \<Rightarrow> None
      | Some keys \<Rightarrow> (case to_persistent K G keys rng of (Inr (pc, _), _) \<Rightarrow> Some pc | _ \<Rightarrow> None))"

lemma open_encryption_layer_ok:
  assumes ws: "window_seekable (sig_level_read rd) v1 p1 i1 (sig_level_seek sk)" and K: "kem_ok K" and G: "gcm_prims_ok G"
    and i: "i1 src1" "p1 src1 = 8" and f: "encrypted_form K G encryption rng c2 (v1 src1)"
    and d: "can_decrypt K G encryption rng config" and n: "\<And>keys. encryption = Some keys \<Longrightarrow> length keys < 2 ^ 64"
    and l: "8 \<le> length c2" and nm: "take 8 c2 \<noteq> ENCRYPTION_LAYER_MAGIC"
    and sc: "signed_config = None \<or> signed_config = config_of K G encryption rng"
  obtains v2 p2 i2 src2 where
    "end_seekable (enc_level_read G rd) v2 p2 i2 (enc_level_seek G rd sk)"
    "open_encryption_layer K G rd sk config signed_config (take 8 (v1 src1)) src1 = Inr (src2, take 8 c2)"
    "i2 src2" "v2 src2 = c2" "p2 src2 = 8" "length c2 < 2 ^ 63"
proof (cases encryption)
  case None
  then have v: "v1 src1 = c2" and ac: "rcfg_accept_unencrypted config" using f d by (simp_all add: encrypted_form_def can_decrypt_def)
  have lv: "end_seekable (enc_level_read G rd) (case_sum v1 (\<lambda>_. [])) (case_sum p1 (\<lambda>_. 0)) (case_sum i1 (\<lambda>_. False)) (enc_level_seek G rd sk)"
    unfolding enc_level_read_def enc_level_seek_def by (rule either_end_seekable [OF window_end_seekable [OF ws] no_end_seekable])
  have o: "open_encryption_layer K G rd sk config signed_config (take 8 (v1 src1)) src1 = Inr (Inl src1, take 8 c2)"
    using nm ac v by (simp add: open_encryption_layer_def)
  have "length c2 < 2 ^ 63" using window_seekable.in_window [OF ws i(1)] v by simp
  then show thesis by (intro that [OF lv o]) (use i v in simp_all)
next
  case (Some keys)
  then obtain pc key nonce g' where p: "to_persistent K G keys rng = (Inr (pc, (key, nonce)), g')"
    "v1 src1 = enc_layer G pc key nonce c2" using f by (auto simp: encrypted_form_def)
  have "\<exists>c. load_persistent K G pc (rcfg_encrypt config) = (Inr (), c) \<and> rc_encrypt_parameters c = Some (key, nonce)"
    by (rule can_decrypt_loads [OF K G p(1)]) (use d Some in simp)
  then obtain cfg where ld: "load_persistent K G pc (rcfg_encrypt config) = (Inr (), cfg)"
    and cfg: "rc_encrypt_parameters cfg = Some (key, nonce)" by blast
  from to_persistent_steps [OF K G p(1)] have "length keys < 2 ^ 64 \<Longrightarrow> persistent_wf K pc" by metis
  with n [OF Some] have wf: "persistent_wf K pc" by simp
  have cs: "closed_seekable (sig_level_read rd) v1 p1 i1 (sig_level_seek sk)" using ws by (simp add: window_seekable_def)
  note fs = closed_seekable.closed_full [OF cs]
  have lv: "length (v1 src1) < 2 ^ 63" using window_seekable.in_window [OF ws i(1)] by simp
  have scf: "signed_config = None \<or> signed_config = Some pc" using sc p(1) by (auto simp: config_of_def Some)
  from full_seekable.enc_layer_reader_new_ok [OF fs wf i(1) p(2) i(2) lv ld cfg scf] obtain e0 where
    e0: "enc_layer_reader_new_skip_magic K G (sig_level_read rd) (sig_level_seek sk) (rcfg_encrypt config) signed_config src1 = Inr e0"
    "strip_inv v1 p1 i1 (er_inner e0)" "strip_view v1 (er_inner e0) = enc_body G key nonce (chunks c2)"
    "er_key e0 = key" "er_nonce e0 = nonce" "er_truncated_mode e0 = None" by auto
  have fs2: "full_seekable (strip_read (sig_level_read rd)) (strip_view v1) sr_pos (strip_inv v1 p1 i1) (strip_seek (sig_level_seek sk))"
    by (rule full_seekable.strip_full_seekable [OF fs])
  have "length (v1 src1) = length (enc_header pc) + length (enc_body G key nonce (chunks c2)) + 9"
    by (simp add: p(2) enc_layer_def EMPTY_TAIL_OPTS_SERIALIZATION_def)
  then have lb: "length (enc_body G key nonce (chunks c2)) < 2 ^ 63" using lv by linarith
  from full_seekable.enc_initialize_ok [OF fs2 G e0(2,3) lb e0(4-6)] obtain e1 where
    e1: "enc_initialize G (strip_read (sig_level_read rd)) (strip_seek (sig_level_seek sk)) e0 = (Inr (), e1)"
    "enc_rinv (strip_view v1) sr_pos (strip_inv v1 p1 i1) G key nonce c2 e1" "er_pos e1 = 0" by blast
  let ?v = "case_sum (\<lambda>_. []) (\<lambda>_. c2)" and ?p = "case_sum (\<lambda>_. 0) er_pos"
    and ?i = "case_sum (\<lambda>_. False) (enc_rinv (strip_view v1) sr_pos (strip_inv v1 p1 i1) G key nonce c2)"
  have es: "end_seekable (enc_level_read G rd) ?v ?p ?i (enc_level_seek G rd sk)"
    unfolding enc_level_read_def enc_level_seek_def
    by (rule either_end_seekable [OF no_end_seekable full_seekable.enc_end_seekable [OF fs2 G]])
  then have so: "source (enc_level_read G rd) ?v ?p ?i" by (simp add: end_seekable_def seekable_def start_seekable_def)
  obtain src2 where s2: "read_layer_magic (enc_level_read G rd) (Inr e1) = (Inr (take 8 c2), src2)" "?i src2" "?v src2 = c2" "?p src2 = 8"
    using read_magic_ok [OF so, of "Inr e1"] e1(2,3) l by auto
  have "enc_layer_initialize G (sig_level_read rd) (sig_level_seek sk) nothing_to_initialize e0 = (Inr (), e1)"
    using e1(1) by (simp add: enc_layer_initialize_def nothing_to_initialize_def on_field_def ret_def bindE_def)
  then have o: "open_encryption_layer K G rd sk config signed_config (take 8 (v1 src1)) src1 = Inr (src2, take 8 c2)"
    using e0(1) s2(1) by (simp add: open_encryption_layer_def p(2) enc_layer_def enc_header_def)
  have "length c2 < 2 ^ 63" using enc_body_bounds(1) [OF G lb] by simp
  then show thesis by (intro that [OF es o s2(2-4)])
qed


lemma open_compression_layer_ok:
  fixes B :: "('r enc_read_level strip_reader, 'd) brotli_reader"
  assumes es: "end_seekable (enc_level_read G rd) v2 p2 i2 (enc_level_seek G rd sk)"
    and i: "i2 src2" "p2 src2 = 8" and l: "length (v2 src2) < 2 ^ 63"
    and f: "compressed_form decode bound compression content (v2 src2)" and b: "bound < 2 ^ 32"
    and B: "\<And>view pos rinv. source (strip_read (enc_level_read G rd)) view pos rinv \<Longrightarrow> brotli_reader_ok decode view pos rinv B"
    and ne: "content \<noteq> []" and lc: "length content < 2 ^ 63" and nm: "take 8 content \<noteq> COMPRESSION_LAYER_MAGIC"
  obtains v3 p3 i3 src3 where
    "seekable (top_read G B rd sk) v3 p3 i3 (top_seek G B rd sk)"
    "open_compression_layer G rd sk (take 8 (v2 src2)) src2 = Inr src3" "i3 src3" "v3 src3 = content"
proof (cases compression)
  case None
  then have v: "v2 src2 = content" using f by (simp add: compressed_form_def)
  have no: "seekable (compression_read B (strip_seek (enc_level_seek G rd sk))) (\<lambda>_. []) (\<lambda>_. 0) (\<lambda>_. False)
      (compression_seek B (strip_seek (enc_level_seek G rd sk)))" by unfold_locales simp_all
  have lv: "seekable (top_read G B rd sk) (case_sum v2 (\<lambda>_. [])) (case_sum p2 (\<lambda>_. 0)) (case_sum i2 (\<lambda>_. False)) (top_seek G B rd sk)"
    unfolding top_read_def top_seek_def by (rule either_seekable [OF _ no]) (use es in \<open>simp add: end_seekable_def\<close>)
  have o: "open_compression_layer G rd sk (take 8 (v2 src2)) src2 = Inr (Inl src2)"
    using nm v by (simp add: open_compression_layer_def)
  show thesis by (rule that [OF lv o]) (use i v in simp_all)
next
  case (Some cfg)
  then obtain cs ds where c: "compressed_as decode bound cs ds" "comp_blocks ds content" "v2 src2 = comp_header @ comp_body cs ds"
    using f by (auto simp: compressed_form_def)
  have sb: "seekable (enc_level_read G rd) v2 p2 i2 (enc_level_seek G rd sk)" using es by (simp add: end_seekable_def)
  then have so: "source (enc_level_read G rd) v2 p2 i2" by (simp add: seekable_def start_seekable_def)
  have bn: "comp_body cs ds \<noteq> []" by (simp add: comp_body_def EMPTY_TAIL_OPTS_SERIALIZATION_def)
  have r: "source.rest v2 p2 src2 = EMPTY_OPTS_SERIALIZATION @ comp_body cs ds"
    using i(2) c(3) by (simp add: source.rest_def [OF so] comp_header_def)
  from end_seekable.comp_reader_new_ok [OF es i(1) r bn l] obtain
    s :: "('r enc_read_level strip_reader, 'd) compression_reader" and st where
    s: "compression_reader_new_skip_magic (enc_level_read G rd) (enc_level_seek G rd sk) src2 = Inr s" "cr_state s = CReady st"
    "strip_inv v2 p2 i2 st" "strip_view v2 st = comp_body cs ds" "cr_underlayer_pos s = 0" by blast
  let ?rd = "strip_read (enc_level_read G rd)" and ?sk = "strip_seek (enc_level_seek G rd sk)"
  let ?v = "strip_view v2" and ?i = "strip_inv v2 p2 i2"
  have es2: "eof_seekable ?rd ?v sr_pos ?i ?sk" by (rule seekable.strip_eof_seekable [OF sb])
  then have so2: "source ?rd ?v sr_pos ?i" by (simp add: eof_seekable_def eof_source_def)
  from B [OF so2] obtain I where L: "brotli_reader_laws decode ?v sr_pos ?i B I" by (auto simp: brotli_reader_ok_def)
  have lb: "length (comp_body cs ds) < 2 ^ 63" using l c(3) by simp
  from eof_seekable.comp_initialize_ok [OF es2 c(1,2) b s(3,4) lb s(2,5)] obtain s' where
    s': "compression_initialize ?rd ?sk s = (Inr (), s')" "comp_rinv ?v ?i I cs ds s'" by blast
  have "ds \<noteq> []" using c(2) ne by (auto simp: comp_blocks_def)
  from eof_seekable.comp_seekable [OF es2 L c(1,2) this lc lb]
  have sk3: "seekable (compression_read B ?sk) (\<lambda>_. content) cr_underlayer_pos (comp_rinv ?v ?i I cs ds) (compression_seek B ?sk)" .
  have no: "seekable (enc_level_read G rd) (\<lambda>_. []) (\<lambda>_. 0) (\<lambda>_. False) (enc_level_seek G rd sk)" by unfold_locales simp_all
  have lv: "seekable (top_read G B rd sk) (case_sum (\<lambda>_. []) (\<lambda>_. content)) (case_sum (\<lambda>_. 0) cr_underlayer_pos)
      (case_sum (\<lambda>_. False) (comp_rinv ?v ?i I cs ds)) (top_seek G B rd sk)"
    unfolding top_read_def top_seek_def by (rule either_seekable [OF no sk3])
  have "take 8 (v2 src2) = COMPRESSION_LAYER_MAGIC" by (simp add: c(3) comp_header_def)
  then have o: "open_compression_layer G rd sk (take 8 (v2 src2)) src2 = Inr (Inr s')"
    using s(1) s'(1) by (simp add: open_compression_layer_def)
  show thesis by (rule that [OF lv o]) (use s'(2) in simp_all)
qed

section \<open>The whole stack\<close>

lemma magics_differ:
  "ENTRIES_LAYER_MAGIC \<noteq> COMPRESSION_LAYER_MAGIC" "ENTRIES_LAYER_MAGIC \<noteq> ENCRYPTION_LAYER_MAGIC"
  "ENTRIES_LAYER_MAGIC \<noteq> SIGNATURE_LAYER_MAGIC" "COMPRESSION_LAYER_MAGIC \<noteq> ENCRYPTION_LAYER_MAGIC"
  "COMPRESSION_LAYER_MAGIC \<noteq> SIGNATURE_LAYER_MAGIC" "ENCRYPTION_LAYER_MAGIC \<noteq> SIGNATURE_LAYER_MAGIC"
  by (simp_all add: ENTRIES_LAYER_MAGIC_def COMPRESSION_LAYER_MAGIC_def ENCRYPTION_LAYER_MAGIC_def SIGNATURE_LAYER_MAGIC_def
      ascii_def)

lemma compressed_form_head:
  assumes "compressed_form decode bound compression content c" and "take 8 content = ENTRIES_LAYER_MAGIC"
  shows "8 \<le> length c \<and> take 8 c \<in> {ENTRIES_LAYER_MAGIC, COMPRESSION_LAYER_MAGIC}"
proof -
  have "length ENTRIES_LAYER_MAGIC = 8" by (simp add: ENTRIES_LAYER_MAGIC_def)
  then have "8 \<le> length content" using assms(2) by (metis length_take min.cobounded1)
  with assms show ?thesis
    by (auto simp: compressed_form_def comp_header_def COMPRESSION_LAYER_MAGIC_def split: option.splits)
qed

lemma encrypted_form_head:
  assumes f: "encrypted_form K G encryption rng content c" and n: "\<And>keys. encryption = Some keys \<Longrightarrow> length keys < 2 ^ 64"
    and K: "kem_ok K" and G: "gcm_prims_ok G"
    and c: "8 \<le> length content" "take 8 content \<in> {ENTRIES_LAYER_MAGIC, COMPRESSION_LAYER_MAGIC}"
  shows "8 \<le> length c \<and> take 8 c \<noteq> SIGNATURE_LAYER_MAGIC \<and> signed_head K c (config_of K G encryption rng)"
proof (cases encryption)
  case None
  then show ?thesis using f c magics_differ by (auto simp: encrypted_form_def config_of_def signed_head_def)
next
  case (Some keys)
  then obtain pc key nonce g' where p: "to_persistent K G keys rng = (Inr (pc, (key, nonce)), g')"
    "c = enc_layer G pc key nonce content" using f by (auto simp: encrypted_form_def)
  from to_persistent_steps [OF K G p(1)] have "length keys < 2 ^ 64 \<Longrightarrow> persistent_wf K pc" by metis
  with n [OF Some] have "persistent_wf K pc" by simp
  then have "signed_head K c (config_of K G encryption rng)"
    using p by (simp add: config_of_def Some signed_head_def enc_layer_def)
  moreover have "take 8 c = ENCRYPTION_LAYER_MAGIC" "8 \<le> length c"
    by (simp_all add: p(2) enc_layer_def enc_header_def ENCRYPTION_LAYER_MAGIC_def)
  ultimately show ?thesis using magics_differ by simp
qed

lemma open_archive_ok:
  assumes cs: "closed_seekable rd view pos rinv sk" and i: "rinv src" "length (view src) < 2 ^ 63"
    and v: "view src = Format.enc_header @ (c0 @ archive_tail)"
  obtains raw src0 v0 p0 i0 where "open_archive_header rd sk src = Inr (raw, Format.enc_header)"
    "open_archive_tail rd sk raw = Inr src0" "window_seekable (raw_level_read rd) v0 p0 i0 (raw_level_seek sk)"
    "i0 src0" "p0 src0 = 0" "v0 src0 = c0"
proof -
  obtain raw where raw: "open_archive_header rd sk src = Inr (raw, Format.enc_header)" "raw_inv view pos rinv raw"
    "raw_view view raw = c0 @ archive_tail" by (rule open_archive_header_ok [OF cs i(1) v i(2)])
  obtain src0 where s0: "open_archive_tail rd sk raw = Inr src0"
    "strip_inv (raw_view view) (raw_pos pos) (raw_inv view pos rinv) src0" "strip_view (raw_view view) src0 = c0" "sr_pos src0 = 0"
    by (rule open_archive_tail_ok [OF cs raw(2,3)])
  have "window_seekable (raw_level_read rd) (strip_view (raw_view view)) sr_pos
      (strip_inv (raw_view view) (raw_pos pos) (raw_inv view pos rinv)) (raw_level_seek sk)"
    unfolding raw_level_read_def raw_level_seek_def
    by (rule closed_seekable.strip_window_seekable [OF closed_seekable.raw_closed_seekable [OF cs]])
  with raw(1) s0 show thesis by (intro that)
qed

text \<open>From the file to the archive layer.\<close>

lemma stack_reads:
  assumes cs: "closed_seekable rd view pos rinv sk" and i: "rinv src" "length (view src) < 2 ^ 63"
    and S: "sig_ok S" and K: "kem_ok K" and G: "gcm_prims_ok G" and b: "bound < 2 ^ 32"
    and B: "\<And>view pos rinv. source (strip_read (enc_level_read G rd)) view pos rinv \<Longrightarrow> brotli_reader_ok decode view pos rinv B"
    and f: "archive_form S K G decode bound wcfg rng content (view src)"
    and n: "\<And>keys. wcfg_encryption wcfg = Some keys \<Longrightarrow> length keys < 2 ^ 64"
    and t: "trusts S (wcfg_signature wcfg) (rcfg_signature rcfg)" and d: "can_decrypt K G (wcfg_encryption wcfg) rng rcfg"
    and h: "take 8 content = ENTRIES_LAYER_MAGIC" and lc: "length content < 2 ^ 63"
  obtains v3 p3 i3 src3 keys where "seekable (top_read G B rd sk) v3 p3 i3 (top_seek G B rd sk)" "i3 src3" "v3 src3 = content"
    "reports S (wcfg_signature wcfg) (rcfg_signature rcfg) keys"
    "archive_reader_from_config S K G B rd sk src rcfg =
       (case open_entries (top_read G B rd sk) (top_seek G B rd sk) src3 of
          Inl e \<Rightarrow> Some (Inl e) | Inr archive \<Rightarrow> Some (Inr (archive, keys)))"
proof -
  from f obtain c2 c1 c0 where c: "compressed_form decode bound (wcfg_compression wcfg) content c2"
    "encrypted_form K G (wcfg_encryption wcfg) rng c2 c1" "signed_form S (wcfg_signature wcfg) Format.enc_header c1 c0"
    "view src = Format.enc_header @ (c0 @ archive_tail)" by (auto simp: archive_form_def)
  from compressed_form_head [OF c(1) h] have h2: "8 \<le> length c2" "take 8 c2 \<in> {ENTRIES_LAYER_MAGIC, COMPRESSION_LAYER_MAGIC}" by simp_all
  from encrypted_form_head [OF c(2) n K G h2] have h1: "8 \<le> length c1" "take 8 c1 \<noteq> SIGNATURE_LAYER_MAGIC"
    "signed_head K c1 (config_of K G (wcfg_encryption wcfg) rng)" by simp_all
  obtain raw src0 v0 p0 i0 where raw: "open_archive_header rd sk src = Inr (raw, Format.enc_header)"
    "open_archive_tail rd sk raw = Inr src0" and w0: "window_seekable (raw_level_read rd) v0 p0 i0 (raw_level_seek sk)"
    and s0: "i0 src0" "p0 src0 = 0" "v0 src0 = c0" by (rule open_archive_ok [OF cs i c(4)])
  from open_signature_layer_ok [OF w0 S s0(1,2) c(3) [folded s0(3)] t h1(1,2,3)]
  obtain v1 p1 i1 src1 keys sc where
    w1: "window_seekable (sig_level_read rd) v1 p1 i1 (sig_level_seek sk)" and
    s1: "open_signature_layer S K rd sk (rcfg_signature rcfg) Format.enc_header src0 = Some (Inr (src1, take 8 c1, keys, sc))"
      "i1 src1" "v1 src1 = c1" "p1 src1 = 8" "sc = None \<or> sc = config_of K G (wcfg_encryption wcfg) rng"
      "reports S (wcfg_signature wcfg) (rcfg_signature rcfg) keys" .
  have ne: "take 8 c2 \<noteq> ENCRYPTION_LAYER_MAGIC" using h2(2) magics_differ by auto
  from open_encryption_layer_ok [OF w1 K G s1(2,4) c(2) [folded s1(3)] d n h2(1) ne s1(5)]
  obtain v2 p2 i2 src2 where
    e2: "end_seekable (enc_level_read G rd) v2 p2 i2 (enc_level_seek G rd sk)" and
    s2: "open_encryption_layer K G rd sk rcfg sc (take 8 (v1 src1)) src1 = Inr (src2, take 8 c2)"
      "i2 src2" "v2 src2 = c2" "p2 src2 = 8" "length c2 < 2 ^ 63" .
  have nc: "content \<noteq> []" "take 8 content \<noteq> COMPRESSION_LAYER_MAGIC"
    using h magics_differ(1) by (auto simp: ENTRIES_LAYER_MAGIC_def ascii_def)
  from open_compression_layer_ok [where B = B, OF e2 s2(2,4) _ c(1) [folded s2(3)] b B nc(1) lc nc(2)] s2(3,5)
  obtain v3 p3 i3 src3 where s3: "seekable (top_read G B rd sk) v3 p3 i3 (top_seek G B rd sk)"
    "open_compression_layer G rd sk (take 8 (v2 src2)) src2 = Inr src3" "i3 src3" "v3 src3 = content" by metis
  show thesis
    by (rule that [OF s3(1,3,4) s1(6)])
      (use raw s1(1,3) s2(1,3) s3(2) in \<open>simp add: archive_reader_from_config_def\<close>)
qed


section \<open>Properties\<close>

text \<open>C1: end to end, through every layer. For every configuration, each layer being present or absent,
  a list of files with distinct valid names (less than a terabyte of them) is added to a writer over an empty \<^verbatim>\<open>Vec\<close> and finalized; if the
  reader trusts one of the signing keys and holds one of the private keys or the shared secret, the file that comes out opens, the valid keys are reported, the names are those of the files, each content comes back entire
  and its hash is the one recorded. The signing keys must sign, the public keys encapsulate, and brotli decompress
  what it compressed; every call succeeds.\<close>

theorem archive_roundtrip:
  assumes "sig_ok S" and "kem_ok K" and "gcm_prims_ok G" and "brotli_writer_ok decode bound (enc_level_write G vec_write) BW"
    and "\<And>view pos rinv. source (strip_read (enc_level_read G cursor_read)) view pos rinv \<Longrightarrow>
      brotli_reader_ok decode view pos rinv BR"
    and "\<And>x. length (sha256 x) = 32" and "files_ok files" and "files_size files < 2 ^ 40"
    and "\<And>cfg. wcfg_signature wcfg = Some cfg \<Longrightarrow> can_sign S cfg \<and> length (sc_keys cfg) < 2 ^ 40"
    and "\<And>keys. wcfg_encryption wcfg = Some keys \<Longrightarrow>
      length keys < 2 ^ 40 \<and> (\<exists>x g'. to_persistent K G keys rng = (Inr x, g'))"
    and "\<And>cfg. wcfg_compression wcfg = Some cfg \<Longrightarrow> cc_compression_level cfg \<le> 11"
    and "trusts S (wcfg_signature wcfg) (rcfg_signature rcfg)" and "can_decrypt K G (wcfg_encryption wcfg) rng rcfg"
  shows "\<exists>s0 s1 v ar keys names. archive_writer_from_config K G BW vec_write rng [] wcfg = Inr s0 \<and>
    add_files sha256 (top_write G BW vec_write) files s0 = Inr s1 \<and>
    archive_writer_finalize S G BW vec_write s1 = Inr v \<and>
    archive_reader_from_config S K G BR cursor_read cursor_seek (cursor_new v) rcfg = Some (Inr (ar, keys)) \<and>
    reports S (wcfg_signature wcfg) (rcfg_signature rcfg) keys \<and>
    list_entries ar = Inr names \<and> set names = fst ` set files \<and>
    (\<forall>name. get_content (top_read G BR cursor_read cursor_seek) (top_seek G BR cursor_read cursor_seek) name ar =
        map_of files name \<and>
      (\<exists>ar'. get_hash (top_read G BR cursor_read cursor_seek) (top_seek G BR cursor_read cursor_seek) name ar =
         (Inr (map_option sha256 (map_of files name)), ar')))"
proof -
  let ?bs = "files_blocks sha256 0 files"
  have r: "2 ^ 62 \<le> vec_room []" by (simp add: vec_room_def)
  have d: "distinct (map fst files)" using assms(7) by (simp add: files_ok_def)
  obtain s0 s1 v where w: "archive_writer_from_config K G BW vec_write rng [] wcfg = Inr s0"
    "add_files sha256 (top_write G BW vec_write) files s0 = Inr s1" "archive_writer_finalize S G BW vec_write s1 = Inr v"
    and f: "archive_form S K G decode bound wcfg rng (complete_layer ?bs) v" and A: "archive_ok sha256 ?bs"
    and l: "\<exists>f. True \<and> v = f @ archive_tail \<and> length archive_tail \<le> vec_room f"
    by (rule stack_writes [where ?sha256.0 = sha256, OF vec.room_sink_axioms whole_writes_vec TrueI refl r assms(1-4,9-11,7,8,6)])
  have lv: "length v < 2 ^ 63" using l by (auto simp: vec_room_def archive_tail_def EMPTY_TAIL_OPTS_SERIALIZATION_def)
  have lc: "length (complete_layer ?bs) < 2 ^ 63" using A by (simp add: archive_ok_def)
  have h: "take 8 (complete_layer ?bs) = ENTRIES_LAYER_MAGIC" by (simp add: complete_layer_def entries_layer_def ENTRIES_LAYER_MAGIC_def)
  have c: "cursor_inv (cursor_new v)" "length (cur_data (cursor_new v)) < 2 ^ 63"
    using lv by (simp_all add: cursor_inv_def cursor_new_def)
  have b: "bound < 2 ^ 32" using assms(4) by (auto simp: brotli_writer_ok_def brotli_writer_laws_def)
  have n: "length keys < 2 ^ 64" if "wcfg_encryption wcfg = Some keys" for keys
    using assms(10) [OF that] by simp
  have fc: "archive_form S K G decode bound wcfg rng (complete_layer ?bs) (cur_data (cursor_new v))"
    using f by (simp add: cursor_new_def)
  obtain v3 p3 i3 src3 keys where
    s: "seekable (top_read G BR cursor_read cursor_seek) v3 p3 i3 (top_seek G BR cursor_read cursor_seek)" "i3 src3"
      "v3 src3 = complete_layer ?bs" and k: "reports S (wcfg_signature wcfg) (rcfg_signature rcfg) keys" and
    o: "archive_reader_from_config S K G BR cursor_read cursor_seek (cursor_new v) rcfg =
       (case open_entries (top_read G BR cursor_read cursor_seek) (top_seek G BR cursor_read cursor_seek) src3 of
          Inl e \<Rightarrow> Some (Inl e) | Inr archive \<Rightarrow> Some (Inr (archive, keys)))"
    by (rule stack_reads [where B = BR, OF cur.closed_seekable_axioms c assms(1-3) b assms(5) fc n assms(12,13) h lc])
  from seekable.files_read [OF s(1) A d s(2,3)] obtain ar names where e:
    "open_entries (top_read G BR cursor_read cursor_seek) (top_seek G BR cursor_read cursor_seek) src3 = Inr ar"
    "list_entries ar = Inr names" "set names = fst ` set files"
    "\<forall>name. get_content (top_read G BR cursor_read cursor_seek) (top_seek G BR cursor_read cursor_seek) name ar =
        map_of files name \<and>
      (\<exists>ar'. get_hash (top_read G BR cursor_read cursor_seek) (top_seek G BR cursor_read cursor_seek) name ar =
         (Inr (map_option sha256 (map_of files name)), ar'))" .
  have "archive_reader_from_config S K G BR cursor_read cursor_seek (cursor_new v) rcfg = Some (Inr (ar, keys))"
    using o e(1) by simp
  note all = w this k e(2-4)
  show ?thesis by (intro exI conjI; rule all)
qed


text \<open>All the layers at once, over the concrete primitives of the other theories.\<close>

lemma demo_can_sign: "can_sign demo_sig \<lparr>sc_keys = [demo_signing_key], sc_rng = Inr ()\<rparr>"
  by (simp add: can_sign_def sign_mldsa87_def demo_sig_def)

theorem archive_roundtrip_witness:
  "let files = [(EntryName [98], [1, 2]), (EntryName [97], [])];
     wcfg = \<lparr>wcfg_compression = Some \<lparr>cc_compression_level = 5\<rparr>,
       wcfg_encryption = Some [public_key_of demo_kem demo_sk],
       wcfg_signature = Some \<lparr>sc_keys = [demo_signing_key], sc_rng = Inr ()\<rparr>\<rparr>;
     rcfg = \<lparr>rcfg_accept_unencrypted = False,
       rcfg_encrypt = \<lparr>rc_private_keys = [demo_sk], rc_encrypt_parameters = None, rc_shared_secrets = []\<rparr>,
       rcfg_signature = \<lparr>src_keys = [verification_key_of demo_sig demo_signing_key], src_check = True\<rparr>\<rparr>;
     BW = demo_brotli_writer (enc_level_write demo_prims vec_write);
     BR = demo_brotli_reader (strip_read (enc_level_read demo_prims cursor_read));
     rd = top_read demo_prims BR cursor_read cursor_seek;
     sk = top_seek demo_prims BR cursor_read cursor_seek
   in \<exists>s0 s1 v ar keys names. archive_writer_from_config demo_kem demo_prims BW vec_write () [] wcfg = Inr s0 \<and>
    add_files demo_hash (top_write demo_prims BW vec_write) files s0 = Inr s1 \<and>
    archive_writer_finalize demo_sig demo_prims BW vec_write s1 = Inr v \<and>
    archive_reader_from_config demo_sig demo_kem demo_prims BR cursor_read cursor_seek (cursor_new v) rcfg = Some (Inr (ar, keys)) \<and>
    reports demo_sig (wcfg_signature wcfg) (rcfg_signature rcfg) keys \<and>
    list_entries ar = Inr names \<and> set names = fst ` set files \<and>
    (\<forall>name. get_content rd sk name ar = map_of files name \<and>
      (\<exists>ar'. get_hash rd sk name ar = (Inr (map_option demo_hash (map_of files name)), ar')))"
  unfolding Let_def
proof (rule archive_roundtrip [OF demo_sig_ok demo_kem_ok demo_prims_ok demo_brotli_writer_ok demo_brotli_reader_ok])
  show "files_ok [(EntryName [98], [1, 2]), (EntryName [97], [])]"
    by (simp add: files_ok_def wf_name_def ENTRY_NAME_MAX_SIZE_def)
  show "files_size [(EntryName [98], [1, 2]), (EntryName [97], [])] < 2 ^ 40" by simp
  fix keys
  assume "wcfg_encryption \<lparr>wcfg_compression = Some \<lparr>cc_compression_level = 5\<rparr>,
       wcfg_encryption = Some [public_key_of demo_kem demo_sk],
       wcfg_signature = Some \<lparr>sc_keys = [demo_signing_key], sc_rng = Inr ()\<rparr>\<rparr> = Some keys"
  then show "length keys < 2 ^ 40 \<and> (\<exists>x g'. to_persistent demo_kem demo_prims keys () = (Inr x, g'))"
    using demo_to_persistent by auto
qed (use demo_can_sign in \<open>auto simp: demo_hash_def trusts_def can_decrypt_def
     intro!: exI [of _ demo_sk] exI [of _ "[]"]\<close>)


text \<open>C2: no silent downgrade. If the archive was not signed and the reader asks for signatures, or if it was
  not encrypted and the reader does not accept that, opening fails with the error that says so, whatever the
  other layers are. The signature layer is opened first: for an archive that is not encrypted, the reader is one
  that this layer, when present, lets through.\<close>

theorem downgrade_refused:
  assumes "closed_seekable rd view pos rinv sk" and "rinv src" and "length (view src) < 2 ^ 63"
    and "sig_ok S" and "kem_ok K" and "gcm_prims_ok G"
    and "archive_form S K G decode bound wcfg rng content (view src)" and "take 8 content = ENTRIES_LAYER_MAGIC"
    and "\<And>keys. wcfg_encryption wcfg = Some keys \<Longrightarrow> length keys < 2 ^ 64"
  shows "(wcfg_signature wcfg = None \<and> src_check (rcfg_signature rcfg) \<longrightarrow>
      archive_reader_from_config S K G B rd sk src rcfg = Some (Inl SignatureVerificationAskedButNoSignatureLayerFound)) \<and>
    (wcfg_encryption wcfg = None \<and> \<not> rcfg_accept_unencrypted rcfg \<and>
       trusts S (wcfg_signature wcfg) (rcfg_signature rcfg) \<longrightarrow>
      archive_reader_from_config S K G B rd sk src rcfg = Some (Inl EncryptionAskedButNotMarkedPresent))"
proof -
  from assms(7) obtain c2 c1 c0 where c: "compressed_form decode bound (wcfg_compression wcfg) content c2"
    "encrypted_form K G (wcfg_encryption wcfg) rng c2 c1" "signed_form S (wcfg_signature wcfg) Format.enc_header c1 c0"
    "view src = Format.enc_header @ (c0 @ archive_tail)" by (auto simp: archive_form_def)
  from compressed_form_head [OF c(1) assms(8)] have h2: "8 \<le> length c2" "take 8 c2 \<in> {ENTRIES_LAYER_MAGIC, COMPRESSION_LAYER_MAGIC}" by simp_all
  from encrypted_form_head [OF c(2) assms(9,5,6) h2] have h1: "8 \<le> length c1" "take 8 c1 \<noteq> SIGNATURE_LAYER_MAGIC"
    "signed_head K c1 (config_of K G (wcfg_encryption wcfg) rng)" by simp_all
  obtain raw src0 v0 p0 i0 where raw: "open_archive_header rd sk src = Inr (raw, Format.enc_header)"
    "open_archive_tail rd sk raw = Inr src0" and w0: "window_seekable (raw_level_read rd) v0 p0 i0 (raw_level_seek sk)"
    and s0: "i0 src0" "p0 src0 = 0" "v0 src0 = c0" by (rule open_archive_ok [OF assms(1-3) c(4)])
  show ?thesis
  proof (intro conjI impI; elim conjE)
    assume a: "wcfg_signature wcfg = None" "src_check (rcfg_signature rcfg)"
    have so: "source (raw_level_read rd) v0 p0 i0"
      using w0 by (simp add: window_seekable_def closed_seekable_def eof_source_def)
    have "hash_inv v0 p0 i0 Format.enc_header 0 \<lparr>hr_inner = src0, hr_hash = Format.enc_header\<rparr>"
      using s0 by (simp add: hash_inv_def)
    from read_magic_ok [OF hash_source [OF so] this] s0 h1(1) c(3) a(1) obtain h where
      "read_layer_magic (hash_read (raw_level_read rd)) \<lparr>hr_inner = src0, hr_hash = Format.enc_header\<rparr> = (Inr (take 8 c1), h)"
      by (auto simp: signed_form_def)
    then have "open_signature_layer S K rd sk (rcfg_signature rcfg) Format.enc_header src0 =
        Some (Inl SignatureVerificationAskedButNoSignatureLayerFound)"
      using h1(2) a(2) by (simp add: open_signature_layer_def)
    then show "archive_reader_from_config S K G B rd sk src rcfg = Some (Inl SignatureVerificationAskedButNoSignatureLayerFound)"
      using raw by (simp add: archive_reader_from_config_def)
  next
    assume a: "wcfg_encryption wcfg = None" "\<not> rcfg_accept_unencrypted rcfg" "trusts S (wcfg_signature wcfg) (rcfg_signature rcfg)"
    from open_signature_layer_ok [OF w0 assms(4) s0(1,2) c(3) [folded s0(3)] a(3) h1] obtain src1 keys sc where
      o: "open_signature_layer S K rd sk (rcfg_signature rcfg) Format.enc_header src0 = Some (Inr (src1, take 8 c1, keys, sc))" by metis
    have "c1 = c2" using c(2) a(1) by (simp add: encrypted_form_def)
    then have "take 8 c1 \<noteq> ENCRYPTION_LAYER_MAGIC" using h2(2) magics_differ by auto
    then have "open_encryption_layer K G rd sk rcfg sc (take 8 c1) src1 = Inl EncryptionAskedButNotMarkedPresent"
      using a(2) by (simp add: open_encryption_layer_def)
    then show "archive_reader_from_config S K G B rd sk src rcfg = Some (Inl EncryptionAskedButNotMarkedPresent)"
      using raw o by (simp add: archive_reader_from_config_def)
  qed
qed

text \<open>A plain archive without layers, and a reader made by the constructors of the configuration.\<close>

theorem downgrade_refused_witness:
  "let v = Format.enc_header @ ENTRIES_LAYER_MAGIC @ archive_tail in
   archive_reader_from_config demo_sig demo_kem demo_prims (demo_brotli_reader (strip_read (enc_level_read demo_prims cursor_read)))
     cursor_read cursor_seek (cursor_new v) (reader_with_encryption [demo_sk] reader_without_signature_verification) =
     Some (Inl EncryptionAskedButNotMarkedPresent) \<and>
   archive_reader_from_config demo_sig demo_kem demo_prims (demo_brotli_reader (strip_read (enc_level_read demo_prims cursor_read)))
     cursor_read cursor_seek (cursor_new v) (reader_without_encryption (reader_with_signature_verification [])) =
     Some (Inl SignatureVerificationAskedButNoSignatureLayerFound)"
  unfolding Let_def
proof -
  let ?v = "Format.enc_header @ ENTRIES_LAYER_MAGIC @ archive_tail"
  let ?B = "demo_brotli_reader (strip_read (enc_level_read demo_prims cursor_read))"
  let ?w = "\<lparr>wcfg_compression = None, wcfg_encryption = None, wcfg_signature = None\<rparr> :: unit archive_writer_config"
  have l: "length ?v < 2 ^ 63"
    by (simp add: Format.enc_header_def MLA_MAGIC_def EMPTY_OPTS_SERIALIZATION_def ENTRIES_LAYER_MAGIC_def archive_tail_def
        EMPTY_TAIL_OPTS_SERIALIZATION_def END_MLA_MAGIC_def)
  then have c: "cursor_inv (cursor_new ?v)" "length (cur_data (cursor_new ?v)) < 2 ^ 63"
    by (simp_all add: cursor_inv_def cursor_new_def)
  have f: "archive_form demo_sig demo_kem demo_prims Some 0 ?w () ENTRIES_LAYER_MAGIC (cur_data (cursor_new ?v))"
    by (simp add: archive_form_def compressed_form_def encrypted_form_def signed_form_def cursor_new_def)
  have h: "take 8 ENTRIES_LAYER_MAGIC = ENTRIES_LAYER_MAGIC" by (simp add: ENTRIES_LAYER_MAGIC_def)
  have n: "length keys < 2 ^ 64" if "wcfg_encryption ?w = Some keys" for keys using that by simp
  note d = downgrade_refused [OF cur.closed_seekable_axioms c demo_sig_ok demo_kem_ok demo_prims_ok f h n, where B = ?B]
  show "archive_reader_from_config demo_sig demo_kem demo_prims ?B cursor_read cursor_seek (cursor_new ?v)
      (reader_with_encryption [demo_sk] reader_without_signature_verification) = Some (Inl EncryptionAskedButNotMarkedPresent) \<and>
    archive_reader_from_config demo_sig demo_kem demo_prims ?B cursor_read cursor_seek (cursor_new ?v)
      (reader_without_encryption (reader_with_signature_verification [])) =
      Some (Inl SignatureVerificationAskedButNoSignatureLayerFound)"
  proof
    show "archive_reader_from_config demo_sig demo_kem demo_prims ?B cursor_read cursor_seek (cursor_new ?v)
        (reader_with_encryption [demo_sk] reader_without_signature_verification) = Some (Inl EncryptionAskedButNotMarkedPresent)"
      by (rule d [THEN conjunct2, THEN mp]) (simp_all add: reader_config_defs Let_def trusts_def)
    show "archive_reader_from_config demo_sig demo_kem demo_prims ?B cursor_read cursor_seek (cursor_new ?v)
        (reader_without_encryption (reader_with_signature_verification [])) =
        Some (Inl SignatureVerificationAskedButNoSignatureLayerFound)"
      by (rule d [THEN conjunct1, THEN mp]) (simp_all add: reader_config_defs Let_def)
  qed
qed

end
