(* ===== verification/KeyFile.thy ===== *)
theory KeyFile
  imports Base64 Signature
begin

text \<open>
  Key files (\<^verbatim>\<open>mla/src/crypto/mlakey.rs\<close>): the five lines of a file, the base64 of the keys on them, and the
  derivation of keys along a path. The file is read to its end first, so that a source that never ends is read
  for ever: \<open>None\<close>.
\<close>

section \<open>The crates\<close>

text \<open>A secret key is its bytes, and a public key its encoding; the decoders of the crates may refuse bytes or
  normalize them. \<open>'g\<close> is the state of the generator.\<close>

record 'g key_prims =
  ky_ed_generate :: "'g \<Rightarrow> bytes \<times> 'g"
  ky_rng_from_seed :: "bytes \<Rightarrow> 'g"
  ky_mlkem_from_bytes :: "bytes \<Rightarrow> bytes"
  ky_ed_from_bytes :: "bytes \<Rightarrow> bytes option"
  ky_mldsa_decode :: "bytes \<Rightarrow> bytes"

definition MLKEM1024_PUBLIC_KEY_SIZE :: nat where "MLKEM1024_PUBLIC_KEY_SIZE = 1568"
definition MLDSA87_PUBLIC_KEY_SIZE :: nat where "MLDSA87_PUBLIC_KEY_SIZE = 2592"

section \<open>Constants\<close>

definition MLA_PRIV_DEC_KEY_HEADER :: bytes where "MLA_PRIV_DEC_KEY_HEADER = ascii ''MLA PRIVATE DECRYPTION KEY ''"
definition MLA_PRIV_SIG_KEY_HEADER :: bytes where "MLA_PRIV_SIG_KEY_HEADER = ascii ''MLA PRIVATE SIGNING KEY ''"
definition DEC_METHOD_ID_0_PRIV :: bytes where "DEC_METHOD_ID_0_PRIV = ascii ''mla-kem-private-x25519-mlkem1024''"
definition SIG_METHOD_ID_0_PRIV :: bytes where "SIG_METHOD_ID_0_PRIV = ascii ''mla-signature-private-ed25519-mldsa87''"
definition MLA_PUB_ENC_KEY_HEADER :: bytes where "MLA_PUB_ENC_KEY_HEADER = ascii ''MLA PUBLIC ENCRYPTION KEY ''"
definition MLA_PUB_SIGVERIF_KEY_HEADER :: bytes where
  "MLA_PUB_SIGVERIF_KEY_HEADER = ascii ''MLA PUBLIC SIGNATURE VERIFICATION KEY ''"
definition ENC_METHOD_ID_0_PUB :: bytes where "ENC_METHOD_ID_0_PUB = ascii ''mla-kem-public-x25519-mlkem1024''"
definition SIGVERIF_METHOD_ID_0_PUB :: bytes where
  "SIGVERIF_METHOD_ID_0_PUB = ascii ''mla-signature-verification-public-ed25519-mldsa87''"
definition ED25519_PRIVKEY_SIZE :: nat where "ED25519_PRIVKEY_SIZE = 32"
definition MLDSA_XI_SIZE :: nat where "MLDSA_XI_SIZE = 32"
definition MLKEM_DZ_SIZE :: nat where "MLKEM_DZ_SIZE = 64"
definition ECC_PRIVKEY_SIZE :: nat where "ECC_PRIVKEY_SIZE = 32"
definition ECC_PUBKEY_SIZE :: nat where "ECC_PUBKEY_SIZE = 32"
definition PRIV_KEY_FILE_HEADER :: bytes where
  "PRIV_KEY_FILE_HEADER = ascii ''DO NOT SEND THIS TO ANYONE - MLA PRIVATE KEY FILE V1''"
definition PRIV_KEY_FILE_FOOTER :: bytes where "PRIV_KEY_FILE_FOOTER = ascii ''END OF MLA PRIVATE KEY FILE''"
definition PUB_KEY_FILE_HEADER :: bytes where "PUB_KEY_FILE_HEADER = ascii ''MLA PUBLIC KEY FILE V1''"
definition PUB_KEY_FILE_FOOTER :: bytes where "PUB_KEY_FILE_FOOTER = ascii ''END OF MLA PUBLIC KEY FILE''"
definition DERIVE_PATH_SALT :: bytes where "DERIVE_PATH_SALT = ascii ''PATH DERIVATION''"

definition CRLF :: bytes where "CRLF = [13, 10]"

section \<open>The lines of a file\<close>

text \<open>The buffer grows by doubling; \<open>buf\<close> is its part that was read.\<close>

partial_function (option) zeroizeable_read_loop ::
  "(nat \<Rightarrow> ('r, io_error, bytes) op) \<Rightarrow> bytes \<Rightarrow> nat \<Rightarrow> 'r \<Rightarrow> ((error + bytes) \<times> 'r) option" where
  "zeroizeable_read_loop rd buf min_capacity s =
     (case (if length buf = min_capacity then checked_mul min_capacity 2 else Some min_capacity) of
        None \<Rightarrow> Some (Inl DeserializationError, s)
      | Some capacity \<Rightarrow>
          (case rd (capacity - length buf) s of
             (Inl _, s') \<Rightarrow> Some (Inl DeserializationError, s')
           | (Inr bs, s') \<Rightarrow>
               if bs = [] then Some (Inr buf, s')
               else (case checked_add (length buf) (length bs) of
                       None \<Rightarrow> Some (Inl DeserializationError, s')
                     | Some _ \<Rightarrow> zeroizeable_read_loop rd (buf @ bs) capacity s')))"

definition zeroizeable_read_to_end ::
  "(nat \<Rightarrow> ('r, io_error, bytes) op) \<Rightarrow> 'r \<Rightarrow> ((error + bytes) \<times> 'r) option" where
  "zeroizeable_read_to_end rd = zeroizeable_read_loop rd [] 4096"

text \<open>A separator is \<open>CRLF\<close> or two underscores. The part before it is not empty.\<close>

definition separator_index :: "bytes \<Rightarrow> nat" where
  "separator_index content =
     (let i = length (takeWhile (\<lambda>b. b \<noteq> 13 \<and> b \<noteq> 95) content) in if i < length content then i else 0)"

definition split_separator :: "bytes \<Rightarrow> error + bytes \<times> bytes" where
  "split_separator content =
     (let i = separator_index content in
      if i = 0 then Inl DeserializationError
      else let part = take i content; rest = drop i content in
        if length rest < 2 \<or> (rest ! 0 \<noteq> 13 \<and> rest ! 0 \<noteq> 95) \<or> (rest ! 0 = 13 \<and> rest ! 1 \<noteq> 10) \<or>
           (rest ! 0 = 95 \<and> rest ! 1 \<noteq> 95)
        then Inl DeserializationError
        else Inr (part, drop 2 rest))"

definition split_in_five_parts :: "bytes \<Rightarrow> error + bytes \<times> bytes \<times> bytes \<times> bytes \<times> bytes" where
  "split_in_five_parts content =
     (case split_separator content of
        Inl e \<Rightarrow> Inl e
      | Inr (first_part, rest) \<Rightarrow>
     (case split_separator rest of
        Inl e \<Rightarrow> Inl e
      | Inr (second_part, rest) \<Rightarrow>
     (case split_separator rest of
        Inl e \<Rightarrow> Inl e
      | Inr (third_part, rest) \<Rightarrow>
     (case split_separator rest of
        Inl e \<Rightarrow> Inl e
      | Inr (fourth_part, rest) \<Rightarrow>
     (case split_separator rest of
        Inl e \<Rightarrow> Inl e
      | Inr (fifth_part, rest) \<Rightarrow>
          if rest \<noteq> [] then Inl DeserializationError
          else Inr (first_part, second_part, third_part, fourth_part, fifth_part))))))"

section \<open>Options\<close>

definition serialize_key_opts :: "(bytes \<Rightarrow> ('w, io_error, nat) op) \<Rightarrow> ('w, error, unit) op" where
  "serialize_key_opts wr =
     bindE (lift_res (base64_encode EMPTY_OPTS_SERIALIZATION)) (\<lambda>encoded.
     bindE (lift_io (write_all wr encoded)) (\<lambda>_. lift_io (write_all wr CRLF)))"

definition KEY_OPTS_BUFFER_SIZE :: nat where "KEY_OPTS_BUFFER_SIZE = 4096"

primrec skip_key_opts_chunks :: "(nat \<Rightarrow> ('r, io_error, bytes) op) \<Rightarrow> nat \<Rightarrow> ('r, error, unit) op" where
  "skip_key_opts_chunks rd 0 = ret ()"
| "skip_key_opts_chunks rd (Suc n) =
     bindE (read_exact_or_deser rd KEY_OPTS_BUFFER_SIZE) (\<lambda>_. skip_key_opts_chunks rd n)"

definition key_opts_deserialize :: "(nat \<Rightarrow> ('r, io_error, bytes) op) \<Rightarrow> ('r, error, unit) op" where
  "key_opts_deserialize rd =
     bindE (u8_deserialize rd) (\<lambda>discriminant.
       if discriminant = 0 then ret ()
       else if discriminant = 1 then
         bindE (lift_io (read_exact rd 8)) (\<lambda>key_opts_len.
         bindE (skip_key_opts_chunks rd (from_le key_opts_len div KEY_OPTS_BUFFER_SIZE)) (\<lambda>_.
         bindE (read_exact_or_deser rd (from_le key_opts_len mod KEY_OPTS_BUFFER_SIZE)) (\<lambda>_. ret ())))
       else fail DeserializationError)"

section \<open>A key on its line\<close>

definition strip_prefix :: "bytes \<Rightarrow> bytes \<Rightarrow> bytes option" where
  "strip_prefix prefix xs = (if take (length prefix) xs = prefix then Some (drop (length prefix) xs) else None)"

definition key_line_data :: "bytes \<Rightarrow> bytes \<Rightarrow> error + bytes" where
  "key_line_data header line =
     (case strip_prefix header line of
        None \<Rightarrow> Inl DeserializationError
      | Some b64data \<Rightarrow> (case base64_decode b64data of Inl _ \<Rightarrow> Inl DeserializationError | Inr d \<Rightarrow> Inr d))"

text \<open>What follows the method identifier and the options.\<close>

definition read_key ::
  "bytes \<Rightarrow> (cursor, error, 'k) op \<Rightarrow> (cursor, error, 'k) op" where
  "read_key method_id key =
     bindE (read_exact_or_deser cursor_read (length method_id)) (\<lambda>m.
       if m \<noteq> method_id then fail DeserializationError
       else bindE (key_opts_deserialize cursor_read) (\<lambda>_. key))"

definition key_on_line :: "bytes \<Rightarrow> bytes \<Rightarrow> (cursor, error, 'k) op \<Rightarrow> bytes \<Rightarrow> error + 'k" where
  "key_on_line header method_id key line =
     (case key_line_data header line of
        Inl e \<Rightarrow> Inl e
      | Inr data \<Rightarrow> fst (read_key method_id key (cursor_new data)))"

definition write_key_line ::
  "(bytes \<Rightarrow> ('w, io_error, nat) op) \<Rightarrow> bytes \<Rightarrow> bytes \<Rightarrow> ('w, error, unit) op" where
  "write_key_line wr header b64data =
     bindE (lift_io (write_all wr header)) (\<lambda>_.
     bindE (lift_res (base64_encode b64data)) (\<lambda>encoded.
     bindE (lift_io (write_all wr encoded)) (\<lambda>_. lift_io (write_all wr CRLF))))"

definition deserialize_decryption_private_key :: "bytes \<Rightarrow> error + decryption_private_key" where
  "deserialize_decryption_private_key line =
     key_on_line MLA_PRIV_DEC_KEY_HEADER DEC_METHOD_ID_0_PRIV
       (bindE (read_exact_or_deser cursor_read ECC_PRIVKEY_SIZE) (\<lambda>serialized_ecc_key.
        bindE (read_exact_or_deser cursor_read MLKEM_DZ_SIZE) (\<lambda>serialized_mlkem_seed.
          ret \<lparr>dk_ecc = serialized_ecc_key, dk_seed_ml = mlkem_seed_from_d_z_64 serialized_mlkem_seed\<rparr>))) line"

definition serialize_decryption_private_key ::
  "(bytes \<Rightarrow> ('w, io_error, nat) op) \<Rightarrow> decryption_private_key \<Rightarrow> ('w, error, unit) op" where
  "serialize_decryption_private_key wr k =
     write_key_line wr MLA_PRIV_DEC_KEY_HEADER
       (DEC_METHOD_ID_0_PRIV @ EMPTY_OPTS_SERIALIZATION @ dk_ecc k @ mlkem_seed_to_d_z_64 (dk_seed_ml k))"

definition deserialize_signing_private_key :: "bytes \<Rightarrow> error + signing_private_key" where
  "deserialize_signing_private_key line =
     key_on_line MLA_PRIV_SIG_KEY_HEADER SIG_METHOD_ID_0_PRIV
       (bindE (read_exact_or_deser cursor_read ED25519_PRIVKEY_SIZE) (\<lambda>serialized_ecc_key.
        bindE (read_exact_or_deser cursor_read MLDSA_XI_SIZE) (\<lambda>serialized_mldsa_seed.
          ret \<lparr>sk_ed25519 = serialized_ecc_key, sk_seed_mldsa = serialized_mldsa_seed\<rparr>))) line"

definition serialize_signing_private_key ::
  "(bytes \<Rightarrow> ('w, io_error, nat) op) \<Rightarrow> signing_private_key \<Rightarrow> ('w, error, unit) op" where
  "serialize_signing_private_key wr k =
     write_key_line wr MLA_PRIV_SIG_KEY_HEADER
       (SIG_METHOD_ID_0_PRIV @ EMPTY_OPTS_SERIALIZATION @ sk_ed25519 k @ sk_seed_mldsa k)"

definition deserialize_encryption_public_key :: "'g key_prims \<Rightarrow> bytes \<Rightarrow> error + encryption_public_key" where
  "deserialize_encryption_public_key Y line =
     key_on_line MLA_PUB_ENC_KEY_HEADER ENC_METHOD_ID_0_PUB
       (bindE (read_exact_or_deser cursor_read ECC_PUBKEY_SIZE) (\<lambda>serialized_ecc_key.
        bindE (map_errE (\<lambda>_. DeserializationError) (read_to_end cursor_read)) (\<lambda>serialized_mlkem_key.
          if length serialized_mlkem_key \<noteq> MLKEM1024_PUBLIC_KEY_SIZE then fail DeserializationError
          else ret \<lparr>ek_ecc = serialized_ecc_key, ek_ml = ky_mlkem_from_bytes Y serialized_mlkem_key\<rparr>))) line"

definition serialize_encryption_public_key ::
  "(bytes \<Rightarrow> ('w, io_error, nat) op) \<Rightarrow> encryption_public_key \<Rightarrow> ('w, error, unit) op" where
  "serialize_encryption_public_key wr k =
     write_key_line wr MLA_PUB_ENC_KEY_HEADER (ENC_METHOD_ID_0_PUB @ EMPTY_OPTS_SERIALIZATION @ ek_ecc k @ ek_ml k)"

definition deserialize_signature_verification_public_key ::
  "'g key_prims \<Rightarrow> bytes \<Rightarrow> error + signature_verification_key" where
  "deserialize_signature_verification_public_key Y line =
     key_on_line MLA_PUB_SIGVERIF_KEY_HEADER SIGVERIF_METHOD_ID_0_PUB
       (bindE (read_exact_or_deser cursor_read ECC_PUBKEY_SIZE) (\<lambda>serialized_ecc_key.
        bindE (lift_res (ok_or DeserializationError (ky_ed_from_bytes Y serialized_ecc_key))) (\<lambda>public_key_ed25519.
        bindE (map_errE (\<lambda>_. DeserializationError) (read_to_end cursor_read)) (\<lambda>serialized_mldsa_key.
          if length serialized_mldsa_key \<noteq> MLDSA87_PUBLIC_KEY_SIZE then fail DeserializationError
          else ret \<lparr>vk_ed25519 = public_key_ed25519, vk_mldsa87 = ky_mldsa_decode Y serialized_mldsa_key\<rparr>)))) line"

definition serialize_signature_verification_public_key ::
  "(bytes \<Rightarrow> ('w, io_error, nat) op) \<Rightarrow> signature_verification_key \<Rightarrow> ('w, error, unit) op" where
  "serialize_signature_verification_public_key wr k =
     write_key_line wr MLA_PUB_SIGVERIF_KEY_HEADER
       (SIGVERIF_METHOD_ID_0_PUB @ EMPTY_OPTS_SERIALIZATION @ vk_ed25519 k @ vk_mldsa87 k)"

section \<open>Files\<close>

record mla_private_key =
  pv_decryption :: decryption_private_key
  pv_signing :: signing_private_key

record mla_public_key =
  pb_encryption :: encryption_public_key
  pb_verification :: signature_verification_key

text \<open>The fourth line, the options of the file, is not looked at.\<close>

definition deserialize_private_key ::
  "(nat \<Rightarrow> ('r, io_error, bytes) op) \<Rightarrow> 'r \<Rightarrow> ((error + mla_private_key) \<times> 'r) option" where
  "deserialize_private_key rd src =
     (case zeroizeable_read_to_end rd src of
        None \<Rightarrow> None
      | Some (Inl e, src') \<Rightarrow> Some (Inl e, src')
      | Some (Inr content, src') \<Rightarrow>
          Some (case split_in_five_parts content of
             Inl e \<Rightarrow> Inl e
           | Inr (line0, line1, line2, line3, line4) \<Rightarrow>
               if line0 \<noteq> PRIV_KEY_FILE_HEADER then Inl DeserializationError
               else if line4 \<noteq> PRIV_KEY_FILE_FOOTER then Inl DeserializationError
               else (case deserialize_decryption_private_key line1 of
                       Inl e \<Rightarrow> Inl e
                     | Inr decryption_private_key \<Rightarrow>
                    (case deserialize_signing_private_key line2 of
                       Inl e \<Rightarrow> Inl e
                     | Inr signing_private_key \<Rightarrow>
                         Inr \<lparr>pv_decryption = decryption_private_key, pv_signing = signing_private_key\<rparr>)), src'))"

definition serialize_private_key ::
  "(bytes \<Rightarrow> ('w, io_error, nat) op) \<Rightarrow> mla_private_key \<Rightarrow> ('w, error, unit) op" where
  "serialize_private_key wr k =
     bindE (lift_io (write_all wr PRIV_KEY_FILE_HEADER)) (\<lambda>_.
     bindE (lift_io (write_all wr CRLF)) (\<lambda>_.
     bindE (serialize_decryption_private_key wr (pv_decryption k)) (\<lambda>_.
     bindE (serialize_signing_private_key wr (pv_signing k)) (\<lambda>_.
     bindE (serialize_key_opts wr) (\<lambda>_.
     bindE (lift_io (write_all wr PRIV_KEY_FILE_FOOTER)) (\<lambda>_. lift_io (write_all wr CRLF)))))))"

definition deserialize_public_key ::
  "'g key_prims \<Rightarrow> (nat \<Rightarrow> ('r, io_error, bytes) op) \<Rightarrow> 'r \<Rightarrow> ((error + mla_public_key) \<times> 'r) option" where
  "deserialize_public_key Y rd src =
     (case zeroizeable_read_to_end rd src of
        None \<Rightarrow> None
      | Some (Inl e, src') \<Rightarrow> Some (Inl e, src')
      | Some (Inr content, src') \<Rightarrow>
          Some (case split_in_five_parts content of
             Inl e \<Rightarrow> Inl e
           | Inr (line0, line1, line2, line3, line4) \<Rightarrow>
               if line0 \<noteq> PUB_KEY_FILE_HEADER then Inl DeserializationError
               else if line4 \<noteq> PUB_KEY_FILE_FOOTER then Inl DeserializationError
               else (case deserialize_encryption_public_key Y line1 of
                       Inl e \<Rightarrow> Inl e
                     | Inr encryption_public_key \<Rightarrow>
                    (case deserialize_signature_verification_public_key Y line2 of
                       Inl e \<Rightarrow> Inl e
                     | Inr signature_verification_public_key \<Rightarrow>
                         Inr \<lparr>pb_encryption = encryption_public_key,
                              pb_verification = signature_verification_public_key\<rparr>)), src'))"

definition serialize_public_key ::
  "(bytes \<Rightarrow> ('w, io_error, nat) op) \<Rightarrow> mla_public_key \<Rightarrow> ('w, error, unit) op" where
  "serialize_public_key wr k =
     bindE (lift_io (write_all wr PUB_KEY_FILE_HEADER)) (\<lambda>_.
     bindE (lift_io (write_all wr CRLF)) (\<lambda>_.
     bindE (serialize_encryption_public_key wr (pb_encryption k)) (\<lambda>_.
     bindE (serialize_signature_verification_public_key wr (pb_verification k)) (\<lambda>_.
     bindE (serialize_key_opts wr) (\<lambda>_.
     bindE (lift_io (write_all wr PUB_KEY_FILE_FOOTER)) (\<lambda>_. lift_io (write_all wr CRLF)))))))"

section \<open>Making and deriving keys\<close>

definition derive_public_key :: "'k kem_prims \<Rightarrow> ('g, 's) sig_prims \<Rightarrow> mla_private_key \<Rightarrow> mla_public_key" where
  "derive_public_key K S k =
     \<lparr>pb_encryption = \<lparr>ek_ecc = kp_x25519_public K (dk_ecc (pv_decryption k)),
        ek_ml = mlkem_seed_to_pubkey K (dk_seed_ml (pv_decryption k))\<rparr>,
      pb_verification = \<lparr>vk_ed25519 = sp_ed_public S (sk_ed25519 (pv_signing k)),
        vk_mldsa87 = sp_ml_public S (sk_seed_mldsa (pv_signing k))\<rparr>\<rparr>"

definition mldsa_seed_generate_from_csprng :: "'k kem_prims \<Rightarrow> 'k \<Rightarrow> bytes \<times> 'k" where
  "mldsa_seed_generate_from_csprng K g = kp_fill_bytes K 32 g"

definition generate_signature_keypair_from_rng ::
  "'k key_prims \<Rightarrow> 'k kem_prims \<Rightarrow> ('g, 's) sig_prims \<Rightarrow> 'k \<Rightarrow> (signing_private_key \<times> signature_verification_key) \<times> 'k" where
  "generate_signature_keypair_from_rng Y K S g =
     (case ky_ed_generate Y g of
        (private_key_ed25519, g1) \<Rightarrow>
          (case mldsa_seed_generate_from_csprng K g1 of
             (private_key_seed_mldsa, g2) \<Rightarrow>
               ((\<lparr>sk_ed25519 = private_key_ed25519, sk_seed_mldsa = private_key_seed_mldsa\<rparr>,
                 \<lparr>vk_ed25519 = sp_ed_public S private_key_ed25519, vk_mldsa87 = sp_ml_public S private_key_seed_mldsa\<rparr>), g2)))"

definition generate_mla_keypair_from_rng ::
  "'k key_prims \<Rightarrow> 'k kem_prims \<Rightarrow> ('g, 's) sig_prims \<Rightarrow> 'k \<Rightarrow> mla_private_key \<times> mla_public_key" where
  "generate_mla_keypair_from_rng Y K S g =
     (case generate_keypair_from_rng K g of
        ((decryption_private_key, encryption_public_key), g1) \<Rightarrow>
          (case generate_signature_keypair_from_rng Y K S g1 of
             ((signing_private_key, signature_verification_public_key), _) \<Rightarrow>
               (\<lparr>pv_decryption = decryption_private_key, pv_signing = signing_private_key\<rparr>,
                \<lparr>pb_encryption = encryption_public_key, pb_verification = signature_verification_public_key\<rparr>)))"

definition generate_mla_keypair_from_seed ::
  "'k key_prims \<Rightarrow> 'k kem_prims \<Rightarrow> ('g, 's) sig_prims \<Rightarrow> bytes \<Rightarrow> mla_private_key \<times> mla_public_key" where
  "generate_mla_keypair_from_seed Y K S seed = generate_mla_keypair_from_rng Y K S (ky_rng_from_seed Y seed)"

text \<open>The generator of the system may be missing.\<close>

definition generate_mla_keypair ::
  "'k key_prims \<Rightarrow> 'k kem_prims \<Rightarrow> ('g, 's) sig_prims \<Rightarrow> error + 'k \<Rightarrow> error + mla_private_key \<times> mla_public_key" where
  "generate_mla_keypair Y K S crypto_rng =
     (case crypto_rng of Inl e \<Rightarrow> Inl e | Inr g \<Rightarrow> Inr (generate_mla_keypair_from_rng Y K S g))"

definition apply_derive :: "'k kem_prims \<Rightarrow> bytes \<Rightarrow> decryption_private_key \<Rightarrow> bytes" where
  "apply_derive K path src =
     (let dprf_salt = kp_hkdf_extract K None (dk_ecc src);
          hkdf = kp_hkdf_extract K (Some dprf_salt) (mlkem_seed_to_d_z_64 (dk_seed_ml src))
      in kp_hkdf_expand_key K hkdf [DERIVE_PATH_SALT, path])"

definition derive_one_path_component ::
  "'k key_prims \<Rightarrow> 'k kem_prims \<Rightarrow> ('g, 's) sig_prims \<Rightarrow> bytes \<Rightarrow> decryption_private_key \<Rightarrow>
   mla_private_key \<times> mla_public_key" where
  "derive_one_path_component Y K S path privkey = generate_mla_keypair_from_seed Y K S (apply_derive K path privkey)"

definition derive_keypair_from_path ::
  "'k key_prims \<Rightarrow> 'k kem_prims \<Rightarrow> ('g, 's) sig_prims \<Rightarrow> bytes list \<Rightarrow> mla_private_key \<Rightarrow>
   (mla_private_key \<times> mla_public_key) option" where
  "derive_keypair_from_path Y K S path_components src =
     (case foldl (\<lambda>keypair path.
             (case derive_one_path_component Y K S path (pv_decryption (fst keypair)) of
                (privkey, pubkey) \<Rightarrow> (privkey, Some pubkey))) (src, None) path_components of
        (privkey, opt_pubkey) \<Rightarrow> map_option (\<lambda>pubkey. (privkey, pubkey)) opt_pubkey)"


section \<open>Reading and splitting\<close>

context eof_source
begin

lemma zeroizeable_read_loop_ok:
  assumes "inv s" and "length buf + length (rest s) < 2 ^ 62" and "length buf \<le> cap" and "0 < cap"
  shows "\<exists>s'. zeroizeable_read_loop rd buf cap s = Some (Inr (buf @ rest s), s')"
  using assms
proof (induction "length (rest s)" arbitrary: s buf cap rule: less_induct)
  case less
  let ?cap = "if length buf = cap then cap * 2 else cap"
  have c: "(if length buf = cap then checked_mul cap 2 else Some cap) = Some ?cap"
    using less.prems(2) by (simp add: checked_mul_def)
  have n: "length buf < ?cap" using less.prems(3,4) by auto
  show ?case
  proof (cases "pos s < length (view s)")
    case True
    from read_ok [OF less.prems(1) True, of "?cap - length buf"] obtain k s1 where
      k: "rd (?cap - length buf) s = (Inr (take k (rest s)), s1)" "k \<le> ?cap - length buf" "k \<le> length (view s) - pos s"
      "0 < ?cap - length buf \<longrightarrow> 0 < k" "inv s1" "view s1 = view s" "pos s1 = pos s + k" by (auto simp: rest_def)
    have kp: "0 < k" using k(4) n by simp
    have r1: "rest s1 = drop k (rest s)" using k(6,7) by (simp add: rest_def add.commute)
    have l: "length (take k (rest s)) = k" using k(3) by (simp add: rest_def)
    then have ne: "take k (rest s) \<noteq> []" using kp by auto
    have tot: "length (buf @ take k (rest s)) + length (rest s1) = length buf + length (rest s)"
      using r1 l k(3) by (simp add: rest_def)
    have "length (rest s1) < length (rest s)" using r1 kp k(3) by (simp add: rest_def)
    moreover have "length (buf @ take k (rest s)) + length (rest s1) < 2 ^ 62" using tot less.prems(2) by simp
    moreover have "length (buf @ take k (rest s)) \<le> ?cap" using l k(2) n by simp
    moreover have "0 < ?cap" using n by simp
    ultimately have "\<exists>s'. zeroizeable_read_loop rd (buf @ take k (rest s)) ?cap s1 = Some (Inr ((buf @ take k (rest s)) @ rest s1), s')"
      using less.hyps k(5) by blast
    then obtain s' where "zeroizeable_read_loop rd (buf @ take k (rest s)) ?cap s1 = Some (Inr (buf @ rest s), s')"
      using r1 by auto
    moreover have "checked_add (length buf) (length (take k (rest s))) = Some (length buf + k)"
      using less.prems(2) l k(3) by (simp add: checked_add_def rest_def)
    ultimately show ?thesis
      using ne by (subst zeroizeable_read_loop.simps) (simp add: c k(1) del: if_split take_eq_Nil)
  next
    case False
    then have r: "rest s = []" by (simp add: rest_def)
    from read_eof [OF less.prems(1), of "?cap - length buf"] False obtain s1 where "rd (?cap - length buf) s = (Inr [], s1)"
      by auto
    then show ?thesis using r by (subst zeroizeable_read_loop.simps) (simp add: c)
  qed
qed

lemma zeroizeable_read_to_end_ok:
  "inv s \<Longrightarrow> length (rest s) < 2 ^ 62 \<Longrightarrow> \<exists>s'. zeroizeable_read_to_end rd s = Some (Inr (rest s), s')"
  using zeroizeable_read_loop_ok [of s "[]" 4096] by (simp add: zeroizeable_read_to_end_def)

end

text \<open>The lines of a file, each followed by the separator.\<close>

definition key_file :: "bytes \<Rightarrow> bytes list \<Rightarrow> bytes" where
  "key_file sep lines = concat (map (\<lambda>l. l @ sep) lines)"

definition separators :: "bytes set" where "separators = {CRLF, ascii ''__''}"

definition key_line :: "bytes \<Rightarrow> bool" where
  "key_line l \<longleftrightarrow> l \<noteq> [] \<and> 13 \<notin> set l \<and> 95 \<notin> set l"

lemma split_separator_ok:
  assumes "sep \<in> separators" and "key_line l"
  shows "split_separator (l @ sep @ rest) = Inr (l, rest)"
proof -
  let ?P = "\<lambda>b :: u8. b \<noteq> 13 \<and> b \<noteq> 95"
  have sp: "sep = [13, 10] \<or> sep = [95, 95]" using assms(1) by (auto simp: separators_def CRLF_def ascii_def)
  have "\<forall>b\<in>set l. ?P b" using assms(2) by (auto simp: key_line_def)
  then have "takeWhile ?P (l @ sep @ rest) = l" using sp by (auto simp: takeWhile_append2)
  moreover have "0 < length l" using assms(2) by (simp add: key_line_def)
  ultimately have i: "separator_index (l @ sep @ rest) = length l" using sp by (auto simp: separator_index_def Let_def)
  show ?thesis
    using sp \<open>0 < length l\<close> unfolding split_separator_def i Let_def by auto
qed

lemma split_key_file:
  assumes s: "sep \<in> separators" and "key_line a" "key_line b" "key_line c" "key_line d" "key_line e"
  shows "split_in_five_parts (key_file sep [a, b, c, d, e]) = Inr (a, b, c, d, e)"
proof -
  note sp = split_separator_ok [OF s]
  have "key_file sep [a, b, c, d, e] = a @ sep @ b @ sep @ c @ sep @ d @ sep @ e @ sep @ []" by (simp add: key_file_def)
  then show ?thesis
    unfolding split_in_five_parts_def by (simp only: sp [OF assms(2)] sp [OF assms(3)] sp [OF assms(4)] sp [OF assms(5)]
        sp [OF assms(6)] sum.case prod.case) simp
qed

text \<open>Base64 makes no separator.\<close>

lemma set_encode_group: "set (encode_group chunk) \<subseteq> set BASE64_CHARS \<union> {61}"
proof -
  have l: "length BASE64_CHARS = 64" by (simp add: BASE64_CHARS_def)
  have b: "unat (v AND 63) < 64" for v :: u32
    using word_and_le1 [of v 63] by (simp add: word_le_nat_alt)
  then have "BASE64_CHARS ! unat (v AND 63) \<in> set BASE64_CHARS" for v :: u32 using l by (intro nth_mem) simp
  then show ?thesis by (auto simp: encode_group_def Let_def)
qed

lemma set_encode_loop: "set (encode_loop data) \<subseteq> set BASE64_CHARS \<union> {61}"
proof (induction data rule: encode_loop.induct)
  case (1 data)
  then show ?case using set_encode_group [of "take 3 data"] by (subst encode_loop.simps) auto
qed

lemma key_line_base64:
  assumes "13 \<notin> set header" "95 \<notin> set header" "data \<noteq> []"
  shows "key_line (header @ encode_loop data)"
proof -
  have "13 \<notin> set BASE64_CHARS \<union> {61}" "95 \<notin> set BASE64_CHARS \<union> {61}" by (simp_all add: BASE64_CHARS_def ascii_def)
  then have "13 \<notin> set (encode_loop data)" "95 \<notin> set (encode_loop data)" using set_encode_loop [of data] by blast+
  moreover have "encode_loop data \<noteq> []"
  proof
    assume "encode_loop data = []"
    then have "4 * ((length data + 2) div 3) = 0" using length_encode_loop [of data] by simp
    then show False using assms(3) by (cases data) simp_all
  qed
  ultimately show ?thesis using assms(1,2) by (simp add: key_line_def)
qed

lemma base64_small:
  assumes "length data < 2 ^ 60"
  shows "base64_encode data = Inr (encode_loop data)" "base64_decode (encode_loop data) = Inr data"
proof -
  show "base64_encode data = Inr (encode_loop data)"
    using assms by (simp add: base64_encode_def checked_add_def checked_mul_def)
  show "base64_decode (encode_loop data) = Inr data"
    using assms decode_encode_loop [of data] by (simp add: base64_decode_def length_encode_loop checked_mul_def)
qed

section \<open>The lines of keys\<close>

lemma key_on_line_ok:
  assumes "length (method_id @ EMPTY_OPTS_SERIALIZATION @ body) < 2 ^ 60"
    and key: "\<And>s. cursor_inv s \<Longrightarrow> cur.rest s = body \<Longrightarrow> \<exists>s'. key s = (Inr k, s')"
  shows "key_on_line header method_id key (header @ encode_loop (method_id @ EMPTY_OPTS_SERIALIZATION @ body)) = Inr k"
proof -
  let ?d = "method_id @ EMPTY_OPTS_SERIALIZATION @ body"
  have d: "key_line_data header (header @ encode_loop ?d) = Inr ?d"
    using base64_small(2) [OF assms(1)] by (simp add: key_line_data_def strip_prefix_def)
  have i: "cursor_inv (cursor_new ?d)" using assms(1) by (simp add: cursor_inv_def cursor_new_def)
  have r: "cur.rest (cursor_new ?d) = ?d" by (simp add: cur.rest_def cursor_new_def)
  obtain s1 where s1: "read_exact_or_deser cursor_read (length method_id) (cursor_new ?d) = (Inr method_id, s1)"
    "cursor_inv s1" "cur.rest s1 = EMPTY_OPTS_SERIALIZATION @ body"
    using cur.yieldsE [OF cur.parsesD [OF cur.parses_read_exact_or_deser [OF refl] i r]] r by auto
  have s1': "cur.rest s1 = [0] @ body" using s1(3) by (simp add: EMPTY_OPTS_SERIALIZATION_def)
  obtain s2 where s2: "u8_deserialize cursor_read s1 = (Inr 0, s2)" "cursor_inv s2" "cur.rest s2 = body"
    using cur.yieldsE [OF cur.parsesD [OF cur.parses_u8 s1(2) s1']] s1' by auto
  from key [OF s2(2,3)] obtain s3 where "key s2 = (Inr k, s3)" by blast
  then show ?thesis
    using s1(1) s2(1) by (simp add: key_on_line_def d read_key_def bindE_def key_opts_deserialize_def ret_def)
qed

context room_sink
begin

lemma runs_key_line:
  "length d < 2 ^ 60 \<Longrightarrow> runs (write_key_line wr header d) ((header @ encode_loop d) @ CRLF) ()"
proof -
  assume "length d < 2 ^ 60"
  then have "lift_res (base64_encode d) = (ret (encode_loop d) :: ('w, error, _) op)"
    by (auto simp: base64_small(1) lift_res_def ret_def)
  then have "runs (write_key_line wr header d) (header @ encode_loop d @ CRLF) ()"
    unfolding write_key_line_def
    by (simp only:) (rule runs_bindE [OF runs_lift_io [OF runs_write_all]], rule runs_skip [OF runs_ret],
        rule runs_bindE [OF runs_lift_io [OF runs_write_all]], rule runs_lift_io, rule runs_write_all)
  then show ?thesis by simp
qed

lemma runs_key_opts: "runs (serialize_key_opts wr) (encode_loop EMPTY_OPTS_SERIALIZATION @ CRLF) ()"
proof -
  have "length EMPTY_OPTS_SERIALIZATION < 2 ^ 60" by (simp add: EMPTY_OPTS_SERIALIZATION_def)
  then have "lift_res (base64_encode EMPTY_OPTS_SERIALIZATION) = (ret (encode_loop EMPTY_OPTS_SERIALIZATION) :: ('w, error, _) op)"
    by (auto simp: base64_small(1) lift_res_def ret_def)
  then show ?thesis
    unfolding serialize_key_opts_def
    by (simp only:) (rule runs_skip [OF runs_ret], rule runs_bindE [OF runs_lift_io [OF runs_write_all]],
        rule runs_lift_io, rule runs_write_all)
qed

end


section \<open>The format\<close>

text \<open>What \<^verbatim>\<open>doc/src/KEY_FORMAT.md\<close> describes.\<close>

definition private_key_lines :: "mla_private_key \<Rightarrow> bytes list" where
  "private_key_lines k =
     [PRIV_KEY_FILE_HEADER,
      MLA_PRIV_DEC_KEY_HEADER @ encode_loop (DEC_METHOD_ID_0_PRIV @ EMPTY_OPTS_SERIALIZATION @
        (dk_ecc (pv_decryption k) @ ms_d (dk_seed_ml (pv_decryption k)) @ ms_z (dk_seed_ml (pv_decryption k)))),
      MLA_PRIV_SIG_KEY_HEADER @ encode_loop (SIG_METHOD_ID_0_PRIV @ EMPTY_OPTS_SERIALIZATION @
        (sk_ed25519 (pv_signing k) @ sk_seed_mldsa (pv_signing k))),
      encode_loop EMPTY_OPTS_SERIALIZATION, PRIV_KEY_FILE_FOOTER]"

definition private_key_wf :: "mla_private_key \<Rightarrow> bool" where
  "private_key_wf k \<longleftrightarrow> length (dk_ecc (pv_decryption k)) = 32 \<and> length (ms_d (dk_seed_ml (pv_decryption k))) = 32 \<and>
     length (ms_z (dk_seed_ml (pv_decryption k))) = 32 \<and> length (sk_ed25519 (pv_signing k)) = 32 \<and>
     length (sk_seed_mldsa (pv_signing k)) = 32"

definition public_key_lines :: "mla_public_key \<Rightarrow> bytes list" where
  "public_key_lines k =
     [PUB_KEY_FILE_HEADER,
      MLA_PUB_ENC_KEY_HEADER @ encode_loop (ENC_METHOD_ID_0_PUB @ EMPTY_OPTS_SERIALIZATION @
        (ek_ecc (pb_encryption k) @ ek_ml (pb_encryption k))),
      MLA_PUB_SIGVERIF_KEY_HEADER @ encode_loop (SIGVERIF_METHOD_ID_0_PUB @ EMPTY_OPTS_SERIALIZATION @
        (vk_ed25519 (pb_verification k) @ vk_mldsa87 (pb_verification k))),
      encode_loop EMPTY_OPTS_SERIALIZATION, PUB_KEY_FILE_FOOTER]"

text \<open>The encodings have the sizes of the standards and decode to themselves.\<close>

definition public_key_wf :: "'g key_prims \<Rightarrow> mla_public_key \<Rightarrow> bool" where
  "public_key_wf Y k \<longleftrightarrow> length (ek_ecc (pb_encryption k)) = 32 \<and> length (ek_ml (pb_encryption k)) = 1568 \<and>
     ky_mlkem_from_bytes Y (ek_ml (pb_encryption k)) = ek_ml (pb_encryption k) \<and>
     length (vk_ed25519 (pb_verification k)) = 32 \<and>
     ky_ed_from_bytes Y (vk_ed25519 (pb_verification k)) = Some (vk_ed25519 (pb_verification k)) \<and>
     length (vk_mldsa87 (pb_verification k)) = 2592 \<and>
     ky_mldsa_decode Y (vk_mldsa87 (pb_verification k)) = vk_mldsa87 (pb_verification k)"

lemmas key_constants = MLA_PRIV_DEC_KEY_HEADER_def MLA_PRIV_SIG_KEY_HEADER_def DEC_METHOD_ID_0_PRIV_def
  SIG_METHOD_ID_0_PRIV_def MLA_PUB_ENC_KEY_HEADER_def MLA_PUB_SIGVERIF_KEY_HEADER_def ENC_METHOD_ID_0_PUB_def
  SIGVERIF_METHOD_ID_0_PUB_def PRIV_KEY_FILE_HEADER_def PRIV_KEY_FILE_FOOTER_def PUB_KEY_FILE_HEADER_def
  PUB_KEY_FILE_FOOTER_def EMPTY_OPTS_SERIALIZATION_def ascii_def

lemma key_constants_lines:
  "key_line PRIV_KEY_FILE_HEADER" "key_line PRIV_KEY_FILE_FOOTER" "key_line PUB_KEY_FILE_HEADER" "key_line PUB_KEY_FILE_FOOTER"
  "13 \<notin> set MLA_PRIV_DEC_KEY_HEADER" "95 \<notin> set MLA_PRIV_DEC_KEY_HEADER"
  "13 \<notin> set MLA_PRIV_SIG_KEY_HEADER" "95 \<notin> set MLA_PRIV_SIG_KEY_HEADER"
  "13 \<notin> set MLA_PUB_ENC_KEY_HEADER" "95 \<notin> set MLA_PUB_ENC_KEY_HEADER"
  "13 \<notin> set MLA_PUB_SIGVERIF_KEY_HEADER" "95 \<notin> set MLA_PUB_SIGVERIF_KEY_HEADER"
  by (simp_all add: key_line_def key_constants)

lemma key_opts_line: "key_line (encode_loop EMPTY_OPTS_SERIALIZATION)"
  using key_line_base64 [of "[]" EMPTY_OPTS_SERIALIZATION] by (simp add: EMPTY_OPTS_SERIALIZATION_def)

lemma length_key_constants:
  "length MLA_PRIV_DEC_KEY_HEADER = 27" "length MLA_PRIV_SIG_KEY_HEADER = 24" "length DEC_METHOD_ID_0_PRIV = 32"
  "length SIG_METHOD_ID_0_PRIV = 37" "length MLA_PUB_ENC_KEY_HEADER = 26" "length MLA_PUB_SIGVERIF_KEY_HEADER = 38"
  "length ENC_METHOD_ID_0_PUB = 31" "length SIGVERIF_METHOD_ID_0_PUB = 49" "length PRIV_KEY_FILE_HEADER = 52"
  "length PRIV_KEY_FILE_FOOTER = 27" "length PUB_KEY_FILE_HEADER = 22" "length PUB_KEY_FILE_FOOTER = 26"
  "length EMPTY_OPTS_SERIALIZATION = 1"
  by (simp_all add: key_constants)

lemma length_separator: "sep \<in> separators \<Longrightarrow> length sep = 2"
  by (auto simp: separators_def CRLF_def ascii_def)

lemma length_private_key_file:
  "private_key_wf k \<Longrightarrow> sep \<in> separators \<Longrightarrow> length (key_file sep (private_key_lines k)) < 1024"
  by (simp add: private_key_wf_def key_file_def private_key_lines_def length_key_constants length_encode_loop length_separator)

lemma length_public_key_file:
  "public_key_wf Y k \<Longrightarrow> sep \<in> separators \<Longrightarrow> length (key_file sep (public_key_lines k)) < 8192"
  by (simp add: public_key_wf_def key_file_def public_key_lines_def length_key_constants length_encode_loop length_separator)

lemma cursor_parsed:
  assumes "cur.parses m b v" and "cursor_inv s" and "cur.rest s = b @ t"
  shows "\<exists>s'. m s = (Inr v, s') \<and> cursor_inv s' \<and> cur.rest s' = t"
proof -
  from cur.parsesD [OF assms] have y: "cur.yields m s v (length b)" .
  obtain s' where "m s = (Inr v, s')" "cursor_inv s'" "cur.rest s' = drop (length b) (cur.rest s)"
    by (rule cur.yieldsE [OF y])
  then show ?thesis using assms(3) by simp
qed

lemma cur_read_to_end:
  assumes "cursor_inv s" and "length (cur.rest s) < 2 ^ 62"
  shows "\<exists>s'. read_to_end cursor_read s = (Inr (cur.rest s), s')"
proof -
  have "length (cur.rest s) < 2 ^ 63 - 1" using assms(2) by simp
  from cur.take_read_to_end_all [OF assms(1) this] show ?thesis
    unfolding read_to_end_def by (auto elim: cur.yieldsE)
qed

lemma decryption_key_line:
  assumes "private_key_wf k"
  shows "deserialize_decryption_private_key (private_key_lines k ! 1) = Inr (pv_decryption k)"
proof -
  let ?k = "pv_decryption k"
  let ?b = "dk_ecc ?k @ ms_d (dk_seed_ml ?k) @ ms_z (dk_seed_ml ?k)"
  have l: "length (dk_ecc ?k) = 32" "length (ms_d (dk_seed_ml ?k)) = 32" "length (ms_z (dk_seed_ml ?k)) = 32"
    using assms by (simp_all add: private_key_wf_def)
  let ?m = "bindE (read_exact_or_deser cursor_read ECC_PRIVKEY_SIZE) (\<lambda>e. bindE (read_exact_or_deser cursor_read MLKEM_DZ_SIZE)
    (\<lambda>dz. ret \<lparr>dk_ecc = e, dk_seed_ml = mlkem_seed_from_d_z_64 dz\<rparr>))"
  have p: "cur.parses ?m ?b \<lparr>dk_ecc = dk_ecc ?k, dk_seed_ml = mlkem_seed_from_d_z_64 (ms_d (dk_seed_ml ?k) @ ms_z (dk_seed_ml ?k))\<rparr>"
    by (rule cur.parses_bindE [OF cur.parses_read_exact_or_deser], simp add: ECC_PRIVKEY_SIZE_def l,
        rule cur.parses_bindE_ret, rule cur.parses_read_exact_or_deser, simp add: MLKEM_DZ_SIZE_def l)
  have e: "\<lparr>dk_ecc = dk_ecc ?k, dk_seed_ml = mlkem_seed_from_d_z_64 (ms_d (dk_seed_ml ?k) @ ms_z (dk_seed_ml ?k))\<rparr> = ?k"
    using l by (cases ?k, cases "dk_seed_ml ?k") (simp add: mlkem_seed_from_d_z_64_def)
  have key: "\<exists>s'. ?m s = (Inr ?k, s')" if "cursor_inv s" "cur.rest s = ?b" for s
  proof -
    have "cur.rest s = ?b @ []" using that(2) by simp
    from cursor_parsed [OF p that(1) this] show ?thesis unfolding e by blast
  qed
  show ?thesis
    unfolding deserialize_decryption_private_key_def private_key_lines_def
    by (simp only: nth_Cons_Suc nth_Cons_0 One_nat_def) (rule key_on_line_ok [OF _ key], simp_all add: l length_key_constants)
qed

lemma signing_key_line:
  assumes "private_key_wf k"
  shows "deserialize_signing_private_key (private_key_lines k ! 2) = Inr (pv_signing k)"
proof -
  let ?k = "pv_signing k"
  let ?b = "sk_ed25519 ?k @ sk_seed_mldsa ?k"
  have l: "length (sk_ed25519 ?k) = 32" "length (sk_seed_mldsa ?k) = 32" using assms by (simp_all add: private_key_wf_def)
  let ?m = "bindE (read_exact_or_deser cursor_read ED25519_PRIVKEY_SIZE) (\<lambda>e. bindE (read_exact_or_deser cursor_read MLDSA_XI_SIZE)
    (\<lambda>x. ret \<lparr>sk_ed25519 = e, sk_seed_mldsa = x\<rparr>))"
  have p: "cur.parses ?m ?b \<lparr>sk_ed25519 = sk_ed25519 ?k, sk_seed_mldsa = sk_seed_mldsa ?k\<rparr>"
    by (rule cur.parses_bindE [OF cur.parses_read_exact_or_deser], simp add: ED25519_PRIVKEY_SIZE_def l,
        rule cur.parses_bindE_ret, rule cur.parses_read_exact_or_deser, simp add: MLDSA_XI_SIZE_def l)
  have key: "\<exists>s'. ?m s = (Inr ?k, s')" if "cursor_inv s" "cur.rest s = ?b" for s
  proof -
    have "cur.rest s = ?b @ []" using that(2) by simp
    from cursor_parsed [OF p that(1) this] show ?thesis by auto
  qed
  have "private_key_lines k ! 2 = MLA_PRIV_SIG_KEY_HEADER @ encode_loop (SIG_METHOD_ID_0_PRIV @ EMPTY_OPTS_SERIALIZATION @ ?b)"
    by (simp add: private_key_lines_def)
  then show ?thesis
    unfolding deserialize_signing_private_key_def
    by (simp only:) (rule key_on_line_ok [OF _ key], simp_all add: l length_key_constants)
qed

lemma encryption_key_line:
  assumes "public_key_wf Y k"
  shows "deserialize_encryption_public_key Y (public_key_lines k ! 1) = Inr (pb_encryption k)"
proof -
  let ?k = "pb_encryption k"
  let ?b = "ek_ecc ?k @ ek_ml ?k"
  have l: "length (ek_ecc ?k) = 32" "length (ek_ml ?k) = 1568" "ky_mlkem_from_bytes Y (ek_ml ?k) = ek_ml ?k"
    using assms by (simp_all add: public_key_wf_def)
  let ?m = "bindE (read_exact_or_deser cursor_read ECC_PUBKEY_SIZE) (\<lambda>e.
        bindE (map_errE (\<lambda>_. DeserializationError) (read_to_end cursor_read)) (\<lambda>m.
          if length m \<noteq> MLKEM1024_PUBLIC_KEY_SIZE then fail DeserializationError
          else ret \<lparr>ek_ecc = e, ek_ml = ky_mlkem_from_bytes Y m\<rparr>))"
  have key: "\<exists>s'. ?m s = (Inr ?k, s')" if s: "cursor_inv s" "cur.rest s = ?b" for s
  proof -
    have "ECC_PUBKEY_SIZE = length (ek_ecc ?k)" by (simp add: ECC_PUBKEY_SIZE_def l)
    from cursor_parsed [OF cur.parses_read_exact_or_deser [OF this] s] obtain s1 where
      s1: "read_exact_or_deser cursor_read ECC_PUBKEY_SIZE s = (Inr (ek_ecc ?k), s1)" "cursor_inv s1" "cur.rest s1 = ek_ml ?k"
      by blast
    from cur_read_to_end [OF s1(2)] s1(3) l obtain s2 where "read_to_end cursor_read s1 = (Inr (ek_ml ?k), s2)" by auto
    then show ?thesis using s1(1) l by (simp add: bindE_def map_errE_def ret_def MLKEM1024_PUBLIC_KEY_SIZE_def)
  qed
  have "public_key_lines k ! 1 = MLA_PUB_ENC_KEY_HEADER @ encode_loop (ENC_METHOD_ID_0_PUB @ EMPTY_OPTS_SERIALIZATION @ ?b)"
    by (simp add: public_key_lines_def)
  then show ?thesis
    unfolding deserialize_encryption_public_key_def
    by (simp only:) (rule key_on_line_ok [OF _ key], simp_all add: l length_key_constants)
qed

lemma verification_key_line:
  assumes "public_key_wf Y k"
  shows "deserialize_signature_verification_public_key Y (public_key_lines k ! 2) = Inr (pb_verification k)"
proof -
  let ?k = "pb_verification k"
  let ?b = "vk_ed25519 ?k @ vk_mldsa87 ?k"
  have l: "length (vk_ed25519 ?k) = 32" "length (vk_mldsa87 ?k) = 2592"
    "ky_ed_from_bytes Y (vk_ed25519 ?k) = Some (vk_ed25519 ?k)" "ky_mldsa_decode Y (vk_mldsa87 ?k) = vk_mldsa87 ?k"
    using assms by (simp_all add: public_key_wf_def)
  let ?m = "bindE (read_exact_or_deser cursor_read ECC_PUBKEY_SIZE) (\<lambda>e.
        bindE (lift_res (ok_or DeserializationError (ky_ed_from_bytes Y e))) (\<lambda>p.
        bindE (map_errE (\<lambda>_. DeserializationError) (read_to_end cursor_read)) (\<lambda>m.
          if length m \<noteq> MLDSA87_PUBLIC_KEY_SIZE then fail DeserializationError
          else ret \<lparr>vk_ed25519 = p, vk_mldsa87 = ky_mldsa_decode Y m\<rparr>)))"
  have key: "\<exists>s'. ?m s = (Inr ?k, s')" if s: "cursor_inv s" "cur.rest s = ?b" for s
  proof -
    have "ECC_PUBKEY_SIZE = length (vk_ed25519 ?k)" by (simp add: ECC_PUBKEY_SIZE_def l)
    from cursor_parsed [OF cur.parses_read_exact_or_deser [OF this] s] obtain s1 where
      s1: "read_exact_or_deser cursor_read ECC_PUBKEY_SIZE s = (Inr (vk_ed25519 ?k), s1)" "cursor_inv s1" "cur.rest s1 = vk_mldsa87 ?k"
      by blast
    from cur_read_to_end [OF s1(2)] s1(3) l obtain s2 where "read_to_end cursor_read s1 = (Inr (vk_mldsa87 ?k), s2)" by auto
    then show ?thesis using s1(1) l by (simp add: bindE_def map_errE_def lift_res_def ret_def MLDSA87_PUBLIC_KEY_SIZE_def)
  qed
  have "public_key_lines k ! 2 = MLA_PUB_SIGVERIF_KEY_HEADER @ encode_loop (SIGVERIF_METHOD_ID_0_PUB @ EMPTY_OPTS_SERIALIZATION @ ?b)"
    by (simp add: public_key_lines_def)
  then show ?thesis
    unfolding deserialize_signature_verification_public_key_def
    by (simp only:) (rule key_on_line_ok [OF _ key], simp_all add: l length_key_constants)
qed

lemma read_private_key_file:
  assumes es: "eof_source rd view pos rinv" and i: "rinv r" "pos r = 0" and k: "private_key_wf k" and s: "sep \<in> separators"
    and v: "view r = key_file sep (private_key_lines k)"
  shows "\<exists>r'. deserialize_private_key rd r = Some (Inr k, r')"
proof -
  have so: "source rd view pos rinv" using es by (simp add: eof_source_def)
  have rest: "source.rest view pos r = key_file sep (private_key_lines k)" using v i(2) by (simp add: source.rest_def [OF so])
  have "length (source.rest view pos r) < 2 ^ 62" using length_private_key_file [OF k s] rest by simp
  from eof_source.zeroizeable_read_to_end_ok [OF es i(1) this] rest obtain r' where
    r: "zeroizeable_read_to_end rd r = Some (Inr (key_file sep (private_key_lines k)), r')" by auto
  have "split_in_five_parts (key_file sep (private_key_lines k)) = Inr (private_key_lines k ! 0, private_key_lines k ! 1,
      private_key_lines k ! 2, private_key_lines k ! 3, private_key_lines k ! 4)"
    unfolding private_key_lines_def
    by (subst split_key_file [OF s]) (simp_all add: key_constants_lines key_opts_line key_line_base64 length_key_constants
        flip: length_greater_0_conv)
  then show ?thesis
    using r decryption_key_line [OF k] signing_key_line [OF k]
    by (simp add: deserialize_private_key_def) (simp add: private_key_lines_def)
qed

lemma read_public_key_file:
  assumes es: "eof_source rd view pos rinv" and i: "rinv r" "pos r = 0" and k: "public_key_wf Y k" and s: "sep \<in> separators"
    and v: "view r = key_file sep (public_key_lines k)"
  shows "\<exists>r'. deserialize_public_key Y rd r = Some (Inr k, r')"
proof -
  have so: "source rd view pos rinv" using es by (simp add: eof_source_def)
  have rest: "source.rest view pos r = key_file sep (public_key_lines k)" using v i(2) by (simp add: source.rest_def [OF so])
  have "length (source.rest view pos r) < 2 ^ 62" using length_public_key_file [OF k s] rest by simp
  from eof_source.zeroizeable_read_to_end_ok [OF es i(1) this] rest obtain r' where
    r: "zeroizeable_read_to_end rd r = Some (Inr (key_file sep (public_key_lines k)), r')" by auto
  have "split_in_five_parts (key_file sep (public_key_lines k)) = Inr (public_key_lines k ! 0, public_key_lines k ! 1,
      public_key_lines k ! 2, public_key_lines k ! 3, public_key_lines k ! 4)"
    unfolding public_key_lines_def
    by (subst split_key_file [OF s]) (simp_all add: key_constants_lines key_opts_line key_line_base64 length_key_constants
        flip: length_greater_0_conv)
  then show ?thesis
    using r encryption_key_line [OF k] verification_key_line [OF k]
    by (simp add: deserialize_public_key_def) (simp add: public_key_lines_def)
qed

context room_sink
begin

lemma runs_decryption_key:
  "private_key_wf k \<Longrightarrow> runs (serialize_decryption_private_key wr (pv_decryption k)) (private_key_lines k ! 1 @ CRLF) ()"
proof -
  assume "private_key_wf k"
  then have "length (DEC_METHOD_ID_0_PRIV @ EMPTY_OPTS_SERIALIZATION @ dk_ecc (pv_decryption k) @
      mlkem_seed_to_d_z_64 (dk_seed_ml (pv_decryption k))) < 2 ^ 60"
    by (simp add: private_key_wf_def mlkem_seed_to_d_z_64_def length_key_constants)
  from runs_key_line [OF this, of MLA_PRIV_DEC_KEY_HEADER] show ?thesis
    by (simp add: serialize_decryption_private_key_def private_key_lines_def mlkem_seed_to_d_z_64_def)
qed

lemma runs_signing_key:
  "private_key_wf k \<Longrightarrow> runs (serialize_signing_private_key wr (pv_signing k)) (private_key_lines k ! 2 @ CRLF) ()"
proof -
  assume "private_key_wf k"
  then have "length (SIG_METHOD_ID_0_PRIV @ EMPTY_OPTS_SERIALIZATION @ sk_ed25519 (pv_signing k) @
      sk_seed_mldsa (pv_signing k)) < 2 ^ 60"
    by (simp add: private_key_wf_def length_key_constants)
  from runs_key_line [OF this, of MLA_PRIV_SIG_KEY_HEADER] show ?thesis
    by (simp add: serialize_signing_private_key_def private_key_lines_def)
qed

lemma runs_encryption_key:
  "public_key_wf Y k \<Longrightarrow> runs (serialize_encryption_public_key wr (pb_encryption k)) (public_key_lines k ! 1 @ CRLF) ()"
proof -
  assume "public_key_wf Y k"
  then have "length (ENC_METHOD_ID_0_PUB @ EMPTY_OPTS_SERIALIZATION @ ek_ecc (pb_encryption k) @ ek_ml (pb_encryption k)) < 2 ^ 60"
    by (simp add: public_key_wf_def length_key_constants)
  from runs_key_line [OF this, of MLA_PUB_ENC_KEY_HEADER] show ?thesis
    by (simp add: serialize_encryption_public_key_def public_key_lines_def)
qed

lemma runs_verification_key:
  "public_key_wf Y k \<Longrightarrow>
   runs (serialize_signature_verification_public_key wr (pb_verification k)) (public_key_lines k ! 2 @ CRLF) ()"
proof -
  assume "public_key_wf Y k"
  then have "length (SIGVERIF_METHOD_ID_0_PUB @ EMPTY_OPTS_SERIALIZATION @ vk_ed25519 (pb_verification k) @
      vk_mldsa87 (pb_verification k)) < 2 ^ 60"
    by (simp add: public_key_wf_def length_key_constants)
  from runs_key_line [OF this, of MLA_PUB_SIGVERIF_KEY_HEADER] show ?thesis
    by (simp add: serialize_signature_verification_public_key_def public_key_lines_def)
qed

text \<open>A file of five lines, written line by line.\<close>

lemma runs_key_file:
  assumes "runs second (l2 @ CRLF) ()" and "runs third (l3 @ CRLF) ()"
  shows "runs (bindE (lift_io (write_all wr l1)) (\<lambda>_. bindE (lift_io (write_all wr CRLF)) (\<lambda>_.
      bindE second (\<lambda>_. bindE third (\<lambda>_. bindE (serialize_key_opts wr) (\<lambda>_.
      bindE (lift_io (write_all wr l5)) (\<lambda>_. lift_io (write_all wr CRLF))))))))
    (key_file CRLF [l1, l2, l3, encode_loop EMPTY_OPTS_SERIALIZATION, l5]) ()"
proof -
  note w = runs_lift_io [OF runs_write_all]
  have e: "key_file CRLF [l1, l2, l3, encode_loop EMPTY_OPTS_SERIALIZATION, l5] =
    l1 @ CRLF @ (l2 @ CRLF) @ (l3 @ CRLF) @ (encode_loop EMPTY_OPTS_SERIALIZATION @ CRLF) @ l5 @ CRLF"
    by (simp add: key_file_def)
  show ?thesis unfolding e
    by (rule runs_bindE [OF w], rule runs_bindE [OF w], rule runs_bindE [OF assms(1)], rule runs_bindE [OF assms(2)],
        rule runs_bindE [OF runs_key_opts], rule runs_bindE [OF w], rule w)
qed

lemma runs_private_key: "private_key_wf k \<Longrightarrow> runs (serialize_private_key wr k) (key_file CRLF (private_key_lines k)) ()"
  using runs_key_file [OF runs_decryption_key runs_signing_key, of k k PRIV_KEY_FILE_HEADER PRIV_KEY_FILE_FOOTER]
  by (simp add: serialize_private_key_def private_key_lines_def)

lemma runs_public_key: "public_key_wf Y k \<Longrightarrow> runs (serialize_public_key wr k) (key_file CRLF (public_key_lines k)) ()"
  using runs_key_file [OF runs_encryption_key runs_verification_key, of Y k Y k PUB_KEY_FILE_HEADER PUB_KEY_FILE_FOOTER]
  by (simp add: serialize_public_key_def public_key_lines_def)

end

section \<open>Generated and derived keys\<close>

lemma generated_public_key:
  "derive_public_key K S (fst (generate_mla_keypair_from_rng Y K S g)) = snd (generate_mla_keypair_from_rng Y K S g)"
  by (simp add: generate_mla_keypair_from_rng_def generate_keypair_from_rng_def generate_signature_keypair_from_rng_def
      derive_public_key_def split: prod.splits)

lemma derive_one_public_key:
  "derive_one_path_component Y K S path dk = (fst (derive_one_path_component Y K S path dk),
     derive_public_key K S (fst (derive_one_path_component Y K S path dk)))"
  by (simp add: derive_one_path_component_def generate_mla_keypair_from_seed_def generated_public_key)

section \<open>Properties\<close>

definition demo_keys :: "unit key_prims" where
  "demo_keys = \<lparr>ky_ed_generate = (\<lambda>g. (replicate 32 11, g)), ky_rng_from_seed = (\<lambda>_. ()), ky_mlkem_from_bytes = id,
     ky_ed_from_bytes = Some, ky_mldsa_decode = id\<rparr>"

definition demo_private_key :: mla_private_key where
  "demo_private_key = \<lparr>pv_decryption = \<lparr>dk_ecc = replicate 32 1, dk_seed_ml = \<lparr>ms_d = replicate 32 2, ms_z = replicate 32 3\<rparr>\<rparr>,
     pv_signing = \<lparr>sk_ed25519 = replicate 32 4, sk_seed_mldsa = replicate 32 5\<rparr>\<rparr>"

definition demo_public_key :: mla_public_key where
  "demo_public_key = \<lparr>pb_encryption = \<lparr>ek_ecc = replicate 32 6, ek_ml = replicate 1568 7\<rparr>,
     pb_verification = \<lparr>vk_ed25519 = replicate 32 8, vk_mldsa87 = replicate 2592 9\<rparr>\<rparr>"

text \<open>C39: a key file can be read back. Both serializers write the five lines of the format, each followed by
  \<^verbatim>\<open>CRLF\<close>, to any writer with room for them; and both parsers return the same key from any reader
  that holds these five lines, whether they are separated by \<^verbatim>\<open>CRLF\<close> or by two underscores, however few bytes
  each read returns.\<close>

theorem key_file_roundtrip:
  assumes rs: "room_sink wr out winv room" and w: "winv w" "8192 \<le> room w"
    and es: "eof_source rd view pos rinv" and r: "rinv r" "pos r = 0"
    and k: "private_key_wf k" and pk: "public_key_wf Y pk" and sep: "sep \<in> separators"
  shows "(\<exists>w'. serialize_private_key wr k w = (Inr (), w') \<and> out w' = out w @ key_file CRLF (private_key_lines k)) \<and>
    (\<exists>w'. serialize_public_key wr pk w = (Inr (), w') \<and> out w' = out w @ key_file CRLF (public_key_lines pk)) \<and>
    (view r = key_file sep (private_key_lines k) \<longrightarrow> (\<exists>r'. deserialize_private_key rd r = Some (Inr k, r'))) \<and>
    (view r = key_file sep (public_key_lines pk) \<longrightarrow> (\<exists>r'. deserialize_public_key Y rd r = Some (Inr pk, r')))"
proof -
  have c: "CRLF \<in> separators" by (simp add: separators_def)
  have l: "length (key_file CRLF (private_key_lines k)) \<le> room w" "length (key_file CRLF (public_key_lines pk)) \<le> room w"
    using length_private_key_file [OF k c] length_public_key_file [OF pk c] w(2) by linarith+
  have a1: "\<exists>w'. serialize_private_key wr k w = (Inr (), w') \<and> out w' = out w @ key_file CRLF (private_key_lines k)"
    by (rule room_sink.runsE [OF rs room_sink.runs_private_key [OF rs k] w(1) l(1)]) blast
  have a2: "\<exists>w'. serialize_public_key wr pk w = (Inr (), w') \<and> out w' = out w @ key_file CRLF (public_key_lines pk)"
    by (rule room_sink.runsE [OF rs room_sink.runs_public_key [OF rs pk] w(1) l(2)]) blast
  have a3: "view r = key_file sep (private_key_lines k) \<longrightarrow> (\<exists>r'. deserialize_private_key rd r = Some (Inr k, r'))"
    by (rule impI) (rule read_private_key_file [OF es r k sep])
  have a4: "view r = key_file sep (public_key_lines pk) \<longrightarrow> (\<exists>r'. deserialize_public_key Y rd r = Some (Inr pk, r'))"
    by (rule impI) (rule read_public_key_file [OF es r pk sep])
  show ?thesis using a1 a2 a3 a4 by (intro conjI)
qed

theorem key_file_roundtrip_witness:
  "\<exists>f g r' s'. serialize_private_key vec_write demo_private_key [] = (Inr (), f) \<and>
     serialize_public_key vec_write demo_public_key [] = (Inr (), g) \<and>
     deserialize_private_key cursor_read (cursor_new f) = Some (Inr demo_private_key, r') \<and>
     deserialize_public_key demo_keys cursor_read (cursor_new g) = Some (Inr demo_public_key, s')"
proof -
  have k: "private_key_wf demo_private_key" and pk: "public_key_wf demo_keys demo_public_key"
    by (simp_all add: private_key_wf_def demo_private_key_def public_key_wf_def demo_public_key_def demo_keys_def)
  have c: "CRLF \<in> separators" by (simp add: separators_def)
  have m: "8192 \<le> vec_room []" by (simp add: vec_room_def)
  let ?f = "key_file CRLF (private_key_lines demo_private_key)"
  let ?g = "key_file CRLF (public_key_lines demo_public_key)"
  have i: "cursor_inv (cursor_new ?f)" "cursor_inv (cursor_new ?g)"
    using length_private_key_file [OF k c] length_public_key_file [OF pk c] by (simp_all add: cursor_inv_def cursor_new_def)
  have p: "cur_pos (cursor_new b) = 0" "cur_data (cursor_new b) = b" for b by (simp_all add: cursor_new_def)
  note rt = key_file_roundtrip [OF vec.room_sink_axioms TrueI m cur.eof_source_axioms _ p(1) k pk c]
  from rt [OF i(1), THEN conjunct2, THEN conjunct2, THEN conjunct1] p(2) obtain r' where
    r: "deserialize_private_key cursor_read (cursor_new ?f) = Some (Inr demo_private_key, r')" by blast
  from rt [OF i(2), THEN conjunct2, THEN conjunct2, THEN conjunct2] p(2) obtain s' where
    s: "deserialize_public_key demo_keys cursor_read (cursor_new ?g) = Some (Inr demo_public_key, s')" by blast
  have "serialize_private_key vec_write demo_private_key [] = (Inr (), ?f)" using rt [OF i(1), THEN conjunct1] by auto
  moreover have "serialize_public_key vec_write demo_public_key [] = (Inr (), ?g)" using rt [OF i(1), THEN conjunct2, THEN conjunct1] by auto
  ultimately show ?thesis by (intro exI conjI) (assumption, assumption, rule r, rule s)
qed

text \<open>C40: deriving along a path goes one component at a time. Nothing is derived along the empty path; along a longer
  one, the last component is applied to the private key that the rest of the path gives, or to the source key; and
  the public key that comes with a derived private key is the one computed from it.\<close>

theorem derive_keypair_along_path:
  "derive_keypair_from_path Y K S [] src = None \<and>
   derive_keypair_from_path Y K S (path @ [c]) src =
     (let previous = (case derive_keypair_from_path Y K S path src of None \<Rightarrow> src | Some (k, _) \<Rightarrow> k);
          k = fst (generate_mla_keypair_from_seed Y K S (apply_derive K c (pv_decryption previous)))
      in Some (k, derive_public_key K S k))"
proof -
  let ?f = "\<lambda>keypair path. (case derive_one_path_component Y K S path (pv_decryption (fst keypair)) of
     (privkey, pubkey) \<Rightarrow> (privkey, Some pubkey))"
  have none: "snd (foldl ?f (src, None) path) = None \<longleftrightarrow> path = []"
    by (cases path rule: rev_cases) (simp_all split: prod.split)
  have prev: "(case derive_keypair_from_path Y K S path src of None \<Rightarrow> src | Some (k, _) \<Rightarrow> k) = fst (foldl ?f (src, None) path)"
    using none by (cases "foldl ?f (src, None) path") (auto simp: derive_keypair_from_path_def)
  have one: "derive_one_path_component Y K S c dk =
    (let k = fst (generate_mla_keypair_from_seed Y K S (apply_derive K c dk)) in (k, derive_public_key K S k))" for dk
    using derive_one_public_key [of Y K S c dk] by (simp add: derive_one_path_component_def Let_def)
  show ?thesis
    unfolding prev by (simp add: derive_keypair_from_path_def one Let_def)
qed

end
