(* ===== verification/Extract.thy ===== *)
theory Extract
  imports Roundtrip CompressReader
begin

text \<open>
  Extraction in one pass: \<^verbatim>\<open>linear_extract\<close> of \<^verbatim>\<open>mla/src/helpers.rs\<close>, which reads every block once, in the order of
  the archive, through the \<^verbatim>\<open>BufReader\<close> of the standard library, and copies the contents of the entries asked for
  to their writers. The loop ends at the end of the archive's data, which a source may never reach: \<open>None\<close>.
\<close>

section \<open>Buffered reading\<close>

text \<open>\<^verbatim>\<open>BufReader\<close>: \<open>br_unread\<close> is what its buffer still holds.\<close>

record 'r buf_reader =
  bf_inner :: 'r
  bf_unread :: bytes

definition buf_read :: "nat \<Rightarrow> (nat \<Rightarrow> ('r, io_error, bytes) op) \<Rightarrow> nat \<Rightarrow> ('r buf_reader, io_error, bytes) op" where
  "buf_read capacity rd n s =
     (if bf_unread s = [] \<and> capacity \<le> n
      then (case rd n (bf_inner s) of (res, r) \<Rightarrow> (res, s\<lparr>bf_inner := r\<rparr>))
      else case (if bf_unread s = [] then rd capacity (bf_inner s) else (Inr (bf_unread s), bf_inner s)) of
             (Inl e, r) \<Rightarrow> (Inl e, s\<lparr>bf_inner := r\<rparr>)
           | (Inr bs, r) \<Rightarrow> (Inr (take n bs), \<lparr>bf_inner = r, bf_unread = drop n bs\<rparr>))"

section \<open>Linear extraction\<close>

definition DEFAULT_BUFFER_SIZE :: nat where "DEFAULT_BUFFER_SIZE = 128 * 1024"

text \<open>The content of a block goes to the writer of its entry, or nowhere.\<close>

definition extract_content ::
  "(nat \<Rightarrow> ('r, io_error, bytes) op) \<Rightarrow> (bytes \<Rightarrow> ('w, io_error, nat) op) \<Rightarrow> (archive_entry_id \<times> entry_name) list \<Rightarrow>
   nat \<Rightarrow> archive_entry_id \<Rightarrow> ('r \<times> (entry_name \<times> 'w) list, io_error, unit) op" where
  "extract_content rd wr id2name len i s =
     (case (case map_of id2name i of
              None \<Rightarrow> None
            | Some entry \<Rightarrow> map_option (Pair entry) (map_of (snd s) entry)) of
        Some (entry, writer) \<Rightarrow>
          (case copy_take rd wr len (fst s, writer) of
             (res, (src, writer')) \<Rightarrow> (res, (src, AList.update entry writer' (snd s))))
      | None \<Rightarrow>
          (case copy_take rd sink_write len (fst s, ()) of
             (res, (src, _)) \<Rightarrow> (res, (src, snd s))))"

partial_function (option) extract_blocks ::
  "(nat \<Rightarrow> ('r, io_error, bytes) op) \<Rightarrow> (bytes \<Rightarrow> ('w, io_error, nat) op) \<Rightarrow> (archive_entry_id \<times> entry_name) list \<Rightarrow>
   'r \<times> (entry_name \<times> 'w) list \<Rightarrow> ((error + unit) \<times> ('r \<times> (entry_name \<times> 'w) list)) option" where
  "extract_blocks rd wr id2name s =
     (case block_from rd (fst s) of
        (Inl e, src) \<Rightarrow> Some (Inl e, (src, snd s))
      | (Inr b, src) \<Rightarrow>
          (case b of
             EntryStart name i \<Rightarrow>
               extract_blocks rd wr (if name \<in> set (map fst (snd s)) then AList.update i name id2name else id2name) (src, snd s)
           | EndOfEntry i _ \<Rightarrow> extract_blocks rd wr (AList.delete i id2name) (src, snd s)
           | EntryContent len _ i \<Rightarrow>
               (case extract_content rd wr id2name len i (src, snd s) of
                  (Inl e, s') \<Rightarrow> Some (Inl (IOError e), s')
                | (Inr _, s') \<Rightarrow> extract_blocks rd wr id2name s')
           | EndOfArchiveData \<Rightarrow> Some (Inr (), (src, snd s))))"

definition linear_extract ::
  "(nat \<Rightarrow> ('r, io_error, bytes) op) \<Rightarrow> (seek_from \<Rightarrow> ('r, io_error, nat) op) \<Rightarrow> (bytes \<Rightarrow> ('w, io_error, nat) op) \<Rightarrow>
   'r archive_reader \<Rightarrow> (entry_name \<times> 'w) list \<Rightarrow>
   ((error + unit) \<times> ('r archive_reader \<times> (entry_name \<times> 'w) list)) option" where
  "linear_extract rd sk wr archive export =
     (case bindE (lift_io (rewind sk)) (\<lambda>_. read_mla_entries_header rd) (ar_src archive) of
        (Inl e, src) \<Rightarrow> Some (Inl e, (archive\<lparr>ar_src := src\<rparr>, export))
      | (Inr _, src) \<Rightarrow>
          map_option (\<lambda>(res, (src', export')). (res, (archive\<lparr>ar_src := bf_inner src'\<rparr>, export')))
            (extract_blocks (buf_read DEFAULT_BUFFER_SIZE rd) wr [] (\<lparr>bf_inner = src, bf_unread = []\<rparr>, export)))"

section \<open>The buffered reader is a reader\<close>

definition buf_inv :: "('r \<Rightarrow> bytes) \<Rightarrow> ('r \<Rightarrow> nat) \<Rightarrow> ('r \<Rightarrow> bool) \<Rightarrow> 'r buf_reader \<Rightarrow> bool" where
  "buf_inv view pos rinv s \<longleftrightarrow> rinv (bf_inner s) \<and> length (bf_unread s) \<le> pos (bf_inner s) \<and>
     (drop (pos (bf_inner s) - length (bf_unread s)) (view (bf_inner s)) =
        bf_unread s @ drop (pos (bf_inner s)) (view (bf_inner s)))"

definition buf_pos :: "('r \<Rightarrow> nat) \<Rightarrow> 'r buf_reader \<Rightarrow> nat" where
  "buf_pos pos s = pos (bf_inner s) - length (bf_unread s)"

text \<open>Serving a read from a buffer that is not empty.\<close>

lemma buf_serve:
  assumes "buf_inv view pos rinv \<lparr>bf_inner = r, bf_unread = u\<rparr>" and "u \<noteq> []"
    and "s = \<lparr>bf_inner = r, bf_unread = drop n u\<rparr>" and "p = pos r - length u"
  shows "\<exists>k. take n u = take k (drop p (view r)) \<and> k \<le> n \<and> k \<le> length (view r) - p \<and> (0 < n \<longrightarrow> 0 < k) \<and>
    buf_inv view pos rinv s \<and> view (bf_inner s) = view r \<and> buf_pos pos s = p + k"
proof -
  let ?k = "min n (length u)"
  from assms(1,4) have r: "rinv r" "length u \<le> pos r" and d: "drop p (view r) = u @ drop (pos r) (view r)"
    by (simp_all add: buf_inv_def)
  have t: "take n u = take ?k (drop p (view r))" unfolding d by (cases "n \<le> length u") simp_all
  have l: "?k \<le> length (view r) - p" using arg_cong [OF d, of length] by simp
  have "drop (p + ?k) (view r) = drop ?k (u @ drop (pos r) (view r))"
    by (simp only: add.commute [of p] d flip: drop_drop)
  then have e: "drop (p + ?k) (view r) = drop n u @ drop (pos r) (view r)" by (cases "n \<le> length u") simp_all
  have q: "pos r - length (drop n u) = p + ?k" using assms(4) r(2) by (cases "n \<le> length u") simp_all
  have i: "buf_inv view pos rinv s" unfolding assms(3) buf_inv_def
    using r by (simp only: buf_reader.simps q e simp_thms) simp
  have "0 < n \<longrightarrow> 0 < ?k" using assms(2) by simp
  moreover have "view (bf_inner s) = view r" "buf_pos pos s = p + ?k" using q by (simp_all add: assms(3) buf_pos_def)
  ultimately show ?thesis using t l i by (intro exI [of _ ?k] conjI) simp_all
qed

lemma buf_read_ok:
  assumes so: "source rd view pos rinv" and c: "0 < capacity"
    and i: "buf_inv view pos rinv s" and p: "buf_pos pos s < length (view (bf_inner s))"
  shows "\<exists>k s'. buf_read capacity rd n s = (Inr (take k (drop (buf_pos pos s) (view (bf_inner s)))), s') \<and> k \<le> n \<and>
      k \<le> length (view (bf_inner s)) - buf_pos pos s \<and> (0 < n \<longrightarrow> 0 < k) \<and> buf_inv view pos rinv s' \<and>
      view (bf_inner s') = view (bf_inner s) \<and> buf_pos pos s' = buf_pos pos s + k"
proof (cases "bf_unread s = []")
  case False
  let ?s = "\<lparr>bf_inner = bf_inner s, bf_unread = drop n (bf_unread s)\<rparr>"
  have "\<lparr>bf_inner = bf_inner s, bf_unread = bf_unread s\<rparr> = s" by simp
  with i have "buf_inv view pos rinv \<lparr>bf_inner = bf_inner s, bf_unread = bf_unread s\<rparr>" by (simp only:)
  from buf_serve [OF this False refl, of "buf_pos pos s" n] obtain k where k:
    "take n (bf_unread s) = take k (drop (buf_pos pos s) (view (bf_inner s)))" "k \<le> n"
    "k \<le> length (view (bf_inner s)) - buf_pos pos s" "0 < n \<longrightarrow> 0 < k" "buf_inv view pos rinv ?s"
    "view (bf_inner ?s) = view (bf_inner s)" "buf_pos pos ?s = buf_pos pos s + k" by (auto simp: buf_pos_def)
  have "buf_read capacity rd n s = (Inr (take k (drop (buf_pos pos s) (view (bf_inner s)))), ?s)"
    using False k(1) by (simp add: buf_read_def)
  then show ?thesis using k(2-7) by (intro exI conjI)
next
  case True
  let ?r = "bf_inner s"
  have q: "buf_pos pos s = pos ?r" using True by (simp add: buf_pos_def)
  have r: "rinv ?r" using i by (simp add: buf_inv_def)
  have lt: "pos ?r < length (view ?r)" using p q by simp
  show ?thesis
  proof (cases "capacity \<le> n")
    case direct: True
    from source.read_ok [OF so r lt, of n] obtain k r1 where
      k: "rd n ?r = (Inr (take k (drop (pos ?r) (view ?r))), r1)" "k \<le> n" "k \<le> length (view ?r) - pos ?r"
      "0 < n \<longrightarrow> 0 < k" "rinv r1" "view r1 = view ?r" "pos r1 = pos ?r + k" by blast
    let ?s = "s\<lparr>bf_inner := r1\<rparr>"
    have "buf_read capacity rd n s = (Inr (take k (drop (pos ?r) (view ?r))), ?s)"
      using True direct k(1) by (simp add: buf_read_def)
    moreover have "buf_inv view pos rinv ?s" "view (bf_inner ?s) = view ?r" "buf_pos pos ?s = pos ?r + k"
      using k(5-7) True by (simp_all add: buf_inv_def buf_pos_def)
    ultimately show ?thesis unfolding q using k(2-4) by (intro exI conjI)
  next
    case False
    from source.read_ok [OF so r lt, of capacity] obtain k r1 where
      k: "rd capacity ?r = (Inr (take k (drop (pos ?r) (view ?r))), r1)" "k \<le> length (view ?r) - pos ?r"
      "0 < capacity \<longrightarrow> 0 < k" "rinv r1" "view r1 = view ?r" "pos r1 = pos ?r + k" by blast
    define b where "b = take k (drop (pos ?r) (view ?r))"
    have l: "length b = k" using k(2) by (simp add: b_def)
    have d: "drop (pos ?r) (view ?r) = b @ drop (pos r1) (view ?r)"
      unfolding b_def k(6) add.commute [of "pos ?r" k] by (simp only: append_take_drop_id flip: drop_drop)
    have j: "buf_inv view pos rinv \<lparr>bf_inner = r1, bf_unread = b\<rparr>"
      using d by (simp add: buf_inv_def k(4-6) l)
    have ne: "b \<noteq> []" using l k(3) c by auto
    have e: "pos ?r = pos r1 - length b" using k(6) l by simp
    let ?s = "\<lparr>bf_inner = r1, bf_unread = drop n b\<rparr>"
    from buf_serve [OF j ne refl e, of n] obtain m where m:
      "take n b = take m (drop (pos ?r) (view ?r))" "m \<le> n" "m \<le> length (view ?r) - pos ?r" "0 < n \<longrightarrow> 0 < m"
      "buf_inv view pos rinv ?s" "view (bf_inner ?s) = view ?r" "buf_pos pos ?s = pos ?r + m"
      unfolding k(5) by blast
    have "buf_read capacity rd n s = (Inr (take n b), ?s)"
      using True False k(1) by (simp add: buf_read_def b_def)
    then show ?thesis unfolding q m(1) using m(2-7) by (intro exI conjI)
  qed
qed

lemma buf_source:
  "source rd view pos rinv \<Longrightarrow> 0 < capacity \<Longrightarrow>
   source (buf_read capacity rd) (\<lambda>s. view (bf_inner s)) (buf_pos pos) (buf_inv view pos rinv)"
  by (rule source.intro) (rule buf_read_ok)

interpretation buf_cur: source "buf_read DEFAULT_BUFFER_SIZE cursor_read" "\<lambda>s. cur_data (bf_inner s)" "buf_pos cur_pos"
  "buf_inv cur_data cur_pos cursor_inv"
  by (rule buf_source [OF cur.source_axioms]) (simp add: DEFAULT_BUFFER_SIZE_def)

section \<open>What is extracted\<close>

text \<open>The part of an entry that blocks hold, by its name.\<close>

definition named_content :: "block list \<Rightarrow> entry_name \<Rightarrow> bytes" where
  "named_content bs name = (case map_of (starts bs) name of None \<Rightarrow> [] | Some i \<Rightarrow> contents i bs)"

text \<open>After the blocks \<open>xs\<close>: the entries that are open and asked for, and what their writers were given.\<close>

definition wanted :: "block list \<Rightarrow> entry_name set \<Rightarrow> (archive_entry_id \<times> entry_name) list \<Rightarrow> bool" where
  "wanted xs names id2name \<longleftrightarrow> (\<forall>i name. map_of id2name i = Some name \<longleftrightarrow>
     (name, i) \<in> set (starts xs) \<and> i \<notin> set (ends xs) \<and> name \<in> names)"

lemma starts_inj:
  assumes "stream sha256 bs" and "(name, i) \<in> set (starts bs)"
  shows "(name, j) \<in> set (starts bs) \<Longrightarrow> j = i" and "(name', i) \<in> set (starts bs) \<Longrightarrow> name' = name"
    and "map_of (starts bs) name = Some i"
proof -
  have d: "distinct (map fst (starts bs))" "distinct (map snd (starts bs))" using stream_distinct [OF assms(1)] by auto
  show "map_of (starts bs) name = Some i" using d(1) assms(2) by simp
  show "(name, j) \<in> set (starts bs) \<Longrightarrow> j = i" using d(1) assms(2) by (metis Some_eq_map_of_iff option.inject)
  show "(name', i) \<in> set (starts bs) \<Longrightarrow> name' = name"
    using d(2) assms(2) inj_on_eq_iff [of snd "set (starts bs)"] by (force simp: distinct_map)
qed

lemma wanted_step:
  assumes st: "stream sha256 (xs @ [b])" and w: "wanted xs names m"
  shows "b = BStart name i \<Longrightarrow> wanted (xs @ [b]) names (if name \<in> names then AList.update i name m else m)"
    and "b = BContent i d \<Longrightarrow> wanted (xs @ [b]) names m"
    and "b = BEnd i h \<Longrightarrow> wanted (xs @ [b]) names (AList.delete i m)"
proof -
  have mf: "may_follow sha256 xs b" using st by (rule stream_snocE) simp
  have sx: "stream sha256 xs" using st by (rule stream_prefix)
  show "b = BContent i d \<Longrightarrow> wanted (xs @ [b]) names m" using w by (simp add: wanted_def)
  show "b = BEnd i h \<Longrightarrow> wanted (xs @ [b]) names (AList.delete i m)"
    using w by (auto simp: wanted_def delete_conv')
  assume b: "b = BStart name i"
  have fresh: "i \<notin> set (map snd (starts xs))" "name \<notin> set (map fst (starts xs))" using mf b by simp_all
  have "i \<notin> set (ends xs)" using fresh(1) stream_distinct [OF sx] by blast
  then show "wanted (xs @ [b]) names (if name \<in> names then AList.update i name m else m)"
    using w fresh unfolding wanted_def b by (force simp: update_conv')
qed

lemma named_content_other:
  assumes st: "stream sha256 (xs @ [b])" and "\<And>i. (name, i) \<in> set (starts xs) \<Longrightarrow> content_of i b = []"
  shows "named_content (xs @ [b]) name = named_content xs name"
proof -
  have mf: "may_follow sha256 xs b" using st by (rule stream_snocE) simp
  have sx: "stream sha256 xs" using st by (rule stream_prefix)
  show ?thesis
  proof (cases "map_of (starts xs) name")
    case (Some i)
    then have "(name, i) \<in> set (starts xs)" by (rule map_of_SomeD)
    from assms(2) [OF this] Some show ?thesis by (simp add: named_content_def map_add_Some_iff)
  next
    case None
    show ?thesis
    proof (cases b)
      case (BStart name' i)
      with mf have "i \<notin> set (map snd (starts xs))" by simp
      from contents_not_started [OF sx this] None BStart show ?thesis by (simp add: named_content_def map_add_def)
    qed (use None in \<open>simp_all add: named_content_def\<close>)
  qed
qed

section \<open>The loop\<close>

context source
begin

lemma copy_take_forget:
  "inv r \<Longrightarrow> n \<le> length (rest r) \<Longrightarrow>
   \<exists>r'. copy_take rd sink_write n (r, ()) = (Inr (), (r', ())) \<and> inv r' \<and> rest r' = drop n (rest r)"
proof (induction n arbitrary: r rule: less_induct)
  case (less n)
  show ?case
  proof (cases "n = 0")
    case True
    then show ?thesis using less.prems by (subst copy_take.simps) simp
  next
    case False
    then have ne: "rest r \<noteq> []" using less.prems(2) by auto
    with less.prems(1) obtain k r1 where k: "rd (min n COPY_BUF_SIZE) r = (Inr (take k (rest r)), r1)"
      "k \<le> min n COPY_BUF_SIZE" "k \<le> length (rest r)" "0 < min n COPY_BUF_SIZE \<longrightarrow> 0 < k"
      "inv r1" "rest r1 = drop k (rest r)" by (rule readE)
    have pos: "0 < k" using k(4) False by (simp add: COPY_BUF_SIZE_def)
    have "\<exists>r'. copy_take rd sink_write (n - k) (r1, ()) = (Inr (), (r', ())) \<and> inv r' \<and> rest r' = drop (n - k) (rest r1)"
      by (rule less.IH) (use pos False k less.prems in auto)
    moreover have "take k (rest r) \<noteq> []" using pos ne by simp
    ultimately show ?thesis
      using False k(1,2,3,6) by (subst copy_take.simps) (simp add: write_all_sink min_absorb2)
  qed
qed

end

text \<open>The writers have received the part \<open>got\<close> of their entries, and there is room for the part \<open>left\<close>.\<close>

definition export_inv ::
  "('w \<Rightarrow> bytes) \<Rightarrow> ('w \<Rightarrow> bool) \<Rightarrow> ('w \<Rightarrow> nat) \<Rightarrow> (entry_name \<times> 'w) list \<Rightarrow> block list \<Rightarrow> block list \<Rightarrow>
   (entry_name \<times> 'w) list \<Rightarrow> bool" where
  "export_inv out winv room export0 bs xs export \<longleftrightarrow> map fst export = map fst export0 \<and>
     (\<forall>name w0. map_of export0 name = Some w0 \<longrightarrow>
        (\<exists>w. map_of export name = Some w \<and> winv w \<and> out w = out w0 @ named_content xs name \<and>
           length (named_content bs name) \<le> room w + length (named_content xs name)))"

context room_copier
begin

lemma copy_take_all:
  assumes "inv r" and "winv w" and "n \<le> length (rest r)" and "n \<le> room w"
  obtains r' w' where "copy_take rd wr n (r, w) = (Inr (), (r', w'))" "inv r'" "rest r' = drop n (rest r)"
    "winv w'" "out w' = out w @ take n (rest r)" "room w \<le> room w' + n"
proof -
  from copy_take_room [OF assms] obtain r' w' where
    c: "copy_take rd wr n (r, w) = (Inr (), (r', w'))" "room w \<le> room w' + n" by blast
  from copy_take_out [OF assms(1,2,3) c(1)] have o: "inv r'" "view r' = view r" "pos r' = pos r + n" "winv w'"
    "out w' = out w @ take n (rest r)" by auto
  have "rest r' = drop n (rest r)" using o(2,3) by (simp add: rest_def add.commute)
  from that [OF c(1) o(1) this o(4,5) c(2)] show thesis .
qed

lemma extract_content_ok:
  assumes st: "stream sha256 (xs @ [BContent i d])" and bs: "bs = (xs @ [BContent i d]) @ ys"
    and m: "wanted xs (set (map fst export0)) m" and e: "export_inv out winv room export0 bs xs export"
    and src: "inv src" "rest src = d @ t"
  obtains src' export' where "extract_content rd wr m (length d) i (src, export) = (Inr (), (src', export'))" "inv src'"
    "rest src' = t" "export_inv out winv room export0 bs (xs @ [BContent i d]) export'"
proof -
  have sx: "stream sha256 xs" using st by (rule stream_prefix)
  have "i \<in> open_ids xs" using st by (rule stream_snocE) simp
  then obtain name where n: "(name, i) \<in> set (starts xs)" and ni: "i \<notin> set (ends xs)" by (auto simp: open_ids_def)
  have len: "length d \<le> length (rest src)" using src(2) by simp
  have other: "named_content (xs @ [BContent i d]) name' = named_content xs name'" if "name' \<noteq> name" for name'
    by (rule named_content_other [OF st]) (use starts_inj(2) [OF sx n] that in auto)
  have keys: "map fst export = map fst export0" using e by (simp add: export_inv_def)
  show thesis
  proof (cases "map_of export0 name")
    case None
    then have k: "name \<notin> set (map fst export0)" by (simp add: map_of_eq_None_iff)
    have "map_of m i = None"
    proof (cases "map_of m i")
      case (Some name')
      then have "(name', i) \<in> set (starts xs)" "name' \<in> set (map fst export0)" using m by (simp_all add: wanted_def)
      with starts_inj(2) [OF sx n] k show ?thesis by metis
    qed
    moreover obtain src' where "copy_take rd sink_write (length d) (src, ()) = (Inr (), (src', ()))" "inv src'"
      "rest src' = drop (length d) (rest src)" using copy_take_forget [OF src(1) len] by blast
    moreover have "export_inv out winv room export0 bs (xs @ [BContent i d]) export"
      unfolding export_inv_def
    proof (intro conjI keys allI impI)
      fix name' w0 assume w0: "map_of export0 name' = Some w0"
      then have "name' \<noteq> name" using None by auto
      from other [OF this] e w0 show "\<exists>w. map_of export name' = Some w \<and> winv w \<and>
          out w = out w0 @ named_content (xs @ [BContent i d]) name' \<and>
          length (named_content bs name') \<le> room w + length (named_content (xs @ [BContent i d]) name')"
        by (simp add: export_inv_def)
    qed
    ultimately show thesis
      using src(2) by (intro that [of src' export]) (simp_all add: extract_content_def)
  next
    case (Some w0)
    then have "name \<in> set (map fst export0)" by (metis map_of_eq_None_iff option.distinct(1) set_map)
    then have mi: "map_of m i = Some name" using m n ni by (simp add: wanted_def)
    from e Some obtain w where w: "map_of export name = Some w" "winv w" "out w = out w0 @ named_content xs name"
      "length (named_content bs name) \<le> room w + length (named_content xs name)" by (auto simp: export_inv_def)
    have mx: "map_of (starts xs) name = Some i" by (rule starts_inj(3) [OF sx n])
    have new: "named_content (xs @ [BContent i d]) name = named_content xs name @ d"
      using mx by (simp add: named_content_def)
    have "map_of (starts bs) name = Some i" using mx by (simp add: bs map_add_Some_iff)
    then have "length (named_content xs name) + length d \<le> length (named_content bs name)"
      using mx by (simp add: named_content_def bs)
    then have "length d \<le> room w" using w(4) by simp
    from copy_take_all [OF src(1) w(2) len this] obtain src' w' where
      c: "copy_take rd wr (length d) (src, w) = (Inr (), (src', w'))" "inv src'" "rest src' = drop (length d) (rest src)"
      "winv w'" "out w' = out w @ take (length d) (rest src)" "room w \<le> room w' + length d" by blast
    let ?e = "AList.update name w' export"
    have o': "out w' = out w @ d" using c(5) src(2) by simp
    have "export_inv out winv room export0 bs (xs @ [BContent i d]) ?e"
      unfolding export_inv_def
    proof (intro conjI allI impI)
      have "name \<in> fst ` set export" using w(1) by (metis map_of_eq_None_iff option.distinct(1))
      then have "map fst ?e = map fst export" by (simp add: update_keys)
      with keys show "map fst ?e = map fst export0" by (simp only:)
    next
      fix name' v0 assume v0: "map_of export0 name' = Some v0"
      show "\<exists>w. map_of ?e name' = Some w \<and> winv w \<and> out w = out v0 @ named_content (xs @ [BContent i d]) name' \<and>
          length (named_content bs name') \<le> room w + length (named_content (xs @ [BContent i d]) name')"
      proof (cases "name' = name")
        case True
        then show ?thesis
          using v0 Some w(3,4) c(4,6) o' new by (intro exI [of _ w']) (simp add: update_conv')
      next
        case False
        from other [OF False] e v0 False show ?thesis by (simp add: export_inv_def update_conv')
      qed
    qed
    moreover have "extract_content rd wr m (length d) i (src, export) = (Inr (), (src', ?e))"
      using mi w(1) c(1) by (simp add: extract_content_def)
    ultimately show thesis using c(2,3) src(2) by (intro that [of src' ?e]) simp_all
  qed
qed

lemma extract_blocks_ok:
  assumes st: "stream sha256 bs" and wf: "\<forall>b\<in>set bs. wf_block b"
  shows "bs = xs @ ys \<Longrightarrow> inv src \<Longrightarrow> rest src = enc_blocks ys @ enc_block BEndOfData @ t \<Longrightarrow>
    wanted xs (set (map fst export0)) m \<Longrightarrow> export_inv out winv room export0 bs xs export \<Longrightarrow>
    \<exists>src' export'. extract_blocks rd wr m (src, export) = Some (Inr (), (src', export')) \<and> inv src' \<and>
      export_inv out winv room export0 bs bs export'"
proof (induction ys arbitrary: xs src m export)
  case Nil
  have "rest src = enc_head BEndOfData @ t" using Nil.prems(3) by (simp add: enc_block_def)
  from parsesD [OF parses_block Nil.prems(2) this] obtain src' where
    "block_from rd src = (Inr EndOfArchiveData, src')" "inv src'" by (auto elim: yieldsE)
  then show ?case using Nil.prems(1,5) by (subst extract_blocks.simps) simp
next
  case (Cons b ys)
  have wb: "wf_block b" using wf Cons.prems(1) by simp
  have sb: "stream sha256 (xs @ [b])" using st Cons.prems(1) stream_prefix [of sha256 "xs @ [b]" ys] by simp
  have bs: "bs = (xs @ [b]) @ ys" using Cons.prems(1) by simp
  let ?rest = "enc_blocks ys @ enc_block BEndOfData @ t"
  have "rest src = enc_head b @ block_payload b @ ?rest" using Cons.prems(3) by (simp add: enc_block_def)
  from parsesD [OF parses_block [OF wb] Cons.prems(2) this] obtain src1 where
    s1: "block_from rd src = (Inr (parsed_block b), src1)" "inv src1"
    "rest src1 = drop (length (enc_head b)) (rest src)" by (rule yieldsE)
  have r1: "rest src1 = block_payload b @ ?rest" using s1(3) Cons.prems(3) by (simp add: enc_block_def)
  have keys: "map fst export = map fst export0" using Cons.prems(5) by (simp add: export_inv_def)
  note w = wanted_step [OF sb Cons.prems(4)]
  have same: "export_inv out winv room export0 bs (xs @ [b]) export" if "\<And>i. content_of i b = []"
    using Cons.prems(5) named_content_other [OF sb that] by (simp add: export_inv_def)
  show ?case
  proof (cases b)
    case (BStart name i)
    have "extract_blocks rd wr m (src, export) =
      extract_blocks rd wr (if name \<in> set (map fst export0) then AList.update i name m else m) (src1, export)"
      using s1(1) keys by (subst extract_blocks.simps) (simp add: BStart del: set_map)
    then show ?thesis using Cons.IH [OF bs s1(2) _ w(1) [OF BStart] same] r1 by (simp add: BStart)
  next
    case (BContent i d)
    have "rest src1 = d @ ?rest" using r1 by (simp add: BContent)
    from extract_content_ok [OF sb [unfolded BContent] bs [unfolded BContent] Cons.prems(4,5) s1(2) this] obtain src2 export2 where
      x: "extract_content rd wr m (length d) i (src1, export) = (Inr (), (src2, export2))" "inv src2" "rest src2 = ?rest"
      "export_inv out winv room export0 bs (xs @ [BContent i d]) export2" .
    have "extract_blocks rd wr m (src, export) = extract_blocks rd wr m (src2, export2)"
      using s1(1) x(1) by (subst extract_blocks.simps) (simp add: BContent)
    then show ?thesis using Cons.IH [OF bs x(2,3) w(2) [OF BContent]] x(4) by (simp add: BContent)
  next
    case (BEnd i h)
    have "extract_blocks rd wr m (src, export) = extract_blocks rd wr (AList.delete i m) (src1, export)"
      using s1(1) by (subst extract_blocks.simps) (simp add: BEnd)
    then show ?thesis using Cons.IH [OF bs s1(2) _ w(3) [OF BEnd] same] r1 by (simp add: BEnd)
  next
    case BEndOfData
    then show ?thesis using stream_no_end_of_data [OF st] Cons.prems(1) by simp
  qed
qed

end

section \<open>Properties\<close>

text \<open>C4: one pass gives every entry. On an opened archive, whatever the reader below it, and whatever its blocks, also
  those of several entries that are interleaved, \<open>linear_extract\<close> returns, and without an error if the writers have room;
  each writer was given the whole content of the entry of its name, or nothing if there is none.\<close>

theorem linear_extract_contents:
  assumes sk: "seekable rd view pos rinv sk" and src: "rinv src" "view src = complete_layer bs"
    and ok: "archive_ok sha256 bs" and ar: "open_entries rd sk src = Inr ar"
    and rs: "room_sink wr out winv room" and d: "distinct (map fst export)"
    and w: "\<And>name w. (name, w) \<in> set export \<Longrightarrow> winv w \<and> length (named_content bs name) \<le> room w"
  shows "\<exists>ar' export'. linear_extract rd sk wr ar export = Some (Inr (), (ar', export')) \<and>
    map fst export' = map fst export \<and>
    (\<forall>(name, w) \<in> set export. \<exists>w'. map_of export' name = Some w' \<and> out w' = out w @ named_content bs name)"
proof -
  have ss: "start_seekable rd view pos rinv sk" using sk by (simp add: seekable_def)
  then have so: "source rd view pos rinv" by (simp add: start_seekable_def)
  from seekable.open_entries_ok [OF sk ok src] ar have a: "rinv (ar_src ar)" "view (ar_src ar) = complete_layer bs" by auto
  have "view (ar_src ar) \<noteq> []" unfolding a(2) by (simp add: complete_layer_parts)
  from start_seekable.rewind_ok [OF ss a(1) this] obtain s2 where
    s2: "rewind sk (ar_src ar) = (Inr (), s2)" "rinv s2" "view s2 = complete_layer bs" "pos s2 = 0" using a(2) by auto
  let ?t = "enc_footer (sort_key fst (stream_footer bs)) @ EMPTY_TAIL_OPTS_SERIALIZATION"
  have d0: "drop (pos s2) (complete_layer bs) = (ENTRIES_LAYER_MAGIC @ EMPTY_OPTS_SERIALIZATION) @
      (enc_blocks bs @ enc_block BEndOfData @ ?t)"
    unfolding s2(4) by (simp add: complete_layer_def entries_layer_def)
  obtain s3 where s3: "read_mla_entries_header rd s2 = (Inr (), s3)" "rinv s3" "view s3 = complete_layer bs"
    "pos s3 = pos s2 + length (ENTRIES_LAYER_MAGIC @ EMPTY_OPTS_SERIALIZATION)"
    by (rule source.parses_at [OF so source.parses_entries_header [OF so] s2(2,3) d0])
  let ?b = "\<lparr>bf_inner = s3, bf_unread = []\<rparr>"
  let ?brd = "buf_read DEFAULT_BUFFER_SIZE rd"
  let ?bi = "buf_inv view pos rinv"
  have bsrc: "source ?brd (\<lambda>s. view (bf_inner s)) (buf_pos pos) ?bi"
    by (rule buf_source [OF so]) (simp add: DEFAULT_BUFFER_SIZE_def)
  have rest: "source.rest (\<lambda>s. view (bf_inner s)) (buf_pos pos) ?b = enc_blocks bs @ enc_block BEndOfData @ ?t"
    using arg_cong [OF d0, of "drop (length (ENTRIES_LAYER_MAGIC @ EMPTY_OPTS_SERIALIZATION))"] s3(3,4)
    by (simp add: source.rest_def [OF bsrc] buf_pos_def add.commute)
  have rc: "room_copier ?brd (\<lambda>s. view (bf_inner s)) (buf_pos pos) ?bi wr out winv room"
    by (rule room_copier.intro [OF bsrc rs])
  have st: "stream sha256 bs" "\<forall>b\<in>set bs. wf_block b" using ok by (simp_all add: archive_ok_def)
  have bi: "?bi ?b" using s3(2) by (simp add: buf_inv_def)
  have wd: "wanted [] (set (map fst export)) []" by (simp add: wanted_def)
  have e0: "export_inv out winv room export bs [] export"
    using w by (auto simp: export_inv_def named_content_def dest: map_of_SomeD)
  from room_copier.extract_blocks_ok [OF rc st append_Nil [symmetric] bi rest wd e0] obtain src' export' where
    x: "extract_blocks ?brd wr [] (?b, export) = Some (Inr (), (src', export'))"
    "export_inv out winv room export bs bs export'" by blast
  have "linear_extract rd sk wr ar export = Some (Inr (), (ar\<lparr>ar_src := bf_inner src'\<rparr>, export'))"
    using s2(1) s3(1) x(1) by (simp add: linear_extract_def bindE_def lift_io_def map_errE_def)
  moreover have "\<forall>(name, w) \<in> set export. \<exists>w'. map_of export' name = Some w' \<and> out w' = out w @ named_content bs name"
  proof (intro ballI, clarify)
    fix name w assume "(name, w) \<in> set export"
    then have "map_of export name = Some w" using d by simp
    with x(2) show "\<exists>w'. map_of export' name = Some w' \<and> out w' = out w @ named_content bs name"
      by (auto simp: export_inv_def)
  qed
  ultimately show ?thesis using x(2) by (auto simp: export_inv_def)
qed

text \<open>Two of the entries of an archive, and a name it does not have.\<close>

theorem linear_extract_contents_witness:
  "\<exists>ar ar'. open_entries cursor_read cursor_seek (cursor_new (complete_layer demo_blocks)) = Inr ar \<and>
    linear_extract cursor_read cursor_seek vec_write ar [(EntryName [97], []), (EntryName [99], [5])] =
      Some (Inr (), (ar', [(EntryName [97], [1, 2, 4]), (EntryName [99], [5])]))"
proof -
  let ?src = "cursor_new (complete_layer demo_blocks)"
  let ?e = "[(EntryName [97], []), (EntryName [99], [5])] :: (entry_name \<times> bytes) list"
  have inv: "cursor_inv ?src" and v: "cur_data ?src = complete_layer demo_blocks"
    using demo_archive_ok by (simp_all add: cursor_inv_def cursor_new_def archive_ok_def)
  have n: "named_content demo_blocks (EntryName [97]) = [1, 2, 4]" "named_content demo_blocks (EntryName [99]) = []"
    by (simp_all add: named_content_def demo_blocks_def)
  from cur.open_entries_ok [OF demo_archive_ok inv v] obtain ar where
    ar: "open_entries cursor_read cursor_seek ?src = Inr ar" by blast
  have w: "True \<and> length (named_content demo_blocks name) \<le> vec_room w" if "(name, w) \<in> set ?e" for name w
    using that n by (auto simp: vec_room_def)
  from linear_extract_contents [OF cur.seekable_axioms inv v demo_archive_ok ar vec.room_sink_axioms, of ?e, OF _ w]
  obtain ar' e' where e: "linear_extract cursor_read cursor_seek vec_write ar ?e = Some (Inr (), (ar', e'))"
    "map fst e' = map fst ?e" "map_of e' (EntryName [97]) = Some [1, 2, 4]" "map_of e' (EntryName [99]) = Some [5]"
    by (auto simp: n)
  then obtain x y where "e' = [(EntryName [97], x), (EntryName [99], y)]" by (auto simp: map_eq_Cons_conv)
  with e(3,4) have "e' = [(EntryName [97], [1, 2, 4]), (EntryName [99], [5])]" by simp
  with ar e(1) show ?thesis by blast
qed

end
