(* ===== verification/Info.thy ===== *)
theory Info
  imports StackReader
begin

text \<open>
  What can be learnt from the head of an archive, without seeking: \<^verbatim>\<open>mla/src/info.rs\<close>, and the module
  \<^verbatim>\<open>shared_secret\<close> of \<^verbatim>\<open>mla/src/helpers.rs\<close>, which hands the decapsulation of the shared secret over to
  another computer.
\<close>

section \<open>Operations\<close>

record archive_info =
  ai_format_version :: nat
  ai_encryption_enabled :: bool
  ai_signature_enabled :: bool

definition read_info :: "(nat \<Rightarrow> ('r, io_error, bytes) op) \<Rightarrow> 'r \<Rightarrow> error + archive_info" where
  "read_info rd src =
     (case archive_header_deserialize rd src of
        (Inl e, _) \<Rightarrow> Inl e
      | (Inr header, src1) \<Rightarrow>
     (case read_layer_magic rd src1 of
        (Inl e, _) \<Rightarrow> Inl e
      | (Inr layer_magic, src2) \<Rightarrow>
     (case (if layer_magic = SIGNATURE_LAYER_MAGIC then
              (case sig_truncated_new_skip_magic (raw_truncated_read rd) \<lparr>rt_inner = src2\<rparr> of
                 Inl e \<Rightarrow> Inl e
               | Inr layer \<Rightarrow>
              (case read_layer_magic (sig_truncated_read (raw_truncated_read rd)) layer of
                 (Inl e, _) \<Rightarrow> Inl e
               | (Inr next_layer_magic, _) \<Rightarrow> Inr (next_layer_magic = ENCRYPTION_LAYER_MAGIC, True)))
            else Inr (layer_magic = ENCRYPTION_LAYER_MAGIC, False)) of
        Inl e \<Rightarrow> Inl e
      | Inr (encryption_enabled, signature_enabled) \<Rightarrow>
          Inr \<lparr>ai_format_version = format_version_number header, ai_encryption_enabled = encryption_enabled,
               ai_signature_enabled = signature_enabled\<rparr>)))"

text \<open>\<^verbatim>\<open>MLADecryptionMetadata\<close> wraps the encapsulated keys, \<^verbatim>\<open>MLADecryptionSharedSecret\<close> the 32 bytes of the secret.\<close>

definition metadata_from_archive ::
  "'k kem_prims \<Rightarrow> (nat \<Rightarrow> ('r, io_error, bytes) op) \<Rightarrow> 'r \<Rightarrow> error + multi_recipient_key" where
  "metadata_from_archive K rd src =
     (case archive_header_deserialize rd src of
        (Inl e, _) \<Rightarrow> Inl e
      | (Inr _, src') \<Rightarrow>
     (case open_truncated_signature rd \<lparr>rt_inner = src'\<rparr> of
        Inl e \<Rightarrow> Inl e
      | Inr (src1, layer_magic) \<Rightarrow>
          if layer_magic = ENCRYPTION_LAYER_MAGIC then
            (case read_encryption_header_after_magic K (sig_truncated_level_read rd) src1 of
               (Inl e, _) \<Rightarrow> Inl e
             | (Inr (read_encryption_metadata, _), _) \<Rightarrow> Inr (ep_encapsulated_key read_encryption_metadata))
          else Inl EncryptionAskedButNotMarkedPresent))"

definition serialize_metadata :: "(bytes \<Rightarrow> ('w, io_error, nat) op) \<Rightarrow> multi_recipient_key \<Rightarrow> ('w, error, nat) op" where
  "serialize_metadata wr metadata = multi_recipient_key_serialize wr metadata"

definition deserialize_metadata ::
  "'k kem_prims \<Rightarrow> (nat \<Rightarrow> ('r, io_error, bytes) op) \<Rightarrow> ('r, error, multi_recipient_key) op" where
  "deserialize_metadata K rd = multi_recipient_key_deserialize K rd"

definition decapsulate_shared_secret ::
  "'k kem_prims \<Rightarrow> gcm_prims \<Rightarrow> decryption_private_key \<Rightarrow> multi_recipient_key \<Rightarrow> config_error + bytes" where
  "decapsulate_shared_secret K G decryption_private_key metadata =
     (case decapsulate K G decryption_private_key metadata of
        Inl e \<Rightarrow> Inl (if e = ConfigPanic then e else PrivateKeyNotFound)
      | Inr ss_hybrid \<Rightarrow> Inr ss_hybrid)"

definition serialize_shared_secret :: "(bytes \<Rightarrow> ('w, io_error, nat) op) \<Rightarrow> bytes \<Rightarrow> ('w, error, nat) op" where
  "serialize_shared_secret wr shared_secret = slice_serialize (u8_serialize wr) shared_secret"

definition deserialize_shared_secret :: "(nat \<Rightarrow> ('r, io_error, bytes) op) \<Rightarrow> ('r, error, bytes) op" where
  "deserialize_shared_secret rd = array_deserialize rd 32"

section \<open>The layers of a truncated archive\<close>

lemma field_source:
  assumes so: "source rd view pos rinv" and g: "\<And>r s. get (put r s) = r"
  shows "source (\<lambda>n. on_field get put (rd n)) (\<lambda>s. view (get s)) (\<lambda>s. pos (get s)) (\<lambda>s. rinv (get s))"
proof (rule source.intro)
  fix s n
  assume "rinv (get s)" "pos (get s) < length (view (get s))"
  from source.read_ok [OF so this, of n] obtain k r where
    "rd n (get s) = (Inr (take k (drop (pos (get s)) (view (get s)))), r)" "k \<le> n" "k \<le> length (view (get s)) - pos (get s)"
    "0 < n \<longrightarrow> 0 < k" "rinv r" "view r = view (get s)" "pos r = pos (get s) + k" by blast
  then show "\<exists>k s'. on_field get put (rd n) s = (Inr (take k (drop (pos (get s)) (view (get s)))), s') \<and> k \<le> n \<and>
      k \<le> length (view (get s)) - pos (get s) \<and> (0 < n \<longrightarrow> 0 < k) \<and> rinv (get s') \<and> view (get s') = view (get s) \<and>
      pos (get s') = pos (get s) + k"
    by (intro exI [of _ k] exI [of _ "put r s"]) (simp add: on_field_def g)
qed

lemma raw_truncated_source:
  "source rd view pos rinv \<Longrightarrow>
   source (raw_truncated_read rd) (\<lambda>s. view (rt_inner s)) (\<lambda>s. pos (rt_inner s)) (\<lambda>s. rinv (rt_inner s))"
  unfolding raw_truncated_read_def [abs_def] by (rule field_source) simp_all

lemma sig_truncated_source:
  "source rd view pos rinv \<Longrightarrow>
   source (sig_truncated_read rd) (\<lambda>s. view (st_inner s)) (\<lambda>s. pos (st_inner s)) (\<lambda>s. rinv (st_inner s))"
  unfolding sig_truncated_read_def [abs_def] by (rule field_source) simp_all

text \<open>A parser on a reader, in terms of what is left to read.\<close>

lemma parsed_rest:
  assumes so: "source rd view pos rinv" and p: "source.parses view pos rinv m bs a" and i: "rinv s"
    and d: "drop (pos s) (view s) = bs @ t"
  obtains s' where "m s = (Inr a, s')" "rinv s'" "view s' = view s" "drop (pos s') (view s) = t"
proof -
  have "source.rest view pos s = bs @ t" using d by (simp add: source.rest_def [OF so])
  from source.yieldsE [OF so source.parsesD [OF so p i this]] obtain s' where
    s': "m s = (Inr a, s')" "rinv s'" "view s' = view s" "pos s' = pos s + length bs" .
  have "drop (pos s') (view s) = drop (length bs) (drop (pos s) (view s))" by (simp add: s'(4) add.commute)
  then have "drop (pos s') (view s) = t" unfolding d by simp
  with s' show thesis by (intro that)
qed

lemma magic_rest:
  assumes so: "source rd view pos rinv" and i: "rinv s" and d: "drop (pos s) (view s) = c @ t" and l: "8 \<le> length c"
  obtains s' where "read_layer_magic rd s = (Inr (take 8 c), s')" "rinv s'" "view s' = view s"
    "drop (pos s') (view s) = drop 8 c @ t"
proof -
  have "length (take 8 c) = 8" using l by simp
  moreover have "drop (pos s) (view s) = take 8 c @ (drop 8 c @ t)" using d by simp
  ultimately show thesis by (rule parsed_rest [OF so source.parses_read_layer_magic [OF so] i]) (rule that)
qed

lemma open_truncated_signature_ok:
  assumes so: "source rd view pos rinv" and i: "rinv r" and l: "8 \<le> length c1" and nm: "take 8 c1 \<noteq> SIGNATURE_LAYER_MAGIC"
    and f: "signed_form S signature h0 c1 c0" and d: "drop (pos r) (view r) = c0 @ t"
  obtains src1 u where "open_truncated_signature rd \<lparr>rt_inner = r\<rparr> = Inr (src1, take 8 c1)"
    "case_sum (\<lambda>s. rinv (rt_inner s)) (\<lambda>s. rinv (rt_inner (st_inner s))) src1"
    "case_sum (\<lambda>s. view (rt_inner s)) (\<lambda>s. view (rt_inner (st_inner s))) src1 = view r"
    "drop (case_sum (\<lambda>s. pos (rt_inner s)) (\<lambda>s. pos (rt_inner (st_inner s))) src1) (view r) = drop 8 c1 @ u"
proof (cases signature)
  case None
  then have c: "c0 = c1" using f by (simp add: signed_form_def)
  obtain s where s: "read_layer_magic (raw_truncated_read rd) \<lparr>rt_inner = r\<rparr> = (Inr (take 8 c1), s)" "rinv (rt_inner s)"
    "view (rt_inner s) = view r" "drop (pos (rt_inner s)) (view r) = drop 8 c1 @ t"
    by (rule magic_rest [OF raw_truncated_source [OF so], of "\<lparr>rt_inner = r\<rparr>" c1 t]) (use i d c l in simp_all)
  show thesis
    by (rule that [of "Inl s" t]) (use s nm in \<open>simp_all add: open_truncated_signature_def\<close>)
next
  case (Some cfg)
  then obtain sigs where c: "c0 = SIGNATURE_LAYER_MAGIC @ EMPTY_OPTS_SERIALIZATION @ c1 @ sig_tail S sigs"
    using f by (auto simp: signed_form_def sig_layer_def)
  let ?u = "sig_tail S sigs @ t"
  have lm: "length SIGNATURE_LAYER_MAGIC = 8" by (simp add: SIGNATURE_LAYER_MAGIC_def)
  note rs = raw_truncated_source [OF so]
  obtain s where s: "read_layer_magic (raw_truncated_read rd) \<lparr>rt_inner = r\<rparr> = (Inr SIGNATURE_LAYER_MAGIC, s)" "rinv (rt_inner s)"
    "view (rt_inner s) = view r" "drop (pos (rt_inner s)) (view r) = EMPTY_OPTS_SERIALIZATION @ c1 @ ?u"
    by (rule magic_rest [OF rs, of "\<lparr>rt_inner = r\<rparr>" SIGNATURE_LAYER_MAGIC "EMPTY_OPTS_SERIALIZATION @ c1 @ ?u"])
      (use i d c lm in simp_all)
  obtain s1 where s1: "opts_from_reader (raw_truncated_read rd) s = (Inr (), s1)" "rinv (rt_inner s1)"
    "view (rt_inner s1) = view r" "drop (pos (rt_inner s1)) (view r) = c1 @ ?u"
    by (rule parsed_rest [OF rs source.parses_opts [OF rs], of s "c1 @ ?u"]) (use s in simp_all)
  have ls: "source (sig_truncated_level_read rd) (case_sum (\<lambda>s. view (rt_inner s)) (\<lambda>s. view (rt_inner (st_inner s))))
      (case_sum (\<lambda>s. pos (rt_inner s)) (\<lambda>s. pos (rt_inner (st_inner s))))
      (case_sum (\<lambda>s. rinv (rt_inner s)) (\<lambda>s. rinv (rt_inner (st_inner s))))"
    unfolding sig_truncated_level_read_def by (rule either_source [OF rs sig_truncated_source [OF rs]])
  let ?s = "Inr \<lparr>st_inner = s1\<rparr>"
  obtain s2 where s2: "read_layer_magic (sig_truncated_level_read rd) ?s = (Inr (take 8 c1), s2)"
    "case_sum (\<lambda>s. rinv (rt_inner s)) (\<lambda>s. rinv (rt_inner (st_inner s))) s2"
    "case_sum (\<lambda>s. view (rt_inner s)) (\<lambda>s. view (rt_inner (st_inner s))) s2 = view r"
    "drop (case_sum (\<lambda>s. pos (rt_inner s)) (\<lambda>s. pos (rt_inner (st_inner s))) s2) (view r) = drop 8 c1 @ ?u"
    by (rule magic_rest [OF ls, of ?s c1 ?u]) (use s1 l in simp_all)
  show thesis
    by (rule that [OF _ s2(2-4)])
      (use s(1) s1(1) s2(1) in \<open>simp add: open_truncated_signature_def sig_truncated_new_skip_magic_def\<close>)
qed

text \<open>The head of an archive, up to the magic of the layer below the signature.\<close>

lemma archive_form_heads:
  assumes f: "archive_form S K G decode bound wcfg rng content v" and h: "take 8 content = ENTRIES_LAYER_MAGIC"
    and K: "kem_ok K" and G: "gcm_prims_ok G" and n: "\<And>keys. wcfg_encryption wcfg = Some keys \<Longrightarrow> length keys < 2 ^ 64"
  obtains c0 c1 c2 where "v = Format.enc_header @ c0 @ archive_tail" "signed_form S (wcfg_signature wcfg) Format.enc_header c1 c0"
    "encrypted_form K G (wcfg_encryption wcfg) rng c2 c1" "8 \<le> length c1" "take 8 c1 \<noteq> SIGNATURE_LAYER_MAGIC"
    "take 8 c1 = ENCRYPTION_LAYER_MAGIC \<longleftrightarrow> wcfg_encryption wcfg \<noteq> None"
proof -
  from f obtain c2 c1 c0 where c: "compressed_form decode bound (wcfg_compression wcfg) content c2"
    "encrypted_form K G (wcfg_encryption wcfg) rng c2 c1" "signed_form S (wcfg_signature wcfg) Format.enc_header c1 c0"
    "v = Format.enc_header @ c0 @ archive_tail" by (auto simp: archive_form_def)
  from compressed_form_head [OF c(1) h] have h2: "8 \<le> length c2" "take 8 c2 \<in> {ENTRIES_LAYER_MAGIC, COMPRESSION_LAYER_MAGIC}" by simp_all
  from encrypted_form_head [OF c(2) n K G h2] have h1: "8 \<le> length c1" "take 8 c1 \<noteq> SIGNATURE_LAYER_MAGIC"
    "signed_head K c1 (config_of K G (wcfg_encryption wcfg) rng)" by simp_all
  have e: "take 8 c1 = ENCRYPTION_LAYER_MAGIC \<longleftrightarrow> wcfg_encryption wcfg \<noteq> None"
  proof (cases "wcfg_encryption wcfg")
    case None
    then have "c1 = c2" using c(2) by (simp add: encrypted_form_def)
    then show ?thesis using None h2(2) magics_differ by auto
  next
    case (Some keys)
    then show ?thesis
      using c(2) by (auto simp: encrypted_form_def enc_layer_def enc_header_def ENCRYPTION_LAYER_MAGIC_def)
  qed
  show thesis by (rule that [OF c(4,3,2) h1(1,2) e])
qed

lemma header_rest:
  assumes so: "source rd view pos rinv" and i: "rinv src" "pos src = 0" and v: "view src = Format.enc_header @ t"
  obtains r where "archive_header_deserialize rd src = (Inr (ArchiveHeader MLA_FORMAT_VERSION), r)" "rinv r"
    "view r = view src" "drop (pos r) (view src) = t"
  by (rule parsed_rest [OF so source.parses_archive_header [OF so] i(1), of t]) (use i(2) v in simp, rule that)

section \<open>Properties\<close>

text \<open>C5: the information on an archive is right. For every archive the writer makes, whatever its configuration, reading
  its head gives the version of the format, and says that it is encrypted or signed exactly when it is.\<close>

theorem read_info_reports:
  assumes so: "source rd view pos rinv" and src: "rinv src" "pos src = 0"
    and f: "archive_form S K G decode bound wcfg rng content (view src)" and h: "take 8 content = ENTRIES_LAYER_MAGIC"
    and K: "kem_ok K" and G: "gcm_prims_ok G" and n: "\<And>keys. wcfg_encryption wcfg = Some keys \<Longrightarrow> length keys < 2 ^ 64"
  shows "read_info rd src = Inr \<lparr>ai_format_version = MLA_FORMAT_VERSION,
    ai_encryption_enabled = (wcfg_encryption wcfg \<noteq> None), ai_signature_enabled = (wcfg_signature wcfg \<noteq> None)\<rparr>"
proof -
  obtain c0 c1 c2 where c: "view src = Format.enc_header @ c0 @ archive_tail"
    "signed_form S (wcfg_signature wcfg) Format.enc_header c1 c0" "8 \<le> length c1" "take 8 c1 \<noteq> SIGNATURE_LAYER_MAGIC"
    "take 8 c1 = ENCRYPTION_LAYER_MAGIC \<longleftrightarrow> wcfg_encryption wcfg \<noteq> None" by (rule archive_form_heads [OF f h K G n])
  obtain r where r: "archive_header_deserialize rd src = (Inr (ArchiveHeader MLA_FORMAT_VERSION), r)" "rinv r"
    "view r = view src" "drop (pos r) (view src) = c0 @ archive_tail" by (rule header_rest [OF so src c(1)])
  have d: "drop (pos r) (view r) = c0 @ archive_tail" using r(3,4) by simp
  show ?thesis
  proof (cases "wcfg_signature wcfg")
    case None
    then have "c0 = c1" using c(2) by (simp add: signed_form_def)
    then obtain r1 where "read_layer_magic rd r = (Inr (take 8 c1), r1)" using magic_rest [OF so r(2) d] c(3) by metis
    then show ?thesis using r(1) c(4,5) None by (simp add: read_info_def)
  next
    case (Some cfg)
    then obtain sigs where s: "c0 = SIGNATURE_LAYER_MAGIC @ EMPTY_OPTS_SERIALIZATION @ c1 @ sig_tail S sigs"
      using c(2) by (auto simp: signed_form_def sig_layer_def)
    let ?t = "c1 @ sig_tail S sigs @ archive_tail"
    have lm: "length SIGNATURE_LAYER_MAGIC = 8" by (simp add: SIGNATURE_LAYER_MAGIC_def)
    have d1: "drop (pos r) (view r) = SIGNATURE_LAYER_MAGIC @ EMPTY_OPTS_SERIALIZATION @ ?t" using d s by simp
    obtain r1 where r1: "read_layer_magic rd r = (Inr SIGNATURE_LAYER_MAGIC, r1)" "rinv r1" "view r1 = view r"
      "drop (pos r1) (view r) = EMPTY_OPTS_SERIALIZATION @ ?t"
      by (rule magic_rest [OF so r(2) d1]) (use lm in simp_all)
    note rs = raw_truncated_source [OF so]
    obtain r2 where r2: "opts_from_reader (raw_truncated_read rd) \<lparr>rt_inner = r1\<rparr> = (Inr (), r2)" "rinv (rt_inner r2)"
      "view (rt_inner r2) = view r" "drop (pos (rt_inner r2)) (view r) = ?t"
      by (rule parsed_rest [OF rs source.parses_opts [OF rs], of "\<lparr>rt_inner = r1\<rparr>" ?t]) (use r1 in simp_all)
    obtain r3 where "read_layer_magic (sig_truncated_read (raw_truncated_read rd)) \<lparr>st_inner = r2\<rparr> = (Inr (take 8 c1), r3)"
      by (rule magic_rest [OF sig_truncated_source [OF rs], of "\<lparr>st_inner = r2\<rparr>" c1 "sig_tail S sigs @ archive_tail"])
        (use r2 c(3) in simp_all)
    then show ?thesis
      using r(1) r1(1) r2(1) c(5) Some by (simp add: read_info_def sig_truncated_new_skip_magic_def)
  qed
qed

text \<open>C3: the decapsulation of the shared secret can be handed over. From an encrypted archive, one computer extracts the
  encapsulated keys and writes them down; another reads them back, decapsulates the shared secret with the private
  key of one of the recipients (those before it failing their tag), and writes it down in 32 bytes; the first one
  reads it back, and with this secret alone has the key and the nonce the archive is encrypted with.\<close>

theorem shared_secret_handoff:
  assumes so: "source rd view pos rinv" and src: "rinv src" "pos src = 0" "length (view src) < 2 ^ 62"
    and f: "archive_form S K G decode bound wcfg rng content (view src)" and h: "take 8 content = ENTRIES_LAYER_MAGIC"
    and K: "kem_ok K" and G: "gcm_prims_ok G"
    and keys: "wcfg_encryption wcfg = Some (pks1 @ public_key_of K sk # pks2)"
    and n: "length (pks1 @ public_key_of K sk # pks2) < 2 ^ 64"
    and t: "to_persistent K G (pks1 @ public_key_of K sk # pks2) rng = (Inr (pc, (key, nonce)), g')"
    and o: "\<forall>r\<in>set (take (length pks1) (mk_recipients (ep_encapsulated_key pc))). try_recipient K G sk r = Inr None"
  shows "\<exists>metadata mb ss sb r1 r2. metadata_from_archive K rd src = Inr metadata \<and>
    serialize_metadata vec_write metadata [] = (Inr (length mb), mb) \<and>
    deserialize_metadata K cursor_read (cursor_new mb) = (Inr metadata, r1) \<and>
    decapsulate_shared_secret K G sk metadata = Inr ss \<and>
    serialize_shared_secret vec_write ss [] = (Inr 32, sb) \<and>
    deserialize_shared_secret cursor_read (cursor_new sb) = (Inr ss, r2) \<and>
    load_persistent K G pc (set_shared_secrets [ss] \<lparr>rc_private_keys = [], rc_encrypt_parameters = None, rc_shared_secrets = []\<rparr>) =
      (Inr (), \<lparr>rc_private_keys = [], rc_encrypt_parameters = Some (key, nonce), rc_shared_secrets = [ss]\<rparr>)"
proof -
  let ?keys = "pks1 @ public_key_of K sk # pks2"
  have n': "\<And>ks. wcfg_encryption wcfg = Some ks \<Longrightarrow> length ks < 2 ^ 64" using keys n by simp
  obtain c0 c1 c2 where c: "view src = Format.enc_header @ c0 @ archive_tail"
    "signed_form S (wcfg_signature wcfg) Format.enc_header c1 c0" "encrypted_form K G (wcfg_encryption wcfg) rng c2 c1"
    "8 \<le> length c1" "take 8 c1 \<noteq> SIGNATURE_LAYER_MAGIC"
    "take 8 c1 = ENCRYPTION_LAYER_MAGIC \<longleftrightarrow> wcfg_encryption wcfg \<noteq> None" by (rule archive_form_heads [OF f h K G n'])
  let ?m = "ep_encapsulated_key pc"
  obtain ss where e: "encapsulate K G ?keys rng = (Inr (?m, ss), g')" by (rule to_persistent_steps [OF K G t])
  from to_persistent_steps [OF K G t] have "length ?keys < 2 ^ 64 \<Longrightarrow> persistent_wf K pc" by metis
  with n have wf: "persistent_wf K pc" by simp
  obtain g1 where ls: "length ss = 32" by (rule encapsulate_steps [OF K e])
  have mg: "take 8 c1 = ENCRYPTION_LAYER_MAGIC" using c(6) keys by simp
  have "c1 = enc_layer G pc key nonce c2" using c(3) keys t by (simp add: encrypted_form_def)
  then obtain u where u: "drop 8 c1 = EMPTY_OPTS_SERIALIZATION @ to_le 2 0 @ enc_persistent pc @ u"
    by (simp add: enc_layer_def enc_header_def ENCRYPTION_LAYER_MAGIC_def)
  obtain r where r: "archive_header_deserialize rd src = (Inr (ArchiveHeader MLA_FORMAT_VERSION), r)" "rinv r"
    "view r = view src" "drop (pos r) (view src) = c0 @ archive_tail" by (rule header_rest [OF so src(1,2) c(1)])
  have d: "drop (pos r) (view r) = c0 @ archive_tail" using r(3,4) by simp
  let ?i = "case_sum (\<lambda>s. rinv (rt_inner s)) (\<lambda>s. rinv (rt_inner (st_inner s)))"
    and ?v = "case_sum (\<lambda>s. view (rt_inner s)) (\<lambda>s. view (rt_inner (st_inner s)))"
    and ?p = "case_sum (\<lambda>s. pos (rt_inner s)) (\<lambda>s. pos (rt_inner (st_inner s)))"
  obtain src1 w where s1: "open_truncated_signature rd \<lparr>rt_inner = r\<rparr> = Inr (src1, take 8 c1)" "?i src1" "?v src1 = view r"
    "drop (?p src1) (view r) = drop 8 c1 @ w" by (rule open_truncated_signature_ok [OF so r(2) c(4,5,2) d])
  note rs = raw_truncated_source [OF so]
  have lv: "source (sig_truncated_level_read rd) ?v ?p ?i"
    unfolding sig_truncated_level_read_def by (rule either_source [OF rs sig_truncated_source [OF rs]])
  have d1: "drop (?p src1) (?v src1) = EMPTY_OPTS_SERIALIZATION @ to_le 2 0 @ enc_persistent pc @ u @ w"
    using s1(3,4) u by simp
  have l63: "length (?v src1) < 2 ^ 63" using s1(3) r(3) src(3) by simp
  obtain r' where "read_encryption_header_after_magic K (sig_truncated_level_read rd) src1 =
    (Inr (pc, 3 + length (enc_persistent pc) + 8), r')" by (rule source.read_header_ok [OF lv wf s1(2) l63 d1])
  then have md: "metadata_from_archive K rd src = Inr ?m"
    using r(1) s1(1) mg by (simp add: metadata_from_archive_def)
  let ?mb = "enc_vec enc_recipient (mk_recipients ?m)"
  have "length (enc_persistent pc) \<le> length (view src)" using arg_cong [OF d1, of length] s1(3) r(3) by simp
  then have lm: "length ?mb < 2 ^ 62" using src(3) by (simp add: enc_persistent_def)
  have room: "length ?mb \<le> vec_room []" "length ss \<le> vec_room []" using lm ls by (simp_all add: vec_room_def)
  have lr: "length (enc_recipient x) < 2 ^ 64" if "x \<in> set (mk_recipients ?m)" for x
    using that wf by (auto simp: persistent_wf_def recipient_wf_def enc_recipient_def)
  have "length ?mb < 2 ^ 64" using lm by simp
  note rv = vec.runs_vec [OF vec.runs_recipient [OF lr] this]
  obtain w1 where w1: "vec_serialize vec_write (recipient_key_serialize vec_write) (mk_recipients ?m) [] = (Inr (length ?mb), w1)"
    "w1 = [] @ ?mb" by (rule vec.runsE [OF rv TrueI room(1)])
  have ser: "serialize_metadata vec_write ?m [] = (Inr (length ?mb), ?mb)"
    using w1(1) unfolding w1(2) append_Nil serialize_metadata_def multi_recipient_key_serialize_def .
  have "cur.parses (vec_deserialize cursor_read (recipient_key_deserialize K cursor_read)) ?mb (mk_recipients ?m)"
    by (rule cur.parses_vec) (use wf cur.parses_recipient in \<open>auto simp: persistent_wf_def\<close>)
  then have pm: "cur.parses (deserialize_metadata K cursor_read) ?mb \<lparr>mk_recipients = mk_recipients ?m\<rparr>"
    unfolding deserialize_metadata_def multi_recipient_key_deserialize_def by (rule cur.parses_bindE_ret)
  have ic: "cursor_inv (cursor_new b)" "drop (cur_pos (cursor_new b)) (cur_data (cursor_new b)) = b @ []"
    if "length b < 2 ^ 62" for b using that by (simp_all add: cursor_inv_def cursor_new_def)
  obtain r1 where "deserialize_metadata K cursor_read (cursor_new ?mb) = (Inr \<lparr>mk_recipients = mk_recipients ?m\<rparr>, r1)"
    by (rule parsed_rest [OF cur.source_axioms pm ic [OF lm]])
  then have de: "deserialize_metadata K cursor_read (cursor_new ?mb) = (Inr ?m, r1)" by (cases ?m) simp
  have dc: "decapsulate_shared_secret K G sk ?m = Inr ss"
    using decapsulate_encapsulate [OF K G e o] by (simp add: decapsulate_shared_secret_def)
  have "length ss < 2 ^ 64" "length ss < 2 ^ 62" using ls by simp_all
  note rb = vec.runs_bytes [OF this(1)] and lss = this(2)
  obtain w2 where w2: "slice_serialize (u8_serialize vec_write) ss [] = (Inr (length ss), w2)" "w2 = [] @ ss"
    by (rule vec.runsE [OF rb TrueI room(2)])
  have ss: "serialize_shared_secret vec_write ss [] = (Inr 32, ss)"
    using w2(1) unfolding w2(2) append_Nil ls serialize_shared_secret_def .
  obtain r2 where ds: "deserialize_shared_secret cursor_read (cursor_new ss) = (Inr ss, r2)"
    unfolding deserialize_shared_secret_def
    by (rule parsed_rest [OF cur.source_axioms cur.parses_array [OF ls [symmetric]] ic [OF lss]])
  have ld: "load_persistent K G pc (set_shared_secrets [ss] \<lparr>rc_private_keys = [], rc_encrypt_parameters = None, rc_shared_secrets = []\<rparr>) =
      (Inr (), \<lparr>rc_private_keys = [], rc_encrypt_parameters = Some (key, nonce), rc_shared_secrets = [ss]\<rparr>)"
    using load_persistent_shared [OF K G t e] by (simp add: set_shared_secrets_def)
  show ?thesis by (intro exI conjI) (rule md ser de dc ss ds ld)+
qed

text \<open>A signed and encrypted archive without blocks.\<close>

definition demo_writer_config :: "unit archive_writer_config" where
  "demo_writer_config = \<lparr>wcfg_compression = None, wcfg_encryption = Some [public_key_of demo_kem demo_sk],
     wcfg_signature = Some \<lparr>sc_keys = [demo_signing_key], sc_rng = Inr ()\<rparr>\<rparr>"

lemma demo_archive:
  obtains v pc key nonce where "to_persistent demo_kem demo_prims [public_key_of demo_kem demo_sk] () = (Inr (pc, (key, nonce)), ())"
    "archive_form demo_sig demo_kem demo_prims Some 0 demo_writer_config () ENTRIES_LAYER_MAGIC v" "length v < 2 ^ 62"
proof -
  obtain pc key nonce where t: "to_persistent demo_kem demo_prims [public_key_of demo_kem demo_sk] () = (Inr (pc, (key, nonce)), ())"
    using demo_to_persistent by blast
  let ?c1 = "enc_layer demo_prims pc key nonce ENTRIES_LAYER_MAGIC"
  let ?h = "Format.enc_header @ SIGNATURE_LAYER_MAGIC @ EMPTY_OPTS_SERIALIZATION @ ?c1"
  have "sign_all demo_sig ?h [demo_signing_key] () =
      Some [MLAEd25519 (sign_ed25519 demo_sig demo_signing_key ?h), MLAMlDsa87 ()]"
    by (simp add: sign_mldsa87_def demo_sig_def)
  then obtain sigs where sa: "sign_all demo_sig ?h [demo_signing_key] () = Some sigs" by blast
  let ?c0 = "sig_layer demo_sig sigs ?c1"
  let ?v = "Format.enc_header @ ?c0 @ archive_tail"
  have f: "archive_form demo_sig demo_kem demo_prims Some 0 demo_writer_config () ENTRIES_LAYER_MAGIC ?v"
    using t sa by (auto simp: archive_form_def compressed_form_def encrypted_form_def signed_form_def demo_writer_config_def
        intro!: exI [of _ ?c1] exI [of _ ?c0])
  have "length (enc_signatures demo_sig sigs) = 4695" using sign_all_facts [OF demo_sig_ok sa] by simp
  moreover have "length (enc_persistent pc) < 4096"
  proof -
    from to_persistent_steps [OF demo_kem_ok demo_prims_ok t]
    have "length [public_key_of demo_kem demo_sk] < 2 ^ 64 \<Longrightarrow> persistent_wf demo_kem pc" by metis
    then have wf: "persistent_wf demo_kem pc" by simp
    obtain ss where e: "encapsulate demo_kem demo_prims [public_key_of demo_kem demo_sk] () = (Inr (ep_encapsulated_key pc, ss), ())"
      by (rule to_persistent_steps [OF demo_kem_ok demo_prims_ok t])
    obtain g1 where g1: "encapsulate_recipients demo_kem demo_prims ss [public_key_of demo_kem demo_sk] g1 =
        (Inr (mk_recipients (ep_encapsulated_key pc)), ())" "length ss = 32"
      by (rule encapsulate_steps [OF demo_kem_ok e])
    from encapsulate_recipients_wf [OF demo_kem_ok demo_prims_ok g1(2,1)]
    have "length (mk_recipients (ep_encapsulated_key pc)) = 1" by simp
    then show ?thesis using length_enc_persistent [OF wf] by simp
  qed
  moreover have "length (enc_body demo_prims key nonce (chunks ENTRIES_LAYER_MAGIC)) < 4096"
  proof -
    have "length ENTRIES_LAYER_MAGIC = 8" by (simp add: ENTRIES_LAYER_MAGIC_def)
    with length_enc_body [OF demo_prims_ok, of key nonce ENTRIES_LAYER_MAGIC] show ?thesis by (simp add: chunks_short)
  qed
  moreover have "length (sig_tail demo_sig sigs) = 25 + length (enc_signatures demo_sig sigs)"
    by (simp add: sig_tail_def length_enc_vec comp_def EMPTY_TAIL_OPTS_SERIALIZATION_def sum_list_triv)
  moreover have "length ?v = 13 + (9 + (length ?c1 + length (sig_tail demo_sig sigs))) + 17"
    by (simp add: Format.enc_header_def MLA_MAGIC_def EMPTY_OPTS_SERIALIZATION_def archive_tail_def SIGNATURE_LAYER_MAGIC_def
        EMPTY_TAIL_OPTS_SERIALIZATION_def END_MLA_MAGIC_def sig_layer_def)
  moreover have "length ?c1 = 11 + length (enc_persistent pc) + length (enc_body demo_prims key nonce (chunks ENTRIES_LAYER_MAGIC)) + 9"
    by (simp add: enc_layer_def enc_header_def ENCRYPTION_LAYER_MAGIC_def EMPTY_OPTS_SERIALIZATION_def
        EMPTY_TAIL_OPTS_SERIALIZATION_def)
  ultimately have "length ?v < 2 ^ 14" by simp
  moreover have "(2 :: nat) ^ 14 < 2 ^ 62" by simp
  ultimately have "length ?v < 2 ^ 62" by (rule less_trans)
  with t f show thesis by (rule that)
qed

theorem read_info_reports_witness:
  "\<exists>v. read_info cursor_read (cursor_new v) =
     Inr \<lparr>ai_format_version = 2, ai_encryption_enabled = True, ai_signature_enabled = True\<rparr>"
proof -
  obtain v pc key nonce where "to_persistent demo_kem demo_prims [public_key_of demo_kem demo_sk] () = (Inr (pc, (key, nonce)), ())"
    and f: "archive_form demo_sig demo_kem demo_prims Some 0 demo_writer_config () ENTRIES_LAYER_MAGIC v"
    and l: "length v < 2 ^ 62" by (rule demo_archive)
  have c: "cursor_inv (cursor_new v)" "cur_pos (cursor_new v) = 0" "cur_data (cursor_new v) = v"
    using l by (simp_all add: cursor_inv_def cursor_new_def)
  have fc: "archive_form demo_sig demo_kem demo_prims Some 0 demo_writer_config () ENTRIES_LAYER_MAGIC (cur_data (cursor_new v))"
    using f by (simp only: c(3))
  have h: "take 8 ENTRIES_LAYER_MAGIC = ENTRIES_LAYER_MAGIC" by (simp add: ENTRIES_LAYER_MAGIC_def)
  from read_info_reports [OF cur.source_axioms c(1,2) fc h demo_kem_ok demo_prims_ok]
  have "read_info cursor_read (cursor_new v) =
     Inr \<lparr>ai_format_version = 2, ai_encryption_enabled = True, ai_signature_enabled = True\<rparr>"
    by (simp add: demo_writer_config_def MLA_FORMAT_VERSION_def)
  then show ?thesis by blast
qed

theorem shared_secret_handoff_witness:
  "\<exists>v pc key nonce metadata ss. metadata_from_archive demo_kem cursor_read (cursor_new v) = Inr metadata \<and>
    decapsulate_shared_secret demo_kem demo_prims demo_sk metadata = Inr ss \<and>
    load_persistent demo_kem demo_prims pc (set_shared_secrets [ss] \<lparr>rc_private_keys = [], rc_encrypt_parameters = None, rc_shared_secrets = []\<rparr>) =
      (Inr (), \<lparr>rc_private_keys = [], rc_encrypt_parameters = Some (key, nonce), rc_shared_secrets = [ss]\<rparr>)"
proof -
  obtain v pc key nonce where t: "to_persistent demo_kem demo_prims [public_key_of demo_kem demo_sk] () = (Inr (pc, (key, nonce)), ())"
    and f: "archive_form demo_sig demo_kem demo_prims Some 0 demo_writer_config () ENTRIES_LAYER_MAGIC v"
    and l: "length v < 2 ^ 62" by (rule demo_archive)
  have c: "cursor_inv (cursor_new v)" "cur_pos (cursor_new v) = 0" "cur_data (cursor_new v) = v"
    using l by (simp_all add: cursor_inv_def cursor_new_def)
  have lv: "length (cur_data (cursor_new v)) < 2 ^ 62" using l c(3) by simp
  have fc: "archive_form demo_sig demo_kem demo_prims Some 0 demo_writer_config () ENTRIES_LAYER_MAGIC (cur_data (cursor_new v))"
    using f by (simp only: c(3))
  have h: "take 8 ENTRIES_LAYER_MAGIC = ENTRIES_LAYER_MAGIC" by (simp add: ENTRIES_LAYER_MAGIC_def)
  have t': "to_persistent demo_kem demo_prims ([] @ public_key_of demo_kem demo_sk # []) () = (Inr (pc, (key, nonce)), ())" using t by simp
  have k: "wcfg_encryption demo_writer_config = Some ([] @ public_key_of demo_kem demo_sk # [])" by (simp add: demo_writer_config_def)
  have n: "length ([] @ public_key_of demo_kem demo_sk # []) < 2 ^ 64" by simp
  have o: "\<forall>r\<in>set (take (length ([] :: encryption_public_key list)) (mk_recipients (ep_encapsulated_key pc))).
    try_recipient demo_kem demo_prims demo_sk r = Inr None" by simp
  from shared_secret_handoff [OF cur.source_axioms c(1,2) lv fc h demo_kem_ok demo_prims_ok k n t' o]
  show ?thesis by blast
qed

end
