(* ===== verification/Spec2Isabelle.thy ===== *)
theory Spec2Isabelle
  imports Roundtrip Base64 EncryptLayer CompressTruncated Recovered SignatureLayer StackReader KeyFile Extract Info
begin

text \<open>
  \<^bold>\<open>MLA: the archive format of the \<^verbatim>\<open>mla\<close> crate.\<close>

  An MLA archive is a stream of blocks (start of an entry, content, end of an entry with its hash, end of the
  archive) followed by an index, wrapped in optional layers: compression (blocks of 4 MiB), encryption (AES-256-GCM
  on chunks of 128 KiB under a key shared through a hybrid of X25519 and ML-KEM-1024) and signature (Ed25519 and
  ML-DSA-87 over everything below them), and put between a header and a tail. A writer stacks the layers it is
  configured for, a reader those it finds; a truncated archive is read without seeking and rewritten into a
  complete one. This development models the crate \<^verbatim>\<open>mla/src\<close> from the byte encodings up to the whole stack.

  \<^bold>\<open>Operations.\<close> An operation on a state \<open>'s\<close> is a function \<open>'s \<Rightarrow> (error + 'a) \<times> 's\<close>: the state survives an error,
  as it does behind \<^verbatim>\<open>&mut self\<close>. A reader is any type with a \<open>read\<close> of at most \<open>n\<close> bytes, a seekable one
  has a \<open>seek\<close> too, and a writer is any type with a \<open>write\<close> that says how many bytes it took. The laws they
  obey are the locales of theory Io: \<open>source\<close>, \<open>eof_source\<close>, \<open>seekable\<close> (and \<open>full_seekable\<close>,
  \<open>closed_seekable\<close>, \<open>window_seekable\<close>, \<open>end_seekable\<close>, \<open>eof_seekable\<close> of the layers), \<open>sink\<close>, \<open>room_sink\<close>, \<open>copier\<close>,
  \<open>stopping_source\<close>, \<open>writer_level\<close>. Short reads and short writes are therefore everywhere. Every layer is
  polymorphic in what is below it, and is proved to obey the laws itself: this is how the layers compose.
  All the locales are interpreted on the models of \<^verbatim>\<open>Cursor\<close> and \<^verbatim>\<open>Vec\<close>, or of the layers over them.
  A panic is the error \<open>IoPanic\<close> (\<open>Panic\<close> of the archive errors, \<open>ConfigPanic\<close> of the configuration errors); a
  computation that may never return is a \<open>partial_function\<close> whose value is then, and only then, \<open>None\<close>.

  \<^bold>\<open>Theories and code\<close> (paths under \<^verbatim>\<open>src/mla/src\<close>):
  \<^item> Prelude: \<^verbatim>\<open>errors.rs\<close>, machine integers, checked arithmetic, little endian encodings, the monad.
  \<^item> Io: what the code uses of \<^verbatim>\<open>std::io\<close> (\<open>read_exact\<close>, \<open>write_all\<close>, \<open>take\<close>, \<open>copy\<close>, \<open>read_to_end\<close>,
    \<^verbatim>\<open>Cursor\<close>, \<^verbatim>\<open>Vec\<close>), and the locales with the calculus of parsers (\<open>parses\<close>) and of writers (\<open>runs\<close>).
  \<^item> Serialize: the traits \<^verbatim>\<open>MLASerialize\<close>, \<^verbatim>\<open>MLADeserialize\<close> and the options of \<^verbatim>\<open>lib.rs\<close>.
  \<^item> EntryName: \<^verbatim>\<open>EntryName\<close> of \<^verbatim>\<open>entry.rs\<close>, percent escaping of \<^verbatim>\<open>helpers.rs\<close>, the conversion to paths.
  \<^item> Base64: \<^verbatim>\<open>base64.rs\<close>. KeyFile: \<^verbatim>\<open>crypto/mlakey.rs\<close>, key files and derivation of keys.
  \<^item> Format: \<^verbatim>\<open>format.rs\<close>, the header and the blocks. Blocks: the abstract archive, a list of blocks, its
    well-formedness, contents and offsets. Index: \<^verbatim>\<open>EntryInfo\<close> and \<^verbatim>\<open>ArchiveFooter\<close> of \<^verbatim>\<open>lib.rs\<close>.
  \<^item> Wrappers: \<^verbatim>\<open>layers/position.rs\<close>, \<^verbatim>\<open>crypto/hash.rs\<close>. Writer: \<^verbatim>\<open>ArchiveWriter\<close> of \<^verbatim>\<open>lib.rs\<close>.
  \<^item> EntryReader: \<^verbatim>\<open>ArchiveEntryDataReader\<close> of \<^verbatim>\<open>entry.rs\<close>. Reader: \<^verbatim>\<open>ArchiveReader\<close> of \<^verbatim>\<open>lib.rs\<close>.
    Roundtrip: a client that writes files and reads them back.
  \<^item> ViewLayers, Window: \<^verbatim>\<open>layers/raw.rs\<close>, \<^verbatim>\<open>layers/strip_head_tail.rs\<close>.
  \<^item> AesGcm: \<^verbatim>\<open>crypto/aesgcm/mod.rs\<close>. EncryptWriter, EncryptReader: the chunks of \<^verbatim>\<open>layers/encrypt.rs\<close>. Hybrid:
    \<^verbatim>\<open>crypto/hpke.rs\<close>, \<^verbatim>\<open>crypto/hybrid.rs\<close> and the configuration of the layer. EncryptLayer: the layer as it is stacked.
  \<^item> CompressWriter, CompressReader, CompressTruncated: \<^verbatim>\<open>layers/compress.rs\<close>.
  \<^item> Signature, SignatureLayer: \<^verbatim>\<open>crypto/hybrid_signature.rs\<close>, \<^verbatim>\<open>layers/signature.rs\<close>; Keeps: what a successful
    operation leaves unchanged.
  \<^item> Recover, Recovered: \<^verbatim>\<open>TruncatedArchiveReader::convert_to_archive\<close> of \<^verbatim>\<open>lib.rs\<close>.
  \<^item> Config: \<^verbatim>\<open>config.rs\<close>. Layers: the three \<^verbatim>\<open>from_config\<close> of \<^verbatim>\<open>lib.rs\<close>, where the layers are stacked.
  \<^item> Below, StackWriter, Stack: the writing stack for every configuration. StackReader: the reading stack, and the
    end-to-end theorems.
  \<^item> Extract: \<^verbatim>\<open>linear_extract\<close> of \<^verbatim>\<open>helpers.rs\<close>, over \<^verbatim>\<open>BufReader\<close>. Info: \<^verbatim>\<open>info.rs\<close> and the module
    \<^verbatim>\<open>shared_secret\<close> of \<^verbatim>\<open>helpers.rs\<close>, which read the head of an archive only.

  \<^bold>\<open>State.\<close> \<open>archive_writer\<close> is \<^verbatim>\<open>ArchiveWriter\<close> (destination, the entries that are open with their hashes, the
  maps of names, of identifiers and of offsets, the next identifier); \<open>archive_reader\<close> and \<open>entry_data_reader\<close> are
  \<^verbatim>\<open>ArchiveReader\<close> and \<^verbatim>\<open>ArchiveEntryDataReader\<close>; \<open>enc_writer\<close>, \<open>enc_reader\<close>, \<open>compression_writer\<close>,
  \<open>compression_reader\<close>, \<open>sig_writer\<close> and the others are the layers of the same name, field by field. A stack is a
  nested sum: \<open>Inl\<close> where a layer is absent, \<open>Inr\<close> where it is there, which is what \<^verbatim>\<open>Box<dyn ...>\<close> dispatches on.

  \<^bold>\<open>What the lemmas show.\<close>
  \<^item> Encodings: each \<open>parses_...\<close> lemma says that a parser reads back exactly what the matching \<open>runs_...\<close> lemma
    says the serializer writes, over any reader and writer; hence the round trips of blocks, footers, signatures,
    encapsulated keys and key files.
  \<^item> Refinement of the writer: the relation between its state and the abstract list of blocks is kept by every
    call (Writer), so that any interleaving of calls writes the encoding of a well-formed list with its index.
  \<^item> Refinement of the readers: an opened archive answers as the abstract list does (Reader), and the reader of an
    entry is itself a seekable source of the contents of the entry (EntryReader).
  \<^item> Layers: each reader layer over a seekable source of the encoded bytes is a seekable source of the
    plaintext; each writer layer outputs the encoding of what was written. \<open>archive_form\<close> describes the bytes of a
    complete archive for a configuration; \<open>stack_writes\<close> shows that the writer makes it, \<open>stack_reads\<close> that
    the reader opens it, and \<open>archive_roundtrip\<close> puts them together.
  \<^item> Writers that refuse: \<open>below\<close> (theory Below) orders operations by success, to carry the facts about a writer with
    room over to the layers, which need more room than they are given bytes.
  \<^item> Errors: guards of the writer, refusal of archives that lack a layer the reader asks for, truncated sources,
    wrong tags, crafted indexes.
  \<^item> Recovery: from any prefix of the blocks, what was received is rewritten into a complete archive.

  \<^bold>\<open>Bounds and fuel.\<close> Files have less than \<open>2 ^ 40\<close> bytes in the end-to-end theorem and a destination has \<open>2 ^ 62\<close>
  bytes of room, so that no length leaves 64 bits; a compressed block has less than \<open>2 ^ 32\<close> bytes because its
  length is stored in 32 bits; there are less than \<open>2 ^ 40\<close> keys. The loops of the code are recursive functions with
  a measure; those that need not end (\<open>entry_read\<close>, \<open>read_blocks\<close>, \<open>copy_to_sink\<close>, \<open>zeroizeable_read_loop\<close>,
  \<open>extract_blocks\<close>) are partial functions, and the theorems say that they return. Only \<open>truncated_read\<close> has fuel, for its retries on one
  stack of calls: \<open>truncated_read_more_fuel\<close> shows that more fuel does not change a result.

  \<^bold>\<open>Parameters.\<close> Code that is not in the repository is an argument of the definitions that use it: the block cipher and
  GHASH (\<open>gcm_prims\<close>), HPKE's labeled functions, HKDF, the key encapsulations and random generators
  (\<open>kem_prims\<close>), SHA-512 and the signatures (\<open>sig_prims\<close>), the decoders of keys (\<open>key_prims\<close>), SHA-256, and brotli, of
  which the code relies on: what is compressed in one stream decompresses to itself. Their hypotheses (\<open>gcm_prims_ok\<close>,
  \<open>kem_ok\<close>, \<open>sig_ok\<close>, the two of brotli) state the lengths and the round trips of these crates, no more: nothing here
  depends on the strength of the cryptography. Each has a small instance, on which the witnesses run.

  \<^bold>\<open>Not modelled.\<close> Zeroization, reference counting and debug output, which are not observable; flushing; the retry on
  \<^verbatim>\<open>ErrorKind::Interrupted\<close>; the parallelism of brotli; the command line tools \<^verbatim>\<open>mlar\<close> and \<^verbatim>\<open>mlar-upgrader\<close>, the
  bindings for C, Python and WebAssembly, the fuzzer and the benchmarks, which parse arguments and call the crate;
  tests and test vectors.
\<close>

end
